(* ===== verification/Kern_Prelude.thy ===== *)
theory Kern_Prelude
  imports Main "HOL-Library.Word"
begin

text \<open>
  Shared vocabulary of the development: the C integer types of the kernel sources at their
  LP64 widths, the buffers the components pass around, the collections of rewrite rules the
  component proofs use, and the generic list, option and word lemmas that more than one
  component needs.

  The kernel's \<^verbatim>\<open>u_int8_t\<close>, \<^verbatim>\<open>u_int16_t\<close>, \<^verbatim>\<open>u_int32_t\<close> and \<^verbatim>\<open>u_int64_t\<close> are words of their
  width, so that \<open>+\<close>, \<open>-\<close> and \<open>*\<close> wrap as in C. A C \<^verbatim>\<open>int\<close> that the code only uses as a small
  count or an index is a \<open>nat\<close> or an \<open>int\<close>; each component says so where it declares its state.
\<close>

unbundle bit_operations_syntax

section \<open>Machine integers\<close>

type_synonym u8 = "8 word"
type_synonym u16 = "16 word"
type_synonym u32 = "32 word"
type_synonym u64 = "64 word"

text \<open>A contiguous byte buffer, and an mbuf chain: the data of each mbuf, in chain order.\<close>

type_synonym bytes = "u8 list"
type_synonym mbuf_chain = "bytes list"

text \<open>The error numbers the modelled system calls return.\<close>

datatype errno =
  EPERM | EINTR | EIO | ENXIO | EBADF | ENOMEM | EFAULT | EINVAL | EMFILE | EWOULDBLOCK | EAGAIN |
  EDEADLK | ENOLCK | EOVERFLOW | ERESTART | ENOTDIR | EOPNOTSUPP | EMSGSIZE | ERANGE | EEXIST |
  ENOBUFS | ENETDOWN | ENODEV | EBUSY | ENOSPC | ENFILE | EACCES | ENOTTY | ENOENT | ENOTSUP

section \<open>Rule collections\<close>

text \<open>
  \<open>kern_defs\<close> collects the unfoldings of the small constants and macros of the sources,
  \<open>kern_inv\<close> the definitions of the components' state invariants.
\<close>

named_theorems kern_defs
named_theorems kern_inv

section \<open>Byte order\<close>

text \<open>
  The kernel's \<^verbatim>\<open>ntohl\<close> and \<^verbatim>\<open>ntohs\<close> applied to bytes copied out of a packet: whatever the
  byte order of the host, the first byte of the packet is the most significant one.
\<close>

lemma unat_lt2p_u8: "unat (b :: u8) < 256"
  using unsigned_less [of b] by simp

lemma unat_lt2p_u32: "unat (w :: u32) < 2 ^ 32"
  using unsigned_less [of w] by simp

fun be_bytes :: "bytes \<Rightarrow> nat" where
  "be_bytes [] = 0"
| "be_bytes (b # bs) = unat b * 256 ^ length bs + be_bytes bs"

lemma be_bytes_bound: "be_bytes bs < 256 ^ length bs"
proof (induction bs)
  case Nil
  then show ?case by simp
next
  case (Cons b bs)
  have "unat b \<le> 255"
    using unat_lt2p_u8 [of b] by simp
  then have "unat b * 256 ^ length bs \<le> 255 * 256 ^ length bs"
    by (rule mult_le_mono1)
  with Cons have "unat b * 256 ^ length bs + be_bytes bs < 256 * 256 ^ length bs"
    by linarith
  then show ?case by simp
qed

lemma be_bytes_append:
  "be_bytes (xs @ ys) = be_bytes xs * 256 ^ length ys + be_bytes ys"
  by (induction xs) (simp_all add: power_add algebra_simps)

section \<open>Lists\<close>

lemma take_drop_append_split:
  "k \<le> length xs \<Longrightarrow> take n (drop k (xs @ ys)) = take n (drop k xs) @ take (n - (length xs - k)) ys"
  by simp

lemma sum_list_map_length [simp]: "sum_list (map length xss) = length (concat xss)"
  by (simp add: length_concat)

section \<open>Words\<close>

lemma unat_of_nat_less:
  "n < 2 ^ LENGTH('a) \<Longrightarrow> unat (of_nat n :: 'a::len word) = n"
  by (simp add: unat_of_nat take_bit_eq_mod)

lemma word_of_nat_inj_less:
  assumes "(of_nat m :: 'a::len word) = of_nat n"
    and "m < 2 ^ LENGTH('a)" and "n < 2 ^ LENGTH('a)"
  shows "m = n"
proof -
  have "unat (of_nat m :: 'a word) = unat (of_nat n :: 'a word)"
    using assms(1) by simp
  then show ?thesis
    using assms(2,3) by (simp add: unat_of_nat_less)
qed

section \<open>Memory writes\<close>

text \<open>\<^verbatim>\<open>memcpy\<close> and \<^verbatim>\<open>memset\<close> into the middle of a buffer.\<close>

definition mem_write :: "nat \<Rightarrow> 'a list \<Rightarrow> 'a list \<Rightarrow> 'a list" where
  "mem_write off xs s = take off s @ xs @ drop (off + length xs) s"

lemma length_mem_write [simp]: "off + length xs \<le> length s \<Longrightarrow> length (mem_write off xs s) = length s"
  by (simp add: mem_write_def)

lemma nth_mem_write:
  "off + length xs \<le> length s \<Longrightarrow> j < length s \<Longrightarrow>
   mem_write off xs s ! j = (if off \<le> j \<and> j < off + length xs then xs ! (j - off) else s ! j)"
  by (auto simp: mem_write_def nth_append min_def)

section \<open>Ring buffers\<close>

text \<open>
  The \<open>cc\<close> cells of a ring of \<open>n\<close> cells from position \<open>f\<close> on. The three lemmas say what taking \<open>k\<close> cells
  from the front, adding \<open>k\<close> at the back and removing the last one do, when the cells touched do not
  wrap: this is how the code moves data, one contiguous piece at a time.
\<close>

definition ring :: "nat \<Rightarrow> (nat \<Rightarrow> 'a) \<Rightarrow> nat \<Rightarrow> nat \<Rightarrow> 'a list" where
  "ring n cell f cc = map (\<lambda>i. cell ((f + i) mod n)) [0..<cc]"

lemma length_ring [simp]: "length (ring n cell f cc) = cc"
  by (simp add: ring_def)

lemma nth_ring [simp]: "i < cc \<Longrightarrow> ring n cell f cc ! i = cell ((f + i) mod n)"
  by (simp add: ring_def)

lemma ring_0 [simp]: "ring n cell f 0 = []"
  by (simp add: ring_def)

lemma ring_mod_outside:
  fixes f k i n :: nat
  assumes "f < n" and "f + k \<le> n" and "k + i < n"
  shows "(f + k + i) mod n < f \<or> f + k \<le> (f + k + i) mod n"
  using assms by (cases "f + k + i < n") (auto simp: mod_if)

lemma ring_take:
  "f + k \<le> n \<Longrightarrow> k \<le> cc \<Longrightarrow> take k (ring n cell f cc) = map cell [f..<f + k]"
  by (rule nth_equalityI) auto

lemma ring_drop:
  assumes "f < n" and "f + k \<le> n" and "k \<le> cc" and "cc \<le> n"
    and "\<And>j. j < n \<Longrightarrow> j < f \<or> f + k \<le> j \<Longrightarrow> cell' j = cell j"
  shows "ring n cell' ((f + k) mod n) (cc - k) = drop k (ring n cell f cc)"
proof (rule nth_equalityI)
  fix i assume i: "i < length (ring n cell' ((f + k) mod n) (cc - k))"
  have "((f + k) mod n + i) mod n = (f + k + i) mod n" by (simp add: mod_add_left_eq)
  moreover have "(f + k + i) mod n < n" using assms(1) by simp
  moreover have "(f + k + i) mod n < f \<or> f + k \<le> (f + k + i) mod n"
    using assms(1,2,4) i by (intro ring_mod_outside) simp_all
  ultimately show "ring n cell' ((f + k) mod n) (cc - k) ! i = drop k (ring n cell f cc) ! i"
    using assms(5) i by (simp add: add.assoc)
qed (use assms in simp)

lemma ring_mod_inside:
  fixes f cc i n :: nat
  assumes "f < n" and "i < cc" and "cc + k \<le> n" and "(f + cc) mod n + k \<le> n"
  shows "(f + i) mod n < (f + cc) mod n \<or> (f + cc) mod n + k \<le> (f + i) mod n"
  using assms by (cases "f + cc < n"; cases "f + i < n") (auto simp: mod_if)

lemma ring_append:
  assumes "f < n" and "cc + k \<le> n" and "(f + cc) mod n + k \<le> n"
    and same: "\<And>j. j < n \<Longrightarrow> j < (f + cc) mod n \<or> (f + cc) mod n + k \<le> j \<Longrightarrow> cell' j = cell j"
  shows "ring n cell' f (cc + k) = ring n cell f cc @ map cell' [(f + cc) mod n..<(f + cc) mod n + k]"
proof (rule nth_equalityI)
  fix i assume i: "i < length (ring n cell' f (cc + k))"
  show "ring n cell' f (cc + k) ! i = (ring n cell f cc @ map cell' [(f + cc) mod n..<(f + cc) mod n + k]) ! i"
  proof (cases "i < cc")
    case True
    have "(f + i) mod n < n" using assms(1) by simp
    then have "cell' ((f + i) mod n) = cell ((f + i) mod n)"
      by (rule same) (rule ring_mod_inside [OF assms(1) True assms(2,3)])
    with i True show ?thesis by (simp add: nth_append)
  next
    case False
    have "f + i = f + cc + (i - cc)" using False by simp
    then have "(f + i) mod n = ((f + cc) mod n + (i - cc)) mod n" by (metis mod_add_left_eq)
    also have "\<dots> = (f + cc) mod n + (i - cc)" using i False assms(3) by (intro mod_less) simp
    finally show ?thesis using i False by (simp add: nth_append)
  qed
qed simp

lemma ring_butlast:
  assumes "f < n" and "0 < cc" and "cc \<le> n"
    and same: "\<And>j. j < n \<Longrightarrow> j \<noteq> (f + (cc - 1)) mod n \<Longrightarrow> cell' j = cell j"
  shows "ring n cell f cc = ring n cell' f (cc - 1) @ [cell ((f + (cc - 1)) mod n)]"
proof (rule nth_equalityI)
  fix i assume i: "i < length (ring n cell f cc)"
  show "ring n cell f cc ! i = (ring n cell' f (cc - 1) @ [cell ((f + (cc - 1)) mod n)]) ! i"
  proof (cases "i < cc - 1")
    case True
    have "(f + i) mod n \<noteq> (f + (cc - 1)) mod n"
      using True assms(1-3) by (cases "f + i < n"; cases "f + (cc - 1) < n") (auto simp: mod_if)
    then have "cell' ((f + i) mod n) = cell ((f + i) mod n)" using assms(1) by (intro same) simp_all
    with i True show ?thesis by (simp add: nth_append)
  next
    case False
    then have "i = cc - 1" using i by simp
    then show ?thesis using i by (simp add: nth_append)
  qed
qed (use assms in simp)

section \<open>Bounded queues\<close>

text \<open>
  The interface of a first-in-first-out queue of bounded size: \<open>enq\<close> refuses when the queue is full,
  \<open>deq\<close> when it is empty. The clients below (a producer, a consumer and a loop that moves one queue into
  another) are proved for every such queue.
\<close>

fun enq_list :: "('e \<Rightarrow> 'q \<Rightarrow> 'q option) \<Rightarrow> 'e list \<Rightarrow> 'q \<Rightarrow> 'q" where
  "enq_list enq [] q = q"
| "enq_list enq (x # xs) q = enq_list enq xs (case enq x q of None \<Rightarrow> q | Some q' \<Rightarrow> q')"

fun deq_list :: "('q \<Rightarrow> ('e \<times> 'q) option) \<Rightarrow> nat \<Rightarrow> 'q \<Rightarrow> 'e list \<times> 'q" where
  "deq_list deq 0 q = ([], q)"
| "deq_list deq (Suc n) q =
     (case deq q of
        None \<Rightarrow> ([], q)
      | Some (x, q') \<Rightarrow> (let (xs, q'') = deq_list deq n q' in (x # xs, q'')))"

locale fifo =
  fixes inv :: "'q \<Rightarrow> bool" and contents :: "'q \<Rightarrow> 'e list" and cap :: "'q \<Rightarrow> nat"
    and enq :: "'e \<Rightarrow> 'q \<Rightarrow> 'q option" and deq :: "'q \<Rightarrow> ('e \<times> 'q) option"
  assumes enq_room: "inv q \<Longrightarrow> length (contents q) < cap q \<Longrightarrow>
      \<exists>q'. enq x q = Some q' \<and> inv q' \<and> contents q' = contents q @ [x] \<and> cap q' = cap q"
    and enq_full: "inv q \<Longrightarrow> cap q \<le> length (contents q) \<Longrightarrow> enq x q = None"
    and deq_empty: "inv q \<Longrightarrow> contents q = [] \<Longrightarrow> deq q = None"
    and deq_cons: "inv q \<Longrightarrow> contents q = x # xs \<Longrightarrow>
      \<exists>q'. deq q = Some (x, q') \<and> inv q' \<and> contents q' = xs \<and> cap q' = cap q"
begin

lemma enq_list_contents:
  "inv q \<Longrightarrow> length (contents q) \<le> cap q \<Longrightarrow>
   inv (enq_list enq xs q) \<and> cap (enq_list enq xs q) = cap q \<and>
   contents (enq_list enq xs q) = contents q @ take (cap q - length (contents q)) xs"
proof (induction xs arbitrary: q)
  case Nil
  then show ?case by simp
next
  case (Cons x xs)
  show ?case
  proof (cases "length (contents q) < cap q")
    case True
    from enq_room [OF Cons.prems(1) True, of x] obtain q' where
      q': "enq x q = Some q'" "inv q'" "contents q' = contents q @ [x]" "cap q' = cap q" by blast
    have "cap q - length (contents q) = Suc (cap q - Suc (length (contents q)))" using True by simp
    with Cons.IH [OF q'(2)] q' True show ?thesis by (simp add: take_Cons')
  next
    case False
    with enq_full [OF Cons.prems(1), of x] Cons show ?thesis by simp
  qed
qed

lemma deq_list_contents:
  "inv q \<Longrightarrow> fst (deq_list deq n q) = take n (contents q) \<and> inv (snd (deq_list deq n q)) \<and>
   contents (snd (deq_list deq n q)) = drop n (contents q) \<and> cap (snd (deq_list deq n q)) = cap q"
proof (induction n arbitrary: q)
  case 0
  then show ?case by simp
next
  case (Suc n)
  show ?case
  proof (cases "contents q")
    case Nil
    with deq_empty [OF Suc.prems Nil] Suc.prems show ?thesis by simp
  next
    case (Cons x xs)
    then obtain q' where "deq q = Some (x, q')" "inv q'" "contents q' = xs" "cap q' = cap q"
      using deq_cons [OF Suc.prems] by blast
    with Suc.IH [of q'] Cons show ?thesis by (simp add: case_prod_beta Let_def)
  qed
qed

text \<open>What goes into a queue with enough room comes out in the same order, after what was there.\<close>

lemma fifo_order:
  assumes "inv q" and "length (contents q) + length xs \<le> cap q"
  shows "fst (deq_list deq (length (contents q) + length xs) (enq_list enq xs q)) = contents q @ xs"
proof -
  have "inv (enq_list enq xs q)" "contents (enq_list enq xs q) = contents q @ xs"
    using enq_list_contents [OF assms(1), of xs] assms(2) by simp_all
  then show ?thesis using deq_list_contents [of "enq_list enq xs q"] by simp
qed

end

end
