(* ===== verification/Bpf_Filter.thy ===== *)
theory Bpf_Filter
  imports Kern_Prelude
begin

text \<open>
  The BSD packet filter machine of \<^verbatim>\<open>sys/net/bpf_filter.c\<close>: its instruction encoding
  (\<^verbatim>\<open>sys/net/bpf.h\<close>), the interpreter \<^verbatim>\<open>_bpf_filter\<close>, the two implementations of the packet
  load operations (a linear buffer in \<^verbatim>\<open>bpf_filter.c\<close>, an mbuf chain in \<^verbatim>\<open>bpf.c\<close>) and the
  validator \<^verbatim>\<open>bpf_validate\<close>.

  What C leaves undefined is a value here: reading an instruction past the end of the program,
  indexing the scratch memory out of range, dividing by zero and shifting a 32-bit register by
  32 or more each end the run with a \<open>bpf_fault\<close>. The theorems show which of them a validated
  program can reach.
\<close>

section \<open>Instruction encoding\<close>

record bpf_insn =
  i_code :: u16
  i_jt :: u8
  i_jf :: u8
  i_k :: u32

definition BPF_CLASS :: "u16 \<Rightarrow> u16" where
  "BPF_CLASS c = c AND 0x07"

definition BPF_MODE :: "u16 \<Rightarrow> u16" where
  "BPF_MODE c = c AND 0xe0"

definition BPF_OP :: "u16 \<Rightarrow> u16" where
  "BPF_OP c = c AND 0xf0"

definition BPF_SRC :: "u16 \<Rightarrow> u16" where
  "BPF_SRC c = c AND 0x08"

abbreviation (input) "BPF_LD \<equiv> 0x00 :: u16"
abbreviation (input) "BPF_LDX \<equiv> 0x01 :: u16"
abbreviation (input) "BPF_ST \<equiv> 0x02 :: u16"
abbreviation (input) "BPF_STX \<equiv> 0x03 :: u16"
abbreviation (input) "BPF_ALU \<equiv> 0x04 :: u16"
abbreviation (input) "BPF_JMP \<equiv> 0x05 :: u16"
abbreviation (input) "BPF_RET \<equiv> 0x06 :: u16"
abbreviation (input) "BPF_MISC \<equiv> 0x07 :: u16"

abbreviation (input) "BPF_W \<equiv> 0x00 :: u16"
abbreviation (input) "BPF_H \<equiv> 0x08 :: u16"
abbreviation (input) "BPF_B \<equiv> 0x10 :: u16"

abbreviation (input) "BPF_IMM \<equiv> 0x00 :: u16"
abbreviation (input) "BPF_ABS \<equiv> 0x20 :: u16"
abbreviation (input) "BPF_IND \<equiv> 0x40 :: u16"
abbreviation (input) "BPF_MEM \<equiv> 0x60 :: u16"
abbreviation (input) "BPF_LEN \<equiv> 0x80 :: u16"
abbreviation (input) "BPF_MSH \<equiv> 0xa0 :: u16"
abbreviation (input) "BPF_RND \<equiv> 0xc0 :: u16"

abbreviation (input) "BPF_ADD \<equiv> 0x00 :: u16"
abbreviation (input) "BPF_SUB \<equiv> 0x10 :: u16"
abbreviation (input) "BPF_MUL \<equiv> 0x20 :: u16"
abbreviation (input) "BPF_DIV \<equiv> 0x30 :: u16"
abbreviation (input) "BPF_OR \<equiv> 0x40 :: u16"
abbreviation (input) "BPF_AND \<equiv> 0x50 :: u16"
abbreviation (input) "BPF_LSH \<equiv> 0x60 :: u16"
abbreviation (input) "BPF_RSH \<equiv> 0x70 :: u16"
abbreviation (input) "BPF_NEG \<equiv> 0x80 :: u16"
abbreviation (input) "BPF_MOD \<equiv> 0x90 :: u16"
abbreviation (input) "BPF_XOR \<equiv> 0xa0 :: u16"

abbreviation (input) "BPF_JA \<equiv> 0x00 :: u16"
abbreviation (input) "BPF_JEQ \<equiv> 0x10 :: u16"
abbreviation (input) "BPF_JGT \<equiv> 0x20 :: u16"
abbreviation (input) "BPF_JGE \<equiv> 0x30 :: u16"
abbreviation (input) "BPF_JSET \<equiv> 0x40 :: u16"

abbreviation (input) "BPF_K \<equiv> 0x00 :: u16"
abbreviation (input) "BPF_X \<equiv> 0x08 :: u16"
abbreviation (input) "BPF_A \<equiv> 0x10 :: u16"
abbreviation (input) "BPF_TAX \<equiv> 0x00 :: u16"
abbreviation (input) "BPF_TXA \<equiv> 0x80 :: u16"

definition BPF_MEMWORDS :: nat where
  "BPF_MEMWORDS = 16"

definition BPF_MAXINSNS :: int where
  "BPF_MAXINSNS = 512"

lemmas [kern_defs] = BPF_CLASS_def BPF_MODE_def BPF_OP_def BPF_SRC_def

section \<open>Packet load operations\<close>

text \<open>
  \<^verbatim>\<open>struct bpf_ops\<close>: the three loads the interpreter uses against the packet pointer. C returns
  the value and sets \<^verbatim>\<open>*err\<close>; here \<open>None\<close> is \<^verbatim>\<open>*err = 1\<close> (the value C returns with it is 0 and
  the interpreter does not look at it) and \<open>Some v\<close> is \<^verbatim>\<open>*err = 0\<close> with value \<open>v\<close>.
\<close>

record 'p bpf_ops =
  ldw :: "'p \<Rightarrow> u32 \<Rightarrow> u32 option"
  ldh :: "'p \<Rightarrow> u32 \<Rightarrow> u32 option"
  ldb :: "'p \<Rightarrow> u32 \<Rightarrow> u32 option"

text \<open>
  The linear buffer. \<^verbatim>\<open>k + sizeof(v)\<close> is an addition in \<^verbatim>\<open>size_t\<close>: \<open>sz\<close> is its width in bits, 64
  on LP64 machines and 32 on ILP32 ones, where the addition can wrap. \<^verbatim>\<open>memcpy\<close> past the end of
  the packet is written out: the bytes that lie beyond the buffer are the oracle \<open>oob\<close>, whatever
  the kernel has there.
\<close>

record bpf_mem =
  bm_pkt :: bytes
  bm_len :: u32
  bm_oob :: "nat \<Rightarrow> u8"

definition bm_byte :: "bpf_mem \<Rightarrow> nat \<Rightarrow> u8" where
  "bm_byte bm i = (if i < length (bm_pkt bm) then bm_pkt bm ! i else bm_oob bm i)"

definition bpf_mem_ldw :: "nat \<Rightarrow> bpf_mem \<Rightarrow> u32 \<Rightarrow> u32 option" where
  "bpf_mem_ldw sz bm k =
     (if (unat k + 4) mod 2 ^ sz > unat (bm_len bm) then None
      else Some (of_nat (be_bytes (map (\<lambda>i. bm_byte bm (unat k + i)) [0, 1, 2, 3]))))"

definition bpf_mem_ldh :: "nat \<Rightarrow> bpf_mem \<Rightarrow> u32 \<Rightarrow> u32 option" where
  "bpf_mem_ldh sz bm k =
     (if (unat k + 2) mod 2 ^ sz > unat (bm_len bm) then None
      else Some (of_nat (be_bytes (map (\<lambda>i. bm_byte bm (unat k + i)) [0, 1]))))"

definition bpf_mem_ldb :: "bpf_mem \<Rightarrow> u32 \<Rightarrow> u32 option" where
  "bpf_mem_ldb bm k =
     (if k \<ge> bm_len bm then None else Some (ucast (bm_byte bm (unat k))))"

definition bpf_mem_ops :: "nat \<Rightarrow> bpf_mem bpf_ops" where
  "bpf_mem_ops sz = \<lparr>ldw = bpf_mem_ldw sz, ldh = bpf_mem_ldh sz, ldb = bpf_mem_ldb\<rparr>"

text \<open>
  The mbuf chain. \<^verbatim>\<open>bpf_mbuf_copy\<close> first skips to the mbuf that holds offset \<open>off\<close>
  (\<open>bpf_mbuf_skip\<close>, the \<^verbatim>\<open>while\<close> loop; \<open>None\<close> when the chain ends first) and then gathers \<open>len\<close>
  bytes over as many mbufs as it takes (\<open>bpf_mbuf_gather\<close>, the \<^verbatim>\<open>for (;;)\<close> loop; \<open>None\<close> for -1).
  A chain has at least one mbuf; \<^verbatim>\<open>m_len\<close> is the length of its data and offsets are compared and
  subtracted as the non-negative numbers they are.
\<close>

fun bpf_mbuf_skip :: "mbuf_chain \<Rightarrow> nat \<Rightarrow> (mbuf_chain \<times> nat) option" where
  "bpf_mbuf_skip [] off = None"
| "bpf_mbuf_skip (m # ms) off =
     (if off \<ge> length m then bpf_mbuf_skip ms (off - length m) else Some (m # ms, off))"

fun bpf_mbuf_gather :: "mbuf_chain \<Rightarrow> nat \<Rightarrow> nat \<Rightarrow> bytes option" where
  "bpf_mbuf_gather [] off len = None"
| "bpf_mbuf_gather (m # ms) off len =
     (let count = min (length m - off) len;
          cp = take count (drop off m)
      in if len - count = 0 then Some cp
         else map_option (\<lambda>rest. cp @ rest) (bpf_mbuf_gather ms 0 (len - count)))"

definition bpf_mbuf_copy :: "mbuf_chain \<Rightarrow> u32 \<Rightarrow> nat \<Rightarrow> bytes option" where
  "bpf_mbuf_copy m off len =
     (case bpf_mbuf_skip m (unat off) of
        None \<Rightarrow> None
      | Some (m', off') \<Rightarrow> bpf_mbuf_gather m' off' len)"

definition bpf_mbuf_ldw :: "mbuf_chain \<Rightarrow> u32 \<Rightarrow> u32 option" where
  "bpf_mbuf_ldw m k = map_option (\<lambda>v. of_nat (be_bytes v)) (bpf_mbuf_copy m k 4)"

definition bpf_mbuf_ldh :: "mbuf_chain \<Rightarrow> u32 \<Rightarrow> u32 option" where
  "bpf_mbuf_ldh m k = map_option (\<lambda>v. of_nat (be_bytes v)) (bpf_mbuf_copy m k 2)"

definition bpf_mbuf_ldb :: "mbuf_chain \<Rightarrow> u32 \<Rightarrow> u32 option" where
  "bpf_mbuf_ldb m k =
     (case bpf_mbuf_skip m (unat k) of
        Some (m' # ms, k') \<Rightarrow> Some (ucast (m' ! k'))
      | _ \<Rightarrow> None)"

definition bpf_mbuf_ops :: "mbuf_chain bpf_ops" where
  "bpf_mbuf_ops = \<lparr>ldw = bpf_mbuf_ldw, ldh = bpf_mbuf_ldh, ldb = bpf_mbuf_ldb\<rparr>"

section \<open>The interpreter\<close>

text \<open>
  The registers and scratch memory of one run. \<^verbatim>\<open>int32_t mem[]\<close> holds bit patterns that are only
  moved to and from the unsigned registers, so its cells are \<open>u32\<close> here.
\<close>

record bpf_regs =
  r_A :: u32
  r_X :: u32
  r_mem :: "u32 list"

datatype bpf_fault = Fault_Pc | Fault_Mem | Fault_Div | Fault_Shift

text \<open>
  What one instruction does: stop with a result, fault, or continue with new registers after
  moving \<open>pc\<close> forward by the given displacement (before the loop's own \<^verbatim>\<open>++pc\<close>).
\<close>

datatype bpf_step = Return u32 | Fault bpf_fault | Cont nat bpf_regs

definition set_A :: "bpf_regs \<Rightarrow> u32 \<Rightarrow> bpf_step" where
  "set_A r v = Cont 0 (r\<lparr>r_A := v\<rparr>)"

definition set_X :: "bpf_regs \<Rightarrow> u32 \<Rightarrow> bpf_step" where
  "set_X r v = Cont 0 (r\<lparr>r_X := v\<rparr>)"

definition load_A :: "bpf_regs \<Rightarrow> u32 option \<Rightarrow> bpf_step" where
  "load_A r v = (case v of None \<Rightarrow> Return 0 | Some a \<Rightarrow> set_A r a)"

definition read_mem :: "bpf_regs \<Rightarrow> u32 \<Rightarrow> (u32 \<Rightarrow> bpf_step) \<Rightarrow> bpf_step" where
  "read_mem r i f = (if unat i < length (r_mem r) then f (r_mem r ! unat i) else Fault Fault_Mem)"

definition write_mem :: "bpf_regs \<Rightarrow> u32 \<Rightarrow> u32 \<Rightarrow> bpf_step" where
  "write_mem r i v =
     (if unat i < length (r_mem r) then Cont 0 (r\<lparr>r_mem := (r_mem r)[unat i := v]\<rparr>)
      else Fault Fault_Mem)"

definition branch :: "bpf_insn \<Rightarrow> bpf_regs \<Rightarrow> bool \<Rightarrow> bpf_step" where
  "branch p r c = Cont (unat (if c then i_jt p else i_jf p)) r"

lemmas [kern_defs] = set_A_def set_X_def load_A_def read_mem_def write_mem_def branch_def

text \<open>
  The \<^verbatim>\<open>switch\<close> of \<^verbatim>\<open>_bpf_filter\<close>, one definition per group of cases; a group returns \<open>None\<close> for an
  opcode that is not among its labels. The labels are distinct constants, so their order does not
  matter. \<open>rnd\<close> is the value \<^verbatim>\<open>arc4random\<close> returns at this instruction.
\<close>

definition bpf_exec_ret :: "bpf_insn \<Rightarrow> bpf_regs \<Rightarrow> bpf_step option" where
  "bpf_exec_ret p r =
     (if i_code p = BPF_RET OR BPF_K then Some (Return (i_k p))
      else if i_code p = BPF_RET OR BPF_A then Some (Return (r_A r))
      else None)"

definition bpf_exec_pkt ::
    "'p bpf_ops \<Rightarrow> 'p \<Rightarrow> u32 \<Rightarrow> u32 \<Rightarrow> bpf_insn \<Rightarrow> bpf_regs \<Rightarrow> bpf_step option" where
  "bpf_exec_pkt ops pkt wirelen rnd p r =
     (if i_code p = BPF_LD OR BPF_W OR BPF_ABS then Some (load_A r (ldw ops pkt (i_k p)))
      else if i_code p = BPF_LD OR BPF_H OR BPF_ABS then Some (load_A r (ldh ops pkt (i_k p)))
      else if i_code p = BPF_LD OR BPF_B OR BPF_ABS then Some (load_A r (ldb ops pkt (i_k p)))
      else if i_code p = BPF_LD OR BPF_W OR BPF_LEN then Some (set_A r wirelen)
      else if i_code p = BPF_LDX OR BPF_W OR BPF_LEN then Some (set_X r wirelen)
      else if i_code p = BPF_LD OR BPF_W OR BPF_RND then Some (set_A r rnd)
      else if i_code p = BPF_LD OR BPF_W OR BPF_IND then
        Some (load_A r (ldw ops pkt (r_X r + i_k p)))
      else if i_code p = BPF_LD OR BPF_H OR BPF_IND then
        Some (load_A r (ldh ops pkt (r_X r + i_k p)))
      else if i_code p = BPF_LD OR BPF_B OR BPF_IND then
        Some (load_A r (ldb ops pkt (r_X r + i_k p)))
      else if i_code p = BPF_LDX OR BPF_MSH OR BPF_B then
        Some (case ldb ops pkt (i_k p) of
                None \<Rightarrow> Return 0
              | Some v \<Rightarrow> set_X r (push_bit 2 (v AND 0xf)))
      else None)"

definition bpf_exec_mem :: "bpf_insn \<Rightarrow> bpf_regs \<Rightarrow> bpf_step option" where
  "bpf_exec_mem p r =
     (if i_code p = BPF_LD OR BPF_IMM then Some (set_A r (i_k p))
      else if i_code p = BPF_LDX OR BPF_IMM then Some (set_X r (i_k p))
      else if i_code p = BPF_LD OR BPF_MEM then Some (read_mem r (i_k p) (set_A r))
      else if i_code p = BPF_LDX OR BPF_MEM then Some (read_mem r (i_k p) (set_X r))
      else if i_code p = BPF_ST then Some (write_mem r (i_k p) (r_A r))
      else if i_code p = BPF_STX then Some (write_mem r (i_k p) (r_X r))
      else None)"

definition bpf_exec_jmp :: "bpf_insn \<Rightarrow> bpf_regs \<Rightarrow> bpf_step option" where
  "bpf_exec_jmp p r =
     (let A = r_A r; X = r_X r; k = i_k p in
      if i_code p = BPF_JMP OR BPF_JA then Some (Cont (unat k) r)
      else if i_code p = BPF_JMP OR BPF_JGT OR BPF_K then Some (branch p r (A > k))
      else if i_code p = BPF_JMP OR BPF_JGE OR BPF_K then Some (branch p r (A \<ge> k))
      else if i_code p = BPF_JMP OR BPF_JEQ OR BPF_K then Some (branch p r (A = k))
      else if i_code p = BPF_JMP OR BPF_JSET OR BPF_K then Some (branch p r (A AND k \<noteq> 0))
      else if i_code p = BPF_JMP OR BPF_JGT OR BPF_X then Some (branch p r (A > X))
      else if i_code p = BPF_JMP OR BPF_JGE OR BPF_X then Some (branch p r (A \<ge> X))
      else if i_code p = BPF_JMP OR BPF_JEQ OR BPF_X then Some (branch p r (A = X))
      else if i_code p = BPF_JMP OR BPF_JSET OR BPF_X then Some (branch p r (A AND X \<noteq> 0))
      else None)"

text \<open>
  A shift of a 32-bit operand by 32 or more is undefined in C; it is \<open>Fault_Shift\<close> here.
\<close>

definition bpf_shift :: "(nat \<Rightarrow> u32 \<Rightarrow> u32) \<Rightarrow> bpf_regs \<Rightarrow> u32 \<Rightarrow> bpf_step" where
  "bpf_shift sh r v = (if v < 32 then set_A r (sh (unat v) (r_A r)) else Fault Fault_Shift)"

definition bpf_exec_alu_x :: "bpf_insn \<Rightarrow> bpf_regs \<Rightarrow> bpf_step option" where
  "bpf_exec_alu_x p r =
     (let A = r_A r; X = r_X r in
      if i_code p = BPF_ALU OR BPF_ADD OR BPF_X then Some (set_A r (A + X))
      else if i_code p = BPF_ALU OR BPF_SUB OR BPF_X then Some (set_A r (A - X))
      else if i_code p = BPF_ALU OR BPF_MUL OR BPF_X then Some (set_A r (A * X))
      else if i_code p = BPF_ALU OR BPF_DIV OR BPF_X then
        Some (if X = 0 then Return 0 else set_A r (A div X))
      else if i_code p = BPF_ALU OR BPF_MOD OR BPF_X then
        Some (if X = 0 then Return 0 else set_A r (A mod X))
      else if i_code p = BPF_ALU OR BPF_AND OR BPF_X then Some (set_A r (A AND X))
      else if i_code p = BPF_ALU OR BPF_OR OR BPF_X then Some (set_A r (A OR X))
      else if i_code p = BPF_ALU OR BPF_XOR OR BPF_X then Some (set_A r (A XOR X))
      else if i_code p = BPF_ALU OR BPF_LSH OR BPF_X then Some (bpf_shift push_bit r X)
      else if i_code p = BPF_ALU OR BPF_RSH OR BPF_X then Some (bpf_shift drop_bit r X)
      else None)"

definition bpf_exec_alu_k :: "bpf_insn \<Rightarrow> bpf_regs \<Rightarrow> bpf_step option" where
  "bpf_exec_alu_k p r =
     (let A = r_A r; k = i_k p in
      if i_code p = BPF_ALU OR BPF_ADD OR BPF_K then Some (set_A r (A + k))
      else if i_code p = BPF_ALU OR BPF_SUB OR BPF_K then Some (set_A r (A - k))
      else if i_code p = BPF_ALU OR BPF_MUL OR BPF_K then Some (set_A r (A * k))
      else if i_code p = BPF_ALU OR BPF_DIV OR BPF_K then
        Some (if k = 0 then Fault Fault_Div else set_A r (A div k))
      else if i_code p = BPF_ALU OR BPF_MOD OR BPF_K then
        Some (if k = 0 then Fault Fault_Div else set_A r (A mod k))
      else if i_code p = BPF_ALU OR BPF_AND OR BPF_K then Some (set_A r (A AND k))
      else if i_code p = BPF_ALU OR BPF_OR OR BPF_K then Some (set_A r (A OR k))
      else if i_code p = BPF_ALU OR BPF_XOR OR BPF_K then Some (set_A r (A XOR k))
      else if i_code p = BPF_ALU OR BPF_LSH OR BPF_K then Some (bpf_shift push_bit r k)
      else if i_code p = BPF_ALU OR BPF_RSH OR BPF_K then Some (bpf_shift drop_bit r k)
      else None)"

definition bpf_exec_misc :: "bpf_insn \<Rightarrow> bpf_regs \<Rightarrow> bpf_step option" where
  "bpf_exec_misc p r =
     (if i_code p = BPF_ALU OR BPF_NEG then Some (set_A r (- r_A r))
      else if i_code p = BPF_MISC OR BPF_TAX then Some (set_X r (r_A r))
      else if i_code p = BPF_MISC OR BPF_TXA then Some (set_A r (r_X r))
      else None)"

text \<open>The whole \<^verbatim>\<open>switch\<close>; its \<^verbatim>\<open>default\<close> returns 0 in the kernel.\<close>

fun first_some :: "'a option list \<Rightarrow> 'a \<Rightarrow> 'a" where
  "first_some [] d = d"
| "first_some (None # xs) d = first_some xs d"
| "first_some (Some x # xs) d = x"

definition bpf_exec ::
    "'p bpf_ops \<Rightarrow> 'p \<Rightarrow> u32 \<Rightarrow> u32 \<Rightarrow> bpf_insn \<Rightarrow> bpf_regs \<Rightarrow> bpf_step" where
  "bpf_exec ops pkt wirelen rnd p r =
     first_some
       [bpf_exec_ret p r, bpf_exec_pkt ops pkt wirelen rnd p r, bpf_exec_mem p r,
        bpf_exec_jmp p r, bpf_exec_alu_x p r, bpf_exec_alu_k p r, bpf_exec_misc p r]
       (Return 0)"

text \<open>
  The interpreter loop. \<open>pc\<close> only moves forward, so the run is bounded by the length of the program;
  every instruction is executed at most once and \<open>rnd pc\<close> is what \<^verbatim>\<open>arc4random\<close> returns there.
\<close>

function bpf_loop ::
    "'p bpf_ops \<Rightarrow> 'p \<Rightarrow> u32 \<Rightarrow> (nat \<Rightarrow> u32) \<Rightarrow> bpf_insn list \<Rightarrow> nat \<Rightarrow> bpf_regs \<Rightarrow> bpf_fault + u32" where
  "bpf_loop ops pkt wirelen rnd f pc r =
     (if pc < length f then
        (case bpf_exec ops pkt wirelen (rnd pc) (f ! pc) r of
           Return v \<Rightarrow> Inr v
         | Fault e \<Rightarrow> Inl e
         | Cont d r' \<Rightarrow> bpf_loop ops pkt wirelen rnd f (pc + d + 1) r')
      else Inl Fault_Pc)"
  by pat_completeness auto
termination
  by (relation "measure (\<lambda>(ops, pkt, wirelen, rnd, f, pc, r). length f - pc)") auto

declare bpf_loop.simps [simp del]

definition bpf_regs0 :: bpf_regs where
  "bpf_regs0 = \<lparr>r_A = 0, r_X = 0, r_mem = replicate BPF_MEMWORDS 0\<rparr>"

text \<open>\<^verbatim>\<open>_bpf_filter\<close>: a null program accepts everything.\<close>

definition run_bpf_filter ::
    "bpf_insn list option \<Rightarrow> 'p bpf_ops \<Rightarrow> 'p \<Rightarrow> u32 \<Rightarrow> (nat \<Rightarrow> u32) \<Rightarrow> bpf_fault + u32" where
  "run_bpf_filter prog ops pkt wirelen rnd =
     (case prog of
        None \<Rightarrow> Inr (- 1)
      | Some f \<Rightarrow> bpf_loop ops pkt wirelen rnd f 0 bpf_regs0)"

definition bpf_filter ::
    "nat \<Rightarrow> (nat \<Rightarrow> u8) \<Rightarrow> bpf_insn list option \<Rightarrow> bytes \<Rightarrow> u32 \<Rightarrow> u32 \<Rightarrow> (nat \<Rightarrow> u32) \<Rightarrow> bpf_fault + u32" where
  "bpf_filter sz oob prog pkt wirelen buflen rnd =
     run_bpf_filter prog (bpf_mem_ops sz) \<lparr>bm_pkt = pkt, bm_len = buflen, bm_oob = oob\<rparr> wirelen rnd"

definition bpf_mfilter ::
    "bpf_insn list option \<Rightarrow> mbuf_chain \<Rightarrow> u32 \<Rightarrow> (nat \<Rightarrow> u32) \<Rightarrow> bpf_fault + u32" where
  "bpf_mfilter prog m wirelen rnd = run_bpf_filter prog bpf_mbuf_ops m wirelen rnd"

section \<open>The validator\<close>

text \<open>
  The body of the loop of \<^verbatim>\<open>bpf_validate\<close> for the instruction \<open>p\<close> at index \<open>i\<close>. All its arithmetic
  is in \<^verbatim>\<open>u_int\<close>: \<^verbatim>\<open>from + p->k\<close> can wrap, which is why the code tests \<^verbatim>\<open>from + p->k < from\<close>.
  \<open>maxbuf\<close> is the tunable \<^verbatim>\<open>bpf_maxbufsize\<close>.
\<close>

definition bpf_check_ld :: "u32 \<Rightarrow> bpf_insn \<Rightarrow> bool" where
  "bpf_check_ld maxbuf p =
     (let m = BPF_MODE (i_code p) in
      if m = BPF_IMM then True
      else if m = BPF_ABS \<or> m = BPF_IND \<or> m = BPF_MSH then \<not> i_k p \<ge> maxbuf
      else if m = BPF_MEM then \<not> i_k p \<ge> of_nat BPF_MEMWORDS
      else m = BPF_LEN \<or> m = BPF_RND)"

definition bpf_check_alu :: "bpf_insn \<Rightarrow> bool" where
  "bpf_check_alu p =
     (let op = BPF_OP (i_code p) in
      if op \<in> {BPF_ADD, BPF_SUB, BPF_MUL, BPF_OR, BPF_XOR, BPF_AND, BPF_LSH, BPF_RSH, BPF_NEG}
      then True
      else if op = BPF_DIV \<or> op = BPF_MOD
      then \<not> (BPF_SRC (i_code p) = BPF_K \<and> i_k p = 0)
      else False)"

definition bpf_check_jmp :: "u32 \<Rightarrow> u32 \<Rightarrow> bpf_insn \<Rightarrow> bool" where
  "bpf_check_jmp len i p =
     (let op = BPF_OP (i_code p); from = i + 1 in
      if op = BPF_JA then \<not> (from + i_k p < from \<or> from + i_k p \<ge> len)
      else if op \<in> {BPF_JEQ, BPF_JGT, BPF_JGE, BPF_JSET}
      then \<not> (from + ucast (i_jt p) \<ge> len \<or> from + ucast (i_jf p) \<ge> len)
      else False)"

definition bpf_check_insn :: "u32 \<Rightarrow> u32 \<Rightarrow> u32 \<Rightarrow> bpf_insn \<Rightarrow> bool" where
  "bpf_check_insn maxbuf len i p =
     (let c = BPF_CLASS (i_code p) in
      if c = BPF_LD \<or> c = BPF_LDX then bpf_check_ld maxbuf p
      else if c = BPF_ST \<or> c = BPF_STX then \<not> i_k p \<ge> of_nat BPF_MEMWORDS
      else if c = BPF_ALU then bpf_check_alu p
      else if c = BPF_JMP then bpf_check_jmp len i p
      else c = BPF_RET \<or> c = BPF_MISC)"

fun bpf_validate_loop :: "u32 \<Rightarrow> u32 \<Rightarrow> nat \<Rightarrow> bpf_insn list \<Rightarrow> bool" where
  "bpf_validate_loop maxbuf len i [] = True"
| "bpf_validate_loop maxbuf len i (p # ps) =
     (bpf_check_insn maxbuf len (of_nat i) p \<and> bpf_validate_loop maxbuf len (Suc i) ps)"

text \<open>\<open>f\<close> is the array, of which the first \<open>len\<close> instructions are checked.\<close>

definition bpf_validate :: "u32 \<Rightarrow> bpf_insn list \<Rightarrow> int \<Rightarrow> bool" where
  "bpf_validate maxbuf f len =
     (if len < 1 \<or> len > BPF_MAXINSNS then False
      else bpf_validate_loop maxbuf (of_int len) 0 (take (nat len) f) \<and>
           BPF_CLASS (i_code (f ! nat (len - 1))) = BPF_RET)"

section \<open>Safety of validated programs\<close>

lemmas bpf_groups = bpf_exec_ret_def bpf_exec_pkt_def bpf_exec_mem_def bpf_exec_jmp_def
  bpf_exec_alu_x_def bpf_exec_alu_k_def bpf_exec_misc_def

lemma bpf_exec_ret_class:
  assumes "BPF_CLASS (i_code p) = BPF_RET"
  shows "\<exists>v. bpf_exec ops pkt wirelen rnd p r = Return v"
proof -
  have c: "i_code p AND 7 = 6" using assms by (simp add: BPF_CLASS_def)
  have "bpf_exec_pkt ops pkt wirelen rnd p r = None" "bpf_exec_mem p r = None" "bpf_exec_jmp p r = None"
       "bpf_exec_alu_x p r = None" "bpf_exec_alu_k p r = None" "bpf_exec_misc p r = None"
    using c by (auto simp: bpf_groups Let_def)
  then show ?thesis
    by (auto simp: bpf_exec_def bpf_exec_ret_def)
qed

definition bpf_step_safe :: "nat \<Rightarrow> nat \<Rightarrow> bpf_step \<Rightarrow> bool" where
  "bpf_step_safe len i s =
     (case s of
        Return v \<Rightarrow> True
      | Fault e \<Rightarrow> e = Fault_Shift
      | Cont d r \<Rightarrow> (d = 0 \<or> i + d + 1 < len) \<and> length (r_mem r) = BPF_MEMWORDS)"

lemma safe_ret: "bpf_exec_ret p r = Some s \<Longrightarrow> bpf_step_safe len i s"
  by (auto simp: bpf_exec_ret_def bpf_step_safe_def split: if_splits)

lemma safe_pkt: "length (r_mem r) = BPF_MEMWORDS \<Longrightarrow> bpf_exec_pkt ops pkt wl rnd p r = Some s \<Longrightarrow> bpf_step_safe len i s"
  by (auto simp: bpf_exec_pkt_def bpf_step_safe_def kern_defs split: if_splits option.splits)

lemma safe_mem: 
  assumes "length (r_mem r) = BPF_MEMWORDS" "bpf_exec_mem p r = Some s" "bpf_check_insn maxbuf l j p" 
  shows "bpf_step_safe len i s"
proof -
  have *: "\<not> i_k p \<ge> 16 \<Longrightarrow> unat (i_k p) < 16" by (simp add: not_le word_less_nat_alt)
  from assms * show ?thesis
  by (auto simp: bpf_exec_mem_def bpf_step_safe_def bpf_check_insn_def bpf_check_ld_def kern_defs BPF_MEMWORDS_def split: if_splits option.splits)
qed

lemma from_unat:
  assumes "i < len" and "len \<le> 512"
  shows "unat (of_nat i + 1 :: u32) = i + 1"
proof -
  have "unat (of_nat (i + 1) :: u32) = i + 1"
    by (rule unat_of_nat_less) (use assms in simp)
  then show ?thesis by (simp add: add.commute)
qed

lemma check_jmp_ja:
  assumes "bpf_check_jmp (of_nat len) (of_nat i) p" "BPF_OP (i_code p) = BPF_JA"
    and "len \<le> 512" and "i < len"
  shows "i + unat (i_k p) + 1 < len"
proof -
  define w :: u32 where "w = of_nat i + 1"
  have i: "unat w = i + 1"
    unfolding w_def by (rule from_unat [OF assms(4,3)])
  have "w \<le> w + i_k p" and lt: "w + i_k p < of_nat len"
    using assms(1,2) by (simp_all add: bpf_check_jmp_def Let_def not_le not_less w_def)
  then have "unat (w + i_k p) = unat w + unat (i_k p)"
    by (simp only: unat_plus_simple [symmetric])
  moreover have "unat (w + i_k p) < len"
    using lt assms(3) by (simp add: word_less_nat_alt unat_of_nat_less)
  ultimately show ?thesis using i by simp
qed

lemma check_jmp_cond:
  assumes "of_nat i + 1 + ucast (j :: u8) < (of_nat len :: u32)"
    and "len \<le> 512" and "i < len"
  shows "i + unat j + 1 < len"
proof -
  have "unat j < 256" by (rule unat_lt2p_u8)
  then have "unat (of_nat (i + 1 + unat j) :: u32) = i + 1 + unat j"
    by (intro unat_of_nat_less) (use assms(2,3) in simp)
  moreover have "(of_nat (i + 1 + unat j) :: u32) = of_nat i + 1 + ucast j"
    by simp
  ultimately have "unat (of_nat i + 1 + ucast j :: u32) = i + 1 + unat j"
    by (simp only:)
  moreover have "unat (of_nat i + 1 + ucast j :: u32) < len"
    using assms(1,2) by (simp add: word_less_nat_alt unat_of_nat_less)
  ultimately show ?thesis by simp
qed

lemma safe_jmp:
  assumes "length (r_mem r) = BPF_MEMWORDS" "bpf_exec_jmp p r = Some s"
    and "bpf_check_insn maxbuf (of_nat len) (of_nat i) p" "len \<le> 512" "i < len"
  shows "bpf_step_safe len i s"
proof (cases "i_code p = BPF_JMP OR BPF_JA")
  case True
  then have "bpf_check_jmp (of_nat len) (of_nat i) p" "BPF_OP (i_code p) = BPF_JA"
    using assms(3) by (simp_all add: bpf_check_insn_def kern_defs)
  then have "i + unat (i_k p) + 1 < len"
    using assms(4,5) by (rule check_jmp_ja)
  with True assms(1,2) show ?thesis
    by (auto simp: bpf_exec_jmp_def bpf_step_safe_def)
next
  case False
  then obtain c where s: "s = branch p r c"
    using assms(2) by (auto simp: bpf_exec_jmp_def Let_def split: if_splits)
  have "bpf_check_jmp (of_nat len) (of_nat i) p" "BPF_OP (i_code p) \<in> {BPF_JEQ, BPF_JGT, BPF_JGE, BPF_JSET}"
    using False assms(2,3)
    by (auto simp: bpf_exec_jmp_def bpf_check_insn_def kern_defs Let_def split: if_splits)
  then have "of_nat i + 1 + ucast (i_jt p) < (of_nat len :: u32)"
    "of_nat i + 1 + ucast (i_jf p) < (of_nat len :: u32)"
    by (auto simp: bpf_check_jmp_def Let_def not_le)
  then have "i + unat (i_jt p) + 1 < len" "i + unat (i_jf p) + 1 < len"
    using assms(4,5) by (blast intro: check_jmp_cond)+
  with s assms(1) show ?thesis
    by (simp add: bpf_step_safe_def branch_def)
qed

lemma safe_alu_x:
  "length (r_mem r) = BPF_MEMWORDS \<Longrightarrow> bpf_exec_alu_x p r = Some s \<Longrightarrow> bpf_step_safe len i s"
  by (auto simp: bpf_exec_alu_x_def bpf_step_safe_def bpf_shift_def kern_defs Let_def split: if_splits)

lemma safe_alu_k:
  assumes "length (r_mem r) = BPF_MEMWORDS" "bpf_exec_alu_k p r = Some s" "bpf_check_insn maxbuf l j p"
  shows "bpf_step_safe len i s"
proof -
  have "\<not> (i_code p = BPF_ALU OR BPF_DIV OR BPF_K \<and> i_k p = 0)"
       "\<not> (i_code p = BPF_ALU OR BPF_MOD OR BPF_K \<and> i_k p = 0)"
    using assms(3) by (auto simp: bpf_check_insn_def bpf_check_alu_def kern_defs Let_def)
  with assms(1,2) show ?thesis
    by (auto simp: bpf_exec_alu_k_def bpf_step_safe_def bpf_shift_def kern_defs Let_def split: if_splits)
qed

lemma safe_misc:
  "length (r_mem r) = BPF_MEMWORDS \<Longrightarrow> bpf_exec_misc p r = Some s \<Longrightarrow> bpf_step_safe len i s"
  by (auto simp: bpf_exec_misc_def bpf_step_safe_def kern_defs split: if_splits)

lemma first_some_cases:
  "P d \<Longrightarrow> (\<And>x. Some x \<in> set xs \<Longrightarrow> P x) \<Longrightarrow> P (first_some xs d)"
  by (induction xs d rule: first_some.induct) auto

lemma bpf_exec_safe:
  assumes "length (r_mem r) = BPF_MEMWORDS" "bpf_check_insn maxbuf (of_nat len) (of_nat i) p"
    and "len \<le> 512" "i < len"
  shows "bpf_step_safe len i (bpf_exec ops pkt wirelen rnd p r)"
  unfolding bpf_exec_def
proof (rule first_some_cases)
  show "bpf_step_safe len i (Return 0)" by (simp add: bpf_step_safe_def)
next
  fix s
  assume "Some s \<in> set [bpf_exec_ret p r, bpf_exec_pkt ops pkt wirelen rnd p r, bpf_exec_mem p r,
        bpf_exec_jmp p r, bpf_exec_alu_x p r, bpf_exec_alu_k p r, bpf_exec_misc p r]"
  then show "bpf_step_safe len i s"
    using safe_ret safe_pkt [OF assms(1)] safe_mem [OF assms(1) _ assms(2)]
      safe_jmp [OF assms(1) _ assms(2-4)] safe_alu_x [OF assms(1)]
      safe_alu_k [OF assms(1) _ assms(2)] safe_misc [OF assms(1)]
    by (metis empty_iff empty_set set_ConsD)
qed

lemma bpf_validate_loop_nth:
  "bpf_validate_loop maxbuf len i ps \<Longrightarrow> j < length ps \<Longrightarrow>
   bpf_check_insn maxbuf len (of_nat (i + j)) (ps ! j)"
proof (induction maxbuf len i ps arbitrary: j rule: bpf_validate_loop.induct)
  case (2 maxbuf len i p ps)
  then show ?case by (cases j) auto
qed simp

lemma bpf_validate_check:
  assumes "bpf_validate maxbuf f (int (length f))" and "i < length f"
  shows "bpf_check_insn maxbuf (of_nat (length f)) (of_nat i) (f ! i)"
  using assms bpf_validate_loop_nth [of maxbuf "of_nat (length f)" 0 f i]
  by (simp add: bpf_validate_def split: if_splits)

lemma bpf_validate_last:
  assumes "bpf_validate maxbuf f (int (length f))" and "Suc i = length f"
  shows "BPF_CLASS (i_code (f ! i)) = BPF_RET"
proof -
  have "nat (int (length f) - 1) = i" using assms(2) by simp
  then show ?thesis using assms(1) by (simp add: bpf_validate_def split: if_splits)
qed

lemma bpf_validate_length:
  "bpf_validate maxbuf f (int (length f)) \<Longrightarrow> 0 < length f \<and> length f \<le> 512"
  by (auto simp: bpf_validate_def BPF_MAXINSNS_def split: if_splits)

text \<open>One step of a validated program inside the program stays inside it.\<close>

lemma bpf_exec_validated:
  assumes v: "bpf_validate maxbuf f (int (length f))" and i: "i < length f"
    and m: "length (r_mem r) = BPF_MEMWORDS"
    and e: "bpf_exec ops pkt wirelen rnd (f ! i) r = s"
  shows "s \<in> range Return \<union> {Fault Fault_Shift} \<or>
     (\<exists>d r'. s = Cont d r' \<and> i + d + 1 < length f \<and> length (r_mem r') = BPF_MEMWORDS)"
proof (cases "Suc i = length f")
  case True
  then show ?thesis
    using bpf_exec_ret_class [OF bpf_validate_last [OF v]] e by fastforce
next
  case False
  have "bpf_step_safe (length f) i s"
    using bpf_exec_safe [OF m bpf_validate_check [OF v i] _ i, of ops pkt wirelen rnd]
      bpf_validate_length [OF v] e by simp
  with False i show ?thesis
    by (cases s) (auto simp: bpf_step_safe_def)
qed

lemma bpf_loop_safe:
  assumes "bpf_validate maxbuf f (int (length f))"
    and "pc < length f" and "length (r_mem r) = BPF_MEMWORDS"
  shows "bpf_loop ops pkt wirelen rnd f pc r \<in> {Inl Fault_Shift} \<union> range Inr"
  using assms
proof (induction ops pkt wirelen rnd f pc r rule: bpf_loop.induct)
  case (1 ops pkt wirelen rnd f pc r)
  show ?case
    using bpf_exec_validated [OF "1.prems" refl, of ops pkt wirelen "rnd pc"] "1.IH" "1.prems"
    by (subst bpf_loop.simps) (auto split: bpf_step.splits)
qed
section \<open>The packet behind the load operations\<close>

text \<open>
  What the interpreter relies on of a \<^verbatim>\<open>struct bpf_ops\<close>: the packet pointer stands for a byte string,
  and each load returns the big-endian value at the offset when it lies inside that string and an
  error otherwise. Under this contract the interpreter cannot tell how the packet is stored.
\<close>

definition bytes_load :: "nat \<Rightarrow> bytes \<Rightarrow> u32 \<Rightarrow> u32 option" where
  "bytes_load n bs k =
     (if unat k + n \<le> length bs then Some (of_nat (be_bytes (take n (drop (unat k) bs)))) else None)"

definition bytes_ops :: "bytes bpf_ops" where
  "bytes_ops = \<lparr>ldw = bytes_load 4, ldh = bytes_load 2, ldb = bytes_load 1\<rparr>"

locale packet_loads =
  fixes ops :: "'p bpf_ops"
    and contents :: "'p \<Rightarrow> bytes"
    and invar :: "'p \<Rightarrow> bool"
  assumes ldw_contents: "invar p \<Longrightarrow> ldw ops p k = bytes_load 4 (contents p) k"
    and ldh_contents: "invar p \<Longrightarrow> ldh ops p k = bytes_load 2 (contents p) k"
    and ldb_contents: "invar p \<Longrightarrow> ldb ops p k = bytes_load 1 (contents p) k"
begin

lemma exec_contents:
  assumes "invar p"
  shows "bpf_exec ops p wirelen rnd ins r = bpf_exec bytes_ops (contents p) wirelen rnd ins r"
  using assms
  by (simp add: bpf_exec_def bpf_exec_pkt_def bytes_ops_def ldw_contents ldh_contents ldb_contents)

lemma loop_contents:
  assumes "invar p"
  shows "bpf_loop ops p wirelen rnd f pc r = bpf_loop bytes_ops (contents p) wirelen rnd f pc r"
proof (induction "length f - pc" arbitrary: pc r rule: less_induct)
  case less
  then show ?case
    by (subst (1 2) bpf_loop.simps) (auto simp: exec_contents [OF assms] split: bpf_step.splits)
qed

lemma filter_contents:
  "invar p \<Longrightarrow>
   run_bpf_filter prog ops p wirelen rnd = run_bpf_filter prog bytes_ops (contents p) wirelen rnd"
  by (simp add: run_bpf_filter_def loop_contents split: option.split)

end


lemma map_nth_take:
  assumes "k + n \<le> length xs"
  shows "map (\<lambda>i. xs ! (k + i)) [0..<n] = take n (drop k xs)"
  using assms by (intro nth_equalityI) auto

lemma bm_bytes:
  assumes "k + n \<le> length (bm_pkt bm)"
  shows "map (\<lambda>i. bm_byte bm (k + i)) [0..<n] = take n (drop k (bm_pkt bm))"
  using assms by (subst map_nth_take [symmetric]) (auto simp: bm_byte_def)

definition bm_valid :: "bpf_mem \<Rightarrow> bool" where
  "bm_valid bm \<longleftrightarrow> unat (bm_len bm) = length (bm_pkt bm)"

lemma size_t_64_no_wrap: "n \<le> 4 \<Longrightarrow> (unat (k :: u32) + n) mod 2 ^ 64 = unat k + n"
  using unat_lt2p_u32 [of k] by simp

lemmas size_t_64 = size_t_64_no_wrap [of 4, simplified] size_t_64_no_wrap [of 2, simplified]

lemma upt_4: "[0..<4] = [0, 1, 2, 3]" and upt_2: "[0..<2] = [0, 1]"
  by (simp_all add: upt_rec)

interpretation mem_loads: packet_loads "bpf_mem_ops 64" bm_pkt bm_valid
proof unfold_locales
  fix p :: bpf_mem and k :: u32
  assume v: "bm_valid p"
  show "ldw (bpf_mem_ops 64) p k = bytes_load 4 (bm_pkt p) k"
    using v bm_bytes [of "unat k" 4 p]
    by (auto simp: bpf_mem_ops_def bpf_mem_ldw_def bytes_load_def size_t_64 bm_valid_def
        upt_4 simp del: list.map)
  show "ldh (bpf_mem_ops 64) p k = bytes_load 2 (bm_pkt p) k"
    using v bm_bytes [of "unat k" 2 p]
    by (auto simp: bpf_mem_ops_def bpf_mem_ldh_def bytes_load_def size_t_64 bm_valid_def
        upt_2 simp del: list.map)
  show "ldb (bpf_mem_ops 64) p k = bytes_load 1 (bm_pkt p) k"
    using v
    by (auto simp: bpf_mem_ops_def bpf_mem_ldb_def bytes_load_def bm_valid_def word_le_nat_alt
        bm_byte_def take_Suc_conv_app_nth Suc_le_eq hd_drop_conv_nth take_Suc)
qed

lemma bpf_mbuf_skip_spec:
  "bpf_mbuf_skip ms off = Some (ms', off') \<Longrightarrow>
   off < length (concat ms) \<and> drop off (concat ms) = drop off' (concat ms') \<and>
   (\<exists>m rest. ms' = m # rest \<and> off' < length m)"
  by (induction ms off rule: bpf_mbuf_skip.induct) (auto split: if_splits)

lemma bpf_mbuf_skip_None: "bpf_mbuf_skip ms off = None \<longleftrightarrow> length (concat ms) \<le> off"
  by (induction ms off rule: bpf_mbuf_skip.induct) auto

lemma bpf_mbuf_gather_spec:
  assumes "0 < len" and "off \<le> length (hd ms)" and "ms \<noteq> []"
  shows "bpf_mbuf_gather ms off len =
     (if off + len \<le> length (concat ms) then Some (take len (drop off (concat ms))) else None)"
  using assms
proof (induction ms off len rule: bpf_mbuf_gather.induct)
  case (2 m ms off len)
  show ?case
  proof (cases "len \<le> length m - off")
    case True
    with 2 show ?thesis by (auto simp: Let_def)
  next
    case False
    define c where "c = length m - off"
    have c: "c < len" "off + c = length m"
      using False "2.prems" by (auto simp: c_def)
    have "bpf_mbuf_gather ms 0 (len - c) =
       (if len - c \<le> length (concat ms) then Some (take (len - c) (concat ms)) else None)"
      using "2.IH" [of c "take c (drop off m)"] c by (cases "ms = []") (auto simp: c_def min_def)
    moreover have "min (length m - off) len = c" using c by (simp add: c_def min_def)
    ultimately show ?thesis
      using c by (auto simp: Let_def)
  qed
qed simp

lemma bpf_mbuf_copy_spec:
  assumes "0 < len"
  shows "bpf_mbuf_copy m k len =
    (if unat k + len \<le> length (concat m) then Some (take len (drop (unat k) (concat m))) else None)"
proof (cases "bpf_mbuf_skip m (unat k)")
  case None
  then have "length (concat m) \<le> unat k" by (simp add: bpf_mbuf_skip_None)
  with None assms show ?thesis
    by (simp add: bpf_mbuf_copy_def)
next
  case (Some a)
  then obtain ms' off' where s: "bpf_mbuf_skip m (unat k) = Some (ms', off')"
    by (cases a) auto
  note sp = bpf_mbuf_skip_spec [OF s]
  have "length (drop (unat k) (concat m)) = length (drop off' (concat ms'))"
    using sp by simp
  then have l: "length (concat m) - unat k = length (concat ms') - off'" by simp
  have g: "bpf_mbuf_gather ms' off' len =
     (if off' + len \<le> length (concat ms') then Some (take len (drop off' (concat ms'))) else None)"
    by (rule bpf_mbuf_gather_spec) (use assms sp in auto)
  show ?thesis
    using s sp l g by (auto simp: bpf_mbuf_copy_def)
qed

interpretation mbuf_loads: packet_loads bpf_mbuf_ops concat "\<lambda>_. True"
proof unfold_locales
  fix m :: mbuf_chain and k :: u32
  show "ldw bpf_mbuf_ops m k = bytes_load 4 (concat m) k"
    by (simp add: bpf_mbuf_ops_def bpf_mbuf_ldw_def bytes_load_def bpf_mbuf_copy_spec)
  show "ldh bpf_mbuf_ops m k = bytes_load 2 (concat m) k"
    by (simp add: bpf_mbuf_ops_def bpf_mbuf_ldh_def bytes_load_def bpf_mbuf_copy_spec)
  show "ldb bpf_mbuf_ops m k = bytes_load 1 (concat m) k"
  proof (cases "bpf_mbuf_skip m (unat k)")
    case None
    then have "length (concat m) \<le> unat k" by (simp add: bpf_mbuf_skip_None)
    with None show ?thesis
      by (simp add: bpf_mbuf_ops_def bpf_mbuf_ldb_def bytes_load_def)
  next
    case (Some a)
    then obtain m' ms' off' where s: "bpf_mbuf_skip m (unat k) = Some (m' # ms', off')" and
        lt: "unat k < length (concat m)" "off' < length m'" and
        dr: "drop (unat k) (concat m) = drop off' (concat (m' # ms'))"
      using bpf_mbuf_skip_spec by (cases a) fastforce
    have "hd (drop (unat k) (concat m)) = m' ! off'"
      using dr lt by (simp add: hd_drop_conv_nth hd_append)
    then have "take 1 (drop (unat k) (concat m)) = [m' ! off']"
      using lt by (simp add: take_Suc)
    then show ?thesis
      using s lt by (simp add: bpf_mbuf_ops_def bpf_mbuf_ldb_def bytes_load_def)
  qed
qed

section \<open>Properties\<close>

text \<open>
  Two programs the witnesses run: accept IPv4 frames (load the EtherType at offset 12, compare,
  accept or reject), and shift the accumulator by a constant that is too large.
\<close>

definition prog_ip :: "bpf_insn list" where
  "prog_ip =
     [\<lparr>i_code = 0x28, i_jt = 0, i_jf = 0, i_k = 12\<rparr>,
      \<lparr>i_code = 0x15, i_jt = 0, i_jf = 1, i_k = 0x800\<rparr>,
      \<lparr>i_code = 0x06, i_jt = 0, i_jf = 0, i_k = 0xffff\<rparr>,
      \<lparr>i_code = 0x06, i_jt = 0, i_jf = 0, i_k = 0\<rparr>]"

definition prog_shift :: "bpf_insn list" where
  "prog_shift =
     [\<lparr>i_code = 0x64, i_jt = 0, i_jf = 0, i_k = 40\<rparr>,
      \<lparr>i_code = 0x16, i_jt = 0, i_jf = 0, i_k = 0\<rparr>]"

lemma prog_ip_valid: "bpf_validate 32768 prog_ip 4"
  by code_simp

lemma prog_shift_valid: "bpf_validate 32768 prog_shift 2"
  by code_simp

text \<open>
  The instructions whose shift amount the validator would have to look at: a shift by the index
  register, or by a constant of 32 or more.
\<close>

definition shift_ok :: "bpf_insn \<Rightarrow> bool" where
  "shift_ok p \<longleftrightarrow>
     i_code p \<noteq> BPF_ALU OR BPF_LSH OR BPF_X \<and> i_code p \<noteq> BPF_ALU OR BPF_RSH OR BPF_X \<and>
     (i_code p = BPF_ALU OR BPF_LSH OR BPF_K \<or> i_code p = BPF_ALU OR BPF_RSH OR BPF_K
        \<longrightarrow> i_k p < 32)"

lemma bpf_exec_shift_ok:
  assumes "shift_ok p" 
  shows "bpf_exec ops pkt wirelen rnd p r \<noteq> Fault Fault_Shift"
  unfolding bpf_exec_def
proof (rule first_some_cases)
  fix s
  assume "Some s \<in> set [bpf_exec_ret p r, bpf_exec_pkt ops pkt wirelen rnd p r, bpf_exec_mem p r,
        bpf_exec_jmp p r, bpf_exec_alu_x p r, bpf_exec_alu_k p r, bpf_exec_misc p r]"
  moreover have "bpf_exec_ret p r \<noteq> Some (Fault Fault_Shift)"
    "bpf_exec_pkt ops pkt wirelen rnd p r \<noteq> Some (Fault Fault_Shift)"
    "bpf_exec_mem p r \<noteq> Some (Fault Fault_Shift)"
    "bpf_exec_jmp p r \<noteq> Some (Fault Fault_Shift)"
    "bpf_exec_misc p r \<noteq> Some (Fault Fault_Shift)"
    by (simp_all add: bpf_exec_ret_def bpf_exec_pkt_def bpf_exec_mem_def bpf_exec_jmp_def
        bpf_exec_misc_def kern_defs Let_def split: option.split)
  moreover have "bpf_exec_alu_x p r \<noteq> Some (Fault Fault_Shift)"
    "bpf_exec_alu_k p r \<noteq> Some (Fault Fault_Shift)"
    using assms
    by (auto simp: bpf_exec_alu_x_def bpf_exec_alu_k_def bpf_shift_def shift_ok_def kern_defs Let_def)
  ultimately show "s \<noteq> Fault Fault_Shift"
    by auto
qed simp

lemma bpf_loop_shift_ok:
  assumes "list_all shift_ok f"
  shows "bpf_loop ops pkt wirelen rnd f pc r \<noteq> Inl Fault_Shift"
  using assms
proof (induction ops pkt wirelen rnd f pc r rule: bpf_loop.induct)
  case (1 ops pkt wirelen rnd f pc r)
  have "pc < length f \<Longrightarrow> bpf_exec ops pkt wirelen (rnd pc) (f ! pc) r \<noteq> Fault Fault_Shift"
    using "1.prems" by (simp add: bpf_exec_shift_ok list_all_length)
  then show ?case
    using "1.IH" "1.prems" by (subst bpf_loop.simps) (auto split: bpf_step.splits)
qed

text \<open>C1: A program that \<^verbatim>\<open>bpf_validate\<close> accepts, run by \<^verbatim>\<open>_bpf_filter\<close> on any packet through any
  implementation of the loads and with any random numbers, never reads an instruction outside the
  program, never indexes the scratch memory out of range and never divides by zero: the only
  undefined operation it can reach is a shift by 32 or more.\<close>

theorem bpf_validated_safe:
  assumes "bpf_validate maxbuf f (int (length f))"
    and "run_bpf_filter (Some f) ops pkt wirelen rnd = Inl e"
  shows "e = Fault_Shift"
proof -
  have "bpf_loop ops pkt wirelen rnd f 0 bpf_regs0 \<in> {Inl Fault_Shift} \<union> range Inr"
    by (rule bpf_loop_safe) (use assms(1) bpf_validate_length in \<open>auto simp: bpf_regs0_def\<close>)
  with assms(2) show ?thesis by (auto simp: run_bpf_filter_def)
qed

lemma prog_shift_run:
  "run_bpf_filter (Some prog_shift) ops pkt wirelen rnd = Inl Fault_Shift"
  by (simp add: run_bpf_filter_def bpf_loop.simps prog_shift_def bpf_exec_def bpf_groups
      bpf_shift_def Let_def)

theorem bpf_validated_safe_witness:
  "\<exists>e. run_bpf_filter (Some prog_shift) bytes_ops [] 0 (\<lambda>_. 0) = Inl e \<and> e = Fault_Shift"
proof -
  have v: "bpf_validate 32768 prog_shift (int (length prog_shift))"
    using prog_shift_valid by (simp add: prog_shift_def)
  show ?thesis
    by (intro exI conjI, rule prog_shift_run, rule bpf_validated_safe [OF v prog_shift_run])
qed

text \<open>C2: A program that \<^verbatim>\<open>bpf_validate\<close> accepts and whose shifts are by constants below 32 runs to a
  \<^verbatim>\<open>BPF_RET\<close> (or to a load beyond the packet, a division by a zero index register or an unknown opcode,
  which return 0): \<^verbatim>\<open>_bpf_filter\<close> always returns a snapshot length for it.\<close>

theorem bpf_validated_returns:
  assumes "bpf_validate maxbuf f (int (length f))" and "list_all shift_ok f"
  shows "\<exists>v. run_bpf_filter (Some f) ops pkt wirelen rnd = Inr v"
proof -
  have "bpf_loop ops pkt wirelen rnd f 0 bpf_regs0 \<in> {Inl Fault_Shift} \<union> range Inr"
    by (rule bpf_loop_safe) (use assms(1) bpf_validate_length in \<open>auto simp: bpf_regs0_def\<close>)
  with bpf_loop_shift_ok [OF assms(2), of ops pkt wirelen rnd 0 bpf_regs0] show ?thesis
    by (auto simp: run_bpf_filter_def)
qed

theorem bpf_validated_returns_witness:
  "\<exists>v. run_bpf_filter (Some prog_ip) bpf_mbuf_ops [[1, 2], [3]] 3 (\<lambda>_. 7) = Inr v"
proof -
  have "bpf_validate 32768 prog_ip (int (length prog_ip))"
    using prog_ip_valid by (simp add: prog_ip_def)
  moreover have "list_all shift_ok prog_ip"
    by (simp add: prog_ip_def shift_ok_def)
  ultimately show ?thesis by (rule bpf_validated_returns)
qed

text \<open>The validator does not look at shift amounts: it accepts a program that shifts the 32-bit
  accumulator left by 40, and running that program reaches the undefined shift whatever the packet.\<close>

theorem bpf_shift_unchecked:
  "bpf_validate 32768 prog_shift 2 \<and>
   run_bpf_filter (Some prog_shift) ops pkt wirelen rnd = Inl Fault_Shift"
  by (rule conjI [OF prog_shift_valid prog_shift_run])

text \<open>C3: Filtering an mbuf chain in place (\<^verbatim>\<open>bpf_mfilter\<close>, which walks the chain on every load) gives
  the same result as filtering the same bytes in one linear buffer (\<^verbatim>\<open>bpf_filter\<close>) on an LP64 machine,
  however the packet is cut into mbufs and whatever lies in memory behind the linear buffer.\<close>

theorem bpf_mfilter_eq_filter:
  assumes "length (concat m) < 2 ^ 32"
  shows "bpf_mfilter prog m wirelen rnd =
     bpf_filter 64 oob prog (concat m) wirelen (of_nat (length (concat m))) rnd"
  using assms
  by (simp add: bpf_mfilter_def bpf_filter_def mbuf_loads.filter_contents
      mem_loads.filter_contents bm_valid_def unat_of_nat_less)

definition frame_ip :: mbuf_chain where
  "frame_ip = [[0, 0, 0, 0, 0, 0, 0], [0, 0, 0, 0, 0, 8], [], [0, 69]]"

theorem bpf_mfilter_eq_filter_witness:
  "bpf_mfilter (Some prog_ip) frame_ip 15 (\<lambda>_. 0) =
     bpf_filter 64 (\<lambda>_. 0) (Some prog_ip) (concat frame_ip) 15
       (of_nat (length (concat frame_ip))) (\<lambda>_. 0) \<and>
   bpf_mfilter (Some prog_ip) frame_ip 15 (\<lambda>_. 0) = Inr 0xffff"
proof -
  have "length (concat frame_ip) < 2 ^ 32"
    by (simp add: frame_ip_def)
  note eq = bpf_mfilter_eq_filter [OF this, of "Some prog_ip" 15 "\<lambda>_. 0" "\<lambda>_. 0"]
  have "bpf_mfilter (Some prog_ip) frame_ip 15 (\<lambda>_. 0) = Inr 0xffff"
    unfolding bpf_mfilter_def mbuf_loads.filter_contents [OF TrueI]
    by (simp add: run_bpf_filter_def bpf_loop.simps
        prog_ip_def frame_ip_def bpf_exec_def bpf_groups bytes_ops_def bytes_load_def
        bpf_regs0_def kern_defs Let_def)
  with eq show ?thesis by simp
qed

text \<open>Where \<^verbatim>\<open>size_t\<close> has 32 bits the bound check \<^verbatim>\<open>k + sizeof(v) > bm->len\<close> of \<^verbatim>\<open>bpf_mem_ldw\<close> wraps:
  at offset \<^verbatim>\<open>0xfffffffe\<close>, which a program reaches through the index register, the load succeeds on
  every packet of at least two bytes and at most 2 GB and its value is made of bytes that lie
  outside the packet.\<close>

theorem bpf_mem_ldw_ilp32_wraps:
  assumes "2 \<le> bm_len bm" and "length (bm_pkt bm) \<le> 2 ^ 31"
  shows "bpf_mem_ldw 32 bm 0xfffffffe =
     Some (of_nat (be_bytes (map (bm_oob bm) [0xfffffffe, 0xffffffff, 2 ^ 32, 2 ^ 32 + 1])))"
  using assms by (simp add: bpf_mem_ldw_def bm_byte_def word_le_nat_alt)

theorem bpf_mem_ldw_ilp32_wraps_witness:
  "bpf_mem_ldw 32 \<lparr>bm_pkt = [1, 2, 3, 4], bm_len = 4, bm_oob = (\<lambda>_. 0x55)\<rparr> 0xfffffffe =
     Some 0x55555555"
  by (subst bpf_mem_ldw_ilp32_wraps) (simp_all)

end
