(* ===== verification/Bpf_Dev.thy ===== *)
theory Bpf_Dev
  imports Bpf_Filter
begin

text \<open>
  The bpf descriptor of \<^verbatim>\<open>sys/net/bpf.c\<close> and \<^verbatim>\<open>bpfdesc.h\<close>: three buffer slots (store, hold, free), the
  capture path (\<^verbatim>\<open>_bpf_mtap\<close>, \<^verbatim>\<open>bpf_catchpacket\<close>), the read path (\<^verbatim>\<open>bpfread\<close>, split where it sleeps and
  where it copies to user space with the mutex released), installing filters (\<^verbatim>\<open>bpf_setf\<close>), and the
  ioctls that change the descriptor. The step relation at the end interleaves them, and its
  reachable states satisfy the buffer and filter invariants.

  \<^item> A buffer is a number; \<open>bd_mem\<close> gives its live contents, the captured records in address order.
    Bytes beyond \<^verbatim>\<open>bd_slen\<close> are dead, so a buffer that is reused from offset 0 starts empty.
  \<^item> Failed \<^verbatim>\<open>KASSERT\<close>s and \<^verbatim>\<open>panic\<close> are the left values of the result.
  \<^item> \<^verbatim>\<open>int\<close> lengths are \<open>nat\<close>; \<^verbatim>\<open>u_long\<close> counters and \<^verbatim>\<open>uint64_t\<close> timeouts are \<open>u64\<close>.
  \<^item> \<open>bd_tmo\<close> and \<open>bd_task\<close> say whether the wait timeout and the wake task are pending;
    \<^verbatim>\<open>timeout_add\<close>, \<^verbatim>\<open>timeout_del\<close> and \<^verbatim>\<open>task_add\<close> return whether they changed that.
\<close>

section \<open>State\<close>

datatype bpf_dstate = BPF_S_IDLE | BPF_S_WAIT | BPF_S_DONE

datatype bpf_panic = Kassert_uiomove | Kassert_slots | Kassert_ifp | Panic_ifpromisc | Panic_mcopy | Filter_fault bpf_fault

record bpf_hdr =
  bh_tv_sec :: u32
  bh_tv_usec :: u32
  bh_caplen :: u32
  bh_datalen :: u32
  bh_hdrlen :: u16
  bh_ifidx :: u16
  bh_flowid :: u16
  bh_flags :: u8
  bh_drops :: u8
  bh_csumflags :: u16

definition SIZEOF_BPF_HDR :: nat where
  "SIZEOF_BPF_HDR = 28"

definition BPF_WORDALIGN :: "nat \<Rightarrow> nat" where
  "BPF_WORDALIGN x = (x + 3) div 4 * 4"

definition INFSLP :: u64 where
  "INFSLP = - 1"

definition BPF_MINBUFSIZE :: nat where
  "BPF_MINBUFSIZE = 32"

abbreviation (input) "BPF_FILDROP_PASS \<equiv> 0 :: u8"
abbreviation (input) "BPF_FILDROP_CAPTURE \<equiv> 1 :: u8"
abbreviation (input) "BPF_FILDROP_DROP \<equiv> 2 :: u8"

text \<open>A record in a buffer: its offset, the header written there and the captured bytes.\<close>

record bpf_rec =
  rec_off :: nat
  rec_hdr :: bpf_hdr
  rec_data :: bytes

text \<open>
  \<^verbatim>\<open>struct bpf_if\<close>: the interface (\<^verbatim>\<open>bif_ifp\<close>, NULL for one attached by \<^verbatim>\<open>bpfsattach\<close>) is given by its index. The
  list of listeners is that of the descriptors whose \<^verbatim>\<open>bd_bif\<close> points here.
\<close>

record bpf_if =
  bif_name :: string
  bif_dlt :: nat
  bif_hdrlen :: nat
  bif_ifp :: "nat option"

text \<open>\<^verbatim>\<open>struct bpf_d\<close>. \<open>bd_alloc\<close> is the size with which the buffers were allocated; the code does not keep it.\<close>

record bpf_d =
  bd_sbuf :: "nat option"
  bd_hbuf :: "nat option"
  bd_fbuf :: "nat option"
  bd_mem :: "nat \<Rightarrow> bpf_rec list"
  bd_slen :: nat
  bd_hlen :: nat
  bd_bufsize :: nat
  bd_alloc :: nat
  bd_in_uiomove :: bool
  bd_bif :: "bpf_if option"
  bd_promisc :: bool
  bd_hdrcmplt :: bool
  bd_rtout :: u64
  bd_wtout :: u64
  bd_rfilter :: "bpf_insn list option"
  bd_wfilter :: "bpf_insn list option"
  bd_rcount :: u64
  bd_dcount :: u64
  bd_state :: bpf_dstate
  bd_locked :: bool
  bd_fildrop :: u8
  bd_dirfilt :: u8
  bd_async :: bool
  bd_sig :: nat
  bd_refcnt :: nat
  bd_tmo :: bool
  bd_task :: bool

text \<open>\<^verbatim>\<open>bpfopen\<close>: a zeroed descriptor with the default sizes, one reference held by the list.\<close>

definition bpfopen :: "nat \<Rightarrow> nat \<Rightarrow> bpf_d" where
  "bpfopen bpf_bufsize SIGIO =
     \<lparr>bd_sbuf = None, bd_hbuf = None, bd_fbuf = None, bd_mem = (\<lambda>_. []), bd_slen = 0, bd_hlen = 0,
      bd_bufsize = bpf_bufsize, bd_alloc = 0, bd_in_uiomove = False, bd_bif = None, bd_promisc = False,
      bd_hdrcmplt = False, bd_rtout = 0,
      bd_wtout = INFSLP, bd_rfilter = None, bd_wfilter = None, bd_rcount = 0, bd_dcount = 0,
      bd_state = BPF_S_IDLE, bd_locked = False, bd_fildrop = 0, bd_dirfilt = 0, bd_async = False,
      bd_sig = SIGIO, bd_refcnt = 1, bd_tmo = False, bd_task = False\<rparr>"

section \<open>References, wakeups and timeouts\<close>

definition bpf_get :: "bpf_d \<Rightarrow> bpf_d" where
  "bpf_get d = d\<lparr>bd_refcnt := bd_refcnt d + 1\<rparr>"

text \<open>The descriptor is freed when the count drops to 0.\<close>

definition bpf_put :: "bpf_d \<Rightarrow> bpf_d" where
  "bpf_put d = d\<lparr>bd_refcnt := bd_refcnt d - 1\<rparr>"

definition bpf_wakeup :: "bpf_d \<Rightarrow> bpf_d" where
  "bpf_wakeup d =
     (if bd_async d \<and> bd_sig d \<noteq> 0 then
        (let d1 = bpf_get d in if bd_task d1 then bpf_put d1 else d1\<lparr>bd_task := True\<rparr>)
      else d)"

text \<open>The task and timeout callbacks run with their pending bit already cleared.\<close>

definition bpf_wakeup_cb :: "bpf_d \<Rightarrow> bpf_d" where
  "bpf_wakeup_cb d = bpf_put d"

definition bpf_wait_cb :: "bpf_d \<Rightarrow> bpf_d" where
  "bpf_wait_cb d =
     bpf_put (if bd_state d = BPF_S_WAIT then bpf_wakeup (d\<lparr>bd_state := BPF_S_DONE\<rparr>) else d)"

definition del_wait_tmo :: "bpf_d \<Rightarrow> bpf_d" where
  "del_wait_tmo d = (if bd_tmo d then bpf_put (d\<lparr>bd_tmo := False\<rparr>) else d)"

lemmas bpf_ref_defs = bpf_get_def bpf_put_def bpf_wakeup_def bpf_wakeup_cb_def bpf_wait_cb_def
  del_wait_tmo_def

section \<open>Buffer slots\<close>

definition ROTATE_BUFFERS :: "bpf_d \<Rightarrow> bpf_panic + bpf_d" where
  "ROTATE_BUFFERS d =
     (if bd_in_uiomove d then Inl Kassert_uiomove
      else Inr (d\<lparr>bd_hbuf := bd_sbuf d, bd_hlen := bd_slen d, bd_sbuf := bd_fbuf d,
                 bd_state := BPF_S_IDLE, bd_slen := 0, bd_fbuf := None\<rparr>))"

definition bpf_resetd :: "bpf_d \<Rightarrow> bpf_panic + bpf_d" where
  "bpf_resetd d =
     (if bd_in_uiomove d then Inl Kassert_uiomove
      else
        (let d1 = del_wait_tmo d;
             d2 = (if bd_hbuf d1 \<noteq> None then d1\<lparr>bd_fbuf := bd_hbuf d1, bd_hbuf := None\<rparr> else d1)
         in Inr (d2\<lparr>bd_state := BPF_S_IDLE, bd_slen := 0, bd_hlen := 0, bd_rcount := 0,
                   bd_dcount := 0\<rparr>)))"

text \<open>
  \<^verbatim>\<open>bpf_allocbufs\<close> with the results of its two \<^verbatim>\<open>malloc\<close> calls (\<open>None\<close> for NULL).
\<close>

definition bpf_allocbufs :: "nat option \<Rightarrow> nat option \<Rightarrow> bpf_d \<Rightarrow> errno option \<times> bpf_d" where
  "bpf_allocbufs fb sb d =
     (case fb of
        None \<Rightarrow> (Some ENOMEM, d\<lparr>bd_fbuf := None\<rparr>)
      | Some f \<Rightarrow>
          (case sb of
             None \<Rightarrow> (Some ENOMEM, d\<lparr>bd_sbuf := None, bd_fbuf := None\<rparr>)
           | Some s \<Rightarrow> (None, d\<lparr>bd_fbuf := Some f, bd_sbuf := Some s, bd_slen := 0, bd_hlen := 0, bd_alloc := bd_bufsize d\<rparr>)))"

section \<open>Capture\<close>

text \<open>\<^verbatim>\<open>bpf_mcopy\<close>: the first \<open>len\<close> bytes of the chain; running off its end panics.\<close>

fun bpf_mcopy :: "mbuf_chain \<Rightarrow> nat \<Rightarrow> bytes option" where
  "bpf_mcopy [] len = (if len > 0 then None else Some [])"
| "bpf_mcopy (m # ms) len =
     (if len > 0 then
        (let count = min (length m) len
         in map_option (\<lambda>dst. take count m @ dst) (bpf_mcopy ms (len - count)))
      else Some [])"

text \<open>The tail of \<^verbatim>\<open>bpf_catchpacket\<close>: the \<^verbatim>\<open>switch (d->bd_wtout)\<close>.\<close>

definition bpf_wait_switch :: "bpf_d \<Rightarrow> bool \<times> bpf_d" where
  "bpf_wait_switch d =
     (if bd_wtout d = 0 then
        (True, if bd_state d = BPF_S_IDLE then d\<lparr>bd_state := BPF_S_DONE\<rparr> else d)
      else if bd_wtout d = INFSLP then (False, d)
      else if bd_state d = BPF_S_IDLE then
        (let d1 = bpf_get (d\<lparr>bd_state := BPF_S_WAIT\<rparr>)
         in (False, if bd_tmo d1 then bpf_put d1 else d1\<lparr>bd_tmo := True\<rparr>))
      else (False, d))"

text \<open>
  Lines 1601 to 1641: write the record at \<open>curlen\<close> into the store buffer, then wake readers. The
  store slot is never empty while the descriptor is attached; writing through a NULL store pointer
  is \<open>Kassert_slots\<close>.
\<close>

definition bpf_append ::
    "bpf_d \<Rightarrow> mbuf_chain \<Rightarrow> nat \<Rightarrow> nat \<Rightarrow> nat \<Rightarrow> nat \<Rightarrow> bpf_hdr \<Rightarrow> bool \<Rightarrow> bpf_panic + bpf_d" where
  "bpf_append d pkt pktlen hdrlen totlen curlen tbh do_wakeup =
     (case bd_sbuf d of
        None \<Rightarrow> Inl Kassert_slots
      | Some sb \<Rightarrow>
          (case bpf_mcopy pkt (totlen - hdrlen) of
             None \<Rightarrow> Inl Panic_mcopy
           | Some dat \<Rightarrow>
               (let bh = tbh\<lparr>bh_datalen := of_nat pktlen, bh_hdrlen := of_nat hdrlen,
                            bh_caplen := of_nat (totlen - hdrlen)\<rparr>;
                    old = (if curlen = 0 then [] else bd_mem d sb);
                    d1 = d\<lparr>bd_mem := (bd_mem d)(sb := old @ [\<lparr>rec_off = curlen, rec_hdr = bh, rec_data = dat\<rparr>]),
                           bd_slen := curlen + totlen\<rparr>;
                    (wk, d2) = bpf_wait_switch d1
                in Inr (if do_wakeup \<or> wk then bpf_wakeup d2 else d2))))"

definition bpf_catchpacket ::
    "bpf_d \<Rightarrow> mbuf_chain \<Rightarrow> nat \<Rightarrow> nat \<Rightarrow> bpf_hdr \<Rightarrow> bpf_panic + bpf_d" where
  "bpf_catchpacket d pkt pktlen snaplen tbh =
     (case bd_bif d of
        None \<Rightarrow> Inr d
      | Some bif \<Rightarrow>
          (let hdrlen = bif_hdrlen bif;
               totlen0 = hdrlen + min snaplen pktlen;
               totlen = (if totlen0 > bd_bufsize d then bd_bufsize d else totlen0);
               curlen = BPF_WORDALIGN (bd_slen d)
           in if curlen + totlen > bd_bufsize d then
                (if bd_fbuf d = None then Inr (d\<lparr>bd_dcount := bd_dcount d + 1\<rparr>)
                 else
                   (case ROTATE_BUFFERS (del_wait_tmo d) of
                      Inl e \<Rightarrow> Inl e
                    | Inr d1 \<Rightarrow> bpf_append d1 pkt pktlen hdrlen totlen 0 tbh True))
              else bpf_append d pkt pktlen hdrlen totlen curlen tbh False))"

text \<open>
  The header that \<^verbatim>\<open>_bpf_mtap\<close> prepares: from the packet header of \<open>mp\<close> when it has one, with the
  time stamp \<open>tv\<close> (\<^verbatim>\<open>m_microtime\<close> or \<^verbatim>\<open>microtime\<close>) and the direction bits.
\<close>

record pkthdr =
  ph_ifidx :: u16
  ph_flowid :: u16
  ph_prio :: u8
  ph_csum_flags :: u16
  ph_has_flowid :: bool

definition bpf_make_hdr :: "pkthdr option \<Rightarrow> u32 \<times> u32 \<Rightarrow> u8 \<Rightarrow> bpf_hdr" where
  "bpf_make_hdr mp tv direction =
     (let z = \<lparr>bh_tv_sec = fst tv, bh_tv_usec = snd tv, bh_caplen = 0, bh_datalen = 0, bh_hdrlen = 0,
              bh_ifidx = 0, bh_flowid = 0, bh_flags = 0, bh_drops = 0, bh_csumflags = 0\<rparr>;
          h = (case mp of
                 None \<Rightarrow> z
               | Some ph \<Rightarrow> z\<lparr>bh_ifidx := ph_ifidx ph, bh_flowid := ph_flowid ph,
                              bh_flags := (if ph_has_flowid ph then ph_prio ph OR 0x08 else ph_prio ph),
                              bh_csumflags := ph_csum_flags ph\<rparr>)
      in h\<lparr>bh_flags := bh_flags h OR push_bit 4 direction\<rparr>)"

text \<open>
  The body of the loop of \<^verbatim>\<open>_bpf_mtap\<close> for one descriptor: whether the packet is to be dropped, and the
  new descriptor. A fault of the filter program is passed on.
\<close>

definition bpf_mtap_one ::
    "(nat \<Rightarrow> u32) \<Rightarrow> mbuf_chain \<Rightarrow> bpf_hdr \<Rightarrow> u8 \<Rightarrow> bpf_d \<Rightarrow> bpf_panic + (bool \<times> bpf_d)" where
  "bpf_mtap_one rnd m tbh direction d0 =
     (let d = d0\<lparr>bd_rcount := bd_rcount d0 + 1\<rparr>;
          pktlen = length (concat m)
      in if bd_dirfilt d AND direction \<noteq> 0 then Inr (False, d)
         else
           (case bpf_mfilter (bd_rfilter d) m (of_nat pktlen) rnd of
              Inl e \<Rightarrow> Inl (Filter_fault e)
            | Inr slen \<Rightarrow>
                if slen = 0 then Inr (False, d)
                else
                  (let dr = bd_fildrop d \<noteq> BPF_FILDROP_PASS
                   in if bd_fildrop d \<noteq> BPF_FILDROP_DROP then
                        (case bpf_catchpacket d m pktlen (unat slen) tbh of
                           Inl e \<Rightarrow> Inl e
                         | Inr d' \<Rightarrow> Inr (dr, d'))
                      else Inr (dr, d))))"

fun bpf_mtap_loop ::
    "(nat \<Rightarrow> u32) \<Rightarrow> mbuf_chain \<Rightarrow> bpf_hdr \<Rightarrow> u8 \<Rightarrow> bpf_d list \<Rightarrow> bpf_panic + (bool \<times> bpf_d list)" where
  "bpf_mtap_loop rnd m tbh direction [] = Inr (False, [])"
| "bpf_mtap_loop rnd m tbh direction (d # ds) =
     (case bpf_mtap_one rnd m tbh direction d of
        Inl e \<Rightarrow> Inl e
      | Inr (dr, d') \<Rightarrow>
          (case bpf_mtap_loop rnd m tbh direction ds of
             Inl e \<Rightarrow> Inl e
           | Inr (dr', ds') \<Rightarrow> Inr (dr \<or> dr', d' # ds')))"

text \<open>
  \<^verbatim>\<open>_bpf_mtap\<close>: \<open>m\<close> is the chain to filter (\<open>[]\<close> for a NULL pointer), \<open>mp\<close> the packet header.
\<close>

definition bpf_mtap_all ::
    "(nat \<Rightarrow> u32) \<Rightarrow> u32 \<times> u32 \<Rightarrow> pkthdr option \<Rightarrow> mbuf_chain \<Rightarrow> u8 \<Rightarrow> bpf_d list
      \<Rightarrow> bpf_panic + (bool \<times> bpf_d list)" where
  "bpf_mtap_all rnd tv mp m direction ds =
     (if m = [] then Inr (False, ds)
      else bpf_mtap_loop rnd m (bpf_make_hdr mp tv direction) direction ds)"

text \<open>The three entry points that prepend a header by linking stack mbufs in front of the chain.\<close>

definition bpf_tap_hdr ::
    "(nat \<Rightarrow> u32) \<Rightarrow> u32 \<times> u32 \<Rightarrow> bytes option \<Rightarrow> bytes option \<Rightarrow> u8 \<Rightarrow> bpf_d list
      \<Rightarrow> bpf_panic + (bool \<times> bpf_d list)" where
  "bpf_tap_hdr rnd tv hdr buf direction ds =
     bpf_mtap_all rnd tv None
       ((case hdr of None \<Rightarrow> [] | Some h \<Rightarrow> [h]) @ (case buf of None \<Rightarrow> [] | Some b \<Rightarrow> [b]))
       direction ds"

definition bpf_mtap_hdr ::
    "(nat \<Rightarrow> u32) \<Rightarrow> u32 \<times> u32 \<Rightarrow> bytes \<Rightarrow> pkthdr option \<Rightarrow> mbuf_chain \<Rightarrow> u8 \<Rightarrow> bpf_d list
      \<Rightarrow> bpf_panic + (bool \<times> bpf_d list)" where
  "bpf_mtap_hdr rnd tv dat mp m direction ds =
     bpf_mtap_all rnd tv mp (if length dat > 0 then dat # m else m) direction ds"

definition bpf_mtap_af ::
    "(nat \<Rightarrow> u32) \<Rightarrow> u32 \<times> u32 \<Rightarrow> u32 \<Rightarrow> pkthdr option \<Rightarrow> mbuf_chain \<Rightarrow> u8 \<Rightarrow> bpf_d list
      \<Rightarrow> bpf_panic + (bool \<times> bpf_d list)" where
  "bpf_mtap_af rnd tv af mp m direction ds =
     bpf_mtap_hdr rnd tv
       [ucast (drop_bit 24 af), ucast (drop_bit 16 af), ucast (drop_bit 8 af), ucast af]
       mp m direction ds"

section \<open>Reading\<close>

text \<open>
  \<^verbatim>\<open>bpfread\<close> in the pieces between which other threads run. \<open>Read_Got\<close> is the state after the loop, with
  the hold buffer taken out of its slot and \<^verbatim>\<open>bd_in_uiomove\<close> set: the data is copied to user space with
  the mutex released, then \<open>bpfread_done\<close> runs. \<open>Read_Sleep\<close> is \<^verbatim>\<open>msleep_nsec\<close>.
\<close>

datatype bpf_read = Read_Error errno | Read_Empty | Read_Sleep | Read_Got nat nat bpf_d | Read_Panic bpf_panic

definition bpfread_hold :: "bpf_d \<Rightarrow> bpf_read" where
  "bpfread_hold d =
     (case bd_hbuf d of
        None \<Rightarrow> Read_Panic Kassert_slots
      | Some hbuf \<Rightarrow>
          Read_Got hbuf (bd_hlen d)
            (d\<lparr>bd_hbuf := None, bd_hlen := 0, bd_fbuf := None, bd_in_uiomove := True\<rparr>))"

definition bpfread_rotate :: "bpf_d \<Rightarrow> bpf_read" where
  "bpfread_rotate d = (case ROTATE_BUFFERS d of Inl e \<Rightarrow> Read_Panic e | Inr d1 \<Rightarrow> bpfread_hold d1)"

text \<open>Lines 522 to 544, after a sleep or a refusal to sleep ended with an error.\<close>

definition bpfread_woken :: "errno \<Rightarrow> bpf_d \<Rightarrow> bpf_read" where
  "bpfread_woken error d =
     (if error = EINTR \<or> error = ERESTART then Read_Error error
      else if error = EWOULDBLOCK then
        (if bd_hbuf d \<noteq> None then bpfread_hold d
         else if bd_slen d = 0 then Read_Empty
         else bpfread_rotate d)
      else Read_Sleep)"

text \<open>One turn of the loop: \<open>expired\<close> says that the read timeout has passed.\<close>

definition bpfread_iter :: "bool \<Rightarrow> bool \<Rightarrow> bpf_d \<Rightarrow> bpf_read" where
  "bpfread_iter ndelay expired d =
     (if bd_hbuf d \<noteq> None then bpfread_hold d
      else if bd_bif d = None then
        (if bd_slen d = 0 then Read_Error EIO else bpfread_rotate d)
      else if bd_state d = BPF_S_DONE then bpfread_rotate d
      else if ndelay then bpfread_woken EWOULDBLOCK d
      else if bd_rtout d = 0 then Read_Sleep
      else if \<not> expired then Read_Sleep
      else bpfread_woken EWOULDBLOCK d)"

definition bpfread :: "nat \<Rightarrow> bool \<Rightarrow> bool \<Rightarrow> bpf_d \<Rightarrow> bpf_read" where
  "bpfread resid ndelay expired d =
     (if bd_bif d = None then Read_Error ENXIO
      else if resid \<noteq> bd_bufsize d then Read_Error EINVAL
      else bpfread_iter ndelay expired d)"

text \<open>After \<^verbatim>\<open>uiomove\<close>: the two assertions, then the buffer goes to the free slot.\<close>

definition bpfread_done :: "nat \<Rightarrow> bpf_d \<Rightarrow> bpf_panic + bpf_d" where
  "bpfread_done hbuf d =
     (if bd_fbuf d \<noteq> None \<or> bd_hbuf d \<noteq> None then Inl Kassert_slots
      else Inr (d\<lparr>bd_fbuf := Some hbuf, bd_in_uiomove := False\<rparr>))"

text \<open>\<^verbatim>\<open>filt_bpfread\<close>: the number of bytes a read would return now.\<close>

definition filt_bpfread :: "bpf_d \<Rightarrow> nat" where
  "filt_bpfread d = bd_hlen d + (if bd_state d = BPF_S_DONE then bd_slen d else 0)"

section \<open>Configuration\<close>

datatype setf_cmd = BIOCSETF | BIOCSETFNR | BIOCSETWF

text \<open>
  \<^verbatim>\<open>bpf_setf\<close>: \<open>insns\<close> is \<open>None\<close> for a NULL \<^verbatim>\<open>bf_insns\<close>; otherwise \<open>malloc_ok\<close> and \<open>copied\<close> are what
  \<^verbatim>\<open>mallocarray\<close> and \<^verbatim>\<open>copyin\<close> give, the latter the \<open>flen\<close> instructions or \<open>None\<close> for a fault.
\<close>

definition bpf_setf ::
    "u32 \<Rightarrow> bool \<Rightarrow> (nat \<Rightarrow> bpf_insn list option) option \<Rightarrow> u32 \<Rightarrow> setf_cmd \<Rightarrow> bpf_d
      \<Rightarrow> bpf_panic + (errno option \<times> bpf_d)" where
  "bpf_setf maxbuf malloc_ok insns flen cmd d =
     (let install = (\<lambda>bps.
        (let d1 = (if cmd \<noteq> BIOCSETWF then d\<lparr>bd_rfilter := bps\<rparr> else d\<lparr>bd_wfilter := bps\<rparr>)
         in if cmd = BIOCSETF
            then (case bpf_resetd d1 of Inl e \<Rightarrow> Inl e | Inr d2 \<Rightarrow> Inr (None, d2))
            else Inr (None, d1)))
      in case insns of
           None \<Rightarrow> if flen \<noteq> 0 then Inr (Some EINVAL, d) else install None
         | Some copyin \<Rightarrow>
             if uint flen > BPF_MAXINSNS then Inr (Some EINVAL, d)
             else if \<not> malloc_ok then Inr (Some ENOMEM, d)
             else
               (case copyin (unat flen) of
                  None \<Rightarrow> Inr (Some EINVAL, d)
                | Some fcode \<Rightarrow>
                    if \<not> bpf_validate maxbuf fcode (uint flen) then Inr (Some EINVAL, d)
                    else install (Some fcode)))"

text \<open>
  \<^verbatim>\<open>bpf_detachd\<close> and \<^verbatim>\<open>bpf_attachd\<close>. \<open>prom\<close> is what \<^verbatim>\<open>ifpromisc\<close> returns; the code releases \<^verbatim>\<open>bd_mtx\<close> around that
  call, so the two halves of \<^verbatim>\<open>bpf_detachd\<close> are also separate definitions: \<open>bpf_detachd_begin\<close> says whether the call
  is made. Here they run without interruption; the theory \<open>Bpf_Ctl\<close> looks at what may come between them.
\<close>

definition bpf_detachd_begin :: "bpf_d \<Rightarrow> bpf_panic + (bool \<times> bpf_d)" where
  "bpf_detachd_begin d =
     (case bd_bif d of
        None \<Rightarrow> Inr (False, d)
      | Some bp \<Rightarrow>
          let d1 = d\<lparr>bd_bif := None\<rparr> in
          if bd_promisc d1
          then (if bif_ifp bp = None then Inl Kassert_ifp else Inr (True, bpf_get (d1\<lparr>bd_promisc := False\<rparr>)))
          else Inr (False, d1))"

definition bpf_detachd_end :: "errno option \<Rightarrow> bpf_d \<Rightarrow> bpf_panic + bpf_d" where
  "bpf_detachd_end prom d =
     (if prom = None \<or> prom = Some EINVAL \<or> prom = Some ENODEV \<or> prom = Some ENXIO then Inr (bpf_put d)
      else Inl Panic_ifpromisc)"

definition bpf_detachd :: "errno option \<Rightarrow> bpf_d \<Rightarrow> bpf_panic + bpf_d" where
  "bpf_detachd prom d =
     (case bpf_detachd_begin d of
        Inl e \<Rightarrow> Inl e
      | Inr (call, d1) \<Rightarrow> if call then bpf_detachd_end prom d1 else Inr d1)"

definition bpf_attachd :: "bpf_if \<Rightarrow> bpf_d \<Rightarrow> bpf_d" where
  "bpf_attachd bp d = d\<lparr>bd_bif := Some bp\<rparr>"

text \<open>
  \<^verbatim>\<open>bpf_setif\<close> on the list of attached interfaces; \<open>fb\<close> and \<open>sb\<close> are the buffers that
  \<^verbatim>\<open>bpf_allocbufs\<close> gets.
\<close>

definition bpf_setif ::
    "bpf_if list \<Rightarrow> nat option \<Rightarrow> nat option \<Rightarrow> errno option \<Rightarrow> string \<Rightarrow> bpf_d \<Rightarrow> bpf_panic + (errno option \<times> bpf_d)" where
  "bpf_setif bpf_iflist fb sb prom name d =
     (case find (\<lambda>bp. bif_name bp = name) bpf_iflist of
        None \<Rightarrow> Inr (Some ENXIO, d)
      | Some bp \<Rightarrow>
          (let (error, d1) = (if bd_sbuf d = None then bpf_allocbufs fb sb d else (None, d))
           in case error of
                Some e \<Rightarrow> Inr (Some e, d1)
              | None \<Rightarrow>
                  (case (if Some bp \<noteq> bd_bif d1 then map_sum (\<lambda>e. e) (bpf_attachd bp) (bpf_detachd prom d1) else Inr d1) of
                     Inl e \<Rightarrow> Inl e
                   | Inr d2 \<Rightarrow>
                       (case bpf_resetd d2 of
                          Inl e \<Rightarrow> Inl e
                        | Inr d3 \<Rightarrow> Inr (None, d3)))))"

text \<open>\<^verbatim>\<open>bpfsattach\<close>: the header length that keeps the network header aligned.\<close>

definition bpfsattach :: "string \<Rightarrow> nat \<Rightarrow> nat \<Rightarrow> bpf_if" where
  "bpfsattach name dlt hdrlen =
     \<lparr>bif_name = name, bif_dlt = dlt, bif_hdrlen = BPF_WORDALIGN (hdrlen + SIZEOF_BPF_HDR) - hdrlen, bif_ifp = None\<rparr>"

definition bpfxattach :: "string \<Rightarrow> nat option \<Rightarrow> nat \<Rightarrow> nat \<Rightarrow> bpf_if" where
  "bpfxattach name ifp dlt hdrlen = (bpfsattach name dlt hdrlen)\<lparr>bif_ifp := ifp\<rparr>"

text \<open>The \<^verbatim>\<open>BIOCSBLEN\<close> ioctl: refused once attached, clamped otherwise.\<close>

definition bpf_sblen :: "nat \<Rightarrow> nat \<Rightarrow> bpf_d \<Rightarrow> errno option \<times> nat \<times> bpf_d" where
  "bpf_sblen bpf_maxbufsize sz d =
     (if bd_bif d \<noteq> None then (Some EINVAL, sz, d)
      else
        (let sz' = (if sz > bpf_maxbufsize then bpf_maxbufsize
                    else if sz < BPF_MINBUFSIZE then BPF_MINBUFSIZE else sz)
         in (None, sz', d\<lparr>bd_bufsize := sz'\<rparr>)))"

definition bpf_set_wtout :: "u64 \<Rightarrow> bpf_d \<Rightarrow> bpf_d" where
  "bpf_set_wtout wtout d = d\<lparr>bd_wtout := wtout\<rparr>"

definition bpf_sfildrop :: "u32 \<Rightarrow> bpf_d \<Rightarrow> errno option \<times> bpf_d" where
  "bpf_sfildrop fildrop d =
     (if fildrop = 0 \<or> fildrop = 1 \<or> fildrop = 2 then (None, d\<lparr>bd_fildrop := ucast fildrop\<rparr>)
      else (Some EINVAL, d))"

definition bpf_sdirfilt :: "u32 \<Rightarrow> bpf_d \<Rightarrow> bpf_d" where
  "bpf_sdirfilt v d = d\<lparr>bd_dirfilt := ucast (v AND (1 OR 2))\<rparr>"

text \<open>\<^verbatim>\<open>BIOCPROMISC\<close>, with the result of \<^verbatim>\<open>ifpromisc\<close>.\<close>

definition bpf_promisc :: "errno option \<Rightarrow> bpf_d \<Rightarrow> errno option \<times> bpf_d" where
  "bpf_promisc prom d =
     (case bd_bif d of
        None \<Rightarrow> (Some EINVAL, d)
      | Some bp \<Rightarrow>
          if bif_ifp bp \<noteq> None \<and> \<not> bd_promisc d
          then (prom, if prom = None then d\<lparr>bd_promisc := True\<rparr> else d)
          else (None, d))"

definition bpf_fionread :: "bpf_d \<Rightarrow> nat" where
  "bpf_fionread d = bd_slen d + (if bd_hbuf d \<noteq> None then bd_hlen d else 0)"

section \<open>Invariant\<close>

text \<open>
  How a reader walks a buffer (\<^verbatim>\<open>bpf(4)\<close>): each record starts at the word boundary after the previous
  one, its header says how long header and data are, and the last record ends at the length the
  read returned.
\<close>

fun bpf_walk :: "nat \<Rightarrow> bpf_rec list \<Rightarrow> nat \<Rightarrow> bool" where
  "bpf_walk cur [] len = (cur = len)"
| "bpf_walk cur (r # rs) len =
     (rec_off r = BPF_WORDALIGN cur \<and> unat (bh_caplen (rec_hdr r)) = length (rec_data r) \<and>
      bpf_walk (rec_off r + unat (bh_hdrlen (rec_hdr r)) + length (rec_data r)) rs len)"

lemma bpf_walk_append:
  "bpf_walk cur (rs @ [r]) len \<longleftrightarrow>
   (\<exists>mid. bpf_walk cur rs mid \<and> rec_off r = BPF_WORDALIGN mid \<and>
      unat (bh_caplen (rec_hdr r)) = length (rec_data r) \<and>
      len = rec_off r + unat (bh_hdrlen (rec_hdr r)) + length (rec_data r))"
  by (induction cur rs len rule: bpf_walk.induct) auto

lemma bpf_walk_unique: "bpf_walk cur rs len \<Longrightarrow> bpf_walk cur rs len' \<Longrightarrow> len = len'"
  by (induction cur rs len rule: bpf_walk.induct) auto

text \<open>A filter slot holds nothing or a program the validator accepted (for the limit then in force).\<close>

definition filter_ok :: "bpf_insn list option \<Rightarrow> bool" where
  "filter_ok prog \<longleftrightarrow> (\<forall>f. prog = Some f \<longrightarrow> (\<exists>maxbuf. bpf_validate maxbuf f (int (length f))))"

text \<open>
  The two buffers: one is in the store slot, the other in exactly one of the hold slot, the free slot
  and the hands of a reader that is copying it out (\<open>copy\<close>). Before the first \<^verbatim>\<open>BIOCSETIF\<close> there is
  none.
\<close>

definition slots_inv :: "nat option \<Rightarrow> bpf_d \<Rightarrow> bool" where
  "slots_inv copy d \<longleftrightarrow>
     (bd_sbuf d = None \<and> bd_hbuf d = None \<and> bd_fbuf d = None \<and> copy = None \<and> bd_bif d = None \<and>
      bd_slen d = 0 \<and> bd_hlen d = 0) \<or>
     (\<exists>s x. s \<noteq> x \<and> bd_sbuf d = Some s \<and> bd_bif d \<noteq> None \<and>
        ((bd_hbuf d, bd_fbuf d, copy) = (Some x, None, None) \<or>
         (bd_hbuf d, bd_fbuf d, copy) = (None, Some x, None) \<and> bd_hlen d = 0 \<or>
         (bd_hbuf d, bd_fbuf d, copy) = (None, None, Some x) \<and> bd_hlen d = 0))"

definition lens_inv :: "bpf_d \<Rightarrow> bool" where
  "lens_inv d \<longleftrightarrow>
     BPF_MINBUFSIZE \<le> bd_bufsize d \<and> bd_bufsize d < 2 ^ 31 \<and>
     bd_slen d \<le> bd_bufsize d \<and> bd_hlen d \<le> bd_bufsize d \<and> (bd_sbuf d \<noteq> None \<longrightarrow> bd_alloc d = bd_bufsize d) \<and>
     (bd_promisc d \<longrightarrow> (\<exists>b. bd_bif d = Some b \<and> bif_ifp b \<noteq> None)) \<and>
     (\<forall>b. bd_bif d = Some b \<longrightarrow> SIZEOF_BPF_HDR \<le> bif_hdrlen b \<and> bif_hdrlen b < BPF_MINBUFSIZE)"

definition store_recs :: "bpf_d \<Rightarrow> bpf_rec list" where
  "store_recs d = (if bd_slen d = 0 then [] else case bd_sbuf d of None \<Rightarrow> [] | Some s \<Rightarrow> bd_mem d s)"

definition hold_recs :: "bpf_d \<Rightarrow> bpf_rec list" where
  "hold_recs d = (if bd_hlen d = 0 then [] else case bd_hbuf d of None \<Rightarrow> [] | Some h \<Rightarrow> bd_mem d h)"

definition walk_inv :: "bpf_d \<Rightarrow> bool" where
  "walk_inv d \<longleftrightarrow> bpf_walk 0 (store_recs d) (bd_slen d) \<and> bpf_walk 0 (hold_recs d) (bd_hlen d)"

definition refs_inv :: "bpf_d \<Rightarrow> bool" where
  "refs_inv d \<longleftrightarrow> bd_refcnt d = 1 + of_bool (bd_tmo d) + of_bool (bd_task d)"

definition bpf_d_inv :: "nat option \<Rightarrow> bpf_d \<Rightarrow> bool" where
  "bpf_d_inv copy d \<longleftrightarrow>
     slots_inv copy d \<and> (bd_in_uiomove d \<longleftrightarrow> copy \<noteq> None) \<and> lens_inv d \<and> walk_inv d \<and>
     refs_inv d \<and> filter_ok (bd_rfilter d) \<and> filter_ok (bd_wfilter d)"

lemmas [kern_inv] = slots_inv_def lens_inv_def walk_inv_def refs_inv_def bpf_d_inv_def
  store_recs_def hold_recs_def

lemma bpfopen_inv:
  "32 \<le> n \<Longrightarrow> n < 2 ^ 31 \<Longrightarrow> bpf_d_inv None (bpfopen n sg)"
  by (simp add: kern_inv bpfopen_def filter_ok_def BPF_MINBUFSIZE_def)

text \<open>
  Reference counting and wakeups change nothing but the counters: all other parts of the invariant
  look only at the core of the descriptor.
\<close>

definition bpf_core :: "bpf_d \<Rightarrow> _" where
  "bpf_core d =
     ((bd_sbuf d, bd_hbuf d, bd_fbuf d, bd_mem d), (bd_slen d, bd_hlen d, bd_bufsize d, bd_alloc d),
      (bd_in_uiomove d, bd_bif d, bd_promisc d), (bd_rfilter d, bd_wfilter d))"

lemma bpf_core_recs:
  "bpf_core d' = bpf_core d \<Longrightarrow> store_recs d' = store_recs d \<and> hold_recs d' = hold_recs d"
  by (simp add: bpf_core_def store_recs_def hold_recs_def split: option.split)

lemma bpf_d_inv_core:
  assumes "bpf_core d' = bpf_core d" and "bpf_d_inv c d" and "refs_inv d'"
  shows "bpf_d_inv c d'"
proof -
  have "slots_inv c d' = slots_inv c d" "lens_inv d' = lens_inv d"
    using assms(1) by (simp_all add: bpf_core_def slots_inv_def lens_inv_def)
  moreover have "walk_inv d' = walk_inv d"
    using assms(1) bpf_core_recs [OF assms(1)] by (simp add: bpf_core_def walk_inv_def)
  ultimately show ?thesis
    using assms by (simp add: bpf_d_inv_def bpf_core_def)
qed

lemma bpf_wakeup_core [simp]: "bpf_core (bpf_wakeup d) = bpf_core d"
  by (simp add: bpf_ref_defs bpf_core_def Let_def)

lemma del_wait_tmo_core [simp]: "bpf_core (del_wait_tmo d) = bpf_core d"
  by (simp add: bpf_ref_defs bpf_core_def)

lemma bpf_wait_switch_core [simp]: "bpf_core (snd (bpf_wait_switch d)) = bpf_core d"
  by (simp add: bpf_wait_switch_def bpf_get_def bpf_put_def bpf_core_def Let_def)

lemma bpf_wakeup_refs: "refs_inv d \<Longrightarrow> refs_inv (bpf_wakeup d)"
  by (simp add: bpf_ref_defs refs_inv_def Let_def)

lemma del_wait_tmo_refs: "refs_inv d \<Longrightarrow> refs_inv (del_wait_tmo d)"
  by (simp add: bpf_ref_defs refs_inv_def)

lemma bpf_wait_switch_refs: "refs_inv d \<Longrightarrow> refs_inv (snd (bpf_wait_switch d))"
  by (simp add: bpf_wait_switch_def bpf_get_def bpf_put_def refs_inv_def Let_def)

lemma bpf_d_inv_refs: "bpf_d_inv c d \<Longrightarrow> refs_inv d"
  by (simp add: bpf_d_inv_def)

lemma bpf_wakeup_inv: "bpf_d_inv c d \<Longrightarrow> bpf_d_inv c (bpf_wakeup d)"
  by (blast intro: bpf_d_inv_core bpf_wakeup_core bpf_wakeup_refs bpf_d_inv_refs)

lemma del_wait_tmo_inv: "bpf_d_inv c d \<Longrightarrow> bpf_d_inv c (del_wait_tmo d)"
  by (blast intro: bpf_d_inv_core del_wait_tmo_core del_wait_tmo_refs bpf_d_inv_refs)

lemma bpf_wait_switch_inv: "bpf_d_inv c d \<Longrightarrow> bpf_d_inv c (snd (bpf_wait_switch d))"
  by (blast intro: bpf_d_inv_core bpf_wait_switch_core bpf_wait_switch_refs bpf_d_inv_refs)

lemma bpf_wait_cb_inv:
  assumes "bpf_d_inv c d" and "bd_tmo d"
  shows "bpf_d_inv c (bpf_wait_cb (d\<lparr>bd_tmo := False\<rparr>))"
proof (rule bpf_d_inv_core [OF _ assms(1)])
  show "bpf_core (bpf_wait_cb (d\<lparr>bd_tmo := False\<rparr>)) = bpf_core d"
    by (simp add: bpf_ref_defs bpf_core_def Let_def)
  show "refs_inv (bpf_wait_cb (d\<lparr>bd_tmo := False\<rparr>))"
    using assms(2) bpf_d_inv_refs [OF assms(1)] by (simp add: bpf_ref_defs refs_inv_def Let_def)
qed

lemma bpf_wakeup_cb_inv:
  assumes "bpf_d_inv c d" and "bd_task d"
  shows "bpf_d_inv c (bpf_wakeup_cb (d\<lparr>bd_task := False\<rparr>))"
proof (rule bpf_d_inv_core [OF _ assms(1)])
  show "bpf_core (bpf_wakeup_cb (d\<lparr>bd_task := False\<rparr>)) = bpf_core d"
    by (simp add: bpf_ref_defs bpf_core_def)
  show "refs_inv (bpf_wakeup_cb (d\<lparr>bd_task := False\<rparr>))"
    using assms(2) bpf_d_inv_refs [OF assms(1)] by (simp add: bpf_ref_defs refs_inv_def)
qed

lemma rotate_inv:
  assumes "bpf_d_inv None d" "bd_hbuf d = None" "bd_sbuf d \<noteq> None"
  shows "\<exists>d'. ROTATE_BUFFERS d = Inr d' \<and> bpf_d_inv None d' \<and> bd_slen d' = 0 \<and>
    hold_recs d' = store_recs d \<and> bd_hbuf d' = bd_sbuf d \<and> bd_sbuf d' \<noteq> None \<and> bd_bif d' = bd_bif d \<and>
    bd_bufsize d' = bd_bufsize d \<and> bd_mem d' = bd_mem d \<and> store_recs d' = []"
  using assms by (auto simp: kern_inv ROTATE_BUFFERS_def)

lemma resetd_ok:
  assumes "bpf_d_inv None d"
  shows "\<exists>d'. bpf_resetd d = Inr d' \<and> bpf_d_inv None d' \<and> store_recs d' = [] \<and> hold_recs d' = []"
proof -
  define d1 where "d1 = del_wait_tmo d"
  have i: "bpf_d_inv None d1" unfolding d1_def by (rule del_wait_tmo_inv [OF assms])
  have "bd_in_uiomove d = False" using assms by (simp add: bpf_d_inv_def)
  then show ?thesis
    using i by (auto simp: bpf_resetd_def d1_def [symmetric] kern_inv Let_def)
qed

lemma resetd_copying: "bpf_d_inv (Some x) d \<Longrightarrow> bpf_resetd d = Inl Kassert_uiomove"
  by (simp add: bpf_d_inv_def bpf_resetd_def)

lemma bpf_mcopy_spec:
  "bpf_mcopy m len = (if len \<le> length (concat m) then Some (take len (concat m)) else None)"
  by (induction m len rule: bpf_mcopy.induct) (auto simp: Let_def min_def)

lemma BPF_WORDALIGN_0 [simp]: "BPF_WORDALIGN x = 0 \<longleftrightarrow> x = 0"
  by (auto simp: BPF_WORDALIGN_def)

lemma BPF_WORDALIGN_ge: "x \<le> BPF_WORDALIGN x"
  unfolding BPF_WORDALIGN_def by presburger

text \<open>Appending a record: the store list grows by exactly it, and nothing else moves.\<close>

lemma bpf_append_inv:
  assumes inv: "bpf_d_inv c d" and sb: "bd_sbuf d = Some sb"
    and cur: "curlen = BPF_WORDALIGN (bd_slen d)"
    and len: "curlen + totlen \<le> bd_bufsize d" "hdrlen \<le> totlen" "0 < hdrlen" "hdrlen < 32"
    and pkt: "totlen - hdrlen \<le> length (concat pkt)"
  shows "\<exists>d' r. bpf_append d pkt pktlen hdrlen totlen curlen tbh dw = Inr d' \<and> bpf_d_inv c d' \<and>
     store_recs d' = store_recs d @ [r] \<and> rec_data r = take (totlen - hdrlen) (concat pkt) \<and>
     rec_off r = curlen \<and> hold_recs d' = hold_recs d \<and> bd_dcount d' = bd_dcount d \<and>
     bd_bif d' = bd_bif d"
proof -
  define dat where "dat = take (totlen - hdrlen) (concat pkt)"
  define bh where "bh = tbh\<lparr>bh_datalen := of_nat pktlen, bh_hdrlen := of_nat hdrlen,
      bh_caplen := of_nat (totlen - hdrlen)\<rparr>"
  define r where "r = \<lparr>rec_off = curlen, rec_hdr = bh, rec_data = dat\<rparr>"
  define old where "old = (if curlen = 0 then [] else bd_mem d sb)"
  define d1 where "d1 = d\<lparr>bd_mem := (bd_mem d)(sb := old @ [r]), bd_slen := curlen + totlen\<rparr>"
  have old: "old = store_recs d"
    using sb cur by (simp add: old_def store_recs_def)
  have st: "store_recs d1 = store_recs d @ [r]"
    using sb len by (simp add: d1_def store_recs_def [of "d\<lparr>bd_mem := _, bd_slen := _\<rparr>"] old)
  have hd: "hold_recs d1 = hold_recs d"
    using inv sb by (auto simp: d1_def hold_recs_def bpf_d_inv_def slots_inv_def)
  have small: "totlen < 2 ^ 31"
    using inv len by (simp add: bpf_d_inv_def lens_inv_def)
  have "unat (of_nat (totlen - hdrlen) :: u32) = totlen - hdrlen"
    by (rule unat_of_nat_less) (use small in simp)
  moreover have "unat (of_nat hdrlen :: u16) = hdrlen"
    by (rule unat_of_nat_less) (use len in simp)
  moreover have "length dat = totlen - hdrlen" using pkt by (simp add: dat_def)
  moreover have "bpf_walk 0 (store_recs d) (bd_slen d)" "bpf_walk 0 (hold_recs d) (bd_hlen d)"
    using inv by (simp_all add: bpf_d_inv_def walk_inv_def)
  ultimately have w: "walk_inv d1"
    unfolding walk_inv_def st hd using len cur
    by (auto simp: bpf_walk_append d1_def r_def bh_def simp del: of_nat_diff)
  have i1: "bpf_d_inv c d1"
    using inv w len sb
    by (auto simp: bpf_d_inv_def slots_inv_def lens_inv_def refs_inv_def d1_def)
  define d2 where "d2 = snd (bpf_wait_switch d1)"
  define wk where "wk = fst (bpf_wait_switch d1)"
  define d3 where "d3 = (if dw \<or> wk then bpf_wakeup d2 else d2)"
  have i3: "bpf_d_inv c d3"
    unfolding d3_def d2_def using i1 by (simp add: bpf_wakeup_inv bpf_wait_switch_inv)
  have c3: "bpf_core d3 = bpf_core d1" by (simp add: d3_def d2_def)
  have e: "bpf_append d pkt pktlen hdrlen totlen curlen tbh dw = Inr d3"
    using sb pkt
    by (simp add: bpf_append_def bpf_mcopy_spec d3_def d2_def wk_def d1_def r_def bh_def dat_def
        old_def Let_def case_prod_beta)
  have dc: "bd_dcount d3 = bd_dcount d"
    by (simp add: d3_def d2_def d1_def bpf_wait_switch_def bpf_ref_defs Let_def)
  show ?thesis
    using e i3 c3 st hd bpf_core_recs [OF c3] dc
    by (auto simp: r_def dat_def bpf_core_def d1_def)
qed

text \<open>The abstract contents of a descriptor: the records not yet handed to a reader, oldest first.\<close>

definition bpf_pending :: "bpf_d \<Rightarrow> bpf_rec list" where
  "bpf_pending d = hold_recs d @ store_recs d"

lemma bpf_pending_core: "bpf_core d' = bpf_core d \<Longrightarrow> bpf_pending d' = bpf_pending d"
  by (drule bpf_core_recs) (simp add: bpf_pending_def)

text \<open>The bytes a capture keeps: the snapshot, cut to what one buffer holds beside the header.\<close>

definition bpf_caplen :: "bpf_d \<Rightarrow> nat \<Rightarrow> nat \<Rightarrow> nat" where
  "bpf_caplen d snaplen pktlen =
     (case bd_bif d of
        None \<Rightarrow> 0
      | Some b \<Rightarrow> min (min snaplen pktlen) (bd_bufsize d - bif_hdrlen b))"

lemma bpf_catchpacket_spec:
  assumes inv: "bpf_d_inv c d" and bif: "bd_bif d = Some b" and pl: "pktlen = length (concat pkt)"
  shows "bpf_catchpacket d pkt pktlen snaplen tbh = Inr (d\<lparr>bd_dcount := bd_dcount d + 1\<rparr>) \<and> bd_fbuf d = None \<or>
     (\<exists>d' r. bpf_catchpacket d pkt pktlen snaplen tbh = Inr d' \<and> bpf_d_inv c d' \<and>
        bpf_pending d' = bpf_pending d @ [r] \<and>
        rec_data r = take (bpf_caplen d snaplen pktlen) (concat pkt) \<and> bd_dcount d' = bd_dcount d)"
proof -
  define hdrlen where "hdrlen = bif_hdrlen b"
  define totlen where "totlen = (if hdrlen + min snaplen pktlen > bd_bufsize d then bd_bufsize d
    else hdrlen + min snaplen pktlen)"
  define curlen where "curlen = BPF_WORDALIGN (bd_slen d)"
  have h: "28 \<le> hdrlen" "hdrlen < 32" "32 \<le> bd_bufsize d"
    using inv bif by (simp_all add: bpf_d_inv_def lens_inv_def hdrlen_def SIZEOF_BPF_HDR_def BPF_MINBUFSIZE_def)
  have t: "hdrlen \<le> totlen" "totlen \<le> bd_bufsize d" "totlen - hdrlen \<le> length (concat pkt)"
    "totlen - hdrlen = bpf_caplen d snaplen pktlen"
    using h pl bif by (auto simp: totlen_def bpf_caplen_def hdrlen_def)
  have slots: "bd_sbuf d \<noteq> None" "bd_fbuf d \<noteq> None \<Longrightarrow> c = None \<and> bd_hbuf d = None"
    using inv bif by (auto simp: bpf_d_inv_def slots_inv_def)
  have e: "bpf_catchpacket d pkt pktlen snaplen tbh =
      (if curlen + totlen > bd_bufsize d then
         (if bd_fbuf d = None then Inr (d\<lparr>bd_dcount := bd_dcount d + 1\<rparr>)
          else (case ROTATE_BUFFERS (del_wait_tmo d) of
                  Inl e \<Rightarrow> Inl e
                | Inr d1 \<Rightarrow> bpf_append d1 pkt pktlen hdrlen totlen 0 tbh True))
       else bpf_append d pkt pktlen hdrlen totlen curlen tbh False)"
    unfolding bpf_catchpacket_def bif option.case Let_def hdrlen_def totlen_def curlen_def
    by (rule refl)
  show ?thesis
  proof (cases "curlen + totlen > bd_bufsize d")
    case fits: False
    obtain sb where sb: "bd_sbuf d = Some sb" using slots by blast
    show ?thesis
      using bpf_append_inv [OF inv sb curlen_def, of totlen hdrlen pkt pktlen tbh False] fits h t
      by (simp add: e bpf_pending_def) (metis append.assoc)
  next
    case full: True
    show ?thesis
    proof (cases "bd_fbuf d")
      case None
      with full show ?thesis by (simp add: e)
    next
      case (Some f)
      then have c: "c = None" and hb: "bd_hbuf d = None" using slots by auto
      define d0 where "d0 = del_wait_tmo d"
      have core: "bpf_core d0 = bpf_core d" by (simp add: d0_def)
      have i0: "bpf_d_inv None d0" using inv c by (simp add: d0_def del_wait_tmo_inv)
      have dc0: "bd_dcount d0 = bd_dcount d" by (simp add: d0_def bpf_ref_defs)
      obtain d1 where r: "ROTATE_BUFFERS d0 = Inr d1" and i1: "bpf_d_inv None d1"
        and d1: "bd_slen d1 = 0" "hold_recs d1 = store_recs d0" "bd_sbuf d1 \<noteq> None"
          "bd_bufsize d1 = bd_bufsize d0" "store_recs d1 = []"
        using rotate_inv [OF i0] hb slots(1) core by (auto simp: bpf_core_def)
      have dc1: "bd_dcount d1 = bd_dcount d"
        using r dc0 by (auto simp: ROTATE_BUFFERS_def split: if_splits)
      have hold0: "hold_recs d = []" using hb by (simp add: hold_recs_def)
      obtain sb where sb: "bd_sbuf d1 = Some sb" using d1 by blast
      have bs: "bd_bufsize d1 = bd_bufsize d" using d1 core by (simp add: bpf_core_def)
      have "\<exists>d' ra. bpf_append d1 pkt pktlen hdrlen totlen 0 tbh True = Inr d' \<and> bpf_d_inv None d' \<and>
         store_recs d' = store_recs d1 @ [ra] \<and> rec_data ra = take (totlen - hdrlen) (concat pkt) \<and>
         rec_off ra = 0 \<and> hold_recs d' = hold_recs d1 \<and> bd_dcount d' = bd_dcount d1 \<and> bd_bif d' = bd_bif d1"
        by (rule bpf_append_inv [OF i1 sb]) (use h t bs d1 in auto)
      then show ?thesis
        using full Some r c d1 dc1 hold0 bpf_core_recs [OF core] t(4)
        by (auto simp: e d0_def [symmetric] bpf_pending_def)
    qed
  qed
qed

lemma bpf_drop_inv: "bpf_d_inv c d \<Longrightarrow> bpf_d_inv c (d\<lparr>bd_dcount := n\<rparr>)"
  by (rule bpf_d_inv_core [of _ d]) (simp_all add: bpf_core_def bpf_d_inv_def refs_inv_def)

lemma bpf_count_inv: "bpf_d_inv c d \<Longrightarrow> bpf_d_inv c (d\<lparr>bd_rcount := n\<rparr>)"
  by (rule bpf_d_inv_core [of _ d]) (simp_all add: bpf_core_def bpf_d_inv_def refs_inv_def)

text \<open>Capturing never panics and keeps the invariant, also while a reader is copying.\<close>

lemma bpf_catchpacket_inv:
  assumes "bpf_d_inv c d"
  shows "\<exists>d'. bpf_catchpacket d pkt (length (concat pkt)) snaplen tbh = Inr d' \<and> bpf_d_inv c d'"
proof (cases "bd_bif d")
  case None
  with assms show ?thesis by (simp add: bpf_catchpacket_def)
next
  case (Some b)
  with bpf_catchpacket_spec [OF assms Some refl, of pkt snaplen tbh] bpf_drop_inv [OF assms] show ?thesis
    by (elim disjE) auto
qed

lemma filter_ok_result:
  assumes "filter_ok prog" and "bpf_mfilter prog m wl rnd = Inl e"
  shows "e = Fault_Shift"
proof (cases prog)
  case None
  with assms(2) show ?thesis by (simp add: bpf_mfilter_def run_bpf_filter_def)
next
  case (Some f)
  then obtain mb where "bpf_validate mb f (int (length f))" using assms(1) by (auto simp: filter_ok_def)
  then have "bpf_loop bpf_mbuf_ops m wl rnd f 0 bpf_regs0 \<in> {Inl Fault_Shift} \<union> range Inr"
    by (rule bpf_loop_safe) (use \<open>bpf_validate mb f _\<close> bpf_validate_length in \<open>auto simp: bpf_regs0_def\<close>)
  with Some assms(2) show ?thesis by (auto simp: bpf_mfilter_def run_bpf_filter_def)
qed

lemma bpf_mtap_one_inv:
  assumes "bpf_d_inv c d"
  shows "bpf_mtap_one rnd m tbh direction d = Inl (Filter_fault Fault_Shift) \<or>
    (\<exists>dr d'. bpf_mtap_one rnd m tbh direction d = Inr (dr, d') \<and> bpf_d_inv c d')"
proof -
  define d1 where "d1 = d\<lparr>bd_rcount := bd_rcount d + 1\<rparr>"
  have i: "bpf_d_inv c d1" unfolding d1_def by (rule bpf_count_inv [OF assms])
  have f: "filter_ok (bd_rfilter d1)" using i by (simp add: bpf_d_inv_def)
  have e: "bpf_mtap_one rnd m tbh direction d =
     (if bd_dirfilt d1 AND direction \<noteq> 0 then Inr (False, d1)
      else case bpf_mfilter (bd_rfilter d1) m (of_nat (length (concat m))) rnd of
        Inl e \<Rightarrow> Inl (Filter_fault e)
      | Inr slen \<Rightarrow>
          if slen = 0 then Inr (False, d1)
          else if bd_fildrop d1 \<noteq> BPF_FILDROP_DROP then
            (case bpf_catchpacket d1 m (length (concat m)) (unat slen) tbh of
               Inl e \<Rightarrow> Inl e | Inr d' \<Rightarrow> Inr (bd_fildrop d1 \<noteq> BPF_FILDROP_PASS, d'))
          else Inr (bd_fildrop d1 \<noteq> BPF_FILDROP_PASS, d1))"
    unfolding bpf_mtap_one_def Let_def d1_def by (rule refl)
  show ?thesis
  proof (cases "bpf_mfilter (bd_rfilter d1) m (of_nat (length (concat m))) rnd")
    case (Inl x)
    with filter_ok_result [OF f Inl] i show ?thesis by (auto simp: e)
  next
    case (Inr slen)
    obtain d2 where "bpf_catchpacket d1 m (length (concat m)) (unat slen) tbh = Inr d2" "bpf_d_inv c d2"
      using bpf_catchpacket_inv [OF i] by blast
    with Inr i show ?thesis by (auto simp: e)
  qed
qed

section \<open>Reading keeps the order of the records\<close>

text \<open>What a reader that got the hold buffer copies out.\<close>

definition got_recs :: "nat \<Rightarrow> nat \<Rightarrow> bpf_d \<Rightarrow> bpf_rec list" where
  "got_recs hbuf hlen d = (if hlen = 0 then [] else bd_mem d hbuf)"

lemma bpfread_hold_inv:
  assumes "bpf_d_inv None d" and "bd_hbuf d = Some h"
  shows "\<exists>d'. bpfread_hold d = Read_Got h (bd_hlen d) d' \<and> bpf_d_inv (Some h) d' \<and>
     got_recs h (bd_hlen d) d' @ bpf_pending d' = bpf_pending d \<and>
     bpf_walk 0 (got_recs h (bd_hlen d) d') (bd_hlen d)"
  using assms
  by (auto simp: bpfread_hold_def kern_inv bpf_pending_def got_recs_def)

lemma bpfread_rotate_inv:
  assumes "bpf_d_inv None d" and "bd_hbuf d = None" and "bd_sbuf d \<noteq> None"
  shows "\<exists>h hl d'. bpfread_rotate d = Read_Got h hl d' \<and> bpf_d_inv (Some h) d' \<and>
     got_recs h hl d' @ bpf_pending d' = bpf_pending d \<and> bpf_walk 0 (got_recs h hl d') hl"
proof -
  obtain d1 h where r: "ROTATE_BUFFERS d = Inr d1" and i1: "bpf_d_inv None d1"
    and h: "bd_hbuf d1 = Some h" and recs: "hold_recs d1 = store_recs d" "store_recs d1 = []"
    using rotate_inv [OF assms] assms(3) by auto
  have "bpf_pending d1 = bpf_pending d"
    using recs assms(2) by (simp add: bpf_pending_def hold_recs_def [of d])
  with bpfread_hold_inv [OF i1 h] r show ?thesis
    by (auto simp: bpfread_rotate_def)
qed

lemma bpfread_rotate_copying:
  "bpf_d_inv (Some x) d \<Longrightarrow> bpfread_rotate d = Read_Panic Kassert_uiomove"
  by (simp add: bpf_d_inv_def bpfread_rotate_def ROTATE_BUFFERS_def)

text \<open>
  The outcome of a turn of the read loop: the older records go to the reader and the younger ones
  stay; nothing is lost, duplicated or reordered.
\<close>

definition read_ok :: "nat option \<Rightarrow> bpf_d \<Rightarrow> bpf_read \<Rightarrow> bool" where
  "read_ok c d res =
     (case res of
        Read_Got h hl d' \<Rightarrow> c = None \<and> bpf_d_inv (Some h) d' \<and>
          got_recs h hl d' @ bpf_pending d' = bpf_pending d \<and> bpf_walk 0 (got_recs h hl d') hl
      | Read_Panic e \<Rightarrow> c \<noteq> None \<and> e = Kassert_uiomove
      | _ \<Rightarrow> True)"

lemma bpf_sbuf_attached: "bpf_d_inv c d \<Longrightarrow> bd_bif d \<noteq> None \<or> bd_slen d \<noteq> 0 \<Longrightarrow> bd_sbuf d \<noteq> None"
  by (auto simp: bpf_d_inv_def slots_inv_def)

lemma bpf_hbuf_not_copying: "bpf_d_inv c d \<Longrightarrow> bd_hbuf d \<noteq> None \<Longrightarrow> c = None"
  by (auto simp: bpf_d_inv_def slots_inv_def)

lemma read_ok_hold: "bpf_d_inv c d \<Longrightarrow> bd_hbuf d \<noteq> None \<Longrightarrow> read_ok c d (bpfread_hold d)"
  using bpf_hbuf_not_copying [of c d] bpfread_hold_inv [of d] by (auto simp: read_ok_def)

lemma read_ok_rotate:
  assumes "bpf_d_inv c d" and "bd_hbuf d = None" and "bd_bif d \<noteq> None \<or> bd_slen d \<noteq> 0"
  shows "read_ok c d (bpfread_rotate d)"
proof (cases c)
  case None
  with assms bpfread_rotate_inv [of d] bpf_sbuf_attached [OF assms(1,3)] show ?thesis
    by (auto simp: read_ok_def)
next
  case (Some x)
  with assms show ?thesis by (simp add: bpfread_rotate_copying read_ok_def)
qed

lemma read_ok_woken: "bpf_d_inv c d \<Longrightarrow> read_ok c d (bpfread_woken error d)"
  using read_ok_hold read_ok_rotate by (auto simp: bpfread_woken_def) (auto simp: read_ok_def)

lemma read_ok_iter: "bpf_d_inv c d \<Longrightarrow> read_ok c d (bpfread_iter nd ex d)"
  using read_ok_hold [of c d] read_ok_rotate [of c d] read_ok_woken [of c d EWOULDBLOCK]
  by (auto simp: bpfread_iter_def) (auto simp: read_ok_def)

lemma bpfread_done_inv:
  "bpf_d_inv (Some h) d \<Longrightarrow>
   \<exists>d'. bpfread_done h d = Inr d' \<and> bpf_d_inv None d' \<and> bpf_pending d' = bpf_pending d"
  by (auto simp: bpfread_done_def kern_inv bpf_pending_def)

section \<open>Configuration keeps the invariant\<close>

lemma filter_ok_None [simp]: "filter_ok None"
  by (simp add: filter_ok_def)

lemma recs_frame [simp]:
  "store_recs (d\<lparr>bd_rfilter := p\<rparr>) = store_recs d" "hold_recs (d\<lparr>bd_rfilter := p\<rparr>) = hold_recs d"
  "store_recs (d\<lparr>bd_wfilter := p\<rparr>) = store_recs d" "hold_recs (d\<lparr>bd_wfilter := p\<rparr>) = hold_recs d"
  "store_recs (d\<lparr>bd_bif := i\<rparr>) = store_recs d" "hold_recs (d\<lparr>bd_bif := i\<rparr>) = hold_recs d"
  "store_recs (d\<lparr>bd_promisc := b\<rparr>) = store_recs d" "hold_recs (d\<lparr>bd_promisc := b\<rparr>) = hold_recs d"
  "store_recs (d\<lparr>bd_bif := i, bd_promisc := b\<rparr>) = store_recs d" "hold_recs (d\<lparr>bd_bif := i, bd_promisc := b\<rparr>) = hold_recs d"
  by (simp_all add: store_recs_def hold_recs_def split: option.split)

lemmas bpf_inv_parts = bpf_d_inv_def slots_inv_def lens_inv_def walk_inv_def refs_inv_def

lemma bpf_d_inv_set_filter:
  "bpf_d_inv c d \<Longrightarrow> filter_ok p \<Longrightarrow> bpf_d_inv c (d\<lparr>bd_rfilter := p\<rparr>) \<and> bpf_d_inv c (d\<lparr>bd_wfilter := p\<rparr>)"
  by (simp add: bpf_inv_parts)

lemma bpf_setf_inv:
  assumes inv: "bpf_d_inv c d" and copyin: "\<And>g n l. insns = Some g \<Longrightarrow> g n = Some l \<Longrightarrow> length l = n"
    and res: "bpf_setf maxbuf ok insns flen cmd d = Inr (err, d')"
  shows "bpf_d_inv c d'"
proof -
  define install where "install = (\<lambda>bps.
        (let d1 = (if cmd \<noteq> BIOCSETWF then d\<lparr>bd_rfilter := bps\<rparr> else d\<lparr>bd_wfilter := bps\<rparr>)
         in if cmd = BIOCSETF
            then (case bpf_resetd d1 of Inl e \<Rightarrow> Inl e | Inr d2 \<Rightarrow> Inr (None, d2))
            else (Inr (None, d1) :: bpf_panic + (errno option \<times> bpf_d))))"
  have ins: "bpf_d_inv c d'" if "install p = Inr (e, d')" "filter_ok p" for p e
    using that bpf_d_inv_set_filter [OF inv, of p] resetd_ok [of "d\<lparr>bd_rfilter := p\<rparr>"]
      resetd_copying [of _ "d\<lparr>bd_rfilter := p\<rparr>"]
    by (cases c) (auto simp: install_def Let_def split: if_splits sum.splits)
  show ?thesis
  proof (cases insns)
    case None
    with res inv ins [of None] show ?thesis
      by (auto simp: bpf_setf_def install_def [symmetric] split: if_splits)
  next
    case (Some g)
    show ?thesis
    proof (cases "g (unat flen)")
      case None
      with Some res inv show ?thesis
        by (auto simp: bpf_setf_def install_def [symmetric] split: if_splits)
    next
      case (Some l)
      have "uint flen = int (length l)" using copyin [OF \<open>insns = Some g\<close> Some] by simp
      with Some \<open>insns = Some g\<close> res inv ins [of "Some l"] show ?thesis
        by (auto simp: bpf_setf_def install_def [symmetric] filter_ok_def split: if_splits)
    qed
  qed
qed

lemma bpf_reattach_eq:
  assumes "bpf_detachd prom d = Inr d1" and "bd_promisc d \<Longrightarrow> bd_bif d \<noteq> None"
  shows "bpf_attachd bp d1 = d\<lparr>bd_bif := Some bp, bd_promisc := False\<rparr>"
  using assms by (cases d) (auto simp: bpf_detachd_def bpf_detachd_begin_def bpf_detachd_end_def bpf_attachd_def bpf_get_def bpf_put_def
      Let_def split: option.splits if_splits)

lemma bpfxattach_hdrlen:
  "SIZEOF_BPF_HDR \<le> bif_hdrlen (bpfxattach n i t h) \<and> bif_hdrlen (bpfxattach n i t h) < BPF_MINBUFSIZE"
  unfolding bpfxattach_def bpfsattach_def BPF_WORDALIGN_def SIZEOF_BPF_HDR_def BPF_MINBUFSIZE_def by simp presburger

lemma bpf_d_inv_promisc: "bpf_d_inv c d \<Longrightarrow> bd_promisc d \<Longrightarrow> \<exists>b. bd_bif d = Some b \<and> bif_ifp b \<noteq> None"
  by (simp add: bpf_d_inv_def lens_inv_def)

lemma bpf_setif_inv:
  assumes inv: "bpf_d_inv c d" and ifl: "\<And>b. b \<in> set ifl \<Longrightarrow> \<exists>n i t h. b = bpfxattach n i t h"
    and new: "\<And>f s. fb = Some f \<Longrightarrow> sb = Some s \<Longrightarrow> f \<noteq> s"
    and res: "bpf_setif ifl fb sb prom name d = Inr (err, d')"
  shows "bpf_d_inv c d'"
proof (cases "find (\<lambda>bp. bif_name bp = name) ifl")
  case None
  with res inv show ?thesis by (simp add: bpf_setif_def)
next
  case (Some bp)
  then have "bp \<in> set ifl" by (auto simp: find_Some_iff)
  then have hl: "SIZEOF_BPF_HDR \<le> bif_hdrlen bp \<and> bif_hdrlen bp < BPF_MINBUFSIZE"
    using ifl bpfxattach_hdrlen by blast
  show ?thesis
  proof (cases "bd_sbuf d")
    case nobuf: None
    then have c: "c = None" using inv by (auto simp: bpf_d_inv_def slots_inv_def)
    show ?thesis
    proof (cases "fb = None \<or> sb = None")
      case True
      then have "d' = d\<lparr>bd_fbuf := None\<rparr> \<or> d' = d\<lparr>bd_sbuf := None, bd_fbuf := None\<rparr>"
        using Some nobuf res by (auto simp: bpf_setif_def bpf_allocbufs_def split: option.splits)
      moreover have "bd_fbuf d = None" using inv nobuf by (auto simp: bpf_d_inv_def slots_inv_def)
      ultimately have "bpf_core d' = bpf_core d \<and> refs_inv d'"
        using nobuf bpf_d_inv_refs [OF inv] by (auto simp: bpf_core_def refs_inv_def)
      then show ?thesis using bpf_d_inv_core [OF _ inv] by blast
    next
      case False
      then obtain f s where fs: "fb = Some f" "sb = Some s" by auto
      define d1 where "d1 = d\<lparr>bd_fbuf := Some f, bd_sbuf := Some s, bd_slen := 0, bd_hlen := 0, bd_alloc := bd_bufsize d,
        bd_bif := Some bp\<rparr>"
      have bif: "bd_bif d = None" "\<not> bd_promisc d"
        using inv nobuf bpf_d_inv_promisc [OF inv] by (auto simp: bpf_d_inv_def slots_inv_def)
      then have "bpf_d_inv None d1"
        using inv c nobuf new [OF fs] hl by (auto simp: d1_def kern_inv)
      moreover have "bpf_resetd d1 = Inr d'"
        using res Some nobuf fs bif
        by (simp add: bpf_setif_def bpf_allocbufs_def bpf_detachd_def bpf_detachd_begin_def bpf_attachd_def d1_def split: sum.splits)
      ultimately show ?thesis using resetd_ok [of d1] c by auto
    qed
  next
    case (Some s)
    define d1 where "d1 = (if Some bp \<noteq> bd_bif d then d\<lparr>bd_bif := Some bp, bd_promisc := False\<rparr> else d)"
    have i1: "bpf_d_inv c d1"
      using inv hl Some by (auto simp: d1_def bpf_inv_parts)
    have att: "bpf_attachd bp v = d\<lparr>bd_bif := Some bp, bd_promisc := False\<rparr>" if "bpf_detachd prom d = Inr v" for v
      by (rule bpf_reattach_eq [OF that]) (use bpf_d_inv_promisc [OF inv] in auto)
    have "bpf_resetd d1 = Inr d'"
      using res Some \<open>find _ ifl = Some bp\<close> att
      by (cases "bpf_detachd prom d") (auto simp: bpf_setif_def d1_def split: sum.splits if_splits)
    then show ?thesis using i1 resetd_ok [of d1] resetd_copying [of _ d1] by (cases c) auto
  qed
qed

lemma bpf_sblen_inv:
  assumes "bpf_d_inv c d" and "BPF_MINBUFSIZE \<le> maxb" and "maxb < 2 ^ 31"
  shows "bpf_d_inv c (snd (snd (bpf_sblen maxb n d)))"
proof (cases "bd_bif d")
  case None
  then have "bd_sbuf d = None" "bd_slen d = 0" "bd_hlen d = 0"
    using assms(1) by (auto simp: bpf_d_inv_def slots_inv_def)
  with assms None show ?thesis by (auto simp: bpf_sblen_def kern_inv Let_def)
next
  case (Some b)
  with assms(1) show ?thesis by (simp add: bpf_sblen_def)
qed

lemma bpf_flags_inv:
  assumes "bpf_d_inv c d"
  shows "bpf_d_inv c (bpf_set_wtout w d)" "bpf_d_inv c (snd (bpf_sfildrop v d))"
    "bpf_d_inv c (bpf_sdirfilt v d)"
  by (rule bpf_d_inv_core [OF _ assms];
      use bpf_d_inv_refs [OF assms] in
        \<open>simp add: bpf_set_wtout_def bpf_sfildrop_def bpf_sdirfilt_def bpf_core_def refs_inv_def\<close>)+

lemma bpf_promisc_inv: "bpf_d_inv c d \<Longrightarrow> bpf_d_inv c (snd (bpf_promisc prom d))"
proof -
  assume inv: "bpf_d_inv c d"
  have "bpf_d_inv c (d\<lparr>bd_promisc := True\<rparr>)" if "bd_bif d = Some b" "bif_ifp b \<noteq> None" for b
    using inv that by (simp add: bpf_inv_parts)
  with inv show ?thesis by (auto simp: bpf_promisc_def split: option.split)
qed

section \<open>The descriptor as a transition system\<close>

text \<open>
  The states are descriptors with the buffer a reader is copying out, if any. Every operation of the
  code that takes \<^verbatim>\<open>bd_mtx\<close> is a step, in any order: packets arrive, readers run and copy, the timeout
  and the task fire, and the ioctls configure. A step that would fail an assertion has no successor;
  the theorems below say which ones can.
\<close>

inductive bpf_step :: "bpf_d \<times> nat option \<Rightarrow> bpf_d \<times> nat option \<Rightarrow> bool" where
  step_tap: "bpf_mtap_one rnd m tbh direction d = Inr (dr, d') \<Longrightarrow> bpf_step (d, c) (d', c)"
| step_read: "bpfread resid ndelay expired d = Read_Got h hl d' \<Longrightarrow> bpf_step (d, c) (d', Some h)"
| step_reread: "bpfread_iter ndelay expired d = Read_Got h hl d' \<Longrightarrow> bpf_step (d, c) (d', Some h)"
| step_woken: "bpfread_woken error d = Read_Got h hl d' \<Longrightarrow> bpf_step (d, c) (d', Some h)"
| step_done: "bpfread_done h d = Inr d' \<Longrightarrow> bpf_step (d, Some h) (d', None)"
| step_flush: "bpf_resetd d = Inr d' \<Longrightarrow> bpf_step (d, c) (d', c)"
| step_setf:
    "(\<And>g n l. insns = Some g \<Longrightarrow> g n = Some l \<Longrightarrow> length l = n) \<Longrightarrow>
     bpf_setf maxbuf ok insns flen cmd d = Inr (err, d') \<Longrightarrow> bpf_step (d, c) (d', c)"
| step_setif:
    "(\<And>b. b \<in> set ifl \<Longrightarrow> \<exists>n i t k. b = bpfxattach n i t k) \<Longrightarrow>
     (\<And>f s. fb = Some f \<Longrightarrow> sb = Some s \<Longrightarrow> f \<noteq> s) \<Longrightarrow>
     bpf_setif ifl fb sb prom name d = Inr (err, d') \<Longrightarrow> bpf_step (d, c) (d', c)"
| step_promisc: "bpf_step (d, c) (snd (bpf_promisc prom d), c)"
| step_sblen:
    "BPF_MINBUFSIZE \<le> maxb \<Longrightarrow> maxb < 2 ^ 31 \<Longrightarrow> bpf_sblen maxb n d = (err, n', d') \<Longrightarrow>
     bpf_step (d, c) (d', c)"
| step_wtout: "bpf_step (d, c) (bpf_set_wtout w d, c)"
| step_fildrop: "bpf_step (d, c) (snd (bpf_sfildrop v d), c)"
| step_dirfilt: "bpf_step (d, c) (bpf_sdirfilt v d, c)"
| step_timeout: "bd_tmo d \<Longrightarrow> bpf_step (d, c) (bpf_wait_cb (d\<lparr>bd_tmo := False\<rparr>), c)"
| step_task: "bd_task d \<Longrightarrow> bpf_step (d, c) (bpf_wakeup_cb (d\<lparr>bd_task := False\<rparr>), c)"

inductive bpf_reach :: "bpf_d \<times> nat option \<Rightarrow> bool" where
  reach_open: "BPF_MINBUFSIZE \<le> bufsize \<Longrightarrow> bufsize < 2 ^ 31 \<Longrightarrow> bpf_reach (bpfopen bufsize sigio, None)"
| reach_step: "bpf_reach s \<Longrightarrow> bpf_step s s' \<Longrightarrow> bpf_reach s'"

lemma read_got_inv:
  "read_ok c d r \<Longrightarrow> r = Read_Got h hl d' \<Longrightarrow> c = None \<and> bpf_d_inv (Some h) d'"
  by (simp add: read_ok_def)

lemma read_ok_bpfread: "bpf_d_inv c d \<Longrightarrow> read_ok c d (bpfread resid nd ex d)"
  by (simp add: bpfread_def read_ok_iter) (simp add: read_ok_def)

lemma bpf_step_inv:
  assumes "bpf_step s s'" and "bpf_d_inv (snd s) (fst s)"
  shows "bpf_d_inv (snd s') (fst s')"
  using assms
proof (induction rule: bpf_step.induct)
  case (step_tap rnd m tbh direction d dr d' c)
  then show ?case using bpf_mtap_one_inv [of c d rnd m tbh direction] by auto
next
  case (step_read resid ndelay expired d h hl d' c)
  then show ?case using read_got_inv [OF read_ok_bpfread] by auto
next
  case (step_reread ndelay expired d h hl d' c)
  then show ?case using read_got_inv [OF read_ok_iter] by auto
next
  case (step_woken error d h hl d' c)
  then show ?case using read_got_inv [OF read_ok_woken] by auto
next
  case (step_done h d d')
  then show ?case using bpfread_done_inv [of h d] by auto
next
  case (step_flush d d' c)
  then show ?case using resetd_ok [of d] resetd_copying [of _ d] by (cases c) auto
next
  case (step_setf insns maxbuf ok flen cmd d err d' c)
  then show ?case using bpf_setf_inv [of c d insns] by simp
next
  case (step_setif ifl fb sb prom name d err d' c)
  then show ?case using bpf_setif_inv [of c d ifl fb sb] by simp
next
  case (step_sblen maxb n d err n' d' c)
  then show ?case using bpf_sblen_inv [of c d maxb n] by simp
qed (simp_all add: bpf_flags_inv bpf_promisc_inv bpf_wait_cb_inv bpf_wakeup_cb_inv)

lemma bpf_reach_inv: "bpf_reach s \<Longrightarrow> bpf_d_inv (snd s) (fst s)"
  by (induction rule: bpf_reach.induct)
    (auto simp: bpfopen_inv BPF_MINBUFSIZE_def intro: bpf_step_inv)

lemma bpf_reach_pair: "bpf_reach (d, c) \<Longrightarrow> bpf_d_inv c d"
  by (drule bpf_reach_inv) simp

text \<open>A descriptor in use, for the witnesses: opened with 64-byte buffers and attached to an interface.\<close>

definition em0 :: bpf_if where
  "em0 = bpfxattach ''em0'' (Some 1) 1 14"

definition d_attached :: bpf_d where
  "d_attached = (bpfopen 64 0)\<lparr>bd_fbuf := Some 0, bd_sbuf := Some 1, bd_alloc := 64, bd_bif := Some em0\<rparr>"

lemma bpf_reach_attached: "bpf_reach (d_attached, None)"
proof (rule reach_step [OF reach_open])
  show "BPF_MINBUFSIZE \<le> 64" "64 < (2::nat) ^ 31" by (simp_all add: BPF_MINBUFSIZE_def)
  have "bpf_setif [em0] (Some 0) (Some 1) None ''em0'' (bpfopen 64 0) = Inr (None, d_attached)"
    by (simp add: bpf_setif_def bpf_allocbufs_def bpf_resetd_def bpfopen_def del_wait_tmo_def em0_def
        bpf_detachd_def bpf_detachd_begin_def bpf_attachd_def bpfxattach_def bpfsattach_def d_attached_def)
  then show "bpf_step (bpfopen 64 0, None) (d_attached, None)"
    by (rule step_setif [rotated 2]) (auto simp: em0_def)
qed

definition hdr0 :: bpf_hdr where
  "hdr0 = bpf_make_hdr None (7, 9) 1"

text \<open>The descriptor after one captured packet of two mbufs and two bytes.\<close>

definition d_one :: bpf_d where
  "d_one = d_attached\<lparr>bd_rcount := 1, bd_slen := 32,
     bd_mem := (\<lambda>_. [])(1 := [\<lparr>rec_off = 0, rec_hdr = hdr0\<lparr>bh_datalen := 2, bh_hdrlen := 30, bh_caplen := 2\<rparr>,
                               rec_data = [11, 22]\<rparr>])\<rparr>"

lemma unat_minus_one_u32: "unat (- 1 :: u32) = 4294967295"
  by (simp add: unsigned_minus_1_eq_mask mask_eq_exp_minus_1)

lemma mtap_d_one: "bpf_mtap_one (\<lambda>_. 0) [[11], [22]] hdr0 1 d_attached = Inr (False, d_one)"
  by (simp add: bpf_mtap_one_def bpf_mfilter_def run_bpf_filter_def d_attached_def d_one_def bpfopen_def
      bpf_catchpacket_def em0_def bpfxattach_def bpfsattach_def BPF_WORDALIGN_def SIZEOF_BPF_HDR_def bpf_append_def
      bpf_wait_switch_def INFSLP_def Let_def min_def unat_minus_one_u32)

lemma bpf_reach_one: "bpf_reach (d_one, None)"
  by (rule reach_step [OF bpf_reach_attached step_tap [OF mtap_d_one]])

definition d_copying :: bpf_d where
  "d_copying = d_one\<lparr>bd_sbuf := Some 0, bd_fbuf := None, bd_slen := 0, bd_in_uiomove := True\<rparr>"

lemma read_d_one: "bpfread 64 True False d_one = Read_Got 1 32 d_copying"
  by (simp add: bpfread_def bpfread_iter_def bpfread_woken_def bpfread_rotate_def ROTATE_BUFFERS_def
      bpfread_hold_def d_one_def d_attached_def d_copying_def bpfopen_def)

lemma bpf_reach_copying: "bpf_reach (d_copying, Some 1)"
  by (rule reach_step [OF bpf_reach_one step_read [OF read_d_one]])

section \<open>Properties of the descriptor\<close>



lemma bpf_mtap_loop_inv:
  "list_all2 bpf_d_inv cs ds \<Longrightarrow>
   bpf_mtap_loop rnd m tbh direction ds = Inl (Filter_fault Fault_Shift) \<or>
   (\<exists>dr ds'. bpf_mtap_loop rnd m tbh direction ds = Inr (dr, ds') \<and> list_all2 bpf_d_inv cs ds')"
proof (induction rule: list_all2_induct)
  case Nil
  have "bpf_mtap_loop rnd m tbh direction [] = Inr (False, []) \<and> list_all2 bpf_d_inv [] []" by simp
  then show ?case by blast
next
  case (Cons c cs d ds)
  from bpf_mtap_one_inv [OF Cons(1), of rnd m tbh direction] Cons show ?case
    by (elim disjE exE conjE) simp_all
qed



text \<open>A packet that a filter accepts is either appended whole, cut only by the snapshot length and the
  buffer size, after all records still waiting to be read, or it is counted in \<^verbatim>\<open>bd_dcount\<close> and
  changes nothing else; it is dropped only when the other buffer is not free. No record is ever lost,
  overwritten or reordered by a capture.\<close>

theorem bpf_catchpacket_append_or_drop:
  assumes "bpf_reach (d, copy)" and "bd_bif d = Some b"
  shows "bpf_catchpacket d pkt (length (concat pkt)) snaplen tbh = Inr (d\<lparr>bd_dcount := bd_dcount d + 1\<rparr>) \<and>
       bd_fbuf d = None \<or>
     (\<exists>d' r. bpf_catchpacket d pkt (length (concat pkt)) snaplen tbh = Inr d' \<and>
        bpf_pending d' = bpf_pending d @ [r] \<and>
        rec_data r = take (bpf_caplen d snaplen (length (concat pkt))) (concat pkt) \<and>
        bd_dcount d' = bd_dcount d)"
  using bpf_catchpacket_spec [OF bpf_reach_pair [OF assms(1)] assms(2) refl, of pkt snaplen tbh] by blast

theorem bpf_catchpacket_append_or_drop_witness:
  "bd_bif d_one = Some em0 \<and>
   (bpf_catchpacket d_one [[1, 2], [3]] (length (concat [[1, 2], [3::u8]])) 2 hdr0 =
       Inr (d_one\<lparr>bd_dcount := bd_dcount d_one + 1\<rparr>) \<and> bd_fbuf d_one = None \<or>
    (\<exists>d' r. bpf_catchpacket d_one [[1, 2], [3]] (length (concat [[1, 2], [3::u8]])) 2 hdr0 = Inr d' \<and>
       bpf_pending d' = bpf_pending d_one @ [r] \<and>
       rec_data r = take (bpf_caplen d_one 2 (length (concat [[1, 2], [3::u8]]))) (concat [[1, 2], [3]]) \<and>
       bd_dcount d' = bd_dcount d_one))"
proof -
  have b: "bd_bif d_one = Some em0" by (simp add: d_one_def d_attached_def)
  show ?thesis by (rule conjI [OF b bpf_catchpacket_append_or_drop [OF bpf_reach_one b]])
qed

text \<open>C28: A read that returns data hands over the oldest pending records, in order, as a buffer that can be
  walked to exactly the length returned, and leaves the younger ones pending: what it got followed by what
  remains is what was pending. When no other reader is copying, a read never fails an assertion, and
  finishing it gives the buffer back without touching the pending records.\<close>

theorem bpfread_prefix:
  assumes "bpf_reach (d, None)"
  shows "case bpfread resid ndelay expired d of
      Read_Got hbuf hlen d' \<Rightarrow>
        got_recs hbuf hlen d' @ bpf_pending d' = bpf_pending d \<and> bpf_walk 0 (got_recs hbuf hlen d') hlen \<and>
        (\<exists>d''. bpfread_done hbuf d' = Inr d'' \<and> bpf_d_inv None d'' \<and> bpf_pending d'' = bpf_pending d')
    | Read_Panic e \<Rightarrow> False
    | Read_Error e \<Rightarrow> e = ENXIO \<and> bd_bif d = None \<or> e = EINVAL \<and> resid \<noteq> bd_bufsize d
    | Read_Empty \<Rightarrow> bpf_pending d = [] \<and> (ndelay \<or> expired)
    | Read_Sleep \<Rightarrow> hold_recs d = [] \<and> \<not> ndelay"
proof -
  have i: "bpf_d_inv None d" by (rule bpf_reach_pair [OF assms])
  have hold: "hold_recs d = []" if "bd_hbuf d = None" using that by (simp add: hold_recs_def)
  have store: "store_recs d = []" if "bd_slen d = 0" using that by (simp add: store_recs_def)
  have err: "e = ENXIO \<and> bd_bif d = None \<or> e = EINVAL \<and> resid \<noteq> bd_bufsize d"
    if "bpfread resid ndelay expired d = Read_Error e" for e
    using that by (auto simp: bpfread_def bpfread_iter_def bpfread_woken_def bpfread_hold_def bpfread_rotate_def
        split: if_splits option.splits sum.splits)
  have empty: "bpf_pending d = [] \<and> (ndelay \<or> expired)" if "bpfread resid ndelay expired d = Read_Empty"
    using that hold store by (auto simp: bpfread_def bpfread_iter_def bpfread_woken_def bpfread_hold_def
        bpfread_rotate_def bpf_pending_def split: if_splits option.splits sum.splits)
  have slp: "hold_recs d = [] \<and> \<not> ndelay" if "bpfread resid ndelay expired d = Read_Sleep"
    using that hold by (auto simp: bpfread_def bpfread_iter_def bpfread_woken_def bpfread_hold_def
        bpfread_rotate_def split: if_splits option.splits sum.splits)
  show ?thesis
    using read_ok_bpfread [OF i, of resid ndelay expired] err empty slp
    by (cases "bpfread resid ndelay expired d") (auto simp: read_ok_def dest: bpfread_done_inv)
qed

theorem bpfread_prefix_witness:
  "bpfread 64 True False d_one = Read_Got 1 32 d_copying \<and>
   got_recs 1 32 d_copying @ bpf_pending d_copying = bpf_pending d_one \<and>
   bpf_walk 0 (got_recs 1 32 d_copying) 32 \<and> length (bpf_pending d_one) = 1"
proof -
  have "length (bpf_pending d_one) = 1"
    by (simp add: bpf_pending_def hold_recs_def store_recs_def d_one_def d_attached_def bpfopen_def)
  with bpfread_prefix [OF bpf_reach_one, of 64 True False] show ?thesis
    by (simp add: read_d_one del: One_nat_def)
qed

lemma resetd_result:
  assumes "bpf_resetd d = Inr d'"
  shows "bpf_pending d' = []" "bd_rfilter d' = bd_rfilter d" "bd_wfilter d' = bd_wfilter d"
  using assms
  by (auto simp: bpf_resetd_def Let_def bpf_pending_def store_recs_def hold_recs_def del_wait_tmo_def bpf_put_def
      split: if_splits)

lemma bpf_pending_filter [simp]:
  "bpf_pending (d\<lparr>bd_rfilter := p\<rparr>) = bpf_pending d" "bpf_pending (d\<lparr>bd_wfilter := p\<rparr>) = bpf_pending d"
  by (simp_all add: bpf_pending_def)

text \<open>Installing a filter never puts an unvalidated program into a descriptor: on success the new read or
  write filter is empty or exactly the instructions copied in, checked by \<^verbatim>\<open>bpf_validate\<close>; on every
  error the descriptor is unchanged. \<^verbatim>\<open>BIOCSETF\<close> also flushes the buffers, the other two keep the pending
  records.\<close>

theorem bpf_setf_validated:
  assumes "bpf_reach (d, None)"
    and "\<And>copyin n fcode. insns = Some copyin \<Longrightarrow> copyin n = Some fcode \<Longrightarrow> length fcode = n"
  shows "\<exists>err d'. bpf_setf maxbuf malloc_ok insns flen cmd d = Inr (err, d') \<and> bpf_d_inv None d' \<and>
    (err \<noteq> None \<longrightarrow> d' = d) \<and>
    (err = None \<longrightarrow>
       (let prog = (if cmd = BIOCSETWF then bd_wfilter d' else bd_rfilter d')
        in case prog of
             None \<Rightarrow> insns = None \<and> flen = 0
           | Some fcode \<Rightarrow> \<exists>copyin. insns = Some copyin \<and> copyin (unat flen) = Some fcode \<and>
               bpf_validate maxbuf fcode (uint flen)) \<and>
       bpf_pending d' = (if cmd = BIOCSETF then [] else bpf_pending d))"
proof -
  have i: "bpf_d_inv None d" by (rule bpf_reach_pair [OF assms(1)])
  have nocopy: "bd_in_uiomove d = False" using i by (simp add: bpf_d_inv_def)
  have "\<exists>err d'. bpf_setf maxbuf malloc_ok insns flen cmd d = Inr (err, d')"
    using nocopy by (auto simp: bpf_setf_def bpf_resetd_def Let_def split: option.split)
  then obtain err d' where e: "bpf_setf maxbuf malloc_ok insns flen cmd d = Inr (err, d')" by blast
  have i': "bpf_d_inv None d'" by (rule bpf_setf_inv [OF i assms(2) e])
  have unch: "d' = d" if "err \<noteq> None"
    using that e nocopy by (auto simp: bpf_setf_def bpf_resetd_def Let_def split: option.splits if_splits)
  have "(case (if cmd = BIOCSETWF then bd_wfilter d' else bd_rfilter d') of
             None \<Rightarrow> insns = None \<and> flen = 0
           | Some fcode \<Rightarrow> \<exists>copyin. insns = Some copyin \<and> copyin (unat flen) = Some fcode \<and>
               bpf_validate maxbuf fcode (uint flen))" if "err = None"
    using that e by (auto simp: bpf_setf_def Let_def resetd_result split: option.splits if_splits sum.splits)
  moreover have "bpf_pending d' = (if cmd = BIOCSETF then [] else bpf_pending d)" if "err = None"
    using that e by (auto simp: bpf_setf_def Let_def resetd_result split: option.splits if_splits sum.splits)
  ultimately show ?thesis using e i' unch by (simp add: Let_def)
qed

definition prog_accept :: "bpf_insn list" where
  "prog_accept = [\<lparr>i_code = 0x06, i_jt = 0, i_jf = 0, i_k = 96\<rparr>]"

theorem bpf_setf_validated_witness:
  "\<exists>err d'. bpf_setf 2097152 True (Some (\<lambda>n. if n = 1 then Some prog_accept else None)) 1 BIOCSETF d_one =
     Inr (err, d') \<and> err = None \<and> bd_rfilter d' = Some prog_accept \<and> bpf_pending d' = []"
proof -
  have v: "bpf_validate 2097152 prog_accept 1"
    by code_simp
  have len: "length fcode = n" if "Some (\<lambda>n. if n = 1 then Some prog_accept else None) = Some copyin"
    "copyin n = Some fcode" for copyin n fcode
    using that by (auto simp: prog_accept_def split: if_splits)
  have "fst (projr (bpf_setf 2097152 True (Some (\<lambda>n. if n = 1 then Some prog_accept else None)) 1 BIOCSETF d_one)) = None"
    using v by (simp add: bpf_setf_def bpf_resetd_def d_one_def d_attached_def bpfopen_def BPF_MAXINSNS_def Let_def)
  with bpf_setf_validated [where insns = "Some (\<lambda>n. if n = 1 then Some prog_accept else None)"
      and maxbuf = 2097152 and malloc_ok = True and flen = 1 and cmd = BIOCSETF, OF bpf_reach_one] len
  show ?thesis by (auto split: option.splits if_splits)
qed

text \<open>The assertion that no reader is copying is not protected: there is a reachable state in which a
  reader is inside \<^verbatim>\<open>uiomove\<close> with \<^verbatim>\<open>bd_mtx\<close> released, and in every such state a flush
  (\<^verbatim>\<open>BIOCFLUSH\<close>, \<^verbatim>\<open>BIOCSETF\<close>, \<^verbatim>\<open>BIOCSETIF\<close>) from another thread fails the \<^verbatim>\<open>KASSERT\<close> in
  \<^verbatim>\<open>bpf_resetd\<close>, and so does a second reader that finds \<^verbatim>\<open>BPF_S_DONE\<close>.\<close>

theorem bpf_copying_assertions:
  "(\<exists>d h. bpf_reach (d, Some h)) \<and>
   (\<forall>d h. bpf_reach (d, Some h) \<longrightarrow>
      bpf_resetd d = Inl Kassert_uiomove \<and>
      (bd_state d = BPF_S_DONE \<longrightarrow> bpfread (bd_bufsize d) ndelay expired d = Read_Panic Kassert_uiomove))"
proof -
  have "bpf_resetd d = Inl Kassert_uiomove \<and>
      (bd_state d = BPF_S_DONE \<longrightarrow> bpfread (bd_bufsize d) ndelay expired d = Read_Panic Kassert_uiomove)"
    if "bpf_reach (d, Some h)" for d h
  proof -
    have i: "bpf_d_inv (Some h) d" by (rule bpf_reach_pair [OF that])
    have "bd_hbuf d = None" "bd_bif d \<noteq> None" using i by (auto simp: bpf_d_inv_def slots_inv_def)
    then show ?thesis
      using resetd_copying [OF i] bpfread_rotate_copying [OF i] by (auto simp: bpfread_def bpfread_iter_def)
  qed
  with bpf_reach_copying show ?thesis by blast
qed

theorem bpf_copying_assertions_witness:
  "bpf_resetd d_copying = Inl Kassert_uiomove"
  using bpf_copying_assertions [THEN conjunct2] bpf_reach_copying by blast

end
