(* ===== verification/Bpf_Write.thy ===== *)
theory Bpf_Write
  imports Bpf_Dev
begin

text \<open>
  The write path of \<^verbatim>\<open>sys/net/bpf.c\<close> (\<^verbatim>\<open>bpfwrite\<close>, \<^verbatim>\<open>bpf_movein\<close>) with the mbuf layout it relies on (\<^verbatim>\<open>m_clpool\<close> and
  \<^verbatim>\<open>m_align\<close> of \<^verbatim>\<open>kern/uipc_mbuf.c\<close>), and the tap that puts back a VLAN header (\<^verbatim>\<open>bpf_mtap_ether\<close>).

  The call of \<^verbatim>\<open>if_output\<close>, which ends a write, is the value \<open>Write_Sent\<close> with its arguments. A copy outside the
  buffer of the mbuf is \<open>Write_Overrun\<close>, a failed \<^verbatim>\<open>KASSERT\<close> \<open>Write_Kassert\<close>.
\<close>

section \<open>mbuf storage\<close>

definition MAXMCLBYTES :: nat where [kern_defs]: "MAXMCLBYTES = 65536"

text \<open>\<^verbatim>\<open>MSIZE\<close> less the headers: 32 bytes of \<^verbatim>\<open>struct m_hdr\<close> and 80 of \<^verbatim>\<open>struct pkthdr\<close> on LP64.\<close>

definition MHLEN :: nat where [kern_defs]: "MHLEN = 256 - 32 - 80"

definition mclsizes :: "nat list" where
  "mclsizes = [2048, 2048 + 2, 4 * 1024, 8 * 1024, 9 * 1024, 12 * 1024, 16 * 1024, 64 * 1024]"

definition m_clpool :: "nat \<Rightarrow> nat option" where
  "m_clpool pktlen = find (\<lambda>pr_size. pktlen \<le> pr_size) mclsizes"

definition roundup8 :: "nat \<Rightarrow> nat" where
  "roundup8 n = (n + 7) div 8 * 8"

text \<open>\<^verbatim>\<open>m_align\<close> in a buffer of \<open>sz\<close> bytes: the offset of the data.\<close>

definition m_align :: "nat \<Rightarrow> nat \<Rightarrow> nat option" where
  "m_align sz len = (if roundup8 len \<le> sz then Some ((sz - len) div 8 * 8) else None)"

section \<open>Writing\<close>

definition ETHER_HDR_LEN :: nat where [kern_defs]: "ETHER_HDR_LEN = 6 * 2 + 2"

definition AF_UNSPEC :: u8 where [kern_defs]: "AF_UNSPEC = 0"
definition AF_INET :: u8 where [kern_defs]: "AF_INET = 2"
definition pseudo_AF_HDRCMPLT :: u8 where [kern_defs]: "pseudo_AF_HDRCMPLT = 31"

definition DLT_NULL :: nat where [kern_defs]: "DLT_NULL = 0"
definition DLT_EN10MB :: nat where [kern_defs]: "DLT_EN10MB = 1"
definition DLT_SLIP :: nat where [kern_defs]: "DLT_SLIP = 8"
definition DLT_PPP :: nat where [kern_defs]: "DLT_PPP = 9"
definition DLT_LOOP :: nat where [kern_defs]: "DLT_LOOP = 12"
definition DLT_RAW :: nat where [kern_defs]: "DLT_RAW = 14"
definition DLT_IEEE802_11 :: nat where [kern_defs]: "DLT_IEEE802_11 = 105"
definition DLT_IEEE802_11_RADIO :: nat where [kern_defs]: "DLT_IEEE802_11_RADIO = 127"

record sockaddr =
  sa_family :: u8
  sa_data :: bytes

text \<open>A packet in one mbuf: the size of its buffer, the offset of the data, the data, and the link type in its tag.\<close>

record out_mbuf =
  m_size :: nat
  m_off :: nat
  m_bytes :: bytes
  m_dlt :: nat

text \<open>The \<^verbatim>\<open>switch\<close> on the link type: address family and length of the link header.\<close>

definition bpf_linkhdr :: "nat \<Rightarrow> (u8 \<times> nat) option" where
  "bpf_linkhdr linktype =
     (if linktype = DLT_SLIP then Some (AF_INET, 0)
      else if linktype = DLT_PPP then Some (AF_UNSPEC, 0)
      else if linktype = DLT_EN10MB then Some (AF_UNSPEC, ETHER_HDR_LEN)
      else if linktype = DLT_IEEE802_11 \<or> linktype = DLT_IEEE802_11_RADIO then Some (AF_UNSPEC, 0)
      else if linktype = DLT_RAW \<or> linktype = DLT_NULL then Some (AF_UNSPEC, 0)
      else if linktype = DLT_LOOP then Some (AF_UNSPEC, 4)
      else None)"

datatype bpf_write =
    Write_Error errno
  | Write_Empty
  | Write_Sent out_mbuf nat nat sockaddr
  | Write_Kassert
  | Write_Overrun
  | Write_Fault bpf_fault

datatype bpf_moved = Moved out_mbuf sockaddr | Move_Error errno | Move_Kassert | Move_Overrun | Move_Fault bpf_fault

text \<open>
  The tail of \<^verbatim>\<open>bpf_movein\<close>, with the packet \<open>dat\<close> copied in: the write filter, and the link header moved from the
  front of the packet to the socket address.
\<close>

definition bpf_movein_filter :: "(nat \<Rightarrow> u8) \<Rightarrow> (nat \<Rightarrow> u32) \<Rightarrow> nat \<Rightarrow> nat \<Rightarrow> bpf_d \<Rightarrow> out_mbuf \<Rightarrow> sockaddr \<Rightarrow> bpf_moved" where
  "bpf_movein_filter oob rnd linktype hlen d m sockp =
     (let dat = m_bytes m; len = length dat in
      case bpf_filter 64 oob (bd_wfilter d) dat (of_nat len) (of_nat len) rnd of
        Inl e \<Rightarrow> Move_Fault e
      | Inr slen \<Rightarrow>
          if slen < of_nat len then Move_Error EPERM
          else if hlen \<noteq> 0 then
            (if linktype = DLT_LOOP \<and> hlen \<noteq> 4 then Move_Kassert
             else Moved (m\<lparr>m_bytes := drop hlen dat, m_off := m_off m + hlen, m_dlt := linktype\<rparr>)
               (if linktype = DLT_LOOP then sockp\<lparr>sa_family := dat ! 3\<rparr>
                else sockp\<lparr>sa_data := take hlen dat @ drop hlen (sa_data sockp)\<rparr>))
          else Moved (m\<lparr>m_dlt := linktype\<rparr>) sockp)"

text \<open>
  \<^verbatim>\<open>bpf_movein\<close>: \<open>resid\<close> is \<^verbatim>\<open>uio_resid\<close>, \<open>uio\<close> the bytes \<^verbatim>\<open>uiomove\<close> copies (\<open>None\<close> for a fault), \<open>ext\<close> whether the mbuf
  got its cluster. The family of a loopback packet is its first word in network order, cut to the byte
  \<^verbatim>\<open>sa_family\<close> has room for.
\<close>

definition bpf_movein ::
  "(nat \<Rightarrow> u8) \<Rightarrow> (nat \<Rightarrow> u32) \<Rightarrow> nat \<Rightarrow> bool \<Rightarrow> nat \<Rightarrow> bytes option \<Rightarrow> bpf_if \<Rightarrow> bpf_d \<Rightarrow> sockaddr \<Rightarrow> bpf_moved" where
  "bpf_movein oob rnd max_linkhdr ext resid uio bif d sockp =
     (case bpf_linkhdr (bif_dlt bif) of
        None \<Rightarrow> Move_Error EIO
      | Some (family, hlen) \<Rightarrow>
          if resid > MAXMCLBYTES then Move_Error EMSGSIZE
          else if resid < hlen then Move_Error EINVAL
          else
            let alen = resid - hlen; mlen = max max_linkhdr hlen + roundup8 alen in
            if mlen > MAXMCLBYTES then Move_Error EMSGSIZE
            else
              (case (if mlen > MHLEN then m_clpool mlen else Some MHLEN) of
                 None \<Rightarrow> Move_Kassert
               | Some sz \<Rightarrow>
                   if mlen > MHLEN \<and> \<not> ext then Move_Error ENOBUFS
                   else
                     (case m_align sz alen of
                        None \<Rightarrow> Move_Kassert
                      | Some off \<Rightarrow>
                          (case uio of
                             None \<Rightarrow> Move_Error EFAULT
                           | Some dat \<Rightarrow>
                               if off < hlen \<or> off - hlen + resid > sz then Move_Overrun
                               else bpf_movein_filter oob rnd (bif_dlt bif) hlen d
                                 \<lparr>m_size = sz, m_off = off - hlen, m_bytes = dat, m_dlt = 0\<rparr> (sockp\<lparr>sa_family := family\<rparr>)))))"

text \<open>What \<^verbatim>\<open>bpfwrite\<close> reads of \<^verbatim>\<open>struct ifnet\<close>; \<open>ifs\<close> gives the interface of an index, \<open>dst\<close> is the stack storage.\<close>

record ifnet =
  if_up :: bool
  if_mtu :: nat
  if_rdomain :: nat
  if_llprio :: nat

definition bpfwrite ::
  "(nat \<Rightarrow> u8) \<Rightarrow> (nat \<Rightarrow> u32) \<Rightarrow> nat \<Rightarrow> bool \<Rightarrow> (nat \<Rightarrow> ifnet) \<Rightarrow> sockaddr \<Rightarrow> nat \<Rightarrow> bytes option \<Rightarrow> bpf_d \<Rightarrow> bpf_write" where
  "bpfwrite oob rnd max_linkhdr ext ifs dst resid uio d =
     (case bd_bif d of
        None \<Rightarrow> Write_Error ENXIO
      | Some bif \<Rightarrow>
          (case bif_ifp bif of
             None \<Rightarrow> Write_Error ENETDOWN
           | Some i \<Rightarrow>
               if \<not> if_up (ifs i) then Write_Error ENETDOWN
               else if resid = 0 then Write_Empty
               else
                 (case bpf_movein oob rnd max_linkhdr ext resid uio bif d dst of
                    Move_Error e \<Rightarrow> Write_Error e
                  | Move_Kassert \<Rightarrow> Write_Kassert
                  | Move_Overrun \<Rightarrow> Write_Overrun
                  | Move_Fault e \<Rightarrow> Write_Fault e
                  | Moved m sa \<Rightarrow>
                      if length (m_bytes m) > if_mtu (ifs i) then Write_Error EMSGSIZE
                      else Write_Sent m (if_rdomain (ifs i)) (if_llprio (ifs i))
                        (if bd_hdrcmplt d \<and> sa_family sa = AF_UNSPEC then sa\<lparr>sa_family := pseudo_AF_HDRCMPLT\<rparr> else sa))))"

section \<open>The VLAN tap\<close>

text \<open>
  \<^verbatim>\<open>bpf_mtap_ether\<close>: \<open>vtag\<close> is the tag of a packet with \<^verbatim>\<open>M_VLANTAG\<close>. \<open>None\<close> is the failed \<^verbatim>\<open>KASSERT\<close>; otherwise the chain
  that \<^verbatim>\<open>_bpf_mtap\<close> filters.
\<close>

definition bpf_ether_chain :: "u16 option \<Rightarrow> mbuf_chain \<Rightarrow> mbuf_chain option" where
  "bpf_ether_chain vtag m =
     (case (vtag, m) of
        (None, _) \<Rightarrow> Some m
      | (Some _, []) \<Rightarrow> None
      | (Some tag, m0 # ms) \<Rightarrow>
          if length m0 < ETHER_HDR_LEN then None
          else
            let evh = take 12 m0 @ [0x81, 0x00, ucast (drop_bit 8 tag), ucast tag] @ take 2 (drop 12 m0) in
            Some (evh # drop ETHER_HDR_LEN m0 # ms))"

definition bpf_mtap_ether ::
    "(nat \<Rightarrow> u32) \<Rightarrow> u32 \<times> u32 \<Rightarrow> u16 option \<Rightarrow> pkthdr option \<Rightarrow> mbuf_chain \<Rightarrow> u8 \<Rightarrow> bpf_d list
      \<Rightarrow> (bpf_panic + (bool \<times> bpf_d list)) option" where
  "bpf_mtap_ether rnd tv vtag mp m direction ds =
     map_option (\<lambda>c. bpf_mtap_all rnd tv mp c direction ds) (bpf_ether_chain vtag m)"

lemma bpf_ether_chain_frame:
  assumes "bpf_ether_chain (Some tag) m = Some c"
  shows "concat c = take 12 (concat m) @ [0x81, 0x00, ucast (drop_bit 8 tag), ucast tag] @ drop 12 (concat m)"
proof -
  from assms obtain m0 ms where m: "m = m0 # ms" and len: "14 \<le> length m0"
    by (auto simp: bpf_ether_chain_def ETHER_HDR_LEN_def split: list.splits if_splits)
  have "take 2 (drop 12 m0) @ drop 14 m0 = drop 12 m0"
    using append_take_drop_id [of 2 "drop 12 m0"] by simp
  then have "take 2 (drop 12 m0) @ drop 14 m0 @ concat ms = drop 12 m0 @ concat ms" by (metis append.assoc)
  with assms m len show ?thesis by (auto simp: bpf_ether_chain_def ETHER_HDR_LEN_def Let_def)
qed

section \<open>What a write sends\<close>

lemma bpf_linkhdr_le: "bpf_linkhdr t = Some (f, hlen) \<Longrightarrow> hlen \<le> 14 \<and> (t = DLT_LOOP \<longrightarrow> hlen = 4)"
  by (auto simp: bpf_linkhdr_def kern_defs split: if_splits)

text \<open>The payload and the headers in front of it fit the buffer chosen for them.\<close>

lemma m_clpool_some: "n \<le> MAXMCLBYTES \<Longrightarrow> \<exists>s. m_clpool n = Some s \<and> n \<le> s"
  by (auto simp: m_clpool_def mclsizes_def MAXMCLBYTES_def)

lemma m_align_fits:
  assumes "max lh hlen + roundup8 alen \<le> sz" and "64 \<le> lh" and "hlen \<le> 14"
  shows "\<exists>off. m_align sz alen = Some off \<and> hlen \<le> off \<and> off + alen \<le> sz"
proof -
  have "alen \<le> roundup8 alen" unfolding roundup8_def by presburger
  then have "64 + alen \<le> sz" "roundup8 alen \<le> sz" using assms(1,2) by auto
  moreover have "(sz - alen) div 8 * 8 \<le> sz - alen" "(sz - alen) div 8 * 8 \<ge> sz - alen - 7" by presburger+
  ultimately show ?thesis using assms(3) by (auto simp: m_align_def)
qed

lemma filter_ok_linear:
  assumes "filter_ok prog" and "bpf_filter sz oob prog pkt wl bl rnd = Inl e"
  shows "e = Fault_Shift"
proof (cases prog)
  case None
  with assms(2) show ?thesis by (simp add: bpf_filter_def run_bpf_filter_def)
next
  case (Some f)
  then obtain mb where v: "bpf_validate mb f (int (length f))" using assms(1) by (auto simp: filter_ok_def)
  have "bpf_loop (bpf_mem_ops sz) \<lparr>bm_pkt = pkt, bm_len = bl, bm_oob = oob\<rparr> wl rnd f 0 bpf_regs0 \<in> {Inl Fault_Shift} \<union> range Inr"
    by (rule bpf_loop_safe) (use v bpf_validate_length in \<open>auto simp: bpf_regs0_def\<close>)
  with assms(2) Some show ?thesis by (auto simp: bpf_filter_def run_bpf_filter_def)
qed

text \<open>What is known of a packet on its way to \<^verbatim>\<open>if_output\<close>: the user's data without the link header, inside its buffer.\<close>

definition bpf_moved_ok :: "(nat \<Rightarrow> u8) \<Rightarrow> (nat \<Rightarrow> u32) \<Rightarrow> bpf_d \<Rightarrow> bpf_if \<Rightarrow> bytes \<Rightarrow> out_mbuf \<Rightarrow> sockaddr \<Rightarrow> bool" where
  "bpf_moved_ok oob rnd d bif dat m sa \<longleftrightarrow>
     (\<exists>family hlen slen. bpf_linkhdr (bif_dlt bif) = Some (family, hlen) \<and> hlen \<le> length dat \<and>
        m_bytes m = drop hlen dat \<and> m_off m + length (m_bytes m) \<le> m_size m \<and> m_dlt m = bif_dlt bif \<and>
        bpf_filter 64 oob (bd_wfilter d) dat (of_nat (length dat)) (of_nat (length dat)) rnd = Inr slen \<and> length dat \<le> unat slen \<and>
        (bif_dlt bif = DLT_EN10MB \<longrightarrow> take ETHER_HDR_LEN (sa_data sa) = take ETHER_HDR_LEN dat) \<and>
        sa_family sa = (if bif_dlt bif = DLT_LOOP then dat ! 3 else family))"

lemma bpf_movein_filter_ok:
  assumes "filter_ok (bd_wfilter d)" and link: "bpf_linkhdr (bif_dlt bif) = Some (family, hlen)"
    and len: "hlen \<le> length dat" "length dat \<le> MAXMCLBYTES" and fits: "m_off m + length dat \<le> m_size m" and m: "m_bytes m = dat"
    and sa: "sa_family sockp = family"
  shows "case bpf_movein_filter oob rnd (bif_dlt bif) hlen d m sockp of
      Moved m' sa \<Rightarrow> bpf_moved_ok oob rnd d bif dat m' sa
    | Move_Error e \<Rightarrow> e = EPERM | Move_Kassert \<Rightarrow> False | Move_Overrun \<Rightarrow> False | Move_Fault e \<Rightarrow> e = Fault_Shift"
proof (cases "bpf_filter 64 oob (bd_wfilter d) dat (of_nat (length dat)) (of_nat (length dat)) rnd")
  case (Inl e)
  then show ?thesis using filter_ok_linear [OF assms(1) Inl] by (simp add: bpf_movein_filter_def m)
next
  case (Inr slen)
  have small: "unat (of_nat (length dat) :: u32) = length dat"
    by (rule unat_of_nat_less) (use len(2) in \<open>simp add: MAXMCLBYTES_def\<close>)
  have hl: "bif_dlt bif = DLT_LOOP \<longrightarrow> hlen = 4" "bif_dlt bif = DLT_EN10MB \<longrightarrow> hlen = ETHER_HDR_LEN" "DLT_LOOP \<noteq> DLT_EN10MB" "ETHER_HDR_LEN \<noteq> 0"
    using link by (auto simp: bpf_linkhdr_def kern_defs split: if_splits)
  show ?thesis
  proof (cases "slen < of_nat (length dat)")
    case True
    then show ?thesis by (simp add: bpf_movein_filter_def m Inr)
  next
    case False
    then have "length dat \<le> unat slen" using small by (simp add: word_less_nat_alt)
    then show ?thesis
      using False Inr link len hl fits sa by (auto simp: bpf_movein_filter_def m bpf_moved_ok_def)
  qed
qed

lemma bpf_movein_ok:
  assumes filter: "filter_ok (bd_wfilter d)" and lh: "64 \<le> max_linkhdr" and uio: "\<And>dat. uio = Some dat \<Longrightarrow> length dat = resid"
  shows "case bpf_movein oob rnd max_linkhdr ext resid uio bif d sockp of
      Moved m sa \<Rightarrow> \<exists>dat. uio = Some dat \<and> bpf_moved_ok oob rnd d bif dat m sa
    | Move_Error e \<Rightarrow> True | Move_Kassert \<Rightarrow> False | Move_Overrun \<Rightarrow> False | Move_Fault e \<Rightarrow> e = Fault_Shift"
proof (cases "bpf_linkhdr (bif_dlt bif)")
  case None
  then show ?thesis by (simp add: bpf_movein_def)
next
  case (Some q)
  then obtain family hlen where link: "bpf_linkhdr (bif_dlt bif) = Some (family, hlen)" by (cases q) auto
  let ?mlen = "max max_linkhdr hlen + roundup8 (resid - hlen)"
  show ?thesis
  proof (cases "resid > MAXMCLBYTES \<or> resid < hlen \<or> ?mlen > MAXMCLBYTES")
    case True
    then show ?thesis by (auto simp: bpf_movein_def link Let_def)
  next
    case False
    then obtain sz where sz: "(if ?mlen > MHLEN then m_clpool ?mlen else Some MHLEN) = Some sz" "?mlen \<le> sz"
      using m_clpool_some [of ?mlen] by (cases "?mlen > MHLEN") auto
    from m_align_fits [OF sz(2) lh] bpf_linkhdr_le [OF link] obtain off where
      off: "m_align sz (resid - hlen) = Some off" "hlen \<le> off" "off + (resid - hlen) \<le> sz" by auto
    show ?thesis
    proof (cases uio)
      case None
      then show ?thesis using False sz(1) off(1) by (auto simp: bpf_movein_def link Let_def)
    next
      case (Some dat)
      let ?m = "\<lparr>m_size = sz, m_off = off - hlen, m_bytes = dat, m_dlt = 0\<rparr>"
      have "m_off ?m + length dat \<le> m_size ?m" using uio [OF Some] off False by auto
      then have "case bpf_movein_filter oob rnd (bif_dlt bif) hlen d ?m (sockp\<lparr>sa_family := family\<rparr>) of
          Moved m' sa \<Rightarrow> bpf_moved_ok oob rnd d bif dat m' sa
        | Move_Error e \<Rightarrow> e = EPERM | Move_Kassert \<Rightarrow> False | Move_Overrun \<Rightarrow> False | Move_Fault e \<Rightarrow> e = Fault_Shift"
        using uio [OF Some] False by (intro bpf_movein_filter_ok [OF filter link]) auto
      moreover have "bpf_movein oob rnd max_linkhdr ext resid uio bif d sockp =
          (if ?mlen > MHLEN \<and> \<not> ext then Move_Error ENOBUFS
           else bpf_movein_filter oob rnd (bif_dlt bif) hlen d ?m (sockp\<lparr>sa_family := family\<rparr>))"
        using False sz(1) off Some by (auto simp: bpf_movein_def link Let_def)
      ultimately show ?thesis using Some by (auto split: bpf_moved.splits)
    qed
  qed
qed

text \<open>C27: A write on a reachable descriptor never copies outside the mbuf it allocates, fails no assertion and faults in
  the write filter at most by a shift of 32 or more. What it hands to \<^verbatim>\<open>if_output\<close> is the user's data without the link
  header, whole and no longer than the MTU of an interface that is up; the write filter accepted all of it; and an
  Ethernet header is in the socket address. \<^verbatim>\<open>max_linkhdr\<close> is at least 64 after \<^verbatim>\<open>domaininit\<close>.\<close>

theorem bpfwrite_sends:
  assumes "bpf_reach (d, copy)" and "64 \<le> max_linkhdr" and "\<And>dat. uio = Some dat \<Longrightarrow> length dat = resid"
  shows "case bpfwrite oob rnd max_linkhdr ext ifs dst resid uio d of
      Write_Sent m rdomain prio sa \<Rightarrow>
        (\<exists>bif i dat sa'. bd_bif d = Some bif \<and> bif_ifp bif = Some i \<and> if_up (ifs i) \<and> uio = Some dat \<and>
          length (m_bytes m) \<le> if_mtu (ifs i) \<and> rdomain = if_rdomain (ifs i) \<and> prio = if_llprio (ifs i) \<and>
          bpf_moved_ok oob rnd d bif dat m sa' \<and>
          sa = (if bd_hdrcmplt d \<and> sa_family sa' = AF_UNSPEC then sa'\<lparr>sa_family := pseudo_AF_HDRCMPLT\<rparr> else sa'))
    | Write_Fault e \<Rightarrow> e = Fault_Shift
    | Write_Kassert \<Rightarrow> False
    | Write_Overrun \<Rightarrow> False
    | Write_Empty \<Rightarrow> resid = 0
    | Write_Error e \<Rightarrow> True"
proof -
  have f: "filter_ok (bd_wfilter d)" using bpf_reach_pair [OF assms(1)] by (simp add: bpf_d_inv_def)
  consider "bd_bif d = None \<or> (\<exists>bif. bd_bif d = Some bif \<and> (bif_ifp bif = None \<or> \<not> if_up (ifs (the (bif_ifp bif))) \<or> resid = 0))"
    | bif i where "bd_bif d = Some bif" "bif_ifp bif = Some i" "if_up (ifs i)" "resid \<noteq> 0"
    by (cases "bd_bif d"; cases "bif_ifp (the (bd_bif d))") auto
  then show ?thesis
  proof cases
    case 1
    then show ?thesis by (auto simp: bpfwrite_def split: option.split)
  next
    case (2 bif i)
    have ok: "case bpf_movein oob rnd max_linkhdr ext resid uio bif d dst of
        Moved m sa \<Rightarrow> \<exists>dat. uio = Some dat \<and> bpf_moved_ok oob rnd d bif dat m sa
      | Move_Error e \<Rightarrow> True | Move_Kassert \<Rightarrow> False | Move_Overrun \<Rightarrow> False | Move_Fault e \<Rightarrow> e = Fault_Shift"
      by (rule bpf_movein_ok [OF f assms(2,3)])
    show ?thesis
    proof (cases "bpf_movein oob rnd max_linkhdr ext resid uio bif d dst")
      case (Moved m sa)
      then obtain dat where "uio = Some dat" "bpf_moved_ok oob rnd d bif dat m sa" using ok by auto
      then show ?thesis
        using 2 Moved by (simp add: bpfwrite_def) blast
    qed (use 2 ok in \<open>simp_all add: bpfwrite_def\<close>)
  qed
qed

definition em_up :: ifnet where
  "em_up = \<lparr>if_up = True, if_mtu = 1500, if_rdomain = 0, if_llprio = 3\<rparr>"

theorem bpfwrite_sends_witness:
  "\<exists>m sa. bpfwrite (\<lambda>_. 0) (\<lambda>_. 0) 64 True (\<lambda>_. em_up) \<lparr>sa_family = 0, sa_data = replicate 14 0\<rparr> 20 (Some (replicate 20 7)) d_attached =
      Write_Sent m 0 3 sa \<and> m_bytes m = replicate 6 7 \<and> m_off m + 6 \<le> m_size m"
proof -
  let ?w = "bpfwrite (\<lambda>_. 0) (\<lambda>_. 0) 64 True (\<lambda>_. em_up) \<lparr>sa_family = 0, sa_data = replicate 14 0\<rparr> 20 (Some (replicate 20 7)) d_attached"
  have w: "?w = Write_Sent \<lparr>m_size = 144, m_off = 136, m_bytes = replicate 6 7, m_dlt = 1\<rparr> 0 3 \<lparr>sa_family = 0, sa_data = replicate 14 7\<rparr>"
    by (simp add: bpfwrite_def em_up_def d_attached_def bpfopen_def em0_def bpfxattach_def bpfsattach_def bpf_movein_def
        bpf_linkhdr_def kern_defs m_align_def roundup8_def bpf_movein_filter_def bpf_filter_def run_bpf_filter_def)
  show ?thesis
    using bpfwrite_sends [where oob = "\<lambda>_. 0" and rnd = "\<lambda>_. 0" and max_linkhdr = 64 and ext = True and ifs = "\<lambda>_. em_up"
        and dst = "\<lparr>sa_family = 0, sa_data = replicate 14 0\<rparr>" and resid = 20 and uio = "Some (replicate 20 7)", OF bpf_reach_attached]
    unfolding w by auto
qed

end
