(* ===== verification/Bpf_Ctl.thy ===== *)
theory Bpf_Ctl
  imports Bpf_Write
begin

text \<open>
  \<^verbatim>\<open>bpfioctl\<close> of \<^verbatim>\<open>sys/net/bpf.c\<close> as a whole: the list of requests a locked descriptor still accepts, and every request,
  with the routines only they use (\<^verbatim>\<open>bpf_setdlt\<close>, \<^verbatim>\<open>bpf_getdltlist\<close>, the timeouts). A request carries its argument; what
  it stores through \<^verbatim>\<open>addr\<close> is its output. What the surroundings answer (allocations, \<^verbatim>\<open>ifpromisc\<close>, \<^verbatim>\<open>copyin\<close>, \<^verbatim>\<open>copyout\<close>,
  \<^verbatim>\<open>sigio_setown\<close>) is a record.
\<close>

section \<open>Timeouts\<close>

record timeval =
  tv_sec :: int
  tv_usec :: int

definition UINT64_MAX :: int where [kern_defs]: "UINT64_MAX = 2 ^ 64 - 1"

definition MAXTSLP :: int where [kern_defs]: "MAXTSLP = UINT64_MAX - 1"

definition timerisvalid :: "timeval \<Rightarrow> bool" where
  "timerisvalid tvp \<longleftrightarrow> tv_usec tvp \<ge> 0 \<and> tv_usec tvp < 1000000"

definition TIMEVAL_TO_NSEC :: "timeval \<Rightarrow> int" where
  "TIMEVAL_TO_NSEC tv =
     (if tv_sec tv > UINT64_MAX div 1000000000 then UINT64_MAX
      else let nsecs = tv_sec tv * 1000000000 in
        if tv_usec tv * 1000 > UINT64_MAX - nsecs then UINT64_MAX
        else nsecs + tv_usec tv * 1000)"

definition NSEC_TO_TIMEVAL :: "u64 \<Rightarrow> timeval" where
  "NSEC_TO_TIMEVAL ns = \<lparr>tv_sec = uint ns div 1000000000, tv_usec = (uint ns mod 1000000000) div 1000\<rparr>"

definition SEC_TO_NSEC :: "int \<Rightarrow> int" where
  "SEC_TO_NSEC seconds = (if seconds > UINT64_MAX div 1000000000 then UINT64_MAX else seconds * 1000000000)"

definition bpf_set_rtimeout :: "timeval \<Rightarrow> bpf_d \<Rightarrow> errno option \<times> bpf_d" where
  "bpf_set_rtimeout tv d =
     (if tv_sec tv < 0 \<or> \<not> timerisvalid tv then (Some EINVAL, d)
      else let rtout = TIMEVAL_TO_NSEC tv in
        if rtout > MAXTSLP then (Some EOVERFLOW, d)
        else (None, d\<lparr>bd_rtout := word_of_int rtout\<rparr>))"

definition bpf_set_wtimeout :: "timeval \<Rightarrow> bpf_d \<Rightarrow> errno option \<times> bpf_d" where
  "bpf_set_wtimeout tv d =
     (if tv_sec tv < 0 \<or> \<not> timerisvalid tv then (Some EINVAL, d)
      else let nsec = TIMEVAL_TO_NSEC tv in
        if nsec > SEC_TO_NSEC 300 then (Some EINVAL, d)
        else if nsec > MAXTSLP then (Some EOVERFLOW, d)
        else (None, bpf_set_wtout (word_of_int nsec) d))"

definition bpf_get_wtimeout :: "bpf_d \<Rightarrow> errno + timeval" where
  "bpf_get_wtimeout d = (if bd_wtout d = INFSLP then Inl ENXIO else Inr (NSEC_TO_TIMEVAL (bd_wtout d)))"

section \<open>Link types\<close>

text \<open>
  \<^verbatim>\<open>bpf_getdltlist\<close>: \<open>len\<close> is the length of the user's list, \<open>None\<close> for a NULL pointer; \<open>fault i\<close> says whether \<^verbatim>\<open>copyout\<close> to
  entry \<open>i\<close> fails. The result is the error, the list as copied out and \<^verbatim>\<open>bfl_len\<close> (\<open>None\<close> if it is not stored).
\<close>

fun bpf_getdltlist_loop :: "(nat \<Rightarrow> bool) \<Rightarrow> nat option \<Rightarrow> string \<Rightarrow> bpf_if list \<Rightarrow> nat \<Rightarrow> errno option \<times> nat list \<times> nat option" where
  "bpf_getdltlist_loop fault len name [] n = (None, [], Some n)"
| "bpf_getdltlist_loop fault len name (bp # bps) n =
     (if bif_name bp \<noteq> name then bpf_getdltlist_loop fault len name bps n
      else case len of
        None \<Rightarrow> bpf_getdltlist_loop fault len name bps (n + 1)
      | Some l \<Rightarrow>
          if n \<ge> l then (Some ENOMEM, [], None)
          else if fault n then (Some EFAULT, [], Some n)
          else (let (e, dlts, m) = bpf_getdltlist_loop fault len name bps (n + 1) in (e, bif_dlt bp # dlts, m)))"

definition bpf_getdltlist :: "(nat \<Rightarrow> bool) \<Rightarrow> nat option \<Rightarrow> bpf_if list \<Rightarrow> bpf_if \<Rightarrow> errno option \<times> nat list \<times> nat option" where
  "bpf_getdltlist fault len bpf_iflist bif = bpf_getdltlist_loop fault len (bif_name bif) bpf_iflist 0"

definition bpf_setdlt :: "bpf_if list \<Rightarrow> errno option \<Rightarrow> nat \<Rightarrow> bpf_if \<Rightarrow> bpf_d \<Rightarrow> bpf_panic + (errno option \<times> bpf_d)" where
  "bpf_setdlt bpf_iflist prom dlt bif d =
     (if bif_dlt bif = dlt then Inr (None, d)
      else case find (\<lambda>bp. bif_name bp = bif_name bif \<and> bif_dlt bp = dlt) bpf_iflist of
        None \<Rightarrow> Inr (Some EINVAL, d)
      | Some bp \<Rightarrow>
          (case bpf_detachd prom d of
             Inl e \<Rightarrow> Inl e
           | Inr d1 \<Rightarrow> map_sum (\<lambda>e. e) (Pair None) (bpf_resetd (bpf_attachd bp d1))))"

section \<open>Requests\<close>

record bpf_env =
  bpf_maxbufsize :: nat
  bpf_iflist :: "bpf_if list"
  env_bufs :: "nat option \<times> nat option"
  env_promisc :: "errno option"
  env_malloc :: bool
  env_dltfault :: "nat \<Rightarrow> bool"
  env_setown :: "errno option"

datatype bpf_cmd =
    FIONREAD | BIOCGBLEN | BIOCSBLEN nat
  | BIOCSETFILTER setf_cmd "(nat \<Rightarrow> bpf_insn list option) option" u32
  | BIOCFLUSH | BIOCPROMISC | BIOCGDLTLIST "nat option" | BIOCGDLT | BIOCSDLT nat | BIOCGETIF | BIOCSETIF string
  | BIOCSRTIMEOUT timeval | BIOCGRTIMEOUT | BIOCGSTATS | BIOCIMMEDIATE int
  | BIOCSWTIMEOUT timeval | BIOCGWTIMEOUT | BIOCDWTIMEOUT | BIOCVERSION
  | BIOCGHDRCMPLT | BIOCSHDRCMPLT u32 | BIOCLOCK | BIOCGFILDROP | BIOCSFILDROP u32 | BIOCGDIRFILT | BIOCSDIRFILT u32
  | FIOASYNC int | FIOSETOWN | TIOCSPGRP | FIOGETOWN | TIOCGPGRP | BIOCSRSIG nat | BIOCGRSIG | IOC_OTHER

datatype bpf_out =
    Out_none | Out_int nat | Out_time timeval | Out_stat u64 u64 | Out_version nat nat | Out_name string | Out_dlts "nat list" "nat option"
  | Out_owner

definition NSIG :: nat where [kern_defs]: "NSIG = 33"

text \<open>The requests a locked descriptor accepts.\<close>

fun bpf_lock_allows :: "bpf_cmd \<Rightarrow> bool" where
  "bpf_lock_allows BIOCGBLEN = True"
| "bpf_lock_allows BIOCFLUSH = True"
| "bpf_lock_allows BIOCGDLT = True"
| "bpf_lock_allows (BIOCGDLTLIST l) = True"
| "bpf_lock_allows BIOCGETIF = True"
| "bpf_lock_allows BIOCGRTIMEOUT = True"
| "bpf_lock_allows BIOCGWTIMEOUT = True"
| "bpf_lock_allows BIOCGSTATS = True"
| "bpf_lock_allows BIOCVERSION = True"
| "bpf_lock_allows BIOCGRSIG = True"
| "bpf_lock_allows BIOCGHDRCMPLT = True"
| "bpf_lock_allows FIONREAD = True"
| "bpf_lock_allows BIOCLOCK = True"
| "bpf_lock_allows (BIOCSRTIMEOUT tv) = True"
| "bpf_lock_allows (BIOCSWTIMEOUT tv) = True"
| "bpf_lock_allows BIOCDWTIMEOUT = True"
| "bpf_lock_allows (BIOCIMMEDIATE v) = True"
| "bpf_lock_allows TIOCGPGRP = True"
| "bpf_lock_allows BIOCGDIRFILT = True"
| "bpf_lock_allows _ = False"

type_synonym bpf_res = "bpf_panic + errno option \<times> bpf_out \<times> bpf_d"

text \<open>The \<^verbatim>\<open>switch (cmd)\<close>, for a descriptor of which the request holds a reference.\<close>

fun bpf_request :: "bpf_env \<Rightarrow> bpf_cmd \<Rightarrow> bpf_d \<Rightarrow> bpf_res" where
  "bpf_request env FIONREAD d = Inr (None, Out_int (bpf_fionread d), d)"
| "bpf_request env BIOCGBLEN d = Inr (None, Out_int (bd_bufsize d), d)"
| "bpf_request env (BIOCSBLEN n) d =
     (let (e, n', d') = bpf_sblen (bpf_maxbufsize env) n d in Inr (e, Out_int n', d'))"
| "bpf_request env (BIOCSETFILTER cmd insns flen) d =
     map_sum (\<lambda>e. e) (\<lambda>(e, d'). (e, Out_none, d')) (bpf_setf (of_nat (bpf_maxbufsize env)) (env_malloc env) insns flen cmd d)"
| "bpf_request env BIOCFLUSH d = map_sum (\<lambda>e. e) (\<lambda>d'. (None, Out_none, d')) (bpf_resetd d)"
| "bpf_request env BIOCPROMISC d = (let (e, d') = bpf_promisc (env_promisc env) d in Inr (e, Out_none, d'))"
| "bpf_request env (BIOCGDLTLIST len) d =
     (case bd_bif d of
        None \<Rightarrow> Inr (Some EINVAL, Out_none, d)
      | Some bif \<Rightarrow> (let (e, dlts, n) = bpf_getdltlist (env_dltfault env) len (bpf_iflist env) bif in Inr (e, Out_dlts dlts n, d)))"
| "bpf_request env BIOCGDLT d =
     (case bd_bif d of None \<Rightarrow> Inr (Some EINVAL, Out_none, d) | Some bif \<Rightarrow> Inr (None, Out_int (bif_dlt bif), d))"
| "bpf_request env (BIOCSDLT dlt) d =
     (case bd_bif d of
        None \<Rightarrow> Inr (Some EINVAL, Out_none, d)
      | Some bif \<Rightarrow> map_sum (\<lambda>e. e) (\<lambda>(e, d'). (e, Out_none, d')) (bpf_setdlt (bpf_iflist env) (env_promisc env) dlt bif d))"
| "bpf_request env BIOCGETIF d =
     (case bd_bif d of None \<Rightarrow> Inr (Some EINVAL, Out_none, d) | Some bif \<Rightarrow> Inr (None, Out_name (bif_name bif), d))"
| "bpf_request env (BIOCSETIF name) d =
     map_sum (\<lambda>e. e) (\<lambda>(e, d'). (e, Out_none, d'))
       (bpf_setif (bpf_iflist env) (fst (env_bufs env)) (snd (env_bufs env)) (env_promisc env) name d)"
| "bpf_request env (BIOCSRTIMEOUT tv) d = (let (e, d') = bpf_set_rtimeout tv d in Inr (e, Out_none, d'))"
| "bpf_request env BIOCGRTIMEOUT d = Inr (None, Out_time (NSEC_TO_TIMEVAL (bd_rtout d)), d)"
| "bpf_request env BIOCGSTATS d = Inr (None, Out_stat (bd_rcount d) (bd_dcount d), d)"
| "bpf_request env (BIOCIMMEDIATE v) d = Inr (None, Out_none, bpf_set_wtout (if v \<noteq> 0 then 0 else INFSLP) d)"
| "bpf_request env (BIOCSWTIMEOUT tv) d = (let (e, d') = bpf_set_wtimeout tv d in Inr (e, Out_none, d'))"
| "bpf_request env BIOCGWTIMEOUT d =
     (case bpf_get_wtimeout d of Inl e \<Rightarrow> Inr (Some e, Out_none, d) | Inr tv \<Rightarrow> Inr (None, Out_time tv, d))"
| "bpf_request env BIOCDWTIMEOUT d = Inr (None, Out_none, bpf_set_wtout INFSLP d)"
| "bpf_request env BIOCVERSION d = Inr (None, Out_version 1 1, d)"
| "bpf_request env BIOCGHDRCMPLT d = Inr (None, Out_int (of_bool (bd_hdrcmplt d)), d)"
| "bpf_request env (BIOCSHDRCMPLT v) d = Inr (None, Out_none, d\<lparr>bd_hdrcmplt := v \<noteq> 0\<rparr>)"
| "bpf_request env BIOCLOCK d = Inr (None, Out_none, d\<lparr>bd_locked := True\<rparr>)"
| "bpf_request env BIOCGFILDROP d = Inr (None, Out_int (unat (bd_fildrop d)), d)"
| "bpf_request env (BIOCSFILDROP v) d = (let (e, d') = bpf_sfildrop v d in Inr (e, Out_none, d'))"
| "bpf_request env BIOCGDIRFILT d = Inr (None, Out_int (unat (bd_dirfilt d)), d)"
| "bpf_request env (BIOCSDIRFILT v) d = Inr (None, Out_none, bpf_sdirfilt v d)"
| "bpf_request env (FIOASYNC v) d = Inr (None, Out_none, d\<lparr>bd_async := v \<noteq> 0\<rparr>)"
| "bpf_request env FIOSETOWN d = Inr (env_setown env, Out_none, d)"
| "bpf_request env TIOCSPGRP d = Inr (env_setown env, Out_none, d)"
| "bpf_request env FIOGETOWN d = Inr (None, Out_owner, d)"
| "bpf_request env TIOCGPGRP d = Inr (None, Out_owner, d)"
| "bpf_request env (BIOCSRSIG n) d = (if n \<ge> NSIG then Inr (Some EINVAL, Out_none, d) else Inr (None, Out_none, d\<lparr>bd_sig := n\<rparr>))"
| "bpf_request env BIOCGRSIG d = Inr (None, Out_int (bd_sig d), d)"
| "bpf_request env IOC_OTHER d = Inr (Some EINVAL, Out_none, d)"

definition bpfioctl :: "bpf_env \<Rightarrow> bpf_cmd \<Rightarrow> bpf_d \<Rightarrow> bpf_res" where
  "bpfioctl env cmd d =
     (if bd_locked d \<and> \<not> bpf_lock_allows cmd then Inr (Some EPERM, Out_none, d)
      else map_sum (\<lambda>e. e) (\<lambda>(e, out, d'). (e, out, bpf_put d')) (bpf_request env cmd (bpf_get d)))"

section \<open>The reference of the request\<close>

lemma bpf_get_simps [simp]:
  "bd_sbuf (bpf_get d) = bd_sbuf d" "bd_hbuf (bpf_get d) = bd_hbuf d" "bd_fbuf (bpf_get d) = bd_fbuf d"
  "bd_in_uiomove (bpf_get d) = bd_in_uiomove d" "bd_bif (bpf_get d) = bd_bif d" "bd_promisc (bpf_get d) = bd_promisc d"
  "bd_bufsize (bpf_get d) = bd_bufsize d" "bd_slen (bpf_get d) = bd_slen d" "bd_hlen (bpf_get d) = bd_hlen d"
  "bd_rtout (bpf_get d) = bd_rtout d" "bd_wtout (bpf_get d) = bd_wtout d" "bd_rcount (bpf_get d) = bd_rcount d"
  "bd_dcount (bpf_get d) = bd_dcount d" "bd_hdrcmplt (bpf_get d) = bd_hdrcmplt d" "bd_fildrop (bpf_get d) = bd_fildrop d"
  "bd_dirfilt (bpf_get d) = bd_dirfilt d" "bd_sig (bpf_get d) = bd_sig d" "bd_tmo (bpf_get d) = bd_tmo d" "bd_locked (bpf_get d) = bd_locked d"
  by (simp_all add: bpf_get_def)

lemma bpf_put_get [simp]: "bpf_put (bpf_get d) = d"
  by (simp add: bpf_get_def bpf_put_def)

abbreviation with_ref :: "bpf_panic + bpf_d \<Rightarrow> bpf_panic + bpf_d" where
  "with_ref r \<equiv> map_sum (\<lambda>e. e) bpf_get r"

abbreviation with_ref2 :: "bpf_panic + errno option \<times> bpf_d \<Rightarrow> bpf_panic + errno option \<times> bpf_d" where
  "with_ref2 r \<equiv> map_sum (\<lambda>e. e) (\<lambda>(e, d). (e, bpf_get d)) r"

lemma bpf_resetd_get: "0 < bd_refcnt d \<Longrightarrow> bpf_resetd (bpf_get d) = with_ref (bpf_resetd d)"
  by (auto simp: bpf_resetd_def del_wait_tmo_def bpf_get_def bpf_put_def Let_def)

lemma bpf_detachd_get: "bpf_detachd prom (bpf_get d) = with_ref (bpf_detachd prom d)"
  by (auto simp: bpf_detachd_def bpf_detachd_begin_def bpf_detachd_end_def bpf_get_def bpf_put_def Let_def split: option.split)

lemma bpf_detachd_refcnt: "bpf_detachd prom d = Inr d' \<Longrightarrow> bd_refcnt d' = bd_refcnt d"
  by (auto simp: bpf_detachd_def bpf_detachd_begin_def bpf_detachd_end_def bpf_get_def bpf_put_def Let_def
      split: option.splits if_splits)

lemma bpf_attachd_get: "bpf_attachd bp (bpf_get d) = bpf_get (bpf_attachd bp d)" "bd_refcnt (bpf_attachd bp d) = bd_refcnt d"
  by (simp_all add: bpf_attachd_def bpf_get_def)

text \<open>Detaching, attaching and flushing, as \<^verbatim>\<open>bpf_setif\<close> and \<^verbatim>\<open>bpf_setdlt\<close> do.\<close>

lemma bpf_reset_attach_get:
  assumes "0 < bd_refcnt d"
  shows "(case bpf_detachd prom (bpf_get d) of Inl e \<Rightarrow> Inl e | Inr d1 \<Rightarrow> bpf_resetd (bpf_attachd bp d1)) =
    with_ref (case bpf_detachd prom d of Inl e \<Rightarrow> Inl e | Inr d1 \<Rightarrow> bpf_resetd (bpf_attachd bp d1))"
proof (cases "bpf_detachd prom d")
  case (Inr d1)
  with assms bpf_detachd_refcnt [OF Inr] show ?thesis
    by (simp add: bpf_detachd_get bpf_attachd_get bpf_resetd_get)
qed (simp add: bpf_detachd_get)

lemma bpf_setdlt_get:
  assumes "0 < bd_refcnt d"
  shows "bpf_setdlt ifl prom dlt bif (bpf_get d) = with_ref2 (bpf_setdlt ifl prom dlt bif d)"
proof -
  have eq: "bpf_setdlt ifl prom dlt bif d' =
      (if bif_dlt bif = dlt then Inr (None, d')
       else case find (\<lambda>bp. bif_name bp = bif_name bif \<and> bif_dlt bp = dlt) ifl of
         None \<Rightarrow> Inr (Some EINVAL, d')
       | Some bp \<Rightarrow> map_sum (\<lambda>e. e) (Pair None) (case bpf_detachd prom d' of Inl e \<Rightarrow> Inl e | Inr d1 \<Rightarrow> bpf_resetd (bpf_attachd bp d1)))" for d'
    by (simp add: bpf_setdlt_def split: option.split sum.split)
  show ?thesis
    unfolding eq bpf_reset_attach_get [OF assms] by (auto simp: sum.map_comp o_def split: option.split)
qed

lemma bpf_setf_get:
  assumes "0 < bd_refcnt d"
  shows "bpf_setf maxbuf ok insns flen cmd (bpf_get d) = with_ref2 (bpf_setf maxbuf ok insns flen cmd d)"
proof -
  have f: "(bpf_get d)\<lparr>bd_rfilter := p\<rparr> = bpf_get (d\<lparr>bd_rfilter := p\<rparr>)" "(bpf_get d)\<lparr>bd_wfilter := p\<rparr> = bpf_get (d\<lparr>bd_wfilter := p\<rparr>)" for p
    by (simp_all add: bpf_get_def)
  have r: "bpf_resetd (bpf_get (d\<lparr>bd_rfilter := p\<rparr>)) = with_ref (bpf_resetd (d\<lparr>bd_rfilter := p\<rparr>))" for p
    using assms by (simp add: bpf_resetd_get)
  show ?thesis
    unfolding bpf_setf_def Let_def f by (auto simp: r split: option.split sum.split)
qed

lemma bpf_allocbufs_get: "bpf_allocbufs fb sb (bpf_get d) = map_prod (\<lambda>e. e) bpf_get (bpf_allocbufs fb sb d)"
  "bd_refcnt (snd (bpf_allocbufs fb sb d)) = bd_refcnt d"
  by (auto simp: bpf_allocbufs_def bpf_get_def split: option.split)

lemma bpf_setif_get:
  assumes "0 < bd_refcnt d"
  shows "bpf_setif ifl fb sb prom name (bpf_get d) = with_ref2 (bpf_setif ifl fb sb prom name d)"
proof (cases "find (\<lambda>bp. bif_name bp = name) ifl")
  case (Some bp)
  define q where "q = (if bd_sbuf d = None then bpf_allocbufs fb sb d else (None, d))"
  have q: "(if bd_sbuf (bpf_get d) = None then bpf_allocbufs fb sb (bpf_get d) else (None, bpf_get d)) = (fst q, bpf_get (snd q))"
    "0 < bd_refcnt (snd q)"
    using assms by (auto simp: q_def bpf_allocbufs_get map_prod_def case_prod_beta)
  define body where "body d1 = (case (if Some bp \<noteq> bd_bif d1 then map_sum (\<lambda>e. e) (bpf_attachd bp) (bpf_detachd prom d1) else Inr d1) of
        Inl e \<Rightarrow> Inl e | Inr d2 \<Rightarrow> (case bpf_resetd d2 of Inl e \<Rightarrow> Inl e | Inr d3 \<Rightarrow> Inr (None :: errno option, d3)))" for d1
  have eq: "bpf_setif ifl fb sb prom name d' = (case (if bd_sbuf d' = None then bpf_allocbufs fb sb d' else (None, d')) of
      (Some e, d1) \<Rightarrow> Inr (Some e, d1) | (None, d1) \<Rightarrow> body d1)" for d'
    by (auto simp: bpf_setif_def Some body_def Let_def split: prod.split option.split)
  have "body (bpf_get d1) = with_ref2 (body d1)" if "0 < bd_refcnt d1" for d1
  proof (cases "bpf_detachd prom d1")
    case (Inl e)
    then show ?thesis using that by (simp add: body_def bpf_detachd_get bpf_resetd_get split: sum.split)
  next
    case (Inr d2)
    then show ?thesis
      using that bpf_detachd_refcnt [OF Inr] by (simp add: body_def bpf_detachd_get bpf_attachd_get bpf_resetd_get split: sum.split)
  qed
  with q show ?thesis unfolding eq by (cases q; cases "fst q") (auto simp: q_def)
qed (simp add: bpf_setif_def)

lemma bpf_request_get:
  assumes "0 < bd_refcnt d"
  shows "bpf_request env cmd (bpf_get d) = map_sum (\<lambda>e. e) (\<lambda>(e, out, d'). (e, out, bpf_get d')) (bpf_request env cmd d)"
proof -
  have upd: "bpf_sblen m n (bpf_get d) = (let (e, n', d') = bpf_sblen m n d in (e, n', bpf_get d'))"
    "bpf_promisc prom (bpf_get d) = (let (e, d') = bpf_promisc prom d in (e, bpf_get d'))"
    "bpf_set_rtimeout tv (bpf_get d) = (let (e, d') = bpf_set_rtimeout tv d in (e, bpf_get d'))"
    "bpf_set_wtimeout tv (bpf_get d) = (let (e, d') = bpf_set_wtimeout tv d in (e, bpf_get d'))"
    "bpf_sfildrop v (bpf_get d) = (let (e, d') = bpf_sfildrop v d in (e, bpf_get d'))"
    "bpf_set_wtout w (bpf_get d) = bpf_get (bpf_set_wtout w d)" "bpf_sdirfilt v (bpf_get d) = bpf_get (bpf_sdirfilt v d)"
    "bpf_fionread (bpf_get d) = bpf_fionread d" "bpf_get_wtimeout (bpf_get d) = bpf_get_wtimeout d"
    "(bpf_get d)\<lparr>bd_hdrcmplt := h\<rparr> = bpf_get (d\<lparr>bd_hdrcmplt := h\<rparr>)" "(bpf_get d)\<lparr>bd_locked := True\<rparr> = bpf_get (d\<lparr>bd_locked := True\<rparr>)"
    "(bpf_get d)\<lparr>bd_async := a\<rparr> = bpf_get (d\<lparr>bd_async := a\<rparr>)" "(bpf_get d)\<lparr>bd_sig := s\<rparr> = bpf_get (d\<lparr>bd_sig := s\<rparr>)" for m n prom tv v w h a s
    by (auto simp: bpf_sblen_def bpf_promisc_def bpf_set_rtimeout_def bpf_set_wtimeout_def bpf_sfildrop_def bpf_set_wtout_def
        bpf_sdirfilt_def bpf_fionread_def bpf_get_wtimeout_def bpf_get_def Let_def split: option.split)
  show ?thesis
    by (cases cmd)
      (simp_all add: upd bpf_setf_get [OF assms] bpf_setif_get [OF assms] bpf_setdlt_get [OF assms] bpf_resetd_get [OF assms]
        sum.map_comp o_def Let_def case_prod_beta split: option.split sum.split)
qed

lemma bpfioctl_eq:
  "0 < bd_refcnt d \<Longrightarrow> bpfioctl env cmd d =
    (if bd_locked d \<and> \<not> bpf_lock_allows cmd then Inr (Some EPERM, Out_none, d) else bpf_request env cmd d)"
  by (auto simp: bpfioctl_def bpf_request_get sum.map_comp o_def case_prod_beta sum.map_ident)

section \<open>Requests keep the invariant\<close>

definition env_ok :: "bpf_env \<Rightarrow> bool" where
  "env_ok env \<longleftrightarrow> BPF_MINBUFSIZE \<le> bpf_maxbufsize env \<and> bpf_maxbufsize env < 2 ^ 31 \<and>
     (\<forall>b \<in> set (bpf_iflist env). \<exists>n i t k. b = bpfxattach n i t k) \<and>
     (\<forall>f s. env_bufs env = (Some f, Some s) \<longrightarrow> f \<noteq> s)"

text \<open>\<^verbatim>\<open>copyin\<close> copies as many instructions as asked for.\<close>

fun cmd_ok :: "bpf_cmd \<Rightarrow> bool" where
  "cmd_ok (BIOCSETFILTER c (Some copyin) flen) = (\<forall>n l. copyin n = Some l \<longrightarrow> length l = n)"
| "cmd_ok _ = True"

lemma bpf_reattach_inv:
  assumes "bpf_d_inv c d" and "bd_sbuf d \<noteq> None" and "\<exists>n i t k. bp = bpfxattach n i t k"
  shows "bpf_d_inv c (d\<lparr>bd_bif := Some bp, bd_promisc := False\<rparr>)"
proof -
  have "SIZEOF_BPF_HDR \<le> bif_hdrlen bp \<and> bif_hdrlen bp < BPF_MINBUFSIZE" using assms(3) bpfxattach_hdrlen by blast
  with assms(1,2) show ?thesis by (auto simp: bpf_inv_parts)
qed

lemma bpf_detachd_panic:
  assumes "bpf_d_inv c d" and "bpf_detachd prom d = Inl e"
  shows "e = Panic_ifpromisc"
  using assms bpf_d_inv_promisc [OF assms(1)]
  by (auto simp: bpf_detachd_def bpf_detachd_begin_def bpf_detachd_end_def Let_def split: option.splits if_splits)

lemma bpf_resetd_cases:
  assumes "bpf_d_inv c d"
  shows "case bpf_resetd d of Inl e \<Rightarrow> e = Kassert_uiomove \<and> c \<noteq> None | Inr d' \<Rightarrow> bpf_d_inv c d'"
  using assms resetd_ok [of d] resetd_copying [of _ d] by (cases c) auto

lemma bpf_setdlt_inv:
  assumes inv: "bpf_d_inv c d" and bif: "bd_bif d = Some bif" and ifl: "\<forall>b \<in> set ifl. \<exists>n i t k. b = bpfxattach n i t k"
  shows "case bpf_setdlt ifl prom dlt bif d of
      Inl e \<Rightarrow> e = Kassert_uiomove \<and> c \<noteq> None \<or> e = Panic_ifpromisc | Inr (err, d') \<Rightarrow> bpf_d_inv c d'"
proof (cases "find (\<lambda>bp. bif_name bp = bif_name bif \<and> bif_dlt bp = dlt) ifl")
  case None
  then show ?thesis using inv by (simp add: bpf_setdlt_def)
next
  case (Some bp)
  then have bp: "\<exists>n i t k. bp = bpfxattach n i t k" using ifl by (auto simp: find_Some_iff)
  show ?thesis
  proof (cases "bpf_detachd prom d")
    case (Inl e)
    then show ?thesis using inv Some bpf_detachd_panic [OF inv Inl] by (simp add: bpf_setdlt_def)
  next
    case (Inr d1)
    have att: "bpf_attachd bp d1 = d\<lparr>bd_bif := Some bp, bd_promisc := False\<rparr>" by (rule bpf_reattach_eq [OF Inr]) (simp add: bif)
    have "bd_sbuf d \<noteq> None" by (rule bpf_sbuf_attached [OF inv]) (simp add: bif)
    from bpf_resetd_cases [OF bpf_reattach_inv [OF inv this bp]] show ?thesis
      using inv Some Inr att by (auto simp: bpf_setdlt_def split: sum.splits)
  qed
qed

lemma bpf_setif_panic:
  assumes inv: "bpf_d_inv c d" and ifl: "\<forall>b \<in> set ifl. \<exists>n i t k. b = bpfxattach n i t k"
    and res: "bpf_setif ifl fb sb prom name d = Inl e"
  shows "e = Kassert_uiomove \<and> c \<noteq> None \<or> e = Panic_ifpromisc"
proof -
  obtain d1 where al: "(if bd_sbuf d = None then bpf_allocbufs fb sb d else (None, d)) = (None, d1)"
    using res by (cases "if bd_sbuf d = None then bpf_allocbufs fb sb d else (None, d)") (auto simp: bpf_setif_def split: option.splits)
  have same: "bd_in_uiomove d1 = bd_in_uiomove d" "bd_bif d1 = bd_bif d" "bd_promisc d1 = bd_promisc d"
    using al by (auto simp: bpf_allocbufs_def split: if_splits option.splits)
  have det: "x = Panic_ifpromisc" if "bpf_detachd prom d1 = Inl x" for x
    using that bpf_d_inv_promisc [OF inv] same
    by (auto simp: bpf_detachd_def bpf_detachd_begin_def bpf_detachd_end_def Let_def split: option.splits if_splits)
  have uio: "bd_in_uiomove v = bd_in_uiomove d1" if "bpf_detachd prom d1 = Inr v" for v
    using that by (auto simp: bpf_detachd_def bpf_detachd_begin_def bpf_detachd_end_def bpf_get_def bpf_put_def Let_def
        split: option.splits if_splits)
  have c: "bd_in_uiomove d \<longleftrightarrow> c \<noteq> None" using inv by (simp add: bpf_d_inv_def)
  have reset: "x = Kassert_uiomove \<and> c \<noteq> None" if "bpf_resetd v = Inl x" "bd_in_uiomove v = bd_in_uiomove d" for x v
    using that c by (auto simp: bpf_resetd_def Let_def split: if_splits)
  obtain bp where find: "find (\<lambda>bp. bif_name bp = name) ifl = Some bp" using res by (auto simp: bpf_setif_def split: option.splits)
  note eq = res [unfolded bpf_setif_def find option.case al Let_def prod.case]
  show ?thesis
  proof (cases "Some bp = bd_bif d1")
    case True
    then show ?thesis using eq reset [of d1 e] same by (auto split: sum.splits)
  next
    case False
    then show ?thesis
      using eq det uio reset [of "bpf_attachd bp _" e] same
      by (cases "bpf_detachd prom d1") (auto simp: bpf_attachd_def split: sum.splits)
  qed
qed

lemma bpf_setf_panic:
  assumes "bpf_d_inv c d" and "bpf_setf maxbuf ok insns flen cmd d = Inl e"
  shows "e = Kassert_uiomove \<and> c \<noteq> None"
proof -
  have "bd_in_uiomove d \<longleftrightarrow> c \<noteq> None" using assms(1) by (simp add: bpf_d_inv_def)
  with assms(2) show ?thesis by (auto simp: bpf_setf_def bpf_resetd_def Let_def split: option.splits if_splits)
qed

lemma bpf_request_ok:
  assumes inv: "bpf_d_inv c d" and env: "env_ok env" and cmd: "cmd_ok cmd"
  shows "case bpf_request env cmd d of
      Inl e \<Rightarrow> e = Kassert_uiomove \<and> c \<noteq> None \<or> e = Panic_ifpromisc
    | Inr (err, out, d') \<Rightarrow> bpf_d_inv c d'"
proof -
  have same: "bpf_d_inv c d'" if "bpf_core d' = bpf_core d" "bd_refcnt d' = bd_refcnt d" "bd_tmo d' = bd_tmo d" "bd_task d' = bd_task d" for d'
    using bpf_d_inv_core [OF that(1) inv] bpf_d_inv_refs [OF inv] that by (simp add: refs_inv_def)
  note ifl = env [unfolded env_ok_def, THEN conjunct2, THEN conjunct2, THEN conjunct1]
  show ?thesis
  proof (cases cmd)
    case (BIOCSBLEN n)
    then show ?thesis
      using bpf_sblen_inv [OF inv, of "bpf_maxbufsize env" n] env by (auto simp: env_ok_def split: prod.splits)
  next
    case (BIOCSETFILTER sc insns flen)
    have "\<And>g n l. insns = Some g \<Longrightarrow> g n = Some l \<Longrightarrow> length l = n" using cmd BIOCSETFILTER by (cases insns) auto
    note ok = bpf_setf_inv [OF inv this]
    show ?thesis
    proof (cases "bpf_setf (of_nat (bpf_maxbufsize env)) (env_malloc env) insns flen sc d")
      case (Inl e)
      then show ?thesis using BIOCSETFILTER bpf_setf_panic [OF inv Inl] by simp
    next
      case (Inr q)
      then show ?thesis using BIOCSETFILTER ok by (cases q) simp
    qed
  next
    case BIOCFLUSH
    then show ?thesis using bpf_resetd_cases [OF inv] by (auto split: sum.splits)
  next
    case BIOCPROMISC
    then show ?thesis using bpf_promisc_inv [OF inv, of "env_promisc env"] by (auto split: prod.splits)
  next
    case (BIOCSDLT dlt)
    then show ?thesis
      using inv bpf_setdlt_inv [OF inv _ ifl, of _ "env_promisc env" dlt] by (cases "bd_bif d") (auto split: sum.splits)
  next
    case (BIOCSETIF name)
    have bufs: "\<And>f s. fst (env_bufs env) = Some f \<Longrightarrow> snd (env_bufs env) = Some s \<Longrightarrow> f \<noteq> s"
      using env by (cases "env_bufs env") (auto simp: env_ok_def)
    show ?thesis
    proof (cases "bpf_setif (bpf_iflist env) (fst (env_bufs env)) (snd (env_bufs env)) (env_promisc env) name d")
      case (Inl e)
      then show ?thesis using BIOCSETIF bpf_setif_panic [OF inv ifl Inl] by simp
    next
      case (Inr q)
      then have res: "bpf_setif (bpf_iflist env) (fst (env_bufs env)) (snd (env_bufs env)) (env_promisc env) name d = Inr (fst q, snd q)"
        by simp
      have "bpf_d_inv c (snd q)"
        by (rule bpf_setif_inv [OF inv _ _ res]) (use ifl bufs in auto)
      then show ?thesis using BIOCSETIF Inr by (cases q) simp
    qed
  qed (use inv same in \<open>auto simp: bpf_set_rtimeout_def bpf_set_wtimeout_def bpf_set_wtout_def bpf_get_wtimeout_def bpf_sfildrop_def
      bpf_sdirfilt_def bpf_core_def Let_def split: option.splits prod.splits sum.splits\<close>)
qed

section \<open>Properties of the requests\<close>

text \<open>The wait timeout is stored and read back in full, at the resolution of \<^verbatim>\<open>struct timeval\<close>.\<close>

lemma TIMEVAL_TO_NSEC_exact:
  assumes "0 \<le> tv_sec tv" and "timerisvalid tv" and "tv_sec tv \<le> 300"
  shows "TIMEVAL_TO_NSEC tv = tv_sec tv * 1000000000 + tv_usec tv * 1000"
  using assms by (simp add: TIMEVAL_TO_NSEC_def timerisvalid_def UINT64_MAX_def Let_def)

lemma bpf_wtimeout_roundtrip:
  assumes "0 \<le> tv_sec tv" and "timerisvalid tv" and "tv_sec tv < 300"
  shows "\<exists>d'. bpf_set_wtimeout tv d = (None, d') \<and> bpf_get_wtimeout d' = Inr tv"
proof -
  define ns where "ns = tv_sec tv * 1000000000 + tv_usec tv * 1000"
  have us: "0 \<le> tv_usec tv" "tv_usec tv < 1000000" using assms(2) by (simp_all add: timerisvalid_def)
  have eq: "TIMEVAL_TO_NSEC tv = ns" unfolding ns_def using assms by (intro TIMEVAL_TO_NSEC_exact) auto
  have rng: "0 \<le> ns" "ns < 300000000000" unfolding ns_def using us assms by linarith+
  then have w: "uint (word_of_int ns :: u64) = ns" by (simp add: uint_word_of_int)
  have "uint (INFSLP :: u64) = 2 ^ 64 - 1" by (simp add: INFSLP_def unsigned_minus_1_eq_mask mask_eq_exp_minus_1)
  then have "(word_of_int ns :: u64) \<noteq> INFSLP" using w rng by auto
  moreover have "ns div 1000000000 = tv_sec tv" "ns mod 1000000000 div 1000 = tv_usec tv"
    unfolding ns_def using us by auto
  ultimately show ?thesis
    using assms rng by (simp add: bpf_set_wtimeout_def bpf_get_wtimeout_def bpf_set_wtout_def NSEC_TO_TIMEVAL_def w eq
        SEC_TO_NSEC_def UINT64_MAX_def MAXTSLP_def)
qed


definition env0 :: bpf_env where
  "env0 = \<lparr>bpf_maxbufsize = 2097152, bpf_iflist = [em0, bpfxattach ''em1'' (Some 2) 1 14], env_bufs = (Some 0, Some 1),
     env_promisc = None, env_malloc = True, env_dltfault = (\<lambda>_. False), env_setown = None\<rparr>"

lemma env0_ok: "env_ok env0"
  by (auto simp: env_ok_def env0_def BPF_MINBUFSIZE_def em0_def)


text \<open>What \<^verbatim>\<open>BIOCLOCK\<close> is to protect.\<close>

definition bpf_settings :: "bpf_d \<Rightarrow> _" where
  "bpf_settings d =
     ((bd_rfilter d, bd_wfilter d), (bd_bif d, bd_promisc d, bd_bufsize d),
      (bd_hdrcmplt d, bd_fildrop d, bd_dirfilt d), (bd_async d, bd_sig d), bd_locked d)"

fun bpf_ioctls :: "(bpf_env \<times> bpf_cmd) list \<Rightarrow> bpf_d \<Rightarrow> bpf_panic + bpf_d" where
  "bpf_ioctls [] d = Inr d"
| "bpf_ioctls ((env, cmd) # cs) d =
     (case bpfioctl env cmd d of Inl e \<Rightarrow> Inl e | Inr (err, out, d') \<Rightarrow> bpf_ioctls cs d')"

lemma bpf_settings_get [simp]: "bpf_settings (bpf_get d) = bpf_settings d" "bpf_settings (bpf_put d) = bpf_settings d"
  by (simp_all add: bpf_settings_def bpf_get_def bpf_put_def)

lemma bpf_resetd_settings: "bpf_resetd d = Inr d' \<Longrightarrow> bpf_settings d' = bpf_settings d"
  by (auto simp: bpf_resetd_def del_wait_tmo_def bpf_put_def bpf_settings_def Let_def split: if_splits)

lemma bpf_request_settings:
  assumes "bpf_lock_allows cmd" and "bd_locked d" and "bpf_request env cmd d = Inr (err, out, d')"
  shows "bpf_settings d' = bpf_settings d"
proof (cases "cmd = BIOCFLUSH")
  case True
  then show ?thesis using assms(3) bpf_resetd_settings by (cases "bpf_resetd d") auto
next
  case False
  with assms show ?thesis
    by (cases cmd) (auto simp: bpf_set_rtimeout_def bpf_set_wtimeout_def bpf_set_wtout_def bpf_settings_def Let_def
        split: option.splits sum.splits prod.splits if_splits)
qed

lemma bpfioctl_settings:
  assumes "bd_locked d" and "bpfioctl env cmd d = Inr (err, out, d')"
  shows "bpf_settings d' = bpf_settings d"
proof (cases "bpf_lock_allows cmd")
  case True
  with assms obtain d1 where "bpf_request env cmd (bpf_get d) = Inr (err, out, d1)" "d' = bpf_put d1"
    by (cases "bpf_request env cmd (bpf_get d)") (auto simp: bpfioctl_def)
  with bpf_request_settings [OF True _ this(1)] assms(1) show ?thesis by simp
qed (use assms in \<open>simp add: bpfioctl_def\<close>)

text \<open>C26: After \<^verbatim>\<open>BIOCLOCK\<close> no sequence of requests changes the filters, the interface, promiscuous mode, the buffer size, the
  header, drop and direction settings, the signal settings or the lock itself.\<close>

theorem bpf_locked_frozen:
  assumes "bd_locked d" and "bpf_ioctls cs d = Inr d'"
  shows "bpf_settings d' = bpf_settings d"
  using assms
proof (induction cs arbitrary: d)
  case (Cons c cs)
  obtain env cmd where c: "c = (env, cmd)" by (cases c)
  with Cons.prems(2) obtain err out d1 where d1: "bpfioctl env cmd d = Inr (err, out, d1)" "bpf_ioctls cs d1 = Inr d'"
    by (auto split: sum.splits)
  have "bpf_settings d1 = bpf_settings d" by (rule bpfioctl_settings [OF Cons.prems(1) d1(1)])
  moreover from this have "bd_locked d1" using Cons.prems(1) by (simp add: bpf_settings_def)
  ultimately show ?case using Cons.IH [OF _ d1(2)] by simp
qed simp

theorem bpf_locked_frozen_witness:
  "\<exists>d'. bpf_ioctls [(env0, BIOCSETFILTER BIOCSETF None 0), (env0, BIOCFLUSH), (env0, BIOCIMMEDIATE 1)] (d_one\<lparr>bd_locked := True\<rparr>) = Inr d' \<and>
    bd_wtout d' = 0 \<and> bpf_settings d' = bpf_settings (d_one\<lparr>bd_locked := True\<rparr>)"
proof -
  let ?run = "bpf_ioctls [(env0, BIOCSETFILTER BIOCSETF None 0), (env0, BIOCFLUSH), (env0, BIOCIMMEDIATE 1)] (d_one\<lparr>bd_locked := True\<rparr>)"
  have "case ?run of Inl e \<Rightarrow> False | Inr d' \<Rightarrow> bd_wtout d' = 0"
    by (simp add: bpfioctl_def d_one_def d_attached_def bpfopen_def bpf_resetd_def del_wait_tmo_def bpf_get_def bpf_put_def bpf_set_wtout_def)
  then obtain d' where "?run = Inr d'" "bd_wtout d' = 0" by (cases ?run) auto
  with bpf_locked_frozen [OF _ this(1)] show ?thesis by simp
qed

text \<open>C37: \<^verbatim>\<open>bpf_detachd\<close> clears \<^verbatim>\<open>bd_bif\<close> and then releases the mutex (and sleeps for the network lock) to leave promiscuous mode.
  A \<^verbatim>\<open>BIOCSBLEN\<close> from another thread in that window is accepted, because the descriptor looks unattached, and changes
  \<^verbatim>\<open>bd_bufsize\<close> although the buffers exist: once \<^verbatim>\<open>BIOCSETIF\<close> has attached the descriptor again, a captured packet is
  written beyond the end of the store buffer.\<close>

theorem bpf_setif_race:
  "\<exists>d d1 d2 d3 d4 d5. bpf_reach (d, None) \<and> bpf_detachd_begin d = Inr (True, d1) \<and>
     bpfioctl env0 (BIOCSBLEN 4096) d1 = Inr (None, Out_int 4096, d2) \<and> bpf_detachd_end None d2 = Inr d3 \<and>
     bpf_resetd (bpf_attachd (bpfxattach ''em1'' (Some 2) 1 14) d3) = Inr d4 \<and>
     bpf_catchpacket d4 [replicate 1000 0] 1000 1000 hdr0 = Inr d5 \<and> bd_slen d5 > bd_alloc d5"
proof -
  let ?d = "d_attached\<lparr>bd_promisc := True\<rparr>" and ?em1 = "bpfxattach ''em1'' (Some 2) 1 14"
  have em0: "bif_ifp em0 = Some 1" by (simp add: em0_def bpfxattach_def)
  have "snd (bpf_promisc None d_attached) = ?d" by (simp add: bpf_promisc_def d_attached_def bpfopen_def em0)
  then have reach: "bpf_reach (?d, None)" by (metis reach_step bpf_reach_attached step_promisc)
  let ?d1 = "d_attached\<lparr>bd_bif := None, bd_refcnt := 2\<rparr>"
  let ?d3 = "d_attached\<lparr>bd_bif := None, bd_bufsize := 4096\<rparr>"
  let ?d4 = "d_attached\<lparr>bd_bif := Some ?em1, bd_bufsize := 4096\<rparr>"
  have s1: "bpf_detachd_begin ?d = Inr (True, ?d1)"
    by (simp add: bpf_detachd_begin_def d_attached_def bpfopen_def bpf_get_def em0)
  have s2: "bpfioctl env0 (BIOCSBLEN 4096) ?d1 = Inr (None, Out_int 4096, ?d1\<lparr>bd_bufsize := 4096\<rparr>)"
    by (simp add: bpfioctl_def bpf_sblen_def env0_def BPF_MINBUFSIZE_def bpf_get_def bpf_put_def d_attached_def bpfopen_def)
  have s3: "bpf_detachd_end None (?d1\<lparr>bd_bufsize := 4096\<rparr>) = Inr ?d3"
    by (simp add: bpf_detachd_end_def bpf_put_def d_attached_def bpfopen_def)
  have s4: "bpf_resetd (bpf_attachd ?em1 ?d3) = Inr ?d4"
    by (simp add: bpf_resetd_def bpf_attachd_def del_wait_tmo_def d_attached_def bpfopen_def)
  have "case bpf_catchpacket ?d4 [replicate 1000 0] 1000 1000 hdr0 of Inl e \<Rightarrow> False | Inr d5 \<Rightarrow> bd_slen d5 > bd_alloc d5"
    by (simp add: bpf_catchpacket_def bpf_append_def d_attached_def bpfopen_def bpfxattach_def bpfsattach_def BPF_WORDALIGN_def
        SIZEOF_BPF_HDR_def bpf_wait_switch_def INFSLP_def Let_def)
  then obtain d5 where "bpf_catchpacket ?d4 [replicate 1000 0] 1000 1000 hdr0 = Inr d5" "bd_slen d5 > bd_alloc d5"
    by (cases "bpf_catchpacket ?d4 [replicate 1000 0] 1000 1000 hdr0") auto
  with reach s1 s2 s3 s4 show ?thesis by blast
qed

section \<open>Closing\<close>

definition bpfclose :: "errno option \<Rightarrow> bpf_d \<Rightarrow> bpf_panic + bpf_d" where
  "bpfclose prom d = map_sum (\<lambda>e. e) (\<lambda>d1. bpf_put (bpf_wakeup d1)) (bpf_detachd prom d)"

text \<open>A closed descriptor is detached, and only callbacks that are still pending keep it allocated.\<close>

lemma bpfclose_refs:
  assumes inv: "bpf_d_inv copy d" and close: "bpfclose prom d = Inr d'"
  shows "bd_bif d' = None \<and> \<not> bd_promisc d' \<and> bd_refcnt d' = of_bool (bd_tmo d') + of_bool (bd_task d')"
proof -
  obtain d1 where d1: "bpf_detachd prom d = Inr d1" "d' = bpf_put (bpf_wakeup d1)"
    using close by (cases "bpf_detachd prom d") (auto simp: bpfclose_def)
  have "refs_inv d" "bd_bif d = None \<longrightarrow> \<not> bd_promisc d" using inv by (auto simp: bpf_d_inv_def lens_inv_def)
  then have "bd_bif d1 = None \<and> \<not> bd_promisc d1 \<and> refs_inv d1"
    using d1(1) by (auto simp: bpf_detachd_def bpf_detachd_begin_def bpf_detachd_end_def bpf_get_def bpf_put_def refs_inv_def Let_def
        split: option.splits if_splits)
  then show ?thesis using d1(2) by (auto simp: bpf_wakeup_def bpf_get_def bpf_put_def refs_inv_def Let_def)
qed

lemma bpfclose_outcome:
  assumes "bpf_d_inv copy d"
  shows "(\<exists>d'. bpfclose prom d = Inr d') \<or> bpfclose prom d = Inl Panic_ifpromisc \<and> bd_promisc d"
  using assms by (auto simp: bpfclose_def bpf_detachd_def bpf_detachd_begin_def bpf_detachd_end_def bpf_d_inv_def lens_inv_def Let_def
      split: option.splits)

end
