(* ===== verification/Fd_Map.thy ===== *)
theory Fd_Map
  imports Kern_Prelude
begin

text \<open>
  The two-level bitmap of a file descriptor table (\<^verbatim>\<open>sys/filedesc.h\<close> and \<^verbatim>\<open>kern/kern_descrip.c\<close>): one bit of
  \<^verbatim>\<open>fd_lomap\<close> per descriptor, one bit of \<^verbatim>\<open>fd_himap\<close> per full word of \<^verbatim>\<open>fd_lomap\<close>; the search for a free descriptor
  (\<^verbatim>\<open>find_next_zero\<close>, \<^verbatim>\<open>fdalloc\<close>), marking (\<^verbatim>\<open>fd_used\<close>, \<^verbatim>\<open>fd_unused\<close>, \<^verbatim>\<open>find_last_set\<close>) and growth (\<^verbatim>\<open>fdexpand\<close>), with the
  \<^verbatim>\<open>ffs\<close> of \<^verbatim>\<open>lib/libkern\<close>.

  \<^item> Descriptors, indices and counts the code keeps nonnegative are \<open>nat\<close>; a map word is a \<open>u32\<close>.
  \<^item> A pointer to an open file is the number of the file, \<open>None\<close> for NULL.
  \<^item> An access outside an array is the left value \<open>Fd_oob\<close>; panics and failed assertions are left values too.
  \<^item> \<open>fd_adv\<close> is the only flag of \<^verbatim>\<open>fd_flags\<close>, \<^verbatim>\<open>FD_ADVLOCK\<close>.
\<close>

section \<open>Sizes\<close>

definition NDFILE :: nat where [kern_defs]: "NDFILE = 20"
definition NDEXTENT :: nat where [kern_defs]: "NDEXTENT = 50"
definition NDENTRIES :: nat where [kern_defs]: "NDENTRIES = 32"

definition NDREDUCE :: "nat \<Rightarrow> nat" where [kern_defs]: "NDREDUCE x = (x + NDENTRIES - 1) div 32"
definition NDHISLOTS :: "nat \<Rightarrow> nat" where [kern_defs]: "NDHISLOTS x = NDREDUCE (NDREDUCE x)"
definition NDLOSLOTS :: "nat \<Rightarrow> nat" where [kern_defs]: "NDLOSLOTS x = NDHISLOTS x * 32"

datatype fd_panic =
    Fd_oob | Fd_freed | Panic_lastfile | Panic_dup2 | Kassert_count | Kassert_inserted | Kassert_empty | Kassert_mode | Kassert_nfiles

record filedesc =
  fd_ofiles :: "nat option list"
  fd_ofileflags :: "u8 list"
  fd_nfiles :: nat
  fd_openfd :: int
  fd_himap :: "u32 list"
  fd_lomap :: "u32 list"
  fd_lastfile :: nat
  fd_freefile :: nat
  fd_refcnt :: nat
  fd_adv :: bool

section \<open>Operations\<close>

definition ffs_table :: "int list" where
  "ffs_table = [-28, 1, 2, 1, 3, 1, 2, 1, 4, 1, 2, 1, 3, 1, 2, 1]"

definition ffs :: "u32 \<Rightarrow> int" where
  "ffs r =
     (let (bit, r) = (if r AND 0xffff = 0 then (16, drop_bit 16 r) else (0, r));
          (bit, r) = (if r AND 0xff = 0 then (bit + 8, drop_bit 8 r) else (bit, r));
          (bit, r) = (if r AND 0xf = 0 then (bit + 4, drop_bit 4 r) else (bit, r))
      in bit + ffs_table ! unat (r AND 0xf))"

text \<open>The loop of \<^verbatim>\<open>find_next_zero\<close>; the result is the position of the first word that is not full.\<close>

function find_zero_loop :: "u32 list \<Rightarrow> nat \<Rightarrow> nat \<Rightarrow> fd_panic + nat option" where
  "find_zero_loop bitmap off maxoff =
     (if off < maxoff then
        (if off \<ge> length bitmap then Inl Fd_oob
         else if bitmap ! off \<noteq> - 1 then Inr (Some off)
         else find_zero_loop bitmap (off + 1) maxoff)
      else Inr None)"
  by pat_completeness auto
termination by (relation "measure (\<lambda>(bitmap, off, maxoff). maxoff - off)") auto

declare find_zero_loop.simps [simp del]

text \<open>The label \<^verbatim>\<open>found\<close>.\<close>

definition zero_found :: "nat \<Rightarrow> u32 \<Rightarrow> nat" where
  "zero_found off sub = off * 32 + nat (ffs (NOT sub) - 1)"

definition find_zero_words :: "u32 list \<Rightarrow> nat \<Rightarrow> nat \<Rightarrow> fd_panic + nat option" where
  "find_zero_words bitmap off bits =
     map_sum (\<lambda>e. e) (map_option (\<lambda>off. zero_found off (bitmap ! off))) (find_zero_loop bitmap off (NDLOSLOTS bits))"

definition find_next_zero :: "u32 list \<Rightarrow> nat \<Rightarrow> nat \<Rightarrow> fd_panic + nat option" where
  "find_next_zero bitmap want bits =
     (if want > bits then Inr None
      else
        (let off = want div 32; i = want mod 32 in
         if i \<noteq> 0 then
           (if off \<ge> length bitmap then Inl Fd_oob
            else
              (let sub = bitmap ! off OR drop_bit (NDENTRIES - i) (- 1) in
               if sub \<noteq> - 1 then Inr (Some (zero_found off sub))
               else find_zero_words bitmap (off + 1) bits))
         else find_zero_words bitmap off bits))"

definition fd_inuse :: "filedesc \<Rightarrow> nat \<Rightarrow> fd_panic + bool" where
  "fd_inuse fdp fd =
     (if fd div 32 \<ge> length (fd_lomap fdp) then Inl Fd_oob
      else Inr (fd_lomap fdp ! (fd div 32) AND push_bit (fd mod 32) 1 \<noteq> 0))"

text \<open>The two loops of \<^verbatim>\<open>find_last_set\<close>: \<open>n\<close> is \<^verbatim>\<open>off + 1\<close> in the first.\<close>

fun last_word :: "u32 list \<Rightarrow> nat \<Rightarrow> nat" where
  "last_word bitmap 0 = 0"
| "last_word bitmap (Suc off) = (if bitmap ! off = 0 then last_word bitmap off else Suc off)"

fun last_inuse :: "filedesc \<Rightarrow> nat \<Rightarrow> nat" where
  "last_inuse fdp 0 = 0"
| "last_inuse fdp (Suc i) = (if fd_inuse fdp (Suc i) \<noteq> Inr True then last_inuse fdp i else Suc i)"

definition find_last_set :: "filedesc \<Rightarrow> nat \<Rightarrow> fd_panic + nat" where
  "find_last_set fdp lst =
     (if lst > 0 \<and> (lst - 1) div 32 \<ge> length (fd_lomap fdp) then Inl Fd_oob
      else
        (let n = last_word (fd_lomap fdp) (if lst = 0 then 0 else (lst - 1) div 32 + 1) in
         if n = 0 then Inr 0 else Inr (last_inuse fdp (min (n * 32 - 1) (lst - 1)))))"

definition fd_used :: "filedesc \<Rightarrow> nat \<Rightarrow> fd_panic + filedesc" where
  "fd_used fdp fd =
     (let off = fd div 32 in
      if off \<ge> length (fd_lomap fdp) then Inl Fd_oob
      else
        let word = fd_lomap fdp ! off OR push_bit (fd mod 32) 1 in
        if word = - 1 \<and> off div 32 \<ge> length (fd_himap fdp) then Inl Fd_oob
        else
          Inr (fdp\<lparr>fd_lomap := (fd_lomap fdp)[off := word],
            fd_himap := (if word = - 1 then (fd_himap fdp)[off div 32 := fd_himap fdp ! (off div 32) OR push_bit (off mod 32) 1]
              else fd_himap fdp),
            fd_lastfile := (if fd > fd_lastfile fdp then fd else fd_lastfile fdp),
            fd_openfd := fd_openfd fdp + 1\<rparr>))"

definition fd_unused :: "filedesc \<Rightarrow> nat \<Rightarrow> fd_panic + filedesc" where
  "fd_unused fdp fd =
     (let off = fd div 32 in
      if off \<ge> length (fd_lomap fdp) then Inl Fd_oob
      else
        let word = fd_lomap fdp ! off in
        if word = - 1 \<and> off div 32 \<ge> length (fd_himap fdp) then Inl Fd_oob
        else
          let fdp1 = fdp\<lparr>fd_freefile := (if fd < fd_freefile fdp then fd else fd_freefile fdp),
            fd_himap := (if word = - 1 then (fd_himap fdp)[off div 32 := fd_himap fdp ! (off div 32) AND NOT (push_bit (off mod 32) 1)]
              else fd_himap fdp),
            fd_lomap := (fd_lomap fdp)[off := word AND NOT (push_bit (fd mod 32) 1)]\<rparr> in
          if fd > fd_lastfile fdp then Inl Panic_lastfile
          else if fd = fd_lastfile fdp then
            (case find_last_set fdp1 fd of
               Inl e \<Rightarrow> Inl e
             | Inr l \<Rightarrow> Inr (fdp1\<lparr>fd_lastfile := l, fd_openfd := fd_openfd fdp - 1\<rparr>))
          else Inr (fdp1\<lparr>fd_openfd := fd_openfd fdp - 1\<rparr>))"

section \<open>\<^verbatim>\<open>ffs\<close>\<close>

definition lowest :: "u32 \<Rightarrow> nat \<Rightarrow> bool" where
  "lowest r n \<longleftrightarrow> bit r n \<and> (\<forall>m < n. \<not> bit r m)"

lemma lowest_shift:
  assumes "r AND mask k = 0" and "lowest (drop_bit k r) n"
  shows "lowest r (k + n)"
proof -
  have low: "\<not> bit r m" if "m < k" for m
  proof (cases "m < 32")
    case True
    then have "\<not> bit (r AND mask k) m" using assms(1) by simp
    with that True show ?thesis by (simp add: bit_simps)
  next
    case False
    then show ?thesis using bit_imp_le_length [of r m] by auto
  qed
  have "\<not> bit r m" if "m < k + n" "k \<le> m" for m
  proof -
    have "\<not> bit (drop_bit k r) (m - k)" using assms(2) that by (simp add: lowest_def)
    with that show ?thesis by (simp add: bit_simps)
  qed
  with low have "\<not> bit r m" if "m < k + n" for m using that by (cases "m < k") auto
  moreover have "bit r (k + n)" using assms(2) by (simp add: lowest_def bit_simps)
  ultimately show ?thesis by (simp add: lowest_def)
qed

lemma ffs_table_lowest:
  "\<forall>v \<in> set [1..<16]. \<exists>n \<in> set [0..<4]. ffs_table ! v = int n + 1 \<and> bit v n \<and> (\<forall>m \<in> set [0..<n]. \<not> bit v m)"
  by code_simp

lemma ffs_nibble:
  assumes "r AND 0xf \<noteq> (0 :: u32)"
  shows "\<exists>n. ffs_table ! unat (r AND 0xf) = int n + 1 \<and> lowest r n"
proof -
  define v where "v = unat (r AND 0xf)"
  have v: "v = take_bit 4 (unat r)" by (simp add: v_def take_bit_eq_mask mask_eq_exp_minus_1 unsigned_and_eq)
  have "v \<noteq> 0" using assms by (simp add: v_def unsigned_eq_0_iff)
  moreover have "v < 16" using v by (simp add: take_bit_eq_mod)
  ultimately obtain n where n: "n < 4" "ffs_table ! v = int n + 1" "bit v n" "\<And>m. m < n \<Longrightarrow> \<not> bit v m"
    using ffs_table_lowest by fastforce
  have b: "bit r m = bit v m" if "m < 4" for m
    using that by (simp add: v bit_simps)
  then have "lowest r n" using n by (auto simp: lowest_def)
  with n show ?thesis unfolding v_def by blast
qed

lemma and_mask_drop: "r \<noteq> 0 \<Longrightarrow> r AND mask k = 0 \<Longrightarrow> drop_bit k (r :: u32) \<noteq> 0"
  by (metis add.right_neutral bits_ident mult_zero_left push_bit_eq_mult take_bit_eq_mask)

definition half :: "nat \<Rightarrow> u32 \<Rightarrow> nat \<times> u32" where
  "half k r = (if r AND mask k = 0 then (k, drop_bit k r) else (0, r))"

lemma half_lowest:
  assumes "half k r = (d, r')" and "r \<noteq> 0"
  shows "r' \<noteq> 0 \<and> (\<forall>n. lowest r' n \<longrightarrow> lowest r (d + n)) \<and> (r AND mask (2 * k) \<noteq> 0 \<longrightarrow> r' AND mask k \<noteq> 0)"
proof (cases "r AND mask k = 0")
  case True
  with assms have r': "d = k" "r' = drop_bit k r" by (auto simp: half_def)
  have "drop_bit k r AND mask k = drop_bit k (r AND mask (2 * k))"
    by (rule bit_word_eqI) (auto simp: bit_simps dest: bit_imp_le_length)
  moreover have "drop_bit k (r AND mask (2 * k)) \<noteq> 0" if "r AND mask (2 * k) \<noteq> 0"
  proof (rule and_mask_drop [OF that])
    have "r AND mask (2 * k) AND mask k = r AND mask k" by (rule bit_word_eqI) (auto simp: bit_simps)
    then show "(r AND mask (2 * k)) AND mask k = 0" using True by (simp add: and.assoc)
  qed
  ultimately show ?thesis using True r' assms(2) lowest_shift [OF True] and_mask_drop by auto
qed (use assms in \<open>auto simp: half_def\<close>)

lemma ffs_half:
  "ffs r = (let (a, r1) = half 16 r; (b, r2) = half 8 r1; (c, r3) = half 4 r2
            in int (a + b + c) + ffs_table ! unat (r3 AND 0xf))"
  by (simp add: ffs_def half_def mask_eq_exp_minus_1 Let_def)

lemma ffs_lowest:
  assumes "r \<noteq> 0"
  shows "\<exists>n. ffs r = int n + 1 \<and> lowest r n"
proof -
  obtain a r1 b r2 c r3 where h: "half 16 r = (a, r1)" "half 8 r1 = (b, r2)" "half 4 r2 = (c, r3)" by (metis surj_pair)
  have top: "r AND mask 32 \<noteq> 0" using assms take_bit_word_eq_self [of 32 r] by (simp flip: take_bit_eq_mask)
  note l1 = half_lowest [OF h(1) assms] and l2 = half_lowest [OF h(2)] and l3 = half_lowest [OF h(3)]
  have r1: "r1 \<noteq> 0" "r1 AND mask 16 \<noteq> 0" using l1 top by auto
  have r2: "r2 \<noteq> 0" "r2 AND mask 8 \<noteq> 0" using l2 r1 by auto
  have "r3 AND mask 4 \<noteq> 0" using l3 r2 by auto
  then have "r3 AND 0xf \<noteq> 0" by (simp add: mask_eq_exp_minus_1)
  then obtain n where n: "ffs_table ! unat (r3 AND 0xf) = int n + 1" "lowest r3 n" using ffs_nibble by blast
  have "lowest r (a + (b + (c + n)))" using l1 l2 l3 r1 r2 n(2) by blast
  with n(1) show ?thesis by (intro exI [of _ "a + (b + (c + n))"]) (simp add: ffs_half h)
qed

section \<open>The search for a zero bit\<close>

definition zbit :: "u32 list \<Rightarrow> nat \<Rightarrow> bool" where
  "zbit bitmap n \<longleftrightarrow> n < 32 * length bitmap \<and> \<not> bit (bitmap ! (n div 32)) (n mod 32)"

lemma word_full: "(w :: u32) = - 1 \<longleftrightarrow> (\<forall>j < 32. bit w j)"
  by (auto intro: bit_word_eqI)

lemma zbit_word: "j < 32 \<Longrightarrow> zbit bitmap (off * 32 + j) \<longleftrightarrow> off < length bitmap \<and> \<not> bit (bitmap ! off) j"
  by (auto simp: zbit_def)

lemma zbit_full: "bitmap ! (n div 32) = - 1 \<Longrightarrow> \<not> zbit bitmap n"
  by (simp add: zbit_def)

lemma zero_found_spec:
  assumes "sub \<noteq> - 1"
  shows "\<exists>m < 32. zero_found off sub = off * 32 + m \<and> \<not> bit sub m \<and> (\<forall>j < m. bit sub j)"
proof -
  have "NOT sub \<noteq> 0" using assms by (metis bit.compl_zero bit.double_compl)
  then obtain m where m: "ffs (NOT sub) = int m + 1" "lowest (NOT sub) m" using ffs_lowest by blast
  then have lt: "m < 32" using bit_imp_le_length [of "NOT sub" m] by (simp add: lowest_def)
  have "\<not> bit sub m" "\<forall>j < m. bit sub j" using m(2) lt by (auto simp: lowest_def bit_simps)
  with m(1) lt show ?thesis by (auto simp: zero_found_def)
qed

lemma find_zero_loop_spec:
  "case find_zero_loop bitmap off maxoff of
     Inl e \<Rightarrow> \<forall>j \<ge> off. j < length bitmap \<longrightarrow> bitmap ! j = - 1
   | Inr None \<Rightarrow> \<forall>j \<ge> off. j < maxoff \<longrightarrow> j < length bitmap \<and> bitmap ! j = - 1
   | Inr (Some k) \<Rightarrow> off \<le> k \<and> k < maxoff \<and> k < length bitmap \<and> bitmap ! k \<noteq> - 1 \<and> (\<forall>j \<ge> off. j < k \<longrightarrow> bitmap ! j = - 1)"
proof (induction bitmap off maxoff rule: find_zero_loop.induct)
  case (1 bitmap off maxoff)
  show ?case
  proof (cases "off < maxoff \<and> off < length bitmap \<and> bitmap ! off = - 1")
    case True
    then have eq: "find_zero_loop bitmap off maxoff = find_zero_loop bitmap (off + 1) maxoff"
      by (subst find_zero_loop.simps) simp
    have split: "(j \<ge> off) = (j = off \<or> j \<ge> off + 1)" for j by auto
    from 1 True show ?thesis unfolding eq by (auto simp: split split: sum.splits option.splits)
  next
    case False
    then show ?thesis by (subst find_zero_loop.simps) auto
  qed
qed

lemma full_words_no_zbit:
  assumes "\<And>j. a \<le> j \<Longrightarrow> j < b \<Longrightarrow> bitmap ! j = - 1" and "a * 32 \<le> n" and "n < b * 32"
  shows "\<not> zbit bitmap n"
  using assms by (intro zbit_full) (metis div_le_mono div_less_iff_less_mult nonzero_mult_div_cancel_right zero_less_numeral zero_neq_numeral)

definition next_zero :: "u32 list \<Rightarrow> nat \<Rightarrow> nat \<Rightarrow> bool" where
  "next_zero bitmap want n \<longleftrightarrow> zbit bitmap n \<and> want \<le> n \<and> (\<forall>m \<ge> want. m < n \<longrightarrow> \<not> zbit bitmap m)"

lemma find_zero_words_spec:
  "case find_zero_words bitmap off bits of
     Inl e \<Rightarrow> \<forall>n \<ge> off * 32. \<not> zbit bitmap n
   | Inr None \<Rightarrow> \<forall>n \<ge> off * 32. n < 32 * NDLOSLOTS bits \<longrightarrow> \<not> zbit bitmap n
   | Inr (Some n) \<Rightarrow> next_zero bitmap (off * 32) n"
proof (cases "find_zero_loop bitmap off (NDLOSLOTS bits)")
  case (Inl e)
  have "\<not> zbit bitmap n" if "off * 32 \<le> n" for n
  proof (cases "n < length bitmap * 32")
    case True
    show ?thesis using find_zero_loop_spec [where bitmap = bitmap and off = off and maxoff = "NDLOSLOTS bits"] Inl
      by (intro full_words_no_zbit [OF _ that True]) auto
  qed (auto simp: zbit_def)
  with Inl show ?thesis by (simp add: find_zero_words_def)
next
  case (Inr r)
  show ?thesis
  proof (cases r)
    case None
    have "\<not> zbit bitmap n" if "off * 32 \<le> n" "n < 32 * NDLOSLOTS bits" for n
      using find_zero_loop_spec [where bitmap = bitmap and off = off and maxoff = "NDLOSLOTS bits"] Inr None that
      by (intro full_words_no_zbit [where a = off and b = "NDLOSLOTS bits"]) auto
    with Inr None show ?thesis by (simp add: find_zero_words_def)
  next
    case (Some k)
    have k: "off \<le> k" "k < length bitmap" "bitmap ! k \<noteq> - 1" "\<And>j. off \<le> j \<Longrightarrow> j < k \<Longrightarrow> bitmap ! j = - 1"
      using find_zero_loop_spec [where bitmap = bitmap and off = off and maxoff = "NDLOSLOTS bits"] Inr Some by auto
    obtain m where m: "m < 32" "zero_found k (bitmap ! k) = k * 32 + m" "\<not> bit (bitmap ! k) m" "\<forall>j < m. bit (bitmap ! k) j"
      using zero_found_spec [OF k(3)] by blast
    have "\<not> zbit bitmap n" if n: "off * 32 \<le> n" "n < k * 32 + m" for n
    proof (cases "n < k * 32")
      case True
      then show ?thesis using k(4) n(1) by (intro full_words_no_zbit [where a = off and b = k]) auto
    next
      case False
      then obtain j where "n = k * 32 + j" "j < m" using n(2) by (metis add_less_cancel_left le_Suc_ex not_less)
      then show ?thesis using m by (simp add: zbit_word)
    qed
    then have "next_zero bitmap (off * 32) (k * 32 + m)" using m k by (auto simp: next_zero_def zbit_word)
    with Inr Some m show ?thesis by (simp add: find_zero_words_def)
  qed
qed

lemma find_next_zero_spec:
  "case find_next_zero bitmap want bits of
     Inl e \<Rightarrow> \<forall>n \<ge> want. \<not> zbit bitmap n
   | Inr None \<Rightarrow> want > bits \<or> (\<forall>n \<ge> want. n < 32 * NDLOSLOTS bits \<longrightarrow> \<not> zbit bitmap n)
   | Inr (Some n) \<Rightarrow> next_zero bitmap want n \<and> want \<le> bits"
proof (cases "want > bits \<or> want mod 32 = 0")
  case True
  then show ?thesis
    using find_zero_words_spec [where bitmap = bitmap and off = "want div 32" and bits = bits]
    by (auto simp: find_next_zero_def Let_def split: sum.splits option.splits)
next
  case False
  define off i where "off = want div 32" and "i = want mod 32"
  have want: "want = off * 32 + i" "0 < i" "i < 32" "want \<le> bits" using False by (auto simp: off_def i_def)
  define sub where "sub = bitmap ! off OR drop_bit (NDENTRIES - i) (- 1)"
  have bit_sub: "bit sub j \<longleftrightarrow> bit (bitmap ! off) j \<or> j < i" if "j < 32" for j
    using that want(3) by (auto simp: sub_def bit_simps NDENTRIES_def)
  have eq: "find_next_zero bitmap want bits =
      (if off \<ge> length bitmap then Inl Fd_oob
       else if sub \<noteq> - 1 then Inr (Some (zero_found off sub)) else find_zero_words bitmap (off + 1) bits)"
    using want(2-4) by (simp add: find_next_zero_def Let_def sub_def flip: off_def i_def)
  consider (oob) "off \<ge> length bitmap" | (here) "off < length bitmap" "sub \<noteq> - 1" | (later) "off < length bitmap" "sub = - 1"
    by linarith
  then show ?thesis
  proof cases
    case oob
    have "\<not> zbit bitmap n" if "want \<le> n" for n using oob that want(1) by (auto simp: zbit_def)
    with oob show ?thesis by (simp add: eq)
  next
    case here
    obtain m where m: "m < 32" "zero_found off sub = off * 32 + m" "\<not> bit sub m" "\<forall>j < m. bit sub j"
      using zero_found_spec [OF here(2)] by blast
    have "\<not> zbit bitmap n" if n: "want \<le> n" "n < off * 32 + m" for n
    proof -
      define j where "j = n - off * 32"
      have j: "n = off * 32 + j" "i \<le> j" "j < m" using n want(1) by (auto simp: j_def)
      then show ?thesis using m bit_sub [of j] here by (auto simp: zbit_word)
    qed
    then have "next_zero bitmap want (off * 32 + m)"
      using m want bit_sub [of m] here(1) by (auto simp: next_zero_def zbit_word)
    with here m(2) want(4) show ?thesis by (simp add: eq)
  next
    case later
    define nx where "nx = off + 1"
    have z: "\<not> zbit bitmap n" if n: "want \<le> n" "n < nx * 32" for n
    proof -
      define j where "j = n - off * 32"
      have j: "n = off * 32 + j" "i \<le> j" "j < 32" using n want(1) by (auto simp: j_def nx_def)
      with later bit_sub [of j] show ?thesis by (simp add: zbit_word)
    qed
    have less: "want < nx * 32" using want by (simp add: nx_def)
    have found: "next_zero bitmap want n" if "next_zero bitmap (nx * 32) n" for n
      using that z less unfolding next_zero_def by (meson less_imp_le_nat not_less order_trans)
    have none: "\<not> zbit bitmap n" if "\<And>n. nx * 32 \<le> n \<Longrightarrow> n < b \<Longrightarrow> \<not> zbit bitmap n" "want \<le> n" "n < b" for n b
      using that z by (meson not_less)
    have oob: "\<not> zbit bitmap n" if "\<And>n. nx * 32 \<le> n \<Longrightarrow> \<not> zbit bitmap n" "want \<le> n" for n
      using that z by (meson not_less)
    have eql: "find_next_zero bitmap want bits = find_zero_words bitmap nx bits" using later by (simp add: eq nx_def)
    note spec = find_zero_words_spec [where bitmap = bitmap and off = nx and bits = bits]
    consider (l) e where "find_zero_words bitmap nx bits = Inl e" | (n) "find_zero_words bitmap nx bits = Inr None"
      | (s) k where "find_zero_words bitmap nx bits = Inr (Some k)"
      by (metis not_Some_eq sum.exhaust)
    then show ?thesis
    proof cases
      case l
      have "\<And>n. want \<le> n \<Longrightarrow> \<not> zbit bitmap n" by (rule oob) (use l spec in simp_all)
      then show ?thesis unfolding eql l by simp
    next
      case n
      have "\<And>n. want \<le> n \<Longrightarrow> n < 32 * NDLOSLOTS bits \<Longrightarrow> \<not> zbit bitmap n"
        by (rule none [of "32 * NDLOSLOTS bits"]) (use n spec in simp_all)
      then show ?thesis unfolding eql n by simp
    next
      case s
      have "next_zero bitmap want k" by (rule found) (use s spec in simp)
      then show ?thesis unfolding eql s using want(4) by simp
    qed
  qed
qed

lemma find_next_zero_Some: "find_next_zero bitmap want bits = Inr (Some n) \<Longrightarrow> next_zero bitmap want n \<and> want \<le> bits"
  using find_next_zero_spec [where bitmap = bitmap and want = want and bits = bits] by simp

lemma find_next_zero_None:
  "find_next_zero bitmap want bits = Inr None \<Longrightarrow> want > bits \<or> (\<forall>n \<ge> want. n < 32 * NDLOSLOTS bits \<longrightarrow> \<not> zbit bitmap n)"
  using find_next_zero_spec [where bitmap = bitmap and want = want and bits = bits] by simp

lemma find_next_zero_oob: "find_next_zero bitmap want bits = Inl e \<Longrightarrow> \<forall>n \<ge> want. \<not> zbit bitmap n"
  using find_next_zero_spec [where bitmap = bitmap and want = want and bits = bits] by simp

section \<open>Allocation\<close>

definition UF_EXCLOSE :: u8 where [kern_defs]: "UF_EXCLOSE = 0x01"
definition UF_PLEDGED :: u8 where [kern_defs]: "UF_PLEDGED = 0x02"
definition UF_FORKCLOSE :: u8 where [kern_defs]: "UF_FORKCLOSE = 0x04"
definition UF_PLEDGEOPEN :: u8 where [kern_defs]: "UF_PLEDGEOPEN = 0x08"

text \<open>
  \<^verbatim>\<open>fdalloc\<close>: \<open>lim\<close> is the smaller of the resource limit and \<^verbatim>\<open>maxfiles\<close>, \<open>pledge\<close> the flag \<^verbatim>\<open>PS_PLEDGE\<close> of the process. The
  label \<^verbatim>\<open>restart\<close> is the recursive call.
\<close>

function fdalloc :: "nat \<Rightarrow> bool \<Rightarrow> nat \<Rightarrow> filedesc \<Rightarrow> fd_panic + (errno + nat \<times> filedesc)" where
  "fdalloc lim pledge want fdp =
     (let lst = min (fd_nfiles fdp) lim;
          i = max want (fd_freefile fdp);
          off = i div 32;
          full = Inr (Inl (if fd_nfiles fdp \<ge> lim then EMFILE else ENOSPC)) in
      case find_next_zero (fd_himap fdp) off (NDREDUCE lst) of
        Inl e \<Rightarrow> Inl e
      | Inr None \<Rightarrow> full
      | Inr (Some new) \<Rightarrow>
          (case find_next_zero (drop new (fd_lomap fdp)) (if new > off then 0 else i mod 32) NDENTRIES of
             Inl e \<Rightarrow> Inl e
           | Inr None \<Rightarrow> fdalloc lim pledge ((new + 1) * 32) fdp
           | Inr (Some j) \<Rightarrow>
               let i = j + new * 32 in
               if i < lst then
                 (case fd_used fdp i of
                    Inl e \<Rightarrow> Inl e
                  | Inr fdp1 \<Rightarrow>
                      Inr (Inr (i, fdp1\<lparr>fd_freefile := (if want \<le> fd_freefile fdp1 then i else fd_freefile fdp1),
                        fd_ofileflags := (fd_ofileflags fdp1)[i := (if pledge then UF_PLEDGED else 0)]\<rparr>)))
               else full))"
  by pat_completeness auto
termination
proof (relation "measure (\<lambda>(lim, pledge, want, fdp). (NDREDUCE (min (fd_nfiles fdp) lim) + 1) * 32 - want)")
  fix lim :: nat and pledge :: bool and want :: nat and fdp :: filedesc and lst i off and full :: "fd_panic + (errno + nat \<times> filedesc)"
    and b :: "nat option" and new :: nat and ba :: "nat option"
  assume "lst = min (fd_nfiles fdp) lim" "i = max want (fd_freefile fdp)" "off = i div 32"
    and "find_next_zero (fd_himap fdp) off (NDREDUCE lst) = Inr b" "b = Some new"
  then have "off \<le> new" "off \<le> NDREDUCE (min (fd_nfiles fdp) lim)" "want < (off + 1) * 32"
    using find_next_zero_Some [of "fd_himap fdp" off "NDREDUCE lst" new] by (auto simp: next_zero_def)
  then have "want < (new + 1) * 32" "want < (NDREDUCE (min (fd_nfiles fdp) lim) + 1) * 32" by auto
  then show "((lim, pledge, (new + 1) * 32, fdp), lim, pledge, want, fdp)
      \<in> measure (\<lambda>(lim, pledge, want, fdp). (NDREDUCE (min (fd_nfiles fdp) lim) + 1) * 32 - want)"
    by auto
qed simp

declare fdalloc.simps [simp del]

definition fdexpand :: "filedesc \<Rightarrow> filedesc" where
  "fdexpand fdp =
     (let old = fd_nfiles fdp;
          nfiles = (if old < NDEXTENT then NDEXTENT else 2 * old);
          fdp1 = (if NDHISLOTS nfiles > NDHISLOTS old
            then fdp\<lparr>fd_himap := take (NDHISLOTS old) (fd_himap fdp) @ replicate (NDHISLOTS nfiles - NDHISLOTS old) 0,
                     fd_lomap := take (NDLOSLOTS old) (fd_lomap fdp) @ replicate (NDLOSLOTS nfiles - NDLOSLOTS old) 0\<rparr>
            else fdp)
      in fdp1\<lparr>fd_ofiles := take old (fd_ofiles fdp) @ replicate (nfiles - old) None,
              fd_ofileflags := take old (fd_ofileflags fdp) @ replicate (nfiles - old) 0, fd_nfiles := nfiles\<rparr>)"

definition fdinit :: filedesc where
  "fdinit =
     \<lparr>fd_ofiles = replicate NDFILE None, fd_ofileflags = replicate NDFILE 0, fd_nfiles = NDFILE, fd_openfd = 0,
      fd_himap = replicate (NDENTRIES div 32) 0, fd_lomap = replicate NDENTRIES 0, fd_lastfile = 0, fd_freefile = 0,
      fd_refcnt = 1, fd_adv = False\<rparr>"

text \<open>\<^verbatim>\<open>lim\<close> of \<^verbatim>\<open>fdalloc\<close>: the limit is cast to \<^verbatim>\<open>int\<close> and compared as \<^verbatim>\<open>u_int\<close>.\<close>

definition fd_lim :: "u64 \<Rightarrow> u32 \<Rightarrow> nat" where
  "fd_lim cur maxfiles = unat (min (ucast cur) maxfiles)"

section \<open>Invariant\<close>

text \<open>The descriptors in use: the abstraction of the bitmaps.\<close>

definition used_fds :: "filedesc \<Rightarrow> nat set" where
  "used_fds fdp = {fd. fd < 32 * length (fd_lomap fdp) \<and> bit (fd_lomap fdp ! (fd div 32)) (fd mod 32)}"

definition fdmap_sizes :: "filedesc \<Rightarrow> bool" where
  "fdmap_sizes fdp \<longleftrightarrow>
     (fd_nfiles fdp = NDFILE \<or> (\<exists>k. fd_nfiles fdp = NDEXTENT * 2 ^ k)) \<and>
     length (fd_ofiles fdp) = fd_nfiles fdp \<and> length (fd_ofileflags fdp) = fd_nfiles fdp \<and>
     length (fd_himap fdp) = NDHISLOTS (fd_nfiles fdp) \<and> length (fd_lomap fdp) = NDLOSLOTS (fd_nfiles fdp)"

definition fdmap_inv :: "filedesc \<Rightarrow> bool" where
  "fdmap_inv fdp \<longleftrightarrow> fdmap_sizes fdp \<and>
     (\<forall>k < length (fd_lomap fdp). bit (fd_himap fdp ! (k div 32)) (k mod 32) \<longleftrightarrow> fd_lomap fdp ! k = - 1) \<and>
     used_fds fdp \<subseteq> {..<fd_nfiles fdp} \<and>
     (\<forall>fd \<in> used_fds fdp. fd \<le> fd_lastfile fdp) \<and> (fd_lastfile fdp \<in> used_fds fdp \<or> fd_lastfile fdp = 0) \<and>
     fd_openfd fdp = int (card (used_fds fdp))"

lemma NDREDUCE_bounds: "x \<le> 32 * NDREDUCE x" "32 * NDREDUCE x < x + 32"
  by (auto simp: kern_defs)

lemma NDLOSLOTS_bounds: "NDREDUCE x \<le> NDLOSLOTS x" "x \<le> 32 * NDLOSLOTS x"
  using NDREDUCE_bounds [of x] NDREDUCE_bounds [of "NDREDUCE x"] by (auto simp: NDLOSLOTS_def NDHISLOTS_def)

lemma used_fds_word: "j < 32 \<Longrightarrow> k * 32 + j \<in> used_fds fdp \<longleftrightarrow> k < length (fd_lomap fdp) \<and> bit (fd_lomap fdp ! k) j"
  by (auto simp: used_fds_def)

lemma zbit_lomap: "zbit (fd_lomap fdp) fd \<longleftrightarrow> fd < 32 * length (fd_lomap fdp) \<and> fd \<notin> used_fds fdp"
  by (auto simp: zbit_def used_fds_def)

lemma finite_used_fds [simp]: "finite (used_fds fdp)"
  by (rule finite_subset [of _ "{..<32 * length (fd_lomap fdp)}"]) (auto simp: used_fds_def)

lemma fd_inuse_eq: "fd < 32 * length (fd_lomap fdp) \<Longrightarrow> fd_inuse fdp fd = Inr (fd \<in> used_fds fdp)"
  by (auto simp: fd_inuse_def used_fds_def push_bit_of_1 and_exp_eq_0_iff_not_bit)

text \<open>Fields that the bitmap operations leave alone.\<close>

definition fd_rest :: "filedesc \<Rightarrow> _" where
  "fd_rest fdp = (fd_ofiles fdp, fd_ofileflags fdp, fd_nfiles fdp, fd_refcnt fdp, fd_adv fdp)"

lemma fd_restD:
  "fd_rest fdp' = fd_rest fdp \<Longrightarrow> fd_ofiles fdp' = fd_ofiles fdp \<and> fd_ofileflags fdp' = fd_ofileflags fdp \<and>
     fd_nfiles fdp' = fd_nfiles fdp \<and> fd_refcnt fdp' = fd_refcnt fdp \<and> fd_adv fdp' = fd_adv fdp"
  by (simp add: fd_rest_def)

lemma himap_index: "k < NDLOSLOTS n \<Longrightarrow> k div 32 < NDHISLOTS n"
  by (simp add: NDLOSLOTS_def less_mult_imp_div_less)

lemma nat32_eq: "(a = b) = (a div 32 = b div 32 \<and> a mod 32 = b mod (32 :: nat))"
  by (metis div_mult_mod_eq)

lemma bitmap_set:
  fixes m :: "u32 list"
  assumes "n div 32 < length m"
  shows "bit (m[n div 32 := m ! (n div 32) OR 2 ^ (n mod 32)] ! (k div 32)) (k mod 32) \<longleftrightarrow> k = n \<or> bit (m ! (k div 32)) (k mod 32)"
  using assms by (auto simp: nth_list_update bit_simps nat32_eq [of k n])

lemma bitmap_clear:
  fixes m :: "u32 list"
  assumes "n div 32 < length m"
  shows "bit (m[n div 32 := m ! (n div 32) AND NOT (2 ^ (n mod 32))] ! (k div 32)) (k mod 32) \<longleftrightarrow> k \<noteq> n \<and> bit (m ! (k div 32)) (k mod 32)"
  using assms by (auto simp: nth_list_update bit_simps nat32_eq [of k n])

lemma used_fds_set:
  assumes "fd div 32 < length (fd_lomap fdp)" and "fd_lomap fdp' = (fd_lomap fdp)[fd div 32 := fd_lomap fdp ! (fd div 32) OR push_bit (fd mod 32) 1]"
  shows "used_fds fdp' = insert fd (used_fds fdp)"
  using assms by (auto simp: used_fds_def bitmap_set)

lemma used_fds_clear:
  assumes "fd div 32 < length (fd_lomap fdp)" and "fd_lomap fdp' = (fd_lomap fdp)[fd div 32 := fd_lomap fdp ! (fd div 32) AND NOT (push_bit (fd mod 32) 1)]"
  shows "used_fds fdp' = used_fds fdp - {fd}"
  using assms by (auto simp: used_fds_def bitmap_clear)

text \<open>Keeping the two levels in step: the upper bit follows a change of its word.\<close>

definition hi_ok :: "u32 list \<Rightarrow> u32 list \<Rightarrow> bool" where
  "hi_ok himap lomap \<longleftrightarrow> (\<forall>k < length lomap. bit (himap ! (k div 32)) (k mod 32) \<longleftrightarrow> lomap ! k = - 1)"

lemma hi_ok_set:
  assumes "hi_ok himap lomap" and "length lomap = 32 * length himap" and "off < length lomap" and "j < 32"
    and "w = lomap ! off OR push_bit j 1"
  shows "hi_ok (if w = - 1 then himap[off div 32 := himap ! (off div 32) OR push_bit (off mod 32) 1] else himap) (lomap[off := w])"
  unfolding hi_ok_def
proof (intro allI impI)
  fix k assume "k < length (lomap[off := w])"
  then have k: "k < length lomap" by simp
  then have "bit (himap ! (k div 32)) (k mod 32) \<longleftrightarrow> lomap ! k = - 1" using assms(1) by (simp add: hi_ok_def)
  moreover have "k = off \<Longrightarrow> lomap ! off = - 1 \<Longrightarrow> w = - 1" using assms(5) by simp
  moreover have len: "off div 32 < length himap" using assms(2,3) by auto
  ultimately show "bit ((if w = - 1 then himap[off div 32 := himap ! (off div 32) OR push_bit (off mod 32) 1] else himap) ! (k div 32)) (k mod 32)
      \<longleftrightarrow> lomap[off := w] ! k = - 1"
    using k assms(3) bitmap_set [of off himap k] len by (cases "k = off"; cases "w = - 1") auto
qed

lemma hi_ok_clear:
  assumes "hi_ok himap lomap" and "length lomap = 32 * length himap" and "off < length lomap" and "j < 32"
    and "w = lomap ! off"
  shows "hi_ok (if w = - 1 then himap[off div 32 := himap ! (off div 32) AND NOT (push_bit (off mod 32) 1)] else himap)
     (lomap[off := w AND NOT (push_bit j 1)])"
  unfolding hi_ok_def
proof (intro allI impI)
  fix k assume "k < length (lomap[off := w AND NOT (push_bit j 1)])"
  then have k: "k < length lomap" by simp
  then have "bit (himap ! (k div 32)) (k mod 32) \<longleftrightarrow> lomap ! k = - 1" using assms(1) by (simp add: hi_ok_def)
  moreover have "w AND NOT (push_bit j 1) \<noteq> - 1" using assms(4) by (auto simp: word_full bit_simps)
  moreover have len: "off div 32 < length himap" using assms(2,3) by auto
  ultimately show "bit ((if w = - 1 then himap[off div 32 := himap ! (off div 32) AND NOT (push_bit (off mod 32) 1)] else himap) ! (k div 32)) (k mod 32)
      \<longleftrightarrow> lomap[off := w AND NOT (push_bit j 1)] ! k = - 1"
    using k assms(3,5) bitmap_clear [of off himap k] len by (cases "k = off"; cases "w = - 1") auto
qed

lemma fdmap_inv_eq:
  "fdmap_inv fdp \<longleftrightarrow> fdmap_sizes fdp \<and> hi_ok (fd_himap fdp) (fd_lomap fdp) \<and> used_fds fdp \<subseteq> {..<fd_nfiles fdp} \<and>
     (\<forall>fd \<in> used_fds fdp. fd \<le> fd_lastfile fdp) \<and> (fd_lastfile fdp \<in> used_fds fdp \<or> fd_lastfile fdp = 0) \<and>
     fd_openfd fdp = int (card (used_fds fdp))"
  by (auto simp: fdmap_inv_def hi_ok_def)

lemma fdmap_sizesD:
  assumes "fdmap_sizes fdp"
  shows "length (fd_lomap fdp) = 32 * length (fd_himap fdp)" and "fd_nfiles fdp \<le> 32 * length (fd_lomap fdp)"
    and "0 < fd_nfiles fdp"
  using assms NDLOSLOTS_bounds [of "fd_nfiles fdp"] by (auto simp: fdmap_sizes_def NDLOSLOTS_def NDFILE_def NDEXTENT_def)

lemma fd_used_spec:
  assumes inv: "fdmap_inv fdp" and fd: "fd < fd_nfiles fdp" "fd \<notin> used_fds fdp"
  shows "\<exists>fdp'. fd_used fdp fd = Inr fdp' \<and> fdmap_inv fdp' \<and> used_fds fdp' = insert fd (used_fds fdp) \<and>
     fd_rest fdp' = fd_rest fdp \<and> fd_freefile fdp' = fd_freefile fdp"
proof -
  define off w where "off = fd div 32" and "w = fd_lomap fdp ! off OR push_bit (fd mod 32) 1"
  have sz: "fdmap_sizes fdp" and hi: "hi_ok (fd_himap fdp) (fd_lomap fdp)" using inv by (simp_all add: fdmap_inv_eq)
  note szd = fdmap_sizesD [OF sz]
  have off: "off < length (fd_lomap fdp)" "off div 32 < length (fd_himap fdp)"
    using fd(1) szd by (auto simp: off_def)
  define fdp' where "fdp' = fdp\<lparr>fd_lomap := (fd_lomap fdp)[off := w],
      fd_himap := (if w = - 1 then (fd_himap fdp)[off div 32 := fd_himap fdp ! (off div 32) OR push_bit (off mod 32) 1] else fd_himap fdp),
      fd_lastfile := max fd (fd_lastfile fdp), fd_openfd := fd_openfd fdp + 1\<rparr>"
  have run: "fd_used fdp fd = Inr fdp'"
    using off unfolding fd_used_def Let_def off_def [symmetric] w_def [symmetric] by (simp add: fdp'_def max_def)
  have used: "used_fds fdp' = insert fd (used_fds fdp)"
    using off(1) by (intro used_fds_set) (simp_all add: fdp'_def off_def w_def)
  have "hi_ok (fd_himap fdp') (fd_lomap fdp')"
    using hi_ok_set [OF hi szd(1) off(1), of "fd mod 32" w] by (simp add: fdp'_def w_def)
  moreover have "fdmap_sizes fdp'" using sz by (auto simp: fdmap_sizes_def fdp'_def)
  moreover have "fd_openfd fdp' = int (card (used_fds fdp'))" using inv fd(2) used by (simp add: fdmap_inv_eq fdp'_def)
  moreover have "(\<forall>x \<in> used_fds fdp'. x \<le> fd_lastfile fdp') \<and> fd_lastfile fdp' \<in> used_fds fdp'"
    using inv unfolding used by (auto simp: fdmap_inv_eq fdp'_def max_def)
  moreover have "used_fds fdp' \<subseteq> {..<fd_nfiles fdp'}" using inv fd(1) used by (auto simp: fdmap_inv_eq fdp'_def)
  ultimately have "fdmap_inv fdp'" by (simp add: fdmap_inv_eq)
  with run used show ?thesis by (simp add: fdp'_def fd_rest_def)
qed

lemma last_word_spec:
  assumes "n \<le> length bm"
  shows "last_word bm n \<le> n \<and> (\<forall>k \<ge> last_word bm n. k < n \<longrightarrow> bm ! k = 0) \<and> (0 < last_word bm n \<longrightarrow> bm ! (last_word bm n - 1) \<noteq> 0)"
  using assms
proof (induction n)
  case (Suc n)
  then have "last_word bm n \<le> n \<and> (\<forall>k \<ge> last_word bm n. k < n \<longrightarrow> bm ! k = 0) \<and> (0 < last_word bm n \<longrightarrow> bm ! (last_word bm n - 1) \<noteq> 0)" by simp
  then show ?case by (cases "bm ! n = 0") (auto simp: less_Suc_eq)
qed simp

lemma last_inuse_spec:
  assumes "i < 32 * length (fd_lomap fdp)"
  shows "(\<forall>fd \<in> used_fds fdp. fd \<le> i \<longrightarrow> fd \<le> last_inuse fdp i) \<and> (last_inuse fdp i \<in> used_fds fdp \<or> last_inuse fdp i = 0) \<and> last_inuse fdp i \<le> i"
  using assms
proof (induction i)
  case (Suc i)
  then have IH: "\<forall>fd \<in> used_fds fdp. fd \<le> i \<longrightarrow> fd \<le> last_inuse fdp i" "last_inuse fdp i \<in> used_fds fdp \<or> last_inuse fdp i = 0"
    "last_inuse fdp i \<le> i" by simp_all
  have eq: "last_inuse fdp (Suc i) = (if Suc i \<in> used_fds fdp then Suc i else last_inuse fdp i)"
    using Suc.prems by (simp add: fd_inuse_eq)
  show ?case
  proof (cases "Suc i \<in> used_fds fdp")
    case True
    then show ?thesis unfolding eq by simp
  next
    case False
    then have "fd \<le> i" if "fd \<in> used_fds fdp" "fd \<le> Suc i" for fd using that by (metis le_SucE)
    with IH False show ?thesis unfolding eq by simp
  qed
qed simp

lemma find_last_set_spec:
  assumes "lst \<le> 32 * length (fd_lomap fdp)"
  shows "\<exists>l. find_last_set fdp lst = Inr l \<and> (\<forall>fd \<in> used_fds fdp. fd < lst \<longrightarrow> fd \<le> l) \<and> (l \<in> used_fds fdp \<or> l = 0)"
proof (cases "lst = 0")
  case True
  then show ?thesis by (simp add: find_last_set_def)
next
  case False
  define m where "m = (lst - 1) div 32 + 1"
  define n where "n = last_word (fd_lomap fdp) m"
  have off: "(lst - 1) div 32 < length (fd_lomap fdp)" using assms False by auto
  then have "m \<le> length (fd_lomap fdp)" by (simp add: m_def)
  then have n: "n \<le> m" "\<And>k. n \<le> k \<Longrightarrow> k < m \<Longrightarrow> fd_lomap fdp ! k = 0"
    using last_word_spec [of m "fd_lomap fdp"] by (simp_all add: n_def)
  have run: "find_last_set fdp lst = (if n = 0 then Inr 0 else Inr (last_inuse fdp (min (n * 32 - 1) (lst - 1))))"
    using False off unfolding find_last_set_def Let_def m_def [symmetric] by (simp add: n_def)
  have clear: "fd < n * 32" if fd: "fd \<in> used_fds fdp" "fd < lst" for fd
  proof (rule ccontr)
    assume "\<not> fd < n * 32"
    then have "n \<le> fd div 32" using div_le_mono [of "n * 32" fd 32] by simp
    moreover have "fd div 32 < m" using fd(2) div_le_mono [of fd "lst - 1" 32] by (simp add: m_def)
    ultimately have "fd_lomap fdp ! (fd div 32) = 0" using n(2) by simp
    with fd(1) show False by (simp add: used_fds_def)
  qed
  show ?thesis
  proof (cases "n = 0")
    case True
    then have "find_last_set fdp lst = Inr 0" using run by simp
    with True clear show ?thesis by force
  next
    case pos: False
    define i where "i = min (n * 32 - 1) (lst - 1)"
    have "find_last_set fdp lst = Inr (last_inuse fdp i)" using run pos by (simp add: i_def)
    moreover have "fd \<le> i" if "fd \<in> used_fds fdp" "fd < lst" for fd using clear [OF that] that(2) by (auto simp: i_def)
    moreover have "i < 32 * length (fd_lomap fdp)" using assms False by (auto simp: i_def)
    ultimately show ?thesis using last_inuse_spec [of i fdp] by auto
  qed
qed

lemma fd_unused_spec:
  assumes inv: "fdmap_inv fdp" and fd: "fd \<in> used_fds fdp"
  shows "\<exists>fdp'. fd_unused fdp fd = Inr fdp' \<and> fdmap_inv fdp' \<and> used_fds fdp' = used_fds fdp - {fd} \<and>
     fd_rest fdp' = fd_rest fdp \<and> fd_freefile fdp' = min fd (fd_freefile fdp)"
proof -
  define off w where "off = fd div 32" and "w = fd_lomap fdp ! off"
  have sz: "fdmap_sizes fdp" and hi: "hi_ok (fd_himap fdp) (fd_lomap fdp)" and lt: "fd < fd_nfiles fdp" and le: "fd \<le> fd_lastfile fdp"
    using inv fd by (auto simp: fdmap_inv_eq)
  note szd = fdmap_sizesD [OF sz]
  have off: "off < length (fd_lomap fdp)" "off div 32 < length (fd_himap fdp)"
    using lt szd by (auto simp: off_def)
  define fdp3 where "fdp3 = fdp\<lparr>fd_freefile := (if fd < fd_freefile fdp then fd else fd_freefile fdp),
      fd_himap := (if w = - 1 then (fd_himap fdp)[off div 32 := fd_himap fdp ! (off div 32) AND NOT (push_bit (off mod 32) 1)] else fd_himap fdp),
      fd_lomap := (fd_lomap fdp)[off := w AND NOT (push_bit (fd mod 32) 1)]\<rparr>"
  have used: "used_fds fdp3 = used_fds fdp - {fd}"
    using off(1) by (intro used_fds_clear) (simp_all add: fdp3_def off_def w_def)
  have len: "fd \<le> 32 * length (fd_lomap fdp3)" using lt szd(2) by (simp add: fdp3_def)
  obtain l where l: "find_last_set fdp3 fd = Inr l" "\<forall>x \<in> used_fds fdp3. x < fd \<longrightarrow> x \<le> l" "l \<in> used_fds fdp3 \<or> l = 0"
    using find_last_set_spec [OF len] by blast
  define fdp' where "fdp' = fdp3\<lparr>fd_lastfile := (if fd = fd_lastfile fdp then l else fd_lastfile fdp), fd_openfd := fd_openfd fdp - 1\<rparr>"
  have keep: "fdp3\<lparr>fd_lastfile := fd_lastfile fdp\<rparr> = fdp3" by (simp add: fdp3_def)
  have run: "fd_unused fdp fd = Inr fdp'"
    using off le l(1) keep
    unfolding fd_unused_def Let_def off_def [symmetric] w_def [symmetric] fdp3_def [symmetric] by (auto simp: fdp'_def)
  have used': "used_fds fdp' = used_fds fdp - {fd}" using used by (simp add: fdp'_def used_fds_def)
  have "hi_ok (fd_himap fdp') (fd_lomap fdp')"
    using hi_ok_clear [OF hi szd(1) off(1), of "fd mod 32" w] by (simp add: fdp'_def fdp3_def w_def)
  moreover have "fdmap_sizes fdp'" using sz by (auto simp: fdmap_sizes_def fdp'_def fdp3_def)
  moreover have "fd_openfd fdp' = int (card (used_fds fdp'))"
  proof -
    have "fd_openfd fdp' = fd_openfd fdp - 1" by (simp add: fdp'_def)
    with inv card_Suc_Diff1 [OF finite_used_fds fd] show ?thesis unfolding used' by (simp add: fdmap_inv_eq)
  qed
  moreover have "(\<forall>x \<in> used_fds fdp'. x \<le> fd_lastfile fdp') \<and> (fd_lastfile fdp' \<in> used_fds fdp' \<or> fd_lastfile fdp' = 0)"
    using inv l(2,3) unfolding used used' by (auto simp: fdmap_inv_eq fdp'_def le_neq_implies_less)
  moreover have "used_fds fdp' \<subseteq> {..<fd_nfiles fdp'}" using inv used' by (auto simp: fdmap_inv_eq fdp'_def fdp3_def)
  ultimately have "fdmap_inv fdp'" by (simp add: fdmap_inv_eq)
  with run used' show ?thesis by (simp add: fdp'_def fdp3_def fd_rest_def min_def)
qed

lemma fdinit_inv: "fdmap_inv fdinit" "used_fds fdinit = {}"
proof -
  show used: "used_fds fdinit = {}" by (auto simp: used_fds_def fdinit_def kern_defs)
  show "fdmap_inv fdinit" unfolding fdmap_inv_eq used
    by (auto simp: fdmap_sizes_def hi_ok_def fdinit_def kern_defs)
qed

lemma NDREDUCE_mono: "x \<le> y \<Longrightarrow> NDREDUCE x \<le> NDREDUCE y"
  by (simp add: NDREDUCE_def NDENTRIES_def div_le_mono)

lemma NDHISLOTS_mono: "x \<le> y \<Longrightarrow> NDHISLOTS x \<le> NDHISLOTS y"
  by (simp add: NDHISLOTS_def NDREDUCE_mono)

lemma hi_ok_append:
  assumes "hi_ok himap lomap" and "length lomap = 32 * length himap"
  shows "hi_ok (himap @ replicate n 0) (lomap @ replicate (32 * n) 0)"
  unfolding hi_ok_def
proof (intro allI impI)
  fix k assume k: "k < length (lomap @ replicate (32 * n) 0)"
  show "bit ((himap @ replicate n 0) ! (k div 32)) (k mod 32) \<longleftrightarrow> (lomap @ replicate (32 * n) 0) ! k = - 1"
  proof (cases "k < length lomap")
    case True
    then have "k div 32 < length himap" using assms(2) by auto
    with True assms(1) show ?thesis by (simp add: hi_ok_def nth_append)
  next
    case False
    then have "\<not> k div 32 < length himap" "k div 32 - length himap < n" using assms(2) k by auto
    with False k show ?thesis by (simp add: nth_append)
  qed
qed

lemma used_fds_append:
  assumes "fd_lomap fdp' = fd_lomap fdp @ replicate n 0"
  shows "used_fds fdp' = used_fds fdp"
proof (rule set_eqI)
  fix fd :: nat
  have pos: "fd div 32 < m \<longleftrightarrow> fd < 32 * m" for m :: nat by auto
  show "fd \<in> used_fds fdp' \<longleftrightarrow> fd \<in> used_fds fdp"
  proof (cases "fd div 32 < length (fd_lomap fdp)")
    case True
    then show ?thesis using assms pos [of "length (fd_lomap fdp)"] by (simp add: used_fds_def nth_append)
  next
    case False
    have "\<not> bit ((fd_lomap fdp @ replicate n 0) ! (fd div 32)) (fd mod 32)" if "fd div 32 < length (fd_lomap fdp) + n"
      using False that by (simp add: nth_append)
    with False assms pos [of "length (fd_lomap fdp) + n"] pos [of "length (fd_lomap fdp)"] show ?thesis by (simp add: used_fds_def)
  qed
qed

definition fd_grown :: "nat \<Rightarrow> nat" where
  "fd_grown n = (if n < NDEXTENT then NDEXTENT else 2 * n)"

lemma fd_grown_size:
  assumes "n = NDFILE \<or> (\<exists>k. n = NDEXTENT * 2 ^ k)"
  shows "n < fd_grown n" and "\<exists>k. fd_grown n = NDEXTENT * 2 ^ k"
proof -
  show "n < fd_grown n" using assms by (auto simp: fd_grown_def kern_defs)
  from assms show "\<exists>k. fd_grown n = NDEXTENT * 2 ^ k"
  proof
    assume "n = NDFILE"
    then show ?thesis by (intro exI [of _ 0]) (simp add: fd_grown_def kern_defs)
  next
    assume "\<exists>k. n = NDEXTENT * 2 ^ k"
    then obtain k where "n = NDEXTENT * 2 ^ k" by blast
    then show ?thesis by (intro exI [of _ "k + 1"]) (simp add: fd_grown_def)
  qed
qed

lemma fdexpand_spec:
  assumes inv: "fdmap_inv fdp"
  shows "fdmap_inv (fdexpand fdp) \<and> used_fds (fdexpand fdp) = used_fds fdp \<and> fd_nfiles (fdexpand fdp) = fd_grown (fd_nfiles fdp) \<and>
     fd_ofiles (fdexpand fdp) = fd_ofiles fdp @ replicate (fd_grown (fd_nfiles fdp) - fd_nfiles fdp) None \<and>
     fd_ofileflags (fdexpand fdp) = fd_ofileflags fdp @ replicate (fd_grown (fd_nfiles fdp) - fd_nfiles fdp) 0 \<and>
     fd_freefile (fdexpand fdp) = fd_freefile fdp \<and> fd_refcnt (fdexpand fdp) = fd_refcnt fdp \<and> fd_adv (fdexpand fdp) = fd_adv fdp \<and>
     fd_lastfile (fdexpand fdp) = fd_lastfile fdp"
proof -
  define new where "new = fd_grown (fd_nfiles fdp)"
  define d where "d = NDHISLOTS new - NDHISLOTS (fd_nfiles fdp)"
  have sz: "fdmap_sizes fdp" and hi: "hi_ok (fd_himap fdp) (fd_lomap fdp)" using inv by (simp_all add: fdmap_inv_eq)
  have grow: "fd_nfiles fdp < new" "\<exists>k. new = NDEXTENT * 2 ^ k"
    using sz fd_grown_size [of "fd_nfiles fdp"] by (auto simp: fdmap_sizes_def new_def)
  have mono: "NDHISLOTS (fd_nfiles fdp) \<le> NDHISLOTS new" using grow by (intro NDHISLOTS_mono) simp
  have len: "length (fd_ofiles fdp) = fd_nfiles fdp" "length (fd_ofileflags fdp) = fd_nfiles fdp"
    "length (fd_himap fdp) = NDHISLOTS (fd_nfiles fdp)" "length (fd_lomap fdp) = NDLOSLOTS (fd_nfiles fdp)"
    using sz by (simp_all add: fdmap_sizes_def)
  have lo: "NDLOSLOTS new - NDLOSLOTS (fd_nfiles fdp) = 32 * d" by (simp add: NDLOSLOTS_def d_def diff_mult_distrib)
  define fdp' where "fdp' = fdp\<lparr>fd_himap := fd_himap fdp @ replicate d 0, fd_lomap := fd_lomap fdp @ replicate (32 * d) 0,
      fd_ofiles := fd_ofiles fdp @ replicate (new - fd_nfiles fdp) None,
      fd_ofileflags := fd_ofileflags fdp @ replicate (new - fd_nfiles fdp) 0, fd_nfiles := new\<rparr>"
  have run: "fdexpand fdp = fdp'"
  proof (cases "NDHISLOTS new > NDHISLOTS (fd_nfiles fdp)")
    case True
    then show ?thesis unfolding fdexpand_def Let_def fd_grown_def [symmetric] new_def [symmetric]
      by (simp add: fdp'_def len lo flip: d_def)
  next
    case False
    then show ?thesis unfolding fdexpand_def Let_def fd_grown_def [symmetric] new_def [symmetric]
      by (simp add: fdp'_def len d_def)
  qed
  have used: "used_fds fdp' = used_fds fdp" by (rule used_fds_append) (simp add: fdp'_def)
  have "fdmap_sizes fdp'" using grow mono by (simp add: fdmap_sizes_def fdp'_def len d_def NDLOSLOTS_def algebra_simps diff_mult_distrib2)
  moreover have "hi_ok (fd_himap fdp') (fd_lomap fdp')"
    using hi_ok_append [OF hi fdmap_sizesD(1) [OF sz], of d] by (simp add: fdp'_def)
  moreover have "used_fds fdp' \<subseteq> {..<fd_nfiles fdp'}" using inv used grow(1) by (auto simp: fdmap_inv_eq fdp'_def)
  moreover have "fd_lastfile fdp' = fd_lastfile fdp" "fd_openfd fdp' = fd_openfd fdp" by (simp_all add: fdp'_def)
  ultimately have "fdmap_inv fdp'" using inv used by (simp add: fdmap_inv_eq)
  with run used show ?thesis by (simp add: fdp'_def new_def)
qed

section \<open>Correctness of the search\<close>

text \<open>
  The searches may run to the end of the maps only if nothing below is free. They stay inside as long as the table leaves a
  word of \<^verbatim>\<open>fd_lomap\<close> unused, which is so for every size below 25600.
\<close>

definition fd_slack :: "filedesc \<Rightarrow> bool" where
  "fd_slack fdp \<longleftrightarrow> NDREDUCE (fd_nfiles fdp) < NDLOSLOTS (fd_nfiles fdp)"

lemma fd_slack_below:
  assumes "fdmap_sizes fdp" and "fd_nfiles fdp < 25600"
  shows "fd_slack fdp"
proof (cases "fd_nfiles fdp = NDFILE")
  case True
  then show ?thesis by (simp add: fd_slack_def kern_defs)
next
  case False
  then obtain k where k: "fd_nfiles fdp = 50 * 2 ^ k" using assms(1) by (auto simp: fdmap_sizes_def NDEXTENT_def)
  then have "(2 :: nat) ^ k < 2 ^ 9" using assms(2) by simp
  then have "k < 9" by (simp only: power_strict_increasing_iff)
  then have "k = 0 \<or> k = 1 \<or> k = 2 \<or> k = 3 \<or> k = 4 \<or> k = 5 \<or> k = 6 \<or> k = 7 \<or> k = 8" by linarith
  then show ?thesis unfolding fd_slack_def k by (elim disjE) (simp_all add: kern_defs)
qed

definition free_from :: "filedesc \<Rightarrow> nat \<Rightarrow> nat" where
  "free_from fdp n = (LEAST fd. n \<le> fd \<and> fd \<notin> used_fds fdp)"

lemma free_fromI: "n \<le> fd \<Longrightarrow> fd \<notin> used_fds fdp \<Longrightarrow> (\<And>m. n \<le> m \<Longrightarrow> m < fd \<Longrightarrow> m \<in> used_fds fdp) \<Longrightarrow> free_from fdp n = fd"
  unfolding free_from_def by (rule Least_equality) (auto simp: not_less [symmetric])

lemma free_from_props:
  "n \<le> free_from fdp n" "free_from fdp n \<notin> used_fds fdp" "n \<le> m \<Longrightarrow> m < free_from fdp n \<Longrightarrow> m \<in> used_fds fdp"
proof -
  have "\<exists>fd. n \<le> fd \<and> fd \<notin> used_fds fdp"
    by (rule exI [of _ "max n (32 * length (fd_lomap fdp))"]) (simp add: used_fds_def)
  from LeastI_ex [OF this] show "n \<le> free_from fdp n" "free_from fdp n \<notin> used_fds fdp" by (simp_all add: free_from_def)
  show "m \<in> used_fds fdp" if "n \<le> m" "m < free_from fdp n"
    using that not_less_Least [of m "\<lambda>fd. n \<le> fd \<and> fd \<notin> used_fds fdp"] by (auto simp: free_from_def)
qed

lemma free_from_skip: "n \<le> m \<Longrightarrow> (\<And>x. n \<le> x \<Longrightarrow> x < m \<Longrightarrow> x \<in> used_fds fdp) \<Longrightarrow> free_from fdp m = free_from fdp n"
  by (rule free_fromI) (meson free_from_props le_trans not_less)+

lemma zbit_himap:
  assumes "fdmap_inv fdp"
  shows "zbit (fd_himap fdp) k \<longleftrightarrow> k < length (fd_lomap fdp) \<and> fd_lomap fdp ! k \<noteq> - 1"
  using assms fdmap_sizesD(1) [of fdp] by (auto simp: fdmap_inv_eq hi_ok_def zbit_def)

lemma full_word_used: "fd_lomap fdp ! (fd div 32) = - 1 \<Longrightarrow> fd < 32 * length (fd_lomap fdp) \<Longrightarrow> fd \<in> used_fds fdp"
  by (simp add: used_fds_def)

lemma zbit_drop: "zbit (drop k m) n \<longleftrightarrow> zbit m (k * 32 + n)"
proof (cases "k \<le> length m")
  case True
  have "(k * 32 + n) div 32 = k + n div 32" "(k * 32 + n) mod 32 = n mod 32" by simp_all
  with True show ?thesis by (auto simp: zbit_def)
qed (simp add: zbit_def)

lemma find_next_zero_oob_bits: "find_next_zero bitmap want bits = Inl e \<Longrightarrow> want \<le> bits"
  by (auto simp: find_next_zero_def split: if_splits)

text \<open>What the two searches of one round of \<^verbatim>\<open>fdalloc\<close> say, from \<open>i\<close> on.\<close>

lemma fd_last_word_free:
  assumes "fdmap_inv fdp" and "fd_slack fdp" and "NDREDUCE (fd_nfiles fdp) \<le> k" and "k < length (fd_lomap fdp)" and "j < 32"
  shows "k * 32 + j \<notin> used_fds fdp" and "zbit (fd_himap fdp) k" and "zbit (fd_lomap fdp) (k * 32 + j)"
proof -
  have free: "k * 32 + x \<notin> used_fds fdp" for x
    using assms(1,3) NDREDUCE_bounds(1) [of "fd_nfiles fdp"] by (auto simp: fdmap_inv_eq)
  then show "k * 32 + j \<notin> used_fds fdp" .
  have "\<not> bit (fd_lomap fdp ! k) 0" using free [of 0] used_fds_word [of 0 k fdp] assms(4) by simp
  then have "fd_lomap fdp ! k \<noteq> - 1" by auto
  then show "zbit (fd_himap fdp) k" using assms(1,4) by (simp add: zbit_himap)
  show "zbit (fd_lomap fdp) (k * 32 + j)" using free assms(4,5) by (simp add: zbit_lomap)
qed

lemma fdalloc_himap_none:
  assumes inv: "fdmap_inv fdp" and lst: "lst \<le> fd_nfiles fdp"
    and none: "find_next_zero (fd_himap fdp) (i div 32) (NDREDUCE lst) = Inr None"
  shows "lst \<le> free_from fdp i"
proof (rule ccontr)
  define F where "F = free_from fdp i"
  assume "\<not> lst \<le> free_from fdp i"
  then have F: "F < lst" "i \<le> F" "F \<notin> used_fds fdp" using free_from_props [where fdp = fdp and n = i] by (auto simp: F_def)
  have sz: "fdmap_sizes fdp" using inv by (simp add: fdmap_inv_eq)
  have len: "F < 32 * length (fd_lomap fdp)" using F(1) lst fdmap_sizesD(2) [OF sz] by linarith
  then have "fd_lomap fdp ! (F div 32) \<noteq> - 1" using full_word_used F(3) by blast
  moreover have "F div 32 < length (fd_lomap fdp)" using len by auto
  ultimately have z: "zbit (fd_himap fdp) (F div 32)" using inv by (simp add: zbit_himap)
  have lo: "i div 32 \<le> F div 32" using F(2) by (rule div_le_mono)
  have "F div 32 < NDREDUCE lst" using F(1) NDREDUCE_bounds(1) [of lst] by auto
  moreover have "NDREDUCE lst \<le> 32 * NDLOSLOTS (NDREDUCE lst)" by (rule NDLOSLOTS_bounds)
  ultimately show False using find_next_zero_None [OF none] z lo by auto
qed

lemma fdalloc_himap_ok:
  assumes inv: "fdmap_inv fdp" and slack: "fd_slack fdp" and lst: "lst \<le> fd_nfiles fdp"
  shows "find_next_zero (fd_himap fdp) (i div 32) (NDREDUCE lst) \<noteq> Inl e"
proof
  assume oob: "find_next_zero (fd_himap fdp) (i div 32) (NDREDUCE lst) = Inl e"
  define k where "k = NDREDUCE (fd_nfiles fdp)"
  have "k < length (fd_lomap fdp)" using slack inv by (simp add: fd_slack_def k_def fdmap_inv_eq fdmap_sizes_def)
  then have "zbit (fd_himap fdp) k" using fd_last_word_free(2) [OF inv slack, of k 0] by (simp add: k_def)
  moreover have "i div 32 \<le> k" using find_next_zero_oob_bits [OF oob] NDREDUCE_mono [OF lst] by (simp add: k_def)
  ultimately show False using find_next_zero_oob [OF oob] by blast
qed

lemma fdalloc_himap_some:
  assumes inv: "fdmap_inv fdp" and some: "find_next_zero (fd_himap fdp) (i div 32) bits = Inr (Some new)"
  defines "w \<equiv> (if new > i div 32 then 0 else i mod 32)"
  shows "i div 32 \<le> new" "new < length (fd_lomap fdp)" "w < 32" "i \<le> new * 32 + w"
    "\<And>x. i \<le> x \<Longrightarrow> x < new * 32 + w \<Longrightarrow> x \<in> used_fds fdp"
proof -
  have nz: "zbit (fd_himap fdp) new" "i div 32 \<le> new" "\<And>m. i div 32 \<le> m \<Longrightarrow> m < new \<Longrightarrow> \<not> zbit (fd_himap fdp) m"
    using find_next_zero_Some [OF some] by (auto simp: next_zero_def)
  show "i div 32 \<le> new" by (rule nz)
  show new: "new < length (fd_lomap fdp)" using nz(1) inv by (simp add: zbit_himap)
  show "w < 32" by (simp add: w_def)
  show "i \<le> new * 32 + w" using nz(2) by (auto simp: w_def)
  show "x \<in> used_fds fdp" if x: "i \<le> x" "x < new * 32 + w" for x
  proof (cases "new > i div 32")
    case True
    then have "x div 32 < new" using x(2) by (auto simp: w_def)
    moreover have "i div 32 \<le> x div 32" using x(1) by (rule div_le_mono)
    ultimately have "\<not> zbit (fd_himap fdp) (x div 32)" "x div 32 < length (fd_lomap fdp)" using nz(3) new by auto
    then show ?thesis using inv by (intro full_word_used) (auto simp: zbit_himap)
  next
    case False
    then have "new * 32 + w = i" using nz(2) div_mult_mod_eq [of i 32] by (simp add: w_def)
    with x show ?thesis by simp
  qed
qed

lemma fdalloc_lomap:
  assumes inv: "fdmap_inv fdp" and slack: "fd_slack fdp" and new: "new < length (fd_lomap fdp)" and w: "w < 32"
    and i: "i \<le> new * 32 + w" "\<And>x. i \<le> x \<Longrightarrow> x < new * 32 + w \<Longrightarrow> x \<in> used_fds fdp"
  shows "case find_next_zero (drop new (fd_lomap fdp)) w NDENTRIES of
      Inl e \<Rightarrow> False
    | Inr None \<Rightarrow> i < (new + 1) * 32 \<and> free_from fdp ((new + 1) * 32) = free_from fdp i
    | Inr (Some j) \<Rightarrow> free_from fdp i = j + new * 32"
proof -
  note spec = find_next_zero_spec [where bitmap = "drop new (fd_lomap fdp)" and want = w and bits = NDENTRIES]
  have lt: "new * 32 + w < (new + 1) * 32" using w by simp
  consider (l) e where "find_next_zero (drop new (fd_lomap fdp)) w NDENTRIES = Inl e"
    | (n) "find_next_zero (drop new (fd_lomap fdp)) w NDENTRIES = Inr None"
    | (s) j where "find_next_zero (drop new (fd_lomap fdp)) w NDENTRIES = Inr (Some j)"
    by (metis not_Some_eq sum.exhaust)
  then show ?thesis
  proof cases
    case l
    define k where "k = length (fd_lomap fdp) - 1"
    have k: "k < length (fd_lomap fdp)" "NDREDUCE (fd_nfiles fdp) \<le> k" "new \<le> k"
      using new slack inv by (auto simp: k_def fd_slack_def fdmap_inv_eq fdmap_sizes_def)
    then have "zbit (fd_lomap fdp) (k * 32 + 31)" by (intro fd_last_word_free(3) [OF inv slack]) simp_all
    moreover have "k * 32 + 31 = new * 32 + ((k - new) * 32 + 31)" using k(3) by (simp add: diff_mult_distrib)
    ultimately have "zbit (drop new (fd_lomap fdp)) ((k - new) * 32 + 31)" by (simp only: zbit_drop)
    moreover have "w \<le> (k - new) * 32 + 31" using w by simp
    ultimately have False using l spec by simp
    then show ?thesis ..
  next
    case n
    have big: "NDENTRIES < 32 * NDLOSLOTS NDENTRIES" by (simp add: kern_defs)
    have none: "x \<in> used_fds fdp" if x: "new * 32 + w \<le> x" "x < (new + 1) * 32" for x
    proof -
      define y where "y = x - new * 32"
      have y: "x = new * 32 + y" "w \<le> y" "y < 32" using x by (auto simp: y_def)
      have "\<not> zbit (drop new (fd_lomap fdp)) y" using spec n y w big by (auto simp: NDENTRIES_def)
      then show ?thesis using y new by (simp add: zbit_drop zbit_lomap)
    qed
    have "free_from fdp ((new + 1) * 32) = free_from fdp i"
      by (rule free_from_skip) (use i lt none in \<open>auto simp: not_less [symmetric] simp del: mult_Suc\<close>)
    with n lt i(1) show ?thesis by simp
  next
    case s
    then have j: "zbit (fd_lomap fdp) (new * 32 + j)" "w \<le> j" "\<And>y. w \<le> y \<Longrightarrow> y < j \<Longrightarrow> \<not> zbit (fd_lomap fdp) (new * 32 + y)"
      using spec by (auto simp: next_zero_def zbit_drop)
    have "x \<in> used_fds fdp" if x: "i \<le> x" "x < new * 32 + j" for x
    proof (cases "x < new * 32 + w")
      case False
      define y where "y = x - new * 32"
      have y: "x = new * 32 + y" "w \<le> y" "y < j" using x False by (auto simp: y_def)
      then have "\<not> zbit (fd_lomap fdp) x" using j(3) by simp
      moreover have "x < 32 * length (fd_lomap fdp)" using j(1) x(2) by (simp add: zbit_def)
      ultimately show ?thesis by (simp add: zbit_lomap)
    qed (use i x in blast)
    then have "free_from fdp i = new * 32 + j" using i(1) j(1,2) by (intro free_fromI) (auto simp: zbit_lomap)
    with s show ?thesis by simp
  qed
qed

definition fd_taken :: "bool \<Rightarrow> nat \<Rightarrow> filedesc \<Rightarrow> filedesc \<Rightarrow> bool" where
  "fd_taken pledge fd fdp fdp' \<longleftrightarrow>
     fdmap_inv fdp' \<and> used_fds fdp' = insert fd (used_fds fdp) \<and> fd_ofiles fdp' = fd_ofiles fdp \<and>
     fd_ofileflags fdp' = (fd_ofileflags fdp)[fd := (if pledge then UF_PLEDGED else 0)] \<and>
     fd_nfiles fdp' = fd_nfiles fdp \<and> fd_refcnt fdp' = fd_refcnt fdp \<and> fd_adv fdp' = fd_adv fdp"

definition fdalloc_ok :: "nat \<Rightarrow> bool \<Rightarrow> nat \<Rightarrow> filedesc \<Rightarrow> fd_panic + (errno + nat \<times> filedesc) \<Rightarrow> bool" where
  "fdalloc_ok lim pledge want fdp r \<longleftrightarrow>
     (let fd = free_from fdp (max want (fd_freefile fdp)) in
      if fd < min (fd_nfiles fdp) lim
      then \<exists>fdp'. r = Inr (Inr (fd, fdp')) \<and> fd_taken pledge fd fdp fdp' \<and>
        (fd_freefile fdp' = fd_freefile fdp \<or> want \<le> fd_freefile fdp \<and> fd_freefile fdp' = fd)
      else r = Inr (Inl (if fd_nfiles fdp \<ge> lim then EMFILE else ENOSPC)))"

lemma fdmap_inv_cong:
  "fd_rest fdp' = fd_rest fdp \<Longrightarrow> fd_himap fdp' = fd_himap fdp \<Longrightarrow> fd_lomap fdp' = fd_lomap fdp \<Longrightarrow>
   fd_lastfile fdp' = fd_lastfile fdp \<Longrightarrow> fd_openfd fdp' = fd_openfd fdp \<Longrightarrow> fdmap_inv fdp' = fdmap_inv fdp"
  by (simp add: fdmap_inv_def fdmap_sizes_def used_fds_def fd_rest_def)

lemma fdmap_inv_upd [simp]:
  "fdmap_inv (fdp\<lparr>fd_freefile := f\<rparr>) = fdmap_inv fdp"
  "length fl = length (fd_ofileflags fdp) \<Longrightarrow> fdmap_inv (fdp\<lparr>fd_ofileflags := fl\<rparr>) = fdmap_inv fdp"
  "length fs = length (fd_ofiles fdp) \<Longrightarrow> fdmap_inv (fdp\<lparr>fd_ofiles := fs\<rparr>) = fdmap_inv fdp"
  "fdmap_inv (fdp\<lparr>fd_refcnt := n\<rparr>) = fdmap_inv fdp" "fdmap_inv (fdp\<lparr>fd_adv := b\<rparr>) = fdmap_inv fdp"
  by (simp_all add: fdmap_inv_def fdmap_sizes_def used_fds_def)

lemma used_fds_upd [simp]:
  "used_fds (fdp\<lparr>fd_freefile := f\<rparr>) = used_fds fdp" "used_fds (fdp\<lparr>fd_ofileflags := fl\<rparr>) = used_fds fdp"
  "used_fds (fdp\<lparr>fd_ofiles := fs\<rparr>) = used_fds fdp" "used_fds (fdp\<lparr>fd_refcnt := n\<rparr>) = used_fds fdp"
  "used_fds (fdp\<lparr>fd_adv := b\<rparr>) = used_fds fdp"
  by (simp_all add: used_fds_def)

lemma fdalloc_found:
  assumes "fdmap_inv fdp" and "fd = free_from fdp n" and "fd < fd_nfiles fdp"
  shows "\<exists>fdp1. fd_used fdp fd = Inr fdp1 \<and> fd_freefile fdp1 = fd_freefile fdp \<and>
     fd_taken pledge fd fdp (fdp1\<lparr>fd_freefile := f, fd_ofileflags := (fd_ofileflags fdp1)[fd := (if pledge then UF_PLEDGED else 0)]\<rparr>)"
  using fd_used_spec [OF assms(1,3)] free_from_props(2) [of fdp n] assms(2) by (auto simp: fd_taken_def dest!: fd_restD)

lemma fdalloc_spec:
  assumes "fdmap_inv fdp" and "fd_slack fdp"
  shows "fdalloc_ok lim pledge want fdp (fdalloc lim pledge want fdp)"
  using assms
proof (induction lim pledge want fdp rule: fdalloc.induct)
  case (1 lim pledge want fdp)
  define lst where "lst = min (fd_nfiles fdp) lim"
  define i where "i = max want (fd_freefile fdp)"
  define F where "F = free_from fdp i"
  define full where "full = (Inr (Inl (if fd_nfiles fdp \<ge> lim then EMFILE else ENOSPC)) :: fd_panic + (errno + nat \<times> filedesc))"
  note unf = fdalloc.simps [of lim pledge want fdp, unfolded Let_def, folded lst_def i_def full_def]
  have ok: "fdalloc_ok lim pledge want fdp r \<longleftrightarrow>
      (if F < lst then \<exists>fdp'. r = Inr (Inr (F, fdp')) \<and> fd_taken pledge F fdp fdp' \<and>
         (fd_freefile fdp' = fd_freefile fdp \<or> want \<le> fd_freefile fdp \<and> fd_freefile fdp' = F) else r = full)" for r
    by (simp add: fdalloc_ok_def Let_def F_def lst_def i_def full_def)
  have lst: "lst \<le> fd_nfiles fdp" by (simp add: lst_def)
  note inv = 1(2) and slack = 1(3)
  consider (n) "find_next_zero (fd_himap fdp) (i div 32) (NDREDUCE lst) = Inr None"
    | (s) new where "find_next_zero (fd_himap fdp) (i div 32) (NDREDUCE lst) = Inr (Some new)"
    using fdalloc_himap_ok [OF inv slack lst, of i] by (metis not_Some_eq sum.exhaust)
  then show ?case
  proof cases
    case n
    then show ?thesis using fdalloc_himap_none [OF inv lst n] by (simp add: unf ok F_def)
  next
    case s
    define w where "w = (if new > i div 32 then 0 else i mod 32)"
    note hs = fdalloc_himap_some [OF inv s, folded w_def]
    note lo = fdalloc_lomap [OF inv slack hs(2,3,4,5)]
    consider (n) "find_next_zero (drop new (fd_lomap fdp)) w NDENTRIES = Inr None"
      | (s) j where "find_next_zero (drop new (fd_lomap fdp)) w NDENTRIES = Inr (Some j)"
      using lo by (cases "find_next_zero (drop new (fd_lomap fdp)) w NDENTRIES") (auto split: option.splits)
    then show ?thesis
    proof cases
      case n2: n
      have skip: "i < (new + 1) * 32" "free_from fdp ((new + 1) * 32) = F" using lo n2 by (auto simp: F_def)
      then have "max ((new + 1) * 32) (fd_freefile fdp) = (new + 1) * 32" by (auto simp: i_def)
      moreover have "fdalloc lim pledge want fdp = fdalloc lim pledge ((new + 1) * 32) fdp" using s n2 by (simp add: unf flip: w_def)
      moreover have "fdalloc_ok lim pledge ((new + 1) * 32) fdp (fdalloc lim pledge ((new + 1) * 32) fdp)"
        using s n2 inv slack by (intro 1(1)) (simp_all add: lst_def i_def w_def)
      moreover have "\<not> (new + 1) * 32 \<le> fd_freefile fdp" using skip(1) by (simp add: i_def)
      ultimately show ?thesis using skip(2) by (auto simp: fdalloc_ok_def Let_def F_def i_def)
    next
      case s2: (s j)
      have F: "F = j + new * 32" using lo s2 by (simp add: F_def)
      show ?thesis
      proof (cases "F < lst")
        case True
        then have "F < fd_nfiles fdp" by (simp add: lst_def)
        from fdalloc_found [OF inv F_def this, of pledge "if want \<le> fd_freefile fdp then F else fd_freefile fdp"]
        show ?thesis using s s2 True by (auto simp: unf ok F simp flip: w_def)
      next
        case False
        then show ?thesis using s s2 by (simp add: unf ok F flip: w_def)
      qed
    qed
  qed
qed

section \<open>Allocating the lowest number\<close>

text \<open>
  The interface of an allocator of the lowest free number not below a wanted one, and what its clients may rely on. \<open>hint\<close>
  holds while everything the allocator skips is in use.
\<close>

locale lowest_alloc =
  fixes inv :: "'s \<Rightarrow> bool" and used :: "'s \<Rightarrow> nat set" and hint :: "'s \<Rightarrow> bool"
    and alloc :: "nat \<Rightarrow> 's \<Rightarrow> (nat \<times> 's) option" and free :: "nat \<Rightarrow> 's \<Rightarrow> 's option"
  assumes alloc_new: "inv s \<Longrightarrow> alloc w s = Some (n, s') \<Longrightarrow> inv s' \<and> w \<le> n \<and> n \<notin> used s \<and> used s' = insert n (used s)"
    and alloc_hint: "inv s \<Longrightarrow> hint s \<Longrightarrow> alloc w s = Some (n, s') \<Longrightarrow> hint s'"
    and alloc_low: "inv s \<Longrightarrow> hint s \<Longrightarrow> alloc w s = Some (n, s') \<Longrightarrow> w \<le> m \<Longrightarrow> m < n \<Longrightarrow> m \<in> used s"
    and free_ok: "inv s \<Longrightarrow> n \<in> used s \<Longrightarrow> \<exists>s'. free n s = Some s' \<and> inv s' \<and> used s' = used s - {n}"
    and free_hint: "inv s \<Longrightarrow> hint s \<Longrightarrow> n \<in> used s \<Longrightarrow> free n s = Some s' \<Longrightarrow> hint s'"
begin

lemma alloc_is_least:
  assumes "inv s" and "hint s" and "alloc w s = Some (n, s')"
  shows "n = (LEAST m. w \<le> m \<and> m \<notin> used s)"
proof (rule Least_equality [symmetric])
  show "w \<le> n \<and> n \<notin> used s" using alloc_new [OF assms(1,3)] by simp
  show "n \<le> m" if "w \<le> m \<and> m \<notin> used s" for m using alloc_low [OF assms, of m] that by (meson not_less)
qed

text \<open>Giving back what was just allocated restores the set, and the next request gets it again.\<close>

lemma free_alloc:
  assumes "inv s" and "hint s" and a: "alloc w s = Some (n, s1)" and f: "free n s1 = Some s2" and again: "alloc w s2 = Some (n', s3)"
  shows "used s2 = used s \<and> n' = n"
proof -
  have n: "inv s1" "hint s1" "n \<notin> used s" "used s1 = insert n (used s)"
    using alloc_new [OF assms(1) a] alloc_hint [OF assms(1,2) a] by auto
  have s2: "inv s2" "hint s2" "used s2 = used s"
    using free_ok [OF n(1), of n] free_hint [OF n(1,2) _ f] n f by auto
  have "n' = (LEAST m. w \<le> m \<and> m \<notin> used s2)" "n = (LEAST m. w \<le> m \<and> m \<notin> used s)"
    by (rule alloc_is_least [OF s2(1,2) again], rule alloc_is_least [OF assms(1,2) a])
  with s2(3) show ?thesis by simp
qed

text \<open>A freed number is reused before any higher one.\<close>

lemma freed_first:
  assumes "inv s" and "hint s" and "n \<in> used s" and f: "free n s = Some s1" and a: "alloc w s1 = Some (n', s2)" and "w \<le> n"
  shows "n' \<le> n"
proof -
  have "inv s1" "hint s1" "n \<notin> used s1" using free_ok [OF assms(1,3)] free_hint [OF assms(1-3) f] f by auto
  then show ?thesis using alloc_low [OF _ _ a assms(6)] by (meson not_less)
qed

end

definition fd_hint :: "filedesc \<Rightarrow> bool" where
  "fd_hint fdp \<longleftrightarrow> {..<fd_freefile fdp} \<subseteq> used_fds fdp"

definition fd_ready :: "filedesc \<Rightarrow> bool" where
  "fd_ready fdp \<longleftrightarrow> fdmap_inv fdp \<and> fd_nfiles fdp < 25600"

definition fd_try :: "nat \<Rightarrow> bool \<Rightarrow> nat \<Rightarrow> filedesc \<Rightarrow> (nat \<times> filedesc) option" where
  "fd_try lim pledge want fdp = (case fdalloc lim pledge want fdp of Inr (Inr r) \<Rightarrow> Some r | _ \<Rightarrow> None)"

definition fd_clear :: "nat \<Rightarrow> filedesc \<Rightarrow> filedesc option" where
  "fd_clear fd fdp = (case fd_unused fdp fd of Inr fdp' \<Rightarrow> Some fdp' | _ \<Rightarrow> None)"

lemma fd_ready_slack: "fd_ready fdp \<Longrightarrow> fd_slack fdp"
  by (simp add: fd_ready_def fd_slack_below fdmap_inv_eq)

lemma fd_try_Some:
  assumes "fd_ready fdp" and "fd_try lim pledge want fdp = Some (fd, fdp')"
  shows "fd = free_from fdp (max want (fd_freefile fdp))" and "fd_taken pledge fd fdp fdp'"
    and "fd_freefile fdp' = fd_freefile fdp \<or> want \<le> fd_freefile fdp \<and> fd_freefile fdp' = fd"
  using fdalloc_spec [of fdp lim pledge want] fd_ready_slack [OF assms(1)] assms
  by (auto simp: fd_ready_def fdalloc_ok_def fd_try_def Let_def split: sum.splits if_splits)

lemma fd_clear_ok:
  assumes "fd_ready fdp" and "fd \<in> used_fds fdp"
  shows "\<exists>fdp'. fd_clear fd fdp = Some fdp' \<and> fd_ready fdp' \<and> used_fds fdp' = used_fds fdp - {fd} \<and> fd_freefile fdp' = min fd (fd_freefile fdp)"
  using fd_unused_spec [of fdp fd] assms by (auto simp: fd_clear_def fd_ready_def dest: fd_restD)

lemma fd_try_low:
  assumes "fd_ready fdp" and "fd_hint fdp" and "fd_try lim pledge w fdp = Some (n, fdp')" and "w \<le> m" and "m < n"
  shows "m \<in> used_fds fdp"
proof (cases "m < fd_freefile fdp")
  case False
  then show ?thesis
    using assms(4,5) fd_try_Some(1) [OF assms(1,3)] free_from_props(3) [of "max w (fd_freefile fdp)" m fdp] by simp
qed (use assms(2) in \<open>auto simp: fd_hint_def\<close>)

interpretation fdm: lowest_alloc fd_ready used_fds fd_hint "fd_try lim pledge" fd_clear for lim pledge
proof
  fix w n m :: nat and fdp fdp' :: filedesc
  assume r: "fd_ready fdp"
  { assume t: "fd_try lim pledge w fdp = Some (n, fdp')"
    note s = fd_try_Some [OF r t]
    show "fd_ready fdp' \<and> w \<le> n \<and> n \<notin> used_fds fdp \<and> used_fds fdp' = insert n (used_fds fdp)"
      using s(1,2) r free_from_props(1,2) [where fdp = fdp and n = "max w (fd_freefile fdp)"] by (auto simp: fd_ready_def fd_taken_def)
    assume h: "fd_hint fdp"
    show "w \<le> m \<Longrightarrow> m < n \<Longrightarrow> m \<in> used_fds fdp" by (rule fd_try_low [OF r h t])
    show "fd_hint fdp'"
    proof -
      have "used_fds fdp' = insert n (used_fds fdp)" using s(2) by (simp add: fd_taken_def)
      moreover have "x \<in> used_fds fdp" if "x < n" "w \<le> fd_freefile fdp" for x
        using that h fd_try_low [OF r h t, of x] by (cases "w \<le> x") (auto simp: fd_hint_def)
      ultimately show ?thesis using s(3) h by (auto simp: fd_hint_def)
    qed }
  { assume u: "n \<in> used_fds fdp"
    then obtain s' where s': "fd_clear n fdp = Some s'" "fd_ready s'" "used_fds s' = used_fds fdp - {n}" "fd_freefile s' = min n (fd_freefile fdp)"
      using fd_clear_ok [OF r] by blast
    then show "\<exists>s'. fd_clear n fdp = Some s' \<and> fd_ready s' \<and> used_fds s' = used_fds fdp - {n}" by blast
    show "fd_hint fdp \<Longrightarrow> fd_clear n fdp = Some fdp' \<Longrightarrow> fd_hint fdp'" using s' by (auto simp: fd_hint_def) }
qed

section \<open>Properties\<close>

lemma fdalloc_least_aux:
  assumes "fd_ready fdp" and "fd_hint fdp"
  shows "case fdalloc lim pledge want fdp of
      Inl e \<Rightarrow> False
    | Inr (Inl err) \<Rightarrow> (\<forall>fd \<ge> want. fd < min (fd_nfiles fdp) lim \<longrightarrow> fd \<in> used_fds fdp) \<and> err = (if fd_nfiles fdp \<ge> lim then EMFILE else ENOSPC)
    | Inr (Inr (fd, fdp')) \<Rightarrow> fd = (LEAST n. want \<le> n \<and> n \<notin> used_fds fdp) \<and> fd < min (fd_nfiles fdp) lim \<and>
        fd_taken pledge fd fdp fdp' \<and> fd_hint fdp'"
proof -
  have "fdalloc_ok lim pledge want fdp (fdalloc lim pledge want fdp)"
    using assms(1) fd_ready_slack by (intro fdalloc_spec) (auto simp: fd_ready_def)
  then consider (full) "\<not> free_from fdp (max want (fd_freefile fdp)) < min (fd_nfiles fdp) lim"
      "fdalloc lim pledge want fdp = Inr (Inl (if fd_nfiles fdp \<ge> lim then EMFILE else ENOSPC))"
    | (got) fd fdp' where "fd < min (fd_nfiles fdp) lim" "fd_taken pledge fd fdp fdp'" "fdalloc lim pledge want fdp = Inr (Inr (fd, fdp'))"
    by (auto simp: fdalloc_ok_def Let_def split: if_splits)
  then show ?thesis
  proof cases
    case full
    have "fd \<in> used_fds fdp" if "want \<le> fd" "fd < min (fd_nfiles fdp) lim" for fd
      using that full(1) assms(2) free_from_props(3) [of "max want (fd_freefile fdp)" fd fdp]
      by (cases "fd < fd_freefile fdp") (auto simp: fd_hint_def)
    then show ?thesis unfolding full(2) by auto
  next
    case got
    then have t: "fd_try lim pledge want fdp = Some (fd, fdp')" by (simp add: fd_try_def)
    show ?thesis using got fdm.alloc_is_least [OF assms t] fdm.alloc_hint [OF assms t] by simp
  qed
qed


lemma fdinit_hint: "fd_hint fdinit"
  by (simp add: fd_hint_def fdinit_def)


text \<open>A table of 25600 descriptors that are all in use makes \<^verbatim>\<open>fdalloc\<close> read past the end of \<^verbatim>\<open>fd_himap\<close>: the loop of
  \<^verbatim>\<open>find_next_zero\<close> runs to \<^verbatim>\<open>NDLOSLOTS(bits)\<close> words although the map has \<^verbatim>\<open>NDHISLOTS\<close> of them.\<close>

theorem fdalloc_overrun:
  assumes "fdmap_inv fdp" and "fd_nfiles fdp = 25600" and "used_fds fdp = {..<25600}" and "fd_freefile fdp < 25600" and "lim > 25600" and "want \<le> 25600"
  shows "fdalloc lim pledge want fdp = Inl Fd_oob"
proof -
  define off where "off = max want (fd_freefile fdp) div 32"
  have off: "off \<le> 800" using assms(4,6) by (auto simp: off_def)
  have len: "length (fd_himap fdp) = 25" "length (fd_lomap fdp) = 800"
    using assms(1,2) by (simp_all add: fdmap_inv_eq fdmap_sizes_def kern_defs)
  have full: "\<not> zbit (fd_himap fdp) k" for k
  proof
    assume z: "zbit (fd_himap fdp) k"
    then have "k < 800" "fd_lomap fdp ! k \<noteq> - 1" using assms(1) len by (simp_all add: zbit_himap)
    then obtain j where "j < 32" "\<not> bit (fd_lomap fdp ! k) j" by (auto simp: word_full)
    then have "k * 32 + j \<notin> used_fds fdp" "k * 32 + j < 25600" using \<open>k < 800\<close> by (simp_all add: used_fds_word)
    with assms(3) show False by simp
  qed
  have bits: "NDREDUCE (min (fd_nfiles fdp) lim) = 800" "NDLOSLOTS 800 = 32" using assms(2,5) by (simp_all add: kern_defs)
  have words: "fd_himap fdp ! k = - 1" if "k < 25" for k
    unfolding word_full
  proof (intro allI impI)
    fix j :: nat assume "j < 32"
    then show "bit (fd_himap fdp ! k) j" using full [of "k * 32 + j"] that len by (simp add: zbit_word)
  qed
  have loop: "find_zero_loop (fd_himap fdp) k 32 = Inl Fd_oob" if "k \<le> 25" for k
    using that
  proof (induction rule: inc_induct)
    case (step k)
    then show ?case by (subst find_zero_loop.simps) (simp add: len words)
  qed (subst find_zero_loop.simps, simp add: len)
  have "find_next_zero (fd_himap fdp) off 800 = Inl Fd_oob"
  proof (cases "off mod 32 = 0")
    case True
    then show ?thesis using off loop [of "off div 32"] by (simp add: find_next_zero_def find_zero_words_def bits(2))
  next
    case False
    then have "off \<noteq> 800" by auto
    then have "off div 32 < 25" using off by auto
    then show ?thesis using off False loop [of "off div 32 + 1"] words len
      by (simp add: find_next_zero_def find_zero_words_def bits(2) Let_def)
  qed
  then show ?thesis by (subst fdalloc.simps) (simp add: Let_def bits flip: off_def)
qed

definition fd_full :: filedesc where
  "fd_full = \<lparr>fd_ofiles = replicate 25600 (Some 0), fd_ofileflags = replicate 25600 0, fd_nfiles = 25600, fd_openfd = 25600,
     fd_himap = replicate 25 (- 1), fd_lomap = replicate 800 (- 1), fd_lastfile = 25599, fd_freefile = 25599, fd_refcnt = 1, fd_adv = False\<rparr>"

lemma fd_full_inv: "fdmap_inv fd_full" "used_fds fd_full = {..<25600}"
proof -
  show used: "used_fds fd_full = {..<25600}" by (auto simp: used_fds_def fd_full_def)
  have "25600 = NDEXTENT * 2 ^ 9" by (simp add: NDEXTENT_def)
  then have "fdmap_sizes fd_full" unfolding fdmap_sizes_def by (auto simp: fd_full_def kern_defs intro: exI [of _ 9])
  then show "fdmap_inv fd_full" unfolding fdmap_inv_eq used by (auto simp: fd_full_def hi_ok_def)
qed

theorem fdalloc_overrun_witness:
  "fdmap_inv fd_full \<and> used_fds fd_full = {..<25600} \<and> fdalloc 30000 False 0 fd_full = Inl Fd_oob"
  using fdalloc_overrun [of fd_full 30000 0 False] fd_full_inv by (simp add: fd_full_def)

end
