(* ===== verification/Fd_Table.thy ===== *)
theory Fd_Table
  imports Fd_Map
begin

text \<open>
  File descriptor tables and open files (\<^verbatim>\<open>kern/kern_descrip.c\<close>, \<^verbatim>\<open>sys/file.h\<close>): reference counts (\<^verbatim>\<open>FREF\<close>, \<^verbatim>\<open>FRELE\<close>, \<^verbatim>\<open>closef\<close>,
  \<^verbatim>\<open>fdrop\<close>), lookup, insertion and removal, duplication (\<^verbatim>\<open>dup\<close>, \<^verbatim>\<open>dup2\<close>, \<^verbatim>\<open>dup3\<close>, \<^verbatim>\<open>F_DUPFD\<close>), closing, and the creation, copying and
  release of tables.

  \<^item> The state holds every table of the system (\<open>None\<close> once it is freed), the allocated \<^verbatim>\<open>struct file\<close>s, the list
    \<^verbatim>\<open>filehead\<close> and the counter \<^verbatim>\<open>numfiles\<close>. A table is named by its position, an open file by its address.
  \<^item> Using a file after it was freed is the left value \<open>Fd_freed\<close>; decrementing a count of 0 fails as \<open>Kassert_count\<close>.
  \<^item> What the code asks of other subsystems is recorded in \<open>fs_ev\<close>: closing the object behind a file (\<^verbatim>\<open>fo_close\<close>), releasing
    the POSIX locks of the process on a vnode (\<^verbatim>\<open>VOP_ADVLOCK\<close>), detaching the knotes of a descriptor (\<^verbatim>\<open>knote_fdclose\<close>).
  \<^item> \<open>lim\<close> is the smaller of the resource limit and \<^verbatim>\<open>maxfiles\<close>.
\<close>

section \<open>State\<close>

definition DTYPE_VNODE :: nat where [kern_defs]: "DTYPE_VNODE = 1"
definition DTYPE_KQUEUE :: nat where [kern_defs]: "DTYPE_KQUEUE = 4"

definition FREAD :: u32 where [kern_defs]: "FREAD = 0x0001"
definition FWRITE :: u32 where [kern_defs]: "FWRITE = 0x0002"

text \<open>\<open>f_ins\<close> and \<open>f_haslock\<close> are the bits \<^verbatim>\<open>FIF_INSERTED\<close> and \<^verbatim>\<open>FIF_HASLOCK\<close> of \<^verbatim>\<open>f_iflags\<close>, \<open>f_data\<close> is the vnode; \<^verbatim>\<open>f_ops\<close> is set together with
  \<open>f_type\<close>, so it is NULL when the type is 0.\<close>

record open_file =
  f_flag :: u32
  f_ins :: bool
  f_haslock :: bool
  f_type :: nat
  f_count :: nat
  f_data :: nat

datatype fd_event = Ev_close nat | Ev_unlock nat nat | Ev_knote nat nat

record fdsys =
  fs_fds :: "filedesc option list"
  fs_file :: "nat \<Rightarrow> open_file option"
  fs_head :: "nat list"
  numfiles :: nat
  fs_ev :: "fd_event list"

definition fdt :: "fdsys \<Rightarrow> nat \<Rightarrow> filedesc" where
  "fdt st p = the (fs_fds st ! p)"

definition set_fdt :: "nat \<Rightarrow> filedesc \<Rightarrow> fdsys \<Rightarrow> fdsys" where
  "set_fdt p fdp st = st\<lparr>fs_fds := (fs_fds st)[p := Some fdp]\<rparr>"

definition fd_event :: "fd_event \<Rightarrow> fdsys \<Rightarrow> fdsys" where
  "fd_event ev st = st\<lparr>fs_ev := fs_ev st @ [ev]\<rparr>"

definition set_file :: "nat \<Rightarrow> open_file \<Rightarrow> fdsys \<Rightarrow> fdsys" where
  "set_file f fp st = st\<lparr>fs_file := (fs_file st)(f \<mapsto> fp)\<rparr>"

text \<open>\<^verbatim>\<open>MAXCPUS\<close> is 256 on a multiprocessor arm64.\<close>

definition FDUP_MAX_COUNT :: nat where [kern_defs]: "FDUP_MAX_COUNT = 2 ^ 32 - 1 - 2 * 256"

section \<open>References\<close>

definition FREF :: "nat \<Rightarrow> fdsys \<Rightarrow> fd_panic + fdsys" where
  "FREF f st =
     (case fs_file st f of
        None \<Rightarrow> Inl Fd_freed
      | Some fp \<Rightarrow> Inr (set_file f (fp\<lparr>f_count := f_count fp + 1\<rparr>) st))"

definition fdrop :: "nat \<Rightarrow> fdsys \<Rightarrow> fd_panic + fdsys" where
  "fdrop f st =
     (case fs_file st f of
        None \<Rightarrow> Inl Fd_freed
      | Some fp \<Rightarrow>
          if f_count fp \<noteq> 0 then Inl Kassert_count
          else
            let st1 = (if f_ins fp then st\<lparr>fs_head := filter (\<lambda>x. x \<noteq> f) (fs_head st)\<rparr> else st);
                st2 = (if f_type fp \<noteq> 0 then fd_event (Ev_close f) st1 else st1)
            in Inr (st2\<lparr>numfiles := numfiles st2 - 1, fs_file := (fs_file st2)(f := None)\<rparr>))"

definition FRELE :: "nat \<Rightarrow> fdsys \<Rightarrow> fd_panic + fdsys" where
  "FRELE f st =
     (case fs_file st f of
        None \<Rightarrow> Inl Fd_freed
      | Some fp \<Rightarrow>
          if f_count fp = 0 then Inl Kassert_count
          else
            let st1 = set_file f (fp\<lparr>f_count := f_count fp - 1\<rparr>) st
            in if f_count fp - 1 = 0 then fdrop f st1 else Inr st1)"

text \<open>\<^verbatim>\<open>closef(fp, p)\<close> for a process with the table \<open>p\<close>.\<close>

definition closef :: "nat \<Rightarrow> nat \<Rightarrow> fdsys \<Rightarrow> fd_panic + fdsys" where
  "closef p f st =
     (case fs_file st f of
        None \<Rightarrow> Inl Fd_freed
      | Some fp \<Rightarrow>
          if \<not> f_count fp \<ge> 2 then Inl Kassert_count
          else
            let st1 = set_file f (fp\<lparr>f_count := f_count fp - 1\<rparr>) st;
                st2 = (if fd_adv (fdt st1 p) \<and> f_type fp = DTYPE_VNODE then fd_event (Ev_unlock (f_data fp) p) st1 else st1)
            in FRELE f st2)"

section \<open>Lookup, insertion and removal\<close>

text \<open>\<^verbatim>\<open>fd_iterfile\<close>: the next file of the list whose count is not 0, with a reference; the reference to the previous one is released.\<close>

definition fd_iterfile :: "nat option \<Rightarrow> fdsys \<Rightarrow> fd_panic + nat option \<times> fdsys" where
  "fd_iterfile fp st =
     (let rest = (case fp of None \<Rightarrow> fs_head st | Some f \<Rightarrow> tl (dropWhile (\<lambda>x. x \<noteq> f) (fs_head st)));
          nfp = List.find (\<lambda>g. case fs_file st g of Some gp \<Rightarrow> f_count gp \<noteq> 0 | None \<Rightarrow> False) rest;
          rele = (\<lambda>st. case fp of None \<Rightarrow> Inr st | Some f \<Rightarrow> FRELE f st)
      in case nfp of
           None \<Rightarrow> map_sum (\<lambda>e. e) (Pair None) (rele st)
         | Some g \<Rightarrow> (case FREF g st of Inl e \<Rightarrow> Inl e | Inr st1 \<Rightarrow> map_sum (\<lambda>e. e) (Pair (Some g)) (rele st1)))"

text \<open>A descriptor argument is the value of the cast to \<^verbatim>\<open>u_int\<close>.\<close>

definition fd_getfile :: "nat \<Rightarrow> nat \<Rightarrow> fdsys \<Rightarrow> fd_panic + nat option \<times> fdsys" where
  "fd_getfile p fd st =
     (if fd \<ge> fd_nfiles (fdt st p) then Inr (None, st)
      else
        case fd_ofiles (fdt st p) ! fd of
          None \<Rightarrow> Inr (None, st)
        | Some f \<Rightarrow> map_sum (\<lambda>e. e) (Pair (Some f)) (FREF f st))"

definition fd_getfile_mode :: "nat \<Rightarrow> nat \<Rightarrow> u32 \<Rightarrow> fdsys \<Rightarrow> fd_panic + nat option \<times> fdsys" where
  "fd_getfile_mode p fd mode st =
     (if mode = 0 then Inl Kassert_mode
      else
        case fd_getfile p fd st of
          Inl e \<Rightarrow> Inl e
        | Inr (None, st1) \<Rightarrow> Inr (None, st1)
        | Inr (Some f, st1) \<Rightarrow>
            (case fs_file st1 f of
               None \<Rightarrow> Inl Fd_freed
             | Some fp \<Rightarrow> if f_flag fp AND mode = 0 then map_sum (\<lambda>e. e) (Pair None) (FRELE f st1) else Inr (Some f, st1)))"

definition fd_checkclosed :: "nat \<Rightarrow> nat \<Rightarrow> nat \<Rightarrow> fdsys \<Rightarrow> fd_panic + bool" where
  "fd_checkclosed p fd f st =
     (if \<not> fd < fd_nfiles (fdt st p) then Inl Kassert_nfiles else Inr (fd_ofiles (fdt st p) ! fd \<noteq> Some f))"

definition insert_after :: "nat \<Rightarrow> nat \<Rightarrow> nat list \<Rightarrow> nat list" where
  "insert_after fq f xs = takeWhile (\<lambda>x. x \<noteq> fq) xs @ fq # f # tl (dropWhile (\<lambda>x. x \<noteq> fq) xs)"

definition fd_store :: "nat \<Rightarrow> nat option \<Rightarrow> u8 \<Rightarrow> filedesc \<Rightarrow> filedesc" where
  "fd_store fd f fl fdp = fdp\<lparr>fd_ofiles := (fd_ofiles fdp)[fd := f], fd_ofileflags := (fd_ofileflags fdp)[fd := fl]\<rparr>"

definition fdinsert :: "nat \<Rightarrow> nat \<Rightarrow> u8 \<Rightarrow> nat \<Rightarrow> fdsys \<Rightarrow> fd_panic + fdsys" where
  "fdinsert p fd flags f st =
     (case fs_file st f of
        None \<Rightarrow> Inl Fd_freed
      | Some fp \<Rightarrow>
          let fdp = fdt st p;
              st1 = (if f_ins fp then st
                else (set_file f (fp\<lparr>f_ins := True\<rparr>) st)\<lparr>fs_head :=
                  (case fd_ofiles fdp ! 0 of Some fq \<Rightarrow> insert_after fq f (fs_head st) | None \<Rightarrow> f # fs_head st)\<rparr>)
          in if fd \<ge> fd_nfiles fdp then Inl Fd_oob
             else if fd_ofiles fdp ! fd \<noteq> None then Inl Kassert_empty
             else Inr (set_fdt p (fd_store fd (Some f)
               (fd_ofileflags fdp ! fd OR (flags AND (UF_EXCLOSE OR UF_FORKCLOSE OR UF_PLEDGEOPEN))) fdp) st1))"

definition fdremove :: "nat \<Rightarrow> nat \<Rightarrow> fdsys \<Rightarrow> fd_panic + fdsys" where
  "fdremove p fd st =
     (if fd \<ge> fd_nfiles (fdt st p) then Inl Fd_oob
      else map_sum (\<lambda>e. e) (\<lambda>fdp. set_fdt p fdp st) (fd_unused (fd_store fd None 0 (fdt st p)) fd))"

text \<open>\<^verbatim>\<open>fdrelease\<close>: the result is the error \<^verbatim>\<open>EBADF\<close>, or none; what \<^verbatim>\<open>fo_close\<close> returns is left out.\<close>

definition fdrelease :: "nat \<Rightarrow> nat \<Rightarrow> fdsys \<Rightarrow> fd_panic + errno option \<times> fdsys" where
  "fdrelease p fd st =
     (case fd_getfile p fd st of
        Inl e \<Rightarrow> Inl e
      | Inr (None, st1) \<Rightarrow> Inr (Some EBADF, st1)
      | Inr (Some f, st1) \<Rightarrow>
          (case fdremove p fd st1 of
             Inl e \<Rightarrow> Inl e
           | Inr st2 \<Rightarrow> map_sum (\<lambda>e. e) (Pair None) (closef p f (fd_event (Ev_knote p fd) st2))))"

definition sys_close :: "nat \<Rightarrow> nat \<Rightarrow> fdsys \<Rightarrow> fd_panic + errno option \<times> fdsys" where
  "sys_close p fd st = fdrelease p fd st"

section \<open>Duplication\<close>

definition dup_flags :: "bool \<Rightarrow> bool \<Rightarrow> u8 \<Rightarrow> u8" where
  "dup_flags cloexec clofork fl =
     (fl AND NOT (UF_EXCLOSE OR UF_FORKCLOSE)) OR (if cloexec then UF_EXCLOSE else 0) OR (if clofork then UF_FORKCLOSE else 0)"

text \<open>
  \<^verbatim>\<open>finishdup\<close>: the flags \<^verbatim>\<open>DUPF_DUP2\<close>, \<^verbatim>\<open>DUPF_CLOEXEC\<close> and \<^verbatim>\<open>DUPF_CLOFORK\<close> are the three booleans. The caller's reference to
  \<open>f\<close> becomes that of the new descriptor, or is released.
\<close>

definition finishdup ::
  "nat \<Rightarrow> nat \<Rightarrow> nat \<Rightarrow> nat \<Rightarrow> bool \<Rightarrow> bool \<Rightarrow> bool \<Rightarrow> fdsys \<Rightarrow> fd_panic + (errno + nat) \<times> fdsys" where
  "finishdup p f old new dup2 cloexec clofork st =
     (case fs_file st f of
        None \<Rightarrow> Inl Fd_freed
      | Some fp \<Rightarrow>
          if \<not> f_ins fp then Inl Kassert_inserted
          else if f_count fp \<ge> FDUP_MAX_COUNT then map_sum (\<lambda>e. e) (Pair (Inl EDEADLK)) (FRELE f st)
          else
            case fd_getfile p new st of
              Inl e \<Rightarrow> Inl e
            | Inr (oldfp, st1) \<Rightarrow>
                (case (if dup2 \<and> oldfp = None then fd_inuse (fdt st1 p) new else Inr False) of
                   Inl e \<Rightarrow> Inl e
                 | Inr True \<Rightarrow> map_sum (\<lambda>e. e) (Pair (Inl EBUSY)) (FRELE f st1)
                 | Inr False \<Rightarrow>
                     (case (if dup2 \<and> oldfp = None then fd_used (fdt st1 p) new else Inr (fdt st1 p)) of
                        Inl e \<Rightarrow> Inl e
                      | Inr fdp \<Rightarrow>
                          if new \<ge> fd_nfiles fdp \<or> old \<ge> fd_nfiles fdp then Inl Fd_oob
                          else
                            let st2 = set_fdt p (fd_store new (Some f) (dup_flags cloexec clofork (fd_ofileflags fdp ! old)) fdp) st1
                            in case oldfp of
                                 None \<Rightarrow> Inr (Inr new, st2)
                               | Some g \<Rightarrow> map_sum (\<lambda>e. e) (Pair (Inr new)) (closef p g (fd_event (Ev_knote p new) st2)))))"

text \<open>
  The part of \<^verbatim>\<open>sys_dup\<close> and \<^verbatim>\<open>F_DUPFD\<close> that runs with the table locked, after \<^verbatim>\<open>fd_getfile\<close> has taken a reference to \<open>f\<close>:
  \<open>None\<close> is \<^verbatim>\<open>goto restart\<close>.
\<close>

definition dup_locked ::
  "nat \<Rightarrow> bool \<Rightarrow> nat \<Rightarrow> nat \<Rightarrow> nat \<Rightarrow> nat \<Rightarrow> bool \<Rightarrow> bool \<Rightarrow> fdsys \<Rightarrow> fd_panic + (errno + nat) option \<times> fdsys" where
  "dup_locked lim pledge p f old want cloexec clofork st =
     (case fdalloc lim pledge want (fdt st p) of
        Inl e \<Rightarrow> Inl e
      | Inr (Inl err) \<Rightarrow>
          if err = ENOSPC then map_sum (\<lambda>e. e) (Pair None) (FRELE f (set_fdt p (fdexpand (fdt st p)) st))
          else map_sum (\<lambda>e. e) (Pair (Some (Inl err))) (FRELE f st)
      | Inr (Inr (new, fdp)) \<Rightarrow>
          map_sum (\<lambda>e. e) (map_prod Some (\<lambda>st. st)) (finishdup p f old new False cloexec clofork (set_fdt p fdp st)))"

text \<open>The locked part of \<^verbatim>\<open>dodup3\<close>.\<close>

definition dup3_locked ::
  "nat \<Rightarrow> bool \<Rightarrow> nat \<Rightarrow> nat \<Rightarrow> nat \<Rightarrow> nat \<Rightarrow> bool \<Rightarrow> bool \<Rightarrow> fdsys \<Rightarrow> fd_panic + (errno + nat) option \<times> fdsys" where
  "dup3_locked lim pledge p f old new cloexec clofork st =
     (let fin = (\<lambda>st. map_sum (\<lambda>e. e) (map_prod Some (\<lambda>st. st)) (finishdup p f old new True cloexec clofork st)) in
      if new \<ge> fd_nfiles (fdt st p) then
        (case fdalloc lim pledge new (fdt st p) of
           Inl e \<Rightarrow> Inl e
         | Inr (Inl err) \<Rightarrow>
             if err = ENOSPC then map_sum (\<lambda>e. e) (Pair None) (FRELE f (set_fdt p (fdexpand (fdt st p)) st))
             else map_sum (\<lambda>e. e) (Pair (Some (Inl err))) (FRELE f st)
         | Inr (Inr (i, fdp)) \<Rightarrow>
             if new \<noteq> i then Inl Panic_dup2
             else case fd_unused fdp new of Inl e \<Rightarrow> Inl e | Inr fdp1 \<Rightarrow> fin (set_fdt p fdp1 st))
      else fin st)"

text \<open>
  One round of each call: \<^verbatim>\<open>sys_dup\<close> with \<^verbatim>\<open>F_DUPFD\<close> (which first checks its argument), and \<^verbatim>\<open>dodup3\<close>.
\<close>

definition dup_round ::
  "nat \<Rightarrow> bool \<Rightarrow> nat \<Rightarrow> nat \<Rightarrow> nat \<Rightarrow> bool \<Rightarrow> bool \<Rightarrow> fdsys \<Rightarrow> fd_panic + (errno + nat) option \<times> fdsys" where
  "dup_round lim pledge p old want cloexec clofork st =
     (case fd_getfile p old st of
        Inl e \<Rightarrow> Inl e
      | Inr (None, st1) \<Rightarrow> Inr (Some (Inl EBADF), st1)
      | Inr (Some f, st1) \<Rightarrow> dup_locked lim pledge p f old want cloexec clofork st1)"

definition dupfd_round ::
  "nat \<Rightarrow> bool \<Rightarrow> nat \<Rightarrow> nat \<Rightarrow> nat \<Rightarrow> bool \<Rightarrow> bool \<Rightarrow> fdsys \<Rightarrow> fd_panic + (errno + nat) option \<times> fdsys" where
  "dupfd_round lim pledge p old newmin cloexec clofork st =
     (case fd_getfile p old st of
        Inl e \<Rightarrow> Inl e
      | Inr (None, st1) \<Rightarrow> Inr (Some (Inl EBADF), st1)
      | Inr (Some f, st1) \<Rightarrow>
          if newmin \<ge> lim then map_sum (\<lambda>e. e) (Pair (Some (Inl EINVAL))) (FRELE f st1)
          else dup_locked lim pledge p f old newmin cloexec clofork st1)"

definition dup3_round ::
  "nat \<Rightarrow> bool \<Rightarrow> nat \<Rightarrow> nat \<Rightarrow> nat \<Rightarrow> bool \<Rightarrow> bool \<Rightarrow> fdsys \<Rightarrow> fd_panic + (errno + nat) option \<times> fdsys" where
  "dup3_round lim pledge p old new cloexec clofork st =
     (case fd_getfile p old st of
        Inl e \<Rightarrow> Inl e
      | Inr (None, st1) \<Rightarrow> Inr (Some (Inl EBADF), st1)
      | Inr (Some f, st1) \<Rightarrow>
          if old = new then map_sum (\<lambda>e. e) (Pair (Some (Inr new))) (FRELE f st1)
          else if new \<ge> lim then map_sum (\<lambda>e. e) (Pair (Some (Inl EBADF))) (FRELE f st1)
          else dup3_locked lim pledge p f old new cloexec clofork st1)"

text \<open>The jumps back to \<^verbatim>\<open>restart\<close>.\<close>

partial_function (option) fd_restart ::
  "(fdsys \<Rightarrow> fd_panic + (errno + nat) option \<times> fdsys) \<Rightarrow> fdsys \<Rightarrow> (fd_panic + (errno + nat) \<times> fdsys) option" where
  "fd_restart round st =
     (case round st of
        Inl e \<Rightarrow> Some (Inl e)
      | Inr (Some r, st1) \<Rightarrow> Some (Inr (r, st1))
      | Inr (None, st1) \<Rightarrow> fd_restart round st1)"

definition sys_dup :: "nat \<Rightarrow> bool \<Rightarrow> nat \<Rightarrow> nat \<Rightarrow> fdsys \<Rightarrow> (fd_panic + (errno + nat) \<times> fdsys) option" where
  "sys_dup lim pledge p old = fd_restart (dup_round lim pledge p old 0 False False)"

definition fcntl_dupfd :: "nat \<Rightarrow> bool \<Rightarrow> nat \<Rightarrow> nat \<Rightarrow> nat \<Rightarrow> bool \<Rightarrow> bool \<Rightarrow> fdsys \<Rightarrow> (fd_panic + (errno + nat) \<times> fdsys) option" where
  "fcntl_dupfd lim pledge p fd newmin cloexec clofork = fd_restart (dupfd_round lim pledge p fd newmin cloexec clofork)"

definition dodup3 :: "nat \<Rightarrow> bool \<Rightarrow> nat \<Rightarrow> nat \<Rightarrow> nat \<Rightarrow> bool \<Rightarrow> bool \<Rightarrow> fdsys \<Rightarrow> (fd_panic + (errno + nat) \<times> fdsys) option" where
  "dodup3 lim pledge p old new cloexec clofork = fd_restart (dup3_round lim pledge p old new cloexec clofork)"

definition sys_dup2 :: "nat \<Rightarrow> bool \<Rightarrow> nat \<Rightarrow> nat \<Rightarrow> nat \<Rightarrow> fdsys \<Rightarrow> (fd_panic + (errno + nat) \<times> fdsys) option" where
  "sys_dup2 lim pledge p old new st = dodup3 lim pledge p old new False False st"

text \<open>\<open>other\<close> says whether a flag beside \<^verbatim>\<open>O_CLOEXEC\<close> and \<^verbatim>\<open>O_CLOFORK\<close> is set.\<close>

definition sys_dup3 :: "nat \<Rightarrow> bool \<Rightarrow> nat \<Rightarrow> nat \<Rightarrow> nat \<Rightarrow> bool \<Rightarrow> bool \<Rightarrow> bool \<Rightarrow> fdsys \<Rightarrow> (fd_panic + (errno + nat) \<times> fdsys) option" where
  "sys_dup3 lim pledge p old new cloexec clofork other st =
     (if old = new \<or> other then Some (Inr (Inl EINVAL, st)) else dodup3 lim pledge p old new cloexec clofork st)"

section \<open>Opening\<close>

text \<open>\<^verbatim>\<open>fnew\<close>: \<open>a\<close> is the address that \<^verbatim>\<open>pool_get\<close> returns.\<close>

definition fnew :: "nat \<Rightarrow> nat \<Rightarrow> fdsys \<Rightarrow> fdsys option" where
  "fnew maxfiles a st =
     (if numfiles st + 1 > maxfiles then None
      else Some ((set_file a \<lparr>f_flag = 0, f_ins = False, f_haslock = False, f_type = 0, f_count = 1, f_data = 0\<rparr> st)
        \<lparr>numfiles := numfiles st + 1\<rparr>))"

text \<open>The loop of \<^verbatim>\<open>falloc\<close>, which grows the table while it may.\<close>

partial_function (option) fdalloc_grow :: "nat \<Rightarrow> bool \<Rightarrow> nat \<Rightarrow> filedesc \<Rightarrow> (fd_panic + (errno \<times> filedesc) + nat \<times> filedesc) option" where
  "fdalloc_grow lim pledge want fdp =
     (case fdalloc lim pledge want fdp of
        Inl e \<Rightarrow> Some (Inl e)
      | Inr (Inl err) \<Rightarrow> if err = ENOSPC then fdalloc_grow lim pledge want (fdexpand fdp) else Some (Inr (Inl (err, fdp)))
      | Inr (Inr r) \<Rightarrow> Some (Inr (Inr r)))"

definition falloc :: "nat \<Rightarrow> nat \<Rightarrow> bool \<Rightarrow> nat \<Rightarrow> nat \<Rightarrow> fdsys \<Rightarrow> (fd_panic + (errno + nat) \<times> fdsys) option" where
  "falloc lim maxfiles pledge p a st =
     map_option (\<lambda>r. case r of
        Inl e \<Rightarrow> Inl e
      | Inr (Inl (err, fdp)) \<Rightarrow> Inr (Inl err, set_fdt p fdp st)
      | Inr (Inr (i, fdp)) \<Rightarrow>
          (case fnew maxfiles a (set_fdt p fdp st) of
             None \<Rightarrow> map_sum (\<lambda>e. e) (\<lambda>fdp. (Inl ENFILE, set_fdt p fdp st)) (fd_unused fdp i)
           | Some st1 \<Rightarrow> map_sum (\<lambda>e. e) (Pair (Inr i)) (FREF a st1)))
     (fdalloc_grow lim pledge 0 (fdt st p))"

text \<open>
  \<^verbatim>\<open>dupfdopen\<close>: \<open>sugid\<close> is set for a process with \<^verbatim>\<open>PS_SUGIDEXEC\<close> or \<^verbatim>\<open>PS_SUGID\<close>; \<open>descfd\<close> and \<open>dupfd\<close> are \<^verbatim>\<open>p_descfd\<close> (255 for none) and
  \<^verbatim>\<open>p_dupfd\<close>.
\<close>

definition dupfdopen :: "bool \<Rightarrow> nat \<Rightarrow> nat \<Rightarrow> nat \<Rightarrow> nat \<Rightarrow> u32 \<Rightarrow> fdsys \<Rightarrow> fd_panic + errno option \<times> fdsys" where
  "dupfdopen sugid descfd dupfd p indx mode st =
     (if sugid \<and> (descfd = 255 \<or> descfd \<noteq> dupfd) then Inr (Some EPERM, st)
      else
        case fd_getfile p dupfd st of
          Inl e \<Rightarrow> Inl e
        | Inr (None, st1) \<Rightarrow> Inr (Some EBADF, st1)
        | Inr (Some w, st1) \<Rightarrow>
            (case fs_file st1 w of
               None \<Rightarrow> Inl Fd_freed
             | Some wfile \<Rightarrow>
                 if (mode AND (FREAD OR FWRITE)) OR f_flag wfile \<noteq> f_flag wfile
                 then map_sum (\<lambda>e. e) (Pair (Some EACCES)) (FRELE w st1)
                 else if f_count wfile \<ge> FDUP_MAX_COUNT then map_sum (\<lambda>e. e) (Pair (Some EDEADLK)) (FRELE w st1)
                 else if \<not> f_ins wfile then Inl Kassert_inserted
                 else
                   let fdp = fdt st1 p in
                   if indx \<ge> fd_nfiles fdp then Inl Fd_oob
                   else if fd_ofiles fdp ! indx \<noteq> None then Inl Kassert_empty
                   else Inr (None, set_fdt p (fd_store indx (Some w)
                     ((fd_ofileflags fdp ! indx AND (UF_EXCLOSE OR UF_FORKCLOSE)) OR
                      (fd_ofileflags fdp ! dupfd AND NOT (UF_EXCLOSE OR UF_FORKCLOSE))) fdp) st1)))"

text \<open>
  The end of \<^verbatim>\<open>doopenat\<close>: the new file gets its contents, and after the object is opened it becomes visible, or the attempt is undone
  (\<^verbatim>\<open>fdremove\<close> and the label \<^verbatim>\<open>error\<close>). The flock taken for \<^verbatim>\<open>O_EXLOCK\<close> and the truncation in between are left out.
\<close>

definition open_contents :: "nat \<Rightarrow> u32 \<Rightarrow> nat \<Rightarrow> nat \<Rightarrow> fdsys \<Rightarrow> fd_panic + fdsys" where
  "open_contents f flag type data st =
     (case fs_file st f of
        None \<Rightarrow> Inl Fd_freed
      | Some fp \<Rightarrow> Inr (set_file f (fp\<lparr>f_flag := flag, f_type := type, f_data := data\<rparr>) st))"

definition open_finish :: "nat \<Rightarrow> nat \<Rightarrow> u8 \<Rightarrow> nat \<Rightarrow> u32 \<Rightarrow> nat \<Rightarrow> nat \<Rightarrow> fdsys \<Rightarrow> fd_panic + fdsys" where
  "open_finish p indx fdflags f flag type data st =
     (case open_contents f flag type data st of
        Inl e \<Rightarrow> Inl e
      | Inr st1 \<Rightarrow> (case fdinsert p indx fdflags f st1 of Inl e \<Rightarrow> Inl e | Inr st2 \<Rightarrow> FRELE f st2))"

definition open_abort :: "nat \<Rightarrow> nat \<Rightarrow> nat \<Rightarrow> fdsys \<Rightarrow> fd_panic + fdsys" where
  "open_abort p indx f st = (case fdremove p indx st of Inl e \<Rightarrow> Inl e | Inr st1 \<Rightarrow> closef p f st1)"

text \<open>Opening \<^verbatim>\<open>/dev/fd/n\<close>: the new file is dropped and the descriptor refers to an existing one, or the attempt is undone.\<close>

definition open_dupfd :: "bool \<Rightarrow> nat \<Rightarrow> nat \<Rightarrow> nat \<Rightarrow> nat \<Rightarrow> nat \<Rightarrow> u32 \<Rightarrow> fdsys \<Rightarrow> fd_panic + errno option \<times> fdsys" where
  "open_dupfd sugid descfd dupfd p indx f mode st =
     (case dupfdopen sugid descfd dupfd p indx mode st of
        Inl e \<Rightarrow> Inl e
      | Inr (None, st1) \<Rightarrow> map_sum (\<lambda>e. e) (Pair None) (closef p f st1)
      | Inr (Some err, st1) \<Rightarrow> map_sum (\<lambda>e. e) (Pair (Some err)) (open_abort p indx f st1))"

section \<open>Descriptor flags\<close>

definition FD_CLOEXEC :: u32 where [kern_defs]: "FD_CLOEXEC = 0x01"
definition FD_CLOFORK :: u32 where [kern_defs]: "FD_CLOFORK = 0x04"

definition fcntl_getfd :: "nat \<Rightarrow> nat \<Rightarrow> fdsys \<Rightarrow> fd_panic + (errno + u32) \<times> fdsys" where
  "fcntl_getfd p fd st =
     (case fd_getfile p fd st of
        Inl e \<Rightarrow> Inl e
      | Inr (None, st1) \<Rightarrow> Inr (Inl EBADF, st1)
      | Inr (Some f, st1) \<Rightarrow>
          let fl = fd_ofileflags (fdt st1 p) ! fd in
          map_sum (\<lambda>e. e) (Pair (Inr ((if fl AND UF_EXCLOSE \<noteq> 0 then FD_CLOEXEC else 0) OR (if fl AND UF_FORKCLOSE \<noteq> 0 then FD_CLOFORK else 0))))
            (FRELE f st1))"

text \<open>The part of \<^verbatim>\<open>F_SETFD\<close> that runs with the table locked: the descriptor may have been closed since \<^verbatim>\<open>fd_getfile\<close>.\<close>

definition setfd_locked :: "nat \<Rightarrow> nat \<Rightarrow> u32 \<Rightarrow> fdsys \<Rightarrow> fd_panic + fdsys" where
  "setfd_locked p fd arg st =
     (let fdp = fdt st p;
          i = (if arg AND FD_CLOEXEC \<noteq> 0 then UF_EXCLOSE else 0) OR (if arg AND FD_CLOFORK \<noteq> 0 then UF_FORKCLOSE else 0)
      in if fd \<ge> fd_nfiles fdp then Inl Fd_oob
         else Inr (set_fdt p (fdp\<lparr>fd_ofileflags := (fd_ofileflags fdp)
           [fd := (fd_ofileflags fdp ! fd AND NOT (UF_EXCLOSE OR UF_FORKCLOSE)) OR i]\<rparr>) st))"

definition fcntl_setfd :: "nat \<Rightarrow> nat \<Rightarrow> u32 \<Rightarrow> fdsys \<Rightarrow> fd_panic + errno option \<times> fdsys" where
  "fcntl_setfd p fd arg st =
     (case fd_getfile p fd st of
        Inl e \<Rightarrow> Inl e
      | Inr (None, st1) \<Rightarrow> Inr (Some EBADF, st1)
      | Inr (Some f, st1) \<Rightarrow>
          (case setfd_locked p fd arg st1 of
             Inl e \<Rightarrow> Inl e
           | Inr st2 \<Rightarrow> map_sum (\<lambda>e. e) (Pair None) (FRELE f st2)))"

section \<open>Tables\<close>

definition fdshare :: "nat \<Rightarrow> fdsys \<Rightarrow> fdsys" where
  "fdshare p st = set_fdt p ((fdt st p)\<lparr>fd_refcnt := fd_refcnt (fdt st p) + 1\<rparr>) st"

text \<open>The loop of \<^verbatim>\<open>fdcopy\<close> that shrinks the size.\<close>

function fdcopy_size :: "nat \<Rightarrow> nat \<Rightarrow> nat" where
  "fdcopy_size lst i = (if i \<ge> 2 * NDEXTENT \<and> i > lst * 2 then fdcopy_size lst (i div 2) else i)"
  by pat_completeness auto
termination by (relation "measure snd") (auto simp: NDEXTENT_def)

declare fdcopy_size.simps [simp del]

definition fdcopy_table :: "filedesc \<Rightarrow> filedesc" where
  "fdcopy_table fdp =
     (let new1 = (if fd_lastfile fdp \<ge> NDFILE
            then (let i = fdcopy_size (fd_lastfile fdp) (fd_nfiles fdp)
                  in fdinit\<lparr>fd_ofiles := replicate i None, fd_ofileflags := replicate i 0, fd_nfiles := i\<rparr>)
            else fdinit);
          new2 = (if NDHISLOTS (fd_nfiles new1) > NDHISLOTS NDFILE
            then new1\<lparr>fd_himap := replicate (NDHISLOTS (fd_nfiles new1)) 0, fd_lomap := replicate (NDLOSLOTS (fd_nfiles new1)) 0\<rparr>
            else new1)
      in new2\<lparr>fd_freefile := fd_freefile fdp, fd_adv := fd_adv fdp\<rparr>)"

text \<open>One turn of the copying loop; the new table is not yet part of the state.\<close>

definition fdcopy_one :: "filedesc \<Rightarrow> nat \<Rightarrow> filedesc \<times> fdsys \<Rightarrow> fd_panic + filedesc \<times> fdsys" where
  "fdcopy_one fdp i = (\<lambda>(new, st).
     if i \<ge> fd_nfiles fdp then Inl Fd_oob
     else
       case fd_ofiles fdp ! i of
         None \<Rightarrow> Inr (new, st)
       | Some f \<Rightarrow>
           (case fs_file st f of
              None \<Rightarrow> Inl Fd_freed
            | Some fp \<Rightarrow>
                let fileflags = fd_ofileflags fdp ! i in
                if f_count fp \<ge> FDUP_MAX_COUNT \<or> fileflags AND UF_FORKCLOSE \<noteq> 0 \<or> f_type fp = DTYPE_KQUEUE
                then Inr (if i < fd_freefile new then new\<lparr>fd_freefile := i\<rparr> else new, st)
                else if i \<ge> fd_nfiles new then Inl Fd_oob
                else
                  case (FREF f st, fd_used (fd_store i (Some f) fileflags new) i) of
                    (Inr st1, Inr new1) \<Rightarrow> Inr (new1, st1)
                  | (Inl e, _) \<Rightarrow> Inl e
                  | (_, Inl e) \<Rightarrow> Inl e))"

fun fdcopy_loop :: "filedesc \<Rightarrow> nat list \<Rightarrow> filedesc \<times> fdsys \<Rightarrow> fd_panic + filedesc \<times> fdsys" where
  "fdcopy_loop fdp [] s = Inr s"
| "fdcopy_loop fdp (i # is) s = (case fdcopy_one fdp i s of Inl e \<Rightarrow> Inl e | Inr s' \<Rightarrow> fdcopy_loop fdp is s')"

text \<open>\<^verbatim>\<open>fdcopy\<close>: the copy becomes the last table.\<close>

definition fdcopy :: "nat \<Rightarrow> fdsys \<Rightarrow> fd_panic + fdsys" where
  "fdcopy p st =
     map_sum (\<lambda>e. e) (\<lambda>(new, st1). st1\<lparr>fs_fds := fs_fds st1 @ [Some new]\<rparr>)
       (fdcopy_loop (fdt st p) [0..<fd_lastfile (fdt st p) + 1] (fdcopy_table (fdt st p), st))"

definition fdfree_one :: "nat \<Rightarrow> nat \<Rightarrow> fdsys \<Rightarrow> fd_panic + fdsys" where
  "fdfree_one p fd st =
     (let fdp = fdt st p in
      if fd \<ge> fd_nfiles fdp then Inl Fd_oob
      else
        case fd_ofiles fdp ! fd of
          None \<Rightarrow> Inr st
        | Some f \<Rightarrow>
            (case FREF f (fd_event (Ev_knote p fd) (set_fdt p (fdp\<lparr>fd_ofiles := (fd_ofiles fdp)[fd := None]\<rparr>) st)) of
               Inl e \<Rightarrow> Inl e
             | Inr st1 \<Rightarrow> closef p f st1))"

fun fdfree_loop :: "nat \<Rightarrow> nat list \<Rightarrow> fdsys \<Rightarrow> fd_panic + fdsys" where
  "fdfree_loop p [] st = Inr st"
| "fdfree_loop p (fd # fds) st = (case fdfree_one p fd st of Inl e \<Rightarrow> Inl e | Inr st1 \<Rightarrow> fdfree_loop p fds st1)"

definition fdfree :: "nat \<Rightarrow> fdsys \<Rightarrow> fd_panic + fdsys" where
  "fdfree p st =
     (let st1 = set_fdt p ((fdt st p)\<lparr>fd_refcnt := fd_refcnt (fdt st p) - 1\<rparr>) st in
      if fd_refcnt (fdt st1 p) > 0 then Inr st1
      else map_sum (\<lambda>e. e) (\<lambda>st2. st2\<lparr>fs_fds := (fs_fds st2)[p := None]\<rparr>)
        (fdfree_loop p [0..<fd_lastfile (fdt st p) + 1] st1))"

text \<open>The loops of \<^verbatim>\<open>fdprepforexec\<close> and \<^verbatim>\<open>sys_closefrom\<close>, whose bound \<^verbatim>\<open>fd_lastfile\<close> changes.\<close>

definition exec_one :: "nat \<Rightarrow> nat \<Rightarrow> fdsys \<Rightarrow> fd_panic + fdsys" where
  "exec_one p fd st =
     (let fdp = fdt st p in
      if fd \<ge> fd_nfiles fdp then Inl Fd_oob
      else
        let fl = fd_ofileflags fdp ! fd AND NOT (UF_PLEDGED OR UF_FORKCLOSE);
            st1 = set_fdt p (fdp\<lparr>fd_ofileflags := (fd_ofileflags fdp)[fd := fl]\<rparr>) st
        in if fl AND UF_EXCLOSE \<noteq> 0 then map_sum (\<lambda>e. e) snd (fdrelease p fd st1) else Inr st1)"

definition closefrom_one :: "nat \<Rightarrow> nat \<Rightarrow> fdsys \<Rightarrow> fd_panic + fdsys" where
  "closefrom_one p fd st = map_sum (\<lambda>e. e) snd (fdrelease p fd st)"

partial_function (option) fd_walk ::
  "(nat \<Rightarrow> fdsys \<Rightarrow> fd_panic + fdsys) \<Rightarrow> nat \<Rightarrow> nat \<Rightarrow> fdsys \<Rightarrow> (fd_panic + fdsys) option" where
  "fd_walk one p fd st =
     (if fd \<le> fd_lastfile (fdt st p)
      then (case one fd st of Inl e \<Rightarrow> Some (Inl e) | Inr st1 \<Rightarrow> fd_walk one p (fd + 1) st1)
      else Some (Inr st))"

definition fdprepforexec :: "nat \<Rightarrow> fdsys \<Rightarrow> (fd_panic + fdsys) option" where
  "fdprepforexec p st = fd_walk (exec_one p) p 0 st"

definition sys_closefrom :: "nat \<Rightarrow> nat \<Rightarrow> fdsys \<Rightarrow> (fd_panic + errno option \<times> fdsys) option" where
  "sys_closefrom p startfd st =
     (if startfd > fd_lastfile (fdt st p) then Some (Inr (Some EBADF, st))
      else map_option (map_sum (\<lambda>e. e) (Pair None)) (fd_walk (closefrom_one p) p startfd st))"

definition sys_getdtablecount :: "nat \<Rightarrow> fdsys \<Rightarrow> int" where
  "sys_getdtablecount p st = fd_openfd (fdt st p)"

declare fd_restart.simps [code] fdalloc_grow.simps [code] fd_walk.simps [code]

end
