(* ===== verification/Fd_Refs.thy ===== *)
theory Fd_Refs
  imports Fd_Table
begin

text \<open>
  The invariant of tables and open files: every reference is counted, a file is freed exactly when its last reference goes,
  every file in a table is on the list of files, and the bitmaps agree with the tables. \<open>H\<close> counts the references held by
  threads in the middle of a system call.
\<close>

section \<open>Open files\<close>

definition file_inv :: "fdsys \<Rightarrow> (nat \<Rightarrow> nat) \<Rightarrow> bool" where
  "file_inv st R \<longleftrightarrow>
     finite (dom (fs_file st)) \<and> numfiles st = card (dom (fs_file st)) \<and>
     (\<forall>f. fs_file st f = None \<longrightarrow> R f = 0) \<and> (\<forall>f fp. fs_file st f = Some fp \<longrightarrow> f_count fp = R f \<and> R f > 0) \<and>
     distinct (fs_head st) \<and> set (fs_head st) = {f. \<exists>fp. fs_file st f = Some fp \<and> f_ins fp}"

lemma file_inv_live:
  assumes "file_inv st R" and "R f > 0"
  shows "\<exists>fp. fs_file st f = Some fp \<and> f_count fp = R f \<and> (f_ins fp \<longleftrightarrow> f \<in> set (fs_head st))"
  using assms by (cases "fs_file st f") (auto simp: file_inv_def)

lemma file_inv_dead: "file_inv st R \<Longrightarrow> fs_file st f = None \<Longrightarrow> R f = 0"
  by (simp add: file_inv_def)

lemma file_inv_event [simp]: "file_inv (fd_event ev st) R = file_inv st R"
  by (simp add: file_inv_def fd_event_def)

lemma file_inv_fdt [simp]: "file_inv (set_fdt p t st) R = file_inv st R"
  by (simp add: file_inv_def set_fdt_def)

lemma file_inv_fds [simp]: "file_inv (st\<lparr>fs_fds := x\<rparr>) R = file_inv st R"
  by (simp add: file_inv_def)

lemma fs_frame [simp]:
  "fs_fds (set_file f fp st) = fs_fds st" "fs_fds (fd_event ev st) = fs_fds st" "fs_head (set_file f fp st) = fs_head st"
  "fs_head (fd_event ev st) = fs_head st" "fs_head (set_fdt p t st) = fs_head st" "fs_file (set_fdt p t st) = fs_file st"
  "fs_file (fd_event ev st) = fs_file st" "fs_fds (set_fdt p t st) = (fs_fds st)[p := Some t]" "fdt (fd_event ev st) p = fdt st p"
  "fdt (set_file f fp st) p = fdt st p" "numfiles (set_fdt p t st) = numfiles st"
  by (simp_all add: set_file_def fd_event_def set_fdt_def fdt_def)

text \<open>Changing the count of a file that stays alive.\<close>

lemma file_inv_count:
  assumes "file_inv st R" and "fs_file st f = Some fp" and "0 < n"
  shows "file_inv (set_file f (fp\<lparr>f_count := n\<rparr>) st) (R(f := n))"
  using assms by (auto simp: file_inv_def set_file_def insert_absorb domI split: if_splits)

lemma FREF_ok:
  assumes "file_inv st R" and "R f > 0"
  shows "\<exists>st'. FREF f st = Inr st' \<and> file_inv st' (R(f := R f + 1)) \<and> fs_fds st' = fs_fds st \<and> fs_head st' = fs_head st"
proof -
  obtain fp where fp: "fs_file st f = Some fp" "f_count fp = R f" using file_inv_live [OF assms] by blast
  with file_inv_count [OF assms(1) fp(1), of "R f + 1"] show ?thesis by (simp add: FREF_def)
qed

lemma fdrop_ok:
  assumes inv: "file_inv st R" and f: "fs_file st f = Some fp" and st: "st0 = set_file f (fp\<lparr>f_count := 0\<rparr>) st"
  shows "\<exists>st'. fdrop f st0 = Inr st' \<and> file_inv st' (R(f := 0)) \<and> fs_fds st' = fs_fds st \<and>
     fs_head st' = filter (\<lambda>x. x \<noteq> f) (fs_head st) \<and> fs_file st' = (fs_file st)(f := None)"
proof -
  define st' where "st' = (if f_type fp \<noteq> 0 then fd_event (Ev_close f) st else st)\<lparr>fs_head := filter (\<lambda>x. x \<noteq> f) (fs_head st), numfiles := numfiles st - 1,
      fs_file := (fs_file st)(f := None)\<rparr>"
  have head: "filter (\<lambda>x. x \<noteq> f) (fs_head st) = fs_head st" if "\<not> f_ins fp"
    using inv f that by (intro filter_True) (auto simp: file_inv_def)
  then have "fdrop f st0 = Inr st'"
    by (auto simp: fdrop_def st set_file_def fd_event_def st'_def Let_def)
  moreover have "file_inv st' (R(f := 0))"
  proof -
    have "card (dom (fs_file st) - {f}) = card (dom (fs_file st)) - 1" using f by (simp add: domI)
    with inv f show ?thesis unfolding file_inv_def st'_def by (auto simp: fd_event_def split: if_splits)
  qed
  ultimately show ?thesis by (simp add: st'_def)
qed

definition head_after :: "nat \<Rightarrow> nat \<Rightarrow> nat list \<Rightarrow> nat list" where
  "head_after f n h = (if n = 0 then filter (\<lambda>x. x \<noteq> f) h else h)"

lemma head_after_set: "set (head_after f n h) = (if n = 0 then set h - {f} else set h)"
  by (auto simp: head_after_def)

lemma FRELE_ok:
  assumes "file_inv st R" and "R f > 0"
  shows "\<exists>st'. FRELE f st = Inr st' \<and> file_inv st' (R(f := R f - 1)) \<and> fs_fds st' = fs_fds st \<and>
     fs_head st' = head_after f (R f - 1) (fs_head st) \<and> (R f = 1 \<longrightarrow> fs_file st' f = None)"
proof -
  obtain fp where fp: "fs_file st f = Some fp" "f_count fp = R f" using file_inv_live [OF assms] by blast
  show ?thesis
  proof (cases "R f = 1")
    case True
    with fp fdrop_ok [OF assms(1) fp(1) refl] show ?thesis by (auto simp: FRELE_def head_after_def)
  next
    case False
    then have "0 < R f - 1" using assms(2) by simp
    with fp False file_inv_count [OF assms(1) fp(1), of "R f - 1"] show ?thesis by (simp add: FRELE_def head_after_def)
  qed
qed

lemma closef_ok:
  assumes inv: "file_inv st R" and "R f \<ge> 2"
  shows "\<exists>st'. closef p f st = Inr st' \<and> file_inv st' (R(f := R f - 2)) \<and> fs_fds st' = fs_fds st \<and>
     fs_head st' = head_after f (R f - 2) (fs_head st) \<and> (R f = 2 \<longrightarrow> fs_file st' f = None)"
proof -
  obtain fp where fp: "fs_file st f = Some fp" "f_count fp = R f" using file_inv_live [OF inv, of f] assms(2) by auto
  define st1 where "st1 = set_file f (fp\<lparr>f_count := R f - 1\<rparr>) st"
  define st2 where "st2 = (if fd_adv (fdt st1 p) \<and> f_type fp = DTYPE_VNODE then fd_event (Ev_unlock (f_data fp) p) st1 else st1)"
  have "file_inv st1 (R(f := R f - 1))" unfolding st1_def using assms(2) by (intro file_inv_count [OF inv fp(1)]) simp
  then have "file_inv st2 (R(f := R f - 1))" "fs_fds st2 = fs_fds st" "fs_head st2 = fs_head st"
    by (simp_all add: st2_def st1_def)
  moreover have "closef p f st = FRELE f st2" using assms(2) fp by (simp add: closef_def Let_def st2_def st1_def)
  moreover have "R f - 1 - 1 = R f - 2" "R f - 1 = 1 \<longleftrightarrow> R f = 2" using assms(2) by auto
  ultimately show ?thesis using FRELE_ok [of st2 "R(f := R f - 1)" f] assms(2) by simp
qed

section \<open>Tables and references\<close>

definition tab_slots :: "filedesc option \<Rightarrow> nat \<Rightarrow> nat" where
  "tab_slots t f = (case t of None \<Rightarrow> 0 | Some t \<Rightarrow> count_list (fd_ofiles t) (Some f))"

definition slots :: "fdsys \<Rightarrow> nat \<Rightarrow> nat" where
  "slots st f = (\<Sum>t\<leftarrow>fs_fds st. tab_slots t f)"

definition tab_inv :: "filedesc \<Rightarrow> bool" where
  "tab_inv t \<longleftrightarrow> fd_ready t \<and> (\<forall>fd < fd_nfiles t. fd_ofiles t ! fd \<noteq> None \<longrightarrow> fd \<in> used_fds t)"

text \<open>
  \<open>H\<close> counts the references that threads took from a table, \<open>G\<close> those to files that are being opened: only the latter
  may not yet be on the list of files.
\<close>

definition fs_inv :: "fdsys \<Rightarrow> (nat \<Rightarrow> nat) \<Rightarrow> (nat \<Rightarrow> nat) \<Rightarrow> bool" where
  "fs_inv st H G \<longleftrightarrow> (\<forall>t. Some t \<in> set (fs_fds st) \<longrightarrow> tab_inv t) \<and> file_inv st (\<lambda>f. slots st f + H f + G f) \<and>
     (\<forall>f. 0 < slots st f + H f \<longrightarrow> f \<in> set (fs_head st))"

definition live :: "fdsys \<Rightarrow> nat \<Rightarrow> bool" where
  "live st p \<longleftrightarrow> p < length (fs_fds st) \<and> fs_fds st ! p \<noteq> None"

lemma live_fdt: "live st p \<Longrightarrow> fs_fds st ! p = Some (fdt st p)"
  by (simp add: live_def fdt_def)

lemma live_cong: "fs_fds st' = fs_fds st \<Longrightarrow> live st' p = live st p \<and> fdt st' p = fdt st p \<and> slots st' = slots st"
  by (simp add: live_def fdt_def slots_def fun_eq_iff)

lemma live_set [simp]: "live st p \<Longrightarrow> live (set_fdt p t st) q = live st q" "live st p \<Longrightarrow> fdt (set_fdt p t st) p = t"
  by (auto simp: live_def fdt_def set_fdt_def nth_list_update)

lemma live_event [simp]: "live (fd_event ev st) p = live st p" "slots (fd_event ev st) = slots st"
  by (simp_all add: live_def slots_def fun_eq_iff)

lemma fs_inv_tab: "fs_inv st H G \<Longrightarrow> live st p \<Longrightarrow> tab_inv (fdt st p)"
  by (metis fs_inv_def live_def live_fdt nth_mem)

lemma fs_inv_event [simp]: "fs_inv (fd_event ev st) H G = fs_inv st H G"
  by (simp add: fs_inv_def)

lemma count_list_update:
  "i < length xs \<Longrightarrow> count_list (xs[i := y]) x + of_bool (xs ! i = x) = count_list xs x + of_bool (y = x)"
proof (induction xs arbitrary: i)
  case (Cons a xs)
  then show ?case using Cons.IH [of "i - 1"] by (cases i) auto
qed simp

lemma slots_set:
  assumes "live st p"
  shows "slots (set_fdt p t st) f + count_list (fd_ofiles (fdt st p)) (Some f) = slots st f + count_list (fd_ofiles t) (Some f)"
proof -
  have p: "p < length (fs_fds st)" "fs_fds st ! p = Some (fdt st p)" using assms by (simp_all add: live_fdt) (simp add: live_def)
  define xs where "xs = map (\<lambda>t. tab_slots t f) (fs_fds st)"
  have "map (\<lambda>t. tab_slots t f) ((fs_fds st)[p := Some t]) = xs[p := tab_slots (Some t) f]" by (simp add: xs_def map_update)
  moreover have "sum_list (xs[p := v]) = sum_list xs + v - xs ! p" for v using p(1) by (intro sum_list_update) (simp add: xs_def)
  moreover have "xs ! p = tab_slots (Some (fdt st p)) f" "xs ! p \<le> sum_list xs" using p elem_le_sum_list [of p xs] by (simp_all add: xs_def)
  ultimately show ?thesis by (simp add: slots_def tab_slots_def xs_def)
qed

lemma slots_store:
  assumes "live st p" and "fd_ofiles t = (fd_ofiles (fdt st p))[fd := x]" and "fd < length (fd_ofiles (fdt st p))"
  shows "slots (set_fdt p t st) f + of_bool (fd_ofiles (fdt st p) ! fd = Some f) = slots st f + of_bool (x = Some f)"
  using slots_set [OF assms(1), of t f] count_list_update [OF assms(3), of x "Some f"] by (simp add: assms(2))

lemma tabs_set: "live st p \<Longrightarrow> tab_inv t \<Longrightarrow> fs_inv st H G \<Longrightarrow> Some u \<in> set (fs_fds (set_fdt p t st)) \<Longrightarrow> tab_inv u"
  using set_update_subset_insert [of "fs_fds st" p "Some t"] by (auto simp: fs_inv_def)

text \<open>Updating a table without changing what it refers to, and storing a pointer in it.\<close>

lemma fs_inv_set:
  assumes "fs_inv st H G" and "live st p" and "tab_inv t"
    and "\<And>f. count_list (fd_ofiles t) (Some f) = count_list (fd_ofiles (fdt st p)) (Some f)"
  shows "fs_inv (set_fdt p t st) H G"
proof -
  have "slots (set_fdt p t st) = slots st" using slots_set [OF assms(2), of t] assms(4) by (auto simp: fun_eq_iff)
  then show ?thesis using assms(1) tabs_set [OF assms(2,3,1)] by (simp add: fs_inv_def)
qed

lemma fs_inv_store:
  assumes inv: "fs_inv st H G" and "live st p" and "tab_inv t"
    and "fd_ofiles t = (fd_ofiles (fdt st p))[fd := x]" and "fd < length (fd_ofiles (fdt st p))"
    and H: "\<And>f. H' f + of_bool (x = Some f) = H f + of_bool (fd_ofiles (fdt st p) ! fd = Some f)"
  shows "fs_inv (set_fdt p t st) H' G"
proof -
  note s = slots_store [OF assms(2,4,5)]
  have eq: "slots (set_fdt p t st) f + H' f = slots st f + H f" for f using s [of f] H [of f] by linarith
  with inv tabs_set [OF assms(2,3,1)] show ?thesis by (simp add: fs_inv_def)
qed

text \<open>Changing the number of references that threads hold.\<close>

lemma fs_inv_files:
  assumes "fs_inv st H G" and "file_inv st' R" and "fs_fds st' = fs_fds st" and R: "\<And>f. R f = slots st f + H' f + G' f"
    and "\<And>g. 0 < slots st g + H' g \<Longrightarrow> g \<in> set (fs_head st')"
  shows "fs_inv st' H' G'"
proof -
  have "R = (\<lambda>f. slots st f + H' f + G' f)" using R by (rule ext)
  then show ?thesis using assms(1-3,5) live_cong [OF assms(3)] by (simp add: fs_inv_def)
qed

lemma FREF_inv:
  assumes "fs_inv st H G" and "0 < slots st f + H f"
  shows "\<exists>st'. FREF f st = Inr st' \<and> fs_inv st' (H(f := H f + 1)) G \<and> fs_fds st' = fs_fds st"
proof -
  define R where "R = (\<lambda>f. slots st f + H f + G f)"
  obtain st' where st': "FREF f st = Inr st'" "file_inv st' (R(f := R f + 1))" "fs_fds st' = fs_fds st" "fs_head st' = fs_head st"
    using FREF_ok [of st R f] assms by (auto simp: fs_inv_def R_def)
  then have "fs_inv st' (H(f := H f + 1)) G"
    using assms by (intro fs_inv_files [OF assms(1) st'(2,3)]) (auto simp: R_def fs_inv_def split: if_splits)
  with st' show ?thesis by blast
qed

text \<open>A release takes its reference from \<open>H\<close> or from \<open>G\<close>.\<close>

lemma FRELE_inv':
  assumes inv: "fs_inv st H G" and less: "\<And>g. H' g + G' g + of_bool (g = f) = H g + G g" "\<And>g. H' g \<le> H g"
  shows "\<exists>st'. FRELE f st = Inr st' \<and> fs_inv st' H' G' \<and> fs_fds st' = fs_fds st"
proof -
  define R where "R = (\<lambda>f. slots st f + H f + G f)"
  have pos: "0 < R f" using less(1) [of f] by (auto simp: R_def)
  then obtain st' where st': "FRELE f st = Inr st'" "file_inv st' (R(f := R f - 1))" "fs_fds st' = fs_fds st"
      "fs_head st' = head_after f (R f - 1) (fs_head st)"
    using FRELE_ok [of st R f] inv by (auto simp: fs_inv_def R_def)
  have R: "(R(f := R f - 1)) g = slots st g + H' g + G' g" for g using less(1) [of g] by (auto simp: R_def)
  have "g \<in> set (fs_head st')" if "0 < slots st g + H' g" for g
    using that inv less(2) [of g] R [of g] by (cases "g = f") (auto simp: st'(4) head_after_set fs_inv_def)
  with fs_inv_files [OF inv st'(2,3) R] st' show ?thesis by blast
qed

lemma FRELE_inv:
  assumes "fs_inv st H G" and "0 < H f"
  shows "\<exists>st'. FRELE f st = Inr st' \<and> fs_inv st' (H(f := H f - 1)) G \<and> fs_fds st' = fs_fds st"
  using assms(2) by (intro FRELE_inv' [OF assms(1)]) auto

lemma closef_inv':
  assumes inv: "fs_inv st H G" and less: "\<And>g. H' g + G' g + 2 * of_bool (g = f) = H g + G g" "\<And>g. H' g \<le> H g"
  shows "\<exists>st'. closef p f st = Inr st' \<and> fs_inv st' H' G' \<and> fs_fds st' = fs_fds st"
proof -
  define R where "R = (\<lambda>f. slots st f + H f + G f)"
  have pos: "2 \<le> R f" using less(1) [of f] by (simp add: R_def)
  then obtain st' where st': "closef p f st = Inr st'" "file_inv st' (R(f := R f - 2))" "fs_fds st' = fs_fds st"
      "fs_head st' = head_after f (R f - 2) (fs_head st)"
    using closef_ok [of st R f p] inv by (auto simp: fs_inv_def R_def)
  have R: "(R(f := R f - 2)) g = slots st g + H' g + G' g" for g using less(1) [of g] by (auto simp: R_def)
  have "g \<in> set (fs_head st')" if "0 < slots st g + H' g" for g
    using that inv less(2) [of g] R [of g] by (cases "g = f") (auto simp: st'(4) head_after_set fs_inv_def)
  with fs_inv_files [OF inv st'(2,3) R] st' show ?thesis by blast
qed

lemma closef_inv:
  assumes "fs_inv st H G" and "2 \<le> H f"
  shows "\<exists>st'. closef p f st = Inr st' \<and> fs_inv st' (H(f := H f - 2)) G \<and> fs_fds st' = fs_fds st"
  using assms(2) by (intro closef_inv' [OF assms(1)]) auto

section \<open>Lookup and removal\<close>

definition fd_lookup :: "filedesc \<Rightarrow> nat \<Rightarrow> nat option" where
  "fd_lookup t fd = (if fd < fd_nfiles t then fd_ofiles t ! fd else None)"

lemma tab_inv_len: "tab_inv t \<Longrightarrow> length (fd_ofiles t) = fd_nfiles t \<and> length (fd_ofileflags t) = fd_nfiles t"
  by (simp add: tab_inv_def fd_ready_def fdmap_inv_eq fdmap_sizes_def)

lemma tab_inv_used: "tab_inv t \<Longrightarrow> fd \<in> used_fds t \<Longrightarrow> fd < fd_nfiles t"
  by (auto simp: tab_inv_def fd_ready_def fdmap_inv_eq)

lemma lookup_slots:
  assumes "live st p" and "tab_inv (fdt st p)" and "fd_lookup (fdt st p) fd = Some f"
  shows "0 < slots st f"
proof -
  have "fd < length (fd_ofiles (fdt st p))" "fd_ofiles (fdt st p) ! fd = Some f"
    using assms(3) tab_inv_len [OF assms(2)] by (auto simp: fd_lookup_def split: if_splits)
  then have "0 < tab_slots (Some (fdt st p)) f"
    by (metis count_list_0_iff gr0I nth_mem option.simps(5) tab_slots_def)
  moreover have "Some (fdt st p) \<in> set (fs_fds st)" using assms(1) by (metis live_def live_fdt nth_mem)
  ultimately show ?thesis unfolding slots_def
    by (metis (mono_tags, lifting) gr0I imageI list.set_map sum_list_eq_0_iff)
qed

lemma fd_getfile_inv:
  assumes inv: "fs_inv st H G" and live: "live st p"
  shows "fd_lookup (fdt st p) fd = None \<Longrightarrow> fd_getfile p fd st = Inr (None, st)"
    and "fd_lookup (fdt st p) fd = Some f \<Longrightarrow>
      \<exists>st'. fd_getfile p fd st = Inr (Some f, st') \<and> fs_inv st' (H(f := H f + 1)) G \<and> fs_fds st' = fs_fds st"
proof -
  show "fd_lookup (fdt st p) fd = None \<Longrightarrow> fd_getfile p fd st = Inr (None, st)"
    by (auto simp: fd_lookup_def fd_getfile_def split: if_splits)
  assume f: "fd_lookup (fdt st p) fd = Some f"
  have "0 < slots st f + H f" using lookup_slots [OF live fs_inv_tab [OF inv live] f] by simp
  from FREF_inv [OF inv this] f
  show "\<exists>st'. fd_getfile p fd st = Inr (Some f, st') \<and> fs_inv st' (H(f := H f + 1)) G \<and> fs_fds st' = fs_fds st"
    by (auto simp: fd_lookup_def fd_getfile_def split: if_splits)
qed

text \<open>The tables before and after a descriptor is removed.\<close>

definition removed :: "nat \<Rightarrow> filedesc \<Rightarrow> filedesc \<Rightarrow> bool" where
  "removed fd t t' \<longleftrightarrow> fd_ofiles t' = (fd_ofiles t)[fd := None] \<and> fd_ofileflags t' = (fd_ofileflags t)[fd := 0] \<and>
     used_fds t' = used_fds t - {fd} \<and> fd_nfiles t' = fd_nfiles t \<and> fd_refcnt t' = fd_refcnt t \<and> fd_adv t' = fd_adv t \<and>
     fd_freefile t' = min fd (fd_freefile t)"

lemma fd_store_simps [simp]:
  "fd_nfiles (fd_store fd x fl t) = fd_nfiles t" "fd_refcnt (fd_store fd x fl t) = fd_refcnt t" "fd_adv (fd_store fd x fl t) = fd_adv t"
  "fd_freefile (fd_store fd x fl t) = fd_freefile t" "used_fds (fd_store fd x fl t) = used_fds t"
  "fd_ofiles (fd_store fd x fl t) = (fd_ofiles t)[fd := x]" "fd_ofileflags (fd_store fd x fl t) = (fd_ofileflags t)[fd := fl]"
  "fdmap_inv (fd_store fd x fl t) = fdmap_inv t" "fd_ready (fd_store fd x fl t) = fd_ready t" "fd_lastfile (fd_store fd x fl t) = fd_lastfile t"
  by (simp_all add: fd_store_def used_fds_def fdmap_inv_def fdmap_sizes_def fd_ready_def)

lemma tab_inv_store:
  assumes t: "tab_inv t" and x: "x \<noteq> None \<Longrightarrow> fd \<in> used_fds t"
  shows "tab_inv (fd_store fd x fl t)"
proof -
  have "k \<in> used_fds t" if "k < fd_nfiles t" "(fd_ofiles t)[fd := x] ! k \<noteq> None" for k
    using that x t tab_inv_len [OF t] by (cases "k = fd") (simp_all add: tab_inv_def)
  with t show ?thesis by (simp add: tab_inv_def)
qed

lemma fd_unused_removed:
  assumes t: "tab_inv t" and fd: "fd \<in> used_fds t"
  shows "\<exists>t'. fd_unused (fd_store fd None 0 t) fd = Inr t' \<and> tab_inv t' \<and> removed fd t t'"
proof -
  have "fdmap_inv (fd_store fd None 0 t)" "fd \<in> used_fds (fd_store fd None 0 t)" using t fd by (simp_all add: tab_inv_def fd_ready_def)
  from fd_unused_spec [OF this] obtain t' where t': "fd_unused (fd_store fd None 0 t) fd = Inr t'" "fdmap_inv t'"
      "used_fds t' = used_fds t - {fd}" "fd_rest t' = fd_rest (fd_store fd None 0 t)" "fd_freefile t' = min fd (fd_freefile t)" by auto
  have r: "removed fd t t'" using fd_restD [OF t'(4)] t'(3,5) by (simp add: removed_def)
  have "k \<in> used_fds t'" if "k < fd_nfiles t'" "fd_ofiles t' ! k \<noteq> None" for k
    using that r t tab_inv_len [OF t] by (cases "k = fd") (simp_all add: removed_def tab_inv_def)
  then have "tab_inv t'" using t r t'(2) by (simp add: tab_inv_def fd_ready_def removed_def)
  with t' r show ?thesis by blast
qed

lemma fdremove_inv:
  assumes inv: "fs_inv st H G" and live: "live st p" and fd: "fd \<in> used_fds (fdt st p)"
    and H: "\<And>f. H' f = H f + of_bool (fd_lookup (fdt st p) fd = Some f)"
  shows "\<exists>st' t'. fdremove p fd st = Inr st' \<and> fs_inv st' H' G \<and> fs_fds st' = (fs_fds st)[p := Some t'] \<and> removed fd (fdt st p) t' \<and>
     fs_head st' = fs_head st \<and> fs_file st' = fs_file st"
proof -
  define t where "t = fdt st p"
  have t: "tab_inv t" unfolding t_def by (rule fs_inv_tab [OF inv live])
  have lt: "fd < fd_nfiles t" "fd < length (fd_ofiles t)" using tab_inv_used [OF t] fd tab_inv_len [OF t] by (simp_all add: t_def)
  obtain t' where t': "fd_unused (fd_store fd None 0 t) fd = Inr t'" "tab_inv t'" "removed fd t t'"
    using fd_unused_removed [OF t, of fd] fd by (auto simp: t_def)
  have "fs_inv (set_fdt p t' st) H' G"
    using lt t' H by (intro fs_inv_store [OF inv live t'(2)]) (auto simp: removed_def fd_lookup_def simp flip: t_def)
  moreover have "fdremove p fd st = Inr (set_fdt p t' st)" using lt t'(1) by (simp add: fdremove_def flip: t_def)
  ultimately show ?thesis using t'(3) by (auto simp: t_def)
qed

lemma fdrelease_inv:
  assumes inv: "fs_inv st H G" and live: "live st p"
  shows "fd_lookup (fdt st p) fd = None \<Longrightarrow> fdrelease p fd st = Inr (Some EBADF, st)"
    and "fd_lookup (fdt st p) fd = Some f \<Longrightarrow>
      \<exists>st' t'. fdrelease p fd st = Inr (None, st') \<and> fs_inv st' H G \<and> fs_fds st' = (fs_fds st)[p := Some t'] \<and> removed fd (fdt st p) t'"
proof -
  show "fd_lookup (fdt st p) fd = None \<Longrightarrow> fdrelease p fd st = Inr (Some EBADF, st)"
    using fd_getfile_inv(1) [OF inv live, of fd] by (simp add: fdrelease_def)
  assume f: "fd_lookup (fdt st p) fd = Some f"
  then obtain st1 where st1: "fd_getfile p fd st = Inr (Some f, st1)" "fs_inv st1 (H(f := H f + 1)) G" "fs_fds st1 = fs_fds st"
    using fd_getfile_inv(2) [OF inv live] by blast
  have l1: "live st1 p" "fdt st1 p = fdt st p" using live live_cong [OF st1(3)] by simp_all
  have used: "fd \<in> used_fds (fdt st1 p)" using fs_inv_tab [OF inv live] f l1(2) by (auto simp: tab_inv_def fd_lookup_def split: if_splits)
  define H2 where "H2 = H(f := H f + 2)"
  have H': "H2 g = (H(f := H f + 1)) g + of_bool (fd_lookup (fdt st1 p) fd = Some g)" for g using f l1(2) by (simp add: H2_def)
  obtain st2 t' where st2: "fdremove p fd st1 = Inr st2" "fs_inv st2 H2 G" "fs_fds st2 = (fs_fds st)[p := Some t']"
      "removed fd (fdt st p) t'"
    using fdremove_inv [OF st1(2) l1(1) used H'] st1(3) l1(2) by auto
  define st3 where "st3 = fd_event (Ev_knote p fd) st2"
  have st3: "fs_inv st3 H2 G" "fs_fds st3 = fs_fds st2" using st2(2) by (simp_all add: st3_def)
  obtain st4 where st4: "closef p f st3 = Inr st4" "fs_inv st4 (H2(f := H2 f - 2)) G" "fs_fds st4 = fs_fds st3"
    using closef_inv [OF st3(1), of f p] by (auto simp: H2_def)
  have "H2(f := H2 f - 2) = H" by (simp add: H2_def)
  with st1 st2 st3 st4 show "\<exists>st' t'. fdrelease p fd st = Inr (None, st') \<and> fs_inv st' H G \<and> fs_fds st' = (fs_fds st)[p := Some t'] \<and> removed fd (fdt st p) t'"
    by (auto simp: fdrelease_def simp flip: st3_def)
qed

section \<open>Duplication\<close>

definition dupped :: "nat \<Rightarrow> nat \<Rightarrow> nat \<Rightarrow> bool \<Rightarrow> bool \<Rightarrow> filedesc \<Rightarrow> filedesc \<Rightarrow> bool" where
  "dupped f old new cloexec clofork t t' \<longleftrightarrow>
     fd_ofiles t' = (fd_ofiles t)[new := Some f] \<and>
     fd_ofileflags t' = (fd_ofileflags t)[new := dup_flags cloexec clofork (fd_ofileflags t ! old)] \<and>
     used_fds t' = insert new (used_fds t) \<and> fd_nfiles t' = fd_nfiles t \<and> fd_refcnt t' = fd_refcnt t \<and> fd_adv t' = fd_adv t \<and>
     fd_freefile t' = fd_freefile t"

lemma tab_inv_fd_used:
  assumes t: "tab_inv t" and "new < fd_nfiles t" and "new \<notin> used_fds t"
  shows "\<exists>t'. fd_used t new = Inr t' \<and> tab_inv t' \<and> used_fds t' = insert new (used_fds t) \<and> fd_rest t' = fd_rest t \<and> fd_freefile t' = fd_freefile t"
proof -
  have "fdmap_inv t" using t by (simp add: tab_inv_def fd_ready_def)
  from fd_used_spec [OF this assms(2,3)] obtain t' where t': "fd_used t new = Inr t'" "fdmap_inv t'" "used_fds t' = insert new (used_fds t)"
      "fd_rest t' = fd_rest t" "fd_freefile t' = fd_freefile t" by blast
  with fd_restD [OF t'(4)] t have "tab_inv t'" by (simp add: tab_inv_def fd_ready_def)
  with t' show ?thesis by blast
qed

lemma finishdup_store:
  assumes inv: "fs_inv st H G" and live: "live st p" and "0 < H f" and new: "new < fd_nfiles (fdt st p)" "fd_ofiles (fdt st p) ! new = None"
    and t1: "tab_inv t1" "used_fds t1 = insert new (used_fds (fdt st p))" "fd_rest t1 = fd_rest (fdt st p)"
  shows "fs_inv (set_fdt p (fd_store new (Some f) fl t1) st) (H(f := H f - 1)) G"
proof (rule fs_inv_store [OF inv live])
  show "tab_inv (fd_store new (Some f) fl t1)" using t1 by (intro tab_inv_store) simp_all
  show "fd_ofiles (fd_store new (Some f) fl t1) = (fd_ofiles (fdt st p))[new := Some f]" using fd_restD [OF t1(3)] by simp
  show "new < length (fd_ofiles (fdt st p))" using new tab_inv_len [OF fs_inv_tab [OF inv live]] by simp
qed (use assms(3) new in auto)

lemma finishdup_replace:
  assumes inv: "fs_inv st H G" and live: "live st p" and f: "0 < H f" and g: "fd_lookup (fdt st p) new = Some g"
  shows "\<exists>st' st1. fd_getfile p new st = Inr (Some g, st1) \<and> fdt st1 p = fdt st p \<and>
     closef p g (fd_event (Ev_knote p new) (set_fdt p (fd_store new (Some f) fl (fdt st p)) st1)) = Inr st' \<and>
     fs_inv st' (H(f := H f - 1)) G \<and> fs_fds st' = (fs_fds st)[p := Some (fd_store new (Some f) fl (fdt st p))]"
proof -
  define t where "t = fdt st p"
  have t: "tab_inv t" unfolding t_def by (rule fs_inv_tab [OF inv live])
  have new: "new < length (fd_ofiles t)" "fd_ofiles t ! new = Some g" "new \<in> used_fds t"
    using g t tab_inv_len [OF t] by (auto simp: fd_lookup_def tab_inv_def simp flip: t_def split: if_splits)
  obtain st1 where st1: "fd_getfile p new st = Inr (Some g, st1)" "fs_inv st1 (H(g := H g + 1)) G" "fs_fds st1 = fs_fds st"
    using fd_getfile_inv(2) [OF inv live g] by blast
  have l1: "live st1 p" "fdt st1 p = t" using live live_cong [OF st1(3)] by (simp_all add: t_def)
  define H2 where "H2 = (\<lambda>x. H x + 2 * of_bool (x = g) - of_bool (x = f))"
  define st2 where "st2 = fd_event (Ev_knote p new) (set_fdt p (fd_store new (Some f) fl t) st1)"
  have "fs_inv (set_fdt p (fd_store new (Some f) fl t) st1) H2 G"
  proof (rule fs_inv_store [OF st1(2) l1(1)])
    show "tab_inv (fd_store new (Some f) fl t)" using t new(3) by (intro tab_inv_store)
    show "fd_ofiles (fd_store new (Some f) fl t) = (fd_ofiles (fdt st1 p))[new := Some f]" using l1 by simp
    show "new < length (fd_ofiles (fdt st1 p))" using l1 new by simp
    show "H2 x + of_bool (Some f = Some x) = (H(g := H g + 1)) x + of_bool (fd_ofiles (fdt st1 p) ! new = Some x)" for x
      using f l1 new by (auto simp: H2_def)
  qed
  then have st2: "fs_inv st2 H2 G" by (simp add: st2_def)
  have "2 \<le> H2 g" using f by (auto simp: H2_def)
  then obtain st' where st': "closef p g st2 = Inr st'" "fs_inv st' (H2(g := H2 g - 2)) G" "fs_fds st' = fs_fds st2"
    using closef_inv [OF st2] by blast
  have "H2(g := H2 g - 2) = H(f := H f - 1)" using f by (auto simp: H2_def fun_eq_iff)
  moreover have "fs_fds st2 = (fs_fds st)[p := Some (fd_store new (Some f) fl t)]" by (simp add: st2_def st1(3))
  ultimately show ?thesis using st1(1) l1(2) st' unfolding t_def [symmetric] st2_def by auto
qed

lemma held_file:
  assumes "fs_inv st H G" and "0 < H f"
  shows "\<exists>fp. fs_file st f = Some fp \<and> f_ins fp \<and> f_count fp = slots st f + H f + G f"
proof -
  have "f \<in> set (fs_head st)" using assms by (simp add: fs_inv_def)
  moreover have "file_inv st (\<lambda>f. slots st f + H f + G f)" using assms(1) by (simp add: fs_inv_def)
  ultimately show ?thesis using file_inv_live [of st "\<lambda>f. slots st f + H f + G f" f] assms(2) by auto
qed

definition finish_post :: "nat \<Rightarrow> nat \<Rightarrow> nat \<Rightarrow> nat \<Rightarrow> bool \<Rightarrow> bool \<Rightarrow> bool \<Rightarrow> nat \<Rightarrow> fdsys \<Rightarrow> errno + nat \<Rightarrow> fdsys \<Rightarrow> bool" where
  "finish_post p f old new dup2 cloexec clofork refs st r st' \<longleftrightarrow>
     (case r of
        Inl e \<Rightarrow> fs_fds st' = fs_fds st \<and> (e = EDEADLK \<and> FDUP_MAX_COUNT \<le> refs \<or>
          e = EBUSY \<and> dup2 \<and> new \<in> used_fds (fdt st p) \<and> fd_ofiles (fdt st p) ! new = None)
      | Inr n \<Rightarrow> n = new \<and> (dup2 \<longrightarrow> \<not> (new \<in> used_fds (fdt st p) \<and> fd_ofiles (fdt st p) ! new = None)) \<and>
          (\<exists>t'. fs_fds st' = (fs_fds st)[p := Some t'] \<and> dupped f old new cloexec clofork (fdt st p) t'))"

lemma finishdup_inv:
  assumes inv: "fs_inv st H G" and live: "live st p" and f: "0 < H f"
    and fds: "old < fd_nfiles (fdt st p)" "new < fd_nfiles (fdt st p)"
    and reserved: "\<not> dup2 \<Longrightarrow> new \<in> used_fds (fdt st p) \<and> fd_ofiles (fdt st p) ! new = None"
  shows "\<exists>r st'. finishdup p f old new dup2 cloexec clofork st = Inr (r, st') \<and> fs_inv st' (H(f := H f - 1)) G \<and>
     finish_post p f old new dup2 cloexec clofork (slots st f + H f + G f) st r st'"
proof -
  define t where "t = fdt st p"
  have t: "tab_inv t" unfolding t_def by (rule fs_inv_tab [OF inv live])
  obtain fp where fp: "fs_file st f = Some fp" "f_ins fp" "f_count fp = slots st f + H f + G f" using held_file [OF inv f] by blast
  obtain st0 where st0: "FRELE f st = Inr st0" "fs_inv st0 (H(f := H f - 1)) G" "fs_fds st0 = fs_fds st"
    using FRELE_inv [OF inv f] by blast
  consider (many) "f_count fp \<ge> FDUP_MAX_COUNT" | (busy) "f_count fp < FDUP_MAX_COUNT" "fd_ofiles t ! new = None" "dup2" "new \<in> used_fds t"
    | (fresh) "f_count fp < FDUP_MAX_COUNT" "fd_ofiles t ! new = None" "\<not> (dup2 \<and> new \<in> used_fds t)"
    | (replace) g where "f_count fp < FDUP_MAX_COUNT" "fd_ofiles t ! new = Some g" by (metis not_less option.exhaust)
  then show ?thesis
  proof cases
    case many
    then show ?thesis using fp st0 by (simp add: finishdup_def finish_post_def)
  next
    case busy
    have "fd_getfile p new st = Inr (None, st)" using busy(2) fd_getfile_inv(1) [OF inv live] fds(2) by (simp add: fd_lookup_def t_def)
    moreover have "fd_inuse t new = Inr True"
      using busy(4) t fds(2) fdmap_sizesD(2) [of t] by (subst fd_inuse_eq) (auto simp: tab_inv_def fd_ready_def fdmap_inv_eq t_def)
    ultimately show ?thesis using busy fp st0 by (simp add: finishdup_def t_def finish_post_def)
  next
    case fresh
    have get: "fd_getfile p new st = Inr (None, st)" using fresh(2) fd_getfile_inv(1) [OF inv live] fds(2) by (simp add: fd_lookup_def t_def)
    have inuse: "fd_inuse t new = Inr (new \<in> used_fds t)"
      using t fds(2) fdmap_sizesD(2) [of t] by (intro fd_inuse_eq) (auto simp: tab_inv_def fd_ready_def fdmap_inv_eq t_def)
    have "\<exists>t1. (if dup2 then fd_used t new else Inr t) = Inr t1 \<and> tab_inv t1 \<and> used_fds t1 = insert new (used_fds t) \<and>
        fd_rest t1 = fd_rest t \<and> fd_freefile t1 = fd_freefile t"
    proof (cases dup2)
      case True
      then have "new \<notin> used_fds t" "new < fd_nfiles t" using fresh(3) fds(2) by (simp_all add: t_def)
      with True tab_inv_fd_used [OF t] show ?thesis by simp
    next
      case False
      then have "insert new (used_fds t) = used_fds t" using reserved by (simp add: t_def insert_absorb)
      with False t show ?thesis by simp
    qed
    then obtain t1 where t1: "(if dup2 then fd_used t new else Inr t) = Inr t1" "tab_inv t1" "used_fds t1 = insert new (used_fds t)"
        "fd_rest t1 = fd_rest t" "fd_freefile t1 = fd_freefile t" by blast
    define t' where "t' = fd_store new (Some f) (dup_flags cloexec clofork (fd_ofileflags t1 ! old)) t1"
    have "fs_inv (set_fdt p t' st) (H(f := H f - 1)) G"
      unfolding t'_def using fresh(2) t1(3,4) by (intro finishdup_store [OF inv live f fds(2) _ t1(2)]) (simp_all flip: t_def)
    moreover have "finishdup p f old new dup2 cloexec clofork st = Inr (Inr new, set_fdt p t' st)"
    proof -
      have n: "fd_nfiles t1 = fd_nfiles t" using fd_restD [OF t1(4)] by simp
      have "\<not> f_count fp \<ge> FDUP_MAX_COUNT" "\<not> (new \<ge> fd_nfiles t1 \<or> old \<ge> fd_nfiles t1)" using fresh(1) fds n by (simp_all add: t_def)
      moreover have "(if dup2 \<and> None = None then fd_inuse t new else Inr False) = Inr False" using fresh(3) inuse by simp
      moreover have "(if dup2 \<and> None = None then fd_used t new else Inr t) = Inr t1" using t1(1) by simp
      ultimately show ?thesis
        unfolding finishdup_def fp(1) get option.case sum.case prod.case t_def [symmetric] using fp(2) by (simp add: t'_def)
    qed
    moreover have "dupped f old new cloexec clofork t t'" using t1(3,5) fd_restD [OF t1(4)] by (simp add: dupped_def t'_def)
    ultimately show ?thesis using fresh(3) by (auto simp: t_def finish_post_def)
  next
    case replace
    define fl where "fl = dup_flags cloexec clofork (fd_ofileflags t ! old)"
    have g: "fd_lookup (fdt st p) new = Some g" using replace(2) fds(2) by (simp add: fd_lookup_def t_def)
    obtain st1 st' where st': "fd_getfile p new st = Inr (Some g, st1)" "fdt st1 p = t"
        "closef p g (fd_event (Ev_knote p new) (set_fdt p (fd_store new (Some f) fl t) st1)) = Inr st'"
        "fs_inv st' (H(f := H f - 1)) G" "fs_fds st' = (fs_fds st)[p := Some (fd_store new (Some f) fl t)]"
      using finishdup_replace [OF inv live f g, of fl] unfolding t_def by blast
    have "new \<in> used_fds t" using t fds(2) replace(2) by (simp add: tab_inv_def t_def)
    then have "dupped f old new cloexec clofork t (fd_store new (Some f) fl t)" by (simp add: dupped_def fl_def insert_absorb)
    moreover have "finishdup p f old new dup2 cloexec clofork st = Inr (Inr new, st')"
      using replace(1) fp fds st' by (simp add: finishdup_def fl_def flip: t_def)
    ultimately show ?thesis using st'(4,5) replace(2) by (auto simp: t_def finish_post_def)
  qed
qed

lemma fdalloc_tab:
  assumes t: "tab_inv t"
  obtains
    (got) n t' where "fdalloc lim pledge want t = Inr (Inr (n, t'))" "tab_inv t'" "n = free_from t (max want (fd_freefile t))" "n \<notin> used_fds t"
      "want \<le> n" "n < fd_nfiles t" "n < lim" "fd_taken pledge n t t'"
    | (emfile) "fdalloc lim pledge want t = Inr (Inl EMFILE)" "lim \<le> fd_nfiles t" "lim \<le> free_from t (max want (fd_freefile t))"
    | (enospc) "fdalloc lim pledge want t = Inr (Inl ENOSPC)" "fd_nfiles t < lim"
proof -
  define n where "n = free_from t (max want (fd_freefile t))"
  have ok: "fdalloc_ok lim pledge want t (fdalloc lim pledge want t)"
    using t fd_ready_slack by (intro fdalloc_spec) (auto simp: tab_inv_def fd_ready_def)
  show ?thesis
  proof (cases "n < min (fd_nfiles t) lim")
    case True
    then obtain t' where t': "fdalloc lim pledge want t = Inr (Inr (n, t'))" "fd_taken pledge n t t'"
      using ok by (auto simp: fdalloc_ok_def Let_def n_def)
    have "tab_inv t'" using t t'(2) by (auto simp: tab_inv_def fd_ready_def fd_taken_def)
    moreover have "n \<notin> used_fds t" "want \<le> n" using free_from_props(1,2) [where n = "max want (fd_freefile t)" and fdp = t] by (simp_all add: n_def)
    ultimately show ?thesis using True t' n_def by (intro got) auto
  next
    case False
    then show ?thesis using ok emfile enospc by (cases "lim \<le> fd_nfiles t") (auto simp: fdalloc_ok_def Let_def n_def)
  qed
qed

lemma count_None [simp]: "count_list (xs @ replicate n None) (Some f) = count_list xs (Some f)"
  by (induction n) (simp_all add: replicate_append_same [symmetric] del: replicate.simps)

lemma fdexpand_tab:
  assumes t: "tab_inv t" and "fd_nfiles t < lim" and "lim \<le> 12800"
  shows "tab_inv (fdexpand t)" and "count_list (fd_ofiles (fdexpand t)) (Some f) = count_list (fd_ofiles t) (Some f)"
    and "fd_nfiles t < fd_nfiles (fdexpand t)"
proof -
  have inv: "fdmap_inv t" using t by (simp add: tab_inv_def fd_ready_def)
  note e = fdexpand_spec [OF inv]
  show "count_list (fd_ofiles (fdexpand t)) (Some f) = count_list (fd_ofiles t) (Some f)" using e by simp
  show "fd_nfiles t < fd_nfiles (fdexpand t)" using e by (auto simp: fd_grown_def NDEXTENT_def)
  have "fd_nfiles (fdexpand t) < 25600" using e assms(2,3) by (auto simp: fd_grown_def NDEXTENT_def)
  moreover have "k \<in> used_fds t" if "fd_ofiles (fdexpand t) ! k \<noteq> None" "k < fd_nfiles (fdexpand t)" for k
    using that e t tab_inv_len [OF t] by (cases "k < fd_nfiles t") (auto simp: nth_append tab_inv_def)
  ultimately show "tab_inv (fdexpand t)" using e t by (simp add: tab_inv_def fd_ready_def)
qed

lemma fdexpand_inv:
  assumes "fs_inv st H G" and "live st p" and "fd_nfiles (fdt st p) < lim" and "lim \<le> 12800"
  shows "fs_inv (set_fdt p (fdexpand (fdt st p)) st) H G"
  using fdexpand_tab [OF fs_inv_tab [OF assms(1,2)] assms(3,4)] by (intro fs_inv_set [OF assms(1,2)])

definition dup_post ::
  "nat \<Rightarrow> bool \<Rightarrow> nat \<Rightarrow> nat \<Rightarrow> nat \<Rightarrow> nat \<Rightarrow> bool \<Rightarrow> bool \<Rightarrow> fdsys \<Rightarrow> (errno + nat) option \<Rightarrow> fdsys \<Rightarrow> bool" where
  "dup_post lim pledge p f old want cloexec clofork st r st' \<longleftrightarrow>
     (case r of
        None \<Rightarrow> fd_nfiles (fdt st p) < lim \<and> fs_fds st' = (fs_fds st)[p := Some (fdexpand (fdt st p))]
      | Some (Inl e) \<Rightarrow>
          e = EMFILE \<and> lim \<le> free_from (fdt st p) (max want (fd_freefile (fdt st p))) \<and> fs_fds st' = fs_fds st \<or>
          e = EDEADLK \<and> (\<exists>n t1. fd_taken pledge n (fdt st p) t1 \<and> n \<notin> used_fds (fdt st p) \<and> fs_fds st' = (fs_fds st)[p := Some t1])
      | Some (Inr n) \<Rightarrow>
          n = free_from (fdt st p) (max want (fd_freefile (fdt st p))) \<and> n < lim \<and>
          (\<exists>t1 t'. fd_taken pledge n (fdt st p) t1 \<and> dupped f old n cloexec clofork t1 t' \<and> fs_fds st' = (fs_fds st)[p := Some t']))"

lemma dup_locked_inv:
  assumes inv: "fs_inv st H G" and live: "live st p" and f: "0 < H f" and old: "old < fd_nfiles (fdt st p)" and lim: "lim \<le> 12800"
  shows "\<exists>r st'. dup_locked lim pledge p f old want cloexec clofork st = Inr (r, st') \<and> fs_inv st' (H(f := H f - 1)) G \<and>
     dup_post lim pledge p f old want cloexec clofork st r st'"
  using fs_inv_tab [OF inv live]
proof (cases rule: fdalloc_tab [where lim = lim and pledge = pledge and want = want])
  case (got n t')
  define st1 where "st1 = set_fdt p t' st"
  have st1: "fs_inv st1 H G" "live st1 p" "fdt st1 p = t'" "fs_fds st1 = (fs_fds st)[p := Some t']"
    unfolding st1_def using got(2,8) live by (auto intro!: fs_inv_set [OF inv live] simp: fd_taken_def)
  have n: "n \<in> used_fds t'" "fd_ofiles t' ! n = None" "n < fd_nfiles t'" "old < fd_nfiles t'"
    using got(4,6,8) old fs_inv_tab [OF inv live] by (auto simp: fd_taken_def tab_inv_def)
  from finishdup_inv [OF st1(1,2) f, of old n False cloexec clofork] obtain r st' where
    r: "finishdup p f old n False cloexec clofork st1 = Inr (r, st')" "fs_inv st' (H(f := H f - 1)) G"
      "finish_post p f old n False cloexec clofork (slots st1 f + H f + G f) st1 r st'"
    using n by (auto simp: st1(3))
  have "dup_post lim pledge p f old want cloexec clofork st (Some r) st'"
    using r(3) got(3,4,7,8) st1(3,4) unfolding dup_post_def finish_post_def by (cases r) auto
  with r(1,2) got(1) show ?thesis by (simp add: dup_locked_def flip: st1_def)
next
  case emfile
  with FRELE_inv [OF inv f] show ?thesis by (auto simp: dup_locked_def dup_post_def)
next
  case enospc
  have "fs_inv (set_fdt p (fdexpand (fdt st p)) st) H G" using fdexpand_inv [OF inv live enospc(2) lim] .
  from FRELE_inv [OF this f] enospc show ?thesis by (auto simp: dup_locked_def dup_post_def)
qed

definition dup3_post ::
  "nat \<Rightarrow> nat \<Rightarrow> nat \<Rightarrow> nat \<Rightarrow> nat \<Rightarrow> bool \<Rightarrow> bool \<Rightarrow> fdsys \<Rightarrow> (errno + nat) option \<Rightarrow> fdsys \<Rightarrow> bool" where
  "dup3_post lim p f old new cloexec clofork st r st' \<longleftrightarrow>
     (case r of
        None \<Rightarrow> fd_nfiles (fdt st p) < lim \<and> fs_fds st' = (fs_fds st)[p := Some (fdexpand (fdt st p))]
      | Some (Inl e) \<Rightarrow> fs_fds st' = fs_fds st \<and>
          (e = EDEADLK \<or> e = EBUSY \<and> new \<in> used_fds (fdt st p) \<and> fd_lookup (fdt st p) new = None)
      | Some (Inr n) \<Rightarrow> n = new \<and> new < fd_nfiles (fdt st p) \<and> \<not> (new \<in> used_fds (fdt st p) \<and> fd_lookup (fdt st p) new = None) \<and>
          (\<exists>t'. dupped f old new cloexec clofork (fdt st p) t' \<and> fs_fds st' = (fs_fds st)[p := Some t']))"

lemma dup3_locked_inv:
  assumes inv: "fs_inv st H G" and live: "live st p" and f: "0 < H f" and old: "old < fd_nfiles (fdt st p)"
    and new: "new < lim" and lim: "lim \<le> 12800"
  shows "\<exists>r st'. dup3_locked lim pledge p f old new cloexec clofork st = Inr (r, st') \<and> fs_inv st' (H(f := H f - 1)) G \<and>
     dup3_post lim p f old new cloexec clofork st r st'"
proof (cases "new < fd_nfiles (fdt st p)")
  case True
  from finishdup_inv [OF inv live f old True, of True cloexec clofork] obtain r st' where
    r: "finishdup p f old new True cloexec clofork st = Inr (r, st')" "fs_inv st' (H(f := H f - 1)) G"
      "finish_post p f old new True cloexec clofork (slots st f + H f + G f) st r st'" by blast
  have "dup3_post lim p f old new cloexec clofork st (Some r) st'"
    using r(3) True unfolding dup3_post_def finish_post_def by (cases r) (auto simp: fd_lookup_def)
  with r(1,2) True show ?thesis by (simp add: dup3_locked_def Let_def)
next
  case False
  have t: "tab_inv (fdt st p)" by (rule fs_inv_tab [OF inv live])
  from t show ?thesis
  proof (cases rule: fdalloc_tab [where lim = lim and pledge = pledge and want = new])
    case (got n t')
    then show ?thesis using False by simp
  next
    case emfile
    then show ?thesis using False new by simp
  next
    case enospc
    have "fs_inv (set_fdt p (fdexpand (fdt st p)) st) H G" using fdexpand_inv [OF inv live enospc(2) lim] .
    from FRELE_inv [OF this f] enospc False show ?thesis by (auto simp: dup3_locked_def dup3_post_def Let_def)
  qed
qed

section \<open>The system calls return\<close>

lemma fd_restart_rule:
  fixes m :: "fdsys \<Rightarrow> nat"
  assumes "I st"
    and fine: "\<And>s e. I s \<Longrightarrow> round s \<noteq> Inl e"
    and again: "\<And>s s1. I s \<Longrightarrow> round s = Inr (None, s1) \<Longrightarrow> I s1 \<and> m s1 < m s"
    and finish: "\<And>s r s1. I s \<Longrightarrow> round s = Inr (Some r, s1) \<Longrightarrow> Q r s1"
  shows "\<exists>r st'. fd_restart round st = Some (Inr (r, st')) \<and> Q r st'"
  using assms(1)
proof (induction "m st" arbitrary: st rule: less_induct)
  case less
  consider (again) s1 where "round st = Inr (None, s1)" | (finish) r s1 where "round st = Inr (Some r, s1)"
    using fine [OF less.prems] by (cases "round st") (auto, metis not_Some_eq)
  then show ?case
  proof cases
    case (again s1)
    have "I s1 \<and> m s1 < m st" by (rule assms(3) [OF less.prems again])
    with less.hyps [of s1] again show ?thesis by (simp add: fd_restart.simps [of round st])
  next
    case (finish r s1)
    with assms(4) [OF less.prems finish] show ?thesis by (auto simp: fd_restart.simps [of round st])
  qed
qed

text \<open>What growing a table preserves.\<close>

definition expanded :: "filedesc \<Rightarrow> filedesc \<Rightarrow> bool" where
  "expanded t t' \<longleftrightarrow> used_fds t' = used_fds t \<and> fd_lookup t' = fd_lookup t \<and> fd_nfiles t \<le> fd_nfiles t' \<and>
     (\<forall>fd < fd_nfiles t. fd_ofileflags t' ! fd = fd_ofileflags t ! fd) \<and> fd_freefile t' = fd_freefile t \<and>
     fd_refcnt t' = fd_refcnt t \<and> fd_adv t' = fd_adv t"

lemma expanded_refl [simp]: "expanded t t"
  by (simp add: expanded_def)

lemma expanded_trans: "expanded t1 t2 \<Longrightarrow> expanded t2 t3 \<Longrightarrow> expanded t1 t3"
  by (auto simp: expanded_def)

lemma expanded_fdexpand:
  assumes t: "tab_inv t"
  shows "expanded t (fdexpand t)"
proof -
  have "fdmap_inv t" using t by (simp add: tab_inv_def fd_ready_def)
  note e = fdexpand_spec [OF this]
  have le: "fd_nfiles t \<le> fd_grown (fd_nfiles t)" by (simp add: fd_grown_def)
  have "fd_lookup (fdexpand t) fd = fd_lookup t fd" for fd
    using e tab_inv_len [OF t] le by (auto simp: fd_lookup_def nth_append)
  then show ?thesis using e tab_inv_len [OF t] le by (auto simp: expanded_def nth_append)
qed

lemma expanded_free_from: "expanded t t' \<Longrightarrow> free_from t' n = free_from t n"
  by (simp add: expanded_def free_from_def)

definition dup_view :: "nat \<Rightarrow> nat \<Rightarrow> nat \<Rightarrow> bool \<Rightarrow> bool \<Rightarrow> filedesc \<Rightarrow> filedesc \<Rightarrow> bool" where
  "dup_view f old n cloexec clofork t t' \<longleftrightarrow>
     fd_lookup t' = (fd_lookup t)(n := Some f) \<and> used_fds t' = insert n (used_fds t) \<and>
     fd_ofileflags t' ! n = dup_flags cloexec clofork (fd_ofileflags t ! old) \<and>
     (\<forall>fd < fd_nfiles t. fd \<noteq> n \<longrightarrow> fd_ofileflags t' ! fd = fd_ofileflags t ! fd) \<and>
     fd_refcnt t' = fd_refcnt t \<and> fd_adv t' = fd_adv t"

lemma dup_view_expanded:
  "expanded t0 t \<Longrightarrow> dup_view f old n cloexec clofork t t' \<Longrightarrow> old < fd_nfiles t0 \<Longrightarrow> dup_view f old n cloexec clofork t0 t'"
  by (auto simp: dup_view_def expanded_def)

lemma dupped_view:
  assumes "tab_inv t" and "dupped f old n cloexec clofork t t'" and "n < fd_nfiles t"
  shows "dup_view f old n cloexec clofork t t'"
  using assms tab_inv_len [OF assms(1)] by (auto simp: dup_view_def dupped_def fd_lookup_def fun_eq_iff)

lemma taken_dupped_view:
  assumes t: "tab_inv t" and "fd_taken pledge n t t1" and "dupped f old n cloexec clofork t1 t'" and "n < fd_nfiles t" and "old \<noteq> n"
  shows "dup_view f old n cloexec clofork t t'"
  using assms tab_inv_len [OF t] by (auto simp: dup_view_def dupped_def fd_taken_def fd_lookup_def fun_eq_iff)

text \<open>The states between the rounds of one call.\<close>

definition dup_between :: "(nat \<Rightarrow> nat) \<Rightarrow> (nat \<Rightarrow> nat) \<Rightarrow> nat \<Rightarrow> fdsys \<Rightarrow> fdsys \<Rightarrow> bool" where
  "dup_between H G p st0 st \<longleftrightarrow> fs_inv st H G \<and> live st p \<and> (\<exists>t. fs_fds st = (fs_fds st0)[p := Some t] \<and> expanded (fdt st0 p) t)"

lemma dup_between_refl: "fs_inv st H G \<Longrightarrow> live st p \<Longrightarrow> dup_between H G p st st"
  unfolding dup_between_def by (metis expanded_refl list_update_id live_fdt)

lemma dup_betweenD:
  assumes "dup_between H G p st0 st" and "live st0 p"
  shows "fs_inv st H G" "live st p" "expanded (fdt st0 p) (fdt st p)" "(fs_fds st)[p := x] = (fs_fds st0)[p := x]"
proof -
  obtain t where t: "fs_inv st H G" "live st p" "fs_fds st = (fs_fds st0)[p := Some t]" "expanded (fdt st0 p) t"
    using assms(1) by (auto simp: dup_between_def)
  moreover have "fdt st p = t" using t(3) assms(2) by (simp add: fdt_def live_def)
  ultimately show "fs_inv st H G" "live st p" "expanded (fdt st0 p) (fdt st p)" "(fs_fds st)[p := x] = (fs_fds st0)[p := x]" by simp_all
qed

lemma dup_between_step:
  assumes b: "dup_between H G p st0 s" and "live st0 p" and inv: "fs_inv s1 H G" and s1: "fs_fds s1 = (fs_fds s)[p := Some (fdexpand (fdt s p))]"
    and lt: "fd_nfiles (fdt s p) < lim"
  shows "dup_between H G p st0 s1 \<and> lim - fd_nfiles (fdt s1 p) < lim - fd_nfiles (fdt s p)"
proof -
  note d = dup_betweenD [OF b assms(2)]
  have t: "tab_inv (fdt s p)" by (rule fs_inv_tab [OF d(1,2)])
  have l: "live s1 p" "fdt s1 p = fdexpand (fdt s p)" using d(2) s1 by (simp_all add: live_def fdt_def)
  have "fdmap_inv (fdt s p)" using t by (simp add: tab_inv_def fd_ready_def)
  from fdexpand_spec [OF this] have "fd_nfiles (fdt s p) < fd_nfiles (fdexpand (fdt s p))" by (auto simp: fd_grown_def NDEXTENT_def)
  moreover have "expanded (fdt st0 p) (fdexpand (fdt s p))" by (rule expanded_trans [OF d(3) expanded_fdexpand [OF t]])
  ultimately show ?thesis using inv l lt s1 d(4) [of "Some (fdexpand (fdt s p))"] by (auto simp: dup_between_def)
qed

definition dup_result :: "nat \<Rightarrow> nat \<Rightarrow> nat \<Rightarrow> nat \<Rightarrow> bool \<Rightarrow> bool \<Rightarrow> fdsys \<Rightarrow> errno + nat \<Rightarrow> fdsys \<Rightarrow> bool" where
  "dup_result lim p old want cloexec clofork st r st' \<longleftrightarrow>
     (let t = fdt st p; n = free_from t (max want (fd_freefile t)) in
      case fd_lookup t old of
        None \<Rightarrow> r = Inl EBADF \<and> st' = st
      | Some f \<Rightarrow>
          r = Inr n \<and> n < lim \<and> (\<exists>t'. fs_fds st' = (fs_fds st)[p := Some t'] \<and> dup_view f old n cloexec clofork t t') \<or>
          r = Inl EMFILE \<and> lim \<le> n \<and> (\<exists>t'. fs_fds st' = (fs_fds st)[p := Some t'] \<and> expanded t t') \<or>
          r = Inl EDEADLK)"

lemma expanded_lookup: "expanded t t' \<Longrightarrow> fd_lookup t' = fd_lookup t" "expanded t t' \<Longrightarrow> fd_freefile t' = fd_freefile t"
  by (simp_all add: expanded_def)

lemma lookup_used: "tab_inv t \<Longrightarrow> fd_lookup t fd = Some f \<Longrightarrow> fd < fd_nfiles t \<and> fd \<in> used_fds t"
  by (auto simp: fd_lookup_def tab_inv_def split: if_splits)

lemma fd_taken_lt: "tab_inv t \<Longrightarrow> fd_taken pledge n t t1 \<Longrightarrow> n < fd_nfiles t"
  by (auto simp: fd_taken_def fdmap_inv_eq)

lemma dup_round_finish:
  assumes b: "dup_between H G p st0 s" and live: "live st0 p" and f: "fd_lookup (fdt st0 p) old = Some f"
    and post: "dup_post lim pledge p f old want cloexec clofork s (Some r) s1"
  shows "dup_result lim p old want cloexec clofork st0 r s1"
proof -
  note d = dup_betweenD [OF b live]
  have t: "tab_inv (fdt s p)" by (rule fs_inv_tab [OF d(1,2)])
  have old: "fd_lookup (fdt s p) old = Some f" using f expanded_lookup(1) [OF d(3)] by simp
  have F: "free_from (fdt s p) (max want (fd_freefile (fdt s p))) = free_from (fdt st0 p) (max want (fd_freefile (fdt st0 p)))"
    using expanded_free_from [OF d(3)] expanded_lookup(2) [OF d(3)] by simp
  show ?thesis
  proof (cases r)
    case (Inl e)
    have "fs_fds s = (fs_fds st0)[p := Some (fdt s p)]" using d(4) [of "Some (fdt s p)"] live_fdt [OF d(2)] by (metis list_update_id)
    then show ?thesis using post f Inl d(3) F by (auto simp: dup_post_def dup_result_def Let_def)
  next
    case (Inr n)
    then obtain t1 t' where n: "n = free_from (fdt s p) (max want (fd_freefile (fdt s p)))" "n < lim" "fd_taken pledge n (fdt s p) t1"
        "dupped f old n cloexec clofork t1 t'" "fs_fds s1 = (fs_fds s)[p := Some t']"
      using post by (auto simp: dup_post_def)
    have "old \<noteq> n" using n(1) free_from_props(2) [where fdp = "fdt s p" and n = "max want (fd_freefile (fdt s p))"] lookup_used [OF t old] by metis
    then have "dup_view f old n cloexec clofork (fdt s p) t'" by (rule taken_dupped_view [OF t n(3,4) fd_taken_lt [OF t n(3)]])
    then have "dup_view f old n cloexec clofork (fdt st0 p) t'"
      using dup_view_expanded [OF d(3)] f by (auto simp: fd_lookup_def split: if_splits)
    with n d(4) F Inr f show ?thesis by (auto simp: dup_result_def Let_def)
  qed
qed

text \<open>
  A call that takes a reference to \<open>f\<close>, runs its locked part \<open>K\<close> and starts again when the table was grown, returns. \<open>P\<close> relates
  the state at the start of a round to the outcome of the round.
\<close>

lemma locked_returns:
  assumes inv: "fs_inv st H G" and live: "live st p" and f: "fd_lookup (fdt st p) old = Some f"
    and round: "\<And>s s2. fd_getfile p old s = Inr (Some f, s2) \<Longrightarrow> round s = K s2"
    and K: "\<And>s. fs_inv s (H(f := H f + 1)) G \<Longrightarrow> live s p \<Longrightarrow> old < fd_nfiles (fdt s p) \<Longrightarrow>
      \<exists>r s1. K s = Inr (r, s1) \<and> fs_inv s1 H G \<and> P s r s1"
    and cong: "\<And>s s2 r s1. fs_fds s2 = fs_fds s \<Longrightarrow> P s2 r s1 \<Longrightarrow> P s r s1"
    and grow: "\<And>s s1. P s None s1 \<Longrightarrow> fd_nfiles (fdt s p) < lim \<and> fs_fds s1 = (fs_fds s)[p := Some (fdexpand (fdt s p))]"
    and finish: "\<And>s r s1. dup_between H G p st s \<Longrightarrow> P s (Some r) s1 \<Longrightarrow> Q r s1"
  shows "\<exists>r st'. fd_restart round st = Some (Inr (r, st')) \<and> fs_inv st' H G \<and> Q r st'"
proof (rule fd_restart_rule [where I = "dup_between H G p st" and m = "\<lambda>s. lim - fd_nfiles (fdt s p)" and Q = "\<lambda>r st'. fs_inv st' H G \<and> Q r st'"])
  show "dup_between H G p st st" by (rule dup_between_refl [OF inv live])
  have one: "\<exists>r s1. round s = Inr (r, s1) \<and> fs_inv s1 H G \<and> P s r s1" if b: "dup_between H G p st s" for s
  proof -
    note d = dup_betweenD [OF b live]
    have old: "fd_lookup (fdt s p) old = Some f" using f expanded_lookup(1) [OF d(3)] by simp
    obtain s2 where s2: "fd_getfile p old s = Inr (Some f, s2)" "fs_inv s2 (H(f := H f + 1)) G" "fs_fds s2 = fs_fds s"
      using fd_getfile_inv(2) [OF d(1,2) old] by blast
    have l: "live s2 p" "fdt s2 p = fdt s p" using d(2) live_cong [OF s2(3)] by simp_all
    have "old < fd_nfiles (fdt s2 p)" using lookup_used [OF fs_inv_tab [OF d(1,2)] old] l(2) by simp
    from K [OF s2(2) l(1) this] cong [OF s2(3)] round [OF s2(1)] show ?thesis by auto
  qed
  show "round s \<noteq> Inl e" if "dup_between H G p st s" for s e using one [OF that] by auto
  show "dup_between H G p st s1 \<and> lim - fd_nfiles (fdt s1 p) < lim - fd_nfiles (fdt s p)"
    if b: "dup_between H G p st s" and r: "round s = Inr (None, s1)" for s s1
  proof -
    have "fs_inv s1 H G" "P s None s1" using one [OF b] r by auto
    with grow [of s s1] show ?thesis by (intro dup_between_step [OF b live]) auto
  qed
  show "fs_inv s1 H G \<and> Q r s1" if b: "dup_between H G p st s" and r: "round s = Inr (Some r, s1)" for s r s1
    using one [OF b] r finish [OF b] by auto
qed

lemma upd_id_hold: "(H(f := H f + 1))(f := (H(f := H f + 1)) f - 1) = (H :: nat \<Rightarrow> nat)"
  by simp

lemma dup_locked_returns:
  assumes inv: "fs_inv st H G" and live: "live st p" and lim: "lim \<le> 12800" and f: "fd_lookup (fdt st p) old = Some f"
    and round: "\<And>s s2. fd_getfile p old s = Inr (Some f, s2) \<Longrightarrow> round s = dup_locked lim pledge p f old want cloexec clofork s2"
  shows "\<exists>r st'. fd_restart round st = Some (Inr (r, st')) \<and> fs_inv st' H G \<and> dup_result lim p old want cloexec clofork st r st'"
proof (rule locked_returns [OF inv live f round, where lim = lim and P = "dup_post lim pledge p f old want cloexec clofork"])
  show "\<exists>r s1. dup_locked lim pledge p f old want cloexec clofork s = Inr (r, s1) \<and> fs_inv s1 H G \<and> dup_post lim pledge p f old want cloexec clofork s r s1"
    if "fs_inv s (H(f := H f + 1)) G" "live s p" "old < fd_nfiles (fdt s p)" for s
    using dup_locked_inv [OF that(1,2) _ that(3) lim, of f, unfolded upd_id_hold] by simp
  show "dup_post lim pledge p f old want cloexec clofork s r s1"
    if "fs_fds s2 = fs_fds s" "dup_post lim pledge p f old want cloexec clofork s2 r s1" for s s2 r s1
  proof -
    have eq: "fdt s2 p = fdt s p" using live_cong [OF that(1)] by simp
    show ?thesis using that(2) unfolding dup_post_def that(1) eq .
  qed
  show "dup_result lim p old want cloexec clofork st r s1"
    if "dup_between H G p st s" "dup_post lim pledge p f old want cloexec clofork s (Some r) s1" for s r s1
    by (rule dup_round_finish [OF that(1) live f that(2)])
qed (simp_all add: dup_post_def)

definition dup3_result :: "nat \<Rightarrow> nat \<Rightarrow> nat \<Rightarrow> nat \<Rightarrow> bool \<Rightarrow> bool \<Rightarrow> fdsys \<Rightarrow> errno + nat \<Rightarrow> fdsys \<Rightarrow> bool" where
  "dup3_result lim p old new cloexec clofork st r st' \<longleftrightarrow>
     (let t = fdt st p in
      case fd_lookup t old of
        None \<Rightarrow> r = Inl EBADF \<and> st' = st
      | Some f \<Rightarrow>
          if old = new then r = Inr new \<and> fs_fds st' = fs_fds st
          else if new \<ge> lim then r = Inl EBADF \<and> fs_fds st' = fs_fds st
          else
            r = Inr new \<and> \<not> (new \<in> used_fds t \<and> fd_lookup t new = None) \<and>
              (\<exists>t'. fs_fds st' = (fs_fds st)[p := Some t'] \<and> dup_view f old new cloexec clofork t t') \<or>
            (r = Inl EBUSY \<and> new \<in> used_fds t \<and> fd_lookup t new = None \<or> r = Inl EDEADLK) \<and>
              (\<exists>t'. fs_fds st' = (fs_fds st)[p := Some t'] \<and> expanded t t'))"

lemma dup3_round_finish:
  assumes b: "dup_between H G p st0 s" and live: "live st0 p" and f: "fd_lookup (fdt st0 p) old = Some f" and new: "old \<noteq> new" "new < lim"
    and post: "dup3_post lim p f old new cloexec clofork s (Some r) s1"
  shows "dup3_result lim p old new cloexec clofork st0 r s1"
proof -
  note d = dup_betweenD [OF b live]
  have t: "tab_inv (fdt s p)" by (rule fs_inv_tab [OF d(1,2)])
  show ?thesis
  proof (cases r)
    case (Inl e)
    have "fs_fds s = (fs_fds st0)[p := Some (fdt s p)]" using d(4) [of "Some (fdt s p)"] live_fdt [OF d(2)] by (metis list_update_id)
    moreover have "used_fds (fdt s p) = used_fds (fdt st0 p)" "fd_lookup (fdt s p) = fd_lookup (fdt st0 p)" using d(3) by (simp_all add: expanded_def)
    ultimately show ?thesis using post f new Inl d(3) by (auto simp: dup3_post_def dup3_result_def Let_def)
  next
    case (Inr n)
    then obtain t' where t': "n = new" "new < fd_nfiles (fdt s p)" "dupped f old new cloexec clofork (fdt s p) t'" "fs_fds s1 = (fs_fds s)[p := Some t']"
      and free: "\<not> (new \<in> used_fds (fdt st0 p) \<and> fd_lookup (fdt st0 p) new = None)"
      using post d(3) by (auto simp: dup3_post_def expanded_def)
    have "dup_view f old new cloexec clofork (fdt s p) t'" by (rule dupped_view [OF t t'(3,2)])
    then have "dup_view f old new cloexec clofork (fdt st0 p) t'"
      using dup_view_expanded [OF d(3)] f by (auto simp: fd_lookup_def split: if_splits)
    with t' d(4) Inr f new free show ?thesis by (auto simp: dup3_result_def Let_def)
  qed
qed

lemma dodup3_returns:
  assumes inv: "fs_inv st H G" and live: "live st p" and lim: "lim \<le> 12800"
  shows "\<exists>r st'. dodup3 lim pledge p old new cloexec clofork st = Some (Inr (r, st')) \<and> fs_inv st' H G \<and>
     dup3_result lim p old new cloexec clofork st r st'"
proof (cases "fd_lookup (fdt st p) old")
  case None
  then have "fd_getfile p old st = Inr (None, st)" using fd_getfile_inv(1) [OF inv live] by blast
  then show ?thesis using None inv by (simp add: dodup3_def fd_restart.simps dup3_round_def dup3_result_def)
next
  case (Some f)
  show ?thesis
  proof (cases "old = new \<or> lim \<le> new")
    case True
    obtain s2 where s2: "fd_getfile p old st = Inr (Some f, s2)" "fs_inv s2 (H(f := H f + 1)) G" "fs_fds s2 = fs_fds st"
      using fd_getfile_inv(2) [OF inv live Some] by blast
    obtain s3 where s3: "FRELE f s2 = Inr s3" "fs_inv s3 H G" "fs_fds s3 = fs_fds st"
      using FRELE_inv [OF s2(2), of f, unfolded upd_id_hold] s2(3) by auto
    with True Some s2(1) show ?thesis by (auto simp: dodup3_def fd_restart.simps dup3_round_def dup3_result_def Let_def)
  next
    case False
    then have new: "old \<noteq> new" "new < lim" by auto
    show ?thesis unfolding dodup3_def
    proof (rule locked_returns [OF inv live Some, where lim = lim and P = "dup3_post lim p f old new cloexec clofork"
          and K = "dup3_locked lim pledge p f old new cloexec clofork"])
      show "dup3_round lim pledge p old new cloexec clofork s = dup3_locked lim pledge p f old new cloexec clofork s2"
        if "fd_getfile p old s = Inr (Some f, s2)" for s s2 using that new by (simp add: dup3_round_def)
      show "\<exists>r s1. dup3_locked lim pledge p f old new cloexec clofork s = Inr (r, s1) \<and> fs_inv s1 H G \<and> dup3_post lim p f old new cloexec clofork s r s1"
        if "fs_inv s (H(f := H f + 1)) G" "live s p" "old < fd_nfiles (fdt s p)" for s
        using dup3_locked_inv [OF that(1,2) _ that(3) new(2) lim, of f, unfolded upd_id_hold] by simp
      show "dup3_post lim p f old new cloexec clofork s r s1"
        if "fs_fds s2 = fs_fds s" "dup3_post lim p f old new cloexec clofork s2 r s1" for s s2 r s1
      proof -
        have eq: "fdt s2 p = fdt s p" using live_cong [OF that(1)] by simp
        show ?thesis using that(2) unfolding dup3_post_def that(1) eq .
      qed
      show "dup3_result lim p old new cloexec clofork st r s1"
        if "dup_between H G p st s" "dup3_post lim p f old new cloexec clofork s (Some r) s1" for s r s1
        by (rule dup3_round_finish [OF that(1) live Some new that(2)])
    qed (simp add: dup3_post_def)
  qed
qed

lemma sys_dup_returns:
  assumes inv: "fs_inv st H G" and live: "live st p" and lim: "lim \<le> 12800"
  shows "\<exists>r st'. sys_dup lim pledge p old st = Some (Inr (r, st')) \<and> fs_inv st' H G \<and> dup_result lim p old 0 False False st r st'"
proof (cases "fd_lookup (fdt st p) old")
  case None
  then have "fd_getfile p old st = Inr (None, st)" using fd_getfile_inv(1) [OF inv live] by blast
  then show ?thesis using None inv by (simp add: sys_dup_def fd_restart.simps dup_round_def dup_result_def)
next
  case (Some f)
  then show ?thesis unfolding sys_dup_def by (intro dup_locked_returns [OF inv live lim Some]) (simp add: dup_round_def)
qed

lemma fcntl_dupfd_returns:
  assumes inv: "fs_inv st H G" and live: "live st p" and lim: "lim \<le> 12800"
  shows "\<exists>r st'. fcntl_dupfd lim pledge p old newmin cloexec clofork st = Some (Inr (r, st')) \<and> fs_inv st' H G \<and>
     (if fd_lookup (fdt st p) old \<noteq> None \<and> newmin \<ge> lim then r = Inl EINVAL \<and> fs_fds st' = fs_fds st
      else dup_result lim p old newmin cloexec clofork st r st')"
proof (cases "fd_lookup (fdt st p) old")
  case None
  then have "fd_getfile p old st = Inr (None, st)" using fd_getfile_inv(1) [OF inv live] by blast
  then show ?thesis using None inv by (simp add: fcntl_dupfd_def fd_restart.simps dupfd_round_def dup_result_def)
next
  case (Some f)
  show ?thesis
  proof (cases "newmin \<ge> lim")
    case True
    obtain s2 where s2: "fd_getfile p old st = Inr (Some f, s2)" "fs_inv s2 (H(f := H f + 1)) G" "fs_fds s2 = fs_fds st"
      using fd_getfile_inv(2) [OF inv live Some] by blast
    obtain s3 where s3: "FRELE f s2 = Inr s3" "fs_inv s3 H G" "fs_fds s3 = fs_fds st"
      using FRELE_inv [OF s2(2), of f, unfolded upd_id_hold] s2(3) by auto
    with True Some s2(1) show ?thesis by (auto simp: fcntl_dupfd_def fd_restart.simps dupfd_round_def)
  next
    case False
    then have "\<exists>r st'. fcntl_dupfd lim pledge p old newmin cloexec clofork st = Some (Inr (r, st')) \<and> fs_inv st' H G \<and> dup_result lim p old newmin cloexec clofork st r st'"
      unfolding fcntl_dupfd_def by (intro dup_locked_returns [OF inv live lim Some]) (simp add: dupfd_round_def)
    with False show ?thesis by auto
  qed
qed

section \<open>Iterating over all files\<close>

lemma FREF_head_inv:
  assumes inv: "fs_inv st H G" and f: "f \<in> set (fs_head st)"
  shows "\<exists>st'. FREF f st = Inr st' \<and> fs_inv st' (H(f := H f + 1)) G \<and> fs_fds st' = fs_fds st"
proof -
  define R where "R = (\<lambda>f. slots st f + H f + G f)"
  have fi: "file_inv st R" using inv by (simp add: fs_inv_def R_def)
  then have "0 < R f" using f by (auto simp: file_inv_def)
  then obtain st' where st': "FREF f st = Inr st'" "file_inv st' (R(f := R f + 1))" "fs_fds st' = fs_fds st" "fs_head st' = fs_head st"
    using FREF_ok [OF fi] by blast
  then have "fs_inv st' (H(f := H f + 1)) G"
    using inv f by (intro fs_inv_files [OF inv st'(2,3)]) (auto simp: R_def fs_inv_def split: if_splits)
  with st' show ?thesis by blast
qed

lemma fd_iterfile_inv:
  assumes inv: "fs_inv st H G" and fp: "\<And>f. fp = Some f \<Longrightarrow> 0 < H f"
    and H': "\<And>r g. H' r g = H g + of_bool (r = Some g) - of_bool (fp = Some g)"
  shows "\<exists>r st'. fd_iterfile fp st = Inr (r, st') \<and> fs_fds st' = fs_fds st \<and> fs_inv st' (H' r) G \<and> (\<forall>g. r = Some g \<longrightarrow> g \<in> set (fs_head st))"
proof -
  define rest where "rest = (case fp of None \<Rightarrow> fs_head st | Some f \<Rightarrow> tl (dropWhile (\<lambda>x. x \<noteq> f) (fs_head st)))"
  define nfp where "nfp = List.find (\<lambda>g. case fs_file st g of Some gp \<Rightarrow> f_count gp \<noteq> 0 | None \<Rightarrow> False) rest"
  define rele where "rele = (\<lambda>st. case fp of None \<Rightarrow> Inr st | Some f \<Rightarrow> FRELE f st)"
  have run: "fd_iterfile fp st = (case nfp of
           None \<Rightarrow> map_sum (\<lambda>e. e) (Pair None) (rele st)
         | Some g \<Rightarrow> (case FREF g st of Inl e \<Rightarrow> Inl e | Inr st1 \<Rightarrow> map_sum (\<lambda>e. e) (Pair (Some g)) (rele st1)))"
    unfolding fd_iterfile_def Let_def rest_def [symmetric] nfp_def [symmetric] rele_def [symmetric] ..
  have rele: "\<exists>s'. rele s = Inr s' \<and> fs_fds s' = fs_fds s \<and> fs_inv s' K G"
    if "fs_inv s (\<lambda>g. K g + of_bool (fp = Some g)) G" for s K
  proof (cases fp)
    case (Some f)
    have "\<exists>s'. FRELE f s = Inr s' \<and> fs_inv s' K G \<and> fs_fds s' = fs_fds s"
      by (rule FRELE_inv' [OF that]) (simp_all add: Some)
    with Some show ?thesis by (auto simp: rele_def)
  qed (use that in \<open>simp add: rele_def\<close>)
  have "set (tl (dropWhile P xs)) \<subseteq> set xs" for P and xs :: "nat list"
  proof
    fix x
    assume "x \<in> set (tl (dropWhile P xs))"
    then have "x \<in> set (dropWhile P xs)" by (cases "dropWhile P xs") auto
    then show "x \<in> set xs" by (simp add: set_dropWhileD)
  qed
  then have "set rest \<subseteq> set (fs_head st)" by (simp add: rest_def split: option.split)
  show ?thesis
  proof (cases nfp)
    case None
    have "fs_inv st (\<lambda>g. H' None g + of_bool (fp = Some g)) G"
    proof -
      have "(\<lambda>g. H' None g + of_bool (fp = Some g)) = H" using fp by (auto simp: fun_eq_iff H')
      with inv show ?thesis by simp
    qed
    from rele [OF this] None run show ?thesis by auto
  next
    case (Some g)
    then have g: "g \<in> set (fs_head st)" using \<open>set rest \<subseteq> set (fs_head st)\<close> by (auto simp: nfp_def find_Some_iff)
    obtain s1 where s1: "FREF g st = Inr s1" "fs_inv s1 (H(g := H g + 1)) G" "fs_fds s1 = fs_fds st" using FREF_head_inv [OF inv g] by blast
    have "(\<lambda>x. H' (Some g) x + of_bool (fp = Some x)) = H(g := H g + 1)" using fp by (auto simp: fun_eq_iff H')
    with rele [of s1 "H' (Some g)"] s1 Some run g show ?thesis by auto
  qed
qed

end
