(* ===== verification/Fd_Proc.thy ===== *)
theory Fd_Proc
  imports Fd_Refs
begin

text \<open>
  Opening files, descriptor flags and closing many descriptors (\<^verbatim>\<open>falloc\<close>, \<^verbatim>\<open>fdinsert\<close>, \<^verbatim>\<open>dupfdopen\<close>, \<^verbatim>\<open>F_GETFD\<close>, \<^verbatim>\<open>F_SETFD\<close>,
  \<^verbatim>\<open>fdprepforexec\<close>, \<^verbatim>\<open>sys_closefrom\<close>): each keeps the invariant of \<open>Fd_Refs\<close>, and the loops whose bound is the last descriptor
  in use end because no step raises it.
\<close>

section \<open>Opening\<close>

definition same_slots :: "filedesc \<Rightarrow> filedesc \<Rightarrow> bool" where
  "same_slots t t' \<longleftrightarrow> (\<forall>f. count_list (fd_ofiles t') (Some f) = count_list (fd_ofiles t) (Some f))"

lemma fdalloc_grow_returns:
  assumes "tab_inv t" and lim: "lim \<le> 12800"
  shows "\<exists>t1. expanded t t1 \<and> tab_inv t1 \<and> same_slots t t1 \<and>
     (fdalloc_grow lim pledge want t = Some (Inr (Inl (EMFILE, t1))) \<and> lim \<le> free_from t (max want (fd_freefile t)) \<or>
      (\<exists>n t2. fdalloc_grow lim pledge want t = Some (Inr (Inr (n, t2))) \<and> tab_inv t2 \<and> n = free_from t (max want (fd_freefile t)) \<and>
         n \<notin> used_fds t1 \<and> n < fd_nfiles t1 \<and> n < lim \<and> fd_taken pledge n t1 t2))"
  using assms(1)
proof (induction "lim - fd_nfiles t" arbitrary: t rule: less_induct)
  case less
  from less.prems show ?case
  proof (cases rule: fdalloc_tab [where lim = lim and pledge = pledge and want = want])
    case (got n t')
    then show ?thesis using less.prems by (intro exI [of _ t]) (auto simp: fdalloc_grow.simps [of lim pledge want t] same_slots_def)
  next
    case emfile
    then show ?thesis using less.prems by (intro exI [of _ t]) (auto simp: fdalloc_grow.simps [of lim pledge want t] same_slots_def)
  next
    case enospc
    note e = fdexpand_tab [OF less.prems enospc(2) lim] and x = expanded_fdexpand [OF less.prems]
    have run: "fdalloc_grow lim pledge want t = fdalloc_grow lim pledge want (fdexpand t)"
      using enospc(1) by (simp add: fdalloc_grow.simps [of lim pledge want t])
    have F: "free_from (fdexpand t) (max want (fd_freefile (fdexpand t))) = free_from t (max want (fd_freefile t))"
      using expanded_free_from [OF x] x by (simp add: expanded_def)
    have "lim - fd_nfiles (fdexpand t) < lim - fd_nfiles t" using e(3) enospc(2) by simp
    from less.hyps [OF this e(1)] obtain t1 where t1: "expanded (fdexpand t) t1" "tab_inv t1" "same_slots (fdexpand t) t1"
      "fdalloc_grow lim pledge want (fdexpand t) = Some (Inr (Inl (EMFILE, t1))) \<and> lim \<le> free_from t (max want (fd_freefile t)) \<or>
      (\<exists>n t2. fdalloc_grow lim pledge want (fdexpand t) = Some (Inr (Inr (n, t2))) \<and> tab_inv t2 \<and> n = free_from t (max want (fd_freefile t)) \<and>
         n \<notin> used_fds t1 \<and> n < fd_nfiles t1 \<and> n < lim \<and> fd_taken pledge n t1 t2)" unfolding F by blast
    then show ?thesis using expanded_trans [OF x t1(1)] e(2) unfolding run by (intro exI [of _ t1]) (auto simp: same_slots_def)
  qed
qed

lemma file_inv_new:
  assumes inv: "file_inv st R" and a: "fs_file st a = None" and fp: "f_count fp = n" "\<not> f_ins fp" "0 < n"
  shows "file_inv ((set_file a fp st)\<lparr>numfiles := numfiles st + 1\<rparr>) (R(a := n))"
proof -
  have "a \<notin> dom (fs_file st)" "finite (dom (fs_file st))" "a \<notin> set (fs_head st)" using inv a by (auto simp: file_inv_def)
  with inv fp show ?thesis by (auto simp: file_inv_def set_file_def split: if_splits)
qed

lemma fs_inv_dead: "fs_inv st H G \<Longrightarrow> fs_file st a = None \<Longrightarrow> slots st a = 0 \<and> H a = 0 \<and> G a = 0"
  using file_inv_dead [of st "\<lambda>f. slots st f + H f + G f" a] by (simp add: fs_inv_def)

text \<open>What \<^verbatim>\<open>falloc\<close> leaves: the descriptor is reserved, and the caller holds two references to a new file.\<close>

definition falloc_post :: "nat \<Rightarrow> nat \<Rightarrow> (nat \<Rightarrow> nat) \<Rightarrow> (nat \<Rightarrow> nat) \<Rightarrow> nat \<Rightarrow> nat \<Rightarrow> fdsys \<Rightarrow> errno + nat \<Rightarrow> fdsys \<Rightarrow> bool" where
  "falloc_post lim maxfiles H G p a st r st' \<longleftrightarrow>
     (let t = fdt st p; n = free_from t (fd_freefile t) in
      \<exists>t'. fs_fds st' = (fs_fds st)[p := Some t'] \<and> fd_lookup t' = fd_lookup t \<and> fd_refcnt t' = fd_refcnt t \<and> fd_nfiles t \<le> fd_nfiles t' \<and>
      (case r of
         Inl e \<Rightarrow> fs_inv st' H G \<and> used_fds t' = used_fds t \<and> (e = EMFILE \<and> lim \<le> n \<or> e = ENFILE \<and> maxfiles \<le> numfiles st)
       | Inr i \<Rightarrow> i = n \<and> i < lim \<and> fs_inv st' H (G(a := 2)) \<and> used_fds t' = insert n (used_fds t) \<and> i \<notin> used_fds t))"

lemma taken_lookup: "fd_taken pledge n t t' \<Longrightarrow> fd_lookup t' = fd_lookup t"
  by (auto simp: fd_taken_def fd_lookup_def)

lemma taken_unused:
  assumes t2: "tab_inv t2" and taken: "fd_taken pledge n t1 t2" and n: "n \<notin> used_fds t1" and t1: "tab_inv t1"
  shows "\<exists>t3. fd_unused t2 n = Inr t3 \<and> tab_inv t3 \<and> used_fds t3 = used_fds t1 \<and> fd_lookup t3 = fd_lookup t1 \<and>
     fd_ofiles t3 = fd_ofiles t1 \<and> fd_refcnt t3 = fd_refcnt t1 \<and> fd_nfiles t3 = fd_nfiles t1"
proof -
  have u: "fdmap_inv t2" "n \<in> used_fds t2" "used_fds t2 = insert n (used_fds t1)" using t2 taken by (auto simp: tab_inv_def fd_ready_def fd_taken_def)
  from fd_unused_spec [OF u(1,2)] obtain t3 where t3: "fd_unused t2 n = Inr t3" "fdmap_inv t3" "used_fds t3 = used_fds t2 - {n}"
      "fd_rest t3 = fd_rest t2" by blast
  note r = fd_restD [OF t3(4)]
  have "used_fds t3 = used_fds t1" using t3(3) u(3) n by simp
  moreover have "fd_ofiles t3 = fd_ofiles t1" "fd_nfiles t3 = fd_nfiles t1" "fd_refcnt t3 = fd_refcnt t1" using r taken by (simp_all add: fd_taken_def)
  ultimately show ?thesis using t3(1,2) t1 by (auto simp: tab_inv_def fd_ready_def fd_lookup_def)
qed

lemma fs_inv_slots:
  "fs_inv st H G \<Longrightarrow> live st p \<Longrightarrow> tab_inv t \<Longrightarrow> same_slots (fdt st p) t \<Longrightarrow> fs_inv (set_fdt p t st) H G"
  by (rule fs_inv_set) (simp_all add: same_slots_def)

lemma fnew_inv:
  assumes inv: "fs_inv st H G" and a: "fs_file st a = None" and room: "\<not> numfiles st + 1 > maxfiles"
  shows "\<exists>st1 st'. fnew maxfiles a st = Some st1 \<and> FREF a st1 = Inr st' \<and> fs_inv st' H (G(a := 2)) \<and> fs_fds st' = fs_fds st"
proof -
  define R where "R = (\<lambda>f. slots st f + H f + G f)"
  define st1 where "st1 = (set_file a \<lparr>f_flag = 0, f_ins = False, f_haslock = False, f_type = 0, f_count = 1, f_data = 0\<rparr> st)\<lparr>numfiles := numfiles st + 1\<rparr>"
  have d: "slots st a = 0" "H a = 0" "G a = 0" using fs_inv_dead [OF inv a] by simp_all
  have f: "file_inv st1 (R(a := 1))"
    unfolding st1_def using inv a by (intro file_inv_new) (simp_all add: R_def fs_inv_def)
  obtain st' where st': "FREF a st1 = Inr st'" "file_inv st' ((R(a := 1))(a := 2))" "fs_fds st' = fs_fds st1" "fs_head st' = fs_head st1"
    using FREF_ok [OF f, of a] by (auto simp: numeral_2_eq_2)
  have same: "fs_fds st1 = fs_fds st" "fs_head st1 = fs_head st" by (simp_all add: st1_def)
  have "fs_inv st' H (G(a := 2))"
  proof (rule fs_inv_files [OF inv st'(2)])
    show "fs_fds st' = fs_fds st" using st'(3) same by simp
    show "((R(a := 1))(a := 2)) f = slots st f + H f + (G(a := 2)) f" for f using d by (simp add: R_def)
    show "g \<in> set (fs_head st')" if "0 < slots st g + H g" for g using that inv st'(4) same by (auto simp: fs_inv_def)
  qed
  moreover have "fnew maxfiles a st = Some st1" using room by (simp add: fnew_def st1_def)
  ultimately show ?thesis using st'(1,3) same by auto
qed

lemma falloc_inv:
  assumes inv: "fs_inv st H G" and live: "live st p" and lim: "lim \<le> 12800" and a: "fs_file st a = None"
  shows "\<exists>r st'. falloc lim maxfiles pledge p a st = Some (Inr (r, st')) \<and> falloc_post lim maxfiles H G p a st r st'"
proof -
  define t where "t = fdt st p"
  define n where "n = free_from t (fd_freefile t)"
  have t: "tab_inv t" unfolding t_def by (rule fs_inv_tab [OF inv live])
  obtain t1 where t1: "expanded t t1" "tab_inv t1" "same_slots t t1"
    and out: "fdalloc_grow lim pledge 0 t = Some (Inr (Inl (EMFILE, t1))) \<and> lim \<le> n \<or>
      (\<exists>t2. fdalloc_grow lim pledge 0 t = Some (Inr (Inr (n, t2))) \<and> tab_inv t2 \<and> n \<notin> used_fds t1 \<and> n < lim \<and> fd_taken pledge n t1 t2)"
    using fdalloc_grow_returns [OF t lim, of pledge 0] unfolding n_def by auto
  have x: "used_fds t1 = used_fds t" "fd_lookup t1 = fd_lookup t" "fd_refcnt t1 = fd_refcnt t" "fd_nfiles t \<le> fd_nfiles t1"
    using t1(1) by (simp_all add: expanded_def)
  note slots = fs_inv_slots [OF inv live, folded t_def]
  from out show ?thesis
  proof
    assume e: "fdalloc_grow lim pledge 0 t = Some (Inr (Inl (EMFILE, t1))) \<and> lim \<le> n"
    then have "falloc lim maxfiles pledge p a st = Some (Inr (Inl EMFILE, set_fdt p t1 st))" by (simp add: falloc_def flip: t_def)
    moreover have "falloc_post lim maxfiles H G p a st (Inl EMFILE) (set_fdt p t1 st)"
      using e slots [OF t1(2,3)] x unfolding falloc_post_def Let_def t_def [symmetric] n_def [symmetric] by auto
    ultimately show ?thesis by blast
  next
    assume "\<exists>t2. fdalloc_grow lim pledge 0 t = Some (Inr (Inr (n, t2))) \<and> tab_inv t2 \<and> n \<notin> used_fds t1 \<and> n < lim \<and> fd_taken pledge n t1 t2"
    then obtain t2 where t2: "fdalloc_grow lim pledge 0 t = Some (Inr (Inr (n, t2)))" "tab_inv t2" "n \<notin> used_fds t1" "n < lim" "fd_taken pledge n t1 t2"
      by blast
    have k2: "same_slots t t2" using t1(3) t2(5) by (simp add: same_slots_def fd_taken_def)
    show ?thesis
    proof (cases "numfiles st + 1 > maxfiles")
      case True
      obtain t3 where t3: "fd_unused t2 n = Inr t3" "tab_inv t3" "used_fds t3 = used_fds t1" "fd_lookup t3 = fd_lookup t1"
          "fd_ofiles t3 = fd_ofiles t1" "fd_refcnt t3 = fd_refcnt t1" "fd_nfiles t3 = fd_nfiles t1" using taken_unused [OF t2(2,5,3) t1(2)] by blast
      have "same_slots t t3" using t1(3) t3(5) by (simp add: same_slots_def)
      then have "falloc_post lim maxfiles H G p a st (Inl ENFILE) (set_fdt p t3 st)"
        using slots [OF t3(2)] x t3 True unfolding falloc_post_def Let_def t_def [symmetric] n_def [symmetric] by auto
      moreover have "falloc lim maxfiles pledge p a st = Some (Inr (Inl ENFILE, set_fdt p t3 st))"
        using t2(1) t3(1) True by (simp add: falloc_def fnew_def flip: t_def)
      ultimately show ?thesis by blast
    next
      case False
      obtain st1 st' where st': "fnew maxfiles a (set_fdt p t2 st) = Some st1" "FREF a st1 = Inr st'" "fs_inv st' H (G(a := 2))"
          "fs_fds st' = (fs_fds st)[p := Some t2]"
        using fnew_inv [OF slots [OF t2(2) k2], of a maxfiles] a False by auto
      have "fd_lookup t2 = fd_lookup t" "used_fds t2 = insert n (used_fds t)" "fd_refcnt t2 = fd_refcnt t" "fd_nfiles t \<le> fd_nfiles t2"
        using taken_lookup [OF t2(5)] t2(5) x by (simp_all add: fd_taken_def)
      then have "falloc_post lim maxfiles H G p a st (Inr n) st'"
        using st'(3,4) t2(3,4) x(1) unfolding falloc_post_def Let_def t_def [symmetric] n_def [symmetric] by auto
      moreover have "falloc lim maxfiles pledge p a st = Some (Inr (Inr n, st'))" using t2(1) st'(1,2) by (simp add: falloc_def flip: t_def)
      ultimately show ?thesis by blast
    qed
  qed
qed

lemma file_inv_meta:
  assumes "file_inv st R" and "fs_file st f = Some fp" and "f_count fp' = f_count fp" and "f_ins fp' = f_ins fp"
  shows "file_inv (set_file f fp' st) R"
  using assms by (auto simp: file_inv_def set_file_def insert_absorb domI split: if_splits)

lemma insert_after_set:
  assumes "fq \<in> set xs" and "distinct xs" and "f \<notin> set xs"
  shows "distinct (insert_after fq f xs) \<and> set (insert_after fq f xs) = insert f (set xs)"
proof -
  obtain ys zs where xs: "xs = ys @ fq # zs" "fq \<notin> set ys" using split_list_first [OF assms(1)] by blast
  then have "takeWhile (\<lambda>x. x \<noteq> fq) xs = ys" "dropWhile (\<lambda>x. x \<noteq> fq) xs = fq # zs"
    by (auto simp: takeWhile_append dropWhile_append takeWhile_eq_all_conv dropWhile_eq_Nil_conv)
  then have "insert_after fq f xs = ys @ fq # f # zs" by (simp add: insert_after_def)
  with assms xs show ?thesis by auto
qed

lemma file_inv_ins:
  assumes inv: "file_inv st R" and f: "fs_file st f = Some fp" and fp: "\<not> f_ins fp" and h: "distinct h" "set h = insert f (set (fs_head st))"
  shows "file_inv ((set_file f (fp\<lparr>f_ins := True\<rparr>) st)\<lparr>fs_head := h\<rparr>) R"
  using assms by (auto simp: file_inv_def set_file_def insert_absorb domI split: if_splits)

lemma fdinsert_inv:
  assumes inv: "fs_inv st H G" and live: "live st p" and fd: "fd \<in> used_fds (fdt st p)" "fd_lookup (fdt st p) fd = None" and f: "0 < G f"
  shows "\<exists>st' fl. fdinsert p fd flags f st = Inr st' \<and> fs_inv st' H (G(f := G f - 1)) \<and>
     fs_fds st' = (fs_fds st)[p := Some (fd_store fd (Some f) fl (fdt st p))]"
proof -
  define t where "t = fdt st p"
  define R where "R = (\<lambda>f. slots st f + H f + G f)"
  have t: "tab_inv t" unfolding t_def by (rule fs_inv_tab [OF inv live])
  have lt: "fd < fd_nfiles t" "fd < length (fd_ofiles t)" "fd_ofiles t ! fd = None"
    using tab_inv_used [OF t] fd tab_inv_len [OF t] by (auto simp: t_def fd_lookup_def)
  have fi: "file_inv st R" using inv by (simp add: fs_inv_def R_def)
  obtain fp where fp: "fs_file st f = Some fp" "f_ins fp \<longleftrightarrow> f \<in> set (fs_head st)"
    using file_inv_live [OF fi, of f] f by (auto simp: R_def)
  define h where "h = (case fd_ofiles t ! 0 of Some fq \<Rightarrow> insert_after fq f (fs_head st) | None \<Rightarrow> f # fs_head st)"
  define st1 where "st1 = (if f_ins fp then st else (set_file f (fp\<lparr>f_ins := True\<rparr>) st)\<lparr>fs_head := h\<rparr>)"
  have st1: "file_inv st1 R" "fs_fds st1 = fs_fds st" "insert f (set (fs_head st)) = set (fs_head st1)"
  proof -
    have "distinct h \<and> set h = insert f (set (fs_head st))" if "\<not> f_ins fp"
    proof (cases "fd_ofiles t ! 0")
      case None
      then show ?thesis using that fp(2) fi by (simp add: h_def file_inv_def)
    next
      case (Some fq)
      then have "fd_lookup (fdt st p) 0 = Some fq" using lt(1) by (simp add: fd_lookup_def t_def)
      then have "fq \<in> set (fs_head st)" using lookup_slots [OF live t [unfolded t_def]] inv by (simp add: fs_inv_def)
      moreover have "f \<notin> set (fs_head st)" "distinct (fs_head st)" using that fp(2) fi by (simp_all add: file_inv_def)
      ultimately show ?thesis using insert_after_set [of fq "fs_head st" f] Some by (simp add: h_def)
    qed
    then show "file_inv st1 R" "insert f (set (fs_head st)) = set (fs_head st1)"
      unfolding st1_def using fi fp file_inv_ins [OF fi fp(1)] by (auto simp: insert_absorb)
    show "fs_fds st1 = fs_fds st" by (simp add: st1_def)
  qed
  have inv1: "fs_inv st1 (H(f := H f + 1)) (G(f := G f - 1))"
  proof (rule fs_inv_files [OF inv st1(1,2)])
    show "R g = slots st g + (H(f := H f + 1)) g + (G(f := G f - 1)) g" for g using f by (simp add: R_def)
    show "g \<in> set (fs_head st1)" if "0 < slots st g + (H(f := H f + 1)) g" for g
      using that inv st1(3) by (auto simp: fs_inv_def split: if_splits)
  qed
  have l1: "live st1 p" "fdt st1 p = t" using live live_cong [OF st1(2)] by (simp_all add: t_def)
  define fl where "fl = fd_ofileflags t ! fd OR (flags AND (UF_EXCLOSE OR UF_FORKCLOSE OR UF_PLEDGEOPEN))"
  have "fs_inv (set_fdt p (fd_store fd (Some f) fl t) st1) H (G(f := G f - 1))"
  proof (rule fs_inv_store [OF inv1 l1(1)])
    show "tab_inv (fd_store fd (Some f) fl t)" using t fd(1) by (intro tab_inv_store) (simp_all add: t_def)
  qed (use lt l1 in auto)
  moreover have "fdinsert p fd flags f st = Inr (set_fdt p (fd_store fd (Some f) fl t) st1)"
    using lt fp(1) by (simp add: fdinsert_def Let_def st1_def fl_def h_def flip: t_def)
  ultimately show ?thesis using st1(2) by (auto simp: t_def)
qed

text \<open>A pending open: descriptor \<open>fd\<close> of table \<open>p\<close> is reserved for the new file \<open>f\<close>, and the thread holds two references.\<close>

lemma open_finish_inv:
  assumes inv: "fs_inv st H G" and live: "live st p" and fd: "fd \<in> used_fds (fdt st p)" "fd_lookup (fdt st p) fd = None" and f: "2 \<le> G f"
  shows "\<exists>st' fl. open_finish p fd flags f flag type data st = Inr st' \<and> fs_inv st' H (G(f := G f - 2)) \<and>
     fs_fds st' = (fs_fds st)[p := Some (fd_store fd (Some f) fl (fdt st p))]"
proof -
  have fi: "file_inv st (\<lambda>f. slots st f + H f + G f)" using inv by (simp add: fs_inv_def)
  obtain fp where fp: "fs_file st f = Some fp" using file_inv_live [OF fi, of f] f by auto
  define st1 where "st1 = set_file f (fp\<lparr>f_flag := flag, f_type := type, f_data := data\<rparr>) st"
  have same: "fs_fds st1 = fs_fds st" "fs_head st1 = fs_head st" by (simp_all add: st1_def)
  have "file_inv st1 (\<lambda>f. slots st f + H f + G f)" unfolding st1_def by (rule file_inv_meta [OF fi fp]) simp_all
  then have inv1: "fs_inv st1 H G" by (rule fs_inv_files [OF inv _ same(1)]) (use inv same(2) in \<open>auto simp: fs_inv_def\<close>)
  have l1: "live st1 p" "fdt st1 p = fdt st p" using live live_cong [OF same(1)] by simp_all
  have "0 < G f" using f by simp
  with fdinsert_inv [OF inv1 l1(1), of fd f flags] fd l1(2) obtain st2 fl where
    st2: "fdinsert p fd flags f st1 = Inr st2" "fs_inv st2 H (G(f := G f - 1))" "fs_fds st2 = (fs_fds st)[p := Some (fd_store fd (Some f) fl (fdt st p))]"
    using same(1) by auto
  have "\<exists>st'. FRELE f st2 = Inr st' \<and> fs_inv st' H (G(f := G f - 2)) \<and> fs_fds st' = fs_fds st2"
    using f by (intro FRELE_inv' [OF st2(2)]) auto
  with st2 fp show ?thesis by (auto simp: open_finish_def open_contents_def simp flip: st1_def)
qed

lemma open_abort_inv:
  assumes inv: "fs_inv st H G" and live: "live st p" and fd: "fd \<in> used_fds (fdt st p)" "fd_lookup (fdt st p) fd = None" and f: "2 \<le> G f"
  shows "\<exists>st' t'. open_abort p fd f st = Inr st' \<and> fs_inv st' H (G(f := G f - 2)) \<and> fs_fds st' = (fs_fds st)[p := Some t'] \<and> removed fd (fdt st p) t'"
proof -
  obtain st1 t' where st1: "fdremove p fd st = Inr st1" "fs_inv st1 H G" "fs_fds st1 = (fs_fds st)[p := Some t']" "removed fd (fdt st p) t'"
    using fdremove_inv [OF inv live fd(1), of H] fd(2) by auto
  have "\<exists>st'. closef p f st1 = Inr st' \<and> fs_inv st' H (G(f := G f - 2)) \<and> fs_fds st' = fs_fds st1"
    using f by (intro closef_inv' [OF st1(2)]) auto
  with st1 show ?thesis by (auto simp: open_abort_def)
qed

text \<open>\<^verbatim>\<open>dupfdopen\<close>: on success the reserved descriptor refers to the file of \<open>dupfd\<close>, with the flags of its own that concern exec and fork.\<close>

definition dupfd_flags :: "u8 \<Rightarrow> u8 \<Rightarrow> u8" where
  "dupfd_flags own other = (own AND (UF_EXCLOSE OR UF_FORKCLOSE)) OR (other AND NOT (UF_EXCLOSE OR UF_FORKCLOSE))"

definition dupfd_post :: "nat \<Rightarrow> nat \<Rightarrow> nat \<Rightarrow> fdsys \<Rightarrow> errno option \<Rightarrow> fdsys \<Rightarrow> bool" where
  "dupfd_post dupfd p fd st r st' \<longleftrightarrow>
     (case r of
        Some e \<Rightarrow> fs_fds st' = fs_fds st
      | None \<Rightarrow> (\<exists>w. fd_lookup (fdt st p) dupfd = Some w \<and> fs_fds st' = (fs_fds st)[p := Some (fd_store fd (Some w)
          (dupfd_flags (fd_ofileflags (fdt st p) ! fd) (fd_ofileflags (fdt st p) ! dupfd)) (fdt st p))]))"

lemma dupfdopen_inv:
  assumes inv: "fs_inv st H G" and live: "live st p" and fd: "fd \<in> used_fds (fdt st p)" "fd_lookup (fdt st p) fd = None"
  shows "\<exists>r st'. dupfdopen sugid descfd dupfd p fd mode st = Inr (r, st') \<and> fs_inv st' H G \<and> dupfd_post dupfd p fd st r st'"
proof -
  define t where "t = fdt st p"
  have t: "tab_inv t" unfolding t_def by (rule fs_inv_tab [OF inv live])
  have lt: "fd < fd_nfiles t" "fd < length (fd_ofiles t)" "fd_ofiles t ! fd = None"
    using tab_inv_used [OF t] fd tab_inv_len [OF t] by (auto simp: t_def fd_lookup_def)
  consider (perm) "sugid \<and> (descfd = 255 \<or> descfd \<noteq> dupfd)" | (bad) "\<not> (sugid \<and> (descfd = 255 \<or> descfd \<noteq> dupfd))" "fd_lookup t dupfd = None"
    | (found) w where "\<not> (sugid \<and> (descfd = 255 \<or> descfd \<noteq> dupfd))" "fd_lookup t dupfd = Some w" by blast
  then show ?thesis
  proof cases
    case perm
    with inv show ?thesis by (simp add: dupfdopen_def dupfd_post_def)
  next
    case bad
    with inv fd_getfile_inv(1) [OF inv live, of dupfd] show ?thesis by (auto simp: dupfdopen_def dupfd_post_def t_def)
  next
    case found
    then obtain st1 where st1: "fd_getfile p dupfd st = Inr (Some w, st1)" "fs_inv st1 (H(w := H w + 1)) G" "fs_fds st1 = fs_fds st"
      using fd_getfile_inv(2) [OF inv live, of dupfd w] by (auto simp: t_def)
    have l1: "live st1 p" "fdt st1 p = t" using live live_cong [OF st1(3)] by (simp_all add: t_def)
    obtain wp where wp: "fs_file st1 w = Some wp" "f_ins wp" using held_file [OF st1(2), of w] by auto
    obtain st2 where st2: "FRELE w st1 = Inr st2" "fs_inv st2 H G" "fs_fds st2 = fs_fds st"
      using FRELE_inv [OF st1(2), of w, unfolded upd_id_hold] st1(3) by auto
    consider (acc) "(mode AND (FREAD OR FWRITE)) OR f_flag wp \<noteq> f_flag wp"
      | (many) "(mode AND (FREAD OR FWRITE)) OR f_flag wp = f_flag wp" "f_count wp \<ge> FDUP_MAX_COUNT"
      | (ok) "(mode AND (FREAD OR FWRITE)) OR f_flag wp = f_flag wp" "\<not> f_count wp \<ge> FDUP_MAX_COUNT" by blast
    then show ?thesis
    proof cases
      case acc
      with found(1) st1(1) wp st2 show ?thesis by (auto simp: dupfdopen_def dupfd_post_def)
    next
      case many
      with found(1) st1(1) wp st2 show ?thesis by (auto simp: dupfdopen_def dupfd_post_def)
    next
      case ok
      define t' where "t' = fd_store fd (Some w) (dupfd_flags (fd_ofileflags t ! fd) (fd_ofileflags t ! dupfd)) t"
      have "fs_inv (set_fdt p t' st1) H G"
      proof (rule fs_inv_store [OF st1(2) l1(1)])
        show "tab_inv t'" unfolding t'_def using t fd(1) by (intro tab_inv_store) (simp_all add: t_def)
      qed (use lt l1 in \<open>auto simp: t'_def\<close>)
      moreover have "dupfdopen sugid descfd dupfd p fd mode st = Inr (None, set_fdt p t' st1)"
        using found(1) st1(1) wp ok lt l1(2) unfolding dupfdopen_def by (auto simp: Let_def t'_def dupfd_flags_def)
      ultimately show ?thesis using found(2) st1(3) by (auto simp: dupfd_post_def t'_def t_def)
    qed
  qed
qed

lemma open_dupfd_inv:
  assumes inv: "fs_inv st H G" and live: "live st p" and fd: "fd \<in> used_fds (fdt st p)" "fd_lookup (fdt st p) fd = None" and f: "2 \<le> G f"
  shows "\<exists>r st'. open_dupfd sugid descfd dupfd p fd f mode st = Inr (r, st') \<and> fs_inv st' H (G(f := G f - 2)) \<and>
     (case r of None \<Rightarrow> dupfd_post dupfd p fd st r st' | Some e \<Rightarrow> \<exists>t'. fs_fds st' = (fs_fds st)[p := Some t'] \<and> removed fd (fdt st p) t')"
proof -
  obtain r st1 where r: "dupfdopen sugid descfd dupfd p fd mode st = Inr (r, st1)" "fs_inv st1 H G" "dupfd_post dupfd p fd st r st1"
    using dupfdopen_inv [OF inv live fd] by blast
  show ?thesis
  proof (cases r)
    case None
    have "\<exists>st'. closef p f st1 = Inr st' \<and> fs_inv st' H (G(f := G f - 2)) \<and> fs_fds st' = fs_fds st1"
      using f by (intro closef_inv' [OF r(2)]) auto
    with r None show ?thesis by (auto simp: open_dupfd_def dupfd_post_def)
  next
    case (Some e)
    then have same: "fs_fds st1 = fs_fds st" using r(3) by (simp add: dupfd_post_def)
    then have "live st1 p" "fdt st1 p = fdt st p" using live live_cong [OF same] by simp_all
    with open_abort_inv [OF r(2), of p fd f] fd f Some r(1) same show ?thesis by (auto simp: open_dupfd_def)
  qed
qed

section \<open>Descriptor flags\<close>

lemma UF_flags_eq: "UF_EXCLOSE = 1" "UF_FORKCLOSE = 4" "FD_CLOEXEC = 1" "FD_CLOFORK = 4" "UF_PLEDGED = 2"
  by (simp_all add: kern_defs)

lemma u8_bit_neq: "(w :: u8) AND 1 \<noteq> 0 \<longleftrightarrow> bit w 0" "(w :: u8) AND 4 \<noteq> 0 \<longleftrightarrow> bit w 2"
proof -
  have "(4 :: u8) = push_bit 2 1" by (simp add: push_bit_eq_mult)
  then show "(w :: u8) AND 4 \<noteq> 0 \<longleftrightarrow> bit w 2" by (simp only: and_exp_eq_0_iff_not_bit push_bit_of_1) simp
qed (simp add: and_one_eq odd_iff_mod_2_eq_one bit_0)

definition getfd_value :: "u8 \<Rightarrow> u32" where
  "getfd_value fl = (if fl AND UF_EXCLOSE \<noteq> 0 then FD_CLOEXEC else 0) OR (if fl AND UF_FORKCLOSE \<noteq> 0 then FD_CLOFORK else 0)"

definition setfd_flags :: "u32 \<Rightarrow> u8 \<Rightarrow> u8" where
  "setfd_flags arg fl = (fl AND NOT (UF_EXCLOSE OR UF_FORKCLOSE)) OR
     ((if arg AND FD_CLOEXEC \<noteq> 0 then UF_EXCLOSE else 0) OR (if arg AND FD_CLOFORK \<noteq> 0 then UF_FORKCLOSE else 0))"

lemma and_bits: "(w :: u32) AND 1 = of_bool (bit w 0)" "(w :: u32) AND 4 = 4 * of_bool (bit w 2)"
proof -
  show "w AND 1 = of_bool (bit w 0)" by (simp add: and_one_eq bit_0 of_bool_odd_eq_mod_2)
  have "w AND 2 ^ 2 = (if bit w 2 then 2 ^ 2 else 0)" by (rule bit_word_eqI) (auto simp: bit_and_iff bit_exp_iff simp del: power2_eq_square power_numeral)
  then show "w AND 4 = 4 * of_bool (bit w 2)" by simp
qed

lemma getfd_setfd: "getfd_value (setfd_flags arg fl) = arg AND (FD_CLOEXEC OR FD_CLOFORK)"
proof -
  have "bit (setfd_flags arg fl) 0 = bit arg 0" "bit (setfd_flags arg fl) 2 = bit arg 2"
    by (simp_all add: setfd_flags_def UF_flags_eq and_bits bit_simps)
  moreover have "arg AND (FD_CLOEXEC OR FD_CLOFORK) = (arg AND 1) OR (arg AND 4)" unfolding UF_flags_eq by (rule bit.conj_disj_distrib)
  ultimately show ?thesis by (simp add: getfd_value_def UF_flags_eq u8_bit_neq and_bits)
qed

lemma fcntl_getfd_inv:
  assumes inv: "fs_inv st H G" and live: "live st p"
  shows "\<exists>st'. fs_inv st' H G \<and> fs_fds st' = fs_fds st \<and>
     fcntl_getfd p fd st = Inr (if fd_lookup (fdt st p) fd = None then Inl EBADF else Inr (getfd_value (fd_ofileflags (fdt st p) ! fd)), st')"
proof (cases "fd_lookup (fdt st p) fd")
  case None
  with fd_getfile_inv(1) [OF inv live, of fd] inv show ?thesis by (auto simp: fcntl_getfd_def)
next
  case (Some f)
  obtain s1 where s1: "fd_getfile p fd st = Inr (Some f, s1)" "fs_inv s1 (H(f := H f + 1)) G" "fs_fds s1 = fs_fds st"
    using fd_getfile_inv(2) [OF inv live Some] by blast
  obtain s2 where s2: "FRELE f s1 = Inr s2" "fs_inv s2 H G" "fs_fds s2 = fs_fds st"
    using FRELE_inv [OF s1(2), of f, unfolded upd_id_hold] s1(3) by auto
  have "fdt s1 p = fdt st p" using live_cong [OF s1(3)] by simp
  with Some s1(1) s2 show ?thesis by (auto simp: fcntl_getfd_def getfd_value_def Let_def)
qed

definition setfd_table :: "u32 \<Rightarrow> nat \<Rightarrow> filedesc \<Rightarrow> filedesc" where
  "setfd_table arg fd t = t\<lparr>fd_ofileflags := (fd_ofileflags t)[fd := setfd_flags arg (fd_ofileflags t ! fd)]\<rparr>"

lemma tab_inv_flags [simp]: "tab_inv (t\<lparr>fd_ofileflags := (fd_ofileflags t)[fd := x]\<rparr>) = tab_inv t"
  by (simp add: tab_inv_def fd_ready_def fdmap_inv_eq fdmap_sizes_def used_fds_def)

lemma setfd_locked_inv:
  assumes inv: "fs_inv st H G" and live: "live st p" and fd: "fd < fd_nfiles (fdt st p)"
  shows "\<exists>st'. setfd_locked p fd arg st = Inr st' \<and> fs_inv st' H G \<and> fs_fds st' = (fs_fds st)[p := Some (setfd_table arg fd (fdt st p))]"
proof -
  have "fs_inv (set_fdt p (setfd_table arg fd (fdt st p)) st) H G"
    using fs_inv_tab [OF inv live] by (intro fs_inv_set [OF inv live]) (simp_all add: setfd_table_def)
  moreover have "setfd_locked p fd arg st = Inr (set_fdt p (setfd_table arg fd (fdt st p)) st)"
    using fd by (simp add: setfd_locked_def Let_def setfd_table_def setfd_flags_def)
  ultimately show ?thesis by simp
qed

lemma fcntl_setfd_inv:
  assumes inv: "fs_inv st H G" and live: "live st p"
  shows "fd_lookup (fdt st p) fd = None \<Longrightarrow> fcntl_setfd p fd arg st = Inr (Some EBADF, st)"
    and "fd_lookup (fdt st p) fd = Some f \<Longrightarrow>
      \<exists>st'. fcntl_setfd p fd arg st = Inr (None, st') \<and> fs_inv st' H G \<and> fs_fds st' = (fs_fds st)[p := Some (setfd_table arg fd (fdt st p))]"
proof -
  show "fd_lookup (fdt st p) fd = None \<Longrightarrow> fcntl_setfd p fd arg st = Inr (Some EBADF, st)"
    using fd_getfile_inv(1) [OF inv live, of fd] by (simp add: fcntl_setfd_def)
  assume Some: "fd_lookup (fdt st p) fd = Some f"
  obtain s1 where s1: "fd_getfile p fd st = Inr (Some f, s1)" "fs_inv s1 (H(f := H f + 1)) G" "fs_fds s1 = fs_fds st"
    using fd_getfile_inv(2) [OF inv live Some] by blast
  have l: "fdt s1 p = fdt st p" "live s1 p" using live_cong [OF s1(3)] live by simp_all
  have "fd < fd_nfiles (fdt s1 p)" using lookup_used [OF fs_inv_tab [OF inv live] Some] l(1) by simp
  from setfd_locked_inv [OF s1(2) l(2) this, of arg] obtain s2 where
    s2: "setfd_locked p fd arg s1 = Inr s2" "fs_inv s2 (H(f := H f + 1)) G" "fs_fds s2 = (fs_fds st)[p := Some (setfd_table arg fd (fdt st p))]"
    using l(1) s1(3) by auto
  from FRELE_inv [OF s2(2), of f, unfolded upd_id_hold] s1(1) s2(1,3)
  show "\<exists>st'. fcntl_setfd p fd arg st = Inr (None, st') \<and> fs_inv st' H G \<and> fs_fds st' = (fs_fds st)[p := Some (setfd_table arg fd (fdt st p))]"
    by (auto simp: fcntl_setfd_def)
qed

section \<open>Closing many\<close>

text \<open>Neither loop can raise the last descriptor in use.\<close>

lemma lastfile_le:
  assumes "tab_inv t" and "tab_inv t'" and "used_fds t' \<subseteq> used_fds t"
  shows "fd_lastfile t' \<le> fd_lastfile t"
proof -
  have "fd_lastfile t' = 0 \<or> fd_lastfile t' \<in> used_fds t'" using assms(2) by (auto simp: tab_inv_def fd_ready_def fdmap_inv_eq)
  moreover have "\<forall>fd \<in> used_fds t. fd \<le> fd_lastfile t" using assms(1) by (simp add: tab_inv_def fd_ready_def fdmap_inv_eq)
  ultimately show ?thesis using assms(3) by auto
qed

lemma fd_walk_rule:
  assumes "I fd st"
    and one: "\<And>k s. I k s \<Longrightarrow> k \<le> fd_lastfile (fdt s p) \<Longrightarrow>
      \<exists>s1. one k s = Inr s1 \<and> I (k + 1) s1 \<and> fd_lastfile (fdt s1 p) \<le> fd_lastfile (fdt s p)"
  shows "\<exists>k s. fd_walk one p fd st = Some (Inr s) \<and> I k s \<and> fd_lastfile (fdt s p) < k \<and> fd \<le> k"
  using assms(1)
proof (induction "Suc (fd_lastfile (fdt st p)) - fd" arbitrary: fd st rule: less_induct)
  case less
  show ?case
  proof (cases "fd \<le> fd_lastfile (fdt st p)")
    case True
    from one [OF less.prems True] obtain s1 where s1: "one fd st = Inr s1" "I (fd + 1) s1" "fd_lastfile (fdt s1 p) \<le> fd_lastfile (fdt st p)"
      by blast
    have "Suc (fd_lastfile (fdt s1 p)) - (fd + 1) < Suc (fd_lastfile (fdt st p)) - fd" using True s1(3) by simp
    from less.hyps [OF this s1(2)] obtain k s where "fd_walk one p (fd + 1) s1 = Some (Inr s)" "I k s" "fd_lastfile (fdt s p) < k" "fd \<le> k" by auto
    with True s1(1) show ?thesis by (auto simp: fd_walk.simps [of one p fd st])
  next
    case False
    with less.prems show ?thesis by (auto simp: fd_walk.simps [of one p fd st])
  qed
qed

text \<open>A table in which the descriptors of a set have been closed.\<close>

definition closed_in :: "nat set \<Rightarrow> filedesc \<Rightarrow> filedesc \<Rightarrow> bool" where
  "closed_in C t t' \<longleftrightarrow> fd_nfiles t' = fd_nfiles t \<and> fd_refcnt t' = fd_refcnt t \<and>
     (\<forall>fd. fd_lookup t' fd = (if fd \<in> C then None else fd_lookup t fd)) \<and> used_fds t' = used_fds t - {fd \<in> C. fd_lookup t fd \<noteq> None}"

lemma closed_in_more:
  "closed_in C t t' \<Longrightarrow> C \<subseteq> D \<Longrightarrow> (\<And>fd. fd \<in> D - C \<Longrightarrow> fd_lookup t' fd = None) \<Longrightarrow> closed_in D t t'"
  unfolding closed_in_def by (auto split: if_splits)

lemma removed_lookup: "tab_inv t \<Longrightarrow> removed fd t t' \<Longrightarrow> fd_lookup t' k = (if k = fd then None else fd_lookup t k)"
  using tab_inv_len [of t] by (auto simp: removed_def fd_lookup_def)

lemma closed_in_removed:
  assumes "closed_in C t t1" and "tab_inv t1" and "fd_lookup t1 k = Some f" and "removed k t1 t'"
  shows "closed_in (insert k C) t t'"
proof -
  have "k \<notin> C" "fd_lookup t k = Some f" using assms(1,3) by (auto simp: closed_in_def split: if_splits)
  with assms(1,4) removed_lookup [OF assms(2,4)] show ?thesis by (auto simp: closed_in_def removed_def)
qed

lemma lookup_lastfile: "tab_inv t \<Longrightarrow> fd_lastfile t < fd \<Longrightarrow> fd_lookup t fd = None"
  using lookup_used [of t fd] by (cases "fd_lookup t fd") (auto simp: tab_inv_def fd_ready_def fdmap_inv_eq)

text \<open>The states of one of the loops: the table is the only one that changes.\<close>

definition walking :: "(nat \<Rightarrow> nat) \<Rightarrow> (nat \<Rightarrow> nat) \<Rightarrow> nat \<Rightarrow> fdsys \<Rightarrow> fdsys \<Rightarrow> bool" where
  "walking H G p st0 st \<longleftrightarrow> fs_inv st H G \<and> live st p \<and> fs_fds st = (fs_fds st0)[p := Some (fdt st p)]"

lemma walking_refl: "fs_inv st H G \<Longrightarrow> live st p \<Longrightarrow> walking H G p st st"
  unfolding walking_def by (metis list_update_id live_fdt)

lemma walking_step:
  assumes "walking H G p st0 st" and "fs_inv st1 H G" and "fs_fds st1 = (fs_fds st)[p := Some t']"
  shows "walking H G p st0 st1" and "fdt st1 p = t'" and "live st1 p"
proof -
  have p: "p < length (fs_fds st)" using assms(1) unfolding walking_def live_def by blast
  then show t: "fdt st1 p = t'" and l: "live st1 p" using assms(3) by (simp_all add: fdt_def live_def)
  have "fs_fds st1 = (fs_fds st0)[p := Some t']" using assms(1,3) unfolding walking_def by (metis list_update_overwrite)
  then show "walking H G p st0 st1" using assms(2) l t by (simp add: walking_def)
qed

lemma closefrom_walk:
  assumes inv: "fs_inv st H G" and live: "live st p"
  shows "\<exists>st'. fd_walk (closefrom_one p) p start st = Some (Inr st') \<and> walking H G p st st' \<and> closed_in {start..} (fdt st p) (fdt st' p)"
proof -
  define t where "t = fdt st p"
  define I where "I = (\<lambda>k s. start \<le> k \<and> walking H G p st s \<and> closed_in {start..<k} t (fdt s p))"
  have "I start st" using walking_refl [OF inv live] by (auto simp: I_def closed_in_def t_def)
  moreover have "\<exists>s1. closefrom_one p k s = Inr s1 \<and> I (k + 1) s1 \<and> fd_lastfile (fdt s1 p) \<le> fd_lastfile (fdt s p)" if I: "I k s" for k s
  proof -
    have s: "walking H G p st s" "fs_inv s H G" "live s p" "closed_in {start..<k} t (fdt s p)" "start \<le> k"
      using I by (simp_all add: I_def walking_def)
    show ?thesis
    proof (cases "fd_lookup (fdt s p) k")
      case None
      then have "closefrom_one p k s = Inr s" using fdrelease_inv(1) [OF s(2,3)] by (simp add: closefrom_one_def)
      moreover have "closed_in {start..<k + 1} t (fdt s p)"
        using None by (intro closed_in_more [OF s(4)]) (auto simp: less_Suc_eq)
      ultimately show ?thesis using s(1,5) by (simp add: I_def)
    next
      case (Some f)
      then obtain s1 t' where s1: "fdrelease p k s = Inr (None, s1)" "fs_inv s1 H G" "fs_fds s1 = (fs_fds s)[p := Some t']" "removed k (fdt s p) t'"
        using fdrelease_inv(2) [OF s(2,3)] by blast
      note w = walking_step [OF s(1) s1(2,3)]
      have tab: "tab_inv (fdt s p)" "tab_inv t'" using fs_inv_tab [OF s(2,3)] fs_inv_tab [OF s1(2) w(3)] w(2) by simp_all
      have "fd_lastfile t' \<le> fd_lastfile (fdt s p)" using s1(4) by (intro lastfile_le [OF tab]) (auto simp: removed_def)
      moreover have "closed_in {start..<k + 1} t t'"
        using closed_in_removed [OF s(4) tab(1) Some s1(4)] s(5) by (simp add: atLeastLessThanSuc)
      ultimately show ?thesis using w s1(1) s(5) by (auto simp: I_def closefrom_one_def)
    qed
  qed
  ultimately obtain k st' where st': "fd_walk (closefrom_one p) p start st = Some (Inr st')" "I k st'" "fd_lastfile (fdt st' p) < k"
    using fd_walk_rule [of I start st p "closefrom_one p"] by blast
  have w: "walking H G p st st'" "closed_in {start..<k} t (fdt st' p)" using st'(2) by (simp_all add: I_def)
  have "tab_inv (fdt st' p)" using w(1) fs_inv_tab by (auto simp: walking_def)
  then have "closed_in {start..} t (fdt st' p)" using st'(3) lookup_lastfile by (intro closed_in_more [OF w(2)]) auto
  with st'(1) w(1) show ?thesis by (auto simp: t_def)
qed

definition exec_flags :: "u8 \<Rightarrow> u8" where
  "exec_flags fl = fl AND NOT (UF_PLEDGED OR UF_FORKCLOSE)"

definition closes_on_exec :: "filedesc \<Rightarrow> nat set" where
  "closes_on_exec t = {fd. fd_ofileflags t ! fd AND UF_EXCLOSE \<noteq> 0}"

lemma exec_flags_exclose: "exec_flags fl AND UF_EXCLOSE = fl AND UF_EXCLOSE"
proof -
  have "NOT (UF_PLEDGED OR UF_FORKCLOSE) AND UF_EXCLOSE = UF_EXCLOSE" unfolding UF_flags_eq by (rule bit_word_eqI) (simp add: bit_simps bit_1_iff)
  then show ?thesis by (simp add: exec_flags_def and.assoc)
qed

lemma closed_in_flags [simp]: "closed_in C t (t'\<lparr>fd_ofileflags := x\<rparr>) = closed_in C t t'"
  by (simp add: closed_in_def fd_lookup_def used_fds_def)

text \<open>The table after \<^verbatim>\<open>fdprepforexec\<close> has looked at the descriptors below \<open>k\<close>.\<close>

definition exec_view :: "nat \<Rightarrow> filedesc \<Rightarrow> filedesc \<Rightarrow> bool" where
  "exec_view k t t' \<longleftrightarrow> closed_in (closes_on_exec t \<inter> {..<k}) t t' \<and>
     (\<forall>fd < fd_nfiles t. (k \<le> fd \<longrightarrow> fd_ofileflags t' ! fd = fd_ofileflags t ! fd) \<and>
        (fd < k \<and> fd_lookup t' fd \<noteq> None \<longrightarrow> fd_ofileflags t' ! fd = exec_flags (fd_ofileflags t ! fd)))"

lemma exec_view_flag:
  assumes v: "exec_view k t t'" and t: "tab_inv t'" and k: "k < fd_nfiles t" and u: "u = t'\<lparr>fd_ofileflags := (fd_ofileflags t')[k := exec_flags (fd_ofileflags t' ! k)]\<rparr>"
  shows "k \<notin> closes_on_exec t \<Longrightarrow> exec_view (k + 1) t u"
    and "k \<in> closes_on_exec t \<Longrightarrow> fd_lookup u k = None \<Longrightarrow> exec_view (k + 1) t u"
    and "k \<in> closes_on_exec t \<Longrightarrow> fd_lookup u k = Some f \<Longrightarrow> tab_inv u \<Longrightarrow> removed k u u' \<Longrightarrow> exec_view (k + 1) t u'"
proof -
  have c: "closed_in (closes_on_exec t \<inter> {..<k}) t u" using v u by (simp add: exec_view_def)
  have n: "fd_nfiles t' = fd_nfiles t" using v by (simp add: exec_view_def closed_in_def)
  have look: "fd_lookup u = fd_lookup t'" by (simp add: u fd_lookup_def fun_eq_iff)
  have fl: "fd_ofileflags u ! fd = (if fd = k then exec_flags (fd_ofileflags t ! k) else fd_ofileflags t' ! fd)" if "fd < fd_nfiles t" for fd
    using v k n that tab_inv_len [OF t] by (auto simp: u exec_view_def)
  have flags: "(k + 1 \<le> fd \<longrightarrow> fd_ofileflags u ! fd = fd_ofileflags t ! fd) \<and>
        (fd < k + 1 \<and> fd_lookup u fd \<noteq> None \<longrightarrow> fd_ofileflags u ! fd = exec_flags (fd_ofileflags t ! fd))" if "fd < fd_nfiles t" for fd
    using v that fl [OF that] look by (auto simp: exec_view_def less_Suc_eq)
  show "exec_view (k + 1) t u" if "k \<notin> closes_on_exec t"
  proof -
    have "closes_on_exec t \<inter> {..<k + 1} = closes_on_exec t \<inter> {..<k}" using that by (auto simp: less_Suc_eq)
    with c flags show ?thesis unfolding exec_view_def by simp
  qed
  have ins: "closes_on_exec t \<inter> {..<k + 1} = insert k (closes_on_exec t \<inter> {..<k})" if "k \<in> closes_on_exec t" using that by (auto simp: less_Suc_eq)
  show "exec_view (k + 1) t u" if "k \<in> closes_on_exec t" "fd_lookup u k = None"
  proof -
    have "closed_in (insert k (closes_on_exec t \<inter> {..<k})) t u" using that(2) by (intro closed_in_more [OF c]) auto
    with flags show ?thesis unfolding exec_view_def ins [OF that(1)] by simp
  qed
  show "exec_view (k + 1) t u'" if "k \<in> closes_on_exec t" "fd_lookup u k = Some f" "tab_inv u" "removed k u u'"
  proof -
    have "closed_in (insert k (closes_on_exec t \<inter> {..<k})) t u'" by (rule closed_in_removed [OF c that(3,2,4)])
    moreover have "fd_ofileflags u' ! fd = (if fd = k then 0 else fd_ofileflags u ! fd)" if "fd < fd_nfiles t" for fd
      using \<open>removed k u u'\<close> that tab_inv_len [OF \<open>tab_inv u\<close>] n by (auto simp: removed_def u)
    ultimately show ?thesis using flags removed_lookup [OF that(3,4)] unfolding exec_view_def ins [OF that(1)] by auto
  qed
qed

lemma exec_one_inv:
  assumes w: "walking H G p st0 s" and v: "exec_view k t (fdt s p)" and k: "k \<le> fd_lastfile (fdt s p)"
  shows "\<exists>s1. exec_one p k s = Inr s1 \<and> walking H G p st0 s1 \<and> exec_view (k + 1) t (fdt s1 p) \<and> fd_lastfile (fdt s1 p) \<le> fd_lastfile (fdt s p)"
proof -
  define t' where "t' = fdt s p"
  have s: "fs_inv s H G" "live s p" using w by (simp_all add: walking_def)
  have t': "tab_inv t'" unfolding t'_def by (rule fs_inv_tab [OF s])
  have n: "fd_nfiles t' = fd_nfiles t" using v by (simp add: exec_view_def closed_in_def t'_def)
  have lt: "k < fd_nfiles t'"
    using k t' fdmap_sizesD(3) [of t'] by (auto simp: tab_inv_def fd_ready_def fdmap_inv_eq t'_def)
  define u where "u = t'\<lparr>fd_ofileflags := (fd_ofileflags t')[k := exec_flags (fd_ofileflags t' ! k)]\<rparr>"
  define s1 where "s1 = set_fdt p u s"
  have u: "tab_inv u" "used_fds u = used_fds t'" "fd_lastfile u = fd_lastfile t'" using t' by (simp_all add: u_def used_fds_def)
  have s1: "fs_inv s1 H G" unfolding s1_def using u(1) by (intro fs_inv_set [OF s]) (simp_all add: u_def t'_def)
  note w1 = walking_step [OF w s1, of u, unfolded s1_def fs_frame, OF refl, folded s1_def]
  have same: "fd_ofileflags t' ! k = fd_ofileflags t ! k" using v lt n by (simp add: exec_view_def t'_def)
  note view = exec_view_flag [OF v [folded t'_def] t' lt [unfolded n] u_def]
  have run: "exec_one p k s = (if k \<in> closes_on_exec t then map_sum (\<lambda>e. e) snd (fdrelease p k s1) else Inr s1)"
    using lt exec_flags_exclose [of "fd_ofileflags t ! k"]
    by (simp add: exec_one_def Let_def same closes_on_exec_def s1_def u_def exec_flags_def flip: t'_def)
  consider (keep) "k \<notin> closes_on_exec t" | (free) "k \<in> closes_on_exec t" "fd_lookup u k = None" | (close) f where "k \<in> closes_on_exec t" "fd_lookup u k = Some f"
    by blast
  then show ?thesis
  proof cases
    case keep
    with run view(1) w1 u show ?thesis by (simp add: t'_def)
  next
    case free
    then have "fdrelease p k s1 = Inr (Some EBADF, s1)" using fdrelease_inv(1) [OF s1 w1(3)] w1(2) by simp
    with run free view(2) w1 u show ?thesis by (simp add: t'_def)
  next
    case close
    then obtain s2 u' where s2: "fdrelease p k s1 = Inr (None, s2)" "fs_inv s2 H G" "fs_fds s2 = (fs_fds s1)[p := Some u']" "removed k u u'"
      using fdrelease_inv(2) [OF s1 w1(3), of k f] w1(2) by auto
    note w2 = walking_step [OF w1(1) s2(2,3)]
    have "tab_inv u'" using fs_inv_tab [OF s2(2) w2(3)] w2(2) by simp
    then have "fd_lastfile u' \<le> fd_lastfile u" using s2(4) by (intro lastfile_le [OF u(1)]) (auto simp: removed_def)
    with run close view(3) [OF close u(1) s2(4)] w2 s2(1) u(3) show ?thesis by (simp add: t'_def)
  qed
qed

definition exec_result :: "filedesc \<Rightarrow> filedesc \<Rightarrow> bool" where
  "exec_result t t' \<longleftrightarrow> closed_in (closes_on_exec t) t t' \<and>
     (\<forall>fd. fd_lookup t' fd \<noteq> None \<longrightarrow> fd_ofileflags t' ! fd = exec_flags (fd_ofileflags t ! fd))"

lemma fdprepforexec_returns:
  assumes inv: "fs_inv st H G" and live: "live st p"
  shows "\<exists>st'. fdprepforexec p st = Some (Inr st') \<and> walking H G p st st' \<and> exec_result (fdt st p) (fdt st' p)"
proof -
  define t where "t = fdt st p"
  define I where "I = (\<lambda>k s. walking H G p st s \<and> exec_view k t (fdt s p))"
  have "I 0 st" using walking_refl [OF inv live] by (auto simp: I_def exec_view_def closed_in_def t_def)
  moreover have "\<exists>s1. exec_one p k s = Inr s1 \<and> I (k + 1) s1 \<and> fd_lastfile (fdt s1 p) \<le> fd_lastfile (fdt s p)"
    if "I k s" "k \<le> fd_lastfile (fdt s p)" for k s
    using exec_one_inv [of H G p st s k t] that by (simp add: I_def)
  ultimately obtain k st' where st': "fd_walk (exec_one p) p 0 st = Some (Inr st')" "I k st'" "fd_lastfile (fdt st' p) < k"
    using fd_walk_rule [of I 0 st p "exec_one p"] by blast
  have w: "walking H G p st st'" "exec_view k t (fdt st' p)" using st'(2) by (simp_all add: I_def)
  have t': "tab_inv (fdt st' p)" using w(1) fs_inv_tab by (auto simp: walking_def)
  have none: "fd_lookup (fdt st' p) fd = None" if "k \<le> fd" for fd using that st'(3) by (intro lookup_lastfile [OF t']) simp
  have c: "closed_in (closes_on_exec t \<inter> {..<k}) t (fdt st' p)" using w(2) by (simp add: exec_view_def)
  have "closed_in (closes_on_exec t) t (fdt st' p)" using none by (intro closed_in_more [OF c]) auto
  moreover have "fd_ofileflags (fdt st' p) ! fd = exec_flags (fd_ofileflags t ! fd)" if "fd_lookup (fdt st' p) fd \<noteq> None" for fd
  proof -
    have "fd < k" using that none [of fd] by (cases "k \<le> fd") simp_all
    moreover have "fd < fd_nfiles t" using that c unfolding closed_in_def by (metis fd_lookup_def)
    ultimately show ?thesis using w(2) that by (simp add: exec_view_def)
  qed
  ultimately show ?thesis using st'(1) w(1) unfolding fdprepforexec_def exec_result_def t_def by blast
qed

end
