(* ===== verification/Fd_Fork.thy ===== *)
theory Fd_Fork
  imports Fd_Proc
begin

text \<open>
  Tables as a whole: \<^verbatim>\<open>fdfree\<close> gives up every reference of a table whose last user goes, \<^verbatim>\<open>fdcopy\<close> gives a child process the
  descriptors it inherits. The size that \<^verbatim>\<open>fdcopy\<close> computes is always large enough for the last descriptor because every size
  is \<^verbatim>\<open>NDFILE\<close> or \<^verbatim>\<open>NDEXTENT\<close> times a power of two.
\<close>

section \<open>Releasing a table\<close>

text \<open>\<^verbatim>\<open>fdfree\<close> clears the pointers below \<open>k\<close>.\<close>

lemma tab_inv_clear: "tab_inv t \<Longrightarrow> tab_inv (t\<lparr>fd_ofiles := (fd_ofiles t)[fd := None]\<rparr>)"
  using tab_inv_store [of t None fd "fd_ofileflags t ! fd"] by (simp add: fd_store_def)

lemma fdfree_one_inv:
  assumes w: "walking H G p st0 s" and lt: "fd < fd_nfiles (fdt s p)"
  shows "\<exists>s1. fdfree_one p fd s = Inr s1 \<and> walking H G p st0 s1 \<and> fdt s1 p = (fdt s p)\<lparr>fd_ofiles := (fd_ofiles (fdt s p))[fd := None]\<rparr>"
proof -
  define t where "t = fdt s p"
  have s: "fs_inv s H G" "live s p" using w by (simp_all add: walking_def)
  have t: "tab_inv t" unfolding t_def by (rule fs_inv_tab [OF s])
  have len: "fd < length (fd_ofiles t)" using lt tab_inv_len [OF t] by (simp add: t_def)
  show ?thesis
  proof (cases "fd_ofiles t ! fd")
    case None
    then have "(fd_ofiles t)[fd := None] = fd_ofiles t" by (metis list_update_id)
    with None w lt show ?thesis by (simp add: fdfree_one_def Let_def flip: t_def)
  next
    case (Some f)
    define u where "u = t\<lparr>fd_ofiles := (fd_ofiles t)[fd := None]\<rparr>"
    define s1 where "s1 = fd_event (Ev_knote p fd) (set_fdt p u s)"
    have s1: "fs_inv s1 (H(f := H f + 1)) G" "fs_fds s1 = (fs_fds s)[p := Some u]"
    proof -
      have "fs_inv (set_fdt p u s) (H(f := H f + 1)) G"
      proof (rule fs_inv_store [OF s])
        show "tab_inv u" unfolding u_def by (rule tab_inv_clear [OF t])
      qed (use len Some in \<open>auto simp: u_def t_def\<close>)
      then show "fs_inv s1 (H(f := H f + 1)) G" by (simp add: s1_def)
    qed (simp add: s1_def)
    define H2 where "H2 = (H(f := H f + 1))(f := (H(f := H f + 1)) f + 1)"
    obtain s2 where s2: "FREF f s1 = Inr s2" "fs_inv s2 H2 G" "fs_fds s2 = fs_fds s1"
      using FREF_inv [OF s1(1), of f] unfolding H2_def by auto
    have "2 \<le> H2 f" "H2(f := H2 f - 2) = H" by (simp_all add: H2_def)
    then obtain s3 where s3: "closef p f s2 = Inr s3" "fs_inv s3 H G" "fs_fds s3 = (fs_fds s)[p := Some u]"
      using closef_inv [OF s2(2), of f p] s2(3) s1(2) by auto
    have "fdfree_one p fd s = Inr s3" using Some lt s2(1) s3(1) by (simp add: fdfree_one_def Let_def u_def s1_def flip: t_def)
    with walking_step [OF w s3(2,3)] show ?thesis by (auto simp: u_def t_def)
  qed
qed

lemma fdfree_loop_inv:
  assumes "walking H G p st0 s" and "\<forall>fd \<in> set fds. fd < fd_nfiles (fdt s p)"
  shows "\<exists>s1. fdfree_loop p fds s = Inr s1 \<and> walking H G p st0 s1 \<and>
     fd_nfiles (fdt s1 p) = fd_nfiles (fdt s p) \<and> fd_lastfile (fdt s1 p) = fd_lastfile (fdt s p) \<and>
     (\<forall>fd. fd_lookup (fdt s1 p) fd = (if fd \<in> set fds then None else fd_lookup (fdt s p) fd))"
  using assms
proof (induction fds arbitrary: s)
  case (Cons fd fds)
  have lt: "fd < fd_nfiles (fdt s p)" using Cons.prems by simp
  obtain s1 where s1: "fdfree_one p fd s = Inr s1" "walking H G p st0 s1" "fdt s1 p = (fdt s p)\<lparr>fd_ofiles := (fd_ofiles (fdt s p))[fd := None]\<rparr>"
    using fdfree_one_inv [OF Cons.prems(1) lt] by blast
  have "\<forall>fd \<in> set fds. fd < fd_nfiles (fdt s1 p)" using Cons.prems(2) s1(3) by simp
  from Cons.IH [OF s1(2) this] obtain s2 where s2: "fdfree_loop p fds s1 = Inr s2" "walking H G p st0 s2"
     "fd_nfiles (fdt s2 p) = fd_nfiles (fdt s1 p)" "fd_lastfile (fdt s2 p) = fd_lastfile (fdt s1 p)"
     "\<And>fd. fd_lookup (fdt s2 p) fd = (if fd \<in> set fds then None else fd_lookup (fdt s1 p) fd)" by blast
  have "length (fd_ofiles (fdt s p)) = fd_nfiles (fdt s p)" using Cons.prems(1) fs_inv_tab tab_inv_len by (auto simp: walking_def)
  then have "fd_lookup (fdt s1 p) k = (if k = fd then None else fd_lookup (fdt s p) k)" for k using s1(3) by (auto simp: fd_lookup_def)
  with s1 s2 show ?case by simp
qed simp

lemma fs_inv_drop:
  assumes inv: "fs_inv st H G" and live: "live st p" and none: "\<And>fd. fd_lookup (fdt st p) fd = None"
  shows "fs_inv (st\<lparr>fs_fds := (fs_fds st)[p := None]\<rparr>) H G"
proof -
  define st' where "st' = st\<lparr>fs_fds := (fs_fds st)[p := None]\<rparr>"
  have t: "tab_inv (fdt st p)" by (rule fs_inv_tab [OF inv live])
  have zero: "tab_slots (fs_fds st ! p) f = 0" for f
  proof -
    have "Some f \<notin> set (fd_ofiles (fdt st p))"
      using none tab_inv_len [OF t] unfolding in_set_conv_nth fd_lookup_def by (metis option.distinct(1))
    then show ?thesis by (simp add: live_fdt [OF live] tab_slots_def count_list_0_iff)
  qed
  have "slots st' = slots st"
  proof
    fix f
    have "map (\<lambda>t. tab_slots t f) ((fs_fds st)[p := None]) = (map (\<lambda>t. tab_slots t f) (fs_fds st))[p := 0]" by (simp add: map_update tab_slots_def)
    also have "\<dots> = map (\<lambda>t. tab_slots t f) (fs_fds st)" using zero [of f] live by (metis list_update_id live_def nth_map)
    finally show "slots st' f = slots st f" by (simp add: slots_def st'_def)
  qed
  moreover have "tab_inv u" if "Some u \<in> set (fs_fds st')" for u
    using that inv set_update_subset_insert [of "fs_fds st" p None] by (auto simp: fs_inv_def st'_def)
  ultimately show ?thesis using inv unfolding st'_def [symmetric] by (simp add: fs_inv_def) (simp add: st'_def)
qed

lemma tab_inv_refcnt [simp]: "tab_inv (t\<lparr>fd_refcnt := n\<rparr>) = tab_inv t"
  by (simp add: tab_inv_def fd_ready_def fdmap_inv_eq fdmap_sizes_def used_fds_def)

lemma fs_inv_refcnt: "fs_inv st H G \<Longrightarrow> live st p \<Longrightarrow> fs_inv (set_fdt p ((fdt st p)\<lparr>fd_refcnt := n\<rparr>) st) H G"
  using fs_inv_tab [of st H G p] by (intro fs_inv_set) simp_all

lemma fdshare_inv: "fs_inv st H G \<Longrightarrow> live st p \<Longrightarrow> fs_inv (fdshare p st) H G"
  unfolding fdshare_def by (rule fs_inv_refcnt)

lemma fdfree_inv:
  assumes inv: "fs_inv st H G" and live: "live st p"
  shows "\<exists>st'. fdfree p st = Inr st' \<and> fs_inv st' H G \<and>
     fs_fds st' = (fs_fds st)[p := (if fd_refcnt (fdt st p) > 1 then Some ((fdt st p)\<lparr>fd_refcnt := fd_refcnt (fdt st p) - 1\<rparr>) else None)]"
proof -
  define t where "t = (fdt st p)\<lparr>fd_refcnt := fd_refcnt (fdt st p) - 1\<rparr>"
  define st1 where "st1 = set_fdt p t st"
  have st1: "fs_inv st1 H G" "live st1 p" "fdt st1 p = t" using fs_inv_refcnt [OF inv live] live by (simp_all add: st1_def t_def)
  show ?thesis
  proof (cases "fd_refcnt (fdt st p) > 1")
    case True
    then have "fdfree p st = Inr st1" using st1(3) by (simp add: fdfree_def Let_def st1_def t_def)
    with st1 True show ?thesis by (simp add: st1_def t_def)
  next
    case False
    have t: "tab_inv (fdt st p)" by (rule fs_inv_tab [OF inv live])
    have "fd_lastfile (fdt st p) < fd_nfiles (fdt st p)" using t fdmap_sizesD(3) [of "fdt st p"] by (auto simp: tab_inv_def fd_ready_def fdmap_inv_eq)
    then have "\<forall>fd \<in> set [0..<fd_lastfile (fdt st p) + 1]. fd < fd_nfiles (fdt st1 p)" using st1(3) by (simp add: t_def)
    from fdfree_loop_inv [OF walking_refl [OF st1(1,2)] this] obtain s where
      s: "fdfree_loop p [0..<fd_lastfile (fdt st p) + 1] st1 = Inr s" "walking H G p st1 s"
         "\<And>fd. fd_lookup (fdt s p) fd = (if fd < fd_lastfile (fdt st p) + 1 then None else fd_lookup t fd)" by (auto simp: st1(3))
    have "fd_lookup (fdt s p) fd = None" for fd
      using s(3) [of fd] lookup_lastfile [OF t, of fd] by (auto simp: t_def fd_lookup_def split: if_splits)
    then have "fs_inv (s\<lparr>fs_fds := (fs_fds s)[p := None]\<rparr>) H G" using s(2) by (intro fs_inv_drop) (simp_all add: walking_def)
    moreover have "fdfree p st = Inr (s\<lparr>fs_fds := (fs_fds s)[p := None]\<rparr>)"
      using False st1(3) s(1) by (simp add: fdfree_def Let_def st1_def t_def)
    moreover have "(fs_fds s)[p := None] = (fs_fds st)[p := None]" using s(2) unfolding walking_def st1_def by (metis fs_frame(8) list_update_overwrite)
    ultimately show ?thesis using False by simp
  qed
qed

section \<open>Copying a table\<close>

lemma fdcopy_size_gt:
  assumes "i = NDEXTENT * 2 ^ k" and "lst < i"
  shows "lst < fdcopy_size lst i \<and> (\<exists>k. fdcopy_size lst i = NDEXTENT * 2 ^ k) \<and> fdcopy_size lst i \<le> i"
  using assms
proof (induction k arbitrary: i)
  case 0
  then show ?case by (subst (1 2 3) fdcopy_size.simps) (auto simp: NDEXTENT_def intro: exI [of _ 0])
next
  case (Suc k)
  show ?case
  proof (cases "i \<ge> 2 * NDEXTENT \<and> i > lst * 2")
    case True
    have "i div 2 = NDEXTENT * 2 ^ k" "lst < i div 2" using Suc.prems True by auto
    from Suc.IH [OF this] have "lst < fdcopy_size lst (i div 2) \<and> (\<exists>k. fdcopy_size lst (i div 2) = NDEXTENT * 2 ^ k) \<and> fdcopy_size lst (i div 2) \<le> i"
      by auto
    moreover have "fdcopy_size lst i = fdcopy_size lst (i div 2)" using True by (simp add: fdcopy_size.simps [of lst i])
    ultimately show ?thesis by simp
  next
    case False
    then have "fdcopy_size lst i = i" by (subst fdcopy_size.simps) auto
    moreover have "\<exists>k. i = NDEXTENT * 2 ^ k" using Suc.prems(1) by blast
    ultimately show ?thesis using Suc.prems(2) by simp
  qed
qed

lemma NDHISLOTS_pos: "0 < n \<Longrightarrow> 0 < NDHISLOTS n"
  using NDREDUCE_bounds(1) [of n] NDREDUCE_bounds(1) [of "NDREDUCE n"] by (cases "NDHISLOTS n") (auto simp: NDHISLOTS_def)

lemma size_pos: "n = NDFILE \<or> (\<exists>k. n = NDEXTENT * 2 ^ k) \<Longrightarrow> 0 < n"
  by (auto simp: NDFILE_def NDEXTENT_def)

lemma blank_inv:
  assumes "n = NDFILE \<or> (\<exists>k. n = NDEXTENT * 2 ^ k)" and "n < 25600"
    and t: "fd_nfiles t = n" "fd_ofiles t = replicate n None" "fd_ofileflags t = replicate n 0" "fd_himap t = replicate (NDHISLOTS n) 0"
      "fd_lomap t = replicate (NDLOSLOTS n) 0" "fd_lastfile t = 0" "fd_openfd t = 0"
  shows "tab_inv t" and "used_fds t = {}" and "fd_lookup t fd = None"
proof -
  show used: "used_fds t = {}" by (auto simp: used_fds_def t)
  have "0 < NDHISLOTS n" using NDHISLOTS_pos [OF size_pos [OF assms(1)]] .
  then have "fdmap_inv t" unfolding fdmap_inv_eq used by (auto simp: fdmap_sizes_def hi_ok_def t assms(1) NDLOSLOTS_def)
  then show "tab_inv t" using assms(2) t by (simp add: tab_inv_def fd_ready_def)
  show "fd_lookup t fd = None" by (simp add: fd_lookup_def t)
qed

lemma fdcopy_table_inv:
  assumes t: "tab_inv t"
  shows "tab_inv (fdcopy_table t)" and "used_fds (fdcopy_table t) = {}" and "fd_lastfile t < fd_nfiles (fdcopy_table t)"
    and "fd_lookup (fdcopy_table t) fd = None" and "fd_refcnt (fdcopy_table t) = 1"
proof -
  define new where "new = fdcopy_table t"
  define n where "n = fd_nfiles new"
  have sz: "fdmap_sizes t" "fd_nfiles t < 25600" using t by (simp_all add: tab_inv_def fd_ready_def fdmap_inv_eq)
  have last: "fd_lastfile t < fd_nfiles t" using t fdmap_sizesD(3) [of t] by (auto simp: tab_inv_def fd_ready_def fdmap_inv_eq)
  have n: "(n = NDFILE \<or> (\<exists>k. n = NDEXTENT * 2 ^ k)) \<and> n < 25600 \<and> fd_lastfile t < n"
  proof (cases "fd_lastfile t \<ge> NDFILE")
    case True
    then obtain k where "fd_nfiles t = NDEXTENT * 2 ^ k" using sz(1) last by (auto simp: fdmap_sizes_def)
    from fdcopy_size_gt [OF this last] True sz(2) show ?thesis by (auto simp: n_def new_def fdcopy_table_def Let_def)
  next
    case False
    then show ?thesis by (simp add: n_def new_def fdcopy_table_def Let_def fdinit_def) (simp add: NDFILE_def)
  qed
  have f: "fd_nfiles new = n" "fd_ofiles new = replicate n None" "fd_ofileflags new = replicate n 0" "fd_lastfile new = 0" "fd_openfd new = 0" "fd_refcnt new = 1"
    by (simp_all add: n_def new_def fdcopy_table_def Let_def fdinit_def)
  have small: "NDHISLOTS NDFILE = 1" by (simp add: kern_defs)
  have "0 < NDHISLOTS n" using n by (intro NDHISLOTS_pos) simp
  then have "fd_himap new = replicate (NDHISLOTS n) 0 \<and> fd_lomap new = replicate (NDLOSLOTS n) 0"
  proof (cases "NDHISLOTS n > 1")
    case True
    then show ?thesis using small by (auto simp: n_def new_def fdcopy_table_def Let_def)
  next
    case False
    then have one: "NDHISLOTS n = 1" "NDLOSLOTS n = 32" using \<open>0 < NDHISLOTS n\<close> by (auto simp: NDLOSLOTS_def)
    have "fd_himap new = fd_himap fdinit \<and> fd_lomap new = fd_lomap fdinit"
      using one(1) small by (auto simp: n_def new_def fdcopy_table_def Let_def)
    with one show ?thesis by (simp add: fdinit_def NDENTRIES_def)
  qed
  then have m: "fd_himap new = replicate (NDHISLOTS n) 0" "fd_lomap new = replicate (NDLOSLOTS n) 0" by simp_all
  have nn: "n = NDFILE \<or> (\<exists>k. n = NDEXTENT * 2 ^ k)" "n < 25600" using n by simp_all
  note b = blank_inv [OF nn f(1,2,3) m f(4,5)]
  show "tab_inv (fdcopy_table t)" "used_fds (fdcopy_table t) = {}" "fd_lookup (fdcopy_table t) fd = None" "fd_refcnt (fdcopy_table t) = 1"
    using b f(6) by (simp_all add: new_def)
  show "fd_lastfile t < fd_nfiles (fdcopy_table t)" using n by (simp add: n_def new_def)
qed

text \<open>The descriptors that a child gets: those with a file, unless marked close-on-fork or a kqueue.\<close>

definition inherits :: "fdsys \<Rightarrow> filedesc \<Rightarrow> nat \<Rightarrow> bool" where
  "inherits st t fd \<longleftrightarrow>
     (case fd_lookup t fd of
        None \<Rightarrow> False
      | Some f \<Rightarrow> fd_ofileflags t ! fd AND UF_FORKCLOSE = 0 \<and> (\<forall>fp. fs_file st f = Some fp \<longrightarrow> f_type fp \<noteq> DTYPE_KQUEUE))"

text \<open>Some file may reach the largest number of references while the table is copied.\<close>

definition crowded :: "fdsys \<Rightarrow> filedesc \<Rightarrow> bool" where
  "crowded st t \<longleftrightarrow> (\<exists>f fp. fs_file st f = Some fp \<and> FDUP_MAX_COUNT \<le> f_count fp + fd_nfiles t)"

definition copied :: "fdsys \<Rightarrow> nat \<Rightarrow> filedesc \<Rightarrow> filedesc \<Rightarrow> bool" where
  "copied st k t new \<longleftrightarrow>
     (\<forall>fd. fd_lookup new fd \<noteq> None \<longrightarrow> fd < k \<and> inherits st t fd \<and> fd_lookup new fd = fd_lookup t fd \<and> fd_ofileflags new ! fd = fd_ofileflags t ! fd) \<and>
     (\<forall>fd < k. inherits st t fd \<longrightarrow> fd_lookup new fd \<noteq> None \<or> crowded st t) \<and>
     used_fds new = {fd. fd_lookup new fd \<noteq> None} \<and> fd_refcnt new = 1"

definition hint_upto :: "nat \<Rightarrow> filedesc \<Rightarrow> filedesc \<Rightarrow> bool" where
  "hint_upto k t new \<longleftrightarrow> fd_freefile new \<le> fd_freefile t \<and> (\<forall>fd < k. fd < fd_freefile new \<and> fd_lookup t fd \<noteq> None \<longrightarrow> fd \<in> used_fds new)"

text \<open>The states of the copying loop: the new table's references are counted although it is not yet part of the state.\<close>

definition copying :: "(nat \<Rightarrow> nat) \<Rightarrow> (nat \<Rightarrow> nat) \<Rightarrow> nat \<Rightarrow> fdsys \<Rightarrow> filedesc \<Rightarrow> filedesc \<times> fdsys \<Rightarrow> bool" where
  "copying H G k st0 t = (\<lambda>(new, st).
     fs_inv st (\<lambda>f. H f + count_list (fd_ofiles new) (Some f)) G \<and> fs_fds st = fs_fds st0 \<and> tab_inv new \<and> fd_lastfile t < fd_nfiles new \<and>
     (\<forall>f fp. fs_file st f = Some fp \<longrightarrow> (\<exists>fp0. fs_file st0 f = Some fp0 \<and> f_type fp0 = f_type fp \<and> f_count fp \<le> f_count fp0 + k)) \<and>
     copied st0 k t new \<and> hint_upto k t new)"

lemma freefile_frame [simp]:
  "fd_lookup (t\<lparr>fd_freefile := k\<rparr>) = fd_lookup t" "tab_inv (t\<lparr>fd_freefile := k\<rparr>) = tab_inv t"
  by (simp_all add: fd_lookup_def fun_eq_iff tab_inv_def fd_ready_def)

lemma copied_freefile [simp]: "copied st k t (new\<lparr>fd_freefile := n\<rparr>) = copied st k t new"
  by (simp add: copied_def)

lemma fd_used_store:
  assumes t: "tab_inv t" and k: "k < fd_nfiles t" "k \<notin> used_fds t"
  shows "\<exists>t'. fd_used (fd_store k x fl t) k = Inr t' \<and> tab_inv t' \<and> used_fds t' = insert k (used_fds t) \<and> fd_rest t' = fd_rest (fd_store k x fl t) \<and>
     fd_freefile t' = fd_freefile t"
proof -
  have "fdmap_inv (fd_store k x fl t)" using t by (simp add: tab_inv_def fd_ready_def)
  from fd_used_spec [OF this, of k] k obtain t' where t': "fd_used (fd_store k x fl t) k = Inr t'" "fdmap_inv t'" "used_fds t' = insert k (used_fds t)"
      "fd_rest t' = fd_rest (fd_store k x fl t)" "fd_freefile t' = fd_freefile t" by auto
  note r = fd_restD [OF t'(4)]
  have "fd \<in> insert k (used_fds t)" if "fd < fd_nfiles t" "(fd_ofiles t)[k := x] ! fd \<noteq> None" for fd
    using that t tab_inv_len [OF t] by (cases "fd = k") (simp_all add: tab_inv_def)
  then have "tab_inv t'" using t t'(2,3) r by (simp add: tab_inv_def fd_ready_def)
  with t' show ?thesis by blast
qed

lemma copied_skip:
  assumes "copied st k t new" and "inherits st t k \<Longrightarrow> crowded st t"
  shows "copied st (k + 1) t new"
  using assms unfolding copied_def by (metis less_Suc_eq Suc_eq_plus1)

lemma copied_add:
  assumes c: "copied st k t new" and k: "inherits st t k" "fd_lookup t k = Some f"
    and new: "fd_lookup new' = (fd_lookup new)(k := Some f)" "used_fds new' = insert k (used_fds new)" "fd_refcnt new' = fd_refcnt new"
      "\<And>fd. fd_lookup new' fd \<noteq> None \<Longrightarrow> fd_ofileflags new' ! fd = (if fd = k then fd_ofileflags t ! k else fd_ofileflags new ! fd)"
  shows "copied st (k + 1) t new'"
  using c k new unfolding copied_def by (auto simp: less_Suc_eq)

lemma fdcopy_one_inv:
  assumes c: "copying H G k st0 t (new, st)" and inv0: "fs_inv st0 H G" and live: "live st0 p" and t: "t = fdt st0 p" and k: "k \<le> fd_lastfile t"
  shows "\<exists>s'. fdcopy_one t k (new, st) = Inr s' \<and> copying H G (k + 1) st0 t s'"
proof -
  define H1 where "H1 = (\<lambda>f. H f + count_list (fd_ofiles new) (Some f))"
  have inv: "fs_inv st H1 G" and fds: "fs_fds st = fs_fds st0" and new: "tab_inv new" "fd_lastfile t < fd_nfiles new" and cp: "copied st0 k t new" "hint_upto k t new"
    and fr: "\<And>f fp. fs_file st f = Some fp \<Longrightarrow> \<exists>fp0. fs_file st0 f = Some fp0 \<and> f_type fp0 = f_type fp \<and> f_count fp \<le> f_count fp0 + k"
    using c by (auto simp: copying_def H1_def)
  have tt: "tab_inv t" unfolding t by (rule fs_inv_tab [OF inv0 live])
  have lt: "k < fd_nfiles t" "k < fd_nfiles new"
    using k new(2) tt fdmap_sizesD(3) [of t] by (auto simp: tab_inv_def fd_ready_def fdmap_inv_eq)
  have fr': "\<exists>fp0. fs_file st0 f = Some fp0 \<and> f_type fp0 = f_type fp \<and> f_count fp \<le> f_count fp0 + (k + 1)" if "fs_file st f = Some fp" for f fp
    using fr [OF that] by auto
  have skip: "copying H G (k + 1) st0 t (new', st)"
    if "copied st0 (k + 1) t new" "new' = new \<or> new' = new\<lparr>fd_freefile := k\<rparr>" "hint_upto (k + 1) t new'" for new'
    using that(2) by (elim disjE; use that(1,3) inv fds new fr' in \<open>simp add: copying_def H1_def\<close>)
  show ?thesis
  proof (cases "fd_ofiles t ! k")
    case None
    have "copied st0 (k + 1) t new" using None lt by (intro copied_skip [OF cp(1)]) (simp add: inherits_def fd_lookup_def)
    moreover have "hint_upto (k + 1) t new" using cp(2) None lt by (auto simp: hint_upto_def fd_lookup_def less_Suc_eq)
    ultimately show ?thesis using skip [of new] None lt by (simp add: fdcopy_one_def)
  next
    case (Some f)
    have look: "fd_lookup t k = Some f" using Some lt by (simp add: fd_lookup_def)
    have live': "live st p" "fdt st p = t" using live_cong [OF fds] live t by simp_all
    have pos: "0 < slots st f" using lookup_slots [OF live'(1)] tt look live'(2) by simp
    obtain fp where fp: "fs_file st f = Some fp"
      using inv pos file_inv_live [of st "\<lambda>f. slots st f + H1 f + G f" f] by (auto simp: fs_inv_def)
    obtain fp0 where fp0: "fs_file st0 f = Some fp0" "f_type fp0 = f_type fp" "f_count fp \<le> f_count fp0 + k" using fr [OF fp] by blast
    show ?thesis
    proof (cases "f_count fp \<ge> FDUP_MAX_COUNT \<or> fd_ofileflags t ! k AND UF_FORKCLOSE \<noteq> 0 \<or> f_type fp = DTYPE_KQUEUE")
      case True
      have "copied st0 (k + 1) t new"
      proof (rule copied_skip [OF cp(1)])
        assume "inherits st0 t k"
        then have "FDUP_MAX_COUNT \<le> f_count fp0 + fd_nfiles t" using True look fp0 lt by (auto simp: inherits_def)
        then show "crowded st0 t" using fp0(1) by (auto simp: crowded_def)
      qed
      moreover define new' where "new' = (if k < fd_freefile new then new\<lparr>fd_freefile := k\<rparr> else new)"
      moreover have "hint_upto (k + 1) t new'" using cp(2) by (auto simp: hint_upto_def less_Suc_eq new'_def)
      moreover have "new' = new \<or> new' = new\<lparr>fd_freefile := k\<rparr>" by (simp add: new'_def)
      ultimately have "copying H G (k + 1) st0 t (new', st)" by (intro skip)
      moreover have "fdcopy_one t k (new, st) = Inr (new', st)" using True Some lt fp by (simp add: fdcopy_one_def Let_def new'_def)
      ultimately show ?thesis by blast
    next
      case False
      have notin: "fd_lookup new k = None" "k \<notin> used_fds new" using cp by (auto simp: copied_def)
      define fl where "fl = fd_ofileflags t ! k"
      obtain st1 where st1: "FREF f st = Inr st1" "fs_inv st1 (H1(f := H1 f + 1)) G" "fs_fds st1 = fs_fds st"
        using FREF_inv [OF inv, of f] pos by auto
      have file1: "fs_file st1 = (fs_file st)(f \<mapsto> fp\<lparr>f_count := f_count fp + 1\<rparr>)" using st1(1) fp by (auto simp: FREF_def set_file_def)
      obtain new1 where new1: "fd_used (fd_store k (Some f) fl new) k = Inr new1" "tab_inv new1" "used_fds new1 = insert k (used_fds new)"
          "fd_rest new1 = fd_rest (fd_store k (Some f) fl new)" "fd_freefile new1 = fd_freefile new"
        using fd_used_store [OF new(1) lt(2) notin(2)] by blast
      note r = fd_restD [OF new1(4)]
      have run: "fdcopy_one t k (new, st) = Inr (new1, st1)" using Some lt fp False st1(1) new1(1) by (simp add: fdcopy_one_def Let_def fl_def)
      have len: "k < length (fd_ofiles new)" "length (fd_ofileflags new) = fd_nfiles new" "length (fd_ofiles new) = fd_nfiles new" using tab_inv_len [OF new(1)] lt(2) by simp_all
      have count: "(\<lambda>g. H g + count_list (fd_ofiles new1) (Some g)) = H1(f := H1 f + 1)"
      proof
        fix g
        have "fd_ofiles new ! k = None" using notin(1) lt(2) by (simp add: fd_lookup_def)
        then show "H g + count_list (fd_ofiles new1) (Some g) = (H1(f := H1 f + 1)) g"
          using count_list_update [OF len(1), of "Some f" "Some g"] r by (auto simp: H1_def)
      qed
      have "copied st0 (k + 1) t new1"
      proof (rule copied_add [OF cp(1) _ look])
        show "inherits st0 t k" using False look fp0 by (simp add: inherits_def)
        show "fd_lookup new1 = (fd_lookup new)(k := Some f)" using r len lt(2) by (auto simp: fd_lookup_def fun_eq_iff)
        show "fd_ofileflags new1 ! fd = (if fd = k then fd_ofileflags t ! k else fd_ofileflags new ! fd)" for fd
          using r len lt(2) by (auto simp: fl_def)
      qed (use new1(3) r in simp_all)
      moreover have "hint_upto (k + 1) t new1" using cp(2) new1(3,5) by (auto simp: hint_upto_def less_Suc_eq)
      moreover have "\<exists>fp0. fs_file st0 g = Some fp0 \<and> f_type fp0 = f_type gp \<and> f_count gp \<le> f_count fp0 + (k + 1)" if "fs_file st1 g = Some gp" for g gp
        using that fr' [of g gp] fp0 file1 by (auto split: if_splits)
      ultimately show ?thesis using run st1(2,3) fds new1(2) r new(2) count by (simp add: copying_def)
    qed
  qed
qed

lemma fdcopy_loop_inv:
  assumes c: "copying H G k st0 t s" and inv0: "fs_inv st0 H G" and live: "live st0 p" and t: "t = fdt st0 p" and "k \<le> n" "n \<le> fd_lastfile t + 1"
  shows "\<exists>s'. fdcopy_loop t [k..<n] s = Inr s' \<and> copying H G n st0 t s'"
  using assms(5,1,6)
proof (induction k arbitrary: s rule: inc_induct)
  case (step k)
  obtain new st where s: "s = (new, st)" by (cases s)
  have "k \<le> fd_lastfile t" using step.hyps step.prems(2) by simp
  then obtain s1 where s1: "fdcopy_one t k s = Inr s1" "copying H G (Suc k) st0 t s1"
    using fdcopy_one_inv [OF step.prems(1) [unfolded s] inv0 live t] s by auto
  from step.IH [OF s1(2) step.prems(2)] s1(1) step.hyps show ?case by (simp add: upt_conv_Cons)
qed auto

lemma slots_append: "slots (st\<lparr>fs_fds := fs_fds st @ [Some new]\<rparr>) f = slots st f + count_list (fd_ofiles new) (Some f)"
  by (simp add: slots_def tab_slots_def)

lemma fs_inv_append:
  assumes inv: "fs_inv st (\<lambda>f. H f + count_list (fd_ofiles new) (Some f)) G" and new: "tab_inv new"
  shows "fs_inv (st\<lparr>fs_fds := fs_fds st @ [Some new]\<rparr>) H G"
proof -
  have "(\<lambda>f. slots st f + count_list (fd_ofiles new) (Some f) + H f + G f) = (\<lambda>f. slots st f + (H f + count_list (fd_ofiles new) (Some f)) + G f)"
    by (simp add: fun_eq_iff)
  then show ?thesis using inv new by (auto simp: fs_inv_def slots_append)
qed

text \<open>\<^verbatim>\<open>fdcopy\<close>: what the child inherits, and when the hint for its first free descriptor is right.\<close>

definition fdcopy_result :: "fdsys \<Rightarrow> filedesc \<Rightarrow> filedesc \<Rightarrow> bool" where
  "fdcopy_result st t new \<longleftrightarrow>
     (\<forall>fd. fd_lookup new fd \<noteq> None \<longrightarrow> inherits st t fd \<and> fd_lookup new fd = fd_lookup t fd \<and> fd_ofileflags new ! fd = fd_ofileflags t ! fd) \<and>
     (\<forall>fd. inherits st t fd \<longrightarrow> fd_lookup new fd \<noteq> None \<or> crowded st t) \<and>
     used_fds new = {fd. fd_lookup new fd \<noteq> None} \<and> fd_refcnt new = 1 \<and>
     (fd_hint t \<and> (\<forall>fd \<in> used_fds t. fd_lookup t fd \<noteq> None) \<longrightarrow> fd_hint new)"

lemma fdcopy_inv:
  assumes inv: "fs_inv st H G" and live: "live st p"
  shows "\<exists>st' new. fdcopy p st = Inr st' \<and> fs_inv st' H G \<and> fs_fds st' = fs_fds st @ [Some new] \<and> fdcopy_result st (fdt st p) new"
proof -
  define t where "t = fdt st p"
  have t: "tab_inv t" unfolding t_def by (rule fs_inv_tab [OF inv live])
  note b = fdcopy_table_inv [OF t]
  have none: "count_list (fd_ofiles (fdcopy_table t)) (Some f) = 0" for f
  proof -
    have "Some f \<notin> set (fd_ofiles (fdcopy_table t))"
      using b(4) tab_inv_len [OF b(1)] unfolding in_set_conv_nth fd_lookup_def by (metis option.distinct(1))
    then show ?thesis by (simp add: count_list_0_iff)
  qed
  have "fd_freefile (fdcopy_table t) = fd_freefile t" by (simp add: fdcopy_table_def Let_def)
  then have "copying H G 0 st t (fdcopy_table t, st)"
    using inv b none by (auto simp: copying_def copied_def hint_upto_def)
  from fdcopy_loop_inv [OF this inv live t_def, of "fd_lastfile t + 1"] obtain new st1 where
    l: "fdcopy_loop t [0..<fd_lastfile t + 1] (fdcopy_table t, st) = Inr (new, st1)" "copying H G (fd_lastfile t + 1) st t (new, st1)" by auto
  have c: "fs_inv st1 (\<lambda>f. H f + count_list (fd_ofiles new) (Some f)) G" "fs_fds st1 = fs_fds st" "tab_inv new" "copied st (fd_lastfile t + 1) t new"
    "hint_upto (fd_lastfile t + 1) t new" using l(2) by (simp_all add: copying_def)
  have below: "fd < fd_lastfile t + 1" if "inherits st t fd" for fd
    using that lookup_lastfile [OF t, of fd] by (cases "fd < fd_lastfile t + 1") (auto simp: inherits_def)
  have "fd_hint new" if h: "fd_hint t" "\<forall>fd \<in> used_fds t. fd_lookup t fd \<noteq> None"
  proof -
    have "fd \<in> used_fds new" if "fd < fd_freefile new" for fd
    proof -
      have "fd \<in> used_fds t" using that c(5) h(1) by (auto simp: hint_upto_def fd_hint_def)
      moreover from this have "fd < fd_lastfile t + 1" using t by (auto simp: tab_inv_def fd_ready_def fdmap_inv_eq less_Suc_eq_le)
      ultimately show ?thesis using that c(5) h(2) by (auto simp: hint_upto_def)
    qed
    then show ?thesis by (auto simp: fd_hint_def)
  qed
  then have "fdcopy_result st t new" using c(4) below unfolding fdcopy_result_def copied_def by blast
  moreover have "fdcopy p st = Inr (st1\<lparr>fs_fds := fs_fds st1 @ [Some new]\<rparr>)" using l(1) by (simp add: fdcopy_def flip: t_def)
  ultimately show ?thesis using fs_inv_append [OF c(1,3)] c(2) by (auto simp: t_def)
qed

end
