(* ===== verification/Fd_Steps.thy ===== *)
theory Fd_Steps
  imports Fd_Fork
begin

text \<open>
  Threads that use the tables concurrently. A call is cut where the table lock is not held: after \<^verbatim>\<open>fd_getfile\<close> a thread holds a
  reference and other threads may run before its locked part; an open reserves its descriptor long before \<^verbatim>\<open>fdinsert\<close>. In every
  state that such steps reach the references are counted exactly, and no step fails an assertion, uses a freed file or leaves a table.
\<close>

section \<open>Threads and their steps\<close>

text \<open>A claim names a table, a descriptor and a file: one that a thread looked up, or one that it is opening.\<close>

type_synonym fd_claim = "nat \<times> nat \<times> nat"

record fd_conf =
  fc_st :: fdsys
  fc_held :: "fd_claim list"
  fc_open :: "fd_claim list"

datatype fd_call =
    Call_get nat nat
  | Call_put fd_claim
  | Call_dup nat bool fd_claim nat bool bool
  | Call_dup3 nat bool fd_claim nat bool bool
  | Call_setfd fd_claim u32
  | Call_close nat nat
  | Call_falloc nat nat bool nat nat
  | Call_finish fd_claim u8 u32 nat nat
  | Call_abort fd_claim
  | Call_dupfd bool nat nat fd_claim u32
  | Call_exec nat
  | Call_share nat
  | Call_fork nat
  | Call_exit nat

fun fd_enabled :: "fd_call \<Rightarrow> fd_conf \<Rightarrow> bool" where
  "fd_enabled (Call_get p fd) c = live (fc_st c) p"
| "fd_enabled (Call_put x) c = (x \<in> set (fc_held c))"
| "fd_enabled (Call_dup lim pledge x want cloexec clofork) c = (x \<in> set (fc_held c) \<and> lim \<le> 12800)"
| "fd_enabled (Call_dup3 lim pledge x new cloexec clofork) c = (x \<in> set (fc_held c) \<and> new < lim \<and> lim \<le> 12800)"
| "fd_enabled (Call_setfd x arg) c = (x \<in> set (fc_held c))"
| "fd_enabled (Call_close p fd) c = live (fc_st c) p"
| "fd_enabled (Call_falloc lim maxfiles pledge p a) c = (live (fc_st c) p \<and> lim \<le> 12800 \<and> fs_file (fc_st c) a = None)"
| "fd_enabled (Call_finish x flags flag type data) c = (x \<in> set (fc_open c))"
| "fd_enabled (Call_abort x) c = (x \<in> set (fc_open c))"
| "fd_enabled (Call_dupfd sugid descfd dupfd x mode) c = (x \<in> set (fc_open c))"
| "fd_enabled (Call_exec p) c = live (fc_st c) p"
| "fd_enabled (Call_share p) c = live (fc_st c) p"
| "fd_enabled (Call_fork p) c = live (fc_st c) p"
| "fd_enabled (Call_exit p) c =
     (live (fc_st c) p \<and> (fd_refcnt (fdt (fc_st c) p) > 1 \<or> (\<forall>(q, fd, f) \<in> set (fc_held c) \<union> set (fc_open c). q \<noteq> p)))"

definition fd_ret :: "(fdsys \<Rightarrow> fd_conf) \<Rightarrow> fd_panic + fdsys \<Rightarrow> (fd_panic + fd_conf) option" where
  "fd_ret k r = Some (map_sum (\<lambda>e. e) k r)"

definition unhold :: "fd_claim \<Rightarrow> fd_conf \<Rightarrow> fdsys \<Rightarrow> fd_conf" where
  "unhold x c st = c\<lparr>fc_st := st, fc_held := remove1 x (fc_held c)\<rparr>"

definition unopen :: "fd_claim \<Rightarrow> fd_conf \<Rightarrow> fdsys \<Rightarrow> fd_conf" where
  "unopen x c st = c\<lparr>fc_st := st, fc_open := remove1 x (fc_open c)\<rparr>"

fun fd_run :: "fd_call \<Rightarrow> fd_conf \<Rightarrow> (fd_panic + fd_conf) option" where
  "fd_run (Call_get p fd) c =
     Some (map_sum (\<lambda>e. e) (\<lambda>(r, st). c\<lparr>fc_st := st, fc_held := (case r of None \<Rightarrow> fc_held c | Some f \<Rightarrow> (p, fd, f) # fc_held c)\<rparr>)
       (fd_getfile p fd (fc_st c)))"
| "fd_run (Call_put (p, fd, f)) c = fd_ret (unhold (p, fd, f) c) (FRELE f (fc_st c))"
| "fd_run (Call_dup lim pledge (p, fd, f) want cloexec clofork) c =
     fd_ret (unhold (p, fd, f) c) (map_sum (\<lambda>e. e) snd (dup_locked lim pledge p f fd want cloexec clofork (fc_st c)))"
| "fd_run (Call_dup3 lim pledge (p, fd, f) new cloexec clofork) c =
     fd_ret (unhold (p, fd, f) c) (map_sum (\<lambda>e. e) snd (dup3_locked lim pledge p f fd new cloexec clofork (fc_st c)))"
| "fd_run (Call_setfd (p, fd, f) arg) c = fd_ret (\<lambda>st. c\<lparr>fc_st := st\<rparr>) (setfd_locked p fd arg (fc_st c))"
| "fd_run (Call_close p fd) c = fd_ret (\<lambda>st. c\<lparr>fc_st := st\<rparr>) (map_sum (\<lambda>e. e) snd (sys_close p fd (fc_st c)))"
| "fd_run (Call_falloc lim maxfiles pledge p a) c =
     map_option (map_sum (\<lambda>e. e) (\<lambda>(r, st). c\<lparr>fc_st := st, fc_open := (case r of Inl e \<Rightarrow> fc_open c | Inr i \<Rightarrow> (p, i, a) # fc_open c)\<rparr>))
       (falloc lim maxfiles pledge p a (fc_st c))"
| "fd_run (Call_finish (p, fd, f) flags flag type data) c = fd_ret (unopen (p, fd, f) c) (open_finish p fd flags f flag type data (fc_st c))"
| "fd_run (Call_abort (p, fd, f)) c = fd_ret (unopen (p, fd, f) c) (open_abort p fd f (fc_st c))"
| "fd_run (Call_dupfd sugid descfd dupfd (p, fd, f) mode) c =
     fd_ret (unopen (p, fd, f) c) (map_sum (\<lambda>e. e) snd (open_dupfd sugid descfd dupfd p fd f mode (fc_st c)))"
| "fd_run (Call_exec p) c = map_option (map_sum (\<lambda>e. e) (\<lambda>st. c\<lparr>fc_st := st\<rparr>)) (fdprepforexec p (fc_st c))"
| "fd_run (Call_share p) c = fd_ret (\<lambda>st. c\<lparr>fc_st := st\<rparr>) (Inr (fdshare p (fc_st c)))"
| "fd_run (Call_fork p) c = fd_ret (\<lambda>st. c\<lparr>fc_st := st\<rparr>) (fdcopy p (fc_st c))"
| "fd_run (Call_exit p) c = fd_ret (\<lambda>st. c\<lparr>fc_st := st\<rparr>) (fdfree p (fc_st c))"

definition fd_boot :: fd_conf where
  "fd_boot = \<lparr>fc_st = \<lparr>fs_fds = [Some fdinit], fs_file = (\<lambda>f. None), fs_head = [], numfiles = 0, fs_ev = []\<rparr>, fc_held = [], fc_open = []\<rparr>"

inductive fd_reach :: "fd_conf \<Rightarrow> bool" where
  boot: "fd_reach fd_boot"
| step: "fd_reach c \<Longrightarrow> fd_enabled call c \<Longrightarrow> fd_run call c = Some (Inr c') \<Longrightarrow> fd_reach c'"

section \<open>Invariant\<close>

definition claims :: "fd_claim list \<Rightarrow> nat \<Rightarrow> nat" where
  "claims xs f = count_list (map (\<lambda>(p, fd, g). g) xs) f"

definition reserved :: "filedesc \<Rightarrow> nat set" where
  "reserved t = {fd \<in> used_fds t. fd_lookup t fd = None}"

definition claims_ok :: "fdsys \<Rightarrow> fd_claim list \<Rightarrow> fd_claim list \<Rightarrow> bool" where
  "claims_ok st hs ops \<longleftrightarrow>
     (\<forall>(p, fd, f) \<in> set hs. live st p \<and> fd < fd_nfiles (fdt st p)) \<and> (\<forall>(p, fd, f) \<in> set ops. live st p \<and> fd \<in> reserved (fdt st p)) \<and>
     distinct (map (\<lambda>(p, fd, f). (p, fd)) ops)"

definition conf_inv :: "fd_conf \<Rightarrow> bool" where
  "conf_inv c \<longleftrightarrow> fs_inv (fc_st c) (claims (fc_held c)) (\<lambda>f. 2 * claims (fc_open c) f) \<and> claims_ok (fc_st c) (fc_held c) (fc_open c)"

lemma claims_simps [simp]: "claims [] f = 0" "claims ((p, fd, g) # xs) f = claims xs f + of_bool (g = f)"
  by (simp_all add: claims_def)

lemma claims_remove1: "(p, fd, f) \<in> set xs \<Longrightarrow> claims (remove1 (p, fd, f) xs) g + of_bool (f = g) = claims xs g"
  by (induction xs) auto

text \<open>How a step may change a table: other threads' claims stay valid.\<close>

definition keeps :: "nat set \<Rightarrow> filedesc \<Rightarrow> filedesc \<Rightarrow> bool" where
  "keeps X t t' \<longleftrightarrow> fd_nfiles t \<le> fd_nfiles t' \<and> reserved t - X \<subseteq> reserved t'"

lemma claims_okD:
  assumes "claims_ok st hs ops"
  shows "(p, fd, f) \<in> set hs \<Longrightarrow> live st p \<and> fd < fd_nfiles (fdt st p)"
    and "(p, fd, f) \<in> set ops \<Longrightarrow> live st p \<and> fd \<in> used_fds (fdt st p) \<and> fd_lookup (fdt st p) fd = None"
  using assms by (auto simp: claims_ok_def reserved_def)

lemma claims_ok_update:
  assumes ok: "claims_ok st hs ops" and live: "live st p" and st': "fs_fds st' = (fs_fds st)[p := Some t']" and k: "keeps X (fdt st p) t'"
    and hs: "set hs' \<subseteq> set hs" and ops: "set ops' \<subseteq> set ops" "distinct (map (\<lambda>(p, fd, f). (p, fd)) ops')"
    and X: "\<And>fd f. (p, fd, f) \<in> set ops' \<Longrightarrow> fd \<notin> X"
  shows "claims_ok st' hs' ops'"
proof -
  have l: "live st' q = live st q" "fdt st' q = (if q = p then t' else fdt st q)" for q
    using live st' by (auto simp: live_def fdt_def nth_list_update)
  have "live st' q \<and> fd < fd_nfiles (fdt st' q)" if "(q, fd, f) \<in> set hs'" for q fd f
    using claims_okD(1) [OF ok subsetD [OF hs that]] k by (auto simp: l keeps_def)
  moreover have "live st' q \<and> fd \<in> reserved (fdt st' q)" if "(q, fd, f) \<in> set ops'" for q fd f
    using claims_okD(2) [OF ok subsetD [OF ops(1) that]] k X [of fd f] that by (auto simp: l keeps_def reserved_def)
  ultimately show ?thesis using ops(2) by (auto simp: claims_ok_def)
qed

lemma claims_ok_same:
  assumes "claims_ok st hs ops" and "fs_fds st' = fs_fds st" and "set hs' \<subseteq> set hs"
  shows "claims_ok st' hs' ops"
proof -
  have "live st' q = live st q" "fdt st' q = fdt st q" for q using live_cong [OF assms(2)] by simp_all
  with assms(1,3) show ?thesis unfolding claims_ok_def by auto
qed

text \<open>Which reservations the operations on a table keep.\<close>

lemma keeps_refl [simp]: "keeps X t t"
  by (simp add: keeps_def)

lemma keeps_expanded: "expanded t t' \<Longrightarrow> keeps X t t'"
  by (auto simp: keeps_def expanded_def reserved_def)

lemma keeps_taken: "n \<notin> used_fds t \<Longrightarrow> fd_taken pledge n t t' \<Longrightarrow> keeps {} t t'"
  using taken_lookup [of pledge n t t'] by (auto simp: keeps_def reserved_def fd_taken_def)

lemma keeps_dupped:
  assumes t: "tab_inv t" and d: "dupped f old new cloexec clofork t t'"
  shows "keeps {new} t t'"
  using d tab_inv_len [OF t] by (auto simp: keeps_def reserved_def dupped_def fd_lookup_def nth_list_update)

lemma keeps_weaken: "keeps X t t' \<Longrightarrow> X \<inter> reserved t = {} \<Longrightarrow> keeps {} t t'"
  by (auto simp: keeps_def)

lemma keeps_removed: "tab_inv t \<Longrightarrow> removed fd t t' \<Longrightarrow> keeps {fd} t t'"
  using removed_lookup [of t fd t'] by (auto simp: keeps_def reserved_def removed_def)

lemma keeps_store: "tab_inv t \<Longrightarrow> keeps {fd} t (fd_store fd x fl t)"
  using tab_inv_len [of t] by (auto simp: keeps_def reserved_def fd_lookup_def)

lemma keeps_closed: "closed_in C t t' \<Longrightarrow> keeps {} t t'"
  by (auto simp: keeps_def closed_in_def reserved_def)

lemma keeps_frame: "keeps {} t (t\<lparr>fd_refcnt := n\<rparr>)" "keeps {} t (setfd_table arg fd t)"
  by (simp_all add: keeps_def reserved_def setfd_table_def fd_lookup_def fun_eq_iff)

lemma reserved_iff: "fd \<in> reserved t \<longleftrightarrow> fd \<in> used_fds t \<and> fd_lookup t fd = None"
  by (simp add: reserved_def)

lemma keeps_dup_post:
  assumes t: "tab_inv (fdt st p)" and live: "live st p" and post: "dup_post lim pledge p f old want cloexec clofork st r st'"
  shows "\<exists>t'. fs_fds st' = (fs_fds st)[p := Some t'] \<and> keeps {} (fdt st p) t'"
proof -
  have same: "fs_fds st = (fs_fds st)[p := Some (fdt st p)]" by (metis list_update_id live live_fdt)
  consider (none) "r = None" | (err) e where "r = Some (Inl e)" | (ok) n where "r = Some (Inr n)" by (metis option.exhaust sum.exhaust)
  then show ?thesis
  proof cases
    case none
    with post keeps_expanded [OF expanded_fdexpand [OF t]] show ?thesis by (auto simp: dup_post_def)
  next
    case err
    with post same keeps_taken show ?thesis by (auto simp: dup_post_def)
  next
    case ok
    then obtain t1 t' where n: "n = free_from (fdt st p) (max want (fd_freefile (fdt st p)))" "fd_taken pledge n (fdt st p) t1"
        "dupped f old n cloexec clofork t1 t'" "fs_fds st' = (fs_fds st)[p := Some t']"
      using post by (auto simp: dup_post_def)
    have fresh: "n \<notin> used_fds (fdt st p)" using free_from_props(2) [where fdp = "fdt st p" and n = "max want (fd_freefile (fdt st p))"] n(1) by simp
    have o: "fd_ofiles t' = (fd_ofiles (fdt st p))[n := Some f]" "used_fds t' = insert n (used_fds (fdt st p))" "fd_nfiles t' = fd_nfiles (fdt st p)"
      using n(2,3) by (simp_all add: dupped_def fd_taken_def)
    have "fd_lookup t' x = fd_lookup (fdt st p) x" if "x \<noteq> n" for x using that o by (simp add: fd_lookup_def)
    then have "keeps {} (fdt st p) t'" using fresh o(2,3) by (auto simp: keeps_def reserved_def) (metis)
    with n(4) show ?thesis by blast
  qed
qed

lemma keeps_dup3_post:
  assumes t: "tab_inv (fdt st p)" and live: "live st p" and post: "dup3_post lim p f old new cloexec clofork st r st'"
  shows "\<exists>t'. fs_fds st' = (fs_fds st)[p := Some t'] \<and> keeps {} (fdt st p) t'"
proof -
  have same: "fs_fds st = (fs_fds st)[p := Some (fdt st p)]" by (metis list_update_id live live_fdt)
  consider (none) "r = None" | (err) e where "r = Some (Inl e)" | (ok) n where "r = Some (Inr n)" by (metis option.exhaust sum.exhaust)
  then show ?thesis
  proof cases
    case none
    with post keeps_expanded [OF expanded_fdexpand [OF t]] show ?thesis by (auto simp: dup3_post_def)
  next
    case err
    with post have "fs_fds st' = fs_fds st" by (simp add: dup3_post_def)
    with same show ?thesis by (metis keeps_refl)
  next
    case ok
    then obtain t' where t': "new \<notin> reserved (fdt st p)" "dupped f old new cloexec clofork (fdt st p) t'" "fs_fds st' = (fs_fds st)[p := Some t']"
      using post by (auto simp: dup3_post_def reserved_iff)
    have "keeps {} (fdt st p) t'" by (rule keeps_weaken [OF keeps_dupped [OF t t'(2)]]) (use t'(1) in simp)
    with t'(3) show ?thesis by blast
  qed
qed

section \<open>Every step keeps the invariant\<close>

definition runs :: "fd_call \<Rightarrow> fd_conf \<Rightarrow> bool" where
  "runs call c \<longleftrightarrow> (\<exists>c'. fd_run call c = Some (Inr c') \<and> conf_inv c')"

lemma conf_invD:
  assumes "conf_inv c"
  shows "fs_inv (fc_st c) (claims (fc_held c)) (\<lambda>f. 2 * claims (fc_open c) f)" and "claims_ok (fc_st c) (fc_held c) (fc_open c)"
  using assms by (simp_all add: conf_inv_def)

lemma held_dec:
  assumes "(p, fd, f) \<in> set hs"
  shows "0 < claims hs f" and "(claims hs)(f := claims hs f - 1) = claims (remove1 (p, fd, f) hs)"
proof -
  note r = claims_remove1 [OF assms]
  show "0 < claims hs f" using r [of f] by simp
  show "(claims hs)(f := claims hs f - 1) = claims (remove1 (p, fd, f) hs)"
  proof
    show "((claims hs)(f := claims hs f - 1)) g = claims (remove1 (p, fd, f) hs) g" for g using r [of g] by (cases "g = f") simp_all
  qed
qed

lemma open_dec:
  assumes "(p, fd, f) \<in> set ops"
  shows "2 \<le> 2 * claims ops f" and "(\<lambda>g. 2 * claims ops g)(f := 2 * claims ops f - 2) = (\<lambda>g. 2 * claims (remove1 (p, fd, f) ops) g)"
proof -
  note r = claims_remove1 [OF assms]
  show "2 \<le> 2 * claims ops f" using r [of f] by simp
  show "(\<lambda>g. 2 * claims ops g)(f := 2 * claims ops f - 2) = (\<lambda>g. 2 * claims (remove1 (p, fd, f) ops) g)"
  proof
    show "((\<lambda>g. 2 * claims ops g)(f := 2 * claims ops f - 2)) g = 2 * claims (remove1 (p, fd, f) ops) g" for g
      using r [of g] by (cases "g = f") auto
  qed
qed

lemma claims_ok_unopen:
  assumes ok: "claims_ok st hs ops" and x: "(p, fd, f) \<in> set ops" and st': "fs_fds st' = (fs_fds st)[p := Some t']" and k: "keeps {fd} (fdt st p) t'"
  shows "claims_ok st' hs (remove1 (p, fd, f) ops)"
proof (rule claims_ok_update [OF ok _ st' k])
  obtain ys zs where ops: "ops = ys @ (p, fd, f) # zs" "(p, fd, f) \<notin> set ys" using split_list_first [OF x] by blast
  then have r: "remove1 (p, fd, f) ops = ys @ zs" by (simp add: remove1_append)
  have d: "distinct (map (\<lambda>(p, fd, f). (p, fd)) (ys @ (p, fd, f) # zs))" using ok by (simp add: claims_ok_def ops)
  show "live st p" using claims_okD(2) [OF ok x] by simp
  show "set (remove1 (p, fd, f) ops) \<subseteq> set ops" by (rule set_remove1_subset)
  show "distinct (map (\<lambda>(p, fd, f). (p, fd)) (remove1 (p, fd, f) ops))" using d unfolding r by auto
  show "fd' \<notin> {fd}" if "(p, fd', f') \<in> set (remove1 (p, fd, f) ops)" for fd' f'
    using d that unfolding r by (force simp: image_iff)
qed simp

lemma run_get:
  assumes inv: "conf_inv c" and live: "live (fc_st c) p"
  shows "runs (Call_get p fd) c"
proof (cases "fd_lookup (fdt (fc_st c) p) fd")
  case None
  with fd_getfile_inv(1) [OF conf_invD(1) [OF inv] live] inv show ?thesis by (simp add: runs_def conf_inv_def)
next
  case (Some f)
  obtain st where st: "fd_getfile p fd (fc_st c) = Inr (Some f, st)" "fs_fds st = fs_fds (fc_st c)"
      "fs_inv st ((claims (fc_held c))(f := claims (fc_held c) f + 1)) (\<lambda>f. 2 * claims (fc_open c) f)"
    using fd_getfile_inv(2) [OF conf_invD(1) [OF inv] live Some] by blast
  have "(claims (fc_held c))(f := claims (fc_held c) f + 1) = claims ((p, fd, f) # fc_held c)" by (auto simp: fun_eq_iff)
  moreover have "fd < fd_nfiles (fdt (fc_st c) p)" using lookup_used [OF fs_inv_tab [OF conf_invD(1) [OF inv] live] Some] by simp
  then have "claims_ok st ((p, fd, f) # fc_held c) (fc_open c)"
    using claims_ok_same [OF conf_invD(2) [OF inv] st(2) subset_refl] live live_cong [OF st(2)] by (simp add: claims_ok_def)
  ultimately show ?thesis using st(1,3) by (simp add: runs_def conf_inv_def)
qed

text \<open>A step that gives up a reference, and one that finishes an open.\<close>

lemma unhold_inv:
  assumes inv: "conf_inv c" and x: "(p, fd, f) \<in> set (fc_held c)"
    and st: "fs_inv st ((claims (fc_held c))(f := claims (fc_held c) f - 1)) (\<lambda>f. 2 * claims (fc_open c) f)"
    and fds: "fs_fds st = (fs_fds (fc_st c))[p := Some t']" and k: "keeps {} (fdt (fc_st c) p) t'"
  shows "conf_inv (unhold (p, fd, f) c st)"
proof -
  note ok = conf_invD(2) [OF inv]
  have "claims_ok st (remove1 (p, fd, f) (fc_held c)) (fc_open c)"
    using ok claims_okD(1) [OF ok x] by (intro claims_ok_update [OF ok _ fds k set_remove1_subset]) (auto simp: claims_ok_def)
  then show ?thesis using st unfolding held_dec(2) [OF x] by (simp add: conf_inv_def unhold_def)
qed

lemma unopen_inv:
  assumes inv: "conf_inv c" and x: "(p, fd, f) \<in> set (fc_open c)"
    and st: "fs_inv st (claims (fc_held c)) ((\<lambda>f. 2 * claims (fc_open c) f)(f := 2 * claims (fc_open c) f - 2))"
    and fds: "fs_fds st = (fs_fds (fc_st c))[p := Some t']" and k: "keeps {fd} (fdt (fc_st c) p) t'"
  shows "conf_inv (unopen (p, fd, f) c st)"
  using st claims_ok_unopen [OF conf_invD(2) [OF inv] x fds k] unfolding open_dec(2) [OF x] by (simp add: conf_inv_def unopen_def)

lemma same_table: "live st p \<Longrightarrow> fs_fds st' = fs_fds st \<Longrightarrow> fs_fds st' = (fs_fds st)[p := Some (fdt st p)]"
  by (metis list_update_id live_fdt)

lemma set_inv:
  assumes inv: "conf_inv c" and live: "live (fc_st c) p" and st: "fs_inv st (claims (fc_held c)) (\<lambda>f. 2 * claims (fc_open c) f)"
    and fds: "fs_fds st = (fs_fds (fc_st c))[p := Some t']" and k: "keeps {} (fdt (fc_st c) p) t'"
  shows "conf_inv (c\<lparr>fc_st := st\<rparr>)"
proof -
  note ok = conf_invD(2) [OF inv]
  have "distinct (map (\<lambda>(p, fd, f). (p, fd)) (fc_open c))" using ok by (simp add: claims_ok_def)
  with st claims_ok_update [OF ok live fds k subset_refl subset_refl] show ?thesis by (simp add: conf_inv_def)
qed

lemma run_put:
  assumes inv: "conf_inv c" and x: "(p, fd, f) \<in> set (fc_held c)"
  shows "runs (Call_put (p, fd, f)) c"
proof -
  obtain st where st: "FRELE f (fc_st c) = Inr st" "fs_inv st ((claims (fc_held c))(f := claims (fc_held c) f - 1)) (\<lambda>f. 2 * claims (fc_open c) f)"
      "fs_fds st = fs_fds (fc_st c)"
    using FRELE_inv [OF conf_invD(1) [OF inv] held_dec(1) [OF x]] by blast
  have "live (fc_st c) p" using claims_okD(1) [OF conf_invD(2) [OF inv] x] by simp
  from unhold_inv [OF inv x st(2) same_table [OF this st(3)] keeps_refl] st(1) show ?thesis by (simp add: runs_def fd_ret_def)
qed

lemma run_dup:
  assumes inv: "conf_inv c" and x: "(p, fd, f) \<in> set (fc_held c)" and lim: "lim \<le> 12800"
  shows "runs (Call_dup lim pledge (p, fd, f) want cloexec clofork) c"
proof -
  note ok = claims_okD(1) [OF conf_invD(2) [OF inv] x]
  have live: "live (fc_st c) p" and fd: "fd < fd_nfiles (fdt (fc_st c) p)" using ok by simp_all
  obtain r st where st: "dup_locked lim pledge p f fd want cloexec clofork (fc_st c) = Inr (r, st)"
      "fs_inv st ((claims (fc_held c))(f := claims (fc_held c) f - 1)) (\<lambda>f. 2 * claims (fc_open c) f)"
      "dup_post lim pledge p f fd want cloexec clofork (fc_st c) r st"
    using dup_locked_inv [OF conf_invD(1) [OF inv] live held_dec(1) [OF x] fd lim] by blast
  obtain t' where t': "fs_fds st = (fs_fds (fc_st c))[p := Some t']" "keeps {} (fdt (fc_st c) p) t'"
    using keeps_dup_post [OF fs_inv_tab [OF conf_invD(1) [OF inv] live] live st(3)] by blast
  from unhold_inv [OF inv x st(2) t'] st(1) show ?thesis by (simp add: runs_def fd_ret_def)
qed

lemma run_dup3:
  assumes inv: "conf_inv c" and x: "(p, fd, f) \<in> set (fc_held c)" and lim: "new < lim" "lim \<le> 12800"
  shows "runs (Call_dup3 lim pledge (p, fd, f) new cloexec clofork) c"
proof -
  note ok = claims_okD(1) [OF conf_invD(2) [OF inv] x]
  have live: "live (fc_st c) p" and fd: "fd < fd_nfiles (fdt (fc_st c) p)" using ok by simp_all
  obtain r st where st: "dup3_locked lim pledge p f fd new cloexec clofork (fc_st c) = Inr (r, st)"
      "fs_inv st ((claims (fc_held c))(f := claims (fc_held c) f - 1)) (\<lambda>f. 2 * claims (fc_open c) f)"
      "dup3_post lim p f fd new cloexec clofork (fc_st c) r st"
    using dup3_locked_inv [OF conf_invD(1) [OF inv] live held_dec(1) [OF x] fd lim] by blast
  obtain t' where t': "fs_fds st = (fs_fds (fc_st c))[p := Some t']" "keeps {} (fdt (fc_st c) p) t'"
    using keeps_dup3_post [OF fs_inv_tab [OF conf_invD(1) [OF inv] live] live st(3)] by blast
  from unhold_inv [OF inv x st(2) t'] st(1) show ?thesis by (simp add: runs_def fd_ret_def)
qed

lemma run_setfd:
  assumes inv: "conf_inv c" and x: "(p, fd, f) \<in> set (fc_held c)"
  shows "runs (Call_setfd (p, fd, f) arg) c"
proof -
  note ok = claims_okD(1) [OF conf_invD(2) [OF inv] x]
  have live: "live (fc_st c) p" and fd: "fd < fd_nfiles (fdt (fc_st c) p)" using ok by simp_all
  obtain st where st: "setfd_locked p fd arg (fc_st c) = Inr st" "fs_inv st (claims (fc_held c)) (\<lambda>f. 2 * claims (fc_open c) f)"
      "fs_fds st = (fs_fds (fc_st c))[p := Some (setfd_table arg fd (fdt (fc_st c) p))]"
    using setfd_locked_inv [OF conf_invD(1) [OF inv] live fd] by blast
  from set_inv [OF inv live st(2,3) keeps_frame(2)] st(1) show ?thesis by (simp add: runs_def fd_ret_def)
qed

lemma run_close:
  assumes inv: "conf_inv c" and live: "live (fc_st c) p"
  shows "runs (Call_close p fd) c"
proof (cases "fd_lookup (fdt (fc_st c) p) fd")
  case None
  with fdrelease_inv(1) [OF conf_invD(1) [OF inv] live] inv show ?thesis by (simp add: runs_def fd_ret_def sys_close_def)
next
  case (Some f)
  define t where "t = fdt (fc_st c) p"
  obtain st t' where st: "fdrelease p fd (fc_st c) = Inr (None, st)" "fs_inv st (claims (fc_held c)) (\<lambda>f. 2 * claims (fc_open c) f)"
      "fs_fds st = (fs_fds (fc_st c))[p := Some t']" "removed fd t t'"
    using fdrelease_inv(2) [OF conf_invD(1) [OF inv] live Some] unfolding t_def by blast
  have "keeps {} t t'"
    using Some by (intro keeps_weaken [OF keeps_removed [OF _ st(4)]]) (auto simp: reserved_def t_def fs_inv_tab [OF conf_invD(1) [OF inv] live])
  from set_inv [OF inv live st(2,3) this [unfolded t_def]] st(1) show ?thesis by (simp add: runs_def fd_ret_def sys_close_def)
qed

lemma run_falloc:
  assumes inv: "conf_inv c" and live: "live (fc_st c) p" and lim: "lim \<le> 12800" and a: "fs_file (fc_st c) a = None"
  shows "runs (Call_falloc lim maxfiles pledge p a) c"
proof -
  note i = conf_invD(1) [OF inv] and ok = conf_invD(2) [OF inv]
  define t where "t = fdt (fc_st c) p"
  obtain r st where r: "falloc lim maxfiles pledge p a (fc_st c) = Some (Inr (r, st))"
      "falloc_post lim maxfiles (claims (fc_held c)) (\<lambda>f. 2 * claims (fc_open c) f) p a (fc_st c) r st"
    using falloc_inv [OF i live lim a] by blast
  show ?thesis
  proof (cases r)
    case (Inl e)
    then obtain t' where t': "fs_fds st = (fs_fds (fc_st c))[p := Some t']" "fd_lookup t' = fd_lookup t" "used_fds t' = used_fds t"
        "fd_nfiles t \<le> fd_nfiles t'" "fs_inv st (claims (fc_held c)) (\<lambda>f. 2 * claims (fc_open c) f)"
      using r(2) by (auto simp: falloc_post_def Let_def t_def)
    then have "keeps {} (fdt (fc_st c) p) t'" by (simp add: keeps_def reserved_def t_def)
    from set_inv [OF inv live t'(5,1) this] r(1) Inl show ?thesis by (simp add: runs_def)
  next
    case (Inr n)
    then obtain t' where t': "fs_fds st = (fs_fds (fc_st c))[p := Some t']" "fd_lookup t' = fd_lookup t" "used_fds t' = insert n (used_fds t)" "n \<notin> used_fds t"
        "fd_nfiles t \<le> fd_nfiles t'" "fs_inv st (claims (fc_held c)) ((\<lambda>f. 2 * claims (fc_open c) f)(a := 2))"
      using r(2) by (auto simp: falloc_post_def Let_def t_def)
    have k: "keeps {} (fdt (fc_st c) p) t'" using t'(2,3,5) by (auto simp: keeps_def reserved_def t_def)
    have d: "distinct (map (\<lambda>(p, fd, f). (p, fd)) (fc_open c))" using ok by (simp add: claims_ok_def)
    have ok1: "claims_ok st (fc_held c) (fc_open c)" by (rule claims_ok_update [OF ok live t'(1) k subset_refl subset_refl d]) simp
    have "fd_lookup t n = None" using t'(4) lookup_used [OF fs_inv_tab [OF i live], of n] by (cases "fd_lookup t n") (auto simp: t_def)
    then have n: "n \<in> reserved t'" "n \<notin> reserved t" using t' by (simp_all add: reserved_def)
    have l: "live st p" "fdt st p = t'" using live t'(1) by (simp_all add: live_def fdt_def)
    have "(p, n) \<notin> (\<lambda>(p, fd, f). (p, fd)) ` set (fc_open c)" using n(2) ok by (auto simp: claims_ok_def t_def)
    then have "claims_ok st (fc_held c) ((p, n, a) # fc_open c)" using ok1 n(1) l by (simp add: claims_ok_def)
    moreover have "claims (fc_open c) a = 0" using fs_inv_dead [OF i a] by simp
    then have "(\<lambda>f. 2 * claims (fc_open c) f)(a := 2) = (\<lambda>f. 2 * claims ((p, n, a) # fc_open c) f)" by (auto simp: fun_eq_iff)
    ultimately show ?thesis using t'(6) r(1) Inr by (simp add: runs_def conf_inv_def)
  qed
qed

lemma run_open:
  assumes inv: "conf_inv c" and x: "(p, fd, f) \<in> set (fc_open c)"
  shows "runs (Call_finish (p, fd, f) flags flag type data) c" and "runs (Call_abort (p, fd, f)) c" and "runs (Call_dupfd sugid descfd dupfd (p, fd, f) mode) c"
proof -
  note i = conf_invD(1) [OF inv] and ok = claims_okD(2) [OF conf_invD(2) [OF inv] x] and two = open_dec(1) [OF x]
  have live: "live (fc_st c) p" and fd: "fd \<in> used_fds (fdt (fc_st c) p)" "fd_lookup (fdt (fc_st c) p) fd = None" using ok by simp_all
  note t = fs_inv_tab [OF i live]
  obtain st fl where st: "open_finish p fd flags f flag type data (fc_st c) = Inr st"
      "fs_inv st (claims (fc_held c)) ((\<lambda>f. 2 * claims (fc_open c) f)(f := 2 * claims (fc_open c) f - 2))"
      "fs_fds st = (fs_fds (fc_st c))[p := Some (fd_store fd (Some f) fl (fdt (fc_st c) p))]"
    using open_finish_inv [OF i live fd two] by blast
  from unopen_inv [OF inv x st(2,3) keeps_store [OF t]] st(1) show "runs (Call_finish (p, fd, f) flags flag type data) c"
    by (simp add: runs_def fd_ret_def)
  obtain st t' where st: "open_abort p fd f (fc_st c) = Inr st" "fs_fds st = (fs_fds (fc_st c))[p := Some t']" "removed fd (fdt (fc_st c) p) t'"
      "fs_inv st (claims (fc_held c)) ((\<lambda>f. 2 * claims (fc_open c) f)(f := 2 * claims (fc_open c) f - 2))"
    using open_abort_inv [OF i live fd two] by blast
  from unopen_inv [OF inv x st(4,2) keeps_removed [OF t st(3)]] st(1) show "runs (Call_abort (p, fd, f)) c" by (simp add: runs_def fd_ret_def)
  obtain r st where r: "open_dupfd sugid descfd dupfd p fd f mode (fc_st c) = Inr (r, st)"
      "fs_inv st (claims (fc_held c)) ((\<lambda>f. 2 * claims (fc_open c) f)(f := 2 * claims (fc_open c) f - 2))"
      "case r of None \<Rightarrow> dupfd_post dupfd p fd (fc_st c) r st | Some e \<Rightarrow> \<exists>t'. fs_fds st = (fs_fds (fc_st c))[p := Some t'] \<and> removed fd (fdt (fc_st c) p) t'"
    using open_dupfd_inv [OF i live fd two] by blast
  have "\<exists>t'. fs_fds st = (fs_fds (fc_st c))[p := Some t'] \<and> keeps {fd} (fdt (fc_st c) p) t'"
    using r(3) keeps_store [OF t] keeps_removed [OF t] by (cases r) (auto simp: dupfd_post_def)
  with unopen_inv [OF inv x r(2)] r(1) show "runs (Call_dupfd sugid descfd dupfd (p, fd, f) mode) c" by (auto simp: runs_def fd_ret_def)
qed

lemma claims_ok_cong:
  assumes ok: "claims_ok st hs ops" and same: "\<And>q fd f. (q, fd, f) \<in> set hs \<union> set ops \<Longrightarrow> live st q \<Longrightarrow> live st' q \<and> fdt st' q = fdt st q"
  shows "claims_ok st' hs ops"
proof -
  have "live st' q \<and> fd < fd_nfiles (fdt st' q)" if "(q, fd, f) \<in> set hs" for q fd f using claims_okD(1) [OF ok that] same [of q fd f] that by auto
  moreover have "live st' q \<and> fd \<in> reserved (fdt st' q)" if "(q, fd, f) \<in> set ops" for q fd f
    using claims_okD(2) [OF ok that] same [of q fd f] that by (auto simp: reserved_def)
  ultimately show ?thesis using ok by (auto simp: claims_ok_def)
qed

lemma run_exec:
  assumes inv: "conf_inv c" and live: "live (fc_st c) p"
  shows "runs (Call_exec p) c"
proof -
  obtain st where st: "fdprepforexec p (fc_st c) = Some (Inr st)" "walking (claims (fc_held c)) (\<lambda>f. 2 * claims (fc_open c) f) p (fc_st c) st"
      "exec_result (fdt (fc_st c) p) (fdt st p)" using fdprepforexec_returns [OF conf_invD(1) [OF inv] live] by blast
  have w: "fs_inv st (claims (fc_held c)) (\<lambda>f. 2 * claims (fc_open c) f)" "fs_fds st = (fs_fds (fc_st c))[p := Some (fdt st p)]"
    using st(2) by (simp_all add: walking_def)
  have "keeps {} (fdt (fc_st c) p) (fdt st p)" using st(3) keeps_closed unfolding exec_result_def by blast
  from set_inv [OF inv live w this] st(1) show ?thesis by (simp add: runs_def)
qed

lemma run_share:
  assumes inv: "conf_inv c" and live: "live (fc_st c) p"
  shows "runs (Call_share p) c"
proof -
  have "fs_fds (fdshare p (fc_st c)) = (fs_fds (fc_st c))[p := Some ((fdt (fc_st c) p)\<lparr>fd_refcnt := fd_refcnt (fdt (fc_st c) p) + 1\<rparr>)]"
    by (simp add: fdshare_def)
  from set_inv [OF inv live fdshare_inv [OF conf_invD(1) [OF inv] live] this keeps_frame(1)] show ?thesis by (simp add: runs_def fd_ret_def)
qed

lemma run_fork:
  assumes inv: "conf_inv c" and live: "live (fc_st c) p"
  shows "runs (Call_fork p) c"
proof -
  obtain st new where st: "fdcopy p (fc_st c) = Inr st" "fs_inv st (claims (fc_held c)) (\<lambda>f. 2 * claims (fc_open c) f)"
      "fs_fds st = fs_fds (fc_st c) @ [Some new]" using fdcopy_inv [OF conf_invD(1) [OF inv] live] by blast
  have "live st q \<and> fdt st q = fdt (fc_st c) q" if "live (fc_st c) q" for q
    using that st(3) by (simp add: live_def fdt_def nth_append)
  then have "claims_ok st (fc_held c) (fc_open c)" by (intro claims_ok_cong [OF conf_invD(2) [OF inv]]) blast
  with st(1,2) show ?thesis by (simp add: runs_def fd_ret_def conf_inv_def)
qed

lemma run_exit:
  assumes inv: "conf_inv c" and live: "live (fc_st c) p"
    and own: "fd_refcnt (fdt (fc_st c) p) > 1 \<or> (\<forall>(q, fd, f) \<in> set (fc_held c) \<union> set (fc_open c). q \<noteq> p)"
  shows "runs (Call_exit p) c"
proof -
  define t where "t = (if fd_refcnt (fdt (fc_st c) p) > 1 then Some ((fdt (fc_st c) p)\<lparr>fd_refcnt := fd_refcnt (fdt (fc_st c) p) - 1\<rparr>) else None)"
  obtain st where st: "fdfree p (fc_st c) = Inr st" "fs_inv st (claims (fc_held c)) (\<lambda>f. 2 * claims (fc_open c) f)"
      "fs_fds st = (fs_fds (fc_st c))[p := t]" using fdfree_inv [OF conf_invD(1) [OF inv] live] unfolding t_def by blast
  show ?thesis
  proof (cases "fd_refcnt (fdt (fc_st c) p) > 1")
    case True
    then have "fs_fds st = (fs_fds (fc_st c))[p := Some ((fdt (fc_st c) p)\<lparr>fd_refcnt := fd_refcnt (fdt (fc_st c) p) - 1\<rparr>)]" using st(3) by (simp add: t_def)
    from set_inv [OF inv live st(2) this keeps_frame(1)] st(1) show ?thesis by (simp add: runs_def fd_ret_def)
  next
    case False
    have "claims_ok st (fc_held c) (fc_open c)"
    proof (rule claims_ok_cong [OF conf_invD(2) [OF inv]])
      fix q fd f
      assume "(q, fd, f) \<in> set (fc_held c) \<union> set (fc_open c)" and "live (fc_st c) q"
      moreover from this have "q \<noteq> p" using own False by blast
      ultimately show "live st q \<and> fdt st q = fdt (fc_st c) q" using st(3) by (simp add: live_def fdt_def)
    qed
    with st(1,2) show ?thesis by (simp add: runs_def fd_ret_def conf_inv_def)
  qed
qed

lemma enabled_runs:
  assumes inv: "conf_inv c" and "fd_enabled call c"
  shows "runs call c"
  using assms
proof (cases call)
  case (Call_exit p)
  with assms run_exit [OF inv, of p] show ?thesis by simp
next
  case (Call_get p fd)
  with assms run_get [OF inv] show ?thesis by simp
next
  case (Call_put x)
  with assms run_put [OF inv] show ?thesis by (cases x) simp
next
  case (Call_dup lim pledge x want cloexec clofork)
  with assms run_dup [OF inv] show ?thesis by (cases x) simp
next
  case (Call_dup3 lim pledge x new cloexec clofork)
  with assms run_dup3 [OF inv] show ?thesis by (cases x) simp
next
  case (Call_setfd x arg)
  with assms run_setfd [OF inv] show ?thesis by (cases x) simp
next
  case (Call_close p fd)
  with assms run_close [OF inv] show ?thesis by simp
next
  case (Call_falloc lim maxfiles pledge p a)
  with assms run_falloc [OF inv] show ?thesis by simp
next
  case (Call_finish x flags flag type data)
  with assms run_open(1) [OF inv] show ?thesis by (cases x) simp
next
  case (Call_abort x)
  with assms run_open(2) [OF inv] show ?thesis by (cases x) simp
next
  case (Call_dupfd sugid descfd dupfd x mode)
  with assms run_open(3) [OF inv] show ?thesis by (cases x) simp
next
  case (Call_exec p)
  with assms run_exec [OF inv] show ?thesis by simp
next
  case (Call_share p)
  with assms run_share [OF inv] show ?thesis by simp
next
  case (Call_fork p)
  with assms run_fork [OF inv] show ?thesis by simp
qed

lemma boot_inv: "conf_inv fd_boot"
proof -
  have "tab_inv fdinit" using fdinit_inv by (simp add: tab_inv_def fd_ready_def) (simp add: fdinit_def kern_defs)
  moreover have "slots (fc_st fd_boot) f = 0" for f by (simp add: slots_def tab_slots_def fd_boot_def fdinit_def count_list_0_iff)
  ultimately show ?thesis by (simp add: conf_inv_def claims_ok_def fs_inv_def file_inv_def) (simp add: fd_boot_def)
qed

lemma fd_reach_inv: "fd_reach c \<Longrightarrow> conf_inv c"
proof (induction rule: fd_reach.induct)
  case (step c call c')
  then show ?case using enabled_runs [of c call] by (auto simp: runs_def)
qed (rule boot_inv)

section \<open>Runs\<close>

text \<open>Large bounds are compared as integers when a run is evaluated.\<close>

definition below_int :: "nat \<Rightarrow> int \<Rightarrow> bool" where
  "below_int n k \<longleftrightarrow> k \<le> int n"

lemma FDUP_MAX_code [code_unfold]: "FDUP_MAX_COUNT \<le> n \<longleftrightarrow> below_int n 4294966783"
  by (auto simp: below_int_def FDUP_MAX_COUNT_def)

lemma lim_code [code_unfold]: "n \<le> (12800 :: nat) \<longleftrightarrow> \<not> below_int n 12801"
  by (auto simp: below_int_def)

fun fd_trace :: "fd_call list \<Rightarrow> fd_conf \<Rightarrow> fd_conf option" where
  "fd_trace [] c = Some c"
| "fd_trace (call # calls) c =
     (if fd_enabled call c then (case fd_run call c of Some (Inr c') \<Rightarrow> fd_trace calls c' | _ \<Rightarrow> None) else None)"

lemma fd_trace_reach: "fd_reach c \<Longrightarrow> fd_trace calls c = Some c' \<Longrightarrow> fd_reach c'"
  by (induction calls arbitrary: c) (auto split: if_splits option.splits sum.splits intro: fd_reach.step)

text \<open>Two opens in one process, of which the second has finished; then a fork.\<close>

definition fork_trace :: "fd_call list" where
  "fork_trace =
     [Call_falloc 128 100 False 0 5, Call_falloc 128 100 False 0 6, Call_finish (0, 1, 6) 0 FREAD DTYPE_VNODE 9, Call_fork 0]"

definition fork_check :: "fd_conf \<Rightarrow> bool" where
  "fork_check c \<longleftrightarrow> live (fc_st c) 1 \<and> fd_inuse (fdt (fc_st c) 1) 0 = Inr False \<and>
     (case sys_dup 128 False 1 1 (fc_st c) of Some (Inr (r, _)) \<Rightarrow> r = Inr 2 | _ \<Rightarrow> False)"

lemma fork_run: "map_option fork_check (fd_trace fork_trace fd_boot) = Some True"
  by code_simp

text \<open>A child may not get the lowest free descriptor: \<^verbatim>\<open>fdcopy\<close> takes over \<^verbatim>\<open>fd_freefile\<close> although a descriptor that another thread has
  reserved for an open is not copied. There is a reachable state in which descriptor 0 of the child is free and \<^verbatim>\<open>dup\<close> returns 2.\<close>

theorem fork_hint_lost:
  "\<exists>c. fd_reach c \<and> live (fc_st c) 1 \<and> fd_inuse (fdt (fc_st c) 1) 0 = Inr False \<and>
     (\<exists>st'. sys_dup 128 False 1 1 (fc_st c) = Some (Inr (Inr 2, st')))"
proof -
  obtain c where c: "fd_trace fork_trace fd_boot = Some c" "fork_check c" using fork_run by auto
  have "fd_reach c" by (rule fd_trace_reach [OF fd_reach.boot c(1)])
  with c(2) show ?thesis by (auto simp: fork_check_def split: option.splits sum.splits)
qed

text \<open>A state with one open file, on descriptor 0.\<close>

definition open_check :: "fd_conf \<Rightarrow> bool" where
  "open_check c \<longleftrightarrow> live (fc_st c) 0 \<and> fd_lookup (fdt (fc_st c) 0) 0 = Some 5 \<and> fd_ofileflags (fdt (fc_st c) 0) ! 0 = UF_EXCLOSE \<and>
     fc_open c = [] \<and> map_option f_count (fs_file (fc_st c) 5) = Some 1 \<and> map_option f_type (fs_file (fc_st c) 5) = Some DTYPE_VNODE \<and>
     numfiles (fc_st c) = 1 \<and> fd_nfiles (fdt (fc_st c) 0) = 20 \<and> fc_held c = []"

definition open_trace :: "fd_call list" where
  "open_trace = [Call_falloc 128 100 False 0 5, Call_finish (0, 0, 5) UF_EXCLOSE FREAD DTYPE_VNODE 9]"

lemma open_run: "map_option open_check (fd_trace open_trace fd_boot) = Some True"
  by code_simp

lemma one_open: "\<exists>c. fd_reach c \<and> open_check c"
  using open_run fd_trace_reach [OF fd_reach.boot] by auto

section \<open>Properties\<close>

lemma used_inuse: "fd \<in> used_fds t \<Longrightarrow> fd_inuse t fd = Inr True"
  by (subst fd_inuse_eq) (auto simp: used_fds_def)

lemma fs_inv_refs:
  assumes "fs_inv st H G"
  shows "case fs_file st f of None \<Rightarrow> slots st f + H f + G f = 0 | Some fp \<Rightarrow> f_count fp = slots st f + H f + G f \<and> 0 < slots st f + H f + G f"
  using assms by (auto simp: fs_inv_def file_inv_def split: option.splits)

lemma fs_inv_lookup:
  assumes inv: "fs_inv st H G" and live: "live st p" and f: "fd_lookup (fdt st p) fd = Some f"
  shows "fd_inuse (fdt st p) fd = Inr True \<and> f \<in> set (fs_head st) \<and> (\<exists>fp. fs_file st f = Some fp \<and> f_ins fp)"
proof -
  have t: "tab_inv (fdt st p)" by (rule fs_inv_tab [OF inv live])
  have "f \<in> set (fs_head st)" using lookup_slots [OF live t f] inv by (simp add: fs_inv_def)
  moreover from this have "\<exists>fp. fs_file st f = Some fp \<and> f_ins fp" using inv by (auto simp: fs_inv_def file_inv_def)
  ultimately show ?thesis using used_inuse lookup_used [OF t f] by blast
qed

lemma boot_live: "live (fc_st fd_boot) 0"
  by (simp add: live_def fd_boot_def)



text \<open>C12: In every reachable state the reference count of an open file is the number of table entries that refer to it, plus the references of
  threads that looked it up, plus two for a file that is being opened; it is positive, and a file without references is freed. \<^verbatim>\<open>numfiles\<close>
  counts the files. A descriptor with a file is marked in the bitmap, its file is allocated and on the list of files, and \<^verbatim>\<open>fd_openfd\<close>
  counts the descriptors in use. A descriptor that is being opened is in use, has no file, and belongs to one open only.\<close>

theorem fd_refs_counted:
  assumes "fd_reach c"
  shows "(\<forall>f. let refs = slots (fc_st c) f + claims (fc_held c) f + 2 * claims (fc_open c) f in
       case fs_file (fc_st c) f of None \<Rightarrow> refs = 0 | Some fp \<Rightarrow> f_count fp = refs \<and> 0 < refs) \<and>
     numfiles (fc_st c) = card (dom (fs_file (fc_st c))) \<and>
     (\<forall>p fd f. live (fc_st c) p \<and> fd_lookup (fdt (fc_st c) p) fd = Some f \<longrightarrow>
        fd_inuse (fdt (fc_st c) p) fd = Inr True \<and> f \<in> set (fs_head (fc_st c)) \<and> (\<exists>fp. fs_file (fc_st c) f = Some fp \<and> f_ins fp)) \<and>
     (\<forall>p. live (fc_st c) p \<longrightarrow> fd_openfd (fdt (fc_st c) p) = int (card (used_fds (fdt (fc_st c) p)))) \<and>
     (\<forall>(p, fd, f) \<in> set (fc_open c). live (fc_st c) p \<and> fd_inuse (fdt (fc_st c) p) fd = Inr True \<and> fd_lookup (fdt (fc_st c) p) fd = None) \<and>
     distinct (map (\<lambda>(p, fd, f). (p, fd)) (fc_open c))"
proof (intro conjI allI impI)
  note i = conf_invD(1) [OF fd_reach_inv [OF assms]] and ok = conf_invD(2) [OF fd_reach_inv [OF assms]]
  show "let refs = slots (fc_st c) f + claims (fc_held c) f + 2 * claims (fc_open c) f in
       case fs_file (fc_st c) f of None \<Rightarrow> refs = 0 | Some fp \<Rightarrow> f_count fp = refs \<and> 0 < refs" for f
    using fs_inv_refs [OF i, of f] unfolding Let_def .
  show "numfiles (fc_st c) = card (dom (fs_file (fc_st c)))" using i by (simp add: fs_inv_def file_inv_def)
  show "fd_inuse (fdt (fc_st c) p) fd = Inr True" "f \<in> set (fs_head (fc_st c))" "\<exists>fp. fs_file (fc_st c) f = Some fp \<and> f_ins fp"
    if "live (fc_st c) p \<and> fd_lookup (fdt (fc_st c) p) fd = Some f" for p fd f
    using fs_inv_lookup [OF i] that by blast+
  show "fd_openfd (fdt (fc_st c) p) = int (card (used_fds (fdt (fc_st c) p)))" if "live (fc_st c) p" for p
    using fs_inv_tab [OF i that] by (simp add: tab_inv_def fd_ready_def fdmap_inv_eq)
  show "\<forall>(p, fd, f) \<in> set (fc_open c). live (fc_st c) p \<and> fd_inuse (fdt (fc_st c) p) fd = Inr True \<and> fd_lookup (fdt (fc_st c) p) fd = None"
    using claims_okD(2) [OF ok] used_inuse by blast
  show "distinct (map (\<lambda>(p, fd, f). (p, fd)) (fc_open c))" using ok by (simp add: claims_ok_def)
qed

theorem fd_refs_counted_witness:
  "\<exists>c. fd_reach c \<and> fd_lookup (fdt (fc_st c) 0) 0 = Some 5 \<and> 5 \<in> set (fs_head (fc_st c)) \<and> slots (fc_st c) 5 = 1"
proof -
  obtain c where c: "fd_reach c" "open_check c" using one_open by blast
  obtain fp where fp: "fs_file (fc_st c) 5 = Some fp" "f_count fp = 1" using c(2) by (auto simp: open_check_def)
  note r = fd_refs_counted [OF c(1)]
  have "f_count fp = slots (fc_st c) 5" using r fp(1) c(2) unfolding Let_def open_check_def by (auto dest!: spec [of _ 5])
  moreover have "5 \<in> set (fs_head (fc_st c))" using r c(2) unfolding open_check_def by blast
  ultimately show ?thesis using c fp(2) by (auto simp: open_check_def)
qed



text \<open>C15: \<^verbatim>\<open>fdcopy\<close> in a reachable state always succeeds, writes nothing outside the new table and appends a table with one user. The child's
  descriptors are exactly those with a file, except kqueues and those marked close-on-fork, with the same files and flags, unless a file
  is about to reach the largest reference count. Its bitmap has exactly these, and if no descriptor of the parent is reserved for an open,
  its hint for the lowest free descriptor is right when the parent's is.\<close>

theorem fdcopy_spec:
  assumes "fd_reach c" and "live (fc_st c) p" and "\<not> crowded (fc_st c) (fdt (fc_st c) p)"
  shows "\<exists>st' new. fdcopy p (fc_st c) = Inr st' \<and> fs_fds st' = fs_fds (fc_st c) @ [Some new] \<and> fd_refcnt new = 1 \<and>
     (\<forall>fd. fd_lookup new fd = (if inherits (fc_st c) (fdt (fc_st c) p) fd then fd_lookup (fdt (fc_st c) p) fd else None)) \<and>
     (\<forall>fd. inherits (fc_st c) (fdt (fc_st c) p) fd \<longrightarrow> fd_ofileflags new ! fd = fd_ofileflags (fdt (fc_st c) p) ! fd) \<and>
     used_fds new = {fd. inherits (fc_st c) (fdt (fc_st c) p) fd} \<and>
     (fd_hint (fdt (fc_st c) p) \<and> reserved (fdt (fc_st c) p) = {} \<longrightarrow> fd_hint new)"
proof -
  define t where "t = fdt (fc_st c) p"
  obtain st' new where n: "fdcopy p (fc_st c) = Inr st'" "fs_fds st' = fs_fds (fc_st c) @ [Some new]" "fdcopy_result (fc_st c) t new"
    using fdcopy_inv [OF conf_invD(1) [OF fd_reach_inv [OF assms(1)]] assms(2)] unfolding t_def by blast
  have iff: "fd_lookup new fd \<noteq> None \<longleftrightarrow> inherits (fc_st c) t fd" for fd using n(3) assms(3) unfolding fdcopy_result_def t_def by blast
  have "fd_lookup new fd = (if inherits (fc_st c) t fd then fd_lookup t fd else None)" for fd
    using n(3) iff [of fd] by (cases "inherits (fc_st c) t fd") (auto simp: fdcopy_result_def)
  moreover have "used_fds new = {fd. inherits (fc_st c) t fd}" using n(3) iff by (simp add: fdcopy_result_def)
  moreover have "fd_hint new" if "fd_hint t" "reserved t = {}"
  proof -
    have "\<forall>fd \<in> used_fds t. fd_lookup t fd \<noteq> None" using that(2) by (auto simp: reserved_def)
    with n(3) that(1) show ?thesis by (simp add: fdcopy_result_def)
  qed
  moreover have "fd_refcnt new = 1" "\<forall>fd. inherits (fc_st c) t fd \<longrightarrow> fd_ofileflags new ! fd = fd_ofileflags t ! fd"
    using n(3) iff unfolding fdcopy_result_def by blast+
  ultimately show ?thesis using n(1,2) unfolding t_def [symmetric] by blast
qed

lemma open_not_crowded:
  assumes "fd_reach c" and c: "open_check c"
  shows "\<not> crowded (fc_st c) (fdt (fc_st c) 0)"
proof -
  have "card (dom (fs_file (fc_st c))) = 1"
    using conf_invD(1) [OF fd_reach_inv [OF assms(1)]] c by (simp add: fs_inv_def file_inv_def open_check_def)
  then obtain g where g: "dom (fs_file (fc_st c)) = {g}" by (auto simp: card_1_singleton_iff)
  obtain fp where fp: "fs_file (fc_st c) 5 = Some fp" "f_count fp = 1" using c by (auto simp: open_check_def)
  have n: "fd_nfiles (fdt (fc_st c) 0) = 20" using c by (simp add: open_check_def)
  show ?thesis
  proof
    assume "crowded (fc_st c) (fdt (fc_st c) 0)"
    then obtain f fq where f: "fs_file (fc_st c) f = Some fq" "FDUP_MAX_COUNT \<le> f_count fq + 20" unfolding crowded_def n by blast
    then have "fq = fp" using g fp(1) by (metis domI option.inject singletonD)
    then show False using f(2) fp(2) by (simp add: FDUP_MAX_COUNT_def)
  qed
qed

theorem fdcopy_spec_witness:
  "\<exists>c st' new. fd_reach c \<and> fdcopy 0 (fc_st c) = Inr st' \<and> fs_fds st' = fs_fds (fc_st c) @ [Some new] \<and> fd_lookup new 0 = Some 5"
proof -
  obtain c where c: "fd_reach c" "open_check c" using one_open by blast
  then have o: "live (fc_st c) 0" "fd_lookup (fdt (fc_st c) 0) 0 = Some 5" "fd_ofileflags (fdt (fc_st c) 0) ! 0 = UF_EXCLOSE"
    "map_option f_type (fs_file (fc_st c) 5) = Some DTYPE_VNODE" by (simp_all add: open_check_def)
  have "inherits (fc_st c) (fdt (fc_st c) 0) 0" using o by (auto simp: inherits_def kern_defs)
  moreover have "\<not> crowded (fc_st c) (fdt (fc_st c) 0)" using open_not_crowded c by blast
  ultimately obtain st' new where "fdcopy 0 (fc_st c) = Inr st'" "fs_fds st' = fs_fds (fc_st c) @ [Some new]"
      and "\<forall>fd. fd_lookup new fd = (if inherits (fc_st c) (fdt (fc_st c) 0) fd then fd_lookup (fdt (fc_st c) 0) fd else None)"
    using fdcopy_spec [OF c(1) o(1)] by blast
  with c(1) o(2) \<open>inherits (fc_st c) (fdt (fc_st c) 0) 0\<close> show ?thesis by auto
qed

text \<open>\<^verbatim>\<open>fdprepforexec\<close> and \<^verbatim>\<open>closefrom\<close> in a reachable state return although their loops move the bound they run to. The first closes exactly
  the descriptors marked close-on-exec and clears the marks for pledge and close-on-fork of the others; the second closes exactly the
  descriptors from its argument on, or fails with \<^verbatim>\<open>EBADF\<close> when none is in use there. No other table changes.\<close>

theorem fd_closing_spec:
  assumes "fd_reach c" and "live (fc_st c) p"
  shows "(\<exists>st' t'. fdprepforexec p (fc_st c) = Some (Inr st') \<and> fs_fds st' = (fs_fds (fc_st c))[p := Some t'] \<and>
       closed_in (closes_on_exec (fdt (fc_st c) p)) (fdt (fc_st c) p) t' \<and>
       (\<forall>fd. fd_lookup t' fd \<noteq> None \<longrightarrow> fd_ofileflags t' ! fd = exec_flags (fd_ofileflags (fdt (fc_st c) p) ! fd))) \<and>
     (if start > fd_lastfile (fdt (fc_st c) p) then sys_closefrom p start (fc_st c) = Some (Inr (Some EBADF, fc_st c))
      else \<exists>st' t'. sys_closefrom p start (fc_st c) = Some (Inr (None, st')) \<and> fs_fds st' = (fs_fds (fc_st c))[p := Some t'] \<and>
        closed_in {start..} (fdt (fc_st c) p) t')"
proof
  note i = conf_invD(1) [OF fd_reach_inv [OF assms(1)]]
  show "\<exists>st' t'. fdprepforexec p (fc_st c) = Some (Inr st') \<and> fs_fds st' = (fs_fds (fc_st c))[p := Some t'] \<and>
       closed_in (closes_on_exec (fdt (fc_st c) p)) (fdt (fc_st c) p) t' \<and>
       (\<forall>fd. fd_lookup t' fd \<noteq> None \<longrightarrow> fd_ofileflags t' ! fd = exec_flags (fd_ofileflags (fdt (fc_st c) p) ! fd))"
    using fdprepforexec_returns [OF i assms(2)] unfolding walking_def exec_result_def by blast
  show "if start > fd_lastfile (fdt (fc_st c) p) then sys_closefrom p start (fc_st c) = Some (Inr (Some EBADF, fc_st c))
      else \<exists>st' t'. sys_closefrom p start (fc_st c) = Some (Inr (None, st')) \<and> fs_fds st' = (fs_fds (fc_st c))[p := Some t'] \<and>
        closed_in {start..} (fdt (fc_st c) p) t'"
    using closefrom_walk [OF i assms(2), of start] by (auto simp: sys_closefrom_def walking_def)
qed

theorem fd_closing_spec_witness:
  "\<exists>c st' t'. fd_reach c \<and> fd_lookup (fdt (fc_st c) 0) 0 = Some 5 \<and> fdprepforexec 0 (fc_st c) = Some (Inr st') \<and>
     fs_fds st' = (fs_fds (fc_st c))[0 := Some t'] \<and> fd_lookup t' 0 = None"
proof -
  obtain c where c: "fd_reach c" "live (fc_st c) 0" "fd_lookup (fdt (fc_st c) 0) 0 = Some 5" "fd_ofileflags (fdt (fc_st c) 0) ! 0 = UF_EXCLOSE"
    using one_open unfolding open_check_def by blast
  have "0 \<in> closes_on_exec (fdt (fc_st c) 0)" using c(4) by (simp add: closes_on_exec_def kern_defs)
  with fd_closing_spec [OF c(1,2), of 0] c(1,3) show ?thesis unfolding closed_in_def by metis
qed

text \<open>After \<^verbatim>\<open>F_SETFD\<close> on an open descriptor of a reachable state, \<^verbatim>\<open>F_GETFD\<close> returns the bits \<^verbatim>\<open>FD_CLOEXEC\<close> and \<^verbatim>\<open>FD_CLOFORK\<close> of the
  argument, whatever the other flags of the descriptor are, and neither call changes another flag or a table entry; on a descriptor that
  is not open both fail with \<^verbatim>\<open>EBADF\<close>.\<close>

theorem setfd_getfd:
  assumes "fd_reach c" and "live (fc_st c) p"
  shows "\<exists>r st'. fcntl_setfd p fd arg (fc_st c) = Inr (r, st') \<and>
     (\<exists>st''. fcntl_getfd p fd st' = Inr (if fd_lookup (fdt (fc_st c) p) fd = None then Inl EBADF else Inr (arg AND (FD_CLOEXEC OR FD_CLOFORK)), st'') \<and>
        fs_fds st'' = fs_fds st') \<and>
     r = (if fd_lookup (fdt (fc_st c) p) fd = None then Some EBADF else None) \<and>
     (\<exists>t'. fs_fds st' = (fs_fds (fc_st c))[p := Some t'] \<and> fd_ofiles t' = fd_ofiles (fdt (fc_st c) p) \<and>
        (\<forall>k < fd_nfiles (fdt (fc_st c) p). k \<noteq> fd \<longrightarrow> fd_ofileflags t' ! k = fd_ofileflags (fdt (fc_st c) p) ! k))"
proof -
  note i = conf_invD(1) [OF fd_reach_inv [OF assms(1)]]
  define t where "t = fdt (fc_st c) p"
  show ?thesis
  proof (cases "fd_lookup t fd")
    case None
    then have "fcntl_setfd p fd arg (fc_st c) = Inr (Some EBADF, fc_st c)" using fcntl_setfd_inv(1) [OF i assms(2)] by (simp add: t_def)
    with None fcntl_getfd_inv [OF i assms(2), of fd] same_table [OF assms(2) refl] show ?thesis by (auto simp: t_def)
  next
    case (Some f)
    then obtain st' where st': "fcntl_setfd p fd arg (fc_st c) = Inr (None, st')" "fs_inv st' (claims (fc_held c)) (\<lambda>f. 2 * claims (fc_open c) f)"
        "fs_fds st' = (fs_fds (fc_st c))[p := Some (setfd_table arg fd t)]"
      using fcntl_setfd_inv(2) [OF i assms(2), of fd f arg] by (auto simp: t_def)
    have l: "live st' p" "fdt st' p = setfd_table arg fd t" using st'(3) assms(2) by (simp_all add: live_def fdt_def)
    have tt: "tab_inv t" unfolding t_def by (rule fs_inv_tab [OF i assms(2)])
    have "fd < fd_nfiles t" using lookup_used [OF tt Some] by simp
    then have fl: "fd_ofileflags (setfd_table arg fd t) ! fd = setfd_flags arg (fd_ofileflags t ! fd)" "fd_lookup (setfd_table arg fd t) fd = Some f"
      using tab_inv_len [OF tt] Some by (simp_all add: setfd_table_def fd_lookup_def)
    obtain st'' where "fcntl_getfd p fd st' = Inr (Inr (arg AND (FD_CLOEXEC OR FD_CLOFORK)), st'')" "fs_fds st'' = fs_fds st'"
      using fcntl_getfd_inv [OF st'(2) l(1), of fd] unfolding l(2) fl by (auto simp: getfd_setfd)
    with st' Some show ?thesis by (auto simp: t_def setfd_table_def)
  qed
qed

theorem setfd_getfd_witness:
  "\<exists>c st' st''. fd_reach c \<and> fcntl_setfd 0 0 4 (fc_st c) = Inr (None, st') \<and> fcntl_getfd 0 0 st' = Inr (Inr 4, st'')"
proof -
  obtain c where c: "fd_reach c" "live (fc_st c) 0" "fd_lookup (fdt (fc_st c) 0) 0 = Some 5"
    using one_open unfolding open_check_def by blast
  have "(4 :: u32) AND (FD_CLOEXEC OR FD_CLOFORK) = 4" by (simp add: kern_defs)
  with setfd_getfd [OF c(1,2), of 0 4] c(1,3) show ?thesis by fastforce
qed

end
