(* ===== verification/Kern_Bits.thy ===== *)
theory Kern_Bits
  imports Kern_Prelude
begin

text \<open>
  The bitmap macros of \<^verbatim>\<open>sys/param.h\<close> on byte arrays (\<^verbatim>\<open>setbit\<close>, \<^verbatim>\<open>clrbit\<close>, \<^verbatim>\<open>isset\<close>) and
  \<^verbatim>\<open>clrbits\<close> of \<^verbatim>\<open>kern/tty_subr.c\<close>, which clears a range with whole-byte stores and two masks.
\<close>

definition NBBY :: nat where
  "NBBY = 8"

definition setbit :: "bytes \<Rightarrow> nat \<Rightarrow> bytes" where
  "setbit a i = a[i div 8 := a ! (i div 8) OR push_bit (i mod NBBY) 1]"

definition clrbit :: "bytes \<Rightarrow> nat \<Rightarrow> bytes" where
  "clrbit a i = a[i div 8 := a ! (i div 8) AND NOT (push_bit (i mod NBBY) 1)]"

definition isset :: "bytes \<Rightarrow> nat \<Rightarrow> bool" where
  "isset a i \<longleftrightarrow> a ! (i div 8) AND push_bit (i mod NBBY) 1 \<noteq> 0"

text \<open>
  \<^verbatim>\<open>clrbits(cp, off, len)\<close>. \<open>mask\<close> is a \<^verbatim>\<open>u_char\<close>; the loop \<^verbatim>\<open>for (i = sby; i < eby; i++)\<close> is the fold.
\<close>

definition clrbits :: "bytes \<Rightarrow> nat \<Rightarrow> nat \<Rightarrow> bytes" where
  "clrbits cp off len =
     (if len = 1 then clrbit cp off
      else
        (let sby = off div NBBY; sbi = off mod NBBY;
             eby = (off + len) div NBBY; ebi = (off + len) mod NBBY
         in if sby = eby then
              (let mask = push_bit sbi (push_bit (ebi - sbi) 1 - 1)
               in cp[sby := cp ! sby AND NOT mask])
            else
              (let mask = push_bit sbi 1 - 1;
                   cp1 = cp[sby := cp ! sby AND mask];
                   cp2 = fold (\<lambda>i c. c[i := 0]) [sby + 1..<eby] cp1;
                   mask2 = push_bit ebi 1 - 1
               in if mask2 \<noteq> 0 then cp2[eby := cp2 ! eby AND NOT mask2] else cp2)))"

section \<open>Bits\<close>

lemma isset_bit: "isset a i = bit (a ! (i div 8)) (i mod 8)"
  by (simp add: isset_def NBBY_def push_bit_of_1 and_exp_eq_0_iff_not_bit)

lemma length_bits [simp]: "length (setbit a i) = length a" "length (clrbit a i) = length a"
  by (simp_all add: setbit_def clrbit_def)

lemma isset_setbit:
  assumes "i < 8 * length a" "j < 8 * length a"
  shows "isset (setbit a i) j = (j = i \<or> isset a j)"
proof (cases "i div 8 = j div 8")
  case True
  have "j = i \<longleftrightarrow> j mod 8 = i mod 8" using True by (metis div_mod_decomp)
  with True assms show ?thesis
    by (auto simp: isset_bit setbit_def NBBY_def bit_simps nth_list_update)
next
  case False
  then show ?thesis by (auto simp: isset_bit setbit_def)
qed

lemma isset_clrbit:
  assumes "i < 8 * length a" "j < 8 * length a"
  shows "isset (clrbit a i) j = (j \<noteq> i \<and> isset a j)"
proof (cases "i div 8 = j div 8")
  case True
  have "j = i \<longleftrightarrow> j mod 8 = i mod 8" using True by (metis div_mod_decomp)
  with True assms show ?thesis
    by (auto simp: isset_bit clrbit_def NBBY_def bit_simps nth_list_update)
next
  case False
  then show ?thesis by (auto simp: isset_bit clrbit_def)
qed

lemma nth_zero_bytes:
  "j < length c \<Longrightarrow> fold (\<lambda>i c. c[i := (0 :: u8)]) is c ! j = (if j \<in> set is then 0 else c ! j)"
  by (induction "is" arbitrary: c) auto

lemma length_zero_bytes [simp]: "length (fold (\<lambda>i c. c[i := (0 :: u8)]) is c) = length c"
  by (induction "is" arbitrary: c) auto

lemma length_clrbits [simp]: "length (clrbits cp off len) = length cp"
  by (simp add: clrbits_def Let_def)

text \<open>The low mask \<^verbatim>\<open>(1 << n) - 1\<close>.\<close>

lemma bit_low_mask: "k < 8 \<Longrightarrow> bit (push_bit n 1 - 1 :: u8) k = (k < n)"
  by (simp add: push_bit_of_1 mask_eq_exp_minus_1 [symmetric] bit_simps)

lemma bit_low_mask_exp: "k < 8 \<Longrightarrow> bit (2 ^ n - 1 :: u8) k = (k < n)"
  using bit_low_mask [of k n] by (simp add: push_bit_of_1)

lemma low_mask_0: "n < 8 \<Longrightarrow> (push_bit n 1 - 1 :: u8) = 0 \<longleftrightarrow> n = 0"
  using bit_low_mask [of 0 n] by auto

lemma byte_pos_le: "x < 8 \<Longrightarrow> y < 8 \<Longrightarrow> (8 * a + x \<le> 8 * b + y) = (a < b \<or> a = b \<and> x \<le> (y :: nat))"
  by linarith

lemma byte_pos_less: "x < 8 \<Longrightarrow> y < 8 \<Longrightarrow> (8 * a + x < 8 * b + y) = (a < b \<or> a = b \<and> x < (y :: nat))"
  by linarith

lemma isset_clrbits:
  assumes "off + len \<le> 8 * length cp" and "j < 8 * length cp"
  shows "isset (clrbits cp off len) j = (isset cp j \<and> \<not> (off \<le> j \<and> j < off + len))"
proof (cases "len = 1")
  case True
  with assms show ?thesis by (auto simp: clrbits_def isset_clrbit)
next
  case False
  define b t where "b = j div 8" and "t = j mod 8"
  have j: "j = 8 * b + t" "t < 8" "b < length cp" using assms(2) by (auto simp: b_def t_def)
  define sby sbi eby ebi where e: "sby = off div 8" "sbi = off mod 8" "eby = (off + len) div 8" "ebi = (off + len) mod 8"
  have off: "off = 8 * sby + sbi" "off + len = 8 * eby + ebi" "sbi < 8" "ebi < 8" by (auto simp: e)
  have le: "sby \<le> eby" by (simp add: e div_le_mono)
  have dm: "j div 8 = b" "j mod 8 = t" by (simp_all add: b_def t_def)
  show ?thesis
  proof (cases "sby = eby")
    case same: True
    have "isset (clrbits cp off len) j =
        bit (if b = sby then cp ! b AND NOT (push_bit sbi (push_bit (ebi - sbi) 1 - 1)) else cp ! b) t"
      using False same j by (simp add: clrbits_def NBBY_def e [symmetric] isset_bit dm nth_list_update)
    also have "\<dots> = (bit (cp ! b) t \<and> \<not> (b = sby \<and> sbi \<le> t \<and> t - sbi < ebi - sbi))"
      using j by (auto simp: bit_simps bit_low_mask_exp)
    also have "(b = sby \<and> sbi \<le> t \<and> t - sbi < ebi - sbi) = (off \<le> j \<and> j < off + len)"
      unfolding off(2) unfolding j(1) off(1) using j(2) off(3,4) same by (auto simp: byte_pos_le byte_pos_less)
    finally show ?thesis by (simp add: isset_bit dm)
  next
    case diff: False
    define cp2 where "cp2 = fold (\<lambda>i c. c[i := 0]) [sby + 1..<eby] (cp[sby := cp ! sby AND (push_bit sbi 1 - 1)])"
    have cp2: "cp2 ! b = (if sby < b \<and> b < eby then 0 else if b = sby then cp ! b AND (push_bit sbi 1 - 1) else cp ! b)"
      using j by (auto simp: cp2_def nth_zero_bytes nth_list_update)
    have len2: "length cp2 = length cp" by (simp add: cp2_def)
    have eq: "clrbits cp off len = (if ebi \<noteq> 0 then cp2[eby := cp2 ! eby AND NOT (push_bit ebi 1 - 1)] else cp2)"
      unfolding clrbits_def Let_def NBBY_def e [symmetric] cp2_def [symmetric]
      using False diff low_mask_0 [OF off(4)] by simp
    have "isset (clrbits cp off len) j =
        bit (if ebi \<noteq> 0 \<and> b = eby then cp2 ! b AND NOT (push_bit ebi 1 - 1) else cp2 ! b) t"
      using j len2 by (simp only: eq isset_bit dm split: if_split) (auto simp: nth_list_update)
    also have "\<dots> = (bit (cp ! b) t \<and> \<not> (off \<le> j \<and> j < off + len))"
      unfolding off(2) using cp2 j off(1,3,4) diff le by (auto simp: bit_simps bit_low_mask_exp)
    finally show ?thesis by (simp add: isset_bit dm)
  qed
qed

lemma isset_fold_clrbit:
  "off + n \<le> 8 * length cp \<Longrightarrow> j < 8 * length cp \<Longrightarrow>
   isset (fold (\<lambda>i c. clrbit c (off + i)) [0..<n] cp) j = (isset cp j \<and> \<not> (off \<le> j \<and> j < off + n)) \<and>
   length (fold (\<lambda>i c. clrbit c (off + i)) [0..<n] cp) = length cp"
  by (induction n) (auto simp: isset_clrbit)

lemma bitmap_eqI:
  assumes "length a = length b" and "\<And>j. j < 8 * length a \<Longrightarrow> isset a j = isset b j"
  shows "a = b"
proof (rule nth_equalityI [OF assms(1)])
  fix i assume i: "i < length a"
  show "a ! i = b ! i"
  proof (rule bit_word_eqI)
    fix n assume "n < LENGTH(8)"
    with assms(2) [of "8 * i + n"] i show "bit (a ! i) n = bit (b ! i) n" by (simp add: isset_bit)
  qed
qed

text \<open>The optimised \<^verbatim>\<open>clrbits\<close>, with its two masks and its byte stores, does what its comment says: it is
  \<^verbatim>\<open>for (i = 0; i < len; i++) clrbit(cp, off + i)\<close> for every range inside the bitmap.\<close>

theorem clrbits_eq_loop:
  assumes "off + len \<le> 8 * length cp"
  shows "clrbits cp off len = fold (\<lambda>i c. clrbit c (off + i)) [0..<len] cp"
proof (rule bitmap_eqI)
  show "length (clrbits cp off len) = length (fold (\<lambda>i c. clrbit c (off + i)) [0..<len] cp)"
    by (induction len) simp_all
qed (simp add: isset_clrbits isset_fold_clrbit assms)

theorem clrbits_eq_loop_witness:
  "(5 :: nat) + 13 \<le> 8 * length [0xff, 0xff, 0xff :: u8] \<and>
   clrbits [0xff, 0xff, 0xff] 5 13 = fold (\<lambda>i c. clrbit c (5 + i)) [0..<13] [0xff, 0xff, 0xff] \<and>
   clrbits [0xff, 0xff, 0xff] 5 13 = [0x1f, 0, 0xfc]"
proof -
  have "clrbits [0xff, 0xff, 0xff] 5 13 = [0x1f, 0, 0xfc]" by code_simp
  then show ?thesis using clrbits_eq_loop [of 5 13 "[0xff, 0xff, 0xff]"] by simp
qed

end
