(* ===== verification/Tty_Subr.thy ===== *)
theory Tty_Subr
  imports Kern_Bits
begin

text \<open>
  The character queues of the tty layer, \<^verbatim>\<open>kern/tty_subr.c\<close>: a ring buffer with an optional bitmap of
  quoted characters. Pointers into the ring are offsets from \<^verbatim>\<open>c_cs\<close>, \<open>None\<close> for NULL; the counts are
  \<open>nat\<close> (the code never makes them negative, and a negative argument behaves as 0). Every operation
  returns \<open>None\<close> where the code would panic or follow a NULL pointer. The copy loops take a contiguous
  piece per turn; nothing in their text bounds the number of turns, so they are partial functions and
  the theorems show that they return.

  The abstract value of a queue is the list of its characters with their quote marks, and each
  operation is characterised by what it does to that list.
\<close>

section \<open>State\<close>

record clist =
  c_cc :: nat
  c_cn :: nat
  c_cf :: "nat option"
  c_cl :: "nat option"
  c_cs :: "bytes option"
  c_ce :: nat
  c_cq :: "bytes option"

definition QMEM :: "nat \<Rightarrow> nat" where
  "QMEM n = (n - 1) div NBBY + 1"

definition TTY_QUOTE :: int where
  "TTY_QUOTE = 0x100"

definition clalloc :: "nat \<Rightarrow> bool \<Rightarrow> clist" where
  "clalloc sz quot =
     \<lparr>c_cc = 0, c_cn = sz, c_cf = None, c_cl = None, c_cs = Some (replicate sz 0), c_ce = sz,
      c_cq = (if quot then Some (replicate (QMEM sz) 0) else None)\<rparr>"

definition clfree :: "clist \<Rightarrow> clist" where
  "clfree clp = clp\<lparr>c_cs := None, c_cq := None\<rparr>"

section \<open>Operations\<close>

text \<open>The character at an offset, as the code assembles it: the byte, and \<^verbatim>\<open>TTY_QUOTE\<close> if its bit is set.\<close>

definition quote_char :: "bytes option \<Rightarrow> bytes \<Rightarrow> nat \<Rightarrow> int" where
  "quote_char cq cs i =
     (case cq of
        None \<Rightarrow> uint (cs ! i)
      | Some q \<Rightarrow> if isset q i then uint (cs ! i) OR TTY_QUOTE else uint (cs ! i))"

definition getc :: "clist \<Rightarrow> (int \<times> clist) option" where
  "getc clp =
     (if c_cc clp = 0 then Some (- 1, clp)
      else case (c_cs clp, c_cf clp) of
        (Some cs, Some cf) \<Rightarrow>
          (let c = quote_char (c_cq clp) cs cf;
               clp1 = clp\<lparr>c_cs := Some (cs[cf := 0]), c_cq := map_option (\<lambda>q. clrbit q cf) (c_cq clp),
                          c_cf := Some (if cf + 1 = c_ce clp then 0 else cf + 1), c_cc := c_cc clp - 1\<rparr>
           in Some (c, if c_cc clp1 = 0 then clp1\<lparr>c_cf := None, c_cl := None\<rparr> else clp1))
      | _ \<Rightarrow> None)"

partial_function (option) q_to_b_loop :: "clist \<Rightarrow> bytes \<Rightarrow> nat \<Rightarrow> (bytes \<times> clist) option" where
  "q_to_b_loop clp p count =
     (if count > 0 \<and> c_cc clp > 0 then
        (case c_cs clp of
           None \<Rightarrow> None
         | Some cs \<Rightarrow>
           (case c_cf clp of
              None \<Rightarrow> None
            | Some cf \<Rightarrow>
              (case c_cl clp of
                 None \<Rightarrow> None
               | Some cl \<Rightarrow>
                 (let cc0 = (if cf \<ge> cl then c_ce clp - cf else cl - cf);
                      cc = (if cc0 > count then count else cc0)
                  in q_to_b_loop
                       (clp\<lparr>c_cs := Some (mem_write cf (replicate cc 0) cs),
                            c_cq := map_option (\<lambda>q. clrbits q cf cc) (c_cq clp),
                            c_cc := c_cc clp - cc,
                            c_cf := Some (if cf + cc = c_ce clp then 0 else cf + cc)\<rparr>)
                       (p @ take cc (drop cf cs)) (count - cc)))))
      else Some (p, clp))"

text \<open>The bytes stored in the caller's buffer and the new queue; the code returns their number.\<close>

definition q_to_b :: "clist \<Rightarrow> nat \<Rightarrow> (bytes \<times> clist) option" where
  "q_to_b clp count =
     map_option (\<lambda>(p, clp'). (p, if c_cc clp' = 0 then clp'\<lparr>c_cf := None, c_cl := None\<rparr> else clp'))
       (q_to_b_loop clp [] count)"

text \<open>
  The two loops of \<^verbatim>\<open>ndqb\<close>. In the first the quote bit is tested after \<^verbatim>\<open>i++\<close>, as in the code.
\<close>

fun ndqb_quote :: "bytes \<Rightarrow> bytes \<Rightarrow> nat \<Rightarrow> u8 \<Rightarrow> nat \<Rightarrow> nat \<Rightarrow> nat \<Rightarrow> nat" where
  "ndqb_quote cs cq cn flag 0 i count = count"
| "ndqb_quote cs cq cn flag (Suc cc) i count =
     (if cs ! i AND flag \<noteq> 0 \<or> isset cq (i + 1) then count
      else if i + 1 = cn then count + 1
      else ndqb_quote cs cq cn flag cc (i + 1) (count + 1))"

fun ndqb_plain :: "bytes \<Rightarrow> nat \<Rightarrow> u8 \<Rightarrow> nat \<Rightarrow> nat \<Rightarrow> nat \<Rightarrow> nat" where
  "ndqb_plain cs cn flag 0 i count = count"
| "ndqb_plain cs cn flag (Suc cc) i count =
     (if cs ! i AND flag \<noteq> 0 then count
      else if i + 1 = cn then count + 1
      else ndqb_plain cs cn flag cc (i + 1) (count + 1))"

definition ndqb :: "clist \<Rightarrow> int \<Rightarrow> nat option" where
  "ndqb clp flag =
     (if c_cc clp = 0 then Some 0
      else case (c_cs clp, c_cf clp, c_cl clp) of
        (Some cs, Some cf, Some cl) \<Rightarrow>
          if flag = 0 then Some (if cl \<le> cf then c_ce clp - cf else cl - cf)
          else if bit flag 8 then
            map_option (\<lambda>cq. ndqb_quote cs cq (c_cn clp) (word_of_int flag) (c_cc clp) cf 0) (c_cq clp)
          else Some (ndqb_plain cs (c_cn clp) (word_of_int flag) (c_cc clp) cf 0)
      | _ \<Rightarrow> None)"

partial_function (option) ndflush_loop :: "clist \<Rightarrow> nat \<Rightarrow> clist option" where
  "ndflush_loop clp count =
     (if count > 0 \<and> c_cc clp > 0 then
        (case c_cf clp of
           None \<Rightarrow> None
         | Some cf \<Rightarrow>
           (case c_cl clp of
              None \<Rightarrow> None
            | Some cl \<Rightarrow>
              (let cc0 = (if cf \<ge> cl then c_ce clp - cf else cl - cf);
                   cc = (if cc0 > count then count else cc0)
               in ndflush_loop
                    (clp\<lparr>c_cc := c_cc clp - cc, c_cf := Some (if cf + cc = c_ce clp then 0 else cf + cc)\<rparr>)
                    (count - cc))))
      else Some clp)"

definition ndflush :: "clist \<Rightarrow> nat \<Rightarrow> clist option" where
  "ndflush clp count =
     (if count = c_cc clp then Some (clp\<lparr>c_cc := 0, c_cf := None, c_cl := None\<rparr>)
      else map_option (\<lambda>clp'. if c_cc clp' = 0 then clp'\<lparr>c_cf := None, c_cl := None\<rparr> else clp')
             (ndflush_loop clp count))"

text \<open>\<^verbatim>\<open>putc\<close>: the result is whether it failed (\<^verbatim>\<open>-1\<close>), and the queue.\<close>

definition putc :: "int \<Rightarrow> clist \<Rightarrow> (int \<times> clist) option" where
  "putc c clp =
     (if c_cc clp = c_cn clp then Some (- 1, clp)
      else
        (let clp0 = (if c_cc clp = 0 then clp\<lparr>c_cf := Some 0, c_cl := Some 0\<rparr> else clp)
         in case (c_cs clp, c_cl clp0) of
              (Some cs, Some cl) \<Rightarrow>
                Some (0, clp0\<lparr>c_cs := Some (cs[cl := word_of_int c]),
                              c_cq := map_option (\<lambda>q. if bit c 8 then setbit q cl else clrbit q cl) (c_cq clp),
                              c_cc := c_cc clp + 1,
                              c_cl := Some (if cl + 1 = c_ce clp then 0 else cl + 1)\<rparr>)
            | _ \<Rightarrow> None))"

partial_function (option) b_to_q_loop :: "bytes \<Rightarrow> clist \<Rightarrow> (bytes \<times> clist) option" where
  "b_to_q_loop p clp =
     (if p \<noteq> [] \<and> c_cc clp < c_cn clp then
        (case c_cs clp of
           None \<Rightarrow> None
         | Some cs \<Rightarrow>
           (case c_cf clp of
              None \<Rightarrow> None
            | Some cf \<Rightarrow>
              (case c_cl clp of
                 None \<Rightarrow> None
               | Some cl \<Rightarrow>
                 (let cc0 = (if cf > cl then cf - cl else c_ce clp - cl);
                      cc = (if cc0 > length p then length p else cc0)
                  in b_to_q_loop (drop cc p)
                       (clp\<lparr>c_cs := Some (mem_write cl (take cc p) cs),
                            c_cq := map_option (\<lambda>q. clrbits q cl cc) (c_cq clp),
                            c_cc := c_cc clp + cc,
                            c_cl := Some (if cl + cc = c_ce clp then 0 else cl + cc)\<rparr>)))))
      else Some (p, clp))"

text \<open>\<^verbatim>\<open>b_to_q\<close>: the bytes not transferred, and the queue.\<close>

definition b_to_q :: "bytes \<Rightarrow> clist \<Rightarrow> (bytes \<times> clist) option" where
  "b_to_q cp clp =
     (if cp = [] then Some (cp, clp)
      else if c_cc clp = c_cn clp then Some (cp, clp)
      else if c_cc clp = 0 \<and> c_cs clp = None then None
      else b_to_q_loop cp (if c_cc clp = 0 then clp\<lparr>c_cf := Some 0, c_cl := Some 0\<rparr> else clp))"

text \<open>
  The iterator: \<^verbatim>\<open>firstc\<close> and \<^verbatim>\<open>nextc\<close> return the pointer and set \<^verbatim>\<open>*c\<close> and \<^verbatim>\<open>*ccp\<close>.
\<close>

definition firstc :: "clist \<Rightarrow> int \<Rightarrow> (nat option \<times> int \<times> nat) option" where
  "firstc clp c =
     (if c_cc clp = 0 then Some (None, c, 0)
      else case (c_cs clp, c_cf clp) of
        (Some cs, Some cf) \<Rightarrow> Some (Some cf, quote_char (c_cq clp) cs cf, c_cc clp)
      | _ \<Rightarrow> None)"

definition nextc :: "clist \<Rightarrow> nat option \<Rightarrow> int \<Rightarrow> nat \<Rightarrow> (nat option \<times> int \<times> nat) option" where
  "nextc clp cp c cc =
     (let cc1 = (if c_cf clp = cp then c_cc clp else cc)
      in if cc1 = 0 then Some (None, c, cc1)
         else case cp of
           None \<Rightarrow> Some (None, c, cc1)
         | Some p \<Rightarrow>
             if cc1 - 1 = 0 then Some (None, c, 0)
             else
               (let p' = (if p + 1 = c_ce clp then 0 else p + 1)
                in map_option (\<lambda>cs. (Some p', quote_char (c_cq clp) cs p', cc1 - 1)) (c_cs clp)))"

definition unputc :: "clist \<Rightarrow> (int \<times> clist) option" where
  "unputc clp =
     (if c_cc clp = 0 then Some (- 1, clp)
      else case (c_cs clp, c_cl clp) of
        (Some cs, Some cl0) \<Rightarrow>
          (let cl = (if cl0 = 0 then c_ce clp - 1 else cl0 - 1);
               c = quote_char (c_cq clp) cs cl;
               clp1 = clp\<lparr>c_cl := Some cl, c_cc := c_cc clp - 1, c_cs := Some (cs[cl := 0]),
                          c_cq := map_option (\<lambda>q. clrbit q cl) (c_cq clp)\<rparr>
           in Some (c, if c_cc clp1 = 0 then clp1\<lparr>c_cf := None, c_cl := None\<rparr> else clp1))
      | _ \<Rightarrow> None)"

partial_function (option) catq_loop :: "clist \<Rightarrow> clist \<Rightarrow> (clist \<times> clist) option" where
  "catq_loop from to =
     (case getc from of
        None \<Rightarrow> None
      | Some (c, from') \<Rightarrow>
          if c = - 1 then Some (from', to)
          else
            (case putc c to of
               None \<Rightarrow> None
             | Some (r, to') \<Rightarrow> catq_loop from' to'))"

definition catq :: "clist \<Rightarrow> clist \<Rightarrow> (clist \<times> clist) option" where
  "catq from to =
     (if c_cc from = 0 then Some (from, to)
      else if c_cc to = 0 \<and> c_cn from = c_cn to then Some (to, from)
      else catq_loop from to)"

section \<open>Invariant and contents\<close>

definition cell :: "clist \<Rightarrow> nat \<Rightarrow> u8 \<times> bool" where
  "cell q j = (the (c_cs q) ! j, case c_cq q of None \<Rightarrow> False | Some b \<Rightarrow> isset b j)"

definition char_of_cell :: "u8 \<times> bool \<Rightarrow> int" where
  "char_of_cell x = (if snd x then uint (fst x) OR TTY_QUOTE else uint (fst x))"

definition cl_base :: "clist \<Rightarrow> bool" where
  "cl_base q \<longleftrightarrow> 0 < c_cn q \<and> c_ce q = c_cn q \<and> c_cc q \<le> c_cn q \<and>
     (\<exists>cs. c_cs q = Some cs \<and> length cs = c_cn q) \<and> (\<forall>b. c_cq q = Some b \<longrightarrow> length b = QMEM (c_cn q))"

text \<open>A ring whose first character is at \<open>f\<close>, possibly with no characters (inside the loops).\<close>

definition cl_at :: "nat \<Rightarrow> clist \<Rightarrow> bool" where
  "cl_at f q \<longleftrightarrow> cl_base q \<and> f < c_cn q \<and> c_cf q = Some f \<and> c_cl q = Some ((f + c_cc q) mod c_cn q)"

definition cl_inv :: "clist \<Rightarrow> bool" where
  "cl_inv q \<longleftrightarrow>
     (if c_cc q = 0 then cl_base q \<and> c_cf q = None \<and> c_cl q = None else (\<exists>f. cl_at f q))"

definition contents :: "clist \<Rightarrow> (u8 \<times> bool) list" where
  "contents q = (case c_cf q of None \<Rightarrow> [] | Some f \<Rightarrow> ring (c_cn q) (cell q) f (c_cc q))"

lemmas [kern_inv] = cl_base_def cl_at_def cl_inv_def

lemma QMEM_bound: "0 < n \<Longrightarrow> n \<le> 8 * QMEM n"
  by (simp add: QMEM_def NBBY_def)

lemma quote_char_cell: "c_cs q = Some cs \<Longrightarrow> quote_char (c_cq q) cs i = char_of_cell (cell q i)"
  by (simp add: quote_char_def char_of_cell_def cell_def split: option.split)

lemma bit_uint_u8: "8 \<le> n \<Longrightarrow> \<not> bit (uint (b :: u8)) n"
  by (simp add: bit_uint_iff)

lemma TTY_QUOTE_exp: "TTY_QUOTE = 2 ^ 8"
  by (simp add: TTY_QUOTE_def)

lemma char_of_cell_byte: "word_of_int (char_of_cell x) = fst x"
  by (auto simp: char_of_cell_def TTY_QUOTE_exp bit_eq_iff [where 'a = "u8"] bit_simps simp del: power_numeral)

lemma char_of_cell_quote: "bit (char_of_cell x) 8 = snd x"
  using bit_uint_u8 [of 8 "fst x"]
  by (simp add: char_of_cell_def TTY_QUOTE_exp bit_or_iff bit_exp_iff del: power_numeral bit_uint_iff)

lemma char_of_cell_nonneg: "char_of_cell x \<noteq> - 1"
proof -
  have "0 \<le> char_of_cell x" by (simp add: char_of_cell_def TTY_QUOTE_def)
  then show ?thesis by simp
qed

lemma length_contents: "cl_inv q \<Longrightarrow> length (contents q) = c_cc q"
  by (auto simp: kern_inv contents_def split: if_splits)

lemma contents_at: "cl_at f q \<Longrightarrow> contents q = ring (c_cn q) (cell q) f (c_cc q)"
  by (simp add: cl_at_def contents_def)

lemma cl_at_inv: "cl_at f q \<Longrightarrow> 0 < c_cc q \<Longrightarrow> cl_inv q"
  by (auto simp: cl_inv_def)

definition cl_norm :: "clist \<Rightarrow> clist" where
  "cl_norm q = (if c_cc q = 0 then q\<lparr>c_cf := None, c_cl := None\<rparr> else q)"

lemma cl_norm_inv: "cl_at f q \<Longrightarrow> cl_inv (cl_norm q) \<and> contents (cl_norm q) = contents q \<and> c_cn (cl_norm q) = c_cn q"
  by (auto simp: cl_norm_def kern_inv contents_def)

lemma if_cl_norm: "(if c_cc q = 0 then q\<lparr>c_cf := None, c_cl := None\<rparr> else q) = cl_norm q"
  by (simp add: cl_norm_def)

lemma clalloc_inv: "0 < n \<Longrightarrow> cl_inv (clalloc n quot) \<and> contents (clalloc n quot) = [] \<and> c_cn (clalloc n quot) = n"
  by (simp add: clalloc_def kern_inv contents_def)

text \<open>Taking \<open>k\<close> characters that do not wrap from the front.\<close>

lemma take_front:
  assumes at: "cl_at f q" and k: "f + k \<le> c_cn q" "k \<le> c_cc q"
    and q': "c_cn q' = c_cn q" "c_ce q' = c_ce q" "c_cc q' = c_cc q - k" "c_cl q' = c_cl q"
      "c_cf q' = Some (if f + k = c_ce q then 0 else f + k)"
    and mem: "c_cs q' = Some cs'" "length cs' = c_cn q" "\<And>b. c_cq q' = Some b \<Longrightarrow> length b = QMEM (c_cn q)"
    and frame: "\<And>j. j < c_cn q \<Longrightarrow> j < f \<or> f + k \<le> j \<Longrightarrow> cell q' j = cell q j"
  shows "cl_at ((f + k) mod c_cn q) q' \<and> contents q' = drop k (contents q)"
proof -
  have b: "f < c_cn q" "c_cc q \<le> c_cn q" "c_ce q = c_cn q" using at by (auto simp: kern_inv)
  have f': "(if f + k = c_ce q then 0 else f + k) = (f + k) mod c_cn q" using b k by simp
  have "f + c_cc q = f + k + (c_cc q - k)" using k by simp
  then have l: "((f + k) mod c_cn q + (c_cc q - k)) mod c_cn q = (f + c_cc q) mod c_cn q"
    by (metis mod_add_left_eq)
  have "cl_at ((f + k) mod c_cn q) q'"
    using at k q' mem b l f' by (auto simp: kern_inv)
  moreover have "ring (c_cn q) (cell q') ((f + k) mod c_cn q) (c_cc q - k) = drop k (ring (c_cn q) (cell q) f (c_cc q))"
    using b k frame by (intro ring_drop) auto
  ultimately show ?thesis using contents_at [OF at] contents_at q' by simp
qed

text \<open>Adding \<open>k\<close> characters that do not wrap at the back.\<close>

lemma add_back:
  assumes at: "cl_at f q" and k: "(f + c_cc q) mod c_cn q + k \<le> c_cn q" "c_cc q + k \<le> c_cn q"
    and q': "c_cn q' = c_cn q" "c_ce q' = c_ce q" "c_cc q' = c_cc q + k" "c_cf q' = c_cf q"
      "c_cl q' = Some (if (f + c_cc q) mod c_cn q + k = c_ce q then 0 else (f + c_cc q) mod c_cn q + k)"
    and mem: "c_cs q' = Some cs'" "length cs' = c_cn q" "\<And>b. c_cq q' = Some b \<Longrightarrow> length b = QMEM (c_cn q)"
    and frame: "\<And>j. j < c_cn q \<Longrightarrow> j < (f + c_cc q) mod c_cn q \<or> (f + c_cc q) mod c_cn q + k \<le> j \<Longrightarrow>
      cell q' j = cell q j"
  shows "cl_at f q' \<and>
    contents q' = contents q @ map (cell q') [(f + c_cc q) mod c_cn q..<(f + c_cc q) mod c_cn q + k]"
proof -
  define l where "l = (f + c_cc q) mod c_cn q"
  have b: "f < c_cn q" "c_ce q = c_cn q" using at by (auto simp: kern_inv)
  have "(if l + k = c_ce q then 0 else l + k) = (l + k) mod c_cn q"
    using b k by (simp add: l_def)
  also have "\<dots> = (f + (c_cc q + k)) mod c_cn q" by (simp add: l_def mod_add_left_eq add.assoc)
  finally have "cl_at f q'"
    using at k q' mem by (auto simp: kern_inv l_def)
  moreover have "ring (c_cn q) (cell q') f (c_cc q + k) =
      ring (c_cn q) (cell q) f (c_cc q) @ map (cell q') [(f + c_cc q) mod c_cn q..<(f + c_cc q) mod c_cn q + k]"
    using b k frame by (intro ring_append) auto
  ultimately show ?thesis using contents_at [OF at] contents_at q' by simp
qed

lemma getc_inv:
  assumes "cl_inv q" and "contents q = x # xs"
  shows "\<exists>q'. getc q = Some (char_of_cell x, q') \<and> cl_inv q' \<and> contents q' = xs \<and> c_cn q' = c_cn q"
proof -
  have cc: "0 < c_cc q" using length_contents [OF assms(1)] assms(2) by simp
  then obtain f where at: "cl_at f q" using assms(1) by (auto simp: cl_inv_def)
  then obtain cs where cs: "c_cs q = Some cs" "length cs = c_cn q" "c_cf q = Some f" "f < c_cn q"
    and cq: "\<And>b. c_cq q = Some b \<Longrightarrow> length b = QMEM (c_cn q)" by (auto simp: kern_inv)
  define q1 where "q1 = q\<lparr>c_cs := Some (cs[f := 0]), c_cq := map_option (\<lambda>q. clrbit q f) (c_cq q),
                          c_cf := Some (if f + 1 = c_ce q then 0 else f + 1), c_cc := c_cc q - 1\<rparr>"
  have "cl_at ((f + 1) mod c_cn q) q1 \<and> contents q1 = drop 1 (contents q)"
    by (rule take_front [OF at, where cs' = "cs[f := 0]"])
      (use cc cs cq QMEM_bound [of "c_cn q"] in \<open>auto simp: q1_def cell_def isset_clrbit split: option.split\<close>)
  moreover have "x = cell q f"
    using assms(2) contents_at [OF at] cc nth_ring [of 0 "c_cc q" "c_cn q" "cell q" f] cs by (metis nth_Cons_0 add_0_right mod_less)
  moreover have "getc q = Some (quote_char (c_cq q) cs f, cl_norm q1)"
    using cc cs by (simp add: getc_def q1_def cl_norm_def Let_def)
  ultimately show ?thesis
    using cl_norm_inv [of _ q1] assms(2) cs by (auto simp: quote_char_cell q1_def)
qed

lemma getc_empty: "contents q = [] \<Longrightarrow> cl_inv q \<Longrightarrow> getc q = Some (- 1, q)"
  using length_contents [of q] by (simp add: getc_def)

lemma unputc_inv:
  assumes "cl_inv q" and "contents q = xs @ [x]"
  shows "\<exists>q'. unputc q = Some (char_of_cell x, q') \<and> cl_inv q' \<and> contents q' = xs \<and> c_cn q' = c_cn q"
proof -
  have cc: "0 < c_cc q" using length_contents [OF assms(1)] assms(2) by simp
  then obtain f where at: "cl_at f q" using assms(1) by (auto simp: cl_inv_def)
  then obtain cs where cs: "c_cs q = Some cs" "length cs = c_cn q" "c_cf q = Some f" "f < c_cn q" "c_ce q = c_cn q"
    "c_cl q = Some ((f + c_cc q) mod c_cn q)" "c_cc q \<le> c_cn q"
    and cq: "\<And>b. c_cq q = Some b \<Longrightarrow> length b = QMEM (c_cn q)" by (auto simp: kern_inv)
  define l where "l = (f + (c_cc q - 1)) mod c_cn q"
  have l: "(if (f + c_cc q) mod c_cn q = 0 then c_ce q - 1 else (f + c_cc q) mod c_cn q - 1) = l" "l < c_cn q"
    using cc cs by (auto simp: l_def mod_if)
  define q1 where "q1 = q\<lparr>c_cl := Some l, c_cc := c_cc q - 1, c_cs := Some (cs[l := 0]),
                          c_cq := map_option (\<lambda>q. clrbit q l) (c_cq q)\<rparr>"
  have at1: "cl_at f q1"
    using at cc cs cq by (auto simp: q1_def kern_inv l_def)
  have "ring (c_cn q) (cell q) f (c_cc q) = ring (c_cn q) (cell q1) f (c_cc q - 1) @ [cell q l]"
    by (rule ring_butlast [of f "c_cn q" "c_cc q" "cell q1" "cell q", folded l_def])
      (use cc cs cq QMEM_bound [of "c_cn q"] l(2) in \<open>auto simp: q1_def cell_def isset_clrbit split: option.split\<close>)
  then have "contents q = contents q1 @ [cell q l]"
    using contents_at [OF at] contents_at [OF at1] by (simp add: q1_def)
  moreover have "unputc q = Some (quote_char (c_cq q) cs l, cl_norm q1)"
    using cc cs l by (simp add: unputc_def q1_def cl_norm_def Let_def)
  ultimately show ?thesis
    using cl_norm_inv [OF at1] assms(2) cs by (auto simp: quote_char_cell q1_def)
qed

lemma cl_atD:
  assumes "cl_at f q"
  obtains cs where "c_cs q = Some cs" "length cs = c_cn q" "c_cf q = Some f" "f < c_cn q" "c_ce q = c_cn q"
    "c_cl q = Some ((f + c_cc q) mod c_cn q)" "c_cc q \<le> c_cn q"
    "\<forall>b. c_cq q = Some b \<longrightarrow> length b = QMEM (c_cn q) \<and> c_cn q \<le> 8 * length b"
  using assms QMEM_bound [of "c_cn q"] by (auto simp: kern_inv)

text \<open>An empty queue with both pointers at the start of the ring, as \<^verbatim>\<open>putc\<close> and \<^verbatim>\<open>b_to_q\<close> set it up.\<close>

definition cl_start :: "clist \<Rightarrow> clist" where
  "cl_start q = (if c_cc q = 0 then q\<lparr>c_cf := Some 0, c_cl := Some 0\<rparr> else q)"

lemma cl_start_at: "cl_inv q \<Longrightarrow> \<exists>f. cl_at f (cl_start q)"
  by (auto simp: cl_start_def kern_inv split: if_splits)

lemma cl_start_fields [simp]:
  "c_cc (cl_start q) = c_cc q" "c_cn (cl_start q) = c_cn q" "c_cs (cl_start q) = c_cs q"
  "c_ce (cl_start q) = c_ce q" "c_cq (cl_start q) = c_cq q"
  by (simp_all add: cl_start_def)

lemma cl_start_contents: "cl_inv q \<Longrightarrow> contents (cl_start q) = contents q"
  by (auto simp: cl_start_def kern_inv contents_def split: if_splits)

lemma putc_inv:
  assumes "cl_inv q" and "length (contents q) < c_cn q"
  shows "\<exists>q'. putc c q = Some (0, q') \<and> cl_inv q' \<and>
    contents q' = contents q @ [(word_of_int c, bit c 8 \<and> c_cq q \<noteq> None)] \<and> c_cn q' = c_cn q \<and>
    (c_cq q' = None) = (c_cq q = None)"
proof -
  define q0 where "q0 = cl_start q"
  obtain f where at: "cl_at f q0" using cl_start_at [OF assms(1)] by (auto simp: q0_def)
  then obtain cs where cs: "c_cs q0 = Some cs" "length cs = c_cn q0" "c_cf q0 = Some f" "f < c_cn q0" "c_ce q0 = c_cn q0"
    "c_cl q0 = Some ((f + c_cc q0) mod c_cn q0)" "c_cc q0 \<le> c_cn q0"
    and cq: "\<forall>b. c_cq q0 = Some b \<longrightarrow> length b = QMEM (c_cn q0) \<and> c_cn q0 \<le> 8 * length b"
    by (rule cl_atD)
  have cc: "c_cc q0 < c_cn q0" using assms length_contents [of q] by (simp add: q0_def)
  define l where "l = (f + c_cc q0) mod c_cn q0"
  have l: "l < c_cn q0" using cs by (simp add: l_def)
  define q1 where "q1 = q0\<lparr>c_cs := Some (cs[l := word_of_int c]),
      c_cq := map_option (\<lambda>b. if bit c 8 then setbit b l else clrbit b l) (c_cq q0),
      c_cc := c_cc q0 + 1, c_cl := Some (if l + 1 = c_ce q0 then 0 else l + 1)\<rparr>"
  have "cl_at f q1 \<and> contents q1 = contents q0 @ map (cell q1) [l..<l + 1]"
    unfolding l_def
    by (rule add_back [OF at, where cs' = "cs[l := word_of_int c]"])
      (use l cc cs cq in \<open>auto simp: q1_def l_def [symmetric] cell_def isset_clrbit isset_setbit split: option.split\<close>)
  moreover have "cell q1 l = (word_of_int c, bit c 8 \<and> c_cq q \<noteq> None)"
    using l cs cq by (auto simp: q1_def cell_def isset_clrbit isset_setbit q0_def [symmetric] split: option.split)
      (simp_all add: q0_def)
  moreover have "putc c q = Some (0, q1)"
  proof -
    have "c_cc q \<noteq> c_cn q" using cc by (simp add: q0_def)
    moreover have "c_cs q = Some cs" using cs by (simp add: q0_def)
    ultimately show ?thesis
      unfolding putc_def cl_start_def [symmetric] q0_def [symmetric] Let_def
      using cs(6) [folded l_def] by (simp add: q1_def) (simp add: q0_def)
  qed
  ultimately show ?thesis
    using cl_at_inv [of f q1] cl_start_contents [OF assms(1)] by (auto simp: q1_def q0_def)
qed

lemma putc_full: "cl_inv q \<Longrightarrow> c_cn q \<le> length (contents q) \<Longrightarrow> putc c q = Some (- 1, q)"
  using length_contents [of q] by (auto simp: putc_def kern_inv split: if_splits)

text \<open>The size of the contiguous piece at the front, as the loops compute it.\<close>

lemma front_piece:
  assumes "cl_at f q" and "0 < c_cc q" and "c_cl q = Some l"
  shows "0 < (if f \<ge> l then c_ce q - f else l - f) \<and> (if f \<ge> l then c_ce q - f else l - f) \<le> c_cc q \<and>
    f + (if f \<ge> l then c_ce q - f else l - f) \<le> c_cn q"
  using assms by (auto simp: kern_inv mod_if split: if_splits)

lemma q_to_b_loop_inv:
  "cl_at f q \<Longrightarrow>
   \<exists>q' f'. q_to_b_loop q p count = Some (p @ map fst (take count (contents q)), q') \<and> cl_at f' q' \<and>
      contents q' = drop count (contents q) \<and> c_cn q' = c_cn q"
proof (induction count arbitrary: q p f rule: less_induct)
  case (less count)
  note at = less.prems
  from at obtain cs where cs: "c_cs q = Some cs" "length cs = c_cn q" "c_cf q = Some f" "f < c_cn q" "c_ce q = c_cn q"
    "c_cl q = Some ((f + c_cc q) mod c_cn q)" "c_cc q \<le> c_cn q"
    and cq: "\<forall>b. c_cq q = Some b \<longrightarrow> length b = QMEM (c_cn q) \<and> c_cn q \<le> 8 * length b"
    by (rule cl_atD)
  define l where "l = (f + c_cc q) mod c_cn q"
  define cc where "cc = (if (if f \<ge> l then c_ce q - f else l - f) > count then count else (if f \<ge> l then c_ce q - f else l - f))"
  define q1 where "q1 = q\<lparr>c_cs := Some (mem_write f (replicate cc 0) cs),
      c_cq := map_option (\<lambda>q. clrbits q f cc) (c_cq q), c_cc := c_cc q - cc,
      c_cf := Some (if f + cc = c_ce q then 0 else f + cc)\<rparr>"
  show ?case
  proof (cases "count > 0 \<and> c_cc q > 0")
    case False
    have "take count (contents q) = [] \<and> drop count (contents q) = contents q"
      using False contents_at [OF at] by auto
    with False at show ?thesis by (subst q_to_b_loop.simps) auto
  next
    case True
    then have k: "0 < cc" "cc \<le> count" "cc \<le> c_cc q" "f + cc \<le> c_cn q"
      using front_piece [OF at, of l] cs by (auto simp: cc_def l_def)
    have q1: "cl_at ((f + cc) mod c_cn q) q1 \<and> contents q1 = drop cc (contents q)"
      by (rule take_front [OF at, where cs' = "mem_write f (replicate cc 0) cs"])
        (use k cs cq in \<open>auto simp: q1_def cell_def nth_mem_write isset_clrbits split: option.split\<close>)
    have "take cc (drop f cs) = map fst (take cc (contents q))"
      using k cs contents_at [OF at]
      by (intro nth_equalityI) (auto simp: ring_take cell_def)
    moreover have "q_to_b_loop q p count = q_to_b_loop q1 (p @ take cc (drop f cs)) (count - cc)"
      using True cs by (subst q_to_b_loop.simps) (simp add: Let_def cc_def q1_def l_def)
    moreover have "take count (contents q) = take cc (contents q) @ take (count - cc) (drop cc (contents q))"
      using k(2) by (metis le_add_diff_inverse take_add)
    ultimately show ?thesis
      using less.IH [of "count - cc" _ q1 "p @ take cc (drop f cs)"] q1 k
      by (auto simp: q1_def add.commute)
  qed
qed

lemma cl_inv_cases:
  assumes "cl_inv q"
  obtains "c_cc q = 0" "contents q = []" | f where "cl_at f q" "0 < c_cc q"
  using assms by (auto simp: cl_inv_def contents_def split: if_splits)

lemma cl_inv_empty_norm: "cl_inv q \<Longrightarrow> c_cc q = 0 \<Longrightarrow> cl_norm q = q"
  by (simp add: cl_inv_def cl_norm_def)

lemma q_to_b_inv:
  assumes "cl_inv q"
  shows "\<exists>q'. q_to_b q count = Some (map fst (take count (contents q)), q') \<and> cl_inv q' \<and>
    contents q' = drop count (contents q) \<and> c_cn q' = c_cn q"
  using assms
proof (cases rule: cl_inv_cases)
  case 1
  then have "q_to_b_loop q [] count = Some ([], q)" by (subst q_to_b_loop.simps) simp
  with 1 assms show ?thesis by (auto simp: q_to_b_def if_cl_norm cl_inv_empty_norm)
next
  case (2 f)
  then obtain q' f' where l: "q_to_b_loop q [] count = Some (map fst (take count (contents q)), q')"
    "cl_at f' q'" "contents q' = drop count (contents q)" "c_cn q' = c_cn q"
    using q_to_b_loop_inv [of f q "[]" count] by auto
  with cl_norm_inv [OF l(2)] show ?thesis by (simp add: q_to_b_def if_cl_norm)
qed

lemma ndflush_loop_inv:
  "cl_at f q \<Longrightarrow>
   \<exists>q' f'. ndflush_loop q count = Some q' \<and> cl_at f' q' \<and> contents q' = drop count (contents q) \<and> c_cn q' = c_cn q"
proof (induction count arbitrary: q f rule: less_induct)
  case (less count)
  note at = less.prems
  from at obtain cs where cs: "c_cs q = Some cs" "length cs = c_cn q" "c_cf q = Some f" "f < c_cn q" "c_ce q = c_cn q"
    "c_cl q = Some ((f + c_cc q) mod c_cn q)" "c_cc q \<le> c_cn q"
    and cq: "\<forall>b. c_cq q = Some b \<longrightarrow> length b = QMEM (c_cn q) \<and> c_cn q \<le> 8 * length b"
    by (rule cl_atD)
  define l where "l = (f + c_cc q) mod c_cn q"
  define cc where "cc = (if (if f \<ge> l then c_ce q - f else l - f) > count then count else (if f \<ge> l then c_ce q - f else l - f))"
  define q1 where "q1 = q\<lparr>c_cc := c_cc q - cc, c_cf := Some (if f + cc = c_ce q then 0 else f + cc)\<rparr>"
  show ?case
  proof (cases "count > 0 \<and> c_cc q > 0")
    case False
    then have "drop count (contents q) = contents q" using contents_at [OF at] by auto
    with False at show ?thesis by (subst ndflush_loop.simps) auto
  next
    case True
    then have k: "0 < cc" "cc \<le> count" "cc \<le> c_cc q" "f + cc \<le> c_cn q"
      using front_piece [OF at, of l] cs by (auto simp: cc_def l_def)
    have q1: "cl_at ((f + cc) mod c_cn q) q1 \<and> contents q1 = drop cc (contents q)"
      by (rule take_front [OF at, where cs' = cs]) (use k cs cq in \<open>auto simp: q1_def cell_def\<close>)
    moreover have "ndflush_loop q count = ndflush_loop q1 (count - cc)"
      using True cs by (subst ndflush_loop.simps) (simp add: Let_def cc_def q1_def l_def)
    ultimately show ?thesis
      using less.IH [of "count - cc" _ q1] k by (auto simp: q1_def add.commute)
  qed
qed

lemma ndflush_inv:
  assumes "cl_inv q"
  shows "\<exists>q'. ndflush q count = Some q' \<and> cl_inv q' \<and> contents q' = drop count (contents q) \<and> c_cn q' = c_cn q"
proof (cases "count = c_cc q")
  case True
  have "drop count (contents q) = []" using True length_contents [OF assms] by simp
  moreover have "cl_inv (q\<lparr>c_cc := 0, c_cf := None, c_cl := None\<rparr>)"
    using assms by (auto simp: kern_inv split: if_splits)
  ultimately show ?thesis using True by (simp add: ndflush_def contents_def)
next
  case False
  from assms show ?thesis
  proof (cases rule: cl_inv_cases)
    case 1
    then have "ndflush_loop q count = Some q" by (subst ndflush_loop.simps) simp
    with 1 assms False show ?thesis by (auto simp: ndflush_def if_cl_norm cl_inv_empty_norm)
  next
    case (2 f)
    then obtain q' f' where l: "ndflush_loop q count = Some q'" "cl_at f' q'" "contents q' = drop count (contents q)"
      "c_cn q' = c_cn q"
      using ndflush_loop_inv [of f q count] by auto
    with False cl_norm_inv [OF l(2)] show ?thesis by (simp add: ndflush_def if_cl_norm)
  qed
qed

text \<open>The contiguous room at the back.\<close>

lemma back_room:
  assumes "cl_at f q" and "c_cc q < c_cn q" and "c_cl q = Some l"
  shows "0 < (if f > l then f - l else c_ce q - l) \<and> c_cc q + (if f > l then f - l else c_ce q - l) \<le> c_cn q \<and>
    l + (if f > l then f - l else c_ce q - l) \<le> c_cn q"
  using assms by (auto simp: kern_inv mod_if split: if_splits)

lemma b_to_q_loop_inv:
  "cl_at f q \<Longrightarrow>
   \<exists>q'. b_to_q_loop p q = Some (drop (c_cn q - length (contents q)) p, q') \<and> cl_at f q' \<and>
     contents q' = contents q @ map (\<lambda>b. (b, False)) (take (c_cn q - length (contents q)) p) \<and> c_cn q' = c_cn q"
proof (induction "length p" arbitrary: q p rule: less_induct)
  case less
  note at = less.prems
  from at obtain cs where cs: "c_cs q = Some cs" "length cs = c_cn q" "c_cf q = Some f" "f < c_cn q" "c_ce q = c_cn q"
    "c_cl q = Some ((f + c_cc q) mod c_cn q)" "c_cc q \<le> c_cn q"
    and cq: "\<forall>b. c_cq q = Some b \<longrightarrow> length b = QMEM (c_cn q) \<and> c_cn q \<le> 8 * length b"
    by (rule cl_atD)
  have len: "length (contents q) = c_cc q" using contents_at [OF at] by simp
  define l where "l = (f + c_cc q) mod c_cn q"
  define cc where "cc = (if (if f > l then f - l else c_ce q - l) > length p then length p else (if f > l then f - l else c_ce q - l))"
  define q1 where "q1 = q\<lparr>c_cs := Some (mem_write l (take cc p) cs),
      c_cq := map_option (\<lambda>q. clrbits q l cc) (c_cq q), c_cc := c_cc q + cc,
      c_cl := Some (if l + cc = c_ce q then 0 else l + cc)\<rparr>"
  show ?case
  proof (cases "p \<noteq> [] \<and> c_cc q < c_cn q")
    case False
    then have "drop (c_cn q - length (contents q)) p = p \<and> take (c_cn q - length (contents q)) p = []"
      using cs len by auto
    with False at show ?thesis by (subst b_to_q_loop.simps) auto
  next
    case True
    then have k: "0 < cc" "cc \<le> length p" "c_cc q + cc \<le> c_cn q" "l + cc \<le> c_cn q"
      using back_room [OF at, of l] cs by (auto simp: cc_def l_def)
    have "cl_at f q1 \<and> contents q1 = contents q @ map (cell q1) [l..<l + cc]"
      unfolding l_def
      by (rule add_back [OF at, where cs' = "mem_write l (take cc p) cs"])
        (use k cs cq in \<open>auto simp: q1_def l_def [symmetric] cell_def nth_mem_write isset_clrbits split: option.split\<close>)
    moreover have "map (cell q1) [l..<l + cc] = map (\<lambda>b. (b, False)) (take cc p)"
      using k cs cq
      by (intro nth_equalityI) (auto simp: q1_def cell_def nth_mem_write isset_clrbits split: option.split)
    ultimately have q1: "cl_at f q1" "contents q1 = contents q @ map (\<lambda>b. (b, False)) (take cc p)" by auto
    have "b_to_q_loop p q = b_to_q_loop (drop cc p) q1"
      using True cs(1,3) cs(6) [folded l_def]
      by (subst b_to_q_loop.simps) (simp only: Let_def cc_def [symmetric] q1_def option.case if_True simp_thms)
    moreover have smaller: "length (drop cc p) < length p" using k by simp
    moreover obtain q' where "b_to_q_loop (drop cc p) q1 = Some (drop (c_cn q1 - length (contents q1)) (drop cc p), q')"
      "cl_at f q'" "contents q' = contents q1 @ map (\<lambda>b. (b, False)) (take (c_cn q1 - length (contents q1)) (drop cc p))"
      "c_cn q' = c_cn q1"
      using less.hyps [of "drop cc p", OF smaller q1(1)] by blast
    moreover have "take (c_cn q - c_cc q) p = take cc p @ take (c_cn q - (c_cc q + cc)) (drop cc p)"
    proof -
      have "c_cn q - c_cc q = cc + (c_cn q - (c_cc q + cc))" using k by simp
      then show ?thesis by (simp only: take_add)
    qed
    ultimately show ?thesis using q1 k len by (auto simp: q1_def min_def)
  qed
qed

lemma b_to_q_inv:
  assumes "cl_inv q"
  shows "\<exists>q'. b_to_q p q = Some (drop (c_cn q - length (contents q)) p, q') \<and> cl_inv q' \<and>
    contents q' = contents q @ map (\<lambda>b. (b, False)) (take (c_cn q - length (contents q)) p) \<and> c_cn q' = c_cn q"
proof (cases "p = [] \<or> c_cc q = c_cn q")
  case True
  with assms length_contents [OF assms] show ?thesis by (auto simp: b_to_q_def)
next
  case False
  obtain f where at: "cl_at f (cl_start q)" using cl_start_at [OF assms] by blast
  have cs: "c_cs q \<noteq> None" using at by (auto simp: kern_inv)
  have room: "c_cc q < c_cn q" using at False by (auto simp: kern_inv)
  obtain q' where q': "b_to_q_loop p (cl_start q) = Some (drop (c_cn q - length (contents q)) p, q')" "cl_at f q'"
     "contents q' = contents q @ map (\<lambda>b. (b, False)) (take (c_cn q - length (contents q)) p)" "c_cn q' = c_cn q"
    using b_to_q_loop_inv [OF at, of p] cl_start_contents [OF assms] by auto
  have "length (contents q') = c_cc q'" using contents_at [OF q'(2)] by simp
  then have "0 < c_cc q'" using q'(3) False room length_contents [OF assms] by (cases p) (auto simp: min_def split: if_splits)
  with q' cl_at_inv [OF q'(2)] False cs show ?thesis by (simp add: b_to_q_def cl_start_def)
qed

section \<open>Clists as bounded queues\<close>

lemma getc_quoting: "getc q = Some (c, q') \<Longrightarrow> (c_cq q' = None) = (c_cq q = None)"
  by (auto simp: getc_def Let_def split: if_splits option.splits)

lemma unquoted_contents: "c_cq q = None \<Longrightarrow> x \<in> set (contents q) \<Longrightarrow> \<not> snd x"
  by (auto simp: contents_def ring_def cell_def split: option.splits)

text \<open>One character in and out, for queues with quoting: the element is the byte with its mark.\<close>

definition enq_char :: "u8 \<times> bool \<Rightarrow> clist \<Rightarrow> clist option" where
  "enq_char x q = (case putc (char_of_cell x) q of Some (r, q') \<Rightarrow> if r = 0 then Some q' else None | None \<Rightarrow> None)"

definition deq_char :: "clist \<Rightarrow> ((u8 \<times> bool) \<times> clist) option" where
  "deq_char q =
     (case getc q of Some (c, q') \<Rightarrow> if c = - 1 then None else Some ((word_of_int c, bit c 8), q') | None \<Rightarrow> None)"

interpretation quoted: fifo "\<lambda>q. cl_inv q \<and> c_cq q \<noteq> None" contents c_cn enq_char deq_char
proof (unfold_locales, goal_cases)
  case (1 q x)
  then show ?case
    using putc_inv [of q "char_of_cell x"]
    by (auto simp: enq_char_def char_of_cell_byte char_of_cell_quote)
next
  case (2 q x)
  then show ?case using putc_full [of q "char_of_cell x"] by (simp add: enq_char_def)
next
  case (3 q)
  then show ?case using getc_empty [of q] by (simp add: deq_char_def)
next
  case (4 q x xs)
  then show ?case
    using getc_inv [of q x xs] getc_quoting [of q]
    by (force simp: deq_char_def char_of_cell_byte char_of_cell_quote char_of_cell_nonneg)
qed

text \<open>The same for queues without quoting, whose elements are plain bytes.\<close>

interpretation plain: fifo "\<lambda>q. cl_inv q \<and> c_cq q = None" "\<lambda>q. map fst (contents q)" c_cn
  "\<lambda>b. enq_char (b, False)" "\<lambda>q. map_option (\<lambda>(x, q'). (fst x, q')) (deq_char q)"
proof (unfold_locales, goal_cases)
  case (1 q b)
  then show ?case
    using putc_inv [of q "char_of_cell (b, False)"] by (auto simp: enq_char_def char_of_cell_byte)
next
  case (2 q b)
  then show ?case using putc_full [of q "char_of_cell (b, False)"] by (simp add: enq_char_def)
next
  case (3 q)
  then show ?case using getc_empty [of q] by (simp add: deq_char_def)
next
  case (4 q b bs)
  then obtain x xs where "contents q = x # xs" "fst x = b" "map fst xs = bs" by (cases "contents q") auto
  with 4 show ?case
    using getc_inv [of q x xs] getc_quoting [of q]
    by (force simp: deq_char_def char_of_cell_byte char_of_cell_nonneg)
qed

section \<open>Moving a queue into another\<close>

lemma catq_loop_inv:
  "cl_inv from \<Longrightarrow> cl_inv to \<Longrightarrow>
   \<exists>from' to'. catq_loop from to = Some (from', to') \<and> cl_inv from' \<and> cl_inv to' \<and> contents from' = [] \<and>
     c_cn to' = c_cn to \<and>
     contents to' = contents to @ take (c_cn to - length (contents to))
       (map (\<lambda>x. (fst x, snd x \<and> c_cq to \<noteq> None)) (contents from))"
proof (induction "contents from" arbitrary: "from" to)
  case Nil
  then have "catq_loop from to = Some (from, to)"
    by (subst catq_loop.simps) (simp add: getc_empty)
  with Nil show ?case by simp
next
  case (Cons x xs)
  obtain from' where f: "getc from = Some (char_of_cell x, from')" "cl_inv from'" "contents from' = xs"
    using getc_inv [OF Cons.prems(1) Cons.hyps(2) [symmetric]] by blast
  show ?case
  proof (cases "length (contents to) < c_cn to")
    case True
    from putc_inv [OF Cons.prems(2) True, of "char_of_cell x"] obtain to' where
      t: "putc (char_of_cell x) to = Some (0, to')" "cl_inv to'" "c_cn to' = c_cn to"
        "contents to' = contents to @ [(fst x, snd x \<and> c_cq to \<noteq> None)]" "(c_cq to' = None) = (c_cq to = None)"
      by (auto simp: char_of_cell_byte char_of_cell_quote)
    have step: "catq_loop from to = catq_loop from' to'"
      using f t by (subst catq_loop.simps) (simp add: char_of_cell_nonneg)
    have "c_cn to - length (contents to) = Suc (c_cn to - Suc (length (contents to)))" using True by simp
    with Cons.hyps(1) [of from' to'] Cons.hyps(2) [symmetric] f t show ?thesis by (auto simp: step)
  next
    case False
    then have t: "putc (char_of_cell x) to = Some (- 1, to)" by (simp add: putc_full Cons.prems)
    have step: "catq_loop from to = catq_loop from' to"
      using f t by (subst catq_loop.simps) (simp add: char_of_cell_nonneg)
    with Cons.hyps(1) [of from' to] Cons.prems(2) f False show ?thesis by (auto simp: step)
  qed
qed

lemma catq_inv:
  assumes "cl_inv from" and "cl_inv to" and same: "(c_cq from = None) = (c_cq to = None)"
  shows "\<exists>from' to'. catq from to = Some (from', to') \<and> cl_inv from' \<and> cl_inv to' \<and> contents from' = [] \<and>
    contents to' = take (c_cn to) (contents to @ contents from)"
proof -
  have room: "length (contents to) \<le> c_cn to" "length (contents from) \<le> c_cn from"
    using assms(1,2) length_contents [of to] length_contents [of "from"] by (auto simp: kern_inv split: if_splits)
  have len: "length (contents from) = c_cc from" "length (contents to) = c_cc to"
    using assms length_contents by auto
  have marks: "map (\<lambda>x. (fst x, snd x \<and> c_cq to \<noteq> None)) (contents from) = contents from"
    using same unquoted_contents [of "from"] by (intro map_idI) (auto simp: prod_eq_iff)
  consider "c_cc from = 0" | "c_cc from \<noteq> 0" "c_cc to = 0 \<and> c_cn from = c_cn to"
    | "c_cc from \<noteq> 0" "\<not> (c_cc to = 0 \<and> c_cn from = c_cn to)" by blast
  then show ?thesis
  proof cases
    case 1
    with assms len room show ?thesis by (simp add: catq_def)
  next
    case 2
    with assms len room show ?thesis by (simp add: catq_def)
  next
    case 3
    with catq_loop_inv [OF assms(1,2)] marks room show ?thesis by (auto simp: catq_def)
  qed
qed

section \<open>Iteration\<close>

text \<open>
  \<^verbatim>\<open>for (cp = firstc(q, &c, &cc); cp; cp = nextc(q, cp, &c, &cc)) ... c ...\<close>, as \<^verbatim>\<open>kern/tty.c\<close> uses the
  iterator, collecting the values of \<^verbatim>\<open>c\<close>; \<open>None\<close> when \<open>n\<close> turns were not enough.
\<close>

fun walk_chars :: "nat \<Rightarrow> clist \<Rightarrow> nat option \<times> int \<times> nat \<Rightarrow> int list option" where
  "walk_chars n q (None, c, cc) = Some []"
| "walk_chars 0 q (Some cp, c, cc) = None"
| "walk_chars (Suc n) q (Some cp, c, cc) =
     (case nextc q (Some cp) c cc of
        None \<Rightarrow> None
      | Some r \<Rightarrow> map_option ((#) c) (walk_chars n q r))"

lemma walk_chars_at:
  assumes at: "cl_at f q" and i: "i < c_cc q"
  shows "walk_chars (c_cc q - i) q (Some ((f + i) mod c_cn q), char_of_cell (cell q ((f + i) mod c_cn q)), c_cc q - i) =
    Some (map (\<lambda>j. char_of_cell (cell q ((f + j) mod c_cn q))) [i..<c_cc q])"
  using i
proof (induction "c_cc q - i" arbitrary: i)
  case 0
  then show ?case by simp
next
  case (Suc n)
  from at obtain cs where cs: "c_cs q = Some cs" "length cs = c_cn q" "c_cf q = Some f" "f < c_cn q" "c_ce q = c_cn q"
    "c_cl q = Some ((f + c_cc q) mod c_cn q)" "c_cc q \<le> c_cn q"
    and cq: "\<forall>b. c_cq q = Some b \<longrightarrow> length b = QMEM (c_cn q) \<and> c_cn q \<le> 8 * length b"
    by (rule cl_atD)
  define p where "p = (f + i) mod c_cn q"
  have start: "(if c_cf q = Some p then c_cc q else c_cc q - i) = c_cc q - i"
    using cs Suc.prems by (cases "f + i < c_cn q") (auto simp: p_def mod_if)
  have upt: "[i..<c_cc q] = i # [Suc i..<c_cc q]" using Suc.prems by (rule upt_conv_Cons)
  show ?case
  proof (cases "c_cc q - i = 1")
    case True
    then have "nextc q (Some p) c (c_cc q - i) = Some (None, c, 0)" for c
      unfolding nextc_def start Let_def by simp
    with True Suc upt show ?thesis by (simp add: p_def)
  next
    case False
    have p': "(if p + 1 = c_ce q then 0 else p + 1) = (f + Suc i) mod c_cn q"
      using cs by (simp add: p_def mod_Suc)
    have "nextc q (Some p) c (c_cc q - i) =
        Some (Some ((f + Suc i) mod c_cn q), char_of_cell (cell q ((f + Suc i) mod c_cn q)), c_cc q - Suc i)" for c
      unfolding nextc_def start Let_def option.case p' using False Suc.prems cs quote_char_cell [OF cs(1)] by simp
    moreover have "c_cc q - i = Suc (c_cc q - Suc i)" using Suc.prems by simp
    ultimately show ?thesis
      using Suc.hyps(1) [of "Suc i"] Suc.hyps(2) False Suc.prems upt by (simp add: p_def [symmetric])
  qed
qed

section \<open>Properties\<close>

text \<open>The copy loops return for every well-formed queue and buffer, and move exactly the right bytes:
  \<^verbatim>\<open>b_to_q\<close> appends as many bytes as there is room for, unquoted, and leaves the rest; \<^verbatim>\<open>q_to_b\<close>
  delivers the first \<open>count\<close> characters in order and removes them; \<^verbatim>\<open>ndflush\<close> removes them. The queue stays
  well-formed, wherever its ring wraps.\<close>

theorem clist_copy:
  assumes "cl_inv q"
  shows "(\<exists>q'. b_to_q p q = Some (drop (c_cn q - c_cc q) p, q') \<and> cl_inv q' \<and>
      contents q' = contents q @ map (\<lambda>b. (b, False)) (take (c_cn q - c_cc q) p)) \<and>
    (\<exists>q'. q_to_b q count = Some (map fst (take count (contents q)), q') \<and> cl_inv q' \<and>
      contents q' = drop count (contents q)) \<and>
    (\<exists>q'. ndflush q count = Some q' \<and> cl_inv q' \<and> contents q' = drop count (contents q))"
  using b_to_q_inv [OF assms, of p] q_to_b_inv [OF assms, of count] ndflush_inv [OF assms, of count]
    length_contents [OF assms] by auto

text \<open>A queue of four characters that wraps, with a quoted one.\<close>

definition q_wrap :: clist where
  "q_wrap = \<lparr>c_cc = 3, c_cn = 4, c_cf = Some 2, c_cl = Some 1, c_cs = Some [67, 0, 65, 66], c_ce = 4, c_cq = Some [9]\<rparr>"

lemma q_wrap_inv: "cl_inv q_wrap"
  by (simp add: q_wrap_def kern_inv QMEM_def NBBY_def)

lemma q_wrap_contents: "contents q_wrap = [(65, False), (66, True), (67, True)]"
  by code_simp

theorem clist_copy_witness:
  "\<exists>q'. q_to_b q_wrap 2 = Some ([65, 66], q') \<and> cl_inv q' \<and> contents q' = [(67, True)]"
  using clist_copy [OF q_wrap_inv, of "[]" 2] by (simp add: q_wrap_contents)

text \<open>C29: Characters, quoted or not, come out of a clist with a quote bitmap in the order and with the marks
  they went in: \<^verbatim>\<open>putc\<close> of a sequence that fits followed by as many \<^verbatim>\<open>getc\<close>s returns what was queued
  before followed by the sequence.\<close>

theorem clist_fifo:
  assumes "cl_inv q" and "c_cq q \<noteq> None" and "length (contents q) + length xs \<le> c_cn q"
  shows "fst (deq_list deq_char (length (contents q) + length xs) (enq_list enq_char xs q)) = contents q @ xs"
  using quoted.fifo_order [of q xs] assms by simp

theorem clist_fifo_witness:
  "fst (deq_list deq_char (length (contents q_wrap) + length [(90 :: u8, True)])
      (enq_list enq_char [(90, True)] q_wrap)) = [(65, False), (66, True), (67, True), (90, True)]"
proof -
  have "c_cq q_wrap \<noteq> None" and "length (contents q_wrap) + length [(90 :: u8, True)] \<le> c_cn q_wrap"
    by (simp_all add: q_wrap_contents) (simp_all add: q_wrap_def)
  from clist_fifo [OF q_wrap_inv this] show ?thesis by (simp only: q_wrap_contents append.simps)
qed

text \<open>\<^verbatim>\<open>unputc\<close> takes back the most recent character with its mark: on a non-empty queue it returns the last
  one and leaves the others, on an empty one it returns -1; and it undoes a successful \<^verbatim>\<open>putc\<close>.\<close>

theorem unputc_spec:
  assumes "cl_inv q"
  shows "(contents q = [] \<longrightarrow> unputc q = Some (- 1, q)) \<and>
    (\<forall>xs x. contents q = xs @ [x] \<longrightarrow>
       (\<exists>q'. unputc q = Some (char_of_cell x, q') \<and> cl_inv q' \<and> contents q' = xs)) \<and>
    (\<forall>x q1. c_cq q \<noteq> None \<and> putc (char_of_cell x) q = Some (0, q1) \<longrightarrow>
       (\<exists>q2. unputc q1 = Some (char_of_cell x, q2) \<and> contents q2 = contents q))"
proof (intro conjI allI impI)
  assume "contents q = []"
  then show "unputc q = Some (- 1, q)" using length_contents [OF assms] by (simp add: unputc_def)
next
  fix xs x assume "contents q = xs @ [x]"
  then show "\<exists>q'. unputc q = Some (char_of_cell x, q') \<and> cl_inv q' \<and> contents q' = xs"
    using unputc_inv [OF assms] by blast
next
  fix x q1 assume p: "c_cq q \<noteq> None \<and> putc (char_of_cell x) q = Some (0, q1)"
  then have "length (contents q) < c_cn q" using putc_full [OF assms] by (metis Pair_inject linorder_not_less option.inject zero_neq_neg_one)
  then have "cl_inv q1 \<and> contents q1 = contents q @ [x]"
    using putc_inv [OF assms, of "char_of_cell x"] p by (auto simp: char_of_cell_byte char_of_cell_quote)
  then show "\<exists>q2. unputc q1 = Some (char_of_cell x, q2) \<and> contents q2 = contents q"
    using unputc_inv [of q1 "contents q" x] by blast
qed

theorem unputc_spec_witness:
  "\<exists>q'. unputc q_wrap = Some (char_of_cell (67, True), q') \<and> contents q' = [(65, False), (66, True)]"
  using unputc_spec [OF q_wrap_inv] by (force simp: q_wrap_contents)

text \<open>\<^verbatim>\<open>catq\<close> returns, empties the source queue, and appends its characters with their marks to the
  destination as far as they fit, whether it swaps the two structures or copies character by character,
  provided both queues support quoting or neither does.\<close>

theorem catq_appends:
  assumes "cl_inv from" and "cl_inv to" and "(c_cq from = None) = (c_cq to = None)"
  shows "\<exists>from' to'. catq from to = Some (from', to') \<and> cl_inv from' \<and> cl_inv to' \<and> contents from' = [] \<and>
    contents to' = take (c_cn to) (contents to @ contents from)"
  by (rule catq_inv [OF assms])

theorem catq_appends_witness:
  "\<exists>from' to'. catq q_wrap (clalloc 2 True) = Some (from', to') \<and> cl_inv from' \<and> cl_inv to' \<and>
     contents from' = [] \<and> contents to' = take (c_cn (clalloc 2 True)) (contents (clalloc 2 True) @ contents q_wrap)"
proof -
  have "cl_inv (clalloc 2 True)" by (simp add: clalloc_inv)
  then show ?thesis by (rule catq_appends [OF q_wrap_inv]) (simp add: q_wrap_def clalloc_def)
qed

text \<open>The iterator of \<^verbatim>\<open>firstc\<close> and \<^verbatim>\<open>nextc\<close> visits every character of the queue once, in order, with
  its quote mark, and then stops.\<close>

theorem clist_walk:
  assumes "cl_inv q" and "firstc q c0 = Some r"
  shows "walk_chars (c_cc q) q r = Some (map char_of_cell (contents q))"
  using assms(1)
proof (cases rule: cl_inv_cases)
  case 1
  with assms(2) show ?thesis by (auto simp: firstc_def)
next
  case (2 f)
  then obtain cs where cs: "c_cs q = Some cs" "c_cf q = Some f" "f < c_cn q" by (auto simp: kern_inv)
  have r: "r = (Some f, char_of_cell (cell q f), c_cc q)"
    using assms(2) 2 cs quote_char_cell [OF cs(1)] by (simp add: firstc_def)
  have m: "f mod c_cn q = f" using cs by simp
  show ?thesis
    using walk_chars_at [OF 2] unfolding r contents_at [OF 2(1)] ring_def by (simp add: m comp_def)
qed

theorem clist_walk_witness:
  "firstc q_wrap 0 = Some (Some 2, 65, 3) \<and> walk_chars 3 q_wrap (Some 2, 65, 3) = Some [65, 322, 323]"
proof -
  have f: "firstc q_wrap 0 = Some (Some 2, 65, 3)" by code_simp
  have "map char_of_cell (contents q_wrap) = [65, 322, 323]"
    unfolding q_wrap_contents by code_simp
  with clist_walk [OF q_wrap_inv f] f show ?thesis by (simp add: q_wrap_def)
qed

text \<open>\<^verbatim>\<open>ndqb\<close> with flag 0 is the length of the piece of the queue that is contiguous in memory, between 1 and
  the queue length when the queue is not empty, so a caller that hands that many bytes to the hardware
  reads only queued characters.\<close>

theorem ndqb_contiguous:
  assumes "cl_inv q" and "0 < c_cc q"
  shows "\<exists>n f cs. ndqb q 0 = Some n \<and> 0 < n \<and> n \<le> c_cc q \<and> c_cf q = Some f \<and> c_cs q = Some cs \<and>
    f + n \<le> length cs \<and> take n (drop f cs) = map fst (take n (contents q))"
proof -
  obtain f where at: "cl_at f q" using assms by (auto simp: cl_inv_def)
  then obtain cs where cs: "c_cs q = Some cs" "length cs = c_cn q" "c_cf q = Some f" "f < c_cn q" "c_ce q = c_cn q"
    "c_cl q = Some ((f + c_cc q) mod c_cn q)" "c_cc q \<le> c_cn q" by (auto simp: kern_inv)
  define n where "n = (if f \<ge> (f + c_cc q) mod c_cn q then c_ce q - f else (f + c_cc q) mod c_cn q - f)"
  have n: "0 < n" "n \<le> c_cc q" "f + n \<le> c_cn q"
    using front_piece [OF at assms(2) cs(6)] unfolding n_def by blast+
  have "take n (drop f cs) = map fst (take n (contents q))"
    using n cs contents_at [OF at] by (intro nth_equalityI) (auto simp: ring_take cell_def)
  moreover have "ndqb q 0 = Some n"
    using assms(2) cs(1,3,6) by (simp add: ndqb_def n_def)
  ultimately show ?thesis using n cs by auto
qed

theorem ndqb_contiguous_witness: "ndqb q_wrap 0 = Some 2 \<and> 0 < c_cc q_wrap"
proof -
  have "0 < c_cc q_wrap" by (simp add: q_wrap_def)
  from ndqb_contiguous [OF q_wrap_inv this] show ?thesis by (auto simp: ndqb_def q_wrap_def)
qed

text \<open>With \<^verbatim>\<open>TTY_QUOTE\<close> in the flag \<^verbatim>\<open>ndqb\<close> does not do what its comment says (stop at the first
  character that matches): it tests the quote bit one position too far, so it stops in front of the
  unquoted character before a quoted one and runs over a quoted first character.\<close>

theorem ndqb_quote_shifted:
  "(\<exists>q. cl_inv q \<and> contents q = [(65, False), (66, True), (67, False)] \<and> ndqb q TTY_QUOTE = Some 0) \<and>
   (\<exists>q. cl_inv q \<and> contents q = [(65, True), (66, False), (67, False)] \<and> ndqb q TTY_QUOTE = Some 3)"
proof -
  let ?q = "\<lambda>m. \<lparr>c_cc = 3, c_cn = 4, c_cf = Some 0, c_cl = Some 3, c_cs = Some [65, 66, 67, 0], c_ce = 4, c_cq = Some [m]\<rparr>"
  have i: "cl_inv (?q m)" for m by (auto simp: kern_inv QMEM_def NBBY_def)
  have "contents (?q 2) = [(65, False), (66, True), (67, False)]" "ndqb (?q 2) TTY_QUOTE = Some 0" by code_simp+
  moreover have "contents (?q 1) = [(65, True), (66, False), (67, False)]" "ndqb (?q 1) TTY_QUOTE = Some 3" by code_simp+
  ultimately show ?thesis using i [of 1] i [of 2] by blast
qed

end
