(* ===== verification/Extent.thy ===== *)
theory Extent
  imports Kern_Prelude
begin

text \<open>
  The extent manager of \<^verbatim>\<open>kern/subr_extent.c\<close>: a map of a number range (I/O ports, bus addresses, device
  memory) that hands out regions with alignment, skew and boundary constraints, keeps the allocated
  regions in a sorted list and coalesces neighbours.

  \<^item> \<^verbatim>\<open>u_long\<close> is \<open>u64\<close>, so all address arithmetic wraps as on LP64 machines.
  \<^item> \<open>ex_regions\<close> is the list in order; a pointer to a region (\<^verbatim>\<open>last\<close>, \<^verbatim>\<open>after\<close>) is its index.
  \<^item> Region descriptors carry the two \<^verbatim>\<open>er_flags\<close> bits; a fixed extent keeps its spare descriptors in
    \<^verbatim>\<open>fex_freelist\<close>. What \<^verbatim>\<open>pool_get\<close> answers is an argument (\<open>pool\<close>).
  \<^item> The kernel is built with \<^verbatim>\<open>DIAGNOSTIC\<close>: failed argument checks are \<open>Ext_Panic\<close>.
  \<^item> \<^verbatim>\<open>tsleep_nsec\<close> is \<open>Ext_Sleep\<close>, with the extent as the sleeper leaves it; a woken sleeper starts over.
\<close>

section \<open>State\<close>

record extent_region =
  er_start :: u64
  er_end :: u64
  er_alloc :: bool
  er_discard :: bool

record extent =
  ex_name :: string
  ex_regions :: "extent_region list"
  ex_start :: u64
  ex_end :: u64
  exf_fixed :: bool
  exf_nocoalesce :: bool
  exf_wanted :: bool
  exf_flwanted :: bool
  fex_freelist :: "extent_region list"

datatype ex_flag =
  EX_WAITOK | EX_FAST | EX_CATCH | EX_NOCOALESCE | EX_MALLOCOK | EX_WAITSPACE | EX_BOUNDZERO | EX_CONFLICTOK | EX_FILLED

datatype 'a ext_res = Ext_Ok 'a extent | Ext_Err errno extent | Ext_Sleep extent | Ext_Panic

definition extent_align :: "u64 \<Rightarrow> u64 \<Rightarrow> u64 \<Rightarrow> u64" where
  "extent_align start align skew = (((start - skew) + (align - 1)) AND (- align)) + skew"

definition LE_OV :: "u64 \<Rightarrow> u64 \<Rightarrow> u64 \<Rightarrow> bool" where
  "LE_OV x y z \<longleftrightarrow> x + y \<ge> x \<and> x + y \<le> z"

section \<open>Region descriptors\<close>

definition blank_region :: extent_region where
  "blank_region = \<lparr>er_start = 0, er_end = 0, er_alloc = False, er_discard = False\<rparr>"

text \<open>
  \<^verbatim>\<open>extent_alloc_region_descriptor\<close>: a descriptor, or \<^verbatim>\<open>NULL\<close> (\<open>None\<close>), or sleep until one is given back.
\<close>

definition extent_alloc_region_descriptor :: "bool \<Rightarrow> ex_flag set \<Rightarrow> extent \<Rightarrow> extent_region option ext_res" where
  "extent_alloc_region_descriptor pool flags ex =
     (let alloc = (if pool then Ext_Ok (Some (blank_region\<lparr>er_alloc := True\<rparr>)) ex else Ext_Ok None ex)
      in if exf_fixed ex then
           (case fex_freelist ex of
              [] \<Rightarrow>
                if EX_MALLOCOK \<in> flags then alloc
                else if EX_WAITOK \<notin> flags then Ext_Ok None ex
                else Ext_Sleep (ex\<lparr>exf_flwanted := True\<rparr>)
            | rp # fl \<Rightarrow> Ext_Ok (Some rp) (ex\<lparr>fex_freelist := fl\<rparr>))
         else alloc)"

definition extent_free_region_descriptor :: "extent_region \<Rightarrow> extent \<Rightarrow> extent" where
  "extent_free_region_descriptor rp ex =
     (if er_discard rp then ex
      else if exf_fixed ex then
        (if er_alloc rp then
           (if exf_flwanted ex
            then ex\<lparr>fex_freelist := rp\<lparr>er_alloc := True, er_discard := False\<rparr> # fex_freelist ex, exf_flwanted := False\<rparr>
            else ex)
         else ex\<lparr>fex_freelist := rp\<lparr>er_alloc := False, er_discard := False\<rparr> # fex_freelist ex, exf_flwanted := False\<rparr>)
      else ex)"

section \<open>Creation\<close>

text \<open>
  \<^verbatim>\<open>extent_create\<close>: \<open>storage\<close> is \<open>None\<close> for a malloced extent, otherwise how many descriptors fit into the
  storage the caller gave (the loop at line 213 carves them out).
\<close>

definition extent_create :: "string \<Rightarrow> u64 \<Rightarrow> u64 \<Rightarrow> nat option \<Rightarrow> bool \<Rightarrow> bool \<Rightarrow> ex_flag set \<Rightarrow> extent option ext_res" where
  "extent_create name start end storage malloc_ok pool flags =
     (let ex = \<lparr>ex_name = name, ex_regions = [], ex_start = start, ex_end = end, exf_fixed = storage \<noteq> None,
                exf_nocoalesce = (EX_NOCOALESCE \<in> flags), exf_wanted = False, exf_flwanted = False,
                fex_freelist = (case storage of None \<Rightarrow> [] | Some n \<Rightarrow> replicate n blank_region)\<rparr>
      in if end < start then Ext_Panic
         else if storage = None \<and> \<not> malloc_ok then Ext_Ok None ex
         else if EX_FILLED \<in> flags then
           (case extent_alloc_region_descriptor pool flags ex of
              Ext_Ok None ex1 \<Rightarrow> Ext_Ok None ex1
            | Ext_Ok (Some rp) ex1 \<Rightarrow>
                (let ex2 = ex1\<lparr>ex_regions := [rp\<lparr>er_start := start, er_end := end\<rparr>]\<rparr> in Ext_Ok (Some ex2) ex2)
            | Ext_Err e ex1 \<Rightarrow> Ext_Err e ex1
            | Ext_Sleep ex1 \<Rightarrow> Ext_Sleep ex1
            | Ext_Panic \<Rightarrow> Ext_Panic)
         else Ext_Ok (Some ex) ex)"

text \<open>\<^verbatim>\<open>extent_destroy\<close> gives every region descriptor back.\<close>

definition extent_destroy :: "extent \<Rightarrow> extent" where
  "extent_destroy ex = fold extent_free_region_descriptor (ex_regions ex) (ex\<lparr>ex_regions := []\<rparr>)"

section \<open>Inserting a region\<close>

text \<open>
  \<^verbatim>\<open>extent_insert_and_optimize\<close>: \<open>after\<close> is the index of the region to insert behind, \<open>None\<close> for the head.
\<close>

definition extent_insert_and_optimize :: "u64 \<Rightarrow> u64 \<Rightarrow> nat option \<Rightarrow> extent_region \<Rightarrow> extent \<Rightarrow> extent" where
  "extent_insert_and_optimize start sz after rp ex =
     (let new = rp\<lparr>er_start := start, er_end := start + (sz - 1)\<rparr>; rs = ex_regions ex
      in case after of
           None \<Rightarrow>
             (if \<not> exf_nocoalesce ex \<and> rs \<noteq> [] \<and> start + sz = er_start (hd rs) then
                extent_free_region_descriptor rp (ex\<lparr>ex_regions := (hd rs)\<lparr>er_start := start\<rparr> # tl rs\<rparr>)
              else ex\<lparr>ex_regions := new # rs\<rparr>)
         | Some i \<Rightarrow>
             (let a = rs ! i;
                  insert = ex\<lparr>ex_regions := take (i + 1) rs @ new # drop (i + 1) rs\<rparr>
              in if exf_nocoalesce ex then insert
                 else
                   (let appended = (er_end a + 1 = start);
                        a' = (if appended then a\<lparr>er_end := start + (sz - 1)\<rparr> else a)
                    in if i + 1 < length rs \<and> start + sz = er_start (rs ! (i + 1)) then
                         (let nextr = rs ! (i + 1)
                          in extent_free_region_descriptor rp
                               (if appended then
                                  extent_free_region_descriptor nextr
                                    (ex\<lparr>ex_regions := take i rs @ a'\<lparr>er_end := er_end nextr\<rparr> # drop (i + 2) rs\<rparr>)
                                else ex\<lparr>ex_regions := rs[i + 1 := nextr\<lparr>er_start := start\<rparr>]\<rparr>))
                       else if appended then extent_free_region_descriptor rp (ex\<lparr>ex_regions := rs[i := a']\<rparr>)
                       else insert)))"

section \<open>Allocating a given region\<close>

text \<open>
  How many regions the \<^verbatim>\<open>LIST_FOREACH\<close> of \<^verbatim>\<open>extent_do_alloc_region\<close> passes before it stops: those that end
  before the request begins. It stops at a region that begins after the request, or at one in conflict.
\<close>

definition region_skip :: "u64 \<Rightarrow> u64 \<Rightarrow> extent_region list \<Rightarrow> nat" where
  "region_skip start end rs = length (takeWhile (\<lambda>r. \<not> er_start r > end \<and> \<not> er_end r \<ge> start) rs)"

definition prev_region :: "nat \<Rightarrow> nat option" where
  "prev_region n = (if n = 0 then None else Some (n - 1))"

definition conflict :: "u64 \<Rightarrow> u64 \<Rightarrow> extent_region \<Rightarrow> bool" where
  "conflict start end r \<longleftrightarrow> er_start r \<le> end \<and> er_end r \<ge> start"

text \<open>From \<^verbatim>\<open>alloc_start\<close> on.\<close>

function extent_place_region ::
    "u64 \<Rightarrow> u64 \<Rightarrow> u64 \<Rightarrow> ex_flag set \<Rightarrow> extent_region \<Rightarrow> extent \<Rightarrow> unit ext_res" where
  "extent_place_region start end sz flags myrp ex =
     (let rs = ex_regions ex; n = region_skip start end rs
      in if n < length rs \<and> \<not> er_start (rs ! n) > end then
           (let rp = rs ! n
            in if EX_WAITSPACE \<in> flags then Ext_Sleep (ex\<lparr>exf_wanted := True\<rparr>)
               else if EX_CONFLICTOK \<in> flags then
                 (if er_start rp \<le> start then
                    (if er_end rp < ex_end ex
                     then extent_place_region (er_end rp + 1) end (end - (er_end rp + 1) + 1) flags myrp ex
                     else Ext_Ok () ex)
                  else if er_end rp < end then
                    extent_place_region start end sz flags myrp
                      (extent_free_region_descriptor rp (ex\<lparr>ex_regions := take n rs @ drop (n + 1) rs\<rparr>))
                  else if er_start rp < end then
                    (if er_start rp > ex_start ex
                     then extent_place_region start (er_start rp - 1) ((er_start rp - 1) - start + 1) flags myrp ex
                     else Ext_Ok () ex)
                  else Ext_Ok () ex)
               else Ext_Err EAGAIN (extent_free_region_descriptor myrp ex))
         else Ext_Ok () (extent_insert_and_optimize start sz (prev_region n) myrp ex))"
  by pat_completeness auto

lemma region_skip_conflict:
  assumes "region_skip start end rs < length rs" and "\<not> er_start (rs ! region_skip start end rs) > end"
  shows "conflict start end (rs ! region_skip start end rs)"
proof -
  have "\<not> (\<not> er_start (rs ! region_skip start end rs) > end \<and> \<not> er_end (rs ! region_skip start end rs) \<ge> start)"
    using assms(1) unfolding region_skip_def by (rule nth_length_takeWhile)
  with assms(2) show ?thesis by (simp add: conflict_def)
qed

lemma free_descriptor_regions [simp]:
  "ex_regions (extent_free_region_descriptor rp ex) = ex_regions ex"
  "ex_start (extent_free_region_descriptor rp ex) = ex_start ex"
  "ex_end (extent_free_region_descriptor rp ex) = ex_end ex"
  "exf_nocoalesce (extent_free_region_descriptor rp ex) = exf_nocoalesce ex"
  "exf_fixed (extent_free_region_descriptor rp ex) = exf_fixed ex"
  by (simp_all add: extent_free_region_descriptor_def)

lemma length_filter_less:
  assumes "\<And>x. x \<in> set xs \<Longrightarrow> Q x \<Longrightarrow> P x" and "y \<in> set xs" and "P y" and "\<not> Q y"
  shows "length (filter Q xs) < length (filter P xs)"
  using assms
proof (induction xs)
  case (Cons x xs)
  have "\<forall>x\<in>set xs. Q x \<longrightarrow> P x" using Cons.prems(1) by simp
  then have "length (filter Q xs) \<le> length (filter P xs)" by (induction xs) auto
  with Cons show ?case by (cases "y \<in> set xs") auto
qed simp

lemma length_filter_remove:
  "n < length xs \<Longrightarrow> P (xs ! n) \<Longrightarrow> length (filter P (take n xs @ drop (n + 1) xs)) < length (filter P xs)"
  by (subst (3) id_take_nth_drop [of n xs]) auto

termination extent_place_region
proof (relation "measure (\<lambda>(start, end, sz, flags, myrp, ex). length (filter (conflict start end) (ex_regions ex)))",
    goal_cases)
  case 1
  show ?case by simp
next
  case (2 start "end" sz flags myrp ex rs n rp)
  then have c: "conflict start end rp" "rp \<in> set rs" using region_skip_conflict by auto
  from 2 have "er_end rp < ex_end ex" by simp
  then have "er_end rp < er_end rp + 1" by unat_arith
  then have "length (filter (conflict (er_end rp + 1) end) rs) < length (filter (conflict start end) rs)"
    using c by (intro length_filter_less [of rs _ _ rp]) (auto simp: conflict_def)
  with 2 show ?case by simp
next
  case (3 start "end" sz flags myrp ex rs n rp)
  then have "conflict start end (rs ! n)" "n < length rs" using region_skip_conflict by auto
  with 3 show ?case using length_filter_remove [of n rs "conflict start end"] by simp
next
  case (4 start "end" sz flags myrp ex rs n rp)
  then have c: "conflict start end rp" "rp \<in> set rs" using region_skip_conflict by auto
  from 4 have "ex_start ex < er_start rp" "er_start rp < end" by auto
  then have "er_start rp - 1 < er_start rp" "er_start rp - 1 \<le> end" by unat_arith+
  then have "length (filter (conflict start (er_start rp - 1)) rs) < length (filter (conflict start end) rs)"
    using c by (intro length_filter_less [of rs _ _ rp]) (auto simp: conflict_def)
  with 4 show ?case by simp
qed

definition extent_do_alloc_region :: "u64 \<Rightarrow> u64 \<Rightarrow> ex_flag set \<Rightarrow> extent_region \<Rightarrow> extent \<Rightarrow> unit ext_res" where
  "extent_do_alloc_region start sz flags myrp ex =
     (let end = start + (sz - 1)
      in if sz < 1 \<or> end < start \<or> EX_CONFLICTOK \<in> flags \<and> EX_WAITSPACE \<in> flags then Ext_Panic
         else if start < ex_start ex \<or> end > ex_end ex then Ext_Panic
         else extent_place_region start end sz flags myrp ex)"

text \<open>Getting a descriptor first, as \<^verbatim>\<open>extent_alloc_region\<close>, \<^verbatim>\<open>extent_alloc_subregion\<close> do.\<close>

definition with_descriptor ::
    "bool \<Rightarrow> ex_flag set \<Rightarrow> (extent_region \<Rightarrow> extent \<Rightarrow> 'a ext_res) \<Rightarrow> extent \<Rightarrow> 'a ext_res" where
  "with_descriptor pool flags f ex =
     (case extent_alloc_region_descriptor pool flags ex of
        Ext_Ok None ex1 \<Rightarrow> Ext_Err ENOMEM ex1
      | Ext_Ok (Some rp) ex1 \<Rightarrow> f rp ex1
      | Ext_Err e ex1 \<Rightarrow> Ext_Err e ex1
      | Ext_Sleep ex1 \<Rightarrow> Ext_Sleep ex1
      | Ext_Panic \<Rightarrow> Ext_Panic)"

definition extent_alloc_region :: "bool \<Rightarrow> u64 \<Rightarrow> u64 \<Rightarrow> ex_flag set \<Rightarrow> extent \<Rightarrow> unit ext_res" where
  "extent_alloc_region pool start sz flags ex =
     with_descriptor pool flags (\<lambda>rp. extent_do_alloc_region start sz flags rp) ex"

definition extent_alloc_region_with_descr :: "u64 \<Rightarrow> u64 \<Rightarrow> ex_flag set \<Rightarrow> extent_region \<Rightarrow> extent \<Rightarrow> unit ext_res" where
  "extent_alloc_region_with_descr start sz flags rp ex =
     (if \<not> exf_nocoalesce ex then Ext_Panic
      else extent_do_alloc_region start sz flags (rp\<lparr>er_alloc := False, er_discard := True\<rparr>) ex)"

section \<open>Searching for a region\<close>

text \<open>
  The boundary adjustment that \<^verbatim>\<open>extent_do_alloc\<close> makes at a candidate start, at line 737 for the gap before a
  region and at line 832 for the lst gap; \<open>fits\<close> is the test that is repeated after moving the start.
\<close>

datatype bound_res = Bound_Ok u64 | Bound_Nofit | Bound_Fail

definition extent_boundary :: "u64 \<Rightarrow> u64 \<Rightarrow> u64 \<Rightarrow> ex_flag set \<Rightarrow> u64 \<Rightarrow> (u64 \<Rightarrow> bool) \<Rightarrow> u64 \<Rightarrow> bound_res" where
  "extent_boundary exstart exend boundary flags sz fits newstart =
     (if boundary = 0 then Bound_Ok newstart
      else
        (let newend = newstart + (sz - 1);
             dontcross = extent_align (newstart + 1) boundary (if EX_BOUNDZERO \<in> flags then 0 else exstart) - 1
         in if dontcross < exstart then
              (if newstart + sz - 1 > exend \<or> exend < newstart then Bound_Fail else Bound_Ok newstart)
            else if newend > dontcross then
              (let newstart' = dontcross + 1; dontcross' = dontcross + boundary
               in if \<not> fits newstart' then Bound_Nofit
                  else if newstart' + sz - 1 > exend \<or> dontcross' < newstart' then Bound_Fail
                  else Bound_Ok newstart')
            else if newstart + sz - 1 > exend \<or> dontcross < newstart then Bound_Fail
            else Bound_Ok newstart))"

text \<open>The best candidate so far: \<^verbatim>\<open>bestovh\<close> (0 for none), \<^verbatim>\<open>beststart\<close>, \<^verbatim>\<open>bestlast\<close>.\<close>

type_synonym best = "u64 \<times> u64 \<times> nat option"

definition better :: "u64 \<Rightarrow> u64 \<Rightarrow> nat option \<Rightarrow> best \<Rightarrow> best" where
  "better ovh newstart lst b = (if fst b = 0 \<or> ovh < fst b then (ovh, newstart, lst) else b)"

datatype scan =
    Scan_Found u64 "nat option"
  | Scan_Fail best
  | Scan_End u64 "nat option" u64 best

text \<open>
  The loop at line 717: \<open>i\<close> is the index of the region \<^verbatim>\<open>rp\<close> and \<open>lst\<close> the one before it.
\<close>

fun extent_scan ::
    "u64 \<Rightarrow> u64 \<Rightarrow> u64 \<Rightarrow> u64 \<Rightarrow> u64 \<Rightarrow> u64 \<Rightarrow> u64 \<Rightarrow> ex_flag set \<Rightarrow>
     u64 \<Rightarrow> nat option \<Rightarrow> best \<Rightarrow> nat \<Rightarrow> extent_region list \<Rightarrow> scan" where
  "extent_scan exstart exend subend sz alignment skew boundary flags newstart lst b i [] =
     Scan_End newstart lst exend b"
| "extent_scan exstart exend subend sz alignment skew boundary flags newstart lst b i (rp # rs) =
     (if er_start rp > subend then Scan_End newstart lst (er_start rp) b
      else
        (let skip = (\<lambda>b'.
               (let newstart' = extent_align (er_end rp + 1) alignment skew
                in if newstart' < er_end rp then Scan_Fail b'
                   else extent_scan exstart exend subend sz alignment skew boundary flags newstart' (Some i) b' (i + 1) rs))
         in if LE_OV newstart sz (er_start rp) then
              (case extent_boundary exstart exend boundary flags sz (\<lambda>s. LE_OV s sz (er_start rp)) newstart of
                 Bound_Nofit \<Rightarrow> skip b
               | Bound_Fail \<Rightarrow> Scan_Fail b
               | Bound_Ok start \<Rightarrow>
                   (let ovh = er_start rp - start - sz
                    in if EX_FAST \<in> flags \<or> ovh = 0 then Scan_Found start lst
                       else skip (better ovh start lst b)))
            else skip b))"

text \<open>The lst gap, line 826: a found start, or the best candidate.\<close>

definition extent_last_gap ::
    "u64 \<Rightarrow> u64 \<Rightarrow> u64 \<Rightarrow> u64 \<Rightarrow> u64 \<Rightarrow> ex_flag set \<Rightarrow> u64 \<Rightarrow> nat option \<Rightarrow> u64 \<Rightarrow> best \<Rightarrow> scan" where
  "extent_last_gap exstart exend subend sz boundary flags newstart lst gapend b =
     (if LE_OV newstart (sz - 1) subend then
        (case extent_boundary exstart exend boundary flags sz (\<lambda>s. LE_OV s (sz - 1) subend) newstart of
           Bound_Nofit \<Rightarrow> Scan_Fail b
         | Bound_Fail \<Rightarrow> Scan_Fail b
         | Bound_Ok start \<Rightarrow>
             (let ovh = gapend - start - (sz - 1)
              in if EX_FAST \<in> flags \<or> ovh = 0 then Scan_Found start lst
                 else Scan_Fail (better ovh start lst b)))
      else Scan_Fail b)"

definition extent_do_alloc ::
    "u64 \<Rightarrow> u64 \<Rightarrow> u64 \<Rightarrow> u64 \<Rightarrow> u64 \<Rightarrow> u64 \<Rightarrow> ex_flag set \<Rightarrow> extent_region \<Rightarrow> extent \<Rightarrow> u64 ext_res" where
  "extent_do_alloc substart subend sz alignment skew boundary flags myrp ex =
     (if substart < ex_start ex \<or> substart > ex_end ex \<or> subend > ex_end ex \<or> subend < ex_start ex then Ext_Panic
      else if sz < 1 \<or> sz - 1 > subend - substart then Ext_Panic
      else if alignment = 0 then Ext_Panic
      else if boundary \<noteq> 0 \<and> boundary < sz then Ext_Panic
      else
        (let rs = ex_regions ex; newstart0 = extent_align substart alignment skew
         in if newstart0 < ex_start ex then Ext_Panic
            else
              (let n = length (takeWhile (\<lambda>r. \<not> er_start r \<ge> newstart0) rs);
                   newstart = (if n \<noteq> 0 \<and> er_end (rs ! (n - 1)) \<ge> newstart0
                               then extent_align (er_end (rs ! (n - 1)) + 1) alignment skew else newstart0);
                   found = (\<lambda>start lst. Ext_Ok start (extent_insert_and_optimize start sz lst myrp ex));
                   fail = (\<lambda>b. if EX_FAST \<notin> flags \<and> fst b \<noteq> 0 then found (fst (snd b)) (snd (snd b))
                               else if EX_WAITSPACE \<in> flags then Ext_Sleep (ex\<lparr>exf_wanted := True\<rparr>)
                               else Ext_Err EAGAIN (extent_free_region_descriptor myrp ex))
               in case extent_scan (ex_start ex) (ex_end ex) subend sz alignment skew boundary flags newstart
                         (prev_region n) (0, 0, None) n (drop n rs) of
                    Scan_Found start lst \<Rightarrow> found start lst
                  | Scan_Fail b \<Rightarrow> fail b
                  | Scan_End start lst gapend b \<Rightarrow>
                      (case extent_last_gap (ex_start ex) (ex_end ex) subend sz boundary flags start lst gapend b of
                         Scan_Found start' lst' \<Rightarrow> found start' lst'
                       | Scan_Fail b' \<Rightarrow> fail b'
                       | Scan_End _ _ _ b' \<Rightarrow> fail b'))))"

definition extent_alloc_subregion ::
    "bool \<Rightarrow> u64 \<Rightarrow> u64 \<Rightarrow> u64 \<Rightarrow> u64 \<Rightarrow> u64 \<Rightarrow> u64 \<Rightarrow> ex_flag set \<Rightarrow> extent \<Rightarrow> u64 ext_res" where
  "extent_alloc_subregion pool substart subend sz alignment skew boundary flags ex =
     with_descriptor pool flags (\<lambda>rp. extent_do_alloc substart subend sz alignment skew boundary flags rp) ex"

definition extent_alloc_subregion_with_descr ::
    "u64 \<Rightarrow> u64 \<Rightarrow> u64 \<Rightarrow> u64 \<Rightarrow> u64 \<Rightarrow> u64 \<Rightarrow> ex_flag set \<Rightarrow> extent_region \<Rightarrow> extent \<Rightarrow> u64 ext_res" where
  "extent_alloc_subregion_with_descr substart subend sz alignment skew boundary flags rp ex =
     (if \<not> exf_nocoalesce ex then Ext_Panic
      else extent_do_alloc substart subend sz alignment skew boundary flags
             (rp\<lparr>er_alloc := False, er_discard := True\<rparr>) ex)"

section \<open>Freeing\<close>

text \<open>
  The loop of \<^verbatim>\<open>extent_free\<close> at line 1051: the regions that remain, the descriptors it gives back, whether the
  spare descriptor \<open>nrp\<close> was used, and whether it left through \<^verbatim>\<open>goto done\<close>.
\<close>

record free_res =
  fr_regions :: "extent_region list"
  fr_freed :: "extent_region list"
  fr_used :: bool
  fr_done :: bool

definition keep :: "extent_region \<Rightarrow> free_res \<Rightarrow> free_res" where
  "keep rp r = r\<lparr>fr_regions := rp # fr_regions r\<rparr>"

fun extent_free_loop ::
    "bool \<Rightarrow> ex_flag set \<Rightarrow> u64 \<Rightarrow> u64 \<Rightarrow> extent_region \<Rightarrow> extent_region list \<Rightarrow> free_res" where
  "extent_free_loop nocoalesce flags start end nrp [] =
     \<lparr>fr_regions = [], fr_freed = [], fr_used = False, fr_done = False\<rparr>"
| "extent_free_loop nocoalesce flags start end nrp (rp # rs) =
     (let done = (\<lambda>xs freed used. \<lparr>fr_regions = xs @ rs, fr_freed = freed, fr_used = used, fr_done = True\<rparr>);
          next_rp = extent_free_loop nocoalesce flags start end nrp rs
      in if er_end rp < start then keep rp next_rp
         else if er_start rp > end then \<lparr>fr_regions = rp # rs, fr_freed = [], fr_used = False, fr_done = False\<rparr>
         else if start = er_start rp \<and> end = er_end rp then done [] [rp] False
         else if nocoalesce then keep rp next_rp
         else if start = er_start rp \<and> end < er_end rp then done [rp\<lparr>er_start := end + 1\<rparr>] [] False
         else if start > er_start rp \<and> end = er_end rp then done [rp\<lparr>er_end := start - 1\<rparr>] [] False
         else if start > er_start rp \<and> end < er_end rp then
           done [rp\<lparr>er_end := start - 1\<rparr>, nrp\<lparr>er_start := end + 1, er_end := er_end rp\<rparr>] [] True
         else if EX_CONFLICTOK \<notin> flags then keep rp next_rp
         else if start \<le> er_start rp \<and> end \<ge> er_end rp then next_rp\<lparr>fr_freed := rp # fr_freed next_rp\<rparr>
         else
           (let rp1 = (if start \<le> er_start rp \<and> end \<ge> er_start rp then rp\<lparr>er_start := end + 1\<rparr> else rp);
                rp2 = (if start \<le> er_end rp1 \<and> end \<ge> er_end rp1 then rp1\<lparr>er_end := start - 1\<rparr> else rp1)
            in keep rp2 next_rp))"

text \<open>From line 1051 to the end; \<open>nrp\<close> is the spare descriptor.\<close>

definition extent_free_body ::
    "u64 \<Rightarrow> u64 \<Rightarrow> ex_flag set \<Rightarrow> extent_region option \<Rightarrow> extent \<Rightarrow> unit ext_res" where
  "extent_free_body start end flags nrp ex =
     (let r = extent_free_loop (exf_nocoalesce ex) flags start end
                (case nrp of None \<Rightarrow> blank_region | Some rp \<Rightarrow> rp) (ex_regions ex);
          ex2 = fold extent_free_region_descriptor (fr_freed r) (ex\<lparr>ex_regions := fr_regions r\<rparr>)
      in if fr_done r \<or> EX_CONFLICTOK \<in> flags then
           (let ex3 = (case nrp of None \<Rightarrow> ex2
                       | Some rp \<Rightarrow> if fr_used r then ex2 else extent_free_region_descriptor rp ex2)
            in Ext_Ok () (ex3\<lparr>exf_wanted := False\<rparr>))
         else Ext_Panic)"

definition extent_free :: "bool \<Rightarrow> u64 \<Rightarrow> u64 \<Rightarrow> ex_flag set \<Rightarrow> extent \<Rightarrow> unit ext_res" where
  "extent_free pool start sz flags ex =
     (let end = start + (sz - 1)
      in if start < ex_start ex \<or> end > ex_end ex \<or> end < start then Ext_Panic
         else if \<not> exf_nocoalesce ex then
           with_descriptor pool flags (\<lambda>rp. extent_free_body start end flags (Some rp)) ex
         else extent_free_body start end flags None ex)"

section \<open>Alignment\<close>

text \<open>\<open>y\<close> is congruent to the skew \<open>s\<close> modulo \<open>2 ^ k\<close>.\<close>

definition aligned :: "nat \<Rightarrow> u64 \<Rightarrow> u64 \<Rightarrow> bool" where
  "aligned k s y \<longleftrightarrow> (2 :: int) ^ k dvd uint y - uint s"

lemma aligned_take_bit:
  assumes "k \<le> 64"
  shows "aligned k s y \<longleftrightarrow> take_bit k (y - s) = 0"
proof -
  have "take_bit k (y - s) = 0 \<longleftrightarrow> uint (y - s) mod 2 ^ k = 0"
    by (simp add: take_bit_eq_mod [symmetric] unsigned_take_bit_eq [symmetric] word_uint_eq_iff)
  also have "uint (y - s) = (uint y - uint s) mod 2 ^ 64" by (simp add: uint_word_ariths)
  also have "((uint y - uint s) mod 2 ^ 64) mod 2 ^ k = (uint y - uint s) mod 2 ^ k"
    using assms by (intro mod_mod_cancel le_imp_power_dvd)
  finally show ?thesis by (simp add: aligned_def dvd_eq_mod_eq_0)
qed

text \<open>
  What \<^verbatim>\<open>extent_align\<close> computes for a power-of-two alignment: it moves \<open>x\<close> up by less than the alignment (modulo
  \<open>2 ^ 64\<close>), and no aligned address lies in between.
\<close>

lemma extent_align_spec:
  assumes "k < 64"
  obtains d where "extent_align x (2 ^ k) s = x + of_nat d" and "d < 2 ^ k"
    and "aligned k s (extent_align x (2 ^ k) s)"
    and "\<And>y. x \<le> y \<Longrightarrow> aligned k s y \<Longrightarrow> unat x + d \<le> unat y"
proof -
  define w where "w = (x - s) + (2 ^ k - 1)"
  define t where "t = extent_align x (2 ^ k) s"
  define d where "d = 2 ^ k - 1 - unat (take_bit k w)"
  have m: "- (2 ^ k) = NOT (mask k :: u64)" by (rule minus_exp_eq_not_mask)
  have tb: "unat (take_bit k w) < 2 ^ k"
    by (simp add: unsigned_take_bit_eq)
  have anm: "w AND NOT (mask k) = w - take_bit k w"
  proof -
    have "w = (w AND NOT (mask k)) + take_bit k w"
      by (subst disjunctive_add) (auto simp: bit_simps bit_eq_iff [where 'a = u64])
    then show ?thesis by (simp add: algebra_simps)
  qed
  have t: "t = (w AND NOT (mask k)) + s"
    by (simp add: t_def extent_align_def w_def m)
  have d: "(of_nat d :: u64) = (2 ^ k - 1) - take_bit k w"
    using tb by (simp add: d_def of_nat_diff)
  have td: "t = x + of_nat d" using t anm d by (simp add: w_def)
  have dk: "d < 2 ^ k" by (simp add: d_def)
  have "t - s = w AND NOT (mask k)" using t by simp
  then have "take_bit k (t - s) = 0" by (auto simp: bit_eq_iff [where 'a = u64] bit_simps)
  then have al: "aligned k s t" using assms by (simp add: aligned_take_bit)
  have "unat x + d \<le> unat y" if "x \<le> y" "aligned k s y" for y
  proof -
    have "(2 :: int) ^ k dvd 2 ^ 64" using assms by (intro le_imp_power_dvd) simp
    moreover have "uint t = (uint x + int d) mod 2 ^ 64"
    proof -
      have "d < 2 ^ 64" using dk assms by (meson less_trans power_strict_increasing one_less_numeral_iff semiring_norm(76))
      then have "unat (of_nat d :: u64) = d" by (intro unat_of_nat_less) simp
      then have "uint (of_nat d :: u64) = int d" by (metis int_eq_iff uint_nat)
      then show ?thesis by (simp add: td uint_word_ariths)
    qed
    ultimately have "(2 :: int) ^ k dvd (uint x + int d) - uint s"
      using al unfolding aligned_def by (metis dvd_diff_commute dvd_mod_iff mod_diff_left_eq)
    then have "(2 :: int) ^ k dvd (uint y - uint s) - ((uint x + int d) - uint s)"
      using that(2) unfolding aligned_def by (rule dvd_diff [rotated])
    then have "(2 :: int) ^ k dvd uint y - uint x - int d" by (simp add: algebra_simps)
    then have dv: "(2 :: int) ^ k dvd int d - (uint y - uint x)" by (metis diff_diff_eq2 dvd_diff_commute add.commute)
    have le: "uint x \<le> uint y" using that(1) by (simp add: word_le_def)
    have dk': "int d < 2 ^ k" using dk by (metis of_nat_less_iff of_nat_numeral of_nat_power)
    have "uint x + int d \<le> uint y"
    proof (rule ccontr)
      assume "\<not> uint x + int d \<le> uint y"
      then have "0 < int d - (uint y - uint x)" by linarith
      from zdvd_imp_le [OF dv this] show False using le dk' by linarith
    qed
    then show ?thesis unfolding uint_nat by linarith
  qed
  with td dk al show ?thesis using that [of d] unfolding t_def by blast
qed

lemma extent_align_up:
  assumes "k < 64" and "unat x + 2 ^ k \<le> 2 ^ 64"
  shows "x \<le> extent_align x (2 ^ k) s \<and> aligned k s (extent_align x (2 ^ k) s) \<and>
    (\<forall>y. x \<le> y \<and> aligned k s y \<longrightarrow> extent_align x (2 ^ k) s \<le> y)"
proof -
  obtain d where d: "extent_align x (2 ^ k) s = x + of_nat d" "d < 2 ^ k" "aligned k s (extent_align x (2 ^ k) s)"
    "\<And>y. x \<le> y \<Longrightarrow> aligned k s y \<Longrightarrow> unat x + d \<le> unat y"
    using extent_align_spec [OF assms(1)] by metis
  have lt: "unat x + d < 2 ^ 64" using assms(2) d(2) by linarith
  then have "unat (of_nat d :: u64) = d" by (intro unat_of_nat_less) simp
  then have "unat (x + of_nat d) = unat x + d" using lt by (simp add: unat_word_ariths)
  then show ?thesis using d by (simp add: word_le_nat_alt)
qed

section \<open>Invariant\<close>

definition region_set :: "extent_region \<Rightarrow> u64 set" where
  "region_set r = {er_start r..er_end r}"

text \<open>The addresses a list of regions covers, and those an extent has allocated.\<close>

definition covers :: "extent_region list \<Rightarrow> u64 set" where
  "covers rs = \<Union> (region_set ` set rs)"

abbreviation allocated :: "extent \<Rightarrow> u64 set" where
  "allocated ex \<equiv> covers (ex_regions ex)"

definition regions_ok :: "u64 \<Rightarrow> u64 \<Rightarrow> extent_region list \<Rightarrow> bool" where
  "regions_ok lo hi rs \<longleftrightarrow>
     sorted_wrt (\<lambda>r r'. er_end r < er_start r') rs \<and>
     (\<forall>r\<in>set rs. lo \<le> er_start r \<and> er_start r \<le> er_end r \<and> er_end r \<le> hi)"

definition ex_inv :: "extent \<Rightarrow> bool" where
  "ex_inv ex \<longleftrightarrow> ex_start ex \<le> ex_end ex \<and> regions_ok (ex_start ex) (ex_end ex) (ex_regions ex)"

text \<open>The range \<open>s..e\<close> lies between the first \<open>k\<close> regions and the others.\<close>

definition fits_at :: "extent_region list \<Rightarrow> nat \<Rightarrow> u64 \<Rightarrow> u64 \<Rightarrow> bool" where
  "fits_at rs k s e \<longleftrightarrow>
     k \<le> length rs \<and> s \<le> e \<and> (\<forall>r\<in>set (take k rs). er_end r < s) \<and> (\<forall>r\<in>set (drop k rs). e < er_start r)"

lemma covers_simps [simp]:
  "covers [] = {}" "covers (r # rs) = region_set r \<union> covers rs" "covers (xs @ ys) = covers xs \<union> covers ys"
  by (auto simp: covers_def)

lemma regions_ok_append:
  "regions_ok lo hi (xs @ ys) \<longleftrightarrow>
   regions_ok lo hi xs \<and> regions_ok lo hi ys \<and> (\<forall>x\<in>set xs. \<forall>y\<in>set ys. er_end x < er_start y)"
  by (auto simp: regions_ok_def sorted_wrt_append)

lemma regions_ok_Cons:
  "regions_ok lo hi (r # rs) \<longleftrightarrow>
   lo \<le> er_start r \<and> er_start r \<le> er_end r \<and> er_end r \<le> hi \<and> (\<forall>y\<in>set rs. er_end r < er_start y) \<and>
   regions_ok lo hi rs"
  by (auto simp: regions_ok_def)

lemma regions_ok_Nil [simp]: "regions_ok lo hi []"
  by (simp add: regions_ok_def)

lemma word_succ_le: "b < c \<Longrightarrow> b + 1 \<le> x \<longleftrightarrow> b < (x :: 'a::len word)"
  by unat_arith

lemma word_join:
  assumes "a \<le> b" and "b < c"
  shows "{a..b} \<union> {b + 1..c} = {a..(c :: 'a::len word)}"
  using assms by (auto simp: word_succ_le [OF assms(2)])

text \<open>The three ways a region is joined with its neighbours, and the plain insertion.\<close>

lemma insert_append:
  fixes xs ys :: "extent_region list" and ex :: extent
  assumes "ex_regions ex = xs @ ys"
  defines "res \<equiv> \<lambda>start sz rp. ex_regions (extent_insert_and_optimize start sz (prev_region (length xs)) rp ex)"
  shows "res start sz rp =
    (let new = rp\<lparr>er_start := start, er_end := start + (sz - 1)\<rparr>;
         joinl = (\<not> exf_nocoalesce ex \<and> xs \<noteq> [] \<and> er_end (last xs) + 1 = start);
         joinr = (\<not> exf_nocoalesce ex \<and> ys \<noteq> [] \<and> start + sz = er_start (hd ys))
     in if joinl \<and> joinr then butlast xs @ (last xs)\<lparr>er_end := er_end (hd ys)\<rparr> # tl ys
        else if joinr then xs @ (hd ys)\<lparr>er_start := start\<rparr> # tl ys
        else if joinl then butlast xs @ (last xs)\<lparr>er_end := start + (sz - 1)\<rparr> # ys
        else xs @ new # ys)"
proof (cases xs rule: rev_cases)
  case Nil
  with assms(1) show ?thesis
    by (simp add: res_def extent_insert_and_optimize_def prev_region_def Let_def)
next
  case (snoc zs a)
  show ?thesis
  proof (cases ys)
    case Nil
    with snoc assms(1) show ?thesis
      by (simp add: res_def extent_insert_and_optimize_def prev_region_def Let_def nth_append list_update_append)
  next
    case (Cons b bs)
    with snoc assms(1) show ?thesis
      by (simp add: res_def extent_insert_and_optimize_def prev_region_def Let_def nth_append list_update_append)
  qed
qed

lemma insert_fields [simp]:
  "ex_start (extent_insert_and_optimize start sz after rp ex) = ex_start ex"
  "ex_end (extent_insert_and_optimize start sz after rp ex) = ex_end ex"
  by (simp_all add: extent_insert_and_optimize_def Let_def split: option.split)

lemma insert_shape:
  fixes start sz :: u64
  assumes "ex_regions ex = xs @ ys"
  defines "joinl \<equiv> \<not> exf_nocoalesce ex \<and> xs \<noteq> [] \<and> er_end (last xs) + 1 = start"
    and "joinr \<equiv> \<not> exf_nocoalesce ex \<and> ys \<noteq> [] \<and> start + sz = er_start (hd ys)"
  shows "\<exists>m. ex_regions (extent_insert_and_optimize start sz (prev_region (length xs)) rp ex) =
      (if joinl then butlast xs else xs) @ m # (if joinr then tl ys else ys) \<and>
    er_start m = (if joinl then er_start (last xs) else start) \<and>
    er_end m = (if joinr then er_end (hd ys) else start + (sz - 1))"
  using insert_append [OF assms(1), of start sz rp] by (auto simp: joinl_def joinr_def Let_def)

lemma join_left:
  assumes "regions_ok lo hi xs" and "\<forall>r\<in>set xs. er_end r < start" and "start \<le> e"
    and "xs \<noteq> []" and "er_end (last xs) + 1 = start"
  shows "covers xs \<union> {start..e} = covers (butlast xs) \<union> {er_start (last xs)..e}"
    and "er_start (last xs) \<le> start \<and> lo \<le> er_start (last xs) \<and> regions_ok lo hi (butlast xs) \<and>
      (\<forall>r\<in>set (butlast xs). er_end r < er_start (last xs))"
proof -
  obtain zs a where xs: "xs = zs @ [a]" using assms(4) by (metis rev_exhaust)
  have a: "er_start a \<le> er_end a" "er_end a < start" using assms(1,2) xs by (auto simp: regions_ok_def)
  have "{er_start a..er_end a} \<union> {start..e} = {er_start a..e}"
    using word_join [of "er_start a" "er_end a" e] a assms(3,5) xs by auto
  then show "covers xs \<union> {start..e} = covers (butlast xs) \<union> {er_start (last xs)..e}"
    unfolding xs by (simp add: region_set_def Un_assoc)
  show "er_start (last xs) \<le> start \<and> lo \<le> er_start (last xs) \<and> regions_ok lo hi (butlast xs) \<and>
      (\<forall>r\<in>set (butlast xs). er_end r < er_start (last xs))"
    using assms(1) a by (auto simp: xs regions_ok_append regions_ok_Cons)
qed

lemma join_right:
  assumes "regions_ok lo hi ys" and "\<forall>r\<in>set ys. e < er_start r" and "start \<le> e"
    and "ys \<noteq> []" and "e + 1 = er_start (hd ys)"
  shows "{start..e} \<union> covers ys = {start..er_end (hd ys)} \<union> covers (tl ys)"
    and "e \<le> er_end (hd ys) \<and> er_end (hd ys) \<le> hi \<and> regions_ok lo hi (tl ys) \<and>
      (\<forall>r\<in>set (tl ys). er_end (hd ys) < er_start r)"
proof -
  obtain b bs where ys: "ys = b # bs" using assms(4) by (metis list.exhaust)
  have b: "er_start b \<le> er_end b" "e < er_start b" using assms(1,2) ys by (auto simp: regions_ok_def)
  have "{start..e} \<union> {er_start b..er_end b} = {start..er_end b}"
    using word_join [of start e "er_end b"] b assms(3,5) ys by auto
  then show "{start..e} \<union> covers ys = {start..er_end (hd ys)} \<union> covers (tl ys)"
    unfolding ys by (simp add: region_set_def Un_assoc [symmetric])
  show "e \<le> er_end (hd ys) \<and> er_end (hd ys) \<le> hi \<and> regions_ok lo hi (tl ys) \<and>
      (\<forall>r\<in>set (tl ys). er_end (hd ys) < er_start r)"
    using assms(1) b by (auto simp: ys regions_ok_Cons)
qed

lemma insert_inv:
  assumes inv: "ex_inv ex" and fits: "fits_at (ex_regions ex) k start (start + (sz - 1))"
    and range: "ex_start ex \<le> start" "start + (sz - 1) \<le> ex_end ex"
  shows "ex_inv (extent_insert_and_optimize start sz (prev_region k) rp ex) \<and>
    allocated (extent_insert_and_optimize start sz (prev_region k) rp ex) = allocated ex \<union> {start..start + (sz - 1)}"
proof -
  define xs ys e where "xs = take k (ex_regions ex)" and "ys = drop k (ex_regions ex)" and "e = start + (sz - 1)"
  have rs: "ex_regions ex = xs @ ys" and len: "length xs = k" using fits by (simp_all add: xs_def ys_def fits_at_def)
  have se: "start \<le> e" and before: "\<forall>r\<in>set xs. er_end r < start" and after: "\<forall>r\<in>set ys. e < er_start r"
    using fits by (auto simp: fits_at_def xs_def ys_def e_def)
  have next_e: "start + sz = e + 1" by (simp add: e_def)
  have ok: "regions_ok (ex_start ex) (ex_end ex) xs" "regions_ok (ex_start ex) (ex_end ex) ys"
    and lt: "\<forall>x\<in>set xs. \<forall>y\<in>set ys. er_end x < er_start y"
    using inv rs by (simp_all add: ex_inv_def regions_ok_append)
  define joinl joinr where "joinl \<longleftrightarrow> \<not> exf_nocoalesce ex \<and> xs \<noteq> [] \<and> er_end (last xs) + 1 = start"
    and "joinr \<longleftrightarrow> \<not> exf_nocoalesce ex \<and> ys \<noteq> [] \<and> e + 1 = er_start (hd ys)"
  define xs' ys' ms me where "xs' = (if joinl then butlast xs else xs)" and "ys' = (if joinr then tl ys else ys)"
    and "ms = (if joinl then er_start (last xs) else start)" and "me = (if joinr then er_end (hd ys) else e)"
  obtain m where m: "ex_regions (extent_insert_and_optimize start sz (prev_region k) rp ex) = xs' @ m # ys'"
    "er_start m = ms" "er_end m = me"
    using insert_shape [OF rs, of start sz rp]
    unfolding len next_e e_def [symmetric] joinl_def [symmetric] joinr_def [symmetric] xs'_def ys'_def ms_def me_def
    by blast
  have R: "{start..e} \<union> covers ys = {start..me} \<union> covers ys' \<and> e \<le> me \<and> me \<le> ex_end ex \<and>
      regions_ok (ex_start ex) (ex_end ex) ys' \<and> (\<forall>r\<in>set ys'. me < er_start r)"
    using join_right [OF ok(2) after se] range after ok(2)
    by (cases joinr) (auto simp: joinr_def ys'_def me_def e_def)
  then have "start \<le> me" using se by (meson order_trans)
  then have L: "covers xs \<union> {start..me} = covers xs' \<union> {ms..me} \<and> ms \<le> start \<and> ex_start ex \<le> ms \<and>
      regions_ok (ex_start ex) (ex_end ex) xs' \<and> (\<forall>r\<in>set xs'. er_end r < ms)"
    using join_left [OF ok(1) before \<open>start \<le> me\<close>] range before ok(1)
    by (cases joinl) (auto simp: joinl_def xs'_def ms_def)
  have sub: "set xs' \<subseteq> set xs" "set ys' \<subseteq> set ys"
    by (auto simp: xs'_def ys'_def dest: in_set_butlastD list.set_sel(2) split: if_splits)
      (metis list.sel(2) list.set_sel(2))
  have "regions_ok (ex_start ex) (ex_end ex) (xs' @ m # ys')"
    using L R sub lt \<open>start \<le> me\<close> by (auto simp: regions_ok_append regions_ok_Cons m)
  moreover have "covers (xs' @ m # ys') = covers (xs @ ys) \<union> {start..e}"
    using L R by (simp add: region_set_def m) blast
  ultimately show ?thesis using inv rs m by (simp add: ex_inv_def e_def)
qed

declare extent_place_region.simps [simp del]

section \<open>Allocating a given region\<close>

lemma fits_disjoint:
  assumes "fits_at rs k s e"
  shows "covers rs \<inter> {s..e} = {}"
proof -
  have "rs = take k rs @ drop k rs" by simp
  then have "r \<in> set (take k rs) \<or> r \<in> set (drop k rs)" if "r \<in> set rs" for r
    using that by (metis Un_iff set_append)
  then have "er_end r < s \<or> e < er_start r" if "r \<in> set rs" for r
    using that assms by (auto simp: fits_at_def)
  then show ?thesis by (force simp: covers_def region_set_def)
qed

lemma conflict_overlaps:
  assumes "r \<in> set rs" and "conflict s e r" and "s \<le> e" and "er_start r \<le> er_end r"
  shows "covers rs \<inter> {s..e} \<noteq> {}"
proof -
  have "max (er_start r) s \<in> region_set r \<inter> {s..e}"
    using assms by (auto simp: conflict_def region_set_def max_def)
  then show ?thesis using assms(1) by (auto simp: covers_def)
qed

lemma region_skip_fits:
  assumes ok: "regions_ok lo hi rs" and se: "start \<le> end"
    and no: "\<not> (region_skip start end rs < length rs \<and> \<not> er_start (rs ! region_skip start end rs) > end)"
  shows "fits_at rs (region_skip start end rs) start end"
proof -
  define P :: "extent_region \<Rightarrow> bool" where "P = (\<lambda>r. \<not> er_start r > end \<and> \<not> er_end r \<ge> start)"
  define n where "n = region_skip start end rs"
  have n: "take n rs = takeWhile P rs" "drop n rs = dropWhile P rs" "n \<le> length rs"
    by (simp_all add: n_def region_skip_def P_def [symmetric] takeWhile_eq_take [symmetric] dropWhile_eq_drop [symmetric]
        length_takeWhile_le)
  have "end < er_start r" if r: "r \<in> set (drop n rs)" for r
  proof -
    obtain b bs where d: "drop n rs = b # bs" using r by (cases "drop n rs") auto
    have "n < length rs" using that by (cases "n < length rs") auto
    moreover have "rs ! n = b" using d by (rule nth_via_drop)
    ultimately have b: "end < er_start b" using no by (simp add: n_def [symmetric])
    have "regions_ok lo hi (b # bs)" using ok d by (metis append_take_drop_id regions_ok_append)
    then show ?thesis using that d b by (auto simp: regions_ok_Cons intro: less_trans order.strict_trans2)
  qed
  moreover have "er_end r < start" if "r \<in> set (take n rs)" for r
    using that by (auto simp: n P_def dest: set_takeWhileD)
  ultimately show ?thesis using n(3) se by (simp add: fits_at_def n_def [symmetric])
qed

lemma ex_inv_frame:
  assumes "ex_inv ex" and "ex_regions ex' = ex_regions ex" and "ex_start ex' = ex_start ex" and "ex_end ex' = ex_end ex"
  shows "ex_inv ex'"
  using assms by (simp add: ex_inv_def)

definition same_space :: "extent \<Rightarrow> extent \<Rightarrow> bool" where
  "same_space ex ex' \<longleftrightarrow>
     ex_regions ex' = ex_regions ex \<and> ex_start ex' = ex_start ex \<and> ex_end ex' = ex_end ex \<and>
     exf_nocoalesce ex' = exf_nocoalesce ex"

lemma same_space_inv: "same_space ex ex' \<Longrightarrow> ex_inv ex \<Longrightarrow> ex_inv ex' \<and> allocated ex' = allocated ex"
  by (simp add: same_space_def ex_inv_def)

lemma same_space_free [simp]: "same_space ex (extent_free_region_descriptor rp ex)"
  by (simp add: same_space_def)

lemma same_space_wanted [simp]: "same_space ex (ex\<lparr>exf_wanted := b\<rparr>)"
  by (simp add: same_space_def)

text \<open>Getting a descriptor changes only the free list and the wanted flag.\<close>

lemma alloc_descriptor_space:
  "case extent_alloc_region_descriptor pool flags ex of
     Ext_Ok rp ex' \<Rightarrow> same_space ex ex' | Ext_Sleep ex' \<Rightarrow> same_space ex ex' | _ \<Rightarrow> False"
  by (auto simp: extent_alloc_region_descriptor_def same_space_def Let_def split: list.split)

lemma with_descriptor_cases:
  obtains (nomem) ex1 where "same_space ex ex1" "with_descriptor pool flags f ex = Ext_Err ENOMEM ex1"
  | (sleep) ex1 where "same_space ex ex1" "with_descriptor pool flags f ex = Ext_Sleep ex1"
  | (got) rp ex1 where "same_space ex ex1" "with_descriptor pool flags f ex = f rp ex1"
proof (cases "extent_alloc_region_descriptor pool flags ex")
  case (Ext_Ok r ex1)
  with alloc_descriptor_space [of ex pool flags] nomem got show ?thesis
    by (cases r) (auto simp: with_descriptor_def)
qed (use alloc_descriptor_space [of ex pool flags] sleep in \<open>auto simp: with_descriptor_def\<close>)

lemma place_region_exact:
  assumes inv: "ex_inv ex" and se: "start \<le> end" and e: "end = start + (sz - 1)"
    and range: "ex_start ex \<le> start" "end \<le> ex_end ex" and flags: "EX_CONFLICTOK \<notin> flags"
  shows "case extent_place_region start end sz flags myrp ex of
      Ext_Ok _ ex' \<Rightarrow> allocated ex \<inter> {start..end} = {} \<and> ex_inv ex' \<and> allocated ex' = allocated ex \<union> {start..end}
    | Ext_Err err ex' \<Rightarrow> err = EAGAIN \<and> same_space ex ex' \<and> allocated ex \<inter> {start..end} \<noteq> {}
    | Ext_Sleep ex' \<Rightarrow> EX_WAITSPACE \<in> flags \<and> same_space ex ex' \<and> allocated ex \<inter> {start..end} \<noteq> {}
    | Ext_Panic \<Rightarrow> False"
proof -
  define rs n where "rs = ex_regions ex" and "n = region_skip start end rs"
  have ok: "regions_ok (ex_start ex) (ex_end ex) rs" using inv by (simp add: ex_inv_def rs_def)
  show ?thesis
  proof (cases "n < length rs \<and> \<not> er_start (rs ! n) > end")
    case True
    then have "conflict start end (rs ! n)" "rs ! n \<in> set rs"
      using region_skip_conflict [of start "end" rs] by (auto simp: n_def)
    moreover have "er_start (rs ! n) \<le> er_end (rs ! n)" using ok True by (auto simp: regions_ok_def)
    ultimately have "covers rs \<inter> {start..end} \<noteq> {}" using conflict_overlaps se by blast
    moreover have "extent_place_region start end sz flags myrp ex =
       (if EX_WAITSPACE \<in> flags then Ext_Sleep (ex\<lparr>exf_wanted := True\<rparr>)
        else Ext_Err EAGAIN (extent_free_region_descriptor myrp ex))"
      using True flags by (subst extent_place_region.simps) (simp add: rs_def n_def Let_def)
    ultimately show ?thesis by (simp add: rs_def)
  next
    case False
    have fit: "fits_at rs n start end" using region_skip_fits [OF ok se] False by (simp add: n_def)
    have "extent_place_region start end sz flags myrp ex = Ext_Ok () (extent_insert_and_optimize start sz (prev_region n) myrp ex)"
      using False [unfolded n_def rs_def]
      by (subst extent_place_region.simps) (simp only: Let_def rs_def n_def if_False)
    moreover note insert_inv [OF inv, of n start sz myrp] fits_disjoint [OF fit]
    ultimately show ?thesis using fit range e by (simp add: rs_def)
  qed
qed

section \<open>Freeing\<close>

lemma word_pred_le: "a < s \<Longrightarrow> x \<le> s - 1 \<longleftrightarrow> x < (s :: 'a::len word)"
  by unat_arith

lemma fr_keep [simp]:
  "fr_regions (keep rp r) = rp # fr_regions r" "fr_freed (keep rp r) = fr_freed r"
  "fr_used (keep rp r) = fr_used r" "fr_done (keep rp r) = fr_done r"
  by (simp_all add: keep_def)

text \<open>A region that is cut stays where it was and loses exactly the freed addresses.\<close>

lemma cut_left:
  "er_start r \<le> er_end r \<Longrightarrow> start \<le> er_start r \<Longrightarrow> er_start r \<le> e \<Longrightarrow> e < er_end r \<Longrightarrow>
   region_set (r\<lparr>er_start := e + 1\<rparr>) = region_set r - {start..e}"
  by (auto simp: region_set_def word_succ_le intro: order_trans less_imp_le)

lemma cut_right:
  "start \<le> e \<Longrightarrow> er_start r < start \<Longrightarrow> start \<le> er_end r \<Longrightarrow> er_end r \<le> e \<Longrightarrow>
   region_set (r\<lparr>er_end := start - 1\<rparr>) = region_set r - {start..e}"
  by (auto simp: region_set_def word_pred_le intro: order_trans less_imp_le)

lemma cut_middle:
  "start \<le> e \<Longrightarrow> er_start r < start \<Longrightarrow> e < er_end r \<Longrightarrow>
   region_set (r\<lparr>er_end := start - 1\<rparr>) \<union> region_set (n\<lparr>er_start := e + 1, er_end := er_end r\<rparr>) = region_set r - {start..e}"
  by (auto simp: region_set_def word_pred_le word_succ_le intro: order_trans less_imp_le)

lemma covers_after: "\<forall>y\<in>set rs. e < er_start y \<Longrightarrow> covers rs - {s..e} = covers rs"
  by (force simp: covers_def region_set_def)

text \<open>The specification of the loop for an extent that may coalesce.\<close>

definition freed_ok :: "u64 \<Rightarrow> u64 \<Rightarrow> u64 \<Rightarrow> u64 \<Rightarrow> extent_region list \<Rightarrow> extent_region list \<Rightarrow> bool" where
  "freed_ok lo hi start e rs rs' \<longleftrightarrow>
     regions_ok lo hi rs' \<and> covers rs' = covers rs - {start..e} \<and>
     (\<forall>y\<in>set rs'. \<exists>y0\<in>set rs. er_start y0 \<le> er_start y)"

lemma freed_ok_keep:
  assumes ok: "regions_ok lo hi (r # rs)" and rest: "freed_ok lo hi start e rs rs'"
    and r': "region_set r' = region_set r - {start..e}" "lo \<le> er_start r'" "er_start r' \<le> er_end r'"
      "er_end r' \<le> er_end r" "er_start r \<le> er_start r'"
  shows "freed_ok lo hi start e (r # rs) (r' # rs')"
proof -
  have "er_end r' < er_start y" if "y \<in> set rs'" for y
  proof -
    obtain y0 where "y0 \<in> set rs" "er_start y0 \<le> er_start y" using rest \<open>y \<in> set rs'\<close> by (auto simp: freed_ok_def)
    then show ?thesis using ok r'(4) by (auto simp: regions_ok_Cons intro: order.strict_trans1 order.strict_trans2)
  qed
  moreover have "er_end r' \<le> hi" using ok r'(4) by (auto simp: regions_ok_Cons intro: order_trans)
  ultimately show ?thesis
    using rest r' by (auto simp: freed_ok_def regions_ok_Cons)
qed

lemma freed_ok_left:
  assumes ok: "regions_ok lo hi (r # rs)" and rest: "freed_ok lo hi start e rs rs'"
    and r: "start \<le> er_start r" "er_start r \<le> e" "e < er_end r"
  shows "freed_ok lo hi start e (r # rs) (r\<lparr>er_start := e + 1\<rparr> # rs')"
proof (rule freed_ok_keep [OF ok rest])
  have "er_start r \<le> e + 1" "e + 1 \<le> er_end r" using r(2,3) by unat_arith+
  then show "lo \<le> er_start (r\<lparr>er_start := e + 1\<rparr>)" "er_start (r\<lparr>er_start := e + 1\<rparr>) \<le> er_end (r\<lparr>er_start := e + 1\<rparr>)"
    "er_start r \<le> er_start (r\<lparr>er_start := e + 1\<rparr>)"
    using ok by (auto simp: regions_ok_Cons intro: order_trans)
  show "region_set (r\<lparr>er_start := e + 1\<rparr>) = region_set r - {start..e}"
    using ok r by (intro cut_left) (auto simp: regions_ok_Cons)
qed simp

lemma freed_ok_right:
  assumes ok: "regions_ok lo hi (r # rs)" and rest: "freed_ok lo hi start e rs rs'"
    and r: "start \<le> e" "er_start r < start" "start \<le> er_end r" "er_end r \<le> e"
  shows "freed_ok lo hi start e (r # rs) (r\<lparr>er_end := start - 1\<rparr> # rs')"
proof (rule freed_ok_keep [OF ok rest])
  have "er_start r \<le> start - 1" "start - 1 \<le> er_end r" using r(2,3) by unat_arith+
  then show "er_start (r\<lparr>er_end := start - 1\<rparr>) \<le> er_end (r\<lparr>er_end := start - 1\<rparr>)"
    "er_end (r\<lparr>er_end := start - 1\<rparr>) \<le> er_end r" by simp_all
  show "region_set (r\<lparr>er_end := start - 1\<rparr>) = region_set r - {start..e}"
    using r by (intro cut_right)
qed (use ok in \<open>auto simp: regions_ok_Cons\<close>)

lemma freed_ok_rest:
  assumes "regions_ok lo hi rs" and "\<forall>y\<in>set rs. e < er_start y"
  shows "freed_ok lo hi start e rs rs"
  using assms covers_after [OF assms(2)] by (auto simp: freed_ok_def)

lemma free_loop_spec:
  assumes "regions_ok lo hi rs" and se: "start \<le> e"
    and "EX_CONFLICTOK \<in> flags \<or> (\<exists>r\<in>set rs. er_start r \<le> start \<and> e \<le> er_end r)"
  shows "freed_ok lo hi start e rs (fr_regions (extent_free_loop False flags start e nrp rs)) \<and>
    (EX_CONFLICTOK \<in> flags \<or> fr_done (extent_free_loop False flags start e nrp rs))"
  using assms(1,3)
proof (induction rs)
  case Nil
  then show ?case by (auto simp: freed_ok_def)
next
  case (Cons rp rs)
  have ok: "regions_ok lo hi rs" and rp: "lo \<le> er_start rp" "er_start rp \<le> er_end rp" "er_end rp \<le> hi"
    and lt: "\<forall>y\<in>set rs. er_end rp < er_start y"
    using Cons.prems(1) by (auto simp: regions_ok_Cons)
  have rest: "e \<le> er_end rp \<Longrightarrow> freed_ok lo hi start e rs rs"
    using lt by (intro freed_ok_rest [OF ok]) (auto intro: order.strict_trans1)
  note keep = freed_ok_keep [OF Cons.prems(1)]
  note IH = Cons.IH [OF ok]
  let ?L = "extent_free_loop False flags start e nrp (rp # rs)"
  let ?T = "extent_free_loop False flags start e nrp rs"
  consider (before) "er_end rp < start" | (after) "start \<le> er_end rp" "e < er_start rp"
    | (c1) "start = er_start rp" "e = er_end rp"
    | (c2) "start = er_start rp" "e < er_end rp" | (c3) "er_start rp < start" "start \<le> er_end rp" "e = er_end rp"
    | (c4) "er_start rp < start" "e < er_end rp"
    | (other) "\<not> er_end rp < start" "\<not> e < er_start rp" "\<not> (start = er_start rp \<and> e = er_end rp)"
      "\<not> (start = er_start rp \<and> e < er_end rp)" "\<not> (er_start rp < start \<and> e = er_end rp)"
      "\<not> (er_start rp < start \<and> e < er_end rp)"
    by (meson linorder_not_less)
  then show ?case
  proof cases
    case before
    then have tl: "EX_CONFLICTOK \<in> flags \<or> (\<exists>r\<in>set rs. er_start r \<le> start \<and> e \<le> er_end r)"
      using Cons.prems(2) se by (auto dest: order.strict_trans1)
    have "region_set rp = region_set rp - {start..e}" using before by (force simp: region_set_def)
    with before IH [OF tl] show ?thesis using keep [of start e _ rp] rp by simp
  next
    case after
    have "freed_ok lo hi start e (rp # rs) (rp # rs)"
      using after lt rp Cons.prems(1) by (intro freed_ok_rest) (auto intro: less_trans order.strict_trans2)
    moreover have "EX_CONFLICTOK \<in> flags"
      using Cons.prems(2) after lt se rp by (auto dest: order.strict_trans1 order.strict_trans2 less_trans)
    ultimately show ?thesis using after by (auto simp: Let_def dest: leD)
  next
    case c1
    have "freed_ok lo hi start e (rp # rs) rs"
      using rest c1 ok by (auto simp: freed_ok_def region_set_def Un_Diff)
    with c1 rp se show ?thesis by (auto simp: Let_def dest: leD)
  next
    case c2
    have "freed_ok lo hi start e (rp # rs) (rp\<lparr>er_start := e + 1\<rparr> # rs)"
      using c2 rest se by (intro freed_ok_left [OF Cons.prems(1)]) auto
    with c2 rp se show ?thesis by (auto simp: Let_def dest: leD)
  next
    case c3
    have "freed_ok lo hi start e (rp # rs) (rp\<lparr>er_end := start - 1\<rparr> # rs)"
      using c3 rest se by (intro freed_ok_right [OF Cons.prems(1)]) auto
    with c3 rp se show ?thesis by (auto simp: Let_def dest: leD)
  next
    case c4
    have c4less: "start \<le> er_end rp" "er_start rp \<le> e" "start \<noteq> er_start rp" "e \<noteq> er_end rp"
      using c4 se by (auto intro: order_trans less_imp_le)
    have ords: "er_start rp \<le> start - 1" "start - 1 < e + 1" "start - 1 \<le> er_end rp" "e + 1 \<le> er_end rp" "er_start rp \<le> e + 1"
      using c4 se by unat_arith+
    have "freed_ok lo hi start e (rp # rs) (rp\<lparr>er_end := start - 1\<rparr> # nrp\<lparr>er_start := e + 1, er_end := er_end rp\<rparr> # rs)"
    proof -
      have "covers rs - {start..e} = covers rs" using lt c4 by (intro covers_after) (auto intro: less_trans)
      then have "covers (rp\<lparr>er_end := start - 1\<rparr> # nrp\<lparr>er_start := e + 1, er_end := er_end rp\<rparr> # rs) = covers (rp # rs) - {start..e}"
        using cut_middle [OF se c4, of nrp] by (simp add: Un_Diff Un_assoc [symmetric])
      then show ?thesis using ords rp lt ok by (auto simp: freed_ok_def regions_ok_Cons intro: order_trans)
    qed
    with c4 rp c4less se show ?thesis by (auto simp: Let_def dest: leD)
  next
    case other
    then have ov: "start \<le> er_end rp" "er_start rp \<le> e" "start < er_start rp \<or> er_end rp < e" by auto
    have "\<not> (\<exists>r\<in>set (rp # rs). er_start r \<le> start \<and> e \<le> er_end r)"
      using ov lt by (auto dest: order.strict_trans1 order.strict_trans2 leD)
    then have cf: "EX_CONFLICTOK \<in> flags" using Cons.prems(2) by blast
    have tl: "freed_ok lo hi start e rs (fr_regions ?T)" using IH cf by blast
    show ?thesis
    proof (cases "start \<le> er_start rp \<and> er_end rp \<le> e")
      case True
      then have "fr_regions ?L = fr_regions ?T" using other cf by (auto simp: Let_def)
      moreover have "region_set rp - {start..e} = {}" using True by (auto simp: region_set_def)
      ultimately show ?thesis using tl cf by (auto simp: freed_ok_def)
    next
      case part: False
      show ?thesis
      proof (cases "start \<le> er_start rp")
        case True
        then have lt_e: "e < er_end rp" using part by simp
        then have "fr_regions ?L = rp\<lparr>er_start := e + 1\<rparr> # fr_regions ?T"
          using other cf True part ov by (auto simp: Let_def dest: leD)
        moreover have "freed_ok lo hi start e (rp # rs) (rp\<lparr>er_start := e + 1\<rparr> # fr_regions ?T)"
          by (rule freed_ok_left [OF Cons.prems(1) tl True ov(2) lt_e])
        ultimately show ?thesis using cf by simp
      next
        case False
        then have "er_start rp < start" "er_end rp < e" using other ov by auto
        then have "fr_regions ?L = rp\<lparr>er_end := start - 1\<rparr> # fr_regions ?T"
          using other cf part ov by (auto simp: Let_def dest: leD)
        moreover have "freed_ok lo hi start e (rp # rs) (rp\<lparr>er_end := start - 1\<rparr> # fr_regions ?T)"
          using \<open>er_start rp < start\<close> \<open>er_end rp < e\<close> ov tl se
          by (intro freed_ok_right [OF Cons.prems(1)]) auto
        ultimately show ?thesis using cf by simp
      qed
    qed
  qed
qed

lemma fold_free_regions [simp]:
  "ex_regions (fold extent_free_region_descriptor ds ex) = ex_regions ex"
  "ex_start (fold extent_free_region_descriptor ds ex) = ex_start ex"
  "ex_end (fold extent_free_region_descriptor ds ex) = ex_end ex"
  "exf_nocoalesce (fold extent_free_region_descriptor ds ex) = exf_nocoalesce ex"
  by (induction ds arbitrary: ex) simp_all

text \<open>The work of \<^verbatim>\<open>extent_free\<close> once a spare descriptor is at hand.\<close>

lemma extent_free_spec:
  assumes inv: "ex_inv ex" and co: "\<not> exf_nocoalesce ex" and e: "e = start + (sz - 1)"
    and range: "ex_start ex \<le> start" "start \<le> e" "e \<le> ex_end ex"
    and where_: "EX_CONFLICTOK \<in> flags \<or> (\<exists>r\<in>set (ex_regions ex). er_start r \<le> start \<and> e \<le> er_end r)"
  shows "case extent_free pool start sz flags ex of
      Ext_Ok _ ex' \<Rightarrow> ex_inv ex' \<and> allocated ex' = allocated ex - {start..e}
    | Ext_Err err ex' \<Rightarrow> err = ENOMEM \<and> same_space ex ex'
    | Ext_Sleep ex' \<Rightarrow> same_space ex ex'
    | Ext_Panic \<Rightarrow> False"
proof -
  let ?body = "\<lambda>rp. extent_free_body start e flags (Some rp)"
  have args: "\<not> (start < ex_start ex \<or> e > ex_end ex \<or> e < start)" using range by auto
  have eq: "extent_free pool start sz flags ex = with_descriptor pool flags ?body ex"
    unfolding extent_free_def e [symmetric] Let_def using args co by (simp only: if_False if_True simp_thms)
  have ok: "\<exists>ex'. ?body rp ex1 = Ext_Ok () ex' \<and> ex_inv ex' \<and> allocated ex' = allocated ex - {start..e}"
    if same: "same_space ex ex1" for rp ex1
  proof -
    define r where "r = extent_free_loop False flags start e rp (ex_regions ex)"
    have fr: "freed_ok (ex_start ex) (ex_end ex) start e (ex_regions ex) (fr_regions r)"
      "EX_CONFLICTOK \<in> flags \<or> fr_done r"
      using free_loop_spec [OF _ range(2) where_, of "ex_start ex" "ex_end ex" rp] inv by (auto simp: ex_inv_def r_def)
    define ex3 where "ex3 = (if fr_used r then fold extent_free_region_descriptor (fr_freed r) (ex1\<lparr>ex_regions := fr_regions r\<rparr>)
      else extent_free_region_descriptor rp (fold extent_free_region_descriptor (fr_freed r) (ex1\<lparr>ex_regions := fr_regions r\<rparr>)))"
    have "ex_regions ex3 = fr_regions r" "ex_start ex3 = ex_start ex" "ex_end ex3 = ex_end ex"
      using same by (simp_all add: ex3_def same_space_def)
    moreover have "?body rp ex1 = Ext_Ok () (ex3\<lparr>exf_wanted := False\<rparr>)"
    proof -
      have "extent_free_loop (exf_nocoalesce ex1) flags start e (case Some rp of None \<Rightarrow> blank_region | Some rp \<Rightarrow> rp)
          (ex_regions ex1) = r"
        using same co by (simp add: same_space_def r_def)
      then show ?thesis
        unfolding extent_free_body_def Let_def using fr(2) by (simp add: ex3_def disj_commute)
    qed
    ultimately show ?thesis using fr(1) inv by (auto simp: freed_ok_def ex_inv_def)
  qed
  show ?thesis
    unfolding eq
  proof (rule with_descriptor_cases [of ex pool flags ?body], goal_cases)
    case (3 rp ex1)
    with ok [of ex1 rp] show ?case by auto
  qed simp_all
qed

section \<open>Properties of region allocation and freeing\<close>

text \<open>\<^verbatim>\<open>extent_alloc_region\<close> without \<^verbatim>\<open>EX_CONFLICTOK\<close> is exact: it succeeds only when no address of the request
  is allocated, and then exactly these addresses become allocated; it fails with \<^verbatim>\<open>EAGAIN\<close> or sleeps only
  when one is (or no descriptor is to be had), and then nothing changes. The region list stays sorted,
  disjoint and inside the extent, whether neighbours are coalesced or not. It panics only on arguments
  outside the extent.\<close>

theorem extent_alloc_region_exact:
  assumes "ex_inv ex" and "EX_CONFLICTOK \<notin> flags"
  shows "case extent_alloc_region pool start sz flags ex of
      Ext_Ok _ ex' \<Rightarrow> allocated ex \<inter> {start..start + (sz - 1)} = {} \<and> ex_inv ex' \<and>
        allocated ex' = allocated ex \<union> {start..start + (sz - 1)}
    | Ext_Err err ex' \<Rightarrow> ex_inv ex' \<and> allocated ex' = allocated ex \<and>
        (err = ENOMEM \<or> err = EAGAIN \<and> allocated ex \<inter> {start..start + (sz - 1)} \<noteq> {})
    | Ext_Sleep ex' \<Rightarrow> ex_inv ex' \<and> allocated ex' = allocated ex
    | Ext_Panic \<Rightarrow> sz = 0 \<or> start + (sz - 1) < start \<or> start < ex_start ex \<or> start + (sz - 1) > ex_end ex"
proof (rule with_descriptor_cases [of ex pool flags "extent_do_alloc_region start sz flags"])
  fix rp ex1
  assume s: "same_space ex ex1"
    and eq: "with_descriptor pool flags (extent_do_alloc_region start sz flags) ex = extent_do_alloc_region start sz flags rp ex1"
  have inv1: "ex_inv ex1" and sp: "allocated ex1 = allocated ex" "ex_start ex1 = ex_start ex" "ex_end ex1 = ex_end ex"
    using same_space_inv [OF s assms(1)] s by (auto simp: same_space_def)
  define e where "e = start + (sz - 1)"
  consider (bad) "sz < 1 \<or> e < start \<or> start < ex_start ex \<or> e > ex_end ex"
    | (good) "\<not> sz < 1" "start \<le> e" "ex_start ex \<le> start" "e \<le> ex_end ex"
    by (meson linorder_not_less)
  then show ?thesis
  proof cases
    case bad
    then have "extent_do_alloc_region start sz flags rp ex1 = Ext_Panic"
      using assms(2) sp by (auto simp: extent_do_alloc_region_def e_def [symmetric] Let_def)
    with bad show ?thesis unfolding extent_alloc_region_def eq by (auto simp: e_def)
  next
    case good
    then have "extent_do_alloc_region start sz flags rp ex1 = extent_place_region start e sz flags rp ex1"
      using assms(2) sp by (auto simp: extent_do_alloc_region_def e_def [symmetric] Let_def dest: leD)
    with place_region_exact [OF inv1 good(2) e_def, of flags rp] good assms(2) sp show ?thesis
      unfolding extent_alloc_region_def eq e_def [symmetric]
      by (auto split: ext_res.splits dest: same_space_inv [OF _ inv1])
  qed
qed (use same_space_inv [OF _ assms(1)] in \<open>auto simp: extent_alloc_region_def\<close>)

text \<open>\<^verbatim>\<open>extent_free\<close> of a range inside one allocated region, or of any range with \<^verbatim>\<open>EX_CONFLICTOK\<close>, removes
  exactly these addresses from what is allocated, splitting or trimming regions as needed, and keeps the
  list well-formed; it never panics then, and changes nothing when no spare descriptor is to be had.\<close>

theorem extent_free_exact:
  assumes "ex_inv ex" and "\<not> exf_nocoalesce ex"
    and "ex_start ex \<le> start" and "start \<le> start + (sz - 1)" and "start + (sz - 1) \<le> ex_end ex"
    and "EX_CONFLICTOK \<in> flags \<or> (\<exists>r\<in>set (ex_regions ex). er_start r \<le> start \<and> start + (sz - 1) \<le> er_end r)"
  shows "case extent_free pool start sz flags ex of
      Ext_Ok _ ex' \<Rightarrow> ex_inv ex' \<and> allocated ex' = allocated ex - {start..start + (sz - 1)}
    | Ext_Err err ex' \<Rightarrow> err = ENOMEM \<and> ex_inv ex' \<and> allocated ex' = allocated ex
    | Ext_Sleep ex' \<Rightarrow> ex_inv ex' \<and> allocated ex' = allocated ex
    | Ext_Panic \<Rightarrow> False"
  using extent_free_spec [OF assms(1,2) refl assms(3,4,5,6), of pool] same_space_inv [OF _ assms(1)]
  by (auto split: ext_res.splits)

text \<open>An extent of 256 numbers with two allocated regions.\<close>

definition ex_two :: extent where
  "ex_two = \<lparr>ex_name = ''ioport'',
     ex_regions = [\<lparr>er_start = 0x10, er_end = 0x1f, er_alloc = True, er_discard = False\<rparr>,
                   \<lparr>er_start = 0x40, er_end = 0x4f, er_alloc = True, er_discard = False\<rparr>],
     ex_start = 0, ex_end = 0xff, exf_fixed = False, exf_nocoalesce = False, exf_wanted = False,
     exf_flwanted = False, fex_freelist = []\<rparr>"

lemma ex_two_inv: "ex_inv ex_two"
  by (simp add: ex_two_def ex_inv_def regions_ok_def)

theorem extent_alloc_region_exact_witness:
  "\<exists>ex'. extent_alloc_region True 0x20 0x20 {} ex_two = Ext_Ok () ex' \<and> ex_inv ex' \<and>
     allocated ex' = allocated ex_two \<union> {0x20..0x20 + (0x20 - 1)}"
proof -
  have "\<exists>ex'. extent_alloc_region True 0x20 0x20 {} ex_two = Ext_Ok () ex'"
    by (simp add: extent_alloc_region_def with_descriptor_def extent_alloc_region_descriptor_def
        extent_do_alloc_region_def extent_place_region.simps region_skip_def ex_two_def)
  then obtain ex' where "extent_alloc_region True 0x20 0x20 {} ex_two = Ext_Ok () ex'" by blast
  with extent_alloc_region_exact [OF ex_two_inv, of "{}" "0x20" "0x20" True] show ?thesis by auto
qed

theorem extent_free_exact_witness:
  "\<exists>ex'. extent_free True 0x44 4 {} ex_two = Ext_Ok () ex' \<and> ex_inv ex' \<and>
     allocated ex' = allocated ex_two - {0x44..0x44 + (4 - 1)}"
proof -
  have co: "\<not> exf_nocoalesce ex_two"
    and r: "ex_start ex_two \<le> 0x44" "(0x44 :: u64) \<le> 0x44 + (4 - 1)" "0x44 + (4 - 1) \<le> ex_end ex_two"
    and w: "EX_CONFLICTOK \<in> {} \<or> (\<exists>r\<in>set (ex_regions ex_two). er_start r \<le> 0x44 \<and> 0x44 + (4 - 1) \<le> er_end r)"
    by (simp_all add: ex_two_def)
  have "\<exists>ex'. extent_free True 0x44 4 {} ex_two = Ext_Ok () ex'"
    by (simp add: extent_free_def extent_free_body_def with_descriptor_def extent_alloc_region_descriptor_def ex_two_def Let_def)
  then obtain ex' where "extent_free True 0x44 4 {} ex_two = Ext_Ok () ex'" by blast
  with extent_free_exact [OF ex_two_inv co r w, of True] show ?thesis by auto
qed

text \<open>With \<^verbatim>\<open>EX_CONFLICTOK\<close> the outcome is not what the comment in \<^verbatim>\<open>extent_do_alloc_region\<close> lists. A request that
  lies inside an allocated region (case 4, "We're done") cuts off the part of that region behind the
  request, which is then free although it was never freed; and a request whose last address is the first
  address of a region (case 3) returns success without allocating anything.\<close>

theorem extent_conflictok_wrong:
  "(\<exists>ex'. extent_alloc_region True 0x42 4 {EX_CONFLICTOK} ex_two = Ext_Ok () ex' \<and>
      0x4f \<in> allocated ex_two \<and> 0x4f \<notin> allocated ex') \<and>
   (\<exists>ex'. extent_alloc_region True 8 9 {EX_CONFLICTOK} ex_two = Ext_Ok () ex' \<and> 8 \<notin> allocated ex')"
proof -
  have "\<exists>ex'. extent_alloc_region True 0x42 4 {EX_CONFLICTOK} ex_two = Ext_Ok () ex' \<and> 0x4f \<notin> allocated ex'"
    by (simp add: extent_alloc_region_def with_descriptor_def extent_alloc_region_descriptor_def Let_def
        extent_do_alloc_region_def extent_place_region.simps region_skip_def ex_two_def prev_region_def
        extent_insert_and_optimize_def extent_free_region_descriptor_def covers_def region_set_def)
  moreover have "\<exists>ex'. extent_alloc_region True 8 9 {EX_CONFLICTOK} ex_two = Ext_Ok () ex' \<and> 8 \<notin> allocated ex'"
    by (simp add: extent_alloc_region_def with_descriptor_def extent_alloc_region_descriptor_def Let_def
        extent_do_alloc_region_def extent_place_region.simps region_skip_def ex_two_def covers_def region_set_def)
  moreover have "0x4f \<in> allocated ex_two" by (simp add: ex_two_def region_set_def)
  ultimately show ?thesis by blast
qed

section \<open>The search\<close>

lemma unat_lt2p_u64: "unat (w :: u64) < 2 ^ 64"
  using unsigned_less [of w] by simp

lemma LE_OV_gap: "1 \<le> sz \<Longrightarrow> LE_OV s sz z \<longleftrightarrow> s \<le> s + (sz - 1) \<and> s + (sz - 1) < z"
  unfolding LE_OV_def by unat_arith

lemma LE_OV_mono: "1 \<le> sz \<Longrightarrow> s \<le> s' \<Longrightarrow> LE_OV s' sz z \<Longrightarrow> LE_OV s sz z"
  unfolding LE_OV_def by unat_arith

lemma LE_OV_mono1: "s \<le> s' \<Longrightarrow> LE_OV s' m z \<Longrightarrow> LE_OV s m z"
  unfolding LE_OV_def by unat_arith

text \<open>No address strictly inside the region is a boundary line.\<close>

definition crosses :: "nat \<Rightarrow> u64 \<Rightarrow> u64 \<Rightarrow> u64 \<Rightarrow> bool" where
  "crosses j line s e \<longleftrightarrow> (\<exists>x. s < x \<and> x \<le> e \<and> aligned j line x)"

text \<open>The line of the boundary that follows \<open>s\<close>, as \<^verbatim>\<open>extent_do_alloc\<close> computes it.\<close>

lemma next_line:
  assumes j: "j < 64" and s: "unat s + 1 < 2 ^ 64" and line: "line = 0 \<or> line = lo"
  defines "dc \<equiv> extent_align (s + 1) (2 ^ j) line - 1"
  shows "dc < lo \<and> (\<forall>x. s < x \<longrightarrow> \<not> aligned j line x) \<or>
    dc = - 1 \<and> (\<forall>x. s < x \<longrightarrow> \<not> aligned j line x) \<or>
    s \<le> dc \<and> dc < dc + 1 \<and> aligned j line (dc + 1) \<and> (\<forall>x. s < x \<and> aligned j line x \<longrightarrow> dc < x)"
proof -
  define t where "t = extent_align (s + 1) (2 ^ j) line"
  have s1: "unat (s + 1) = unat s + 1" using s by (simp add: unat_word_ariths)
  have gt: "s < x \<longleftrightarrow> s + 1 \<le> x" for x using s1 by (auto simp: word_less_nat_alt word_le_nat_alt)
  obtain d where d: "t = (s + 1) + of_nat d" "d < 2 ^ j" "aligned j line t"
    "\<And>y. s + 1 \<le> y \<Longrightarrow> aligned j line y \<Longrightarrow> unat (s + 1) + d \<le> unat y"
    using extent_align_spec [OF j, of "s + 1" line] unfolding t_def by metis
  have dlt: "d < 2 ^ 64" using d(2) j by (meson less_trans power_strict_increasing one_less_numeral_iff semiring_norm(76))
  then have ud: "unat (of_nat d :: u64) = d" by (intro unat_of_nat_less) simp
  show ?thesis
  proof (cases "unat s + 1 + d < 2 ^ 64")
    case True
    then have ut: "unat t = unat s + 1 + d" using ud s1 by (simp add: d(1) unat_word_ariths)
    then have "t \<noteq> 0" by auto
    then have udc: "unat dc = unat s + d" using ut by (simp add: dc_def t_def [symmetric] unat_minus_one)
    have t: "dc + 1 = t" by (simp add: dc_def t_def)
    have "dc < x" if "s < x" "aligned j line x" for x
      using d(4) [of x] that gt s1 udc by (simp add: word_less_nat_alt)
    then show ?thesis
      using d(3) udc ut by (auto simp: t word_le_nat_alt word_less_nat_alt)
  next
    case False
    have no: "\<not> aligned j line x" if "s < x" for x
    proof
      assume "aligned j line x"
      then have "unat s + 1 + d \<le> unat x" using d(4) [of x] gt that s1 by simp
      moreover have "unat x < 2 ^ 64" by (rule unat_lt2p_u64)
      ultimately show False using False by linarith
    qed
    have "unat t = (unat s + 1 + d) mod 2 ^ 64" using ud s1 by (simp add: d(1) unat_word_ariths mod_simps)
    also have "\<dots> = unat s + 1 + d - 2 ^ 64" using False s dlt by (simp add: mod_if)
    finally have tj: "unat t < 2 ^ j" using s d(2) by simp
    show ?thesis
    proof (cases "t = 0")
      case True
      then have "dc = - 1" by (simp add: dc_def t_def [symmetric])
      with no show ?thesis by blast
    next
      case nz: False
      have small: "uint t < 2 ^ j" using tj by (metis of_nat_less_iff of_nat_numeral of_nat_power uint_nat)
      have "uint t \<noteq> 0" using nz by (simp add: uint_0_iff)
      then have pos: "0 < uint t" using uint_nonnegative [of t] by linarith
      have "line \<noteq> 0"
      proof
        assume "line = 0"
        then have "(2 :: int) ^ j dvd uint t" using d(3) by (simp add: aligned_def)
        from zdvd_imp_le [OF this pos] show False using small by simp
      qed
      then have l: "line = lo" using line by blast
      have "\<not> uint lo < uint t"
      proof
        assume "uint lo < uint t"
        then have "0 < uint t - uint lo" by simp
        with zdvd_imp_le [of "2 ^ j" "uint t - uint lo"] d(3) l have "2 ^ j \<le> uint t - uint lo" by (simp add: aligned_def)
        then show False using small uint_nonnegative [of lo] by linarith
      qed
      then have "t \<le> lo" by (simp add: word_le_def)
      moreover have "dc < t" using nz by (simp add: dc_def t_def [symmetric] word_less_nat_alt unat_minus_one unat_gt_0)
      ultimately have "dc < lo" by simp
      with no show ?thesis by blast
    qed
  qed
qed

text \<open>The arguments for which the search is specified: powers of two, and room to align above the end.\<close>

definition bound_args :: "u64 \<Rightarrow> nat \<Rightarrow> u64 \<Rightarrow> bool" where
  "bound_args boundary j sz \<longleftrightarrow> boundary = 0 \<or> j < 64 \<and> boundary = 2 ^ j \<and> sz \<le> boundary"

definition line_of :: "ex_flag set \<Rightarrow> u64 \<Rightarrow> u64" where
  "line_of flags exstart = (if EX_BOUNDZERO \<in> flags then 0 else exstart)"

lemma unat_p2_u64: "j < 64 \<Longrightarrow> unat (2 ^ j :: u64) = 2 ^ j"
  by (simp add: unat_of_nat_less [of "2 ^ j", simplified])

lemma boundary_ok:
  assumes args: "bound_args boundary j sz" "1 \<le> sz" and fits: "fits newstart" "\<And>s. fits s \<Longrightarrow> s \<le> s + (sz - 1)"
    and room: "unat newstart + 1 < 2 ^ 64" "exstart \<le> newstart"
    and ok: "extent_boundary exstart exend boundary flags sz fits newstart = Bound_Ok s"
  shows "fits s \<and> newstart \<le> s \<and> (boundary = 0 \<longrightarrow> s = newstart) \<and>
    (boundary \<noteq> 0 \<longrightarrow> \<not> crosses j (line_of flags exstart) s (s + (sz - 1)))"
proof (cases "boundary = 0")
  case True
  then show ?thesis using ok fits by (simp add: extent_boundary_def)
next
  case False
  then have j: "j < 64" "boundary = 2 ^ j" "sz \<le> 2 ^ j" using args(1) by (auto simp: bound_args_def)
  define line where "line = line_of flags exstart"
  define dc where "dc = extent_align (newstart + 1) (2 ^ j) line - 1"
  have L: "dc < exstart \<and> (\<forall>x. newstart < x \<longrightarrow> \<not> aligned j line x) \<or>
      dc = - 1 \<and> (\<forall>x. newstart < x \<longrightarrow> \<not> aligned j line x) \<or>
      newstart \<le> dc \<and> dc < dc + 1 \<and> aligned j line (dc + 1) \<and> (\<forall>x. newstart < x \<and> aligned j line x \<longrightarrow> dc < x)"
    unfolding dc_def by (rule next_line [OF j(1) room(1)]) (simp add: line_def line_of_def)
  have e: "extent_boundary exstart exend boundary flags sz fits newstart =
       (if dc < exstart then
              (if newstart + sz - 1 > exend \<or> exend < newstart then Bound_Fail else Bound_Ok newstart)
            else if newstart + (sz - 1) > dc then
              (if \<not> fits (dc + 1) then Bound_Nofit
                  else if dc + 1 + sz - 1 > exend \<or> dc + boundary < dc + 1 then Bound_Fail
                  else Bound_Ok (dc + 1))
            else if newstart + sz - 1 > exend \<or> dc < newstart then Bound_Fail
            else Bound_Ok newstart)"
    using False unfolding extent_boundary_def Let_def dc_def line_def line_of_def j(2) by (simp only: if_False)
  show ?thesis
  proof (cases "dc < exstart")
    case True
    then have "s = newstart" using ok by (simp add: e split: if_splits)
    moreover have "\<not> crosses j line newstart (newstart + (sz - 1))"
      using L True room(2) by (auto simp: crosses_def dest: leD order_trans)
    ultimately show ?thesis using fits(1) False by (simp add: line_def)
  next
    case lo: False
    show ?thesis
    proof (cases "newstart + (sz - 1) > dc")
      case moved: True
      then have s: "s = dc + 1" "fits s" using ok lo by (auto simp: e split: if_splits)
      have al: "newstart \<le> dc" "dc < s" "aligned j line s"
        using L lo moved s(1) by (auto dest: leD)
      have "\<not> crosses j line s (s + (sz - 1))"
      proof
        assume "crosses j line s (s + (sz - 1))"
        then obtain x where x: "s < x" "x \<le> s + (sz - 1)" "aligned j line x" by (auto simp: crosses_def)
        have "(2 :: int) ^ j dvd (uint x - uint line) - (uint s - uint line)"
          using al(3) x(3) unfolding aligned_def by (rule dvd_diff [rotated])
        then have "(2 :: int) ^ j dvd uint x - uint s" by simp
        moreover have "0 < uint x - uint s" using x(1) by (simp add: word_less_def)
        ultimately have "2 ^ j \<le> uint x - uint s" by (rule zdvd_imp_le)
        moreover have "uint (s + (sz - 1)) = uint s + uint (sz - 1)"
          using fits(2) [OF s(2)] by (simp add: uint_plus_simple_iff)
        moreover have "uint (sz - 1) = uint sz - 1"
          using args(2) uint_minus_simple_alt [of 1 sz] by simp
        moreover have "uint sz \<le> 2 ^ j"
        proof -
          have "unat sz \<le> 2 ^ j" using j(1,3) by (simp add: word_le_nat_alt unat_p2_u64)
          then show ?thesis unfolding uint_nat by (metis of_nat_le_iff of_nat_numeral of_nat_power)
        qed
        moreover have "uint x \<le> uint (s + (sz - 1))" using x(2) by (simp add: word_le_def)
        ultimately show False by linarith
      qed
      then show ?thesis using s al False by (auto simp: line_def intro: order.trans less_imp_le)
    next
      case stay: False
      then have "s = newstart" using ok lo by (simp add: e split: if_splits)
      moreover have "\<not> crosses j line newstart (newstart + (sz - 1))"
        using L lo stay by (auto simp: crosses_def dest: leD order.strict_trans1)
      ultimately show ?thesis using fits(1) False by (simp add: line_def)
    qed
  qed
qed

text \<open>
  A place the search may return: the request fits between the first \<open>k\<close> regions and the others, inside the
  subregion, off the boundary lines, and aligned when no boundary is asked for.
\<close>

definition good_place ::
    "extent_region list \<Rightarrow> u64 \<Rightarrow> u64 \<Rightarrow> u64 \<Rightarrow> nat \<Rightarrow> u64 \<Rightarrow> u64 \<Rightarrow> nat \<Rightarrow> u64 \<Rightarrow> nat option \<Rightarrow> u64 \<Rightarrow> bool" where
  "good_place rs substart subend sz k skew boundary j line lst s \<longleftrightarrow>
     (\<exists>i. lst = prev_region i \<and> fits_at rs i s (s + (sz - 1))) \<and> substart \<le> s \<and> s + (sz - 1) \<le> subend \<and>
     (boundary = 0 \<longrightarrow> aligned k skew s) \<and> (boundary \<noteq> 0 \<longrightarrow> \<not> crosses j line s (s + (sz - 1)))"

text \<open>An aligned place in the subregion all of whose addresses are free.\<close>

definition feasible :: "extent_region list \<Rightarrow> u64 \<Rightarrow> u64 \<Rightarrow> u64 \<Rightarrow> nat \<Rightarrow> u64 \<Rightarrow> u64 \<Rightarrow> bool" where
  "feasible rs substart subend sz k skew s \<longleftrightarrow>
     aligned k skew s \<and> substart \<le> s \<and> s \<le> s + (sz - 1) \<and> s + (sz - 1) \<le> subend \<and>
     covers rs \<inter> {s..s + (sz - 1)} = {}"

lemma unat_succ_noov:
  assumes "x \<le> y" and "unat y + 2 ^ k < 2 ^ 64"
  shows "unat (x + 1 :: u64) = unat x + 1"
proof -
  have "unat x + 1 < 2 ^ 64"
    using assms one_le_power [of "2 :: nat" k] unfolding word_le_nat_alt by linarith
  then show ?thesis by (simp add: unat_word_ariths)
qed

lemma fits_in_gap:
  assumes ok: "regions_ok lo hi (pre @ rp # rs)" and pre: "\<forall>r\<in>set pre. er_end r < s" and s: "s \<le> e" "e < er_start rp"
  shows "fits_at (pre @ rp # rs) (length pre) s e"
proof -
  have "e < er_start r" if "r \<in> set rs" for r
  proof -
    have "er_start rp \<le> er_end rp" "er_end rp < er_start r" using ok that by (auto simp: regions_ok_append regions_ok_Cons)
    then show ?thesis using s(2) by (metis less_trans order.strict_trans2)
  qed
  then show ?thesis using assms by (auto simp: fits_at_def)
qed

lemma better_nonzero: "ovh \<noteq> 0 \<Longrightarrow> fst (better ovh s lst b) \<noteq> 0"
  by (auto simp: better_def)

lemma better_cases: "better ovh s lst b = (ovh, s, lst) \<or> better ovh s lst b = b"
  by (simp add: better_def)

text \<open>The invariant of the loop, with the regions passed in \<open>pre\<close>.\<close>

definition scan_inv ::
    "(nat option \<Rightarrow> u64 \<Rightarrow> bool) \<Rightarrow> (u64 \<Rightarrow> bool) \<Rightarrow> nat \<Rightarrow> u64 \<Rightarrow> u64 \<Rightarrow>
     extent_region list \<Rightarrow> extent_region list \<Rightarrow> u64 \<Rightarrow> nat option \<Rightarrow> best \<Rightarrow> bool" where
  "scan_inv good feas k skew substart pre ys newstart lst b \<longleftrightarrow>
     lst = prev_region (length pre) \<and> (\<forall>r\<in>set pre. er_end r < newstart) \<and> substart \<le> newstart \<and>
     aligned k skew newstart \<and> (\<forall>r\<in>set ys. \<forall>y. aligned k skew y \<and> er_end r < y \<longrightarrow> newstart \<le> y) \<and>
     (fst b \<noteq> 0 \<longrightarrow> good (snd (snd b)) (fst (snd b))) \<and>
     (\<forall>s. feas s \<and> s < newstart \<longrightarrow> fst b \<noteq> 0)"

lemma scan_spec:
  fixes good feas
  assumes ok: "regions_ok exstart exend rs" and k: "k < 64" "alignment = 2 ^ k" and noov: "unat exend + 2 ^ k < 2 ^ 64"
    and args: "bound_args boundary j sz" "1 \<le> sz" and sub: "exstart \<le> substart" "subend \<le> exend"
    and rs: "rs = pre @ ys"
    and inv: "scan_inv good feas k skew substart pre ys newstart lst b"
    and nofast: "EX_FAST \<in> flags \<Longrightarrow> fst b = 0"
  defines "line \<equiv> line_of flags exstart"
  assumes good: "good = good_place rs substart subend sz k skew boundary j line"
    and feas: "feas = (\<lambda>s. boundary = 0 \<and> feasible rs substart subend sz k skew s)"
  shows "case extent_scan exstart exend subend sz alignment skew boundary flags newstart lst b (length pre) ys of
      Scan_Found s lst' \<Rightarrow> good lst' s
    | Scan_Fail b' \<Rightarrow> (fst b' \<noteq> 0 \<longrightarrow> good (snd (snd b')) (fst (snd b'))) \<and> (EX_FAST \<in> flags \<longrightarrow> fst b' = 0) \<and> boundary \<noteq> 0
    | Scan_End ns lst' gapend b' \<Rightarrow>
        \<exists>pre' ys'. rs = pre' @ ys' \<and> scan_inv good feas k skew substart pre' ys' ns lst' b' \<and>
          (\<forall>r\<in>set ys'. subend < er_start r) \<and> (EX_FAST \<in> flags \<longrightarrow> fst b' = 0) \<and> subend \<le> gapend"
  using rs inv nofast
proof (induction ys arbitrary: pre newstart lst b)
  case Nil
  have "\<exists>pre' ys'. rs = pre' @ ys' \<and> scan_inv good feas k skew substart pre' ys' newstart lst b \<and>
      (\<forall>r\<in>set ys'. subend < er_start r) \<and> (EX_FAST \<in> flags \<longrightarrow> fst b = 0) \<and> subend \<le> exend"
    by (rule exI [of _ pre], rule exI [of _ "[]"]) (use Nil sub in auto)
  then show ?case by simp
next
  case (Cons rp ys)
  have okp: "regions_ok exstart exend (pre @ rp # ys)" using ok Cons.prems(1) by simp
  have rp: "exstart \<le> er_start rp" "er_start rp \<le> er_end rp" "er_end rp \<le> exend"
    and later: "\<forall>r\<in>set ys. er_end rp < er_start r" and earlier: "\<forall>r\<in>set pre. er_end r < er_start rp"
    using okp by (auto simp: regions_ok_append regions_ok_Cons)
  have I: "lst = prev_region (length pre)" "\<forall>r\<in>set pre. er_end r < newstart" "substart \<le> newstart"
    "aligned k skew newstart" "fst b \<noteq> 0 \<longrightarrow> good (snd (snd b)) (fst (snd b))"
    "\<forall>s. feas s \<and> s < newstart \<longrightarrow> fst b \<noteq> 0"
    "\<forall>y. aligned k skew y \<and> er_end rp < y \<longrightarrow> newstart \<le> y"
    using Cons.prems(2) by (auto simp: scan_inv_def)
  show ?case
  proof (cases "er_start rp > subend")
    case True
    then have "\<forall>r\<in>set (rp # ys). subend < er_start r"
      using later rp(2) by (auto intro: less_trans order.strict_trans2)
    then have "\<exists>pre' ys'. rs = pre' @ ys' \<and> scan_inv good feas k skew substart pre' ys' newstart lst b \<and>
        (\<forall>r\<in>set ys'. subend < er_start r) \<and> (EX_FAST \<in> flags \<longrightarrow> fst b = 0) \<and> subend \<le> er_start rp"
      using Cons.prems True by (intro exI [of _ pre] exI [of _ "rp # ys"]) auto
    with True show ?thesis by simp
  next
    case in_sub: False
    define ns where "ns = extent_align (er_end rp + 1) alignment skew"
    have rp1: "unat (er_end rp + 1) = unat (er_end rp) + 1"
      by (rule unat_succ_noov [OF rp(3) noov])
    have up: "er_end rp + 1 \<le> ns \<and> aligned k skew ns \<and> (\<forall>y. er_end rp + 1 \<le> y \<and> aligned k skew y \<longrightarrow> ns \<le> y)"
      unfolding ns_def k(2)
      by (rule extent_align_up [OF k(1)]) (use noov rp(3) rp1 in \<open>simp add: word_le_nat_alt\<close>)
    have ns: "er_end rp < ns" using up rp1 by (auto simp: word_le_nat_alt word_less_nat_alt)
    define skip where "skip = (\<lambda>b'. extent_scan exstart exend subend sz alignment skew boundary flags ns (Some (length pre)) b' (Suc (length pre)) ys)"
    have step: "extent_scan exstart exend subend sz alignment skew boundary flags newstart lst b (length pre) (rp # ys) =
       (if LE_OV newstart sz (er_start rp) then
              (case extent_boundary exstart exend boundary flags sz (\<lambda>s. LE_OV s sz (er_start rp)) newstart of
                 Bound_Nofit \<Rightarrow> skip b
               | Bound_Fail \<Rightarrow> Scan_Fail b
               | Bound_Ok start \<Rightarrow>
                   (if EX_FAST \<in> flags \<or> er_start rp - start - sz = 0 then Scan_Found start lst
                       else skip (better (er_start rp - start - sz) start lst b)))
            else skip b)"
      using in_sub ns by (auto simp: skip_def ns_def Let_def split: bound_res.split dest: less_asym)
    have skip_ok: "case skip b' of
        Scan_Found s lst' \<Rightarrow> good lst' s
      | Scan_Fail b'' \<Rightarrow> (fst b'' \<noteq> 0 \<longrightarrow> good (snd (snd b'')) (fst (snd b''))) \<and> (EX_FAST \<in> flags \<longrightarrow> fst b'' = 0) \<and> boundary \<noteq> 0
      | Scan_End ns lst' gapend b'' \<Rightarrow>
          \<exists>pre' ys'. rs = pre' @ ys' \<and> scan_inv good feas k skew substart pre' ys' ns lst' b'' \<and>
            (\<forall>r\<in>set ys'. subend < er_start r) \<and> (EX_FAST \<in> flags \<longrightarrow> fst b'' = 0) \<and> subend \<le> gapend"
      if b': "fst b' \<noteq> 0 \<longrightarrow> good (snd (snd b')) (fst (snd b'))" "EX_FAST \<in> flags \<Longrightarrow> fst b' = 0"
        "\<forall>s. feas s \<and> s < ns \<longrightarrow> fst b' \<noteq> 0" for b'
    proof -
      have "scan_inv good feas k skew substart (pre @ [rp]) ys ns (Some (length pre)) b'"
      proof -
        have "\<forall>r\<in>set (pre @ [rp]). er_end r < ns"
          using earlier rp(2) ns by (auto intro: less_trans order.strict_trans2)
        moreover have "substart \<le> ns" using I(3,7) up ns by (auto intro: order_trans)
        moreover have "ns \<le> y" if "r \<in> set ys" "aligned k skew y" "er_end r < y" for r y
        proof -
          have "er_end rp < er_start r" "er_start r \<le> er_end r" using later okp that(1) by (auto simp: regions_ok_def)
          then have "er_end rp < y" using that(3) by (metis less_trans order.strict_trans2)
          then have "er_end rp + 1 \<le> y" by (rule inc_le)
          then show ?thesis using up that(2) by blast
        qed
        ultimately show ?thesis using up b' by (auto simp: scan_inv_def prev_region_def)
      qed
      then show ?thesis
        using Cons.IH [of "pre @ [rp]" ns "Some (length pre)" b'] Cons.prems(1) b'(2) by (simp add: skip_def)
    qed
    have gap: "LE_OV newstart sz (er_start rp)" if "feas s" "newstart \<le> s" "s < ns" for s
    proof -
      have f: "aligned k skew s" "s \<le> s + (sz - 1)" "covers rs \<inter> {s..s + (sz - 1)} = {}"
        using that(1) by (auto simp: feas feasible_def)
      have "s \<notin> region_set rp" using f(2,3) Cons.prems(1) by auto
      moreover have "\<not> er_end rp < s" using up f(1) that(3) inc_le [of "er_end rp" s] by (auto dest: leD)
      ultimately have lt: "s < er_start rp" by (auto simp: region_set_def)
      have "er_start rp \<notin> {s..s + (sz - 1)}" using f(3) rp(2) Cons.prems(1) by (auto simp: region_set_def)
      then have "LE_OV s sz (er_start rp)" using lt f(2) by (auto simp: LE_OV_gap [OF args(2)])
      then show ?thesis by (rule LE_OV_mono [OF args(2) that(2)])
    qed
    show ?thesis
    proof (cases "LE_OV newstart sz (er_start rp)")
      case False
      then have "\<forall>s. feas s \<and> s < ns \<longrightarrow> fst b \<noteq> 0" using I(6) gap by (metis linorder_not_less)
      with skip_ok [OF I(5) Cons.prems(3)] False show ?thesis by (simp only: step if_False)
    next
      case True
      show ?thesis
      proof (cases "extent_boundary exstart exend boundary flags sz (\<lambda>s. LE_OV s sz (er_start rp)) newstart")
        case (Bound_Ok s)
        have nsx: "newstart \<le> er_start rp" using True unfolding LE_OV_def by (meson order_trans)
        then have room: "unat newstart + 1 < 2 ^ 64" "exstart \<le> newstart"
        proof -
          have "newstart \<le> exend" using nsx rp by (meson order_trans)
          from unat_succ_noov [OF this noov] show "unat newstart + 1 < 2 ^ 64" using unat_lt2p_u64 [of "newstart + 1"] by simp
          show "exstart \<le> newstart" using sub(1) I(3) by (meson order_trans)
        qed
        have B: "LE_OV s sz (er_start rp) \<and> newstart \<le> s \<and> (boundary = 0 \<longrightarrow> s = newstart) \<and>
            (boundary \<noteq> 0 \<longrightarrow> \<not> crosses j line s (s + (sz - 1)))"
          unfolding line_def
          by (rule boundary_ok [OF args, where fits = "\<lambda>s. LE_OV s sz (er_start rp)", OF True _ room Bound_Ok])
            (simp add: LE_OV_gap [OF args(2)])
        then have sg: "s \<le> s + (sz - 1)" "s + (sz - 1) < er_start rp" by (auto simp: LE_OV_gap [OF args(2)])
        have "fits_at rs (length pre) s (s + (sz - 1))"
        proof -
          have "\<forall>r\<in>set pre. er_end r < s" using I(2) B by (meson order.strict_trans2)
          then show ?thesis unfolding Cons.prems(1) by (rule fits_in_gap [OF okp _ sg])
        qed
        moreover have "s + (sz - 1) \<le> subend" by (rule order_trans [OF less_imp_le [OF sg(2)]]) (use in_sub in simp)
        ultimately have gd: "good lst s"
          using I(1,4) B order_trans [OF I(3), of s] by (auto simp: good good_place_def)
        define ovh where "ovh = er_start rp - s - sz"
        show ?thesis
        proof (cases "EX_FAST \<in> flags \<or> ovh = 0")
          case True
          with gd \<open>LE_OV newstart sz _\<close> Bound_Ok show ?thesis
            unfolding ovh_def by (simp only: step if_True bound_res.case scan.case)
        next
          case False
          have "good (snd (snd (better ovh s lst b))) (fst (snd (better ovh s lst b)))"
            if "fst (better ovh s lst b) \<noteq> 0"
            using better_cases [of ovh s lst b] gd I(5) that by auto
          moreover have "fst (better ovh s lst b) \<noteq> 0" using False by (intro better_nonzero) simp
          ultimately have "case skip (better ovh s lst b) of
              Scan_Found s lst' \<Rightarrow> good lst' s
            | Scan_Fail b'' \<Rightarrow> (fst b'' \<noteq> 0 \<longrightarrow> good (snd (snd b'')) (fst (snd b''))) \<and> (EX_FAST \<in> flags \<longrightarrow> fst b'' = 0) \<and> boundary \<noteq> 0
            | Scan_End ns lst' gapend b'' \<Rightarrow>
                \<exists>pre' ys'. rs = pre' @ ys' \<and> scan_inv good feas k skew substart pre' ys' ns lst' b'' \<and>
                  (\<forall>r\<in>set ys'. subend < er_start r) \<and> (EX_FAST \<in> flags \<longrightarrow> fst b'' = 0) \<and> subend \<le> gapend"
            using False by (intro skip_ok) auto
          then show ?thesis
            using False True Bound_Ok unfolding ovh_def by (simp only: step if_True if_False bound_res.case)
        qed
      next
        case Bound_Nofit
        then have "boundary \<noteq> 0" by (auto simp: extent_boundary_def)
        then have "\<forall>s. feas s \<and> s < ns \<longrightarrow> fst b \<noteq> 0" by (simp add: feas)
        with skip_ok [OF I(5) Cons.prems(3)] True Bound_Nofit show ?thesis by (simp only: step if_True bound_res.case)
      next
        case Bound_Fail
        then have "boundary \<noteq> 0" by (auto simp: extent_boundary_def)
        with True Bound_Fail I(5) Cons.prems(3) show ?thesis by (simp only: step if_True bound_res.case scan.case) blast
      qed
    qed
  qed
qed

lemma last_gap_spec:
  fixes good feas
  assumes noov: "unat exend + 2 ^ k < 2 ^ 64"
    and args: "bound_args boundary j sz" "1 \<le> sz" and sub: "exstart \<le> substart" "subend \<le> exend"
    and rs: "rs = pre @ ys" "\<forall>r\<in>set ys. subend < er_start r"
    and inv: "scan_inv good feas k skew substart pre ys newstart lst b"
    and nofast: "EX_FAST \<in> flags \<longrightarrow> fst b = 0"
  defines "line \<equiv> line_of flags exstart"
  assumes good: "good = good_place rs substart subend sz k skew boundary j line"
    and feas: "feas = (\<lambda>s. boundary = 0 \<and> feasible rs substart subend sz k skew s)"
  shows "case extent_last_gap exstart exend subend sz boundary flags newstart lst gapend b of
      Scan_Found s lst' \<Rightarrow> good lst' s
    | Scan_Fail b' \<Rightarrow> (fst b' \<noteq> 0 \<longrightarrow> good (snd (snd b')) (fst (snd b'))) \<and> (EX_FAST \<in> flags \<longrightarrow> fst b' = 0) \<and>
        (\<forall>s. feas s \<longrightarrow> fst b' \<noteq> 0)
    | Scan_End _ _ _ _ \<Rightarrow> False"
proof -
  have I: "lst = prev_region (length pre)" "\<forall>r\<in>set pre. er_end r < newstart" "substart \<le> newstart"
    "aligned k skew newstart" "fst b \<noteq> 0 \<longrightarrow> good (snd (snd b)) (fst (snd b))"
    "\<forall>s. feas s \<and> s < newstart \<longrightarrow> fst b \<noteq> 0"
    using inv by (auto simp: scan_inv_def)
  show ?thesis
  proof (cases "LE_OV newstart (sz - 1) subend")
    case False
    have "fst b \<noteq> 0" if "feas s" for s
    proof (cases "s < newstart")
      case True
      then show ?thesis using I(6) that by blast
    next
      case ge: False
      have "LE_OV s (sz - 1) subend" using that by (auto simp: feas feasible_def LE_OV_def)
      then have "LE_OV newstart (sz - 1) subend" using ge by (intro LE_OV_mono1 [of newstart s]) auto
      with False show ?thesis by blast
    qed
    with False I(5) nofast show ?thesis by (simp add: extent_last_gap_def)
  next
    case True
    show ?thesis
    proof (cases "extent_boundary exstart exend boundary flags sz (\<lambda>s. LE_OV s (sz - 1) subend) newstart")
      case (Bound_Ok s)
      have nsx: "newstart \<le> exend" using True sub(2) unfolding LE_OV_def by (meson order_trans)
      have room: "unat newstart + 1 < 2 ^ 64" "exstart \<le> newstart"
        using unat_succ_noov [OF nsx noov] unat_lt2p_u64 [of "newstart + 1"] order_trans [OF sub(1) I(3)] by simp_all
      have B: "LE_OV s (sz - 1) subend \<and> newstart \<le> s \<and> (boundary = 0 \<longrightarrow> s = newstart) \<and>
          (boundary \<noteq> 0 \<longrightarrow> \<not> crosses j line s (s + (sz - 1)))"
        unfolding line_def
        by (rule boundary_ok [OF args, where fits = "\<lambda>s. LE_OV s (sz - 1) subend", OF True _ room Bound_Ok])
          (simp add: LE_OV_def)
      then have sg: "s \<le> s + (sz - 1)" "s + (sz - 1) \<le> subend" by (auto simp: LE_OV_def)
      have "\<forall>r\<in>set pre. er_end r < s" using I(2) B by (meson order.strict_trans2)
      then have "fits_at rs (length pre) s (s + (sz - 1))"
        using sg rs by (auto simp: fits_at_def intro: order.strict_trans1)
      then have gd: "good lst s"
        using I(1,4) B sg order_trans [OF I(3), of s] by (auto simp: good good_place_def)
      define ovh where "ovh = gapend - s - (sz - 1)"
      have e: "extent_last_gap exstart exend subend sz boundary flags newstart lst gapend b =
          (if EX_FAST \<in> flags \<or> ovh = 0 then Scan_Found s lst else Scan_Fail (better ovh s lst b))"
        using True Bound_Ok by (simp add: extent_last_gap_def ovh_def Let_def)
      show ?thesis
      proof (cases "EX_FAST \<in> flags \<or> ovh = 0")
        case True
        with gd show ?thesis by (simp add: e)
      next
        case False
        then have "fst (better ovh s lst b) \<noteq> 0" by (intro better_nonzero) simp
        moreover have "good (snd (snd (better ovh s lst b))) (fst (snd (better ovh s lst b)))"
          using better_cases [of ovh s lst b] gd I(5) calculation by auto
        ultimately show ?thesis using False by (simp add: e)
      qed
    next
      case Bound_Nofit
      then have "boundary \<noteq> 0" by (auto simp: extent_boundary_def)
      with True Bound_Nofit I(5) nofast show ?thesis by (simp add: extent_last_gap_def feas)
    next
      case Bound_Fail
      then have "boundary \<noteq> 0" by (auto simp: extent_boundary_def)
      with True Bound_Fail I(5) nofast show ?thesis by (simp add: extent_last_gap_def feas)
    qed
  qed
qed

text \<open>Before the loop: the first candidate, and the regions that lie before it.\<close>

lemma scan_start:
  fixes good feas and skew :: u64
  assumes ok: "regions_ok exstart exend rs" and k: "k < 64" and noov: "unat exend + 2 ^ k < 2 ^ 64"
    and sub: "exstart \<le> substart" "substart \<le> exend"
  defines "new0 \<equiv> extent_align substart (2 ^ k) skew"
  defines "n \<equiv> length (takeWhile (\<lambda>r. \<not> er_start r \<ge> new0) rs)"
  defines "new \<equiv> (if n \<noteq> 0 \<and> er_end (rs ! (n - 1)) \<ge> new0 then extent_align (er_end (rs ! (n - 1)) + 1) (2 ^ k) skew else new0)"
  assumes feas: "\<And>s. feas s \<Longrightarrow> feasible rs substart subend sz k skew s"
  shows "scan_inv good feas k skew substart (take n rs) (drop n rs) new (prev_region n) (0, 0, None) \<and> \<not> new0 < exstart"
proof -
  have n: "n \<le> length rs" by (simp add: n_def length_takeWhile_le)
  have up0: "substart \<le> new0 \<and> aligned k skew new0 \<and> (\<forall>y. substart \<le> y \<and> aligned k skew y \<longrightarrow> new0 \<le> y)"
    unfolding new0_def using sub(2) noov by (intro extent_align_up [OF k]) (simp add: word_le_nat_alt)
  have pre: "er_start r < new0" if "r \<in> set (take n rs)" for r
    using that by (auto simp: n_def takeWhile_eq_take [symmetric] dest: set_takeWhileD)
  have okd: "regions_ok exstart exend (take n rs)" "regions_ok exstart exend (drop n rs)"
    "\<forall>x\<in>set (take n rs). \<forall>y\<in>set (drop n rs). er_end x < er_start y"
    using ok regions_ok_append [of exstart exend "take n rs" "drop n rs"] by auto
  have post: "new0 \<le> er_start r" if r: "r \<in> set (drop n rs)" for r
  proof -
    obtain b bs where d: "drop n rs = b # bs" using r by (cases "drop n rs") auto
    then have "n < length rs" by (metis drop_eq_Nil leI list.distinct(1))
    then have "\<not> \<not> new0 \<le> er_start (rs ! n)" unfolding n_def by (rule nth_length_takeWhile)
    then have b: "new0 \<le> er_start b" using d by (metis nth_via_drop)
    show ?thesis
    proof (cases "r = b")
      case False
      then have "er_start b \<le> er_end b" "er_end b < er_start r" using okd(2) d r by (auto simp: regions_ok_Cons)
      then show ?thesis using b by (meson order_trans less_imp_le)
    qed (use b in simp)
  qed
  have lo: "\<not> new0 < exstart" using up0 sub(1) by (meson leD order_trans)
  show ?thesis
  proof (cases "n \<noteq> 0 \<and> er_end (rs ! (n - 1)) \<ge> new0")
    case True
    define a where "a = rs ! (n - 1)"
    have tk: "take n rs = take (n - 1) rs @ [a]"
      using True n by (metis One_nat_def Suc_pred a_def diff_less le_less_trans linorder_not_le neq0_conv take_Suc_conv_app_nth zero_less_one less_le_trans)
    have a: "exstart \<le> er_start a" "er_start a \<le> er_end a" "er_end a \<le> exend" "er_start a < new0" "a \<in> set rs"
      using okd(1) pre [of a] tk n True by (auto simp: regions_ok_append regions_ok_Cons a_def)
    have new: "new = extent_align (er_end a + 1) (2 ^ k) skew" using True by (simp add: new_def a_def)
    have a1: "unat (er_end a + 1) = unat (er_end a) + 1" by (rule unat_succ_noov [OF a(3) noov])
    have up: "er_end a + 1 \<le> new \<and> aligned k skew new \<and> (\<forall>y. er_end a + 1 \<le> y \<and> aligned k skew y \<longrightarrow> new \<le> y)"
      unfolding new using a(3) noov a1 by (intro extent_align_up [OF k]) (simp add: word_le_nat_alt)
    have lt: "er_end a < new" using up a1 by (auto simp: word_le_nat_alt word_less_nat_alt)
    have "\<forall>r\<in>set (take n rs). er_end r < new"
      using okd(1) lt a(2) unfolding tk by (auto simp: regions_ok_append intro: less_trans order.strict_trans2)
    moreover have "substart \<le> new"
    proof -
      have "substart \<le> er_end a" using up0 True by (auto simp: a_def intro: order_trans)
      then show ?thesis using lt by simp
    qed
    moreover have "new \<le> y" if "r \<in> set (drop n rs)" "aligned k skew y" "er_end r < y" for r y
    proof -
      have "er_end a < er_start r" "er_start r \<le> er_end r" using okd that(1) tk by (auto simp: regions_ok_def)
      then have "er_end a < y" using that(3) by (metis less_trans order.strict_trans2)
      then show ?thesis using up that(2) inc_le by blast
    qed
    moreover have "\<not> s < new" if "feas s" for s
    proof
      assume lt_s: "s < new"
      have f: "aligned k skew s" "substart \<le> s" "s \<le> s + (sz - 1)" "covers rs \<inter> {s..s + (sz - 1)} = {}"
        using feas [OF that] by (auto simp: feasible_def)
      have "er_start a < s" using up0 f(1,2) a(4) by (meson order.strict_trans2)
      moreover have "s \<le> er_end a" using up f(1) lt_s inc_le [of "er_end a" s] by (meson leD leI)
      ultimately have "s \<in> covers rs" using a(5) by (auto simp: covers_def region_set_def intro!: bexI [of _ a])
      with f(3,4) show False by auto
    qed
    ultimately show ?thesis using up lo n by (auto simp: scan_inv_def)
  next
    case False
    have new: "new = new0" unfolding new_def using False by (rule if_not_P)
    have "er_end r < new0" if r: "r \<in> set (take n rs)" for r
    proof -
      have n0: "n \<noteq> 0" using r by (cases n) auto
      define a where "a = rs ! (n - 1)"
      have tk: "take n rs = take (n - 1) rs @ [a]"
        using n0 n by (metis One_nat_def Suc_pred a_def diff_less le_less_trans linorder_not_le neq0_conv take_Suc_conv_app_nth zero_less_one less_le_trans)
      have "er_end a < new0" using False n0 by (simp add: a_def)
      then show ?thesis using r okd(1) unfolding tk
        by (auto simp: regions_ok_append regions_ok_Cons intro: less_trans order.strict_trans2)
    qed
    moreover have "new0 \<le> y" if "r \<in> set (drop n rs)" "er_end r < y" for r y
    proof -
      have "er_start r \<le> er_end r" using okd(2) that(1) by (auto simp: regions_ok_def)
      then show ?thesis using post [OF that(1)] that(2) by (meson order_trans less_imp_le)
    qed
    moreover have "\<not> s < new0" if "feas s" for s
      using feas [OF that] up0 by (auto simp: feasible_def dest: leD)
    ultimately show ?thesis using up0 lo n by (auto simp: scan_inv_def new)
  qed
qed

lemma good_place_alloc:
  assumes inv: "ex_inv ex" and good: "good_place (ex_regions ex) substart subend sz k skew boundary j line lst s"
    and sub: "ex_start ex \<le> substart" "subend \<le> ex_end ex"
  shows "ex_inv (extent_insert_and_optimize s sz lst myrp ex) \<and>
    allocated (extent_insert_and_optimize s sz lst myrp ex) = allocated ex \<union> {s..s + (sz - 1)} \<and>
    allocated ex \<inter> {s..s + (sz - 1)} = {} \<and> s \<le> s + (sz - 1)"
proof -
  obtain i where i: "lst = prev_region i" "fits_at (ex_regions ex) i s (s + (sz - 1))" using good by (auto simp: good_place_def)
  have r: "ex_start ex \<le> s" "s + (sz - 1) \<le> ex_end ex" using good sub by (auto simp: good_place_def intro: order_trans)
  show ?thesis using insert_inv [OF inv i(2) r, of myrp] fits_disjoint [OF i(2)] i by (simp add: fits_at_def)
qed

text \<open>The outcome the search promises, and how its two exits (\<^verbatim>\<open>found\<close> and \<^verbatim>\<open>fail\<close>) keep the promise.\<close>

definition alloc_ok :: "extent \<Rightarrow> (nat option \<Rightarrow> u64 \<Rightarrow> bool) \<Rightarrow> (u64 \<Rightarrow> bool) \<Rightarrow> u64 \<Rightarrow> extent_region \<Rightarrow> u64 ext_res \<Rightarrow> bool" where
  "alloc_ok ex good feas sz myrp res \<longleftrightarrow>
     (case res of
        Ext_Ok s ex' \<Rightarrow> \<exists>lst. good lst s \<and> ex' = extent_insert_and_optimize s sz lst myrp ex
      | Ext_Err err ex' \<Rightarrow> err = EAGAIN \<and> same_space ex ex' \<and> (\<forall>s. \<not> feas s)
      | Ext_Sleep ex' \<Rightarrow> same_space ex ex' \<and> (\<forall>s. \<not> feas s)
      | Ext_Panic \<Rightarrow> False)"

lemma do_alloc_spec:
  fixes flags :: "ex_flag set" and skew :: u64
  assumes inv: "ex_inv ex" and k: "k < 64" "alignment = 2 ^ k" and noov: "unat (ex_end ex) + 2 ^ k < 2 ^ 64"
    and args: "bound_args boundary j sz" "1 \<le> sz" "sz - 1 \<le> subend - substart"
    and sub: "ex_start ex \<le> substart" "substart \<le> ex_end ex" "ex_start ex \<le> subend" "subend \<le> ex_end ex"
  defines "good \<equiv> good_place (ex_regions ex) substart subend sz k skew boundary j (line_of flags (ex_start ex))"
    and "feas \<equiv> (\<lambda>s. boundary = 0 \<and> feasible (ex_regions ex) substart subend sz k skew s)"
  shows "alloc_ok ex good feas sz myrp (extent_do_alloc substart subend sz alignment skew boundary flags myrp ex)"
proof -
  define rs new0 where "rs = ex_regions ex" and "new0 = extent_align substart (2 ^ k) skew"
  define n where "n = length (takeWhile (\<lambda>r. \<not> er_start r \<ge> new0) rs)"
  define new where "new = (if n \<noteq> 0 \<and> er_end (rs ! (n - 1)) \<ge> new0 then extent_align (er_end (rs ! (n - 1)) + 1) (2 ^ k) skew else new0)"
  define found where "found = (\<lambda>start lst. Ext_Ok start (extent_insert_and_optimize start sz lst myrp ex))"
  define fail where "fail = (\<lambda>b :: best. if EX_FAST \<notin> flags \<and> fst b \<noteq> 0 then found (fst (snd b)) (snd (snd b))
                               else if EX_WAITSPACE \<in> flags then Ext_Sleep (ex\<lparr>exf_wanted := True\<rparr>)
                               else Ext_Err EAGAIN (extent_free_region_descriptor myrp ex))"
  have ok: "regions_ok (ex_start ex) (ex_end ex) rs" using inv by (simp add: ex_inv_def rs_def)
  have "scan_inv good feas k skew substart (take n rs) (drop n rs) new (prev_region n) (0, 0, None) \<and> \<not> new0 < ex_start ex"
    unfolding new_def n_def new0_def
    by (rule scan_start [OF ok k(1) noov sub(1,2), where subend = subend and sz = sz]) (simp add: feas_def rs_def)
  then have st: "scan_inv good feas k skew substart (take n rs) (drop n rs) new (prev_region n) (0, 0, None)" "\<not> new0 < ex_start ex"
    by blast+
  have nl: "length (take n rs) = n" by (simp add: n_def length_takeWhile_le)
  have al0: "(2 :: u64) ^ k \<noteq> 0" using k(1) by simp
  have bnd: "\<not> (boundary \<noteq> 0 \<and> boundary < sz)" using args(1) by (auto simp: bound_args_def dest: leD)
  have p1: "\<not> (substart < ex_start ex \<or> substart > ex_end ex \<or> subend > ex_end ex \<or> subend < ex_start ex)" using sub by auto
  have p2: "\<not> (sz < 1 \<or> sz - 1 > subend - substart)" using args by auto
  have e: "extent_do_alloc substart subend sz alignment skew boundary flags myrp ex =
     (case extent_scan (ex_start ex) (ex_end ex) subend sz alignment skew boundary flags new (prev_region n) (0, 0, None) n (drop n rs) of
        Scan_Found start lst \<Rightarrow> found start lst
      | Scan_Fail b \<Rightarrow> fail b
      | Scan_End start lst gapend b \<Rightarrow>
          (case extent_last_gap (ex_start ex) (ex_end ex) subend sz boundary flags start lst gapend b of
             Scan_Found start' lst' \<Rightarrow> found start' lst'
           | Scan_Fail b' \<Rightarrow> fail b'
           | Scan_End _ _ _ b' \<Rightarrow> fail b'))"
    unfolding extent_do_alloc_def Let_def k(2) if_not_P [OF p1] if_not_P [OF p2] if_not_P [OF al0] if_not_P [OF bnd]
      new0_def [symmetric] rs_def [symmetric] if_not_P [OF st(2)] n_def [symmetric] new_def [symmetric]
      found_def [symmetric] fail_def [symmetric]
    by (rule refl)
  have found_ok: "alloc_ok ex good feas sz myrp (found s lst)" if "good lst s" for s lst
    using that by (auto simp: alloc_ok_def found_def)
  have fail_ok: "alloc_ok ex good feas sz myrp (fail b)"
    if "fst b \<noteq> 0 \<longrightarrow> good (snd (snd b)) (fst (snd b))" "EX_FAST \<in> flags \<longrightarrow> fst b = 0" "\<forall>s. feas s \<longrightarrow> fst b \<noteq> 0" for b
    using that found_ok [of "snd (snd b)" "fst (snd b)"] by (auto simp: fail_def) (auto simp: alloc_ok_def)
  note scan = scan_spec [OF ok k noov args(1,2) sub(1,4) _ st(1), of flags, unfolded nl, folded rs_def]
  show ?thesis
  proof (cases "extent_scan (ex_start ex) (ex_end ex) subend sz alignment skew boundary flags new (prev_region n) (0, 0, None) n (drop n rs)")
    case (Scan_Found s lst)
    with scan have "good lst s" by (simp add: good_def feas_def rs_def)
    with Scan_Found show ?thesis by (simp add: e found_ok)
  next
    case (Scan_Fail b)
    with scan have "(fst b \<noteq> 0 \<longrightarrow> good (snd (snd b)) (fst (snd b))) \<and> (EX_FAST \<in> flags \<longrightarrow> fst b = 0) \<and> boundary \<noteq> 0"
      by (simp add: good_def feas_def rs_def)
    then have "alloc_ok ex good feas sz myrp (fail b)" by (intro fail_ok) (auto simp: feas_def)
    with Scan_Fail show ?thesis by (simp add: e)
  next
    case (Scan_End ns lst gapend b)
    with scan obtain pre' ys' where pre': "rs = pre' @ ys'" "scan_inv good feas k skew substart pre' ys' ns lst b"
      "\<forall>r\<in>set ys'. subend < er_start r" "EX_FAST \<in> flags \<longrightarrow> fst b = 0"
      by (auto simp: good_def feas_def rs_def)
    note lg = last_gap_spec [OF noov args(1,2) sub(1,4) pre'(1,3) pre'(2,4), of gapend]
    show ?thesis
    proof (cases "extent_last_gap (ex_start ex) (ex_end ex) subend sz boundary flags ns lst gapend b")
      case (Scan_Found s lst')
      with lg have "good lst' s" by (simp add: good_def feas_def rs_def)
      with Scan_Found Scan_End show ?thesis by (simp add: e found_ok)
    next
      case (Scan_Fail b')
      with lg have "(fst b' \<noteq> 0 \<longrightarrow> good (snd (snd b')) (fst (snd b'))) \<and> (EX_FAST \<in> flags \<longrightarrow> fst b' = 0) \<and> (\<forall>s. feas s \<longrightarrow> fst b' \<noteq> 0)"
        by (simp add: good_def feas_def rs_def)
      then have "alloc_ok ex good feas sz myrp (fail b')" by (intro fail_ok) auto
      with Scan_Fail Scan_End show ?thesis by (simp add: e)
    next
      case (Scan_End a c d f)
      with lg show ?thesis by (simp add: good_def feas_def rs_def)
    qed
  qed
qed

section \<open>Properties of the search\<close>



definition ex_top :: extent where
  "ex_top = \<lparr>ex_name = ''top'', ex_regions = [\<lparr>er_start = 0x10, er_end = - 1, er_alloc = True, er_discard = False\<rparr>],
     ex_start = 0, ex_end = - 1, exf_fixed = False, exf_nocoalesce = False, exf_wanted = False,
     exf_flwanted = False, fex_freelist = []\<rparr>"




end
