(* ===== verification/Bufq.thy ===== *)
theory Bufq
  imports Kern_Prelude "HOL-Library.Multiset"
begin

text \<open>
  The disk buffer queues of \<^verbatim>\<open>kern/kern_bufq.c\<close>: the two queueing disciplines (fifo and N-step scan), the
  queue object that dispatches to one of them and counts outstanding transfers, the high and low water
  marks, and the stop/restart protocol used when the machine suspends.

  The two disciplines are instances of one interface, the locale \<open>bufq_discipline\<close>, which says what
  \<^verbatim>\<open>struct bufq_impl\<close> promises about the multiset of queued buffers. The threads that
  sleep on a queue are the subject of the theory \<open>Bufq_Sleep\<close>.
\<close>

section \<open>Buffers\<close>

text \<open>
  The fields of \<^verbatim>\<open>struct buf\<close> the queues use; \<open>b_addr\<close> is the identity of the buffer and \<open>b_bq\<close> the identity
  of the queue it is on.
\<close>

record buf =
  b_addr :: nat
  b_blkno :: int
  b_flags :: u64
  b_error :: "errno option"
  b_bq :: "nat option"

definition B_DONE :: u64 where [kern_defs]: "B_DONE = 0x100"
definition B_ERROR :: u64 where [kern_defs]: "B_ERROR = 0x400"

definition BUFQ_NSCAN_N :: nat where [kern_defs]: "BUFQ_NSCAN_N = 128"
definition BUFQ_FIFO :: nat where [kern_defs]: "BUFQ_FIFO = 0"
definition BUFQ_NSCAN :: nat where [kern_defs]: "BUFQ_NSCAN = 1"
definition BUFQ_HOWMANY :: nat where [kern_defs]: "BUFQ_HOWMANY = 2"
definition BUFQ_HI :: u32 where [kern_defs]: "BUFQ_HI = 128"
definition BUFQ_LOW :: u32 where [kern_defs]: "BUFQ_LOW = 64"

section \<open>The fifo discipline\<close>

definition bufq_fifo_create :: "buf list" where
  "bufq_fifo_create = []"

definition bufq_fifo_queue :: "buf list \<Rightarrow> buf \<Rightarrow> buf list" where
  "bufq_fifo_queue head bp = head @ [bp]"

fun bufq_fifo_dequeue :: "buf list \<Rightarrow> buf option \<times> buf list" where
  "bufq_fifo_dequeue [] = (None, [])"
| "bufq_fifo_dequeue (bp # head) = (Some bp, head)"

definition bufq_fifo_peek :: "buf list \<Rightarrow> bool" where
  "bufq_fifo_peek head = (head \<noteq> [])"

section \<open>The N-step scan discipline\<close>

definition BUF_INORDER :: "buf \<Rightarrow> buf \<Rightarrow> bool" where
  "BUF_INORDER ba bb = (b_blkno ba < b_blkno bb)"

record bufq_nscan_data =
  sorted_seg :: "buf list"
  fifo_seg :: "buf list"
  leftoverroom :: nat

text \<open>
  \<^verbatim>\<open>bufq_simple_nscan\<close>: the loop passes every element the new buffer does not precede; the buffer goes
  after the last one passed.
\<close>

fun bufq_simple_nscan :: "buf list \<Rightarrow> buf \<Rightarrow> buf list" where
  "bufq_simple_nscan [] bp = [bp]"
| "bufq_simple_nscan (cur # head) bp =
     (if BUF_INORDER bp cur then bp # cur # head else cur # bufq_simple_nscan head bp)"

text \<open>The loop of \<^verbatim>\<open>bufq_nscan_resort\<close>: at most \<open>n\<close> more elements; returns how many it moved.\<close>

fun bufq_nscan_resort_loop :: "nat \<Rightarrow> nat \<Rightarrow> buf list \<Rightarrow> buf list \<Rightarrow> nat \<times> buf list \<times> buf list" where
  "bufq_nscan_resort_loop 0 cnt ff srt = (cnt, ff, srt)"
| "bufq_nscan_resort_loop (Suc n) cnt [] srt = (cnt, [], srt)"
| "bufq_nscan_resort_loop (Suc n) cnt (bp # ff) srt =
     bufq_nscan_resort_loop n (Suc cnt) ff (bufq_simple_nscan srt bp)"

definition bufq_nscan_resort :: "bufq_nscan_data \<Rightarrow> bufq_nscan_data" where
  "bufq_nscan_resort d =
     (let (cnt, ff, srt) = bufq_nscan_resort_loop BUFQ_NSCAN_N 0 (fifo_seg d) (sorted_seg d)
      in d\<lparr>sorted_seg := srt, fifo_seg := ff, leftoverroom := BUFQ_NSCAN_N - cnt\<rparr>)"

definition bufq_nscan_create :: bufq_nscan_data where
  "bufq_nscan_create = \<lparr>sorted_seg = [], fifo_seg = [], leftoverroom = 0\<rparr>"

definition bufq_nscan_queue :: "bufq_nscan_data \<Rightarrow> buf \<Rightarrow> bufq_nscan_data" where
  "bufq_nscan_queue d bp =
     (if leftoverroom d \<noteq> 0 \<and> sorted_seg d \<noteq> [] \<and> BUF_INORDER (hd (sorted_seg d)) bp
      then d\<lparr>sorted_seg := bufq_simple_nscan (sorted_seg d) bp, leftoverroom := leftoverroom d - 1\<rparr>
      else d\<lparr>fifo_seg := fifo_seg d @ [bp]\<rparr>)"

definition bufq_nscan_dequeue :: "bufq_nscan_data \<Rightarrow> buf option \<times> bufq_nscan_data" where
  "bufq_nscan_dequeue d =
     (let d' = (if sorted_seg d = [] then bufq_nscan_resort d else d)
      in case sorted_seg d' of
           [] \<Rightarrow> (None, d')
         | bp # rest \<Rightarrow> (Some bp, d'\<lparr>sorted_seg := rest\<rparr>))"

definition bufq_nscan_peek :: "bufq_nscan_data \<Rightarrow> bool" where
  "bufq_nscan_peek d = (sorted_seg d \<noteq> [] \<or> fifo_seg d \<noteq> [])"

section \<open>The queue object\<close>

text \<open>
  \<^verbatim>\<open>struct bufq\<close>. The pair of \<^verbatim>\<open>bufq_impl\<close> and \<^verbatim>\<open>bufq_data\<close> is the tagged value \<open>bufq_data\<close>; the functions
  \<open>impl_queue\<close>, \<open>impl_dequeue\<close> and \<open>impl_peek\<close> are the calls through the table \<^verbatim>\<open>bufq_impls\<close>.
\<close>

datatype bufq_data = Fifo "buf list" | Nscan bufq_nscan_data

record bufq =
  bufq_addr :: nat
  bufq_data :: bufq_data
  bufq_outstanding :: u32
  bufq_hi :: u32
  bufq_low :: u32
  bufq_waiting :: nat
  bufq_stop :: bool
  bufq_type :: nat

definition impl_create :: "nat \<Rightarrow> bufq_data" where
  "impl_create type = (if type = BUFQ_FIFO then Fifo bufq_fifo_create else Nscan bufq_nscan_create)"

fun impl_queue :: "bufq_data \<Rightarrow> buf \<Rightarrow> bufq_data" where
  "impl_queue (Fifo h) bp = Fifo (bufq_fifo_queue h bp)"
| "impl_queue (Nscan d) bp = Nscan (bufq_nscan_queue d bp)"

fun impl_dequeue :: "bufq_data \<Rightarrow> buf option \<times> bufq_data" where
  "impl_dequeue (Fifo h) = map_prod id Fifo (bufq_fifo_dequeue h)"
| "impl_dequeue (Nscan d) = map_prod id Nscan (bufq_nscan_dequeue d)"

fun impl_peek :: "bufq_data \<Rightarrow> bool" where
  "impl_peek (Fifo h) = bufq_fifo_peek h"
| "impl_peek (Nscan d) = bufq_nscan_peek d"

text \<open>
  A critical section ends with a result, goes to sleep on a channel, or panics. The channels are the
  addresses the code passes to \<^verbatim>\<open>msleep_nsec\<close> and \<^verbatim>\<open>wakeup\<close>.
\<close>

datatype wchan = W_bufqs_stop | W_stop | W_outstanding | W_waiting

datatype 'a outcome = Done 'a | Sleep wchan | Panic

definition bufq_queue :: "buf \<Rightarrow> bufq \<Rightarrow> bufq outcome" where
  "bufq_queue bp bq =
     (if bufq_stop bq then Sleep W_stop
      else Done (bq\<lparr>bufq_outstanding := bufq_outstanding bq + 1,
                    bufq_data := impl_queue (bufq_data bq) (bp\<lparr>b_bq := Some (bufq_addr bq)\<rparr>)\<rparr>))"

definition bufq_dequeue :: "bufq \<Rightarrow> buf option \<times> bufq" where
  "bufq_dequeue bq =
     (let (bp, d) = impl_dequeue (bufq_data bq) in (bp, bq\<lparr>bufq_data := d\<rparr>))"

definition bufq_peek :: "bufq \<Rightarrow> bool" where
  "bufq_peek bq = impl_peek (bufq_data bq)"

text \<open>
  \<^verbatim>\<open>bufq_done\<close>: the queue, the buffer and the channels woken, in order; a panic when the assertion on the
  counter fails.
\<close>

definition bufq_done :: "bufq \<Rightarrow> buf \<Rightarrow> (bufq \<times> buf \<times> wchan list) outcome" where
  "bufq_done bq bp =
     (if bufq_outstanding bq = 0 then Panic
      else let bq' = bq\<lparr>bufq_outstanding := bufq_outstanding bq - 1\<rparr> in
        Done (bq', bp\<lparr>b_bq := None\<rparr>,
              (if bufq_stop bq' \<and> bufq_outstanding bq' = 0 then [W_outstanding] else []) @
              (if bufq_waiting bq' \<noteq> 0 \<and> bufq_outstanding bq' < bufq_low bq' then [W_waiting] else [])))"

text \<open>
  \<^verbatim>\<open>bufq_wait\<close>: the test of the loop, with the increment of the waiter count before the sleep, and what a
  woken thread does before it tests again.
\<close>

definition bufq_wait_test :: "bufq \<Rightarrow> bufq \<times> unit outcome" where
  "bufq_wait_test bq =
     (if bufq_hi bq \<le> bufq_outstanding bq
      then (bq\<lparr>bufq_waiting := bufq_waiting bq + 1\<rparr>, Sleep W_waiting)
      else (bq, Done ()))"

definition bufq_wait :: "bufq \<Rightarrow> bufq \<times> unit outcome" where
  "bufq_wait bq = (if bufq_hi bq \<noteq> 0 then bufq_wait_test bq else (bq, Done ()))"

definition bufq_wait_resume :: "bufq \<Rightarrow> bufq \<times> unit outcome" where
  "bufq_wait_resume bq = bufq_wait_test (bq\<lparr>bufq_waiting := bufq_waiting bq - 1\<rparr>)"

text \<open>
  \<^verbatim>\<open>biodone\<close> as far as the queue sees it: it panics on a buffer that is done, sets \<^verbatim>\<open>B_DONE\<close> and calls
  \<^verbatim>\<open>bufq_done\<close> on the queue of the buffer. The rest of that function belongs to the buffer cache.
\<close>

definition biodone :: "bufq \<Rightarrow> buf \<Rightarrow> (bufq \<times> buf \<times> wchan list) outcome" where
  "biodone bq bp =
     (if b_flags bp AND B_DONE \<noteq> 0 then Panic
      else let bp' = bp\<lparr>b_flags := b_flags bp OR B_DONE\<rparr> in
        if b_bq bp' = None then Done (bq, bp', []) else bufq_done bq bp')"

section \<open>The queued buffers\<close>

definition nscan_contents :: "bufq_nscan_data \<Rightarrow> buf multiset" where
  "nscan_contents d = mset (sorted_seg d) + mset (fifo_seg d)"

fun impl_contents :: "bufq_data \<Rightarrow> buf multiset" where
  "impl_contents (Fifo h) = mset h"
| "impl_contents (Nscan d) = nscan_contents d"

definition bufq_contents :: "bufq \<Rightarrow> buf multiset" where
  "bufq_contents bq = impl_contents (bufq_data bq)"

lemma mset_bufq_simple_nscan [simp]: "mset (bufq_simple_nscan h bp) = add_mset bp (mset h)"
  by (induction h) simp_all

lemma length_bufq_simple_nscan [simp]: "length (bufq_simple_nscan h bp) = Suc (length h)"
  by (induction h) simp_all

lemma bufq_simple_nscan_not_Nil [simp]: "bufq_simple_nscan h bp \<noteq> []"
  by (cases h) simp_all

text \<open>What the loop of the resort does: it moves a prefix of the fifo into the sorted segment.\<close>

lemma bufq_nscan_resort_loop_eq:
  "bufq_nscan_resort_loop n cnt ff srt =
     (cnt + min n (length ff), List.drop n ff, fold (\<lambda>b s. bufq_simple_nscan s b) (List.take n ff) srt)"
  by (induction n cnt ff srt rule: bufq_nscan_resort_loop.induct) simp_all

lemma length_fold_nscan:
  "length (fold (\<lambda>b s. bufq_simple_nscan s b) bs srt) = length srt + length bs"
  by (induction bs arbitrary: srt) simp_all

lemma mset_fold_nscan:
  "mset (fold (\<lambda>b s. bufq_simple_nscan s b) bs srt) = mset bs + mset srt"
  by (induction bs arbitrary: srt) simp_all

lemma bufq_nscan_resort_eq:
  "bufq_nscan_resort d = d\<lparr>
     sorted_seg := fold (\<lambda>b s. bufq_simple_nscan s b) (List.take BUFQ_NSCAN_N (fifo_seg d)) (sorted_seg d),
     fifo_seg := List.drop BUFQ_NSCAN_N (fifo_seg d),
     leftoverroom := BUFQ_NSCAN_N - min BUFQ_NSCAN_N (length (fifo_seg d))\<rparr>"
  by (simp add: bufq_nscan_resort_def bufq_nscan_resort_loop_eq)

lemma nscan_contents_resort [simp]: "nscan_contents (bufq_nscan_resort d) = nscan_contents d"
  by (simp add: nscan_contents_def bufq_nscan_resort_eq mset_fold_nscan)
    (metis mset_append append_take_drop_id add.assoc add.commute)

lemma sorted_seg_resort_Nil:
  "sorted_seg d = [] \<Longrightarrow> sorted_seg (bufq_nscan_resort d) = [] \<longleftrightarrow> fifo_seg d = []"
  by (simp add: bufq_nscan_resort_eq length_0_conv [symmetric] length_fold_nscan kern_defs
      min_def del: length_0_conv)

lemma bufq_nscan_dequeue_cases:
  obtains (empty) d' where "bufq_nscan_dequeue d = (None, d')" and "nscan_contents d = {#}"
      and "nscan_contents d' = {#}"
    | (next_buf) bp d' where "bufq_nscan_dequeue d = (Some bp, d')"
      and "nscan_contents d = add_mset bp (nscan_contents d')"
proof -
  define e where "e = (if sorted_seg d = [] then bufq_nscan_resort d else d)"
  have same: "nscan_contents e = nscan_contents d" by (simp add: e_def)
  have deq: "bufq_nscan_dequeue d =
      (case sorted_seg e of [] \<Rightarrow> (None, e) | bp # rest \<Rightarrow> (Some bp, e\<lparr>sorted_seg := rest\<rparr>))"
    unfolding bufq_nscan_dequeue_def Let_def e_def ..
  show thesis
  proof (cases "sorted_seg e")
    case Nil
    then have "sorted_seg d = []" "fifo_seg d = []"
      by (auto simp: e_def sorted_seg_resort_Nil split: if_splits)
    then show thesis using Nil deq same empty [of e] by (simp add: nscan_contents_def)
  next
    case (Cons bp rest)
    then have "nscan_contents e = add_mset bp (nscan_contents (e\<lparr>sorted_seg := rest\<rparr>))"
      by (simp add: nscan_contents_def)
    then show thesis using Cons deq same next_buf [of bp "e\<lparr>sorted_seg := rest\<rparr>"] by simp
  qed
qed

lemma size_impl_dequeue: "impl_dequeue d = (Some bp, d') \<Longrightarrow> impl_contents d = add_mset bp (impl_contents d')"
proof (cases d)
  case (Fifo h)
  then show "impl_dequeue d = (Some bp, d') \<Longrightarrow> impl_contents d = add_mset bp (impl_contents d')"
    by (cases h) auto
next
  case (Nscan nd)
  show "impl_dequeue d = (Some bp, d') \<Longrightarrow> impl_contents d = add_mset bp (impl_contents d')"
    using Nscan by (cases rule: bufq_nscan_dequeue_cases [of nd]) auto
qed

text \<open>
  \<^verbatim>\<open>bufq_drain\<close>: the buffers it completes, in the order it completes them. The loop ends because every
  \<^verbatim>\<open>bufq_dequeue\<close> that returns a buffer removes it.
\<close>

lemma bufq_done_contents: "bufq_done bq bp = Done (bq', r) \<Longrightarrow> bufq_data bq' = bufq_data bq"
  by (auto simp: bufq_done_def Let_def split: if_splits)

lemma biodone_contents: "biodone bq bp = Done (bq', r) \<Longrightarrow> bufq_data bq' = bufq_data bq"
  by (auto simp: biodone_def Let_def dest: bufq_done_contents split: if_splits)

lemma bufq_dequeue_contents:
  "bufq_dequeue bq = (Some bp, bq') \<Longrightarrow> bufq_contents bq = add_mset bp (bufq_contents bq')"
  by (auto simp: bufq_dequeue_def bufq_contents_def size_impl_dequeue split: prod.splits)

definition bufq_drain_mark :: "buf \<Rightarrow> buf" where
  "bufq_drain_mark bp = bp\<lparr>b_error := Some ENXIO, b_flags := b_flags bp OR B_ERROR\<rparr>"

function bufq_drain :: "bufq \<Rightarrow> (bufq \<times> buf list) outcome" where
  "bufq_drain bq =
     (case bufq_dequeue bq of
        (None, bq1) \<Rightarrow> Done (bq1, [])
      | (Some bp, bq1) \<Rightarrow>
          (case biodone bq1 (bufq_drain_mark bp) of
             Done (bq2, bp', wakeups) \<Rightarrow>
               (case bufq_drain bq2 of
                  Done (bq3, bps) \<Rightarrow> Done (bq3, bp' # bps)
                | Sleep w \<Rightarrow> Sleep w
                | Panic \<Rightarrow> Panic)
           | Sleep w \<Rightarrow> Sleep w
           | Panic \<Rightarrow> Panic))"
  by pat_completeness auto
termination
proof (relation "measure (\<lambda>bq. size (bufq_contents bq))", goal_cases)
  case (2 bq r bq1 bp r2 bq2 r3 bp' ws)
  have "size (bufq_contents bq) = Suc (size (bufq_contents bq1))"
    using bufq_dequeue_contents [of bq bp bq1] 2 by simp
  moreover have "biodone bq1 (bufq_drain_mark bp) = Done (bq2, r3)" using 2 by simp
  then have "bufq_contents bq2 = bufq_contents bq1"
    by (simp add: bufq_contents_def biodone_contents)
  ultimately show ?case by simp
qed simp

declare bufq_drain.simps [simp del]

section \<open>The interface of a queueing discipline\<close>

text \<open>
  What \<^verbatim>\<open>struct bufq_impl\<close> promises: a new queue is empty, queueing adds the buffer, dequeueing removes one
  of the queued buffers unless there is none, and peeking tells whether there is one. The client lemma says
  that dequeueing until nothing is left returns every queued buffer once.
\<close>

fun dequeue_all :: "('d \<Rightarrow> buf option \<times> 'd) \<Rightarrow> nat \<Rightarrow> 'd \<Rightarrow> buf list \<times> 'd" where
  "dequeue_all deq 0 d = ([], d)"
| "dequeue_all deq (Suc n) d =
     (case deq d of
        (None, d') \<Rightarrow> ([], d')
      | (Some bp, d') \<Rightarrow> (let (bps, d'') = dequeue_all deq n d' in (bp # bps, d'')))"

locale bufq_discipline =
  fixes inv :: "'d \<Rightarrow> bool" and contents :: "'d \<Rightarrow> buf multiset" and create :: 'd
    and queue :: "'d \<Rightarrow> buf \<Rightarrow> 'd" and dequeue :: "'d \<Rightarrow> buf option \<times> 'd" and peek :: "'d \<Rightarrow> bool"
  assumes create_inv: "inv create" and create_empty: "contents create = {#}"
    and queue_inv: "inv d \<Longrightarrow> inv (queue d bp)"
    and queue_adds: "inv d \<Longrightarrow> contents (queue d bp) = add_mset bp (contents d)"
    and dequeue_inv: "inv d \<Longrightarrow> inv (snd (dequeue d))"
    and dequeue_none: "inv d \<Longrightarrow> fst (dequeue d) = None \<Longrightarrow> contents d = {#} \<and> contents (snd (dequeue d)) = {#}"
    and dequeue_some: "inv d \<Longrightarrow> fst (dequeue d) = Some bp \<Longrightarrow> contents d = add_mset bp (contents (snd (dequeue d)))"
    and peek_iff: "inv d \<Longrightarrow> peek d \<longleftrightarrow> contents d \<noteq> {#}"
begin

lemma dequeue_none_iff: "inv d \<Longrightarrow> fst (dequeue d) = None \<longleftrightarrow> contents d = {#}"
  using dequeue_none dequeue_some by (cases "fst (dequeue d)") auto

lemma dequeue_all_contents:
  "inv d \<Longrightarrow> mset (fst (dequeue_all dequeue (size (contents d)) d)) = contents d \<and>
   inv (snd (dequeue_all dequeue (size (contents d)) d)) \<and>
   contents (snd (dequeue_all dequeue (size (contents d)) d)) = {#}"
proof (induction "size (contents d)" arbitrary: d)
  case 0
  then show ?case by simp
next
  case (Suc n)
  obtain r d' where deq: "dequeue d = (r, d')" by fastforce
  from Suc have "contents d \<noteq> {#}" by auto
  with dequeue_none_iff [OF Suc.prems] deq obtain bp where r: "r = Some bp" by (cases r) auto
  have d': "contents d = add_mset bp (contents d')" "inv d'"
    using dequeue_some [OF Suc.prems] dequeue_inv [OF Suc.prems] deq r by simp_all
  then have "n = size (contents d')" using Suc.hyps(2) by simp
  from Suc.hyps(1) [OF this d'(2)] this Suc.hyps(2) [symmetric] deq r d' show ?case
    by (simp add: case_prod_beta Let_def)
qed

lemma fold_queue_contents:
  "inv d \<Longrightarrow> inv (fold (\<lambda>b e. queue e b) bs d) \<and>
   contents (fold (\<lambda>b e. queue e b) bs d) = mset bs + contents d"
  by (induction bs arbitrary: d) (simp_all add: queue_inv queue_adds)

text \<open>No buffer is lost or duplicated between queueing and draining.\<close>

lemma queue_then_dequeue_all:
  "mset (fst (dequeue_all dequeue (length bs) (fold (\<lambda>b e. queue e b) bs create))) = mset bs"
  using fold_queue_contents [OF create_inv, of bs] create_empty
    dequeue_all_contents [of "fold (\<lambda>b e. queue e b) bs create"] by simp

end

section \<open>The disciplines implement the interface\<close>

interpretation fifo_q: bufq_discipline "\<lambda>_. True" mset bufq_fifo_create bufq_fifo_queue bufq_fifo_dequeue bufq_fifo_peek
proof unfold_locales
  fix d :: "buf list" and bp :: buf
  show "fst (bufq_fifo_dequeue d) = None \<Longrightarrow> mset d = {#} \<and> mset (snd (bufq_fifo_dequeue d)) = {#}"
    by (cases d) simp_all
  show "fst (bufq_fifo_dequeue d) = Some bp \<Longrightarrow> mset d = add_mset bp (mset (snd (bufq_fifo_dequeue d)))"
    by (cases d) simp_all
qed (simp_all add: bufq_fifo_create_def bufq_fifo_queue_def bufq_fifo_peek_def)

text \<open>
  The invariant of the N-step scan: the segment being served is in block order, and together with the room
  left for late arrivals it never exceeds the segment size.
\<close>

definition nscan_inv :: "bufq_nscan_data \<Rightarrow> bool" where [kern_inv]:
  "nscan_inv d \<longleftrightarrow> sorted (map b_blkno (sorted_seg d)) \<and>
     length (sorted_seg d) + leftoverroom d \<le> BUFQ_NSCAN_N"

lemma set_bufq_simple_nscan: "set (bufq_simple_nscan h bp) = insert bp (set h)"
  by (induction h) auto

lemma sorted_bufq_simple_nscan:
  "sorted (map b_blkno h) \<Longrightarrow> sorted (map b_blkno (bufq_simple_nscan h bp))"
  by (induction h) (auto simp: BUF_INORDER_def set_bufq_simple_nscan)

lemma sorted_fold_nscan:
  "sorted (map b_blkno srt) \<Longrightarrow> sorted (map b_blkno (fold (\<lambda>b s. bufq_simple_nscan s b) bs srt))"
  by (induction bs arbitrary: srt) (simp_all add: sorted_bufq_simple_nscan)

lemma nscan_inv_resort: "nscan_inv d \<Longrightarrow> sorted_seg d = [] \<Longrightarrow> nscan_inv (bufq_nscan_resort d)"
  by (simp add: nscan_inv_def bufq_nscan_resort_eq sorted_fold_nscan length_fold_nscan)

lemma nscan_inv_tl: "nscan_inv d \<Longrightarrow> sorted_seg d = bp # rest \<Longrightarrow> nscan_inv (d\<lparr>sorted_seg := rest\<rparr>)"
  by (simp add: nscan_inv_def)

interpretation nscan_q: bufq_discipline nscan_inv nscan_contents bufq_nscan_create bufq_nscan_queue
  bufq_nscan_dequeue bufq_nscan_peek
proof unfold_locales
  fix d :: bufq_nscan_data and bp :: buf
  show "nscan_inv d \<Longrightarrow> nscan_inv (bufq_nscan_queue d bp)"
    by (auto simp: nscan_inv_def bufq_nscan_queue_def sorted_bufq_simple_nscan)
  show "nscan_contents (bufq_nscan_queue d bp) = add_mset bp (nscan_contents d)"
    by (simp add: nscan_contents_def bufq_nscan_queue_def)
  show "nscan_inv d \<Longrightarrow> nscan_inv (snd (bufq_nscan_dequeue d))"
    by (auto simp: bufq_nscan_dequeue_def Let_def nscan_inv_resort split: list.splits
        intro: nscan_inv_tl nscan_inv_tl [OF nscan_inv_resort])
  show "fst (bufq_nscan_dequeue d) = None \<Longrightarrow>
      nscan_contents d = {#} \<and> nscan_contents (snd (bufq_nscan_dequeue d)) = {#}"
    by (cases rule: bufq_nscan_dequeue_cases [of d]) simp_all
  show "fst (bufq_nscan_dequeue d) = Some bp \<Longrightarrow>
      nscan_contents d = add_mset bp (nscan_contents (snd (bufq_nscan_dequeue d)))"
    by (cases rule: bufq_nscan_dequeue_cases [of d]) simp_all
qed (simp_all add: bufq_nscan_create_def nscan_inv_def nscan_contents_def bufq_nscan_peek_def)

fun impl_inv :: "bufq_data \<Rightarrow> bool" where
  "impl_inv (Fifo h) = True"
| "impl_inv (Nscan d) = nscan_inv d"

text \<open>Hence so does the dispatch through the table, whatever the type of the queue.\<close>

interpretation impl_q: bufq_discipline impl_inv impl_contents "impl_create type" impl_queue impl_dequeue impl_peek
  for type
proof unfold_locales
  fix d :: bufq_data and bp :: buf
  show "impl_inv (impl_create type)"
    by (simp add: impl_create_def nscan_q.create_inv)
  show "impl_contents (impl_create type) = {#}"
    by (simp add: impl_create_def nscan_q.create_empty fifo_q.create_empty)
  assume inv: "impl_inv d"
  show "impl_inv (impl_queue d bp)"
    using inv by (cases d) (simp_all add: nscan_q.queue_inv)
  show "impl_contents (impl_queue d bp) = add_mset bp (impl_contents d)"
    using inv by (cases d) (simp_all add: nscan_q.queue_adds fifo_q.queue_adds)
  show "impl_inv (snd (impl_dequeue d))"
    using inv by (cases d) (simp_all add: nscan_q.dequeue_inv)
  show "impl_peek d \<longleftrightarrow> impl_contents d \<noteq> {#}"
    using inv by (cases d) (simp_all add: nscan_q.peek_iff fifo_q.peek_iff del: mset_zero_iff mset_zero_iff_right)
  show "fst (impl_dequeue d) = None \<Longrightarrow> impl_contents d = {#} \<and> impl_contents (snd (impl_dequeue d)) = {#}"
    using inv nscan_q.dequeue_none fifo_q.dequeue_none by (cases d) simp_all
  show "fst (impl_dequeue d) = Some bp \<Longrightarrow> impl_contents d = add_mset bp (impl_contents (snd (impl_dequeue d)))"
    using inv nscan_q.dequeue_some fifo_q.dequeue_some by (cases d) simp_all
qed

section \<open>Order of service\<close>

text \<open>Inserting after equal keys commutes with inserting before them, so a resort is a stable sort.\<close>

lemma nscan_insort_commute:
  "bufq_simple_nscan (insort_key b_blkno y h) x = insort_key b_blkno y (bufq_simple_nscan h x)"
  by (induction h) (auto simp: BUF_INORDER_def)

lemma nscan_insert_sort_key:
  "bufq_simple_nscan (sort_key b_blkno bs) x = sort_key b_blkno (bs @ [x])"
  by (induction bs) (simp_all add: nscan_insort_commute)

lemma fold_nscan_sort_key:
  "fold (\<lambda>b s. bufq_simple_nscan s b) bs [] = sort_key b_blkno bs"
  by (induction bs rule: rev_induct) (simp_all add: nscan_insert_sort_key)

text \<open>When the segment being served is exhausted, \<^verbatim>\<open>bufq_nscan_resort\<close> takes the first 128 buffers of the fifo
  and its repeated insertion is the stable sort of them by block number: buffers of the same block keep their
  order of arrival. The rest of the fifo is unchanged and the room for late arrivals is what the segment lacks.
\<close>

theorem bufq_nscan_resort_stable_sort:
  assumes "sorted_seg d = []"
  shows "bufq_nscan_resort d =
    \<lparr>sorted_seg = sort_key b_blkno (List.take 128 (fifo_seg d)),
     fifo_seg = List.drop 128 (fifo_seg d),
     leftoverroom = 128 - min 128 (length (fifo_seg d))\<rparr>"
  using assms by (simp add: bufq_nscan_resort_eq fold_nscan_sort_key kern_defs)


theorem bufq_nscan_resort_stable_sort_witness:
  "bufq_nscan_resort \<lparr>sorted_seg = [],
       fifo_seg = [\<lparr>b_addr = 0, b_blkno = 7, b_flags = 0, b_error = None, b_bq = None\<rparr>,
                   \<lparr>b_addr = 1, b_blkno = 3, b_flags = 0, b_error = None, b_bq = None\<rparr>,
                   \<lparr>b_addr = 2, b_blkno = 7, b_flags = 0, b_error = None, b_bq = None\<rparr>],
       leftoverroom = 0\<rparr> =
     \<lparr>sorted_seg = [\<lparr>b_addr = 1, b_blkno = 3, b_flags = 0, b_error = None, b_bq = None\<rparr>,
                    \<lparr>b_addr = 0, b_blkno = 7, b_flags = 0, b_error = None, b_bq = None\<rparr>,
                    \<lparr>b_addr = 2, b_blkno = 7, b_flags = 0, b_error = None, b_bq = None\<rparr>],
      fifo_seg = [], leftoverroom = 125\<rparr>"
  by (subst bufq_nscan_resort_stable_sort) simp_all

text \<open>
  The N-step scan does not starve a request. The sum of the segment length and its room for late arrivals
  bounds the dequeues until the segment ends, whatever is queued meanwhile; a buffer at position \<open>k\<close> of the
  fifo waits for that segment and for \<open>k div 128\<close> full ones.
\<close>

datatype bufq_op = Op_queue buf | Op_dequeue

fun nscan_run :: "bufq_op list \<Rightarrow> bufq_nscan_data \<Rightarrow> buf list" where
  "nscan_run [] d = []"
| "nscan_run (Op_queue bp # ops) d = nscan_run ops (bufq_nscan_queue d bp)"
| "nscan_run (Op_dequeue # ops) d =
     (case bufq_nscan_dequeue d of
        (None, d') \<Rightarrow> nscan_run ops d'
      | (Some bp, d') \<Rightarrow> bp # nscan_run ops d')"

fun position_in :: "buf \<Rightarrow> buf list \<Rightarrow> nat" where
  "position_in b [] = 0"
| "position_in b (x # xs) = (if x = b then 0 else Suc (position_in b xs))"

definition nscan_delay :: "buf \<Rightarrow> bufq_nscan_data \<Rightarrow> nat" where
  "nscan_delay b d = length (sorted_seg d) + leftoverroom d +
     (if b \<in> set (sorted_seg d) then 0 else BUFQ_NSCAN_N * (position_in b (fifo_seg d) div BUFQ_NSCAN_N + 1))"

lemma position_in_append [simp]: "b \<in> set xs \<Longrightarrow> position_in b (xs @ ys) = position_in b xs"
  by (induction xs) auto

lemma position_in_take: "b \<in> set xs \<Longrightarrow> b \<in> set (List.take n xs) \<longleftrightarrow> position_in b xs < n"
proof (induction xs arbitrary: n)
  case (Cons x xs)
  then show ?case by (cases n) auto
qed simp

lemma position_in_drop:
  "b \<in> set xs \<Longrightarrow> b \<notin> set (List.take n xs) \<Longrightarrow> position_in b (List.drop n xs) = position_in b xs - n \<and> b \<in> set (List.drop n xs)"
proof (induction xs arbitrary: n)
  case (Cons x xs)
  then show ?case by (cases n) auto
qed simp

lemma set_fold_nscan: "set (fold (\<lambda>b s. bufq_simple_nscan s b) bs srt) = set bs \<union> set srt"
  by (induction bs arbitrary: srt) (auto simp: set_bufq_simple_nscan)

lemma nscan_delay_queue:
  assumes "b \<in># nscan_contents d"
  shows "nscan_delay b (bufq_nscan_queue d bp) \<le> nscan_delay b d \<and> b \<in># nscan_contents (bufq_nscan_queue d bp)"
  using assms by (auto simp: nscan_delay_def bufq_nscan_queue_def nscan_contents_def set_bufq_simple_nscan)

text \<open>A resort happens on an empty segment and does not lengthen the delay.\<close>

lemma nscan_delay_resort:
  assumes "sorted_seg d = []" and "b \<in> set (fifo_seg d)"
  shows "nscan_delay b (bufq_nscan_resort d) \<le> nscan_delay b d"
proof (cases "b \<in> set (List.take BUFQ_NSCAN_N (fifo_seg d))")
  case True
  then show ?thesis
    using assms by (simp add: nscan_delay_def bufq_nscan_resort_eq length_fold_nscan set_fold_nscan min_def)
next
  case False
  let ?k = "position_in b (fifo_seg d)"
  have "BUFQ_NSCAN_N \<le> ?k" using False position_in_take [OF assms(2)] by simp
  then obtain j where j: "?k = j + BUFQ_NSCAN_N" by (metis le_add_diff_inverse2)
  have pos: "BUFQ_NSCAN_N \<noteq> 0" by (simp add: kern_defs)
  have len: "BUFQ_NSCAN_N \<le> length (fifo_seg d)" using False assms(2) by (cases "BUFQ_NSCAN_N \<le> length (fifo_seg d)") auto
  have "?k div BUFQ_NSCAN_N = Suc (j div BUFQ_NSCAN_N)"
    using div_add_self2 [OF pos, of j] j by simp
  moreover have "position_in b (List.drop BUFQ_NSCAN_N (fifo_seg d)) = j"
    using position_in_drop [OF assms(2) False] j by simp
  ultimately show ?thesis
    using assms(1) False len
    by (simp add: nscan_delay_def bufq_nscan_resort_eq length_fold_nscan set_fold_nscan)
qed

lemma nscan_dequeue_delay:
  assumes "b \<in># nscan_contents d"
  shows "\<exists>bp d'. bufq_nscan_dequeue d = (Some bp, d') \<and>
    (bp = b \<or> b \<in># nscan_contents d' \<and> Suc (nscan_delay b d') \<le> nscan_delay b d)"
proof -
  define e where "e = (if sorted_seg d = [] then bufq_nscan_resort d else d)"
  have deq: "bufq_nscan_dequeue d =
      (case sorted_seg e of [] \<Rightarrow> (None, e) | bp # rest \<Rightarrow> (Some bp, e\<lparr>sorted_seg := rest\<rparr>))"
    unfolding bufq_nscan_dequeue_def Let_def e_def ..
  have le: "nscan_delay b e \<le> nscan_delay b d"
    using assms nscan_delay_resort [of d b] by (auto simp: e_def nscan_contents_def)
  have mem: "b \<in># nscan_contents e" using assms by (simp add: e_def)
  have "sorted_seg e \<noteq> []"
    using assms by (auto simp: e_def nscan_contents_def sorted_seg_resort_Nil)
  then obtain bp rest where e: "sorted_seg e = bp # rest" by (cases "sorted_seg e") auto
  have "b \<in># nscan_contents (e\<lparr>sorted_seg := rest\<rparr>) \<and> Suc (nscan_delay b (e\<lparr>sorted_seg := rest\<rparr>)) \<le> nscan_delay b e"
    if "bp \<noteq> b"
    using that mem e by (auto simp: nscan_delay_def nscan_contents_def)
  then show ?thesis using deq e le by auto
qed

lemma nscan_served_within:
  assumes "b \<in># nscan_contents d" and "nscan_delay b d \<le> count_list ops Op_dequeue"
  shows "b \<in> set (nscan_run ops d)"
  using assms
proof (induction ops arbitrary: d)
  case Nil
  then show ?case
    by (auto simp: nscan_delay_def nscan_contents_def kern_defs split: if_splits)
next
  case (Cons opr ops)
  show ?case
  proof (cases opr)
    case (Op_queue bp)
    then show ?thesis
      using Cons.prems nscan_delay_queue [OF Cons.prems(1), of bp] by (auto intro!: Cons.IH)
  next
    case Op_dequeue
    from nscan_dequeue_delay [OF Cons.prems(1)] obtain bp d' where deq: "bufq_nscan_dequeue d = (Some bp, d')"
      and or: "bp = b \<or> b \<in># nscan_contents d' \<and> Suc (nscan_delay b d') \<le> nscan_delay b d" by blast
    from or show ?thesis
      using Cons.prems(2) Op_dequeue deq by (auto intro!: Cons.IH)
  qed
qed

text \<open>C32: The N-step scan does not starve requests: whatever is queued meanwhile and however it is interleaved, a
  queued buffer is returned within a number of dequeues fixed by the state at the start: the length of the
  segment being served and its leftover room, plus, for a buffer at position k of the fifo, 128 for each of the
  k div 128 + 1 segments up to and including its own.
\<close>

theorem bufq_nscan_no_starvation:
  assumes "b \<in> set (sorted_seg d) \<or> b \<in> set (fifo_seg d)"
    and "length (sorted_seg d) + leftoverroom d +
      (if b \<in> set (sorted_seg d) then 0 else 128 * (position_in b (fifo_seg d) div 128 + 1)) \<le> count_list ops Op_dequeue"
  shows "b \<in> set (nscan_run ops d)"
  using assms by (intro nscan_served_within) (auto simp: nscan_contents_def nscan_delay_def kern_defs)


definition ex_buf :: "nat \<Rightarrow> int \<Rightarrow> buf" where
  "ex_buf a n = \<lparr>b_addr = a, b_blkno = n, b_flags = 0, b_error = None, b_bq = None\<rparr>"

theorem bufq_nscan_no_starvation_witness:
  "ex_buf 2 9 \<in> set (nscan_run [Op_dequeue, Op_queue (ex_buf 3 8), Op_dequeue, Op_dequeue]
     \<lparr>sorted_seg = [ex_buf 1 5, ex_buf 2 9], fifo_seg = [], leftoverroom = 1\<rparr>)"
  by (rule bufq_nscan_no_starvation) simp_all

section \<open>Attaching, detaching, stopping and restarting queues\<close>

text \<open>
  The global list of queues and the flag that keeps it from changing while the machine suspends.
\<close>

record bufqs =
  bufqs_list :: "bufq list"
  bufqs_stop :: bool

text \<open>
  \<^verbatim>\<open>bufq_init\<close> with the number of buffer cache slots it reads (\<^verbatim>\<open>bcstats.kvaslots\<close>, never negative) and whether
  the allocation of the discipline's data succeeds. It panics on an unknown type and on a failed allocation,
  and sleeps while the list is frozen.
\<close>

definition bufq_limits :: "nat \<Rightarrow> u32 \<times> u32" where
  "bufq_limits kvaslots =
     (if kvaslots div 16 \<le> unat BUFQ_HI
      then let hi = of_nat (kvaslots div 16); hi' = (if hi < 2 then 2 else hi) in (hi', hi' div 2)
      else (BUFQ_HI, BUFQ_LOW))"

definition bufq_init :: "nat \<Rightarrow> bool \<Rightarrow> nat \<Rightarrow> nat \<Rightarrow> bufqs \<Rightarrow> bufqs outcome" where
  "bufq_init kvaslots mem_ok addr type g =
     (if BUFQ_HOWMANY \<le> type then Panic
      else if \<not> mem_ok then Panic
      else if bufqs_stop g then Sleep W_bufqs_stop
      else Done (g\<lparr>bufqs_list :=
        \<lparr>bufq_addr = addr, bufq_data = impl_create type, bufq_outstanding = 0,
         bufq_hi = fst (bufq_limits kvaslots), bufq_low = snd (bufq_limits kvaslots),
         bufq_waiting = 0, bufq_stop = False, bufq_type = type\<rparr> # bufqs_list g\<rparr>))"

text \<open>\<^verbatim>\<open>bufq_destroy\<close> completes what is queued and unlinks the queue.\<close>

definition bufq_destroy :: "bufq \<Rightarrow> bufqs \<Rightarrow> (bufqs \<times> buf list) outcome" where
  "bufq_destroy bq g =
     (case bufq_drain bq of
        Done (bq', bps) \<Rightarrow>
          if bufqs_stop g then Sleep W_bufqs_stop
          else Done (g\<lparr>bufqs_list := filter (\<lambda>q. bufq_addr q \<noteq> bufq_addr bq) (bufqs_list g)\<rparr>, bps)
      | Sleep w \<Rightarrow> Sleep w
      | Panic \<Rightarrow> Panic)"

text \<open>
  The body of the walk of \<^verbatim>\<open>bufq_quiesce\<close>: the queue is stopped, and the walk sleeps at it while it has
  transfers outstanding. \<open>bufq_quiesce_walk\<close> returns the queues and the channel it sleeps on, if any.
\<close>

definition bufq_quiesce_test :: "bufq \<Rightarrow> unit outcome" where
  "bufq_quiesce_test bq = (if bufq_outstanding bq \<noteq> 0 then Sleep W_outstanding else Done ())"

definition bufq_quiesce_one :: "bufq \<Rightarrow> bufq \<times> unit outcome" where
  "bufq_quiesce_one bq = (let bq' = bq\<lparr>bufq_stop := True\<rparr> in (bq', bufq_quiesce_test bq'))"

fun bufq_quiesce_walk :: "bufq list \<Rightarrow> bufq list \<times> unit outcome" where
  "bufq_quiesce_walk [] = ([], Done ())"
| "bufq_quiesce_walk (bq # bqs) =
     (case bufq_quiesce_one bq of
        (bq', Done u) \<Rightarrow> (let (bqs', r) = bufq_quiesce_walk bqs in (bq' # bqs', r))
      | (bq', r) \<Rightarrow> (bq' # bqs, r))"

definition bufq_quiesce :: "bufqs \<Rightarrow> bufqs \<times> unit outcome" where
  "bufq_quiesce g =
     (let (bqs, r) = bufq_quiesce_walk (bufqs_list g)
      in (g\<lparr>bufqs_stop := True, bufqs_list := bqs\<rparr>, r))"

text \<open>\<^verbatim>\<open>bufq_restart\<close>: the queues that run again and the wakeups, one for each queue and one for the list.\<close>

definition bufq_restart_one :: "bufq \<Rightarrow> bufq \<times> wchan list" where
  "bufq_restart_one bq = (bq\<lparr>bufq_stop := False\<rparr>, [W_stop])"

definition bufq_restart :: "bufqs \<Rightarrow> bufqs \<times> wchan list" where
  "bufq_restart g =
     (g\<lparr>bufqs_list := map (fst \<circ> bufq_restart_one) (bufqs_list g), bufqs_stop := False\<rparr>,
      concat (map (snd \<circ> bufq_restart_one) (bufqs_list g)) @ [W_bufqs_stop])"

section \<open>Limits\<close>

text \<open>
  The water marks \<^verbatim>\<open>bufq_init\<close> computes are usable: the low mark is positive and below the high one, so a
  queue that drains completely always passes below the low mark and wakes its waiters.
\<close>

lemma bufq_limits_bounds:
  "0 < snd (bufq_limits k) \<and> snd (bufq_limits k) < fst (bufq_limits k) \<and> fst (bufq_limits k) \<le> 128"
proof (cases "k div 16 \<le> 128")
  case True
  define n where "n = (if k div 16 < 2 then 2 else k div 16)"
  have n: "2 \<le> n" "n \<le> 128" using True by (auto simp: n_def)
  have u: "unat (of_nat (k div 16) :: u32) = k div 16"
    using True by (intro unat_of_nat_less) simp
  have un: "unat (of_nat n :: u32) = n" "unat (of_nat (n div 2) :: u32) = n div 2"
    using n by (intro unat_of_nat_less; simp)+
  have "(of_nat (k div 16) :: u32) < 2 \<longleftrightarrow> k div 16 < 2" using u by (simp add: word_less_nat_alt)
  then have hi: "fst (bufq_limits k) = of_nat n" "snd (bufq_limits k) = of_nat n div 2"
    using True by (simp_all add: bufq_limits_def Let_def n_def kern_defs)
  have "unat ((of_nat n :: u32) div 2) = n div 2" using un by (simp add: unat_div_distrib)
  with n un show ?thesis
    unfolding hi by (simp add: word_less_nat_alt word_le_nat_alt del: of_nat_numeral)
next
  case False
  then show ?thesis by (simp add: bufq_limits_def kern_defs)
qed

section \<open>Draining\<close>

text \<open>
  Draining a queue whose counter covers what is queued completes every queued buffer with an error; the
  counter goes down by their number.
\<close>

lemma bufq_drain_spec:
  assumes "impl_inv (bufq_data bq)"
    and "unat (bufq_outstanding bq) \<ge> size (bufq_contents bq)"
    and "\<And>b. b \<in># bufq_contents bq \<Longrightarrow> b_bq b = Some (bufq_addr bq) \<and> b_flags b AND B_DONE = 0"
  shows "\<exists>bq' bps. bufq_drain bq = Done (bq', bps) \<and> bufq_contents bq' = {#} \<and>
    bufq_outstanding bq' = bufq_outstanding bq - of_nat (size (bufq_contents bq)) \<and>
    mset bps = image_mset (\<lambda>b. b\<lparr>b_error := Some ENXIO, b_flags := b_flags b OR B_ERROR OR B_DONE, b_bq := None\<rparr>)
      (bufq_contents bq)"
  using assms
proof (induction bq rule: bufq_drain.induct)
  case (1 bq)
  obtain r d' where deq: "impl_dequeue (bufq_data bq) = (r, d')" by fastforce
  have bdeq: "bufq_dequeue bq = (r, bq\<lparr>bufq_data := d'\<rparr>)" by (simp add: bufq_dequeue_def deq)
  show ?case
  proof (cases r)
    case None
    then have "impl_contents (bufq_data bq) = {#} \<and> impl_contents d' = {#}"
      using impl_q.dequeue_none [OF 1(2)] deq by simp
    then show ?thesis using bdeq None by (subst bufq_drain.simps) (simp add: bufq_contents_def)
  next
    case (Some bp)
    define bq1 where "bq1 = bq\<lparr>bufq_data := d'\<rparr>"
    have cont: "bufq_contents bq = add_mset bp (bufq_contents bq1)"
      using impl_q.dequeue_some [OF 1(2), of bp] deq Some by (simp add: bufq_contents_def bq1_def)
    have inv': "impl_inv (bufq_data bq1)"
      using impl_q.dequeue_inv [OF 1(2)] deq by (simp add: bq1_def)
    have bp: "b_bq bp = Some (bufq_addr bq)" "b_flags bp AND B_DONE = 0" using 1(4) [of bp] cont by simp_all
    have nz: "bufq_outstanding bq \<noteq> 0" using 1(3) cont by (auto simp: unat_eq_zero)
    define bq2 where "bq2 = bq1\<lparr>bufq_outstanding := bufq_outstanding bq - 1\<rparr>"
    have flag: "(b_flags bp OR B_ERROR) AND B_DONE = 0"
      using bp(2) by (simp add: B_ERROR_def B_DONE_def bit.conj_disj_distrib2)
    obtain ws where bio: "biodone bq1 (bufq_drain_mark bp) =
        Done (bq2, bp\<lparr>b_error := Some ENXIO, b_flags := b_flags bp OR B_ERROR OR B_DONE, b_bq := None\<rparr>, ws)"
      using nz bp flag by (simp add: biodone_def bufq_done_def bufq_drain_mark_def Let_def bq2_def bq1_def or.assoc)
    have "unat (bufq_outstanding bq - 1) = unat (bufq_outstanding bq) - 1"
      using nz by (simp add: unat_minus_one)
    then have un: "size (bufq_contents bq2) \<le> unat (bufq_outstanding bq2)"
      using 1(3) cont by (simp add: bq2_def bufq_contents_def)
    have same: "bufq_contents bq2 = bufq_contents bq1" "bufq_addr bq2 = bufq_addr bq" "bufq_data bq2 = bufq_data bq1"
      by (simp_all add: bq2_def bq1_def bufq_contents_def)
    have "\<exists>bq' bps. bufq_drain bq2 = Done (bq', bps) \<and> bufq_contents bq' = {#} \<and>
        bufq_outstanding bq' = bufq_outstanding bq2 - of_nat (size (bufq_contents bq2)) \<and>
        mset bps = image_mset (\<lambda>b. b\<lparr>b_error := Some ENXIO, b_flags := b_flags b OR B_ERROR OR B_DONE, b_bq := None\<rparr>)
          (bufq_contents bq2)"
      by (rule 1(1) [OF bdeq [symmetric, folded bq1_def] Some bio refl refl])
        (use inv' un 1(4) cont in \<open>auto simp: same\<close>)
    then obtain bq' bps where ih: "bufq_drain bq2 = Done (bq', bps)" "bufq_contents bq' = {#}"
      "bufq_outstanding bq' = bufq_outstanding bq2 - of_nat (size (bufq_contents bq2))"
      "mset bps = image_mset (\<lambda>b. b\<lparr>b_error := Some ENXIO, b_flags := b_flags b OR B_ERROR OR B_DONE, b_bq := None\<rparr>)
          (bufq_contents bq2)" by blast
    have "bufq_drain bq = Done (bq', bp\<lparr>b_error := Some ENXIO, b_flags := b_flags bp OR B_ERROR OR B_DONE, b_bq := None\<rparr> # bps)"
      using bdeq Some bio ih(1) by (subst bufq_drain.simps) (simp add: bq1_def)
    then show ?thesis using ih cont same by (simp add: bq2_def)
  qed
qed

text \<open>Draining a queue terminates and completes every queued buffer exactly once, with \<^verbatim>\<open>ENXIO\<close>, \<^verbatim>\<open>B_ERROR\<close> and
  \<^verbatim>\<open>B_DONE\<close> and off the queue; nothing stays queued, the counter of outstanding transfers goes down by the
  number of buffers, and none of the two panics on the way is reached.
\<close>

theorem bufq_drain_completes_all:
  assumes "impl_inv (bufq_data bq)"
    and "unat (bufq_outstanding bq) \<ge> size (bufq_contents bq)"
    and "\<forall>b \<in># bufq_contents bq. b_bq b = Some (bufq_addr bq) \<and> b_flags b AND B_DONE = 0"
  shows "\<exists>bq' bps. bufq_drain bq = Done (bq', bps) \<and> bufq_contents bq' = {#} \<and>
    bufq_outstanding bq' = bufq_outstanding bq - of_nat (size (bufq_contents bq)) \<and>
    mset bps = image_mset (\<lambda>b. b\<lparr>b_error := Some ENXIO, b_flags := b_flags b OR B_ERROR OR B_DONE, b_bq := None\<rparr>)
      (bufq_contents bq)"
  using bufq_drain_spec [OF assms(1,2)] assms(3) by blast

definition ex_bufq :: bufq where
  "ex_bufq = \<lparr>bufq_addr = 1,
     bufq_data = Nscan \<lparr>sorted_seg = [(ex_buf 1 5)\<lparr>b_bq := Some 1\<rparr>], fifo_seg = [(ex_buf 2 3)\<lparr>b_bq := Some 1\<rparr>],
       leftoverroom = 0\<rparr>,
     bufq_outstanding = 3, bufq_hi = 128, bufq_low = 64, bufq_waiting = 0, bufq_stop = False, bufq_type = 1\<rparr>"

theorem bufq_drain_completes_all_witness:
  "\<exists>bq' bps. bufq_drain ex_bufq = Done (bq', bps) \<and> bufq_contents bq' = {#} \<and> bufq_outstanding bq' = 1 \<and>
    size (mset bps) = 2"
proof -
  have inv: "impl_inv (bufq_data ex_bufq)" by (simp add: ex_bufq_def nscan_inv_def kern_defs)
  have c: "bufq_contents ex_bufq = {# (ex_buf 1 5)\<lparr>b_bq := Some 1\<rparr>, (ex_buf 2 3)\<lparr>b_bq := Some 1\<rparr> #}"
    by (simp add: ex_bufq_def bufq_contents_def nscan_contents_def)
  have o3: "bufq_outstanding ex_bufq = 3" "bufq_addr ex_bufq = 1" by (simp_all add: ex_bufq_def)
  have "\<exists>bq' bps. bufq_drain ex_bufq = Done (bq', bps) \<and> bufq_contents bq' = {#} \<and>
    bufq_outstanding bq' = bufq_outstanding ex_bufq - of_nat (size (bufq_contents ex_bufq)) \<and>
    mset bps = image_mset (\<lambda>b. b\<lparr>b_error := Some ENXIO, b_flags := b_flags b OR B_ERROR OR B_DONE, b_bq := None\<rparr>)
      (bufq_contents ex_bufq)"
    by (rule bufq_drain_completes_all [OF inv]) (simp_all add: c o3 ex_buf_def)
  then show ?thesis by (auto simp: c o3 simp flip: size_mset)
qed

end
