(* ===== verification/Bufq_Sleep.thy ===== *)
theory Bufq_Sleep
  imports Bufq
begin

text \<open>
  Concurrent use of a buffer queue of \<^verbatim>\<open>kern/kern_bufq.c\<close>: the threads that sleep in \<^verbatim>\<open>bufq_queue\<close>,
  \<^verbatim>\<open>bufq_wait\<close> and \<^verbatim>\<open>bufq_quiesce\<close>, and the wakeups that \<^verbatim>\<open>bufq_done\<close> and \<^verbatim>\<open>bufq_restart\<close> send, as a step relation
  whose steps are the critical sections under \<^verbatim>\<open>bufq_mtx\<close>; and the walk of \<^verbatim>\<open>bufq_quiesce\<close> over all queues. The
  invariant of the reachable states gives the accounting of outstanding transfers, that no wakeup is lost, and
  that a stopped queue stays idle.
\<close>

section \<open>Concurrent use of a queue\<close>

text \<open>
  A queue together with the buffers its driver has taken and not completed, and the threads that use it: those
  that sleep in \<^verbatim>\<open>bufq_wait\<close> and those woken from it that have not run yet, those that sleep in \<^verbatim>\<open>bufq_queue\<close>, and
  the one that suspends the machine. The suspending thread calls \<^verbatim>\<open>bufq_restart\<close> only after \<^verbatim>\<open>bufq_quiesce\<close> has
  returned (\<^verbatim>\<open>kern/subr_suspend.c\<close>).
\<close>

datatype quiesce_pc = Q_idle | Q_asleep | Q_woken | Q_done

record bq_world =
  w_bq :: bufq
  w_inflight :: "buf list"
  w_wait_asleep :: nat
  w_wait_woken :: nat
  w_queue_asleep :: nat
  w_quiesce :: quiesce_pc

text \<open>\<^verbatim>\<open>wakeup\<close> makes every thread that sleeps on the channel runnable.\<close>

fun bq_wakeup :: "wchan \<Rightarrow> bq_world \<Rightarrow> bq_world" where
  "bq_wakeup W_waiting w = w\<lparr>w_wait_woken := w_wait_woken w + w_wait_asleep w, w_wait_asleep := 0\<rparr>"
| "bq_wakeup W_outstanding w = (if w_quiesce w = Q_asleep then w\<lparr>w_quiesce := Q_woken\<rparr> else w)"
| "bq_wakeup W_stop w = w\<lparr>w_queue_asleep := 0\<rparr>"
| "bq_wakeup W_bufqs_stop w = w"

definition bq_load :: "bq_world \<Rightarrow> nat" where
  "bq_load w = size (bufq_contents (w_bq w)) + length (w_inflight w)"

text \<open>
  The steps of the driver (it takes buffers and completes those it has taken) and of the threads that use the
  queue. \<open>queue\<close> assumes that fewer than \<open>2 ^ 32\<close> buffers exist; a thread woken from \<^verbatim>\<open>bufq_queue\<close> makes
  the step \<open>queue\<close> or \<open>queue_sleep\<close> again.
\<close>

inductive bufq_driver_step :: "bq_world \<Rightarrow> bq_world \<Rightarrow> bool" where
  dequeue: "bufq_dequeue (w_bq w) = (r, bq') \<Longrightarrow>
    bufq_driver_step w (w\<lparr>w_bq := bq', w_inflight := (case r of None \<Rightarrow> w_inflight w | Some bp \<Rightarrow> bp # w_inflight w)\<rparr>)"
| done_io: "bp \<in> set (w_inflight w) \<Longrightarrow> bufq_done (w_bq w) bp = Done (bq', bp', ws) \<Longrightarrow>
    bufq_driver_step w (fold bq_wakeup ws (w\<lparr>w_bq := bq', w_inflight := remove1 bp (w_inflight w)\<rparr>))"

inductive bufq_step :: "bq_world \<Rightarrow> bq_world \<Rightarrow> bool" where
  driver: "bufq_driver_step w w' \<Longrightarrow> bufq_step w w'"
| queue: "bufq_queue bp (w_bq w) = Done bq' \<Longrightarrow> bq_load w + 1 < 2 ^ 32 \<Longrightarrow>
    bufq_step w (w\<lparr>w_bq := bq'\<rparr>)"
| queue_sleep: "bufq_queue bp (w_bq w) = Sleep W_stop \<Longrightarrow>
    bufq_step w (w\<lparr>w_queue_asleep := w_queue_asleep w + 1\<rparr>)"
| wait_pass: "bufq_wait (w_bq w) = (bq', Done ()) \<Longrightarrow> bufq_step w (w\<lparr>w_bq := bq'\<rparr>)"
| wait_sleep: "bufq_wait (w_bq w) = (bq', Sleep W_waiting) \<Longrightarrow>
    bufq_step w (w\<lparr>w_bq := bq', w_wait_asleep := w_wait_asleep w + 1\<rparr>)"
| wait_return: "0 < w_wait_woken w \<Longrightarrow> bufq_wait_resume (w_bq w) = (bq', Done ()) \<Longrightarrow>
    bufq_step w (w\<lparr>w_bq := bq', w_wait_woken := w_wait_woken w - 1\<rparr>)"
| wait_again: "0 < w_wait_woken w \<Longrightarrow> bufq_wait_resume (w_bq w) = (bq', Sleep W_waiting) \<Longrightarrow>
    bufq_step w (w\<lparr>w_bq := bq', w_wait_asleep := w_wait_asleep w + 1, w_wait_woken := w_wait_woken w - 1\<rparr>)"
| quiesce: "w_quiesce w = Q_idle \<Longrightarrow> bufq_quiesce_one (w_bq w) = (bq', r) \<Longrightarrow>
    bufq_step w (w\<lparr>w_bq := bq', w_quiesce := (if r = Done () then Q_done else Q_asleep)\<rparr>)"
| quiesce_resume: "w_quiesce w = Q_woken \<Longrightarrow> bufq_quiesce_test (w_bq w) = r \<Longrightarrow>
    bufq_step w (w\<lparr>w_quiesce := (if r = Done () then Q_done else Q_asleep)\<rparr>)"
| restart: "w_quiesce w = Q_done \<Longrightarrow> bufq_restart_one (w_bq w) = (bq', ws) \<Longrightarrow>
    bufq_step w (fold bq_wakeup ws (w\<lparr>w_bq := bq', w_quiesce := Q_idle\<rparr>))"

text \<open>A queue starts as \<^verbatim>\<open>bufq_init\<close> leaves it, with no thread using it.\<close>

definition bufq_start :: "bq_world \<Rightarrow> bool" where
  "bufq_start w \<longleftrightarrow> (\<exists>kvaslots addr type g g'. bufq_init kvaslots True addr type g = Done g' \<and>
     w_bq w = hd (bufqs_list g')) \<and>
     w_inflight w = [] \<and> w_wait_asleep w = 0 \<and> w_wait_woken w = 0 \<and> w_queue_asleep w = 0 \<and> w_quiesce w = Q_idle"

inductive bufq_reach :: "bq_world \<Rightarrow> bool" where
  start: "bufq_start w \<Longrightarrow> bufq_reach w"
| step: "bufq_reach w \<Longrightarrow> bufq_step w w' \<Longrightarrow> bufq_reach w'"

section \<open>The invariant\<close>

definition bq_counted :: "bq_world \<Rightarrow> bool" where
  "bq_counted w \<longleftrightarrow> bufq_outstanding (w_bq w) = of_nat (bq_load w) \<and> bq_load w < 2 ^ 32 \<and>
     impl_inv (bufq_data (w_bq w))"

definition bq_waiters :: "bq_world \<Rightarrow> bool" where
  "bq_waiters w \<longleftrightarrow> bufq_waiting (w_bq w) = w_wait_asleep w + w_wait_woken w \<and>
     (0 < w_wait_asleep w \<longrightarrow> bufq_low (w_bq w) \<le> bufq_outstanding (w_bq w)) \<and>
     0 < bufq_low (w_bq w) \<and> bufq_low (w_bq w) \<le> bufq_hi (w_bq w)"

definition bq_stopping :: "bq_world \<Rightarrow> bool" where
  "bq_stopping w \<longleftrightarrow> (0 < w_queue_asleep w \<longrightarrow> bufq_stop (w_bq w)) \<and>
     (bufq_stop (w_bq w) \<longleftrightarrow> w_quiesce w \<noteq> Q_idle) \<and>
     (w_quiesce w = Q_asleep \<longrightarrow> bufq_outstanding (w_bq w) \<noteq> 0) \<and>
     (w_quiesce w = Q_done \<longrightarrow> bufq_outstanding (w_bq w) = 0)"

definition bq_inv :: "bq_world \<Rightarrow> bool" where
  "bq_inv w \<longleftrightarrow> bq_counted w \<and> bq_waiters w \<and> bq_stopping w"

lemma bq_counted_outstanding:
  "bq_counted w \<Longrightarrow> unat (bufq_outstanding (w_bq w)) = bq_load w"
  by (simp add: bq_counted_def unat_of_nat_less)

lemma bq_outstanding_0: "bq_counted w \<Longrightarrow> bufq_outstanding (w_bq w) = 0 \<longleftrightarrow> bq_load w = 0"
  using bq_counted_outstanding [of w] by (metis unat_eq_zero)

lemma bufq_start_inv: "bufq_start w \<Longrightarrow> bq_inv w"
  using bufq_limits_bounds
  by (auto simp: bufq_start_def bq_inv_def bq_counted_def bq_waiters_def bq_stopping_def bq_load_def bufq_contents_def
      bufq_init_def impl_q.create_inv impl_q.create_empty order.strict_implies_order split: if_splits)

text \<open>Steps that leave the counter, the data and the stop flag alone keep two of the three parts.\<close>

lemma bufq_queue_Done:
  assumes "bufq_queue bp (w_bq w) = Done bq'" and "bq_load w + 1 < 2 ^ 32" and "bq_inv w"
  shows "bq_inv (w\<lparr>w_bq := bq'\<rparr>)"
proof -
  have stop: "\<not> bufq_stop (w_bq w)" and bq': "bq' = (w_bq w)\<lparr>bufq_outstanding := bufq_outstanding (w_bq w) + 1,
      bufq_data := impl_queue (bufq_data (w_bq w)) (bp\<lparr>b_bq := Some (bufq_addr (w_bq w))\<rparr>)\<rparr>"
    using assms(1) by (auto simp: bufq_queue_def split: if_splits)
  have load: "bq_load (w\<lparr>w_bq := bq'\<rparr>) = Suc (bq_load w)"
    using assms(3) by (simp add: bq_load_def bq' bufq_contents_def bq_inv_def bq_counted_def impl_q.queue_adds)
  have cnt: "bq_counted (w\<lparr>w_bq := bq'\<rparr>)"
    using assms(2,3) load by (simp add: bq_inv_def bq_counted_def bq' impl_q.queue_inv add.commute)
  have "bq_load w < unat (bufq_outstanding bq')" using bq_counted_outstanding [OF cnt] load by simp
  then have "bufq_outstanding (w_bq w) \<le> bufq_outstanding bq'"
    using bq_counted_outstanding [of w] assms(3) by (simp add: bq_inv_def word_le_nat_alt)
  moreover have "bufq_low bq' = bufq_low (w_bq w)" "bufq_hi bq' = bufq_hi (w_bq w)"
      "bufq_waiting bq' = bufq_waiting (w_bq w)" "bufq_stop bq' = bufq_stop (w_bq w)" by (simp_all add: bq')
  ultimately show ?thesis
    using cnt stop assms(3) by (auto simp: bq_inv_def bq_waiters_def bq_stopping_def)
qed

lemma bufq_dequeue_inv:
  assumes "bufq_dequeue (w_bq w) = (r, bq')" and "bq_inv w"
  shows "bq_inv (w\<lparr>w_bq := bq', w_inflight := (case r of None \<Rightarrow> w_inflight w | Some bp \<Rightarrow> bp # w_inflight w)\<rparr>)"
proof -
  obtain d where deq: "impl_dequeue (bufq_data (w_bq w)) = (r, d)" and bq': "bq' = (w_bq w)\<lparr>bufq_data := d\<rparr>"
    using assms(1) by (auto simp: bufq_dequeue_def split: prod.splits)
  have inv: "impl_inv (bufq_data (w_bq w))" using assms(2) by (simp add: bq_inv_def bq_counted_def)
  have "impl_inv d" using impl_q.dequeue_inv [OF inv] deq by simp
  moreover have "size (impl_contents (bufq_data (w_bq w))) = size (impl_contents d) + (if r = None then 0 else 1)"
    using impl_q.dequeue_none [OF inv] impl_q.dequeue_some [OF inv] deq by (cases r) simp_all
  ultimately have "bq_counted (w\<lparr>w_bq := bq', w_inflight := (case r of None \<Rightarrow> w_inflight w | Some bp \<Rightarrow> bp # w_inflight w)\<rparr>)"
    using assms(2)
    by (cases r) (simp_all add: bq_inv_def bq_counted_def bq_load_def bq' bufq_contents_def add_ac)
  then show ?thesis
    using assms(2) by (auto simp: bq_inv_def bq_waiters_def bq_stopping_def bq')
qed

lemma bufq_done_inv:
  assumes "bp \<in> set (w_inflight w)" and "bufq_done (w_bq w) bp = Done (bq', bp', ws)" and inv: "bq_inv w"
  shows "bq_inv (fold bq_wakeup ws (w\<lparr>w_bq := bq', w_inflight := remove1 bp (w_inflight w)\<rparr>))"
proof -
  have nz: "bufq_outstanding (w_bq w) \<noteq> 0"
    and bq': "bq' = (w_bq w)\<lparr>bufq_outstanding := bufq_outstanding (w_bq w) - 1\<rparr>"
    and ws: "ws = (if bufq_stop bq' \<and> bufq_outstanding bq' = 0 then [W_outstanding] else []) @
              (if bufq_waiting bq' \<noteq> 0 \<and> bufq_outstanding bq' < bufq_low bq' then [W_waiting] else [])"
    using assms(2) by (auto simp: bufq_done_def Let_def split: if_splits)
  let ?v = "w\<lparr>w_bq := bq', w_inflight := remove1 bp (w_inflight w)\<rparr>"
  have "0 < length (w_inflight w)" using assms(1) by (cases "w_inflight w") auto
  then have load: "bq_load w = Suc (bq_load ?v)"
    using assms(1) by (simp add: bq_load_def bq' bufq_contents_def length_remove1)
  have "bufq_outstanding (w_bq w) = of_nat (Suc (bq_load ?v))" "Suc (bq_load ?v) < 2 ^ 32"
    using inv load by (simp_all only: bq_inv_def bq_counted_def)
  moreover have "bufq_outstanding bq' = bufq_outstanding (w_bq w) - 1" "bufq_data bq' = bufq_data (w_bq w)"
    by (simp_all add: bq')
  ultimately have cnt: "bq_counted ?v"
    using inv by (auto simp: bq_inv_def bq_counted_def)
  have same: "w_bq (fold bq_wakeup ws ?v) = bq'" "w_inflight (fold bq_wakeup ws ?v) = remove1 bp (w_inflight w)"
      "w_queue_asleep (fold bq_wakeup ws ?v) = w_queue_asleep w"
    by (simp_all add: ws)
  have "bq_counted (fold bq_wakeup ws ?v)"
    using cnt by (simp add: bq_counted_def bq_load_def same)
  moreover have "bq_waiters (fold bq_wakeup ws ?v)"
    using inv by (auto simp: bq_inv_def bq_waiters_def same ws bq' not_less)
  moreover have "w_quiesce w \<noteq> Q_done" using inv nz by (auto simp: bq_inv_def bq_stopping_def)
  then have "bq_stopping (fold bq_wakeup ws ?v)"
    using inv by (auto simp: bq_inv_def bq_stopping_def same ws bq')
  ultimately show ?thesis by (simp add: bq_inv_def)
qed

lemma bq_inv_waiting:
  assumes "bq_inv w" and "w_wait_asleep w < a \<Longrightarrow> bufq_hi (w_bq w) \<le> bufq_outstanding (w_bq w)"
  shows "bq_inv (w\<lparr>w_bq := (w_bq w)\<lparr>bufq_waiting := a + c\<rparr>, w_wait_asleep := a, w_wait_woken := c\<rparr>)"
proof -
  have "bufq_low (w_bq w) \<le> bufq_outstanding (w_bq w)" if "0 < a"
  proof (cases "w_wait_asleep w < a")
    case True
    then show ?thesis using assms by (auto simp: bq_inv_def bq_waiters_def intro: order_trans)
  next
    case False
    with that show ?thesis using assms(1) by (simp add: bq_inv_def bq_waiters_def)
  qed
  then show ?thesis
    using assms(1)
    by (auto simp: bq_inv_def bq_counted_def bq_waiters_def bq_stopping_def bq_load_def bufq_contents_def)
qed

lemma bq_inv_wait_counts: "bq_inv w \<Longrightarrow> bufq_waiting (w_bq w) = w_wait_asleep w + w_wait_woken w"
  by (simp add: bq_inv_def bq_waiters_def)

lemma bufq_wait_test_Done: "bufq_wait_test bq = (bq', Done ()) \<Longrightarrow> bq' = bq"
  by (auto simp: bufq_wait_test_def split: if_splits)

lemma bufq_wait_test_Sleep:
  "bufq_wait_test bq = (bq', Sleep W_waiting) \<Longrightarrow>
   bq' = bq\<lparr>bufq_waiting := Suc (bufq_waiting bq)\<rparr> \<and> bufq_hi bq \<le> bufq_outstanding bq"
  by (auto simp: bufq_wait_test_def split: if_splits)

lemma bufq_wait_Sleep_inv:
  assumes "bufq_wait (w_bq w) = (bq', Sleep W_waiting)" and "bq_inv w"
  shows "bq_inv (w\<lparr>w_bq := bq', w_wait_asleep := w_wait_asleep w + 1\<rparr>)"
proof -
  have "bufq_wait_test (w_bq w) = (bq', Sleep W_waiting)"
    using assms(1) by (simp add: bufq_wait_def split: if_splits)
  from bufq_wait_test_Sleep [OF this] bq_inv_waiting [OF assms(2), of "w_wait_asleep w + 1" "w_wait_woken w"]
    bq_inv_wait_counts [OF assms(2)]
  show ?thesis by simp
qed

lemma bufq_wait_resume_inv:
  assumes "0 < w_wait_woken w" and "bq_inv w"
  shows "bufq_wait_resume (w_bq w) = (bq', Done ()) \<Longrightarrow>
      bq_inv (w\<lparr>w_bq := bq', w_wait_woken := w_wait_woken w - 1\<rparr>)"
    and "bufq_wait_resume (w_bq w) = (bq', Sleep W_waiting) \<Longrightarrow>
      bq_inv (w\<lparr>w_bq := bq', w_wait_asleep := w_wait_asleep w + 1, w_wait_woken := w_wait_woken w - 1\<rparr>)"
proof -
  note cnt = bq_inv_wait_counts [OF assms(2)]
  have eq: "bufq_waiting (w_bq w) - 1 = w_wait_asleep w + (w_wait_woken w - 1)"
    using cnt assms(1) by simp
  show "bq_inv (w\<lparr>w_bq := bq', w_wait_woken := w_wait_woken w - 1\<rparr>)"
    if "bufq_wait_resume (w_bq w) = (bq', Done ())"
    using bufq_wait_test_Done [OF that [unfolded bufq_wait_resume_def]]
      bq_inv_waiting [OF assms(2), of "w_wait_asleep w" "w_wait_woken w - 1"] eq by simp
  show "bq_inv (w\<lparr>w_bq := bq', w_wait_asleep := w_wait_asleep w + 1, w_wait_woken := w_wait_woken w - 1\<rparr>)"
    if "bufq_wait_resume (w_bq w) = (bq', Sleep W_waiting)"
    using bufq_wait_test_Sleep [OF that [unfolded bufq_wait_resume_def]]
      bq_inv_waiting [OF assms(2), of "w_wait_asleep w + 1" "w_wait_woken w - 1"] eq by simp
qed

lemma bufq_stop_inv:
  assumes "bq_inv w" and "0 < w_queue_asleep w \<Longrightarrow> w_quiesce w \<noteq> Q_idle \<Longrightarrow> pc \<noteq> Q_idle"
    and "pc = Q_asleep \<Longrightarrow> bufq_outstanding (w_bq w) \<noteq> 0" and "pc = Q_done \<Longrightarrow> bufq_outstanding (w_bq w) = 0"
  shows "bq_inv (w\<lparr>w_bq := (w_bq w)\<lparr>bufq_stop := (pc \<noteq> Q_idle)\<rparr>, w_quiesce := pc\<rparr>)"
  using assms
  by (auto simp: bq_inv_def bq_counted_def bq_waiters_def bq_stopping_def bq_load_def bufq_contents_def)

lemma bufq_driver_step_inv: "bufq_driver_step w w' \<Longrightarrow> bq_inv w \<Longrightarrow> bq_inv w'"
  by (induction rule: bufq_driver_step.induct) (simp_all only: bufq_dequeue_inv bufq_done_inv)

lemma bufq_step_inv: "bufq_step w w' \<Longrightarrow> bq_inv w \<Longrightarrow> bq_inv w'"
proof (induction rule: bufq_step.induct)
  case (driver w w')
  then show ?case by (rule bufq_driver_step_inv)
next
  case (queue bp w bq')
  then show ?case by (rule bufq_queue_Done)
next
  case (queue_sleep bp w)
  then show ?case
    by (auto simp: bufq_queue_def bq_inv_def bq_counted_def bq_waiters_def bq_stopping_def bq_load_def split: if_splits)
next
  case (wait_pass w bq')
  then have "bq' = w_bq w" by (auto simp: bufq_wait_def dest: bufq_wait_test_Done split: if_splits)
  then show ?case using wait_pass by simp
next
  case (wait_sleep w bq')
  then show ?case by (rule bufq_wait_Sleep_inv)
next
  case (wait_return w bq')
  then show ?case by (intro bufq_wait_resume_inv)
next
  case (wait_again w bq')
  then show ?case by (intro bufq_wait_resume_inv)
next
  case (quiesce w bq' r)
  then have bq': "bq' = (w_bq w)\<lparr>bufq_stop := True\<rparr>" and r: "r = Done () \<longleftrightarrow> bufq_outstanding (w_bq w) = 0"
    by (auto simp: bufq_quiesce_one_def bufq_quiesce_test_def split: if_splits)
  show ?case
    using bufq_stop_inv [OF quiesce.prems, of Q_done] bufq_stop_inv [OF quiesce.prems, of Q_asleep]
    unfolding bq' r by (cases "bufq_outstanding (w_bq w) = 0") simp_all
next
  case (quiesce_resume w r)
  have r: "r = Done () \<longleftrightarrow> bufq_outstanding (w_bq w) = 0"
    using quiesce_resume.hyps(2) by (auto simp: bufq_quiesce_test_def split: if_splits)
  have "bufq_stop (w_bq w)"
    using quiesce_resume.prems quiesce_resume.hyps(1) by (simp add: bq_inv_def bq_stopping_def)
  then have "(w_bq w)\<lparr>bufq_stop := True\<rparr> = w_bq w" by simp
  then show ?case
    using bufq_stop_inv [OF quiesce_resume.prems, of Q_done] bufq_stop_inv [OF quiesce_resume.prems, of Q_asleep]
    unfolding r by (cases "bufq_outstanding (w_bq w) = 0") simp_all
next
  case (restart w bq' ws)
  then show ?case
    by (auto simp: bufq_restart_one_def bq_inv_def bq_counted_def bq_waiters_def bq_stopping_def bq_load_def
        bufq_contents_def)
qed

lemma bufq_reach_inv: "bufq_reach w \<Longrightarrow> bq_inv w"
  by (induction rule: bufq_reach.induct) (auto intro: bufq_start_inv bufq_step_inv)

section \<open>What the invariant gives\<close>

text \<open>A concrete run: a queue is attached, a buffer is queued and the driver takes it.\<close>

definition ex_world :: "buf list \<Rightarrow> buf list \<Rightarrow> u32 \<Rightarrow> quiesce_pc \<Rightarrow> bq_world" where
  "ex_world queued inflight cnt pc =
     \<lparr>w_bq = \<lparr>bufq_addr = 1, bufq_data = Fifo queued, bufq_outstanding = cnt, bufq_hi = 128, bufq_low = 64,
              bufq_waiting = 0, bufq_stop = (pc \<noteq> Q_idle), bufq_type = 0\<rparr>,
      w_inflight = inflight, w_wait_asleep = 0, w_wait_woken = 0, w_queue_asleep = 0, w_quiesce = pc\<rparr>"

lemma ex_world_start: "bufq_reach (ex_world [] [] 0 Q_idle)"
proof (rule bufq_reach.start)
  have "bufq_init 10000 True 1 0 \<lparr>bufqs_list = [], bufqs_stop = False\<rparr> =
      Done \<lparr>bufqs_list = [w_bq (ex_world [] [] 0 Q_idle)], bufqs_stop = False\<rparr>"
    by (simp add: bufq_init_def bufq_limits_def impl_create_def bufq_fifo_create_def ex_world_def kern_defs)
  then show "bufq_start (ex_world [] [] 0 Q_idle)"
    unfolding bufq_start_def by (intro conjI exI) (auto simp: ex_world_def)
qed

lemma ex_world_taken: "bufq_reach (ex_world [] [(ex_buf 7 40)\<lparr>b_bq := Some 1\<rparr>] 1 Q_idle)"
proof -
  let ?b = "(ex_buf 7 40)\<lparr>b_bq := Some 1\<rparr>"
  have "bufq_queue (ex_buf 7 40) (w_bq (ex_world [] [] 0 Q_idle)) = Done (w_bq (ex_world [?b] [] 1 Q_idle))"
    by (simp add: bufq_queue_def ex_world_def bufq_fifo_queue_def)
  then have "bufq_step (ex_world [] [] 0 Q_idle) ((ex_world [] [] 0 Q_idle)\<lparr>w_bq := w_bq (ex_world [?b] [] 1 Q_idle)\<rparr>)"
    by (rule bufq_step.queue) (simp add: bq_load_def bufq_contents_def ex_world_def)
  then have r1: "bufq_reach (ex_world [?b] [] 1 Q_idle)"
    using bufq_reach.step [OF ex_world_start] by (simp add: ex_world_def)
  have "bufq_dequeue (w_bq (ex_world [?b] [] 1 Q_idle)) = (Some ?b, w_bq (ex_world [] [?b] 1 Q_idle))"
    by (simp add: bufq_dequeue_def ex_world_def)
  from bufq_step.driver [OF bufq_driver_step.dequeue [OF this]] show ?thesis
    using bufq_reach.step [OF r1] by (simp add: ex_world_def)
qed

lemma ex_world_stopped: "bufq_reach (ex_world [] [] 0 Q_done)"
proof -
  have "bufq_quiesce_one (w_bq (ex_world [] [] 0 Q_idle)) = (w_bq (ex_world [] [] 0 Q_done), Done ())"
    by (simp add: bufq_quiesce_one_def bufq_quiesce_test_def ex_world_def)
  with bufq_step.quiesce [of "ex_world [] [] 0 Q_idle" "w_bq (ex_world [] [] 0 Q_done)" "Done ()"]
  show ?thesis using bufq_reach.step [OF ex_world_start] by (simp add: ex_world_def)
qed

text \<open>In every state a queue can reach, \<^verbatim>\<open>bufq_outstanding\<close> is the number of buffers queued or taken by the
  driver and not completed, so the assertion in \<^verbatim>\<open>bufq_done\<close> never fails for a buffer the driver completes, and
  the data of the discipline is well formed.
\<close>

theorem bufq_outstanding_counts:
  assumes "bufq_reach w"
  shows "unat (bufq_outstanding (w_bq w)) = size (bufq_contents (w_bq w)) + length (w_inflight w) \<and>
    (bp \<in> set (w_inflight w) \<longrightarrow> bufq_done (w_bq w) bp \<noteq> Panic) \<and>
    impl_inv (bufq_data (w_bq w))"
proof -
  have inv: "bq_counted w" using bufq_reach_inv [OF assms] by (simp add: bq_inv_def)
  have "bufq_done (w_bq w) bp \<noteq> Panic" if "bp \<in> set (w_inflight w)"
  proof -
    have "w_inflight w \<noteq> []" using that by auto
    then have "bufq_outstanding (w_bq w) \<noteq> 0" using bq_outstanding_0 [OF inv] by (simp add: bq_load_def)
    then show ?thesis by (simp add: bufq_done_def Let_def)
  qed
  then show ?thesis
    using bq_counted_outstanding [OF inv] inv by (simp add: bq_load_def bq_counted_def)
qed

theorem bufq_outstanding_counts_witness:
  "bufq_done (w_bq (ex_world [] [(ex_buf 7 40)\<lparr>b_bq := Some 1\<rparr>] 1 Q_idle)) ((ex_buf 7 40)\<lparr>b_bq := Some 1\<rparr>) \<noteq> Panic"
  using bufq_outstanding_counts [OF ex_world_taken, of "(ex_buf 7 40)\<lparr>b_bq := Some 1\<rparr>"]
  by (simp add: ex_world_def)

text \<open>The driver can always empty the queue; then no thread is left asleep.\<close>

lemma bufq_driver_empties:
  assumes "bq_inv w"
  shows "\<exists>w'. bufq_driver_step\<^sup>*\<^sup>* w w' \<and> bq_inv w' \<and> bq_load w' = 0"
  using assms
proof (induction "2 * size (bufq_contents (w_bq w)) + length (w_inflight w)" arbitrary: w rule: less_induct)
  case less
  have cnt: "bq_counted w" using less.prems by (simp add: bq_inv_def)
  have via: ?case if st: "bufq_driver_step w v"
    and lt: "2 * size (bufq_contents (w_bq v)) + length (w_inflight v) <
      2 * size (bufq_contents (w_bq w)) + length (w_inflight w)" for v
    using less.hyps [OF lt bufq_driver_step_inv [OF st less.prems]] st
    by (meson converse_rtranclp_into_rtranclp)
  consider (inflight) bp rest where "w_inflight w = bp # rest"
    | (queued) "bufq_contents (w_bq w) \<noteq> {#}" | (idle) "bq_load w = 0"
    by (cases "w_inflight w") (auto simp: bq_load_def)
  then show ?case
  proof cases
    case inflight
    then have "bufq_outstanding (w_bq w) \<noteq> 0" using bq_outstanding_0 [OF cnt] by (simp add: bq_load_def)
    then obtain bq' bp' ws where d: "bufq_done (w_bq w) bp = Done (bq', bp', ws)" by (auto simp: bufq_done_def Let_def)
    have same: "w_bq (fold bq_wakeup us v) = w_bq v \<and> w_inflight (fold bq_wakeup us v) = w_inflight v" for us v
    proof (induction us arbitrary: v)
      case (Cons u us)
      then show ?case by (cases u) simp_all
    qed simp
    have "bufq_contents bq' = bufq_contents (w_bq w)"
      using bufq_done_contents [OF d] by (simp add: bufq_contents_def)
    then show ?thesis
      using inflight by (intro via [OF bufq_driver_step.done_io [OF _ d]]) (simp_all add: same)
  next
    case queued
    obtain r bq' where d: "bufq_dequeue (w_bq w) = (r, bq')" by fastforce
    then obtain bp where r: "r = Some bp"
      using queued impl_q.dequeue_none_iff [of "bufq_data (w_bq w)"] cnt
      by (cases r) (auto simp: bufq_dequeue_def bufq_contents_def bq_counted_def split: prod.splits)
    show ?thesis
      using bufq_dequeue_contents [OF d [unfolded r]] r
      by (intro via [OF bufq_driver_step.dequeue [OF d]]) simp
  next
    case idle
    then show ?thesis using less.prems by blast
  qed
qed

text \<open>C31: No wakeup is lost. In every reachable state, while a thread sleeps in \<^verbatim>\<open>bufq_wait\<close> at least \<^verbatim>\<open>bufq_low\<close>
  (and so some) buffers are still to be completed, while the suspending thread sleeps in \<^verbatim>\<open>bufq_quiesce\<close> some
  are, and while a thread sleeps in \<^verbatim>\<open>bufq_queue\<close> the queue is stopped. The driver can always go on to complete
  all of them, and in the state it then reaches nobody sleeps in \<^verbatim>\<open>bufq_wait\<close> or \<^verbatim>\<open>bufq_quiesce\<close>.
\<close>

theorem bufq_no_lost_wakeup:
  assumes "bufq_reach w"
  shows "(0 < w_wait_asleep w \<longrightarrow> 0 < bufq_low (w_bq w) \<and>
        unat (bufq_low (w_bq w)) \<le> size (bufq_contents (w_bq w)) + length (w_inflight w)) \<and>
      (w_quiesce w = Q_asleep \<longrightarrow> bufq_contents (w_bq w) \<noteq> {#} \<or> w_inflight w \<noteq> []) \<and>
      (0 < w_queue_asleep w \<longrightarrow> bufq_stop (w_bq w)) \<and>
      (\<exists>w'. bufq_driver_step\<^sup>*\<^sup>* w w' \<and> bufq_contents (w_bq w') = {#} \<and> w_inflight w' = [] \<and>
         w_wait_asleep w' = 0 \<and> w_quiesce w' \<noteq> Q_asleep)"
proof -
  have inv: "bq_inv w" by (rule bufq_reach_inv [OF assms])
  have wait: "0 < bufq_low (w_bq v) \<and> unat (bufq_low (w_bq v)) \<le> bq_load v"
    if "bq_inv v" "0 < w_wait_asleep v" for v
    using that bq_counted_outstanding [of v] by (auto simp: bq_inv_def bq_waiters_def word_le_nat_alt)
  have quiesce: "bq_load v \<noteq> 0" if "bq_inv v" "w_quiesce v = Q_asleep" for v
    using that bq_outstanding_0 [of v] by (auto simp: bq_inv_def bq_stopping_def)
  from bufq_driver_empties [OF inv] obtain w' where w': "bufq_driver_step\<^sup>*\<^sup>* w w'" "bq_inv w'" "bq_load w' = 0" by blast
  have "w_wait_asleep w' = 0"
    using wait [OF w'(2)] w'(3) by (cases "w_wait_asleep w'") (auto simp: word_less_nat_alt)
  moreover have "w_quiesce w' \<noteq> Q_asleep" using quiesce [OF w'(2)] w'(3) by auto
  moreover have "0 < w_queue_asleep w \<longrightarrow> bufq_stop (w_bq w)"
    using inv unfolding bq_inv_def bq_stopping_def by blast
  ultimately show ?thesis
    using wait [OF inv] quiesce [OF inv] w'(1,3) by (auto simp: bq_load_def)
qed

theorem bufq_no_lost_wakeup_witness:
  "\<exists>w'. bufq_driver_step\<^sup>*\<^sup>* (ex_world [] [(ex_buf 7 40)\<lparr>b_bq := Some 1\<rparr>] 1 Q_idle) w' \<and> w_inflight w' = []"
  using bufq_no_lost_wakeup [OF ex_world_taken] by blast

text \<open>Once \<^verbatim>\<open>bufq_quiesce\<close> has seen the queue idle, and until \<^verbatim>\<open>bufq_restart\<close>, no buffer is queued or with the
  driver, and every attempt to queue one goes to sleep.
\<close>

theorem bufq_quiesced_idle:
  assumes "bufq_reach w" and "w_quiesce w = Q_done"
  shows "bufq_contents (w_bq w) = {#} \<and> w_inflight w = [] \<and> bufq_queue bp (w_bq w) = Sleep W_stop"
proof -
  have inv: "bq_inv w" by (rule bufq_reach_inv [OF assms(1)])
  then have "bq_load w = 0" "bufq_stop (w_bq w)"
    using assms(2) bq_outstanding_0 [of w] by (simp_all add: bq_inv_def bq_stopping_def)
  then show ?thesis by (simp add: bq_load_def bufq_queue_def)
qed

theorem bufq_quiesced_idle_witness:
  "bufq_queue (ex_buf 7 40) (w_bq (ex_world [] [] 0 Q_done)) = Sleep W_stop"
  using bufq_quiesced_idle [OF ex_world_stopped, of "ex_buf 7 40"] by (simp add: ex_world_def)

text \<open>The walk over all queues.\<close>

lemma bufq_quiesce_walk_Done:
  "bufq_quiesce_walk bqs = (bqs', Done ()) \<Longrightarrow>
   bqs' = map (\<lambda>bq. bq\<lparr>bufq_stop := True\<rparr>) bqs \<and> (\<forall>bq \<in> set bqs. bufq_outstanding bq = 0)"
proof (induction bqs arbitrary: bqs')
  case (Cons bq bqs)
  then show ?case
    by (auto simp: bufq_quiesce_one_def bufq_quiesce_test_def Let_def split: prod.splits if_splits)
qed simp

text \<open>When \<^verbatim>\<open>bufq_quiesce\<close> returns, every attached queue is stopped and had no transfer outstanding, and no queue
  can be attached; \<^verbatim>\<open>bufq_restart\<close> then restores the queues and the list as they were and wakes the threads that
  sleep on each queue and on the list.
\<close>

theorem bufq_quiesce_restart:
  assumes "\<not> bufqs_stop g" and "\<forall>bq \<in> set (bufqs_list g). \<not> bufq_stop bq"
    and "bufq_quiesce g = (g', Done ())"
  shows "(\<forall>bq \<in> set (bufqs_list g'). bufq_stop bq \<and> bufq_outstanding bq = 0) \<and>
    bufq_init kvaslots True addr BUFQ_NSCAN g' = Sleep W_bufqs_stop \<and>
    bufq_restart g' = (g, replicate (length (bufqs_list g)) W_stop @ [W_bufqs_stop])"
proof -
  have "bufq_quiesce_walk (bufqs_list g) = (bufqs_list g', Done ())" and g': "g' = g\<lparr>bufqs_stop := True, bufqs_list := bufqs_list g'\<rparr>"
    using assms(3) by (auto simp: bufq_quiesce_def split: prod.splits)
  from bufq_quiesce_walk_Done [OF this(1)]
  have l: "bufqs_list g' = map (\<lambda>bq. bq\<lparr>bufq_stop := True\<rparr>) (bufqs_list g)"
    and z: "\<forall>bq \<in> set (bufqs_list g). bufq_outstanding bq = 0" by auto
  have "map (\<lambda>bq. bq\<lparr>bufq_stop := False\<rparr>) (bufqs_list g) = bufqs_list g"
    using assms(2) by (intro map_idI) simp
  moreover have "bufqs_stop g'" using g' by (metis bufqs.select_convs(2) bufqs.surjective bufqs.update_convs(1,2))
  moreover have "g'\<lparr>bufqs_list := bufqs_list g, bufqs_stop := False\<rparr> = g"
    using assms(1) by (subst g') simp
  ultimately show ?thesis
    using z by (auto simp: l bufq_restart_def bufq_restart_one_def comp_def bufq_init_def kern_defs map_replicate_const)
qed

theorem bufq_quiesce_restart_witness:
  "bufq_restart (fst (bufq_quiesce \<lparr>bufqs_list = [w_bq (ex_world [] [] 0 Q_idle)], bufqs_stop = False\<rparr>)) =
     (\<lparr>bufqs_list = [w_bq (ex_world [] [] 0 Q_idle)], bufqs_stop = False\<rparr>, [W_stop, W_bufqs_stop])"
proof -
  let ?g = "\<lparr>bufqs_list = [w_bq (ex_world [] [] 0 Q_idle)], bufqs_stop = False\<rparr>"
  have "bufq_quiesce ?g = (fst (bufq_quiesce ?g), Done ())"
    by (simp add: bufq_quiesce_def bufq_quiesce_one_def bufq_quiesce_test_def ex_world_def)
  from bufq_quiesce_restart [OF _ _ this] show ?thesis by (simp add: ex_world_def)
qed

end
