(* ===== verification/Clock_Subr.thy ===== *)
theory Clock_Subr
  imports Kern_Prelude "HOL-Library.Signed_Division" "HOL-Library.Monad_Syntax"
begin

text \<open>
  The conversions between seconds since 1970 and calendar dates of \<^verbatim>\<open>kern/clock_subr.c\<close>, which every clock
  chip driver uses. The C \<^verbatim>\<open>int\<close> variables are integers and every assignment or arithmetic result that could
  leave their range is checked: \<open>None\<close> stands for a signed overflow or a read past the table of months, which C
  leaves undefined. Stores into the 8 and 16 bit fields of \<^verbatim>\<open>struct clock_ymdhms\<close> and the conversion of the
  day count to \<^verbatim>\<open>int\<close> truncate as in C; \<^verbatim>\<open>/\<close> and \<^verbatim>\<open>%\<close> are the division that rounds towards zero.
\<close>

section \<open>Data\<close>

record clock_ymdhms =
  dt_year :: u16
  dt_mon :: u8
  dt_day :: u8
  dt_wday :: u8
  dt_hour :: u8
  dt_min :: u8
  dt_sec :: u8

definition SECDAY :: int where [kern_defs]: "SECDAY = 86400"
definition POSIX_BASE_YEAR :: int where [kern_defs]: "POSIX_BASE_YEAR = 1970"
definition FEBRUARY :: int where [kern_defs]: "FEBRUARY = 2"

definition month_days :: "int list" where
  "month_days = [31, 28, 31, 30, 31, 30, 31, 31, 30, 31, 30, 31]"

section \<open>Operations\<close>

definition leapyear :: "int \<Rightarrow> bool" where
  "leapyear year =
     (if year AND 3 = 0
      then (if year smod 100 = 0 then year smod 400 = 0 else True)
      else False)"

definition days_in_year :: "int \<Rightarrow> int" where
  "days_in_year a = (if leapyear a then 366 else 365)"

text \<open>An \<^verbatim>\<open>int\<close> result, and the conversion of a wider value to \<^verbatim>\<open>int\<close>.\<close>

definition c_int :: "int \<Rightarrow> int option" where
  "c_int x = (if - (2 ^ 31) \<le> x \<and> x < 2 ^ 31 then Some x else None)"

definition to_int :: "int \<Rightarrow> int" where
  "to_int x = signed_take_bit 31 x"

text \<open>The first loop of \<^verbatim>\<open>clock_ymdhms_to_secs\<close>, over the years, and the second, over the months.\<close>

function year_loop :: "int \<Rightarrow> int \<Rightarrow> int \<Rightarrow> int" where
  "year_loop i year days =
     (if i < year then year_loop (i + 1) year (days + days_in_year i) else days)"
  by pat_completeness auto
termination by (relation "measure (\<lambda>(i, year, days). nat (year - i))") auto

declare year_loop.simps [simp del]

fun month_loop :: "int list \<Rightarrow> int \<Rightarrow> int \<Rightarrow> int \<Rightarrow> int option" where
  "month_loop [] i mon days = (if i < mon then None else Some days)"
| "month_loop (m # ms) i mon days = (if i < mon then month_loop ms (i + 1) mon (days + m) else Some days)"

definition clock_ymdhms_to_secs :: "clock_ymdhms \<Rightarrow> int option" where
  "clock_ymdhms_to_secs dt =
     (let year = uint (dt_year dt);
          days = year_loop POSIX_BASE_YEAR year 0;
          days' = (if leapyear year \<and> FEBRUARY < uint (dt_mon dt) then days + 1 else days)
      in do {
        days'' \<leftarrow> month_loop month_days 1 (uint (dt_mon dt)) days';
        let days3 = days'' + (uint (dt_day dt) - 1);
        h \<leftarrow> c_int (days3 * 24);
        h' \<leftarrow> c_int (h + uint (dt_hour dt));
        m \<leftarrow> c_int (h' * 60);
        m' \<leftarrow> c_int (m + uint (dt_min dt));
        Some (m' * 60 + uint (dt_sec dt))
      })"

text \<open>The loops of \<^verbatim>\<open>clock_secs_to_ymdhms\<close>.\<close>

lemma days_in_year_pos: "0 < days_in_year i"
  by (simp add: days_in_year_def)

function year_sub :: "int \<Rightarrow> int \<Rightarrow> int \<times> int" where
  "year_sub i days =
     (if days_in_year i \<le> days then year_sub (i + 1) (days - days_in_year i) else (i, days))"
  by pat_completeness auto
termination
proof (relation "measure (\<lambda>(i, days). nat days)", goal_cases)
  case (2 i days)
  then show ?case using days_in_year_pos [of i] by simp
qed simp

declare year_sub.simps [simp del]

fun month_sub :: "int list \<Rightarrow> int \<Rightarrow> int \<Rightarrow> (int \<times> int) option" where
  "month_sub [] i days = None"
| "month_sub (m # ms) i days = (if m \<le> days then month_sub ms (i + 1) (days - m) else Some (i, days))"

text \<open>The copy of the month table, with the leap day of the year.\<close>

definition mthdays :: "int \<Rightarrow> int list" where
  "mthdays year = (if leapyear year then month_days[nat (FEBRUARY - 1) := 29] else month_days)"

definition clock_secs_to_ymdhms :: "int \<Rightarrow> clock_ymdhms option" where
  "clock_secs_to_ymdhms secs =
     (let days = to_int (secs sdiv SECDAY);
          rsec = to_int (secs smod SECDAY);
          wday = (days + 4) smod 7;
          (year, days') = year_sub POSIX_BASE_YEAR days
      in do {
        (mon, days'') \<leftarrow> month_sub (mthdays year) 1 days';
        let rsec' = rsec smod 3600;
        Some \<lparr>dt_year = word_of_int year, dt_mon = word_of_int mon, dt_day = word_of_int (days'' + 1),
              dt_wday = word_of_int wday, dt_hour = word_of_int (rsec sdiv 3600),
              dt_min = word_of_int (rsec' sdiv 60), dt_sec = word_of_int (rsec' smod 60)\<rparr>
      })"

section \<open>Leap years\<close>

lemma and_3_eq_mod: "(y :: int) AND 3 = y mod 4"
  using take_bit_eq_mask [of 2 y] by (simp add: take_bit_eq_mod mask_eq_exp_minus_1)

lemma smod_eq_0_iff: "0 < m \<Longrightarrow> (y :: int) smod m = 0 \<longleftrightarrow> y mod m = 0"
  by (auto simp: signed_modulo_int_def sgn_if zmod_zminus1_eq_if) (metis pos_mod_bound less_irrefl)

text \<open>For every year, negative ones included, the nested tests of \<^verbatim>\<open>leapyear\<close> compute the Gregorian rule, as the
  comment above the function says: a multiple of 4 that is not a multiple of 100, or a multiple of 400.
\<close>

theorem leapyear_gregorian:
  "leapyear year \<longleftrightarrow> (year mod 4 = 0 \<and> year mod 100 \<noteq> 0) \<or> year mod 400 = 0"
proof -
  have "year mod 4 = 0" if "year mod 400 = 0" using that by presburger
  moreover have "year mod 100 = 0" if "year mod 400 = 0" using that by presburger
  ultimately show ?thesis by (auto simp: leapyear_def and_3_eq_mod smod_eq_0_iff)
qed

section \<open>The loops\<close>

lemma year_loop_add: "year_loop i y (a + b) = year_loop i y a + b"
proof (induction i y a rule: year_loop.induct)
  case (1 i y a)
  then show ?case by (subst (1 2) year_loop.simps) (simp add: algebra_simps)
qed

lemma year_loop_Suc: "i < y \<Longrightarrow> year_loop i y 0 = days_in_year i + year_loop (i + 1) y 0"
  using year_loop_add [of "i + 1" y 0 "days_in_year i"] by (subst year_loop.simps) simp

lemma year_loop_refl [simp]: "year_loop y y a = a"
  by (simp add: year_loop.simps)

lemma year_loop_nonneg: "0 \<le> a \<Longrightarrow> a \<le> year_loop i y a"
proof (induction i y a rule: year_loop.induct)
  case (1 i y a)
  then show ?case using days_in_year_pos [of i] by (subst year_loop.simps) force
qed

text \<open>The loop that subtracts whole years inverts the one that adds them.\<close>

lemma year_sub_year_loop:
  assumes "i \<le> y" and "0 \<le> r" and "r < days_in_year y"
  shows "year_sub i (year_loop i y 0 + r) = (y, r)"
  using assms
proof (induction "nat (y - i)" arbitrary: i)
  case 0
  then have "i = y" by simp
  then show ?case using 0 by (subst year_sub.simps) simp
next
  case (Suc n)
  then have i: "i < y" by simp
  have "year_sub (i + 1) (year_loop (i + 1) y 0 + r) = (y, r)" using Suc by (intro Suc.hyps(1)) simp_all
  moreover have "0 \<le> year_loop (i + 1) y 0" using year_loop_nonneg [of 0 "i + 1" y] by simp
  ultimately show ?case using year_loop_Suc [OF i] Suc.prems(2) by (subst year_sub.simps) simp
qed

lemma year_sub_spec:
  assumes "0 \<le> d" and "year_sub i d = (y, r)"
  shows "i \<le> y \<and> 0 \<le> r \<and> r < days_in_year y \<and> d = year_loop i y 0 + r"
  using assms
proof (induction i d rule: year_sub.induct)
  case (1 i d)
  show ?case
  proof (cases "days_in_year i \<le> d")
    case True
    then have "year_sub (i + 1) (d - days_in_year i) = (y, r)" using 1(3) by (subst (asm) year_sub.simps) simp
    with 1(1) [OF True] True
    have "i + 1 \<le> y \<and> 0 \<le> r \<and> r < days_in_year y \<and> d - days_in_year i = year_loop (i + 1) y 0 + r" by simp
    then show ?thesis using year_loop_Suc [of i y] by auto
  next
    case False
    then show ?thesis using 1 by (subst (asm) year_sub.simps) simp
  qed
qed

text \<open>The same for months, with the table as a parameter.\<close>

lemma month_sub_spec:
  "0 \<le> d \<Longrightarrow> d < sum_list ms \<Longrightarrow>
   \<exists>k. k < length ms \<and> month_sub ms i d = Some (i + int k, d - sum_list (take k ms)) \<and>
     0 \<le> d - sum_list (take k ms) \<and> d - sum_list (take k ms) < ms ! k"
proof (induction ms arbitrary: i d)
  case (Cons m ms)
  show ?case
  proof (cases "m \<le> d")
    case True
    with Cons.IH [of "d - m" "i + 1"] Cons.prems obtain k where
      "k < length ms" "month_sub ms (i + 1) (d - m) = Some (i + 1 + int k, d - m - sum_list (take k ms))"
      "0 \<le> d - m - sum_list (take k ms)" "d - m - sum_list (take k ms) < ms ! k" by auto
    with True show ?thesis by (intro exI [of _ "Suc k"]) (auto simp: algebra_simps)
  next
    case False
    with Cons.prems show ?thesis by (intro exI [of _ 0]) simp
  qed
qed simp

lemma month_sub_at:
  "\<forall>m \<in> set ms. 0 < m \<Longrightarrow> k < length ms \<Longrightarrow> 0 \<le> r \<Longrightarrow> r < ms ! k \<Longrightarrow>
   month_sub ms i (sum_list (take k ms) + r) = Some (i + int k, r)"
proof (induction ms arbitrary: i k)
  case (Cons m ms)
  show ?case
  proof (cases k)
    case (Suc j)
    have "0 \<le> sum_list (take j ms)"
      using Cons.prems(1) by (intro sum_list_nonneg) (auto dest!: in_set_takeD intro: less_imp_le)
    then show ?thesis
      using Suc Cons.prems Cons.IH [of j "i + 1"] by (auto simp: algebra_simps)
  qed (use Cons.prems in simp)
qed simp

lemma month_loop_spec:
  "k \<le> length ms \<Longrightarrow> month_loop ms i (i + int k) a = Some (a + sum_list (take k ms))"
proof (induction ms arbitrary: i k a)
  case (Cons m ms)
  show ?case
  proof (cases k)
    case (Suc j)
    then show ?thesis using Cons.IH [of j "i + 1" "a + m"] Cons.prems by (simp add: algebra_simps)
  qed simp
qed simp

section \<open>The tables\<close>

lemma length_mthdays [simp]: "length (mthdays y) = 12" "length month_days = 12"
  by (simp_all add: mthdays_def) (simp_all add: month_days_def)

lemma sum_mthdays: "sum_list (mthdays y) = days_in_year y"
  by (simp add: mthdays_def days_in_year_def month_days_def FEBRUARY_def)

lemma mthdays_pos: "\<forall>m \<in> set (mthdays y). 0 < m"
  by (simp add: mthdays_def month_days_def FEBRUARY_def)

text \<open>The extra day that \<^verbatim>\<open>clock_ymdhms_to_secs\<close> adds after February is the difference of the two tables.\<close>

lemma less_12_cases: "k < 12 \<Longrightarrow> k \<in> {0, 1, 2, 3, 4, 5, 6, 7, 8, 9, 10, 11 :: nat}"
  unfolding insert_iff empty_iff by arith

lemma sum_take_mthdays:
  "k < 12 \<Longrightarrow> sum_list (take k (mthdays y)) = sum_list (take k month_days) + (if leapyear y \<and> 2 \<le> k then 1 else 0)"
  by (drule less_12_cases, elim insertE) (simp_all add: mthdays_def month_days_def FEBRUARY_def)

lemma mthdays_nth_le: "k < 12 \<Longrightarrow> mthdays y ! k \<le> 31"
  by (drule less_12_cases, elim insertE) (simp_all add: mthdays_def month_days_def FEBRUARY_def)

section \<open>Dates\<close>

text \<open>
  A date on the calendar from 1970 on, and its number of days since then: the specification the two
  conversions are checked against.
\<close>

definition valid_date :: "clock_ymdhms \<Rightarrow> bool" where
  "valid_date dt \<longleftrightarrow> 1970 \<le> uint (dt_year dt) \<and> 1 \<le> uint (dt_mon dt) \<and> uint (dt_mon dt) \<le> 12 \<and>
     1 \<le> uint (dt_day dt) \<and> uint (dt_day dt) \<le> mthdays (uint (dt_year dt)) ! nat (uint (dt_mon dt) - 1) \<and>
     uint (dt_hour dt) < 24 \<and> uint (dt_min dt) < 60 \<and> uint (dt_sec dt) < 60"

definition date_days :: "clock_ymdhms \<Rightarrow> int" where
  "date_days dt = (\<Sum>y = 1970..<uint (dt_year dt). days_in_year y) +
     sum_list (take (nat (uint (dt_mon dt) - 1)) (mthdays (uint (dt_year dt)))) + uint (dt_day dt) - 1"

definition date_minutes :: "clock_ymdhms \<Rightarrow> int" where
  "date_minutes dt = (date_days dt * 24 + uint (dt_hour dt)) * 60 + uint (dt_min dt)"

lemma year_loop_sum: "i \<le> y \<Longrightarrow> year_loop i y 0 = (\<Sum>k = i..<y. days_in_year k)"
proof (induction "nat (y - i)" arbitrary: i)
  case 0
  then have "i = y" by simp
  then show ?case by simp
next
  case (Suc n)
  then have i: "i < y" by simp
  have "{i..<y} = insert i {i + 1..<y}" using i by auto
  then show ?case using Suc(1) [of "i + 1"] Suc(2,3) i year_loop_Suc [OF i] by simp
qed

lemma date_days_nonneg: "valid_date dt \<Longrightarrow> 0 \<le> date_days dt"
proof -
  assume v: "valid_date dt"
  have "0 \<le> (\<Sum>y = 1970..<uint (dt_year dt). days_in_year y)"
    by (intro sum_nonneg) (simp add: days_in_year_pos less_imp_le)
  moreover have "0 \<le> sum_list (take (nat (uint (dt_mon dt) - 1)) (mthdays (uint (dt_year dt))))"
    using mthdays_pos [of "uint (dt_year dt)"]
    by (intro sum_list_nonneg) (auto dest!: in_set_takeD intro: less_imp_le)
  ultimately show ?thesis using v by (simp add: date_days_def valid_date_def)
qed

lemma c_int_nonneg: "0 \<le> x \<Longrightarrow> c_int x = (if x < 2 ^ 31 then Some x else None)"
  by (simp add: c_int_def)

lemma c_int_chain:
  assumes "0 \<le> d" and "0 \<le> h" and "0 \<le> m"
  shows "do { a \<leftarrow> c_int (d * 24); b \<leftarrow> c_int (a + h); c \<leftarrow> c_int (b * 60); e \<leftarrow> c_int (c + m); f e } =
    (if (d * 24 + h) * 60 + m < 2 ^ 31 then f ((d * 24 + h) * 60 + m) else None)"
  using assms by (simp add: c_int_nonneg)

lemma clock_ymdhms_to_secs_eq:
  assumes "valid_date dt"
  shows "clock_ymdhms_to_secs dt =
    (if date_minutes dt < 2 ^ 31 then Some (date_minutes dt * 60 + uint (dt_sec dt)) else None)"
proof -
  let ?k = "nat (uint (dt_mon dt) - 1)" and ?y = "uint (dt_year dt)"
  have k: "?k < 12" "uint (dt_mon dt) = 1 + int ?k" using assms by (auto simp: valid_date_def)
  have "month_loop month_days 1 (uint (dt_mon dt)) a = Some (a + sum_list (take ?k month_days))" for a
    using month_loop_spec [of ?k month_days 1 a] k by simp
  moreover have "FEBRUARY < uint (dt_mon dt) \<longleftrightarrow> 2 \<le> ?k" using k(2) by (auto simp: FEBRUARY_def)
  moreover have "year_loop POSIX_BASE_YEAR ?y 0 = (\<Sum>y = 1970..<?y. days_in_year y)"
    using year_loop_sum [of 1970 ?y] assms by (simp add: POSIX_BASE_YEAR_def valid_date_def)
  ultimately have days: "clock_ymdhms_to_secs dt = do {
        h \<leftarrow> c_int (date_days dt * 24);
        h' \<leftarrow> c_int (h + uint (dt_hour dt));
        m \<leftarrow> c_int (h' * 60);
        m' \<leftarrow> c_int (m + uint (dt_min dt));
        Some (m' * 60 + uint (dt_sec dt)) }"
    using sum_take_mthdays [OF k(1), of ?y]
    by (simp add: clock_ymdhms_to_secs_def Let_def date_days_def algebra_simps)
  show ?thesis
    unfolding days date_minutes_def by (rule c_int_chain [OF date_days_nonneg [OF assms]]) simp_all
qed

section \<open>Times of day\<close>

lemma time_of_day_bounds:
  assumes "0 \<le> r" and "r < (86400 :: int)"
  shows "r div 3600 < 24" and "r mod 3600 div 60 < 60"
proof -
  show "r div 3600 < 24" using assms by linarith
  have "r mod 3600 < 3600" by simp
  then show "r mod 3600 div 60 < 60" by linarith
qed

lemma day_of_secs:
  fixes d h m s :: int
  assumes "0 \<le> h" "h < 24" "0 \<le> m" "m < 60" "0 \<le> s" "s < 60"
  shows "(((d * 24 + h) * 60 + m) * 60 + s) div 86400 = d"
  using assms by (intro int_div_pos_eq [where r = "(h * 60 + m) * 60 + s"]) simp_all

lemma base60_inj:
  fixes a s a' s' :: int
  assumes "a * 60 + s = a' * 60 + s'" and "0 \<le> s" "s < 60" "0 \<le> s'" "s' < 60"
  shows "a = a' \<and> s = s'"
proof -
  have "a = a'"
    using assms by (cases a a' rule: linorder_cases) linarith+
  then show ?thesis using assms(1) by simp
qed

lemma secs_in_day_inj:
  fixes h m s h' m' s' :: int
  assumes "((d * 24 + h) * 60 + m) * 60 + s = ((d * 24 + h') * 60 + m') * 60 + s'"
    and "0 \<le> m" "m < 60" "0 \<le> s" "s < 60" "0 \<le> m'" "m' < 60" "0 \<le> s'" "s' < 60"
  shows "h = h' \<and> m = m' \<and> s = s'"
proof -
  have "(d * 24 + h) * 60 + m = (d * 24 + h') * 60 + m'" "s = s'"
    using base60_inj [OF assms(1)] assms(4,5,8,9) by blast+
  moreover from base60_inj [OF this(1)] have "d * 24 + h = d * 24 + h'" "m = m'"
    using assms(2,3,6,7) by blast+
  ultimately show ?thesis by simp
qed

section \<open>From seconds to dates\<close>

lemma to_int_small: "0 \<le> x \<Longrightarrow> x < 2 ^ 31 \<Longrightarrow> to_int x = x"
  unfolding to_int_def by (rule signed_take_bit_int_eq_self) simp_all

lemma sdiv_smod_nonneg: "0 \<le> (a :: int) \<Longrightarrow> 0 < b \<Longrightarrow> a sdiv b = a div b \<and> a smod b = a mod b"
  by (simp add: signed_divide_int_def signed_modulo_int_def sgn_if)

lemma clock_secs_to_ymdhms_eq:
  assumes "0 \<le> secs" and "secs div 86400 < 2 ^ 31 - 4"
    and "year_sub 1970 (secs div 86400) = (year, d)"
    and "month_sub (mthdays year) 1 d = Some (mon, d')"
  shows "clock_secs_to_ymdhms secs = Some
    \<lparr>dt_year = word_of_int year, dt_mon = word_of_int mon, dt_day = word_of_int (d' + 1),
     dt_wday = word_of_int ((secs div 86400 + 4) mod 7), dt_hour = word_of_int (secs mod 86400 div 3600),
     dt_min = word_of_int (secs mod 86400 mod 3600 div 60), dt_sec = word_of_int (secs mod 86400 mod 3600 mod 60)\<rparr>"
proof -
  have "secs mod 86400 < 86400" "0 \<le> secs div 86400" using assms(1) by simp_all
  moreover have "to_int (secs sdiv SECDAY) = secs div 86400" "to_int (secs smod SECDAY) = secs mod 86400"
    using assms(1,2) calculation sdiv_smod_nonneg [of secs 86400] by (simp_all add: SECDAY_def to_int_small)
  ultimately show ?thesis
    using assms(3,4) by (simp add: clock_secs_to_ymdhms_def POSIX_BASE_YEAR_def sdiv_smod_nonneg Let_def)
qed

lemma year_loop_ge: "i \<le> y \<Longrightarrow> 365 * (y - i) \<le> year_loop i y 0"
proof (induction "nat (y - i)" arbitrary: i)
  case (Suc n)
  then have i: "i < y" by simp
  have "365 \<le> days_in_year i" by (simp add: days_in_year_def)
  moreover have "365 * (y - (i + 1)) \<le> year_loop (i + 1) y 0" using Suc(2) i by (intro Suc(1)) simp_all
  ultimately show ?case using year_loop_Suc [OF i] by (simp add: algebra_simps)
qed simp

lemma uint_word_of_int_small: "0 \<le> x \<Longrightarrow> x < 2 ^ LENGTH('a) \<Longrightarrow> uint (word_of_int x :: 'a::len word) = x"
  by (simp add: uint_word_of_int take_bit_int_eq_self)

text \<open>The fields that the conversion stores are those of a date, and its seconds are the ones converted.\<close>

lemma clock_secs_to_ymdhms_date:
  assumes "0 \<le> secs" and "secs < 2 ^ 31 * 60"
  shows "\<exists>dt. clock_secs_to_ymdhms secs = Some dt \<and> valid_date dt \<and> date_days dt = secs div 86400 \<and>
    date_minutes dt * 60 + uint (dt_sec dt) = secs \<and> uint (dt_wday dt) = (secs div 86400 + 4) mod 7"
proof -
  let ?D = "secs div 86400" and ?R = "secs mod 86400"
  have D: "0 \<le> ?D" "?D < 1491309" using assms by simp_all
  obtain year d where ys: "year_sub 1970 ?D = (year, d)" by fastforce
  from year_sub_spec [OF D(1) this]
  have y: "1970 \<le> year" "0 \<le> d" "d < days_in_year year" "?D = year_loop 1970 year 0 + d" by auto
  have year: "year < 2 ^ 16" using year_loop_ge [OF y(1)] y(2,4) D(2) by simp
  from month_sub_spec [of d "mthdays year" 1] y(2,3) obtain k where k: "k < 12"
    "month_sub (mthdays year) 1 d = Some (1 + int k, d - sum_list (take k (mthdays year)))"
    "0 \<le> d - sum_list (take k (mthdays year))" "d - sum_list (take k (mthdays year)) < mthdays year ! k"
    by (auto simp: sum_mthdays)
  define d' where "d' = d - sum_list (take k (mthdays year))"
  note eq = clock_secs_to_ymdhms_eq [OF assms(1) _ ys k(2), folded d'_def]
  have d': "0 \<le> d'" "d' < mthdays year ! k" "d' < 31"
    using k(3,4) mthdays_nth_le [OF k(1), of year] by (simp_all add: d'_def)
  let ?dt = "\<lparr>dt_year = word_of_int year, dt_mon = word_of_int (1 + int k), dt_day = word_of_int (d' + 1),
     dt_wday = word_of_int ((?D + 4) mod 7), dt_hour = word_of_int (?R div 3600),
     dt_min = word_of_int (?R mod 3600 div 60), dt_sec = word_of_int (?R mod 3600 mod 60)\<rparr>"
  have R: "0 \<le> ?R" "?R < 86400" by simp_all
  have f: "uint (dt_year ?dt) = year" "uint (dt_mon ?dt) = 1 + int k" "uint (dt_day ?dt) = d' + 1"
    "uint (dt_wday ?dt) = (?D + 4) mod 7" "uint (dt_hour ?dt) = ?R div 3600"
    "uint (dt_min ?dt) = ?R mod 3600 div 60" "uint (dt_sec ?dt) = ?R mod 3600 mod 60"
    using y(1) year k(1) d' R by (simp_all only: clock_ymdhms.select_convs) (subst uint_word_of_int_small; simp)+
  have days: "date_days ?dt = ?D"
    using y(4) year_loop_sum [OF y(1)] unfolding date_days_def f by (simp add: d'_def)
  have "clock_secs_to_ymdhms secs = Some ?dt" by (rule eq) (use D(2) in simp)
  moreover have "valid_date ?dt" using y(1) k(1) d' time_of_day_bounds [OF R] unfolding valid_date_def f by simp
  moreover have "date_minutes ?dt * 60 + uint (dt_sec ?dt) = secs"
    unfolding date_minutes_def days f by (simp add: algebra_simps)
  ultimately show ?thesis using days f(4) by blast
qed

text \<open>A date is determined by its number of days and its time of day.\<close>

lemma date_days_inj:
  assumes "valid_date dt" and "valid_date dt'" and "date_days dt = date_days dt'"
  shows "dt_year dt = dt_year dt' \<and> dt_mon dt = dt_mon dt' \<and> dt_day dt = dt_day dt'"
proof -
  have key: "\<exists>r. year_sub 1970 (date_days t) = (uint (dt_year t), r) \<and>
      month_sub (mthdays (uint (dt_year t))) 1 r = Some (uint (dt_mon t), uint (dt_day t) - 1)" if v: "valid_date t" for t
  proof -
    let ?y = "uint (dt_year t)" and ?k = "nat (uint (dt_mon t) - 1)"
    have k: "?k < 12" "uint (dt_mon t) = 1 + int ?k" using v by (auto simp: valid_date_def)
    have day: "0 \<le> uint (dt_day t) - 1" "uint (dt_day t) - 1 < mthdays ?y ! ?k" "1970 \<le> ?y"
      using v by (simp_all add: valid_date_def)
    have pos: "0 \<le> sum_list (take ?k (mthdays ?y))"
      using mthdays_pos [of ?y] by (intro sum_list_nonneg) (auto dest!: in_set_takeD intro: less_imp_le)
    have "0 \<le> sum_list (drop (Suc ?k) (mthdays ?y))"
      using mthdays_pos [of ?y] by (intro sum_list_nonneg) (auto dest!: in_set_dropD intro: less_imp_le)
    moreover have "mthdays ?y = take ?k (mthdays ?y) @ mthdays ?y ! ?k # drop (Suc ?k) (mthdays ?y)"
      using k(1) by (intro id_take_nth_drop) simp
    then have "days_in_year ?y = sum_list (take ?k (mthdays ?y)) + mthdays ?y ! ?k + sum_list (drop (Suc ?k) (mthdays ?y))"
      by (metis sum_mthdays sum_list.append sum_list.Cons add.assoc)
    ultimately have lt: "sum_list (take ?k (mthdays ?y)) + (uint (dt_day t) - 1) < days_in_year ?y"
      using day by simp
    have "date_days t = year_loop 1970 ?y 0 + (sum_list (take ?k (mthdays ?y)) + (uint (dt_day t) - 1))"
      using year_loop_sum [OF day(3)] by (simp add: date_days_def)
    then show ?thesis
      using year_sub_year_loop [OF day(3) _ lt] pos day
        month_sub_at [OF mthdays_pos, of ?k ?y "uint (dt_day t) - 1" 1] k by simp
  qed
  from key [OF assms(1)] key [OF assms(2)] assms(3) show ?thesis by (auto intro: word_uint_eqI)
qed



text \<open>Converting a calendar date from 1970 on to seconds and back gives the same date, with the day of the week
  filled in, as long as its minute count fits an \<^verbatim>\<open>int\<close>; for later dates the multiplication overflows before the
  cast to \<^verbatim>\<open>time_t\<close> takes effect.
\<close>

theorem clock_date_roundtrip:
  assumes "valid_date dt"
  shows "(date_minutes dt < 2 ^ 31 \<longrightarrow>
      (\<exists>secs. clock_ymdhms_to_secs dt = Some secs \<and>
        clock_secs_to_ymdhms secs = Some (dt\<lparr>dt_wday := word_of_int ((date_days dt + 4) mod 7)\<rparr>))) \<and>
    (2 ^ 31 \<le> date_minutes dt \<longrightarrow> clock_ymdhms_to_secs dt = None)"
proof (intro conjI impI)
  assume lt: "date_minutes dt < 2 ^ 31"
  define secs where "secs = date_minutes dt * 60 + uint (dt_sec dt)"
  have b: "0 \<le> uint (dt_hour dt)" "uint (dt_hour dt) < 24" "0 \<le> uint (dt_min dt)" "uint (dt_min dt) < 60"
      "0 \<le> uint (dt_sec dt)" "uint (dt_sec dt) < 60" "0 \<le> date_days dt"
    using assms date_days_nonneg [OF assms] by (simp_all add: valid_date_def)
  have "0 \<le> date_minutes dt" using b by (simp add: date_minutes_def)
  then have "0 \<le> secs" "secs < 2 ^ 31 * 60" using lt b by (simp_all add: secs_def)
  from clock_secs_to_ymdhms_date [OF this] obtain dt' where dt': "clock_secs_to_ymdhms secs = Some dt'"
      "valid_date dt'" "date_days dt' = secs div 86400" "date_minutes dt' * 60 + uint (dt_sec dt') = secs"
      "uint (dt_wday dt') = (secs div 86400 + 4) mod 7" by blast
  have b': "0 \<le> uint (dt_hour dt')" "uint (dt_hour dt') < 24" "0 \<le> uint (dt_min dt')" "uint (dt_min dt') < 60"
      "0 \<le> uint (dt_sec dt')" "uint (dt_sec dt') < 60"
    using dt'(2) by (simp_all add: valid_date_def)
  have sec: "secs div 86400 = date_days dt"
    unfolding secs_def date_minutes_def using b by (intro day_of_secs)
  have same: "date_days dt' = date_days dt" using dt'(3) sec by simp
  have hms: "uint (dt_hour dt') = uint (dt_hour dt) \<and> uint (dt_min dt') = uint (dt_min dt) \<and> uint (dt_sec dt') = uint (dt_sec dt)"
    using dt'(4) b b' unfolding secs_def date_minutes_def same by (intro secs_in_day_inj) simp_all
  have wd: "word_of_int ((date_days dt + 4) mod 7) = dt_wday dt'"
    using dt'(5) sec by (metis word_of_int_uint)
  have "dt' = dt\<lparr>dt_wday := word_of_int ((date_days dt + 4) mod 7)\<rparr>"
    using date_days_inj [OF dt'(2) assms same] hms dt'(5) sec
    by (intro clock_ymdhms.equality) (auto intro: word_uint_eqI simp: wd)
  then show "\<exists>secs. clock_ymdhms_to_secs dt = Some secs \<and>
        clock_secs_to_ymdhms secs = Some (dt\<lparr>dt_wday := word_of_int ((date_days dt + 4) mod 7)\<rparr>)"
    using dt'(1) clock_ymdhms_to_secs_eq [OF assms] lt by (auto simp: secs_def)
qed (simp add: clock_ymdhms_to_secs_eq [OF assms])

theorem clock_date_roundtrip_witness:
  "\<exists>secs. clock_ymdhms_to_secs \<lparr>dt_year = 1972, dt_mon = 2, dt_day = 29, dt_wday = 0, dt_hour = 23, dt_min = 59, dt_sec = 58\<rparr> = Some secs \<and>
     clock_secs_to_ymdhms secs = Some \<lparr>dt_year = 1972, dt_mon = 2, dt_day = 29, dt_wday = 2, dt_hour = 23, dt_min = 59, dt_sec = 58\<rparr>"
proof -
  let ?dt = "\<lparr>dt_year = 1972, dt_mon = 2, dt_day = 29, dt_wday = 0, dt_hour = 23, dt_min = 59, dt_sec = 58\<rparr>"
  have leap: "leapyear 1972" "\<not> leapyear 1970" "\<not> leapyear 1971" by (simp_all add: leapyear_def smod_eq_0_iff)
  have "{1970..<1972} = {1970, 1971 :: int}" by auto
  then have days: "date_days ?dt = 789"
    using leap by (simp add: date_days_def mthdays_def month_days_def FEBRUARY_def days_in_year_def)
  have v: "valid_date ?dt"
    using leap by (simp add: valid_date_def mthdays_def month_days_def FEBRUARY_def)
  have "date_minutes ?dt < 2 ^ 31" by (simp add: date_minutes_def days)
  with clock_date_roundtrip [OF v] show ?thesis by (simp add: days)
qed

end
