(* ===== verification/Mtgmac.thy ===== *)
theory Mtgmac
  imports Kern_Prelude
begin

text \<open>
  The MT7981 Ethernet driver \<^verbatim>\<open>dev/fdt/if_mtgmac.c\<close>, with the two routines it depends on to attach: the test of
  a device tree node's \<^verbatim>\<open>compatible\<close> property (\<^verbatim>\<open>fdt_is_compatible\<close> in \<^verbatim>\<open>dev/ofw/fdt.c\<close>) and the checks and
  defaults of \<^verbatim>\<open>if_attach_common\<close> in \<^verbatim>\<open>net/if.c\<close>. Accesses to the device are a trace of register operations; what
  the hardware answers to a read, whether the registers can be mapped and whether an interrupt handler can be
  installed are parameters.
\<close>

section \<open>Device tree matching\<close>

text \<open>
  \<^verbatim>\<open>fdt_is_compatible\<close>: \<open>data\<close> is the memory from the start of the property on and \<open>len\<close> what is left of the
  property. \<open>None\<close> stands for a string function that runs off the end of the memory.
\<close>

fun c_string :: "bytes \<Rightarrow> bytes option" where
  "c_string [] = None"
| "c_string (b # bs) = (if b = 0 then Some [] else map_option ((#) b) (c_string bs))"

lemma c_string_length: "c_string mem = Some s \<Longrightarrow> length s < length mem"
  by (induction mem arbitrary: s) (auto split: if_splits)

function fdt_compat_loop :: "bytes \<Rightarrow> int \<Rightarrow> bytes \<Rightarrow> bool option" where
  "fdt_compat_loop data len name =
     (if len > 0
      then (case c_string data of
              None \<Rightarrow> None
            | Some s \<Rightarrow>
                if s = name then Some True
                else fdt_compat_loop (drop (length s + 1) data) (len - (int (length s) + 1)) name)
      else Some False)"
  by pat_completeness auto
termination
  by (relation "measure (\<lambda>(data, len, name). nat len)") auto

declare fdt_compat_loop.simps [simp del]

text \<open>The property of the node: its value and the memory that follows it; absent, the length is -1.\<close>

definition fdt_is_compatible :: "(bytes \<times> bytes) option \<Rightarrow> bytes \<Rightarrow> bool option" where
  "fdt_is_compatible prop name =
     (case prop of
        None \<Rightarrow> fdt_compat_loop [] (-1) name
      | Some (v, rest) \<Rightarrow> fdt_compat_loop (v @ rest) (int (length v)) name)"

definition c_bytes :: "string \<Rightarrow> bytes" where
  "c_bytes s = map of_char s"

definition mtgmac_match :: "(bytes \<times> bytes) option \<Rightarrow> bool option" where
  "mtgmac_match compatible = fdt_is_compatible compatible (c_bytes ''mediatek,mt7981-gmac'')"

section \<open>The interface\<close>

text \<open>
  The fields of \<^verbatim>\<open>struct ifnet\<close> that attaching reads or sets; a function pointer is the name of the function or
  \<open>None\<close> for NULL. A softc starts zeroed (\<^verbatim>\<open>config_make_softc\<close>).
\<close>

record ifnet =
  if_xname :: bytes
  if_softc :: bool
  if_flags :: u16
  if_mpsafe :: bool
  if_ioctl :: "string option"
  if_start :: "string option"
  if_qstart :: "string option"
  if_input :: "string option"
  if_output :: "string option"
  if_attached :: bool

record mtgmac_softc =
  sc_node :: nat
  sc_mapped :: "(u64 \<times> u64) option"
  sc_if :: ifnet

definition zero_softc :: mtgmac_softc where
  "zero_softc = \<lparr>sc_node = 0, sc_mapped = None,
     sc_if = \<lparr>if_xname = [], if_softc = False, if_flags = 0, if_mpsafe = False, if_ioctl = None, if_start = None,
              if_qstart = None, if_input = None, if_output = None, if_attached = False\<rparr>\<rparr>"

record fdt_attach_args =
  fa_node :: nat
  fa_reg :: "(u64 \<times> u64) list"

definition IFF_BROADCAST :: u16 where [kern_defs]: "IFF_BROADCAST = 0x2"
definition IFF_SIMPLEX :: u16 where [kern_defs]: "IFF_SIMPLEX = 0x800"
definition IFF_MULTICAST :: u16 where [kern_defs]: "IFF_MULTICAST = 0x8000"
definition IFNAMSIZ :: nat where [kern_defs]: "IFNAMSIZ = 16"

text \<open>A kernel routine returns or ends in a panic (here: a failed \<^verbatim>\<open>KASSERT\<close>).\<close>

datatype 'a kern_result = Ret 'a | Kpanic string

definition if_attach_common :: "ifnet \<Rightarrow> ifnet kern_result" where
  "if_attach_common ifp =
     (if if_ioctl ifp = None then Kpanic ''if_ioctl''
      else if \<not> if_mpsafe ifp
      then (if if_qstart ifp \<noteq> None then Kpanic ''if_qstart''
            else Ret (ifp\<lparr>if_qstart := Some ''if_qstart_compat''\<rparr>))
      else (if if_start ifp \<noteq> None then Kpanic ''if_start''
            else if if_qstart ifp = None then Kpanic ''if_qstart''
            else Ret ifp))"

definition if_attach :: "ifnet \<Rightarrow> ifnet kern_result" where
  "if_attach ifp =
     (case if_attach_common ifp of
        Kpanic m \<Rightarrow> Kpanic m
      | Ret ifp' \<Rightarrow> Ret (ifp'\<lparr>if_attached := True\<rparr>))"

definition ether_ifattach :: "ifnet \<Rightarrow> ifnet" where
  "ether_ifattach ifp =
     ifp\<lparr>if_input := Some ''ether_input'',
         if_output := (if if_output ifp = None then Some ''ether_output'' else if_output ifp)\<rparr>"

section \<open>The driver\<close>

text \<open>
  \<^verbatim>\<open>mtgmac_attach\<close>: \<open>map_fails\<close> is the result of \<^verbatim>\<open>bus_space_map\<close> on the address and size of the first register
  range; without one, \<^verbatim>\<open>faa->fa_reg[0]\<close> reads memory the node does not have. \<open>xname\<close> is the device name.
\<close>

definition mtgmac_attach :: "(u64 \<Rightarrow> u64 \<Rightarrow> bool) \<Rightarrow> bytes \<Rightarrow> fdt_attach_args \<Rightarrow> mtgmac_softc \<Rightarrow> mtgmac_softc kern_result option" where
  "mtgmac_attach map_fails xname faa sc =
     (let sc1 = sc\<lparr>sc_node := fa_node faa\<rparr> in
      case fa_reg faa of
        [] \<Rightarrow> None
      | (addr, len) # _ \<Rightarrow>
          if map_fails addr len then Some (Ret sc1)
          else
            let ifp = (sc_if sc1)\<lparr>if_xname := take (IFNAMSIZ - 1) xname, if_softc := True,
                  if_flags := IFF_BROADCAST OR IFF_SIMPLEX OR IFF_MULTICAST\<rparr> in
            (case if_attach ifp of
               Kpanic m \<Rightarrow> Some (Kpanic m)
             | Ret ifp' \<Rightarrow> Some (Ret (sc1\<lparr>sc_mapped := Some (addr, len), sc_if := ether_ifattach ifp'\<rparr>))))"

text \<open>Register operations, in program order.\<close>

datatype bus_op = Write32 u32 u32 | Read32 u32 u32 | Delay nat

definition MTGMAC_PDMA_GLO_CFG :: u32 where [kern_defs]: "MTGMAC_PDMA_GLO_CFG = 0x204"
definition MTGMAC_PDMA_RST_IDX :: u32 where [kern_defs]: "MTGMAC_PDMA_RST_IDX = 0x208"
definition MTGMAC_TX_DMA_EN :: u32 where [kern_defs]: "MTGMAC_TX_DMA_EN = push_bit 0 1"
definition MTGMAC_RX_DMA_EN :: u32 where [kern_defs]: "MTGMAC_RX_DMA_EN = push_bit 1 1"

definition mtgmac_init_locked :: "bus_op list" where
  "mtgmac_init_locked =
     [Write32 MTGMAC_PDMA_GLO_CFG 0,
      Write32 MTGMAC_PDMA_RST_IDX 0xFFFFFFFF,
      Delay 1000,
      Write32 MTGMAC_PDMA_GLO_CFG (MTGMAC_TX_DMA_EN OR MTGMAC_RX_DMA_EN)]"

text \<open>\<^verbatim>\<open>mtgmac_intr\<close>, for the value the status register holds: the return value and the register operations.\<close>

definition mtgmac_intr :: "u32 \<Rightarrow> nat \<times> bus_op list" where
  "mtgmac_intr status =
     (if status = 0 then (0, [Read32 0x210 status])
      else (1, [Read32 0x210 status, Write32 0x210 status]))"

text \<open>\<^verbatim>\<open>mtgmac_setup_irq\<close>: whether the handler is installed; it only reports the outcome.\<close>

definition mtgmac_setup_irq :: "(nat \<Rightarrow> bool) \<Rightarrow> fdt_attach_args \<Rightarrow> bool" where
  "mtgmac_setup_irq establish faa = establish (fa_node faa)"

section \<open>Matching\<close>

lemma c_string_append: "0 \<notin> set s \<Longrightarrow> c_string (s @ 0 # rest) = Some s"
  by (induction s) auto

lemma fdt_compat_loop_strings:
  assumes "\<forall>s \<in> set ss. 0 \<notin> set s"
  shows "fdt_compat_loop (concat (map (\<lambda>s. s @ [0]) ss) @ rest) (int (length (concat (map (\<lambda>s. s @ [0]) ss)))) name =
    Some (name \<in> set ss)"
  using assms
proof (induction ss)
  case Nil
  then show ?case by (simp add: fdt_compat_loop.simps)
next
  case (Cons s ss)
  have "c_string (concat (map (\<lambda>s. s @ [0]) (s # ss)) @ rest) = Some s"
    using Cons.prems c_string_append [of s] by simp
  then show ?case
    using Cons by (subst fdt_compat_loop.simps) simp
qed

text \<open>The driver matches exactly the device tree nodes that list \<^verbatim>\<open>mediatek,mt7981-gmac\<close> among the strings of their
  \<^verbatim>\<open>compatible\<close> property: for a well-formed property (strings each ended by a NUL) the loop looks at every string,
  whatever follows the property in memory, and a node without the property does not match.
\<close>

theorem mtgmac_match_compatible:
  assumes "\<forall>s \<in> set ss. 0 \<notin> set s"
  shows "mtgmac_match (Some (concat (map (\<lambda>s. s @ [0]) ss), rest)) = Some (c_bytes ''mediatek,mt7981-gmac'' \<in> set ss) \<and>
    mtgmac_match None = Some False"
  using fdt_compat_loop_strings [OF assms]
  by (simp add: mtgmac_match_def fdt_is_compatible_def fdt_compat_loop.simps [of "[]"])

theorem mtgmac_match_compatible_witness:
  "mtgmac_match (Some (c_bytes ''mediatek,eth'' @ [0] @ c_bytes ''mediatek,mt7981-gmac'' @ [0], [1])) = Some True"
  using mtgmac_match_compatible [of "[c_bytes ''mediatek,eth'', c_bytes ''mediatek,mt7981-gmac'']" "[1]"]
  by (simp add: c_bytes_def of_char_def)

section \<open>Attaching\<close>



end
