(* ===== verification/Lockf.thy ===== *)
theory Lockf
  imports Kern_Prelude "HOL-Library.Monad_Syntax"
begin

text \<open>
  Advisory byte-range locks: \<^verbatim>\<open>kern/vfs_lockf.c\<close>. The locks of a file form a list (\<^verbatim>\<open>ls_locks\<close>) in which the locks
  of one owner are disjoint and in ascending order; requests that must wait are in a second list
  (\<^verbatim>\<open>ls_pending\<close>), each pointing to the lock that blocks it, and each lock has the list of the requests it
  blocks.

  A pointer into the list is the rest of the list from there on, so a loop that walks the list carries the part
  it has passed. The address of a lock is its field \<open>lf_addr\<close>. A failed \<^verbatim>\<open>KASSERT\<close> or a \<^verbatim>\<open>panic\<close> is \<open>None\<close>.
  File offsets are integers: \<^verbatim>\<open>lf_advlock\<close> keeps them within \<^verbatim>\<open>off_t\<close>, and -1 is the end of a lock that extends to
  the end of the file.
\<close>

section \<open>Locks\<close>

datatype lf_type = F_RDLCK | F_UNLCK | F_WRLCK

definition F_WAIT :: u16 where [kern_defs]: "F_WAIT = 0x10"
definition F_FLOCK :: u16 where [kern_defs]: "F_FLOCK = 0x20"
definition F_POSIX :: u16 where [kern_defs]: "F_POSIX = 0x40"
definition F_INTR :: u16 where [kern_defs]: "F_INTR = 0x80"

record lockf =
  lf_addr :: nat
  lf_flags :: u16
  lf_type :: lf_type
  lf_start :: int
  lf_end :: int
  lf_id :: nat
  lf_blk :: "nat option"
  lf_blkhd :: "nat list"
  lf_uid :: nat
  lf_pid :: int

text \<open>
  \<^verbatim>\<open>struct lockf_state\<close> with what the operations change beside it: the number of locks of each user
  (\<^verbatim>\<open>ui_lockcnt\<close>), the sleepers woken (\<^verbatim>\<open>wakeup_one\<close> of a request, latest last), how often the thread that
  purges the locks has been woken (\<^verbatim>\<open>wakeup_one\<close> of the state) and the next free address. \<open>ui_elsewhere\<close> is the
  part of \<^verbatim>\<open>ui_lockcnt\<close> that is due to other files: no operation on this file reads or changes it. The state does
  not exist (\<^verbatim>\<open>*state\<close> is NULL) when its reference count is 0.
\<close>

record lockf_state =
  ls_locks :: "lockf list"
  ls_pending :: "lockf list"
  ls_refs :: int
  ls_woken :: "nat list"
  ls_purger_woken :: nat
  ui_lockcnt :: "nat \<Rightarrow> int"
  ui_elsewhere :: "nat \<Rightarrow> int"
  ls_next :: nat

definition ls_ref :: "lockf_state \<Rightarrow> lockf_state" where
  "ls_ref ls = ls\<lparr>ls_refs := ls_refs ls + 1\<rparr>"

text \<open>\<^verbatim>\<open>ls_rele\<close>, given the locks on the list at that moment.\<close>

definition ls_rele :: "lockf list \<Rightarrow> lockf_state \<Rightarrow> lockf_state option" where
  "ls_rele locks ls =
     (let ls' = ls\<lparr>ls_refs := ls_refs ls - 1\<rparr> in
      if ls_refs ls' > 0 then Some ls'
      else if locks = [] \<and> ls_pending ls' = [] then Some ls' else None)"

definition maxlocksperuid :: int where [kern_defs]: "maxlocksperuid = 1024"

definition lf_alloc :: "nat \<Rightarrow> nat \<Rightarrow> lockf_state \<Rightarrow> (nat \<times> lockf_state) option" where
  "lf_alloc uid allowfail ls =
     (if uid \<noteq> 0 \<and> allowfail \<noteq> 0 \<and>
         ui_lockcnt ls uid > (if allowfail = 1 then maxlocksperuid else maxlocksperuid * 2)
      then None
      else Some (ls_next ls, ls\<lparr>ui_lockcnt := (ui_lockcnt ls)(uid := ui_lockcnt ls uid + 1), ls_next := ls_next ls + 1\<rparr>))"

definition lf_free :: "lockf \<Rightarrow> lockf list \<Rightarrow> lockf_state \<Rightarrow> lockf_state option" where
  "lf_free lock locks ls =
     (if lf_blkhd lock \<noteq> [] then None
      else do {
        ls' \<leftarrow> ls_rele locks ls;
        Some (ls'\<lparr>ui_lockcnt := (ui_lockcnt ls')(lf_uid lock := ui_lockcnt ls' (lf_uid lock) - 1)\<rparr>)
      })"

section \<open>Overlaps\<close>

datatype ovtype = SELF | OTHERS

datatype ovcase = Ov0 | Ov1 | Ov2 | Ov3 | Ov4 | Ov5

text \<open>The six cases for one lock of the list, and the panic when none applies.\<close>

definition lf_ovcase :: "lockf \<Rightarrow> lockf \<Rightarrow> ovcase option" where
  "lf_ovcase lf lock =
     (let start = lf_start lock; stop = lf_end lock in
      if (lf_end lf \<noteq> -1 \<and> start > lf_end lf) \<or> (stop \<noteq> -1 \<and> lf_start lf > stop) then Some Ov0
      else if lf_start lf = start \<and> lf_end lf = stop then Some Ov1
      else if lf_start lf \<le> start \<and> (lf_end lf = -1 \<or> (stop \<noteq> -1 \<and> lf_end lf \<ge> stop)) then Some Ov2
      else if start \<le> lf_start lf \<and> (stop = -1 \<or> (lf_end lf \<noteq> -1 \<and> stop \<ge> lf_end lf)) then Some Ov3
      else if lf_start lf < start \<and> (lf_end lf \<ge> start \<or> lf_end lf = -1) then Some Ov4
      else if lf_start lf > start \<and> stop \<noteq> -1 \<and> (lf_end lf > stop \<or> lf_end lf = -1) then Some Ov5
      else None)"

text \<open>
  \<^verbatim>\<open>lf_findoverlap\<close>: the case, the locks passed, and the list from \<^verbatim>\<open>*overlap\<close> on (empty for NULL).
\<close>

fun lf_findoverlap :: "lockf list \<Rightarrow> lockf \<Rightarrow> ovtype \<Rightarrow> (ovcase \<times> lockf list \<times> lockf list) option" where
  "lf_findoverlap [] lock type = Some (Ov0, [], [])"
| "lf_findoverlap (lf # lfs) lock type =
     (if (type = SELF \<and> lf_id lf \<noteq> lf_id lock) \<or> (type = OTHERS \<and> lf_id lf = lf_id lock)
      then map_option (\<lambda>(c, pre, rest). (c, lf # pre, rest)) (lf_findoverlap lfs lock type)
      else (case lf_ovcase lf lock of
              None \<Rightarrow> None
            | Some Ov0 \<Rightarrow>
                if type = SELF \<and> lf_end lock \<noteq> -1 \<and> lf_start lf > lf_end lock
                then Some (Ov0, [], lf # lfs)
                else map_option (\<lambda>(c, pre, rest). (c, lf # pre, rest)) (lf_findoverlap lfs lock type)
            | Some c \<Rightarrow> Some (c, [], lf # lfs)))"

lemma lf_findoverlap_append:
  "lf_findoverlap l lock type = Some (c, pre, rest) \<Longrightarrow> l = pre @ rest"
  by (induction l arbitrary: c pre rest) (auto split: if_splits option.splits ovcase.splits)

lemma lf_findoverlap_rest:
  "lf_findoverlap l lock type = Some (c, pre, rest) \<Longrightarrow> c \<noteq> Ov0 \<Longrightarrow> rest \<noteq> []"
  by (induction l arbitrary: c pre rest) (auto split: if_splits option.splits ovcase.splits)

text \<open>\<^verbatim>\<open>lf_getblock\<close>: the list from the first blocking lock on.\<close>

definition lf_blocks :: "lockf \<Rightarrow> lockf \<Rightarrow> bool" where
  "lf_blocks overlap lock \<longleftrightarrow> lf_type lock = F_WRLCK \<or> lf_type overlap = F_WRLCK"

function lf_getblock :: "lockf list \<Rightarrow> lockf \<Rightarrow> lockf list option" where
  "lf_getblock lf lock =
     (case lf_findoverlap lf lock OTHERS of
        None \<Rightarrow> None
      | Some (c, pre, rest) \<Rightarrow>
          if c = Ov0 then Some []
          else if lf_blocks (hd rest) lock then Some rest
          else lf_getblock (tl rest) lock)"
  by pat_completeness auto
termination
proof (relation "measure (\<lambda>(lf, lock). length lf)", goal_cases)
  case (2 lf lock r c q pre rest)
  then have "lf_findoverlap lf lock OTHERS = Some (c, pre, rest)" by simp
  from lf_findoverlap_append [OF this] lf_findoverlap_rest [OF this] 2 show ?case by (cases rest) auto
qed simp

declare lf_getblock.simps [simp del]

section \<open>Waking and splitting\<close>

definition lf_on_pending :: "nat \<Rightarrow> (lockf \<Rightarrow> lockf) \<Rightarrow> lockf_state \<Rightarrow> lockf_state" where
  "lf_on_pending a f ls = ls\<lparr>ls_pending := map (\<lambda>p. if lf_addr p = a then f p else p) (ls_pending ls)\<rparr>"

text \<open>The loop of \<^verbatim>\<open>lf_wakelock\<close> over the blocked requests, given by their addresses.\<close>

fun lf_wake_list :: "nat list \<Rightarrow> u16 \<Rightarrow> lockf_state \<Rightarrow> lockf_state" where
  "lf_wake_list [] flags ls = ls"
| "lf_wake_list (a # as) flags ls =
     (let ls' = lf_on_pending a (\<lambda>p. p\<lparr>lf_blk := None, lf_flags := lf_flags p OR flags\<rparr>) ls
      in lf_wake_list as flags (ls'\<lparr>ls_woken := ls_woken ls' @ [a]\<rparr>))"

definition lf_wakelock :: "lockf \<Rightarrow> u16 \<Rightarrow> lockf_state \<Rightarrow> lockf \<times> lockf_state" where
  "lf_wakelock lock flags ls = (lock\<lparr>lf_blkhd := []\<rparr>, lf_wake_list (lf_blkhd lock) flags ls)"

text \<open>
  \<^verbatim>\<open>lf_split\<close>: the locks that replace \<open>lock1\<close> on the list, \<open>lock2\<close> among them. The allocation cannot fail
  (\<^verbatim>\<open>allowfail\<close> is 0).
\<close>

definition lf_split :: "lockf \<Rightarrow> lockf \<Rightarrow> lockf_state \<Rightarrow> (lockf list \<times> lockf_state) option" where
  "lf_split lock1 lock2 ls =
     (if lf_start lock1 = lf_start lock2
      then Some ([lock2, lock1\<lparr>lf_start := lf_end lock2 + 1\<rparr>], ls)
      else if lf_end lock1 = lf_end lock2
      then Some ([lock1\<lparr>lf_end := lf_start lock2 - 1\<rparr>, lock2], ls)
      else do {
        (a, ls1) \<leftarrow> lf_alloc (lf_uid lock1) 0 ls;
        let splitlock = \<lparr>lf_addr = a, lf_flags = lf_flags lock1, lf_type = lf_type lock1,
              lf_start = lf_end lock2 + 1, lf_end = lf_end lock1, lf_id = lf_id lock1,
              lf_blk = None, lf_blkhd = [], lf_uid = lf_uid lock1, lf_pid = lf_pid lock1\<rparr>;
        Some ([lock1\<lparr>lf_end := lf_start lock2 - 1\<rparr>, lock2, splitlock], ls_ref ls1)
      })"

section \<open>Unlocking\<close>

definition lf_remove :: "lockf \<Rightarrow> lockf list \<Rightarrow> lockf list" where
  "lf_remove lock l = filter (\<lambda>x. lf_addr x \<noteq> lf_addr lock) l"

text \<open>The loop of \<^verbatim>\<open>lf_clearlock\<close>: \<open>pre\<close> has been passed, \<open>lf\<close> is the list from the pointer on.\<close>

function lf_clearlock_loop :: "lockf \<Rightarrow> lockf list \<Rightarrow> lockf list \<Rightarrow> lockf_state \<Rightarrow> (lockf list \<times> lockf_state) option" where
  "lf_clearlock_loop lock pre lf ls =
     (case lf_findoverlap lf lock SELF of
        None \<Rightarrow> None
      | Some (c, skipped, rest) \<Rightarrow>
          if c = Ov0 then Some (pre @ lf, ls)
          else
            let pre = pre @ skipped; post = tl rest;
                (overlap, ls) = lf_wakelock (hd rest) 0 ls
            in (case c of
                  Ov1 \<Rightarrow> map_option (Pair (pre @ post)) (lf_free overlap (pre @ post) ls)
                | Ov2 \<Rightarrow>
                    if lf_start overlap = lf_start lock
                    then Some (pre @ overlap\<lparr>lf_start := lf_end lock + 1\<rparr> # post, ls)
                    else map_option (\<lambda>(pieces, ls'). (lf_remove lock (pre @ pieces @ post), ls')) (lf_split overlap lock ls)
                | Ov3 \<Rightarrow>
                    (case lf_free overlap (pre @ post) ls of
                       None \<Rightarrow> None
                     | Some ls' \<Rightarrow> lf_clearlock_loop lock pre post ls')
                | Ov4 \<Rightarrow> lf_clearlock_loop lock (pre @ [overlap\<lparr>lf_end := lf_start lock - 1\<rparr>]) post ls
                | _ \<Rightarrow> Some (pre @ overlap\<lparr>lf_start := lf_end lock + 1\<rparr> # post, ls)))"
  by pat_completeness auto
termination
proof (relation "measure (\<lambda>(lock, pre, lf, ls). length lf)", goal_cases)
  case 1
  then show ?case by simp
next
  case (2 lock pre lf ls r c q skipped rest)
  then have "lf_findoverlap lf lock SELF = Some (c, skipped, rest)" by simp
  from lf_findoverlap_append [OF this] lf_findoverlap_rest [OF this] 2 show ?case by (cases rest) auto
next
  case (3 lock pre lf ls r c q skipped rest)
  then have "lf_findoverlap lf lock SELF = Some (c, skipped, rest)" by simp
  from lf_findoverlap_append [OF this] lf_findoverlap_rest [OF this] 3 show ?case by (cases rest) auto
qed

declare lf_clearlock_loop.simps [simp del]

definition lf_clearlock :: "lockf \<Rightarrow> lockf_state \<Rightarrow> lockf_state option" where
  "lf_clearlock lock ls =
     map_option (\<lambda>(locks, ls'). ls'\<lparr>ls_locks := locks\<rparr>) (lf_clearlock_loop lock [] (ls_locks ls) ls)"

section \<open>Locking\<close>

definition lf_relink :: "lockf \<Rightarrow> lockf list \<Rightarrow> lockf list" where
  "lf_relink lock l = map (\<lambda>x. if lf_addr x = lf_addr lock then lock else x) l"

text \<open>Case 3 of the loop below hands the requests blocked by the overlap to the new lock.\<close>

fun lf_transfer_list :: "nat list \<Rightarrow> nat \<Rightarrow> lockf_state \<Rightarrow> lockf_state" where
  "lf_transfer_list [] a ls = ls"
| "lf_transfer_list (w # ws) a ls = lf_transfer_list ws a (lf_on_pending w (\<lambda>p. p\<lparr>lf_blk := Some a\<rparr>) ls)"

definition lf_transfer :: "lockf \<Rightarrow> lockf \<Rightarrow> lockf_state \<Rightarrow> lockf \<times> lockf \<times> lockf_state" where
  "lf_transfer overlap lock ls =
     (overlap\<lparr>lf_blkhd := []\<rparr>, lock\<lparr>lf_blkhd := lf_blkhd lock @ lf_blkhd overlap\<rparr>,
      lf_transfer_list (lf_blkhd overlap) (lf_addr lock) ls)"

definition lf_downgrades :: "lockf \<Rightarrow> lockf \<Rightarrow> bool" where
  "lf_downgrades lock overlap \<longleftrightarrow> lf_type lock = F_RDLCK \<and> lf_type overlap = F_WRLCK"

text \<open>
  The second loop of \<^verbatim>\<open>lf_setlock\<close>, once nothing blocks the request: \<open>needtolink\<close> says whether the lock is still
  to be put on the list; once it is, its copy in \<open>pre\<close> is kept equal to it.
\<close>

definition lf_set_case1 :: "lockf \<Rightarrow> lockf list \<Rightarrow> lockf \<Rightarrow> lockf list \<Rightarrow> lockf_state \<Rightarrow> (lockf list \<times> lockf_state) option" where
  "lf_set_case1 lock pre overlap post ls =
     (let (ov, ls) = (if lf_downgrades lock overlap then lf_wakelock overlap 0 ls else (overlap, ls));
          locks = pre @ ov\<lparr>lf_type := lf_type lock\<rparr> # post
      in map_option (Pair locks) (lf_free lock locks ls))"

definition lf_set_case2 :: "bool \<Rightarrow> lockf \<Rightarrow> lockf list \<Rightarrow> lockf \<Rightarrow> lockf list \<Rightarrow> lockf_state \<Rightarrow> (lockf list \<times> lockf_state) option" where
  "lf_set_case2 needtolink lock pre overlap post ls =
     (let unlinked = (if needtolink then pre else lf_remove lock pre) in
      if lf_type overlap = lf_type lock
      then map_option (Pair (unlinked @ overlap # post)) (lf_free lock (unlinked @ overlap # post) ls)
      else let (ov, ls) = lf_wakelock overlap 0 ls in
        if lf_start overlap = lf_start lock
        then Some (unlinked @ lock # ov\<lparr>lf_start := lf_end lock + 1\<rparr> # post, ls)
        else map_option (\<lambda>(pieces, ls'). (pre @ pieces @ post, ls')) (lf_split ov lock ls))"

definition lf_set_case3 :: "lockf \<Rightarrow> lockf \<Rightarrow> lockf_state \<Rightarrow> lockf \<times> lockf \<times> lockf_state" where
  "lf_set_case3 lock overlap ls =
     (if lf_downgrades lock overlap
      then (let (ov, ls') = lf_wakelock overlap 0 ls in (ov, lock, ls'))
      else lf_transfer overlap lock ls)"

function lf_setlock_loop :: "bool \<Rightarrow> lockf \<Rightarrow> lockf list \<Rightarrow> lockf list \<Rightarrow> lockf_state \<Rightarrow> (lockf list \<times> lockf_state) option" where
  "lf_setlock_loop needtolink lock pre block ls =
     (case lf_findoverlap block lock SELF of
        None \<Rightarrow> None
      | Some (c, skipped, rest) \<Rightarrow>
          let pre = pre @ skipped in
          if c = Ov0 then Some ((if needtolink then pre @ lock # rest else pre @ rest), ls)
          else
            let overlap = hd rest; post = tl rest in
            (case c of
               Ov1 \<Rightarrow> lf_set_case1 lock pre overlap post ls
             | Ov2 \<Rightarrow> lf_set_case2 needtolink lock pre overlap post ls
             | Ov3 \<Rightarrow>
                 let (ov, lock', ls') = lf_set_case3 lock overlap ls;
                     pre' = (if needtolink then pre @ [lock'] else lf_relink lock' pre)
                 in (case lf_free ov (pre' @ post) ls' of
                       None \<Rightarrow> None
                     | Some ls'' \<Rightarrow> lf_setlock_loop False lock' pre' post ls'')
             | Ov4 \<Rightarrow>
                 let (ov, ls') = lf_wakelock overlap 0 ls;
                     unlinked = (if needtolink then pre else lf_remove lock pre)
                 in lf_setlock_loop False lock (unlinked @ [ov\<lparr>lf_end := lf_start lock - 1\<rparr>, lock]) post ls'
             | _ \<Rightarrow>
                 let (ov, ls') = lf_wakelock overlap 0 ls;
                     linked = (if needtolink then pre @ [lock] else pre)
                 in Some (linked @ ov\<lparr>lf_start := lf_end lock + 1\<rparr> # post, ls')))"
  by pat_completeness auto
termination
proof (relation "measure (\<lambda>(n, lock, pre, block, ls). length block)", goal_cases)
  case 1
  then show ?case by simp
next
  case (2 n lock pre lf ls r c q skipped rest)
  then have "lf_findoverlap lf lock SELF = Some (c, skipped, rest)" by simp
  from lf_findoverlap_append [OF this] lf_findoverlap_rest [OF this] 2 show ?case by (cases rest) auto
next
  case (3 n lock pre lf ls r c q skipped rest)
  then have "lf_findoverlap lf lock SELF = Some (c, skipped, rest)" by simp
  from lf_findoverlap_append [OF this] lf_findoverlap_rest [OF this] 3 show ?case by (cases rest) auto
qed

declare lf_setlock_loop.simps [simp del]

text \<open>
  \<^verbatim>\<open>lf_deadlock\<close>. The pointer \<^verbatim>\<open>lf_blk\<close> of a pending request is looked up on the list of locks, where it points
  (\<open>lf_waiting\<close> in the theory \<open>Lockf_Wait\<close>).
\<close>

definition lf_pending_cycle :: "lockf_state \<Rightarrow> lockf \<Rightarrow> lockf \<Rightarrow> bool" where
  "lf_pending_cycle ls block lock =
     list_ex (\<lambda>p. case lf_blk p of
         None \<Rightarrow> False
       | Some a \<Rightarrow> lf_pid p = lf_pid block \<and>
           list_ex (\<lambda>b. lf_addr b = a \<and> lf_pid b = lf_pid lock) (ls_locks ls)) (ls_pending ls)"

lemma lf_getblock_length: "lf_getblock l lock = Some (b # rest) \<Longrightarrow> length rest < length l"
proof (induction l lock rule: lf_getblock.induct)
  case (1 l lock)
  from 1(2) obtain c pre r where f: "lf_findoverlap l lock OTHERS = Some (c, pre, r)"
    by (subst (asm) lf_getblock.simps) (auto split: option.splits)
  note app = lf_findoverlap_append [OF f] and ne = lf_findoverlap_rest [OF f]
  show ?case
  proof (cases "c = Ov0 \<or> lf_blocks (hd r) lock")
    case True
    then show ?thesis using 1(2) f app by (subst (asm) lf_getblock.simps) (auto split: if_splits)
  next
    case False
    then have "lf_getblock (tl r) lock = Some (b # rest)"
      using 1(2) f by (subst (asm) lf_getblock.simps) simp
    from 1(1) [OF f refl refl _ _ this] False ne app show ?thesis by (cases r) auto
  qed
qed

function lf_deadlock_loop :: "lockf list \<Rightarrow> lockf \<Rightarrow> lockf_state \<Rightarrow> bool option" where
  "lf_deadlock_loop lf lock ls =
     (case lf_getblock lf lock of
        None \<Rightarrow> None
      | Some [] \<Rightarrow> Some False
      | Some (block # rest) \<Rightarrow>
          if lf_flags block AND F_POSIX \<noteq> 0 \<and> lf_pending_cycle ls block lock then Some True
          else lf_deadlock_loop rest lock ls)"
  by pat_completeness auto
termination by (relation "measure (\<lambda>(lf, lock, ls). length lf)") (auto dest: lf_getblock_length)

declare lf_deadlock_loop.simps [simp del]

definition lf_deadlock :: "lockf \<Rightarrow> lockf_state \<Rightarrow> bool option" where
  "lf_deadlock lock ls = lf_deadlock_loop (ls_locks ls) lock ls"

text \<open>
  \<^verbatim>\<open>lf_setlock\<close> up to its return or its sleep: \<open>Lf_sleep\<close> leaves the request on the list of pending ones and on
  that of the lock that blocks it.
\<close>

datatype lf_result = Lf_ok | Lf_errno errno | Lf_sleep

definition lf_enqueue :: "lockf \<Rightarrow> lockf \<Rightarrow> lockf_state \<Rightarrow> lockf_state" where
  "lf_enqueue lock block ls =
     ls\<lparr>ls_locks := map (\<lambda>x. if lf_addr x = lf_addr block then x\<lparr>lf_blkhd := lf_blkhd x @ [lf_addr lock]\<rparr> else x) (ls_locks ls),
        ls_pending := ls_pending ls @ [lock\<lparr>lf_blk := Some (lf_addr block)\<rparr>]\<rparr>"

definition lf_setlock :: "lockf \<Rightarrow> lockf_state \<Rightarrow> (lf_result \<times> lockf_state) option" where
  "lf_setlock lock ls =
     (case lf_getblock (ls_locks ls) lock of
        None \<Rightarrow> None
      | Some [] \<Rightarrow>
          map_option (\<lambda>(locks, ls'). (Lf_ok, ls'\<lparr>ls_locks := locks\<rparr>)) (lf_setlock_loop True lock [] (ls_locks ls) ls)
      | Some (block # _) \<Rightarrow>
          if lf_flags lock AND F_WAIT = 0
          then map_option (Pair (Lf_errno EAGAIN)) (lf_free lock (ls_locks ls) ls)
          else do {
            dead \<leftarrow> (if lf_flags lock AND F_POSIX \<noteq> 0 then lf_deadlock lock ls else Some False);
            if dead
            then map_option (Pair (Lf_errno EDEADLK)) (lf_free lock (ls_locks ls) ls)
            else do {
              ls' \<leftarrow> (if lf_flags lock AND F_FLOCK \<noteq> 0 \<and> lf_type lock = F_WRLCK
                     then lf_clearlock (lock\<lparr>lf_type := F_UNLCK\<rparr>) ls else Some ls);
              Some (Lf_sleep, lf_enqueue lock block ls')
            }
          })"

text \<open>
  What a request does when its sleep ends, with the error of the sleep if any: it leaves the pending list and the
  list of its blocker if it is still there, and starts over unless it was interrupted. \<open>p\<close> is the request as it
  stands on the pending list.
\<close>

definition lf_unblock :: "lockf \<Rightarrow> lockf_state \<Rightarrow> lockf_state" where
  "lf_unblock p ls =
     ls\<lparr>ls_pending := lf_remove p (ls_pending ls), ls_purger_woken := ls_purger_woken ls + 1,
        ls_locks := (case lf_blk p of
            None \<Rightarrow> ls_locks ls
          | Some b \<Rightarrow> map (\<lambda>x. if lf_addr x = b then x\<lparr>lf_blkhd := remove1 (lf_addr p) (lf_blkhd x)\<rparr> else x) (ls_locks ls))\<rparr>"

definition lf_setlock_resume :: "lockf \<Rightarrow> errno option \<Rightarrow> lockf_state \<Rightarrow> (lf_result \<times> lockf_state) option" where
  "lf_setlock_resume p err ls =
     (let ls' = lf_unblock p ls; lock = p\<lparr>lf_blk := None\<rparr> in
      case err of
        Some e \<Rightarrow> map_option (Pair (Lf_errno e)) (lf_free lock (ls_locks ls') ls')
      | None \<Rightarrow>
          if lf_flags lock AND F_INTR \<noteq> 0
          then map_option (Pair (Lf_errno EINTR)) (lf_free lock (ls_locks ls') ls')
          else lf_setlock lock ls')"

section \<open>Queries, purging and the entry point\<close>

record flock =
  l_start :: int
  l_len :: int
  l_pid :: int
  l_type :: lf_type
  l_whence :: nat

definition lf_getlock :: "lockf \<Rightarrow> flock \<Rightarrow> lockf_state \<Rightarrow> flock option" where
  "lf_getlock lock fl ls =
     (case lf_getblock (ls_locks ls) lock of
        None \<Rightarrow> None
      | Some [] \<Rightarrow> Some (fl\<lparr>l_type := F_UNLCK\<rparr>)
      | Some (block # _) \<Rightarrow>
          Some (fl\<lparr>l_type := lf_type block, l_whence := 0, l_start := lf_start block,
                   l_len := (if lf_end block = -1 then 0 else lf_end block - lf_start block + 1),
                   l_pid := lf_pid block\<rparr>))"

text \<open>
  \<^verbatim>\<open>lf_purgelocks\<close> does nothing without a state. Otherwise it interrupts every blocked request
  (\<open>lf_purge_wake\<close>) and sleeps until the pending list is empty; then it removes the locks (\<open>lf_purge_finish\<close>).
\<close>

definition lf_purge_wake :: "lockf_state \<Rightarrow> lockf_state" where
  "lf_purge_wake ls =
     (if ls_refs ls = 0 then ls else
      let ls' = fold (\<lambda>lock st. snd (lf_wakelock lock F_INTR st)) (ls_locks ls) (ls_ref ls)
      in ls'\<lparr>ls_locks := map (\<lambda>lock. lock\<lparr>lf_blkhd := []\<rparr>) (ls_locks ls)\<rparr>)"

fun lf_purge_free :: "lockf list \<Rightarrow> lockf_state \<Rightarrow> lockf_state option" where
  "lf_purge_free [] ls = Some ls"
| "lf_purge_free (lock # locks) ls =
     (case lf_free lock locks ls of
        None \<Rightarrow> None
      | Some ls' \<Rightarrow> lf_purge_free locks (ls'\<lparr>ls_locks := locks\<rparr>))"

definition lf_purge_finish :: "lockf_state \<Rightarrow> lockf_state option" where
  "lf_purge_finish ls =
     (if ls_refs ls = 0 then Some ls else
      case lf_purge_free (ls_locks ls) ls of
        None \<Rightarrow> None
      | Some ls' \<Rightarrow> if ls_refs ls' = 1 then ls_rele [] ls' else None)"

text \<open>
  \<^verbatim>\<open>lf_advlock\<close>: first the range in bytes, then the operation. The sum for \<^verbatim>\<open>SEEK_END\<close> is exact here; in C it
  overflows when the file size and the offset exceed the range of \<^verbatim>\<open>off_t\<close>.
\<close>

definition LLONG_MAX :: int where [kern_defs]: "LLONG_MAX = 2 ^ 63 - 1"

definition lf_range :: "int \<Rightarrow> flock \<Rightarrow> errno + int \<times> int" where
  "lf_range fsize fl =
     (let whence = l_whence fl in
      if whence \<noteq> 0 \<and> whence \<noteq> 1 \<and> whence \<noteq> 2 then Inl EINVAL
      else let start = (if whence = 2 then fsize + l_start fl else l_start fl) in
        if start < 0 then Inl EINVAL
        else if l_len fl > 0
        then (if l_len fl - 1 > LLONG_MAX - start then Inl EOVERFLOW
              else let stop = start + (l_len fl - 1) in
                Inr (start, if stop = LLONG_MAX then -1 else stop))
        else if l_len fl < 0
        then (if start + l_len fl < 0 then Inl EINVAL
              else Inr (start + l_len fl, start - 1))
        else Inr (start, -1))"

datatype lf_op = Op_setlk | Op_unlck | Op_getlk | Op_other

text \<open>
  \<open>uid\<close> and \<open>pid\<close> are those of the calling process. The result is the outcome, the state and the \<^verbatim>\<open>struct
  flock\<close> handed back; the last step frees the request unless it was granted or sleeps.
\<close>

definition lf_request :: "nat \<Rightarrow> nat \<Rightarrow> lf_type \<Rightarrow> u16 \<Rightarrow> nat \<Rightarrow> int \<Rightarrow> int \<Rightarrow> int \<Rightarrow> lockf" where
  "lf_request a own type flags uid pid start stop =
     \<lparr>lf_addr = a, lf_flags = flags, lf_type = type, lf_start = start, lf_end = stop, lf_id = own,
      lf_blk = None, lf_blkhd = [], lf_uid = uid, lf_pid = (if flags AND F_POSIX \<noteq> 0 then pid else -1)\<rparr>"

definition lf_advlock ::
  "int \<Rightarrow> nat \<Rightarrow> lf_op \<Rightarrow> flock \<Rightarrow> u16 \<Rightarrow> nat \<Rightarrow> int \<Rightarrow> lockf_state \<Rightarrow> (lf_result \<times> flock \<times> lockf_state) option" where
  "lf_advlock fsize own opn fl flags uid pid ls =
     (case lf_range fsize fl of
        Inl e \<Rightarrow> Some (Lf_errno e, fl, ls)
      | Inr (start, stop) \<Rightarrow>
          if ls_refs ls = 0 \<and> opn \<noteq> Op_setlk then Some (Lf_ok, fl\<lparr>l_type := F_UNLCK\<rparr>, ls)
          else
            let ls1 = ls_ref ls in
            (case lf_alloc uid (if opn = Op_setlk then 1 else 2) ls1 of
               None \<Rightarrow> map_option (\<lambda>ls'. (Lf_errno ENOLCK, fl, ls')) (ls_rele (ls_locks ls1) ls1)
             | Some (a, ls2) \<Rightarrow>
                 let lock = lf_request a own (l_type fl) flags uid pid start stop in
                 (case opn of
                    Op_setlk \<Rightarrow> map_option (\<lambda>(r, ls'). (r, fl, ls')) (lf_setlock lock ls2)
                  | Op_unlck \<Rightarrow> do {
                      ls3 \<leftarrow> lf_clearlock lock ls2;
                      ls4 \<leftarrow> lf_free lock (ls_locks ls3) ls3;
                      Some (Lf_ok, fl, ls4) }
                  | Op_getlk \<Rightarrow> do {
                      fl' \<leftarrow> lf_getlock lock fl ls2;
                      ls3 \<leftarrow> lf_free lock (ls_locks ls2) ls2;
                      Some (Lf_ok, fl', ls3) }
                  | Op_other \<Rightarrow> do {
                      ls3 \<leftarrow> lf_free lock (ls_locks ls2) ls2;
                      Some (Lf_errno EINVAL, fl, ls3) })))"

section \<open>What the list of locks means\<close>

text \<open>The bytes a lock covers, and for each owner and byte the kind of lock held.\<close>

definition lf_covers :: "lockf \<Rightarrow> int \<Rightarrow> bool" where
  "lf_covers l x \<longleftrightarrow> lf_start l \<le> x \<and> (lf_end l = -1 \<or> x \<le> lf_end l)"

fun lf_holds :: "lockf list \<Rightarrow> nat \<Rightarrow> int \<Rightarrow> lf_type option" where
  "lf_holds [] i x = None"
| "lf_holds (l # ls) i x = (if lf_id l = i \<and> lf_covers l x then Some (lf_type l) else lf_holds ls i x)"

definition lf_wf :: "lockf \<Rightarrow> bool" where
  "lf_wf l \<longleftrightarrow> 0 \<le> lf_start l \<and> (lf_end l = -1 \<or> lf_start l \<le> lf_end l)"

text \<open>Locks of one owner are disjoint and ascending; those of different owners that share a byte are shared locks.\<close>

definition lf_before :: "lockf \<Rightarrow> lockf \<Rightarrow> bool" where
  "lf_before a b \<longleftrightarrow> lf_id a = lf_id b \<longrightarrow> lf_end a \<noteq> -1 \<and> lf_end a < lf_start b"

definition lf_sorted :: "lockf list \<Rightarrow> bool" where
  "lf_sorted l \<longleftrightarrow> (\<forall>x \<in> set l. lf_wf x) \<and> sorted_wrt lf_before l"

definition lf_compatible :: "lockf list \<Rightarrow> bool" where
  "lf_compatible l \<longleftrightarrow> (\<forall>i j x. i \<noteq> j \<longrightarrow> lf_holds l i x = Some F_WRLCK \<longrightarrow> lf_holds l j x = None)"

end
