(* ===== verification/Lockf_Set.thy ===== *)
theory Lockf_Set
  imports Lockf
begin

text \<open>
  The list of locks as a map from owners and bytes to lock types: what \<^verbatim>\<open>lf_findoverlap\<close> finds, and that the
  loops of \<^verbatim>\<open>lf_clearlock\<close> and \<^verbatim>\<open>lf_setlock\<close> change exactly the bytes of the request, for its owner only, and keep
  the list well formed.
\<close>

section \<open>Owners and bytes\<close>

lemma lf_holds_append: "lf_holds (xs @ ys) i x = (case lf_holds xs i x of None \<Rightarrow> lf_holds ys i x | Some t \<Rightarrow> Some t)"
  by (induction xs) auto

lemma lf_holds_None: "lf_holds l i x = None \<longleftrightarrow> (\<forall>e \<in> set l. lf_id e = i \<longrightarrow> \<not> lf_covers e x)"
  by (induction l) auto

lemma lf_holds_other: "\<forall>e \<in> set l. lf_id e \<noteq> i \<Longrightarrow> lf_holds l i x = None"
  by (simp add: lf_holds_None)

lemma lf_sorted_append:
  "lf_sorted (xs @ ys) \<longleftrightarrow> lf_sorted xs \<and> lf_sorted ys \<and> (\<forall>a \<in> set xs. \<forall>b \<in> set ys. lf_before a b)"
  by (auto simp: lf_sorted_def sorted_wrt_append)

lemma lf_sorted_Cons:
  "lf_sorted (a # xs) \<longleftrightarrow> lf_wf a \<and> lf_sorted xs \<and> (\<forall>b \<in> set xs. lf_before a b)"
  by (auto simp: lf_sorted_def)

lemma lf_sorted_Nil [simp]: "lf_sorted []"
  by (simp add: lf_sorted_def)

text \<open>A lock of the list covers no byte of the locks of its owner before and after it.\<close>

lemma lf_before_disjoint: "lf_before a b \<Longrightarrow> lf_id a = lf_id b \<Longrightarrow> \<not> (lf_covers a x \<and> lf_covers b x)"
  by (auto simp: lf_before_def lf_covers_def)

lemma lf_holds_at:
  assumes "lf_sorted (pre @ ov # post)" and "lf_covers ov x"
  shows "lf_holds pre (lf_id ov) x = None" and "lf_holds post (lf_id ov) x = None"
  using assms lf_before_disjoint [of _ ov x] lf_before_disjoint [of ov _ x]
  by (auto simp: lf_holds_None lf_sorted_append lf_sorted_Cons)

section \<open>Replacing and inserting\<close>

definition lf_inside :: "lockf \<Rightarrow> lockf \<Rightarrow> bool" where
  "lf_inside p ov \<longleftrightarrow> lf_wf p \<and> lf_id p = lf_id ov \<and> lf_start ov \<le> lf_start p \<and>
     (lf_end ov = -1 \<or> (lf_end p \<noteq> -1 \<and> lf_end p \<le> lf_end ov))"

lemma lf_sorted_replace:
  assumes "lf_sorted (pre @ ov # post)" and "\<forall>p \<in> set ps. lf_inside p ov" and "sorted_wrt lf_before ps"
  shows "lf_sorted (pre @ ps @ post)"
proof -
  have ps: "lf_sorted ps" using assms(2,3) by (auto simp: lf_sorted_def lf_inside_def)
  have "lf_before a p" if "a \<in> set pre" "p \<in> set ps" for a p
    using that assms(1,2) by (fastforce simp: lf_sorted_append lf_before_def lf_inside_def)
  moreover have "lf_before p b" if "b \<in> set post" "p \<in> set ps" for b p
    using that assms(1,2) by (fastforce simp: lf_sorted_append lf_sorted_Cons lf_before_def lf_inside_def)
  ultimately show ?thesis using assms(1) ps by (auto simp: lf_sorted_append lf_sorted_Cons)
qed

lemma lf_holds_replace:
  assumes "lf_sorted (pre @ ov # post)" and "\<forall>p \<in> set ps. lf_inside p ov"
  shows "lf_holds (pre @ ps @ post) i x =
    (if i = lf_id ov \<and> lf_covers ov x then lf_holds ps i x else lf_holds (pre @ ov # post) i x)"
proof (cases "i = lf_id ov \<and> lf_covers ov x")
  case True
  then show ?thesis using lf_holds_at [OF assms(1)] by (auto simp: lf_holds_append split: option.splits)
next
  case False
  then have "lf_holds ps i x = None"
    using assms(2) by (auto simp: lf_holds_None lf_inside_def lf_covers_def)
  then show ?thesis using False by (auto simp: lf_holds_append split: option.splits)
qed

lemma lf_sorted_insert:
  assumes "lf_sorted (A @ B)" and "lf_wf lock"
    and "\<forall>a \<in> set A. lf_before a lock" and "\<forall>b \<in> set B. lf_before lock b"
  shows "lf_sorted (A @ lock # B)"
  using assms by (auto simp: lf_sorted_append lf_sorted_Cons)

lemma lf_holds_insert:
  assumes "\<forall>a \<in> set A. lf_before a lock" and "\<forall>b \<in> set B. lf_before lock b"
  shows "lf_holds (A @ lock # B) i x =
    (if i = lf_id lock \<and> lf_covers lock x then Some (lf_type lock) else lf_holds (A @ B) i x)"
proof (cases "i = lf_id lock \<and> lf_covers lock x")
  case True
  then have "lf_holds A i x = None"
    using assms(1) lf_before_disjoint [of _ lock x] by (auto simp: lf_holds_None)
  with True show ?thesis by (simp add: lf_holds_append)
next
  case False
  then show ?thesis by (auto simp: lf_holds_append split: option.splits)
qed

section \<open>Overlap cases\<close>

text \<open>For well-formed ranges one of the six cases applies, and each says how the ranges lie.\<close>

lemma lf_ovcase_Some: "lf_wf lf \<Longrightarrow> lf_wf lock \<Longrightarrow> \<exists>c. lf_ovcase lf lock = Some c"
  by (auto simp: lf_ovcase_def lf_wf_def Let_def)

lemma lf_ovcase_0: "lf_ovcase lf lock = Some Ov0 \<Longrightarrow>
    lf_end lf \<noteq> -1 \<and> lf_end lf < lf_start lock \<or> lf_end lock \<noteq> -1 \<and> lf_end lock < lf_start lf"
  by (auto simp: lf_ovcase_def Let_def split: if_splits)

lemma lf_ovcase_1: "lf_ovcase lf lock = Some Ov1 \<Longrightarrow> lf_start lf = lf_start lock \<and> lf_end lf = lf_end lock"
  by (simp add: lf_ovcase_def Let_def split: if_splits)

lemma lf_ovcase_2: "lf_ovcase lf lock = Some Ov2 \<Longrightarrow> lf_start lf \<le> lf_start lock \<and>
    (lf_end lf = -1 \<or> lf_end lock \<noteq> -1 \<and> lf_end lock \<le> lf_end lf) \<and>
    (lf_start lf \<noteq> lf_start lock \<or> lf_end lf \<noteq> lf_end lock)"
  by (auto simp: lf_ovcase_def Let_def split: if_splits)

lemma lf_ovcase_3: "lf_ovcase lf lock = Some Ov3 \<Longrightarrow> lf_start lock \<le> lf_start lf \<and>
    (lf_end lock = -1 \<or> lf_end lf \<noteq> -1 \<and> lf_end lf \<le> lf_end lock)"
  by (auto simp: lf_ovcase_def Let_def split: if_splits)

lemma lf_ovcase_4: "lf_ovcase lf lock = Some Ov4 \<Longrightarrow> lf_wf lf \<Longrightarrow> lf_start lf < lf_start lock \<and> lf_end lf \<noteq> -1 \<and>
    lf_start lock \<le> lf_end lf \<and> (lf_end lock = -1 \<or> lf_end lf < lf_end lock)"
  by (auto simp: lf_ovcase_def lf_wf_def Let_def split: if_splits)

lemma lf_ovcase_5: "lf_ovcase lf lock = Some Ov5 \<Longrightarrow> lf_start lock < lf_start lf \<and> lf_end lock \<noteq> -1 \<and>
    lf_start lf \<le> lf_end lock \<and> (lf_end lf = -1 \<or> lf_end lock < lf_end lf)"
  by (auto simp: lf_ovcase_def Let_def split: if_splits)

lemma lf_ovcase_cases:
  assumes "lf_wf lf" and "lf_wf lock"
  obtains "lf_ovcase lf lock = Some Ov0" and "lf_end lf \<noteq> -1 \<and> lf_end lf < lf_start lock \<or> lf_end lock \<noteq> -1 \<and> lf_end lock < lf_start lf"
  | "lf_ovcase lf lock = Some Ov1" and "lf_start lf = lf_start lock" and "lf_end lf = lf_end lock"
  | "lf_ovcase lf lock = Some Ov2" and "lf_start lf \<le> lf_start lock"
      and "lf_end lf = -1 \<or> lf_end lock \<noteq> -1 \<and> lf_end lock \<le> lf_end lf"
      and "lf_start lf \<noteq> lf_start lock \<or> lf_end lf \<noteq> lf_end lock"
  | "lf_ovcase lf lock = Some Ov3" and "lf_start lock \<le> lf_start lf"
      and "lf_end lock = -1 \<or> lf_end lf \<noteq> -1 \<and> lf_end lf \<le> lf_end lock"
  | "lf_ovcase lf lock = Some Ov4" and "lf_start lf < lf_start lock" and "lf_end lf \<noteq> -1" and "lf_start lock \<le> lf_end lf"
      and "lf_end lock = -1 \<or> lf_end lf < lf_end lock"
  | "lf_ovcase lf lock = Some Ov5" and "lf_start lock < lf_start lf" and "lf_end lock \<noteq> -1" and "lf_start lf \<le> lf_end lock"
      and "lf_end lf = -1 \<or> lf_end lock < lf_end lf"
proof -
  obtain c where c: "lf_ovcase lf lock = Some c" using lf_ovcase_Some [OF assms] by blast
  show thesis
  proof (cases c)
    case Ov0
    then show thesis using c lf_ovcase_0 that(1) by blast
  next
    case Ov1
    then show thesis using c lf_ovcase_1 that(2) by blast
  next
    case Ov2
    then show thesis using c lf_ovcase_2 that(3) by blast
  next
    case Ov3
    then show thesis using c lf_ovcase_3 that(4) by blast
  next
    case Ov4
    then show thesis using c lf_ovcase_4 [OF _ assms(1)] that(5) by blast
  next
    case Ov5
    then show thesis using c lf_ovcase_5 that(6) by blast
  qed
qed

section \<open>Finding overlaps\<close>

lemma lf_findoverlap_hit:
  assumes "lf_ovcase lf lock = Some c" and "c \<noteq> Ov0" and "type = SELF \<longleftrightarrow> lf_id lf = lf_id lock"
  shows "lf_findoverlap (lf # lfs) lock type = Some (c, [], lf # lfs)"
  using assms by (cases type; cases c) auto

text \<open>
  \<^verbatim>\<open>lf_findoverlap\<close> with \<^verbatim>\<open>SELF\<close> on a well-formed list never panics; the locks it passes end before the request or
  belong to others, and it stops at an overlap of the owner or where the owner's locks are beyond the request.
\<close>

lemma lf_findoverlap_self:
  assumes "lf_sorted l" and "lf_wf lock"
  shows "\<exists>c pre rest. lf_findoverlap l lock SELF = Some (c, pre, rest) \<and> l = pre @ rest \<and>
    (\<forall>a \<in> set pre. lf_before a lock) \<and>
    (c = Ov0 \<longrightarrow> (\<forall>b \<in> set rest. lf_before lock b)) \<and>
    (c \<noteq> Ov0 \<longrightarrow> rest \<noteq> [] \<and> lf_id (hd rest) = lf_id lock \<and> lf_ovcase (hd rest) lock = Some c)"
  using assms(1)
proof (induction l)
  case Nil
  then show ?case by simp
next
  case (Cons lf lfs)
  then obtain c pre rest where ih: "lf_findoverlap lfs lock SELF = Some (c, pre, rest)" "lfs = pre @ rest"
      "\<forall>a \<in> set pre. lf_before a lock" "c = Ov0 \<longrightarrow> (\<forall>b \<in> set rest. lf_before lock b)"
      "c \<noteq> Ov0 \<longrightarrow> rest \<noteq> [] \<and> lf_id (hd rest) = lf_id lock \<and> lf_ovcase (hd rest) lock = Some c"
    by (auto simp: lf_sorted_Cons)
  have wf: "lf_wf lf" using Cons.prems by (simp add: lf_sorted_Cons)
  have pass: ?case if "lf_findoverlap (lf # lfs) lock SELF = map_option (\<lambda>(c, pre, rest). (c, lf # pre, rest)) (lf_findoverlap lfs lock SELF)"
    "lf_before lf lock"
    using that ih by (intro exI [of _ c] exI [of _ "lf # pre"] exI [of _ rest]) auto
  show ?case
  proof (cases "lf_id lf = lf_id lock")
    case False
    then show ?thesis by (intro pass) (simp_all add: lf_before_def)
  next
    case own: True
    show ?thesis
    proof (cases "lf_ovcase lf lock = Some Ov0")
      case True
      show ?thesis
      proof (cases "lf_end lock \<noteq> -1 \<and> lf_end lock < lf_start lf")
        case beyond: True
        have "lf_before lock b" if "b \<in> set (lf # lfs)" for b
          using that beyond own wf Cons.prems by (auto simp: lf_before_def lf_sorted_Cons lf_wf_def)
        then show ?thesis using True beyond own by (intro exI [of _ Ov0] exI [of _ "[]"] exI [of _ "lf # lfs"]) simp
      next
        case False
        have "lf_before lf lock"
          using True False wf assms(2) by (auto simp: lf_ovcase_def lf_before_def Let_def split: if_splits)
        then show ?thesis using True False own by (intro pass) auto
      qed
    next
      case False
      then obtain c where c: "lf_ovcase lf lock = Some c" "c \<noteq> Ov0"
        using lf_ovcase_Some [OF wf assms(2)] by auto
      then have "lf_findoverlap (lf # lfs) lock SELF = Some (c, [], lf # lfs)"
        using own by (intro lf_findoverlap_hit) simp_all
      then show ?thesis using c own by simp
    qed
  qed
qed

text \<open>The same with the disjuncts spelled out, for the walks below.\<close>

lemma lf_findoverlap_selfE:
  assumes "lf_sorted l" and "lf_wf lock"
  obtains (beyond) pre rest where "lf_findoverlap l lock SELF = Some (Ov0, pre, rest)" and "l = pre @ rest"
      and "\<forall>a \<in> set pre. lf_before a lock" and "\<forall>b \<in> set rest. lf_before lock b"
    | (overlap) c pre ov post where "lf_findoverlap l lock SELF = Some (c, pre, ov # post)" and "l = pre @ ov # post"
      and "\<forall>a \<in> set pre. lf_before a lock" and "c \<noteq> Ov0" and "lf_id ov = lf_id lock" and "lf_ovcase ov lock = Some c"
      and "lf_wf ov"
proof -
  from lf_findoverlap_self [OF assms] obtain c pre rest where f: "lf_findoverlap l lock SELF = Some (c, pre, rest)"
      "l = pre @ rest" "\<forall>a \<in> set pre. lf_before a lock" "c = Ov0 \<longrightarrow> (\<forall>b \<in> set rest. lf_before lock b)"
      "c \<noteq> Ov0 \<longrightarrow> rest \<noteq> [] \<and> lf_id (hd rest) = lf_id lock \<and> lf_ovcase (hd rest) lock = Some c" by blast
  show thesis
  proof (cases "c = Ov0")
    case True
    then show thesis using f beyond [of pre rest] by simp
  next
    case False
    then obtain ov post where "rest = ov # post" using f(5) by (cases rest) auto
    then show thesis using f False assms(1) overlap [of c pre ov post] by (simp add: lf_sorted_append lf_sorted_Cons)
  qed
qed

text \<open>
  \<^verbatim>\<open>lf_findoverlap\<close> with \<^verbatim>\<open>OTHERS\<close> finds the first lock of another owner that shares a byte with the request.
\<close>

definition lf_overlaps :: "lockf \<Rightarrow> lockf \<Rightarrow> bool" where
  "lf_overlaps a b \<longleftrightarrow> (\<exists>x. lf_covers a x \<and> lf_covers b x)"

lemma lf_ovcase_overlaps:
  assumes "lf_wf lf" and "lf_wf lock"
  shows "lf_ovcase lf lock = Some Ov0 \<longleftrightarrow> \<not> lf_overlaps lf lock"
proof -
  let ?x = "max (lf_start lf) (lf_start lock)"
  have "lf_covers lf ?x \<and> lf_covers lock ?x" if "lf_ovcase lf lock \<noteq> Some Ov0"
  proof -
    have "\<not> (lf_end lf \<noteq> -1 \<and> lf_start lock > lf_end lf)" "\<not> (lf_end lock \<noteq> -1 \<and> lf_start lf > lf_end lock)"
      using that unfolding lf_ovcase_def Let_def by presburger+
    then show ?thesis using assms unfolding lf_covers_def lf_wf_def by linarith
  qed
  moreover have "\<not> (lf_covers lf x \<and> lf_covers lock x)" if "lf_ovcase lf lock = Some Ov0" for x
    using that by (auto simp: lf_ovcase_def lf_covers_def Let_def split: if_splits)
  ultimately show ?thesis unfolding lf_overlaps_def by blast
qed

lemma lf_findoverlap_others:
  assumes "\<forall>x \<in> set l. lf_wf x" and "lf_wf lock"
  shows "\<exists>c pre rest. lf_findoverlap l lock OTHERS = Some (c, pre, rest) \<and> l = pre @ rest \<and>
    (\<forall>a \<in> set pre. lf_id a \<noteq> lf_id lock \<longrightarrow> \<not> lf_overlaps a lock) \<and>
    (c = Ov0 \<longrightarrow> rest = []) \<and>
    (c \<noteq> Ov0 \<longrightarrow> rest \<noteq> [] \<and> lf_id (hd rest) \<noteq> lf_id lock \<and> lf_overlaps (hd rest) lock)"
  using assms(1)
proof (induction l)
  case Nil
  then show ?case by simp
next
  case (Cons lf lfs)
  then obtain c pre rest where ih: "lf_findoverlap lfs lock OTHERS = Some (c, pre, rest)" "lfs = pre @ rest"
      "\<forall>a \<in> set pre. lf_id a \<noteq> lf_id lock \<longrightarrow> \<not> lf_overlaps a lock" "c = Ov0 \<longrightarrow> rest = []"
      "c \<noteq> Ov0 \<longrightarrow> rest \<noteq> [] \<and> lf_id (hd rest) \<noteq> lf_id lock \<and> lf_overlaps (hd rest) lock"
    by auto
  have wf: "lf_wf lf" using Cons.prems by simp
  show ?case
  proof (cases "lf_id lf = lf_id lock \<or> \<not> lf_overlaps lf lock")
    case True
    then have "lf_findoverlap (lf # lfs) lock OTHERS = Some (c, lf # pre, rest)"
      using ih(1) lf_ovcase_overlaps [OF wf assms(2)] by auto
    then show ?thesis
      using ih True by (intro exI [of _ c] exI [of _ "lf # pre"] exI [of _ rest]) auto
  next
    case False
    then obtain c where c: "lf_ovcase lf lock = Some c" "c \<noteq> Ov0"
      using lf_ovcase_Some [OF wf assms(2)] lf_ovcase_overlaps [OF wf assms(2)] by auto
    then have "lf_findoverlap (lf # lfs) lock OTHERS = Some (c, [], lf # lfs)"
      using False by (intro lf_findoverlap_hit) simp_all
    then show ?thesis using c False by simp
  qed
qed

text \<open>So \<^verbatim>\<open>lf_getblock\<close> finds the first lock that conflicts with the request.\<close>

definition lf_conflicts :: "lockf \<Rightarrow> lockf \<Rightarrow> bool" where
  "lf_conflicts a lock \<longleftrightarrow> lf_id a \<noteq> lf_id lock \<and> lf_overlaps a lock \<and> (lf_type lock = F_WRLCK \<or> lf_type a = F_WRLCK)"

lemma lf_getblock_spec:
  assumes "\<forall>x \<in> set l. lf_wf x" and "lf_wf lock"
  shows "lf_getblock l lock = Some (dropWhile (\<lambda>a. \<not> lf_conflicts a lock) l)"
  using assms(1)
proof (induction "length l" arbitrary: l rule: less_induct)
  case less
  from lf_findoverlap_others [OF less.prems assms(2)] obtain c pre rest where
    f: "lf_findoverlap l lock OTHERS = Some (c, pre, rest)" "l = pre @ rest"
      "\<forall>a \<in> set pre. lf_id a \<noteq> lf_id lock \<longrightarrow> \<not> lf_overlaps a lock" "c = Ov0 \<longrightarrow> rest = []"
      "c \<noteq> Ov0 \<longrightarrow> rest \<noteq> [] \<and> lf_id (hd rest) \<noteq> lf_id lock \<and> lf_overlaps (hd rest) lock" by blast
  have pre: "dropWhile (\<lambda>a. \<not> lf_conflicts a lock) l = dropWhile (\<lambda>a. \<not> lf_conflicts a lock) rest"
    unfolding f(2) using f(3) by (intro dropWhile_append2) (auto simp: lf_conflicts_def)
  show ?case
  proof (cases "c = Ov0")
    case True
    then show ?thesis using f(1,4) by (subst lf_getblock.simps) (simp add: pre)
  next
    case False
    then obtain ov post where r: "rest = ov # post" using f(5) by (cases rest) auto
    have "lf_conflicts ov lock \<longleftrightarrow> lf_blocks ov lock"
      using f(5) False r by (auto simp: lf_conflicts_def lf_blocks_def)
    moreover have "lf_getblock post lock = Some (dropWhile (\<lambda>a. \<not> lf_conflicts a lock) post)"
      using less f(2) r by simp
    ultimately show ?thesis using f(1) False r pre by (subst lf_getblock.simps) simp
  qed
qed

section \<open>Clearing\<close>

text \<open>
  Replacing an overlap of the owner by the pieces of it outside the request clears the bytes it shares with the
  request and no others.
\<close>

lemma lf_clear_step:
  assumes "lf_sorted (P @ ov # post)" and "lf_id ov = lf_id lock" and "\<forall>a \<in> set P. lf_before a lock"
    and "\<forall>p \<in> set ps. lf_inside p ov" and "sorted_wrt lf_before ps"
    and "\<And>x. lf_covers ov x \<Longrightarrow> lf_holds ps (lf_id lock) x = (if lf_covers lock x then None else Some (lf_type ov))"
  shows "lf_sorted (P @ ps @ post)"
    and "lf_holds (P @ ps @ post) i x =
      (if i = lf_id lock \<and> lf_covers lock x then lf_holds post i x else lf_holds (P @ ov # post) i x)"
proof -
  show "lf_sorted (P @ ps @ post)" by (rule lf_sorted_replace [OF assms(1,4,5)])
  have P: "lf_holds P i x = None" if "i = lf_id lock" "lf_covers lock x"
    using that assms(3) lf_before_disjoint [of _ lock x] by (auto simp: lf_holds_None)
  note repl = lf_holds_replace [OF assms(1,4), of i x]
  show "lf_holds (P @ ps @ post) i x =
      (if i = lf_id lock \<and> lf_covers lock x then lf_holds post i x else lf_holds (P @ ov # post) i x)"
  proof (cases "i = lf_id lock \<and> lf_covers ov x")
    case True
    then show ?thesis
      using repl assms(2) assms(6) [of x] lf_holds_at [OF assms(1), of x] P by (auto simp: lf_holds_append split: option.splits)
  next
    case False
    then show ?thesis using repl assms(2) P by (auto simp: lf_holds_append split: option.splits)
  qed
qed

text \<open>After an overlap that ends no earlier than the request, no lock of the owner overlaps it.\<close>

lemma lf_rest_beyond:
  assumes "lf_sorted (P @ ov # post)" and "lf_id ov = lf_id lock" and "lf_wf ov"
    and "lf_end ov = -1 \<or> lf_end lock \<noteq> -1 \<and> lf_end lock \<le> lf_end ov"
  shows "\<forall>b \<in> set post. lf_before lock b"
  using assms by (fastforce simp: lf_sorted_append lf_sorted_Cons lf_before_def)

lemma lf_holds_beyond: "\<forall>b \<in> set post. lf_before lock b \<Longrightarrow> lf_covers lock x \<Longrightarrow> lf_holds post (lf_id lock) x = None"
  using lf_before_disjoint [of lock _ x] by (auto simp: lf_holds_None)

lemma lf_holds_blkhd [simp]:
  "lf_covers (l\<lparr>lf_blkhd := v\<rparr>) x = lf_covers l x"
  "lf_before (l\<lparr>lf_blkhd := v\<rparr>) m = lf_before l m" "lf_before m (l\<lparr>lf_blkhd := v\<rparr>) = lf_before m l"
  "lf_wf (l\<lparr>lf_blkhd := v\<rparr>) = lf_wf l"
  "lf_ovcase (l\<lparr>lf_blkhd := v\<rparr>) m = lf_ovcase l m"
  by (simp_all add: lf_covers_def lf_before_def lf_wf_def lf_ovcase_def cong: if_cong)

lemma lf_sorted_blkhd [simp]:
  "lf_sorted (A @ l\<lparr>lf_blkhd := v\<rparr> # B) = lf_sorted (A @ l # B)"
  by (simp add: lf_sorted_append lf_sorted_Cons)

lemma lf_remove_id: "lf_addr lock \<notin> lf_addr ` set l \<Longrightarrow> lf_remove lock l = l"
  unfolding lf_remove_def by (rule filter_True) (metis image_eqI)

lemma lf_remove_append [simp]: "lf_remove lock (xs @ ys) = lf_remove lock xs @ lf_remove lock ys"
  by (simp add: lf_remove_def)

text \<open>The pieces of an overlap that contains the request in its interior or at its end.\<close>

lemma lf_split_spec:
  assumes "lf_split ov lock ls = Some (pieces, ls')" and "lf_start ov < lf_start lock" and "lf_wf ov" and "lf_wf lock"
    and "lf_id ov = lf_id lock" and "lf_end ov = -1 \<or> lf_end lock \<noteq> -1 \<and> lf_end lock \<le> lf_end ov"
  shows "\<exists>l tail. pieces = l # lock # tail \<and> l = ov\<lparr>lf_end := lf_start lock - 1\<rparr> \<and>
    (\<forall>t \<in> set tail. lf_before lock t \<and> lf_addr t = ls_next ls \<and> lf_blk t = None \<and> lf_blkhd t = []) \<and>
    lf_before l lock \<and> (\<forall>p \<in> set (l # tail). lf_inside p ov) \<and> sorted_wrt lf_before (l # tail) \<and>
    (\<forall>x. lf_covers ov x \<longrightarrow> lf_holds (l # tail) (lf_id lock) x = (if lf_covers lock x then None else Some (lf_type ov)))"
proof (cases "lf_end ov = lf_end lock")
  case True
  then show ?thesis
    using assms by (auto simp: lf_split_def lf_before_def lf_inside_def lf_wf_def lf_covers_def)
next
  case False
  then show ?thesis
    using assms by (auto simp: lf_split_def lf_alloc_def ls_ref_def lf_before_def lf_inside_def lf_wf_def lf_covers_def)
qed

text \<open>The loop of \<^verbatim>\<open>lf_clearlock\<close> clears exactly the request.\<close>

lemma lf_wakelock_fst [simp]: "fst (lf_wakelock l f ls) = l\<lparr>lf_blkhd := []\<rparr>"
  by (simp add: lf_wakelock_def)

lemma lf_wake_list_next [simp]: "ls_next (lf_wake_list as f ls) = ls_next ls"
  by (induction as f ls rule: lf_wake_list.induct) (simp_all add: Let_def lf_on_pending_def)

lemma lf_clearlock_loop_eq:
  assumes "lf_findoverlap lf lock SELF = Some (c, skipped, ov # post)" and "c \<noteq> Ov0"
  shows "lf_clearlock_loop lock pre lf ls =
    (let P = pre @ skipped; w = lf_wake_list (lf_blkhd ov) 0 ls; ov' = ov\<lparr>lf_blkhd := []\<rparr> in
     case c of
       Ov1 \<Rightarrow> map_option (Pair (P @ post)) (lf_free ov' (P @ post) w)
     | Ov2 \<Rightarrow>
         if lf_start ov = lf_start lock then Some (P @ ov'\<lparr>lf_start := lf_end lock + 1\<rparr> # post, w)
         else map_option (\<lambda>(pieces, ls'). (lf_remove lock (P @ pieces @ post), ls')) (lf_split ov' lock w)
     | Ov3 \<Rightarrow> Option.bind (lf_free ov' (P @ post) w) (lf_clearlock_loop lock P post)
     | Ov4 \<Rightarrow> lf_clearlock_loop lock (P @ [ov'\<lparr>lf_end := lf_start lock - 1\<rparr>]) post w
     | _ \<Rightarrow> Some (P @ ov'\<lparr>lf_start := lf_end lock + 1\<rparr> # post, w))"
  using assms by (subst lf_clearlock_loop.simps)
    (simp add: lf_wakelock_def Let_def split: ovcase.splits option.splits)

text \<open>
  One round of the loop at an overlap: the overlap is replaced by the pieces of it outside the request, and the
  loop ends if no later lock of the owner overlaps the request.
\<close>

definition lf_pieces :: "lockf list \<Rightarrow> lockf \<Rightarrow> lockf \<Rightarrow> bool" where
  "lf_pieces ps ov lock \<longleftrightarrow> (\<forall>p \<in> set ps. lf_inside p ov) \<and> sorted_wrt lf_before ps \<and>
     (\<forall>x. lf_covers ov x \<longrightarrow> lf_holds ps (lf_id lock) x = (if lf_covers lock x then None else Some (lf_type ov)))"

lemma lf_pieces_none: "lf_start lock \<le> lf_start ov \<Longrightarrow>
    lf_end lock = -1 \<or> lf_end ov \<noteq> -1 \<and> lf_end ov \<le> lf_end lock \<Longrightarrow> lf_pieces [] ov lock"
  by (auto simp: lf_pieces_def lf_covers_def)

lemma lf_pieces_right:
  "lf_wf ov \<Longrightarrow> lf_wf lock \<Longrightarrow> lf_id ov = lf_id lock \<Longrightarrow> lf_start lock \<le> lf_start ov \<Longrightarrow> lf_end lock \<noteq> -1 \<Longrightarrow>
   lf_start ov \<le> lf_end lock \<Longrightarrow> lf_end ov = -1 \<or> lf_end lock < lf_end ov \<Longrightarrow>
   lf_pieces [ov\<lparr>lf_blkhd := [], lf_start := lf_end lock + 1\<rparr>] ov lock"
  by (auto simp: lf_pieces_def lf_inside_def lf_wf_def lf_covers_def)

lemma lf_pieces_left:
  "lf_wf ov \<Longrightarrow> lf_id ov = lf_id lock \<Longrightarrow> lf_start ov < lf_start lock \<Longrightarrow> lf_end ov \<noteq> -1 \<Longrightarrow>
   lf_end lock = -1 \<or> lf_end ov \<le> lf_end lock \<Longrightarrow> lf_start lock \<le> lf_end ov \<Longrightarrow>
   lf_pieces [ov\<lparr>lf_blkhd := [], lf_end := lf_start lock - 1\<rparr>] ov lock"
  by (auto simp: lf_pieces_def lf_inside_def lf_wf_def lf_covers_def)

lemma lf_pieces_split:
  assumes "lf_split (ov\<lparr>lf_blkhd := []\<rparr>) lock ls = Some (pieces, ls')" and "lf_start ov < lf_start lock"
    and "lf_wf ov" and "lf_wf lock" and "lf_id ov = lf_id lock"
    and "lf_end ov = -1 \<or> lf_end lock \<noteq> -1 \<and> lf_end lock \<le> lf_end ov"
  obtains l tail where "pieces = l # lock # tail" and "l = ov\<lparr>lf_blkhd := [], lf_end := lf_start lock - 1\<rparr>"
    and "lf_pieces (l # tail) ov lock" and "lf_before l lock" and "\<forall>t \<in> set tail. lf_before lock t \<and> lf_addr t = ls_next ls"
  using lf_split_spec [OF assms(1)] assms(2-) that by (force simp: lf_pieces_def lf_inside_def)

lemma lf_free_next: "lf_free l locks ls = Some ls' \<Longrightarrow> ls_next ls' = ls_next ls"
  by (auto simp: lf_free_def ls_rele_def Let_def bind_eq_Some_conv split: if_splits)

lemma lf_clearlock_loop_round:
  assumes loop: "lf_clearlock_loop lock pre lf ls = Some (locks', ls')"
    and find: "lf_findoverlap lf lock SELF = Some (c, skipped, ov # post)" and c: "c \<noteq> Ov0" "lf_ovcase ov lock = Some c"
    and own: "lf_id ov = lf_id lock" and wf: "lf_wf ov" "lf_wf lock"
    and srt: "lf_sorted ((pre @ skipped) @ ov # post)"
    and addr: "lf_addr lock \<notin> lf_addr ` set ((pre @ skipped) @ ov # post)" "lf_addr lock < ls_next ls"
  obtains (stop) ps where "locks' = (pre @ skipped) @ ps @ post" and "lf_pieces ps ov lock" and "\<forall>b \<in> set post. lf_before lock b"
    | (again) ps v where "lf_clearlock_loop lock (pre @ skipped @ ps) post v = Some (locks', ls')" and "lf_pieces ps ov lock"
      and "\<forall>p \<in> set ps. lf_before p lock" and "lf_addr lock \<notin> lf_addr ` set ps" and "ls_next v = ls_next ls"
proof -
  define P where "P = pre @ skipped"
  define w where "w = lf_wake_list (lf_blkhd ov) 0 ls"
  have "lf_addr lock \<notin> lf_addr ` set P" "lf_addr lock \<notin> lf_addr ` set post" "lf_addr lock \<noteq> lf_addr ov"
    using addr(1) by (auto simp: P_def)
  then have addr': "lf_remove lock P = P" "lf_remove lock post = post" "lf_addr lock \<noteq> lf_addr ov"
    by (simp_all add: lf_remove_id)
  note eq = loop [unfolded lf_clearlock_loop_eq [OF find c(1)] Let_def, folded P_def w_def]
  note beyond = lf_rest_beyond [OF srt own wf(1)]
  from wf show thesis
  proof (cases rule: lf_ovcase_cases)
    case 1
    then show thesis using c by simp
  next
    case 2
    then show thesis using eq c(2) lf_pieces_none [of lock ov] beyond stop [of "[]"] by (auto simp: P_def)
  next
    case 3
    have post: "\<forall>b \<in> set post. lf_before lock b" using beyond 3 by blast
    show thesis
    proof (cases "lf_start ov = lf_start lock")
      case True
      with 3 have "lf_pieces [ov\<lparr>lf_blkhd := [], lf_start := lf_end lock + 1\<rparr>] ov lock"
        using wf own by (intro lf_pieces_right) (auto simp: lf_wf_def)
      then show thesis using eq c(2) 3 True post stop by (auto simp: P_def)
    next
      case False
      then obtain pieces where sp: "lf_split (ov\<lparr>lf_blkhd := []\<rparr>) lock w = Some (pieces, ls')"
          "locks' = lf_remove lock (P @ pieces @ post)" using eq c(2) 3 by auto
      from lf_pieces_split [OF sp(1) _ wf own] False 3 obtain l tail where
        lt: "pieces = l # lock # tail" "l = ov\<lparr>lf_blkhd := [], lf_end := lf_start lock - 1\<rparr>"
          "lf_pieces (l # tail) ov lock" "\<forall>t \<in> set tail. lf_addr t = ls_next w" by force
      have "ls_next w \<noteq> lf_addr lock" using addr(2) by (simp add: w_def)
      then have "lf_remove lock pieces = l # tail"
        using lt(1,2,4) addr'(3) by (force simp: lf_remove_def filter_id_conv)
      then show thesis using sp(2) addr' lt(3) post by (intro stop [of "l # tail"]) (auto simp: P_def)
    qed
  next
    case 4
    then obtain v where v: "lf_free (ov\<lparr>lf_blkhd := []\<rparr>) (P @ post) w = Some v"
        "lf_clearlock_loop lock P post v = Some (locks', ls')"
      using eq c(2) by (auto simp: bind_eq_Some_conv)
    then show thesis
      using 4 lf_pieces_none [of lock ov] lf_free_next [OF v(1)] by (intro again [of "[]" v]) (auto simp: P_def w_def)
  next
    case 5
    then show thesis
      using eq c(2) addr'(3) lf_pieces_left [OF wf(1) own]
      by (intro again [of "[ov\<lparr>lf_blkhd := [], lf_end := lf_start lock - 1\<rparr>]" w]) (use wf(1) in \<open>auto simp: lf_before_def lf_wf_def P_def w_def\<close>)
  next
    case 6
    then have "\<forall>b \<in> set post. lf_before lock b" using beyond by force
    then show thesis
      using eq c(2) 6 lf_pieces_right [OF wf own]
      by (intro stop [of "[ov\<lparr>lf_blkhd := [], lf_start := lf_end lock + 1\<rparr>]"]) (auto simp: P_def)
  qed
qed

lemma lf_pieces_own: "lf_pieces ps ov lock \<Longrightarrow> lf_id ov = lf_id lock \<Longrightarrow> filter (\<lambda>b. lf_id b \<noteq> lf_id lock) ps = []"
  by (auto simp: lf_pieces_def lf_inside_def filter_empty_conv)

lemma lf_clearlock_loop_spec:
  assumes "lf_clearlock_loop lock pre lf ls = Some (locks', ls')"
    and "lf_sorted (pre @ lf)" and "lf_wf lock" and "\<forall>a \<in> set pre. lf_before a lock"
    and "lf_addr lock \<notin> lf_addr ` set (pre @ lf)" and "lf_addr lock < ls_next ls"
  shows "lf_sorted locks' \<and>
    (\<forall>i x. lf_holds locks' i x = (if i = lf_id lock \<and> lf_covers lock x then None else lf_holds (pre @ lf) i x)) \<and>
    filter (\<lambda>b. lf_id b \<noteq> lf_id lock) locks' = filter (\<lambda>b. lf_id b \<noteq> lf_id lock) (pre @ lf)"
  using assms
proof (induction "length lf" arbitrary: pre lf ls rule: less_induct)
  case less
  have sorted_lf: "lf_sorted lf" using less.prems(2) by (simp add: lf_sorted_append)
  from sorted_lf less.prems(3) show ?case
  proof (cases rule: lf_findoverlap_selfE)
    case (beyond skipped rest)
    have "\<forall>a \<in> set (pre @ skipped). lf_before a lock" using beyond less.prems(4) by auto
    then have "lf_holds (pre @ lf) (lf_id lock) x = None" if "lf_covers lock x" for x
      using that beyond lf_before_disjoint [of _ lock x] lf_before_disjoint [of lock _ x] by (auto simp: lf_holds_None)
    moreover have "locks' = pre @ lf" using less.prems(1) beyond by (subst (asm) lf_clearlock_loop.simps) simp
    ultimately show ?thesis using less.prems(2) by auto
  next
    case (overlap c skipped ov post)
    let ?P = "pre @ skipped"
    have srt: "lf_sorted (?P @ ov # post)" and P: "\<forall>a \<in> set ?P. lf_before a lock"
        and addr: "lf_addr lock \<notin> lf_addr ` set (?P @ ov # post)"
      using less.prems(2,4,5) overlap by auto
    have lf: "pre @ lf = ?P @ ov # post" using overlap(2) by simp
    note step = lf_clear_step [OF srt overlap(5) P]
    from less.prems(1) overlap(1,4,6,5,7) less.prems(3) srt addr less.prems(6) show ?thesis
    proof (cases rule: lf_clearlock_loop_round)
      case (stop ps)
      then show ?thesis
        using step [of ps] lf_holds_beyond [OF stop(3)] lf_pieces_own [OF stop(2)] overlap(5) by (simp add: lf lf_pieces_def)
    next
      case (again ps v)
      have st: "lf_sorted (?P @ ps @ post)" "\<And>i x. lf_holds (?P @ ps @ post) i x =
          (if i = lf_id lock \<and> lf_covers lock x then lf_holds post i x else lf_holds (?P @ ov # post) i x)"
        using step [of ps] again(2) by (auto simp: lf_pieces_def)
      have "lf_sorted locks' \<and> (\<forall>i x. lf_holds locks' i x =
          (if i = lf_id lock \<and> lf_covers lock x then None else lf_holds ((pre @ skipped @ ps) @ post) i x)) \<and>
          filter (\<lambda>b. lf_id b \<noteq> lf_id lock) locks' = filter (\<lambda>b. lf_id b \<noteq> lf_id lock) ((pre @ skipped @ ps) @ post)"
        using again P addr st(1) less.prems(3,6) overlap(2) by (intro less.hyps [of post "pre @ skipped @ ps" v]) auto
      then show ?thesis using st(2) lf_pieces_own [OF again(2)] overlap(5) by (simp add: lf)
    qed
  qed
qed

section \<open>Setting\<close>

text \<open>
  While the new lock is on the list, the locks of its owner before it end before it, and those the loop has still
  to look at start after it does.
\<close>

lemma lf_set_case3_eq:
  "lf_set_case3 lock ov ls = (ov\<lparr>lf_blkhd := []\<rparr>, lock', ls') \<Longrightarrow> \<exists>v. lock' = lock\<lparr>lf_blkhd := v\<rparr>"
  "fst (lf_set_case3 lock ov ls) = ov\<lparr>lf_blkhd := []\<rparr>"
proof -
  show "fst (lf_set_case3 lock ov ls) = ov\<lparr>lf_blkhd := []\<rparr>"
    by (simp add: lf_set_case3_def lf_wakelock_def lf_transfer_def)
  assume "lf_set_case3 lock ov ls = (ov\<lparr>lf_blkhd := []\<rparr>, lock', ls')"
  then have "lock' = lock \<or> lock' = lock\<lparr>lf_blkhd := lf_blkhd lock @ lf_blkhd ov\<rparr>"
    by (auto simp: lf_set_case3_def lf_wakelock_def lf_transfer_def split: if_splits)
  then show "\<exists>v. lock' = lock\<lparr>lf_blkhd := v\<rparr>"
    by (metis lockf.surjective lockf.update_convs(8))
qed

lemma lf_relink_mid:
  assumes "lf_addr lock \<notin> lf_addr ` set A" and "lf_addr lock \<notin> lf_addr ` set B"
  shows "lf_relink (lock\<lparr>lf_blkhd := v\<rparr>) (A @ lock # B) = A @ lock\<lparr>lf_blkhd := v\<rparr> # B"
proof -
  have "lf_relink (lock\<lparr>lf_blkhd := v\<rparr>) l = l" if "lf_addr lock \<notin> lf_addr ` set l" for l
    unfolding lf_relink_def by (rule map_idI) (use that in \<open>metis image_eqI lockf.select_convs(1) lockf.surjective lockf.update_convs(8)\<close>)
  from this [OF assms(1)] this [OF assms(2)] show ?thesis by (simp add: lf_relink_def)
qed

lemma lf_setlock_linked:
  assumes "lf_setlock_loop False lock (A @ lock # B) block ls = Some (locks', ls')"
    and "lf_sorted (A @ B @ block)" and "lf_wf lock"
    and "\<forall>a \<in> set A. lf_before a lock" and "\<forall>b \<in> set B. lf_id b \<noteq> lf_id lock"
    and "\<forall>b \<in> set block. lf_id b = lf_id lock \<longrightarrow> lf_start lock < lf_start b"
    and "lf_addr lock \<notin> lf_addr ` set (A @ B @ block)"
  shows "lf_sorted locks' \<and> (\<forall>i x. lf_holds locks' i x =
    (if i = lf_id lock \<and> lf_covers lock x then Some (lf_type lock) else lf_holds (A @ B @ block) i x))"
  using assms
proof (induction "length block" arbitrary: lock B block ls rule: less_induct)
  case less
  have sorted_block: "lf_sorted block" using less.prems(2) by (simp add: lf_sorted_append)
  have foreign: "lf_id a \<noteq> lf_id lock" if "a \<in> set block" "lf_before a lock" for a
    using that less.prems(6) sorted_block by (fastforce simp: lf_before_def lf_sorted_def lf_wf_def)
  from sorted_block less.prems(3) show ?case
  proof (cases rule: lf_findoverlap_selfE)
    case (beyond skipped rest)
    have l': "locks' = A @ lock # B @ block"
      using less.prems(1) beyond by (subst (asm) lf_setlock_loop.simps) simp
    have "\<forall>b \<in> set (B @ skipped). lf_id b \<noteq> lf_id lock" using beyond(2,3) less.prems(5) foreign by auto
    then have "\<forall>b \<in> set (B @ skipped). lf_before lock b" by (auto simp: lf_before_def)
    then have after: "\<forall>b \<in> set (B @ block). lf_before lock b" using beyond(2,4) by auto
    show ?thesis
      unfolding l' using lf_sorted_insert [OF less.prems(2,3,4) after] lf_holds_insert [OF less.prems(4) after] by simp
  next
    case (overlap c skipped ov post)
    let ?B = "B @ skipped"
    have B: "\<forall>b \<in> set ?B. lf_id b \<noteq> lf_id lock" using less.prems(5) overlap(2,3) foreign by auto
    have srt: "lf_sorted ((A @ ?B) @ ov # post)" using less.prems(2) overlap(2) by simp
    have P: "\<forall>a \<in> set (A @ ?B). lf_before a lock" using less.prems(4) B by (auto simp: lf_before_def)
    have block: "A @ B @ block = (A @ ?B) @ ov # post" using overlap(2) by simp
    have start: "lf_start lock < lf_start ov" using less.prems(6) overlap(2,5) by simp
    note step = lf_clear_step [OF srt overlap(5) P]
    have later: "\<forall>b \<in> set post. lf_id b = lf_id lock \<longrightarrow> lf_start lock < lf_start b" using less.prems(6) overlap(2) by simp
    have addr: "lf_addr lock \<notin> lf_addr ` set A" "lf_addr lock \<notin> lf_addr ` set ?B" "lf_addr lock \<notin> lf_addr ` set post"
      using less.prems(7) overlap(2) by auto
    consider (three) "c = Ov3" "lf_end lock = -1 \<or> lf_end ov \<noteq> -1 \<and> lf_end ov \<le> lf_end lock"
      | (five) "c = Ov5" "lf_end lock \<noteq> -1" "lf_start ov \<le> lf_end lock" "lf_end ov = -1 \<or> lf_end lock < lf_end ov"
      by (rule lf_ovcase_cases [OF overlap(7) less.prems(3)]) (use overlap(4,6) start in auto)
    then show ?thesis
    proof cases
      case three
      obtain lock1 w where c3: "lf_set_case3 lock ov ls = (ov\<lparr>lf_blkhd := []\<rparr>, lock1, w)"
        using lf_set_case3_eq(2) [of lock ov ls] by (cases "lf_set_case3 lock ov ls") auto
      then obtain v where lock1: "lock1 = lock\<lparr>lf_blkhd := v\<rparr>" using lf_set_case3_eq(1) by blast
      have "lf_relink lock1 ((A @ lock # B) @ skipped) = A @ lock1 # ?B"
        using addr lf_relink_mid [of lock A ?B v] by (simp add: lock1)
      then obtain u where u: "lf_setlock_loop False lock1 (A @ lock1 # ?B) post u = Some (locks', ls')"
        using less.prems(1) overlap(1) three(1) c3
        by (subst (asm) lf_setlock_loop.simps) (auto simp: Let_def split: option.splits)
      have st: "lf_sorted (A @ ?B @ post)" "\<And>i x. lf_holds (A @ ?B @ post) i x =
          (if i = lf_id lock \<and> lf_covers lock x then lf_holds post i x else lf_holds (A @ B @ block) i x)"
        using step [of "[]"] lf_pieces_none [of lock ov] start three(2) by (auto simp: lf_pieces_def block)
      have "lf_sorted locks' \<and> (\<forall>i x. lf_holds locks' i x =
          (if i = lf_id lock1 \<and> lf_covers lock1 x then Some (lf_type lock1) else lf_holds (A @ ?B @ post) i x))"
        using u st(1) less.prems(3,4) B later addr overlap(2)
        by (intro less.hyps [of post lock1 ?B u]) (auto simp: lock1)
      then show ?thesis using st(2) by (simp add: lock1)
    next
      case five
      let ?ov = "ov\<lparr>lf_blkhd := [], lf_start := lf_end lock + 1\<rparr>"
      have l': "locks' = A @ lock # ?B @ ?ov # post"
        using less.prems(1) overlap(1) five(1)
        by (subst (asm) lf_setlock_loop.simps) (auto simp: lf_wakelock_def Let_def)
      have pcs: "lf_pieces [?ov] ov lock"
        using lf_pieces_right [OF overlap(7) less.prems(3) overlap(5)] start five by simp
      have st: "lf_sorted (A @ ?B @ ?ov # post)" "\<And>i x. lf_holds (A @ ?B @ ?ov # post) i x =
          (if i = lf_id lock \<and> lf_covers lock x then lf_holds post i x else lf_holds (A @ B @ block) i x)"
        using step [of "[?ov]"] pcs by (auto simp: lf_pieces_def block)
      have "\<forall>b \<in> set post. lf_before lock b" using lf_rest_beyond [OF srt overlap(5,7)] five by force
      then have after: "\<forall>b \<in> set (?B @ ?ov # post). lf_before lock b"
        using B five(2) by (auto simp: lf_before_def)
      show ?thesis
        unfolding l' using lf_sorted_insert [OF st(1) less.prems(3,4) after] lf_holds_insert [OF less.prems(4) after] st(2)
        by simp
    qed
  qed
qed

text \<open>
  The cases in which the overlap contains the request: the first overlap the loop meets, with the lock not yet on
  the list. The result holds the lock's type on the request and what it held elsewhere.
\<close>

definition lf_updated :: "lockf \<Rightarrow> lockf list \<Rightarrow> lockf list \<Rightarrow> bool" where
  "lf_updated lock l l' \<longleftrightarrow> lf_sorted l' \<and> (\<forall>i x. lf_holds l' i x =
     (if i = lf_id lock \<and> lf_covers lock x then Some (lf_type lock) else lf_holds l i x))"

lemma lf_updated_insert:
  assumes "lf_sorted (P @ ov # post)" and "lf_id ov = lf_id lock" and "lf_wf lock"
    and "\<forall>a \<in> set P. lf_before a lock" and "\<forall>b \<in> set post. lf_before lock b"
    and "lf_pieces (ps @ qs) ov lock" and "\<forall>p \<in> set ps. lf_before p lock" and "\<forall>q \<in> set qs. lf_before lock q"
  shows "lf_updated lock (P @ ov # post) (P @ ps @ lock # qs @ post)"
proof -
  have st: "lf_sorted (P @ (ps @ qs) @ post)" "\<And>i x. lf_holds (P @ (ps @ qs) @ post) i x =
      (if i = lf_id lock \<and> lf_covers lock x then lf_holds post i x else lf_holds (P @ ov # post) i x)"
    using lf_clear_step [OF assms(1,2,4), of "ps @ qs"] assms(6) by (auto simp: lf_pieces_def)
  have "lf_sorted ((P @ ps) @ lock # (qs @ post))"
    by (rule lf_sorted_insert) (use st(1) assms in auto)
  moreover have "lf_holds ((P @ ps) @ lock # (qs @ post)) i x =
      (if i = lf_id lock \<and> lf_covers lock x then Some (lf_type lock) else lf_holds ((P @ ps) @ (qs @ post)) i x)" for i x
    by (rule lf_holds_insert) (use assms in auto)
  ultimately show ?thesis using st(2) by (simp add: lf_updated_def)
qed

lemma lf_covers_type: "lf_covers (l\<lparr>lf_type := t\<rparr>) x = lf_covers l x"
  by (simp add: lf_covers_def)

text \<open>The overlap takes the new type (case 1), or has it already (case 2).\<close>

lemma lf_updated_retype:
  assumes "lf_sorted (P @ ov # post)" and "lf_id ov = lf_id lock"
    and "\<And>x. lf_covers lock x \<Longrightarrow> lf_covers ov x" and "\<And>x. lf_covers ov x \<Longrightarrow> lf_covers lock x \<or> lf_type ov = lf_type lock"
  shows "lf_updated lock (P @ ov # post) (P @ ov\<lparr>lf_blkhd := v, lf_type := lf_type lock\<rparr> # post)"
proof -
  let ?ov = "ov\<lparr>lf_blkhd := v, lf_type := lf_type lock\<rparr>"
  have ins: "\<forall>p \<in> set [?ov]. lf_inside p ov"
    using assms(1) by (auto simp: lf_inside_def lf_wf_def lf_sorted_append lf_sorted_Cons)
  have "lf_holds (P @ [?ov] @ post) i x = (if i = lf_id lock \<and> lf_covers lock x then Some (lf_type lock) else lf_holds (P @ ov # post) i x)" for i x
  proof (cases "i = lf_id ov \<and> lf_covers ov x")
    case True
    then have "lf_holds (P @ ov # post) i x = Some (lf_type ov)"
      using lf_holds_at [OF assms(1)] by (simp add: lf_holds_append)
    with True show ?thesis
      using lf_holds_replace [OF assms(1) ins, of i x] assms(2) assms(3) [of x] assms(4) [of x]
        by (auto simp: lf_covers_type)
  next
    case False
    then show ?thesis using lf_holds_replace [OF assms(1) ins, of i x] assms(2,3) by auto
  qed
  then show ?thesis using lf_sorted_replace [OF assms(1) ins] by (simp add: lf_updated_def)
qed

lemma lf_set_case1_updated:
  assumes "lf_set_case1 lock P ov post ls = Some (locks', ls')"
    and "lf_sorted (P @ ov # post)" and "lf_id ov = lf_id lock" and "lf_start ov = lf_start lock" and "lf_end ov = lf_end lock"
  shows "lf_updated lock (P @ ov # post) locks'"
proof -
  have "\<exists>v. locks' = P @ ov\<lparr>lf_blkhd := v, lf_type := lf_type lock\<rparr> # post"
    using assms(1) by (auto simp: lf_set_case1_def lf_wakelock_def Let_def split: if_splits)
      (metis lockf.surjective lockf.update_convs(8))+
  then show ?thesis using lf_updated_retype [OF assms(2,3)] assms(4,5) by (auto simp: lf_covers_def)
qed

lemma lf_set_case2_updated:
  assumes "lf_set_case2 True lock P ov post ls = Some (locks', ls')"
    and srt: "lf_sorted (P @ ov # post)" and own: "lf_id ov = lf_id lock" and wf: "lf_wf ov" "lf_wf lock"
    and P: "\<forall>a \<in> set P. lf_before a lock" and le: "lf_start ov \<le> lf_start lock"
    and stop: "lf_end ov = -1 \<or> lf_end lock \<noteq> -1 \<and> lf_end lock \<le> lf_end ov"
    and ne: "lf_start ov \<noteq> lf_start lock \<or> lf_end ov \<noteq> lf_end lock"
  shows "lf_updated lock (P @ ov # post) locks'"
proof (cases "lf_type ov = lf_type lock")
  case True
  then have "locks' = P @ ov # post" using assms(1) by (auto simp: lf_set_case2_def)
  moreover have "lf_updated lock (P @ ov # post) (P @ ov\<lparr>lf_blkhd := lf_blkhd ov, lf_type := lf_type lock\<rparr> # post)"
    using True le stop by (intro lf_updated_retype [OF srt own]) (auto simp: lf_covers_def)
  ultimately show ?thesis using True by (metis lockf.surjective lockf.update_convs(3,8))
next
  case type: False
  have post: "\<forall>b \<in> set post. lf_before lock b" by (rule lf_rest_beyond [OF srt own wf(1) stop])
  show ?thesis
  proof (cases "lf_start ov = lf_start lock")
    case True
    let ?ov = "ov\<lparr>lf_blkhd := [], lf_start := lf_end lock + 1\<rparr>"
    have "locks' = P @ [] @ lock # [?ov] @ post"
      using assms(1) type True by (simp add: lf_set_case2_def lf_wakelock_def)
    moreover have "lf_pieces ([] @ [?ov]) ov lock"
      using lf_pieces_right [OF wf own] True stop ne wf by (auto simp: lf_wf_def)
    moreover have "lf_before lock ?ov" using stop ne True wf by (auto simp: lf_before_def)
    ultimately show ?thesis using lf_updated_insert [OF srt own wf(2) P post, of "[]" "[?ov]"] by simp
  next
    case False
    obtain w pieces where sp: "lf_split (ov\<lparr>lf_blkhd := []\<rparr>) lock w = Some (pieces, ls')" "locks' = P @ pieces @ post"
      using assms(1) type False by (auto simp: lf_set_case2_def lf_wakelock_def)
    from False le have "lf_start ov < lf_start lock" by simp
    from lf_pieces_split [OF sp(1) this wf own stop] obtain l tail where lt: "pieces = l # lock # tail"
      "lf_pieces (l # tail) ov lock" "lf_before l lock" "\<forall>t \<in> set tail. lf_before lock t" by metis
    then show ?thesis using lf_updated_insert [OF srt own wf(2) P post, of "[l]" tail] sp(2) by simp
  qed
qed

text \<open>
  The second loop of \<^verbatim>\<open>lf_setlock\<close> gives the owner the requested type on the requested bytes and changes nothing
  else.
\<close>

lemma lf_setlock_loop_spec:
  assumes loop: "lf_setlock_loop True lock pre block ls = Some (locks', ls')"
    and srt: "lf_sorted (pre @ block)" and wf: "lf_wf lock" and pre: "\<forall>a \<in> set pre. lf_before a lock"
    and addr: "lf_addr lock \<notin> lf_addr ` set (pre @ block)"
  shows "lf_updated lock (pre @ block) locks'"
proof -
  have "lf_sorted block" using srt by (simp add: lf_sorted_append)
  from this wf show ?thesis
  proof (cases rule: lf_findoverlap_selfE)
    case (beyond skipped rest)
    then have "locks' = (pre @ skipped) @ lock # rest"
      using loop by (subst (asm) lf_setlock_loop.simps) simp
    moreover have "\<forall>a \<in> set (pre @ skipped). lf_before a lock" using pre beyond(3) by auto
    ultimately show ?thesis
      using lf_sorted_insert [of "pre @ skipped" rest lock] lf_holds_insert [of "pre @ skipped" lock rest] beyond srt wf
      by (simp add: lf_updated_def)
  next
    case (overlap c skipped ov post)
    let ?P = "pre @ skipped"
    have l: "pre @ block = ?P @ ov # post" using overlap(2) by simp
    have P: "\<forall>a \<in> set ?P. lf_before a lock" using pre overlap(3) by auto
    have srt': "lf_sorted (?P @ ov # post)" using srt l by simp
    note own = overlap(5) and wfo = overlap(7)
    note step = lf_clear_step [OF srt' own P]
    have later: "\<forall>b \<in> set post. lf_id b = lf_id lock \<longrightarrow> lf_start lock < lf_start b"
      if "lf_end ov \<noteq> -1 \<Longrightarrow> lf_start lock \<le> lf_end ov"
      using that srt' own by (fastforce simp: lf_sorted_append lf_sorted_Cons lf_before_def)
    have linked: ?thesis
      if u: "lf_setlock_loop False lock' ((?P @ ps) @ lock' # []) post u = Some (locks', ls')" and "lock' = lock\<lparr>lf_blkhd := v\<rparr>"
        and pcs: "lf_pieces ps ov lock" and bef: "\<forall>p \<in> set ps. lf_before p lock \<and> lf_addr p = lf_addr ov"
        and fin: "lf_end ov \<noteq> -1 \<Longrightarrow> lf_start lock \<le> lf_end ov" for lock' ps u v
    proof -
      have st: "lf_sorted (?P @ ps @ post)" "\<And>i x. lf_holds (?P @ ps @ post) i x =
          (if i = lf_id lock \<and> lf_covers lock x then lf_holds post i x else lf_holds (?P @ ov # post) i x)"
        using step [of ps] pcs by (auto simp: lf_pieces_def)
      have "lf_sorted locks' \<and> (\<forall>i x. lf_holds locks' i x =
          (if i = lf_id lock' \<and> lf_covers lock' x then Some (lf_type lock') else lf_holds ((?P @ ps) @ [] @ post) i x))"
        using st(1) wf P bef later [OF fin] addr l that(2)
        by (intro lf_setlock_linked [OF u]) auto
      then show ?thesis using st(2) that(2) by (simp add: lf_updated_def l)
    qed
    from wfo wf show ?thesis
    proof (cases rule: lf_ovcase_cases)
      case 1
      then show ?thesis using overlap(4,6) by simp
    next
      case 2
      then have "lf_set_case1 lock ?P ov post ls = Some (locks', ls')"
        using loop overlap(1,6) by (subst (asm) lf_setlock_loop.simps) simp
      then show ?thesis using lf_set_case1_updated [OF _ srt' own] 2 l by simp
    next
      case 3
      then have "lf_set_case2 True lock ?P ov post ls = Some (locks', ls')"
        using loop overlap(1,6) by (subst (asm) lf_setlock_loop.simps) simp
      then show ?thesis using lf_set_case2_updated [OF _ srt' own wfo wf P] 3 l by simp
    next
      case 4
      obtain lock1 w where c3: "lf_set_case3 lock ov ls = (ov\<lparr>lf_blkhd := []\<rparr>, lock1, w)"
        using lf_set_case3_eq(2) [of lock ov ls] by (cases "lf_set_case3 lock ov ls") auto
      then obtain v where lock1: "lock1 = lock\<lparr>lf_blkhd := v\<rparr>" using lf_set_case3_eq(1) by blast
      obtain u where "lf_setlock_loop False lock1 (?P @ [lock1]) post u = Some (locks', ls')"
        using loop overlap(1,6) 4(1) c3
        by (subst (asm) lf_setlock_loop.simps) (auto simp: Let_def split: option.splits)
      then show ?thesis
        using lf_pieces_none [OF 4(2,3)] lock1 4 wfo by (intro linked [of lock1 "[]" u v]) (auto simp: lf_wf_def)
    next
      case 5
      let ?ov = "ov\<lparr>lf_blkhd := [], lf_end := lf_start lock - 1\<rparr>"
      have "lf_setlock_loop False lock (?P @ [?ov, lock]) post (snd (lf_wakelock ov 0 ls)) = Some (locks', ls')"
        using loop overlap(1,6) 5(1) by (subst (asm) lf_setlock_loop.simps) (simp add: lf_wakelock_def Let_def)
      moreover have "lf_before ?ov lock" using 5 wfo by (auto simp: lf_before_def lf_wf_def)
      ultimately show ?thesis
        using lf_pieces_left [OF wfo own] 5
        by (intro linked [of lock "[?ov]" "snd (lf_wakelock ov 0 ls)" "lf_blkhd lock"]) auto
    next
      case 6
      let ?ov = "ov\<lparr>lf_blkhd := [], lf_start := lf_end lock + 1\<rparr>"
      have "locks' = ?P @ [] @ lock # [?ov] @ post"
        using loop overlap(1,6) 6(1) by (subst (asm) lf_setlock_loop.simps) (simp add: lf_wakelock_def Let_def)
      moreover have "\<forall>b \<in> set post. lf_before lock b" using lf_rest_beyond [OF srt' own wfo] 6 by force
      moreover have "lf_before lock ?ov" using 6 by (auto simp: lf_before_def)
      ultimately show ?thesis
        using lf_updated_insert [OF srt' own wf P, of "[]" "[?ov]"] lf_pieces_right [OF wfo wf own] 6 l by simp
    qed
  qed
qed

end
