(* ===== verification/Lockf_Wait.thy ===== *)
theory Lockf_Wait
  imports Lockf_Set "HOL-Library.Multiset"
begin

text \<open>
  The bookkeeping around the list of locks: reference and user counts, the requests that wait and the locks that
  block them. \<open>lf_live\<close> is the invariant for the locks in use, those on the list and a request in hand, in any
  order; the operations keep it, so that no assertion fails, and a waiting request always waits for a lock that
  still conflicts with it.
\<close>

section \<open>The invariant\<close>

definition lf_uid_count :: "nat \<Rightarrow> lockf list \<Rightarrow> int" where
  "lf_uid_count u l = int (length (filter (\<lambda>x. lf_uid x = u) l))"

definition lf_counted :: "lockf list \<Rightarrow> lockf_state \<Rightarrow> bool" where
  "lf_counted M ls \<longleftrightarrow> ls_refs ls = int (length M) + int (length (ls_pending ls)) \<and>
     (\<forall>u. ui_lockcnt ls u = ui_elsewhere ls u + lf_uid_count u M + lf_uid_count u (ls_pending ls))"

definition lf_addrs :: "lockf list \<Rightarrow> lockf_state \<Rightarrow> bool" where
  "lf_addrs M ls \<longleftrightarrow> distinct (map lf_addr M @ map lf_addr (ls_pending ls)) \<and>
     (\<forall>a \<in> set (map lf_addr M @ map lf_addr (ls_pending ls)). a < ls_next ls)"

text \<open>A waiting request is on the list of the lock it points to, which conflicts with it, and the other way round.\<close>

definition lf_waiting :: "lockf list \<Rightarrow> lockf_state \<Rightarrow> bool" where
  "lf_waiting M ls \<longleftrightarrow>
     (\<forall>p \<in> set (ls_pending ls). lf_wf p \<and> lf_blkhd p = [] \<and>
        (\<forall>a. lf_blk p = Some a \<longrightarrow> (\<exists>b \<in> set M. lf_addr b = a \<and> lf_addr p \<in> set (lf_blkhd b) \<and> lf_conflicts b p))) \<and>
     (\<forall>b \<in> set M. distinct (lf_blkhd b) \<and>
        (\<forall>w \<in> set (lf_blkhd b). \<exists>p \<in> set (ls_pending ls). lf_addr p = w \<and> lf_blk p = Some (lf_addr b)))"

definition lf_live :: "lockf list \<Rightarrow> lockf_state \<Rightarrow> bool" where
  "lf_live M ls \<longleftrightarrow> lf_counted M ls \<and> lf_addrs M ls \<and> lf_waiting M ls"

lemma lf_waiting_blocker:
  "lf_waiting M ls \<Longrightarrow> p \<in> set (ls_pending ls) \<Longrightarrow> lf_blk p = Some a \<Longrightarrow>
   \<exists>b \<in> set M. lf_addr b = a \<and> lf_addr p \<in> set (lf_blkhd b) \<and> lf_conflicts b p"
  by (simp add: lf_waiting_def)

lemma lf_waiting_waiter:
  "lf_waiting M ls \<Longrightarrow> b \<in> set M \<Longrightarrow> w \<in> set (lf_blkhd b) \<Longrightarrow>
   \<exists>p \<in> set (ls_pending ls). lf_addr p = w \<and> lf_blk p = Some (lf_addr b)"
  by (simp add: lf_waiting_def)

lemma lf_waiting_pending: "lf_waiting M ls \<Longrightarrow> p \<in> set (ls_pending ls) \<Longrightarrow> lf_wf p \<and> lf_blkhd p = []"
  by (simp add: lf_waiting_def)

lemma lf_waiting_distinct: "lf_waiting M ls \<Longrightarrow> b \<in> set M \<Longrightarrow> distinct (lf_blkhd b)"
  by (simp add: lf_waiting_def)

lemma lf_waitingI:
  assumes "\<And>p. p \<in> set (ls_pending ls) \<Longrightarrow> lf_wf p \<and> lf_blkhd p = []"
    and "\<And>p a. p \<in> set (ls_pending ls) \<Longrightarrow> lf_blk p = Some a \<Longrightarrow>
      \<exists>b \<in> set M. lf_addr b = a \<and> lf_addr p \<in> set (lf_blkhd b) \<and> lf_conflicts b p"
    and "\<And>b. b \<in> set M \<Longrightarrow> distinct (lf_blkhd b)"
    and "\<And>b w. b \<in> set M \<Longrightarrow> w \<in> set (lf_blkhd b) \<Longrightarrow>
      \<exists>p \<in> set (ls_pending ls). lf_addr p = w \<and> lf_blk p = Some (lf_addr b)"
  shows "lf_waiting M ls"
  using assms by (simp add: lf_waiting_def)

lemmas lf_waiting_dests = lf_waiting_blocker lf_waiting_waiter lf_waiting_pending lf_waiting_distinct

lemma lf_live_dests:
  "lf_live M ls \<Longrightarrow> lf_waiting M ls" "lf_live M ls \<Longrightarrow> lf_counted M ls"
  "lf_live M ls \<Longrightarrow> distinct (map lf_addr M @ map lf_addr (ls_pending ls))"
  by (simp_all add: lf_live_def lf_addrs_def)

lemma lf_pending_unique:
  assumes "lf_live M ls" and "p \<in> set (ls_pending ls)" and "q \<in> set (ls_pending ls)" and "lf_addr p = lf_addr q"
  shows "p = q"
  using lf_live_dests(3) [OF assms(1)] assms(2-) by (auto simp: distinct_map dest: inj_onD)

lemma lf_holder_unique:
  assumes "lf_live M ls" and "b \<in> set M" and "c \<in> set M" and "lf_addr b = lf_addr c"
  shows "b = c"
  using lf_live_dests(3) [OF assms(1)] assms(2-) by (auto simp: distinct_map dest: inj_onD)

lemma lf_uid_count_simps [simp]:
  "lf_uid_count u [] = 0"
  "lf_uid_count u (x # xs) = (if lf_uid x = u then 1 else 0) + lf_uid_count u xs"
  "lf_uid_count u (xs @ ys) = lf_uid_count u xs + lf_uid_count u ys"
  by (simp_all add: lf_uid_count_def)

lemma lf_uid_count_perm:
  assumes "mset xs = mset ys"
  shows "lf_uid_count u xs = lf_uid_count u ys"
proof -
  have "mset (filter (\<lambda>x. lf_uid x = u) xs) = mset (filter (\<lambda>x. lf_uid x = u) ys)" using assms by simp
  then show ?thesis unfolding lf_uid_count_def by (metis size_mset)
qed

text \<open>The order of the locks does not matter, nor do the fields of the state the invariant does not mention.\<close>

lemma lf_live_perm:
  assumes "lf_live M ls" and "mset M' = mset M"
  shows "lf_live M' ls"
proof -
  have "set M' = set M" "length M' = length M" using assms(2) by (metis set_mset_mset, metis size_mset)
  moreover have "mset (map lf_addr M' @ map lf_addr (ls_pending ls)) = mset (map lf_addr M @ map lf_addr (ls_pending ls))"
    using assms(2) by simp
  then have "distinct (map lf_addr M' @ map lf_addr (ls_pending ls)) = distinct (map lf_addr M @ map lf_addr (ls_pending ls))"
    by (rule mset_eq_imp_distinct_iff)
  ultimately show ?thesis
    using assms(1) lf_uid_count_perm [OF assms(2)] by (simp add: lf_live_def lf_counted_def lf_addrs_def lf_waiting_def)
qed

lemma lf_live_locks [simp]: "lf_live M (ls\<lparr>ls_locks := l\<rparr>) = lf_live M ls"
  by (simp add: lf_live_def lf_counted_def lf_addrs_def lf_waiting_def)

lemma lf_live_woken [simp]: "lf_live M (ls\<lparr>ls_woken := l\<rparr>) = lf_live M ls"
  by (simp add: lf_live_def lf_counted_def lf_addrs_def lf_waiting_def)

section \<open>Elementary steps\<close>

text \<open>A lock nobody waits for may change its range and type, and may be freed while others are in use.\<close>

lemma lf_live_modify:
  assumes "lf_live (l # M) ls" and "lf_blkhd l = []" and "lf_blkhd l' = []"
    and "lf_addr l' = lf_addr l" and "lf_uid l' = lf_uid l"
  shows "lf_live (l' # M) ls"
  using assms by (auto simp: lf_live_def lf_counted_def lf_addrs_def lf_waiting_def)

lemma lf_live_free:
  assumes "lf_live (l # M) ls" and "lf_blkhd l = []" and "M \<noteq> [] \<or> ls_pending ls \<noteq> [] \<or> locks = []"
  shows "\<exists>ls'. lf_free l locks ls = Some ls' \<and> lf_live M ls' \<and> ls_pending ls' = ls_pending ls \<and> ls_locks ls' = ls_locks ls"
proof -
  let ?ls = "ls\<lparr>ls_refs := ls_refs ls - 1, ui_lockcnt := (ui_lockcnt ls)(lf_uid l := ui_lockcnt ls (lf_uid l) - 1)\<rparr>"
  have refs: "ls_refs ls - 1 = int (length M) + int (length (ls_pending ls))"
    using assms(1) by (simp add: lf_live_def lf_counted_def)
  then have "ls_refs ls - 1 > 0 \<or> (locks = [] \<and> ls_pending ls = [])" using assms(3) by (cases M; cases "ls_pending ls") auto
  then have "lf_free l locks ls = Some ?ls"
    using assms(2) by (auto simp: lf_free_def ls_rele_def Let_def)
  moreover have "lf_live M ?ls"
    using assms(1,2) refs by (auto simp: lf_live_def lf_counted_def lf_addrs_def lf_waiting_def)
  ultimately show ?thesis by simp
qed

text \<open>Waking the requests that wait for a lock.\<close>

lemma lf_wake_list_pending:
  "ls_pending (lf_wake_list as f ls) =
     map (\<lambda>p. if lf_addr p \<in> set as then p\<lparr>lf_blk := None, lf_flags := lf_flags p OR f\<rparr> else p) (ls_pending ls)"
proof (induction as arbitrary: ls)
  case (Cons a as)
  show ?case by (simp add: Let_def Cons lf_on_pending_def or.assoc)
qed simp

lemma lf_wake_list_frame [simp]:
  "ls_refs (lf_wake_list as f ls) = ls_refs ls" "ui_lockcnt (lf_wake_list as f ls) = ui_lockcnt ls"
  "ls_locks (lf_wake_list as f ls) = ls_locks ls" "ui_elsewhere (lf_wake_list as f ls) = ui_elsewhere ls"
  by (induction as f ls rule: lf_wake_list.induct) (simp_all add: Let_def lf_on_pending_def)

lemma lf_conflicts_frame [simp]:
  "lf_conflicts b (p\<lparr>lf_blk := x\<rparr>) = lf_conflicts b p"
  "lf_conflicts b (p\<lparr>lf_flags := f\<rparr>) = lf_conflicts b p"
  "lf_conflicts (b\<lparr>lf_blkhd := v\<rparr>) p = lf_conflicts b p"
  "lf_wf (p\<lparr>lf_blk := x\<rparr>) = lf_wf p" "lf_wf (p\<lparr>lf_flags := f\<rparr>) = lf_wf p"
  by (simp_all add: lf_conflicts_def lf_overlaps_def lf_covers_def lf_wf_def)

lemma lf_uid_count_map: "(\<And>x. x \<in> set l \<Longrightarrow> lf_uid (f x) = lf_uid x) \<Longrightarrow> lf_uid_count u (map f l) = lf_uid_count u l"
  by (induction l) auto

lemma lf_live_wake:
  assumes live: "lf_live (l # M) ls"
  shows "lf_live (l\<lparr>lf_blkhd := []\<rparr> # M) (lf_wake_list (lf_blkhd l) f ls)"
proof -
  let ?as = "lf_blkhd l" and ?w = "lf_wake_list (lf_blkhd l) f ls"
  let ?f = "\<lambda>p. if lf_addr p \<in> set ?as then p\<lparr>lf_blk := None, lf_flags := lf_flags p OR f\<rparr> else p"
  have pend: "ls_pending ?w = map ?f (ls_pending ls)" by (rule lf_wake_list_pending)
  have addr: "lf_addr (?f p) = lf_addr p" "lf_uid (?f p) = lf_uid p" for p by simp_all
  have "lf_counted (l\<lparr>lf_blkhd := []\<rparr> # M) ?w"
    using live by (simp add: lf_live_def lf_counted_def pend lf_uid_count_map)
  moreover have me: "map lf_addr (ls_pending ?w) = map lf_addr (ls_pending ls)"
    by (simp add: pend)
  have "lf_addrs (l\<lparr>lf_blkhd := []\<rparr> # M) ?w"
    using live unfolding lf_live_def lf_addrs_def me by simp
  moreover have "lf_waiting (l\<lparr>lf_blkhd := []\<rparr> # M) ?w"
  proof (rule lf_waitingI)
    note w = lf_live_dests(1) [OF live]
    fix p a assume p: "p \<in> set (ls_pending ?w)" and a: "lf_blk p = Some a"
    then have q: "p \<in> set (ls_pending ls)" "lf_addr p \<notin> set ?as" by (auto simp: pend split: if_splits)
    show "\<exists>b \<in> set (l\<lparr>lf_blkhd := []\<rparr> # M). lf_addr b = a \<and> lf_addr p \<in> set (lf_blkhd b) \<and> lf_conflicts b p"
      using lf_waiting_blocker [OF w q(1) a] q(2) by auto
  next
    note w = lf_live_dests(1) [OF live]
    fix b v assume b: "b \<in> set (l\<lparr>lf_blkhd := []\<rparr> # M)" and v: "v \<in> set (lf_blkhd b)"
    then have b': "b \<in> set (l # M)" "lf_addr b \<noteq> lf_addr l"
      using lf_holder_unique [OF live, of b l] lf_live_dests(3) [OF live] by auto
    from lf_waiting_waiter [OF w b'(1) v] obtain p where
      p: "p \<in> set (ls_pending ls)" "lf_addr p = v" "lf_blk p = Some (lf_addr b)" by blast
    have "lf_addr p \<notin> set ?as"
    proof
      assume "lf_addr p \<in> set ?as"
      then obtain q where "q \<in> set (ls_pending ls)" "lf_addr q = lf_addr p" "lf_blk q = Some (lf_addr l)"
        using lf_waiting_waiter [OF w, of l "lf_addr p"] by auto
      then show False using lf_pending_unique [OF live p(1), of q] p(3) b'(2) by simp
    qed
    then have "p \<in> set (ls_pending ?w)"
      unfolding pend set_map by (intro image_eqI [of p ?f p]) (use p(1) in simp_all)
    then show "\<exists>p \<in> set (ls_pending ?w). lf_addr p = v \<and> lf_blk p = Some (lf_addr b)"
      using p(2,3) by blast
  qed (use lf_waiting_dests(3,4) [OF lf_live_dests(1) [OF live]] in \<open>auto simp: pend split: if_splits\<close>)
  ultimately show ?thesis by (simp add: lf_live_def)
qed

text \<open>A lock may also change its type or grow while requests wait for it, if it still conflicts with all of them.\<close>

lemma lf_live_stronger:
  assumes "lf_live (l # M) ls" and "lf_blkhd l' = lf_blkhd l" and "lf_addr l' = lf_addr l" and "lf_uid l' = lf_uid l"
    and "\<And>p. lf_conflicts l p \<Longrightarrow> lf_conflicts l' p"
  shows "lf_live (l' # M) ls"
proof -
  note w = lf_live_dests(1) [OF assms(1)]
  have "lf_waiting (l' # M) ls"
  proof (rule lf_waitingI)
    fix p a assume "p \<in> set (ls_pending ls)" "lf_blk p = Some a"
    from lf_waiting_blocker [OF w this]
    show "\<exists>b \<in> set (l' # M). lf_addr b = a \<and> lf_addr p \<in> set (lf_blkhd b) \<and> lf_conflicts b p"
      using assms(2-) by auto
  next
    fix b v assume "b \<in> set (l' # M)" "v \<in> set (lf_blkhd b)"
    then show "\<exists>p \<in> set (ls_pending ls). lf_addr p = v \<and> lf_blk p = Some (lf_addr b)"
      using lf_waiting_waiter [OF w, of l v] lf_waiting_waiter [OF w, of b v] assms(2-4) by auto
  qed (use lf_waiting_dests(3,4) [OF w] assms(2) in auto)
  then show ?thesis using assms by (simp add: lf_live_def lf_counted_def lf_addrs_def)
qed

text \<open>The piece that \<^verbatim>\<open>lf_split\<close> allocates.\<close>

lemma lf_live_split:
  assumes "lf_live M ls" and "lf_addr n = ls_next ls" and "lf_blkhd n = []" and "lf_uid n = u"
  shows "lf_live (n # M) (ls_ref (ls\<lparr>ui_lockcnt := (ui_lockcnt ls)(u := ui_lockcnt ls u + 1), ls_next := ls_next ls + 1\<rparr>))"
proof -
  note w = lf_live_dests(1) [OF assms(1)]
  have "lf_waiting (n # M) ls"
    by (rule lf_waitingI) (use lf_waiting_dests [OF w] assms(3) in auto)
  moreover have "ls_next ls \<notin> set (map lf_addr M @ map lf_addr (ls_pending ls))"
    using assms(1) by (force simp: lf_live_def lf_addrs_def)
  ultimately show ?thesis
    using assms by (auto simp: lf_live_def lf_counted_def lf_addrs_def lf_waiting_def ls_ref_def less_Suc_eq)
qed

text \<open>Handing the requests that wait for one lock to another that conflicts with all of them.\<close>

lemma lf_transfer_list_pending:
  "ls_pending (lf_transfer_list ws a ls) =
     map (\<lambda>p. if lf_addr p \<in> set ws then p\<lparr>lf_blk := Some a\<rparr> else p) (ls_pending ls)"
proof (induction ws arbitrary: ls)
  case (Cons w ws)
  show ?case by (simp add: Cons lf_on_pending_def)
qed simp

lemma lf_transfer_list_frame [simp]:
  "ls_refs (lf_transfer_list ws a ls) = ls_refs ls" "ui_lockcnt (lf_transfer_list ws a ls) = ui_lockcnt ls"
  "ls_locks (lf_transfer_list ws a ls) = ls_locks ls" "ls_next (lf_transfer_list ws a ls) = ls_next ls"
  "ui_elsewhere (lf_transfer_list ws a ls) = ui_elsewhere ls"
  by (induction ws a ls rule: lf_transfer_list.induct) (simp_all add: lf_on_pending_def)

lemma lf_live_transfer:
  assumes live: "lf_live (ov # lock # M) ls" and conf: "\<And>p. lf_conflicts ov p \<Longrightarrow> lf_conflicts lock p"
    and t: "lf_transfer ov lock ls = (ov', lock', ls')"
  shows "lf_live (ov' # lock' # M) ls'"
proof -
  let ?ws = "lf_blkhd ov"
  let ?f = "\<lambda>p. if lf_addr p \<in> set ?ws then p\<lparr>lf_blk := Some (lf_addr lock)\<rparr> else p"
  have eqs: "ov' = ov\<lparr>lf_blkhd := []\<rparr>" "lock' = lock\<lparr>lf_blkhd := lf_blkhd lock @ ?ws\<rparr>" "ls' = lf_transfer_list ?ws (lf_addr lock) ls"
    using t by (auto simp: lf_transfer_def)
  have pend: "ls_pending ls' = map ?f (ls_pending ls)" by (simp add: eqs lf_transfer_list_pending)
  have me: "map lf_addr (ls_pending ls') = map lf_addr (ls_pending ls)" by (simp add: pend)
  note w = lf_live_dests(1) [OF live]
  have "lf_addr ov \<notin> lf_addr ` set (lock # M)" using lf_live_dests(3) [OF live] by simp
  then have other: "lf_addr b \<noteq> lf_addr ov" if "b \<in> set (lock # M)" for b using that by (metis image_eqI)
  have moved: "lf_blk p = Some (lf_addr ov)" if "p \<in> set (ls_pending ls)" "lf_addr p \<in> set ?ws" for p
    using lf_waiting_waiter [OF w, of ov "lf_addr p"] that lf_pending_unique [OF live _ that(1)] by auto
  have conf': "lf_conflicts lock p" if p: "p \<in> set (ls_pending ls)" "lf_addr p \<in> set ?ws" for p
    using lf_waiting_blocker [OF w p(1) moved [OF p]] other conf by auto
  have kept: "lf_addr p \<notin> set ?ws" if "p \<in> set (ls_pending ls)" "lf_blk p = Some (lf_addr b)" "b \<in> set (lock # M)" for p b
    using moved [OF that(1)] that other by auto
  have "lf_waiting (ov' # lock' # M) ls'"
  proof (rule lf_waitingI)
    fix p a assume p: "p \<in> set (ls_pending ls')" and a: "lf_blk p = Some a"
    then obtain q where q: "q \<in> set (ls_pending ls)" "p = ?f q" by (auto simp: pend)
    show "\<exists>b \<in> set (ov' # lock' # M). lf_addr b = a \<and> lf_addr p \<in> set (lf_blkhd b) \<and> lf_conflicts b p"
    proof (cases "lf_addr q \<in> set ?ws")
      case True
      then show ?thesis using conf' [OF q(1) True] q(2) a by (simp add: eqs)
    next
      case False
      then show ?thesis using lf_waiting_blocker [OF w q(1), of a] q a by (auto simp: eqs)
    qed
  next
    fix b v assume b: "b \<in> set (ov' # lock' # M)" and v: "v \<in> set (lf_blkhd b)"
    show "\<exists>p \<in> set (ls_pending ls'). lf_addr p = v \<and> lf_blk p = Some (lf_addr b)"
    proof (cases "b = lock' \<and> v \<in> set ?ws")
      case True
      with lf_waiting_waiter [OF w, of ov v] obtain p where "p \<in> set (ls_pending ls)" "lf_addr p = v" by auto
      then show ?thesis using True unfolding pend by (intro bexI [of _ "?f p"]) (auto simp: eqs)
    next
      case False
      then obtain b0 where b0: "b0 \<in> set (lock # M)" "lf_addr b0 = lf_addr b" "v \<in> set (lf_blkhd b0)"
        using b v that [of lock] that [of b] by (auto simp: eqs)
      with lf_waiting_waiter [OF w, of b0 v] obtain p where
        p: "p \<in> set (ls_pending ls)" "lf_addr p = v" "lf_blk p = Some (lf_addr b0)" by auto
      then have "p \<in> set (ls_pending ls')"
        unfolding pend set_map by (intro image_eqI [of p ?f p]) (use kept [OF p(1,3) b0(1)] in simp_all)
      then show ?thesis using p(2,3) b0(2) by auto
    qed
  next
    fix b assume b: "b \<in> set (ov' # lock' # M)"
    have "set (lf_blkhd lock) \<inter> set ?ws = {}"
    proof (intro Int_emptyI)
      fix v assume v: "v \<in> set (lf_blkhd lock)" "v \<in> set ?ws"
      with lf_waiting_waiter [OF w, of lock v] obtain p where
        "p \<in> set (ls_pending ls)" "lf_addr p = v" "lf_blk p = Some (lf_addr lock)" by auto
      then show False using kept [of p lock] v(2) by simp
    qed
    then show "distinct (lf_blkhd b)" using lf_waiting_distinct [OF w] b by (auto simp: eqs)
  qed (use lf_waiting_pending [OF w] in \<open>auto simp: pend split: if_splits\<close>)
  moreover have "lf_counted (ov' # lock' # M) ls'"
    using live by (simp add: lf_live_def lf_counted_def pend lf_uid_count_map) (simp add: eqs)
  moreover have "lf_addrs (ov' # lock' # M) ls'"
    using live unfolding lf_live_def lf_addrs_def me by (simp add: eqs)
  ultimately show ?thesis by (simp add: lf_live_def)
qed

section \<open>The loops keep the invariant\<close>

lemma lf_split_live:
  assumes "lf_live (ov # M) ls" and "lf_blkhd ov = []" and "lf_start ov \<noteq> lf_start lock"
  shows "\<exists>l tail ls'. lf_split ov lock ls = Some (l # lock # tail, ls') \<and> lf_live (l # tail @ M) ls' \<and>
    lf_addr l = lf_addr ov \<and> (\<forall>t \<in> set tail. lf_addr t = ls_next ls)"
proof (cases "lf_end ov = lf_end lock")
  case True
  let ?l = "ov\<lparr>lf_end := lf_start lock - 1\<rparr>"
  have "lf_live (?l # [] @ M) ls"
    using lf_live_modify [OF assms(1,2), of ?l] assms(2) by simp
  moreover have "lf_split ov lock ls = Some (?l # lock # [], ls)" using True assms(3) by (simp add: lf_split_def)
  moreover have "lf_addr ?l = lf_addr ov" by simp
  ultimately show ?thesis by (metis list.set(1) empty_iff)
next
  case False
  let ?l = "ov\<lparr>lf_end := lf_start lock - 1\<rparr>"
  let ?n = "\<lparr>lf_addr = ls_next ls, lf_flags = lf_flags ov, lf_type = lf_type ov,
              lf_start = lf_end lock + 1, lf_end = lf_end ov, lf_id = lf_id ov,
              lf_blk = None, lf_blkhd = [], lf_uid = lf_uid ov, lf_pid = lf_pid ov\<rparr>"
  let ?ls = "ls_ref (ls\<lparr>ui_lockcnt := (ui_lockcnt ls)(lf_uid ov := ui_lockcnt ls (lf_uid ov) + 1), ls_next := ls_next ls + 1\<rparr>)"
  have "lf_live (?l # M) ls" using lf_live_modify [OF assms(1,2), of ?l] assms(2) by simp
  then have "lf_live (?n # ?l # M) ?ls" by (rule lf_live_split) simp_all
  then have "lf_live (?l # [?n] @ M) ?ls" by (rule lf_live_perm) simp
  moreover have "lf_split ov lock ls = Some (?l # lock # [?n], ?ls)"
    using False assms(3) by (simp add: lf_split_def lf_alloc_def)
  ultimately show ?thesis by (intro exI [of _ ?l] exI [of _ "[?n]"]) auto
qed

lemma lf_live_wake_mid:
  assumes "lf_live (lock # P @ ov # post) ls"
  shows "lf_live (ov\<lparr>lf_blkhd := []\<rparr> # lock # P @ post) (lf_wake_list (lf_blkhd ov) f ls)"
  by (rule lf_live_wake, rule lf_live_perm [OF assms]) simp

lemma lf_clearlock_loop_live:
  assumes "lf_live (lock # pre @ lf) ls" and "lf_sorted (pre @ lf)" and "lf_wf lock" and "\<forall>a \<in> set pre. lf_before a lock"
  shows "\<exists>locks' ls'. lf_clearlock_loop lock pre lf ls = Some (locks', ls') \<and> lf_live (lock # locks') ls'"
  using assms
proof (induction "length lf" arbitrary: pre lf ls rule: less_induct)
  case less
  have sorted_lf: "lf_sorted lf" using less.prems(2) by (simp add: lf_sorted_append)
  from sorted_lf less.prems(3) show ?case
  proof (cases rule: lf_findoverlap_selfE)
    case (beyond skipped rest)
    then have "lf_clearlock_loop lock pre lf ls = Some (pre @ lf, ls)" by (subst lf_clearlock_loop.simps) simp
    then show ?thesis using less.prems(1) by blast
  next
    case (overlap c skipped ov post)
    define P where "P = pre @ skipped"
    define w where "w = lf_wake_list (lf_blkhd ov) 0 ls"
    define ov' where "ov' = ov\<lparr>lf_blkhd := []\<rparr>"
    note eq = lf_clearlock_loop_eq [OF overlap(1,4), of pre ls, unfolded Let_def, folded P_def w_def ov'_def]
    have live0: "lf_live (lock # P @ ov # post) ls" using less.prems(1) overlap(2) by (simp add: P_def)
    have live: "lf_live (ov' # lock # P @ post) w" unfolding ov'_def w_def by (rule lf_live_wake_mid [OF live0])
    have srt: "lf_sorted (P @ ov # post)" and P: "\<forall>a \<in> set P. lf_before a lock"
      using less.prems(2,4) overlap by (auto simp: P_def)
    have dist: "lf_addr lock \<notin> lf_addr ` set P" "lf_addr lock \<notin> lf_addr ` set post" "lf_addr lock \<noteq> lf_addr ov"
        "lf_addr lock < ls_next ls"
      using live0 by (auto simp: lf_live_def lf_addrs_def)
    have blkhd: "lf_blkhd ov' = []" by (simp add: ov'_def)
    have moved: "lf_live (lock # P @ l # post) w" if "lf_blkhd l = []" "lf_addr l = lf_addr ov'" "lf_uid l = lf_uid ov'" for l
      by (rule lf_live_perm [OF lf_live_modify [OF live blkhd that]]) simp
    obtain v where v: "lf_free ov' (P @ post) w = Some v" "lf_live (lock # P @ post) v"
      using lf_live_free [OF live blkhd] by blast
    have smaller: "length post < length lf" using overlap(2) by simp
    show ?thesis
    proof (cases c)
      case Ov0
      then show ?thesis using overlap(4) by simp
    next
      case Ov1
      then show ?thesis using eq v by simp
    next
      case Ov2
      show ?thesis
      proof (cases "lf_start ov = lf_start lock")
        case True
        then show ?thesis using eq Ov2 moved by (simp add: ov'_def)
      next
        case False
        with lf_split_live [OF live blkhd, of lock] obtain l tail u where
          sp: "lf_split ov' lock w = Some (l # lock # tail, u)" "lf_live (l # tail @ lock # P @ post) u"
            "lf_addr l = lf_addr ov" "\<forall>t \<in> set tail. lf_addr t = ls_next w" by (auto simp: ov'_def)
        have "ls_next w \<noteq> lf_addr lock" using dist(4) by (simp add: w_def)
        then have rm: "lf_remove lock (l # lock # tail) = l # tail"
          using sp(3,4) dist(3) by (force simp: lf_remove_def filter_id_conv)
        have "lf_live (lock # P @ (l # tail) @ post) u" by (rule lf_live_perm [OF sp(2)]) simp
        then show ?thesis
          using eq Ov2 False sp(1) by (simp add: rm ov'_def lf_remove_id [OF dist(1)] lf_remove_id [OF dist(2)])
      qed
    next
      case Ov3
      have "lf_sorted (P @ post)" using lf_sorted_replace [OF srt, of "[]"] by simp
      then show ?thesis using less.hyps [OF smaller v(2) _ less.prems(3) P] eq Ov3 v(1) by simp
    next
      case Ov4
      let ?l = "ov'\<lparr>lf_end := lf_start lock - 1\<rparr>"
      have bounds: "lf_start ov < lf_start lock \<and> lf_end ov \<noteq> -1 \<and> lf_start lock \<le> lf_end ov \<and> (lf_end lock = -1 \<or> lf_end ov < lf_end lock)"
        using lf_ovcase_4 [of ov lock] overlap(6,7) Ov4 by simp
      have "lf_pieces [?l] ov lock" using lf_pieces_left [OF overlap(7,5)] bounds by (auto simp: ov'_def)
      then have "lf_sorted ((P @ [?l]) @ post)" using lf_sorted_replace [OF srt, of "[?l]"] by (simp add: lf_pieces_def)
      moreover have "lf_before ?l lock" using bounds overlap(7) by (auto simp: ov'_def lf_before_def lf_wf_def)
      moreover have "lf_live (lock # (P @ [?l]) @ post) w" using moved [of ?l] blkhd by simp
      ultimately show ?thesis
        using less.hyps [OF smaller, of "P @ [?l]" w] less.prems(3) P eq Ov4 by simp
    next
      case Ov5
      then show ?thesis using eq moved [of "ov'\<lparr>lf_start := lf_end lock + 1\<rparr>"] blkhd by simp
    qed
  qed
qed

text \<open>Case 3 of setting: the requests the overlap blocks are woken or go over to the lock that contains it.\<close>

lemma lf_conflicts_mono:
  assumes "lf_id ov = lf_id lock" and "\<And>x. lf_covers ov x \<Longrightarrow> lf_covers lock x"
    and "lf_type ov = F_WRLCK \<Longrightarrow> lf_type lock = F_WRLCK" and "lf_conflicts ov p"
  shows "lf_conflicts lock p"
  using assms by (auto simp: lf_conflicts_def lf_overlaps_def)

lemma lf_set_case3_live:
  assumes "lf_live (ov # lock # M) ls" and "lf_id ov = lf_id lock" and "lf_type lock \<noteq> F_UNLCK"
    and "lf_start lock \<le> lf_start ov" and "lf_end lock = -1 \<or> lf_end ov \<noteq> -1 \<and> lf_end ov \<le> lf_end lock"
    and "lf_set_case3 lock ov ls = (ov', lock', ls')"
  shows "lf_live (ov' # lock' # M) ls'"
proof (cases "lf_downgrades lock ov")
  case True
  then show ?thesis
    using assms(6) lf_live_wake [OF assms(1), of 0] by (auto simp: lf_set_case3_def lf_wakelock_def)
next
  case False
  then have t: "lf_transfer ov lock ls = (ov', lock', ls')" using assms(6) by (simp add: lf_set_case3_def)
  show ?thesis
  proof (rule lf_live_transfer [OF assms(1) _ t])
    fix p assume "lf_conflicts ov p"
    then show "lf_conflicts lock p"
      using False assms(2-5) by (intro lf_conflicts_mono [of ov lock p]) (cases "lf_type lock"; auto simp: lf_covers_def lf_downgrades_def)+
  qed
qed

lemma lf_setlock_linked_live:
  assumes "lf_live (lock # A @ B @ block) ls" and "lf_sorted (A @ B @ block)" and "lf_wf lock" and "lf_type lock \<noteq> F_UNLCK"
    and "\<forall>a \<in> set A. lf_before a lock" and "\<forall>b \<in> set B. lf_id b \<noteq> lf_id lock"
    and "\<forall>b \<in> set block. lf_id b = lf_id lock \<longrightarrow> lf_start lock < lf_start b"
  shows "\<exists>locks' ls'. lf_setlock_loop False lock (A @ lock # B) block ls = Some (locks', ls') \<and> lf_live locks' ls'"
  using assms
proof (induction "length block" arbitrary: lock B block ls rule: less_induct)
  case less
  have sorted_block: "lf_sorted block" using less.prems(2) by (simp add: lf_sorted_append)
  from sorted_block less.prems(3) show ?case
  proof (cases rule: lf_findoverlap_selfE)
    case (beyond skipped rest)
    then have "lf_setlock_loop False lock (A @ lock # B) block ls = Some (A @ lock # B @ block, ls)"
      by (subst lf_setlock_loop.simps) simp
    moreover have "lf_live (A @ lock # B @ block) ls" by (rule lf_live_perm [OF less.prems(1)]) simp
    ultimately show ?thesis by blast
  next
    case (overlap c skipped ov post)
    let ?B = "B @ skipped"
    have foreign: "lf_id a \<noteq> lf_id lock" if "a \<in> set skipped" for a
      using that overlap(2,3) less.prems(7) sorted_block by (fastforce simp: lf_before_def lf_sorted_def lf_wf_def)
    have B: "\<forall>b \<in> set ?B. lf_id b \<noteq> lf_id lock" using less.prems(6) foreign by auto
    have start: "lf_start lock < lf_start ov" using less.prems(7) overlap(2,5) by simp
    have live: "lf_live (ov # lock # A @ ?B @ post) ls" by (rule lf_live_perm [OF less.prems(1)]) (simp add: overlap(2))
    have addr: "lf_addr lock \<notin> lf_addr ` set A" "lf_addr lock \<notin> lf_addr ` set ?B"
      using lf_live_dests(3) [OF less.prems(1)] overlap(2) by auto
    have srt: "lf_sorted ((A @ ?B) @ ov # post)" using less.prems(2) overlap(2) by simp
    consider (three) "c = Ov3" "lf_end lock = -1 \<or> lf_end ov \<noteq> -1 \<and> lf_end ov \<le> lf_end lock" | (five) "c = Ov5"
      by (rule lf_ovcase_cases [OF overlap(7) less.prems(3)]) (use overlap(4,6) start in auto)
    then show ?thesis
    proof cases
      case three
      obtain lock1 w where c3: "lf_set_case3 lock ov ls = (ov\<lparr>lf_blkhd := []\<rparr>, lock1, w)"
        using lf_set_case3_eq(2) [of lock ov ls] by (cases "lf_set_case3 lock ov ls") auto
      then obtain v where lock1: "lock1 = lock\<lparr>lf_blkhd := v\<rparr>" using lf_set_case3_eq(1) by blast
      have "lf_live (ov\<lparr>lf_blkhd := []\<rparr> # lock1 # A @ ?B @ post) w"
        by (rule lf_set_case3_live [OF live overlap(5) less.prems(4) _ three(2) c3]) (use start in simp)
      from lf_live_free [OF this, of "(A @ lock1 # ?B) @ post"] obtain u where
        u: "lf_free (ov\<lparr>lf_blkhd := []\<rparr>) ((A @ lock1 # ?B) @ post) w = Some u" "lf_live (lock1 # A @ ?B @ post) u" by auto
      have "lf_relink lock1 ((A @ lock # B) @ skipped) = A @ lock1 # ?B"
        using addr lf_relink_mid [of lock A ?B v] by (simp add: lock1)
      then have "lf_setlock_loop False lock (A @ lock # B) block ls = lf_setlock_loop False lock1 (A @ lock1 # ?B) post u"
        using overlap(1) three(1) c3 u(1) by (subst lf_setlock_loop.simps) (simp add: Let_def)
      moreover have "lf_sorted (A @ ?B @ post)" using lf_sorted_replace [OF srt, of "[]"] by simp
      then have "\<exists>locks' ls'. lf_setlock_loop False lock1 (A @ lock1 # ?B) post u = Some (locks', ls') \<and> lf_live locks' ls'"
        using u(2) less.prems B overlap(2) by (intro less.hyps [of post lock1 ?B u]) (auto simp: lock1)
      ultimately show ?thesis by simp
    next
      case five
      let ?ov = "ov\<lparr>lf_blkhd := [], lf_start := lf_end lock + 1\<rparr>" and ?w = "lf_wake_list (lf_blkhd ov) 0 ls"
      have "lf_live (?ov # lock # A @ ?B @ post) ?w"
        by (rule lf_live_modify [OF lf_live_wake [OF live]]) simp_all
      then have "lf_live (A @ lock # ?B @ ?ov # post) ?w" by (rule lf_live_perm) simp
      moreover have "lf_setlock_loop False lock (A @ lock # B) block ls = Some (A @ lock # ?B @ ?ov # post, ?w)"
        using overlap(1) five by (subst lf_setlock_loop.simps) (simp add: lf_wakelock_def Let_def)
      ultimately show ?thesis by blast
    qed
  qed
qed

lemma lf_set_case1_live:
  assumes "lf_live (lock # P @ ov # post) ls" and "lf_id ov = lf_id lock" and "lf_type lock \<noteq> F_UNLCK" and "lf_blkhd lock = []"
    and "lf_start ov = lf_start lock" and "lf_end ov = lf_end lock"
  shows "\<exists>locks' ls'. lf_set_case1 lock P ov post ls = Some (locks', ls') \<and> lf_live locks' ls'"
proof -
  have live: "lf_live (ov # lock # P @ post) ls" by (rule lf_live_perm [OF assms(1)]) simp
  have fin: ?thesis if "lf_live (ov1\<lparr>lf_type := lf_type lock\<rparr> # lock # P @ post) v"
    "lf_set_case1 lock P ov post ls =
      map_option (Pair (P @ ov1\<lparr>lf_type := lf_type lock\<rparr> # post)) (lf_free lock (P @ ov1\<lparr>lf_type := lf_type lock\<rparr> # post) v)" for ov1 v
  proof -
    have "lf_live (lock # P @ ov1\<lparr>lf_type := lf_type lock\<rparr> # post) v" by (rule lf_live_perm [OF that(1)]) simp
    from lf_live_free [OF this assms(4)] that(2) show ?thesis by fastforce
  qed
  show ?thesis
  proof (cases "lf_downgrades lock ov")
    case True
    show ?thesis
      by (rule fin [of "ov\<lparr>lf_blkhd := []\<rparr>" "lf_wake_list (lf_blkhd ov) 0 ls"], rule lf_live_modify [OF lf_live_wake [OF live]])
        (use True in \<open>simp_all add: lf_set_case1_def lf_wakelock_def Let_def\<close>)
  next
    case False
    have "lf_live (ov\<lparr>lf_type := lf_type lock\<rparr> # lock # P @ post) ls"
    proof (rule lf_live_stronger [OF live])
      fix p assume "lf_conflicts ov p"
      then show "lf_conflicts (ov\<lparr>lf_type := lf_type lock\<rparr>) p"
        by (rule lf_conflicts_mono [rotated 3])
          (use False assms(3) in \<open>simp_all add: lf_covers_def lf_downgrades_def, metis lf_type.exhaust\<close>)
    qed simp_all
    then show ?thesis by (rule fin) (use False in \<open>simp add: lf_set_case1_def Let_def\<close>)
  qed
qed

lemma lf_set_case2_live:
  assumes "lf_live (lock # P @ ov # post) ls" and "lf_blkhd lock = []"
  shows "\<exists>locks' ls'. lf_set_case2 True lock P ov post ls = Some (locks', ls') \<and> lf_live locks' ls'"
proof (cases "lf_type ov = lf_type lock")
  case True
  from lf_live_free [OF assms(1,2), of "P @ ov # post"] True show ?thesis by (fastforce simp: lf_set_case2_def)
next
  case False
  let ?ov = "ov\<lparr>lf_blkhd := []\<rparr>" and ?w = "lf_wake_list (lf_blkhd ov) 0 ls"
  have live: "lf_live (?ov # lock # P @ post) ?w" by (rule lf_live_wake_mid [OF assms(1)])
  show ?thesis
  proof (cases "lf_start ov = lf_start lock")
    case True
    have "lf_live (P @ lock # ?ov\<lparr>lf_start := lf_end lock + 1\<rparr> # post) ?w"
      by (rule lf_live_perm [OF lf_live_modify [OF live, of "?ov\<lparr>lf_start := lf_end lock + 1\<rparr>"]]) simp_all
    then show ?thesis using True False by (simp add: lf_set_case2_def lf_wakelock_def)
  next
    case start: False
    with lf_split_live [OF live, of lock] obtain l tail u where
      sp: "lf_split ?ov lock ?w = Some (l # lock # tail, u)" "lf_live (l # tail @ lock # P @ post) u" by auto
    have "lf_live (P @ (l # lock # tail) @ post) u" by (rule lf_live_perm [OF sp(2)]) simp
    then show ?thesis using start False sp(1) by (simp add: lf_set_case2_def lf_wakelock_def)
  qed
qed

lemma lf_setlock_loop_live:
  assumes live: "lf_live (lock # pre @ block) ls" and srt: "lf_sorted (pre @ block)" and wf: "lf_wf lock"
    and type: "lf_type lock \<noteq> F_UNLCK" and blkhd: "lf_blkhd lock = []" and pre: "\<forall>a \<in> set pre. lf_before a lock"
  shows "\<exists>locks' ls'. lf_setlock_loop True lock pre block ls = Some (locks', ls') \<and> lf_live locks' ls'"
proof -
  have "lf_sorted block" using srt by (simp add: lf_sorted_append)
  from this wf show ?thesis
  proof (cases rule: lf_findoverlap_selfE)
    case (beyond skipped rest)
    then have "lf_setlock_loop True lock pre block ls = Some ((pre @ skipped) @ lock # rest, ls)"
      by (subst lf_setlock_loop.simps) simp
    moreover have "lf_live ((pre @ skipped) @ lock # rest) ls"
      by (rule lf_live_perm [OF live]) (simp add: beyond(2))
    ultimately show ?thesis by blast
  next
    case (overlap c skipped ov post)
    let ?P = "pre @ skipped"
    note own = overlap(5) and wfo = overlap(7)
    have liveP: "lf_live (lock # ?P @ ov # post) ls" using live overlap(2) by simp
    have liveov: "lf_live (ov # lock # ?P @ post) ls" by (rule lf_live_perm [OF liveP]) simp
    have P: "\<forall>a \<in> set ?P. lf_before a lock" using pre overlap(3) by auto
    have srt': "lf_sorted (?P @ ov # post)" using srt overlap(2) by simp
    have later: "\<forall>b \<in> set post. lf_id b = lf_id lock \<longrightarrow> lf_start lock < lf_start b"
      if "lf_end ov \<noteq> -1 \<Longrightarrow> lf_start lock \<le> lf_end ov"
      using that srt' own by (fastforce simp: lf_sorted_append lf_sorted_Cons lf_before_def)
    have linked: "\<exists>locks' ls'. lf_setlock_loop False lock' ((?P @ ps) @ [lock']) post u = Some (locks', ls') \<and> lf_live locks' ls'"
      if "lf_live (lock' # ?P @ ps @ post) u" and "lock' = lock\<lparr>lf_blkhd := v\<rparr>" and "lf_pieces ps ov lock"
        and "\<forall>p \<in> set ps. lf_before p lock" and "lf_end ov \<noteq> -1 \<Longrightarrow> lf_start lock \<le> lf_end ov" for lock' ps u v
    proof -
      have "lf_sorted (?P @ ps @ post)" using lf_sorted_replace [OF srt'] that(3) by (simp add: lf_pieces_def)
      then show ?thesis
        using lf_setlock_linked_live [of lock' "?P @ ps" "[]" post u] that(1,2,4) wf type P later [OF that(5)] by auto
    qed
    from wfo wf show ?thesis
    proof (cases rule: lf_ovcase_cases)
      case 1
      then show ?thesis using overlap(4,6) by simp
    next
      case 2
      then show ?thesis
        using lf_set_case1_live [OF liveP own type blkhd] overlap(1,6) by (subst lf_setlock_loop.simps) simp
    next
      case 3
      then show ?thesis
        using lf_set_case2_live [OF liveP blkhd] overlap(1,6) by (subst lf_setlock_loop.simps) simp
    next
      case 4
      obtain lock1 w where c3: "lf_set_case3 lock ov ls = (ov\<lparr>lf_blkhd := []\<rparr>, lock1, w)"
        using lf_set_case3_eq(2) [of lock ov ls] by (cases "lf_set_case3 lock ov ls") auto
      then obtain v where lock1: "lock1 = lock\<lparr>lf_blkhd := v\<rparr>" using lf_set_case3_eq(1) by blast
      have "lf_live (ov\<lparr>lf_blkhd := []\<rparr> # lock1 # ?P @ post) w"
        by (rule lf_set_case3_live [OF liveov own type 4(2,3) c3])
      from lf_live_free [OF this, of "(?P @ [lock1]) @ post"] obtain u where
        u: "lf_free (ov\<lparr>lf_blkhd := []\<rparr>) ((?P @ [lock1]) @ post) w = Some u" "lf_live (lock1 # ?P @ post) u" by auto
      have "lf_setlock_loop True lock pre block ls = lf_setlock_loop False lock1 (?P @ [lock1]) post u"
        using overlap(1,6) 4(1) c3 u(1) by (subst lf_setlock_loop.simps) (simp add: Let_def)
      then show ?thesis
        using linked [of lock1 "[]" u v] u(2) lock1 lf_pieces_none [OF 4(2,3)] 4(2) wfo by (auto simp: lf_wf_def)
    next
      case 5
      let ?ov = "ov\<lparr>lf_blkhd := [], lf_end := lf_start lock - 1\<rparr>" and ?w = "lf_wake_list (lf_blkhd ov) 0 ls"
      have "lf_live (?ov # lock # ?P @ post) ?w"
        by (rule lf_live_modify [OF lf_live_wake [OF liveov]]) simp_all
      then have lv: "lf_live (lock # ?P @ [?ov] @ post) ?w" by (rule lf_live_perm) simp
      have "lf_setlock_loop True lock pre block ls = lf_setlock_loop False lock ((?P @ [?ov]) @ [lock]) post ?w"
        using overlap(1,6) 5(1) by (subst lf_setlock_loop.simps) (simp add: lf_wakelock_def Let_def)
      moreover have "lf_before ?ov lock" using 5 wfo by (auto simp: lf_before_def lf_wf_def)
      moreover have "lf_pieces [?ov] ov lock" using lf_pieces_left [OF wfo own] 5 by auto
      ultimately show ?thesis using linked [OF lv, of "lf_blkhd lock"] 5 by simp
    next
      case 6
      let ?ov = "ov\<lparr>lf_blkhd := [], lf_start := lf_end lock + 1\<rparr>" and ?w = "lf_wake_list (lf_blkhd ov) 0 ls"
      have "lf_live (?ov # lock # ?P @ post) ?w"
        by (rule lf_live_modify [OF lf_live_wake [OF liveov]]) simp_all
      then have "lf_live (?P @ lock # ?ov # post) ?w" by (rule lf_live_perm) simp
      then show ?thesis
        using overlap(1,6) 6(1) by (subst lf_setlock_loop.simps) (simp add: lf_wakelock_def Let_def)
    qed
  qed
qed

end
