(* ===== verification/Lockf_Ops.thy ===== *)
theory Lockf_Ops
  imports Lockf_Wait
begin

text \<open>
  The operations on advisory locks as a whole: \<^verbatim>\<open>lf_setlock\<close> with its sleep, \<^verbatim>\<open>lf_clearlock\<close>, \<^verbatim>\<open>lf_getlock\<close>,
  \<^verbatim>\<open>lf_deadlock\<close>, \<^verbatim>\<open>lf_purgelocks\<close> and \<^verbatim>\<open>lf_advlock\<close>, in any interleaving.
\<close>

section \<open>Taking a request and leaving it\<close>

definition lf_inv :: "lockf_state \<Rightarrow> bool" where [kern_inv]:
  "lf_inv ls \<longleftrightarrow> lf_sorted (ls_locks ls) \<and> lf_compatible (ls_locks ls) \<and> lf_live (ls_locks ls) ls \<and>
     (\<forall>p \<in> set (ls_pending ls). lf_type p \<noteq> F_UNLCK)"

text \<open>A request in the hands of the thread that runs: allocated, on neither list.\<close>

definition lf_in_hand :: "lockf \<Rightarrow> lockf_state \<Rightarrow> bool" where [kern_inv]:
  "lf_in_hand lock ls \<longleftrightarrow> lf_sorted (ls_locks ls) \<and> lf_compatible (ls_locks ls) \<and> lf_live (lock # ls_locks ls) ls \<and>
     (\<forall>p \<in> set (ls_pending ls). lf_type p \<noteq> F_UNLCK) \<and> lf_wf lock \<and> lf_blkhd lock = [] \<and> lf_blk lock = None"

lemma lf_in_hand_addr:
  assumes "lf_in_hand lock ls"
  shows "lf_addr lock \<notin> lf_addr ` set (ls_locks ls)" and "lf_addr lock < ls_next ls"
    and "lf_addr lock \<notin> lf_addr ` set (ls_pending ls)"
  using assms by (auto simp: lf_in_hand_def lf_live_def lf_addrs_def)

lemma lf_alloc_in_hand:
  assumes "lf_inv ls" and "lf_alloc uid n (ls_ref ls) = Some (a, ls')" and "lf_addr lock = a" and "lf_uid lock = uid"
    and "lf_wf lock" and "lf_blkhd lock = []" and "lf_blk lock = None"
  shows "lf_in_hand lock ls' \<and> ls_locks ls' = ls_locks ls \<and> ls_pending ls' = ls_pending ls"
proof -
  have eq: "a = ls_next ls"
    "ls' = ls_ref (ls\<lparr>ui_lockcnt := (ui_lockcnt ls)(uid := ui_lockcnt ls uid + 1), ls_next := ls_next ls + 1\<rparr>)"
    using assms(2) by (auto simp: lf_alloc_def ls_ref_def split: if_splits)
  have "lf_live (lock # ls_locks ls) ls'"
    unfolding eq by (rule lf_live_split) (use assms eq in \<open>simp_all add: lf_inv_def\<close>)
  moreover have "ls_locks ls' = ls_locks ls" "ls_pending ls' = ls_pending ls" by (simp_all add: eq ls_ref_def)
  ultimately show ?thesis using assms by (auto simp: lf_in_hand_def lf_inv_def)
qed

lemma lf_free_in_hand:
  assumes "lf_in_hand lock ls"
  shows "\<exists>ls'. lf_free lock (ls_locks ls) ls = Some ls' \<and> lf_inv ls' \<and> ls_locks ls' = ls_locks ls \<and> ls_pending ls' = ls_pending ls"
proof -
  from lf_live_free [of lock "ls_locks ls" ls "ls_locks ls"] assms obtain ls' where
    "lf_free lock (ls_locks ls) ls = Some ls'" "lf_live (ls_locks ls) ls'"
    "ls_pending ls' = ls_pending ls" "ls_locks ls' = ls_locks ls" by (auto simp: lf_in_hand_def)
  with assms show ?thesis by (auto simp: lf_inv_def lf_in_hand_def)
qed

section \<open>Unlocking\<close>

definition lf_cleared :: "lockf \<Rightarrow> lockf list \<Rightarrow> lockf list \<Rightarrow> bool" where
  "lf_cleared lock l l' \<longleftrightarrow>
     (\<forall>i x. lf_holds l' i x = (if i = lf_id lock \<and> lf_covers lock x then None else lf_holds l i x)) \<and>
     filter (\<lambda>b. lf_id b \<noteq> lf_id lock) l' = filter (\<lambda>b. lf_id b \<noteq> lf_id lock) l"

lemma lf_cleared_compatible: "lf_cleared lock l l' \<Longrightarrow> lf_compatible l \<Longrightarrow> lf_compatible l'"
  by (simp add: lf_cleared_def lf_compatible_def)

text \<open>The pending requests, but for the lock each waits for, which is all that waking and handing over change.\<close>

definition lf_requests :: "lockf_state \<Rightarrow> lockf list" where
  "lf_requests ls = map (\<lambda>p. p\<lparr>lf_blk := None\<rparr>) (ls_pending ls)"

lemma lf_wake_list_requests [simp]: "lf_requests (lf_wake_list as 0 ls) = lf_requests ls"
  by (simp add: lf_requests_def lf_wake_list_pending)

lemma lf_transfer_list_requests [simp]: "lf_requests (lf_transfer_list ws a ls) = lf_requests ls"
  by (simp add: lf_requests_def lf_transfer_list_pending)

lemma lf_free_requests: "lf_free l locks ls = Some ls' \<Longrightarrow> lf_requests ls' = lf_requests ls"
  by (auto simp: lf_requests_def lf_free_def ls_rele_def Let_def bind_eq_Some_conv split: if_splits)

lemma lf_split_requests: "lf_split l m ls = Some (ps, ls') \<Longrightarrow> lf_requests ls' = lf_requests ls"
  by (auto simp: lf_requests_def lf_split_def lf_alloc_def ls_ref_def split: if_splits)

lemma lf_wakelock_requests [simp]: "lf_requests (snd (lf_wakelock l 0 ls)) = lf_requests ls"
  by (simp add: lf_wakelock_def)

text \<open>The two loops go on after the lock found, in a shorter list.\<close>

lemma lf_overlapE:
  assumes "lf_findoverlap lf lock type = Some (c, skipped, rest)" and "c \<noteq> Ov0"
  obtains ov post where "rest = ov # post" and "length post < length lf"
  using lf_findoverlap_append [OF assms(1)] lf_findoverlap_rest [OF assms] by (cases rest) auto

lemma lf_clearlock_loop_requests:
  "lf_clearlock_loop lock pre lf ls = Some (locks', ls') \<Longrightarrow> lf_requests ls' = lf_requests ls"
proof (induction "length lf" arbitrary: pre lf ls rule: less_induct)
  case less
  then obtain c skipped rest where f: "lf_findoverlap lf lock SELF = Some (c, skipped, rest)"
    by (subst (asm) (2) lf_clearlock_loop.simps) (auto split: option.splits)
  show ?case
  proof (cases "c = Ov0")
    case True
    then show ?thesis using less.prems f by (subst (asm) lf_clearlock_loop.simps) simp
  next
    case False
    from f False obtain ov post where rest: "rest = ov # post" "length post < length lf" by (rule lf_overlapE)
    let ?w = "lf_wake_list (lf_blkhd ov) 0 ls"
    note loop = less.prems [unfolded lf_clearlock_loop_eq [OF f [unfolded rest] False] Let_def]
    have up: "lf_requests v = lf_requests ls" if "lf_free (ov\<lparr>lf_blkhd := []\<rparr>) l ?w = Some v" for v l
      using lf_free_requests [OF that] by simp
    show ?thesis
      using loop False less.hyps [OF rest(2)] lf_split_requests [of _ _ ?w] up
      by (cases c) (fastforce simp: bind_eq_Some_conv split: if_splits)+
  qed
qed

lemma lf_set_case1_requests: "lf_set_case1 lock P ov post ls = Some (l', ls') \<Longrightarrow> lf_requests ls' = lf_requests ls"
  by (auto simp: lf_set_case1_def lf_wakelock_def Let_def dest!: lf_free_requests split: if_splits)

lemma lf_set_case2_requests: "lf_set_case2 n lock P ov post ls = Some (l', ls') \<Longrightarrow> lf_requests ls' = lf_requests ls"
  by (auto simp: lf_set_case2_def lf_wakelock_def Let_def dest!: lf_free_requests lf_split_requests split: if_splits)

lemma lf_set_case3_requests: "lf_set_case3 lock ov ls = (ov', lock', ls') \<Longrightarrow> lf_requests ls' = lf_requests ls"
  by (auto simp: lf_set_case3_def lf_wakelock_def lf_transfer_def split: if_splits)

lemma lf_setlock_loop_requests:
  "lf_setlock_loop n lock pre block ls = Some (locks', ls') \<Longrightarrow> lf_requests ls' = lf_requests ls"
proof (induction "length block" arbitrary: n lock pre block ls rule: less_induct)
  case less
  then obtain c skipped rest where f: "lf_findoverlap block lock SELF = Some (c, skipped, rest)"
    by (subst (asm) (2) lf_setlock_loop.simps) (auto split: option.splits)
  note loop = less.prems [unfolded lf_setlock_loop.simps [of n]]
  show ?case
  proof (cases "c = Ov0")
    case True
    then show ?thesis using loop f by (simp add: Let_def split: if_splits)
  next
    case False
    from f False obtain ov post where rest: "rest = ov # post" "length post < length block" by (rule lf_overlapE)
    note IH = less.hyps [OF rest(2)]
    consider "c = Ov1" | "c = Ov2" | "c = Ov3" | "c = Ov4" | "c = Ov5" using False by (cases c) auto
    then show ?thesis
    proof cases
      case 3
      obtain ov' lock' w where c3: "lf_set_case3 lock ov ls = (ov', lock', w)" by (cases "lf_set_case3 lock ov ls")
      show ?thesis
        using loop f 3 rest(1) c3 IH lf_free_requests [of ov' _ w] lf_set_case3_requests [OF c3]
        by (fastforce simp: Let_def split: option.splits)
    qed (use loop f rest(1) IH lf_set_case1_requests lf_set_case2_requests in
        \<open>fastforce simp: Let_def lf_wakelock_def\<close>)+
  qed
qed

lemma lf_requests_types:
  "lf_requests ls' = lf_requests ls \<Longrightarrow> \<forall>p \<in> set (ls_pending ls). lf_type p \<noteq> F_UNLCK \<Longrightarrow>
   \<forall>p \<in> set (ls_pending ls'). lf_type p \<noteq> F_UNLCK"
proof -
  assume eq: "lf_requests ls' = lf_requests ls" and ok: "\<forall>p \<in> set (ls_pending ls). lf_type p \<noteq> F_UNLCK"
  have "lf_type ` set (ls_pending l) = lf_type ` set (lf_requests l)" for l by (auto simp: lf_requests_def image_iff)
  then have "lf_type ` set (ls_pending ls') = lf_type ` set (ls_pending ls)" using eq by simp
  then show ?thesis using ok by (metis imageE image_eqI)
qed

text \<open>
  \<^verbatim>\<open>lf_clearlock\<close> does not panic, takes exactly the bytes of the request from its owner and leaves the locks of the
  others as they are.
\<close>

lemma lf_clearlock_ok:
  assumes "lf_in_hand lock ls"
  obtains ls' where "lf_clearlock lock ls = Some ls'" and "lf_in_hand lock ls'"
    and "lf_cleared lock (ls_locks ls) (ls_locks ls')" and "lf_requests ls' = lf_requests ls"
proof -
  have h: "lf_sorted (ls_locks ls)" "lf_compatible (ls_locks ls)" "lf_live (lock # [] @ ls_locks ls) ls" "lf_wf lock"
    "\<forall>p \<in> set (ls_pending ls). lf_type p \<noteq> F_UNLCK"
    using assms by (simp_all add: lf_in_hand_def)
  from lf_clearlock_loop_live [OF h(3) _ h(4)] h(1) obtain l' v where
    loop: "lf_clearlock_loop lock [] (ls_locks ls) ls = Some (l', v)" "lf_live (lock # l') v" by auto
  have spec: "lf_sorted l'" "lf_cleared lock (ls_locks ls) l'"
    using lf_clearlock_loop_spec [OF loop(1) _ h(4)] h(1) lf_in_hand_addr [OF assms] by (simp_all add: lf_cleared_def)
  note req = lf_clearlock_loop_requests [OF loop(1)]
  show ?thesis
  proof (rule that)
    show "lf_clearlock lock ls = Some (v\<lparr>ls_locks := l'\<rparr>)" by (simp add: lf_clearlock_def loop(1))
    show "lf_requests (v\<lparr>ls_locks := l'\<rparr>) = lf_requests ls" using req by (simp add: lf_requests_def)
    show "lf_cleared lock (ls_locks ls) (ls_locks (v\<lparr>ls_locks := l'\<rparr>))" using spec by simp
    show "lf_in_hand lock (v\<lparr>ls_locks := l'\<rparr>)"
      using assms loop(2) spec lf_cleared_compatible [OF spec(2) h(2)] lf_requests_types [OF req h(5)]
      by (simp add: lf_in_hand_def)
  qed
qed

section \<open>Locking\<close>

lemma lf_updated_compatible:
  assumes upd: "lf_updated lock l l'" and ok: "lf_compatible l" and no: "\<forall>b \<in> set l. \<not> lf_conflicts b lock"
  shows "lf_compatible l'"
proof -
  have other: "lf_type lock \<noteq> F_WRLCK \<and> lf_holds l j x \<noteq> Some F_WRLCK \<or> lf_holds l j x = None"
    if "j \<noteq> lf_id lock" "lf_covers lock x" for j x
  proof (cases "lf_holds l j x")
    case (Some t)
    then have "\<exists>b \<in> set l. lf_id b = j \<and> lf_covers b x \<and> lf_type b = t" by (induction l) (auto split: if_splits)
    then show ?thesis using no that Some by (auto simp: lf_conflicts_def lf_overlaps_def)
  qed simp
  show ?thesis
    unfolding lf_compatible_def
  proof (intro allI impI)
    fix i j x
    assume ij: "i \<noteq> (j :: nat)" and w: "lf_holds l' i x = Some F_WRLCK"
    have h: "lf_holds l' k x = (if k = lf_id lock \<and> lf_covers lock x then Some (lf_type lock) else lf_holds l k x)" for k
      using upd by (simp add: lf_updated_def)
    show "lf_holds l' j x = None"
      using w ij ok other [of i x] other [of j x] unfolding h lf_compatible_def by (auto split: if_splits)
  qed
qed

lemma lf_getblock_cases:
  assumes "lf_in_hand lock ls"
  obtains (free) "lf_getblock (ls_locks ls) lock = Some []" and "\<forall>b \<in> set (ls_locks ls). \<not> lf_conflicts b lock"
    | (blocked) pre b post where "lf_getblock (ls_locks ls) lock = Some (b # post)" and "ls_locks ls = pre @ b # post"
      and "lf_conflicts b lock" and "\<forall>a \<in> set pre. \<not> lf_conflicts a lock"
proof -
  let ?d = "dropWhile (\<lambda>a. \<not> lf_conflicts a lock) (ls_locks ls)"
  have g: "lf_getblock (ls_locks ls) lock = Some ?d"
    by (rule lf_getblock_spec) (use assms in \<open>auto simp: lf_in_hand_def lf_sorted_def\<close>)
  show ?thesis
  proof (cases ?d)
    case Nil
    then show ?thesis using g by (intro free) (simp_all add: dropWhile_eq_Nil_conv)
  next
    case (Cons b post)
    show ?thesis
    proof (rule blocked)
      show "lf_getblock (ls_locks ls) lock = Some (b # post)" using g Cons by simp
      show "ls_locks ls = takeWhile (\<lambda>a. \<not> lf_conflicts a lock) (ls_locks ls) @ b # post"
        unfolding Cons [symmetric] by simp
      show "lf_conflicts b lock" using Cons by (simp add: dropWhile_eq_Cons_conv)
    qed (auto dest: set_takeWhileD)
  qed
qed

lemma lf_granted:
  assumes "lf_in_hand lock ls" and "lf_type lock \<noteq> F_UNLCK" and "\<forall>b \<in> set (ls_locks ls). \<not> lf_conflicts b lock"
  obtains l' ls' where "lf_setlock_loop True lock [] (ls_locks ls) ls = Some (l', ls')" and "lf_inv (ls'\<lparr>ls_locks := l'\<rparr>)"
    and "lf_updated lock (ls_locks ls) l'" and "lf_requests ls' = lf_requests ls"
proof -
  have h: "lf_sorted (ls_locks ls)" "lf_compatible (ls_locks ls)" "lf_live (lock # [] @ ls_locks ls) ls" "lf_wf lock"
    "\<forall>p \<in> set (ls_pending ls). lf_type p \<noteq> F_UNLCK" "lf_blkhd lock = []"
    using assms(1) by (simp_all add: lf_in_hand_def)
  from lf_setlock_loop_live [OF h(3) _ h(4) assms(2) h(6)] h(1) obtain l' v where
    loop: "lf_setlock_loop True lock [] (ls_locks ls) ls = Some (l', v)" "lf_live l' v" by auto
  have upd: "lf_updated lock (ls_locks ls) l'"
    using lf_setlock_loop_spec [OF loop(1) _ h(4)] h(1) lf_in_hand_addr [OF assms(1)] by simp
  note req = lf_setlock_loop_requests [OF loop(1)]
  show ?thesis
  proof (rule that [OF loop(1) _ upd req])
    show "lf_inv (v\<lparr>ls_locks := l'\<rparr>)"
      using upd loop(2) lf_updated_compatible [OF upd h(2) assms(3)] lf_requests_types [OF req h(5)]
      by (simp add: lf_inv_def lf_updated_def)
  qed
qed

text \<open>Changing only the list of the requests a lock blocks changes neither what is held nor the order.\<close>

definition lf_blkhds :: "(lockf \<Rightarrow> nat list) \<Rightarrow> lockf list \<Rightarrow> lockf list" where
  "lf_blkhds f l = map (\<lambda>b. b\<lparr>lf_blkhd := f b\<rparr>) l"

lemma lf_blkhds_holds [simp]: "lf_holds (lf_blkhds f l) i x = lf_holds l i x"
  by (induction l) (auto simp: lf_blkhds_def)

lemma lf_blkhds_sorted [simp]: "lf_sorted (lf_blkhds f l) = lf_sorted l"
  by (induction l) (auto simp: lf_blkhds_def lf_sorted_Cons)

lemma lf_blkhds_compatible [simp]: "lf_compatible (lf_blkhds f l) = lf_compatible l"
  by (simp add: lf_compatible_def)

lemma lf_blkhds_addr [simp]: "map lf_addr (lf_blkhds f l) = map lf_addr l" "length (lf_blkhds f l) = length l"
  "lf_uid_count u (lf_blkhds f l) = lf_uid_count u l"
  by (simp_all add: lf_blkhds_def lf_uid_count_def filter_map o_def)

lemma lf_blkhds_set: "b' \<in> set (lf_blkhds f l) \<longleftrightarrow> (\<exists>b \<in> set l. b' = b\<lparr>lf_blkhd := f b\<rparr>)"
  by (auto simp: lf_blkhds_def)

lemma lf_enqueue_eq:
  "lf_enqueue lock block ls =
     ls\<lparr>ls_locks := lf_blkhds (\<lambda>x. if lf_addr x = lf_addr block then lf_blkhd x @ [lf_addr lock] else lf_blkhd x) (ls_locks ls),
        ls_pending := ls_pending ls @ [lock\<lparr>lf_blk := Some (lf_addr block)\<rparr>]\<rparr>"
  by (simp add: lf_enqueue_def lf_blkhds_def if_distrib [of "\<lambda>v. lf_blkhd_update (\<lambda>_. v) _"] cong: if_cong)

lemma lf_enqueue_inv:
  assumes hand: "lf_in_hand lock ls" and b: "b \<in> set (ls_locks ls)" "lf_conflicts b lock" and type: "lf_type lock \<noteq> F_UNLCK"
  shows "lf_inv (lf_enqueue lock b ls)"
proof -
  let ?f = "\<lambda>x. if lf_addr x = lf_addr b then lf_blkhd x @ [lf_addr lock] else lf_blkhd x"
  let ?M = "lf_blkhds ?f (ls_locks ls)" and ?p = "lock\<lparr>lf_blk := Some (lf_addr b)\<rparr>"
  let ?ls = "ls\<lparr>ls_locks := ?M, ls_pending := ls_pending ls @ [?p]\<rparr>"
  have live: "lf_live (lock # ls_locks ls) ls" and lock: "lf_wf lock" "lf_blkhd lock = []" using hand by (simp_all add: lf_in_hand_def)
  note w = lf_live_dests(1) [OF live]
  have new: "lf_addr lock \<notin> set (lf_blkhd c)" if "c \<in> set (ls_locks ls)" for c
    using lf_waiting_waiter [OF w, of c "lf_addr lock"] that lf_in_hand_addr(3) [OF hand] by (metis image_eqI list.set_intros(2))
  have "lf_waiting ?M ?ls"
  proof (rule lf_waitingI)
    fix p assume "p \<in> set (ls_pending ?ls)"
    then show "lf_wf p \<and> lf_blkhd p = []" using lf_waiting_pending [OF w] lock by auto
  next
    fix p a assume p: "p \<in> set (ls_pending ?ls)" "lf_blk p = Some a"
    have "\<exists>c \<in> set (ls_locks ls). lf_addr c = a \<and> lf_addr p \<in> set (?f c) \<and> lf_conflicts c p"
    proof (cases "p = ?p")
      case True
      then show ?thesis using b p(2) by (intro bexI [of _ b]) auto
    next
      case False
      then have "p \<in> set (ls_pending ls)" using p(1) by auto
      from lf_waiting_blocker [OF w this p(2)] lock(2) obtain c where
        "c \<in> set (ls_locks ls)" "lf_addr c = a" "lf_addr p \<in> set (lf_blkhd c)" "lf_conflicts c p" by auto
      then show ?thesis by (intro bexI [of _ c]) auto
    qed
    then show "\<exists>c \<in> set ?M. lf_addr c = a \<and> lf_addr p \<in> set (lf_blkhd c) \<and> lf_conflicts c p"
      unfolding lf_blkhds_def by force
  next
    fix c assume "c \<in> set ?M"
    then show "distinct (lf_blkhd c)" using lf_waiting_distinct [OF w] new by (auto simp: lf_blkhds_set)
  next
    fix c v assume "c \<in> set ?M" "v \<in> set (lf_blkhd c)"
    then obtain d where d: "d \<in> set (ls_locks ls)" "lf_addr c = lf_addr d" "v \<in> set (?f d)" by (auto simp: lf_blkhds_set)
    then show "\<exists>p \<in> set (ls_pending ?ls). lf_addr p = v \<and> lf_blk p = Some (lf_addr c)"
      using lf_waiting_waiter [OF w, of d v] by (cases "v \<in> set (lf_blkhd d)") (auto split: if_splits)
  qed
  moreover have "lf_counted ?M ?ls" using live by (auto simp: lf_live_def lf_counted_def)
  moreover have "lf_addrs ?M ?ls" using live by (auto simp: lf_live_def lf_addrs_def)
  ultimately show ?thesis
    using hand type by (auto simp: lf_inv_def lf_in_hand_def lf_live_def lf_enqueue_eq)
qed

lemma lf_unblock_eq:
  "lf_unblock p ls =
     ls\<lparr>ls_pending := lf_remove p (ls_pending ls), ls_purger_woken := ls_purger_woken ls + 1,
        ls_locks := lf_blkhds (\<lambda>x. if lf_blk p = Some (lf_addr x) then remove1 (lf_addr p) (lf_blkhd x) else lf_blkhd x) (ls_locks ls)\<rparr>"
  by (cases "lf_blk p") (auto simp: lf_unblock_def lf_blkhds_def intro!: map_idI)

lemma lf_remove_split:
  assumes "distinct (map lf_addr (A @ p # B))"
  shows "lf_remove p (A @ p # B) = A @ B"
  using assms lf_remove_id [of p A] lf_remove_id [of p B] by (simp add: lf_remove_def)

lemma lf_unblock_in_hand:
  assumes inv: "lf_inv ls" and p: "p \<in> set (ls_pending ls)"
  shows "lf_in_hand (p\<lparr>lf_blk := None\<rparr>) (lf_unblock p ls)"
proof -
  let ?f = "\<lambda>x. if lf_blk p = Some (lf_addr x) then remove1 (lf_addr p) (lf_blkhd x) else lf_blkhd x"
  let ?M = "lf_blkhds ?f (ls_locks ls)" and ?q = "p\<lparr>lf_blk := None\<rparr>"
  obtain A B where split: "ls_pending ls = A @ p # B" using p by (meson split_list)
  have live: "lf_live (ls_locks ls) ls" using inv by (simp add: lf_inv_def)
  note w = lf_live_dests(1) [OF live] and dist = lf_live_dests(3) [OF live]
  have rem: "lf_remove p (ls_pending ls) = A @ B"
    unfolding split by (rule lf_remove_split) (use dist in \<open>simp add: split\<close>)
  have other: "lf_addr q \<noteq> lf_addr p" if "q \<in> set (A @ B)" for q using that dist unfolding split by (auto simp: rev_image_eqI)
  let ?ls = "ls\<lparr>ls_pending := A @ B, ls_purger_woken := ls_purger_woken ls + 1, ls_locks := ?M\<rparr>"
  have gone: "lf_addr p \<notin> set (?f c)" if "c \<in> set (ls_locks ls)" for c
  proof
    assume "lf_addr p \<in> set (?f c)"
    then have "lf_addr p \<in> set (lf_blkhd c)" "lf_blk p \<noteq> Some (lf_addr c)"
      using lf_waiting_distinct [OF w that] by (auto split: if_splits)
    then show False using lf_waiting_waiter [OF w that] lf_pending_unique [OF live _ p] by auto
  qed
  have "lf_waiting (?q # ?M) ?ls"
  proof (rule lf_waitingI)
    fix q assume "q \<in> set (ls_pending ?ls)"
    then show "lf_wf q \<and> lf_blkhd q = []" using lf_waiting_pending [OF w, of q] by (auto simp: split)
  next
    fix q a assume q: "q \<in> set (ls_pending ?ls)" "lf_blk q = Some a"
    then obtain c where "c \<in> set (ls_locks ls)" "lf_addr c = a" "lf_addr q \<in> set (lf_blkhd c)" "lf_conflicts c q"
      using lf_waiting_blocker [OF w, of q] by (auto simp: split)
    moreover from this q have "lf_addr q \<in> set (?f c)" using other [of q] by simp
    ultimately show "\<exists>c \<in> set (?q # ?M). lf_addr c = a \<and> lf_addr q \<in> set (lf_blkhd c) \<and> lf_conflicts c q"
      unfolding lf_blkhds_def by force
  next
    fix c assume "c \<in> set (?q # ?M)"
    then show "distinct (lf_blkhd c)"
      using lf_waiting_distinct [OF w] lf_waiting_pending [OF w p] by (auto simp: lf_blkhds_set)
  next
    fix c v assume cv: "c \<in> set (?q # ?M)" "v \<in> set (lf_blkhd c)"
    then obtain d where d: "d \<in> set (ls_locks ls)" "c = d\<lparr>lf_blkhd := ?f d\<rparr>"
      using lf_waiting_pending [OF w p] by (auto simp: lf_blkhds_set)
    then have "v \<in> set (lf_blkhd d)" "v \<noteq> lf_addr p"
      using cv gone [OF d(1)] by (auto split: if_splits dest: set_remove1_subset [THEN subsetD])
    then show "\<exists>q \<in> set (ls_pending ?ls). lf_addr q = v \<and> lf_blk q = Some (lf_addr c)"
      using lf_waiting_waiter [OF w d(1)] d(2) by (auto simp: split)
  qed
  moreover have "lf_counted (?q # ?M) ?ls" using live by (auto simp: lf_live_def lf_counted_def split)
  moreover have "lf_addrs (?q # ?M) ?ls" using live by (auto simp: lf_live_def lf_addrs_def split)
  ultimately have "lf_live (?q # ?M) ?ls" by (simp add: lf_live_def)
  then show ?thesis
    using inv lf_waiting_pending [OF w p] unfolding lf_unblock_eq rem by (simp add: lf_inv_def lf_in_hand_def split)
qed

text \<open>\<^verbatim>\<open>lf_deadlock\<close> looks at every lock that conflicts with the request, not only at the first.\<close>

lemma lf_deadlock_loop_spec:
  assumes "\<forall>x \<in> set l. lf_wf x" and "lf_wf lock"
  shows "lf_deadlock_loop l lock ls =
    Some (\<exists>b \<in> set l. lf_conflicts b lock \<and> lf_flags b AND F_POSIX \<noteq> 0 \<and> lf_pending_cycle ls b lock)"
  using assms(1)
proof (induction "length l" arbitrary: l rule: less_induct)
  case less
  let ?C = "\<lambda>a. \<not> lf_conflicts a lock" and ?D = "\<lambda>b. lf_flags b AND F_POSIX \<noteq> 0 \<and> lf_pending_cycle ls b lock"
  have g: "lf_getblock l lock = Some (dropWhile ?C l)" by (rule lf_getblock_spec [OF less.prems assms(2)])
  show ?case
  proof (cases "dropWhile ?C l")
    case Nil
    then have "\<forall>b \<in> set l. ?C b" by (simp add: dropWhile_eq_Nil_conv)
    moreover have "lf_deadlock_loop l lock ls = Some False" using g Nil by (subst lf_deadlock_loop.simps) simp
    ultimately show ?thesis by auto
  next
    case (Cons b rest)
    obtain A where l: "l = A @ b # rest" and pre: "\<forall>a \<in> set A. ?C a"
      using takeWhile_dropWhile_id [of ?C l] set_takeWhileD [of _ ?C l] unfolding Cons by metis
    have b: "lf_conflicts b lock" using Cons by (simp add: dropWhile_eq_Cons_conv)
    have len: "length rest < length l" and wf: "\<forall>x \<in> set rest. lf_wf x" using less.prems by (simp_all add: l)
    have all: "(\<exists>c \<in> set l. lf_conflicts c lock \<and> ?D c) \<longleftrightarrow> ?D b \<or> (\<exists>c \<in> set rest. lf_conflicts c lock \<and> ?D c)"
      unfolding l using pre b by auto
    show ?thesis
      unfolding all using g Cons less.hyps [OF len wf] by (subst lf_deadlock_loop.simps) auto
  qed
qed

lemma lf_deadlock_spec:
  assumes "lf_in_hand lock ls"
  shows "lf_deadlock lock ls = Some (\<exists>b \<in> set (ls_locks ls). lf_conflicts b lock \<and> lf_flags b AND F_POSIX \<noteq> 0 \<and> lf_pending_cycle ls b lock)"
  unfolding lf_deadlock_def using assms by (intro lf_deadlock_loop_spec) (auto simp: lf_in_hand_def lf_sorted_def)

lemma lf_in_hand_type [simp]: "lf_in_hand (lock\<lparr>lf_type := t\<rparr>) ls = lf_in_hand lock ls"
proof -
  have "lf_live (lock\<lparr>lf_type := t\<rparr> # M) ls = lf_live (lock # M) ls" if "lf_blkhd lock = []" for M
    using lf_live_modify [of lock M ls "lock\<lparr>lf_type := t\<rparr>"] lf_live_modify [of "lock\<lparr>lf_type := t\<rparr>" M ls lock] that by auto
  then show ?thesis by (auto simp: lf_in_hand_def lf_wf_def)
qed

lemma lf_cleared_type [simp]: "lf_cleared (lock\<lparr>lf_type := t\<rparr>) l l' = lf_cleared lock l l'"
  by (simp add: lf_cleared_def lf_covers_def)

lemma lf_cleared_others: "lf_cleared lock l l' \<Longrightarrow> b \<in> set l \<Longrightarrow> lf_id b \<noteq> lf_id lock \<Longrightarrow> b \<in> set l'"
proof -
  assume "lf_cleared lock l l'" "b \<in> set l" "lf_id b \<noteq> lf_id lock"
  then have "b \<in> set (filter (\<lambda>b. lf_id b \<noteq> lf_id lock) l')" by (simp add: lf_cleared_def)
  then show ?thesis by simp
qed

text \<open>
  What \<^verbatim>\<open>lf_setlock\<close> does with a request: granted exactly if nothing conflicts with it; otherwise refused without
  \<^verbatim>\<open>F_WAIT\<close>, refused as a deadlock, or put to sleep behind the first lock that conflicts.
\<close>

definition lf_outcome :: "lockf \<Rightarrow> lockf_state \<Rightarrow> lf_result \<Rightarrow> lockf_state \<Rightarrow> bool" where
  "lf_outcome lock ls r ls' \<longleftrightarrow>
     (if \<forall>b \<in> set (ls_locks ls). \<not> lf_conflicts b lock
      then r = Lf_ok \<and> lf_updated lock (ls_locks ls) (ls_locks ls') \<and> lf_requests ls' = lf_requests ls
      else if lf_flags lock AND F_WAIT = 0
      then r = Lf_errno EAGAIN \<and> ls_locks ls' = ls_locks ls \<and> ls_pending ls' = ls_pending ls
      else if lf_flags lock AND F_POSIX \<noteq> 0 \<and>
        (\<exists>b \<in> set (ls_locks ls). lf_conflicts b lock \<and> lf_flags b AND F_POSIX \<noteq> 0 \<and> lf_pending_cycle ls b lock)
      then r = Lf_errno EDEADLK \<and> ls_locks ls' = ls_locks ls \<and> ls_pending ls' = ls_pending ls
      else r = Lf_sleep \<and> lf_requests ls' = lf_requests ls @ [lock] \<and>
        (\<exists>b \<in> set (ls_locks ls). lf_conflicts b lock \<and> last (ls_pending ls') = lock\<lparr>lf_blk := Some (lf_addr b)\<rparr>) \<and>
        (\<forall>i x. lf_holds (ls_locks ls') i x =
          (if lf_flags lock AND F_FLOCK \<noteq> 0 \<and> lf_type lock = F_WRLCK \<and> i = lf_id lock \<and> lf_covers lock x then None
           else lf_holds (ls_locks ls) i x)))"

lemma lf_setlock_sleep:
  assumes hand: "lf_in_hand lock ls" and type: "lf_type lock \<noteq> F_UNLCK" and b: "b \<in> set (ls_locks ls)" "lf_conflicts b lock"
  obtains ls' where
    "(if lf_flags lock AND F_FLOCK \<noteq> 0 \<and> lf_type lock = F_WRLCK then lf_clearlock (lock\<lparr>lf_type := F_UNLCK\<rparr>) ls else Some ls) = Some ls'"
    and "lf_inv (lf_enqueue lock b ls')" and "lf_requests ls' = lf_requests ls"
    and "\<And>i x. lf_holds (ls_locks ls') i x =
      (if lf_flags lock AND F_FLOCK \<noteq> 0 \<and> lf_type lock = F_WRLCK \<and> i = lf_id lock \<and> lf_covers lock x then None
       else lf_holds (ls_locks ls) i x)"
proof (cases "lf_flags lock AND F_FLOCK \<noteq> 0 \<and> lf_type lock = F_WRLCK")
  case True
  from lf_clearlock_ok [of "lock\<lparr>lf_type := F_UNLCK\<rparr>" ls] hand obtain ls' where
    cl: "lf_clearlock (lock\<lparr>lf_type := F_UNLCK\<rparr>) ls = Some ls'" "lf_in_hand lock ls'"
      "lf_cleared lock (ls_locks ls) (ls_locks ls')" "lf_requests ls' = lf_requests ls" by auto
  have "lf_id b \<noteq> lf_id lock" using b(2) by (simp add: lf_conflicts_def)
  from lf_cleared_others [OF cl(3) b(1) this] have "lf_inv (lf_enqueue lock b ls')"
    by (rule lf_enqueue_inv [OF cl(2) _ b(2) type])
  with True cl show ?thesis by (intro that [of ls']) (simp_all add: lf_cleared_def)
next
  case False
  show ?thesis by (rule that [of ls]) (use False lf_enqueue_inv [OF hand b type] in auto)
qed

lemma lf_setlock_outcome:
  assumes hand: "lf_in_hand lock ls" and type: "lf_type lock \<noteq> F_UNLCK"
  obtains r ls' where "lf_setlock lock ls = Some (r, ls')" and "lf_inv ls'" and "lf_outcome lock ls r ls'"
proof -
  from lf_free_in_hand [OF hand] obtain u where
    free: "lf_free lock (ls_locks ls) ls = Some u" "lf_inv u" "ls_locks u = ls_locks ls" "ls_pending u = ls_pending ls" by auto
  from hand show ?thesis
  proof (cases rule: lf_getblock_cases)
    case free
    from lf_granted [OF hand type free(2)] obtain l' v where
      "lf_setlock_loop True lock [] (ls_locks ls) ls = Some (l', v)" "lf_inv (v\<lparr>ls_locks := l'\<rparr>)"
      "lf_updated lock (ls_locks ls) l'" "lf_requests v = lf_requests ls" by blast
    then show ?thesis
      using free by (intro that [of Lf_ok "v\<lparr>ls_locks := l'\<rparr>"]) (simp_all add: lf_setlock_def lf_outcome_def lf_requests_def)
  next
    case (blocked pre b post)
    then have b: "b \<in> set (ls_locks ls)" "lf_conflicts b lock" by auto
    let ?dead = "lf_flags lock AND F_POSIX \<noteq> 0 \<and>
        (\<exists>b \<in> set (ls_locks ls). lf_conflicts b lock \<and> lf_flags b AND F_POSIX \<noteq> 0 \<and> lf_pending_cycle ls b lock)"
    consider "lf_flags lock AND F_WAIT = 0" | "lf_flags lock AND F_WAIT \<noteq> 0" "?dead" | "lf_flags lock AND F_WAIT \<noteq> 0" "\<not> ?dead" by blast
    then show ?thesis
    proof cases
      case 1
      show ?thesis by (rule that [of "Lf_errno EAGAIN" u]) (use 1 blocked(1) b free in \<open>auto simp: lf_setlock_def lf_outcome_def\<close>)
    next
      case 2
      show ?thesis
        by (rule that [of "Lf_errno EDEADLK" u])
          (use 2 blocked(1) b free lf_deadlock_spec [OF hand] in \<open>auto simp: lf_setlock_def lf_outcome_def\<close>)
    next
      case 3
      from lf_setlock_sleep [OF hand type b] obtain v where
        v: "(if lf_flags lock AND F_FLOCK \<noteq> 0 \<and> lf_type lock = F_WRLCK then lf_clearlock (lock\<lparr>lf_type := F_UNLCK\<rparr>) ls else Some ls) = Some v"
          "lf_inv (lf_enqueue lock b v)" "lf_requests v = lf_requests ls"
          "\<And>i x. lf_holds (ls_locks v) i x =
            (if lf_flags lock AND F_FLOCK \<noteq> 0 \<and> lf_type lock = F_WRLCK \<and> i = lf_id lock \<and> lf_covers lock x then None
             else lf_holds (ls_locks ls) i x)" by blast
      have "lf_setlock lock ls = Some (Lf_sleep, lf_enqueue lock b v)"
        unfolding lf_setlock_def blocked(1) using 3 v(1) lf_deadlock_spec [OF hand] by auto
      moreover have "lf_blk lock = None" using hand by (simp add: lf_in_hand_def)
      then have "lf_requests (lf_enqueue lock b v) = lf_requests ls @ [lock]"
        using v(3) by (simp add: lf_requests_def lf_enqueue_eq)
      moreover have "lf_holds (ls_locks (lf_enqueue lock b v)) i x = lf_holds (ls_locks v) i x" for i x by (simp add: lf_enqueue_eq)
      moreover have "last (ls_pending (lf_enqueue lock b v)) = lock\<lparr>lf_blk := Some (lf_addr b)\<rparr>" by (simp add: lf_enqueue_eq)
      ultimately show ?thesis
        using 3 b v(2,4) by (intro that [of Lf_sleep "lf_enqueue lock b v"]) (simp_all add: lf_outcome_def, blast)
    qed
  qed
qed

section \<open>The entry point\<close>

lemma lf_range_wf: "lf_range fsize fl = Inr (s, e) \<Longrightarrow> 0 \<le> s \<and> (e = -1 \<or> s \<le> e)"
  by (auto simp: lf_range_def Let_def split: if_splits)

lemma lf_request_simps [simp]:
  "lf_addr (lf_request a own t f u pid s e) = a" "lf_uid (lf_request a own t f u pid s e) = u"
  "lf_type (lf_request a own t f u pid s e) = t" "lf_flags (lf_request a own t f u pid s e) = f"
  "lf_blkhd (lf_request a own t f u pid s e) = []" "lf_blk (lf_request a own t f u pid s e) = None"
  "lf_start (lf_request a own t f u pid s e) = s" "lf_end (lf_request a own t f u pid s e) = e"
  "lf_id (lf_request a own t f u pid s e) = own"
  by (simp_all add: lf_request_def)

text \<open>A user above the limit gets no lock; otherwise the request is allocated and the caller goes on with it.\<close>

definition lf_limited :: "nat \<Rightarrow> int \<Rightarrow> lockf_state \<Rightarrow> bool" where
  "lf_limited uid n ls \<longleftrightarrow> uid \<noteq> 0 \<and> ui_lockcnt ls uid > n"

lemma lf_advlock_request:
  assumes inv: "lf_inv ls" and range: "lf_range fsize fl = Inr (s, e)" and exists: "opn = Op_setlk \<or> ls_refs ls \<noteq> 0"
    and lock_def: "lock = lf_request (ls_next ls) own (l_type fl) flags uid pid s e"
  obtains (limited) "lf_limited uid (if opn = Op_setlk then maxlocksperuid else maxlocksperuid * 2) ls"
      and "lf_advlock fsize own opn fl flags uid pid ls = Some (Lf_errno ENOLCK, fl, ls)"
    | (request) ls2 where "\<not> lf_limited uid (if opn = Op_setlk then maxlocksperuid else maxlocksperuid * 2) ls"
      and "lf_in_hand lock ls2" and "ls_locks ls2 = ls_locks ls" and "ls_pending ls2 = ls_pending ls"
      and "lf_advlock fsize own opn fl flags uid pid ls = (case opn of
          Op_setlk \<Rightarrow> map_option (\<lambda>(r, ls'). (r, fl, ls')) (lf_setlock lock ls2)
        | Op_unlck \<Rightarrow> do {
            ls3 \<leftarrow> lf_clearlock lock ls2;
            ls4 \<leftarrow> lf_free lock (ls_locks ls3) ls3;
            Some (Lf_ok, fl, ls4) }
        | Op_getlk \<Rightarrow> do {
            fl' \<leftarrow> lf_getlock lock fl ls2;
            ls3 \<leftarrow> lf_free lock (ls_locks ls2) ls2;
            Some (Lf_ok, fl', ls3) }
        | Op_other \<Rightarrow> do {
            ls3 \<leftarrow> lf_free lock (ls_locks ls2) ls2;
            Some (Lf_errno EINVAL, fl, ls3) })"
proof (cases "lf_alloc uid (if opn = Op_setlk then 1 else 2) (ls_ref ls)")
  case None
  have "ls_refs ls > 0 \<or> (ls_locks ls = [] \<and> ls_pending ls = [])"
    using inv by (cases "ls_locks ls"; cases "ls_pending ls") (auto simp: lf_inv_def lf_live_def lf_counted_def)
  then have "ls_rele (ls_locks (ls_ref ls)) (ls_ref ls) = Some ls" by (auto simp: ls_rele_def ls_ref_def)
  then have "lf_advlock fsize own opn fl flags uid pid ls = Some (Lf_errno ENOLCK, fl, ls)"
    using None range exists by (auto simp: lf_advlock_def Let_def)
  moreover have "lf_limited uid (if opn = Op_setlk then maxlocksperuid else maxlocksperuid * 2) ls"
    using None by (auto simp: lf_alloc_def lf_limited_def ls_ref_def split: if_splits)
  ultimately show ?thesis by (rule limited [rotated])
next
  case (Some r)
  then obtain ls2 where al: "lf_alloc uid (if opn = Op_setlk then 1 else 2) (ls_ref ls) = Some (ls_next ls, ls2)"
    by (auto simp: lf_alloc_def ls_ref_def split: if_splits)
  have hand: "lf_in_hand lock ls2 \<and> ls_locks ls2 = ls_locks ls \<and> ls_pending ls2 = ls_pending ls"
    by (rule lf_alloc_in_hand [OF inv al]) (use lf_range_wf [OF range] in \<open>simp_all add: lock_def lf_wf_def\<close>)
  have "\<not> lf_limited uid (if opn = Op_setlk then maxlocksperuid else maxlocksperuid * 2) ls"
    using al by (auto simp: lf_alloc_def lf_limited_def ls_ref_def split: if_splits)
  then show ?thesis
    by (rule request [of ls2]) (use hand al range exists in \<open>auto simp: lf_advlock_def lock_def Let_def split: lf_op.split\<close>)
qed

lemma lf_outcome_cong:
  assumes "ls_locks ls2 = ls_locks ls" and "ls_pending ls2 = ls_pending ls"
  shows "lf_outcome lock ls2 r ls' = lf_outcome lock ls r ls'"
  unfolding lf_outcome_def lf_requests_def lf_pending_cycle_def assms ..

lemma lf_setlk:
  assumes "lf_inv ls" and "lf_range fsize fl = Inr (s, e)" and "l_type fl \<noteq> F_UNLCK" and "\<not> lf_limited uid maxlocksperuid ls"
  shows "\<exists>r ls'. lf_advlock fsize own Op_setlk fl flags uid pid ls = Some (r, fl, ls') \<and> lf_inv ls' \<and>
    lf_outcome (lf_request (ls_next ls) own (l_type fl) flags uid pid s e) ls r ls'"
proof -
  from assms(1,2) disjI1 [OF refl] refl show ?thesis
  proof (cases rule: lf_advlock_request [where own = own and flags = flags and uid = uid and pid = pid])
    case (request ls2)
    from lf_setlock_outcome [OF request(2)] assms(3) obtain r ls' where
      "lf_setlock (lf_request (ls_next ls) own (l_type fl) flags uid pid s e) ls2 = Some (r, ls')" "lf_inv ls'"
      "lf_outcome (lf_request (ls_next ls) own (l_type fl) flags uid pid s e) ls2 r ls'" by auto
    then show ?thesis using request(5) lf_outcome_cong [OF request(3,4)] by auto
  qed (use assms(4) in simp)
qed

lemma lf_unlck:
  assumes "lf_inv ls" and "lf_range fsize fl = Inr (s, e)" and "ls_refs ls \<noteq> 0" and "\<not> lf_limited uid (maxlocksperuid * 2) ls"
  shows "\<exists>ls'. lf_advlock fsize own Op_unlck fl flags uid pid ls = Some (Lf_ok, fl, ls') \<and> lf_inv ls' \<and>
    lf_cleared (lf_request (ls_next ls) own (l_type fl) flags uid pid s e) (ls_locks ls) (ls_locks ls') \<and>
    lf_requests ls' = lf_requests ls"
proof -
  let ?lock = "lf_request (ls_next ls) own (l_type fl) flags uid pid s e"
  from assms(1,2) disjI2 [OF assms(3)] refl show ?thesis
  proof (cases rule: lf_advlock_request [where own = own and flags = flags and uid = uid and pid = pid and opn = Op_unlck])
    case (request ls2)
    from request(2) obtain ls3 where cl: "lf_clearlock ?lock ls2 = Some ls3" "lf_in_hand ?lock ls3"
      "lf_cleared ?lock (ls_locks ls2) (ls_locks ls3)" "lf_requests ls3 = lf_requests ls2" by (rule lf_clearlock_ok)
    from lf_free_in_hand [OF cl(2)] obtain ls4 where
      "lf_free ?lock (ls_locks ls3) ls3 = Some ls4" "lf_inv ls4" "ls_locks ls4 = ls_locks ls3" "ls_pending ls4 = ls_pending ls3" by blast
    then show ?thesis using request(3-5) cl by (simp add: lf_requests_def)
  qed (use assms(4) in simp)
qed

lemma lf_getlk:
  assumes "lf_inv ls" and "lf_range fsize fl = Inr (s, e)" and "ls_refs ls \<noteq> 0" and "\<not> lf_limited uid (maxlocksperuid * 2) ls"
    and lock_def: "lock = lf_request (ls_next ls) own (l_type fl) flags uid pid s e"
  shows "\<exists>fl' ls'. lf_advlock fsize own Op_getlk fl flags uid pid ls = Some (Lf_ok, fl', ls') \<and> lf_inv ls' \<and>
    ls_locks ls' = ls_locks ls \<and> ls_pending ls' = ls_pending ls \<and> lf_getlock lock fl ls = Some fl'"
proof -
  from assms(1,2) disjI2 [OF assms(3)] lock_def show ?thesis
  proof (cases rule: lf_advlock_request [where opn = Op_getlk])
    case (request ls2)
    note r = request
    from lf_free_in_hand [OF r(2)] obtain ls3 where
      fr: "lf_free lock (ls_locks ls2) ls2 = Some ls3" "lf_inv ls3" "ls_locks ls3 = ls_locks ls2" "ls_pending ls3 = ls_pending ls2" by auto
    have "\<exists>fl'. lf_getlock lock fl ls2 = Some fl'"
      using r(2) by (cases rule: lf_getblock_cases) (simp_all add: lf_getlock_def)
    moreover have "lf_getlock lock fl ls2 = lf_getlock lock fl ls" by (simp add: lf_getlock_def r(3))
    ultimately show ?thesis using r(3-5) fr by auto
  qed (use assms(4) in simp)
qed

lemma lf_advlock_ok:
  assumes inv: "lf_inv ls" and type: "opn = Op_setlk \<Longrightarrow> l_type fl \<noteq> F_UNLCK"
  shows "\<exists>r fl' ls'. lf_advlock fsize own opn fl flags uid pid ls = Some (r, fl', ls') \<and> lf_inv ls'"
proof (cases "lf_range fsize fl")
  case (Inl e)
  then show ?thesis using inv by (simp add: lf_advlock_def)
next
  case (Inr q)
  obtain s e where range: "lf_range fsize fl = Inr (s, e)" using Inr by (cases q) auto
  show ?thesis
  proof (cases "opn = Op_setlk \<or> ls_refs ls \<noteq> 0")
    case False
    then show ?thesis using range inv by (simp add: lf_advlock_def)
  next
    case exists: True
    from inv range exists refl show ?thesis
    proof (cases rule: lf_advlock_request [where own = own and flags = flags and uid = uid and pid = pid])
      case limited
      then show ?thesis using inv by blast
    next
      case (request ls2)
      note nlim = request(1)
      show ?thesis
      proof (cases opn)
        case Op_setlk
        then show ?thesis using lf_setlk [OF inv range] nlim type by fastforce
      next
        case Op_unlck
        then show ?thesis using lf_unlck [OF inv range] nlim exists by fastforce
      next
        case Op_getlk
        then show ?thesis using lf_getlk [OF inv range _ _ refl] nlim exists by fastforce
      next
        case Op_other
        then show ?thesis using request(5) lf_free_in_hand [OF request(2)] by auto
      qed
    qed
  qed
qed

lemma lf_resume_ok:
  assumes inv: "lf_inv ls" and p: "p \<in> set (ls_pending ls)"
  shows "\<exists>r ls'. lf_setlock_resume p eno ls = Some (r, ls') \<and> lf_inv ls'"
proof -
  note hand = lf_unblock_in_hand [OF inv p]
  have "lf_type (p\<lparr>lf_blk := None\<rparr>) \<noteq> F_UNLCK" using inv p by (simp add: lf_inv_def)
  with hand obtain r u where set: "lf_setlock (p\<lparr>lf_blk := None\<rparr>) (lf_unblock p ls) = Some (r, u)" "lf_inv u"
    by (rule lf_setlock_outcome)
  obtain v where free: "lf_free (p\<lparr>lf_blk := None\<rparr>) (ls_locks (lf_unblock p ls)) (lf_unblock p ls) = Some v" "lf_inv v"
    using lf_free_in_hand [OF hand] by blast
  show ?thesis using set free by (cases eno) (simp_all add: lf_setlock_resume_def Let_def)
qed

section \<open>Purging\<close>

text \<open>
  While \<^verbatim>\<open>lf_purgelocks\<close> waits, no lock blocks a request any more, every pending request is interrupted, and the
  purging thread has a reference of its own.
\<close>

definition lf_purging :: "lockf_state \<Rightarrow> bool" where
  "lf_purging ls \<longleftrightarrow> (\<forall>l \<in> set (ls_locks ls). lf_blkhd l = []) \<and> distinct (map lf_addr (ls_pending ls)) \<and>
     (\<forall>p \<in> set (ls_pending ls). lf_blk p = None \<and> lf_blkhd p = [] \<and> lf_flags p AND F_INTR \<noteq> 0) \<and>
     ls_refs ls = 1 + int (length (ls_locks ls)) + int (length (ls_pending ls)) \<and>
     (\<forall>u. ui_lockcnt ls u = ui_elsewhere ls u + lf_uid_count u (ls_locks ls) + lf_uid_count u (ls_pending ls))"

lemma lf_purge_wake_fold:
  "ls_pending (fold (\<lambda>lock st. snd (lf_wakelock lock f st)) locks ls) =
    map (\<lambda>p. if \<exists>b \<in> set locks. lf_addr p \<in> set (lf_blkhd b) then p\<lparr>lf_blk := None, lf_flags := lf_flags p OR f\<rparr> else p) (ls_pending ls)"
  "ls_refs (fold (\<lambda>lock st. snd (lf_wakelock lock f st)) locks ls) = ls_refs ls"
  "ui_lockcnt (fold (\<lambda>lock st. snd (lf_wakelock lock f st)) locks ls) = ui_lockcnt ls"
  "ui_elsewhere (fold (\<lambda>lock st. snd (lf_wakelock lock f st)) locks ls) = ui_elsewhere ls"
  by (induction locks arbitrary: ls) (auto simp: lf_wakelock_def lf_wake_list_pending or.assoc)

lemma lf_intr_set: "(f OR F_INTR) AND F_INTR = F_INTR" "F_INTR \<noteq> 0"
  by (simp_all add: word_ao_absorbs F_INTR_def)

lemma lf_purge_wake_purging:
  assumes inv: "lf_inv ls" and refs: "ls_refs ls \<noteq> 0" and asleep: "\<forall>p \<in> set (ls_pending ls). lf_blk p \<noteq> None"
  shows "lf_purging (lf_purge_wake ls)"
    and "ls_pending (lf_purge_wake ls) = map (\<lambda>p. p\<lparr>lf_blk := None, lf_flags := lf_flags p OR F_INTR\<rparr>) (ls_pending ls)"
    and "ui_elsewhere (lf_purge_wake ls) = ui_elsewhere ls"
proof -
  have live: "lf_live (ls_locks ls) ls" using inv by (simp add: lf_inv_def)
  note w = lf_live_dests(1) [OF live]
  note f = lf_purge_wake_fold [of F_INTR "ls_locks ls" "ls_ref ls"]
  have all: "\<exists>b \<in> set (ls_locks ls). lf_addr p \<in> set (lf_blkhd b)" if "p \<in> set (ls_pending ls)" for p
    using lf_waiting_blocker [OF w that] asleep that by blast
  show pend: "ls_pending (lf_purge_wake ls) = map (\<lambda>p. p\<lparr>lf_blk := None, lf_flags := lf_flags p OR F_INTR\<rparr>) (ls_pending ls)"
    using refs f(1) all by (simp add: lf_purge_wake_def ls_ref_def)
  have locks: "ls_locks (lf_purge_wake ls) = lf_blkhds (\<lambda>_. []) (ls_locks ls)"
    using refs by (simp add: lf_purge_wake_def lf_blkhds_def Let_def)
  show elsewhere: "ui_elsewhere (lf_purge_wake ls) = ui_elsewhere ls"
    using refs f(4) by (simp add: lf_purge_wake_def ls_ref_def Let_def)
  have "ls_refs (lf_purge_wake ls) = 1 + ls_refs ls" "ui_lockcnt (lf_purge_wake ls) = ui_lockcnt ls"
    using refs f(2,3) by (simp_all add: lf_purge_wake_def ls_ref_def Let_def)
  moreover have "map lf_addr (ls_pending (lf_purge_wake ls)) = map lf_addr (ls_pending ls)" by (simp add: pend)
  moreover have "distinct (map lf_addr (ls_pending ls))" using lf_live_dests(3) [OF live] by simp
  moreover have "lf_uid_count u (ls_pending (lf_purge_wake ls)) = lf_uid_count u (ls_pending ls)" for u
    unfolding pend by (rule lf_uid_count_map) simp
  moreover have "\<forall>l \<in> set (ls_locks (lf_purge_wake ls)). lf_blkhd l = []" by (auto simp: locks lf_blkhds_set)
  moreover have "\<forall>p \<in> set (ls_pending (lf_purge_wake ls)). lf_blk p = None \<and> lf_blkhd p = [] \<and> lf_flags p AND F_INTR \<noteq> 0"
    using lf_waiting_pending [OF w] by (auto simp: pend lf_intr_set)
  ultimately show "lf_purging (lf_purge_wake ls)"
    using lf_live_dests(2) [OF live] elsewhere by (simp add: lf_purging_def lf_counted_def locks pend o_def)
qed

lemma lf_purging_resume:
  assumes purging: "lf_purging ls" and p: "p \<in> set (ls_pending ls)"
  obtains ls' where "lf_setlock_resume p None ls = Some (Lf_errno EINTR, ls')" and "lf_purging ls'"
    and "ls_pending ls' = remove1 p (ls_pending ls)" and "ui_elsewhere ls' = ui_elsewhere ls"
proof -
  obtain A B where split: "ls_pending ls = A @ p # B" using p by (meson split_list)
  have dist: "distinct (map lf_addr (A @ p # B))" using purging split by (simp add: lf_purging_def)
  have p': "lf_blk p = None" "lf_blkhd p = []" "lf_flags p AND F_INTR \<noteq> 0" using purging p by (simp_all add: lf_purging_def)
  have "p \<notin> set A" using dist by (auto simp: image_iff)
  then have rem: "remove1 p (ls_pending ls) = A @ B" by (simp add: split remove1_append)
  have un: "lf_unblock p ls = ls\<lparr>ls_pending := A @ B, ls_purger_woken := ls_purger_woken ls + 1\<rparr>"
    using lf_remove_split [OF dist] by (simp add: lf_unblock_def p'(1) split)
  let ?ls = "(lf_unblock p ls)\<lparr>ls_refs := ls_refs ls - 1, ui_lockcnt := (ui_lockcnt ls)(lf_uid p := ui_lockcnt ls (lf_uid p) - 1)\<rparr>"
  have "ls_refs ls - 1 > 0" using purging by (simp add: lf_purging_def split)
  then have "lf_setlock_resume p None ls = Some (Lf_errno EINTR, ?ls)"
    using p' by (simp add: lf_setlock_resume_def lf_free_def ls_rele_def un Let_def)
  moreover have "lf_purging ?ls" using purging by (auto simp: lf_purging_def un split)
  ultimately show ?thesis by (rule that) (simp_all add: un rem)
qed

text \<open>The pending requests run one after the other, none of them woken with an error of its own.\<close>

fun lf_resume_all :: "lockf list \<Rightarrow> lockf_state \<Rightarrow> (lf_result list \<times> lockf_state) option" where
  "lf_resume_all [] ls = Some ([], ls)"
| "lf_resume_all (p # ps) ls = do {
     (r, ls') \<leftarrow> lf_setlock_resume p None ls;
     (rs, ls'') \<leftarrow> lf_resume_all ps ls';
     Some (r # rs, ls'') }"

lemma lf_purging_resume_all:
  assumes "lf_purging ls" and "mset ps = mset (ls_pending ls)"
  shows "\<exists>ls'. lf_resume_all ps ls = Some (map (\<lambda>_. Lf_errno EINTR) ps, ls') \<and> lf_purging ls' \<and> ls_pending ls' = [] \<and>
    ui_elsewhere ls' = ui_elsewhere ls"
  using assms
proof (induction ps arbitrary: ls)
  case (Cons p ps)
  have "p \<in> set (ls_pending ls)" using Cons.prems(2) by (metis list.set_intros(1) mset_eq_setD)
  with Cons.prems(1) obtain ls1 where s: "lf_setlock_resume p None ls = Some (Lf_errno EINTR, ls1)" "lf_purging ls1"
    "ls_pending ls1 = remove1 p (ls_pending ls)" "ui_elsewhere ls1 = ui_elsewhere ls" by (rule lf_purging_resume)
  moreover have "mset ps = mset (ls_pending ls1)" using Cons.prems(2) s(3) by (metis mset_remove1 remove1.simps(2))
  ultimately show ?case using Cons.IH [of ls1] by auto
qed simp

lemma lf_purge_free_all:
  assumes "\<forall>l \<in> set locks. lf_blkhd l = []" and "ls_refs ls = 1 + int (length locks)" and "ls_locks ls = locks"
    and "\<forall>u. ui_lockcnt ls u = ui_elsewhere ls u + lf_uid_count u locks"
  shows "\<exists>ls'. lf_purge_free locks ls = Some ls' \<and> ls_locks ls' = [] \<and> ls_refs ls' = 1 \<and> ls_pending ls' = ls_pending ls \<and>
    ui_lockcnt ls' = ui_elsewhere ls \<and> ui_elsewhere ls' = ui_elsewhere ls"
  using assms
proof (induction locks arbitrary: ls)
  case (Cons l locks)
  let ?ls = "ls\<lparr>ls_refs := ls_refs ls - 1, ui_lockcnt := (ui_lockcnt ls)(lf_uid l := ui_lockcnt ls (lf_uid l) - 1), ls_locks := locks\<rparr>"
  have "\<exists>ls'. lf_purge_free locks ?ls = Some ls' \<and> ls_locks ls' = [] \<and> ls_refs ls' = 1 \<and> ls_pending ls' = ls_pending ?ls \<and>
      ui_lockcnt ls' = ui_elsewhere ?ls \<and> ui_elsewhere ls' = ui_elsewhere ?ls"
    by (rule Cons.IH) (use Cons.prems in auto)
  moreover have "lf_free l locks ls = Some (ls\<lparr>ls_refs := ls_refs ls - 1, ui_lockcnt := (ui_lockcnt ls)(lf_uid l := ui_lockcnt ls (lf_uid l) - 1)\<rparr>)"
    using Cons.prems by (simp add: lf_free_def ls_rele_def)
  ultimately show ?case by simp
qed auto

lemma lf_purge_run:
  assumes inv: "lf_inv ls" and refs: "ls_refs ls \<noteq> 0" and asleep: "\<forall>p \<in> set (ls_pending ls). lf_blk p \<noteq> None"
    and ps: "mset ps = mset (ls_pending (lf_purge_wake ls))"
  shows "\<exists>ls1 ls2. lf_resume_all ps (lf_purge_wake ls) = Some (map (\<lambda>_. Lf_errno EINTR) ps, ls1) \<and> ls_pending ls1 = [] \<and>
    lf_purge_finish ls1 = Some ls2 \<and> ls_locks ls2 = [] \<and> ls_pending ls2 = [] \<and> ls_refs ls2 = 0 \<and> ui_lockcnt ls2 = ui_elsewhere ls"
proof -
  from lf_purging_resume_all [OF lf_purge_wake_purging(1) [OF inv refs asleep] ps] lf_purge_wake_purging(3) [OF inv refs asleep]
  obtain ls1 where ls1: "lf_resume_all ps (lf_purge_wake ls) = Some (map (\<lambda>_. Lf_errno EINTR) ps, ls1)" "lf_purging ls1"
    "ls_pending ls1 = []" "ui_elsewhere ls1 = ui_elsewhere ls" by auto
  then obtain v where "lf_purge_free (ls_locks ls1) ls1 = Some v" "ls_locks v = []" "ls_refs v = 1" "ls_pending v = []"
    "ui_lockcnt v = ui_elsewhere ls"
    using lf_purge_free_all [of "ls_locks ls1" ls1] by (auto simp: lf_purging_def)
  moreover have "ls_refs ls1 \<noteq> 0" using ls1(2) by (simp add: lf_purging_def)
  ultimately show ?thesis using ls1(1,3) by (simp add: lf_purge_finish_def ls_rele_def)
qed

section \<open>Interleavings\<close>

text \<open>
  The lock \<^verbatim>\<open>lockf_lock\<close> makes every call atomic up to its sleep, so a file's locks change by calls of
  \<^verbatim>\<open>lf_advlock\<close>, by sleeping requests that go on (woken or interrupted with any error) and, as to the counts of the
  users, by calls for other files. The system calls use \<^verbatim>\<open>F_SETLK\<close> for a lock and \<^verbatim>\<open>F_UNLCK\<close> to unlock.
\<close>

inductive lf_step :: "lockf_state \<Rightarrow> lockf_state \<Rightarrow> bool" where
  advlock: "lf_advlock fsize own opn fl flags uid pid ls = Some (r, fl', ls') \<Longrightarrow> (opn = Op_setlk \<longrightarrow> l_type fl \<noteq> F_UNLCK) \<Longrightarrow>
    lf_step ls ls'"
| resume: "p \<in> set (ls_pending ls) \<Longrightarrow> lf_setlock_resume p eno ls = Some (r, ls') \<Longrightarrow> lf_step ls ls'"
| elsewhere: "lf_step ls (ls\<lparr>ui_lockcnt := (ui_lockcnt ls)(u := ui_lockcnt ls u + d),
    ui_elsewhere := (ui_elsewhere ls)(u := ui_elsewhere ls u + d)\<rparr>)"

text \<open>No state: nothing is locked, and the users' locks are all on other files.\<close>

definition lf_none :: "(nat \<Rightarrow> int) \<Rightarrow> lockf_state" where
  "lf_none c = \<lparr>ls_locks = [], ls_pending = [], ls_refs = 0, ls_woken = [], ls_purger_woken = 0,
     ui_lockcnt = c, ui_elsewhere = c, ls_next = 0\<rparr>"

inductive lf_reachable :: "lockf_state \<Rightarrow> bool" where
  init: "lf_reachable (lf_none c)"
| step: "lf_reachable ls \<Longrightarrow> lf_step ls ls' \<Longrightarrow> lf_reachable ls'"

inductive_cases lf_stepE: "lf_step ls ls'"

lemma lf_none_inv: "lf_inv (lf_none c)"
  by (simp add: lf_none_def lf_inv_def lf_compatible_def lf_live_def lf_counted_def lf_addrs_def lf_waiting_def)

lemma lf_elsewhere_inv:
  "lf_inv ls \<Longrightarrow> lf_inv (ls\<lparr>ui_lockcnt := (ui_lockcnt ls)(u := ui_lockcnt ls u + d),
    ui_elsewhere := (ui_elsewhere ls)(u := ui_elsewhere ls u + d)\<rparr>)"
  by (auto simp: lf_inv_def lf_live_def lf_counted_def lf_addrs_def lf_waiting_def)

lemma lf_step_inv: "lf_step ls ls' \<Longrightarrow> lf_inv ls \<Longrightarrow> lf_inv ls'"
proof (erule lf_stepE)
  fix fsize own opn fl flags uid pid r fl'
  assume "lf_inv ls" "lf_advlock fsize own opn fl flags uid pid ls = Some (r, fl', ls')" "opn = Op_setlk \<longrightarrow> l_type fl \<noteq> F_UNLCK"
  then show "lf_inv ls'" using lf_advlock_ok [of ls opn fl fsize own flags uid pid] by auto
next
  fix p eno r
  assume "lf_inv ls" "p \<in> set (ls_pending ls)" "lf_setlock_resume p eno ls = Some (r, ls')"
  then show "lf_inv ls'" using lf_resume_ok [of ls p eno] by auto
qed (simp add: lf_elsewhere_inv)

lemma lf_reachable_lf_inv: "lf_reachable ls \<Longrightarrow> lf_inv ls"
  by (induction rule: lf_reachable.induct) (auto intro: lf_none_inv lf_step_inv)

subsection \<open>A run\<close>

text \<open>Requests for whole locks by three processes, for the examples below.\<close>

definition lf_fl :: "lf_type \<Rightarrow> int \<Rightarrow> int \<Rightarrow> flock" where
  "lf_fl t s n = \<lparr>l_start = s, l_len = n, l_pid = 0, l_type = t, l_whence = 0\<rparr>"

definition lf_call :: "lf_op \<Rightarrow> nat \<Rightarrow> lf_type \<Rightarrow> int \<Rightarrow> int \<Rightarrow> lockf_state \<Rightarrow> (lf_result \<times> lockf_state) option" where
  "lf_call opn i t s n ls = map_option (\<lambda>(r, fl, ls'). (r, ls'))
     (lf_advlock 0 i opn (lf_fl t s n) (F_POSIX OR F_WAIT) 0 (100 + int i) ls)"

fun lf_calls :: "(lf_op \<times> nat \<times> lf_type \<times> int \<times> int) list \<Rightarrow> lockf_state \<Rightarrow> (lf_result list \<times> lockf_state) option" where
  "lf_calls [] ls = Some ([], ls)"
| "lf_calls ((opn, i, t, s, n) # cs) ls = do {
     (r, ls') \<leftarrow> lf_call opn i t s n ls;
     (rs, ls'') \<leftarrow> lf_calls cs ls';
     Some (r # rs, ls'') }"

lemma lf_calls_reachable:
  assumes "lf_reachable ls" and "lf_calls cs ls = Some (rs, ls')" and "\<forall>(opn, i, t, s, n) \<in> set cs. t \<noteq> F_UNLCK"
  shows "lf_reachable ls'"
  using assms
proof (induction cs arbitrary: ls rs)
  case (Cons c cs)
  obtain opn i t s n where c: "c = (opn, i, t, s, n)" by (cases c)
  with Cons.prems(2) obtain r fl ls1 rs' where
    "lf_advlock 0 i opn (lf_fl t s n) (F_POSIX OR F_WAIT) 0 (100 + int i) ls = Some (r, fl, ls1)" "lf_calls cs ls1 = Some (rs', ls')"
    by (auto simp: lf_call_def bind_eq_Some_conv)
  moreover have "lf_reachable ls1"
    using Cons.prems(1) lf_step.advlock [OF calculation(1)] Cons.prems(3) c by (auto simp: lf_fl_def intro: lf_reachable.step)
  ultimately show ?case using Cons.IH Cons.prems(3) by auto
qed simp

definition lf_pids :: "lockf_state \<Rightarrow> (int \<times> nat) list \<times> (int \<times> nat option) list" where
  "lf_pids ls = (map (\<lambda>l. (lf_pid l, lf_addr l)) (ls_locks ls), map (\<lambda>p. (lf_pid p, lf_blk p)) (ls_pending ls))"

text \<open>
  \<^verbatim>\<open>lf_deadlock\<close> finds cycles of two processes only: three processes that hold one byte each and then ask for the
  next one's byte all sleep, each waiting for a lock of the next.
\<close>

lemma lf_deadlock_three:
  "map_option (\<lambda>(rs, ls). (rs, lf_pids ls))
     (lf_calls [(Op_setlk, 1, F_WRLCK, 0, 1), (Op_setlk, 2, F_WRLCK, 1, 1), (Op_setlk, 3, F_WRLCK, 2, 1),
        (Op_setlk, 1, F_WRLCK, 1, 1), (Op_setlk, 2, F_WRLCK, 2, 1), (Op_setlk, 3, F_WRLCK, 0, 1)] (lf_none (\<lambda>_. 0))) =
   Some ([Lf_ok, Lf_ok, Lf_ok, Lf_sleep, Lf_sleep, Lf_sleep],
     [(101, 0), (102, 1), (103, 2)], [(101, Some 1), (102, Some 2), (103, Some 0)])"
  by code_simp

lemma lf_deadlock_two:
  "map_option fst
     (lf_calls [(Op_setlk, 1, F_WRLCK, 0, 1), (Op_setlk, 2, F_WRLCK, 1, 1),
        (Op_setlk, 1, F_WRLCK, 1, 1), (Op_setlk, 2, F_WRLCK, 0, 1)] (lf_none (\<lambda>_. 0))) =
   Some [Lf_ok, Lf_ok, Lf_sleep, Lf_errno EDEADLK]"
  by code_simp

text \<open>
  A request that was woken but has not run yet when \<^verbatim>\<open>lf_purgelocks\<close> interrupts the blocked ones is not marked: it
  starts over and sleeps again behind a lock that stays on the list, and \<^verbatim>\<open>lf_purgelocks\<close> waits for it.
\<close>

lemma lf_purge_missed:
  "(do {
     (rs, ls) \<leftarrow> lf_calls [(Op_setlk, 1, F_WRLCK, 0, 10), (Op_setlk, 2, F_WRLCK, 10, 10), (Op_setlk, 3, F_WRLCK, 0, 20),
       (Op_unlck, 1, F_WRLCK, 0, 10)] (lf_none (\<lambda>_. 0));
     (r, ls') \<leftarrow> lf_setlock_resume (hd (ls_pending ls)) None (lf_purge_wake ls);
     Some (rs, r, map (\<lambda>p. (lf_pid p, lf_blk p, lf_flags p AND F_INTR)) (ls_pending ls')) }) =
   Some ([Lf_ok, Lf_ok, Lf_sleep, Lf_ok], Lf_sleep, [(103, Some 1, 0)])"
  by code_simp

section \<open>Properties\<close>

text \<open>A state with a lock of one process and a request of another that waits for it.\<close>

lemma lf_run_state:
  obtains ls where "lf_reachable ls" and "lf_pids ls = ([(101, 0)], [(102, Some 0)])" and "ls_refs ls \<noteq> 0"
proof -
  let ?run = "lf_calls [(Op_setlk, 1, F_WRLCK, 0, 10), (Op_setlk, 2, F_WRLCK, 5, 10)] (lf_none (\<lambda>_. 0))"
  have run: "map_option (\<lambda>(rs, ls). (lf_pids ls, ls_refs ls)) ?run = Some (([(101, 0)], [(102, Some 0)]), 2)" by code_simp
  then obtain rs ls where "?run = Some (rs, ls)" by (cases ?run) auto
  moreover from lf_calls_reachable [OF lf_reachable.init this] have "lf_reachable ls" by simp
  ultimately show ?thesis using run by (intro that) auto
qed

text \<open>C6: In every state the locks of a file can reach by calls of \<^verbatim>\<open>lf_advlock\<close>, sleeps that end and calls for other
  files: no byte is locked exclusively by one owner while another holds any lock on it; the locks of an owner are
  disjoint and ascending; a request asleep waits on the list of a lock that still conflicts with it (so every
  wakeup it needs is still to come); and the reference and user counts are those of the locks and requests.\<close>

theorem lf_reachable_inv:
  assumes "lf_reachable ls"
  shows "(\<forall>i j x. i \<noteq> j \<longrightarrow> lf_holds (ls_locks ls) i x = Some F_WRLCK \<longrightarrow> lf_holds (ls_locks ls) j x = None) \<and>
    lf_sorted (ls_locks ls) \<and>
    (\<forall>p \<in> set (ls_pending ls). \<forall>a. lf_blk p = Some a \<longrightarrow>
      (\<exists>b \<in> set (ls_locks ls). lf_addr b = a \<and> lf_addr p \<in> set (lf_blkhd b) \<and> lf_conflicts b p)) \<and>
    ls_refs ls = int (length (ls_locks ls)) + int (length (ls_pending ls)) \<and>
    (\<forall>u. ui_lockcnt ls u = ui_elsewhere ls u + lf_uid_count u (ls_locks ls) + lf_uid_count u (ls_pending ls))"
  using lf_reachable_lf_inv [OF assms]
  by (simp add: lf_inv_def lf_compatible_def lf_live_def lf_counted_def lf_waiting_def)

theorem lf_reachable_inv_witness:
  "\<exists>ls. lf_reachable ls \<and> lf_pids ls = ([(101, 0)], [(102, Some 0)]) \<and> lf_sorted (ls_locks ls) \<and>
    (\<exists>b \<in> set (ls_locks ls). \<exists>p \<in> set (ls_pending ls). lf_conflicts b p)"
proof -
  obtain ls where ls: "lf_reachable ls" "lf_pids ls = ([(101, 0)], [(102, Some 0)])" and refs: "ls_refs ls \<noteq> 0"
    by (rule lf_run_state)
  then obtain p where "p \<in> set (ls_pending ls)" "lf_blk p = Some 0" by (cases "ls_pending ls") (auto simp: lf_pids_def)
  with lf_reachable_inv [OF ls(1)] ls show ?thesis by blast
qed

text \<open>C9: In a reachable state no call of \<^verbatim>\<open>lf_advlock\<close> and no request that goes on after its sleep panics or fails an
  assertion: each returns or sleeps again.\<close>

theorem lf_no_panic:
  assumes "lf_reachable ls" and "opn = Op_setlk \<longrightarrow> l_type fl \<noteq> F_UNLCK"
  shows "lf_advlock fsize own opn fl flags uid pid ls \<noteq> None \<and>
    (\<forall>p \<in> set (ls_pending ls). lf_setlock_resume p eno ls \<noteq> None)"
  using lf_advlock_ok [OF lf_reachable_lf_inv [OF assms(1)]] lf_resume_ok [OF lf_reachable_lf_inv [OF assms(1)]] assms(2) by fastforce

theorem lf_no_panic_witness:
  "\<exists>ls. ls_pending ls \<noteq> [] \<and> lf_advlock 0 3 Op_unlck (lf_fl F_UNLCK 0 0) F_POSIX 0 103 ls \<noteq> None \<and>
    (\<forall>p \<in> set (ls_pending ls). lf_setlock_resume p (Some EINTR) ls \<noteq> None)"
proof -
  obtain ls where ls: "lf_reachable ls" "lf_pids ls = ([(101, 0)], [(102, Some 0)])" and refs: "ls_refs ls \<noteq> 0"
    by (rule lf_run_state)
  then have "ls_pending ls \<noteq> []" by (auto simp: lf_pids_def)
  with lf_no_panic [OF ls(1), of Op_unlck "lf_fl F_UNLCK 0 0" 0 3 F_POSIX 0 103 "Some EINTR"] show ?thesis by auto
qed





text \<open>\<^verbatim>\<open>F_GETLK\<close> reports the first lock of the list that conflicts with the request, with its range, type and
  process, or \<^verbatim>\<open>F_UNLCK\<close> if there is none, and leaves the locks and the waiting requests as they are.\<close>

theorem lf_getlk_first:
  assumes "lf_reachable ls" and "lf_range fsize fl = Inr (s, e)" and "ls_refs ls \<noteq> 0"
    and "uid = 0 \<or> ui_lockcnt ls uid \<le> maxlocksperuid * 2"
  shows "\<exists>fl' ls'. lf_advlock fsize own Op_getlk fl flags uid pid ls = Some (Lf_ok, fl', ls') \<and>
    ls_locks ls' = ls_locks ls \<and> ls_pending ls' = ls_pending ls \<and>
    fl' = (case find (\<lambda>b. lf_conflicts b (lf_request (ls_next ls) own (l_type fl) flags uid pid s e)) (ls_locks ls) of
        None \<Rightarrow> fl\<lparr>l_type := F_UNLCK\<rparr>
      | Some b \<Rightarrow> fl\<lparr>l_type := lf_type b, l_whence := 0, l_start := lf_start b,
          l_len := (if lf_end b = -1 then 0 else lf_end b - lf_start b + 1), l_pid := lf_pid b\<rparr>)"
proof -
  let ?lock = "lf_request (ls_next ls) own (l_type fl) flags uid pid s e"
  note inv = lf_reachable_lf_inv [OF assms(1)]
  have "\<not> lf_limited uid (maxlocksperuid * 2) ls" using assms(4) by (auto simp: lf_limited_def)
  from lf_getlk [OF inv assms(2,3) this refl] obtain fl' ls' where
    l: "lf_advlock fsize own Op_getlk fl flags uid pid ls = Some (Lf_ok, fl', ls')" "ls_locks ls' = ls_locks ls"
      "ls_pending ls' = ls_pending ls" "lf_getlock ?lock fl ls = Some fl'" by blast
  define d where "d = dropWhile (\<lambda>a. \<not> lf_conflicts a ?lock) (ls_locks ls)"
  have g: "lf_getblock (ls_locks ls) ?lock = Some d"
    unfolding d_def by (rule lf_getblock_spec) (use inv lf_range_wf [OF assms(2)] in \<open>auto simp: lf_inv_def lf_sorted_def lf_wf_def\<close>)
  have "fl' = (case find (\<lambda>b. lf_conflicts b ?lock) (ls_locks ls) of
        None \<Rightarrow> fl\<lparr>l_type := F_UNLCK\<rparr>
      | Some b \<Rightarrow> fl\<lparr>l_type := lf_type b, l_whence := 0, l_start := lf_start b,
          l_len := (if lf_end b = -1 then 0 else lf_end b - lf_start b + 1), l_pid := lf_pid b\<rparr>)"
    using l(4) unfolding lf_getlock_def g find_dropWhile comp_def d_def [symmetric] by (cases d) simp_all
  with l show ?thesis by blast
qed

theorem lf_getlk_first_witness:
  "\<exists>ls fl' ls'. lf_pids ls = ([(101, 0)], [(102, Some 0)]) \<and>
    lf_advlock 0 3 Op_getlk (lf_fl F_RDLCK 0 0) F_POSIX 0 103 ls = Some (Lf_ok, fl', ls') \<and> ls_locks ls' = ls_locks ls"
proof -
  obtain ls where ls: "lf_reachable ls" "lf_pids ls = ([(101, 0)], [(102, Some 0)])" and refs: "ls_refs ls \<noteq> 0"
    by (rule lf_run_state)
  have range: "lf_range 0 (lf_fl F_RDLCK 0 0) = Inr (0, -1)" by (simp add: lf_range_def lf_fl_def)
  from lf_getlk_first [OF ls(1) range refs, of 0 3 F_POSIX 103] ls(2) show ?thesis by auto
qed

text \<open>C10: If every pending request is asleep behind a lock when \<^verbatim>\<open>lf_purgelocks\<close> starts, it completes: the
  interrupted requests return \<^verbatim>\<open>EINTR\<close> in whatever order they run, no assertion fails, and at the end no lock, no
  request and no reference is left and the users are charged for their locks on other files only.\<close>

theorem lf_purge_completes:
  assumes "lf_reachable ls" and "ls_refs ls \<noteq> 0" and "\<forall>p \<in> set (ls_pending ls). lf_blk p \<noteq> None"
    and "mset ps = mset (ls_pending (lf_purge_wake ls))"
  shows "\<exists>ls1 ls2. lf_resume_all ps (lf_purge_wake ls) = Some (map (\<lambda>_. Lf_errno EINTR) ps, ls1) \<and> ls_pending ls1 = [] \<and>
    lf_purge_finish ls1 = Some ls2 \<and> ls_locks ls2 = [] \<and> ls_pending ls2 = [] \<and> ls_refs ls2 = 0 \<and> ui_lockcnt ls2 = ui_elsewhere ls"
  by (rule lf_purge_run [OF lf_reachable_lf_inv [OF assms(1)] assms(2-4)])

theorem lf_purge_completes_witness:
  "\<exists>ls ls1 ls2. lf_pids ls = ([(101, 0)], [(102, Some 0)]) \<and>
    lf_resume_all (ls_pending (lf_purge_wake ls)) (lf_purge_wake ls) = Some ([Lf_errno EINTR], ls1) \<and>
    lf_purge_finish ls1 = Some ls2 \<and> ls_refs ls2 = 0"
proof -
  obtain ls where ls: "lf_reachable ls" "lf_pids ls = ([(101, 0)], [(102, Some 0)])" and refs: "ls_refs ls \<noteq> 0"
    by (rule lf_run_state)
  have asleep: "\<forall>p \<in> set (ls_pending ls). lf_blk p \<noteq> None" using ls(2) by (auto simp: lf_pids_def)
  have "length (ls_pending (lf_purge_wake ls)) = 1"
    using lf_purge_wake_purging(2) [OF lf_reachable_lf_inv [OF ls(1)] refs asleep] ls(2) by (auto simp: lf_pids_def)
  then obtain q where q: "ls_pending (lf_purge_wake ls) = [q]" by (auto simp: length_Suc_conv)
  from lf_purge_completes [OF ls(1) refs asleep refl] ls(2) show ?thesis by (auto simp: q)
qed

end
