(* ===== verification/Blist.thy ===== *)
theory Blist
  imports Kern_Prelude
begin

text \<open>
  The radix-tree bitmap allocator of \<^verbatim>\<open>kern/subr_blist.c\<close> and \<^verbatim>\<open>sys/blist.h\<close>, which manages swap space: allocation, freeing, reserving
  a range, resizing and the search for the largest gap.

  \<^item> The tree lies in one array \<open>bl_root\<close>: a meta node is followed by its \<^verbatim>\<open>BLIST_META_RADIX\<close> subtrees, each of \<^verbatim>\<open>next_skip\<close> nodes. The
    array ends where the blocks end; a node whose \<^verbatim>\<open>bm_bighint\<close> is \<^verbatim>\<open>(swblk_t)-1\<close> terminates the scan. An access outside the array is the
    left value \<open>Bl_oob\<close>.
  \<^item> The code passes the pair \<^verbatim>\<open>radix\<close>, \<^verbatim>\<open>skip\<close>; it is determined by the height of the node (0 for a leaf), which the functions recurse on.
  \<^item> The union of \<^verbatim>\<open>bmu_avail\<close> and \<^verbatim>\<open>bmu_bitmap\<close> is one 64-bit word. Block numbers, counts and hints are natural numbers; a node never holds
    one that does not fit into 64 bits. \<^verbatim>\<open>SWAPBLK_NONE\<close> is the result \<open>None\<close>.
  \<^item> A shift by 64 or more is undefined in C and the left value \<open>Bl_shift\<close>. \<^verbatim>\<open>KDASSERT\<close>, which only a kernel with \<^verbatim>\<open>DEBUG\<close> checks, is \<open>Bl_debug\<close>.
\<close>

section \<open>Data\<close>

definition BLIST_BMAP_RADIX :: nat where [kern_defs]: "BLIST_BMAP_RADIX = 64"
definition BLIST_META_RADIX :: nat where [kern_defs]: "BLIST_META_RADIX = 32"
definition BLIST_MAXBLKS :: nat where [kern_defs]: "BLIST_MAXBLKS = 0x4000000000000000 div (BLIST_BMAP_RADIX div BLIST_META_RADIX)"

definition BL_TERM :: u64 where [kern_defs]: "BL_TERM = - 1"

record blmeta =
  bmu :: u64
  bm_bighint :: u64

abbreviation bmu_avail :: "blmeta \<Rightarrow> nat" where
  "bmu_avail m \<equiv> unat (bmu m)"

abbreviation bighint :: "blmeta \<Rightarrow> nat" where
  "bighint m \<equiv> unat (bm_bighint m)"

datatype bl_panic = Bl_oob | Bl_shift | Bl_debug | Bl_kassert | Bl_free_free | Bl_already_free | Bl_unexpected | Bl_too_large

type_synonym bl_mem = "blmeta list"

record blist =
  bl_blocks :: nat
  bl_height :: nat
  bl_free :: u64
  bl_root :: bl_mem

text \<open>\<^verbatim>\<open>bl_radix\<close> and \<^verbatim>\<open>bl_skip\<close> of a tree, as the loop of \<^verbatim>\<open>blist_create\<close> computes them.\<close>

definition blst_radix :: "nat \<Rightarrow> nat" where
  "blst_radix h = BLIST_BMAP_RADIX * BLIST_META_RADIX ^ h"

primrec blst_skip :: "nat \<Rightarrow> nat" where
  "blst_skip 0 = 0"
| "blst_skip (Suc h) = (blst_skip h + 1) * BLIST_META_RADIX"

text \<open>The nodes the loops \<^verbatim>\<open>for (i = 1; i <= skip; i += next_skip)\<close> visit below the node at \<open>n\<close>, whose children have height \<open>h\<close>.\<close>

definition blst_kid :: "nat \<Rightarrow> nat \<Rightarrow> nat \<Rightarrow> nat" where
  "blst_kid h n k = n + 1 + k * (blst_skip h + 1)"

definition blst_kids :: "nat \<Rightarrow> nat \<Rightarrow> nat \<Rightarrow> nat list" where
  "blst_kids h n k = map (blst_kid h n) [k..<BLIST_META_RADIX]"

definition ebind :: "'e + 'a \<Rightarrow> ('a \<Rightarrow> 'e + 'b) \<Rightarrow> 'e + 'b" where
  "ebind x f = (case x of Inl e \<Rightarrow> Inl e | Inr y \<Rightarrow> f y)"

definition bm_get :: "nat \<Rightarrow> bl_mem \<Rightarrow> bl_panic + blmeta" where
  "bm_get i root = (if i < length root then Inr (root ! i) else Inl Bl_oob)"

definition bm_put :: "nat \<Rightarrow> blmeta \<Rightarrow> bl_mem \<Rightarrow> bl_panic + bl_mem" where
  "bm_put i m root = (if i < length root then Inr (root[i := m]) else Inl Bl_oob)"

section \<open>Leaves\<close>

text \<open>The search for one free bit.\<close>

function leaf_find1 :: "nat \<Rightarrow> u64 \<Rightarrow> u64 \<Rightarrow> nat \<Rightarrow> nat" where
  "leaf_find1 j m orig r =
     (if j = 0 then r
      else
        let (orig, r) = (if orig AND m = 0 then (drop_bit j orig, r + j) else (orig, r))
        in leaf_find1 (j div 2) (drop_bit (j div 2) m) orig r)"
  by pat_completeness auto
termination by (relation "measure (\<lambda>(j, m, orig, r). j)") auto

declare leaf_find1.simps [simp del]

text \<open>The search for more than one: \<open>n + 1\<close> positions are left.\<close>

fun leaf_find_run :: "nat \<Rightarrow> nat \<Rightarrow> u64 \<Rightarrow> u64 \<Rightarrow> (nat \<times> u64) option" where
  "leaf_find_run 0 j m orig = None"
| "leaf_find_run (Suc n) j m orig = (if orig AND m = m then Some (j, m) else leaf_find_run n (j + 1) (push_bit 1 m) orig)"

definition blst_leaf_alloc :: "nat \<Rightarrow> nat \<Rightarrow> blmeta \<Rightarrow> bl_panic + nat option \<times> blmeta" where
  "blst_leaf_alloc blk count m =
     (let orig = bmu m in
      if orig = 0 then Inr (None, m\<lparr>bm_bighint := 0\<rparr>)
      else if count = 1 then
        (let r = leaf_find1 (BLIST_BMAP_RADIX div 2) (drop_bit (BLIST_BMAP_RADIX div 2) (- 1)) orig 0
         in Inr (Some (blk + r), m\<lparr>bmu := bmu m AND NOT (push_bit r 1)\<rparr>))
      else if count = 0 then Inl Bl_shift
      else
        (case (if count \<le> BLIST_BMAP_RADIX
               then leaf_find_run (BLIST_BMAP_RADIX - count + 1) 0 (drop_bit (BLIST_BMAP_RADIX - count) (- 1)) orig
               else None) of
           Some (j, ms) \<Rightarrow> Inr (Some (blk + j), m\<lparr>bmu := bmu m AND NOT ms\<rparr>)
         | None \<Rightarrow> Inr (None, m\<lparr>bm_bighint := of_nat count - 1\<rparr>)))"

text \<open>The mask of a range in a leaf.\<close>

definition leaf_mask :: "nat \<Rightarrow> nat \<Rightarrow> bl_panic + u64" where
  "leaf_mask blk count =
     (let n = blk mod BLIST_BMAP_RADIX in
      if count = 0 \<and> n = 0 \<or> count + n > BLIST_BMAP_RADIX then Inl Bl_shift
      else Inr (push_bit n (- 1) AND drop_bit (BLIST_BMAP_RADIX - count - n) (- 1)))"

definition blst_leaf_free :: "nat \<Rightarrow> nat \<Rightarrow> blmeta \<Rightarrow> bl_panic + blmeta" where
  "blst_leaf_free blk count m =
     ebind (leaf_mask blk count) (\<lambda>ms.
       if bmu m AND ms \<noteq> 0 then Inl Bl_free_free
       else Inr (m\<lparr>bmu := bmu m OR ms, bm_bighint := of_nat BLIST_BMAP_RADIX\<rparr>))"

text \<open>The loop that counts the bits.\<close>

lemma clear_lowest_less: "(w :: u64) \<noteq> 0 \<Longrightarrow> unat (w AND (w - 1)) < unat w"
proof -
  assume "w \<noteq> 0"
  then have "w AND (w - 1) \<le> w - 1" "w - 1 < w" by (simp_all add: word_and_le1 word_less_nat_alt unat_minus_one unat_gt_0)
  then show ?thesis by (meson le_less_trans word_less_nat_alt)
qed

function leaf_count :: "u64 \<Rightarrow> nat \<Rightarrow> nat" where
  "leaf_count w n = (if w = 0 then n else leaf_count (w AND (w - 1)) (n + 1))"
  by pat_completeness auto
termination by (relation "measure (\<lambda>(w, n). unat w)") (auto simp: clear_lowest_less)

declare leaf_count.simps [simp del]

definition blst_leaf_fill :: "nat \<Rightarrow> nat \<Rightarrow> blmeta \<Rightarrow> bl_panic + nat \<times> blmeta" where
  "blst_leaf_fill blk count m =
     ebind (leaf_mask blk count) (\<lambda>ms. Inr (leaf_count (bmu m AND ms) 0, m\<lparr>bmu := bmu m AND NOT ms\<rparr>))"

section \<open>Sublevels\<close>

text \<open>The loops that initialise the level below a node which was all free or all allocated, and the value of a node that is all free.\<close>

fun blst_set_subs :: "blmeta \<Rightarrow> nat list \<Rightarrow> bl_mem \<Rightarrow> bl_panic + bl_mem" where
  "blst_set_subs v [] root = Inr root"
| "blst_set_subs v (i # is) root =
     ebind (bm_get i root) (\<lambda>m.
       if bm_bighint m = BL_TERM then Inr root
       else ebind (bm_put i v root) (blst_set_subs v is))"

definition blst_all_free :: "nat \<Rightarrow> blmeta" where
  "blst_all_free h =
     (if h = 0 then \<lparr>bmu = - 1, bm_bighint = of_nat BLIST_BMAP_RADIX\<rparr>
      else \<lparr>bmu = of_nat (blst_radix h), bm_bighint = of_nat (blst_radix h)\<rparr>)"

section \<open>Allocation\<close>

text \<open>The scan over the children, whose operation is \<open>f\<close>.\<close>

fun blst_scan_alloc ::
  "(nat \<Rightarrow> nat \<Rightarrow> bl_mem \<Rightarrow> bl_panic + nat option \<times> bl_mem) \<Rightarrow> nat \<Rightarrow> nat \<Rightarrow> nat \<Rightarrow> nat list \<Rightarrow> nat \<Rightarrow> bl_mem \<Rightarrow>
   bl_panic + nat option \<times> bl_mem" where
  "blst_scan_alloc f radix blkat count [] blk root = Inr (None, root)"
| "blst_scan_alloc f radix blkat count (i # is) blk root =
     ebind (bm_get i root) (\<lambda>m.
       if bm_bighint m = BL_TERM then Inr (None, root)
       else if count \<le> bighint m \<and> blkat < blk + radix then
         ebind (f i blk root) (\<lambda>(r, root).
           case r of
             Some b \<Rightarrow> Inr (Some b, root)
           | None \<Rightarrow> blst_scan_alloc f radix blkat count is (blk + radix) root)
       else if radix < count then Inl Bl_too_large
       else blst_scan_alloc f radix blkat count is (blk + radix) root)"

text \<open>At height 0 this is the call of \<^verbatim>\<open>blst_leaf_alloc\<close> that every caller makes for a leaf.\<close>

primrec blst_meta_alloc :: "nat \<Rightarrow> nat \<Rightarrow> nat \<Rightarrow> nat \<Rightarrow> nat \<Rightarrow> bl_mem \<Rightarrow> bl_panic + nat option \<times> bl_mem" where
  "blst_meta_alloc 0 blkat count n blk root =
     ebind (bm_get n root) (\<lambda>m.
     ebind (blst_leaf_alloc blk count m) (\<lambda>(r, m).
     ebind (bm_put n m root) (\<lambda>root. Inr (r, root))))"
| "blst_meta_alloc (Suc h) blkat count n blk root =
     ebind (bm_get n root) (\<lambda>m.
     if bmu m = 0 then ebind (bm_put n (m\<lparr>bm_bighint := 0\<rparr>) root) (\<lambda>root. Inr (None, root))
     else
       ebind (if bmu_avail m = blst_radix (Suc h)
              then ebind (bm_put n (m\<lparr>bm_bighint := of_nat (blst_radix (Suc h))\<rparr>) root) (blst_set_subs (blst_all_free h) (blst_kids h n 0))
              else Inr root) (\<lambda>root.
       ebind (blst_scan_alloc (blst_meta_alloc h blkat count) (blst_radix h) blkat count (blst_kids h n 0) blk root) (\<lambda>(r, root).
       ebind (bm_get n root) (\<lambda>m.
       case r of
         Some b \<Rightarrow>
           (let m = m\<lparr>bmu := bmu m - of_nat count\<rparr>;
                m = (if bmu m < bm_bighint m then m\<lparr>bm_bighint := bmu m\<rparr> else m)
            in ebind (bm_put n m root) (\<lambda>root. Inr (Some b, root)))
       | None \<Rightarrow>
           (let m = (if blkat \<le> blk \<and> count \<le> bighint m then m\<lparr>bm_bighint := of_nat count - 1\<rparr> else m)
            in ebind (bm_put n m root) (\<lambda>root. Inr (None, root)))))))"

section \<open>Freeing\<close>

fun blst_scan_free ::
  "(nat \<Rightarrow> nat \<Rightarrow> nat \<Rightarrow> nat \<Rightarrow> bl_mem \<Rightarrow> bl_panic + bl_mem) \<Rightarrow> nat \<Rightarrow> nat \<Rightarrow> nat list \<Rightarrow> nat \<Rightarrow> nat \<Rightarrow> nat \<Rightarrow> bl_mem \<Rightarrow>
   bl_panic + bl_mem" where
  "blst_scan_free f radix n [] blk freeBlk count root = Inr root"
| "blst_scan_free f radix n (i # is) blk freeBlk count root =
     (if blk < freeBlk + count then
        (let v = min (blk + radix - freeBlk) count in
         ebind (bm_get n root) (\<lambda>m.
         if bm_bighint m = BL_TERM then Inl Bl_unexpected
         else
           ebind (f i freeBlk v blk root) (\<lambda>root.
           ebind (bm_get n root) (\<lambda>m.
           ebind (bm_get i root) (\<lambda>c.
           ebind (bm_put n (if bm_bighint m < bm_bighint c then m\<lparr>bm_bighint := bm_bighint c\<rparr> else m) root) (\<lambda>root.
           blst_scan_free f radix n is (blk + radix) (freeBlk + v) (count - v) root))))))
      else Inr root)"

primrec blst_meta_free :: "nat \<Rightarrow> nat \<Rightarrow> nat \<Rightarrow> nat \<Rightarrow> nat \<Rightarrow> bl_mem \<Rightarrow> bl_panic + bl_mem" where
  "blst_meta_free 0 n freeBlk count blk root =
     ebind (bm_get n root) (\<lambda>m.
     ebind (blst_leaf_free freeBlk count m) (\<lambda>m.
     bm_put n m root))"
| "blst_meta_free (Suc h) n freeBlk count blk root =
     ebind (bm_get n root) (\<lambda>m.
     ebind (if bmu m = 0 then
              ebind (bm_put n \<lparr>bmu = of_nat count, bm_bighint = of_nat count\<rparr> root) (\<lambda>root.
                if count \<noteq> blst_radix (Suc h) then blst_set_subs \<lparr>bmu = 0, bm_bighint = 0\<rparr> (blst_kids h n 0) root else Inr root)
            else bm_put n (m\<lparr>bmu := bmu m + of_nat count\<rparr>) root) (\<lambda>root.
     ebind (bm_get n root) (\<lambda>m.
     if bmu_avail m = blst_radix (Suc h) then bm_put n (m\<lparr>bm_bighint := of_nat (blst_radix (Suc h))\<rparr>) root
     else if blst_radix (Suc h) < bmu_avail m then Inl Bl_already_free
     else
       (let k = (freeBlk - blk) div blst_radix h
        in blst_scan_free (blst_meta_free h) (blst_radix h) n (blst_kids h n k) (blk + k * blst_radix h) freeBlk count root))))"

section \<open>Reserving a range\<close>

fun blst_scan_fill ::
  "(nat \<Rightarrow> nat \<Rightarrow> nat \<Rightarrow> nat \<Rightarrow> bl_mem \<Rightarrow> bl_panic + nat \<times> bl_mem) \<Rightarrow> nat \<Rightarrow> nat \<Rightarrow> nat list \<Rightarrow> nat \<Rightarrow> nat \<Rightarrow> nat \<Rightarrow> nat \<Rightarrow> bl_mem \<Rightarrow>
   bl_panic + nat \<times> bl_mem" where
  "blst_scan_fill f radix n [] blk fillBlk count nblks root = Inr (nblks, root)"
| "blst_scan_fill f radix n (i # is) blk fillBlk count nblks root =
     (if blk < fillBlk + count then
        (let v = min (blk + radix - fillBlk) count in
         ebind (bm_get n root) (\<lambda>m.
         if bm_bighint m = BL_TERM then Inl Bl_unexpected
         else
           ebind (f i fillBlk v blk root) (\<lambda>(nb, root).
           blst_scan_fill f radix n is (blk + radix) (fillBlk + v) (count - v) (nblks + nb) root)))
      else Inr (nblks, root))"

primrec blst_meta_fill :: "nat \<Rightarrow> nat \<Rightarrow> nat \<Rightarrow> nat \<Rightarrow> nat \<Rightarrow> bl_mem \<Rightarrow> bl_panic + nat \<times> bl_mem" where
  "blst_meta_fill 0 n fillBlk count blk root =
     ebind (bm_get n root) (\<lambda>m.
     ebind (blst_leaf_fill fillBlk count m) (\<lambda>(nb, m).
     ebind (bm_put n m root) (\<lambda>root. Inr (nb, root))))"
| "blst_meta_fill (Suc h) n fillBlk count blk root =
     ebind (bm_get n root) (\<lambda>m.
     if count = blst_radix (Suc h) \<or> bmu m = 0 then
       ebind (bm_put n \<lparr>bmu = 0, bm_bighint = of_nat count\<rparr> root) (\<lambda>root. Inr (bmu_avail m, root))
     else
       ebind (if bmu_avail m = blst_radix (Suc h) then blst_set_subs (blst_all_free h) (blst_kids h n 0) root else Inr root) (\<lambda>root.
       if blst_radix h < count then Inl Bl_too_large
       else
         (let k = (fillBlk - blk) div blst_radix h in
          ebind (blst_scan_fill (blst_meta_fill h) (blst_radix h) n (blst_kids h n k) (blk + k * blst_radix h) fillBlk count 0 root)
            (\<lambda>(nblks, root).
          ebind (bm_get n root) (\<lambda>m.
          ebind (bm_put n (m\<lparr>bmu := bmu m - of_nat nblks\<rparr>) root) (\<lambda>root. Inr (nblks, root)))))))"

section \<open>Initialisation\<close>

text \<open>
  \<^verbatim>\<open>blst_radix_init\<close> is called with a null pointer, to compute the size of the array, and then with the array: the memory is an option.
  The loop returns \<^verbatim>\<open>i\<close>, \<^verbatim>\<open>memindex\<close> and the memory; \<open>r\<close> children are left to visit.
\<close>

definition blst_store :: "nat \<Rightarrow> (blmeta \<Rightarrow> blmeta) \<Rightarrow> bl_mem option \<Rightarrow> bl_panic + bl_mem option" where
  "blst_store i f scan =
     (case scan of
        None \<Rightarrow> Inr None
      | Some root \<Rightarrow> ebind (bm_get i root) (\<lambda>m. ebind (bm_put i (f m) root) (\<lambda>root. Inr (Some root))))"

fun blst_scan_init ::
  "(nat \<Rightarrow> nat \<Rightarrow> bl_mem option \<Rightarrow> bl_panic + nat \<times> bl_mem option) \<Rightarrow> nat \<Rightarrow> nat \<Rightarrow> nat \<Rightarrow> nat \<Rightarrow> nat \<Rightarrow> nat \<Rightarrow> nat \<Rightarrow> bl_mem option \<Rightarrow>
   bl_panic + nat \<times> nat \<times> bl_mem option" where
  "blst_scan_init f radix next_skip n 0 i count memindex scan = Inr (i, memindex, scan)"
| "blst_scan_init f radix next_skip n (Suc r) i count memindex scan =
     (if radix \<le> count then
        ebind (f (n + i) radix scan) (\<lambda>(x, scan).
        blst_scan_init f radix next_skip n r (i + next_skip) (count - radix) (i + x) scan)
      else if 0 < count then
        ebind (f (n + i) count scan) (\<lambda>(x, scan).
        blst_scan_init f radix next_skip n r (i + next_skip) 0 (i + x) scan)
      else
        ebind (blst_store (n + i) (\<lambda>m. m\<lparr>bm_bighint := BL_TERM\<rparr>) scan) (\<lambda>scan. Inr (i, memindex, scan)))"

primrec blst_radix_init :: "nat \<Rightarrow> nat \<Rightarrow> nat \<Rightarrow> bl_mem option \<Rightarrow> bl_panic + nat \<times> bl_mem option" where
  "blst_radix_init 0 n count scan =
     ebind (blst_store n (\<lambda>m. \<lparr>bmu = 0, bm_bighint = 0\<rparr>) scan) (\<lambda>scan. Inr (0, scan))"
| "blst_radix_init (Suc h) n count scan =
     ebind (blst_store n (\<lambda>m. \<lparr>bmu = 0, bm_bighint = 0\<rparr>) scan) (\<lambda>scan.
     ebind (blst_scan_init (blst_radix_init h) (blst_radix h) (blst_skip h + 1) n BLIST_META_RADIX 1 count 0 scan) (\<lambda>(i, memindex, scan).
     Inr (max memindex i, scan)))"

section \<open>The entry points\<close>

text \<open>
  The loop that computes \<^verbatim>\<open>bl_radix\<close> and \<^verbatim>\<open>bl_skip\<close>, at the width of the machine, and counts the levels. It may run forever, which is \<open>None\<close>.
\<close>

partial_function (option) blist_radix :: "nat \<Rightarrow> u64 \<Rightarrow> u64 \<Rightarrow> nat \<Rightarrow> (bl_panic + u64 \<times> u64 \<times> nat) option" where
  "blist_radix blocks radix skip h =
     (if unat radix < blocks then
        (let skip = (skip + 1) * of_nat BLIST_META_RADIX in
         if skip = 0 then Some (Inl Bl_kassert)
         else blist_radix blocks (radix * of_nat BLIST_META_RADIX) skip (h + 1))
      else Some (Inr (radix, skip, h)))"

declare blist_radix.simps [code]

text \<open>\<^verbatim>\<open>mallocarray\<close> does not clear the array: \<open>junk\<close> is what it holds.\<close>

definition blist_create :: "(nat \<Rightarrow> blmeta) \<Rightarrow> nat \<Rightarrow> (bl_panic + blist) option" where
  "blist_create junk blocks =
     (if blocks = 0 then Some (Inl Bl_kassert)
      else
        case blist_radix blocks (of_nat BLIST_BMAP_RADIX) 0 0 of
          None \<Rightarrow> None
        | Some res \<Rightarrow> Some (
            ebind res (\<lambda>(radix, skip, h).
            ebind (blst_radix_init h 0 blocks None) (\<lambda>(memindex, _).
            ebind (blst_radix_init h 0 blocks (Some (map junk [0..<1 + memindex]))) (\<lambda>(_, scan).
            Inr \<lparr>bl_blocks = blocks, bl_height = h, bl_free = 0, bl_root = the scan\<rparr>)))))"

definition blist_allocat :: "blist \<Rightarrow> nat \<Rightarrow> nat \<Rightarrow> bl_panic + nat option \<times> blist" where
  "blist_allocat bl count blkat =
     (if bl_blocks bl \<le> blkat \<or> bl_blocks bl < blkat + count then Inl Bl_debug
      else
        ebind (blst_meta_alloc (bl_height bl) blkat count 0 0 (bl_root bl)) (\<lambda>(r, root).
        case r of
          None \<Rightarrow> Inr (None, bl\<lparr>bl_root := root\<rparr>)
        | Some blk \<Rightarrow>
            (let bl = bl\<lparr>bl_root := root, bl_free := bl_free bl - of_nat count\<rparr>
             in if blk < bl_blocks bl \<and> unat (bl_free bl) \<le> bl_blocks bl then Inr (Some blk, bl) else Inl Bl_debug)))"

definition blist_alloc :: "blist \<Rightarrow> nat \<Rightarrow> bl_panic + nat option \<times> blist" where
  "blist_alloc bl count =
     ebind (blst_meta_alloc (bl_height bl) 0 count 0 0 (bl_root bl)) (\<lambda>(r, root).
     case r of
       None \<Rightarrow> Inr (None, bl\<lparr>bl_root := root\<rparr>)
     | Some blk \<Rightarrow>
         (let bl = bl\<lparr>bl_root := root, bl_free := bl_free bl - of_nat count\<rparr>
          in if blk < bl_blocks bl \<and> unat (bl_free bl) \<le> bl_blocks bl then Inr (Some blk, bl) else Inl Bl_debug))"

definition blist_free :: "blist \<Rightarrow> nat \<Rightarrow> nat \<Rightarrow> bl_panic + blist" where
  "blist_free bl blkno count =
     (if bl_blocks bl \<le> blkno \<or> bl_blocks bl < blkno + count then Inl Bl_debug
      else
        ebind (blst_meta_free (bl_height bl) 0 blkno count 0 (bl_root bl)) (\<lambda>root.
        let bl = bl\<lparr>bl_root := root, bl_free := bl_free bl + of_nat count\<rparr>
        in if unat (bl_free bl) \<le> bl_blocks bl then Inr bl else Inl Bl_debug))"

definition blist_fill :: "blist \<Rightarrow> nat \<Rightarrow> nat \<Rightarrow> bl_panic + nat \<times> blist" where
  "blist_fill bl blkno count =
     (if bl_blocks bl \<le> blkno \<or> bl_blocks bl < blkno + count then Inl Bl_debug
      else
        ebind (blst_meta_fill (bl_height bl) 0 blkno count 0 (bl_root bl)) (\<lambda>(filled, root).
        let bl = bl\<lparr>bl_root := root, bl_free := bl_free bl - of_nat filled\<rparr>
        in if unat (bl_free bl) \<le> bl_blocks bl then Inr (filled, bl) else Inl Bl_debug))"

section \<open>Copying and resizing\<close>

fun blst_leaf_copy :: "nat list \<Rightarrow> nat \<Rightarrow> u64 \<Rightarrow> blist \<Rightarrow> bl_panic + blist" where
  "blst_leaf_copy [] blk v dest = Inr dest"
| "blst_leaf_copy (i # is) blk v dest =
     ebind (if v AND push_bit i 1 \<noteq> 0 then blist_free dest (blk + i) 1 else Inr dest) (blst_leaf_copy is blk v)"

fun blst_scan_copy ::
  "(nat \<Rightarrow> nat \<Rightarrow> nat \<Rightarrow> blist \<Rightarrow> bl_panic + blist) \<Rightarrow> nat \<Rightarrow> bl_mem \<Rightarrow> nat list \<Rightarrow> nat \<Rightarrow> nat \<Rightarrow> blist \<Rightarrow> bl_panic + blist" where
  "blst_scan_copy f radix root [] blk count dest = Inr dest"
| "blst_scan_copy f radix root (i # is) blk count dest =
     (if count = 0 then Inr dest
      else
        ebind (bm_get i root) (\<lambda>m.
        if bm_bighint m = BL_TERM then Inr dest
        else if radix \<le> count then
          ebind (f i blk radix dest) (blst_scan_copy f radix root is (blk + radix) (count - radix))
        else
          ebind (f i blk count dest) (blst_scan_copy f radix root is (blk + radix) 0)))"

primrec blst_copy :: "nat \<Rightarrow> bl_mem \<Rightarrow> nat \<Rightarrow> nat \<Rightarrow> nat \<Rightarrow> blist \<Rightarrow> bl_panic + blist" where
  "blst_copy 0 root n blk count dest =
     ebind (bm_get n root) (\<lambda>m.
     if bmu m = - 1 then blist_free dest blk count
     else if bmu m \<noteq> 0 then blst_leaf_copy [0..<min BLIST_BMAP_RADIX count] blk (bmu m) dest
     else Inr dest)"
| "blst_copy (Suc h) root n blk count dest =
     ebind (bm_get n root) (\<lambda>m.
     if bmu m = 0 then Inr dest
     else if bmu_avail m = blst_radix (Suc h) then blist_free dest blk (if count < blst_radix (Suc h) then count else blst_radix (Suc h))
     else blst_scan_copy (blst_copy h root) (blst_radix h) root (blst_kids h n 0) blk count dest)"

definition blist_resize :: "(nat \<Rightarrow> blmeta) \<Rightarrow> blist \<Rightarrow> nat \<Rightarrow> bool \<Rightarrow> (bl_panic + blist) option" where
  "blist_resize junk save count freenew =
     (case blist_create junk count of
        None \<Rightarrow> None
      | Some res \<Rightarrow> Some (
          ebind res (\<lambda>newbl.
          let count = min count (bl_blocks save) in
          ebind (blst_copy (bl_height save) (bl_root save) 0 0 count newbl) (\<lambda>newbl.
          if freenew \<and> count < bl_blocks newbl then blist_free newbl count (bl_blocks newbl - count) else Inr newbl))))"

section \<open>The largest gap\<close>

text \<open>The state of the search: \<open>g_used\<close> is \<^verbatim>\<open>GAPFIND_FIRSTUSED\<close>; the largest gap so far and the current one.\<close>

record gapfind =
  g_used :: bool
  g_maxb :: nat
  g_maxe :: nat
  g_b :: nat
  g_e :: nat

definition gap_free :: "nat \<Rightarrow> gapfind \<Rightarrow> gapfind" where
  "gap_free blk g = (if g_used g then g else g\<lparr>g_used := True, g_b := blk\<rparr>)"

definition gap_close :: "nat \<Rightarrow> gapfind \<Rightarrow> gapfind" where
  "gap_close e g =
     (let g = g\<lparr>g_e := e\<rparr>
      in if g_maxe g - g_maxb g < g_e g - g_b g then g\<lparr>g_maxb := g_b g, g_maxe := g_e g\<rparr> else g)"

definition gap_used :: "nat \<Rightarrow> gapfind \<Rightarrow> gapfind" where
  "gap_used blk g = (if g_used g then (gap_close blk g)\<lparr>g_used := False\<rparr> else g)"

fun blst_scan_gapfind ::
  "(nat \<Rightarrow> nat \<Rightarrow> gapfind \<Rightarrow> bl_panic + gapfind) \<Rightarrow> nat \<Rightarrow> bl_mem \<Rightarrow> nat list \<Rightarrow> nat \<Rightarrow> gapfind \<Rightarrow> bl_panic + gapfind" where
  "blst_scan_gapfind f radix root [] blk g = Inr g"
| "blst_scan_gapfind f radix root (i # is) blk g =
     ebind (bm_get i root) (\<lambda>m.
     if bm_bighint m = BL_TERM then Inr g
     else ebind (f i blk g) (blst_scan_gapfind f radix root is (blk + radix)))"

primrec blst_radix_gapfind :: "nat \<Rightarrow> bl_mem \<Rightarrow> nat \<Rightarrow> nat \<Rightarrow> gapfind \<Rightarrow> bl_panic + gapfind" where
  "blst_radix_gapfind 0 root n blk g =
     ebind (bm_get n root) (\<lambda>m. Inr (if bmu m = - 1 then gap_free blk g else gap_used blk g))"
| "blst_radix_gapfind (Suc h) root n blk g =
     ebind (bm_get n root) (\<lambda>m.
     if bmu m = 0 then Inr (gap_used blk g)
     else if bmu_avail m = blst_radix (Suc h) then Inr (gap_free blk g)
     else blst_scan_gapfind (blst_radix_gapfind h root) (blst_radix h) root (blst_kids h n 0) blk g)"

definition blist_gapfind :: "blist \<Rightarrow> bl_panic + nat \<times> nat" where
  "blist_gapfind bl =
     ebind (blst_radix_gapfind (bl_height bl) (bl_root bl) 0 0 \<lparr>g_used = False, g_maxb = 0, g_maxe = 0, g_b = 0, g_e = 0\<rparr>) (\<lambda>g.
     let g = (if g_used g then gap_close (bl_blocks bl) g else g)
     in if g_maxb g \<le> g_maxe g \<and> g_maxb g < bl_blocks bl \<and> g_maxe g \<le> bl_blocks bl then Inr (g_maxb g, g_maxe g) else Inl Bl_debug)"

end
