(* ===== verification/Blist_Leaf.thy ===== *)
theory Blist_Leaf
  imports Blist
begin

text \<open>
  The leaf operations of the blist: a leaf is the set of the bits of its word, and its searches find the least free block and the least free run.
\<close>

section \<open>Words as sets of bits\<close>

definition bset :: "u64 \<Rightarrow> nat set" where
  "bset w = {j. bit w j}"

lemma bset_iff [simp]: "j \<in> bset w \<longleftrightarrow> bit w j"
  by (simp add: bset_def)

lemma bit_less_64: "bit (w :: u64) j \<Longrightarrow> j < 64"
  using bit_imp_le_length [of w j] by simp

lemma bset_subset: "bset w \<subseteq> {..<64}"
  using bit_less_64 by auto

lemma bset_eqI: "(\<And>j. j < 64 \<Longrightarrow> bit v j = bit w j) \<Longrightarrow> v = (w :: u64)"
  by (rule bit_word_eqI) simp

lemma bset_inj: "bset v = bset w \<Longrightarrow> v = w"
  by (rule bset_eqI) (metis bset_iff)

lemma bset_0 [simp]: "bset 0 = {}"
  by (auto simp: bset_def)

lemma bset_all [simp]: "bset (- 1) = {..<64}"
  by (auto simp: bset_def bit_minus_1_iff)

lemma bset_empty_iff [simp]: "bset w = {} \<longleftrightarrow> w = 0"
  using bset_inj [of w 0] by auto

lemma bset_full_iff: "bset w = {..<64} \<longleftrightarrow> w = - 1"
  using bset_inj [of w "- 1"] by auto

lemma bset_and_not: "bset (v AND NOT w) = bset v - bset w"
  by (auto simp: bit_and_iff bit_not_iff dest: bit_less_64)

lemma bset_or: "bset (v OR w) = bset v \<union> bset w"
  by (auto simp: bit_or_iff)

lemma bset_and: "bset (v AND w) = bset v \<inter> bset w"
  by (auto simp: bit_and_iff)

lemma finite_bset [simp]: "finite (bset w)"
  using bset_subset finite_subset by blast

lemma bset_mask: "bset (mask n) = {..<min n 64}"
  by (auto simp: bit_mask_iff)

lemma bset_push_mask: "j + c \<le> 64 \<Longrightarrow> bset (push_bit j (mask c)) = {j..<j + c}"
  by (auto simp: bit_push_bit_iff bit_mask_iff)

lemma bset_push_1: "j < 64 \<Longrightarrow> bset (push_bit j 1) = {j}"
  by (auto simp: bit_exp_iff)

lemma drop_bit_all: "drop_bit n (- 1 :: u64) = mask (64 - n)"
  by (rule bset_eqI) (auto simp: bit_drop_bit_eq bit_mask_iff bit_minus_1_iff)

section \<open>One block\<close>

lemma least_bit_shift:
  assumes none: "\<And>k. k < j \<Longrightarrow> \<not> bit (w :: u64) k" and w: "w \<noteq> 0"
  shows "(LEAST k. bit w k) = j + (LEAST k. bit (drop_bit j w) k)"
proof -
  obtain b where b: "bit w b" using w bset_empty_iff [of w] by (auto simp: bset_def)
  then have "j \<le> b" using none by (meson not_le)
  then have d: "bit (drop_bit j w) (b - j)" using b by (simp add: bit_drop_bit_eq)
  show ?thesis
  proof (rule Least_equality)
    show "bit w (j + (LEAST k. bit (drop_bit j w) k))"
      using LeastI [of "bit (drop_bit j w)", OF d] by (simp add: bit_drop_bit_eq)
  next
    fix k assume k: "bit w k"
    then have "j \<le> k" using none by (meson not_le)
    then have "bit (drop_bit j w) (k - j)" using k by (simp add: bit_drop_bit_eq)
    then have "(LEAST k. bit (drop_bit j w) k) \<le> k - j" by (rule Least_le)
    then show "j + (LEAST k. bit (drop_bit j w) k) \<le> k" using \<open>j \<le> k\<close> by simp
  qed
qed

lemma and_mask_0_iff: "(w :: u64) AND mask n = 0 \<longleftrightarrow> (\<forall>k<n. \<not> bit w k)"
proof
  assume a: "w AND mask n = 0"
  show "\<forall>k<n. \<not> bit w k"
  proof (intro allI impI notI)
    fix k assume "k < n" "bit w k"
    then have "bit (w AND mask n) k" by (auto simp: bit_and_iff bit_mask_iff dest: bit_imp_le_length)
    then show False using a by simp
  qed
next
  assume "\<forall>k<n. \<not> bit w k"
  then show "w AND mask n = 0" by (intro bset_eqI) (auto simp: bit_and_iff bit_mask_iff)
qed

lemma leaf_find1_pow:
  "w AND mask (2 ^ Suc e) \<noteq> 0 \<Longrightarrow> 2 ^ e \<le> (32 :: nat) \<Longrightarrow> leaf_find1 (2 ^ e) (mask (2 ^ e)) w r = r + (LEAST k. bit w k)"
proof (induction e arbitrary: w r)
  case 0
  then have "bit w 0 \<or> bit w 1" by (auto simp: and_mask_0_iff less_2_cases_iff numeral_2_eq_2 less_Suc_eq)
  moreover have "(LEAST k. bit w k) = 0" if "bit w 0" using that by (simp add: Least_equality)
  moreover have "(LEAST k. bit w k) = 1" if "\<not> bit w 0" "bit w 1"
    using that by (intro Least_equality) (auto simp: Suc_le_eq intro: gr0I)
  moreover have "leaf_find1 1 (mask 1) w r = (if bit w 0 then r else r + 1)"
    using and_mask_0_iff [of w 1] by (simp add: leaf_find1.simps)
  ultimately show ?case by auto
next
  case (Suc e)
  have half: "(2 :: nat) ^ Suc e div 2 = 2 ^ e" by simp
  have m: "drop_bit (2 ^ e) (mask (2 ^ Suc e) :: u64) = mask (2 ^ e)"
    by (rule bset_eqI) (use Suc.prems in \<open>auto simp: bit_drop_bit_eq bit_mask_iff\<close>)
  have step: "leaf_find1 (2 ^ Suc e) (mask (2 ^ Suc e)) w r =
      (if w AND mask (2 ^ Suc e) = 0 then leaf_find1 (2 ^ e) (mask (2 ^ e)) (drop_bit (2 ^ Suc e) w) (r + 2 ^ Suc e)
       else leaf_find1 (2 ^ e) (mask (2 ^ e)) w r)"
    by (subst leaf_find1.simps) (simp only: half m Let_def split: if_split, simp)
  show ?case
  proof (cases "w AND mask (2 ^ Suc e) = 0")
    case True
    obtain b where b: "b < 2 ^ Suc (Suc e)" "bit w b" using Suc.prems by (auto simp: and_mask_0_iff)
    then have "2 ^ Suc e \<le> b" using True unfolding and_mask_0_iff by (meson not_le)
    then have "bit (drop_bit (2 ^ Suc e) w) (b - 2 ^ Suc e)" "b - 2 ^ Suc e < 2 ^ Suc e"
      using b by (auto simp: bit_drop_bit_eq)
    then have nz: "drop_bit (2 ^ Suc e) w AND mask (2 ^ Suc e) \<noteq> 0" unfolding and_mask_0_iff by blast
    have "w \<noteq> 0" using b by auto
    then have l: "(LEAST k. bit w k) = 2 ^ Suc e + (LEAST k. bit (drop_bit (2 ^ Suc e) w) k)"
      using True unfolding and_mask_0_iff by (intro least_bit_shift) auto
    show ?thesis using Suc.IH [OF nz, of "r + 2 ^ Suc e"] Suc.prems True unfolding step l by simp
  next
    case False
    then show ?thesis using Suc.IH [OF False, of r] Suc.prems unfolding step by simp
  qed
qed

lemma leaf_find1_least:
  assumes "w \<noteq> 0"
  shows "leaf_find1 32 (drop_bit 32 (- 1)) w 0 = (LEAST k. bit w k)"
proof -
  obtain b where "bit w b" using assms bset_empty_iff [of w] by (auto simp: bset_def)
  then have "w AND mask (2 ^ Suc 5) \<noteq> 0"
    unfolding and_mask_0_iff using bit_imp_le_length [of w b] by auto
  then show ?thesis using leaf_find1_pow [of w 5 0] by (simp add: drop_bit_all)
qed

section \<open>Runs\<close>

lemma and_eq_iff_bset: "(v :: u64) AND w = w \<longleftrightarrow> bset w \<subseteq> bset v"
proof
  assume "v AND w = w"
  then have "bset (v AND w) = bset w" by simp
  then show "bset w \<subseteq> bset v" by (auto simp: bset_and)
next
  assume "bset w \<subseteq> bset v"
  then have "bset (v AND w) = bset w" by (auto simp: bset_and)
  then show "v AND w = w" by (rule bset_inj)
qed

lemma leaf_find_run_spec:
  "1 \<le> c \<Longrightarrow> j + c + n \<le> 65 \<Longrightarrow>
   case leaf_find_run n j (push_bit j (mask c)) w of
     None \<Rightarrow> \<forall>i. j \<le> i \<and> i < j + n \<longrightarrow> \<not> {i..<i + c} \<subseteq> bset w
   | Some (r, m) \<Rightarrow> j \<le> r \<and> r < j + n \<and> m = push_bit r (mask c) \<and> {r..<r + c} \<subseteq> bset w \<and>
       (\<forall>i. j \<le> i \<and> i < r \<longrightarrow> \<not> {i..<i + c} \<subseteq> bset w)"
proof (induction n arbitrary: j)
  case 0
  then show ?case by simp
next
  case (Suc n)
  have b: "bset (push_bit j (mask c)) = {j..<j + c}" using Suc.prems by (intro bset_push_mask) simp
  have p: "push_bit 1 (push_bit j (mask c) :: u64) = push_bit (j + 1) (mask c)" by (simp add: push_bit_push_bit)
  show ?case
  proof (cases "w AND push_bit j (mask c) = push_bit j (mask c)")
    case True
    then show ?thesis using b by (simp add: and_eq_iff_bset)
  next
    case False
    then have nj: "\<not> {j..<j + c} \<subseteq> bset w" using b by (simp add: and_eq_iff_bset)
    have eq: "leaf_find_run (Suc n) j (push_bit j (mask c)) w = leaf_find_run n (j + 1) (push_bit (j + 1) (mask c)) w"
      unfolding leaf_find_run.simps p using False by simp
    have ih: "case leaf_find_run n (j + 1) (push_bit (j + 1) (mask c)) w of
       None \<Rightarrow> \<forall>i. j + 1 \<le> i \<and> i < j + 1 + n \<longrightarrow> \<not> {i..<i + c} \<subseteq> bset w
     | Some (r, m) \<Rightarrow> j + 1 \<le> r \<and> r < j + 1 + n \<and> m = push_bit r (mask c) \<and> {r..<r + c} \<subseteq> bset w \<and>
         (\<forall>i. j + 1 \<le> i \<and> i < r \<longrightarrow> \<not> {i..<i + c} \<subseteq> bset w)"
      using Suc.prems by (intro Suc.IH) auto
    have all: "\<not> {i..<i + c} \<subseteq> bset w" if "j \<le> i" "\<And>i. j + 1 \<le> i \<and> i < x \<Longrightarrow> \<not> {i..<i + c} \<subseteq> bset w" "i < x" for i x
      using that nj by (cases "i = j") auto
    show ?thesis
    proof (cases "leaf_find_run n (j + 1) (push_bit (j + 1) (mask c)) w")
      case None
      then show ?thesis using ih all [where x = "j + 1 + n"] unfolding eq by auto
    next
      case (Some rm)
      obtain r m where rm: "rm = (r, m)" by (cases rm)
      then show ?thesis using ih Some all [where x = r] unfolding eq by auto
    qed
  qed
qed

section \<open>Counting\<close>

lemma clear_lowest:
  assumes k: "bit (w :: u64) k" and least: "\<And>i. i < k \<Longrightarrow> \<not> bit w i"
  shows "w AND (w - 1) = w AND NOT (push_bit k 1)"
proof -
  define v where "v = w AND NOT (push_bit k 1)"
  have k64: "k < 64" using k by (rule bit_less_64)
  have bv: "bit v i \<longleftrightarrow> bit w i \<and> i \<noteq> k" for i
    using k64 unfolding v_def by (auto simp: bit_and_iff bit_not_iff bit_exp_iff dest: bit_less_64)
  have b2: "bit (2 ^ k :: u64) i \<longleftrightarrow> i = k" for i
    using k64 by (auto simp: bit_exp_iff)
  have "v AND 2 ^ k = 0" by (rule bset_eqI) (auto simp: bit_and_iff bv b2)
  then have w: "w = v + 2 ^ k"
    by (subst disjunctive_add_eq_or) (auto intro!: bset_eqI simp: bit_or_iff bv b2 k)
  have d: "v AND mask k = 0"
  proof (rule bset_eqI)
    fix i :: nat assume "i < 64"
    show "bit (v AND mask k) i = bit (0 :: u64) i" using least [of i] by (auto simp: bit_and_iff bit_mask_iff bv)
  qed
  have "w - 1 = v + mask k" unfolding w by (simp add: mask_eq_exp_minus_1)
  also have "\<dots> = v OR mask k" using d by (rule disjunctive_add_eq_or)
  finally have w1: "w - 1 = v OR mask k" .
  have "w AND (v OR mask k) = v"
  proof (rule bset_eqI)
    fix i :: nat assume "i < 64"
    show "bit (w AND (v OR mask k)) i = bit v i" using least [of i] by (auto simp: bit_and_iff bit_or_iff bit_mask_iff bv)
  qed
  then show ?thesis unfolding w1 v_def .
qed

lemma leaf_count_card: "leaf_count w n = n + card (bset w)"
proof (induction w n rule: leaf_count.induct)
  case (1 w n)
  show ?case
  proof (cases "w = 0")
    case True
    then show ?thesis by (simp add: leaf_count.simps)
  next
    case False
    define k where "k = (LEAST k. bit w k)"
    obtain b where "bit w b" using False bset_empty_iff [of w] by (auto simp: bset_def)
    then have k: "bit w k" unfolding k_def by (rule LeastI)
    have least: "\<not> bit w i" if "i < k" for i using that not_less_Least unfolding k_def by blast
    have "w AND (w - 1) = w AND NOT (push_bit k 1)" using k least by (rule clear_lowest)
    then have "bset (w AND (w - 1)) = bset w - {k}" by (simp only: bset_and_not bset_push_1 [OF bit_less_64 [OF k]])
    then have "card (bset w) = Suc (card (bset (w AND (w - 1))))"
      using k card_Suc_Diff1 [of "bset w" k] by simp
    then show ?thesis using 1 [OF False] False by (subst leaf_count.simps) simp
  qed
qed

section \<open>The leaf operations\<close>

text \<open>A run of \<open>c\<close> free blocks at \<open>b\<close> that does not cross the boundary of a leaf: what an allocation may return.\<close>

definition fits :: "nat set \<Rightarrow> nat \<Rightarrow> nat \<Rightarrow> bool" where
  "fits F c b \<longleftrightarrow> {b..<b + c} \<subseteq> F \<and> b mod 64 + c \<le> 64"

lemma fits_first: "fits F c b \<Longrightarrow> 1 \<le> c \<Longrightarrow> b \<in> F"
  by (auto simp: fits_def)

lemma fits_leaf: "F \<subseteq> {..<64} \<Longrightarrow> 1 \<le> c \<Longrightarrow> fits F c j \<longleftrightarrow> {j..<j + c} \<subseteq> F \<and> j + c \<le> 64"
proof -
  assume F: "F \<subseteq> {..<64}" and c: "1 \<le> c"
  have "j + c \<le> 64" if "{j..<j + c} \<subseteq> F"
  proof -
    have "j + c - 1 \<in> F" using that c by auto
    then show ?thesis using F by auto
  qed
  then show ?thesis using c by (auto simp: fits_def)
qed

lemma leaf_mask_ok:
  assumes "1 \<le> count" "blk mod 64 + count \<le> 64"
  shows "\<exists>ms. leaf_mask blk count = Inr ms \<and> bset ms = {blk mod 64..<blk mod 64 + count}"
proof -
  define n where "n = blk mod 64"
  have "bset (push_bit n (- 1) AND drop_bit (64 - count - n) (- 1)) = {n..<n + count}"
    using assms unfolding drop_bit_all bset_and n_def [symmetric]
    by (auto simp: bit_mask_iff bit_not_iff)
  then show ?thesis using assms by (simp add: leaf_mask_def kern_defs n_def Let_def)
qed

definition leaf_alloc_post :: "nat \<Rightarrow> nat \<Rightarrow> blmeta \<Rightarrow> nat option \<Rightarrow> blmeta \<Rightarrow> bool" where
  "leaf_alloc_post blk c m r m' =
     (case r of
        None \<Rightarrow> (\<forall>j. \<not> fits (bset (bmu m)) c j) \<and> bmu m' = bmu m \<and> bighint m' = (if bmu m = 0 then 0 else c - 1)
      | Some b \<Rightarrow> \<exists>j. b = blk + j \<and> fits (bset (bmu m)) c j \<and> (\<forall>i<j. \<not> fits (bset (bmu m)) c i) \<and>
          bset (bmu m') = bset (bmu m) - {j..<j + c} \<and> bm_bighint m' = bm_bighint m)"

lemma unat_pred_of_nat: "1 \<le> c \<Longrightarrow> c \<le> 64 \<Longrightarrow> unat (of_nat c - 1 :: u64) = c - 1"
proof -
  assume c: "1 \<le> c" "c \<le> 64"
  then have "of_nat c - 1 = (of_nat (c - 1) :: u64)" by (simp add: of_nat_diff)
  then show ?thesis using c unat_of_nat_less [of "c - 1", where 'a = 64] by simp
qed

lemma blst_leaf_alloc_ok:
  assumes c: "1 \<le> c" "c \<le> 64"
  shows "\<exists>r m'. blst_leaf_alloc blk c m = Inr (r, m') \<and> leaf_alloc_post blk c m r m'"
proof -
  note leaf = fits_leaf [OF bset_subset c(1)]
  consider "bmu m = 0" | "bmu m \<noteq> 0" "c = 1" | "bmu m \<noteq> 0" "c \<noteq> 1" by blast
  then show ?thesis
  proof cases
    case 1
    then show ?thesis using c by (auto simp: blst_leaf_alloc_def leaf_alloc_post_def fits_def)
  next
    case 2
    define k where "k = (LEAST k. bit (bmu m) k)"
    obtain b where "bit (bmu m) b" using 2 bset_empty_iff [of "bmu m"] by (auto simp: bset_def)
    then have k: "bit (bmu m) k" unfolding k_def by (rule LeastI)
    have least: "\<not> bit (bmu m) i" if "i < k" for i using that not_less_Least unfolding k_def by blast
    have "bset (bmu m AND NOT (push_bit k 1)) = bset (bmu m) - {k..<k + 1}"
      unfolding bset_and_not using bset_push_1 [OF bit_less_64 [OF k]] by auto
    moreover have "blst_leaf_alloc blk c m = Inr (Some (blk + k), m\<lparr>bmu := bmu m AND NOT (push_bit k 1)\<rparr>)"
      using 2 leaf_find1_least [of "bmu m"] by (simp add: blst_leaf_alloc_def kern_defs k_def Let_def)
    ultimately show ?thesis using 2 k least bit_less_64 [OF k] unfolding leaf_alloc_post_def leaf by auto
  next
    case 3
    define res where "res = leaf_find_run (64 - c + 1) 0 (mask c) (bmu m)"
    have res: "leaf_find_run (64 - c + 1) 0 (push_bit 0 (mask c)) (bmu m) = res" by (simp add: res_def)
    have sp: "case res of
     None \<Rightarrow> \<forall>i. 0 \<le> i \<and> i < 0 + (64 - c + 1) \<longrightarrow> \<not> {i..<i + c} \<subseteq> bset (bmu m)
   | Some (r, ms) \<Rightarrow> 0 \<le> r \<and> r < 0 + (64 - c + 1) \<and> ms = push_bit r (mask c) \<and> {r..<r + c} \<subseteq> bset (bmu m) \<and>
       (\<forall>i. 0 \<le> i \<and> i < r \<longrightarrow> \<not> {i..<i + c} \<subseteq> bset (bmu m))"
      using c unfolding res [symmetric] by (intro leaf_find_run_spec) auto
    have code: "blst_leaf_alloc blk c m =
        (case res of Some (j, ms) \<Rightarrow> Inr (Some (blk + j), m\<lparr>bmu := bmu m AND NOT ms\<rparr>)
         | None \<Rightarrow> Inr (None, m\<lparr>bm_bighint := of_nat c - 1\<rparr>))"
      using 3 c by (simp add: blst_leaf_alloc_def kern_defs res_def drop_bit_all Let_def)
    show ?thesis
    proof (cases res)
      case None
      then show ?thesis using sp code 3 c unat_pred_of_nat [OF c] unfolding leaf_alloc_post_def leaf by auto
    next
      case (Some jm)
      obtain j ms where jm: "jm = (j, ms)" by (cases jm)
      have "j + c \<le> 64" using sp c unfolding Some jm by auto
      then have "bset (bmu m AND NOT ms) = bset (bmu m) - {j..<j + c}"
        using sp unfolding Some jm bset_and_not by (simp add: bset_push_mask)
      moreover have "{j..<j + c} \<subseteq> bset (bmu m)" "\<And>i. i < j \<Longrightarrow> \<not> {i..<i + c} \<subseteq> bset (bmu m)"
        using sp unfolding Some jm by auto
      ultimately show ?thesis using code \<open>j + c \<le> 64\<close> unfolding Some jm leaf_alloc_post_def leaf by auto
    qed
  qed
qed

lemma blst_leaf_free_ok:
  assumes "1 \<le> c" "blk mod 64 + c \<le> 64" "bset (bmu m) \<inter> {blk mod 64..<blk mod 64 + c} = {}"
  shows "\<exists>m'. blst_leaf_free blk c m = Inr m' \<and> bset (bmu m') = bset (bmu m) \<union> {blk mod 64..<blk mod 64 + c} \<and> bighint m' = 64"
proof -
  obtain ms where ms: "leaf_mask blk c = Inr ms" "bset ms = {blk mod 64..<blk mod 64 + c}"
    using leaf_mask_ok [OF assms(1,2)] by blast
  have "bset (bmu m AND ms) = {}" using assms(3) ms by (simp add: bset_and)
  then show ?thesis using ms by (simp add: blst_leaf_free_def ebind_def kern_defs bset_or unat_of_nat_less)
qed

lemma blst_leaf_fill_ok:
  assumes "1 \<le> c" "blk mod 64 + c \<le> 64"
  shows "\<exists>m'. blst_leaf_fill blk c m = Inr (card (bset (bmu m) \<inter> {blk mod 64..<blk mod 64 + c}), m') \<and>
    bset (bmu m') = bset (bmu m) - {blk mod 64..<blk mod 64 + c} \<and> bm_bighint m' = bm_bighint m"
proof -
  obtain ms where ms: "leaf_mask blk c = Inr ms" "bset ms = {blk mod 64..<blk mod 64 + c}"
    using leaf_mask_ok [OF assms] by blast
  then show ?thesis by (simp add: blst_leaf_fill_def ebind_def leaf_count_card bset_and_not) (simp add: bset_and)
qed

end
