(* ===== verification/Blist_Inv.thy ===== *)
theory Blist_Inv
  imports Blist_Leaf
begin

text \<open>
  The invariant of the blist tree. \<open>bl_shape\<close> says that the nodes for \<open>cnt\<close> blocks lie inside the array and that the terminators stand where
  the blocks end; \<open>bl_rep\<close> says that the node at \<open>n\<close> represents the set \<open>F\<close> of its free blocks, numbered from 0. The level below a node which
  is all allocated or all free is not initialised, and nothing is said about it.
\<close>

section \<open>Arithmetic of the tree\<close>

lemma blst_radix_Suc: "blst_radix (Suc h) = 32 * blst_radix h"
  by (simp add: blst_radix_def kern_defs)

lemma blst_radix_0 [simp]: "blst_radix 0 = 64"
  by (simp add: blst_radix_def kern_defs)

lemma blst_radix_pos [simp]: "0 < blst_radix h"
  by (simp add: blst_radix_def kern_defs)

lemma blst_radix_nz [simp]: "blst_radix h \<noteq> 0"
  by (simp add: blst_radix_def kern_defs)

lemma blst_radix_dvd: "64 dvd blst_radix h"
  by (simp add: blst_radix_def kern_defs)

lemma blst_radix_ge: "64 \<le> blst_radix h"
  using blst_radix_dvd [of h] blst_radix_pos [of h] dvd_imp_le by blast

lemma blst_radix_dvd_Suc: "blst_radix h dvd blst_radix (Suc h)"
  by (simp add: blst_radix_Suc)

lemma blst_radix_bound: "h \<le> 11 \<Longrightarrow> blst_radix h \<le> 2 ^ 61"
proof -
  assume "h \<le> 11"
  then have "(32 :: nat) ^ h \<le> 32 ^ 11" by (intro power_increasing) auto
  then show ?thesis by (simp add: blst_radix_def kern_defs)
qed

lemma blst_skip_Suc: "blst_skip (Suc h) = 32 * (blst_skip h + 1)"
  by (simp add: kern_defs)

declare blst_skip.simps(2) [simp del]

lemma blst_kid_Suc: "blst_kid h n (Suc k) = blst_kid h n k + (blst_skip h + 1)"
  by (simp add: blst_kid_def)

lemma blst_kid_gt: "n < blst_kid h n k"
  by (simp add: blst_kid_def)

lemma blst_kid_end: "k < 32 \<Longrightarrow> blst_kid h n k + blst_skip h \<le> n + blst_skip (Suc h)"
proof -
  assume "k < 32"
  then have "Suc k * (blst_skip h + 1) \<le> 32 * (blst_skip h + 1)" by (intro mult_le_mono1) simp
  then show ?thesis by (simp add: blst_kid_def blst_skip_Suc)
qed

lemma blst_kid_disjoint:
  assumes "k < k'" shows "blst_kid h n k + blst_skip h < blst_kid h n k'"
proof -
  have "Suc k * (blst_skip h + 1) \<le> k' * (blst_skip h + 1)" using assms by (intro mult_le_mono1) simp
  then show ?thesis by (simp add: blst_kid_def)
qed

lemma blst_kids_unfold: "blst_kids h n k = (if k < 32 then blst_kid h n k # blst_kids h n (Suc k) else [])"
  by (simp add: blst_kids_def kern_defs upt_conv_Cons)

section \<open>The part of a set in a child\<close>

definition kid_cnt :: "nat \<Rightarrow> nat \<Rightarrow> nat \<Rightarrow> nat" where
  "kid_cnt h cnt k = min (blst_radix h) (cnt - k * blst_radix h)"

definition kid_set :: "nat \<Rightarrow> nat set \<Rightarrow> nat \<Rightarrow> nat set" where
  "kid_set h F k = {j. j < blst_radix h \<and> k * blst_radix h + j \<in> F}"

lemma kid_cnt_pos: "k * blst_radix h < cnt \<Longrightarrow> 0 < kid_cnt h cnt k"
  by (simp add: kid_cnt_def)

lemma kid_cnt_le: "kid_cnt h cnt k \<le> blst_radix h"
  by (simp add: kid_cnt_def)

lemma kid_end: "k < 32 \<Longrightarrow> k * blst_radix h + blst_radix h \<le> blst_radix (Suc h)"
proof -
  assume "k < 32"
  then have "Suc k * blst_radix h \<le> 32 * blst_radix h" by (intro mult_le_mono1) simp
  then show ?thesis unfolding blst_radix_Suc mult_Suc by linarith
qed

lemma kid_cnt_full: "k < 32 \<Longrightarrow> kid_cnt h (blst_radix (Suc h)) k = blst_radix h"
  using kid_end [of k h] by (simp add: kid_cnt_def)

lemma kid_set_subset: "F \<subseteq> {..<cnt} \<Longrightarrow> kid_set h F k \<subseteq> {..<kid_cnt h cnt k}"
  by (auto simp: kid_set_def kid_cnt_def)

lemma kid_set_empty [simp]: "kid_set h {} k = {}"
  by (simp add: kid_set_def)

lemma kid_set_full: "k < 32 \<Longrightarrow> kid_set h {..<blst_radix (Suc h)} k = {..<blst_radix h}"
  using kid_end [of k h] by (auto simp: kid_set_def)

lemma kid_index:
  fixes b :: nat
  assumes "k * r \<le> b" "b < Suc k * r"
  shows "b div r = k" and "b mod r = b - k * r"
proof -
  show "b div r = k" using assms by (simp add: div_nat_eqI mult.commute)
  then show "b mod r = b - k * r" by (simp add: minus_div_mult_eq_mod [symmetric])
qed

lemma mod_64_kid: "(k * blst_radix h + j) mod 64 = j mod 64"
  using blst_radix_dvd [of h] by (metis dvd_mult mod_add_self2 dvd_imp_mod_0 mod_add_left_eq add_0)

lemma run_in_radix:
  assumes "j < blst_radix h" "j mod 64 + c \<le> 64"
  shows "j + c \<le> blst_radix h"
proof -
  obtain q where q: "blst_radix h = 64 * q" using blst_radix_dvd [of h] by blast
  have "j div 64 < q" using assms(1) q by (simp add: less_mult_imp_div_less mult.commute)
  then have "64 * (j div 64) + 64 \<le> 64 * q" by simp
  then show ?thesis using assms(2) q div_mult_mod_eq [of j 64] by linarith
qed

lemma fits_kid:
  assumes "j < blst_radix h"
  shows "fits F c (k * blst_radix h + j) \<longleftrightarrow> fits (kid_set h F k) c j"
proof (cases "j mod 64 + c \<le> 64")
  case True
  note le = run_in_radix [OF assms True]
  have "{k * blst_radix h + j..<k * blst_radix h + j + c} \<subseteq> F \<longleftrightarrow> {j..<j + c} \<subseteq> kid_set h F k" (is "?l = ?r")
  proof
    assume ?l
    then show ?r using le by (auto simp: kid_set_def)
  next
    assume r: ?r
    show ?l
    proof
      fix x assume x: "x \<in> {k * blst_radix h + j..<k * blst_radix h + j + c}"
      then have "x - k * blst_radix h \<in> {j..<j + c}" by auto
      then have "x - k * blst_radix h \<in> kid_set h F k" using r by blast
      then show "x \<in> F" using x by (simp add: kid_set_def)
    qed
  qed
  then show ?thesis by (simp add: fits_def mod_64_kid)
next
  case False
  then show ?thesis by (simp add: fits_def mod_64_kid)
qed

lemma kid_split:
  fixes b :: nat
  obtains j where "b = (b div blst_radix h) * blst_radix h + j" "j < blst_radix h"
proof
  show "b = b div blst_radix h * blst_radix h + b mod blst_radix h" by simp
  show "b mod blst_radix h < blst_radix h" by simp
qed

lemma kid_pos_less: "k < k' \<Longrightarrow> j < blst_radix h \<Longrightarrow> k * blst_radix h + j < k' * blst_radix h"
proof -
  assume "k < k'" "j < blst_radix h"
  then have "Suc k * blst_radix h \<le> k' * blst_radix h" by (intro mult_le_mono1) simp
  then show ?thesis using \<open>j < blst_radix h\<close> by simp
qed

lemma kid_pos_inj:
  assumes "k * blst_radix h + j = k' * blst_radix h + j'" "j < blst_radix h" "j' < blst_radix h"
  shows "k = k' \<and> j = j'"
proof -
  have "\<not> k < k'" "\<not> k' < k" using assms kid_pos_less [of k k' j h] kid_pos_less [of k' k j' h] by auto
  then show ?thesis using assms by simp
qed

lemma kid_set_outside:
  assumes "k \<noteq> k'" "T \<subseteq> {k * blst_radix h..<Suc k * blst_radix h}" "j < blst_radix h"
  shows "k' * blst_radix h + j \<notin> T"
proof
  assume "k' * blst_radix h + j \<in> T"
  then have "k * blst_radix h \<le> k' * blst_radix h + j" "k' * blst_radix h + j < Suc k * blst_radix h" using assms by auto
  then show False using kid_pos_less [of k' k j h] kid_pos_less [of k k' 0 h] assms kid_pos_less [of "Suc k" k' 0 h]
    by (metis add_0_right blst_radix_pos leD le_add1 linorder_neqE_nat mult_le_mono1 order_trans Suc_leI)
qed

text \<open>Removing a range of one child from a set, and adding one.\<close>

lemma kid_set_diff:
  assumes "j + c \<le> blst_radix h"
  shows "kid_set h (F - {k * blst_radix h + j..<k * blst_radix h + j + c}) k' =
    (if k' = k then kid_set h F k - {j..<j + c} else kid_set h F k')"
proof (cases "k' = k")
  case True
  then show ?thesis by (auto simp: kid_set_def)
next
  case False
  have "{k * blst_radix h + j..<k * blst_radix h + j + c} \<subseteq> {k * blst_radix h..<Suc k * blst_radix h}" using assms by auto
  then have "k' * blst_radix h + i \<notin> {k * blst_radix h + j..<k * blst_radix h + j + c}" if "i < blst_radix h" for i
    using kid_set_outside [of k k' _ h i] False that by blast
  then show ?thesis using False unfolding kid_set_def by auto
qed

lemma kid_set_union:
  assumes "j + c \<le> blst_radix h"
  shows "kid_set h (F \<union> {k * blst_radix h + j..<k * blst_radix h + j + c}) k' =
    (if k' = k then kid_set h F k \<union> {j..<j + c} else kid_set h F k')"
proof (cases "k' = k")
  case True
  then show ?thesis using assms by (auto simp: kid_set_def)
next
  case False
  have "{k * blst_radix h + j..<k * blst_radix h + j + c} \<subseteq> {k * blst_radix h..<Suc k * blst_radix h}" using assms by auto
  then have "k' * blst_radix h + i \<notin> {k * blst_radix h + j..<k * blst_radix h + j + c}" if "i < blst_radix h" for i
    using kid_set_outside [of k k' _ h i] False that by blast
  then show ?thesis using False unfolding kid_set_def by auto
qed

section \<open>The invariant\<close>

text \<open>The hint is an upper bound for the length of every run that an allocation may take.\<close>

definition hint_ok :: "nat set \<Rightarrow> nat \<Rightarrow> bool" where
  "hint_ok F g \<longleftrightarrow> (\<forall>b c. fits F c b \<longrightarrow> 1 \<le> c \<longrightarrow> c \<le> g)"

primrec bl_shape :: "nat \<Rightarrow> nat \<Rightarrow> nat \<Rightarrow> bl_mem \<Rightarrow> bool" where
  "bl_shape 0 n cnt root \<longleftrightarrow> n < length root \<and> bm_bighint (root ! n) \<noteq> BL_TERM"
| "bl_shape (Suc h) n cnt root \<longleftrightarrow>
     n < length root \<and> bm_bighint (root ! n) \<noteq> BL_TERM \<and>
     (\<forall>k<32. k * blst_radix h < cnt \<longrightarrow> bl_shape h (blst_kid h n k) (kid_cnt h cnt k) root) \<and>
     (\<forall>k. Suc k < 32 \<longrightarrow> k * blst_radix h < cnt \<longrightarrow> cnt \<le> Suc k * blst_radix h \<longrightarrow>
       blst_kid h n (Suc k) < length root \<and> bm_bighint (root ! blst_kid h n (Suc k)) = BL_TERM)"

primrec bl_rep :: "nat \<Rightarrow> nat \<Rightarrow> nat \<Rightarrow> nat set \<Rightarrow> bl_mem \<Rightarrow> bool" where
  "bl_rep 0 n cnt F root \<longleftrightarrow> F \<subseteq> {..<cnt} \<and> hint_ok F (bighint (root ! n)) \<and> bset (bmu (root ! n)) = F"
| "bl_rep (Suc h) n cnt F root \<longleftrightarrow>
     F \<subseteq> {..<cnt} \<and> hint_ok F (bighint (root ! n)) \<and> bmu (root ! n) = of_nat (card F) \<and>
     (F \<noteq> {} \<longrightarrow> F \<noteq> {..<blst_radix (Suc h)} \<longrightarrow>
       (\<forall>k<32. k * blst_radix h < cnt \<longrightarrow> bl_rep h (blst_kid h n k) (kid_cnt h cnt k) (kid_set h F k) root))"

definition kids_rep :: "nat \<Rightarrow> nat \<Rightarrow> nat \<Rightarrow> nat set \<Rightarrow> bl_mem \<Rightarrow> bool" where
  "kids_rep h n cnt F root \<longleftrightarrow>
     (\<forall>k<32. k * blst_radix h < cnt \<longrightarrow> bl_rep h (blst_kid h n k) (kid_cnt h cnt k) (kid_set h F k) root)"

lemma kids_repD: "kids_rep h n cnt F root \<Longrightarrow> k < 32 \<Longrightarrow> k * blst_radix h < cnt \<Longrightarrow>
    bl_rep h (blst_kid h n k) (kid_cnt h cnt k) (kid_set h F k) root"
  by (simp add: kids_rep_def)

lemma bl_rep_subset: "bl_rep h n cnt F root \<Longrightarrow> F \<subseteq> {..<cnt}"
  by (cases h) auto

lemma bl_rep_hint: "bl_rep h n cnt F root \<Longrightarrow> hint_ok F (bighint (root ! n))"
  by (cases h) auto

lemma bl_shape_node: "bl_shape h n cnt root \<Longrightarrow> n < length root \<and> bm_bighint (root ! n) \<noteq> BL_TERM"
  by (cases h) auto

lemma bl_shape_kid:
  "bl_shape (Suc h) n cnt root \<Longrightarrow> k < 32 \<Longrightarrow> k * blst_radix h < cnt \<Longrightarrow> bl_shape h (blst_kid h n k) (kid_cnt h cnt k) root"
  by simp

lemma bl_shape_term:
  assumes "bl_shape (Suc h) n cnt root" "0 < k" "k < 32" "(k - 1) * blst_radix h < cnt" "cnt \<le> k * blst_radix h"
  shows "blst_kid h n k < length root \<and> bm_bighint (root ! blst_kid h n k) = BL_TERM"
  using assms by (cases k) auto

lemma bm_get_shape: "bl_shape h n cnt root \<Longrightarrow> bm_get n root = Inr (root ! n)"
  by (simp add: bm_get_def bl_shape_node)

lemma bm_put_shape: "bl_shape h n cnt root \<Longrightarrow> bm_put n m root = Inr (root[n := m])"
  by (simp add: bm_put_def bl_shape_node)

lemma ebind_Inr [simp]: "ebind (Inr x) f = f x"
  by (simp add: ebind_def)

lemma ebind_Inl [simp]: "ebind (Inl e) f = Inl e"
  by (simp add: ebind_def)

subsection \<open>Hints\<close>

lemma hint_ok_empty: "hint_ok {} g"
  by (auto simp: hint_ok_def fits_def)

lemma hint_ok_mono: "hint_ok F g \<Longrightarrow> F' \<subseteq> F \<Longrightarrow> g \<le> g' \<Longrightarrow> hint_ok F' g'"
  unfolding hint_ok_def fits_def by (meson order_trans)

lemma hint_ok_64: "64 \<le> g \<Longrightarrow> hint_ok F g"
  by (auto simp: hint_ok_def fits_def)

lemma hint_ok_card:
  assumes "finite F" shows "hint_ok F (card F)"
proof -
  have "c \<le> card F" if "{b..<b + c} \<subseteq> F" for b c using card_mono [OF assms that] by simp
  then show ?thesis by (auto simp: hint_ok_def fits_def)
qed

lemma hint_ok_failed:
  assumes "1 \<le> c" "\<And>b. \<not> fits F c b" shows "hint_ok F (c - 1)"
proof -
  have "c' \<le> c - 1" if f: "fits F c' b" for b c'
  proof (rule ccontr)
    assume "\<not> c' \<le> c - 1"
    then have "{b..<b + c} \<subseteq> {b..<b + c'}" "c \<le> c'" using assms(1) by auto
    then have "fits F c b" using f unfolding fits_def by (meson add_left_mono order_trans)
    then show False using assms(2) by blast
  qed
  then show ?thesis by (simp add: hint_ok_def)
qed

section \<open>Frames\<close>

text \<open>An operation on the node at \<open>n\<close> only changes its subtree.\<close>

definition bl_frame :: "nat \<Rightarrow> nat \<Rightarrow> bl_mem \<Rightarrow> bl_mem \<Rightarrow> bool" where
  "bl_frame h n root root' \<longleftrightarrow> length root' = length root \<and> (\<forall>i. i < n \<or> n + blst_skip h < i \<longrightarrow> root' ! i = root ! i)"

lemma bl_frame_refl [simp]: "bl_frame h n root root"
  by (simp add: bl_frame_def)

lemma bl_frame_trans [trans]: "bl_frame h n a b \<Longrightarrow> bl_frame h n b c \<Longrightarrow> bl_frame h n a c"
  by (simp add: bl_frame_def)

lemma bl_frame_put: "bl_frame h n root (root[n := m])"
  by (simp add: bl_frame_def)

lemma bl_frame_kid:
  assumes "bl_frame h (blst_kid h n k) root root'" "k < 32"
  shows "bl_frame (Suc h) n root root'"
  using assms blst_kid_end [of k h n] blst_kid_gt [of n h k] by (auto simp: bl_frame_def)

lemma bl_frame_kid_node: "bl_frame h (blst_kid h n k) root root' \<Longrightarrow> root' ! n = root ! n"
  using blst_kid_gt [of n h k] by (simp add: bl_frame_def)

text \<open>The predicates only look at the subtree.\<close>

definition bl_agree :: "nat \<Rightarrow> nat \<Rightarrow> bl_mem \<Rightarrow> bl_mem \<Rightarrow> bool" where
  "bl_agree h n root root' \<longleftrightarrow> length root' = length root \<and> (\<forall>i. n \<le> i \<and> i \<le> n + blst_skip h \<longrightarrow> root' ! i = root ! i)"

lemma bl_agree_node: "bl_agree h n root root' \<Longrightarrow> root' ! n = root ! n \<and> length root' = length root"
  by (simp add: bl_agree_def)

lemma bl_agree_kid: "bl_agree (Suc h) n root root' \<Longrightarrow> k < 32 \<Longrightarrow> bl_agree h (blst_kid h n k) root root'"
  using blst_kid_end [of k h n] blst_kid_gt [of n h k] by (auto simp: bl_agree_def)

lemma bl_shape_agree: "bl_agree h n root root' \<Longrightarrow> bl_shape h n cnt root' = bl_shape h n cnt root"
proof (induction h arbitrary: n cnt)
  case 0
  then show ?case by (simp add: bl_agree_def)
next
  case (Suc h)
  note a = bl_agree_kid [OF Suc.prems]
  have "bl_shape h (blst_kid h n k) (kid_cnt h cnt k) root' = bl_shape h (blst_kid h n k) (kid_cnt h cnt k) root" if "k < 32" for k
    using Suc.IH a that by blast
  moreover have "root' ! blst_kid h n k = root ! blst_kid h n k" if "k < 32" for k
    using bl_agree_node [OF a [OF that]] by blast
  ultimately show ?case using bl_agree_node [OF Suc.prems] by (simp cong: conj_cong imp_cong)
qed

lemma bl_rep_agree: "bl_agree h n root root' \<Longrightarrow> bl_rep h n cnt F root' = bl_rep h n cnt F root"
proof (induction h arbitrary: n cnt F)
  case 0
  then show ?case by (simp add: bl_agree_def)
next
  case (Suc h)
  note a = bl_agree_kid [OF Suc.prems]
  have "bl_rep h (blst_kid h n k) c G root' = bl_rep h (blst_kid h n k) c G root" if "k < 32" for k c G
    using Suc.IH a that by blast
  then show ?case using bl_agree_node [OF Suc.prems] by (simp cong: conj_cong imp_cong)
qed

lemma frame_agree_kid:
  assumes "bl_frame h (blst_kid h n k) root root'" "k' \<noteq> k"
  shows "bl_agree h (blst_kid h n k') root root'"
proof -
  consider "k' < k" | "k < k'" using assms(2) by linarith
  then show ?thesis
  proof cases
    case 1
    then show ?thesis using blst_kid_disjoint [OF 1, of h n] assms(1) by (simp add: bl_agree_def bl_frame_def)
  next
    case 2
    then show ?thesis using blst_kid_disjoint [OF 2, of h n] assms(1) by (simp add: bl_agree_def bl_frame_def)
  qed
qed

lemma put_agree_kid: "bl_agree h (blst_kid h n k) root (root[n := m])"
  using blst_kid_gt [of n h k] by (simp add: bl_agree_def)

subsection \<open>Updates of a node and of a child\<close>

lemma bl_shape_put:
  assumes "bl_shape (Suc h) n cnt root" "bm_bighint m \<noteq> BL_TERM"
  shows "bl_shape (Suc h) n cnt (root[n := m])"
proof -
  have "root[n := m] ! blst_kid h n k = root ! blst_kid h n k" for k using blst_kid_gt [of n h k] by simp
  then show ?thesis using assms bl_shape_agree [OF put_agree_kid] by auto
qed

lemma kids_rep_put: "kids_rep h n cnt F (root[n := m]) = kids_rep h n cnt F root"
  unfolding kids_rep_def bl_rep_agree [OF put_agree_kid] ..

lemma bl_shape_kid_update:
  assumes shape: "bl_shape (Suc h) n cnt root" and f: "bl_frame h (blst_kid h n k) root root'" and k: "k * blst_radix h < cnt"
    and kid: "bl_shape h (blst_kid h n k) (kid_cnt h cnt k) root'"
  shows "bl_shape (Suc h) n cnt root'"
proof -
  have sub: "bl_shape h (blst_kid h n k') (kid_cnt h cnt k') root'" if "k' < 32" "k' * blst_radix h < cnt" for k'
    using bl_shape_agree [OF frame_agree_kid [OF f, of k']] bl_shape_kid [OF shape that] kid by (cases "k' = k") auto
  have last: "blst_kid h n (Suc k') < length root' \<and> bm_bighint (root' ! blst_kid h n (Suc k')) = BL_TERM"
    if "Suc k' < 32" "k' * blst_radix h < cnt" "cnt \<le> Suc k' * blst_radix h" for k'
  proof -
    have "Suc k' \<noteq> k" using that k by auto
    then show ?thesis using bl_agree_node [OF frame_agree_kid [OF f, of "Suc k'"]] bl_shape_term [OF shape, of "Suc k'"] that by simp
  qed
  show ?thesis using sub last shape f bl_frame_kid_node [OF f] by (simp add: bl_frame_def)
qed

lemma kids_rep_update:
  assumes kids: "kids_rep h n cnt F root" and f: "bl_frame h (blst_kid h n k) root root'"
    and kid: "bl_rep h (blst_kid h n k) (kid_cnt h cnt k) G root'"
    and F': "kid_set h F' k = G" "\<And>k'. k' \<noteq> k \<Longrightarrow> kid_set h F' k' = kid_set h F k'"
  shows "kids_rep h n cnt F' root'"
  unfolding kids_rep_def
proof (intro allI impI)
  fix k' assume k': "k' < 32" "k' * blst_radix h < cnt"
  show "bl_rep h (blst_kid h n k') (kid_cnt h cnt k') (kid_set h F' k') root'"
  proof (cases "k' = k")
    case True
    then show ?thesis using kid F' by simp
  next
    case False
    then show ?thesis using bl_rep_agree [OF frame_agree_kid [OF f False]] kids_repD [OF kids k'] F' by simp
  qed
qed

section \<open>The number of free blocks of a node\<close>

lemma avail_card:
  assumes "bl_rep (Suc h) n cnt F root" "cnt \<le> blst_radix (Suc h)" "Suc h \<le> 11"
  shows "bmu_avail (root ! n) = card F"
proof -
  have "card F \<le> cnt" using card_mono [of "{..<cnt}" F] assms(1) by simp
  then have "card F < 2 ^ 64" using assms(2) blst_radix_bound [OF assms(3)] by simp
  then show ?thesis using assms(1) unat_of_nat_less [of "card F", where 'a = 64] by simp
qed

lemma avail_0_iff:
  assumes "bl_rep (Suc h) n cnt F root" "cnt \<le> blst_radix (Suc h)" "Suc h \<le> 11"
  shows "bmu (root ! n) = 0 \<longleftrightarrow> F = {}"
proof -
  have "finite F" using assms(1) finite_subset by auto
  then show ?thesis using avail_card [OF assms] by (metis card_0_eq unat_eq_zero)
qed

lemma avail_full_iff:
  assumes "bl_rep (Suc h) n cnt F root" "cnt \<le> blst_radix (Suc h)" "Suc h \<le> 11"
  shows "bmu_avail (root ! n) = blst_radix (Suc h) \<longleftrightarrow> F = {..<blst_radix (Suc h)}"
proof -
  have F: "F \<subseteq> {..<blst_radix (Suc h)}" using bl_rep_subset [OF assms(1)] assms(2) by auto
  have "F = {..<blst_radix (Suc h)}" if "card F = blst_radix (Suc h)" using card_subset_eq [OF _ F] that by simp
  then show ?thesis using avail_card [OF assms] by auto
qed

lemma bl_rep_kids:
  assumes "bl_rep (Suc h) n cnt F root" "F \<noteq> {}" "F \<noteq> {..<blst_radix (Suc h)}"
  shows "kids_rep h n cnt F root"
  using assms by (simp add: kids_rep_def)

lemma bl_rep_SucI:
  assumes "F \<subseteq> {..<cnt}" "hint_ok F (bighint m)" "bmu m = of_nat (card F)" "kids_rep h n cnt F root" "n < length root"
  shows "bl_rep (Suc h) n cnt F (root[n := m])"
  using assms kids_rep_put [of h n cnt F root m] by (simp add: kids_rep_def)

lemma all_free_rep:
  assumes "root ! n = blst_all_free h" "h \<le> 11"
  shows "bl_rep h n (blst_radix h) {..<blst_radix h} root"
proof (cases h)
  case 0
  then show ?thesis using assms(1) by (simp add: blst_all_free_def kern_defs hint_ok_64 unat_of_nat_less)
next
  case (Suc h')
  have "blst_radix h < 2 ^ 64" using blst_radix_bound [OF assms(2)] by simp
  then have "bighint (root ! n) = blst_radix h" using assms(1) Suc by (simp add: blst_all_free_def unat_of_nat_less)
  moreover have "hint_ok {..<blst_radix h} (blst_radix h)" by (rule hint_ok_64 [OF blst_radix_ge])
  ultimately show ?thesis using assms(1) Suc by (simp add: blst_all_free_def)
qed

lemma all_allocated_rep: "bmu (root ! n) = 0 \<Longrightarrow> bl_rep h n cnt {} root"
  by (cases h) (simp_all add: hint_ok_empty)

lemma all_free_not_term: "h \<le> 11 \<Longrightarrow> bm_bighint (blst_all_free h) \<noteq> BL_TERM"
proof -
  assume h: "h \<le> 11"
  have "blst_radix h < 2 ^ 64 - 1" using blst_radix_bound [OF h] by simp
  then have "unat (of_nat (blst_radix h) :: u64) \<noteq> unat (BL_TERM)"
    using unat_of_nat_less [of "blst_radix h", where 'a = 64] by (simp add: kern_defs unsigned_minus_1_eq_mask mask_eq_exp_minus_1)
  then show ?thesis by (auto simp: blst_all_free_def kern_defs)
qed

section \<open>Initialising a sublevel\<close>

text \<open>The loops over the children stop at the 32nd or at the terminator: \<open>kid_at\<close> is the place they have reached.\<close>

definition kid_at :: "nat \<Rightarrow> nat \<Rightarrow> nat \<Rightarrow> bool" where
  "kid_at h cnt k \<longleftrightarrow> k = 0 \<or> (k - 1) * blst_radix h < cnt"

lemma kid_at_0 [simp]: "kid_at h cnt 0"
  by (simp add: kid_at_def)

lemma kid_at_Suc: "k * blst_radix h < cnt \<Longrightarrow> kid_at h cnt (Suc k)"
  by (simp add: kid_at_def)

lemma kid_at_cases:
  assumes "bl_shape (Suc h) n cnt root" "kid_at h cnt k" "k \<le> 32" "0 < cnt"
  obtains (all) "k = 32"
    | (end_term) "k < 32" "cnt \<le> k * blst_radix h" "bm_get (blst_kid h n k) root = Inr (root ! blst_kid h n k)"
        "bm_bighint (root ! blst_kid h n k) = BL_TERM"
    | (kid) "k < 32" "k * blst_radix h < cnt" "bl_shape h (blst_kid h n k) (kid_cnt h cnt k) root"
        "bm_get (blst_kid h n k) root = Inr (root ! blst_kid h n k)" "bm_bighint (root ! blst_kid h n k) \<noteq> BL_TERM"
proof (cases "k = 32")
  case True
  then show ?thesis by (rule all)
next
  case False
  then have k: "k < 32" using assms(3) by simp
  show ?thesis
  proof (cases "k * blst_radix h < cnt")
    case True
    then show ?thesis using kid k bl_shape_kid [OF assms(1) k True] bm_get_shape bl_shape_node by blast
  next
    case False
    then have "0 < k" using assms(4) by (cases k) auto
    then have "blst_kid h n k < length root \<and> bm_bighint (root ! blst_kid h n k) = BL_TERM"
      using bl_shape_term [OF assms(1), of k] k assms(2) False by (simp add: kid_at_def)
    then show ?thesis using end_term k False by (simp add: bm_get_def)
  qed
qed

lemma bl_shape_put_any:
  assumes "bl_shape h n cnt root" "bm_bighint m \<noteq> BL_TERM"
  shows "bl_shape h n cnt (root[n := m])"
proof (cases h)
  case 0
  then show ?thesis using assms by simp
next
  case (Suc h')
  then show ?thesis using bl_shape_put [of h' n cnt root m] assms by blast
qed

lemma blst_set_subs_from:
  assumes v: "bm_bighint v \<noteq> BL_TERM" and cnt: "0 < cnt"
  shows "bl_shape (Suc h) n cnt root \<Longrightarrow> kid_at h cnt k \<Longrightarrow> k \<le> 32 \<Longrightarrow>
    \<exists>root'. blst_set_subs v (blst_kids h n k) root = Inr root' \<and> bl_shape (Suc h) n cnt root' \<and> bl_frame (Suc h) n root root' \<and>
      root' ! n = root ! n \<and> (\<forall>k'<32. k' * blst_radix h < cnt \<longrightarrow> k \<le> k' \<longrightarrow> root' ! blst_kid h n k' = v) \<and>
      (\<forall>k'<k. root' ! blst_kid h n k' = root ! blst_kid h n k')"
proof (induction "32 - k" arbitrary: k root)
  case 0
  then show ?case by (auto simp: blst_kids_unfold)
next
  case (Suc d)
  note shape = Suc.prems(1)
  from Suc.prems cnt show ?case
  proof (cases rule: kid_at_cases)
    case all
    then show ?thesis using Suc by simp
  next
    case end_term
    have "\<not> k' * blst_radix h < cnt" if "k \<le> k'" for k'
      using end_term(2) mult_le_mono1 [OF that, of "blst_radix h"] by linarith
    then show ?thesis using end_term shape by (subst blst_kids_unfold) auto
  next
    case kid
    define root1 where "root1 = root[blst_kid h n k := v]"
    have f1: "bl_frame h (blst_kid h n k) root root1" unfolding root1_def by (rule bl_frame_put)
    have s1: "bl_shape (Suc h) n cnt root1"
      using bl_shape_kid_update [OF shape f1 kid(2)] bl_shape_put_any [OF kid(3) v] by (simp add: root1_def)
    have "d = 32 - Suc k" using Suc.hyps(2) by simp
    from Suc.hyps(1) [OF this s1 kid_at_Suc [OF kid(2)]] kid(1)
    obtain root' where r: "blst_set_subs v (blst_kids h n (Suc k)) root1 = Inr root'" "bl_shape (Suc h) n cnt root'"
      "bl_frame (Suc h) n root1 root'" "root' ! n = root1 ! n"
      "\<forall>k'<32. k' * blst_radix h < cnt \<longrightarrow> Suc k \<le> k' \<longrightarrow> root' ! blst_kid h n k' = v"
      "\<forall>k'<Suc k. root' ! blst_kid h n k' = root1 ! blst_kid h n k'"
      by auto
    have "root1 ! blst_kid h n k = v" using bl_shape_node [OF kid(3)] by (simp add: root1_def)
    then have "root' ! blst_kid h n k = v" using r(6) by simp
    then have all: "\<forall>k'<32. k' * blst_radix h < cnt \<longrightarrow> k \<le> k' \<longrightarrow> root' ! blst_kid h n k' = v"
      using r(5) by (metis Suc_leI le_neq_implies_less)
    have before: "root' ! blst_kid h n k' = root ! blst_kid h n k'" if "k' < k" for k'
      using r(6) that bl_agree_node [OF frame_agree_kid [OF f1, of k']] by simp
    have code: "blst_set_subs v (blst_kids h n k) root = Inr root'"
      using kid r(1) bm_put_shape [OF kid(3)] by (subst blst_kids_unfold) (simp add: root1_def)
    show ?thesis
      using code r(2) bl_frame_trans [OF bl_frame_kid [OF f1 kid(1)] r(3)] r(4) bl_frame_kid_node [OF f1] all before by auto
  qed
qed

lemma blst_set_subs_ok:
  assumes "bm_bighint v \<noteq> BL_TERM" "0 < cnt" "bl_shape (Suc h) n cnt root"
  obtains root' where "blst_set_subs v (blst_kids h n 0) root = Inr root'" "bl_shape (Suc h) n cnt root'" "bl_frame (Suc h) n root root'"
    "root' ! n = root ! n" "\<And>k. k < 32 \<Longrightarrow> k * blst_radix h < cnt \<Longrightarrow> root' ! blst_kid h n k = v"
  using blst_set_subs_from [OF assms(1,2,3), of 0] by auto

lemma set_subs_free:
  assumes "h \<le> 11" "bl_shape (Suc h) n (blst_radix (Suc h)) root"
  obtains root' where "blst_set_subs (blst_all_free h) (blst_kids h n 0) root = Inr root'" "bl_shape (Suc h) n (blst_radix (Suc h)) root'"
    "bl_frame (Suc h) n root root'" "root' ! n = root ! n" "kids_rep h n (blst_radix (Suc h)) {..<blst_radix (Suc h)} root'"
proof -
  obtain root' where r: "blst_set_subs (blst_all_free h) (blst_kids h n 0) root = Inr root'" "bl_shape (Suc h) n (blst_radix (Suc h)) root'"
    "bl_frame (Suc h) n root root'" "root' ! n = root ! n"
    "\<And>k. k < 32 \<Longrightarrow> k * blst_radix h < blst_radix (Suc h) \<Longrightarrow> root' ! blst_kid h n k = blst_all_free h"
    using blst_set_subs_ok [OF all_free_not_term [OF assms(1)] _ assms(2)] by auto
  have "kids_rep h n (blst_radix (Suc h)) {..<blst_radix (Suc h)} root'"
    unfolding kids_rep_def using r(5) all_free_rep [OF _ assms(1)] by (simp add: kid_cnt_full kid_set_full)
  then show ?thesis using that r(1-4) by blast
qed

lemma set_subs_allocated:
  assumes "0 < cnt" "bl_shape (Suc h) n cnt root"
  obtains root' where "blst_set_subs \<lparr>bmu = 0, bm_bighint = 0\<rparr> (blst_kids h n 0) root = Inr root'" "bl_shape (Suc h) n cnt root'"
    "bl_frame (Suc h) n root root'" "root' ! n = root ! n" "kids_rep h n cnt {} root'"
proof -
  have z: "bm_bighint \<lparr>bmu = 0, bm_bighint = 0\<rparr> \<noteq> BL_TERM" by (simp add: kern_defs)
  obtain root' where r: "blst_set_subs \<lparr>bmu = 0, bm_bighint = 0\<rparr> (blst_kids h n 0) root = Inr root'" "bl_shape (Suc h) n cnt root'"
    "bl_frame (Suc h) n root root'" "root' ! n = root ! n"
    "\<And>k. k < 32 \<Longrightarrow> k * blst_radix h < cnt \<Longrightarrow> root' ! blst_kid h n k = \<lparr>bmu = 0, bm_bighint = 0\<rparr>"
    using blst_set_subs_ok [OF z assms] by auto
  have "kids_rep h n cnt {} root'" unfolding kids_rep_def using r(5) by (simp add: all_allocated_rep)
  then show ?thesis using that r(1-4) by blast
qed

declare bl_shape.simps(2) [simp del] bl_rep.simps(2) [simp del]

end
