(* ===== verification/Blist_Alloc.thy ===== *)
theory Blist_Alloc
  imports Blist_Inv
begin

text \<open>
  Allocation from a blist: \<^verbatim>\<open>blst_meta_alloc\<close> returns the least block, from the leaf of \<^verbatim>\<open>blkat\<close> on, where the run fits into one leaf, and
  nothing when there is none; the hints it updates stay upper bounds.
\<close>

section \<open>What an allocation promises\<close>

definition alloc_cand :: "nat \<Rightarrow> nat \<Rightarrow> nat \<Rightarrow> nat set \<Rightarrow> nat \<Rightarrow> bool" where
  "alloc_cand blkat c blk F b \<longleftrightarrow> fits F c b \<and> blkat div 64 \<le> (blk + b) div 64"

definition alloc_post :: "nat \<Rightarrow> nat \<Rightarrow> nat \<Rightarrow> nat \<Rightarrow> nat \<Rightarrow> nat \<Rightarrow> nat set \<Rightarrow> bl_mem \<Rightarrow> nat option \<Rightarrow> bl_mem \<Rightarrow> bool" where
  "alloc_post h blkat c n blk cnt F root r root' \<longleftrightarrow>
     bl_shape h n cnt root' \<and> bl_frame h n root root' \<and>
     (case r of
        None \<Rightarrow> (\<forall>b. \<not> alloc_cand blkat c blk F b) \<and> bl_rep h n cnt F root'
      | Some x \<Rightarrow> \<exists>b. x = blk + b \<and> alloc_cand blkat c blk F b \<and> (\<forall>b'<b. \<not> alloc_cand blkat c blk F b') \<and>
          bl_rep h n cnt (F - {b..<b + c}) root')"

definition scan_alloc_post :: "nat \<Rightarrow> nat \<Rightarrow> nat \<Rightarrow> nat \<Rightarrow> nat \<Rightarrow> nat \<Rightarrow> nat set \<Rightarrow> bl_mem \<Rightarrow> nat option \<Rightarrow> bl_mem \<Rightarrow> bool" where
  "scan_alloc_post h blkat c n blk cnt F root r root' \<longleftrightarrow>
     bl_shape (Suc h) n cnt root' \<and> bl_frame (Suc h) n root root' \<and> root' ! n = root ! n \<and>
     (case r of
        None \<Rightarrow> (\<forall>b. \<not> alloc_cand blkat c blk F b) \<and> kids_rep h n cnt F root'
      | Some x \<Rightarrow> \<exists>b. x = blk + b \<and> alloc_cand blkat c blk F b \<and> (\<forall>b'<b. \<not> alloc_cand blkat c blk F b') \<and>
          kids_rep h n cnt (F - {b..<b + c}) root')"

lemma alloc_cand_kid:
  assumes "j < blst_radix h"
  shows "alloc_cand blkat c blk F (k * blst_radix h + j) \<longleftrightarrow> alloc_cand blkat c (blk + k * blst_radix h) (kid_set h F k) j"
  by (simp add: alloc_cand_def fits_kid [OF assms] add.assoc)

lemma alloc_cand_below: "alloc_cand blkat c blk F b \<Longrightarrow> 1 \<le> c \<Longrightarrow> F \<subseteq> {..<cnt} \<Longrightarrow> b < cnt"
  using fits_first by (fastforce simp: alloc_cand_def)

lemma div_64_less:
  assumes "64 dvd (x :: nat)" "x \<le> blkat" "y < x" shows "y div 64 < blkat div 64"
proof -
  obtain q where q: "x = 64 * q" using assms(1) by blast
  have "y div 64 < q" using assms(3) q by (simp add: less_mult_imp_div_less mult.commute)
  also have "q \<le> blkat div 64" using div_le_mono [OF assms(2), of 64] q by simp
  finally show ?thesis .
qed

text \<open>A child that lies below \<^verbatim>\<open>blkat\<close>, or whose hint is too small, has no candidate.\<close>

lemma no_cand_skip:
  assumes rep: "bl_rep h m kc G root" and kc: "kc \<le> blst_radix h" and c: "1 \<le> c" and blk: "64 dvd blk"
    and skip: "\<not> (c \<le> bighint (root ! m) \<and> blkat < blk + blst_radix h)"
  shows "\<not> alloc_cand blkat c blk G j"
proof
  assume a: "alloc_cand blkat c blk G j"
  then have "c \<le> bighint (root ! m)" using bl_rep_hint [OF rep] c by (auto simp: alloc_cand_def hint_ok_def)
  then have le: "blk + blst_radix h \<le> blkat" using skip by simp
  have "j < blst_radix h" using alloc_cand_below [OF a c bl_rep_subset [OF rep]] kc by simp
  then have "(blk + j) div 64 < blkat div 64" using blk blst_radix_dvd [of h] le by (intro div_64_less [of "blk + blst_radix h"]) auto
  then show False using a by (simp add: alloc_cand_def)
qed

section \<open>A leaf\<close>

lemma blst_leaf_alloc_post:
  assumes c: "1 \<le> c" "c \<le> 64" and blk: "64 dvd blk" "blkat < blk + 64"
    and shape: "bl_shape 0 n cnt root" and rep: "bl_rep 0 n cnt F root"
  shows "\<exists>r root'. blst_meta_alloc 0 blkat c n blk root = Inr (r, root') \<and> alloc_post 0 blkat c n blk cnt F root r root'"
proof -
  have F: "bset (bmu (root ! n)) = F" "F \<subseteq> {..<cnt}" "hint_ok F (bighint (root ! n))" using rep by auto
  have at: "alloc_cand blkat c blk F b \<longleftrightarrow> fits F c b" for b
  proof -
    obtain q where q: "blk = 64 * q" using blk(1) by blast
    have "blkat div 64 \<le> q" using blk(2) q by (simp add: less_mult_imp_div_less less_Suc_eq_le [symmetric] mult.commute)
    also have "q \<le> (blk + b) div 64" using q by simp
    finally show ?thesis by (simp add: alloc_cand_def)
  qed
  obtain r m' where m: "blst_leaf_alloc blk c (root ! n) = Inr (r, m')" "leaf_alloc_post blk c (root ! n) r m'"
    using blst_leaf_alloc_ok [OF c] by blast
  define root' where "root' = root[n := m']"
  have n: "n < length root" using shape by simp
  have code: "blst_meta_alloc 0 blkat c n blk root = Inr (r, root')"
    using m bm_get_shape [OF shape] bm_put_shape [OF shape] by (simp add: root'_def)
  have nth: "root' ! n = m'" "bl_frame 0 n root root'" using n by (simp_all add: root'_def bl_frame_put)
  have nt: "bm_bighint m' \<noteq> BL_TERM"
  proof (cases r)
    case None
    then have "bighint m' < 64" using m(2) c by (auto simp: leaf_alloc_post_def)
    then show ?thesis by (auto simp: kern_defs unsigned_minus_1_eq_mask mask_eq_exp_minus_1)
  next
    case (Some x)
    then show ?thesis using m(2) shape by (auto simp: leaf_alloc_post_def)
  qed
  have sh: "bl_shape 0 n cnt root'" using nt nth n by (simp add: root'_def)
  show ?thesis
  proof (cases r)
    case None
    have nf: "\<not> fits F c b" for b using m(2) None F by (simp add: leaf_alloc_post_def)
    have "hint_ok F (bighint m')"
      using m(2) None F hint_ok_failed [OF c(1) nf] hint_ok_empty by (auto simp: leaf_alloc_post_def)
    moreover have "bmu m' = bmu (root ! n)" using m(2) None by (simp add: leaf_alloc_post_def)
    ultimately have "bl_rep 0 n cnt F root'" using F nth by simp
    then show ?thesis using code sh nth nf None by (simp add: alloc_post_def at)
  next
    case (Some x)
    then obtain j where j: "x = blk + j" "fits F c j" "\<And>i. i < j \<Longrightarrow> \<not> fits F c i" "bset (bmu m') = F - {j..<j + c}"
      "bm_bighint m' = bm_bighint (root ! n)"
      using m(2) F by (auto simp: leaf_alloc_post_def)
    have "bl_rep 0 n cnt (F - {j..<j + c}) root'" using j F nth hint_ok_mono [OF F(3)] by auto
    then show ?thesis using code sh nth j Some by (auto simp: alloc_post_def at)
  qed
qed

section \<open>The scan over the children\<close>

lemma blst_scan_alloc_ok:
  assumes IH: "\<And>m kc G blk root. 64 dvd blk \<Longrightarrow> blkat < blk + blst_radix h \<Longrightarrow> 0 < kc \<Longrightarrow> kc \<le> blst_radix h \<Longrightarrow> bl_shape h m kc root \<Longrightarrow>
      bl_rep h m kc G root \<Longrightarrow> \<exists>r root'. f m blk root = Inr (r, root') \<and> alloc_post h blkat c m blk kc G root r root'"
    and c: "1 \<le> c" "c \<le> 64" and blk: "64 dvd blk" and cnt: "0 < cnt" "cnt \<le> blst_radix (Suc h)" and F: "F \<subseteq> {..<cnt}"
  shows "bl_shape (Suc h) n cnt root \<Longrightarrow> kids_rep h n cnt F root \<Longrightarrow> kid_at h cnt k \<Longrightarrow> k \<le> 32 \<Longrightarrow>
    (\<And>b. b < k * blst_radix h \<Longrightarrow> \<not> alloc_cand blkat c blk F b) \<Longrightarrow>
    \<exists>r root'. blst_scan_alloc f (blst_radix h) blkat c (blst_kids h n k) (blk + k * blst_radix h) root = Inr (r, root') \<and>
      scan_alloc_post h blkat c n blk cnt F root r root'"
proof (induction "32 - k" arbitrary: k root)
  case 0
  then have "k = 32" by simp
  then have "\<not> alloc_cand blkat c blk F b" for b
    using 0(6) [of b] alloc_cand_below [of blkat c blk F b, OF _ c(1) F] cnt(2) by (fastforce simp: blst_radix_Suc)
  then show ?case using 0 \<open>k = 32\<close> by (simp add: blst_kids_unfold scan_alloc_post_def)
next
  case (Suc d)
  note shape = Suc.prems(1) and kids = Suc.prems(2) and before = Suc.prems(5)
  from shape Suc.prems(3,4) cnt(1) show ?case
  proof (cases rule: kid_at_cases)
    case all
    then show ?thesis using Suc by simp
  next
    case end_term
    have "\<not> alloc_cand blkat c blk F b" for b
      using before [of b] alloc_cand_below [of blkat c blk F b, OF _ c(1) F] end_term(2) by (meson less_le_trans)
    then show ?thesis using end_term shape kids by (subst blst_kids_unfold) (simp add: scan_alloc_post_def)
  next
    case kid
    define kb where "kb = blk + k * blst_radix h"
    have kb: "64 dvd kb" using blk blst_radix_dvd [of h] by (simp add: kb_def)
    note rep = kids_repD [OF kids kid(1,2)]
    have next_blk: "kb + blst_radix h = blk + Suc k * blst_radix h" by (simp add: kb_def)
    have unfold: "blst_scan_alloc f (blst_radix h) blkat c (blst_kids h n k) kb root =
        (if c \<le> bighint (root ! blst_kid h n k) \<and> blkat < kb + blst_radix h then
           ebind (f (blst_kid h n k) kb root) (\<lambda>(r, root).
             case r of Some b \<Rightarrow> Inr (Some b, root)
             | None \<Rightarrow> blst_scan_alloc f (blst_radix h) blkat c (blst_kids h n (Suc k)) (blk + Suc k * blst_radix h) root)
         else blst_scan_alloc f (blst_radix h) blkat c (blst_kids h n (Suc k)) (blk + Suc k * blst_radix h) root)"
      unfolding next_blk [symmetric] using kid c blst_radix_ge [of h] by (subst blst_kids_unfold) simp
    have step: "\<not> alloc_cand blkat c blk F b" if none: "\<And>j. \<not> alloc_cand blkat c kb (kid_set h F k) j" and "b < Suc k * blst_radix h" for b
    proof (cases "b < k * blst_radix h")
      case True
      then show ?thesis by (rule before)
    next
      case False
      then have "alloc_cand blkat c blk F b = alloc_cand blkat c kb (kid_set h F k) (b - k * blst_radix h)"
        using that(2) alloc_cand_kid [of "b - k * blst_radix h" h blkat c blk F k] by (simp add: kb_def)
      then show ?thesis using none by simp
    qed
    have cont: "\<exists>r root'. blst_scan_alloc f (blst_radix h) blkat c (blst_kids h n (Suc k)) (blk + Suc k * blst_radix h) root1 = Inr (r, root') \<and>
        scan_alloc_post h blkat c n blk cnt F root r root'"
      if none: "\<And>j. \<not> alloc_cand blkat c kb (kid_set h F k) j" and r1: "bl_shape (Suc h) n cnt root1" "kids_rep h n cnt F root1"
        "bl_frame (Suc h) n root root1" "root1 ! n = root ! n" for root1
    proof -
      have "d = 32 - Suc k" using Suc.hyps(2) by simp
      from Suc.hyps(1) [OF this r1(1,2) kid_at_Suc [OF kid(2)] _ step [OF none]] kid(1)
      obtain r root' where "blst_scan_alloc f (blst_radix h) blkat c (blst_kids h n (Suc k)) (blk + Suc k * blst_radix h) root1 = Inr (r, root')"
        "scan_alloc_post h blkat c n blk cnt F root1 r root'" by auto
      then show ?thesis using r1(3,4) bl_frame_trans [OF r1(3)] by (auto simp: scan_alloc_post_def)
    qed
    show ?thesis
    proof (cases "c \<le> bighint (root ! blst_kid h n k) \<and> blkat < kb + blst_radix h")
      case False
      have "\<not> alloc_cand blkat c kb (kid_set h F k) j" for j using no_cand_skip [OF rep kid_cnt_le c(1) kb False] .
      from cont [OF this shape kids bl_frame_refl refl] show ?thesis unfolding kb_def [symmetric] unfold if_not_P [OF False] .
    next
      case True
      obtain r root1 where r: "f (blst_kid h n k) kb root = Inr (r, root1)"
        "alloc_post h blkat c (blst_kid h n k) kb (kid_cnt h cnt k) (kid_set h F k) root r root1"
        using IH [OF kb conjunct2 [OF True] kid_cnt_pos [OF kid(2)] kid_cnt_le kid(3) rep] by blast
      have f1: "bl_frame h (blst_kid h n k) root root1" and k1: "bl_shape h (blst_kid h n k) (kid_cnt h cnt k) root1"
        using r(2) by (simp_all add: alloc_post_def)
      note s1 = bl_shape_kid_update [OF shape f1 kid(2) k1] and n1 = bl_frame_kid_node [OF f1] and ff = bl_frame_kid [OF f1 kid(1)]
      show ?thesis
      proof (cases r)
        case None
        have none: "\<not> alloc_cand blkat c kb (kid_set h F k) j" for j using r(2) None by (simp add: alloc_post_def)
        have "bl_rep h (blst_kid h n k) (kid_cnt h cnt k) (kid_set h F k) root1" using r(2) None by (simp add: alloc_post_def)
        then have "kids_rep h n cnt F root1" by (rule kids_rep_update [OF kids f1]) auto
        from cont [OF none s1 this ff n1] show ?thesis unfolding kb_def [symmetric] unfold if_P [OF True] r(1) None by simp
      next
        case (Some x)
        then obtain j where j: "x = kb + j" "alloc_cand blkat c kb (kid_set h F k) j"
          "\<And>j'. j' < j \<Longrightarrow> \<not> alloc_cand blkat c kb (kid_set h F k) j'"
          "bl_rep h (blst_kid h n k) (kid_cnt h cnt k) (kid_set h F k - {j..<j + c}) root1"
          using r(2) by (auto simp: alloc_post_def)
        define b where "b = k * blst_radix h + j"
        have jr: "j < blst_radix h"
          using alloc_cand_below [OF j(2) c(1) kid_set_subset [OF F]] kid_cnt_le [of h cnt k] by simp
        have jc: "j + c \<le> blst_radix h" using j(2) run_in_radix [OF jr] by (simp add: alloc_cand_def fits_def)
        have cand: "alloc_cand blkat c blk F b" using j(2) alloc_cand_kid [OF jr] by (simp add: b_def kb_def)
        have least: "\<not> alloc_cand blkat c blk F b'" if "b' < b" for b'
        proof (cases "b' < k * blst_radix h")
          case True
          then show ?thesis by (rule before)
        next
          case False
          then have "b' = k * blst_radix h + (b' - k * blst_radix h)" "b' - k * blst_radix h < j" using that by (auto simp: b_def)
          then show ?thesis using j(3) jr alloc_cand_kid [of "b' - k * blst_radix h" h blkat c blk F k] by (simp add: kb_def)
        qed
        have "kids_rep h n cnt (F - {b..<b + c}) root1"
          by (rule kids_rep_update [OF kids f1 j(4)]) (simp_all add: b_def kid_set_diff [OF jc])
        moreover have "x = blk + b" using j(1) by (simp add: kb_def b_def)
        ultimately have "scan_alloc_post h blkat c n blk cnt F root (Some x) root1"
          using s1 ff n1 cand least by (auto simp: scan_alloc_post_def)
        then show ?thesis unfolding kb_def [symmetric] unfold if_P [OF True] r(1) Some by simp
      qed
    qed
  qed
qed

section \<open>A meta node\<close>

lemma card_diff_run: "finite F \<Longrightarrow> {b..<b + c} \<subseteq> F \<Longrightarrow> of_nat (card (F - {b..<b + c})) = (of_nat (card F) - of_nat c :: u64)"
proof -
  assume F: "finite F" "{b..<b + c} \<subseteq> F"
  have "c \<le> card F" using card_mono [OF F] by simp
  then show ?thesis using card_Diff_subset [OF _ F(2)] by (simp add: of_nat_diff)
qed

lemma not_term_less: "bm_bighint m \<noteq> BL_TERM \<Longrightarrow> v \<le> bm_bighint m \<Longrightarrow> v \<noteq> BL_TERM"
  by (metis BL_TERM_def antisym word_n1_ge)

text \<open>What the node does after the scan.\<close>

lemma alloc_found:
  assumes post: "scan_alloc_post h blkat c n blk cnt F root (Some x) root2" and F: "F \<subseteq> {..<cnt}"
    and m: "bmu (root ! n) = of_nat (card F)" "hint_ok F (bighint (root ! n))"
    and bound: "cnt \<le> blst_radix (Suc h)" "Suc h \<le> 11"
    and m': "m' = (let m = (root2 ! n)\<lparr>bmu := bmu (root2 ! n) - of_nat c\<rparr> in if bmu m < bm_bighint m then m\<lparr>bm_bighint := bmu m\<rparr> else m)"
  shows "alloc_post (Suc h) blkat c n blk cnt F root (Some x) (root2[n := m'])"
proof -
  obtain b where b: "x = blk + b" "alloc_cand blkat c blk F b" "\<forall>b'<b. \<not> alloc_cand blkat c blk F b'"
    "kids_rep h n cnt (F - {b..<b + c}) root2" "bl_shape (Suc h) n cnt root2" "bl_frame (Suc h) n root root2" "root2 ! n = root ! n"
    using post by (auto simp: scan_alloc_post_def)
  define F' where "F' = F - {b..<b + c}"
  have fin: "finite F" using F finite_subset by blast
  have fits: "{b..<b + c} \<subseteq> F" using b(2) by (simp add: alloc_cand_def fits_def)
  have avail: "bmu m' = of_nat (card F')" using m(1) b(7) card_diff_run [OF fin fits] by (simp add: m' Let_def F'_def)
  have "card F' \<le> cnt" using card_mono [of "{..<cnt}" F'] F by (auto simp: F'_def)
  then have ca: "bmu_avail m' = card F'" using avail bound blst_radix_bound [OF bound(2)] by (simp add: unat_of_nat_less)
  have hint: "bm_bighint m' \<le> bm_bighint (root ! n)" using b(7) by (auto simp: m' Let_def)
  have "bm_bighint m' = bmu m' \<or> bm_bighint m' = bm_bighint (root ! n)" using b(7) by (simp add: m' Let_def)
  then have hok: "hint_ok F' (bighint m')"
  proof
    assume "bm_bighint m' = bmu m'"
    then show ?thesis using ca hint_ok_card [of F'] fin by (simp add: F'_def)
  next
    assume "bm_bighint m' = bm_bighint (root ! n)"
    then show ?thesis using hint_ok_mono [OF m(2)] by (auto simp: F'_def)
  qed
  have "bm_bighint m' \<noteq> BL_TERM" using not_term_less [OF _ hint] bl_shape_node [OF b(5)] b(7) by simp
  then have "bl_shape (Suc h) n cnt (root2[n := m'])" by (rule bl_shape_put [OF b(5)])
  moreover have "bl_rep (Suc h) n cnt F' (root2[n := m'])"
    using F hok avail b(4) bl_shape_node [OF b(5)] by (intro bl_rep_SucI) (auto simp: F'_def)
  moreover have "bl_frame (Suc h) n root (root2[n := m'])" using bl_frame_trans [OF b(6) bl_frame_put] .
  ultimately show ?thesis using b by (auto simp: alloc_post_def F'_def)
qed

text \<open>The hint is only lowered when the whole node was searched.\<close>

lemma alloc_failed:
  assumes post: "scan_alloc_post h blkat c n blk cnt F root None root2" and F: "F \<subseteq> {..<cnt}" and c: "1 \<le> c" "c \<le> 64"
    and m: "bmu (root ! n) = of_nat (card F)" "hint_ok F (bighint (root ! n))"
    and m': "m' = (if blkat \<le> blk \<and> c \<le> bighint (root2 ! n) then (root2 ! n)\<lparr>bm_bighint := of_nat c - 1\<rparr> else root2 ! n)"
  shows "alloc_post (Suc h) blkat c n blk cnt F root None (root2[n := m'])"
proof -
  have b: "\<And>b. \<not> alloc_cand blkat c blk F b" "kids_rep h n cnt F root2" "bl_shape (Suc h) n cnt root2" "bl_frame (Suc h) n root root2"
    "root2 ! n = root ! n"
    using post by (auto simp: scan_alloc_post_def)
  have hok: "hint_ok F (bighint m') \<and> bm_bighint m' \<noteq> BL_TERM"
  proof (cases "blkat \<le> blk \<and> c \<le> bighint (root2 ! n)")
    case True
    have "blkat div 64 \<le> (blk + b) div 64" for b using True by (intro div_le_mono) simp
    then have "\<not> fits F c b" for b using b(1) by (simp add: alloc_cand_def)
    from hint_ok_failed [OF c(1) this] have "hint_ok F (bighint m')" using True unat_pred_of_nat [OF c] by (simp add: m')
    moreover have "bighint m' < 64" using True unat_pred_of_nat [OF c] c by (simp add: m')
    ultimately show ?thesis by (auto simp: kern_defs unsigned_minus_1_eq_mask mask_eq_exp_minus_1)
  next
    case False
    then have "m' = root ! n" using b(5) by (auto simp: m')
    then show ?thesis using m(2) bl_shape_node [OF b(3)] b(5) by simp
  qed
  have "bl_shape (Suc h) n cnt (root2[n := m'])" using bl_shape_put [OF b(3)] hok by blast
  moreover have "bmu m' = of_nat (card F)" using m(1) b(5) by (simp add: m')
  then have "bl_rep (Suc h) n cnt F (root2[n := m'])"
    using F hok b(2) bl_shape_node [OF b(3)] by (intro bl_rep_SucI) auto
  moreover have "bl_frame (Suc h) n root (root2[n := m'])" using bl_frame_trans [OF b(4) bl_frame_put] .
  ultimately show ?thesis using b(1) by (simp add: alloc_post_def)
qed

text \<open>The part of the code before the scan leaves a node whose children are initialised.\<close>

lemma alloc_open:
  assumes shape: "bl_shape (Suc h) n cnt root" and rep: "bl_rep (Suc h) n cnt F root" and cnt: "cnt \<le> blst_radix (Suc h)"
    and h: "Suc h \<le> 11" and ne: "F \<noteq> {}"
  obtains root1 where
    "(if bmu_avail (root ! n) = blst_radix (Suc h)
      then ebind (bm_put n ((root ! n)\<lparr>bm_bighint := of_nat (blst_radix (Suc h))\<rparr>) root) (blst_set_subs (blst_all_free h) (blst_kids h n 0))
      else Inr root) = Inr root1"
    "bl_shape (Suc h) n cnt root1" "bl_frame (Suc h) n root root1" "kids_rep h n cnt F root1"
    "bmu (root1 ! n) = of_nat (card F)" "hint_ok F (bighint (root1 ! n))"
proof (cases "bmu_avail (root ! n) = blst_radix (Suc h)")
  case False
  then have "F \<noteq> {..<blst_radix (Suc h)}" using avail_full_iff [OF rep cnt h] by simp
  then have "kids_rep h n cnt F root" using bl_rep_kids [OF rep ne] by blast
  then show ?thesis using that [of root] False shape rep by (simp add: bl_rep.simps)
next
  case True
  then have full: "F = {..<blst_radix (Suc h)}" using avail_full_iff [OF rep cnt h] by simp
  then have cnt': "cnt = blst_radix (Suc h)" using bl_rep_subset [OF rep] cnt by (auto simp: subset_iff)
  define m where "m = (root ! n)\<lparr>bm_bighint := of_nat (blst_radix (Suc h))\<rparr>"
  have r: "blst_radix (Suc h) < 2 ^ 64 - 1" using blst_radix_bound [OF h] by simp
  then have hint: "bighint m = blst_radix (Suc h)" by (simp add: m_def unat_of_nat_less)
  then have "bm_bighint m \<noteq> BL_TERM" using r by (auto simp: kern_defs unsigned_minus_1_eq_mask mask_eq_exp_minus_1)
  then have s: "bl_shape (Suc h) n (blst_radix (Suc h)) (root[n := m])" using bl_shape_put [OF shape] cnt' by simp
  obtain root1 where r1: "blst_set_subs (blst_all_free h) (blst_kids h n 0) (root[n := m]) = Inr root1"
    "bl_shape (Suc h) n (blst_radix (Suc h)) root1" "bl_frame (Suc h) n (root[n := m]) root1" "root1 ! n = root[n := m] ! n"
    "kids_rep h n (blst_radix (Suc h)) {..<blst_radix (Suc h)} root1"
    using set_subs_free [OF _ s] h by auto
  have n: "root1 ! n = m" using r1(4) bl_shape_node [OF shape] by simp
  show ?thesis
  proof (rule that [of root1])
    show "hint_ok F (bighint (root1 ! n))" unfolding n hint by (rule hint_ok_64 [OF blst_radix_ge])
    show "bmu (root1 ! n) = of_nat (card F)" unfolding n using rep by (simp add: bl_rep.simps m_def)
    show "bl_frame (Suc h) n root root1" using bl_frame_trans [OF bl_frame_put r1(3)] .
  qed (use True r1 bm_put_shape [OF shape] full cnt' in \<open>simp_all add: m_def\<close>)
qed

lemma blst_meta_alloc_ok:
  assumes c: "1 \<le> c" "c \<le> 64"
  shows "h \<le> 11 \<Longrightarrow> 64 dvd blk \<Longrightarrow> blkat < blk + blst_radix h \<Longrightarrow> 0 < cnt \<Longrightarrow> cnt \<le> blst_radix h \<Longrightarrow> bl_shape h n cnt root \<Longrightarrow>
    bl_rep h n cnt F root \<Longrightarrow>
    \<exists>r root'. blst_meta_alloc h blkat c n blk root = Inr (r, root') \<and> alloc_post h blkat c n blk cnt F root r root'"
proof (induction h arbitrary: n blk cnt F root)
  case 0
  from 0(3) have "blkat < blk + 64" by simp
  then show ?case by (rule blst_leaf_alloc_post [OF c 0(2) _ 0(6,7)])
next
  case (Suc h)
  note h = Suc.prems(1) and blk = Suc.prems(2) and at = Suc.prems(3) and cnt = Suc.prems(4,5) and shape = Suc.prems(6) and rep = Suc.prems(7)
  note F = bl_rep_subset [OF rep]
  show ?case
  proof (cases "bmu (root ! n) = 0")
    case True
    then have e: "F = {}" using avail_0_iff [OF rep cnt(2) h] by simp
    define root1 where "root1 = root[n := (root ! n)\<lparr>bm_bighint := 0\<rparr>]"
    have n1: "bmu (root1 ! n) = 0" using True bl_shape_node [OF shape] by (simp add: root1_def)
    have "blst_meta_alloc (Suc h) blkat c n blk root = Inr (None, root1)"
      using True bm_get_shape [OF shape] bm_put_shape [OF shape] by (simp add: root1_def)
    moreover have "bl_shape (Suc h) n cnt root1" unfolding root1_def by (rule bl_shape_put [OF shape]) (simp add: kern_defs)
    moreover have "bl_rep (Suc h) n cnt F root1" unfolding e using all_allocated_rep [of root1 n "Suc h" cnt] n1 by simp
    moreover have "\<not> alloc_cand blkat c blk F b" for b using c by (simp add: e alloc_cand_def fits_def)
    ultimately show ?thesis by (simp add: alloc_post_def root1_def bl_frame_put)
  next
    case False
    then have ne: "F \<noteq> {}" using avail_0_iff [OF rep cnt(2) h] by simp
    obtain root1 where r1: "(if bmu_avail (root ! n) = blst_radix (Suc h)
        then ebind (bm_put n ((root ! n)\<lparr>bm_bighint := of_nat (blst_radix (Suc h))\<rparr>) root) (blst_set_subs (blst_all_free h) (blst_kids h n 0))
        else Inr root) = Inr root1"
      "bl_shape (Suc h) n cnt root1" "bl_frame (Suc h) n root root1" "kids_rep h n cnt F root1"
      "bmu (root1 ! n) = of_nat (card F)" "hint_ok F (bighint (root1 ! n))"
      using alloc_open [OF shape rep cnt(2) h ne] by blast
    have IH: "\<exists>r root'. blst_meta_alloc h blkat c m blk root = Inr (r, root') \<and> alloc_post h blkat c m blk kc G root r root'"
      if "64 dvd blk" "blkat < blk + blst_radix h" "0 < kc" "kc \<le> blst_radix h" "bl_shape h m kc root" "bl_rep h m kc G root" for m kc G blk root
      using Suc.IH that h by simp
    obtain r root2 where r2: "blst_scan_alloc (blst_meta_alloc h blkat c) (blst_radix h) blkat c (blst_kids h n 0) blk root1 = Inr (r, root2)"
      "scan_alloc_post h blkat c n blk cnt F root1 r root2"
      using blst_scan_alloc_ok [of blkat h "blst_meta_alloc h blkat c" c blk cnt F n root1 0, OF IH c blk cnt F r1(2,4)] by auto
    have s2: "bl_shape (Suc h) n cnt root2" using r2(2) by (simp add: scan_alloc_post_def)
    have widen: "alloc_post (Suc h) blkat c n blk cnt F root r root3" if "alloc_post (Suc h) blkat c n blk cnt F root1 r root3" for root3
      using that bl_frame_trans [OF r1(3)] by (simp add: alloc_post_def)
    show ?thesis
    proof (cases r)
      case None
      define m' where "m' = (if blkat \<le> blk \<and> c \<le> bighint (root2 ! n) then (root2 ! n)\<lparr>bm_bighint := of_nat c - 1\<rparr> else root2 ! n)"
      have "blst_meta_alloc (Suc h) blkat c n blk root = Inr (r, root2[n := m'])"
        using False bm_get_shape [OF shape] r1(1) r2(1) None bm_get_shape [OF s2] bm_put_shape [OF s2]
        by (simp add: m'_def Let_def)
      then show ?thesis using widen alloc_failed [OF r2(2) [unfolded None] F c r1(5,6) m'_def] None by blast
    next
      case (Some x)
      define m' where "m' = (let m = (root2 ! n)\<lparr>bmu := bmu (root2 ! n) - of_nat c\<rparr> in if bmu m < bm_bighint m then m\<lparr>bm_bighint := bmu m\<rparr> else m)"
      have "blst_meta_alloc (Suc h) blkat c n blk root = Inr (r, root2[n := m'])"
        using False bm_get_shape [OF shape] r1(1) r2(1) Some bm_get_shape [OF s2] bm_put_shape [OF s2]
        by (simp add: m'_def Let_def)
      then show ?thesis using widen alloc_found [OF r2(2) [unfolded Some] F r1(5,6) cnt(2) h m'_def] Some by blast
    qed
  qed
qed

end
