(* ===== verification/Blist_Free.thy ===== *)
theory Blist_Free
  imports Blist_Inv
begin

text \<open>
  Freeing and reserving a range of a blist: \<^verbatim>\<open>blst_meta_free\<close> adds exactly the range to the free blocks when none of it is free, and
  \<^verbatim>\<open>blst_meta_fill\<close> removes exactly the range and counts what was free.
\<close>

section \<open>Ranges and children\<close>

lemma bl_rep_nodeI:
  assumes "F \<subseteq> {..<cnt}" "hint_ok F (bighint (root ! n))" "bmu (root ! n) = of_nat (card F)" "kids_rep h n cnt F root"
  shows "bl_rep (Suc h) n cnt F root"
  using assms by (simp add: bl_rep.simps kids_rep_def)

lemma hint_ok_kid:
  assumes g: "hint_ok F g" and gk: "hint_ok (kid_set h F' k) gk" and same: "\<And>k'. k' \<noteq> k \<Longrightarrow> kid_set h F' k' = kid_set h F k'"
    and le: "g \<le> g'" "gk \<le> g'"
  shows "hint_ok F' g'"
  unfolding hint_ok_def
proof (intro allI impI)
  fix b c assume b: "fits F' c b" "1 \<le> c"
  obtain j where j: "b = (b div blst_radix h) * blst_radix h + j" "j < blst_radix h" by (rule kid_split)
  define q where "q = b div blst_radix h"
  have b_eq: "b = q * blst_radix h + j" using j(1) by (simp add: q_def)
  have f: "fits (kid_set h F' q) c j" using b(1) fits_kid [OF j(2), of F' c q] b_eq by simp
  show "c \<le> g'"
  proof (cases "q = k")
    case True
    then show ?thesis using f gk b(2) le by (force simp: hint_ok_def)
  next
    case False
    then have "fits F c b" using f same fits_kid [OF j(2), of F c q] b_eq by simp
    then show ?thesis using g b(2) le by (force simp: hint_ok_def)
  qed
qed

text \<open>Where the loops stand: \<open>c\<close> blocks from \<open>s\<close> on are left, the first of them in child \<open>k\<close>.\<close>

definition range_at :: "nat \<Rightarrow> nat \<Rightarrow> nat \<Rightarrow> nat \<Rightarrow> nat \<Rightarrow> bool" where
  "range_at r cnt k s c \<longleftrightarrow> (if c = 0 then s \<le> k * r else k * r \<le> s \<and> s < Suc k * r \<and> s + c \<le> cnt)"

lemma range_at_start:
  assumes "1 \<le> c" "s + c \<le> cnt" "0 < r" shows "range_at r cnt (s div r) s c"
  using assms dividend_less_div_times [of r s] div_times_less_eq_dividend [of s r] by (simp add: range_at_def)

lemma range_at_next:
  assumes "range_at r cnt k s c" "0 < c" "v = min (k * r + r - s) c" "0 < r"
  shows "range_at r cnt (Suc k) (s + v) (c - v)" "1 \<le> v" "s + v \<le> Suc k * r" "s + v \<le> cnt" "v \<le> c"
proof -
  have a: "k * r \<le> s" "s < k * r + r" "s + c \<le> cnt" using assms by (simp_all add: range_at_def split: if_splits)
  show "range_at r cnt (Suc k) (s + v) (c - v)"
  proof (cases "v = c")
    case True
    then show ?thesis using assms(3) a by (simp add: range_at_def)
  next
    case False
    then have "s + v = k * r + r" "v < c" using assms(3) a by auto
    then show ?thesis using a assms(4) by (simp add: range_at_def)
  qed
  show "1 \<le> v" "s + v \<le> Suc k * r" "s + v \<le> cnt" "v \<le> c" using a assms by auto
qed

section \<open>Freeing\<close>

definition free_post :: "nat \<Rightarrow> nat \<Rightarrow> nat \<Rightarrow> nat set \<Rightarrow> bl_mem \<Rightarrow> bl_mem \<Rightarrow> bool" where
  "free_post h n cnt F' root root' \<longleftrightarrow> bl_shape h n cnt root' \<and> bl_frame h n root root' \<and> bl_rep h n cnt F' root'"

lemma blst_leaf_free_post:
  assumes blk: "64 dvd blk" and shape: "bl_shape 0 n cnt root" and rep: "bl_rep 0 n cnt F root"
    and c: "1 \<le> c" "s + c \<le> cnt" "cnt \<le> 64" "F \<inter> {s..<s + c} = {}"
  shows "\<exists>root'. blst_meta_free 0 n (blk + s) c blk root = Inr root' \<and> free_post 0 n cnt (F \<union> {s..<s + c}) root root'"
proof -
  have s: "(blk + s) mod 64 = s" using blk c by (auto elim!: dvdE)
  have F: "bset (bmu (root ! n)) = F" "F \<subseteq> {..<cnt}" using rep by auto
  obtain m' where m: "blst_leaf_free (blk + s) c (root ! n) = Inr m'" "bset (bmu m') = F \<union> {s..<s + c}" "bighint m' = 64"
    using blst_leaf_free_ok [of c "blk + s" "root ! n"] c s F by auto
  have n: "n < length root" using shape by simp
  have "bm_bighint m' \<noteq> BL_TERM" using m(3) by (auto simp: kern_defs unsigned_minus_1_eq_mask mask_eq_exp_minus_1)
  then have "free_post 0 n cnt (F \<union> {s..<s + c}) root (root[n := m'])"
    using m F c n by (auto simp: free_post_def bl_frame_put hint_ok_64)
  then show ?thesis using m(1) bm_get_shape [OF shape] bm_put_shape [OF shape] by simp
qed

definition scan_free_post :: "nat \<Rightarrow> nat \<Rightarrow> nat \<Rightarrow> nat set \<Rightarrow> bl_mem \<Rightarrow> bl_mem \<Rightarrow> bool" where
  "scan_free_post h n cnt F' root root' \<longleftrightarrow> bl_shape (Suc h) n cnt root' \<and> bl_frame (Suc h) n root root' \<and>
     bmu (root' ! n) = bmu (root ! n) \<and> kids_rep h n cnt F' root' \<and> hint_ok F' (bighint (root' ! n))"

lemma blst_scan_free_ok:
  assumes IH: "\<And>m kc G blk s c root. 64 dvd blk \<Longrightarrow> 0 < kc \<Longrightarrow> kc \<le> blst_radix h \<Longrightarrow> bl_shape h m kc root \<Longrightarrow> bl_rep h m kc G root \<Longrightarrow>
      1 \<le> c \<Longrightarrow> s + c \<le> kc \<Longrightarrow> G \<inter> {s..<s + c} = {} \<Longrightarrow>
      \<exists>root'. f m (blk + s) c blk root = Inr root' \<and> free_post h m kc (G \<union> {s..<s + c}) root root'"
    and blk: "64 dvd blk" and cnt: "cnt \<le> blst_radix (Suc h)"
  shows "bl_shape (Suc h) n cnt root \<Longrightarrow> kids_rep h n cnt F root \<Longrightarrow> hint_ok F (bighint (root ! n)) \<Longrightarrow>
    range_at (blst_radix h) cnt k s c \<Longrightarrow> F \<inter> {s..<s + c} = {} \<Longrightarrow> k \<le> 32 \<Longrightarrow>
    \<exists>root'. blst_scan_free f (blst_radix h) n (blst_kids h n k) (blk + k * blst_radix h) (blk + s) c root = Inr root' \<and>
      scan_free_post h n cnt (F \<union> {s..<s + c}) root root'"
proof (induction "32 - k" arbitrary: k s c F root)
  case 0
  then have "k = 32" by simp
  then have "c = 0" using 0(5) cnt by (auto simp: range_at_def blst_radix_Suc split: if_splits)
  then show ?case using 0 \<open>k = 32\<close> by (simp add: blst_kids_unfold scan_free_post_def)
next
  case (Suc d)
  note shape = Suc.prems(1) and kids = Suc.prems(2) and hint = Suc.prems(3) and at = Suc.prems(4) and dis = Suc.prems(5)
  have k: "k < 32" using Suc.hyps(2) by simp
  let ?kid = "blst_kid h n k"
  show ?case
  proof (cases "c = 0")
    case True
    then have "\<not> blk + k * blst_radix h < blk + s + c" using at by (simp add: range_at_def)
    then show ?thesis using True k shape kids hint by (subst blst_kids_unfold) (simp add: scan_free_post_def)
  next
    case False
    define v where "v = min (k * blst_radix h + blst_radix h - s) c"
    have c0: "0 < c" using False by simp
    note nxt = range_at_next [OF at c0 v_def blst_radix_pos]
    have ks: "k * blst_radix h \<le> s" "s < Suc k * blst_radix h" "k * blst_radix h < cnt" using at c0 by (auto simp: range_at_def)
    define j where "j = s - k * blst_radix h"
    have s_eq: "s = k * blst_radix h + j" using ks by (simp add: j_def)
    define kb where "kb = blk + k * blst_radix h"
    have kb: "64 dvd kb" using blk blst_radix_dvd [of h] by (simp add: kb_def)
    have jr: "j + v \<le> blst_radix h" using nxt(3) s_eq by simp
    have jv: "j + v \<le> kid_cnt h cnt k" using nxt(4) s_eq jr by (simp add: kid_cnt_def)
    have dj: "kid_set h F k \<inter> {j..<j + v} = {}" using dis nxt(5) s_eq by (auto simp: kid_set_def)
    have ksh: "bl_shape h ?kid (kid_cnt h cnt k) root" using bl_shape_kid [OF shape k ks(3)] .
    obtain root1 where r1: "f ?kid (kb + j) v kb root = Inr root1"
      "free_post h ?kid (kid_cnt h cnt k) (kid_set h F k \<union> {j..<j + v}) root root1"
      using IH [OF kb kid_cnt_pos [OF ks(3)] kid_cnt_le ksh kids_repD [OF kids k ks(3)] nxt(2) jv dj] by blast
    have f1: "bl_frame h ?kid root root1" and k1: "bl_shape h ?kid (kid_cnt h cnt k) root1"
      and rep1: "bl_rep h ?kid (kid_cnt h cnt k) (kid_set h F k \<union> {j..<j + v}) root1"
      using r1(2) by (simp_all add: free_post_def)
    note s1 = bl_shape_kid_update [OF shape f1 ks(3) k1] and n1 = bl_frame_kid_node [OF f1]
    define F1 where "F1 = F \<union> {s..<s + v}"
    have same: "kid_set h F1 k' = (if k' = k then kid_set h F k \<union> {j..<j + v} else kid_set h F k')" for k'
      unfolding F1_def s_eq by (rule kid_set_union [OF jr])
    have kids1: "kids_rep h n cnt F1 root1" by (rule kids_rep_update [OF kids f1 rep1]) (simp_all add: same)
    define m' where "m' = (if bm_bighint (root1 ! n) < bm_bighint (root1 ! ?kid) then (root1 ! n)\<lparr>bm_bighint := bm_bighint (root1 ! ?kid)\<rparr> else root1 ! n)"
    define root2 where "root2 = root1[n := m']"
    have m': "bm_bighint m' \<noteq> BL_TERM" "bmu m' = bmu (root ! n)" using bl_shape_node [OF s1] bl_shape_node [OF k1] n1 by (auto simp: m'_def)
    have n2: "root2 ! n = m'" using bl_shape_node [OF s1] by (simp add: root2_def)
    have s2: "bl_shape (Suc h) n cnt root2" using bl_shape_put [OF s1 m'(1)] by (simp add: root2_def)
    have kids2: "kids_rep h n cnt F1 root2" using kids1 kids_rep_put by (simp add: root2_def)
    have "hint_ok F1 (bighint m')"
    proof (rule hint_ok_kid [OF hint, of h F1 k])
      show "hint_ok (kid_set h F1 k) (bighint (root1 ! ?kid))" using bl_rep_hint [OF rep1] same by simp
      show "kid_set h F1 k' = kid_set h F k'" if "k' \<noteq> k" for k' using same that by simp
      show "bighint (root ! n) \<le> bighint m'" "bighint (root1 ! ?kid) \<le> bighint m'"
        using n1 by (auto simp: m'_def word_less_nat_alt)
    qed
    then have hint2: "hint_ok F1 (bighint (root2 ! n))" using n2 by simp
    have f2: "bl_frame (Suc h) n root root2" unfolding root2_def using bl_frame_trans [OF bl_frame_kid [OF f1 k] bl_frame_put] .
    have dis2: "F1 \<inter> {s + v..<s + v + (c - v)} = {}" using dis nxt(5) by (auto simp: F1_def)
    have "d = 32 - Suc k" using Suc.hyps(2) by simp
    from Suc.hyps(1) [OF this s2 kids2 hint2 nxt(1) dis2] k
    obtain root' where r: "blst_scan_free f (blst_radix h) n (blst_kids h n (Suc k)) (blk + Suc k * blst_radix h) (blk + (s + v)) (c - v) root2 = Inr root'"
      "scan_free_post h n cnt (F1 \<union> {s + v..<s + v + (c - v)}) root2 root'" by auto
    have "F1 \<union> {s + v..<s + v + (c - v)} = F \<union> {s..<s + c}" using nxt(5) by (auto simp: F1_def)
    then have post: "scan_free_post h n cnt (F \<union> {s..<s + c}) root root'"
      using r(2) bl_frame_trans [OF f2] n2 m'(2) by (simp add: scan_free_post_def)
    have less: "blk + k * blst_radix h < blk + s + c" using ks c0 by simp
    have v': "min (kb + blst_radix h - (kb + j)) c = v" using s_eq by (simp add: v_def)
    have e: "blk + s = kb + j" "kb + blst_radix h = blk + Suc k * blst_radix h" "kb + j + v = blk + (s + v)" using s_eq by (simp_all add: kb_def)
    have "blst_scan_free f (blst_radix h) n (blst_kids h n k) kb (kb + j) c root =
        blst_scan_free f (blst_radix h) n (blst_kids h n (Suc k)) (kb + blst_radix h) (kb + j + v) (c - v) root2"
      using less k bl_shape_node [OF shape] bm_get_shape [OF shape] bm_get_shape [OF s1] bm_get_shape [OF k1] bm_put_shape [OF s1] r1(1) v'
      unfolding e(1) kb_def [symmetric]
      by (subst blst_kids_unfold) (simp add: Let_def root2_def m'_def)
    then show ?thesis using r(1) post unfolding e by (simp add: kb_def [symmetric] e(1))
  qed
qed

text \<open>What the node does before the scan.\<close>

lemma card_union_run: "finite F \<Longrightarrow> F \<inter> {s..<s + c} = {} \<Longrightarrow> card (F \<union> {s..<s + c}) = card F + c"
  by (simp add: card_Un_disjoint)

lemma free_open:
  assumes shape: "bl_shape (Suc h) n cnt root" and rep: "bl_rep (Suc h) n cnt F root" and cnt: "0 < cnt" "cnt \<le> blst_radix (Suc h)"
    and h: "Suc h \<le> 11" and c: "1 \<le> c" "s + c \<le> cnt" "F \<inter> {s..<s + c} = {}"
  obtains root1 where
    "(if bmu (root ! n) = 0 then
        ebind (bm_put n \<lparr>bmu = of_nat c, bm_bighint = of_nat c\<rparr> root) (\<lambda>root.
          if c \<noteq> blst_radix (Suc h) then blst_set_subs \<lparr>bmu = 0, bm_bighint = 0\<rparr> (blst_kids h n 0) root else Inr root)
      else bm_put n ((root ! n)\<lparr>bmu := bmu (root ! n) + of_nat c\<rparr>) root) = Inr root1"
    "bl_shape (Suc h) n cnt root1" "bl_frame (Suc h) n root root1" "hint_ok F (bighint (root1 ! n))"
    "bmu (root1 ! n) = of_nat (card (F \<union> {s..<s + c}))"
    "card (F \<union> {s..<s + c}) = blst_radix (Suc h) \<or> kids_rep h n cnt F root1"
proof -
  have F: "F \<subseteq> {..<cnt}" using rep by (rule bl_rep_subset)
  then have fin: "finite F" using finite_subset by blast
  note card = card_union_run [OF fin c(3)]
  have n: "n < length root" using bl_shape_node [OF shape] by blast
  show ?thesis
  proof (cases "bmu (root ! n) = 0")
    case False
    define m where "m = (root ! n)\<lparr>bmu := bmu (root ! n) + of_nat c\<rparr>"
    have "s \<in> {..<blst_radix (Suc h)}" "s \<notin> F" using c cnt by auto
    then have "F \<noteq> {..<blst_radix (Suc h)}" by blast
    moreover have "F \<noteq> {}" using False avail_0_iff [OF rep cnt(2) h] by simp
    ultimately have kids: "kids_rep h n cnt F root" using bl_rep_kids [OF rep] by blast
    show ?thesis
    proof (rule that [of "root[n := m]"])
      show "bl_shape (Suc h) n cnt (root[n := m])" using bl_shape_node [OF shape] by (intro bl_shape_put [OF shape]) (simp add: m_def)
      show "bl_frame (Suc h) n root (root[n := m])" by (rule bl_frame_put)
      show "card (F \<union> {s..<s + c}) = blst_radix (Suc h) \<or> kids_rep h n cnt F (root[n := m])" using kids kids_rep_put by simp
      show "hint_ok F (bighint (root[n := m] ! n))" using n bl_rep_hint [OF rep] by (simp add: m_def)
      show "bmu (root[n := m] ! n) = of_nat (card (F \<union> {s..<s + c}))" using n rep card by (simp add: m_def bl_rep.simps)
    qed (use False bm_put_shape [OF shape] in \<open>simp add: m_def\<close>)
  next
    case True
    then have e: "F = {}" using avail_0_iff [OF rep cnt(2) h] by simp
    define m :: blmeta where "m = \<lparr>bmu = of_nat c, bm_bighint = of_nat c\<rparr>"
    have "c < 2 ^ 64 - 1" using c(2) cnt(2) blst_radix_bound [OF h] by simp
    then have "bm_bighint m \<noteq> BL_TERM"
      by (auto simp: m_def kern_defs dest!: arg_cong [of _ _ unat] simp: unat_of_nat_less unsigned_minus_1_eq_mask mask_eq_exp_minus_1)
    then have sm: "bl_shape (Suc h) n cnt (root[n := m])" by (rule bl_shape_put [OF shape])
    have card': "card (F \<union> {s..<s + c}) = c" using e by simp
    show ?thesis
    proof (cases "c = blst_radix (Suc h)")
      case full: True
      show ?thesis
      proof (rule that [of "root[n := m]"])
        show "bl_frame (Suc h) n root (root[n := m])" by (rule bl_frame_put)
        show "bmu (root[n := m] ! n) = of_nat (card (F \<union> {s..<s + c}))" unfolding card' using n by (simp add: m_def)
        show "hint_ok F (bighint (root[n := m] ! n))" unfolding e by (rule hint_ok_empty)
      qed (use True full bm_put_shape [OF shape] sm card' in \<open>simp_all add: m_def\<close>)
    next
      case part: False
      obtain root1 where r: "blst_set_subs \<lparr>bmu = 0, bm_bighint = 0\<rparr> (blst_kids h n 0) (root[n := m]) = Inr root1"
        "bl_shape (Suc h) n cnt root1" "bl_frame (Suc h) n (root[n := m]) root1" "root1 ! n = root[n := m] ! n" "kids_rep h n cnt {} root1"
        using set_subs_allocated [OF cnt(1) sm] by blast
      have n1: "root1 ! n = m" using r(4) n by simp
      show ?thesis
      proof (rule that [of root1])
        show "bl_frame (Suc h) n root root1" using bl_frame_trans [OF bl_frame_put r(3)] .
        show "bmu (root1 ! n) = of_nat (card (F \<union> {s..<s + c}))" unfolding card' n1 by (simp add: m_def)
        show "hint_ok F (bighint (root1 ! n))" unfolding e by (rule hint_ok_empty)
      qed (use True part bm_put_shape [OF shape] r e in \<open>simp_all add: m_def\<close>)
    qed
  qed
qed

lemma range_child_le:
  assumes "1 \<le> c" "s + c \<le> cnt" "cnt \<le> blst_radix (Suc h)" shows "s div blst_radix h \<le> 32"
proof -
  have "s < 32 * blst_radix h" using assms by (simp add: blst_radix_Suc)
  then show ?thesis using less_mult_imp_div_less [of s 32 "blst_radix h"] by simp
qed

lemma range_full:
  assumes "F' \<subseteq> {..<cnt}" "cnt \<le> r" "card F' = (r :: nat)" shows "F' = {..<r}"
  using assms by (intro card_subset_eq) auto

lemma blst_meta_free_ok:
  "h \<le> 11 \<Longrightarrow> 64 dvd blk \<Longrightarrow> 0 < cnt \<Longrightarrow> cnt \<le> blst_radix h \<Longrightarrow> bl_shape h n cnt root \<Longrightarrow> bl_rep h n cnt F root \<Longrightarrow>
   1 \<le> c \<Longrightarrow> s + c \<le> cnt \<Longrightarrow> F \<inter> {s..<s + c} = {} \<Longrightarrow>
   \<exists>root'. blst_meta_free h n (blk + s) c blk root = Inr root' \<and> free_post h n cnt (F \<union> {s..<s + c}) root root'"
proof (induction h arbitrary: n blk cnt F root c s)
  case 0
  from 0(4) have "cnt \<le> 64" by simp
  then show ?case by (rule blst_leaf_free_post [OF 0(2,5-8) _ 0(9)])
next
  case (Suc h)
  note h = Suc.prems(1) and blk = Suc.prems(2) and cnt = Suc.prems(3,4) and shape = Suc.prems(5) and rep = Suc.prems(6)
    and c = Suc.prems(7-9)
  define F' where "F' = F \<union> {s..<s + c}"
  have F': "F' \<subseteq> {..<cnt}" using bl_rep_subset [OF rep] c by (auto simp: F'_def)
  obtain root1 where r1: "(if bmu (root ! n) = 0 then
        ebind (bm_put n \<lparr>bmu = of_nat c, bm_bighint = of_nat c\<rparr> root) (\<lambda>root.
          if c \<noteq> blst_radix (Suc h) then blst_set_subs \<lparr>bmu = 0, bm_bighint = 0\<rparr> (blst_kids h n 0) root else Inr root)
      else bm_put n ((root ! n)\<lparr>bmu := bmu (root ! n) + of_nat c\<rparr>) root) = Inr root1"
    "bl_shape (Suc h) n cnt root1" "bl_frame (Suc h) n root root1" "hint_ok F (bighint (root1 ! n))" "bmu (root1 ! n) = of_nat (card F')"
    "card F' = blst_radix (Suc h) \<or> kids_rep h n cnt F root1"
    unfolding F'_def using free_open [OF shape rep cnt h c] by blast
  have "card F' \<le> cnt" using card_mono [OF _ F'] by simp
  then have ca: "card F' \<le> blst_radix (Suc h)" using cnt by simp
  then have av: "bmu_avail (root1 ! n) = card F'" using r1(5) blst_radix_bound [OF h] by (simp add: unat_of_nat_less)
  define k where "k = s div blst_radix h"
  have code: "blst_meta_free (Suc h) n (blk + s) c blk root =
      (if card F' = blst_radix (Suc h) then bm_put n ((root1 ! n)\<lparr>bm_bighint := of_nat (blst_radix (Suc h))\<rparr>) root1
       else blst_scan_free (blst_meta_free h) (blst_radix h) n (blst_kids h n k) (blk + k * blst_radix h) (blk + s) c root1)"
    using bm_get_shape [OF shape] r1(1) bm_get_shape [OF r1(2)] av ca by (simp add: k_def Let_def)
  show ?case
  proof (cases "card F' = blst_radix (Suc h)")
    case True
    define m where "m = (root1 ! n)\<lparr>bm_bighint := of_nat (blst_radix (Suc h))\<rparr>"
    have full: "F' = {..<blst_radix (Suc h)}" by (rule range_full [OF F' cnt(2) True])
    have r: "blst_radix (Suc h) < 2 ^ 64 - 1" using blst_radix_bound [OF h] by simp
    then have hint: "bighint m = blst_radix (Suc h)" by (simp add: m_def unat_of_nat_less)
    then have "bm_bighint m \<noteq> BL_TERM" using r by (auto simp: kern_defs unsigned_minus_1_eq_mask mask_eq_exp_minus_1)
    then have "bl_shape (Suc h) n cnt (root1[n := m])" by (rule bl_shape_put [OF r1(2)])
    moreover have "root1[n := m] ! n = m" using bl_shape_node [OF r1(2)] by simp
    then have "bl_rep (Suc h) n cnt F' (root1[n := m])"
      using F' hint hint_ok_64 [OF blst_radix_ge] r1(5) full by (simp add: bl_rep.simps m_def)
    moreover have "bl_frame (Suc h) n root (root1[n := m])" using bl_frame_trans [OF r1(3) bl_frame_put] .
    ultimately have "free_post (Suc h) n cnt F' root (root1[n := m])" by (simp add: free_post_def)
    then show ?thesis using code True bm_put_shape [OF r1(2)] by (simp add: F'_def m_def)
  next
    case False
    have IH: "\<exists>root'. blst_meta_free h m (blk + s) c blk root = Inr root' \<and> free_post h m kc (G \<union> {s..<s + c}) root root'"
      if "64 dvd blk" "0 < kc" "kc \<le> blst_radix h" "bl_shape h m kc root" "bl_rep h m kc G root" "1 \<le> c" "s + c \<le> kc" "G \<inter> {s..<s + c} = {}"
      for m kc G blk s c root
      using Suc.IH that h by simp
    from False r1(6) have kids1: "kids_rep h n cnt F root1" by blast
    have k32: "k \<le> 32" unfolding k_def using range_child_le [OF c(1,2) cnt(2)] .
    obtain root' where r: "blst_scan_free (blst_meta_free h) (blst_radix h) n (blst_kids h n k) (blk + k * blst_radix h) (blk + s) c root1 = Inr root'"
      "scan_free_post h n cnt F' root1 root'"
      unfolding F'_def
      using blst_scan_free_ok [where f = "blst_meta_free h", OF IH blk cnt(2) r1(2) kids1 r1(4)
        range_at_start [OF c(1,2) blst_radix_pos, of h] c(3) k32 [unfolded k_def]] unfolding k_def by blast
    have "bl_rep (Suc h) n cnt F' root'" using r(2) r1(5) F' by (intro bl_rep_nodeI) (simp_all add: scan_free_post_def)
    then have "free_post (Suc h) n cnt F' root root'"
      using r(2) bl_frame_trans [OF r1(3)] by (simp add: free_post_def scan_free_post_def)
    then show ?thesis using code False r(1) by (simp add: F'_def)
  qed
qed

section \<open>Reserving a range\<close>

text \<open>The only failure is the refusal of a range which is larger than a child and not the whole node.\<close>

definition fill_post :: "nat \<Rightarrow> nat \<Rightarrow> nat \<Rightarrow> nat set \<Rightarrow> nat \<Rightarrow> nat \<Rightarrow> bl_mem \<Rightarrow> bl_panic + nat \<times> bl_mem \<Rightarrow> bool" where
  "fill_post h n cnt F s c root res \<longleftrightarrow>
     (case res of
        Inl e \<Rightarrow> e = Bl_too_large \<and> 64 < c
      | Inr (nb, root') \<Rightarrow> nb = card (F \<inter> {s..<s + c}) \<and> bl_shape h n cnt root' \<and> bl_frame h n root root' \<and>
          bl_rep h n cnt (F - {s..<s + c}) root')"

lemma blst_leaf_fill_post:
  assumes blk: "64 dvd blk" and shape: "bl_shape 0 n cnt root" and rep: "bl_rep 0 n cnt F root"
    and c: "1 \<le> c" "s + c \<le> cnt" "cnt \<le> 64"
  shows "fill_post 0 n cnt F s c root (blst_meta_fill 0 n (blk + s) c blk root)"
proof -
  have s: "(blk + s) mod 64 = s" using blk c by (auto elim!: dvdE)
  have F: "bset (bmu (root ! n)) = F" "F \<subseteq> {..<cnt}" "hint_ok F (bighint (root ! n))" using rep by auto
  obtain m' where m: "blst_leaf_fill (blk + s) c (root ! n) = Inr (card (F \<inter> {s..<s + c}), m')" "bset (bmu m') = F - {s..<s + c}"
    "bm_bighint m' = bm_bighint (root ! n)"
    using blst_leaf_fill_ok [of c "blk + s" "root ! n"] c s F by auto
  have "hint_ok (F - {s..<s + c}) (bighint (root ! n))" by (rule hint_ok_mono [OF F(3)]) auto
  then show ?thesis
    using m F bm_get_shape [OF shape] bm_put_shape [OF shape] shape by (auto simp: fill_post_def bl_frame_put)
qed

definition scan_fill_post :: "nat \<Rightarrow> nat \<Rightarrow> nat \<Rightarrow> nat set \<Rightarrow> nat \<Rightarrow> nat \<Rightarrow> nat \<Rightarrow> bl_mem \<Rightarrow> bl_panic + nat \<times> bl_mem \<Rightarrow> bool" where
  "scan_fill_post h n cnt F s c nblks root res \<longleftrightarrow>
     (case res of
        Inl e \<Rightarrow> e = Bl_too_large \<and> 64 < c
      | Inr (nb, root') \<Rightarrow> nb = nblks + card (F \<inter> {s..<s + c}) \<and> bl_shape (Suc h) n cnt root' \<and> bl_frame (Suc h) n root root' \<and>
          root' ! n = root ! n \<and> kids_rep h n cnt (F - {s..<s + c}) root')"

lemma card_inter_run:
  assumes "finite F" "v \<le> (c :: nat)"
  shows "card (F \<inter> {s..<s + c}) = card (F \<inter> {s..<s + v}) + card ((F - {s..<s + v}) \<inter> {s + v..<s + v + (c - v)})"
proof -
  have "F \<inter> {s..<s + c} = (F \<inter> {s..<s + v}) \<union> ((F - {s..<s + v}) \<inter> {s + v..<s + v + (c - v)})" using assms(2) by auto
  then show ?thesis using assms(1) by (simp only:) (intro card_Un_disjoint, auto)
qed

lemma card_kid_inter: "j + v \<le> blst_radix h \<Longrightarrow>
  card (kid_set h F k \<inter> {j..<j + v}) = card (F \<inter> {k * blst_radix h + j..<k * blst_radix h + j + v})"
proof -
  assume jv: "j + v \<le> blst_radix h"
  have "(\<lambda>i. k * blst_radix h + i) ` (kid_set h F k \<inter> {j..<j + v}) = F \<inter> {k * blst_radix h + j..<k * blst_radix h + j + v}" (is "?f ` ?A = ?B")
  proof
    show "?f ` ?A \<subseteq> ?B" by (auto simp: kid_set_def)
    show "?B \<subseteq> ?f ` ?A"
    proof
      fix x assume x: "x \<in> ?B"
      then have "x = ?f (x - k * blst_radix h)" "x - k * blst_radix h \<in> ?A" using jv by (auto simp: kid_set_def)
      then show "x \<in> ?f ` ?A" by blast
    qed
  qed
  then show ?thesis using card_image [of ?f ?A] by (simp add: inj_on_def)
qed

lemma blst_scan_fill_ok:
  assumes IH: "\<And>m kc G blk s c root. 64 dvd blk \<Longrightarrow> 0 < kc \<Longrightarrow> kc \<le> blst_radix h \<Longrightarrow> bl_shape h m kc root \<Longrightarrow> bl_rep h m kc G root \<Longrightarrow>
      1 \<le> c \<Longrightarrow> s + c \<le> kc \<Longrightarrow> fill_post h m kc G s c root (f m (blk + s) c blk root)"
    and blk: "64 dvd blk" and cnt: "cnt \<le> blst_radix (Suc h)"
  shows "bl_shape (Suc h) n cnt root \<Longrightarrow> kids_rep h n cnt F root \<Longrightarrow> finite F \<Longrightarrow> range_at (blst_radix h) cnt k s c \<Longrightarrow> k \<le> 32 \<Longrightarrow>
    scan_fill_post h n cnt F s c nblks root
      (blst_scan_fill f (blst_radix h) n (blst_kids h n k) (blk + k * blst_radix h) (blk + s) c nblks root)"
proof (induction "32 - k" arbitrary: k s c F root nblks)
  case 0
  then have "k = 32" by simp
  then have "c = 0" using 0(5) cnt by (auto simp: range_at_def blst_radix_Suc split: if_splits)
  then show ?case using 0 \<open>k = 32\<close> by (simp add: blst_kids_unfold scan_fill_post_def)
next
  case (Suc d)
  note shape = Suc.prems(1) and kids = Suc.prems(2) and fin = Suc.prems(3) and at = Suc.prems(4)
  have k: "k < 32" using Suc.hyps(2) by simp
  let ?kid = "blst_kid h n k"
  show ?case
  proof (cases "c = 0")
    case True
    then have "\<not> blk + k * blst_radix h < blk + s + c" using at by (simp add: range_at_def)
    then show ?thesis using True k shape kids by (subst blst_kids_unfold) (simp add: scan_fill_post_def)
  next
    case False
    define v where "v = min (k * blst_radix h + blst_radix h - s) c"
    have c0: "0 < c" using False by simp
    note nxt = range_at_next [OF at c0 v_def blst_radix_pos]
    have ks: "k * blst_radix h \<le> s" "s < Suc k * blst_radix h" "k * blst_radix h < cnt" using at c0 by (auto simp: range_at_def)
    define j where "j = s - k * blst_radix h"
    have s_eq: "s = k * blst_radix h + j" using ks by (simp add: j_def)
    define kb where "kb = blk + k * blst_radix h"
    have kb: "64 dvd kb" using blk blst_radix_dvd [of h] by (simp add: kb_def)
    have jr: "j + v \<le> blst_radix h" using nxt(3) s_eq by simp
    have jv: "j + v \<le> kid_cnt h cnt k" using nxt(4) s_eq jr by (simp add: kid_cnt_def)
    have ksh: "bl_shape h ?kid (kid_cnt h cnt k) root" using bl_shape_kid [OF shape k ks(3)] .
    have post: "fill_post h ?kid (kid_cnt h cnt k) (kid_set h F k) j v root (f ?kid (kb + j) v kb root)"
      using IH [OF kb kid_cnt_pos [OF ks(3)] kid_cnt_le ksh kids_repD [OF kids k ks(3)] nxt(2) jv] .
    have less: "blk + k * blst_radix h < blk + s + c" using ks c0 by simp
    have v': "min (kb + blst_radix h - (kb + j)) c = v" using s_eq by (simp add: v_def)
    have e: "blk + s = kb + j" "kb + blst_radix h = blk + Suc k * blst_radix h" "kb + j + v = blk + (s + v)" using s_eq by (simp_all add: kb_def)
    have code: "blst_scan_fill f (blst_radix h) n (blst_kids h n k) kb (kb + j) c nblks root =
        ebind (f ?kid (kb + j) v kb root) (\<lambda>(nb, root).
        blst_scan_fill f (blst_radix h) n (blst_kids h n (Suc k)) (kb + blst_radix h) (kb + j + v) (c - v) (nblks + nb) root)"
      using less k bl_shape_node [OF shape] bm_get_shape [OF shape] v'
      unfolding e(1) kb_def [symmetric]
      by (subst blst_kids_unfold) (simp add: Let_def)
    show ?thesis
    proof (cases "f ?kid (kb + j) v kb root")
      case (Inl err)
      then have "err = Bl_too_large \<and> 64 < c" using post nxt(5) by (simp add: fill_post_def)
      then show ?thesis using code Inl unfolding kb_def [symmetric] e(1) by (simp add: scan_fill_post_def)
    next
      case (Inr x)
      then obtain nb root1 where x: "f ?kid (kb + j) v kb root = Inr (nb, root1)" by (cases x) auto
      have nb: "nb = card (F \<inter> {s..<s + v})" and k1: "bl_shape h ?kid (kid_cnt h cnt k) root1" and f1: "bl_frame h ?kid root root1"
        and rep1: "bl_rep h ?kid (kid_cnt h cnt k) (kid_set h F k - {j..<j + v}) root1"
        using post x card_kid_inter [OF jr, of F k] by (simp_all add: fill_post_def s_eq)
      note s1 = bl_shape_kid_update [OF shape f1 ks(3) k1] and n1 = bl_frame_kid_node [OF f1] and ff = bl_frame_kid [OF f1 k]
      define F1 where "F1 = F - {s..<s + v}"
      have kids1: "kids_rep h n cnt F1 root1"
        by (rule kids_rep_update [OF kids f1 rep1]) (simp_all add: F1_def s_eq kid_set_diff [OF jr])
      have "d = 32 - Suc k" using Suc.hyps(2) by simp
      from Suc.hyps(1) [OF this s1 kids1 _ nxt(1), of "nblks + nb"] k fin
      have p: "scan_fill_post h n cnt F1 (s + v) (c - v) (nblks + nb) root1
        (blst_scan_fill f (blst_radix h) n (blst_kids h n (Suc k)) (blk + Suc k * blst_radix h) (blk + (s + v)) (c - v) (nblks + nb) root1)"
        by (simp add: F1_def)
      have split: "card (F \<inter> {s..<s + c}) = nb + card (F1 \<inter> {s + v..<s + v + (c - v)})"
        using card_inter_run [OF fin nxt(5)] nb by (simp add: F1_def)
      have diff: "F1 - {s + v..<s + v + (c - v)} = F - {s..<s + c}" using nxt(5) by (auto simp: F1_def)
      have "scan_fill_post h n cnt F s c nblks root
        (blst_scan_fill f (blst_radix h) n (blst_kids h n (Suc k)) (blk + Suc k * blst_radix h) (blk + (s + v)) (c - v) (nblks + nb) root1)"
        using p bl_frame_trans [OF ff] n1 diff split unfolding scan_fill_post_def by (auto split: sum.splits)
      then show ?thesis using code x unfolding kb_def [symmetric] e by simp
    qed
  qed
qed

lemma fill_open:
  assumes shape: "bl_shape (Suc h) n cnt root" and rep: "bl_rep (Suc h) n cnt F root" and cnt: "cnt \<le> blst_radix (Suc h)"
    and h: "Suc h \<le> 11" and ne: "F \<noteq> {}"
  obtains root1 where
    "(if bmu_avail (root ! n) = blst_radix (Suc h) then blst_set_subs (blst_all_free h) (blst_kids h n 0) root else Inr root) = Inr root1"
    "bl_shape (Suc h) n cnt root1" "bl_frame (Suc h) n root root1" "kids_rep h n cnt F root1" "root1 ! n = root ! n"
proof (cases "bmu_avail (root ! n) = blst_radix (Suc h)")
  case False
  then have "F \<noteq> {..<blst_radix (Suc h)}" using avail_full_iff [OF rep cnt h] by simp
  then have "kids_rep h n cnt F root" using bl_rep_kids [OF rep ne] by blast
  then show ?thesis using that [of root] False shape by simp
next
  case True
  then have full: "F = {..<blst_radix (Suc h)}" using avail_full_iff [OF rep cnt h] by simp
  then have cnt': "cnt = blst_radix (Suc h)" using bl_rep_subset [OF rep] cnt by (auto simp: subset_iff)
  show ?thesis
  proof (rule set_subs_free [of h n root])
    show "h \<le> 11" "bl_shape (Suc h) n (blst_radix (Suc h)) root" using h shape cnt' by auto
  qed (use that True full cnt' in auto)
qed

lemma blst_meta_fill_ok:
  "h \<le> 11 \<Longrightarrow> 64 dvd blk \<Longrightarrow> 0 < cnt \<Longrightarrow> cnt \<le> blst_radix h \<Longrightarrow> bl_shape h n cnt root \<Longrightarrow> bl_rep h n cnt F root \<Longrightarrow>
   1 \<le> c \<Longrightarrow> s + c \<le> cnt \<Longrightarrow> fill_post h n cnt F s c root (blst_meta_fill h n (blk + s) c blk root)"
proof (induction h arbitrary: n blk cnt F root c s)
  case 0
  from 0(4) have "cnt \<le> 64" by simp
  then show ?case by (rule blst_leaf_fill_post [OF 0(2,5-8)])
next
  case (Suc h)
  note h = Suc.prems(1) and blk = Suc.prems(2) and cnt = Suc.prems(3,4) and shape = Suc.prems(5) and rep = Suc.prems(6)
    and c = Suc.prems(7,8)
  have F: "F \<subseteq> {..<cnt}" using rep by (rule bl_rep_subset)
  then have fin: "finite F" using finite_subset by blast
  have n: "n < length root" using bl_shape_node [OF shape] by blast
  show ?case
  proof (cases "c = blst_radix (Suc h) \<or> bmu (root ! n) = 0")
    case True
    define m :: blmeta where "m = \<lparr>bmu = 0, bm_bighint = of_nat c\<rparr>"
    have "c < 2 ^ 64 - 1" using c(2) cnt(2) blst_radix_bound [OF h] by simp
    then have "bm_bighint m \<noteq> BL_TERM"
      by (auto simp: m_def kern_defs dest!: arg_cong [of _ _ unat] simp: unat_of_nat_less unsigned_minus_1_eq_mask mask_eq_exp_minus_1)
    then have sh: "bl_shape (Suc h) n cnt (root[n := m])" by (rule bl_shape_put [OF shape])
    have "F = {} \<or> {s..<s + c} = {..<cnt}" using True avail_0_iff [OF rep cnt(2) h] c cnt by auto
    then have all: "F \<inter> {s..<s + c} = F" "F - {s..<s + c} = {}" using F by auto
    have "bl_rep (Suc h) n cnt {} (root[n := m])" using n by (intro all_allocated_rep) (simp add: m_def)
    then have "fill_post (Suc h) n cnt F s c root (Inr (card F, root[n := m]))"
      unfolding fill_post_def sum.case prod.case all using sh bl_frame_put by blast
    then show ?thesis using True bm_get_shape [OF shape] bm_put_shape [OF shape] avail_card [OF rep cnt(2) h] by (simp add: m_def)
  next
    case False
    then have ne: "F \<noteq> {}" using avail_0_iff [OF rep cnt(2) h] by simp
    obtain root1 where r1: "(if bmu_avail (root ! n) = blst_radix (Suc h) then blst_set_subs (blst_all_free h) (blst_kids h n 0) root else Inr root) = Inr root1"
      "bl_shape (Suc h) n cnt root1" "bl_frame (Suc h) n root root1" "kids_rep h n cnt F root1" "root1 ! n = root ! n"
      using fill_open [OF shape rep cnt(2) h ne] by blast
    define k where "k = s div blst_radix h"
    define res where "res = blst_scan_fill (blst_meta_fill h) (blst_radix h) n (blst_kids h n k) (blk + k * blst_radix h) (blk + s) c 0 root1"
    have code: "blst_meta_fill (Suc h) n (blk + s) c blk root =
        (if blst_radix h < c then Inl Bl_too_large
         else ebind res (\<lambda>(nblks, root). ebind (bm_get n root) (\<lambda>m.
           ebind (bm_put n (m\<lparr>bmu := bmu m - of_nat nblks\<rparr>) root) (\<lambda>root. Inr (nblks, root)))))"
      using False bm_get_shape [OF shape] r1(1) by (simp add: k_def res_def Let_def)
    have IH: "fill_post h m kc G s c root (blst_meta_fill h m (blk + s) c blk root)"
      if "64 dvd blk" "0 < kc" "kc \<le> blst_radix h" "bl_shape h m kc root" "bl_rep h m kc G root" "1 \<le> c" "s + c \<le> kc"
      for m kc G blk s c root
      using Suc.IH that h by simp
    have post: "scan_fill_post h n cnt F s c 0 root1 res"
      unfolding res_def k_def
      using blst_scan_fill_ok [where f = "blst_meta_fill h", OF IH blk cnt(2) r1(2,4) fin range_at_start [OF c blst_radix_pos, of h]
        range_child_le [OF c cnt(2)], of 0] by blast
    consider "blst_radix h < c" | e where "c \<le> blst_radix h" "res = Inl e" | nb root2 where "c \<le> blst_radix h" "res = Inr (nb, root2)"
      by (metis not_le surj_pair sum.exhaust)
    then show ?thesis
    proof cases
      case 1
      then show ?thesis using code blst_radix_ge [of h] by (simp add: fill_post_def)
    next
      case 2
      then show ?thesis using code post by (simp add: fill_post_def scan_fill_post_def)
    next
      case 3
      define F' where "F' = F - {s..<s + c}"
      have p: "nb = card (F \<inter> {s..<s + c})" "bl_shape (Suc h) n cnt root2" "bl_frame (Suc h) n root1 root2" "root2 ! n = root ! n"
        "kids_rep h n cnt F' root2"
        using post 3 r1(5) by (simp_all add: scan_fill_post_def F'_def)
      define m where "m = (root2 ! n)\<lparr>bmu := bmu (root2 ! n) - of_nat nb\<rparr>"
      have "card F = card (F \<inter> {s..<s + c}) + card F'"
        unfolding F'_def using card_Int_Diff [OF fin] .
      then have avail: "bmu m = of_nat (card F')" using p(1,4) rep by (simp add: m_def bl_rep.simps)
      have "hint_ok F (bighint m)" using bl_rep_hint [OF rep] p(4) by (simp add: m_def)
      then have hint: "hint_ok F' (bighint m)" by (rule hint_ok_mono) (auto simp: F'_def)
      have "bm_bighint m \<noteq> BL_TERM" using bl_shape_node [OF p(2)] by (simp add: m_def)
      then have sh: "bl_shape (Suc h) n cnt (root2[n := m])" by (rule bl_shape_put [OF p(2)])
      have "bl_rep (Suc h) n cnt F' (root2[n := m])"
        using F hint avail p(5) bl_shape_node [OF p(2)] by (intro bl_rep_SucI) (auto simp: F'_def)
      moreover have "bl_frame (Suc h) n root (root2[n := m])" using bl_frame_trans [OF r1(3) bl_frame_trans [OF p(3) bl_frame_put]] .
      ultimately have "fill_post (Suc h) n cnt F s c root (Inr (nb, root2[n := m]))"
        using sh p(1) by (simp add: fill_post_def F'_def)
      then show ?thesis using code 3 bm_get_shape [OF p(2)] bm_put_shape [OF p(2)] by (simp add: m_def)
    qed
  qed
qed

end
