(* ===== verification/Blist_Create.thy ===== *)
theory Blist_Create
  imports Blist_Inv
begin

text \<open>
  Creating a blist: the size that \<^verbatim>\<open>blst_radix_init\<close> computes on a null pointer is enough for what it writes into the array, the array then
  represents a list with no free block, and the loop of \<^verbatim>\<open>blist_create\<close> ends exactly for the sizes up to \<^verbatim>\<open>BLIST_MAXBLKS\<close>.
\<close>

section \<open>The size of the array\<close>

definition nkids :: "nat \<Rightarrow> nat \<Rightarrow> nat" where
  "nkids h cnt = (cnt + blst_radix h - 1) div blst_radix h"

lemma nkids_iff: "k * blst_radix h < cnt \<longleftrightarrow> k < nkids h cnt"
proof -
  have "k < nkids h cnt \<longleftrightarrow> Suc k * blst_radix h \<le> cnt + blst_radix h - 1"
    unfolding nkids_def Suc_le_eq [symmetric] using less_eq_div_iff_mult_less_eq [OF blst_radix_pos [of h]] by blast
  also have "\<dots> \<longleftrightarrow> k * blst_radix h < cnt" using blst_radix_pos [of h] unfolding mult_Suc by linarith
  finally show ?thesis by blast
qed

lemma nkids_le: "cnt \<le> blst_radix (Suc h) \<Longrightarrow> nkids h cnt \<le> 32"
  using nkids_iff [of 32 h cnt] by (simp add: blst_radix_Suc)

definition isize :: "nat \<Rightarrow> nat \<Rightarrow> nat" where
  "isize h cnt = (case h of 0 \<Rightarrow> 0 | Suc h \<Rightarrow> 1 + nkids h cnt * (blst_skip h + 1))"

lemma isize_le: "cnt \<le> blst_radix h \<Longrightarrow> isize h cnt \<le> blst_skip h + 1"
proof (cases h)
  case (Suc h')
  assume "cnt \<le> blst_radix h"
  then have "nkids h' cnt * (blst_skip h' + 1) \<le> 32 * (blst_skip h' + 1)" using nkids_le Suc by (intro mult_le_mono1) simp
  then show ?thesis by (simp add: isize_def Suc blst_skip_Suc)
qed (simp add: isize_def)

lemma blst_kid_nkids: "blst_kid h n (nkids h cnt) = n + isize (Suc h) cnt"
  by (simp add: blst_kid_def isize_def)

lemma blst_scan_init_step:
  assumes "k < 32" "k * blst_radix h < cnt"
  shows "blst_scan_init f (blst_radix h) (blst_skip h + 1) n (32 - k) (1 + k * (blst_skip h + 1)) (cnt - k * blst_radix h) mi scan =
    ebind (f (blst_kid h n k) (kid_cnt h cnt k) scan) (\<lambda>(x, scan).
    blst_scan_init f (blst_radix h) (blst_skip h + 1) n (32 - Suc k) (1 + Suc k * (blst_skip h + 1)) (cnt - Suc k * blst_radix h)
      (1 + k * (blst_skip h + 1) + x) scan)"
proof -
  have r: "32 - k = Suc (32 - Suc k)" using assms by simp
  have i: "n + (1 + k * (blst_skip h + 1)) = blst_kid h n k" by (simp add: blst_kid_def)
  have i': "1 + k * (blst_skip h + 1) + (blst_skip h + 1) = 1 + Suc k * (blst_skip h + 1)" by simp
  show ?thesis
  proof (cases "blst_radix h \<le> cnt - k * blst_radix h")
    case True
    then have "kid_cnt h cnt k = blst_radix h" "cnt - k * blst_radix h - blst_radix h = cnt - Suc k * blst_radix h" by (simp_all add: kid_cnt_def)
    then show ?thesis unfolding r blst_scan_init.simps i i' using True by simp
  next
    case False
    then have "kid_cnt h cnt k = cnt - k * blst_radix h" "cnt - Suc k * blst_radix h = 0" by (simp_all add: kid_cnt_def)
    then show ?thesis unfolding r blst_scan_init.simps i i' using False assms by simp
  qed
qed

lemma blst_scan_init_end:
  assumes "k < 32" "cnt \<le> k * blst_radix h"
  shows "blst_scan_init f (blst_radix h) (blst_skip h + 1) n (32 - k) (1 + k * (blst_skip h + 1)) (cnt - k * blst_radix h) mi scan =
    ebind (blst_store (blst_kid h n k) (\<lambda>m. m\<lparr>bm_bighint := BL_TERM\<rparr>) scan) (\<lambda>scan. Inr (1 + k * (blst_skip h + 1), mi, scan))"
proof -
  have r: "32 - k = Suc (32 - Suc k)" using assms by simp
  have i: "n + (1 + k * (blst_skip h + 1)) = blst_kid h n k" by (simp add: blst_kid_def)
  have "cnt - k * blst_radix h = 0" using assms by simp
  then show ?thesis unfolding r blst_scan_init.simps i by simp
qed

text \<open>When the loop stops, it has visited the children that have blocks.\<close>

lemma kid_at_nkids: "kid_at h cnt k \<Longrightarrow> 0 < cnt \<Longrightarrow> cnt \<le> k * blst_radix h \<Longrightarrow> k = nkids h cnt"
proof -
  assume k: "kid_at h cnt k" "0 < cnt" "cnt \<le> k * blst_radix h"
  then have "0 < k" by (cases k) auto
  then have "k - 1 < nkids h cnt" using k nkids_iff [of "k - 1" h cnt] by (simp add: kid_at_def)
  moreover have "\<not> k < nkids h cnt" using k nkids_iff [of k h cnt] by simp
  ultimately show ?thesis by simp
qed

section \<open>Sizing\<close>

lemma blst_scan_init_null:
  assumes IH: "\<And>m c. 0 < c \<Longrightarrow> c \<le> blst_radix h \<Longrightarrow> f m c None = Inr (isize h c, None)" and cnt: "0 < cnt" "cnt \<le> blst_radix (Suc h)"
  shows "kid_at h cnt k \<Longrightarrow> k \<le> 32 \<Longrightarrow> mi \<le> 1 + k * (blst_skip h + 1) \<Longrightarrow>
    \<exists>mi'. blst_scan_init f (blst_radix h) (blst_skip h + 1) n (32 - k) (1 + k * (blst_skip h + 1)) (cnt - k * blst_radix h) mi None =
      Inr (isize (Suc h) cnt, mi', None) \<and> mi' \<le> isize (Suc h) cnt"
proof (induction "32 - k" arbitrary: k mi)
  case 0
  then have k: "k = 32" by simp
  moreover have "k = nkids h cnt" using kid_at_nkids [OF 0(2) cnt(1)] cnt(2) k by (simp add: blst_radix_Suc)
  ultimately show ?case using 0 by (simp add: isize_def)
next
  case (Suc d)
  then have k: "k < 32" by simp
  show ?case
  proof (cases "k * blst_radix h < cnt")
    case True
    have "isize h (kid_cnt h cnt k) \<le> blst_skip h + 1" using isize_le [OF kid_cnt_le] .
    then have mi: "1 + k * (blst_skip h + 1) + isize h (kid_cnt h cnt k) \<le> 1 + Suc k * (blst_skip h + 1)" by simp
    have "d = 32 - Suc k" using Suc by simp
    from Suc.hyps(1) [OF this kid_at_Suc [OF True] _ mi] k show ?thesis
      unfolding blst_scan_init_step [OF k True] IH [OF kid_cnt_pos [OF True] kid_cnt_le] by simp
  next
    case False
    then have le: "cnt \<le> k * blst_radix h" by simp
    have "k = nkids h cnt" using kid_at_nkids [OF Suc.prems(1) cnt(1) le] .
    then show ?thesis unfolding blst_scan_init_end [OF k le] using Suc.prems(3) by (simp add: blst_store_def isize_def)
  qed
qed

lemma blst_radix_init_null: "0 < cnt \<Longrightarrow> cnt \<le> blst_radix h \<Longrightarrow> blst_radix_init h n cnt None = Inr (isize h cnt, None)"
proof (induction h arbitrary: n cnt)
  case 0
  then show ?case by (simp add: blst_store_def isize_def)
next
  case (Suc h)
  have "blst_store n (\<lambda>m. \<lparr>bmu = 0, bm_bighint = 0\<rparr>) None = Inr None" by (simp add: blst_store_def)
  then show ?case using blst_scan_init_null [where f = "blst_radix_init h" and k = 0 and mi = 0 and n = n, OF Suc.IH Suc.prems] by (auto simp: kern_defs)
qed

section \<open>Initialising\<close>

lemma blst_scan_init_some:
  assumes IH: "\<And>m c root. 0 < c \<Longrightarrow> c \<le> blst_radix h \<Longrightarrow> m + isize h c < length root \<Longrightarrow>
      \<exists>root'. f m c (Some root) = Inr (isize h c, Some root') \<and> bl_shape h m c root' \<and> bl_frame h m root root'"
    and cnt: "0 < cnt" "cnt \<le> blst_radix (Suc h)"
  shows "kid_at h cnt k \<Longrightarrow> k \<le> 32 \<Longrightarrow> mi \<le> 1 + k * (blst_skip h + 1) \<Longrightarrow> n + isize (Suc h) cnt < length root \<Longrightarrow>
    (\<And>k'. k' < k \<Longrightarrow> bl_shape h (blst_kid h n k') (kid_cnt h cnt k') root) \<Longrightarrow>
    \<exists>mi' root'. blst_scan_init f (blst_radix h) (blst_skip h + 1) n (32 - k) (1 + k * (blst_skip h + 1)) (cnt - k * blst_radix h) mi (Some root) =
      Inr (isize (Suc h) cnt, mi', Some root') \<and> mi' \<le> isize (Suc h) cnt \<and> bl_frame (Suc h) n root root' \<and> root' ! n = root ! n \<and>
      (\<forall>k'<nkids h cnt. bl_shape h (blst_kid h n k') (kid_cnt h cnt k') root') \<and>
      (nkids h cnt < 32 \<longrightarrow> bm_bighint (root' ! blst_kid h n (nkids h cnt)) = BL_TERM)"
proof (induction "32 - k" arbitrary: k mi root)
  case 0
  then have k: "k = 32" by simp
  moreover have "k = nkids h cnt" using kid_at_nkids [OF 0(2) cnt(1)] cnt(2) k by (simp add: blst_radix_Suc)
  ultimately show ?case using 0 by (simp add: isize_def)
next
  case (Suc d)
  then have k: "k < 32" by simp
  note len = Suc.prems(4) and visited = Suc.prems(5)
  let ?kid = "blst_kid h n k"
  show ?case
  proof (cases "k * blst_radix h < cnt")
    case True
    have "Suc k \<le> nkids h cnt" using nkids_iff [of k h cnt] True by simp
    then have "Suc k * (blst_skip h + 1) \<le> nkids h cnt * (blst_skip h + 1)" by (rule mult_le_mono1)
    then have "?kid + (blst_skip h + 1) \<le> n + isize (Suc h) cnt" by (simp add: blst_kid_def isize_def)
    then have kl: "?kid + isize h (kid_cnt h cnt k) < length root" using len isize_le [OF kid_cnt_le, of h cnt k] by simp
    obtain root1 where r1: "f ?kid (kid_cnt h cnt k) (Some root) = Inr (isize h (kid_cnt h cnt k), Some root1)"
      "bl_shape h ?kid (kid_cnt h cnt k) root1" "bl_frame h ?kid root root1"
      using IH [OF kid_cnt_pos [OF True] kid_cnt_le kl] by blast
    have visited1: "bl_shape h (blst_kid h n k') (kid_cnt h cnt k') root1" if "k' < Suc k" for k'
      using that r1(2) bl_shape_agree [OF frame_agree_kid [OF r1(3), of k']] visited [of k'] by (cases "k' = k") auto
    have mi: "1 + k * (blst_skip h + 1) + isize h (kid_cnt h cnt k) \<le> 1 + Suc k * (blst_skip h + 1)"
      using isize_le [OF kid_cnt_le, of h cnt k] by simp
    have len1: "n + isize (Suc h) cnt < length root1" using len r1(3) by (simp add: bl_frame_def)
    have "d = 32 - Suc k" using Suc by simp
    from Suc.hyps(1) [OF this kid_at_Suc [OF True] _ mi len1 visited1] k
    obtain mi' root' where r: "blst_scan_init f (blst_radix h) (blst_skip h + 1) n (32 - Suc k) (1 + Suc k * (blst_skip h + 1))
        (cnt - Suc k * blst_radix h) (1 + k * (blst_skip h + 1) + isize h (kid_cnt h cnt k)) (Some root1) = Inr (isize (Suc h) cnt, mi', Some root')"
      "mi' \<le> isize (Suc h) cnt" "bl_frame (Suc h) n root1 root'" "root' ! n = root1 ! n"
      "\<forall>k'<nkids h cnt. bl_shape h (blst_kid h n k') (kid_cnt h cnt k') root'"
      "nkids h cnt < 32 \<longrightarrow> bm_bighint (root' ! blst_kid h n (nkids h cnt)) = BL_TERM" by auto
    then show ?thesis
      unfolding blst_scan_init_step [OF k True] r1(1)
      using bl_frame_trans [OF bl_frame_kid [OF r1(3) k] r(3)] bl_frame_kid_node [OF r1(3)] by auto
  next
    case False
    then have le: "cnt \<le> k * blst_radix h" by simp
    have nk: "k = nkids h cnt" using kid_at_nkids [OF Suc.prems(1) cnt(1) le] .
    have kl: "?kid < length root" using len blst_kid_nkids [of h n cnt] nk by simp
    define root' where "root' = root[?kid := (root ! ?kid)\<lparr>bm_bighint := BL_TERM\<rparr>]"
    have f: "bl_frame h ?kid root root'" unfolding root'_def by (rule bl_frame_put)
    have "bl_shape h (blst_kid h n k') (kid_cnt h cnt k') root'" if "k' < nkids h cnt" for k'
      using bl_shape_agree [OF frame_agree_kid [OF f, of k']] visited [of k'] that nk by simp
    moreover have "bm_bighint (root' ! ?kid) = BL_TERM" using kl by (simp add: root'_def)
    moreover have "blst_store ?kid (\<lambda>m. m\<lparr>bm_bighint := BL_TERM\<rparr>) (Some root) = Inr (Some root')"
      using kl by (simp add: blst_store_def bm_get_def bm_put_def root'_def)
    ultimately show ?thesis
      unfolding blst_scan_init_end [OF k le] using bl_frame_kid [OF f k] bl_frame_kid_node [OF f] Suc.prems(3) nk by (simp add: isize_def)
  qed
qed

lemma blst_radix_init_some:
  "0 < cnt \<Longrightarrow> cnt \<le> blst_radix h \<Longrightarrow> n + isize h cnt < length root \<Longrightarrow>
   \<exists>root'. blst_radix_init h n cnt (Some root) = Inr (isize h cnt, Some root') \<and> bl_shape h n cnt root' \<and> bl_frame h n root root' \<and>
     bmu (root' ! n) = 0"
proof (induction h arbitrary: n cnt root)
  case 0
  then have "n < length root" by simp
  then show ?case by (simp add: blst_store_def bm_get_def bm_put_def isize_def kern_defs bl_frame_put)
next
  case (Suc h)
  define root1 where "root1 = root[n := \<lparr>bmu = 0, bm_bighint = 0\<rparr>]"
  have n: "n < length root" using Suc.prems by simp
  have st: "blst_store n (\<lambda>m. \<lparr>bmu = 0, bm_bighint = 0\<rparr>) (Some root) = Inr (Some root1)"
    using n by (simp add: blst_store_def bm_get_def bm_put_def root1_def)
  have IH: "\<exists>root'. blst_radix_init h m c (Some root) = Inr (isize h c, Some root') \<and> bl_shape h m c root' \<and> bl_frame h m root root'"
    if "0 < c" "c \<le> blst_radix h" "m + isize h c < length root" for m c root
    using Suc.IH [OF that] by blast
  have len: "n + isize (Suc h) cnt < length root1" using Suc.prems by (simp add: root1_def)
  obtain mi' root' where r: "blst_scan_init (blst_radix_init h) (blst_radix h) (blst_skip h + 1) n 32 1 cnt 0 (Some root1) =
      Inr (isize (Suc h) cnt, mi', Some root')"
    "mi' \<le> isize (Suc h) cnt" "bl_frame (Suc h) n root1 root'" "root' ! n = root1 ! n"
    "\<forall>k'<nkids h cnt. bl_shape h (blst_kid h n k') (kid_cnt h cnt k') root'"
    "nkids h cnt < 32 \<longrightarrow> bm_bighint (root' ! blst_kid h n (nkids h cnt)) = BL_TERM"
    using blst_scan_init_some [where f = "blst_radix_init h" and k = 0 and mi = 0, OF IH Suc.prems(1,2) kid_at_0 _ _ len] by auto
  have fr: "bl_frame (Suc h) n root root'" using bl_frame_trans [OF _ r(3)] bl_frame_put by (simp add: root1_def)
  have n': "root' ! n = \<lparr>bmu = 0, bm_bighint = 0\<rparr>" "n < length root'" using r(4) n fr by (simp_all add: root1_def bl_frame_def)
  have len': "blst_kid h n (nkids h cnt) < length root'" using Suc.prems(3) fr blst_kid_nkids [of h n cnt] by (simp add: bl_frame_def)
  have "nkids h cnt = Suc k" if "k * blst_radix h < cnt" "cnt \<le> Suc k * blst_radix h" for k
    using that nkids_iff [of k h cnt] nkids_iff [of "Suc k" h cnt] by simp
  then have "blst_kid h n (Suc k) < length root' \<and> bm_bighint (root' ! blst_kid h n (Suc k)) = BL_TERM"
    if "Suc k < 32" "k * blst_radix h < cnt" "cnt \<le> Suc k * blst_radix h" for k
    using that len' r(6) by metis
  then have "bl_shape (Suc h) n cnt root'" using n' r(5) by (simp add: bl_shape.simps nkids_iff kern_defs)
  moreover have "blst_radix_init (Suc h) n cnt (Some root) = Inr (isize (Suc h) cnt, Some root')"
    using st r(1,2) by (simp add: BLIST_META_RADIX_def max_def)
  ultimately show ?case using fr n' by simp
qed

section \<open>The loop of blist_create\<close>

lemma blst_skip_less: "blst_skip h < 2 * 32 ^ h"
proof -
  have "blst_skip h + 2 \<le> 2 * 32 ^ h" by (induction h) (simp_all add: blst_skip_Suc)
  then show ?thesis by simp
qed

lemma blst_skip_word: "h \<le> 11 \<Longrightarrow> of_nat (blst_skip (Suc h)) \<noteq> (0 :: u64)"
proof -
  assume h: "h \<le> 11"
  have "(32 :: nat) ^ Suc h \<le> 32 ^ 12" using h by (intro power_increasing) auto
  then have "blst_skip (Suc h) < 2 ^ 64" using blst_skip_less [of "Suc h"] by simp
  moreover have "0 < blst_skip (Suc h)" by (simp add: blst_skip_Suc)
  ultimately show ?thesis using unat_of_nat_less [of "blst_skip (Suc h)", where 'a = 64] by auto
qed

lemma blist_radix_returns:
  "blocks \<le> 2 ^ 61 \<Longrightarrow> h \<le> 11 \<Longrightarrow>
   \<exists>h'. h \<le> h' \<and> h' \<le> 11 \<and> blocks \<le> blst_radix h' \<and> (\<forall>j. h \<le> j \<longrightarrow> j < h' \<longrightarrow> blst_radix j < blocks) \<and>
     blist_radix blocks (of_nat (blst_radix h)) (of_nat (blst_skip h)) h = Some (Inr (of_nat (blst_radix h'), of_nat (blst_skip h'), h'))"
proof (induction "11 - h" arbitrary: h)
  case 0
  then have "h = 11" by simp
  then have "blst_radix h = 2 ^ 61" by (simp add: blst_radix_def kern_defs)
  then show ?case using 0 \<open>h = 11\<close> by (subst blist_radix.simps) (auto simp: unat_of_nat_less)
next
  case (Suc d)
  have u: "unat (of_nat (blst_radix h) :: u64) = blst_radix h" using blst_radix_bound [OF Suc.prems(2)] by (simp add: unat_of_nat_less)
  show ?case
  proof (cases "blocks \<le> blst_radix h")
    case True
    then show ?thesis using Suc.prems u by (subst blist_radix.simps) auto
  next
    case False
    have "d = 11 - Suc h" "Suc h \<le> 11" using Suc.hyps(2) by auto
    from Suc.hyps(1) [OF this(1) Suc.prems(1) this(2)]
    obtain h' where h': "Suc h \<le> h'" "h' \<le> 11" "blocks \<le> blst_radix h'" "\<forall>j. Suc h \<le> j \<longrightarrow> j < h' \<longrightarrow> blst_radix j < blocks"
      "blist_radix blocks (of_nat (blst_radix (Suc h))) (of_nat (blst_skip (Suc h))) (Suc h) =
        Some (Inr (of_nat (blst_radix h'), of_nat (blst_skip h'), h'))" by blast
    have sk: "(of_nat (blst_skip h) + 1) * of_nat BLIST_META_RADIX = (of_nat (blst_skip (Suc h)) :: u64)"
      by (simp add: blst_skip_Suc kern_defs algebra_simps)
    have ra: "of_nat (blst_radix h) * of_nat BLIST_META_RADIX = (of_nat (blst_radix (Suc h)) :: u64)"
      by (simp add: blst_radix_Suc kern_defs)
    have "blist_radix blocks (of_nat (blst_radix h)) (of_nat (blst_skip h)) h =
        blist_radix blocks (of_nat (blst_radix (Suc h))) (of_nat (blst_skip (Suc h))) (Suc h)"
      using False u blst_skip_word [OF Suc.prems(2)] by (subst blist_radix.simps) (simp add: Let_def sk ra)
    moreover have "\<forall>j. h \<le> j \<longrightarrow> j < h' \<longrightarrow> blst_radix j < blocks" using h'(4) False by (metis Suc_leI le_neq_implies_less not_le)
    ultimately show ?thesis using h' by (metis Suc_leD)
  qed
qed

text \<open>For a larger size the radix overflows to 0 and stays there: the loop does not end, and \<^verbatim>\<open>KASSERT(skip > 0)\<close> never fails.\<close>

definition runaway :: "u64 \<Rightarrow> bool" where
  "runaway radix \<longleftrightarrow> radix = 0 \<or> (\<exists>h\<le>11. radix = of_nat (blst_radix h))"

lemma runaway_step: "runaway radix \<Longrightarrow> runaway (radix * of_nat BLIST_META_RADIX)"
proof -
  assume "runaway radix"
  then consider "radix = 0" | h where "Suc h \<le> 11" "radix = of_nat (blst_radix h)" | "radix = of_nat (blst_radix 11)"
    unfolding runaway_def by (metis Suc_leI le_neq_implies_less)
  then show ?thesis
  proof cases
    case 1
    then show ?thesis by (simp add: runaway_def)
  next
    case 2
    then have "radix * of_nat BLIST_META_RADIX = of_nat (blst_radix (Suc h))" by (simp add: blst_radix_Suc kern_defs)
    then show ?thesis using 2(1) unfolding runaway_def by blast
  next
    case 3
    have "of_nat (blst_radix 11) * of_nat BLIST_META_RADIX = (of_nat (2 ^ 66) :: u64)" by (simp add: blst_radix_def kern_defs)
    also have "\<dots> = 0" by (simp add: word_of_nat_eq_0_iff)
    finally show ?thesis using 3 by (simp add: runaway_def)
  qed
qed

lemma runaway_small: "runaway radix \<Longrightarrow> unat radix \<le> 2 ^ 61"
proof -
  assume "runaway radix"
  then consider "radix = 0" | h where "h \<le> 11" "radix = of_nat (blst_radix h)" unfolding runaway_def by blast
  then show ?thesis
  proof cases
    case 2
    then have "blst_radix h < 2 ^ 64" using blst_radix_bound [OF 2(1)] by simp
    then show ?thesis using 2 blst_radix_bound [OF 2(1)] unat_of_nat_less [of "blst_radix h", where 'a = 64] by simp
  qed simp
qed

lemma skip_odd: "even (unat skip) \<Longrightarrow> (skip + 1) * of_nat BLIST_META_RADIX \<noteq> (0 :: u64) \<and> even (unat ((skip + 1) * of_nat BLIST_META_RADIX))"
proof -
  assume ev: "even (unat skip)"
  then obtain t where t: "unat skip = 2 * t" by blast
  have "skip = of_nat (unat skip)" by simp
  then have s: "skip = of_nat (2 * t)" unfolding t .
  have e: "(skip + 1) * of_nat BLIST_META_RADIX = (of_nat (32 * (2 * t + 1)) :: u64)" by (simp add: s kern_defs algebra_simps)
  have "\<not> 2 ^ 64 dvd 32 * (2 * t + 1)"
  proof
    assume "2 ^ 64 dvd 32 * (2 * t + 1)"
    moreover have "(64 :: nat) dvd 2 ^ 64" by simp
    ultimately have "64 dvd 32 * (2 * t + 1)" by (rule dvd_trans [rotated])
    then show False by presburger
  qed
  then have "(of_nat (32 * (2 * t + 1)) :: u64) \<noteq> 0" unfolding word_of_nat_eq_0_iff by simp
  moreover have "even (unat (of_nat (32 * (2 * t + 1)) :: u64))" unfolding unat_of_nat by (subst dvd_mod_iff) simp_all
  ultimately show ?thesis unfolding e by blast
qed

lemma blist_radix_diverges:
  assumes "2 ^ 61 < blocks" shows "runaway radix \<Longrightarrow> even (unat skip) \<Longrightarrow> blist_radix blocks radix skip h = None"
proof -
  have "runaway radix \<longrightarrow> even (unat skip) \<longrightarrow> 2 ^ 61 < blocks \<longrightarrow> False" if "blist_radix blocks radix skip h = Some y" for blocks y radix skip h
  proof (rule blist_radix.raw_induct [where P = "\<lambda>blocks radix skip h y. runaway radix \<longrightarrow> even (unat skip) \<longrightarrow> 2 ^ 61 < blocks \<longrightarrow> False", OF _ that])
    fix f :: "nat \<Rightarrow> u64 \<Rightarrow> u64 \<Rightarrow> nat \<Rightarrow> (bl_panic + u64 \<times> u64 \<times> nat) option" and blocks radix skip h y
    assume ih: "\<And>blocks radix skip h y. f blocks radix skip h = Some y \<Longrightarrow> runaway radix \<longrightarrow> even (unat skip) \<longrightarrow> 2 ^ 61 < blocks \<longrightarrow> False"
      and run: "(if unat radix < blocks
       then let skip = (skip + 1) * of_nat BLIST_META_RADIX
            in if skip = 0 then Some (Inl Bl_kassert) else f blocks (radix * of_nat BLIST_META_RADIX) skip (h + 1)
       else Some (Inr (radix, skip, h))) = Some y"
    show "runaway radix \<longrightarrow> even (unat skip) \<longrightarrow> 2 ^ 61 < blocks \<longrightarrow> False"
    proof (intro impI)
      assume a: "runaway radix" "even (unat skip)" "2 ^ 61 < blocks"
      then have "unat radix < blocks" using runaway_small by (meson le_less_trans)
      then have "f blocks (radix * of_nat BLIST_META_RADIX) ((skip + 1) * of_nat BLIST_META_RADIX) (h + 1) = Some y"
        using run skip_odd [OF a(2)] by (simp add: Let_def)
      from ih [OF this, rule_format, OF runaway_step [OF a(1)] conjunct2 [OF skip_odd [OF a(2)]] a(3)] show False .
    qed
  qed
  then have "blist_radix blocks radix skip h \<noteq> Some y" if "runaway radix" "even (unat skip)" for y
    using that assms by blast
  then show "runaway radix \<Longrightarrow> even (unat skip) \<Longrightarrow> blist_radix blocks radix skip h = None"
    by (cases "blist_radix blocks radix skip h") auto
qed

end
