(* ===== verification/Blist_Ops.thy ===== *)
theory Blist_Ops
  imports Blist_Alloc Blist_Free Blist_Create
begin

text \<open>
  The entry points of the blist as operations on the set of free blocks: what creation, allocation, freeing and reserving do, and that no panic,
  assertion or access outside the array happens when the callers keep to their part.
\<close>

section \<open>What a blist represents\<close>

definition blist_ok :: "blist \<Rightarrow> nat set \<Rightarrow> bool" where
  "blist_ok bl F \<longleftrightarrow>
     bl_height bl \<le> 11 \<and> 0 < bl_blocks bl \<and> bl_blocks bl \<le> blst_radix (bl_height bl) \<and>
     bl_shape (bl_height bl) 0 (bl_blocks bl) (bl_root bl) \<and> bl_rep (bl_height bl) 0 (bl_blocks bl) F (bl_root bl) \<and>
     bl_free bl = of_nat (card F)"

lemma blist_ok_subset: "blist_ok bl F \<Longrightarrow> F \<subseteq> {..<bl_blocks bl}"
  unfolding blist_ok_def using bl_rep_subset by blast

lemma blist_ok_finite: "blist_ok bl F \<Longrightarrow> finite F"
  using blist_ok_subset finite_subset by blast

lemma blist_ok_card: "blist_ok bl F \<Longrightarrow> card F \<le> bl_blocks bl"
  using card_mono [OF _ blist_ok_subset] by fastforce

lemma blist_ok_blocks: "blist_ok bl F \<Longrightarrow> bl_blocks bl \<le> 2 ^ 61"
  unfolding blist_ok_def using blst_radix_bound order_trans by blast

text \<open>The counter of the free blocks after an operation.\<close>

lemma blist_free_count:
  assumes "blist_ok bl F" "G \<subseteq> {..<bl_blocks bl}"
  shows "unat (of_nat (card G) :: u64) \<le> bl_blocks bl"
proof -
  have "card G \<le> bl_blocks bl" using card_mono [OF _ assms(2)] by simp
  then show ?thesis using blist_ok_blocks [OF assms(1)] by (simp add: unat_of_nat_less)
qed

section \<open>Creation\<close>

lemma blist_create_ok:
  assumes "0 < blocks" "blocks \<le> 2 ^ 61"
  shows "\<exists>bl. blist_create junk blocks = Some (Inr bl) \<and> blist_ok bl {} \<and> bl_blocks bl = blocks \<and> (\<forall>j<bl_height bl. blst_radix j < blocks)"
proof -
  obtain h where h: "h \<le> 11" "blocks \<le> blst_radix h" "\<forall>j<h. blst_radix j < blocks"
    "blist_radix blocks (of_nat BLIST_BMAP_RADIX) 0 0 = Some (Inr (of_nat (blst_radix h), of_nat (blst_skip h), h))"
    using blist_radix_returns [OF assms(2), of 0] by (auto simp: kern_defs)
  define root where "root = map junk [0..<Suc (isize h blocks)]"
  obtain root' where r: "blst_radix_init h 0 blocks (Some root) = Inr (isize h blocks, Some root')" "bl_shape h 0 blocks root'" "bmu (root' ! 0) = 0"
    using blst_radix_init_some [OF assms(1) h(2), of 0 root] by (auto simp: root_def)
  define bl where "bl = \<lparr>bl_blocks = blocks, bl_height = h, bl_free = 0, bl_root = root'\<rparr>"
  have "blist_create junk blocks = Some (Inr bl)"
    using assms h r(1) blst_radix_init_null [OF assms(1) h(2), of 0]
    by (simp add: blist_create_def root_def [symmetric] bl_def del: upt_Suc)
  moreover have "blist_ok bl {}"
    using h assms r all_allocated_rep [of root' 0 h blocks] by (simp add: blist_ok_def bl_def)
  ultimately show ?thesis using h(3) by (auto simp: bl_def)
qed

lemma blist_create_large:
  assumes "2 ^ 61 < blocks" shows "blist_create junk blocks = None"
proof -
  have "runaway (of_nat BLIST_BMAP_RADIX)" unfolding runaway_def by (intro disjI2 exI [of _ 0]) (simp add: kern_defs)
  then have "blist_radix blocks (of_nat BLIST_BMAP_RADIX) 0 0 = None" using assms by (intro blist_radix_diverges) auto
  then show ?thesis using assms by (simp add: blist_create_def)
qed

section \<open>Allocation\<close>

definition blist_alloc_post :: "blist \<Rightarrow> nat set \<Rightarrow> nat \<Rightarrow> nat \<Rightarrow> nat option \<Rightarrow> blist \<Rightarrow> bool" where
  "blist_alloc_post bl F c blkat r bl' \<longleftrightarrow> bl_blocks bl' = bl_blocks bl \<and>
     (case r of
        None \<Rightarrow> (\<forall>b. fits F c b \<longrightarrow> b div 64 < blkat div 64) \<and> blist_ok bl' F
      | Some b \<Rightarrow> fits F c b \<and> blkat div 64 \<le> b div 64 \<and> (\<forall>b'<b. fits F c b' \<longrightarrow> b' div 64 < blkat div 64) \<and>
          blist_ok bl' (F - {b..<b + c}))"

lemma blist_alloc_any:
  assumes ok: "blist_ok bl F" and c: "1 \<le> c" "c \<le> 64" and at: "blkat < bl_blocks bl"
  defines "step \<equiv> (\<lambda>(r, root). case r of
            None \<Rightarrow> Inr (None, bl\<lparr>bl_root := root\<rparr>)
          | Some blk \<Rightarrow>
              (let bl = bl\<lparr>bl_root := root, bl_free := bl_free bl - of_nat c\<rparr>
               in if blk < bl_blocks bl \<and> unat (bl_free bl) \<le> bl_blocks bl then Inr (Some blk, bl) else Inl Bl_debug))"
  shows "\<exists>r bl'. ebind (blst_meta_alloc (bl_height bl) blkat c 0 0 (bl_root bl)) step = Inr (r, bl') \<and> blist_alloc_post bl F c blkat r bl'"
proof -
  have o: "bl_height bl \<le> 11" "0 < bl_blocks bl" "bl_blocks bl \<le> blst_radix (bl_height bl)"
    "bl_shape (bl_height bl) 0 (bl_blocks bl) (bl_root bl)" "bl_rep (bl_height bl) 0 (bl_blocks bl) F (bl_root bl)" "bl_free bl = of_nat (card F)"
    using ok by (auto simp: blist_ok_def)
  have "blkat < 0 + blst_radix (bl_height bl)" using at o(3) by simp
  then obtain r root' where r: "blst_meta_alloc (bl_height bl) blkat c 0 0 (bl_root bl) = Inr (r, root')"
    "alloc_post (bl_height bl) blkat c 0 0 (bl_blocks bl) F (bl_root bl) r root'"
    using blst_meta_alloc_ok [OF c o(1) _ _ o(2-5), of 0 blkat] by auto
  show ?thesis
  proof (cases r)
    case None
    then have "(\<forall>b. fits F c b \<longrightarrow> b div 64 < blkat div 64) \<and> blist_ok (bl\<lparr>bl_root := root'\<rparr>) F"
      using r(2) o by (auto simp: alloc_post_def alloc_cand_def blist_ok_def not_le)
    then show ?thesis using r(1) None by (simp add: step_def blist_alloc_post_def)
  next
    case (Some b)
    define bl' where "bl' = bl\<lparr>bl_root := root', bl_free := bl_free bl - of_nat c\<rparr>"
    have p: "fits F c b" "blkat div 64 \<le> b div 64" "\<forall>b'<b. fits F c b' \<longrightarrow> b' div 64 < blkat div 64"
      "bl_shape (bl_height bl) 0 (bl_blocks bl) root'" "bl_rep (bl_height bl) 0 (bl_blocks bl) (F - {b..<b + c}) root'"
      using r(2) Some by (auto simp: alloc_post_def alloc_cand_def not_le)
    have free: "bl_free bl' = of_nat (card (F - {b..<b + c}))"
      using p(1) card_diff_run [OF blist_ok_finite [OF ok], of b c] o(6) by (simp add: bl'_def fits_def)
    have "F - {b..<b + c} \<subseteq> {..<bl_blocks bl}" using blist_ok_subset [OF ok] by blast
    then have "unat (bl_free bl') \<le> bl_blocks bl" unfolding free by (rule blist_free_count [OF ok])
    moreover have "b < bl_blocks bl" using fits_first [OF p(1) c(1)] blist_ok_subset [OF ok] by auto
    ultimately have "ebind (blst_meta_alloc (bl_height bl) blkat c 0 0 (bl_root bl)) step = Inr (Some b, bl')"
      using r(1) Some by (simp add: step_def bl'_def Let_def)
    moreover have "blist_ok bl' (F - {b..<b + c})" using p o free by (simp add: blist_ok_def bl'_def)
    ultimately show ?thesis using p Some by (auto simp: blist_alloc_post_def bl'_def)
  qed
qed

lemma blist_alloc_ok:
  assumes "blist_ok bl F" "1 \<le> c" "c \<le> 64"
  shows "\<exists>r bl'. blist_alloc bl c = Inr (r, bl') \<and> blist_alloc_post bl F c 0 r bl'"
  unfolding blist_alloc_def using blist_alloc_any [OF assms, of 0] assms(1) by (simp add: blist_ok_def)

lemma blist_allocat_ok:
  assumes "blist_ok bl F" "1 \<le> c" "c \<le> 64" "blkat + c \<le> bl_blocks bl"
  shows "\<exists>r bl'. blist_allocat bl c blkat = Inr (r, bl') \<and> blist_alloc_post bl F c blkat r bl'"
  unfolding blist_allocat_def using blist_alloc_any [OF assms(1-3), of blkat] assms by simp

section \<open>Freeing and reserving\<close>

lemma blist_free_ok:
  assumes ok: "blist_ok bl F" and c: "1 \<le> c" "b + c \<le> bl_blocks bl" and F: "F \<inter> {b..<b + c} = {}"
  shows "\<exists>bl'. blist_free bl b c = Inr bl' \<and> blist_ok bl' (F \<union> {b..<b + c}) \<and> bl_blocks bl' = bl_blocks bl"
proof -
  have o: "bl_height bl \<le> 11" "0 < bl_blocks bl" "bl_blocks bl \<le> blst_radix (bl_height bl)"
    "bl_shape (bl_height bl) 0 (bl_blocks bl) (bl_root bl)" "bl_rep (bl_height bl) 0 (bl_blocks bl) F (bl_root bl)" "bl_free bl = of_nat (card F)"
    using ok by (auto simp: blist_ok_def)
  obtain root' where r: "blst_meta_free (bl_height bl) 0 b c 0 (bl_root bl) = Inr root'"
    "free_post (bl_height bl) 0 (bl_blocks bl) (F \<union> {b..<b + c}) (bl_root bl) root'"
    using blst_meta_free_ok [OF o(1) _ o(2-5) c F, of 0] by auto
  define bl' where "bl' = bl\<lparr>bl_root := root', bl_free := bl_free bl + of_nat c\<rparr>"
  have free: "bl_free bl' = of_nat (card (F \<union> {b..<b + c}))"
    using card_union_run [OF blist_ok_finite [OF ok] F] o(6) by (simp add: bl'_def)
  have "F \<union> {b..<b + c} \<subseteq> {..<bl_blocks bl}" using blist_ok_subset [OF ok] c by auto
  then have "unat (bl_free bl') \<le> bl_blocks bl" unfolding free by (rule blist_free_count [OF ok])
  then have "blist_free bl b c = Inr bl'" using r(1) c by (simp add: blist_free_def bl'_def Let_def)
  moreover have "blist_ok bl' (F \<union> {b..<b + c})" using r(2) o free by (simp add: blist_ok_def free_post_def bl'_def)
  ultimately show ?thesis by (simp add: bl'_def)
qed

definition blist_fill_post :: "blist \<Rightarrow> nat set \<Rightarrow> nat \<Rightarrow> nat \<Rightarrow> bl_panic + nat \<times> blist \<Rightarrow> bool" where
  "blist_fill_post bl F b c res \<longleftrightarrow>
     (case res of
        Inl e \<Rightarrow> e = Bl_too_large \<and> 64 < c
      | Inr (filled, bl') \<Rightarrow> filled = card (F \<inter> {b..<b + c}) \<and> blist_ok bl' (F - {b..<b + c}) \<and> bl_blocks bl' = bl_blocks bl)"

lemma blist_fill_ok:
  assumes ok: "blist_ok bl F" and c: "1 \<le> c" "b + c \<le> bl_blocks bl"
  shows "blist_fill_post bl F b c (blist_fill bl b c)"
proof -
  have o: "bl_height bl \<le> 11" "0 < bl_blocks bl" "bl_blocks bl \<le> blst_radix (bl_height bl)"
    "bl_shape (bl_height bl) 0 (bl_blocks bl) (bl_root bl)" "bl_rep (bl_height bl) 0 (bl_blocks bl) F (bl_root bl)" "bl_free bl = of_nat (card F)"
    using ok by (auto simp: blist_ok_def)
  define res where "res = blst_meta_fill (bl_height bl) 0 b c 0 (bl_root bl)"
  have post: "fill_post (bl_height bl) 0 (bl_blocks bl) F b c (bl_root bl) res"
    unfolding res_def using blst_meta_fill_ok [OF o(1) _ o(2-5) c, of 0] by simp
  show ?thesis
  proof (cases res)
    case (Inl e)
    then show ?thesis using post c unfolding res_def by (simp add: blist_fill_def blist_fill_post_def fill_post_def)
  next
    case (Inr x)
    obtain nb root' where x: "x = (nb, root')" by (cases x)
    define F' where "F' = F - {b..<b + c}"
    have p: "nb = card (F \<inter> {b..<b + c})" "bl_shape (bl_height bl) 0 (bl_blocks bl) root'" "bl_rep (bl_height bl) 0 (bl_blocks bl) F' root'"
      using post Inr x by (simp_all add: fill_post_def F'_def)
    define bl' where "bl' = bl\<lparr>bl_root := root', bl_free := bl_free bl - of_nat nb\<rparr>"
    have "card F = nb + card F'" unfolding F'_def p(1) using card_Int_Diff [OF blist_ok_finite [OF ok]] .
    then have free: "bl_free bl' = of_nat (card F')" using o(6) by (simp add: bl'_def)
    have "F' \<subseteq> {..<bl_blocks bl}" using blist_ok_subset [OF ok] by (auto simp: F'_def)
    then have "unat (bl_free bl') \<le> bl_blocks bl" unfolding free by (rule blist_free_count [OF ok])
    then have "blist_fill bl b c = Inr (nb, bl')" using Inr x c unfolding res_def by (simp add: blist_fill_def bl'_def Let_def)
    moreover have "blist_ok bl' F'" using p o free by (simp add: blist_ok_def bl'_def)
    ultimately show ?thesis using p(1) by (simp add: blist_fill_post_def bl'_def F'_def)
  qed
qed

section \<open>The interface of a block allocator\<close>

text \<open>
  What the swap code relies on: an allocator stands for a set of free blocks, gives out runs of them, takes runs back and never fails
  while it is used in this way. A request for one block is only refused when no block is free.
\<close>

locale block_pool =
  fixes pool_ok :: "'p \<Rightarrow> nat set \<Rightarrow> bool"
    and blocks :: "'p \<Rightarrow> nat"
    and alloc :: "'p \<Rightarrow> nat \<Rightarrow> 'e + nat option \<times> 'p"
    and release :: "'p \<Rightarrow> nat \<Rightarrow> nat \<Rightarrow> 'e + 'p"
    and largest :: nat
  assumes inside: "pool_ok p F \<Longrightarrow> F \<subseteq> {..<blocks p}"
    and largest_pos: "1 \<le> largest"
    and alloc_law: "pool_ok p F \<Longrightarrow> 1 \<le> c \<Longrightarrow> c \<le> largest \<Longrightarrow>
      \<exists>r p'. alloc p c = Inr (r, p') \<and> blocks p' = blocks p \<and>
        (case r of None \<Rightarrow> pool_ok p' F \<and> (c = 1 \<longrightarrow> F = {}) | Some b \<Rightarrow> {b..<b + c} \<subseteq> F \<and> pool_ok p' (F - {b..<b + c}))"
    and release_law: "pool_ok p F \<Longrightarrow> 1 \<le> c \<Longrightarrow> b + c \<le> blocks p \<Longrightarrow> F \<inter> {b..<b + c} = {} \<Longrightarrow>
      \<exists>p'. release p b c = Inr p' \<and> blocks p' = blocks p \<and> pool_ok p' (F \<union> {b..<b + c})"
begin

lemma pool_finite: "pool_ok p F \<Longrightarrow> finite F"
  using inside finite_subset by blast

lemma alloc_some:
  assumes "pool_ok p F" "1 \<le> c" "c \<le> largest" "alloc p c = Inr (Some b, p')"
  shows "{b..<b + c} \<subseteq> F \<and> b + c \<le> blocks p \<and> blocks p' = blocks p \<and> pool_ok p' (F - {b..<b + c})"
proof -
  have a: "{b..<b + c} \<subseteq> F" "blocks p' = blocks p" "pool_ok p' (F - {b..<b + c})" using alloc_law [OF assms(1-3)] assms(4) by auto
  then have "b + c - 1 \<in> {..<blocks p}" using inside [OF assms(1)] assms(2) by (auto simp: subset_iff)
  then show ?thesis using a assms(2) by auto
qed

lemma alloc_none:
  assumes "pool_ok p F" "1 \<le> c" "c \<le> largest" "alloc p c = Inr (None, p')"
  shows "blocks p' = blocks p \<and> pool_ok p' F \<and> (c = 1 \<longrightarrow> F = {})"
  using alloc_law [OF assms(1-3)] assms(4) by auto

lemma alloc_cases:
  assumes "pool_ok p F" "1 \<le> c" "c \<le> largest"
  obtains (refused) p' where "alloc p c = Inr (None, p')" | (granted) b p' where "alloc p c = Inr (Some b, p')"
proof -
  obtain r p' where "alloc p c = Inr (r, p')" using alloc_law [OF assms] by blast
  then show ?thesis using refused granted by (cases r) auto
qed

text \<open>What was allocated can be given back, and the pool is then as before.\<close>

lemma alloc_release:
  assumes "pool_ok p F" "1 \<le> c" "c \<le> largest" "alloc p c = Inr (Some b, p')"
  shows "\<exists>p''. release p' b c = Inr p'' \<and> pool_ok p'' F"
proof -
  note a = alloc_some [OF assms]
  have "(F - {b..<b + c}) \<inter> {b..<b + c} = {}" by blast
  then obtain p'' where "release p' b c = Inr p''" "pool_ok p'' (F - {b..<b + c} \<union> {b..<b + c})"
    using release_law [of p' "F - {b..<b + c}" c b] a assms(2) by auto
  then show ?thesis using a by (simp add: Un_absorb2)
qed

text \<open>Requests for single blocks are met until all free blocks are given out.\<close>

lemma alloc_single:
  assumes "pool_ok p F" "F \<noteq> {}"
  shows "\<exists>b p'. alloc p 1 = Inr (Some b, p') \<and> b \<in> F \<and> pool_ok p' (F - {b})"
  using assms(1) order_refl largest_pos
proof (cases rule: alloc_cases)
  case (refused p')
  then show ?thesis using alloc_none [OF assms(1) _ largest_pos refused] assms(2) by simp
next
  case (granted b p')
  have "{b..<b + 1} = {b}" by auto
  then show ?thesis using alloc_some [OF assms(1) _ largest_pos granted] granted by auto
qed

end

lemma fits_single: "fits F 1 b \<longleftrightarrow> b \<in> F"
proof -
  have "b mod 64 + 1 \<le> 64" using mod_less_divisor [of 64 b] by linarith
  moreover have "{b..<b + 1} = {b}" by auto
  ultimately show ?thesis by (simp add: fits_def)
qed

interpretation bl: block_pool blist_ok bl_blocks blist_alloc blist_free 64
proof
  fix p F c assume a: "blist_ok p F" "1 \<le> c" "c \<le> (64 :: nat)"
  obtain r p' where r: "blist_alloc p c = Inr (r, p')" "blist_alloc_post p F c 0 r p'" using blist_alloc_ok [OF a] by blast
  have "(case r of None \<Rightarrow> blist_ok p' F \<and> (c = 1 \<longrightarrow> F = {}) | Some b \<Rightarrow> {b..<b + c} \<subseteq> F \<and> blist_ok p' (F - {b..<b + c}))"
  proof (cases r)
    case None
    then have "\<not> fits F c b" for b using r(2) by (auto simp: blist_alloc_post_def)
    moreover have "blist_ok p' F" using r(2) None by (simp add: blist_alloc_post_def)
    ultimately show ?thesis using None fits_single by auto
  next
    case (Some b)
    then show ?thesis using r(2) by (simp add: blist_alloc_post_def fits_def)
  qed
  then show "\<exists>r p'. blist_alloc p c = Inr (r, p') \<and> bl_blocks p' = bl_blocks p \<and>
      (case r of None \<Rightarrow> blist_ok p' F \<and> (c = 1 \<longrightarrow> F = {}) | Some b \<Rightarrow> {b..<b + c} \<subseteq> F \<and> blist_ok p' (F - {b..<b + c}))"
    using r by (auto simp: blist_alloc_post_def)
next
  fix p F c b assume "blist_ok p F" "1 \<le> c" "b + c \<le> bl_blocks p" "F \<inter> {b..<b + c} = {}"
  then show "\<exists>p'. blist_free p b c = Inr p' \<and> bl_blocks p' = bl_blocks p \<and> blist_ok p' (F \<union> {b..<b + c})" using blist_free_ok by blast
qed (auto dest: blist_ok_subset)

section \<open>Properties\<close>

text \<open>A list of 100 blocks, all free but the first, as \<^verbatim>\<open>swap_on\<close> makes it for a disk of that size.\<close>

lemma blist_sample:
  "\<exists>bl0 bl. blist_create (\<lambda>_. \<lparr>bmu = 7, bm_bighint = BL_TERM\<rparr>) 100 = Some (Inr bl0) \<and> blist_free bl0 1 99 = Inr bl \<and>
     blist_ok bl {1..<100} \<and> bl_blocks bl = 100"
proof -
  obtain bl0 where b0: "blist_create (\<lambda>_. \<lparr>bmu = 7, bm_bighint = BL_TERM\<rparr>) 100 = Some (Inr bl0)" "blist_ok bl0 {}" "bl_blocks bl0 = 100"
    using blist_create_ok [of 100 "\<lambda>_. \<lparr>bmu = 7, bm_bighint = BL_TERM\<rparr>"] by auto
  obtain bl where "blist_free bl0 1 99 = Inr bl" "blist_ok bl ({} \<union> {1..<1 + 99})" "bl_blocks bl = 100"
    using blist_free_ok [OF b0(2), of 99 1] b0(3) by auto
  then show ?thesis using b0 by auto
qed

text \<open>C22: For every number of blocks up to \<^verbatim>\<open>BLIST_MAXBLKS\<close>, and whatever the uninitialised memory held, \<^verbatim>\<open>blist_create\<close> returns a well-formed list with
  no free block, writing only inside the array whose size it computed; for 0 blocks the assertion fails, and for more than \<^verbatim>\<open>BLIST_MAXBLKS\<close>
  it does not return, because \<^verbatim>\<open>radix\<close> overflows to 0 and the assertion in the loop never fails.\<close>

theorem blist_create_returns:
  "case blist_create junk blocks of
     None \<Rightarrow> BLIST_MAXBLKS < blocks
   | Some (Inl e) \<Rightarrow> blocks = 0 \<and> e = Bl_kassert
   | Some (Inr bl) \<Rightarrow> 0 < blocks \<and> blocks \<le> BLIST_MAXBLKS \<and> bl_blocks bl = blocks \<and> blist_ok bl {}"
proof -
  have max: "BLIST_MAXBLKS = 2 ^ 61" by (simp add: kern_defs)
  consider "blocks = 0" | "0 < blocks" "blocks \<le> 2 ^ 61" | "2 ^ 61 < blocks" by linarith
  then show ?thesis
  proof cases
    case 1
    then show ?thesis by (simp add: blist_create_def)
  next
    case 2
    then obtain bl where "blist_create junk blocks = Some (Inr bl)" "blist_ok bl {}" "bl_blocks bl = blocks" using blist_create_ok by blast
    then show ?thesis using 2 by (simp add: max)
  next
    case 3
    then show ?thesis using blist_create_large [OF 3] by (simp add: max)
  qed
qed

text \<open>C20: An allocation of 1 to 64 blocks returns the least block at which that many free blocks follow each other inside one leaf, and takes exactly
  these; it is refused only when there is no such place. The counter of free blocks stays exact and nothing panics.\<close>

theorem blist_alloc_least:
  assumes "blist_ok bl F" "1 \<le> c" "c \<le> 64"
  shows "\<exists>r bl'. blist_alloc bl c = Inr (r, bl') \<and> bl_blocks bl' = bl_blocks bl \<and>
    (case r of
       None \<Rightarrow> (\<forall>b. \<not> fits F c b) \<and> blist_ok bl' F
     | Some b \<Rightarrow> fits F c b \<and> (\<forall>b'<b. \<not> fits F c b') \<and> blist_ok bl' (F - {b..<b + c}))"
  using blist_alloc_ok [OF assms] by (auto simp: blist_alloc_post_def split: option.splits)

theorem blist_alloc_least_witness:
  "\<exists>bl0 bl bl'. blist_create (\<lambda>_. \<lparr>bmu = 7, bm_bighint = BL_TERM\<rparr>) 100 = Some (Inr bl0) \<and> blist_free bl0 1 99 = Inr bl \<and>
     blist_alloc bl 3 = Inr (Some 1, bl') \<and> blist_ok bl' ({1..<100} - {1..<1 + 3})"
proof -
  obtain bl0 bl where s: "blist_create (\<lambda>_. \<lparr>bmu = 7, bm_bighint = BL_TERM\<rparr>) 100 = Some (Inr bl0)" "blist_free bl0 1 99 = Inr bl"
    "blist_ok bl {1..<100}" using blist_sample by blast
  have c: "(1 :: nat) \<le> 3" "(3 :: nat) \<le> 64" by simp_all
  obtain r bl' where r: "blist_alloc bl 3 = Inr (r, bl')"
    "case r of None \<Rightarrow> (\<forall>b. \<not> fits {1..<100} 3 b) \<and> blist_ok bl' {1..<100}
     | Some b \<Rightarrow> fits {1..<100} 3 b \<and> (\<forall>b'<b. \<not> fits {1..<100} 3 b') \<and> blist_ok bl' ({1..<100} - {b..<b + 3})"
    using blist_alloc_least [OF s(3) c] by blast
  have one: "fits {1..<100} 3 1" "\<not> fits {1..<100} 3 0" by (auto simp: fits_def)
  then obtain b where b: "r = Some b" using r(2) by (cases r) auto
  then have b': "fits {1..<100} 3 b" "\<forall>b'<b. \<not> fits {1..<100} 3 b'" using r(2) by auto
  have "b \<noteq> 0" using b'(1) one(2) by metis
  moreover have "\<not> 1 < b" using b'(2) one(1) by blast
  ultimately have "b = 1" by simp
  then show ?thesis using s r b by auto
qed

text \<open>C21: Freeing any range of blocks of which none is free makes exactly these blocks free, wherever the range begins and ends; no
  panic or assertion fails. Freeing is not limited to a leaf.\<close>

theorem blist_free_adds:
  assumes "blist_ok bl F" "1 \<le> c" "b + c \<le> bl_blocks bl" "F \<inter> {b..<b + c} = {}"
  shows "\<exists>bl'. blist_free bl b c = Inr bl' \<and> bl_blocks bl' = bl_blocks bl \<and> blist_ok bl' (F \<union> {b..<b + c})"
  using blist_free_ok [OF assms] by blast

theorem blist_free_adds_witness:
  "\<exists>bl0 bl. blist_create (\<lambda>_. \<lparr>bmu = 7, bm_bighint = BL_TERM\<rparr>) 5000 = Some (Inr bl0) \<and> blist_free bl0 1 4999 = Inr bl \<and> blist_ok bl {1..<5000}"
proof -
  obtain bl0 where b0: "blist_create (\<lambda>_. \<lparr>bmu = 7, bm_bighint = BL_TERM\<rparr>) 5000 = Some (Inr bl0)" "blist_ok bl0 {}" "bl_blocks bl0 = 5000"
    using blist_create_ok [of 5000 "\<lambda>_. \<lparr>bmu = 7, bm_bighint = BL_TERM\<rparr>"] by auto
  have "(1 :: nat) \<le> 4999" "1 + 4999 \<le> bl_blocks bl0" "{} \<inter> {1..<1 + 4999} = ({} :: nat set)" using b0 by auto
  from blist_free_adds [OF b0(2) this] show ?thesis using b0 by auto
qed

text \<open>Reserving a range takes exactly its blocks out of the free ones and returns how many of them were free. The only failure is the panic about
  a range which is too large, and it cannot happen for up to 64 blocks.\<close>

theorem blist_fill_removes:
  assumes "blist_ok bl F" "1 \<le> c" "b + c \<le> bl_blocks bl"
  shows "case blist_fill bl b c of
      Inl e \<Rightarrow> e = Bl_too_large \<and> 64 < c
    | Inr (filled, bl') \<Rightarrow> filled = card (F \<inter> {b..<b + c}) \<and> blist_ok bl' (F - {b..<b + c}) \<and> bl_blocks bl' = bl_blocks bl"
  using blist_fill_ok [OF assms] unfolding blist_fill_post_def .

theorem blist_fill_removes_witness:
  "\<exists>bl0 bl bl'. blist_create (\<lambda>_. \<lparr>bmu = 7, bm_bighint = BL_TERM\<rparr>) 100 = Some (Inr bl0) \<and> blist_free bl0 1 99 = Inr bl \<and>
     blist_fill bl 0 2 = Inr (1, bl') \<and> blist_ok bl' ({1..<100} - {0..<0 + 2})"
proof -
  obtain bl0 bl where s: "blist_create (\<lambda>_. \<lparr>bmu = 7, bm_bighint = BL_TERM\<rparr>) 100 = Some (Inr bl0)" "blist_free bl0 1 99 = Inr bl"
    "blist_ok bl {1..<100}" "bl_blocks bl = 100" using blist_sample by blast
  have c: "(1 :: nat) \<le> 2" "0 + 2 \<le> bl_blocks bl" using s by simp_all
  have "{1..<100} \<inter> {0..<0 + 2} = {1 :: nat}" by auto
  then have "card ({1..<100} \<inter> {0..<0 + 2 :: nat}) = 1" by simp
  then show ?thesis using blist_fill_removes [OF s(3) c] s by (auto split: sum.splits prod.splits)
qed

text \<open>A list of 65 to 2048 blocks has one meta node.\<close>

lemma blist_create_meta:
  assumes "64 < blocks" "blocks \<le> 2048"
  shows "\<exists>bl. blist_create junk blocks = Some (Inr bl) \<and> blist_ok bl {} \<and> bl_blocks bl = blocks \<and> bl_height bl = 1"
proof -
  obtain bl where bl: "blist_create junk blocks = Some (Inr bl)" "blist_ok bl {}" "bl_blocks bl = blocks" "\<forall>j<bl_height bl. blst_radix j < blocks"
    using blist_create_ok [of blocks junk] assms by auto
  have "blst_radix 1 = 2048" by (simp add: blst_radix_def kern_defs)
  then have "\<not> 1 < bl_height bl" using bl(4) assms(2) by auto
  moreover have "bl_height bl \<noteq> 0" using bl(2,3) assms(1) unfolding blist_ok_def by (metis blst_radix_0 not_le)
  ultimately have "bl_height bl = 1" by linarith
  then show ?thesis using bl by blast
qed

lemma blist_free_height: "blist_free bl b c = Inr bl' \<Longrightarrow> bl_height bl' = bl_height bl"
  by (auto simp: blist_free_def ebind_def Let_def split: sum.splits if_splits)

lemma blist_free_unchecked:
  assumes ok: "blist_ok bl F" and h: "bl_height bl = Suc h" and F: "F \<noteq> {}" "card F + c = blst_radix (Suc h)" and b: "1 \<le> c" "b + c \<le> bl_blocks bl"
    and full: "bl_blocks bl = blst_radix (Suc h)"
  shows "\<exists>bl'. blist_free bl b c = Inr bl' \<and> blist_ok bl' {..<bl_blocks bl}"
proof -
  have o: "Suc h \<le> 11" "bl_shape (Suc h) 0 (bl_blocks bl) (bl_root bl)" "bl_rep (Suc h) 0 (bl_blocks bl) F (bl_root bl)" "bl_free bl = of_nat (card F)"
    using ok h by (auto simp: blist_ok_def)
  define m where "m = (bl_root bl ! 0)\<lparr>bmu := bmu (bl_root bl ! 0) + of_nat c\<rparr>"
  define m' where "m' = m\<lparr>bm_bighint := of_nat (blst_radix (Suc h))\<rparr>"
  define root where "root = bl_root bl"
  have len: "0 < length root" using bl_shape_node [OF o(2)] by (simp add: root_def)
  have nz: "bmu (bl_root bl ! 0) \<noteq> 0" using avail_0_iff [OF o(3) _ o(1)] full F by simp
  have bm: "bmu m = of_nat (blst_radix (Suc h))" using o(3) F(2) by (simp add: m_def bl_rep.simps flip: of_nat_add)
  have r: "blst_radix (Suc h) < 2 ^ 64 - 1" using blst_radix_bound [OF o(1)] by simp
  then have av: "bmu_avail m = blst_radix (Suc h)" using bm by (simp add: unat_of_nat_less)
  have run: "blst_meta_free (bl_height bl) 0 b c 0 (bl_root bl) = Inr (root[0 := m'])"
    using nz len av unfolding h root_def [symmetric]
    by (simp add: bm_get_def bm_put_def m_def [symmetric, folded root_def] m'_def)
  have hint: "bighint m' = blst_radix (Suc h)" using r by (simp add: m'_def unat_of_nat_less)
  then have "bm_bighint m' \<noteq> BL_TERM" using r by (auto simp: kern_defs unsigned_minus_1_eq_mask mask_eq_exp_minus_1)
  then have sh: "bl_shape (Suc h) 0 (bl_blocks bl) (root[0 := m'])" unfolding root_def by (rule bl_shape_put [OF o(2)])
  have rep: "bl_rep (Suc h) 0 (bl_blocks bl) {..<bl_blocks bl} (root[0 := m'])"
    using len hint hint_ok_64 [OF blst_radix_ge] bm full by (simp add: bl_rep.simps m'_def)
  have free: "bl_free bl + of_nat c = of_nat (blst_radix (Suc h))" using o(4) F(2) by (simp flip: of_nat_add)
  then have "unat (bl_free bl + of_nat c) = bl_blocks bl" using r full by (simp add: unat_of_nat_less)
  then have "blist_free bl b c = Inr (bl\<lparr>bl_root := root[0 := m'], bl_free := bl_free bl + of_nat c\<rparr>)"
    using run b by (simp add: blist_free_def Let_def)
  moreover have "blist_ok (bl\<lparr>bl_root := root[0 := m'], bl_free := bl_free bl + of_nat c\<rparr>) {..<bl_blocks bl}"
    using sh rep free full ok h by (simp add: blist_ok_def)
  ultimately show ?thesis by blast
qed

lemma blist_fill_refused:
  assumes ok: "blist_ok bl F" and h: "bl_height bl = Suc h" and F: "F \<noteq> {}" and b: "b + c \<le> bl_blocks bl"
    and c: "blst_radix h < c" "c < blst_radix (Suc h)"
  shows "blist_fill bl b c = Inl Bl_too_large"
proof -
  have o: "Suc h \<le> 11" "bl_blocks bl \<le> blst_radix (Suc h)" "bl_shape (Suc h) 0 (bl_blocks bl) (bl_root bl)"
    "bl_rep (Suc h) 0 (bl_blocks bl) F (bl_root bl)"
    using ok h by (auto simp: blist_ok_def)
  obtain root1 where "(if bmu_avail (bl_root bl ! 0) = blst_radix (Suc h) then blst_set_subs (blst_all_free h) (blst_kids h 0 0) (bl_root bl)
      else Inr (bl_root bl)) = Inr root1"
    using fill_open [OF o(3,4,2,1) F] by blast
  then have "blst_meta_fill (bl_height bl) 0 b c 0 (bl_root bl) = Inl Bl_too_large"
    using avail_0_iff [OF o(4,2,1)] F c bm_get_shape [OF o(3)] unfolding h by simp
  then show ?thesis using b c by (auto simp: blist_fill_def)
qed

text \<open>C38: Two defects. A range of which some blocks are already free is accepted when the count of free blocks of a subtree thereby reaches its
  size: here 2000 of 2048 blocks are free, 48 of them are freed again, and the 48 blocks which are in use become free, although the comment
  of \<^verbatim>\<open>blist_free\<close> promises a panic. And reserving 100 blocks of a list of 200 panics, although the comment at the top says that only allocation
  is limited in size.\<close>

theorem blist_inconsistency_missed:
  "(\<exists>bl0 bl bl'. blist_create junk 2048 = Some (Inr bl0) \<and> blist_free bl0 0 2000 = Inr bl \<and> blist_ok bl {..<2000} \<and>
     blist_free bl 0 48 = Inr bl' \<and> blist_ok bl' {..<2048}) \<and>
   (\<exists>bl0 bl. blist_create junk 200 = Some (Inr bl0) \<and> blist_free bl0 0 200 = Inr bl \<and> blist_ok bl {..<200} \<and>
     blist_fill bl 0 100 = Inl Bl_too_large)"
proof
  have r: "blst_radix 0 = 64" "blst_radix (Suc 0) = 2048" by (simp_all add: blst_radix_Suc)
  obtain bl0 where b0: "blist_create junk 2048 = Some (Inr bl0)" "blist_ok bl0 {}" "bl_blocks bl0 = 2048" "bl_height bl0 = 1"
    using blist_create_meta [of 2048 junk] by auto
  obtain bl where bl: "blist_free bl0 0 2000 = Inr bl" "blist_ok bl {..<2000}" "bl_blocks bl = 2048"
    using blist_free_ok [OF b0(2), of 2000 0] b0(3) by (auto simp: lessThan_atLeast0)
  have "bl_height bl = Suc 0" using blist_free_height [OF bl(1)] b0(4) by simp
  from blist_free_unchecked [OF bl(2) this, of 48 0]
  obtain bl' where "blist_free bl 0 48 = Inr bl'" "blist_ok bl' {..<2048}" using bl(3) r by (auto simp: lessThan_empty_iff)
  then show "\<exists>bl0 bl bl'. blist_create junk 2048 = Some (Inr bl0) \<and> blist_free bl0 0 2000 = Inr bl \<and> blist_ok bl {..<2000} \<and>
     blist_free bl 0 48 = Inr bl' \<and> blist_ok bl' {..<2048}" using b0(1) bl by blast
next
  have r: "blst_radix 0 = 64" "blst_radix (Suc 0) = 2048" by (simp_all add: blst_radix_Suc)
  obtain bl0 where b0: "blist_create junk 200 = Some (Inr bl0)" "blist_ok bl0 {}" "bl_blocks bl0 = 200" "bl_height bl0 = 1"
    using blist_create_meta [of 200 junk] by auto
  obtain bl where bl: "blist_free bl0 0 200 = Inr bl" "blist_ok bl {..<200}" "bl_blocks bl = 200"
    using blist_free_ok [OF b0(2), of 200 0] b0(3) by (auto simp: lessThan_atLeast0)
  have "bl_height bl = Suc 0" using blist_free_height [OF bl(1)] b0(4) by simp
  from blist_fill_refused [OF bl(2) this, of 0 100] have "blist_fill bl 0 100 = Inl Bl_too_large" using bl(3) r by (auto simp: lessThan_empty_iff)
  then show "\<exists>bl0 bl. blist_create junk 200 = Some (Inr bl0) \<and> blist_free bl0 0 200 = Inr bl \<and> blist_ok bl {..<200} \<and>
     blist_fill bl 0 100 = Inl Bl_too_large" using b0(1) bl by blast
qed

end
