(* ===== verification/Blist_Copy.thy ===== *)
theory Blist_Copy
  imports Blist_Ops
begin

text \<open>
  Resizing a blist: \<^verbatim>\<open>blst_copy\<close> frees in the new list exactly the blocks which are free in the old one and below the limit, so that
  \<^verbatim>\<open>blist_resize\<close> keeps the free blocks that remain and adds the new space when it is asked to.
\<close>

section \<open>Copying\<close>

text \<open>The blocks that a node at block \<open>blk\<close> with the free set \<open>F\<close> contributes.\<close>

definition bl_copied :: "nat \<Rightarrow> nat set \<Rightarrow> nat \<Rightarrow> nat set" where
  "bl_copied blk F count = {blk + j | j. j \<in> F \<and> j < count}"

definition copy_post :: "blist \<Rightarrow> nat set \<Rightarrow> bl_panic + blist \<Rightarrow> bool" where
  "copy_post dest D res \<longleftrightarrow> (\<exists>dest'. res = Inr dest' \<and> blist_ok dest' D \<and> bl_blocks dest' = bl_blocks dest)"

lemma copy_postI: "res = Inr dest' \<Longrightarrow> blist_ok dest' D \<Longrightarrow> bl_blocks dest' = bl_blocks dest \<Longrightarrow> copy_post dest D res"
  by (simp add: copy_post_def)

lemma copy_post_bind:
  assumes "copy_post dest D res" and "\<And>dest'. blist_ok dest' D \<Longrightarrow> bl_blocks dest' = bl_blocks dest \<Longrightarrow> copy_post dest' D' (f dest')"
  shows "copy_post dest D' (ebind res f)"
proof -
  obtain dest' where d: "res = Inr dest'" "blist_ok dest' D" "bl_blocks dest' = bl_blocks dest" using assms(1) by (auto simp: copy_post_def)
  then show ?thesis using assms(2) [OF d(2,3)] by (auto simp: copy_post_def)
qed

lemma copy_free:
  assumes "blist_ok dest D" "1 \<le> c" "b + c \<le> bl_blocks dest" "D \<inter> {b..<b + c} = {}"
  shows "copy_post dest (D \<union> {b..<b + c}) (blist_free dest b c)"
  using blist_free_ok [OF assms] by (auto simp: copy_post_def)

lemma bl_copied_full: "{..<count} \<subseteq> F \<Longrightarrow> bl_copied blk F count = {blk..<blk + count}"
proof (intro set_eqI iffI)
  fix x assume F: "{..<count} \<subseteq> F" and x: "x \<in> {blk..<blk + count}"
  then have "x = blk + (x - blk)" "x - blk \<in> F" "x - blk < count" by auto
  then show "x \<in> bl_copied blk F count" unfolding bl_copied_def by blast
qed (auto simp: bl_copied_def)

lemma bit_and_push: "i < 64 \<Longrightarrow> (v AND push_bit i 1 \<noteq> 0) = bit (v :: u64) i"
proof -
  assume "i < 64"
  then have "bset (v AND push_bit i 1) = bset v \<inter> {i}" using bset_push_1 by (simp only: bset_and)
  moreover have "(bset v \<inter> {i} = {}) = (\<not> bit v i)" by auto
  ultimately show ?thesis by (metis bset_empty_iff)
qed

lemma blst_leaf_copy_ok:
  "m \<le> 64 \<Longrightarrow> blist_ok dest D \<Longrightarrow> blk + m \<le> bl_blocks dest \<Longrightarrow> D \<inter> {blk + j | j. bit v j \<and> i \<le> j \<and> j < m} = {} \<Longrightarrow>
   copy_post dest (D \<union> {blk + j | j. bit v j \<and> i \<le> j \<and> j < m}) (blst_leaf_copy [i..<m] blk v dest)"
proof (induction "m - i" arbitrary: i dest D)
  case 0
  then have none: "{blk + j | j. bit v j \<and> i \<le> j \<and> j < m} = {}" by auto
  show ?case unfolding none using 0 by (simp add: copy_post_def)
next
  case (Suc d)
  then have i: "i < m" by simp
  let ?N = "{blk + j | j. bit v j \<and> Suc i \<le> j \<and> j < m}"
  define D1 where "D1 = (if bit v i then D \<union> {blk + i} else D)"
  have split: "D \<union> {blk + j | j. bit v j \<and> i \<le> j \<and> j < m} = D1 \<union> ?N"
    using i unfolding D1_def by (auto simp: le_less Suc_le_eq)
  have dis: "D1 \<inter> ?N = {}" using Suc.prems(4) by (auto simp: D1_def)
  have step: "copy_post dest D1 (if v AND push_bit i 1 \<noteq> 0 then blist_free dest (blk + i) 1 else Inr dest)"
  proof (cases "bit v i")
    case True
    then have "D \<inter> {blk + i..<blk + i + 1} = {}" using Suc.prems(4) i by auto
    then have "copy_post dest (D \<union> {blk + i..<blk + i + 1}) (blist_free dest (blk + i) 1)"
      using Suc.prems i by (intro copy_free) auto
    then show ?thesis using True i Suc.prems(1) bit_and_push [of i v] by (simp add: D1_def)
  next
    case False
    then have "v AND push_bit i 1 = 0" using bit_and_push [of i v] i Suc.prems(1) by simp
    then show ?thesis using False Suc.prems by (simp add: D1_def copy_post_def)
  qed
  have list: "[i..<m] = i # [Suc i..<m]" using i by (simp add: upt_conv_Cons)
  show ?case
    unfolding list blst_leaf_copy.simps split
  proof (rule copy_post_bind [OF step])
    fix dest' assume d: "blist_ok dest' D1" "bl_blocks dest' = bl_blocks dest"
    have "d = m - Suc i" using Suc.hyps(2) by simp
    from Suc.hyps(1) [OF this Suc.prems(1) d(1) _ dis] show "copy_post dest' (D1 \<union> ?N) (blst_leaf_copy [Suc i..<m] blk v dest')"
      using Suc.prems d by simp
  qed
qed

lemma bl_copied_kid_split:
  assumes "k * blst_radix h < count"
  shows "{blk + j | j. j \<in> F \<and> k * blst_radix h \<le> j \<and> j < count} =
    bl_copied (blk + k * blst_radix h) (kid_set h F k) (min (blst_radix h) (count - k * blst_radix h)) \<union>
    {blk + j | j. j \<in> F \<and> Suc k * blst_radix h \<le> j \<and> j < count}" (is "?L = ?K \<union> ?R")
proof (intro set_eqI iffI)
  fix x assume "x \<in> ?L"
  then obtain j where j: "x = blk + j" "j \<in> F" "k * blst_radix h \<le> j" "j < count" by blast
  show "x \<in> ?K \<union> ?R"
  proof (cases "Suc k * blst_radix h \<le> j")
    case True
    then show ?thesis using j by blast
  next
    case False
    then have "x = blk + k * blst_radix h + (j - k * blst_radix h)" "j - k * blst_radix h \<in> kid_set h F k"
      "j - k * blst_radix h < min (blst_radix h) (count - k * blst_radix h)"
      using j by (auto simp: kid_set_def)
    then show ?thesis unfolding bl_copied_def by blast
  qed
next
  fix x assume "x \<in> ?K \<union> ?R"
  then show "x \<in> ?L"
  proof
    assume "x \<in> ?K"
    then obtain j where j: "x = blk + k * blst_radix h + j" "k * blst_radix h + j \<in> F" "j < count - k * blst_radix h"
      by (auto simp: bl_copied_def kid_set_def)
    then have "x = blk + (k * blst_radix h + j)" "k * blst_radix h + j < count" by auto
    then show ?thesis using j(2) by (intro CollectI exI [of _ "k * blst_radix h + j"]) simp
  next
    assume "x \<in> ?R"
    then show ?thesis by force
  qed
qed

lemma blst_scan_copy_ok:
  assumes IH: "\<And>m kc G blk count dest D. 1 \<le> count \<Longrightarrow> count \<le> kc \<Longrightarrow> kc \<le> blst_radix h \<Longrightarrow> bl_shape h m kc root \<Longrightarrow> bl_rep h m kc G root \<Longrightarrow>
      blist_ok dest D \<Longrightarrow> blk + count \<le> bl_blocks dest \<Longrightarrow> D \<inter> bl_copied blk G count = {} \<Longrightarrow>
      copy_post dest (D \<union> bl_copied blk G count) (f m blk count dest)"
    and cnt: "0 < cnt" "count \<le> cnt" "cnt \<le> blst_radix (Suc h)"
    and shape: "bl_shape (Suc h) n cnt root" and kids: "kids_rep h n cnt F root"
  shows "k \<le> 32 \<Longrightarrow> blist_ok dest D \<Longrightarrow> blk + count \<le> bl_blocks dest \<Longrightarrow>
    D \<inter> {blk + j | j. j \<in> F \<and> k * blst_radix h \<le> j \<and> j < count} = {} \<Longrightarrow>
    copy_post dest (D \<union> {blk + j | j. j \<in> F \<and> k * blst_radix h \<le> j \<and> j < count})
      (blst_scan_copy f (blst_radix h) root (blst_kids h n k) (blk + k * blst_radix h) (count - k * blst_radix h) dest)"
proof (induction "32 - k" arbitrary: k dest D)
  case 0
  then have "k = 32" by simp
  then have none: "{blk + j | j. j \<in> F \<and> k * blst_radix h \<le> j \<and> j < count} = {}" using cnt by (auto simp: blst_radix_Suc)
  show ?case unfolding none using 0 \<open>k = 32\<close> by (simp add: blst_kids_unfold copy_post_def)
next
  case (Suc d)
  then have k: "k < 32" by simp
  show ?case
  proof (cases "k * blst_radix h < count")
    case False
    then have none: "{blk + j | j. j \<in> F \<and> k * blst_radix h \<le> j \<and> j < count} = {}" by auto
    show ?thesis unfolding none using Suc.prems False k by (subst blst_kids_unfold) (simp add: copy_post_def)
  next
    case True
    define kb where "kb = blk + k * blst_radix h"
    define kc where "kc = min (blst_radix h) (count - k * blst_radix h)"
    let ?K = "bl_copied kb (kid_set h F k) kc" and ?R = "{blk + j | j. j \<in> F \<and> Suc k * blst_radix h \<le> j \<and> j < count}"
    have split: "{blk + j | j. j \<in> F \<and> k * blst_radix h \<le> j \<and> j < count} = ?K \<union> ?R"
      unfolding kb_def kc_def by (rule bl_copied_kid_split [OF True])
    have kcnt: "k * blst_radix h < cnt" using True cnt by simp
    note ksh = bl_shape_kid [OF shape k kcnt] and krep = kids_repD [OF kids k kcnt]
    have disK: "D \<inter> ?K = {}" and disR: "D \<inter> ?R = {}" using Suc.prems(4) unfolding split by auto
    have KR: "?K \<inter> ?R = {}" by (auto simp: bl_copied_def kb_def kc_def)
    have pk: "copy_post dest (D \<union> ?K) (f (blst_kid h n k) kb kc dest)"
    proof (rule IH [OF _ _ kid_cnt_le ksh krep Suc.prems(2) _ disK])
      show "1 \<le> kc" "kc \<le> kid_cnt h cnt k" using True cnt blst_radix_ge [of h] by (auto simp: kc_def kid_cnt_def)
      show "kb + kc \<le> bl_blocks dest" using Suc.prems(3) True by (simp add: kb_def kc_def)
    qed
    have e: "kb + blst_radix h = blk + Suc k * blst_radix h" by (simp add: kb_def)
    have code: "blst_scan_copy f (blst_radix h) root (blst_kids h n k) kb (count - k * blst_radix h) dest =
        ebind (f (blst_kid h n k) kb kc dest)
          (blst_scan_copy f (blst_radix h) root (blst_kids h n (Suc k)) (kb + blst_radix h) (count - Suc k * blst_radix h))"
      using True k bm_get_shape [OF ksh] bl_shape_node [OF ksh]
      by (subst blst_kids_unfold) (auto simp: kc_def min_def add.commute)
    show ?thesis
      unfolding split kb_def [symmetric] code Un_assoc [symmetric]
    proof (rule copy_post_bind [OF pk])
      fix dest' assume d: "blist_ok dest' (D \<union> ?K)" "bl_blocks dest' = bl_blocks dest"
      have dd: "d = 32 - Suc k" using Suc.hyps(2) by simp
      have "(D \<union> ?K) \<inter> ?R = {}" using disR KR by auto
      from Suc.hyps(1) [OF dd _ d(1) _ this] show "copy_post dest' (D \<union> ?K \<union> ?R)
        (blst_scan_copy f (blst_radix h) root (blst_kids h n (Suc k)) (kb + blst_radix h) (count - Suc k * blst_radix h) dest')"
        unfolding e using k Suc.prems(3) d(2) by simp
    qed
  qed
qed

lemma blst_copy_ok:
  "h \<le> 11 \<Longrightarrow> 1 \<le> count \<Longrightarrow> count \<le> cnt \<Longrightarrow> cnt \<le> blst_radix h \<Longrightarrow> bl_shape h n cnt root \<Longrightarrow> bl_rep h n cnt F root \<Longrightarrow>
   blist_ok dest D \<Longrightarrow> blk + count \<le> bl_blocks dest \<Longrightarrow> D \<inter> bl_copied blk F count = {} \<Longrightarrow>
   copy_post dest (D \<union> bl_copied blk F count) (blst_copy h root n blk count dest)"
proof (induction h arbitrary: n blk cnt count F dest D)
  case 0
  note shape = 0(5) and rep = 0(6)
  have F: "bset (bmu (root ! n)) = F" using rep by simp
  consider "bmu (root ! n) = - 1" | "bmu (root ! n) = 0" | "bmu (root ! n) \<noteq> - 1" "bmu (root ! n) \<noteq> 0" by blast
  then show ?case
  proof cases
    case 1
    then have "bl_copied blk F count = {blk..<blk + count}" using F 0(3,4) by (intro bl_copied_full) auto
    then show ?thesis using copy_free [OF 0(7) 0(2) 0(8)] 0(9) 1 bm_get_shape [OF shape] by simp
  next
    case 2
    then have "bl_copied blk F count = {}" using F by (simp add: bl_copied_def)
    then show ?thesis using 2 bm_get_shape [OF shape] 0(7) by (simp add: copy_post_def)
  next
    case 3
    have m: "min BLIST_BMAP_RADIX count = count" using 0(3,4) by (simp add: kern_defs)
    have c: "bl_copied blk F count = {blk + j | j. bit (bmu (root ! n)) j \<and> 0 \<le> j \<and> j < count}"
      unfolding F [symmetric] by (auto simp: bl_copied_def)
    show ?thesis
      using blst_leaf_copy_ok [OF _ 0(7) 0(8), of "bmu (root ! n)" 0] 0(3,4,9) 3 bm_get_shape [OF shape] unfolding c by (simp add: m)
  qed
next
  case (Suc h)
  note h = Suc.prems(1) and count = Suc.prems(2,3) and cnt = Suc.prems(4) and shape = Suc.prems(5) and rep = Suc.prems(6)
    and dest = Suc.prems(7,8) and dis = Suc.prems(9)
  consider "F = {}" | "F = {..<blst_radix (Suc h)}" "F \<noteq> {}" | "F \<noteq> {}" "F \<noteq> {..<blst_radix (Suc h)}" by blast
  then show ?case
  proof cases
    case 1
    then have "bl_copied blk F count = {}" by (simp add: bl_copied_def)
    then show ?thesis using 1 bm_get_shape [OF shape] dest avail_0_iff [OF rep cnt h] by (simp add: copy_post_def)
  next
    case 2
    have "bl_copied blk F count = {blk..<blk + count}" using 2 count cnt by (intro bl_copied_full) auto
    moreover have "(if count < blst_radix (Suc h) then count else blst_radix (Suc h)) = count" using count cnt by simp
    ultimately show ?thesis
      using copy_free [OF dest(1) count(1) dest(2)] dis 2 bm_get_shape [OF shape] avail_0_iff [OF rep cnt h] avail_full_iff [OF rep cnt h]
      by simp
  next
    case 3
    have c: "bl_copied blk F count = {blk + j | j. j \<in> F \<and> 0 * blst_radix h \<le> j \<and> j < count}" by (auto simp: bl_copied_def)
    have IH: "copy_post dest (D \<union> bl_copied blk G count) (blst_copy h root m blk count dest)"
      if "1 \<le> count" "count \<le> kc" "kc \<le> blst_radix h" "bl_shape h m kc root" "bl_rep h m kc G root" "blist_ok dest D"
        "blk + count \<le> bl_blocks dest" "D \<inter> bl_copied blk G count = {}" for m kc G blk count dest D
      using Suc.IH [OF _ that] h by simp
    have cnt0: "0 < cnt" using count by simp
    have "copy_post dest (D \<union> {blk + j | j. j \<in> F \<and> 0 * blst_radix h \<le> j \<and> j < count})
        (blst_scan_copy (blst_copy h root) (blst_radix h) root (blst_kids h n 0) (blk + 0 * blst_radix h) (count - 0 * blst_radix h) dest)"
      using blst_scan_copy_ok [where f = "blst_copy h root" and k = 0, OF IH cnt0 count(2) cnt shape bl_rep_kids [OF rep 3] _ dest] dis
      unfolding c by fastforce
    then show ?thesis
      using 3 bm_get_shape [OF shape] avail_0_iff [OF rep cnt h] avail_full_iff [OF rep cnt h] unfolding c by simp
  qed
qed

section \<open>Resizing\<close>

lemma blist_resize_ok:
  assumes ok: "blist_ok bl F" and new: "0 < count" "count \<le> 2 ^ 61"
  shows "\<exists>bl'. blist_resize junk bl count freenew = Some (Inr bl') \<and> bl_blocks bl' = count \<and>
    blist_ok bl' ((F \<inter> {..<count}) \<union> (if freenew then {bl_blocks bl..<count} else {}))"
proof -
  obtain nb where nb: "blist_create junk count = Some (Inr nb)" "blist_ok nb {}" "bl_blocks nb = count"
    using blist_create_ok [OF new] by blast
  define c where "c = min count (bl_blocks bl)"
  have o: "bl_height bl \<le> 11" "0 < bl_blocks bl" "bl_blocks bl \<le> blst_radix (bl_height bl)"
    "bl_shape (bl_height bl) 0 (bl_blocks bl) (bl_root bl)" "bl_rep (bl_height bl) 0 (bl_blocks bl) F (bl_root bl)"
    using ok by (auto simp: blist_ok_def)
  have F: "bl_copied 0 F c = F \<inter> {..<count}" using blist_ok_subset [OF ok] by (auto simp: bl_copied_def c_def)
  have "copy_post nb ({} \<union> bl_copied 0 F c) (blst_copy (bl_height bl) (bl_root bl) 0 0 c nb)"
    by (rule blst_copy_ok [OF o(1) _ _ o(3-5) nb(2)]) (use new o(2) nb(3) in \<open>auto simp: c_def\<close>)
  then obtain cb where cb: "blst_copy (bl_height bl) (bl_root bl) 0 0 c nb = Inr cb" "blist_ok cb (F \<inter> {..<count})" "bl_blocks cb = count"
    using nb(3) by (auto simp: copy_post_def F)
  have code: "blist_resize junk bl count freenew =
      Some (if freenew \<and> c < count then blist_free cb c (count - c) else Inr cb)"
    using nb(1) cb by (simp add: blist_resize_def c_def [symmetric] Let_def)
  show ?thesis
  proof (cases "freenew \<and> c < count")
    case True
    then have c: "c = bl_blocks bl" "bl_blocks bl < count" by (auto simp: c_def)
    have "(F \<inter> {..<count}) \<inter> {c..<c + (count - c)} = {}" using blist_ok_subset [OF ok] c by auto
    then obtain bl' where "blist_free cb c (count - c) = Inr bl'" "blist_ok bl' (F \<inter> {..<count} \<union> {c..<c + (count - c)})" "bl_blocks bl' = count"
      using blist_free_ok [OF cb(2), of "count - c" c] cb(3) c by (auto simp: Suc_le_eq)
    then show ?thesis using code True c by simp
  next
    case False
    then have "(if freenew then {bl_blocks bl..<count} else {}) = {}" by (auto simp: c_def)
    then show ?thesis using code False cb by auto
  qed
qed

text \<open>C23: Resizing returns for every new size up to \<^verbatim>\<open>BLIST_MAXBLKS\<close> a list of that size in which exactly those blocks are free which were free and still exist, together
  with the new ones when the caller asks for that; no block of the old list is lost or freed twice, and nothing panics.\<close>

theorem blist_resize_keeps:
  assumes "blist_ok bl F" "0 < count" "count \<le> BLIST_MAXBLKS"
  shows "\<exists>bl'. blist_resize junk bl count freenew = Some (Inr bl') \<and> bl_blocks bl' = count \<and>
    blist_ok bl' ((F \<inter> {..<count}) \<union> (if freenew then {bl_blocks bl..<count} else {}))"
  using blist_resize_ok [OF assms(1,2)] assms(3) by (simp add: kern_defs)

theorem blist_resize_keeps_witness:
  "\<exists>bl0 bl bl'. blist_create (\<lambda>_. \<lparr>bmu = 7, bm_bighint = BL_TERM\<rparr>) 100 = Some (Inr bl0) \<and> blist_free bl0 1 99 = Inr bl \<and>
     blist_resize (\<lambda>_. \<lparr>bmu = 0, bm_bighint = 0\<rparr>) bl 3000 True = Some (Inr bl') \<and>
     blist_ok bl' (({1..<100} \<inter> {..<3000}) \<union> (if True then {100..<3000} else {}))"
proof -
  obtain bl0 bl where s: "blist_create (\<lambda>_. \<lparr>bmu = 7, bm_bighint = BL_TERM\<rparr>) 100 = Some (Inr bl0)" "blist_free bl0 1 99 = Inr bl"
    "blist_ok bl {1..<100}" "bl_blocks bl = 100" using blist_sample by blast
  have c: "(0 :: nat) < 3000" "3000 \<le> BLIST_MAXBLKS" by (simp_all add: kern_defs)
  show ?thesis using blist_resize_keeps [OF s(3) c, of "\<lambda>_. \<lparr>bmu = 0, bm_bighint = 0\<rparr>" True] s(1,2) unfolding s(4) by blast
qed

end
