(* ===== verification/Blist_Gap.thy ===== *)
theory Blist_Gap
  imports Blist_Ops
begin

text \<open>
  The search for the largest gap: the recursive walk of \<^verbatim>\<open>blst_radix_gapfind\<close>, which skips subtrees, is the same as a walk over all leaves in
  order, and that walk finds the longest run of leaves that are wholly free.
\<close>

section \<open>The walk over the leaves\<close>

definition leaf_free :: "nat set \<Rightarrow> nat \<Rightarrow> bool" where
  "leaf_free F l \<longleftrightarrow> {64 * l..<64 * l + 64} \<subseteq> F"

definition gap_step :: "nat set \<Rightarrow> nat \<Rightarrow> nat \<Rightarrow> gapfind \<Rightarrow> gapfind" where
  "gap_step F blk l g = (if leaf_free F l then gap_free (blk + 64 * l) g else gap_used (blk + 64 * l) g)"

definition leaves :: "nat \<Rightarrow> nat" where
  "leaves cnt = (cnt + 63) div 64"

lemma leaves_pos: "0 < cnt \<Longrightarrow> 0 < leaves cnt"
  by (simp add: leaves_def div_greater_zero_iff)

lemma leaves_iff: "l < leaves cnt \<longleftrightarrow> 64 * l < cnt"
  using less_eq_div_iff_mult_less_eq [of 64 "Suc l" "cnt + 63"] by (auto simp: leaves_def Suc_le_eq)

lemma gap_free_again: "gap_free p (gap_free q g) = gap_free q g"
  by (simp add: gap_free_def)

lemma gap_used_again: "gap_used p (gap_used q g) = gap_used q g"
  by (simp add: gap_used_def)

lemma fold_all_free: "(\<And>l. l \<in> set ls \<Longrightarrow> leaf_free F l) \<Longrightarrow> fold (gap_step F blk) ls (gap_free q g) = gap_free q g"
  by (induction ls) (simp_all add: gap_step_def gap_free_again)

lemma fold_all_used: "(\<And>l. l \<in> set ls \<Longrightarrow> \<not> leaf_free F l) \<Longrightarrow> fold (gap_step F blk) ls (gap_used q g) = gap_used q g"
  by (induction ls) (simp_all add: gap_step_def gap_used_again)

lemma upt_from_0: "0 < m \<Longrightarrow> [0..<m] = 0 # [Suc 0..<m]"
  by (simp add: upt_conv_Cons)

lemma fold_leaves_free: "0 < m \<Longrightarrow> (\<And>l. l < m \<Longrightarrow> leaf_free F l) \<Longrightarrow> fold (gap_step F blk) [0..<m] g = gap_free blk g"
  using fold_all_free [of "[Suc 0..<m]" F blk blk g] by (simp add: upt_from_0 gap_step_def)

lemma fold_leaves_used: "0 < m \<Longrightarrow> (\<And>l. l < m \<Longrightarrow> \<not> leaf_free F l) \<Longrightarrow> fold (gap_step F blk) [0..<m] g = gap_used blk g"
  using fold_all_used [of "[Suc 0..<m]" F blk blk g] by (simp add: upt_from_0 gap_step_def)

section \<open>The leaves of a child\<close>

definition kid_leaves :: "nat \<Rightarrow> nat" where
  "kid_leaves h = 32 ^ h"

lemma blst_radix_leaves: "blst_radix h = 64 * kid_leaves h"
  by (simp add: blst_radix_def kid_leaves_def kern_defs)

lemma leaf_free_kid: "l < kid_leaves h \<Longrightarrow> leaf_free (kid_set h F k) l = leaf_free F (k * kid_leaves h + l)"
proof -
  assume l: "l < kid_leaves h"
  have "64 * l + 64 \<le> blst_radix h" using l by (simp add: blst_radix_leaves)
  then have "leaf_free (kid_set h F k) l = (\<forall>i<64. k * blst_radix h + (64 * l + i) \<in> F)"
    by (fastforce simp: leaf_free_def kid_set_def subset_iff le_iff_add)
  also have "\<dots> = leaf_free F (k * kid_leaves h + l)"
    by (fastforce simp: leaf_free_def subset_iff le_iff_add blst_radix_leaves algebra_simps)
  finally show ?thesis .
qed

lemma fold_kid:
  assumes "m \<le> kid_leaves h"
  shows "fold (gap_step (kid_set h F k) (blk + k * blst_radix h)) [0..<m] g = fold (gap_step F blk) [k * kid_leaves h..<k * kid_leaves h + m] g"
proof -
  have "fold (gap_step F blk) [k * kid_leaves h..<k * kid_leaves h + m] g =
      fold (gap_step F blk) (map (\<lambda>l. k * kid_leaves h + l) [0..<m]) g"
    using map_add_upt [of "k * kid_leaves h" m] by (simp add: add.commute)
  also have "\<dots> = fold (gap_step F blk \<circ> (\<lambda>l. k * kid_leaves h + l)) [0..<m] g" by (simp add: fold_map)
  also have "\<dots> = fold (gap_step (kid_set h F k) (blk + k * blst_radix h)) [0..<m] g"
    by (rule fold_cong [OF refl refl]) (use assms in \<open>simp add: fun_eq_iff gap_step_def leaf_free_kid blst_radix_leaves algebra_simps\<close>)
  finally show ?thesis by simp
qed

lemma leaves_kid: "leaves (kid_cnt h cnt k) = min (kid_leaves h) (leaves cnt - k * kid_leaves h)"
proof (rule antisym)
  show "leaves (kid_cnt h cnt k) \<le> min (kid_leaves h) (leaves cnt - k * kid_leaves h)"
    unfolding min.bounded_iff using leaves_iff [of "kid_leaves h" "kid_cnt h cnt k"] leaves_iff [of "leaves cnt - k * kid_leaves h" "kid_cnt h cnt k"]
      leaves_iff [of "leaves cnt" cnt]
    by (auto simp: kid_cnt_def blst_radix_leaves not_less [symmetric] algebra_simps)
  show "min (kid_leaves h) (leaves cnt - k * kid_leaves h) \<le> leaves (kid_cnt h cnt k)"
    using leaves_iff [of "leaves (kid_cnt h cnt k)" "kid_cnt h cnt k"] leaves_iff [of "k * kid_leaves h + leaves (kid_cnt h cnt k)" cnt]
    by (auto simp: kid_cnt_def blst_radix_leaves min_def algebra_simps split: if_splits)
qed

section \<open>The recursive walk\<close>

lemma blst_scan_gapfind_ok:
  assumes IH: "\<And>m kc G blk g. 0 < kc \<Longrightarrow> kc \<le> blst_radix h \<Longrightarrow> bl_shape h m kc root \<Longrightarrow> bl_rep h m kc G root \<Longrightarrow>
      f m blk g = Inr (fold (gap_step G blk) [0..<leaves kc] g)"
    and cnt: "0 < cnt" "cnt \<le> blst_radix (Suc h)" and shape: "bl_shape (Suc h) n cnt root" and kids: "kids_rep h n cnt F root"
  shows "kid_at h cnt k \<Longrightarrow> k \<le> 32 \<Longrightarrow>
    blst_scan_gapfind f (blst_radix h) root (blst_kids h n k) (blk + k * blst_radix h) g =
      Inr (fold (gap_step F blk) [k * kid_leaves h..<leaves cnt] g)"
proof (induction "32 - k" arbitrary: k g)
  case 0
  then have "k = 32" by simp
  moreover have "\<not> k * kid_leaves h < leaves cnt" unfolding leaves_iff using cnt(2) \<open>k = 32\<close> by (simp add: blst_radix_Suc) (simp add: blst_radix_leaves)
  ultimately show ?case by (simp add: blst_kids_unfold)
next
  case (Suc d)
  from shape Suc.prems(1,2) cnt(1) show ?case
  proof (cases rule: kid_at_cases)
    case all
    then show ?thesis using Suc by simp
  next
    case end_term
    then have "\<not> k * kid_leaves h < leaves cnt" unfolding leaves_iff by (simp add: blst_radix_leaves algebra_simps)
    then show ?thesis using end_term by (subst blst_kids_unfold) simp
  next
    case kid
    define kc where "kc = kid_cnt h cnt k"
    have kl: "leaves kc = min (kid_leaves h) (leaves cnt - k * kid_leaves h)" unfolding kc_def by (rule leaves_kid)
    have fk: "f (blst_kid h n k) (blk + k * blst_radix h) g = Inr (fold (gap_step F blk) [k * kid_leaves h..<k * kid_leaves h + leaves kc] g)"
      using IH [OF kid_cnt_pos [OF kid(2)] kid_cnt_le kid(3) kids_repD [OF kids kid(1,2)]] fold_kid [of "leaves kc" h F k blk g] kl
      by (simp add: kc_def)
    define g1 where "g1 = fold (gap_step F blk) [k * kid_leaves h..<k * kid_leaves h + leaves kc] g"
    have "d = 32 - Suc k" using Suc.hyps(2) by simp
    from Suc.hyps(1) [OF this kid_at_Suc [OF kid(2)], of g1] kid(1)
    have rest: "blst_scan_gapfind f (blst_radix h) root (blst_kids h n (Suc k)) (blk + Suc k * blst_radix h) g1 =
      Inr (fold (gap_step F blk) [Suc k * kid_leaves h..<leaves cnt] g1)" by simp
    have "k * kid_leaves h < leaves cnt" unfolding leaves_iff using kid(2) by (simp add: blst_radix_leaves algebra_simps)
    then have "[k * kid_leaves h..<leaves cnt] = [k * kid_leaves h..<k * kid_leaves h + leaves kc] @ [Suc k * kid_leaves h..<leaves cnt]"
    proof (cases "Suc k * kid_leaves h \<le> leaves cnt")
      case True
      then have "k * kid_leaves h + leaves kc = Suc k * kid_leaves h" using kl by simp
      then show ?thesis
        using True upt_add_eq_append [of "k * kid_leaves h" "Suc k * kid_leaves h" "leaves cnt - Suc k * kid_leaves h"]
        by (simp add: add.commute)
    next
      case False
      then have "k * kid_leaves h + leaves kc = leaves cnt" using kl \<open>k * kid_leaves h < leaves cnt\<close> by simp
      then show ?thesis using False by simp
    qed
    then have all: "fold (gap_step F blk) [k * kid_leaves h..<leaves cnt] g = fold (gap_step F blk) [Suc k * kid_leaves h..<leaves cnt] g1"
      by (simp add: g1_def)
    have "blst_scan_gapfind f (blst_radix h) root (blst_kids h n k) (blk + k * blst_radix h) g =
        blst_scan_gapfind f (blst_radix h) root (blst_kids h n (Suc k)) (blk + Suc k * blst_radix h) g1"
      using kid fk by (subst blst_kids_unfold) (simp add: g1_def algebra_simps)
    then show ?thesis using rest all by simp
  qed
qed

lemma blst_radix_gapfind_ok:
  "h \<le> 11 \<Longrightarrow> 0 < cnt \<Longrightarrow> cnt \<le> blst_radix h \<Longrightarrow> bl_shape h n cnt root \<Longrightarrow> bl_rep h n cnt F root \<Longrightarrow>
   blst_radix_gapfind h root n blk g = Inr (fold (gap_step F blk) [0..<leaves cnt] g)"
proof (induction h arbitrary: n blk cnt F g)
  case 0
  note shape = 0(4) and rep = 0(5)
  have F: "bset (bmu (root ! n)) = F" "F \<subseteq> {..<cnt}" using rep by auto
  have one: "leaves cnt = 1" using 0(2,3) leaves_iff [of 0 cnt] leaves_iff [of 1 cnt] by (simp add: not_less)
  have "leaf_free F 0 \<longleftrightarrow> bmu (root ! n) = - 1"
    using F bset_subset [of "bmu (root ! n)"] bset_full_iff [of "bmu (root ! n)"] by (auto simp: leaf_free_def lessThan_atLeast0 [symmetric])
  then show ?case using bm_get_shape [OF shape] by (simp add: one gap_step_def)
next
  case (Suc h)
  note h = Suc.prems(1) and cnt = Suc.prems(2,3) and shape = Suc.prems(4) and rep = Suc.prems(5)
  note pos = leaves_pos [OF cnt(1)]
  consider "F = {}" | "F = {..<blst_radix (Suc h)}" "F \<noteq> {}" | "F \<noteq> {}" "F \<noteq> {..<blst_radix (Suc h)}" by blast
  then show ?case
  proof cases
    case 1
    have "fold (gap_step F blk) [0..<leaves cnt] g = gap_used blk g" by (rule fold_leaves_used [OF pos]) (simp add: 1 leaf_free_def)
    then show ?thesis using 1 bm_get_shape [OF shape] avail_0_iff [OF rep cnt(2) h] by simp
  next
    case 2
    have "cnt = blst_radix (Suc h)" using 2 bl_rep_subset [OF rep] cnt(2) by (auto simp: subset_iff)
    then have "leaf_free F l" if "l < leaves cnt" for l
      using that 2(1) blst_radix_leaves [of "Suc h"] unfolding leaves_iff leaf_free_def by auto
    then have "fold (gap_step F blk) [0..<leaves cnt] g = gap_free blk g" by (rule fold_leaves_free [OF pos])
    then show ?thesis using 2 bm_get_shape [OF shape] avail_0_iff [OF rep cnt(2) h] avail_full_iff [OF rep cnt(2) h] by simp
  next
    case 3
    have IH: "blst_radix_gapfind h root m blk g = Inr (fold (gap_step G blk) [0..<leaves kc] g)"
      if "0 < kc" "kc \<le> blst_radix h" "bl_shape h m kc root" "bl_rep h m kc G root" for m kc G blk g
      using Suc.IH [OF _ that] h by simp
    have "blst_scan_gapfind (blst_radix_gapfind h root) (blst_radix h) root (blst_kids h n 0) blk g =
        Inr (fold (gap_step F blk) [0..<leaves cnt] g)"
      using blst_scan_gapfind_ok [where f = "blst_radix_gapfind h root" and k = 0 and blk = blk and g = g,
        OF IH cnt shape bl_rep_kids [OF rep 3] kid_at_0] by simp
    then show ?thesis using 3 bm_get_shape [OF shape] avail_0_iff [OF rep cnt(2) h] avail_full_iff [OF rep cnt(2) h] by simp
  qed
qed

section \<open>The largest gap\<close>

definition leaves_free :: "nat set \<Rightarrow> nat \<Rightarrow> nat \<Rightarrow> bool" where
  "leaves_free F a b \<longleftrightarrow> (\<forall>l. a \<le> l \<longrightarrow> l < b \<longrightarrow> leaf_free F l)"

text \<open>After \<open>m\<close> leaves: the largest gap so far, and the current one that starts at leaf \<open>p\<close>.\<close>

definition gap_inv :: "nat set \<Rightarrow> nat \<Rightarrow> gapfind \<Rightarrow> nat \<Rightarrow> nat \<Rightarrow> nat \<Rightarrow> bool" where
  "gap_inv F m g x y p \<longleftrightarrow>
     g_maxb g = 64 * x \<and> g_maxe g = 64 * y \<and> x \<le> y \<and> y \<le> m \<and> (x < m \<or> x = 0) \<and> leaves_free F x y \<and>
     (g_used g \<longrightarrow> g_b g = 64 * p \<and> p < m \<and> leaves_free F p m \<and> (p = 0 \<or> \<not> leaf_free F (p - 1))) \<and>
     (\<not> g_used g \<longrightarrow> m = 0 \<or> \<not> leaf_free F (m - 1)) \<and>
     (\<forall>a b. b \<le> m \<longrightarrow> leaves_free F a b \<longrightarrow> b - a \<le> y - x \<or> g_used g \<and> p \<le> a)"

lemma gap_inv_start: "gap_inv F 0 \<lparr>g_used = False, g_maxb = 0, g_maxe = 0, g_b = 0, g_e = 0\<rparr> 0 0 0"
  by (simp add: gap_inv_def leaves_free_def)

lemma leaves_free_Suc: "leaves_free F a (Suc m) \<longleftrightarrow> leaves_free F a m \<and> (m < a \<or> leaf_free F m)"
  unfolding leaves_free_def less_Suc_eq by (metis not_less)

text \<open>Closing the current gap after \<open>m\<close> leaves.\<close>

lemma gap_close_inv:
  assumes inv: "gap_inv F m g x y p" and used: "g_used g"
  obtains x' y' where "g_maxb (gap_close (64 * m) g) = 64 * x'" "g_maxe (gap_close (64 * m) g) = 64 * y'" "x' \<le> y'" "y' \<le> m" "x' < m"
    "leaves_free F x' y'" "\<And>a b. b \<le> m \<Longrightarrow> leaves_free F a b \<Longrightarrow> b - a \<le> y' - x'"
proof -
  have i: "g_maxb g = 64 * x" "g_maxe g = 64 * y" "x \<le> y" "y \<le> m" "leaves_free F x y" "g_b g = 64 * p" "p < m" "leaves_free F p m"
    "x < m \<or> x = 0" and all: "\<And>a b. b \<le> m \<Longrightarrow> leaves_free F a b \<Longrightarrow> b - a \<le> y - x \<or> p \<le> a"
    using inv used by (auto simp: gap_inv_def)
  show ?thesis
  proof (cases "y - x < m - p")
    case True
    have run: "b - a \<le> m - p" if "b \<le> m" "leaves_free F a b" for a b using all [OF that] that(1) True by auto
    show ?thesis by (rule that [of p m]) (use i True run in \<open>auto simp: gap_close_def Let_def\<close>)
  next
    case False
    have run: "b - a \<le> y - x" if "b \<le> m" "leaves_free F a b" for a b using all [OF that] that(1) False by auto
    show ?thesis by (rule that [of x y]) (use i False run in \<open>auto simp: gap_close_def Let_def\<close>)
  qed
qed

lemma leaves_free_last: "leaves_free F a b \<Longrightarrow> a < b \<Longrightarrow> a \<le> l \<Longrightarrow> l < b \<Longrightarrow> leaf_free F l"
  by (simp add: leaves_free_def)

lemma gap_step_inv:
  assumes inv: "gap_inv F m g x y p" shows "\<exists>x y p. gap_inv F (Suc m) (gap_step F 0 m g) x y p"
proof -
  have i: "g_maxb g = 64 * x" "g_maxe g = 64 * y" "x \<le> y" "y \<le> m" "x < m \<or> x = 0" "leaves_free F x y"
    and open_gap: "g_used g \<Longrightarrow> g_b g = 64 * p \<and> p < m \<and> leaves_free F p m \<and> (p = 0 \<or> \<not> leaf_free F (p - 1))"
    and no_gap: "\<not> g_used g \<Longrightarrow> m = 0 \<or> \<not> leaf_free F (m - 1)"
    and runs: "\<And>a b. b \<le> m \<Longrightarrow> leaves_free F a b \<Longrightarrow> b - a \<le> y - x \<or> g_used g \<and> p \<le> a"
    using inv by (auto simp: gap_inv_def)
  consider (grow) "leaf_free F m" "g_used g" | (begins) "leaf_free F m" "\<not> g_used g" | (ends) "\<not> leaf_free F m" "g_used g"
    | (none) "\<not> leaf_free F m" "\<not> g_used g" by blast
  then show ?thesis
  proof cases
    case grow
    have "b - a \<le> y - x \<or> p \<le> a" if "b \<le> Suc m" "leaves_free F a b" for a b
    proof (cases "b = Suc m \<and> a < p")
      case True
      then have "a \<le> p - 1" "p - 1 < b" "a < b" using open_gap [OF grow(2)] by auto
      then have "leaf_free F (p - 1)" using leaves_free_last [OF that(2)] by simp
      then show ?thesis using open_gap [OF grow(2)] True by simp
    next
      case False
      then show ?thesis using runs [of b a] that by (cases "b = Suc m") auto
    qed
    then have "gap_inv F (Suc m) g x y p" using i open_gap [OF grow(2)] grow by (auto simp: gap_inv_def leaves_free_Suc)
    then show ?thesis using grow by (auto simp: gap_step_def gap_free_def)
  next
    case begins
    have "b - a \<le> y - x \<or> m \<le> a" if "b \<le> Suc m" "leaves_free F a b" for a b
    proof (cases "b = Suc m \<and> a < m")
      case True
      then have "a \<le> m - 1" "m - 1 < b" "a < b" by auto
      then have "leaf_free F (m - 1)" using leaves_free_last [OF that(2)] by simp
      then show ?thesis using no_gap [OF begins(2)] True by simp
    next
      case False
      then show ?thesis using runs [of b a] that begins by (cases "b = Suc m") auto
    qed
    then have "gap_inv F (Suc m) (g\<lparr>g_used := True, g_b := 64 * m\<rparr>) x y m"
      using i no_gap [OF begins(2)] begins by (auto simp: gap_inv_def leaves_free_def less_Suc_eq)
    then show ?thesis using begins by (auto simp: gap_step_def gap_free_def)
  next
    case ends
    obtain x' y' where c: "g_maxb (gap_close (64 * m) g) = 64 * x'" "g_maxe (gap_close (64 * m) g) = 64 * y'" "x' \<le> y'" "y' \<le> m" "x' < m"
      "leaves_free F x' y'" "\<And>a b. b \<le> m \<Longrightarrow> leaves_free F a b \<Longrightarrow> b - a \<le> y' - x'"
      using gap_close_inv [OF inv ends(2)] by blast
    have "b - a \<le> y' - x'" if "b \<le> Suc m" "leaves_free F a b" for a b
      using c(7) [of b a] that ends(1) by (cases "b = Suc m") (auto simp: leaves_free_Suc)
    then have "gap_inv F (Suc m) ((gap_close (64 * m) g)\<lparr>g_used := False\<rparr>) x' y' p" using c(1-6) ends by (auto simp: gap_inv_def)
    then show ?thesis using ends by (auto simp: gap_step_def gap_used_def)
  next
    case none
    have "b - a \<le> y - x" if "b \<le> Suc m" "leaves_free F a b" for a b
      using runs [of b a] that none by (cases "b = Suc m") (auto simp: leaves_free_Suc)
    then have "gap_inv F (Suc m) g x y p" using i none by (auto simp: gap_inv_def)
    then show ?thesis using none by (auto simp: gap_step_def gap_used_def)
  qed
qed

lemma gap_fold_inv:
  "\<exists>x y p. gap_inv F m (fold (gap_step F 0) [0..<m] \<lparr>g_used = False, g_maxb = 0, g_maxe = 0, g_b = 0, g_e = 0\<rparr>) x y p"
proof (induction m)
  case 0
  then show ?case using gap_inv_start by auto
next
  case (Suc m)
  then show ?case using gap_step_inv by fastforce
qed

lemma leaves_free_run: "leaves_free F a b \<longleftrightarrow> {64 * a..<64 * b} \<subseteq> F"
proof
  assume l: "leaves_free F a b"
  show "{64 * a..<64 * b} \<subseteq> F"
  proof
    fix i assume i: "i \<in> {64 * a..<64 * b}"
    then have "a \<le> i div 64" "i div 64 < b" by (auto simp: less_eq_div_iff_mult_less_eq div_less_iff_less_mult mult.commute)
    then have "leaf_free F (i div 64)" using l by (simp add: leaves_free_def)
    moreover have "i \<in> {64 * (i div 64)..<64 * (i div 64) + 64}" by simp
    ultimately show "i \<in> F" unfolding leaf_free_def by blast
  qed
next
  assume F: "{64 * a..<64 * b} \<subseteq> F"
  have "{64 * l..<64 * l + 64} \<subseteq> {64 * a..<64 * b}" if "a \<le> l" "l < b" for l using that by auto
  then show "leaves_free F a b" unfolding leaves_free_def leaf_free_def using F by blast
qed

lemma blist_gapfind_ok:
  assumes ok: "blist_ok bl F"
  shows "\<exists>x y. blist_gapfind bl = Inr (64 * x, 64 * y) \<and> x \<le> y \<and> {64 * x..<64 * y} \<subseteq> F \<and>
    (\<forall>a b. {64 * a..<64 * b} \<subseteq> F \<longrightarrow> b - a \<le> y - x)"
proof -
  define m where "m = leaves (bl_blocks bl)"
  define g where "g = fold (gap_step F 0) [0..<m] \<lparr>g_used = False, g_maxb = 0, g_maxe = 0, g_b = 0, g_e = 0\<rparr>"
  have o: "bl_height bl \<le> 11" "0 < bl_blocks bl" "bl_blocks bl \<le> blst_radix (bl_height bl)"
    "bl_shape (bl_height bl) 0 (bl_blocks bl) (bl_root bl)" "bl_rep (bl_height bl) 0 (bl_blocks bl) F (bl_root bl)"
    using ok by (auto simp: blist_ok_def)
  obtain x y p where inv: "gap_inv F m g x y p" using gap_fold_inv unfolding g_def by blast
  have walk: "blst_radix_gapfind (bl_height bl) (bl_root bl) 0 0 \<lparr>g_used = False, g_maxb = 0, g_maxe = 0, g_b = 0, g_e = 0\<rparr> = Inr g"
    unfolding g_def m_def by (rule blst_radix_gapfind_ok [OF o])
  have run_le: "64 * b \<le> bl_blocks bl" if "{64 * a..<64 * b} \<subseteq> F" "a < b" for a b
  proof -
    have "64 * b - 1 \<in> {64 * a..<64 * b}" using that(2) by auto
    then have "64 * b - 1 \<in> F" using that(1) by blast
    then show ?thesis using blist_ok_subset [OF ok] by auto
  qed
  then have run_m: "b \<le> m" if "{64 * a..<64 * b} \<subseteq> F" "a < b" for a b
    using that run_le [OF that] leaves_iff [of "b - 1" "bl_blocks bl"] unfolding m_def by (cases b) auto
  obtain x' y' where fin: "(if g_used g then gap_close (bl_blocks bl) g else g) = (if g_used g then gap_close (64 * m) g else g)"
    "g_maxb (if g_used g then gap_close (64 * m) g else g) = 64 * x'" "g_maxe (if g_used g then gap_close (64 * m) g else g) = 64 * y'"
    "x' \<le> y'" "x' < m" "leaves_free F x' y'" "\<And>a b. b \<le> m \<Longrightarrow> leaves_free F a b \<Longrightarrow> b - a \<le> y' - x'"
  proof (cases "g_used g")
    case True
    have p: "p < m" "leaves_free F p m" using inv True by (auto simp: gap_inv_def)
    have "64 * m \<le> bl_blocks bl" using run_le [OF p(2) [unfolded leaves_free_run] p(1)] .
    moreover have "bl_blocks bl \<le> 64 * m" using leaves_iff [of m "bl_blocks bl"] by (simp add: m_def)
    ultimately have e: "bl_blocks bl = 64 * m" by simp
    show ?thesis
    proof (rule gap_close_inv [OF inv True])
      fix x' y' assume c: "g_maxb (gap_close (64 * m) g) = 64 * x'" "g_maxe (gap_close (64 * m) g) = 64 * y'" "x' \<le> y'" "x' < m"
        "leaves_free F x' y'" "\<And>a b. b \<le> m \<Longrightarrow> leaves_free F a b \<Longrightarrow> b - a \<le> y' - x'"
      show thesis by (rule that [of x' y']) (use c(1-5) True e in simp_all, rule c(6))
    qed
  next
    case False
    have "x < m" using inv False leaves_pos [OF o(2)] by (auto simp: gap_inv_def m_def)
    then show ?thesis using that [of x y] inv False by (auto simp: gap_inv_def)
  qed
  have run: "{64 * x'..<64 * y'} \<subseteq> F" using fin(6) by (simp add: leaves_free_run)
  have y: "64 * y' \<le> bl_blocks bl" using run_le [OF run] fin(4) leaves_iff [of x' "bl_blocks bl"] fin(5) by (cases "x' = y'") (auto simp: m_def)
  have x: "64 * x' < bl_blocks bl" using fin(5) leaves_iff [of x' "bl_blocks bl"] by (simp add: m_def)
  have "blist_gapfind bl = Inr (64 * x', 64 * y')"
    unfolding blist_gapfind_def walk using fin(1-4) x y by (simp add: Let_def)
  moreover have "b - a \<le> y' - x'" if "{64 * a..<64 * b} \<subseteq> F" for a b
    using fin(7) [of b a] run_m [OF that] that by (cases "a < b") (auto simp: leaves_free_run)
  ultimately show ?thesis using fin(4) run by auto
qed

text \<open>C24: \<^verbatim>\<open>blist_gapfind\<close> returns a range of free blocks that is at least as long as every range of free blocks made of whole leaves, on every well-formed
  list; its assertions hold, also when nothing is free.\<close>

theorem blist_gapfind_largest:
  assumes "blist_ok bl F"
  shows "\<exists>b e. blist_gapfind bl = Inr (b, e) \<and> b \<le> e \<and> {b..<e} \<subseteq> F \<and> (\<forall>x y. {64 * x..<64 * y} \<subseteq> F \<longrightarrow> 64 * y - 64 * x \<le> e - b)"
proof -
  obtain x y where xy: "blist_gapfind bl = Inr (64 * x, 64 * y)" "x \<le> y" "{64 * x..<64 * y} \<subseteq> F"
    "\<forall>a b. {64 * a..<64 * b} \<subseteq> F \<longrightarrow> b - a \<le> y - x"
    using blist_gapfind_ok [OF assms] by blast
  have "64 * b - 64 * a \<le> 64 * y - 64 * x" if "{64 * a..<64 * b} \<subseteq> F" for a b
  proof -
    have "b - a \<le> y - x" using xy(4) that by blast
    then show ?thesis by (metis mult_le_mono2 diff_mult_distrib2)
  qed
  then show ?thesis using xy(1-3) by auto
qed

theorem blist_gapfind_largest_witness:
  "\<exists>bl0 bl b e. blist_create (\<lambda>_. \<lparr>bmu = 7, bm_bighint = BL_TERM\<rparr>) 300 = Some (Inr bl0) \<and> blist_free bl0 1 299 = Inr bl \<and>
     blist_gapfind bl = Inr (b, e) \<and> {b..<e} \<subseteq> {1..<1 + 299} \<and> 192 \<le> e - b"
proof -
  obtain bl0 where b0: "blist_create (\<lambda>_. \<lparr>bmu = 7, bm_bighint = BL_TERM\<rparr>) 300 = Some (Inr bl0)" "blist_ok bl0 {}" "bl_blocks bl0 = 300"
    using blist_create_ok [of 300 "\<lambda>_. \<lparr>bmu = 7, bm_bighint = BL_TERM\<rparr>"] by auto
  obtain bl where bl: "blist_free bl0 1 299 = Inr bl" "blist_ok bl ({} \<union> {1..<1 + 299})"
    using blist_free_ok [OF b0(2), of 299 1] b0(3) by auto
  have "{64 * 1..<64 * 4} \<subseteq> {} \<union> {1..<1 + 299 :: nat}" by auto
  then have "\<exists>b e. blist_gapfind bl = Inr (b, e) \<and> {b..<e} \<subseteq> {} \<union> {1..<1 + 299} \<and> 64 * 4 - 64 * 1 \<le> e - b"
    using blist_gapfind_largest [OF bl(2)] by blast
  then show ?thesis using b0(1) bl(1) by auto
qed

end
