(* ===== verification/Uvm_Swap.thy ===== *)
theory Uvm_Swap
  imports Blist_Gap Extent
begin

text \<open>
  The configuration of swap space of \<^verbatim>\<open>uvm/uvm_swap.c\<close>: the list of swap devices by priority, the drum that maps every page of every device to
  one range of slot numbers (an extent), the allocation and release of slots (a blist for each device) and the requests of \<^verbatim>\<open>swapctl\<close>.

  \<^item> A device is its record in the list; \<^verbatim>\<open>swd_vp\<close> is the number of its vnode. The code refers to a device by its address; the list never holds two devices with the
    same vnode, so the definitions find the device of an address by its vnode.
  \<^item> What \<^verbatim>\<open>swap_on\<close> learns from vnode and device is \<open>swap_env\<close>. \<^verbatim>\<open>swapctl\<close> holds \<^verbatim>\<open>swap_syscall_lock\<close> throughout but the data lock only at times: a
    request that releases it is two definitions.
  \<^item> Encryption keys, the credentials and buffers of swap files, and I/O are left out.
\<close>

section \<open>State\<close>

record swapdev =
  swd_vp :: nat
  swd_dev :: int
  swf_inuse :: bool
  swf_enable :: bool
  swf_fake :: bool
  swd_priority :: int
  swd_inuse :: int
  swd_nblks :: int
  swd_npages :: int
  swd_npginuse :: int
  swd_npgbad :: int
  swd_drumoffset :: int
  swd_drumsize :: int
  swd_blist :: "blist option"

record swappri =
  spi_priority :: int
  spi_swapdev :: "swapdev list"

text \<open>The globals, with the counters of \<^verbatim>\<open>uvmexp\<close>.\<close>

record uvmswap =
  swap_priority :: "swappri list"
  nswapdev :: int
  swpages :: int
  swpginuse :: int
  swapmap :: extent

datatype sw_panic = Sw_blist bl_panic | Sw_hang | Sw_hibernate | Sw_drum | Sw_extent | Sw_kassert | Sw_notinlist | Sw_null

definition swap_devs :: "swappri list \<Rightarrow> swapdev list" where
  "swap_devs pris = concat (map spi_swapdev pris)"

definition swap_update :: "nat \<Rightarrow> (swapdev \<Rightarrow> swapdev) \<Rightarrow> swappri list \<Rightarrow> swappri list" where
  "swap_update vp f pris = map (\<lambda>spp. spp\<lparr>spi_swapdev := map (\<lambda>d. if swd_vp d = vp then f d else d) (spi_swapdev spp)\<rparr>) pris"

text \<open>The calls of the blist functions, which do nothing for a null list.\<close>

definition blist_alloc_opt :: "blist option \<Rightarrow> nat \<Rightarrow> sw_panic + nat option \<times> blist option" where
  "blist_alloc_opt bl count =
     (case bl of
        None \<Rightarrow> Inr (None, None)
      | Some bl \<Rightarrow> (case blist_alloc bl count of Inl e \<Rightarrow> Inl (Sw_blist e) | Inr (r, bl') \<Rightarrow> Inr (r, Some bl')))"

definition blist_free_opt :: "blist option \<Rightarrow> nat \<Rightarrow> nat \<Rightarrow> sw_panic + blist option" where
  "blist_free_opt bl blkno count =
     (case bl of
        None \<Rightarrow> Inr None
      | Some bl \<Rightarrow> (case blist_free bl blkno count of Inl e \<Rightarrow> Inl (Sw_blist e) | Inr bl' \<Rightarrow> Inr (Some bl')))"

definition uvm_swap_init :: "uvmswap option" where
  "uvm_swap_init =
     (case extent_create ''swapmap'' 1 0x7fffffff None True True {} of
        Ext_Ok (Some ex) _ \<Rightarrow> Some \<lparr>swap_priority = [], nswapdev = 0, swpages = 0, swpginuse = 0, swapmap = ex\<rparr>
      | _ \<Rightarrow> None)"

section \<open>The list of devices\<close>

fun swaplist_insert_pri :: "swapdev \<Rightarrow> int \<Rightarrow> swappri list \<Rightarrow> swappri list" where
  "swaplist_insert_pri sdp priority [] = [\<lparr>spi_priority = priority, spi_swapdev = [sdp]\<rparr>]"
| "swaplist_insert_pri sdp priority (spp # rest) =
     (if priority \<le> spi_priority spp then
        (if spi_priority spp \<noteq> priority then \<lparr>spi_priority = priority, spi_swapdev = [sdp]\<rparr> # spp # rest
         else spp\<lparr>spi_swapdev := spi_swapdev spp @ [sdp]\<rparr> # rest)
      else spp # swaplist_insert_pri sdp priority rest)"

definition swaplist_insert :: "swapdev \<Rightarrow> int \<Rightarrow> uvmswap \<Rightarrow> uvmswap" where
  "swaplist_insert sdp priority st =
     st\<lparr>swap_priority := swaplist_insert_pri (sdp\<lparr>swd_priority := priority\<rparr>) priority (swap_priority st), nswapdev := nswapdev st + 1\<rparr>"

definition swaplist_find :: "nat \<Rightarrow> uvmswap \<Rightarrow> swapdev option" where
  "swaplist_find vp st = find (\<lambda>d. swd_vp d = vp) (swap_devs (swap_priority st))"

text \<open>The same with \<^verbatim>\<open>remove\<close> set: the first entry for the vnode is taken out.\<close>

fun remove_dev :: "nat \<Rightarrow> swappri list \<Rightarrow> swappri list" where
  "remove_dev vp [] = []"
| "remove_dev vp (spp # rest) =
     (case List.extract (\<lambda>d. swd_vp d = vp) (spi_swapdev spp) of
        None \<Rightarrow> spp # remove_dev vp rest
      | Some (pre, _, post) \<Rightarrow> spp\<lparr>spi_swapdev := pre @ post\<rparr> # rest)"

definition swaplist_remove :: "nat \<Rightarrow> uvmswap \<Rightarrow> uvmswap" where
  "swaplist_remove vp st =
     (if swaplist_find vp st = None then st
      else st\<lparr>swap_priority := remove_dev vp (swap_priority st), nswapdev := nswapdev st - 1\<rparr>)"

definition swaplist_trim :: "uvmswap \<Rightarrow> uvmswap" where
  "swaplist_trim st = st\<lparr>swap_priority := filter (\<lambda>spp. spi_swapdev spp \<noteq> []) (swap_priority st)\<rparr>"

section \<open>The drum\<close>

text \<open>The calls of \<^verbatim>\<open>extent_alloc\<close> and \<^verbatim>\<open>extent_free\<close> on \<^verbatim>\<open>swapmap\<close>; the result of the former is kept in an \<^verbatim>\<open>int\<close>.\<close>

definition drum_alloc :: "int \<Rightarrow> extent \<Rightarrow> sw_panic + int \<times> extent" where
  "drum_alloc npages ex =
     (case extent_alloc_subregion True (ex_start ex) (ex_end ex) (of_int npages) 1 0 0 {EX_WAITOK} ex of
        Ext_Ok result ex' \<Rightarrow> Inr (sint (ucast result :: u32), ex')
      | Ext_Err e ex' \<Rightarrow> Inl Sw_drum
      | Ext_Sleep ex' \<Rightarrow> Inl Sw_hang
      | Ext_Panic \<Rightarrow> Inl Sw_extent)"

definition drum_free :: "int \<Rightarrow> int \<Rightarrow> extent \<Rightarrow> sw_panic + extent" where
  "drum_free off sz ex =
     (case extent_free True (of_int off) (of_int sz) {EX_WAITOK} ex of
        Ext_Ok _ ex' \<Rightarrow> Inr ex'
      | Ext_Err e ex' \<Rightarrow> Inr ex'
      | Ext_Sleep ex' \<Rightarrow> Inl Sw_hang
      | Ext_Panic \<Rightarrow> Inl Sw_extent)"

definition swapdrum_add :: "swapdev \<Rightarrow> int \<Rightarrow> extent \<Rightarrow> sw_panic + swapdev \<times> extent" where
  "swapdrum_add sdp npages ex =
     ebind (drum_alloc npages ex) (\<lambda>(result, ex). Inr (sdp\<lparr>swd_drumoffset := result, swd_drumsize := npages\<rparr>, ex))"

definition in_drum :: "int \<Rightarrow> swapdev \<Rightarrow> bool" where
  "in_drum pgno sdp \<longleftrightarrow> swd_drumoffset sdp \<le> pgno \<and> pgno < swd_drumoffset sdp + swd_drumsize sdp"

definition swapdrum_getsdp :: "int \<Rightarrow> uvmswap \<Rightarrow> swapdev option" where
  "swapdrum_getsdp pgno st = find (in_drum pgno) (swap_devs (swap_priority st))"

section \<open>Enabling a device\<close>

datatype vtype = VBLK | VREG | VOTHER

record swap_env =
  se_vnd :: bool
  se_root :: bool
  se_open :: "errno option"
  se_type :: vtype
  se_psize :: "u32 option"
  se_getattr :: "errno + u64"
  se_statfs :: "errno option"
  se_hibernate :: bool

text \<open>The size in disk blocks, as an \<^verbatim>\<open>int\<close>.\<close>

definition swap_nblocks :: "swap_env \<Rightarrow> errno + u32" where
  "swap_nblocks env =
     (case se_type env of
        VBLK \<Rightarrow> (case se_psize env of None \<Rightarrow> Inl ENXIO | Some n \<Rightarrow> if n = - 1 then Inl ENXIO else Inr n)
      | VREG \<Rightarrow>
          (case se_getattr env of
             Inl e \<Rightarrow> Inl e
           | Inr va_size \<Rightarrow> (case se_statfs env of Some e \<Rightarrow> Inl e | None \<Rightarrow> Inr (ucast (drop_bit 9 va_size))))
      | VOTHER \<Rightarrow> Inl ENXIO)"

text \<open>\<^verbatim>\<open>npages = dbtob((u_int64_t)nblocks) >> PAGE_SHIFT\<close>\<close>

definition swap_npages :: "u32 \<Rightarrow> int" where
  "swap_npages nblocks = sint (ucast (drop_bit 12 (push_bit 9 (scast nblocks :: u64))) :: u32)"

text \<open>The last page of the primary swap device is kept for hibernation.\<close>

definition swap_reserve :: "swap_env \<Rightarrow> int \<Rightarrow> int \<Rightarrow> blist \<Rightarrow> sw_panic + blist" where
  "swap_reserve env npages sz bl =
     (if se_hibernate env \<and> se_type env = VBLK \<and> sz > 3 then
        (case blist_fill bl (nat (npages - 1)) 1 of
           Inl e \<Rightarrow> Inl (Sw_blist e)
         | Inr (filled, bl) \<Rightarrow> if filled \<noteq> 1 then Inl Sw_hibernate else Inr bl)
      else Inr bl)"

definition swap_on :: "(nat \<Rightarrow> blmeta) \<Rightarrow> swap_env \<Rightarrow> swapdev \<Rightarrow> extent \<Rightarrow> sw_panic + (errno + swapdev \<times> extent)" where
  "swap_on junk env sdp ex =
     (if se_vnd env then Inr (Inl EOPNOTSUPP)
      else if \<not> se_root env \<and> se_open env \<noteq> None then Inr (Inl (the (se_open env)))
      else
        case swap_nblocks env of
          Inl e \<Rightarrow> Inr (Inl e)
        | Inr nblocks \<Rightarrow>
            (let npages = swap_npages nblocks;
                 (sz, addr) = (if se_type env = VBLK then (npages - 1, 1) else (npages, 0))
             in if sz < 1 then Inr (Inl EINVAL)
                else
                  case blist_create junk (nat npages) of
                    None \<Rightarrow> Inl Sw_hang
                  | Some (Inl e) \<Rightarrow> Inl (Sw_blist e)
                  | Some (Inr bl) \<Rightarrow>
                      (case blist_free bl addr (nat sz) of
                         Inl e \<Rightarrow> Inl (Sw_blist e)
                       | Inr bl \<Rightarrow>
                           ebind (swap_reserve env npages sz bl) (\<lambda>bl.
                           ebind (swapdrum_add (sdp\<lparr>swd_nblks := sint nblocks, swd_blist := Some bl\<rparr>) npages ex) (\<lambda>(sdp, ex).
                           Inr (Inr (sdp\<lparr>swd_npages := sz, swf_fake := False, swf_inuse := True, swf_enable := True\<rparr>, ex)))))))"

section \<open>swapctl\<close>

definition new_swapdev :: "nat \<Rightarrow> int \<Rightarrow> swapdev" where
  "new_swapdev vp dev =
     \<lparr>swd_vp = vp, swd_dev = dev, swf_inuse = False, swf_enable = False, swf_fake = True, swd_priority = 0, swd_inuse = 0, swd_nblks = 0,
      swd_npages = 0, swd_npginuse = 0, swd_npgbad = 0, swd_drumoffset = 0, swd_drumsize = 0, swd_blist = None\<rparr>"

text \<open>\<^verbatim>\<open>SWAP_ON\<close> up to the placeholder; \<open>swappable\<close> is the flag of the file system of a regular file.\<close>

definition swapctl_on_begin :: "nat \<Rightarrow> int \<Rightarrow> vtype \<Rightarrow> bool \<Rightarrow> int \<Rightarrow> uvmswap \<Rightarrow> errno + uvmswap" where
  "swapctl_on_begin vp dev vtype swappable priority st =
     (if vtype = VREG \<and> \<not> swappable then Inl ENOTSUP
      else if swaplist_find vp st \<noteq> None then Inl EBUSY
      else Inr (swaplist_insert (new_swapdev vp dev) priority st))"

text \<open>The rest, which ends the placeholder or makes it a device.\<close>

definition swapctl_on_end :: "(nat \<Rightarrow> blmeta) \<Rightarrow> swap_env \<Rightarrow> nat \<Rightarrow> uvmswap \<Rightarrow> sw_panic + errno option \<times> uvmswap" where
  "swapctl_on_end junk env vp st =
     (case swaplist_find vp st of
        None \<Rightarrow> Inl Sw_notinlist
      | Some sdp \<Rightarrow>
          ebind (swap_on junk env sdp (swapmap st)) (\<lambda>res.
          case res of
            Inl e \<Rightarrow> Inr (Some e, swaplist_trim (swaplist_remove vp st))
          | Inr (sdp', ex) \<Rightarrow>
              Inr (None, st\<lparr>swap_priority := swap_update vp (\<lambda>_. sdp') (swap_priority st), swapmap := ex, swpages := swpages st + swd_npages sdp'\<rparr>)))"

definition swapctl_ctl :: "nat \<Rightarrow> int \<Rightarrow> uvmswap \<Rightarrow> errno option \<times> uvmswap" where
  "swapctl_ctl vp priority st =
     (case swaplist_find vp st of
        None \<Rightarrow> (Some ENOENT, st)
      | Some sdp \<Rightarrow> (None, swaplist_trim (swaplist_insert sdp priority (swaplist_remove vp st))))"

definition swapctl_off_begin :: "nat \<Rightarrow> uvmswap \<Rightarrow> errno + uvmswap" where
  "swapctl_off_begin vp st =
     (case swaplist_find vp st of
        None \<Rightarrow> Inl ENXIO
      | Some sdp \<Rightarrow>
          if \<not> swf_inuse sdp \<and> \<not> swf_enable sdp then Inl EBUSY
          else Inr (st\<lparr>swap_priority := swap_update vp (\<lambda>d. d\<lparr>swf_enable := False\<rparr>) (swap_priority st)\<rparr>))"

text \<open>\<^verbatim>\<open>swap_off\<close> after \<^verbatim>\<open>uao_swap_off\<close> and \<^verbatim>\<open>amap_swap_off\<close>, one of which failed if \<open>nomem\<close> is set.\<close>

definition swapctl_off_end :: "bool \<Rightarrow> nat \<Rightarrow> uvmswap \<Rightarrow> sw_panic + errno option \<times> uvmswap" where
  "swapctl_off_end nomem vp st =
     (case swaplist_find vp st of
        None \<Rightarrow> Inl Sw_notinlist
      | Some sdp \<Rightarrow>
          (let err = (if nomem then Some ENOMEM else if swd_npginuse sdp > swd_npgbad sdp then Some EBUSY else None)
           in if err \<noteq> None then
                Inr (err, st\<lparr>swap_priority := swap_update vp (\<lambda>d. d\<lparr>swf_enable := True\<rparr>) (swap_priority st)\<rparr>)
              else
                (let st = swaplist_trim (swaplist_remove vp (st\<lparr>swpages := swpages st - swd_npages sdp\<rparr>))
                 in ebind (drum_free (swd_drumoffset sdp) (swd_drumsize sdp) (swapmap st)) (\<lambda>ex. Inr (None, st\<lparr>swapmap := ex\<rparr>)))))"

definition swapctl_nswap :: "uvmswap \<Rightarrow> int" where
  "swapctl_nswap st = nswapdev st"

text \<open>\<^verbatim>\<open>SWAP_STATS\<close>: the devices that are copied out, with their blocks in use, and how many; \<open>copyout\<close> says which entry of the user's array faults.\<close>

fun stats_devs :: "(int \<Rightarrow> errno option) \<Rightarrow> int \<Rightarrow> int \<Rightarrow> swapdev list \<Rightarrow> errno option \<times> int \<times> swapdev list" where
  "stats_devs copyout misc n [] = (None, n, [])"
| "stats_devs copyout misc n (sdp # rest) =
     (if n \<ge> misc then (let (e, n, rest) = stats_devs copyout misc n rest in (e, n, sdp # rest))
      else
        (let sdp = sdp\<lparr>swd_inuse := swd_npginuse sdp * 8\<rparr>
         in case copyout n of
              Some e \<Rightarrow> (Some e, n, sdp # rest)
            | None \<Rightarrow> (let (e, n, rest) = stats_devs copyout misc (n + 1) rest in (e, n, sdp # rest))))"

fun stats_pris :: "(int \<Rightarrow> errno option) \<Rightarrow> int \<Rightarrow> int \<Rightarrow> swappri list \<Rightarrow> errno option \<times> int \<times> swappri list" where
  "stats_pris copyout misc n [] = (None, n, [])"
| "stats_pris copyout misc n (spp # rest) =
     (let (e, n, devs) = stats_devs copyout misc n (spi_swapdev spp); spp = spp\<lparr>spi_swapdev := devs\<rparr>
      in if e \<noteq> None then (e, n, spp # rest)
         else (let (e, n, rest) = stats_pris copyout misc n rest in (e, n, spp # rest)))"

definition swapctl_stats :: "(int \<Rightarrow> errno option) \<Rightarrow> int \<Rightarrow> uvmswap \<Rightarrow> (errno + int) \<times> uvmswap" where
  "swapctl_stats copyout misc st =
     (let (e, n, pris) = stats_pris copyout misc 0 (swap_priority st)
      in (case e of Some e \<Rightarrow> Inl e | None \<Rightarrow> Inr n, st\<lparr>swap_priority := pris\<rparr>))"

section \<open>Slots\<close>

text \<open>The walk over the devices of one priority: \<open>pre\<close> are those that were passed. A device that gave slots goes to the tail.\<close>

fun alloc_tailq :: "int \<Rightarrow> swapdev list \<Rightarrow> swapdev list \<Rightarrow> sw_panic + int option \<times> swapdev list" where
  "alloc_tailq nslots pre [] = Inr (None, pre)"
| "alloc_tailq nslots pre (sdp # rest) =
     (if \<not> swf_enable sdp then alloc_tailq nslots (pre @ [sdp]) rest
      else if swd_npginuse sdp + nslots > swd_npages sdp then alloc_tailq nslots (pre @ [sdp]) rest
      else
        ebind (blist_alloc_opt (swd_blist sdp) (nat nslots)) (\<lambda>(r, bl).
        case r of
          None \<Rightarrow> alloc_tailq nslots (pre @ [sdp\<lparr>swd_blist := bl\<rparr>]) rest
        | Some result \<Rightarrow>
            if int result < swd_drumsize sdp then
              Inr (Some (int result + swd_drumoffset sdp), pre @ rest @ [sdp\<lparr>swd_blist := bl, swd_npginuse := swd_npginuse sdp + nslots\<rparr>])
            else Inl Sw_kassert))"

fun alloc_pris :: "int \<Rightarrow> swappri list \<Rightarrow> sw_panic + int option \<times> swappri list" where
  "alloc_pris nslots [] = Inr (None, [])"
| "alloc_pris nslots (spp # rest) =
     ebind (alloc_tailq nslots [] (spi_swapdev spp)) (\<lambda>(r, devs).
     case r of
       Some slot \<Rightarrow> Inr (Some slot, spp\<lparr>spi_swapdev := devs\<rparr> # rest)
     | None \<Rightarrow> ebind (alloc_pris nslots rest) (\<lambda>(r, rest). Inr (r, spp\<lparr>spi_swapdev := devs\<rparr> # rest)))"

text \<open>The result is the slot (0 for none) and \<^verbatim>\<open>*nslots\<close>.\<close>

definition uvm_swap_alloc :: "int \<Rightarrow> bool \<Rightarrow> uvmswap \<Rightarrow> sw_panic + int \<times> int \<times> uvmswap" where
  "uvm_swap_alloc nslots lessok st =
     (if nswapdev st < 1 then Inr (0, nslots, st)
      else
        ebind (alloc_pris nslots (swap_priority st)) (\<lambda>(r, pris).
        case r of
          Some slot \<Rightarrow> Inr (slot, nslots, st\<lparr>swap_priority := pris, swpginuse := swpginuse st + nslots\<rparr>)
        | None \<Rightarrow>
            if nslots > 1 \<and> lessok then
              ebind (alloc_pris 1 pris) (\<lambda>(r, pris).
              case r of
                Some slot \<Rightarrow> Inr (slot, 1, st\<lparr>swap_priority := pris, swpginuse := swpginuse st + 1\<rparr>)
              | None \<Rightarrow> Inr (0, 1, st\<lparr>swap_priority := pris\<rparr>))
            else Inr (0, nslots, st\<lparr>swap_priority := pris\<rparr>)))"

definition SWSLOT_BAD :: int where [kern_defs]: "SWSLOT_BAD = - 1"

definition uvm_swap_markbad :: "int \<Rightarrow> int \<Rightarrow> uvmswap \<Rightarrow> uvmswap" where
  "uvm_swap_markbad startslot nslots st =
     (case swapdrum_getsdp startslot st of
        None \<Rightarrow> st
      | Some sdp \<Rightarrow>
          st\<lparr>swap_priority := swap_update (swd_vp sdp) (\<lambda>d. d\<lparr>swd_npgbad := swd_npgbad d + nslots\<rparr>) (swap_priority st)\<rparr>)"

definition uvm_swap_free :: "int \<Rightarrow> int \<Rightarrow> uvmswap \<Rightarrow> sw_panic + uvmswap" where
  "uvm_swap_free startslot nslots st =
     (if startslot = SWSLOT_BAD then Inr st
      else
        case swapdrum_getsdp startslot st of
          None \<Rightarrow> Inl Sw_kassert
        | Some sdp \<Rightarrow>
            if nswapdev st < 1 \<or> swd_npginuse sdp < nslots then Inl Sw_kassert
            else
              ebind (blist_free_opt (swd_blist sdp) (nat (startslot - swd_drumoffset sdp)) (nat nslots)) (\<lambda>bl.
              Inr (st\<lparr>swap_priority := swap_update (swd_vp sdp) (\<lambda>d. d\<lparr>swd_blist := bl, swd_npginuse := swd_npginuse d - nslots\<rparr>)
                                      (swap_priority st),
                      swpginuse := swpginuse st - nslots\<rparr>)))"

definition SWCLUSTPAGES :: int where [kern_defs]: "SWCLUSTPAGES = 16"

definition uvm_swapisfilled :: "uvmswap \<Rightarrow> sw_panic + bool" where
  "uvm_swapisfilled st =
     (if swpginuse st \<le> swpages st then Inr (swpginuse st + SWCLUSTPAGES \<ge> swpages st) else Inl Sw_kassert)"

definition uvm_swapisfull :: "int \<Rightarrow> uvmswap \<Rightarrow> sw_panic + bool" where
  "uvm_swapisfull swpgonly st = (if swpgonly \<le> swpages st then Inr (swpgonly \<ge> swpages st * 99 div 100) else Inl Sw_kassert)"

text \<open>\<^verbatim>\<open>uvm_hibswap\<close> takes the last device with this number; \<open>None\<close> is the result 1.\<close>

definition uvm_hibswap :: "bool \<Rightarrow> int \<Rightarrow> uvmswap \<Rightarrow> sw_panic + (nat \<times> nat) option" where
  "uvm_hibswap primary dev st =
     (if nswapdev st < 1 \<or> \<not> primary then Inr None
      else
        case find (\<lambda>d. swd_dev d = dev) (rev (swap_devs (swap_priority st))) of
          None \<Rightarrow> Inr None
        | Some swd \<Rightarrow>
            if \<not> swf_enable swd then Inr None
            else
              case swd_blist swd of
                None \<Rightarrow> Inl Sw_null
              | Some bl \<Rightarrow>
                  (case blist_gapfind bl of
                     Inl e \<Rightarrow> Inl (Sw_blist e)
                   | Inr (sp, ep) \<Rightarrow> if ep - sp = 0 then Inr None else Inr (Some (sp, ep - 1))))"

end
