(* ===== verification/Extent_Regions.thy ===== *)
theory Extent_Regions
  imports Extent
begin

text \<open>
  What a client that allocates whole ranges from an extent and gives them back relies on. The extent merges neighbouring regions and splits
  them again, but a range that was allocated at once always lies inside one region, which is what \<^verbatim>\<open>extent_free\<close> asks for.
\<close>

section \<open>Ranges inside one region\<close>

definition in_region :: "extent \<Rightarrow> u64 \<Rightarrow> u64 \<Rightarrow> bool" where
  "in_region ex a b \<longleftrightarrow> (\<exists>r\<in>set (ex_regions ex). er_start r \<le> a \<and> b \<le> er_end r)"

lemma in_region_space: "same_space ex ex' \<Longrightarrow> in_region ex' a b = in_region ex a b"
  by (simp add: same_space_def in_region_def)

lemma in_region_covered: "in_region ex a b \<Longrightarrow> {a..b} \<subseteq> allocated ex"
  by (force simp: in_region_def covers_def region_set_def)

text \<open>Inserting a region keeps every region, except that it may grow.\<close>

lemma insert_in_region:
  fixes rp :: extent_region
  assumes inv: "ex_inv ex" and fits: "fits_at (ex_regions ex) k start (start + (sz - 1))"
  defines "ex' \<equiv> extent_insert_and_optimize start sz (prev_region k) rp ex"
  shows "in_region ex' start (start + (sz - 1))" and "in_region ex a b \<Longrightarrow> in_region ex' a b"
proof -
  define xs ys e where "xs = take k (ex_regions ex)" and "ys = drop k (ex_regions ex)" and "e = start + (sz - 1)"
  have rs: "ex_regions ex = xs @ ys" and len: "length xs = k" using fits by (simp_all add: xs_def ys_def fits_at_def)
  have se: "start \<le> e" and before: "\<forall>r\<in>set xs. er_end r < start" and after: "\<forall>r\<in>set ys. e < er_start r"
    using fits by (auto simp: fits_at_def xs_def ys_def e_def)
  have le: "\<forall>r\<in>set xs. er_start r \<le> er_end r" "\<forall>r\<in>set ys. er_start r \<le> er_end r"
    using inv rs by (auto simp: ex_inv_def regions_ok_def)
  define joinl joinr where "joinl \<longleftrightarrow> \<not> exf_nocoalesce ex \<and> xs \<noteq> [] \<and> er_end (last xs) + 1 = start"
    and "joinr \<longleftrightarrow> \<not> exf_nocoalesce ex \<and> ys \<noteq> [] \<and> start + sz = er_start (hd ys)"
  obtain m where m: "ex_regions ex' = (if joinl then butlast xs else xs) @ m # (if joinr then tl ys else ys)"
    "er_start m = (if joinl then er_start (last xs) else start)" "er_end m = (if joinr then er_end (hd ys) else e)"
    using insert_shape [OF rs, of start sz rp] unfolding len ex'_def e_def joinl_def joinr_def by blast
  have l: "joinl \<Longrightarrow> last xs \<in> set xs" and r: "joinr \<Longrightarrow> hd ys \<in> set ys" by (simp_all add: joinl_def joinr_def)
  have ms: "er_start m \<le> start" using l le(1) before unfolding m by (cases joinl) (simp_all, meson less_imp_le order_trans)
  have me: "e \<le> er_end m" using r le(2) after unfolding m by (cases joinr) (simp_all, meson less_imp_le order_trans)
  have mset: "m \<in> set (ex_regions ex')" by (simp add: m)
  show "in_region ex' start (start + (sz - 1))" using ms me mset by (auto simp: in_region_def e_def)
  assume "in_region ex a b"
  then obtain q where q: "q \<in> set xs \<union> set ys" "er_start q \<le> a" "b \<le> er_end q" by (auto simp: in_region_def rs)
  consider "q \<in> set (ex_regions ex')" | "joinl" "q = last xs" | "joinr" "q = hd ys"
  proof -
    have x: "x \<in> set (butlast xs)" if "x \<in> set xs" "joinl" "x \<noteq> last xs" for x
      using that append_butlast_last_id [of xs] by (metis joinl_def in_set_conv_nth rotate1.simps(2) set_ConsD set_append set_rotate1 Un_iff empty_iff empty_set)
    have y: "y \<in> set (tl ys)" if "y \<in> set ys" "joinr" "y \<noteq> hd ys" for y
      using that by (cases ys) auto
    have "q \<in> set (ex_regions ex') \<or> joinl \<and> q = last xs \<or> joinr \<and> q = hd ys"
      using q(1) x [of q] y [of q] unfolding m(1) by auto
    then show ?thesis using that by blast
  qed
  then show "in_region ex' a b"
  proof cases
    case 2
    then have "er_end q \<le> er_end m" using before l se me by (auto intro: order_trans less_imp_le)
    then have "er_start m \<le> a" "b \<le> er_end m" using 2 q m(2) by auto
    then show ?thesis using mset by (auto simp: in_region_def)
  next
    case 3
    then have "er_start m \<le> er_start q" using after r se ms by (meson order_trans less_imp_le)
    then have "er_start m \<le> a" "b \<le> er_end m" using 3 q m(3) by auto
    then show ?thesis using mset by (auto simp: in_region_def)
  qed (use q in \<open>auto simp: in_region_def\<close>)
qed

text \<open>Freeing a range keeps what lies beside it.\<close>

lemma free_loop_in_region:
  assumes "regions_ok lo hi rs" "start \<le> e" "r \<in> set rs" "er_start r \<le> a" "a \<le> b" "b \<le> er_end r" "b < start \<or> e < a"
    and "EX_CONFLICTOK \<notin> flags"
  shows "\<exists>r'\<in>set (fr_regions (extent_free_loop False flags start e nrp rs)). er_start r' \<le> a \<and> b \<le> er_end r'"
  using assms(1,3)
proof (induction rs)
  case (Cons rp rs)
  have IH: "r \<in> set rs \<Longrightarrow>
      \<exists>r'\<in>set (fr_regions (extent_free_loop False flags start e nrp rs)). er_start r' \<le> a \<and> b \<le> er_end r'"
    using Cons by (simp add: regions_ok_Cons)
  note w = word_succ_le [of e] word_pred_le [of _ start]
  show ?case
  proof (cases "r = rp")
    case True
    have "b \<le> start - 1" if "b < start" using that by unat_arith
    moreover have "e + 1 \<le> a" if "e < a" using that by unat_arith
    ultimately show ?thesis using True assms(2,4-8) by (auto simp: Let_def)
  next
    case False
    then have "r \<in> set rs" using Cons.prems(2) by simp
    then show ?thesis using IH assms(4-6,8) by (auto simp: Let_def)
  qed
qed simp

end
