(* ===== verification/Swap_Drum.thy ===== *)
theory Swap_Drum
  imports Uvm_Swap Extent_Regions
begin

text \<open>
  The drum as its clients see it: a map of disjoint ranges of slot numbers that are got and put back whole. The locale \<open>drum_map\<close> is
  that interface, its interpretation rests on the theorems about extents.
\<close>

definition drum_set :: "int \<times> int \<Rightarrow> int set" where
  "drum_set r = {fst r..<fst r + snd r}"

definition drums_disjoint :: "(int \<times> int) set \<Rightarrow> bool" where
  "drums_disjoint R \<longleftrightarrow> (\<forall>r\<in>R. \<forall>r'\<in>R. r \<noteq> r' \<longrightarrow> drum_set r \<inter> drum_set r' = {})"

lemma drums_disjoint_insert:
  "drums_disjoint R \<Longrightarrow> \<forall>r'\<in>R. drum_set r' \<inter> drum_set r = {} \<Longrightarrow> drums_disjoint (insert r R)"
  by (auto simp: drums_disjoint_def)

lemma drums_disjoint_mono: "drums_disjoint R \<Longrightarrow> R' \<subseteq> R \<Longrightarrow> drums_disjoint R'"
  unfolding drums_disjoint_def by blast

locale drum_map =
  fixes map_ok :: "'m \<Rightarrow> (int \<times> int) set \<Rightarrow> bool"
    and get :: "int \<Rightarrow> 'm \<Rightarrow> 'e + int \<times> 'm"
    and put :: "int \<Rightarrow> int \<Rightarrow> 'm \<Rightarrow> 'e + 'm"
    and limit :: int
    and full :: 'e
  assumes bounds: "map_ok m R \<Longrightarrow> (off, n) \<in> R \<Longrightarrow> 1 \<le> off \<and> 1 \<le> n \<and> off + n \<le> limit"
    and disjoint: "map_ok m R \<Longrightarrow> drums_disjoint R"
    and get_law: "map_ok m R \<Longrightarrow> 1 \<le> n \<Longrightarrow> n < limit \<Longrightarrow>
      (case get n m of
         Inl e \<Rightarrow> e = full \<and> (\<forall>off. 1 \<le> off \<and> off + n \<le> limit \<longrightarrow> (\<exists>r\<in>R. drum_set r \<inter> drum_set (off, n) \<noteq> {}))
       | Inr (off, m') \<Rightarrow> (\<forall>r\<in>R. drum_set r \<inter> drum_set (off, n) = {}) \<and> map_ok m' (insert (off, n) R))"
    and put_law: "map_ok m R \<Longrightarrow> (off, n) \<in> R \<Longrightarrow> \<exists>m'. put off n m = Inr m' \<and> map_ok m' (R - {(off, n)})"
begin

lemma getE:
  assumes "map_ok m R" "1 \<le> n" "n < limit"
  obtains (full) "get n m = Inl full" "\<forall>off. 1 \<le> off \<and> off + n \<le> limit \<longrightarrow> (\<exists>r\<in>R. drum_set r \<inter> drum_set (off, n) \<noteq> {})"
  | (got) off m' where "get n m = Inr (off, m')" "(off, n) \<notin> R" "\<forall>r\<in>R. drum_set r \<inter> drum_set (off, n) = {}"
      "map_ok m' (insert (off, n) R)" "1 \<le> off" "off + n \<le> limit"
proof (cases "get n m")
  case (Inl e)
  then show ?thesis using full get_law [OF assms] by auto
next
  case (Inr p)
  obtain off m' where p: "p = (off, m')" by (cases p)
  have g: "\<forall>r\<in>R. drum_set r \<inter> drum_set (off, n) = {}" "map_ok m' (insert (off, n) R)"
    using get_law [OF assms] Inr p by auto
  moreover have "drum_set (off, n) \<noteq> {}" using assms(2) by (simp add: drum_set_def)
  moreover have "1 \<le> off \<and> off + n \<le> limit" using bounds [OF g(2), of off n] by simp
  ultimately show ?thesis using got Inr p by (metis Int_absorb)
qed

text \<open>What was got can be put back, and the map then holds the same ranges as before.\<close>

lemma get_put:
  assumes "map_ok m R" "1 \<le> n" "n < limit" "get n m = Inr (off, m')"
  shows "\<exists>m''. put off n m' = Inr m'' \<and> map_ok m'' R"
  using assms(1-3)
proof (cases rule: getE)
  case (got off' m1)
  then have "map_ok m' (insert (off, n) R)" "(off, n) \<notin> R" using assms(4) by auto
  then show ?thesis using put_law [of m' "insert (off, n) R" off n] by auto
qed (use assms(4) in simp)

text \<open>After a range was put back there is room for it.\<close>

lemma put_get:
  assumes "map_ok m R" "(off, n) \<in> R" "put off n m = Inr m'" "n < limit"
  shows "\<exists>off' m''. get n m' = Inr (off', m'')"
proof -
  have b: "1 \<le> off" "1 \<le> n" "off + n \<le> limit" using bounds [OF assms(1,2)] by auto
  have "map_ok m' (R - {(off, n)})" using put_law [OF assms(1,2)] assms(3) by auto
  then show ?thesis using b(2) assms(4)
  proof (cases rule: getE)
    case full
    then obtain r where "r \<in> R" "r \<noteq> (off, n)" "drum_set r \<inter> drum_set (off, n) \<noteq> {}" using b by blast
    then show ?thesis using disjoint [OF assms(1)] assms(2) by (auto simp: drums_disjoint_def)
  qed blast
qed

end

section \<open>The extent as a drum\<close>

lemma free_descriptor_malloced: "\<not> exf_fixed ex \<Longrightarrow> extent_free_region_descriptor rp ex = ex"
  by (simp add: extent_free_region_descriptor_def)

lemma with_descriptor_malloced:
  "\<not> exf_fixed ex \<Longrightarrow> with_descriptor True flags f ex = f (blank_region\<lparr>er_alloc := True\<rparr>) ex"
  by (simp add: with_descriptor_def extent_alloc_region_descriptor_def)

lemma fold_free_malloced: "\<not> exf_fixed ex \<Longrightarrow> fold extent_free_region_descriptor rs ex = ex"
  by (induction rs) (simp_all add: free_descriptor_malloced)

lemma insert_frame:
  assumes "\<not> exf_fixed ex"
  shows "exf_nocoalesce (extent_insert_and_optimize start sz after rp ex) = exf_nocoalesce ex"
    and "\<not> exf_fixed (extent_insert_and_optimize start sz after rp ex)"
  using assms by (auto simp: extent_insert_and_optimize_def free_descriptor_malloced Let_def split: option.split)

definition swapmap_ok :: "extent \<Rightarrow> (int \<times> int) set \<Rightarrow> bool" where
  "swapmap_ok ex R \<longleftrightarrow>
     ex_inv ex \<and> ex_start ex = 1 \<and> ex_end ex = 0x7fffffff \<and> \<not> exf_nocoalesce ex \<and> \<not> exf_fixed ex \<and> drums_disjoint R \<and>
     (\<forall>(off, n)\<in>R. 1 \<le> off \<and> 1 \<le> n \<and> off + n \<le> 2 ^ 31 \<and> in_region ex (of_int off) (of_int (off + n - 1))) \<and>
     allocated ex = of_int ` (\<Union> (drum_set ` R))"

text \<open>Slot numbers as addresses of the extent.\<close>

lemma uint_slot: "0 \<le> a \<Longrightarrow> a < 2 ^ 32 \<Longrightarrow> uint (of_int a :: u64) = a"
  by (simp add: uint_word_of_int_eq take_bit_int_eq_self)

lemma slot_inj: "inj_on (of_int :: int \<Rightarrow> u64) {0..<2 ^ 32}"
  by (rule inj_onI) (metis atLeastLessThan_iff uint_slot)

lemma slot_range:
  assumes "1 \<le> a" "1 \<le> n" "a + n \<le> 2 ^ 31"
  shows "(of_int a :: u64) + (of_int n - 1) = of_int (a + n - 1)"
    and "{of_int a :: u64..of_int (a + n - 1)} = of_int ` drum_set (a, n)"
    and "(1 :: u64) \<le> of_int a" "(of_int a :: u64) \<le> of_int (a + n - 1)" "(of_int (a + n - 1) :: u64) \<le> 0x7fffffff"
    "(1 :: u64) \<le> of_int n" "(of_int n :: u64) - 1 \<le> 0x7ffffffe"
proof -
  show "(of_int a :: u64) + (of_int n - 1) = of_int (a + n - 1)" by simp
  have u: "uint (of_int a :: u64) = a" "uint (of_int (a + n - 1) :: u64) = a + n - 1" "uint (of_int n :: u64) = n"
    using assms by (intro uint_slot; simp)+
  show "(1 :: u64) \<le> of_int a" "(of_int a :: u64) \<le> of_int (a + n - 1)" "(of_int (a + n - 1) :: u64) \<le> 0x7fffffff"
    "(1 :: u64) \<le> of_int n"
    unfolding word_le_def u using assms by simp_all
  have "(of_int n :: u64) - 1 = of_int (n - 1)" "uint (of_int (n - 1) :: u64) = n - 1" using assms by (simp, intro uint_slot) simp_all
  then show "(of_int n :: u64) - 1 \<le> 0x7ffffffe" unfolding word_le_def using assms by (simp del: of_int_diff)
  have "x \<in> of_int ` {a..<a + n}" if "of_int a \<le> x" "x \<le> of_int (a + n - 1)" for x :: u64
  proof -
    have "a \<le> uint x" "uint x \<le> a + n - 1" using that unfolding word_le_def u by auto
    then show ?thesis by (intro image_eqI [of _ _ "uint x"]) auto
  qed
  moreover have "of_int a \<le> (of_int x :: u64) \<and> (of_int x :: u64) \<le> of_int (a + n - 1)" if "a \<le> x" "x < a + n" for x
    using that assms uint_slot [of x] unfolding word_le_def u by simp
  ultimately show "{of_int a :: u64..of_int (a + n - 1)} = of_int ` drum_set (a, n)"
    by (auto simp: drum_set_def)
qed

lemma slot_image_disjoint:
  assumes "A \<subseteq> {0..<2 ^ 32}" "B \<subseteq> {0..<2 ^ 32}"
  shows "((of_int :: int \<Rightarrow> u64) ` A) \<inter> of_int ` B = {} \<longleftrightarrow> A \<inter> B = {}"
  using inj_on_image_Int [OF slot_inj assms] by (metis image_is_empty)

lemma swapmap_drums: "swapmap_ok ex R \<Longrightarrow> \<Union> (drum_set ` R) \<subseteq> {0..<2 ^ 32}"
  by (force simp: swapmap_ok_def drum_set_def)

lemma slot_sint:
  assumes "1 \<le> s" "s + (of_int n - 1) \<le> 0x7fffffff" "s \<le> s + (of_int n - 1)" "1 \<le> n" "n < 2 ^ 31"
  shows "sint (ucast (s :: u64) :: u32) = uint s" "s = of_int (uint s)" "1 \<le> uint s" "uint s + n \<le> 2 ^ 31"
proof -
  have n: "of_int n - 1 = (of_int (n - 1) :: u64)" "uint (of_int (n - 1) :: u64) = n - 1" using assms(4,5) by (simp, intro uint_slot) simp_all
  have s: "uint s \<le> 0x7fffffff" "1 \<le> uint s" using order_trans [OF assms(3,2)] assms(1) by (simp_all add: word_le_def)
  have "uint (s + of_int (n - 1)) = uint s + (n - 1)"
    using n s assms(4,5) by (subst uint_add_lem [THEN iffD1]) (simp_all del: of_int_diff)
  then show "uint s + n \<le> 2 ^ 31" using assms(2) unfolding n(1) word_le_def by simp
  have "sint (ucast s :: u32) = signed_take_bit 31 (uint s)" by (simp add: sint_uint unsigned_ucast_eq signed_take_bit_take_bit min_def)
  also have "\<dots> = uint s" using s by (intro signed_take_bit_int_eq_self) simp_all
  finally show "sint (ucast s :: u32) = uint s" .
  show "s = of_int (uint s)" "1 \<le> uint s" using s by simp_all
qed

lemma drum_alloc_law:
  assumes ok: "swapmap_ok ex R" and n: "1 \<le> n" "n < 2 ^ 31"
  shows "case drum_alloc n ex of
      Inl e \<Rightarrow> e = Sw_drum \<and> (\<forall>off. 1 \<le> off \<and> off + n \<le> 2 ^ 31 \<longrightarrow> (\<exists>r\<in>R. drum_set r \<inter> drum_set (off, n) \<noteq> {}))
    | Inr (off, ex') \<Rightarrow> (\<forall>r\<in>R. drum_set r \<inter> drum_set (off, n) = {}) \<and> swapmap_ok ex' (insert (off, n) R)"
proof -
  let ?sz = "of_int n :: u64" and ?rp = "blank_region\<lparr>er_alloc := True\<rparr>" and ?rs = "ex_regions ex"
  let ?res = "extent_do_alloc (ex_start ex) (ex_end ex) ?sz 1 0 0 {EX_WAITOK} ?rp ex"
  have ex: "ex_inv ex" "ex_start ex = 1" "ex_end ex = 0x7fffffff" "\<not> exf_nocoalesce ex" "\<not> exf_fixed ex" "drums_disjoint R"
    and al: "allocated ex = of_int ` (\<Union> (drum_set ` R))"
    using ok by (auto simp: swapmap_ok_def)
  note sub = swapmap_drums [OF ok]
  define good where "good = good_place ?rs (ex_start ex) (ex_end ex) ?sz 0 0 0 0 (line_of {EX_WAITOK} (ex_start ex))"
  define feas where "feas = (\<lambda>s. (0 :: u64) = 0 \<and> feasible ?rs (ex_start ex) (ex_end ex) ?sz 0 0 s)"
  have res: "alloc_ok ex good feas ?sz ?rp ?res"
    unfolding good_def feas_def
    by (rule do_alloc_spec [OF ex(1)]) (use ex slot_range(6,7) [of 1 n] n in \<open>simp_all add: bound_args_def\<close>)
  have eq: "extent_alloc_subregion True (ex_start ex) (ex_end ex) ?sz 1 0 0 {EX_WAITOK} ex = ?res"
    using ex(5) by (simp add: extent_alloc_subregion_def with_descriptor_malloced)
  show ?thesis
  proof (cases ?res)
    case (Ext_Ok s ex')
    then obtain lst where g: "good lst s" and ex': "ex' = extent_insert_and_optimize s ?sz lst ?rp ex"
      using res by (auto simp: alloc_ok_def)
    then obtain k where k: "lst = prev_region k" "fits_at ?rs k s (s + (?sz - 1))" and s: "1 \<le> s" "s + (?sz - 1) \<le> 0x7fffffff"
      by (auto simp: good_def good_place_def ex)
    have "s \<le> s + (?sz - 1)" using k by (simp add: fits_at_def)
    note s' = slot_sint [OF s this n]
    define off where "off = uint s"
    have off: "s = of_int off" "1 \<le> off" "off + n \<le> 2 ^ 31" "sint (ucast s :: u32) = off" using s' by (simp_all add: off_def)
    note r = slot_range [OF off(2) n(1) off(3)]
    have e: "s + (?sz - 1) = of_int (off + n - 1)" using r(1) off(1) by simp
    have fr: "ex_inv ex'" "allocated ex' = allocated ex \<union> of_int ` drum_set (off, n)" "allocated ex \<inter> of_int ` drum_set (off, n) = {}"
      using good_place_alloc [OF ex(1) g [unfolded good_def] order_refl order_refl, of ?rp]
      unfolding ex' e r(2) [folded off(1)] by blast+
    have dis: "\<Union> (drum_set ` R) \<inter> drum_set (off, n) = {}"
      using fr(3) off unfolding al by (subst (asm) slot_image_disjoint [OF sub]) (auto simp: drum_set_def)
    have reg: "in_region ex' (of_int off) (of_int (off + n - 1))" "in_region ex a b \<Longrightarrow> in_region ex' a b" for a b
      using insert_in_region [OF ex(1) k(2), where rp = ?rp] unfolding ex' k(1) e off(1) [symmetric] by blast+
    have "swapmap_ok ex' (insert (off, n) R)"
      unfolding swapmap_ok_def
    proof (intro conjI)
      show "\<forall>(off, n)\<in>insert (off, n) R. 1 \<le> off \<and> 1 \<le> n \<and> off + n \<le> 2 ^ 31 \<and> in_region ex' (of_int off) (of_int (off + n - 1))"
        using ok off n reg by (auto simp: swapmap_ok_def)
      show "allocated ex' = of_int ` (\<Union> (drum_set ` insert (off, n) R))" unfolding fr(2) al by auto
      show "drums_disjoint (insert (off, n) R)" using dis by (intro drums_disjoint_insert [OF ex(6)]) auto
    qed (use ex fr(1) insert_frame [OF ex(5)] in \<open>simp_all add: ex'\<close>)
    then show ?thesis using Ext_Ok eq off(4) dis by (auto simp: drum_alloc_def)
  next
    case (Ext_Err err ex')
    have "\<exists>r\<in>R. drum_set r \<inter> drum_set (off, n) \<noteq> {}" if off: "1 \<le> off" "off + n \<le> 2 ^ 31" for off
    proof -
      note r = slot_range [OF off(1) n(1) off(2)]
      have "\<not> feasible ?rs 1 0x7fffffff ?sz 0 0 (of_int off)" using res Ext_Err by (simp add: alloc_ok_def feas_def ex)
      then have "allocated ex \<inter> of_int ` drum_set (off, n) \<noteq> {}"
        using r by (simp add: feasible_def aligned_def)
      moreover have "drum_set (off, n) \<subseteq> {0..<2 ^ 32}" using off by (auto simp: drum_set_def)
      ultimately show ?thesis unfolding al slot_image_disjoint [OF sub] using slot_image_disjoint [OF sub] by blast
    qed
    then show ?thesis using Ext_Err eq by (simp add: drum_alloc_def)
  next
    case (Ext_Sleep ex')
    then have False by (auto simp: extent_do_alloc_def Let_def split: if_splits scan.splits)
    then show ?thesis ..
  qed (use res in \<open>simp add: alloc_ok_def\<close>)
qed

lemma extent_free_regions:
  assumes "\<not> exf_nocoalesce ex" "\<not> exf_fixed ex" "extent_free True start sz {EX_WAITOK} ex = Ext_Ok u ex'"
  shows "ex_regions ex' = fr_regions (extent_free_loop False {EX_WAITOK} start (start + (sz - 1)) (blank_region\<lparr>er_alloc := True\<rparr>) (ex_regions ex))"
    and "ex_start ex' = ex_start ex" "ex_end ex' = ex_end ex" "\<not> exf_nocoalesce ex'" "\<not> exf_fixed ex'"
  using assms
  by (auto simp: extent_free_def extent_free_body_def with_descriptor_malloced fold_free_malloced free_descriptor_malloced Let_def
      split: if_splits)

lemma drum_free_law:
  assumes ok: "swapmap_ok ex R" and mem: "(off, n) \<in> R"
  shows "\<exists>ex'. drum_free off n ex = Inr ex' \<and> swapmap_ok ex' (R - {(off, n)})"
proof -
  have ex: "ex_inv ex" "ex_start ex = 1" "ex_end ex = 0x7fffffff" "\<not> exf_nocoalesce ex" "\<not> exf_fixed ex" "drums_disjoint R"
    and al: "allocated ex = of_int ` (\<Union> (drum_set ` R))"
    and R: "\<And>off n. (off, n) \<in> R \<Longrightarrow> 1 \<le> off \<and> 1 \<le> n \<and> off + n \<le> 2 ^ 31 \<and> in_region ex (of_int off) (of_int (off + n - 1))"
    using ok by (auto simp: swapmap_ok_def)
  have off: "1 \<le> off" "1 \<le> n" "off + n \<le> 2 ^ 31" "in_region ex (of_int off) (of_int (off + n - 1))" using R [OF mem] by auto
  note r = slot_range [OF off(1-3)]
  have "case extent_free True (of_int off) (of_int n) {EX_WAITOK} ex of
      Ext_Ok _ ex' \<Rightarrow> ex_inv ex' \<and> allocated ex' = allocated ex - {of_int off..of_int (off + n - 1)}
    | Ext_Err err ex' \<Rightarrow> err = ENOMEM \<and> same_space ex ex' | Ext_Sleep ex' \<Rightarrow> same_space ex ex' | Ext_Panic \<Rightarrow> False"
    by (rule extent_free_spec [OF ex(1,4)]) (use r ex off(4) in \<open>simp_all add: in_region_def\<close>)
  moreover obtain ex' where ex': "extent_free True (of_int off) (of_int n) {EX_WAITOK} ex = Ext_Ok () ex'"
    using calculation ex by (auto simp: extent_free_def extent_free_body_def with_descriptor_malloced Let_def split: if_splits)
  ultimately have inv: "ex_inv ex'" "allocated ex' = allocated ex - of_int ` drum_set (off, n)" using r(2) by auto
  note fr = extent_free_regions [OF ex(4,5) ex']
  have dis: "drum_set r \<inter> drum_set (off, n) = {}" if "r \<in> R" "r \<noteq> (off, n)" for r
    using ex(6) mem that by (simp add: drums_disjoint_def)
  have "swapmap_ok ex' (R - {(off, n)})"
    unfolding swapmap_ok_def
  proof (intro conjI)
    have "in_region ex' (of_int a) (of_int (a + b - 1))" if ab: "(a, b) \<in> R" "(a, b) \<noteq> (off, n)" for a b
    proof -
      note a = R [OF ab(1)]
      note ra = slot_range [of a b]
      have "a + b - 1 < off \<or> off + n - 1 < a" using dis [OF ab] a off by (auto simp: drum_set_def)
      then have "(of_int (a + b - 1) :: u64) < of_int off \<or> (of_int (off + n - 1) :: u64) < of_int a"
        unfolding word_less_def using a off by (simp add: uint_slot del: of_int_add of_int_diff)
      moreover obtain q where "q \<in> set (ex_regions ex)" "er_start q \<le> of_int a" "of_int (a + b - 1) \<le> er_end q"
        using a by (auto simp: in_region_def)
      ultimately show ?thesis
        using free_loop_in_region [of "ex_start ex" "ex_end ex" "ex_regions ex" "of_int off" "of_int (off + n - 1)" q "of_int a" "of_int (a + b - 1)"
            "{EX_WAITOK}" "blank_region\<lparr>er_alloc := True\<rparr>"] ex(1) r(4) ra(4) a
        unfolding in_region_def fr(1) r(1) ex_inv_def by blast
    qed
    then show "\<forall>(off, n)\<in>R - {(off, n)}. 1 \<le> off \<and> 1 \<le> n \<and> off + n \<le> 2 ^ 31 \<and> in_region ex' (of_int off) (of_int (off + n - 1))"
      using R by auto
    have "drum_set (off, n) \<subseteq> \<Union> (drum_set ` R)" using mem by blast
    then have "allocated ex' = of_int ` (\<Union> (drum_set ` R) - drum_set (off, n))"
      unfolding inv(2) al using swapmap_drums [OF ok] by (intro inj_on_image_set_diff [OF slot_inj, symmetric]) auto
    moreover have "\<Union> (drum_set ` R) - drum_set (off, n) = \<Union> (drum_set ` (R - {(off, n)}))" using dis by auto
    ultimately show "allocated ex' = of_int ` (\<Union> (drum_set ` (R - {(off, n)})))" by simp
    show "drums_disjoint (R - {(off, n)})" by (rule drums_disjoint_mono [OF ex(6)]) blast
  qed (use ex fr inv(1) in simp_all)
  then show ?thesis using ex' by (simp add: drum_free_def)
qed

interpretation dr: drum_map swapmap_ok drum_alloc drum_free "2 ^ 31" Sw_drum
proof
  show "1 \<le> off \<and> 1 \<le> n \<and> off + n \<le> 2 ^ 31" if "swapmap_ok m R" "(off, n) \<in> R" for m R off n
    using that by (auto simp: swapmap_ok_def)
  show "drums_disjoint R" if "swapmap_ok m R" for m R
    using that by (simp add: swapmap_ok_def)
qed (use drum_alloc_law drum_free_law in blast)+

end
