(* ===== verification/Swap_Inv.thy ===== *)
theory Swap_Inv
  imports Swap_Drum "HOL-Library.Multiset"
begin

text \<open>
  The parts of the swap configuration: the list of devices by priority, when one device is consistent with the slots that are in use on it, and what
  the walk of \<^verbatim>\<open>uvm_swap_alloc\<close> does. The order of the devices inside a priority changes with every allocation, so the list is mostly
  considered as the multiset of its devices.
\<close>

section \<open>The list of priorities\<close>

definition pris_pre :: "swappri list \<Rightarrow> bool" where
  "pris_pre pris \<longleftrightarrow>
     sorted_wrt (<) (map spi_priority pris) \<and> (\<forall>p\<in>set pris. \<forall>d\<in>set (spi_swapdev p). swd_priority d = spi_priority p)"

definition pris_ok :: "swappri list \<Rightarrow> bool" where
  "pris_ok pris \<longleftrightarrow> pris_pre pris \<and> (\<forall>p\<in>set pris. spi_swapdev p \<noteq> [])"

lemma swap_devs_simps [simp]:
  "swap_devs [] = []" "swap_devs (p # ps) = spi_swapdev p @ swap_devs ps"
  by (simp_all add: swap_devs_def)

lemma swap_devs_update: "swap_devs (swap_update vp f pris) = map (\<lambda>d. if swd_vp d = vp then f d else d) (swap_devs pris)"
  by (induction pris) (simp_all add: swap_update_def)

lemma pris_ok_Cons:
  "pris_ok (p # pris) \<longleftrightarrow> pris_ok pris \<and> spi_swapdev p \<noteq> [] \<and> (\<forall>d\<in>set (spi_swapdev p). swd_priority d = spi_priority p) \<and>
     (\<forall>x\<in>set (map spi_priority pris). spi_priority p < x)"
  by (auto simp: pris_ok_def pris_pre_def)

lemma pris_ok_update:
  "pris_ok pris \<Longrightarrow> (\<And>d. d \<in> set (swap_devs pris) \<Longrightarrow> swd_vp d = vp \<Longrightarrow> swd_priority (f d) = swd_priority d) \<Longrightarrow>
     pris_ok (swap_update vp f pris)"
  by (fastforce simp: pris_ok_def pris_pre_def swap_update_def comp_def swap_devs_def)

lemma insert_pri_set:
  "set (map spi_priority (swaplist_insert_pri sdp priority pris)) = insert priority (set (map spi_priority pris))"
  by (induction pris) auto

lemma pris_pre_insert:
  assumes "pris_pre pris" "swd_priority sdp = priority"
  shows "pris_pre (swaplist_insert_pri sdp priority pris)"
  using assms
proof (induction pris)
  case (Cons p pris)
  have tl: "pris_pre pris" using Cons.prems(1) by (simp add: pris_pre_def)
  have lt: "\<forall>q\<in>set pris. spi_priority p < spi_priority q" using Cons.prems(1) by (simp add: pris_pre_def)
  have "\<forall>x\<in>set (map spi_priority (swaplist_insert_pri sdp priority pris)). spi_priority p < x" if "spi_priority p < priority"
    unfolding insert_pri_set using that lt by auto
  then show ?case using Cons.IH [OF tl] Cons.prems by (auto simp: pris_pre_def)
qed (simp add: pris_pre_def)

lemma pris_ok_insert: "pris_ok pris \<Longrightarrow> swd_priority sdp = priority \<Longrightarrow> pris_ok (swaplist_insert_pri sdp priority pris)"
proof -
  have "\<forall>p\<in>set (swaplist_insert_pri sdp priority pris). spi_swapdev p \<noteq> []" if "\<forall>p\<in>set pris. spi_swapdev p \<noteq> []"
    using that by (induction pris) auto
  then show "pris_ok pris \<Longrightarrow> swd_priority sdp = priority \<Longrightarrow> ?thesis" by (simp add: pris_ok_def pris_pre_insert)
qed

lemma swap_devs_insert: "mset (swap_devs (swaplist_insert_pri sdp priority pris)) = add_mset sdp (mset (swap_devs pris))"
  by (induction pris) simp_all

lemma find_append: "find P (xs @ ys) = (case find P xs of None \<Rightarrow> find P ys | Some x \<Rightarrow> Some x)"
  by (induction xs) auto

lemma extract_vp:
  "List.extract (\<lambda>d. swd_vp d = vp) ds = Some (pre, x, post) \<Longrightarrow> ds = pre @ x # post \<and> swd_vp x = vp"
  by (simp add: extract_Some_iff)

text \<open>Taking a device out removes the one that was found; empty entries remain until the list is trimmed.\<close>

lemma remove_dev_devs:
  "find (\<lambda>d. swd_vp d = vp) (swap_devs pris) = Some sdp \<Longrightarrow>
     \<exists>xs ys. swap_devs pris = xs @ sdp # ys \<and> swap_devs (remove_dev vp pris) = xs @ ys \<and> swd_vp sdp = vp"
proof (induction pris)
  case (Cons p pris)
  show ?case
  proof (cases "List.extract (\<lambda>d. swd_vp d = vp) (spi_swapdev p)")
    case None
    then have no: "\<forall>d\<in>set (spi_swapdev p). swd_vp d \<noteq> vp" by (simp add: extract_None_iff)
    then have "find (\<lambda>d. swd_vp d = vp) (spi_swapdev p) = None" by (simp add: find_None_iff)
    then have "find (\<lambda>d. swd_vp d = vp) (swap_devs pris) = Some sdp" using Cons.prems by (simp add: find_append)
    then obtain xs ys where "swap_devs pris = xs @ sdp # ys" "swap_devs (remove_dev vp pris) = xs @ ys" "swd_vp sdp = vp" using Cons.IH by blast
    then show ?thesis using None by (intro exI [of _ "spi_swapdev p @ xs"] exI [of _ ys]) simp
  next
    case (Some t)
    obtain pre x post where t: "t = (pre, x, post)" by (cases t)
    have e: "spi_swapdev p = pre @ x # post" "swd_vp x = vp" "\<forall>d\<in>set pre. swd_vp d \<noteq> vp" using Some t by (auto simp: extract_Some_iff)
    moreover have "find (\<lambda>d. swd_vp d = vp) pre = None" using e(3) by (simp add: find_None_iff)
    ultimately have "x = sdp" using Cons.prems by (simp add: find_append)
    then show ?thesis using Some t e by (intro exI [of _ pre] exI [of _ "post @ swap_devs pris"]) simp
  qed
qed simp

lemma swap_devs_trim: "swap_devs (filter (\<lambda>spp. spi_swapdev spp \<noteq> []) pris) = swap_devs pris"
  by (induction pris) auto

lemma pris_pre_remove:
  assumes "pris_pre pris"
  shows "pris_pre (remove_dev vp pris)"
proof -
  have "map spi_priority (remove_dev vp pris) = map spi_priority pris"
    by (induction pris) (auto split: option.split)
  then have "sorted_wrt (<) (map spi_priority (remove_dev vp pris))" using assms by (simp add: pris_pre_def)
  moreover have "\<forall>p\<in>set (remove_dev vp pris). \<forall>d\<in>set (spi_swapdev p). swd_priority d = spi_priority p"
    using assms by (induction pris) (auto simp: pris_pre_def split: option.split dest!: extract_vp)
  ultimately show ?thesis by (simp add: pris_pre_def)
qed

lemma pris_ok_trim: "pris_pre pris \<Longrightarrow> pris_ok (filter (\<lambda>spp. spi_swapdev spp \<noteq> []) pris)"
  by (simp add: pris_pre_def pris_ok_def sorted_wrt_map sorted_wrt_filter)

lemma swap_devs_sorted: "pris_ok pris \<Longrightarrow> sorted (map swd_priority (swap_devs pris))"
proof (induction pris)
  case (Cons p pris)
  have "\<forall>q\<in>set pris. spi_priority p < spi_priority q" using Cons.prems by (simp add: pris_ok_def pris_pre_def)
  moreover have "\<forall>d\<in>set (swap_devs pris). \<exists>q\<in>set pris. swd_priority d = spi_priority q"
    using Cons.prems by (auto simp: pris_ok_def pris_pre_def swap_devs_def)
  moreover have c: "\<forall>d\<in>set (spi_swapdev p). swd_priority d = spi_priority p" using Cons.prems by (simp add: pris_ok_def pris_pre_def)
  moreover have "sorted (map swd_priority (spi_swapdev p))"
    using c by (simp add: sorted_wrt_iff_nth_less)
  moreover have "pris_ok pris" using Cons.prems by (simp add: pris_ok_def pris_pre_def)
  ultimately show ?case using Cons.IH by (fastforce simp: sorted_append)
qed simp

section \<open>Devices\<close>

definition dev_drum :: "swapdev \<Rightarrow> int \<times> int" where
  "dev_drum d = (swd_drumoffset d, swd_drumsize d)"

definition placeholder :: "swapdev \<Rightarrow> bool" where
  "placeholder d \<longleftrightarrow>
     swf_fake d \<and> \<not> swf_inuse d \<and> \<not> swf_enable d \<and> swd_npages d = 0 \<and> swd_npginuse d = 0 \<and> swd_npgbad d = 0 \<and> swd_drumsize d = 0"

text \<open>
  A device of which the slots \<open>Own\<close> are in use by pages: what is in use is owned or bad, no owned slot is free in the block list, and all other pages
  are free, but for one that hibernation may have reserved.
\<close>

definition dev_live :: "int set \<Rightarrow> swapdev \<Rightarrow> bool" where
  "dev_live Own d \<longleftrightarrow>
     \<not> swf_fake d \<and> swf_inuse d \<and> 0 \<le> swd_npgbad d \<and> swd_npginuse d = int (card (Own \<inter> drum_set (dev_drum d))) + swd_npgbad d \<and>
     (\<exists>bl F r. swd_blist d = Some bl \<and> blist_ok bl F \<and> int (bl_blocks bl) = swd_drumsize d \<and>
        (\<forall>b\<in>F. swd_drumoffset d + int b \<notin> Own) \<and> r \<in> {0, 1} \<and> int (card F) + swd_npginuse d + r = swd_npages d)"

lemma dev_liveE:
  assumes "dev_live Own d"
  obtains bl F r where "swd_blist d = Some bl" "blist_ok bl F" "int (bl_blocks bl) = swd_drumsize d"
    "\<forall>b\<in>F. swd_drumoffset d + int b \<notin> Own" "r \<in> {0, 1}" "int (card F) + swd_npginuse d + r = swd_npages d"
  using assms unfolding dev_live_def by blast

lemma dev_liveI:
  assumes "\<not> swf_fake d" "swf_inuse d" "0 \<le> swd_npgbad d" "swd_npginuse d = int (card (Own \<inter> drum_set (dev_drum d))) + swd_npgbad d"
    "swd_blist d = Some bl" "blist_ok bl F" "int (bl_blocks bl) = swd_drumsize d"
    "\<forall>b\<in>F. swd_drumoffset d + int b \<notin> Own" "r \<in> {0, 1}" "int (card F) + swd_npginuse d + r = swd_npages d"
  shows "dev_live Own d"
  using assms unfolding dev_live_def by blast

lemma dev_live_counts:
  "dev_live Own d \<Longrightarrow> \<not> swf_fake d \<and> swf_inuse d \<and> 0 \<le> swd_npgbad d \<and>
     swd_npginuse d = int (card (Own \<inter> drum_set (dev_drum d))) + swd_npgbad d"
  unfolding dev_live_def by blast

lemma dev_live_room: "dev_live Own d \<Longrightarrow> 0 \<le> swd_npginuse d \<and> swd_npginuse d \<le> swd_npages d"
  by (auto simp: dev_live_def)

lemma dev_live_same [simp]:
  "dev_live Own (d\<lparr>swd_priority := priority\<rparr>) = dev_live Own d" "dev_live Own (d\<lparr>swf_enable := enable\<rparr>) = dev_live Own d"
  "dev_live Own (d\<lparr>swd_inuse := inuse\<rparr>) = dev_live Own d"
  by (simp_all add: dev_live_def dev_drum_def)

text \<open>A refusal is known to be right for single pages: nothing is left but the reserved page.\<close>

definition refused :: "int \<Rightarrow> swapdev \<Rightarrow> bool" where
  "refused n d \<longleftrightarrow> (swf_enable d \<and> n = 1 \<longrightarrow> swd_npages d \<le> swd_npginuse d + 1)"

lemma dev_alloc:
  assumes live: "dev_live Own d" and n: "1 \<le> n" "n \<le> 64"
  obtains (none) bl where "blist_alloc_opt (swd_blist d) (nat n) = Inr (None, bl)" "dev_live Own (d\<lparr>swd_blist := bl\<rparr>)" "refused n d"
  | (some) b bl where "blist_alloc_opt (swd_blist d) (nat n) = Inr (Some b, bl)" "int b + n \<le> swd_drumsize d"
      "{swd_drumoffset d + int b..<swd_drumoffset d + int b + n} \<inter> Own = {}"
      "dev_live (Own \<union> {swd_drumoffset d + int b..<swd_drumoffset d + int b + n}) (d\<lparr>swd_blist := bl, swd_npginuse := swd_npginuse d + n\<rparr>)"
proof -
  obtain bl F r where d: "swd_blist d = Some bl" "blist_ok bl F" "int (bl_blocks bl) = swd_drumsize d"
    "\<forall>b\<in>F. swd_drumoffset d + int b \<notin> Own" "r \<in> {0, 1}" "int (card F) + swd_npginuse d + r = swd_npages d"
    by (rule dev_liveE [OF live])
  have c: "1 \<le> nat n" "nat n \<le> 64" using n by simp_all
  show ?thesis
  proof (cases rule: bl.alloc_cases [OF d(2) c])
    case (1 bl')
    note a = bl.alloc_none [OF d(2) c 1]
    then have "dev_live Own (d\<lparr>swd_blist := Some bl'\<rparr>)"
      using live d unfolding dev_live_def dev_drum_def by auto
    moreover have "refused n d" using a d(5,6) by (auto simp: refused_def)
    ultimately show ?thesis using none 1 d(1) by (simp add: blist_alloc_opt_def)
  next
    case (2 b bl')
    note a = bl.alloc_some [OF d(2) c 2]
    let ?B = "{b..<b + nat n}" and ?S = "{swd_drumoffset d + int b..<swd_drumoffset d + int b + n}"
    have inj: "x \<in> ?S \<Longrightarrow> \<exists>b'\<in>?B. x = swd_drumoffset d + int b'" for x
      by (intro bexI [of _ "nat (x - swd_drumoffset d)"]) auto
    have dis: "?S \<inter> Own = {}" using inj a d(4) by fastforce
    have le: "int b + n \<le> swd_drumsize d" using a d(3) n by linarith
    have fin: "finite F" by (rule bl.pool_finite [OF d(2)])
    have "card (F - ?B) = card F - nat n" using a by (simp add: card_Diff_subset)
    moreover have "nat n \<le> card F" using card_mono [OF fin, of ?B] a by simp
    ultimately have cF: "int (card (F - ?B)) = int (card F) - n" using n by simp
    have "?S \<subseteq> drum_set (dev_drum d)" using le by (auto simp: drum_set_def dev_drum_def)
    then have "(Own \<union> ?S) \<inter> drum_set (dev_drum d) = (Own \<inter> drum_set (dev_drum d)) \<union> ?S" by blast
    moreover have "finite (Own \<inter> drum_set (dev_drum d))" by (simp add: drum_set_def)
    moreover have "(Own \<inter> drum_set (dev_drum d)) \<inter> ?S = {}" using dis by blast
    ultimately have cO: "int (card ((Own \<union> ?S) \<inter> drum_set (dev_drum d))) = int (card (Own \<inter> drum_set (dev_drum d))) + n"
      using n by (simp add: card_Un_disjoint)
    have "\<forall>b'\<in>F - ?B. swd_drumoffset d + int b' \<notin> Own \<union> ?S" using d(4) n by auto
    then have "dev_live (Own \<union> ?S) (d\<lparr>swd_blist := Some bl', swd_npginuse := swd_npginuse d + n\<rparr>)"
      using live d(3,5,6) a cF cO unfolding dev_live_def dev_drum_def
      by (auto intro!: exI [of _ "F - ?B"] exI [of _ r])
    then show ?thesis using some 2 d(1) dis le by (simp add: blist_alloc_opt_def)
  qed
qed

lemma dev_free:
  assumes live: "dev_live Own d" and n: "1 \<le> n" and S: "{s..<s + n} \<subseteq> Own \<inter> drum_set (dev_drum d)"
  shows "n \<le> swd_npginuse d"
    and "\<exists>bl. blist_free_opt (swd_blist d) (nat (s - swd_drumoffset d)) (nat n) = Inr bl \<and>
      dev_live (Own - {s..<s + n}) (d\<lparr>swd_blist := bl, swd_npginuse := swd_npginuse d - n\<rparr>)"
proof -
  obtain bl F r where d: "swd_blist d = Some bl" "blist_ok bl F" "int (bl_blocks bl) = swd_drumsize d"
    "\<forall>b\<in>F. swd_drumoffset d + int b \<notin> Own" "r \<in> {0, 1}" "int (card F) + swd_npginuse d + r = swd_npages d"
    by (rule dev_liveE [OF live])
  let ?b = "nat (s - swd_drumoffset d)" and ?S = "{s..<s + n}"
  let ?B = "{?b..<?b + nat n}" and ?D = "drum_set (dev_drum d)"
  have "s \<in> ?D" "s + n - 1 \<in> ?D" using S n by auto
  then have b: "swd_drumoffset d + int ?b = s" "?b + nat n \<le> bl_blocks bl" using d(3) n by (auto simp: drum_set_def dev_drum_def)
  have fin: "finite (Own \<inter> ?D)" by (simp add: drum_set_def)
  have c: "card ?S \<le> card (Own \<inter> ?D)" by (rule card_mono [OF fin S])
  then show npg: "n \<le> swd_npginuse d" using dev_live_counts [OF live] n by (simp add: nat_le_iff)
  have inS: "swd_drumoffset d + int b' \<in> ?S" if "b' \<in> ?B" for b'
  proof -
    have "int ?b \<le> int b'" "int b' < int ?b + int (nat n)" using that by (simp_all only: atLeastLessThan_iff of_nat_add [symmetric] of_nat_less_iff of_nat_le_iff)
    then show ?thesis using b(1) n unfolding atLeastLessThan_iff by linarith
  qed
  then have "swd_drumoffset d + int b' \<in> Own" if "b' \<in> ?B" for b' using that S by blast
  then have dis: "F \<inter> ?B = {}" using d(4) by auto
  have one: "1 \<le> nat n" using n by simp
  obtain bl' where bl': "blist_free bl ?b (nat n) = Inr bl'" "bl_blocks bl' = bl_blocks bl" "blist_ok bl' (F \<union> ?B)"
    using bl.release_law [OF d(2) one b(2) dis] by blast
  have "card (F \<union> ?B) = card F + nat n" using dis bl.pool_finite [OF d(2)] by (simp add: card_Un_disjoint)
  moreover have "(Own - ?S) \<inter> ?D = Own \<inter> ?D - ?S" by blast
  then have "int (card ((Own - ?S) \<inter> ?D)) = int (card (Own \<inter> ?D)) - n"
    using card_Diff_subset [OF _ S] c n by (simp add: of_nat_diff)
  moreover have "\<forall>b'\<in>F \<union> ?B. swd_drumoffset d + int b' \<notin> Own - ?S" using d(4) inS by blast
  ultimately have "dev_live (Own - ?S) (d\<lparr>swd_blist := Some bl', swd_npginuse := swd_npginuse d - n\<rparr>)"
    using live d(3,5,6) bl' n unfolding dev_live_def dev_drum_def
    by (auto intro!: exI [of _ "F \<union> ?B"] exI [of _ r])
  then show "\<exists>bl. blist_free_opt (swd_blist d) ?b (nat n) = Inr bl \<and>
      dev_live (Own - ?S) (d\<lparr>swd_blist := bl, swd_npginuse := swd_npginuse d - n\<rparr>)"
    using d(1) bl'(1) by (simp add: blist_free_opt_def)
qed

lemma dev_markbad:
  assumes live: "dev_live Own d" and n: "1 \<le> n" and S: "{s..<s + n} \<subseteq> Own \<inter> drum_set (dev_drum d)"
  shows "dev_live (Own - {s..<s + n}) (d\<lparr>swd_npgbad := swd_npgbad d + n\<rparr>)"
proof -
  obtain bl F r where d: "swd_blist d = Some bl" "blist_ok bl F" "int (bl_blocks bl) = swd_drumsize d"
    "\<forall>b\<in>F. swd_drumoffset d + int b \<notin> Own" "r \<in> {0, 1}" "int (card F) + swd_npginuse d + r = swd_npages d"
    by (rule dev_liveE [OF live])
  let ?S = "{s..<s + n}" and ?D = "drum_set (dev_drum d)"
  have "finite (Own \<inter> ?D)" by (simp add: drum_set_def)
  then have "card ?S \<le> card (Own \<inter> ?D)" using S by (rule card_mono)
  moreover have "(Own - ?S) \<inter> ?D = Own \<inter> ?D - ?S" by blast
  ultimately have "int (card ((Own - ?S) \<inter> ?D)) = int (card (Own \<inter> ?D)) - n"
    using card_Diff_subset [OF _ S] n by (simp add: of_nat_diff)
  moreover have "\<forall>b\<in>F. swd_drumoffset d + int b \<notin> Own - ?S" using d(4) by blast
  ultimately show ?thesis using dev_live_counts [OF live] d n by (intro dev_liveI) (auto simp: dev_drum_def)
qed

text \<open>A device does not depend on the slots of others.\<close>

lemma dev_live_frame:
  assumes "dev_live Own d" "Own' \<inter> drum_set (dev_drum d) = Own \<inter> drum_set (dev_drum d)"
  shows "dev_live Own' d"
proof -
  obtain bl F r where d: "swd_blist d = Some bl" "blist_ok bl F" "int (bl_blocks bl) = swd_drumsize d"
    "\<forall>b\<in>F. swd_drumoffset d + int b \<notin> Own" "r \<in> {0, 1}" "int (card F) + swd_npginuse d + r = swd_npages d"
    by (rule dev_liveE [OF assms(1)])
  have "F \<subseteq> {..<bl_blocks bl}" by (rule bl.inside [OF d(2)])
  then have "swd_drumoffset d + int b \<in> drum_set (dev_drum d)" if "b \<in> F" for b
    using that d(3) by (force simp: drum_set_def dev_drum_def)
  then have "\<forall>b\<in>F. swd_drumoffset d + int b \<notin> Own'" using d(4) assms(2) by blast
  then show ?thesis using assms d unfolding dev_live_def by auto
qed

section \<open>The walk over the devices\<close>

text \<open>A device the walk passed: only its block list may have changed.\<close>

definition tried :: "int \<Rightarrow> swapdev \<Rightarrow> swapdev" where
  "tried n d =
     (if swf_enable d \<and> swd_npginuse d + n \<le> swd_npages d
      then (case blist_alloc_opt (swd_blist d) (nat n) of Inr (r, bl) \<Rightarrow> d\<lparr>swd_blist := bl\<rparr> | Inl _ \<Rightarrow> d)
      else d)"

definition granted :: "int \<Rightarrow> nat \<Rightarrow> swapdev \<Rightarrow> swapdev \<Rightarrow> bool" where
  "granted n b d d' \<longleftrightarrow>
     swf_enable d \<and> swd_npginuse d + n \<le> swd_npages d \<and>
     (\<exists>bl. blist_alloc_opt (swd_blist d) (nat n) = Inr (Some b, bl) \<and> d' = d\<lparr>swd_blist := bl, swd_npginuse := swd_npginuse d + n\<rparr>)"

definition passed :: "int set \<Rightarrow> int \<Rightarrow> swapdev \<Rightarrow> bool" where
  "passed Own n d \<longleftrightarrow> refused n d \<and> (dev_live Own d \<longrightarrow> dev_live Own (tried n d))"

abbreviation devs_ready :: "int set \<Rightarrow> swapdev list \<Rightarrow> bool" where
  "devs_ready Own ds \<equiv> \<forall>d\<in>set ds. placeholder d \<or> dev_live Own d"

lemma tailq_walk:
  assumes "devs_ready Own ds" "1 \<le> n" "n \<le> 64"
  shows "alloc_tailq n pre ds = Inr (None, pre @ map (tried n) ds) \<and> (\<forall>d\<in>set ds. passed Own n d) \<or>
    (\<exists>A d B b d'. ds = A @ d # B \<and> granted n b d d' \<and> (\<forall>d\<in>set A. passed Own n d) \<and>
       alloc_tailq n pre ds = Inr (Some (int b + swd_drumoffset d), pre @ map (tried n) A @ B @ [d']))"
  using assms(1)
proof (induction ds arbitrary: pre)
  case (Cons d ds)
  have rest: ?case if skip: "alloc_tailq n pre (d # ds) = alloc_tailq n (pre @ [tried n d]) ds" "passed Own n d"
  proof -
    consider (none) "alloc_tailq n (pre @ [tried n d]) ds = Inr (None, (pre @ [tried n d]) @ map (tried n) ds)" "\<forall>d\<in>set ds. passed Own n d"
      | (some) A x B b x' where "ds = A @ x # B" "granted n b x x'" "\<forall>d\<in>set A. passed Own n d"
        "alloc_tailq n (pre @ [tried n d]) ds = Inr (Some (int b + swd_drumoffset x), (pre @ [tried n d]) @ map (tried n) A @ B @ [x'])"
      using Cons.IH [of "pre @ [tried n d]"] Cons.prems by auto
    then show ?thesis
    proof cases
      case none
      then show ?thesis using skip by (intro disjI1) simp
    next
      case some
      then have "d # ds = (d # A) @ x # B" "\<forall>d\<in>set (d # A). passed Own n d"
        "alloc_tailq n pre (d # ds) = Inr (Some (int b + swd_drumoffset x), pre @ map (tried n) (d # A) @ B @ [x'])"
        using skip by simp_all
      then show ?thesis using some(2) by blast
    qed
  qed
  show ?case
  proof (cases "swf_enable d \<and> swd_npginuse d + n \<le> swd_npages d")
    case False
    then have "tried n d = d" unfolding tried_def by (rule if_not_P)
    moreover have "passed Own n d" using False \<open>tried n d = d\<close> by (auto simp: passed_def refused_def)
    moreover have "alloc_tailq n pre (d # ds) = alloc_tailq n (pre @ [d]) ds" using False by auto
    ultimately show ?thesis by (intro rest) simp_all
  next
    case True
    then have live: "dev_live Own d" using Cons.prems by (auto simp: placeholder_def)
    show ?thesis
    proof (cases rule: dev_alloc [OF live assms(2,3)])
      case (1 bl)
      note none = 1
      then have t: "tried n d = d\<lparr>swd_blist := bl\<rparr>" using True by (simp add: tried_def)
      then have "passed Own n d" using none by (simp add: passed_def)
      then show ?thesis using none True t by (intro rest) (simp_all add: ebind_def)
    next
      case (2 b bl)
      note some = 2
      let ?d = "d\<lparr>swd_blist := bl, swd_npginuse := swd_npginuse d + n\<rparr>"
      have "alloc_tailq n pre (d # ds) = Inr (Some (int b + swd_drumoffset d), pre @ map (tried n) [] @ ds @ [?d])"
        using some True assms(2) by (simp add: ebind_def)
      moreover have "granted n b d ?d" using some True by (simp add: granted_def)
      ultimately show ?thesis by (intro disjI2 exI [of _ "[]"] exI [of _ d] exI [of _ ds]) auto
    qed
  qed
qed simp

definition pris_tried :: "int \<Rightarrow> swappri list \<Rightarrow> swappri list" where
  "pris_tried n = map (\<lambda>p. p\<lparr>spi_swapdev := map (tried n) (spi_swapdev p)\<rparr>)"

lemma tried_fields [simp]:
  "swd_vp (tried n d) = swd_vp d" "swd_priority (tried n d) = swd_priority d" "dev_drum (tried n d) = dev_drum d"
  "swf_fake (tried n d) = swf_fake d" "swf_enable (tried n d) = swf_enable d" "swf_inuse (tried n d) = swf_inuse d"
  "swd_npages (tried n d) = swd_npages d"
  "swd_npginuse (tried n d) = swd_npginuse d" "swd_npgbad (tried n d) = swd_npgbad d" "swd_drumsize (tried n d) = swd_drumsize d"
  "swd_drumoffset (tried n d) = swd_drumoffset d"
  by (auto simp: tried_def dev_drum_def split: sum.split)

lemma swap_devs_tried: "swap_devs (pris_tried n pris) = map (tried n) (swap_devs pris)"
  by (induction pris) (simp_all add: pris_tried_def)

lemma pris_ok_tried: "pris_ok pris \<Longrightarrow> pris_ok (pris_tried n pris)"
  by (auto simp: pris_ok_def pris_pre_def pris_tried_def comp_def)

definition pris_granted :: "int set \<Rightarrow> int \<Rightarrow> swappri list \<Rightarrow> int \<Rightarrow> swappri list \<Rightarrow> bool" where
  "pris_granted Own n pris slot pris' \<longleftrightarrow>
     (\<exists>X d Y b d'. swap_devs pris = X @ d # Y \<and> granted n b d d' \<and> (\<forall>d\<in>set X. passed Own n d) \<and> slot = int b + swd_drumoffset d \<and>
        mset (swap_devs pris') = mset (map (tried n) X @ d' # Y) \<and>
        map spi_priority pris' = map spi_priority pris \<and> (pris_ok pris \<longrightarrow> pris_ok pris'))"

lemma pris_walk:
  assumes "devs_ready Own (swap_devs pris)" "1 \<le> n" "n \<le> 64"
  shows "alloc_pris n pris = Inr (None, pris_tried n pris) \<and> (\<forall>d\<in>set (swap_devs pris). passed Own n d) \<or>
    (\<exists>slot pris'. alloc_pris n pris = Inr (Some slot, pris') \<and> pris_granted Own n pris slot pris')"
  using assms(1)
proof (induction pris)
  case (Cons p pris)
  have rdy: "devs_ready Own (spi_swapdev p)" "devs_ready Own (swap_devs pris)" using Cons.prems by auto
  consider (none) "alloc_tailq n [] (spi_swapdev p) = Inr (None, map (tried n) (spi_swapdev p))" "\<forall>d\<in>set (spi_swapdev p). passed Own n d"
    | (some) A d B b d' where "spi_swapdev p = A @ d # B" "granted n b d d'" "\<forall>d\<in>set A. passed Own n d"
      "alloc_tailq n [] (spi_swapdev p) = Inr (Some (int b + swd_drumoffset d), map (tried n) A @ B @ [d'])"
    using tailq_walk [OF rdy(1) assms(2,3), of "[]"] by auto
  then show ?case
  proof cases
    case some
    let ?p = "p\<lparr>spi_swapdev := map (tried n) A @ B @ [d']\<rparr>"
    have "swd_priority d' = swd_priority d" using some(2) by (auto simp: granted_def)
    then have "pris_ok (p # pris) \<longrightarrow> pris_ok (?p # pris)" using some(1) by (auto simp: pris_ok_Cons)
    then have "pris_granted Own n (p # pris) (int b + swd_drumoffset d) (?p # pris)"
      unfolding pris_granted_def using some
      by (intro exI [of _ A] exI [of _ d] exI [of _ "B @ swap_devs pris"] exI [of _ b] exI [of _ d']) auto
    then show ?thesis using some(4) by (simp add: ebind_def)
  next
    case none
    let ?p = "p\<lparr>spi_swapdev := map (tried n) (spi_swapdev p)\<rparr>"
    consider (n2) "alloc_pris n pris = Inr (None, pris_tried n pris)" "\<forall>d\<in>set (swap_devs pris). passed Own n d"
      | (s2) slot pris' where "alloc_pris n pris = Inr (Some slot, pris')" "pris_granted Own n pris slot pris'"
      using Cons.IH [OF rdy(2)] by blast
    then show ?thesis
    proof cases
      case n2
      then show ?thesis using none by (intro disjI1) (auto simp: ebind_def pris_tried_def)
    next
      case s2
      then obtain X d Y b d' where g: "swap_devs pris = X @ d # Y" "granted n b d d'" "\<forall>d\<in>set X. passed Own n d" "slot = int b + swd_drumoffset d"
        "mset (swap_devs pris') = mset (map (tried n) X @ d' # Y)" "map spi_priority pris' = map spi_priority pris" "pris_ok pris \<longrightarrow> pris_ok pris'"
        unfolding pris_granted_def by blast
      have "set (map spi_priority pris') = set (map spi_priority pris)" using g(6) by (simp only:)
      then have "pris_ok (p # pris) \<longrightarrow> pris_ok (?p # pris')"
        using g(7) unfolding pris_ok_Cons by auto
      moreover have "swap_devs (p # pris) = (spi_swapdev p @ X) @ d # Y" by (simp add: g)
      moreover have "\<forall>d\<in>set (spi_swapdev p @ X). passed Own n d" using none(2) g(3) by auto
      moreover have "mset (swap_devs (?p # pris')) = mset (map (tried n) (spi_swapdev p @ X) @ d' # Y)" using g(5) by simp
      moreover have "map spi_priority (?p # pris') = map spi_priority (p # pris)" using g(6) by simp
      ultimately have "pris_granted Own n (p # pris) slot (?p # pris')" unfolding pris_granted_def using g(2,4) by blast
      then show ?thesis using s2 none(1) by (simp add: ebind_def)
    qed
  qed
qed (simp add: pris_tried_def)

end
