(* ===== verification/Swap_Slots.thy ===== *)
theory Swap_Slots
  imports Swap_Inv
begin

text \<open>
  The invariant of the swap configuration and the operations on slots: allocation, release and bad slots keep it, and none of their assertions
  fails for callers that own what they give back.
\<close>

section \<open>Consistency\<close>

definition drums :: "swapdev list \<Rightarrow> (int \<times> int) list" where
  "drums ds = map dev_drum (filter (\<lambda>d. \<not> swf_fake d) ds)"

lemma drums_simps [simp]:
  "drums [] = []" "drums (d # ds) = (if swf_fake d then drums ds else dev_drum d # drums ds)" "drums (xs @ ys) = drums xs @ drums ys"
  by (simp_all add: drums_def)

definition dev_ok :: "int set \<Rightarrow> nat option \<Rightarrow> swapdev \<Rightarrow> bool" where
  "dev_ok Own pend d \<longleftrightarrow> (if swf_fake d then placeholder d else dev_live Own d) \<and> (swf_enable d \<or> pend = Some (swd_vp d))"

definition devs_inv :: "int set \<Rightarrow> nat option \<Rightarrow> extent \<Rightarrow> swapdev list \<Rightarrow> bool" where
  "devs_inv Own pend ex ds \<longleftrightarrow>
     distinct (map swd_vp ds) \<and> (\<forall>d\<in>set ds. dev_ok Own pend d) \<and> distinct (drums ds) \<and> swapmap_ok ex (set (drums ds)) \<and>
     Own \<subseteq> (\<Union> (drum_set ` set (drums ds))) \<and> set_option pend \<subseteq> set (map swd_vp ds)"

text \<open>
  \<open>lost\<close> are the bad pages of devices that were swapped off: they stay counted in \<^verbatim>\<open>uvmexp.swpginuse\<close>. \<open>pend\<close> is the device of a \<^verbatim>\<open>SWAP_ON\<close> or \<^verbatim>\<open>SWAP_OFF\<close>
  that has released the data lock.
\<close>

definition counts_ok :: "int \<Rightarrow> uvmswap \<Rightarrow> swapdev list \<Rightarrow> bool" where
  "counts_ok lost st ds \<longleftrightarrow>
     nswapdev st = int (length ds) \<and> swpages st = sum_list (map swd_npages ds) \<and> swpginuse st = sum_list (map swd_npginuse ds) + lost"

definition swap_inv :: "int set \<Rightarrow> nat option \<Rightarrow> int \<Rightarrow> uvmswap \<Rightarrow> bool" where
  "swap_inv Own pend lost st \<longleftrightarrow>
     pris_ok (swap_priority st) \<and> devs_inv Own pend (swapmap st) (swap_devs (swap_priority st)) \<and>
     counts_ok lost st (swap_devs (swap_priority st)) \<and> 0 \<le> lost"

lemma mset_drums: "mset ds = mset ds' \<Longrightarrow> mset (drums ds) = mset (drums ds')"
  by (simp add: drums_def)

lemma devs_inv_mset:
  assumes "mset ds' = mset ds"
  shows "devs_inv Own pend ex ds' = devs_inv Own pend ex ds"
proof -
  have "set ds' = set ds" "set (drums ds') = set (drums ds)" "distinct (drums ds') = distinct (drums ds)"
    "distinct (map swd_vp ds') = distinct (map swd_vp ds)"
    using assms mset_drums [OF assms] mset_eq_setD mset_eq_imp_distinct_iff by (metis, metis, metis, metis mset_map)
  then show ?thesis by (simp add: devs_inv_def)
qed

lemma counts_ok_mset:
  assumes "mset ds' = mset ds"
  shows "counts_ok lost st ds' = counts_ok lost st ds"
proof -
  have "length ds' = length ds" using assms by (rule mset_eq_length)
  moreover have "sum_list (map f ds') = sum_list (map f ds)" for f :: "swapdev \<Rightarrow> int"
    using assms by (metis mset_map sum_mset_sum_list)
  ultimately show ?thesis by (simp add: counts_ok_def)
qed

lemma devs_inv_ready: "devs_inv Own pend ex ds \<Longrightarrow> devs_ready Own ds"
  by (auto simp: devs_inv_def dev_ok_def split: if_splits)

lemma swapmap_apart:
  assumes "swapmap_ok ex (set (drums ds))" "distinct (drums ds)" "ds = X @ d # Y" "\<not> swf_fake d" "e \<in> set (X @ Y)" "\<not> swf_fake e"
  shows "drum_set (dev_drum d) \<inter> drum_set (dev_drum e) = {}"
proof -
  have "dev_drum e \<in> set (drums X) \<union> set (drums Y)" using assms(5,6) by (auto simp: drums_def)
  then have "dev_drum d \<noteq> dev_drum e" "dev_drum d \<in> set (drums ds)" "dev_drum e \<in> set (drums ds)"
    using assms(2-4) by auto
  then show ?thesis using dr.disjoint [OF assms(1)] by (simp add: drums_disjoint_def)
qed

lemma swapmap_pos: "swapmap_ok ex R \<Longrightarrow> (off, n) \<in> R \<Longrightarrow> 1 \<le> off \<and> 1 \<le> n"
  using dr.bounds by blast

lemma vp_unique: "distinct (map swd_vp (X @ d # Y)) \<Longrightarrow> e \<in> set X \<or> e \<in> set Y \<Longrightarrow> swd_vp e \<noteq> swd_vp d"
  by (auto simp: image_iff)

text \<open>Changing one device, and the slots that are owned on it.\<close>

lemma devs_inv_change:
  assumes inv: "devs_inv Own pend ex (X @ d # Y)" and d: "\<not> swf_fake d" and d': "\<not> swf_fake d'" "swd_vp d' = swd_vp d" "dev_drum d' = dev_drum d"
    and live: "dev_live Own' d'" and en: "swf_enable d' \<or> pend' = Some (swd_vp d)" and pend: "pend' = pend \<or> pend' = Some (swd_vp d) \<and> pend = None \<or> pend = Some (swd_vp d) \<and> pend' = None"
    and own: "Own' - drum_set (dev_drum d) = Own - drum_set (dev_drum d)"
  shows "devs_inv Own' pend' ex (X @ d' # Y)"
proof -
  let ?D = "drum_set (dev_drum d)"
  have i: "distinct (map swd_vp (X @ d # Y))" "\<forall>d\<in>set (X @ d # Y). dev_ok Own pend d" "distinct (drums (X @ d # Y))"
    "swapmap_ok ex (set (drums (X @ d # Y)))" "Own \<subseteq> (\<Union> (drum_set ` set (drums (X @ d # Y))))"
    and pe: "set_option pend \<subseteq> set (map swd_vp (X @ d # Y))"
    using inv by (simp_all add: devs_inv_def)
  have "set_option pend' \<subseteq> set (map swd_vp (X @ d' # Y))" using pe pend d'(2) by auto
  moreover have dr: "drums (X @ d' # Y) = drums (X @ d # Y)" using d d' by simp
  moreover have "dev_ok Own' pend' e" if "e \<in> set (X @ Y)" for e
  proof -
    have ok: "dev_ok Own pend e" using i(2) that by auto
    have ne: "swd_vp e \<noteq> swd_vp d" using vp_unique [OF i(1)] that by simp
    have "dev_live Own' e" if "\<not> swf_fake e" "dev_live Own e"
    proof (rule dev_live_frame [OF that(2)])
      show "Own' \<inter> drum_set (dev_drum e) = Own \<inter> drum_set (dev_drum e)"
        using own swapmap_apart [OF i(4,3) refl d \<open>e \<in> set (X @ Y)\<close> that(1)] by blast
    qed
    then show ?thesis using ok pend ne by (auto simp: dev_ok_def)
  qed
  moreover have "dev_ok Own' pend' d'" using live en d' by (simp add: dev_ok_def)
  moreover have "?D \<subseteq> (\<Union> (drum_set ` set (drums (X @ d # Y))))" using d by auto
  then have "Own' \<subseteq> (\<Union> (drum_set ` set (drums (X @ d # Y))))" using i(5) own by blast
  ultimately show ?thesis using i d'(2) unfolding devs_inv_def dr by auto
qed

lemma find_split:
  assumes "find P xs = Some x"
  obtains A B where "xs = A @ x # B" "P x"
proof -
  have "x \<in> set xs" "P x" using assms by (auto simp: find_Some_iff)
  then show ?thesis using that split_list by metis
qed

text \<open>What \<^verbatim>\<open>swap_update\<close> does to the device of a vnode.\<close>

lemma update_split:
  assumes "swap_devs pris = X @ d # Y" "distinct (map swd_vp (swap_devs pris))"
  shows "swap_devs (swap_update (swd_vp d) f pris) = X @ f d # Y"
proof -
  have ne: "swd_vp e \<noteq> swd_vp d" if "e \<in> set X \<union> set Y" for e using vp_unique assms that by (metis Un_iff)
  have "map (\<lambda>e. if swd_vp e = swd_vp d then f e else e) X = X" "map (\<lambda>e. if swd_vp e = swd_vp d then f e else e) Y = Y"
    using ne by (auto intro!: map_idI)
  then show ?thesis by (simp add: swap_devs_update assms(1))
qed

lemma getsdp_owned:
  assumes inv: "devs_inv Own pend (swapmap st) (swap_devs (swap_priority st))" and own: "slot \<in> Own"
  obtains X d Y where "swapdrum_getsdp slot st = Some d" "swap_devs (swap_priority st) = X @ d # Y" "\<not> swf_fake d" "dev_live Own d"
    "slot \<in> drum_set (dev_drum d)"
proof -
  let ?ds = "swap_devs (swap_priority st)"
  have "slot \<in> (\<Union> (drum_set ` set (drums ?ds)))" using inv own by (auto simp: devs_inv_def)
  then obtain e where "e \<in> set ?ds" "in_drum slot e" by (auto simp: drums_def drum_set_def dev_drum_def in_drum_def)
  then obtain d where d: "swapdrum_getsdp slot st = Some d" unfolding swapdrum_getsdp_def by (metis find_None_iff not_None_eq)
  then obtain X Y where xy: "?ds = X @ d # Y" "in_drum slot d" unfolding swapdrum_getsdp_def by (rule find_split)
  have "dev_ok Own pend d" using inv xy by (auto simp: devs_inv_def)
  then have "\<not> swf_fake d" "dev_live Own d" using xy(2) by (auto simp: dev_ok_def placeholder_def in_drum_def split: if_splits)
  then show ?thesis using that d xy by (auto simp: drum_set_def dev_drum_def in_drum_def)
qed

lemma find_vp:
  assumes "swaplist_find vp st = Some d" 
  obtains X Y where "swap_devs (swap_priority st) = X @ d # Y" "swd_vp d = vp"
  using assms unfolding swaplist_find_def by (rule find_split)

section \<open>Allocating and freeing slots\<close>

lemma drums_tried: "drums (map (tried n) X) = drums X"
  by (induction X) simp_all

lemma dev_ok_tried: "dev_ok Own pend d \<Longrightarrow> passed Own n d \<Longrightarrow> dev_ok Own pend (tried n d)"
  by (auto simp: dev_ok_def passed_def placeholder_def)

lemma devs_inv_tried:
  assumes "devs_inv Own pend ex (X @ Y)" "\<forall>d\<in>set X. passed Own n d"
  shows "devs_inv Own pend ex (map (tried n) X @ Y)"
proof -
  have "map swd_vp (map (tried n) X @ Y) = map swd_vp (X @ Y)" by simp
  moreover have "drums (map (tried n) X @ Y) = drums (X @ Y)" by (simp add: drums_tried)
  moreover have "\<forall>d\<in>set (map (tried n) X @ Y). dev_ok Own pend d" using assms dev_ok_tried by (auto simp: devs_inv_def)
  ultimately show ?thesis using assms(1) unfolding devs_inv_def by (simp only:)
qed

lemma counts_ok_tried: "counts_ok lost st (map (tried n) X @ Y) = counts_ok lost st (X @ Y)"
  by (simp add: counts_ok_def comp_def)

definition slots_granted :: "int set \<Rightarrow> nat option \<Rightarrow> int \<Rightarrow> int \<Rightarrow> uvmswap \<Rightarrow> int \<Rightarrow> uvmswap \<Rightarrow> bool" where
  "slots_granted Own pend lost n st slot st' \<longleftrightarrow>
     {slot..<slot + n} \<inter> Own = {} \<and> swap_inv (Own \<union> {slot..<slot + n}) pend lost st' \<and>
     (\<exists>d\<in>set (swap_devs (swap_priority st)). swf_enable d \<and> 1 \<le> slot \<and> {slot..<slot + n} \<subseteq> drum_set (dev_drum d) \<and>
        (\<forall>e\<in>set (swap_devs (swap_priority st)). swd_priority e < swd_priority d \<longrightarrow> refused n e))"

lemma passed_frame:
  assumes inv: "devs_inv Own pend ex (X @ d # Y)" and d: "\<not> swf_fake d" and sub: "S \<subseteq> drum_set (dev_drum d)"
    and e: "e \<in> set (X @ Y)" and p: "passed Own n e"
  shows "passed (Own \<union> S) n e"
proof -
  have "dev_live (Own \<union> S) (tried n e)" if live: "dev_live (Own \<union> S) e"
  proof -
    have f: "\<not> swf_fake e" using live by (simp add: dev_live_counts)
    have "drum_set (dev_drum d) \<inter> drum_set (dev_drum e) = {}"
      by (rule swapmap_apart [OF _ _ refl d e f]) (use inv in \<open>auto simp: devs_inv_def\<close>)
    then have eq: "(Own \<union> S) \<inter> drum_set (dev_drum e) = Own \<inter> drum_set (dev_drum e)" using sub by blast
    have "dev_live Own e" using eq by (intro dev_live_frame [OF live]) simp
    then have "dev_live Own (tried n e)" using p by (simp add: passed_def)
    then show ?thesis by (rule dev_live_frame) (simp add: eq)
  qed
  then show ?thesis using p by (simp add: passed_def)
qed

lemma granted_inv:
  assumes inv: "swap_inv Own pend lost st" and n: "1 \<le> n" "n \<le> 64" and g: "pris_granted Own n (swap_priority st) slot pris'"
  shows "slots_granted Own pend lost n st slot (st\<lparr>swap_priority := pris', swpginuse := swpginuse st + n\<rparr>)"
proof -
  obtain X d Y b d' where g: "swap_devs (swap_priority st) = X @ d # Y" "granted n b d d'" "\<forall>d\<in>set X. passed Own n d" "slot = int b + swd_drumoffset d"
    "mset (swap_devs pris') = mset (map (tried n) X @ d' # Y)" "pris_ok pris'"
    using g inv unfolding pris_granted_def swap_inv_def by blast
  have di: "devs_inv Own pend (swapmap st) (X @ d # Y)" and ct: "counts_ok lost st (X @ d # Y)"
    using inv g(1) by (simp_all add: swap_inv_def)
  have d: "\<not> swf_fake d" "dev_live Own d" "swf_enable d" "dev_drum d \<in> set (drums (X @ d # Y))"
    using di g(2) by (auto simp: devs_inv_def dev_ok_def placeholder_def granted_def split: if_splits)
  let ?S = "{slot..<slot + n}"
  have S: "int b + n \<le> swd_drumsize d" "?S \<inter> Own = {}" "dev_live (Own \<union> ?S) d'"
    by (rule dev_alloc [OF d(2) n]; use g(2,4) in \<open>auto simp: granted_def add.commute\<close>)+
  have sub: "?S \<subseteq> drum_set (dev_drum d)" using S(1) by (auto simp: g(4) drum_set_def dev_drum_def)
  have d': "\<not> swf_fake d'" "swd_vp d' = swd_vp d" "dev_drum d' = dev_drum d" "swf_enable d'" "swd_npages d' = swd_npages d"
    "swd_npginuse d' = swd_npginuse d + n"
    using g(2) d(1) by (auto simp: granted_def dev_drum_def)
  have "devs_inv (Own \<union> ?S) pend (swapmap st) (X @ d' # Y)"
    by (rule devs_inv_change [OF di d(1) d'(1-3) S(3)]) (use d'(4) sub in auto)
  moreover have "\<forall>e\<in>set X. passed (Own \<union> ?S) n e" using passed_frame [OF di d(1) sub] g(3) by auto
  ultimately have "devs_inv (Own \<union> ?S) pend (swapmap st) (swap_devs pris')"
    using devs_inv_tried devs_inv_mset [OF g(5)] by blast
  moreover have "counts_ok lost (st\<lparr>swap_priority := pris', swpginuse := swpginuse st + n\<rparr>) (swap_devs pris')"
    unfolding counts_ok_mset [OF g(5)] counts_ok_tried using ct d' by (simp add: counts_ok_def)
  ultimately have "swap_inv (Own \<union> ?S) pend lost (st\<lparr>swap_priority := pris', swpginuse := swpginuse st + n\<rparr>)"
    using g(6) inv by (simp add: swap_inv_def)
  moreover have map: "swapmap_ok (swapmap st) (set (drums (X @ d # Y)))" using di by (simp only: devs_inv_def)
  have "1 \<le> slot" using swapmap_pos [OF map d(4) [unfolded dev_drum_def]] g(4) by linarith
  moreover have "\<forall>e\<in>set (X @ d # Y). swd_priority e < swd_priority d \<longrightarrow> refused n e"
  proof -
    have "sorted (map swd_priority (X @ d # Y))" using swap_devs_sorted inv g(1) by (metis swap_inv_def)
    then have "\<forall>e\<in>set Y. swd_priority d \<le> swd_priority e" by (simp add: sorted_append)
    then show ?thesis using g(3) by (auto simp: passed_def)
  qed
  ultimately show ?thesis using S(2) sub d(3) g(1) unfolding slots_granted_def by auto
qed

lemma refused_inv:
  assumes "swap_inv Own pend lost st" "\<forall>d\<in>set (swap_devs (swap_priority st)). passed Own n d"
  shows "swap_inv Own pend lost (st\<lparr>swap_priority := pris_tried n (swap_priority st)\<rparr>)"
proof -
  let ?ds = "swap_devs (swap_priority st)"
  have "devs_inv Own pend (swapmap st) (map (tried n) ?ds @ [])" using assms by (intro devs_inv_tried) (auto simp: swap_inv_def)
  moreover have "counts_ok lost st (map (tried n) ?ds @ [])" unfolding counts_ok_tried using assms(1) by (simp add: swap_inv_def)
  ultimately show ?thesis using assms(1) pris_ok_tried by (simp add: swap_inv_def swap_devs_tried counts_ok_def)
qed

definition swap_alloc_post :: "int set \<Rightarrow> nat option \<Rightarrow> int \<Rightarrow> int \<Rightarrow> bool \<Rightarrow> uvmswap \<Rightarrow> int \<Rightarrow> int \<Rightarrow> uvmswap \<Rightarrow> bool" where
  "swap_alloc_post Own pend lost n lessok st slot n' st' \<longleftrightarrow>
     (if slot = 0 then
        swap_inv Own pend lost st' \<and> (n = 1 \<or> lessok \<longrightarrow> (\<forall>d\<in>set (swap_devs (swap_priority st)). refused 1 d))
      else (n' = n \<or> n' = 1 \<and> lessok) \<and> slots_granted Own pend lost n' st slot st')"

lemma slots_granted_pos: "slots_granted Own pend lost n st slot st' \<Longrightarrow> slot \<noteq> 0"
  by (auto simp: slots_granted_def)

lemma refused_tried [simp]: "refused n (tried m d) = refused n d"
  by (simp add: refused_def)

lemma uvm_swap_alloc_ok:
  assumes inv: "swap_inv Own pend lost st" and n: "1 \<le> n" "n \<le> 64"
  shows "\<exists>slot n' st'. uvm_swap_alloc n lessok st = Inr (slot, n', st') \<and> swap_alloc_post Own pend lost n lessok st slot n' st'"
proof (cases "nswapdev st < 1")
  case True
  then have "swap_devs (swap_priority st) = []" using inv by (simp add: swap_inv_def counts_ok_def)
  then show ?thesis using True inv by (simp add: uvm_swap_alloc_def swap_alloc_post_def)
next
  case False
  let ?pris = "swap_priority st"
  have rdy: "devs_ready Own (swap_devs (swap_priority s))" if "swap_inv Own pend lost s" for s
    using that devs_inv_ready unfolding swap_inv_def by blast
  consider (some) slot pris' where "alloc_pris n ?pris = Inr (Some slot, pris')" "pris_granted Own n ?pris slot pris'"
    | (none) "alloc_pris n ?pris = Inr (None, pris_tried n ?pris)" "\<forall>d\<in>set (swap_devs ?pris). passed Own n d"
    using pris_walk [OF rdy [OF inv] n] by blast
  then show ?thesis
  proof cases
    case some
    note g = granted_inv [OF inv n some(2)]
    then show ?thesis using False some(1) slots_granted_pos [OF g]
      by (simp add: uvm_swap_alloc_def swap_alloc_post_def ebind_def)
  next
    case none
    let ?st = "st\<lparr>swap_priority := pris_tried n ?pris\<rparr>"
    note r = refused_inv [OF inv none(2)]
    show ?thesis
    proof (cases "n > 1 \<and> lessok")
      case no: False
      have "\<forall>d\<in>set (swap_devs ?pris). refused 1 d" if "n = 1" using none(2) that by (simp add: passed_def)
      then show ?thesis using False none(1) no r n by (auto simp: uvm_swap_alloc_def swap_alloc_post_def ebind_def)
    next
      case less: True
      have one: "(1 :: int) \<le> 1" "(1 :: int) \<le> 64" by simp_all
      consider (some1) slot pris' where "alloc_pris 1 (pris_tried n ?pris) = Inr (Some slot, pris')"
          "pris_granted Own 1 (pris_tried n ?pris) slot pris'"
        | (none1) "alloc_pris 1 (pris_tried n ?pris) = Inr (None, pris_tried 1 (pris_tried n ?pris))"
          "\<forall>d\<in>set (swap_devs (pris_tried n ?pris)). passed Own 1 d"
        using pris_walk [OF rdy [OF r] one] by auto
      then show ?thesis
      proof cases
        case some1
        have "slots_granted Own pend lost 1 ?st slot (?st\<lparr>swap_priority := pris', swpginuse := swpginuse ?st + 1\<rparr>)"
          using granted_inv [OF r one] some1(2) by simp
        then have g: "slots_granted Own pend lost 1 st slot (st\<lparr>swap_priority := pris', swpginuse := swpginuse st + 1\<rparr>)"
          by (simp add: slots_granted_def swap_devs_tried)
        then show ?thesis using False none(1) less some1(1) slots_granted_pos [OF g]
          by (simp add: uvm_swap_alloc_def swap_alloc_post_def ebind_def)
      next
        case none1
        then have "\<forall>d\<in>set (swap_devs ?pris). refused 1 d" by (auto simp: swap_devs_tried passed_def)
        moreover have "swap_inv Own pend lost (st\<lparr>swap_priority := pris_tried 1 (pris_tried n ?pris)\<rparr>)"
          using refused_inv [OF r, of 1] none1(2) by simp
        ultimately show ?thesis using False none(1) less none1(1) by (simp add: uvm_swap_alloc_def swap_alloc_post_def ebind_def)
      qed
    qed
  qed
qed

text \<open>Slots are freed and marked bad by those who own them, all of one device.\<close>

definition owned_range :: "int set \<Rightarrow> uvmswap \<Rightarrow> int \<Rightarrow> int \<Rightarrow> bool" where
  "owned_range Own st slot n \<longleftrightarrow> 1 \<le> n \<and> {slot..<slot + n} \<subseteq> Own \<and>
     (\<exists>d\<in>set (swap_devs (swap_priority st)). {slot..<slot + n} \<subseteq> drum_set (dev_drum d))"

lemma owned_rangeE:
  assumes inv: "devs_inv Own pend (swapmap st) (swap_devs (swap_priority st))" and own: "owned_range Own st slot n"
  obtains X d Y where "swapdrum_getsdp slot st = Some d" "swap_devs (swap_priority st) = X @ d # Y" "\<not> swf_fake d" "dev_live Own d"
    "{slot..<slot + n} \<subseteq> Own \<inter> drum_set (dev_drum d)" "slot \<noteq> SWSLOT_BAD"
proof -
  have slot: "slot \<in> Own" using own by (auto simp: owned_range_def)
  obtain X d Y where d: "swapdrum_getsdp slot st = Some d" "swap_devs (swap_priority st) = X @ d # Y" "\<not> swf_fake d" "dev_live Own d"
    "slot \<in> drum_set (dev_drum d)"
    by (rule getsdp_owned [OF inv slot])
  obtain e where e: "e \<in> set (X @ d # Y)" "{slot..<slot + n} \<subseteq> drum_set (dev_drum e)" using own d(2) by (auto simp: owned_range_def)
  have se: "slot \<in> drum_set (dev_drum e)" using e(2) own by (auto simp: owned_range_def)
  have "\<not> swf_fake e" using inv d(2) e(1) se by (auto simp: devs_inv_def dev_ok_def placeholder_def drum_set_def dev_drum_def split: if_splits)
  then have "e = d"
    using swapmap_apart [OF _ _ refl d(3), of "swapmap st" X Y e] inv d e(1) se by (auto simp: devs_inv_def)
  moreover have "dev_drum d \<in> set (drums (X @ d # Y))" using d(3) by simp
  then have "1 \<le> swd_drumoffset d" using inv d(2) swapmap_pos by (metis dev_drum_def devs_inv_def)
  then have "slot \<noteq> SWSLOT_BAD" using d(5) by (simp add: drum_set_def dev_drum_def kern_defs)
  ultimately show ?thesis using that d(1-4) e(2) own by (auto simp: owned_range_def)
qed

text \<open>Updating one device in place.\<close>

lemma update_inv:
  assumes inv: "swap_inv Own pend lost st" and ds: "swap_devs (swap_priority st) = X @ d # Y" and d: "\<not> swf_fake d"
    and f: "\<And>d. swd_priority (f d) = swd_priority d" "swf_fake (f d) = swf_fake d" "swd_vp (f d) = swd_vp d" "dev_drum (f d) = dev_drum d"
      "swd_npages (f d) = swd_npages d"
    and live: "dev_live Own' (f d)" and own: "Own' - drum_set (dev_drum d) = Own - drum_set (dev_drum d)"
    and en: "swf_enable (f d) \<or> pend' = Some (swd_vp d)" and pend: "pend' = pend \<or> pend' = Some (swd_vp d) \<and> pend = None \<or> pend = Some (swd_vp d) \<and> pend' = None"
  shows "swap_inv Own' pend' lost
    (st\<lparr>swap_priority := swap_update (swd_vp d) f (swap_priority st), swpginuse := swpginuse st + (swd_npginuse (f d) - swd_npginuse d)\<rparr>)"
proof -
  have di: "devs_inv Own pend (swapmap st) (X @ d # Y)" and ct: "counts_ok lost st (X @ d # Y)" using inv ds by (simp_all add: swap_inv_def)
  have devs: "swap_devs (swap_update (swd_vp d) f (swap_priority st)) = X @ f d # Y"
    using update_split [OF ds, of f] di ds by (simp add: devs_inv_def)
  have "devs_inv Own' pend' (swapmap st) (X @ f d # Y)"
    by (rule devs_inv_change [OF di d]) (use d f live own en pend in auto)
  then show ?thesis using inv ct f(1,5) devs by (simp add: swap_inv_def counts_ok_def pris_ok_update)
qed

lemma live_enable:
  assumes "swap_inv Own pend lost st" "swap_devs (swap_priority st) = X @ d # Y"
  shows "swf_enable d \<or> pend = Some (swd_vp d)"
  using assms by (auto simp: swap_inv_def devs_inv_def dev_ok_def)

lemma uvm_swap_free_ok:
  assumes inv: "swap_inv Own pend lost st" and own: "owned_range Own st slot n"
  shows "\<exists>st'. uvm_swap_free slot n st = Inr st' \<and> swap_inv (Own - {slot..<slot + n}) pend lost st'"
proof -
  let ?pris = "swap_priority st" and ?S = "{slot..<slot + n}"
  have di: "devs_inv Own pend (swapmap st) (swap_devs ?pris)" and ct: "counts_ok lost st (swap_devs ?pris)" using inv by (simp_all add: swap_inv_def)
  have n: "1 \<le> n" using own by (simp add: owned_range_def)
  obtain X d Y where d: "swapdrum_getsdp slot st = Some d" "swap_devs ?pris = X @ d # Y" "\<not> swf_fake d" "dev_live Own d"
    "?S \<subseteq> Own \<inter> drum_set (dev_drum d)" "slot \<noteq> SWSLOT_BAD" by (rule owned_rangeE [OF di own])
  obtain bl where bl: "blist_free_opt (swd_blist d) (nat (slot - swd_drumoffset d)) (nat n) = Inr bl"
    "dev_live (Own - ?S) (d\<lparr>swd_blist := bl, swd_npginuse := swd_npginuse d - n\<rparr>)"
    using dev_free [OF d(4) n d(5)] by blast
  let ?f = "\<lambda>d. d\<lparr>swd_blist := bl, swd_npginuse := swd_npginuse d - n\<rparr>"
  have "swap_inv (Own - ?S) pend lost
      (st\<lparr>swap_priority := swap_update (swd_vp d) ?f ?pris, swpginuse := swpginuse st + (swd_npginuse (?f d) - swd_npginuse d)\<rparr>)"
    by (rule update_inv [OF inv d(2,3)]) (use d bl live_enable [OF inv d(2)] in \<open>auto simp: dev_drum_def\<close>)
  moreover have "1 \<le> nswapdev st" using ct d(2) by (simp add: counts_ok_def)
  then have "uvm_swap_free slot n st = Inr (st\<lparr>swap_priority := swap_update (swd_vp d) ?f ?pris, swpginuse := swpginuse st - n\<rparr>)"
    using d(1,6) bl(1) dev_free(1) [OF d(4) n d(5)] by (simp add: uvm_swap_free_def ebind_def)
  ultimately show ?thesis by simp
qed

lemma uvm_swap_markbad_ok:
  assumes inv: "swap_inv Own pend lost st" and own: "owned_range Own st slot n"
  shows "swap_inv (Own - {slot..<slot + n}) pend lost (uvm_swap_markbad slot n st)"
proof -
  let ?pris = "swap_priority st" and ?S = "{slot..<slot + n}" and ?f = "\<lambda>d. d\<lparr>swd_npgbad := swd_npgbad d + n\<rparr>"
  have di: "devs_inv Own pend (swapmap st) (swap_devs ?pris)" using inv by (simp add: swap_inv_def)
  have n: "1 \<le> n" using own by (simp add: owned_range_def)
  obtain X d Y where d: "swapdrum_getsdp slot st = Some d" "swap_devs ?pris = X @ d # Y" "\<not> swf_fake d" "dev_live Own d"
    "?S \<subseteq> Own \<inter> drum_set (dev_drum d)" "slot \<noteq> SWSLOT_BAD" by (rule owned_rangeE [OF di own])
  have "swap_inv (Own - ?S) pend lost
      (st\<lparr>swap_priority := swap_update (swd_vp d) ?f ?pris, swpginuse := swpginuse st + (swd_npginuse (?f d) - swd_npginuse d)\<rparr>)"
    by (rule update_inv [OF inv d(2,3)]) (use d dev_markbad [OF d(4) n d(5)] live_enable [OF inv d(2)] in \<open>auto simp: dev_drum_def\<close>)
  then show ?thesis using d(1) by (simp add: uvm_swap_markbad_def)
qed

end
