(* ===== verification/Swap_Ctl.thy ===== *)
theory Swap_Ctl
  imports Swap_Slots
begin

text \<open>
  The requests of \<^verbatim>\<open>swapctl\<close> on a consistent configuration, and every interleaving of them with the operations on slots.
\<close>

section \<open>Enabling a device\<close>

text \<open>The block list of a new device: all pages but the first of a disk are free, or all but that and the last, which is kept for hibernation.\<close>

lemma swap_reserve_ok:
  assumes bl: "blist_ok bl {addr..<nat npages}" "bl_blocks bl = nat npages" and n: "int addr + sz = npages" "1 \<le> sz"
  shows "\<exists>bl' F r. swap_reserve env npages sz bl = Inr bl' \<and> blist_ok bl' F \<and> bl_blocks bl' = nat npages \<and> r \<in> {0, 1} \<and> int (card F) + r = sz"
proof (cases "se_hibernate env \<and> se_type env = VBLK \<and> sz > 3")
  case False
  have "int (card {addr..<nat npages}) + 0 = sz" using n by simp
  then show ?thesis using False bl by (auto simp: swap_reserve_def)
next
  case True
  let ?b = "nat (npages - 1)" and ?F = "{addr..<nat npages}"
  have b: "?b + 1 \<le> bl_blocks bl" "?b \<in> ?F" "{?b..<?b + 1} = {?b}" using bl(2) n by auto
  have post: "blist_fill_post bl ?F ?b 1 (blist_fill bl ?b 1)" by (rule blist_fill_ok [OF bl(1) order_refl b(1)])
  then obtain bl' where f: "blist_fill bl ?b 1 = Inr (1, bl')" "blist_ok bl' (?F - {?b})" "bl_blocks bl' = bl_blocks bl"
    using b(2) unfolding blist_fill_post_def b(3) by (cases "blist_fill bl ?b 1") auto
  have "int (card (?F - {?b})) + 1 = sz" using b(2) n by (simp add: card_Diff_singleton)
  then show ?thesis using True f bl(2) by (intro exI [of _ bl'] exI [of _ "?F - {?b}"] exI [of _ 1]) (simp add: swap_reserve_def)
qed

definition new_device :: "int set \<Rightarrow> (int \<times> int) set \<Rightarrow> swapdev \<Rightarrow> swapdev \<Rightarrow> extent \<Rightarrow> bool" where
  "new_device Own R sdp sdp' ex' \<longleftrightarrow>
     dev_drum sdp' \<notin> R \<and> swapmap_ok ex' (insert (dev_drum sdp') R) \<and> dev_live Own sdp' \<and> swf_enable sdp' \<and>
     swd_vp sdp' = swd_vp sdp \<and> swd_priority sdp' = swd_priority sdp \<and> swd_npginuse sdp' = 0"

lemma swap_drum_ok:
  assumes ex: "swapmap_ok ex R" and own: "Own \<subseteq> \<Union> (drum_set ` R)" and ph: "placeholder sdp"
    and bl: "blist_ok bl F" "bl_blocks bl = nat npages" "r \<in> {0, 1}" "int (card F) + r = sz" and n: "1 \<le> npages" "npages < 2 ^ 31"
  defines "on \<equiv> \<lambda>(sdp, ex). Inr (Inr (sdp\<lparr>swd_npages := sz, swf_fake := False, swf_inuse := True, swf_enable := True\<rparr>, ex))"
  shows "ebind (swapdrum_add (sdp\<lparr>swd_nblks := nb, swd_blist := Some bl\<rparr>) npages ex) on = Inl Sw_drum \<or>
    (\<exists>sdp' ex'. ebind (swapdrum_add (sdp\<lparr>swd_nblks := nb, swd_blist := Some bl\<rparr>) npages ex) on = Inr (Inr (sdp', ex')) \<and> new_device Own R sdp sdp' ex')"
  using ex n
proof (cases rule: dr.getE)
  case full
  then show ?thesis by (simp add: swapdrum_add_def ebind_def)
next
  case (got off ex')
  let ?d = "sdp\<lparr>swd_nblks := nb, swd_blist := Some bl, swd_drumoffset := off, swd_drumsize := npages, swd_npages := sz, swf_fake := False,
    swf_inuse := True, swf_enable := True\<rparr>"
  have "Own \<inter> drum_set (off, npages) = {}" using got(3) own by blast
  moreover have "off + int b \<in> drum_set (off, npages)" if "b \<in> F" for b
    using that bl.inside [OF bl(1)] bl(2) by (auto simp: drum_set_def)
  ultimately have "dev_live Own ?d"
    using ph bl n by (intro dev_liveI [where bl = bl and F = F and r = r]) (auto simp: placeholder_def dev_drum_def)
  then have "new_device Own R sdp ?d ex'" using got ph by (simp add: new_device_def dev_drum_def placeholder_def)
  then show ?thesis using got(1) by (auto simp: swapdrum_add_def ebind_def on_def)
qed

lemma swap_on_ok:
  assumes ex: "swapmap_ok ex R" and own: "Own \<subseteq> \<Union> (drum_set ` R)" and ph: "placeholder sdp"
  shows "(\<exists>e. swap_on junk env sdp ex = Inr (Inl e)) \<or> swap_on junk env sdp ex = Inl Sw_drum \<or>
    (\<exists>sdp' ex'. swap_on junk env sdp ex = Inr (Inr (sdp', ex')) \<and> new_device Own R sdp sdp' ex')"
proof (cases "se_vnd env \<or> \<not> se_root env \<and> se_open env \<noteq> None \<or> (\<exists>e. swap_nblocks env = Inl e)")
  case True
  then show ?thesis by (auto simp: swap_on_def)
next
  case False
  then obtain nblocks where nb: "swap_nblocks env = Inr nblocks" by (metis obj_sumE)
  define npages where "npages = swap_npages nblocks"
  define addr sz where "addr = (if se_type env = VBLK then 1 else 0 :: nat)" and "sz = (if se_type env = VBLK then npages - 1 else npages)"
  define rest :: "blist \<Rightarrow> sw_panic + (errno + swapdev \<times> extent)" where "rest = (\<lambda>bl. ebind (swap_reserve env npages sz bl) (\<lambda>bl.
    ebind (swapdrum_add (sdp\<lparr>swd_nblks := sint nblocks, swd_blist := Some bl\<rparr>) npages ex) (\<lambda>(sdp, ex).
    Inr (Inr (sdp\<lparr>swd_npages := sz, swf_fake := False, swf_inuse := True, swf_enable := True\<rparr>, ex)))))"
  have eq: "swap_on junk env sdp ex =
      (if sz < 1 then Inr (Inl EINVAL)
       else case blist_create junk (nat npages) of None \<Rightarrow> Inl Sw_hang | Some (Inl e) \<Rightarrow> Inl (Sw_blist e)
         | Some (Inr bl) \<Rightarrow> (case blist_free bl addr (nat sz) of Inl e \<Rightarrow> Inl (Sw_blist e) | Inr bl \<Rightarrow> rest bl))"
  proof -
    have c: "\<not> se_vnd env" "(\<not> se_root env \<and> se_open env \<noteq> None) = False" using False by auto
    show ?thesis
      unfolding swap_on_def rest_def sz_def addr_def npages_def c(2)
      using c(1) nb by (cases "se_type env = VBLK") (simp_all add: Let_def del: One_nat_def)
  qed
  show ?thesis
  proof (cases "sz < 1")
    case True
    then show ?thesis using eq by simp
  next
    case False
    have sum: "int addr + sz = npages" by (simp add: addr_def sz_def)
    have np: "1 \<le> npages" "npages < 2 ^ 31" using False sum sint_lt [of "ucast (drop_bit 12 (push_bit 9 (scast nblocks :: u64))) :: u32"]
      by (simp_all add: npages_def swap_npages_def)
    have "0 < nat npages" "nat npages \<le> 2 ^ 61" using np by simp_all
    then obtain bl0 where c: "blist_create junk (nat npages) = Some (Inr bl0)" "blist_ok bl0 {}" "bl_blocks bl0 = nat npages"
      using blist_create_ok by blast
    have s: "1 \<le> nat sz" "addr + nat sz = nat npages" using False sum by auto
    obtain bl1 where f: "blist_free bl0 addr (nat sz) = Inr bl1" "bl_blocks bl1 = nat npages" "blist_ok bl1 {addr..<nat npages}"
      using bl.release_law [OF c(2) s(1), of addr] c(3) s(2) by auto
    obtain bl F r where r: "swap_reserve env npages sz bl1 = Inr bl" "blist_ok bl F" "bl_blocks bl = nat npages" "r \<in> {0, 1}" "int (card F) + r = sz"
      using swap_reserve_ok [OF f(3,2) sum, of env] False by (auto simp del: insert_iff)
    have "swap_on junk env sdp ex = ebind (swapdrum_add (sdp\<lparr>swd_nblks := sint nblocks, swd_blist := Some bl\<rparr>) npages ex) (\<lambda>(sdp, ex).
        Inr (Inr (sdp\<lparr>swd_npages := sz, swf_fake := False, swf_inuse := True, swf_enable := True\<rparr>, ex)))"
      unfolding eq using False c(1) f(1) r(1) by (simp add: rest_def ebind_def)
    then show ?thesis using swap_drum_ok [OF ex own ph r(2-5) np, of "sint nblocks"] by auto
  qed
qed

section \<open>Requests\<close>

lemma devs_inv_map: "devs_inv Own pend ex ds \<Longrightarrow> swapmap_ok ex (set (drums ds)) \<and> Own \<subseteq> \<Union> (drum_set ` set (drums ds)) \<and> distinct (map swd_vp ds)"
  by (simp add: devs_inv_def)

text \<open>Taking a device without owned slots off the list.\<close>

lemma devs_inv_remove:
  assumes inv: "devs_inv Own (Some (swd_vp d)) ex (X @ d # Y)" and own: "swf_fake d \<or> Own \<inter> drum_set (dev_drum d) = {}"
    and map: "swapmap_ok ex' (set (drums (X @ d # Y)) - (if swf_fake d then {} else {dev_drum d}))"
  shows "devs_inv Own None ex' (X @ Y)"
proof -
  have i: "distinct (map swd_vp (X @ d # Y))" "\<forall>e\<in>set (X @ d # Y). dev_ok Own (Some (swd_vp d)) e" "distinct (drums (X @ d # Y))"
    "Own \<subseteq> \<Union> (drum_set ` set (drums (X @ d # Y)))"
    using inv by (simp_all add: devs_inv_def)
  have eq: "set (drums (X @ d # Y)) - (if swf_fake d then {} else {dev_drum d}) = set (drums (X @ Y))" using i(3) by auto
  have "swd_vp e \<noteq> swd_vp d" if "e \<in> set (X @ Y)" for e using vp_unique [OF i(1)] that by simp
  then have "\<forall>e\<in>set (X @ Y). dev_ok Own None e" using i(2) by (fastforce simp: dev_ok_def)
  moreover have "Own \<subseteq> \<Union> (drum_set ` set (drums (X @ Y)))" using i(4) own by (auto split: if_splits)
  ultimately show ?thesis using i(1,3) map unfolding eq by (auto simp: devs_inv_def split: if_splits)
qed

lemma remove_trim:
  assumes "swaplist_find vp st = Some d"
  obtains X Y where "swap_devs (swap_priority st) = X @ d # Y" "swd_vp d = vp"
    "swap_devs (swap_priority (swaplist_trim (swaplist_remove vp st))) = X @ Y"
    "pris_ok (swap_priority st) \<longrightarrow> pris_ok (swap_priority (swaplist_trim (swaplist_remove vp st)))"
proof -
  obtain X Y where "swap_devs (swap_priority st) = X @ d # Y" "swap_devs (remove_dev vp (swap_priority st)) = X @ Y" "swd_vp d = vp"
    using remove_dev_devs [of vp "swap_priority st" d] assms unfolding swaplist_find_def by blast
  then show ?thesis
    using that assms pris_ok_trim [OF pris_pre_remove]
    by (simp add: swaplist_trim_def swaplist_remove_def swap_devs_trim pris_ok_def)
qed

lemma remove_trim_fields [simp]:
  "swapmap (swaplist_trim (swaplist_remove vp st)) = swapmap st" "swpages (swaplist_trim (swaplist_remove vp st)) = swpages st"
  "swpginuse (swaplist_trim (swaplist_remove vp st)) = swpginuse st"
  "nswapdev (swaplist_trim (swaplist_remove vp st)) = nswapdev st - (if swaplist_find vp st = None then 0 else 1)"
  by (simp_all add: swaplist_trim_def swaplist_remove_def)

lemma on_begin_ok:
  assumes inv: "swap_inv Own None lost st" and r: "swapctl_on_begin vp dev vt swappable priority st = Inr st'"
  shows "swap_inv Own (Some vp) lost st'" "\<exists>d. swaplist_find vp st' = Some d \<and> swf_fake d"
proof -
  let ?d = "(new_swapdev vp dev)\<lparr>swd_priority := priority\<rparr>" and ?ds = "swap_devs (swap_priority st)"
  have none: "swaplist_find vp st = None" and st': "st' = swaplist_insert (new_swapdev vp dev) priority st"
    using r by (auto simp: swapctl_on_begin_def split: if_splits)
  have m: "mset (swap_devs (swap_priority st')) = mset (?d # ?ds)" unfolding st' by (simp add: swaplist_insert_def swap_devs_insert)
  have new: "\<forall>e\<in>set ?ds. swd_vp e \<noteq> vp" using none by (simp add: swaplist_find_def find_None_iff)
  have ph: "dev_ok Own (Some vp) ?d" "swf_fake ?d" "swd_vp ?d = vp" by (simp_all add: dev_ok_def placeholder_def new_swapdev_def)
  have "\<forall>e\<in>set ?ds. dev_ok Own (Some vp) e" using inv by (auto simp: swap_inv_def devs_inv_def dev_ok_def)
  then have "devs_inv Own (Some vp) (swapmap st) (?d # ?ds)" using inv ph new by (auto simp: swap_inv_def devs_inv_def)
  then have "devs_inv Own (Some vp) (swapmap st') (swap_devs (swap_priority st'))" 
    unfolding devs_inv_mset [OF m] by (simp add: st' swaplist_insert_def)
  moreover have "counts_ok lost st' (swap_devs (swap_priority st'))"
    unfolding counts_ok_mset [OF m] using inv by (simp add: swap_inv_def counts_ok_def st' swaplist_insert_def new_swapdev_def)
  moreover have "pris_ok (swap_priority st')" using inv by (simp add: swap_inv_def st' swaplist_insert_def pris_ok_insert)
  ultimately show "swap_inv Own (Some vp) lost st'" using inv by (simp add: swap_inv_def)
  have s: "set (swap_devs (swap_priority st')) = insert ?d (set ?ds)" using mset_eq_setD [OF m] by simp
  then have "swaplist_find vp st' \<noteq> None" using ph(3) by (auto simp: swaplist_find_def find_None_iff)
  then obtain d where d: "swaplist_find vp st' = Some d" by blast
  obtain A B where "swap_devs (swap_priority st') = A @ d # B" "swd_vp d = vp" by (rule find_vp [OF d])
  then have "d = ?d" using s new by auto
  then show "\<exists>d. swaplist_find vp st' = Some d \<and> swf_fake d" using d ph(2) by blast
qed

lemma on_end_ok:
  assumes inv: "swap_inv Own (Some vp) lost st" and f: "swaplist_find vp st = Some sdp" "swf_fake sdp"
  shows "swapctl_on_end junk env vp st = Inl Sw_drum \<or> (\<exists>e st'. swapctl_on_end junk env vp st = Inr (e, st') \<and> swap_inv Own None lost st')"
proof -
  let ?trim = "swaplist_trim (swaplist_remove vp st)"
  obtain X Y where xy: "swap_devs (swap_priority st) = X @ sdp # Y" "swd_vp sdp = vp" "swap_devs (swap_priority ?trim) = X @ Y"
    "pris_ok (swap_priority st) \<longrightarrow> pris_ok (swap_priority ?trim)" by (rule remove_trim [OF f(1)])
  have di: "devs_inv Own (Some vp) (swapmap st) (X @ sdp # Y)" and ct: "counts_ok lost st (X @ sdp # Y)" using inv xy(1) by (simp_all add: swap_inv_def)
  have ph: "placeholder sdp" using di f(2) by (auto simp: devs_inv_def dev_ok_def)
  have map: "swapmap_ok (swapmap st) (set (drums (X @ Y)))" "Own \<subseteq> \<Union> (drum_set ` set (drums (X @ Y)))"
    using devs_inv_map [OF di] f(2) by simp_all
  have vps: "distinct (map swd_vp (swap_devs (swap_priority st)))" using devs_inv_map [OF di] xy(1) by simp
  have rem: "devs_inv Own None (swapmap st) (X @ Y)"
    by (rule devs_inv_remove [of Own sdp "swapmap st"]) (use di f(2) xy(2) map in simp_all)
  consider (err) e where "swap_on junk env sdp (swapmap st) = Inr (Inl e)" | (full) "swap_on junk env sdp (swapmap st) = Inl Sw_drum"
    | (on) sdp' ex' where "swap_on junk env sdp (swapmap st) = Inr (Inr (sdp', ex'))" "new_device Own (set (drums (X @ Y))) sdp sdp' ex'"
    using swap_on_ok [OF map ph, of junk env] by blast
  then show ?thesis
  proof cases
    case err
    have "counts_ok lost ?trim (X @ Y)" using ct ph f(1) by (simp add: counts_ok_def placeholder_def)
    then have "swap_inv Own None lost ?trim" using inv xy rem by (simp add: swap_inv_def)
    then show ?thesis using f(1) err by (auto simp: swapctl_on_end_def ebind_def)
  next
    case full
    then show ?thesis using f(1) by (simp add: swapctl_on_end_def ebind_def)
  next
    case on
    then have n: "dev_drum sdp' \<notin> set (drums (X @ Y))" "swapmap_ok ex' (insert (dev_drum sdp') (set (drums (X @ Y))))" "dev_live Own sdp'"
      "swf_enable sdp'" "swd_vp sdp' = vp" "swd_priority sdp' = swd_priority sdp" "swd_npginuse sdp' = 0"
      by (auto simp: new_device_def xy(2))
    let ?st = "st\<lparr>swap_priority := swap_update vp (\<lambda>_. sdp') (swap_priority st), swapmap := ex', swpages := swpages st + swd_npages sdp'\<rparr>"
    have devs: "swap_devs (swap_priority ?st) = X @ sdp' # Y" using update_split [OF xy(1) vps, of "\<lambda>_. sdp'"] xy(2) by simp
    have nf: "\<not> swf_fake sdp'" using dev_live_counts [OF n(3)] by simp
    have "swd_vp ` set (X @ Y) \<inter> {vp} = {}" "distinct (map swd_vp (X @ Y))" using vps xy(1,2) by auto
    then have "devs_inv Own None ex' (X @ sdp' # Y)"
      using rem n(1-5) nf by (auto simp: devs_inv_def dev_ok_def)
    moreover have "counts_ok lost ?st (X @ sdp' # Y)" using ct n(7) ph by (simp add: counts_ok_def placeholder_def)
    moreover have "pris_ok (swap_priority ?st)"
    proof -
      have "d = sdp" if "d \<in> set (swap_devs (swap_priority st))" "swd_vp d = vp" for d
        using that vp_unique [OF vps [unfolded xy(1)], of d] xy(1,2) by auto
      then show ?thesis using inv n(6) by (auto simp: swap_inv_def intro!: pris_ok_update)
    qed
    ultimately have "swap_inv Own None lost ?st" using inv devs by (simp add: swap_inv_def)
    then show ?thesis using f(1) on(1) by (auto simp: swapctl_on_end_def ebind_def)
  qed
qed

lemma ctl_ok:
  assumes inv: "swap_inv Own None lost st"
  shows "swap_inv Own None lost (snd (swapctl_ctl vp priority st))"
proof (cases "swaplist_find vp st")
  case None
  then show ?thesis using inv by (simp add: swapctl_ctl_def)
next
  case (Some d)
  let ?d = "d\<lparr>swd_priority := priority\<rparr>" and ?rm = "remove_dev vp (swap_priority st)"
  let ?st = "swaplist_trim (swaplist_insert d priority (swaplist_remove vp st))"
  obtain X Y where xy: "swap_devs (swap_priority st) = X @ d # Y" "swap_devs ?rm = X @ Y" "swd_vp d = vp"
    using remove_dev_devs [of vp "swap_priority st" d] Some unfolding swaplist_find_def by blast
  have st: "swap_priority ?st = filter (\<lambda>p. spi_swapdev p \<noteq> []) (swaplist_insert_pri ?d priority ?rm)" "nswapdev ?st = nswapdev st"
    "swapmap ?st = swapmap st" "swpages ?st = swpages st" "swpginuse ?st = swpginuse st"
    using Some by (simp_all add: swaplist_trim_def swaplist_insert_def swaplist_remove_def)
  have di: "devs_inv Own None (swapmap st) (X @ d # Y)" and ct: "counts_ok lost st (X @ d # Y)" using inv xy(1) by (simp_all add: swap_inv_def)
  have m: "mset (swap_devs (swap_priority ?st)) = mset (X @ ?d # Y)" using xy(2) by (simp add: st swap_devs_trim swap_devs_insert)
  have d: "\<not> swf_fake d" "dev_live Own d" "swf_enable d" using di by (auto simp: devs_inv_def dev_ok_def placeholder_def split: if_splits)
  have "devs_inv Own None (swapmap st) (X @ ?d # Y)"
    by (rule devs_inv_change [OF di d(1)]) (use d in \<open>auto simp: dev_drum_def\<close>)
  moreover have "counts_ok lost ?st (X @ ?d # Y)" using ct by (simp add: counts_ok_def st)
  moreover have "pris_ok (swap_priority ?st)"
    unfolding st(1) using inv by (intro pris_ok_trim pris_pre_insert pris_pre_remove) (simp_all add: swap_inv_def pris_ok_def)
  ultimately have "swap_inv Own None lost ?st"
    unfolding swap_inv_def st(3) devs_inv_mset [OF m] counts_ok_mset [OF m] using inv by (simp add: swap_inv_def)
  then show ?thesis using Some by (simp add: swapctl_ctl_def)
qed

lemma off_begin_ok:
  assumes inv: "swap_inv Own None lost st" and r: "swapctl_off_begin vp st = Inr st'"
  shows "swap_inv Own (Some vp) lost st'" "\<exists>d. swaplist_find vp st' = Some d \<and> \<not> swf_fake d"
proof -
  let ?f = "\<lambda>d. d\<lparr>swf_enable := False\<rparr>"
  obtain d where d: "swaplist_find vp st = Some d" and st': "st' = st\<lparr>swap_priority := swap_update vp ?f (swap_priority st)\<rparr>"
    using r by (auto simp: swapctl_off_begin_def split: option.splits if_splits)
  obtain X Y where xy: "swap_devs (swap_priority st) = X @ d # Y" "swd_vp d = vp" by (rule find_vp [OF d])
  have di: "devs_inv Own None (swapmap st) (X @ d # Y)" using inv xy(1) by (simp add: swap_inv_def)
  then have live: "\<not> swf_fake d" "dev_live Own d" by (auto simp: devs_inv_def dev_ok_def placeholder_def split: if_splits)
  have "swap_inv Own (Some vp) lost
      (st\<lparr>swap_priority := swap_update (swd_vp d) ?f (swap_priority st), swpginuse := swpginuse st + (swd_npginuse (?f d) - swd_npginuse d)\<rparr>)"
    by (rule update_inv [OF inv xy(1) live(1)]) (use live xy(2) in \<open>auto simp: dev_drum_def\<close>)
  then show "swap_inv Own (Some vp) lost st'" by (simp add: st' xy(2))
  have vps: "distinct (map swd_vp (swap_devs (swap_priority st)))" using devs_inv_map [OF di] xy(1) by simp
  then have "swap_devs (swap_priority st') = X @ ?f d # Y" using update_split [OF xy(1), of ?f] xy(2) by (simp add: st')
  moreover have "find (\<lambda>d. swd_vp d = vp) X = None" using vp_unique [OF vps [unfolded xy(1)]] xy(2) by (auto simp: find_None_iff)
  ultimately have "swaplist_find vp st' = Some (?f d)" using xy(2) by (simp add: swaplist_find_def find_append)
  then show "\<exists>d. swaplist_find vp st' = Some d \<and> \<not> swf_fake d" using live(1) by simp
qed

definition off_post :: "int set \<Rightarrow> int \<Rightarrow> swapdev \<Rightarrow> errno option \<Rightarrow> uvmswap \<Rightarrow> bool" where
  "off_post Own lost d e st' \<longleftrightarrow>
     (if e = None then Own \<inter> drum_set (dev_drum d) = {} \<and> swap_inv Own None (lost + swd_npgbad d) st' \<and> swaplist_find (swd_vp d) st' = None
      else swap_inv Own None lost st')"

lemma off_end_ok:
  assumes inv: "swap_inv Own (Some vp) lost st" and f: "swaplist_find vp st = Some d" "\<not> swf_fake d"
  shows "\<exists>e st'. swapctl_off_end nomem vp st = Inr (e, st') \<and> off_post Own lost d e st'"
proof -
  let ?st = "st\<lparr>swpages := swpages st - swd_npages d\<rparr>"
  let ?trim = "swaplist_trim (swaplist_remove vp ?st)" and ?f = "\<lambda>d. d\<lparr>swf_enable := True\<rparr>"
  have f': "swaplist_find vp ?st = Some d" using f(1) by (simp add: swaplist_find_def)
  obtain X Y where xy: "swap_devs (swap_priority ?st) = X @ d # Y" "swd_vp d = vp" "swap_devs (swap_priority ?trim) = X @ Y"
    "pris_ok (swap_priority ?st) \<longrightarrow> pris_ok (swap_priority ?trim)" by (rule remove_trim [OF f'])
  have ds: "swap_devs (swap_priority st) = X @ d # Y" using xy(1) by simp
  have di: "devs_inv Own (Some vp) (swapmap st) (X @ d # Y)" and ct: "counts_ok lost st (X @ d # Y)" using inv ds by (simp_all add: swap_inv_def)
  have live: "dev_live Own d" using di f(2) by (auto simp: devs_inv_def dev_ok_def)
  show ?thesis
  proof (cases "nomem \<or> swd_npginuse d > swd_npgbad d")
    case True
    have "swap_inv Own None lost
        (st\<lparr>swap_priority := swap_update (swd_vp d) ?f (swap_priority st), swpginuse := swpginuse st + (swd_npginuse (?f d) - swd_npginuse d)\<rparr>)"
      by (rule update_inv [OF inv ds f(2)]) (use live xy(2) in \<open>auto simp: dev_drum_def\<close>)
    then show ?thesis using True f(1) by (auto simp: swapctl_off_end_def off_post_def Let_def xy(2))
  next
    case False
    have "card (Own \<inter> drum_set (dev_drum d)) = 0" using dev_live_counts [OF live] False by simp
    then have none: "Own \<inter> drum_set (dev_drum d) = {}" by (simp add: drum_set_def)
    have "dev_drum d \<in> set (drums (X @ d # Y))" using f(2) by simp
    then obtain ex' where ex': "drum_free (swd_drumoffset d) (swd_drumsize d) (swapmap st) = Inr ex'"
      "swapmap_ok ex' (set (drums (X @ d # Y)) - {dev_drum d})"
      using dr.put_law devs_inv_map [OF di] unfolding dev_drum_def by blast
    have "devs_inv Own None ex' (X @ Y)"
      by (rule devs_inv_remove [of Own d "swapmap st"]) (use di none f(2) ex'(2) xy(2) in simp_all)
    moreover have "counts_ok (lost + swd_npgbad d) (?trim\<lparr>swapmap := ex'\<rparr>) (X @ Y)"
      using ct f' dev_live_counts [OF live] False none by (simp add: counts_ok_def)
    ultimately have "swap_inv Own None (lost + swd_npgbad d) (?trim\<lparr>swapmap := ex'\<rparr>)"
      using inv xy(3,4) dev_live_counts [OF live] by (simp add: swap_inv_def)
    moreover have "swaplist_find vp (?trim\<lparr>swapmap := ex'\<rparr>) = None"
      using vp_unique [of X d Y] devs_inv_map [OF di] xy(2,3) by (auto simp del: map_append simp: swaplist_find_def find_None_iff)
    ultimately have "off_post Own lost d None (?trim\<lparr>swapmap := ex'\<rparr>)" using none xy(2) by (simp add: off_post_def)
    moreover have "swapctl_off_end nomem vp st = Inr (None, ?trim\<lparr>swapmap := ex'\<rparr>)"
      using False f(1) ex'(1) by (simp add: swapctl_off_end_def Let_def ebind_def)
    ultimately show ?thesis by blast
  qed
qed

text \<open>Reporting sets a field that nothing else reads.\<close>

definition reported :: "swapdev \<Rightarrow> swapdev \<Rightarrow> bool" where
  "reported d d' \<longleftrightarrow> (\<exists>inuse. d' = d\<lparr>swd_inuse := inuse\<rparr>)"

lemma reported_refl [simp]: "reported d d"
  unfolding reported_def by (intro exI [of _ "swd_inuse d"]) simp

lemma stats_devs_reported: "list_all2 reported ds (snd (snd (stats_devs copyout misc n ds)))"
proof (induction copyout misc n ds rule: stats_devs.induct)
  case (2 copyout misc n sdp rest)
  have "reported sdp (sdp\<lparr>swd_inuse := swd_npginuse sdp * 8\<rparr>)" unfolding reported_def by blast
  then show ?case using 2 by (auto simp: Let_def list.rel_refl split: prod.splits option.splits)
qed simp

definition pri_reported :: "swappri \<Rightarrow> swappri \<Rightarrow> bool" where
  "pri_reported p p' \<longleftrightarrow> spi_priority p' = spi_priority p \<and> list_all2 reported (spi_swapdev p) (spi_swapdev p')"

lemma stats_pris_reported: "list_all2 pri_reported pris (snd (snd (stats_pris copyout misc n pris)))"
proof (induction copyout misc n pris rule: stats_pris.induct)
  case (2 copyout misc n p rest)
  have "pri_reported p (p\<lparr>spi_swapdev := snd (snd (stats_devs copyout misc n (spi_swapdev p)))\<rparr>)"
    using stats_devs_reported by (simp add: pri_reported_def)
  moreover have "list_all2 pri_reported rest rest" by (simp add: pri_reported_def list.rel_refl)
  ultimately show ?case using 2 by (auto simp: Let_def split: prod.splits)
qed simp

lemma reported_map: "list_all2 reported ds ds' \<Longrightarrow> (\<And>d inuse. f (d\<lparr>swd_inuse := inuse\<rparr>) = f d) \<Longrightarrow> map f ds' = map f ds"
  by (induction rule: list_all2_induct) (auto simp: reported_def)

lemma reported_drums: "list_all2 reported ds ds' \<Longrightarrow> drums ds' = drums ds"
  by (induction rule: list_all2_induct) (auto simp: reported_def dev_drum_def)

lemma pri_reported_entry:
  assumes "pri_reported p p'"
  shows "spi_swapdev p' = [] \<longleftrightarrow> spi_swapdev p = []"
    and "(\<forall>d\<in>set (spi_swapdev p'). swd_priority d = spi_priority p') \<longleftrightarrow> (\<forall>d\<in>set (spi_swapdev p). swd_priority d = spi_priority p)"
proof -
  have l: "list_all2 reported (spi_swapdev p) (spi_swapdev p')" and p: "spi_priority p' = spi_priority p" using assms by (simp_all add: pri_reported_def)
  show "spi_swapdev p' = [] \<longleftrightarrow> spi_swapdev p = []" using list_all2_lengthD [OF l] by auto
  have "set (map swd_priority (spi_swapdev p')) = set (map swd_priority (spi_swapdev p))" using reported_map [OF l, of swd_priority] by simp
  then have "(\<forall>x\<in>set (map swd_priority (spi_swapdev p')). x = spi_priority p) \<longleftrightarrow> (\<forall>x\<in>set (map swd_priority (spi_swapdev p)). x = spi_priority p)"
    by (simp only:)
  then show "(\<forall>d\<in>set (spi_swapdev p'). swd_priority d = spi_priority p') \<longleftrightarrow> (\<forall>d\<in>set (spi_swapdev p). swd_priority d = spi_priority p)"
    by (simp add: p)
qed

lemma pris_reported:
  assumes "list_all2 pri_reported pris pris'"
  shows "list_all2 reported (swap_devs pris) (swap_devs pris')" "map spi_priority pris' = map spi_priority pris" "pris_ok pris \<Longrightarrow> pris_ok pris'"
proof -
  show "list_all2 reported (swap_devs pris) (swap_devs pris')"
    using assms by (induction rule: list_all2_induct) (auto simp: pri_reported_def intro: list_all2_appendI)
  show m: "map spi_priority pris' = map spi_priority pris"
    using assms by (induction rule: list_all2_induct) (auto simp: pri_reported_def)
  have "\<exists>p\<in>set pris. pri_reported p p'" if "p' \<in> set pris'" for p'
    using assms that by (induction rule: list_all2_induct) auto
  then have "spi_swapdev p' \<noteq> [] \<and> (\<forall>d\<in>set (spi_swapdev p'). swd_priority d = spi_priority p')"
    if "pris_ok pris" "p' \<in> set pris'" for p'
    using that pri_reported_entry unfolding pris_ok_def pris_pre_def by blast
  then show "pris_ok pris'" if "pris_ok pris"
    using that unfolding pris_ok_def pris_pre_def m by blast
qed

lemma stats_ok:
  assumes inv: "swap_inv Own pend lost st"
  shows "swap_inv Own pend lost (snd (swapctl_stats copyout misc st))"
proof -
  define pris' where "pris' = snd (snd (stats_pris copyout misc 0 (swap_priority st)))"
  note r = pris_reported [OF stats_pris_reported [of "swap_priority st" copyout misc 0, folded pris'_def]]
  let ?ds = "swap_devs (swap_priority st)" and ?ds' = "swap_devs pris'"
  have m: "map swd_vp ?ds' = map swd_vp ?ds" "map swd_npages ?ds' = map swd_npages ?ds" "map swd_npginuse ?ds' = map swd_npginuse ?ds"
    "drums ?ds' = drums ?ds"
    by (rule reported_map [OF r(1)] reported_drums [OF r(1)]; simp)+
  have "map (dev_ok Own pend) ?ds' = map (dev_ok Own pend) ?ds"
    by (rule reported_map [OF r(1)]) (simp add: dev_ok_def placeholder_def)
  then have "(\<forall>b\<in>set (map (dev_ok Own pend) ?ds'). b) = (\<forall>b\<in>set (map (dev_ok Own pend) ?ds). b)" by (simp only:)
  then have "(\<forall>d\<in>set ?ds'. dev_ok Own pend d) = (\<forall>d\<in>set ?ds. dev_ok Own pend d)" by simp
  moreover have "length ?ds' = length ?ds" using m(1) by (metis length_map)
  moreover have "snd (swapctl_stats copyout misc st) = st\<lparr>swap_priority := pris'\<rparr>"
    by (simp add: swapctl_stats_def pris'_def Let_def split: prod.split)
  ultimately show ?thesis using inv r(3) m by (simp add: swap_inv_def devs_inv_def counts_ok_def)
qed

end
