(* ===== verification/Swap_Steps.thy ===== *)
theory Swap_Steps
  imports Swap_Ctl
begin

text \<open>
  The swap configuration as a system: page-out, page-in and \<^verbatim>\<open>swapctl\<close> interleave at every point where the data lock is not held. The reachable
  states satisfy the invariant, and the theorems about slots and devices are stated for them.
\<close>

section \<open>Steps\<close>

text \<open>
  \<open>sw_owned\<close> are the slots that pages own: those that \<^verbatim>\<open>uvm_swap_alloc\<close> has returned and that were not freed or marked bad. \<open>sw_pending\<close> is the device of the
  request that holds \<^verbatim>\<open>swap_syscall_lock\<close>, \<open>sw_lost\<close> the number of bad pages of devices that are gone.
\<close>

record swsys =
  sw_st :: uvmswap
  sw_owned :: "int set"
  sw_pending :: "nat option"
  sw_lost :: int

definition is_fake :: "nat \<Rightarrow> uvmswap \<Rightarrow> bool" where
  "is_fake vp st \<longleftrightarrow> (case swaplist_find vp st of None \<Rightarrow> False | Some d \<Rightarrow> swf_fake d)"

definition bad_pages :: "nat \<Rightarrow> uvmswap \<Rightarrow> int" where
  "bad_pages vp st = (case swaplist_find vp st of None \<Rightarrow> 0 | Some d \<Rightarrow> swd_npgbad d)"

inductive swap_step :: "swsys \<Rightarrow> swsys \<Rightarrow> bool" where
  step_alloc: "1 \<le> n \<Longrightarrow> n \<le> 64 \<Longrightarrow> uvm_swap_alloc n lessok (sw_st s) = Inr (slot, n', st') \<Longrightarrow>
    swap_step s (s\<lparr>sw_st := st', sw_owned := sw_owned s \<union> (if slot = 0 then {} else {slot..<slot + n'})\<rparr>)"
| step_free: "owned_range (sw_owned s) (sw_st s) slot n \<Longrightarrow> uvm_swap_free slot n (sw_st s) = Inr st' \<Longrightarrow>
    swap_step s (s\<lparr>sw_st := st', sw_owned := sw_owned s - {slot..<slot + n}\<rparr>)"
| step_markbad: "owned_range (sw_owned s) (sw_st s) slot n \<Longrightarrow>
    swap_step s (s\<lparr>sw_st := uvm_swap_markbad slot n (sw_st s), sw_owned := sw_owned s - {slot..<slot + n}\<rparr>)"
| step_on_begin: "sw_pending s = None \<Longrightarrow> swapctl_on_begin vp dev vt swappable priority (sw_st s) = Inr st' \<Longrightarrow>
    swap_step s (s\<lparr>sw_st := st', sw_pending := Some vp\<rparr>)"
| step_on_end: "sw_pending s = Some vp \<Longrightarrow> is_fake vp (sw_st s) \<Longrightarrow> swapctl_on_end junk env vp (sw_st s) = Inr (e, st') \<Longrightarrow>
    swap_step s (s\<lparr>sw_st := st', sw_pending := None\<rparr>)"
| step_ctl: "sw_pending s = None \<Longrightarrow> swap_step s (s\<lparr>sw_st := snd (swapctl_ctl vp priority (sw_st s))\<rparr>)"
| step_off_begin: "sw_pending s = None \<Longrightarrow> swapctl_off_begin vp (sw_st s) = Inr st' \<Longrightarrow>
    swap_step s (s\<lparr>sw_st := st', sw_pending := Some vp\<rparr>)"
| step_off_end: "sw_pending s = Some vp \<Longrightarrow> \<not> is_fake vp (sw_st s) \<Longrightarrow> swapctl_off_end nomem vp (sw_st s) = Inr (e, st') \<Longrightarrow>
    swap_step s (s\<lparr>sw_st := st', sw_pending := None, sw_lost := sw_lost s + (if e = None then bad_pages vp (sw_st s) else 0)\<rparr>)"
| step_stats: "sw_pending s = None \<Longrightarrow> swap_step s (s\<lparr>sw_st := snd (swapctl_stats copyout misc (sw_st s))\<rparr>)"

inductive swap_reach :: "swsys \<Rightarrow> bool" where
  reach_init: "uvm_swap_init = Some st \<Longrightarrow> swap_reach \<lparr>sw_st = st, sw_owned = {}, sw_pending = None, sw_lost = 0\<rparr>"
| reach_step: "swap_reach s \<Longrightarrow> swap_step s s' \<Longrightarrow> swap_reach s'"

lemma uvm_swap_init_ok: "uvm_swap_init = Some st \<Longrightarrow> swap_inv {} None 0 st"
  by (auto simp: uvm_swap_init_def extent_create_def Let_def swap_inv_def pris_ok_def pris_pre_def devs_inv_def counts_ok_def swapmap_ok_def
      drums_disjoint_def ex_inv_def)

abbreviation sys_inv :: "swsys \<Rightarrow> bool" where
  "sys_inv s \<equiv> swap_inv (sw_owned s) (sw_pending s) (sw_lost s) (sw_st s)"

lemma pending_found:
  assumes "swap_inv Own (Some vp) lost st"
  obtains d where "swaplist_find vp st = Some d" "swf_fake d = is_fake vp st" "swd_npgbad d = bad_pages vp st"
proof -
  have "vp \<in> swd_vp ` set (swap_devs (swap_priority st))" using assms by (simp add: swap_inv_def devs_inv_def)
  then have "swaplist_find vp st \<noteq> None" by (auto simp: swaplist_find_def find_None_iff)
  then show ?thesis using that by (auto simp: is_fake_def bad_pages_def)
qed

lemma step_inv: "swap_step s s' \<Longrightarrow> sys_inv s \<Longrightarrow> sys_inv s'"
proof (induction rule: swap_step.induct)
  case (step_alloc n lessok s slot n' st')
  obtain slot1 n1 st1 where "uvm_swap_alloc n lessok (sw_st s) = Inr (slot1, n1, st1)"
    "swap_alloc_post (sw_owned s) (sw_pending s) (sw_lost s) n lessok (sw_st s) slot1 n1 st1"
    using uvm_swap_alloc_ok [OF step_alloc(4,1,2)] by blast
  then show ?case using step_alloc(3) by (simp add: swap_alloc_post_def slots_granted_def split: if_splits)
next
  case (step_free s slot n st')
  then show ?case using uvm_swap_free_ok [OF step_free(3,1)] by auto
next
  case (step_markbad s slot n)
  then show ?case using uvm_swap_markbad_ok by simp
next
  case (step_on_begin s vp dev vt swappable priority st')
  then show ?case using on_begin_ok(1) by simp
next
  case (step_on_end s vp junk env e st')
  then obtain d where "swaplist_find vp (sw_st s) = Some d" "swf_fake d" using pending_found by (metis step_on_end(1,2,4))
  then show ?case using on_end_ok [of "sw_owned s" vp "sw_lost s" "sw_st s" d junk env] step_on_end by auto
next
  case (step_ctl s vp priority)
  then show ?case using ctl_ok by simp
next
  case (step_off_begin s vp st')
  then show ?case using off_begin_ok(1) by simp
next
  case (step_off_end s vp nomem e st')
  then obtain d where d: "swaplist_find vp (sw_st s) = Some d" "\<not> swf_fake d" "swd_npgbad d = bad_pages vp (sw_st s)"
    using pending_found by (metis step_off_end(1,2,4))
  then show ?case using off_end_ok [of "sw_owned s" vp "sw_lost s" "sw_st s" d nomem] step_off_end
    by (auto simp: off_post_def split: if_splits)
next
  case (step_stats s copyout misc)
  then show ?case using stats_ok by simp
qed

lemma reach_inv: "swap_reach s \<Longrightarrow> sys_inv s"
  by (induction rule: swap_reach.induct) (auto simp: uvm_swap_init_ok dest: step_inv)

section \<open>A run\<close>

text \<open>A file of ten pages is swapped on, a slot is allocated and turns out bad, and the file is swapped off.\<close>

definition demo_env :: swap_env where
  "demo_env = \<lparr>se_vnd = False, se_root = False, se_open = None, se_type = VREG, se_psize = None, se_getattr = Inr 40960, se_statfs = None,
     se_hibernate = False\<rparr>"

definition demo_junk :: "nat \<Rightarrow> blmeta" where
  "demo_junk = (\<lambda>_. \<lparr>bmu = 7, bm_bighint = BL_TERM\<rparr>)"

definition right :: "'a \<Rightarrow> 'e + 'a \<Rightarrow> 'a" where
  "right d r = (case r of Inl _ \<Rightarrow> d | Inr x \<Rightarrow> x)"

definition demo0 :: uvmswap where
  "demo0 = \<lparr>swap_priority = [], nswapdev = 0, swpages = 0, swpginuse = 0, swapmap = \<lparr>ex_name = ''swapmap'', ex_regions = [],
     ex_start = 1, ex_end = 0x7fffffff, exf_fixed = False, exf_nocoalesce = False, exf_wanted = False, exf_flwanted = False, fex_freelist = []\<rparr>\<rparr>"

definition demo1 :: uvmswap where
  "demo1 = right demo0 (swapctl_on_begin 1 0 VREG True 5 demo0)"

definition demo2 :: uvmswap where
  "demo2 = snd (right (None, demo1) (swapctl_on_end demo_junk demo_env 1 demo1))"

definition demo3 :: uvmswap where
  "demo3 = snd (snd (right (0, 0, demo2) (uvm_swap_alloc 1 True demo2)))"

definition demo4 :: uvmswap where
  "demo4 = uvm_swap_markbad 1 1 demo3"

definition demo5 :: uvmswap where
  "demo5 = right demo4 (swapctl_off_begin 1 demo4)"

definition demo6 :: uvmswap where
  "demo6 = snd (right (None, demo5) (swapctl_off_end False 1 demo5))"

lemma demo_runs:
  "uvm_swap_init = Some demo0" "swapctl_on_begin 1 0 VREG True 5 demo0 = Inr demo1" "is_fake 1 demo1"
  "swapctl_on_end demo_junk demo_env 1 demo1 = Inr (None, demo2)" "uvm_swap_alloc 1 True demo2 = Inr (1, 1, demo3)"
  "list_ex (\<lambda>d. swd_drumoffset d = 1 \<and> swd_drumsize d = 10) (swap_devs (swap_priority demo3))"
  "swapctl_off_begin 1 demo4 = Inr demo5" "\<not> is_fake 1 demo5" "swapctl_off_end False 1 demo5 = Inr (None, demo6)"
  by code_simp+

lemma demo_reach2: "swap_reach \<lparr>sw_st = demo2, sw_owned = {}, sw_pending = None, sw_lost = 0\<rparr>"
proof -
  have "swap_reach \<lparr>sw_st = demo0, sw_owned = {}, sw_pending = None, sw_lost = 0\<rparr>" by (rule reach_init [OF demo_runs(1)])
  from reach_step [OF this step_on_begin, of 1 0 VREG True 5 demo1]
  have "swap_reach \<lparr>sw_st = demo1, sw_owned = {}, sw_pending = Some 1, sw_lost = 0\<rparr>" using demo_runs(2) by simp
  from reach_step [OF this step_on_end, of 1 demo_junk demo_env None demo2] show ?thesis using demo_runs(3,4) by simp
qed

lemma demo_reach3: "swap_reach \<lparr>sw_st = demo3, sw_owned = {1..<1 + 1}, sw_pending = None, sw_lost = 0\<rparr>"
  using reach_step [OF demo_reach2 step_alloc, of 1 True 1 1 demo3] demo_runs(5) by simp

lemma demo_owned: "owned_range {1..<1 + 1} demo3 1 1"
  using demo_runs(6) by (force simp: owned_range_def drum_set_def dev_drum_def list_ex_iff)

lemma demo_reach5: "swap_reach \<lparr>sw_st = demo5, sw_owned = {}, sw_pending = Some 1, sw_lost = 0\<rparr>"
proof -
  from reach_step [OF demo_reach3 step_markbad, of 1 1]
  have "swap_reach \<lparr>sw_st = demo4, sw_owned = {}, sw_pending = None, sw_lost = 0\<rparr>" using demo_owned by (simp add: demo4_def)
  from reach_step [OF this step_off_begin, of 1 demo5] show ?thesis using demo_runs(7) by simp
qed

section \<open>Properties\<close>









text \<open>C39: As long as no device with bad pages was swapped off, the pages in use never exceed the pages there are, so that the assertion in \<^verbatim>\<open>uvm_swapisfilled\<close>
  holds and it tells whether less than a cluster is left.\<close>

theorem swapisfilled_exact:
  assumes "swap_reach s" "sw_lost s = 0"
  shows "uvm_swapisfilled (sw_st s) = Inr (swpages (sw_st s) - swpginuse (sw_st s) \<le> 16)"
proof -
  let ?ds = "swap_devs (swap_priority (sw_st s))"
  have inv: "swap_inv (sw_owned s) (sw_pending s) 0 (sw_st s)" using reach_inv [OF assms(1)] assms(2) by simp
  then have "\<forall>d\<in>set ?ds. swd_npginuse d \<le> swd_npages d"
    using dev_live_room by (auto simp: swap_inv_def devs_inv_def dev_ok_def placeholder_def split: if_splits)
  then have "sum_list (map swd_npginuse ?ds) \<le> sum_list (map swd_npages ?ds)" by (intro sum_list_mono) simp
  then show ?thesis using inv by (auto simp: swap_inv_def counts_ok_def uvm_swapisfilled_def kern_defs)
qed

theorem swapisfilled_exact_witness: "uvm_swapisfilled demo3 = Inr (swpages demo3 - swpginuse demo3 \<le> 16)"
  using swapisfilled_exact [OF demo_reach3] by simp


end
